(* ===== verification/Prelude.thy ===== *)
theory Prelude
  imports Main "HOL-Library.Word"
begin

text \<open>
  Shared vocabulary of the development: names for the machine integers and byte strings of
  the code, the collections of facts that the component proofs draw on, and generic lemmas
  on lists, words and positional values that several components use.
\<close>

unbundle bit_operations_syntax

subsection \<open>Types\<close>

type_synonym u8 = "8 word"
type_synonym u16 = "16 word"
type_synonym u32 = "32 word"
type_synonym u64 = "64 word"

text \<open>A byte vector, \<open>std::vector<unsigned char>\<close> in the code.\<close>

type_synonym bytes = "u8 list"

subsection \<open>Collections\<close>

named_theorems wf_intros \<open>well-formedness of the results of the operations\<close>
named_theorems value_simps \<open>values denoted by the results of the operations\<close>

subsection \<open>Words\<close>

lemma unat_ucast_down_32 [simp]: "unat (ucast (n :: u64) :: u32) = unat n mod 2 ^ 32"
  by (simp add: unsigned_ucast_eq take_bit_eq_mod)

lemma unat_ucast_up_32 [simp]: "unat (ucast (n :: u32) :: u64) = unat n"
  using unsigned_less [of n, where 'a = nat]
  by (simp add: unsigned_ucast_eq take_bit_eq_mod)

lemma unat_u32_less: "unat (x :: u32) < 4294967296"
  using unsigned_less [of x, where 'a = nat] by simp

lemma unat_u64_less: "unat (x :: u64) < 18446744073709551616"
  using unsigned_less [of x, where 'a = nat] by simp

lemma unat_u8_less: "unat (x :: u8) < 256"
  using unsigned_less [of x, where 'a = nat] by simp

lemma unat_drop_bit: "unat (drop_bit k (x :: 'a::len word)) = unat x div 2 ^ k"
  by (rule trans [OF unat_drop_bit_eq]) (simp add: drop_bit_eq_div)

subsection \<open>Positional values\<close>

text \<open>
  The value of a sequence of digits, least significant first, is the library's
  \<open>horner_sum\<close>.
\<close>

lemma horner_sum_append_nat:
  "horner_sum f (b :: nat) (xs @ ys) = horner_sum f b xs + b ^ length xs * horner_sum f b ys"
  by (induction xs) (simp_all add: algebra_simps)

lemma horner_sum_less:
  assumes "\<And>x. x \<in> set xs \<Longrightarrow> f x < (b :: nat)"
  shows "horner_sum f b xs < b ^ length xs"
  using assms
proof (induction xs)
  case Nil
  then show ?case by simp
next
  case (Cons x xs)
  then have fx: "f x + 1 \<le> b" and "horner_sum f b xs + 1 \<le> b ^ length xs"
    by (auto simp: Suc_le_eq)
  then have "b * (horner_sum f b xs + 1) \<le> b * b ^ length xs"
    by (intro mult_le_mono2)
  with fx have "f x + b * horner_sum f b xs + 1 \<le> b * b ^ length xs"
    by (simp add: algebra_simps)
  then show ?case by simp
qed

lemma horner_sum_zero:
  assumes "\<And>x. x \<in> set xs \<Longrightarrow> f x = (0 :: nat)"
  shows "horner_sum f b xs = 0"
  using assms by (induction xs) auto

lemma horner_sum_eq_0_iff:
  "0 < b \<Longrightarrow> horner_sum f (b :: nat) xs = 0 \<longleftrightarrow> (\<forall>x \<in> set xs. f x = 0)"
  by (induction xs) auto

lemma horner_sum_inj:
  assumes "\<And>x. x \<in> set xs \<union> set ys \<Longrightarrow> f x < (b :: nat)" and "inj f"
    and "length xs = length ys" and "horner_sum f b xs = horner_sum f b ys"
  shows "xs = ys"
  using assms(3,1,4)
proof (induction xs ys rule: list_induct2)
  case Nil
  then show ?case by simp
next
  case (Cons x xs y ys)
  then have lt: "f x < b" "f y < b" by auto
  have eq: "f x + b * horner_sum f b xs = f y + b * horner_sum f b ys"
    using Cons.prems by simp
  then have "(f x + b * horner_sum f b xs) mod b = (f y + b * horner_sum f b ys) mod b"
    by simp
  with lt have hd_eq: "f x = f y" by simp
  with eq lt have "horner_sum f b xs = horner_sum f b ys" by simp
  moreover have "\<And>z. z \<in> set xs \<union> set ys \<Longrightarrow> f z < b" using Cons.prems(1) by auto
  ultimately have "xs = ys" using Cons.IH by blast
  with hd_eq \<open>inj f\<close> show ?case by (simp add: inj_eq)
qed

subsection \<open>Lists\<close>

lemma map2_take: "map2 f (take n xs) (take n ys) = take n (map2 f xs ys)"
  by (simp add: take_map take_zip)

lemma list_length_8:
  assumes "length xs = (8 :: nat)"
  obtains a b c d e f g h where "xs = [a, b, c, d, e, f, g, h]"
  using assms by (auto simp: numeral_eq_Suc length_Suc_conv)

end
