(* ===== verification/ArithUint256.thy ===== *)
theory ArithUint256
  imports Prelude
begin

text \<open>
  The 256-bit unsigned integers of \<open>arith_uint256.h\<close> and \<open>arith_uint256.cpp\<close>
  (\<open>base_uint<256>\<close>): eight 32-bit limbs \<open>pn[0], ..., pn[7]\<close>, least significant first,
  with the schoolbook loops of the code over the limbs. The abstraction \<open>uval\<close> reads the
  limbs as a natural number; every operation is shown to compute the arithmetic operation
  on naturals modulo \<open>2 ^ 256\<close>.
\<close>

subsection \<open>Representation\<close>

type_synonym base_uint = "u32 list"

definition WIDTH :: nat where
  "WIDTH = 8"

definition wf_uint :: "base_uint \<Rightarrow> bool" where
  "wf_uint pn \<longleftrightarrow> length pn = WIDTH"

definition uval :: "base_uint \<Rightarrow> nat" where
  "uval pn = horner_sum unat (2 ^ 32) pn"

subsection \<open>Construction, tests and bitwise operations\<close>

definition uint_zero :: base_uint where
  "uint_zero = replicate WIDTH 0"

definition uint_of_u64 :: "u64 \<Rightarrow> base_uint" where
  "uint_of_u64 b = [ucast b, ucast (drop_bit 32 b)] @ replicate (WIDTH - 2) 0"

definition uint_is_zero :: "base_uint \<Rightarrow> bool" where
  "uint_is_zero pn \<longleftrightarrow> list_all (\<lambda>w. w = 0) pn"

definition uint_compl :: "base_uint \<Rightarrow> base_uint" where
  "uint_compl pn = map (\<lambda>w. NOT w) pn"

definition uint_xor :: "base_uint \<Rightarrow> base_uint \<Rightarrow> base_uint" where
  "uint_xor a b = map2 (\<lambda>x y. x XOR y) a b"

definition uint_and :: "base_uint \<Rightarrow> base_uint \<Rightarrow> base_uint" where
  "uint_and a b = map2 (\<lambda>x y. x AND y) a b"

definition uint_or :: "base_uint \<Rightarrow> base_uint \<Rightarrow> base_uint" where
  "uint_or a b = map2 (\<lambda>x y. x OR y) a b"

definition uint_low64 :: "base_uint \<Rightarrow> u64" where
  "uint_low64 pn = ucast (pn ! 0) OR push_bit 32 (ucast (pn ! 1))"

subsection \<open>Increment, negation, addition, subtraction\<close>

text \<open>
  \<open>operator++\<close>: \<open>while (++pn[i] == 0 && i < WIDTH-1) i++;\<close> increments the limb at
  \<open>i\<close> and moves on while it wrapped to zero and is not the last one.
\<close>

fun uint_inc :: "base_uint \<Rightarrow> base_uint" where
  "uint_inc [] = []"
| "uint_inc [x] = [x + 1]"
| "uint_inc (x # y # xs) = (if x + 1 = 0 then 0 # uint_inc (y # xs) else (x + 1) # y # xs)"

text \<open>\<open>operator--\<close>: \<open>while (--pn[i] == (uint32_t)-1 && i < WIDTH-1) i++;\<close>\<close>

fun uint_dec :: "base_uint \<Rightarrow> base_uint" where
  "uint_dec [] = []"
| "uint_dec [x] = [x - 1]"
| "uint_dec (x # y # xs) =
     (if x - 1 = - 1 then (x - 1) # uint_dec (y # xs) else (x - 1) # y # xs)"

definition uint_neg :: "base_uint \<Rightarrow> base_uint" where
  "uint_neg a = uint_inc (uint_compl a)"

text \<open>\<open>operator+=\<close>: the carry is a 64-bit word, each limb the low half of the sum.\<close>

fun add_loop :: "u64 \<Rightarrow> base_uint \<Rightarrow> base_uint \<Rightarrow> base_uint" where
  "add_loop carry (p # ps) (b # bs) =
     (let n = carry + ucast p + ucast b
      in ucast (n AND 0xffffffff) # add_loop (drop_bit 32 n) ps bs)"
| "add_loop carry _ _ = []"

definition uint_add :: "base_uint \<Rightarrow> base_uint \<Rightarrow> base_uint" where
  "uint_add a b = add_loop 0 a b"

definition uint_sub :: "base_uint \<Rightarrow> base_uint \<Rightarrow> base_uint" where
  "uint_sub a b = uint_add a (uint_neg b)"

subsection \<open>Multiplication\<close>

text \<open>\<open>operator*=(uint32_t b32)\<close>\<close>

fun mul32_loop :: "u32 \<Rightarrow> u64 \<Rightarrow> base_uint \<Rightarrow> base_uint" where
  "mul32_loop b32 carry [] = []"
| "mul32_loop b32 carry (p # ps) =
     (let n = carry + ucast b32 * ucast p
      in ucast (n AND 0xffffffff) # mul32_loop b32 (drop_bit 32 n) ps)"

definition uint_mul32 :: "base_uint \<Rightarrow> u32 \<Rightarrow> base_uint" where
  "uint_mul32 a b32 = mul32_loop b32 0 a"

text \<open>
  \<open>operator*=(const base_uint&)\<close>: row \<open>j\<close> adds \<open>a.pn[j] * b.pn[i]\<close> to
  \<open>pn[i + j]\<close> for \<open>i + j < WIDTH\<close>; the row works on the limbs of the result from
  \<open>j\<close> on, and ends with them.
\<close>

fun mul_row :: "u32 \<Rightarrow> u64 \<Rightarrow> base_uint \<Rightarrow> base_uint \<Rightarrow> base_uint" where
  "mul_row aj carry (p # ps) (b # bs) =
     (let n = carry + ucast p + ucast aj * ucast b
      in ucast (n AND 0xffffffff) # mul_row aj (drop_bit 32 n) ps bs)"
| "mul_row aj carry ps _ = ps"

definition mul_step :: "base_uint \<Rightarrow> base_uint \<Rightarrow> nat \<Rightarrow> base_uint \<Rightarrow> base_uint" where
  "mul_step a b j pn = take j pn @ mul_row (a ! j) 0 (drop j pn) b"

definition uint_mul :: "base_uint \<Rightarrow> base_uint \<Rightarrow> base_uint" where
  "uint_mul a b = fold (mul_step a b) [0..<WIDTH] uint_zero"

subsection \<open>Shifts\<close>

definition shl_step :: "base_uint \<Rightarrow> nat \<Rightarrow> nat \<Rightarrow> nat \<Rightarrow> base_uint \<Rightarrow> base_uint" where
  "shl_step a k s i pn =
     (let pn1 = (if i + k + 1 < WIDTH \<and> s \<noteq> 0
                 then pn[i + k + 1 := pn ! (i + k + 1) OR drop_bit (32 - s) (a ! i)] else pn)
      in if i + k < WIDTH then pn1[i + k := pn1 ! (i + k) OR push_bit s (a ! i)] else pn1)"

definition uint_shl :: "base_uint \<Rightarrow> nat \<Rightarrow> base_uint" where
  "uint_shl a sh = fold (shl_step a (sh div 32) (sh mod 32)) [0..<WIDTH] uint_zero"

definition shr_step :: "base_uint \<Rightarrow> nat \<Rightarrow> nat \<Rightarrow> nat \<Rightarrow> base_uint \<Rightarrow> base_uint" where
  "shr_step a k s i pn =
     (let pn1 = (if k + 1 \<le> i \<and> s \<noteq> 0
                 then pn[i - k - 1 := pn ! (i - k - 1) OR push_bit (32 - s) (a ! i)] else pn)
      in if k \<le> i then pn1[i - k := pn1 ! (i - k) OR drop_bit s (a ! i)] else pn1)"

definition uint_shr :: "base_uint \<Rightarrow> nat \<Rightarrow> base_uint" where
  "uint_shr a sh = fold (shr_step a (sh div 32) (sh mod 32)) [0..<WIDTH] uint_zero"

subsection \<open>Comparison and bit length\<close>

text \<open>\<open>CompareTo\<close> scans the limbs from the most significant one down.\<close>

fun compare_from :: "nat \<Rightarrow> base_uint \<Rightarrow> base_uint \<Rightarrow> int" where
  "compare_from 0 a b = 0"
| "compare_from (Suc i) a b =
     (if a ! i < b ! i then - 1 else if a ! i > b ! i then 1 else compare_from i a b)"

definition uint_compare :: "base_uint \<Rightarrow> base_uint \<Rightarrow> int" where
  "uint_compare a b = compare_from WIDTH a b"

definition uint_equal64 :: "base_uint \<Rightarrow> u64 \<Rightarrow> bool" where
  "uint_equal64 pn b \<longleftrightarrow>
     (if list_ex (\<lambda>w. w \<noteq> 0) (drop 2 pn) then False
      else if ucast (pn ! 1) \<noteq> drop_bit 32 b then False
      else if ucast (pn ! 0) \<noteq> b AND 0xffffffff then False
      else True)"

text \<open>\<open>bits()\<close>: the highest non-zero limb, then its highest set bit.\<close>

fun top_bit :: "nat \<Rightarrow> u32 \<Rightarrow> nat" where
  "top_bit 0 w = 0"
| "top_bit (Suc k) w = (if bit w (Suc k) then Suc k else top_bit k w)"

fun bits_from :: "nat \<Rightarrow> base_uint \<Rightarrow> nat" where
  "bits_from 0 pn = 0"
| "bits_from (Suc pos) pn =
     (if pn ! pos \<noteq> 0 then 32 * pos + top_bit 31 (pn ! pos) + 1 else bits_from pos pn)"

definition uint_bits :: "base_uint \<Rightarrow> nat" where
  "uint_bits pn = bits_from WIDTH pn"

subsection \<open>Division\<close>

datatype uint_error = DivisionByZero

text \<open>
  \<open>operator/=\<close>: after aligning the divisor with the dividend, the loop
  \<open>while (shift >= 0)\<close> subtracts, sets the bit of the quotient and shifts the divisor
  back; \<open>div_loop m\<close> runs it for \<open>shift = m - 1, ..., 0\<close>.
\<close>

fun div_loop :: "nat \<Rightarrow> base_uint \<Rightarrow> base_uint \<Rightarrow> base_uint \<Rightarrow> base_uint" where
  "div_loop 0 num dv q = q"
| "div_loop (Suc shift) num dv q =
     (if uint_compare num dv \<ge> 0
      then div_loop shift (uint_sub num dv) (uint_shr dv 1)
             (q[shift div 32 := q ! (shift div 32) OR push_bit (shift mod 32) 1])
      else div_loop shift num (uint_shr dv 1) q)"

definition uint_div :: "base_uint \<Rightarrow> base_uint \<Rightarrow> uint_error + base_uint" where
  "uint_div a b =
     (let num_bits = uint_bits a; div_bits = uint_bits b
      in if div_bits = 0 then Inl DivisionByZero
         else if div_bits > num_bits then Inr uint_zero
         else let shift = num_bits - div_bits
              in Inr (div_loop (Suc shift) a (uint_shl b shift) uint_zero))"

subsection \<open>Values of sums and differences\<close>

lemma unat_minus1_32 [simp]: "unat (- 1 :: u32) = 4294967295"
  by (simp add: unsigned_minus_1_eq_mask mask_eq_exp_minus_1)

lemma uval_simps [simp]:
  "uval [] = 0"
  "uval (x # xs) = unat x + 4294967296 * uval xs"
  by (simp_all add: uval_def)

lemma uval_append: "uval (xs @ ys) = uval xs + 4294967296 ^ length xs * uval ys"
  by (simp add: uval_def horner_sum_append_nat)

lemma uval_less: "uval xs < 4294967296 ^ length xs"
  unfolding uval_def using horner_sum_less [of xs unat "2 ^ 32"] unat_u32_less by simp

lemma uval_bound: "wf_uint a \<Longrightarrow> uval a < 2 ^ 256"
  using uval_less [of a] by (simp add: wf_uint_def WIDTH_def)

lemma uval_inj: "length a = length b \<Longrightarrow> uval a = uval b \<longleftrightarrow> a = b"
  unfolding uval_def
  by (auto intro: horner_sum_inj [of a b unat "2 ^ 32"] simp: unat_u32_less word_unat_eq_iff inj_def)

lemma uval_replicate_0 [simp]: "uval (replicate n 0) = 0"
  by (induction n) simp_all

lemma uval_zero [value_simps, simp]: "uval uint_zero = 0"
  by (simp add: uint_zero_def)

lemma wf_zero [wf_intros, simp]: "wf_uint uint_zero"
  by (simp add: uint_zero_def wf_uint_def)

lemma low32: "(ucast (n AND 0xffffffff :: u64) :: u32) = ucast n"
proof -
  have "(0xffffffff :: u64) = mask 32" by (simp add: mask_eq_exp_minus_1)
  then have "n AND 0xffffffff = take_bit 32 n" by (simp add: take_bit_eq_mask)
  then show ?thesis
    by (simp add: word_unat_eq_iff unsigned_ucast_eq unsigned_take_bit_eq del: unat_ucast_down_32)
qed

lemma uval_of_u64 [value_simps]: "uval (uint_of_u64 b) = unat b"
proof -
  have "unat b div 4294967296 < 4294967296" using unat_u64_less [of b] by simp
  then show ?thesis
    by (simp add: uint_of_u64_def unat_drop_bit WIDTH_def del: drop_bit_eq_div)
qed

lemma wf_of_u64 [wf_intros]: "wf_uint (uint_of_u64 b)"
  by (simp add: uint_of_u64_def wf_uint_def WIDTH_def)

lemma uint_is_zero_iff: "uint_is_zero a \<longleftrightarrow> uval a = 0"
  by (simp add: uint_is_zero_def uval_def horner_sum_eq_0_iff list_all_iff unat_eq_0)

lemma length_inc [simp]: "length (uint_inc a) = length a"
  by (induction a rule: uint_inc.induct) simp_all

lemma wf_inc [wf_intros]: "wf_uint a \<Longrightarrow> wf_uint (uint_inc a)"
  by (simp add: wf_uint_def)

lemma unat_plus_1: "unat (x + 1 :: u32) = (if x + 1 = 0 then 0 else unat x + 1)"
  by (metis add.commute unatSuc Suc_eq_plus1 unat_0)

lemma inc_max: "x + 1 = (0 :: u32) \<Longrightarrow> unat x = 4294967295"
  proof -
  assume "x + 1 = 0"
  then have "x = - 1" by (simp add: eq_neg_iff_add_eq_0)
  then show ?thesis by simp
qed

lemma uval_inc: "a \<noteq> [] \<Longrightarrow> uval (uint_inc a) = (uval a + 1) mod 4294967296 ^ length a"
proof (induction a rule: uint_inc.induct)
  case (2 x)
  then show ?case
    using unat_u32_less [of "x + 1"] inc_max [of x] by (cases "x + 1 = 0") (simp_all add: unat_plus_1)
next
  case (3 x y xs)
  let ?B = "4294967296 :: nat" and ?r = "y # xs"
  show ?case
  proof (cases "x + 1 = 0")
    case True
    with 3 have "uval (uint_inc (x # ?r)) = ?B * ((uval ?r + 1) mod ?B ^ length ?r)"
      by (simp del: uval_simps(2) add: uval_simps(2) [of 0])
    also have "\<dots> = (?B * (uval ?r + 1)) mod (?B * ?B ^ length ?r)"
      by (rule mult_mod_right)
    also have "?B * (uval ?r + 1) = uval (x # ?r) + 1"
      using inc_max [OF True] by simp
    finally show ?thesis by simp
  next
    case False
    then have "uval (uint_inc (x # ?r)) = uval (x # ?r) + 1"
      by (simp add: unat_plus_1)
    moreover have "uval ((x + 1) # ?r) < ?B ^ length (x # ?r)"
      using uval_less [of "(x + 1) # ?r"] by simp
    ultimately show ?thesis using False by (simp add: unat_plus_1)
  qed
qed simp

lemma wf_compl [wf_intros]: "wf_uint a \<Longrightarrow> wf_uint (uint_compl a)"
  by (simp add: wf_uint_def uint_compl_def)

lemma unat_not: "unat (NOT (x :: u32)) = 4294967295 - unat x"
  proof -
  have "NOT x = - 1 - x" by (simp add: not_eq_complement)
  then show ?thesis by (simp add: unat_sub word_order.extremum)
qed

lemma uval_compl: "uval (uint_compl a) + uval a + 1 = 4294967296 ^ length a"
proof (induction a)
  case (Cons x xs)
  have "uval (uint_compl (x # xs)) + uval (x # xs) + 1
      = 4294967296 * (uval (uint_compl xs) + uval xs + 1)"
    using unat_u32_less [of x] by (simp add: uint_compl_def unat_not algebra_simps)
  then show ?case by (simp only: Cons.IH) simp
qed (simp add: uint_compl_def)

lemma uval_compl_256 [value_simps]: "wf_uint a \<Longrightarrow> uval (uint_compl a) = 2 ^ 256 - 1 - uval a"
  using uval_compl [of a] by (simp add: wf_uint_def WIDTH_def)

lemma uval_inc_256 [value_simps]: "wf_uint a \<Longrightarrow> uval (uint_inc a) = (uval a + 1) mod 2 ^ 256"
  using uval_inc [of a] by (cases a) (simp_all add: wf_uint_def WIDTH_def)

lemma wf_neg [wf_intros]: "wf_uint a \<Longrightarrow> wf_uint (uint_neg a)"
  by (simp add: uint_neg_def wf_intros)

lemma uval_neg [value_simps]: "wf_uint a \<Longrightarrow> uval (uint_neg a) = (2 ^ 256 - uval a) mod 2 ^ 256"
proof -
  assume a: "wf_uint a"
  then have "2 ^ 256 - 1 - uval a + 1 = 2 ^ 256 - uval a" using uval_bound [of a] by simp
  with a show ?thesis by (simp only: uint_neg_def value_simps wf_intros)
qed

text \<open>The step of the three carry loops: a multiply-add of 32-bit limbs fits 64 bits.\<close>

lemma mac_no_overflow:
  assumes "unat (c :: u64) < 4294967296"
  shows "unat (c + ucast (p :: u32) + ucast (x :: u32) * ucast (y :: u32)) = unat c + unat p + unat x * unat y"
    and "unat c + unat p + unat x * unat y < 4294967296 * 4294967296"
proof -
  have "unat x * unat y \<le> 4294967295 * 4294967295"
    using unat_u32_less [of x] unat_u32_less [of y] by (intro mult_le_mono) auto
  then show lt: "unat c + unat p + unat x * unat y < 4294967296 * 4294967296"
    using assms unat_u32_less [of p] by simp
  then show "unat (c + ucast p + ucast x * ucast y) = unat c + unat p + unat x * unat y"
    by (simp add: unat_word_ariths mod_add_left_eq mod_add_right_eq)
qed

lemma add_no_overflow:
  assumes "unat (c :: u64) < 4294967296"
  shows "unat (c + ucast (p :: u32) + ucast (b :: u32)) = unat c + unat p + unat b"
  using mac_no_overflow(1) [OF assms, of p b 1] by simp

lemma carry_split: "unat (ucast (n :: u64) :: u32) + 4294967296 * unat (drop_bit 32 n) = unat n"
  by (simp add: unat_drop_bit del: drop_bit_eq_div)

lemma carry_less:
  "unat (n :: u64) < 4294967296 * 4294967296 \<Longrightarrow> unat (drop_bit 32 n) < 4294967296"
  by (simp add: unat_drop_bit del: drop_bit_eq_div)

lemma length_add_loop [simp]: "length (add_loop c a b) = min (length a) (length b)"
  by (induction c a b rule: add_loop.induct) (simp_all add: Let_def)

lemma uval_add_loop:
  assumes "length a = length b" and "unat c < 4294967296"
  shows "\<exists>k. uval (add_loop c a b) + k * 4294967296 ^ length a = uval a + uval b + unat c"
  using assms
proof (induction c a b rule: add_loop.induct)
  case (1 c p ps b bs)
  let ?n = "c + ucast p + ucast b" and ?B = "4294967296 :: nat"
  have n: "unat ?n = unat c + unat p + unat b"
    using 1 by (simp add: add_no_overflow)
  have "unat (drop_bit 32 ?n) < ?B" using unat_u64_less [of ?n] by (intro carry_less) simp
  then obtain k where
    k: "uval (add_loop (drop_bit 32 ?n) ps bs) + k * ?B ^ length ps
        = uval ps + uval bs + unat (drop_bit 32 ?n)"
    using 1 by auto
  have "uval (add_loop c (p # ps) (b # bs)) + k * ?B ^ length (p # ps)
      = unat (ucast ?n :: u32) + ?B * (uval (add_loop (drop_bit 32 ?n) ps bs) + k * ?B ^ length ps)"
    by (simp add: Let_def low32 algebra_simps del: unat_ucast_down_32)
  also have "\<dots> = (unat (ucast ?n :: u32) + ?B * unat (drop_bit 32 ?n)) + ?B * (uval ps + uval bs)"
    by (simp only: k) (simp add: algebra_simps)
  also have "\<dots> = uval (p # ps) + uval (b # bs) + unat c"
    by (simp only: carry_split n) (simp add: algebra_simps)
  finally show ?case by blast
qed auto

lemma wf_add [wf_intros]: "wf_uint a \<Longrightarrow> wf_uint b \<Longrightarrow> wf_uint (uint_add a b)"
  by (simp add: wf_uint_def uint_add_def)

lemma uval_add [value_simps]:
  assumes "wf_uint a" and "wf_uint b"
  shows "uval (uint_add a b) = (uval a + uval b) mod 2 ^ 256"
proof -
  obtain k where k: "uval (uint_add a b) + k * 2 ^ 256 = uval a + uval b"
    using uval_add_loop [of a b 0] assms by (auto simp: uint_add_def wf_uint_def WIDTH_def)
  have "uval (uint_add a b) mod 2 ^ 256 = (uval (uint_add a b) + k * 2 ^ 256) mod 2 ^ 256"
    by (rule mod_mult_self1 [symmetric])
  also have "\<dots> = (uval a + uval b) mod 2 ^ 256" by (simp only: k)
  finally show ?thesis using uval_bound [OF wf_add [OF assms]] by simp
qed

lemma wf_sub [wf_intros]: "wf_uint a \<Longrightarrow> wf_uint b \<Longrightarrow> wf_uint (uint_sub a b)"
  by (simp add: uint_sub_def wf_intros)

lemma uval_sub [value_simps]:
  assumes "wf_uint a" and "wf_uint b"
  shows "uval (uint_sub a b) = (uval a + (2 ^ 256 - uval b)) mod 2 ^ 256"
  using assms by (simp add: uint_sub_def value_simps wf_intros mod_add_right_eq)

lemma uval_sub_le:
  assumes "wf_uint a" and "wf_uint b" and "uval b \<le> uval a"
  shows "uval (uint_sub a b) = uval a - uval b"
proof -
  have "uval a + (2 ^ 256 - uval b) = (uval a - uval b) + 2 ^ 256"
    using assms(3) uval_bound [OF assms(2)] by simp
  then have "uval (uint_sub a b) = ((uval a - uval b) + 2 ^ 256) mod 2 ^ 256"
    by (simp only: uval_sub [OF assms(1,2)])
  then show ?thesis using uval_bound [OF assms(1)] by simp
qed

subsection \<open>Values of products\<close>

lemma length_mul32_loop [simp]: "length (mul32_loop b c a) = length a"
  by (induction b c a rule: mul32_loop.induct) (simp_all add: Let_def)

lemma uval_mul32_loop:
  assumes "unat c < 4294967296"
  shows "\<exists>k. uval (mul32_loop b c a) + k * 4294967296 ^ length a = unat b * uval a + unat c"
  using assms
proof (induction b c a rule: mul32_loop.induct)
  case (2 b c p ps)
  let ?n = "c + ucast b * ucast p" and ?B = "4294967296 :: nat"
  have n: "unat ?n = unat c + unat b * unat p"
    using mac_no_overflow(1) [OF 2(2), of 0 b p] by simp
  have "unat (drop_bit 32 ?n) < ?B" using unat_u64_less [of ?n] by (intro carry_less) simp
  then obtain k where
    k: "uval (mul32_loop b (drop_bit 32 ?n) ps) + k * ?B ^ length ps
        = unat b * uval ps + unat (drop_bit 32 ?n)"
    using 2 by auto
  have "uval (mul32_loop b c (p # ps)) + k * ?B ^ length (p # ps)
      = unat (ucast ?n :: u32) + ?B * (uval (mul32_loop b (drop_bit 32 ?n) ps) + k * ?B ^ length ps)"
    by (simp add: Let_def low32 algebra_simps del: unat_ucast_down_32)
  also have "\<dots> = (unat (ucast ?n :: u32) + ?B * unat (drop_bit 32 ?n)) + ?B * (unat b * uval ps)"
    by (simp only: k) (simp add: algebra_simps)
  also have "\<dots> = unat b * uval (p # ps) + unat c"
    by (simp only: carry_split n) (simp add: algebra_simps)
  finally show ?case by blast
qed auto

lemma wf_mul32 [wf_intros]: "wf_uint a \<Longrightarrow> wf_uint (uint_mul32 a b)"
  by (simp add: wf_uint_def uint_mul32_def)

lemma uval_mul32 [value_simps]:
  assumes "wf_uint a"
  shows "uval (uint_mul32 a b) = (uval a * unat b) mod 2 ^ 256"
proof -
  obtain k where k: "uval (uint_mul32 a b) + k * 2 ^ 256 = uval a * unat b"
    using uval_mul32_loop [of 0 b a] assms
    by (auto simp: uint_mul32_def wf_uint_def WIDTH_def mult.commute)
  have "uval (uint_mul32 a b) mod 2 ^ 256 = (uval (uint_mul32 a b) + k * 2 ^ 256) mod 2 ^ 256"
    by (rule mod_mult_self1 [symmetric])
  also have "\<dots> = (uval a * unat b) mod 2 ^ 256" by (simp only: k)
  finally show ?thesis using uval_bound [OF wf_mul32 [OF assms]] by simp
qed

lemma length_mul_row [simp]: "length (mul_row aj c ps bs) = length ps"
  by (induction aj c ps bs rule: mul_row.induct) (simp_all add: Let_def)

lemma uval_mul_row:
  assumes "unat c < 4294967296" and "length ps \<le> length bs"
  shows "\<exists>k. uval (mul_row aj c ps bs) + k * 4294967296 ^ length ps
           = uval ps + unat aj * uval (take (length ps) bs) + unat c"
  using assms
proof (induction aj c ps bs rule: mul_row.induct)
  case (1 aj c p ps b bs)
  let ?n = "c + ucast p + ucast aj * ucast b" and ?B = "4294967296 :: nat"
  let ?t = "take (length ps) bs"
  have n: "unat ?n = unat c + unat p + unat aj * unat b"
    using 1 by (simp add: mac_no_overflow)
  have "unat (drop_bit 32 ?n) < ?B" using unat_u64_less [of ?n] by (intro carry_less) simp
  then obtain k where
    k: "uval (mul_row aj (drop_bit 32 ?n) ps bs) + k * ?B ^ length ps
        = uval ps + unat aj * uval ?t + unat (drop_bit 32 ?n)"
    using 1 by auto
  have "uval (mul_row aj c (p # ps) (b # bs)) + k * ?B ^ length (p # ps)
      = unat (ucast ?n :: u32) + ?B * (uval (mul_row aj (drop_bit 32 ?n) ps bs) + k * ?B ^ length ps)"
    by (simp add: Let_def low32 algebra_simps del: unat_ucast_down_32)
  also have "\<dots> = (unat (ucast ?n :: u32) + ?B * unat (drop_bit 32 ?n))
      + ?B * (uval ps + unat aj * uval ?t)"
    by (simp only: k) (simp add: algebra_simps)
  also have "\<dots> = uval (p # ps) + unat aj * uval (b # ?t) + unat c"
    by (simp only: carry_split n) (simp add: algebra_simps)
  finally show ?case by auto
qed auto

lemma length_mul_step [simp]: "length (mul_step a b j pn) = length pn"
  by (simp add: mul_step_def)

lemma uval_take_drop: "uval xs = uval (take n xs) + 4294967296 ^ min n (length xs) * uval (drop n xs)"
  using uval_append [of "take n xs" "drop n xs"] by (simp add: min.commute)

lemma uval_mul_step:
  assumes "length pn = n" "length b = n" "j < n"
  shows "uval (mul_step a b j pn) mod 4294967296 ^ n
       = (uval pn + 4294967296 ^ j * unat (a ! j) * uval b) mod 4294967296 ^ n"
proof -
  let ?B = "4294967296 :: nat" and ?d = "drop j pn" and ?m = "n - j"
  have len: "length ?d = ?m" using assms by simp
  obtain k where k: "uval (mul_row (a ! j) 0 ?d b) + k * ?B ^ ?m
      = uval ?d + unat (a ! j) * uval (take ?m b)"
    using uval_mul_row [of 0 ?d b "a ! j"] assms len by auto
  have pow: "?B ^ j * ?B ^ ?m = ?B ^ n"
    using assms by (simp add: power_add [symmetric] del: power_numeral)
  have bsplit: "uval b = uval (take ?m b) + ?B ^ ?m * uval (drop ?m b)"
    using uval_take_drop [of b ?m] assms by (simp add: min_def)
  have "uval (mul_step a b j pn) + k * ?B ^ n
      = uval (take j pn) + ?B ^ j * (uval (mul_row (a ! j) 0 ?d b) + k * ?B ^ ?m)"
    using assms by (simp add: mul_step_def uval_append pow [symmetric] algebra_simps)
  also have "\<dots> = uval pn + ?B ^ j * unat (a ! j) * uval (take ?m b)"
    using uval_take_drop [of pn j] assms by (simp only: k) (simp add: min_def algebra_simps)
  finally have step: "uval (mul_step a b j pn) + k * ?B ^ n
      = uval pn + ?B ^ j * unat (a ! j) * uval (take ?m b)" .
  have "uval pn + ?B ^ j * unat (a ! j) * uval b
      = uval pn + ?B ^ j * unat (a ! j) * uval (take ?m b)
        + (unat (a ! j) * uval (drop ?m b)) * ?B ^ n"
    by (simp add: bsplit pow [symmetric] algebra_simps)
  then show ?thesis
    by (metis step mod_mult_self1)
qed

lemma uval_mul_fold:
  assumes "length a = n" "length b = n" "m \<le> n"
  shows "length (fold (mul_step a b) [0..<m] (replicate n 0)) = n \<and>
    uval (fold (mul_step a b) [0..<m] (replicate n 0)) mod 4294967296 ^ n
      = (uval (take m a) * uval b) mod 4294967296 ^ n"
  using assms(3)
proof (induction m)
  case (Suc m)
  let ?B = "4294967296 :: nat" and ?pn = "fold (mul_step a b) [0..<m] (replicate n 0)"
  from Suc have len: "length ?pn = n"
    and IH: "uval ?pn mod ?B ^ n = (uval (take m a) * uval b) mod ?B ^ n" by auto
  have "uval (take (Suc m) a) = uval (take m a) + ?B ^ m * unat (a ! m)"
    using Suc assms by (simp add: take_Suc_conv_app_nth uval_append)
  then have "uval (take (Suc m) a) * uval b = uval (take m a) * uval b + ?B ^ m * unat (a ! m) * uval b"
    by (simp add: algebra_simps)
  moreover have "uval (mul_step a b m ?pn) mod ?B ^ n
      = (uval (take m a) * uval b + ?B ^ m * unat (a ! m) * uval b) mod ?B ^ n"
    by (rule trans [OF uval_mul_step [OF len assms(2)] mod_add_cong [OF IH refl]]) (use Suc in simp)
  ultimately show ?case using len by simp
qed simp

lemma wf_mul [wf_intros]: "wf_uint a \<Longrightarrow> wf_uint b \<Longrightarrow> wf_uint (uint_mul a b)"
  using uval_mul_fold [of a WIDTH b WIDTH] by (simp add: uint_mul_def wf_uint_def uint_zero_def)

lemma uval_mul [value_simps]:
  assumes "wf_uint a" and "wf_uint b"
  shows "uval (uint_mul a b) = (uval a * uval b) mod 2 ^ 256"
proof -
  have B: "(4294967296 :: nat) ^ WIDTH = 2 ^ 256" by (simp add: WIDTH_def)
  have "uval (uint_mul a b) mod 2 ^ 256 = (uval a * uval b) mod 2 ^ 256"
    using uval_mul_fold [of a WIDTH b WIDTH] assms
    unfolding uint_mul_def wf_uint_def uint_zero_def B by (metis order_refl take_all)
  then show ?thesis using uval_bound [OF wf_mul [OF assms]] by simp
qed

subsection \<open>Bits of a value\<close>

lemma bit_uval:
  "bit (uval xs) n \<longleftrightarrow> n div 32 < length xs \<and> bit (xs ! (n div 32)) (n mod 32)"
proof (induction xs arbitrary: n)
  case (Cons x xs)
  have eq: "uval (x # xs) = push_bit 32 (uval xs) OR unat x"
  proof -
    have "push_bit 32 (uval xs) AND take_bit 32 (unat x) = 0"
      by (rule bit_eqI) (auto simp: bit_simps)
    then have "push_bit 32 (uval xs) AND unat x = 0"
      using unat_u32_less [of x] by (simp add: take_bit_eq_mod)
    then have "push_bit 32 (uval xs) OR unat x = push_bit 32 (uval xs) + unat x"
      by (rule disjunctive_add_eq_or [symmetric])
    then show ?thesis by (simp add: push_bit_eq_mult)
  qed
  show ?case
  proof (cases "n < 32")
    case True
    then show ?thesis by (simp add: eq bit_simps del: uval_simps)
  next
    case False
    then have "bit (uval (x # xs)) n = bit (uval xs) (n - 32)"
      by (auto simp: eq bit_simps dest: bit_imp_le_length simp del: uval_simps)
    moreover have "n div 32 = Suc ((n - 32) div 32)" and "n mod 32 = (n - 32) mod 32"
      using False by (simp_all add: div_if mod_if)
    ultimately show ?thesis by (simp add: Cons.IH)
  qed
qed simp

lemma nat_eq_by_bits:
  assumes "\<And>n. n < 256 \<Longrightarrow> bit (x :: nat) n = bit y n"
  shows "x mod 2 ^ 256 = y mod 2 ^ 256"
  unfolding take_bit_eq_mod [symmetric]
  by (rule bit_eqI) (auto simp: bit_take_bit_iff assms)

subsection \<open>Values of shifts\<close>

lemma length_shl_step [simp]: "length (shl_step a k s i pn) = length pn"
  by (simp add: shl_step_def Let_def)

lemma nth_shl_step:
  assumes "length pn = WIDTH" "j < WIDTH"
  shows "shl_step a k s i pn ! j =
    (if j = i + k then pn ! j OR push_bit s (a ! i)
     else if j = i + k + 1 \<and> s \<noteq> 0 then pn ! j OR drop_bit (32 - s) (a ! i) else pn ! j)"
  using assms by (auto simp: shl_step_def Let_def nth_list_update)

lemma shl_fold:
  assumes "m \<le> WIDTH"
  shows "length (fold (shl_step a k s) [0..<m] uint_zero) = WIDTH \<and>
    (\<forall>j < WIDTH. fold (shl_step a k s) [0..<m] uint_zero ! j =
       (if k \<le> j \<and> j - k < m then push_bit s (a ! (j - k)) else 0) OR
       (if k < j \<and> j - k - 1 < m \<and> s \<noteq> 0 then drop_bit (32 - s) (a ! (j - k - 1)) else 0))"
  using assms
proof (induction m)
  case 0
  then show ?case by (simp add: uint_zero_def)
next
  case (Suc m)
  let ?pn = "fold (shl_step a k s) [0..<m] uint_zero"
  from Suc have len: "length ?pn = WIDTH" by simp
  have IH: "?pn ! j = (if k \<le> j \<and> j - k < m then push_bit s (a ! (j - k)) else 0) OR
       (if k < j \<and> j - k - 1 < m \<and> s \<noteq> 0 then drop_bit (32 - s) (a ! (j - k - 1)) else 0)"
    if "j < WIDTH" for j using Suc that by simp
  have "shl_step a k s m ?pn ! j =
       (if k \<le> j \<and> j - k < Suc m then push_bit s (a ! (j - k)) else 0) OR
       (if k < j \<and> j - k - 1 < Suc m \<and> s \<noteq> 0 then drop_bit (32 - s) (a ! (j - k - 1)) else 0)"
    if j: "j < WIDTH" for j
  proof -
    consider "j = m + k" | "j = m + k + 1" | "j < m + k" | "m + k + 1 < j" by linarith
    then show ?thesis
      unfolding nth_shl_step [OF len j] IH [OF j]
      by cases (auto simp: or.commute less_Suc_eq)
  qed
  then show ?case using len by simp
qed

lemma wf_shl [wf_intros]: "wf_uint (uint_shl a sh)"
  using shl_fold [of WIDTH a "sh div 32" "sh mod 32"] by (simp add: uint_shl_def wf_uint_def)

lemma nth_shl:
  assumes "j < WIDTH"
  shows "uint_shl a sh ! j =
    (if sh div 32 \<le> j then push_bit (sh mod 32) (a ! (j - sh div 32)) else 0) OR
    (if sh div 32 < j \<and> sh mod 32 \<noteq> 0
     then drop_bit (32 - sh mod 32) (a ! (j - sh div 32 - 1)) else 0)"
  using shl_fold [of WIDTH a "sh div 32" "sh mod 32"] assms
  by (simp add: uint_shl_def less_imp_diff_less)

lemma bit_u32_beyond: "32 \<le> n \<Longrightarrow> \<not> bit (w :: u32) n"
  by (auto dest: bit_imp_le_length)

lemma digit_diff:
  fixes q r k s :: nat
  assumes "32 * k + s \<le> 32 * q + r" and "r < 32" and "s < 32"
  shows "s \<le> r \<Longrightarrow> (32 * q + r - (32 * k + s)) div 32 = q - k \<and>
           (32 * q + r - (32 * k + s)) mod 32 = r - s \<and> k \<le> q"
    and "r < s \<Longrightarrow> (32 * q + r - (32 * k + s)) div 32 = q - k - 1 \<and>
           (32 * q + r - (32 * k + s)) mod 32 = r + 32 - s \<and> k < q"
proof -
  assume "s \<le> r"
  then have k: "k \<le> q" using assms by linarith
  with \<open>s \<le> r\<close> obtain d where "q = k + d" by (auto simp: le_iff_add)
  with \<open>s \<le> r\<close> have "32 * q + r - (32 * k + s) = 32 * (q - k) + (r - s)" by simp
  moreover have "r - s < 32" using assms by linarith
  ultimately show "(32 * q + r - (32 * k + s)) div 32 = q - k \<and>
           (32 * q + r - (32 * k + s)) mod 32 = r - s \<and> k \<le> q" using k by simp
next
  assume "r < s"
  then have k: "k < q" using assms by linarith
  then obtain d where d: "q = k + 1 + d" by (auto simp: less_iff_Suc_add)
  with \<open>r < s\<close> assms have "32 * q + r - (32 * k + s) = 32 * (q - k - 1) + (r + 32 - s)" by simp
  moreover have "r + 32 - s < 32" using \<open>r < s\<close> assms by linarith
  ultimately show "(32 * q + r - (32 * k + s)) div 32 = q - k - 1 \<and>
           (32 * q + r - (32 * k + s)) mod 32 = r + 32 - s \<and> k < q" using k by simp
qed

lemma digit_obtain:
  obtains q r where "(n :: nat) = 32 * q + r" and "r < 32" and "n div 32 = q" and "n mod 32 = r"
  using that [of "n div 32" "n mod 32"] by simp

lemma bit_uval_digit: "r < 32 \<Longrightarrow> bit (uval xs) (32 * q + r) \<longleftrightarrow> q < length xs \<and> bit (xs ! q) r"
  by (simp add: bit_uval)

lemma uval_shl [value_simps]:
  assumes "wf_uint a"
  shows "uval (uint_shl a sh) = (uval a * 2 ^ sh) mod 2 ^ 256"
proof -
  have "uval (uint_shl a sh) mod 2 ^ 256 = push_bit sh (uval a) mod 2 ^ 256"
  proof (rule nat_eq_by_bits)
    fix n :: nat
    assume n: "n < 256"
    then have j: "n div 32 < WIDTH" by (simp add: WIDTH_def)
    have len: "length (uint_shl a sh) = WIDTH" "length a = WIDTH"
      using assms wf_shl by (simp_all add: wf_uint_def)
    have rhs: "bit (push_bit sh (uval a)) n \<longleftrightarrow> sh \<le> n \<and> bit (uval a) (n - sh)"
      by (simp add: bit_simps)
    obtain q r where q: "n = 32 * q + r" "r < 32" "n div 32 = q" by (rule digit_obtain)
    obtain k s where k: "sh = 32 * k + s" "s < 32" "sh div 32 = k" "sh mod 32 = s"
      by (rule digit_obtain)
    have lhs: "bit (uval (uint_shl a sh)) n \<longleftrightarrow> bit (uint_shl a sh ! q) r"
      using j len q by (simp add: bit_uval_digit)
    show "bit (uval (uint_shl a sh)) n = bit (push_bit sh (uval a)) n"
    proof (cases "sh \<le> n")
      case True
      then have le: "32 * k + s \<le> 32 * q + r" using q k by simp
      show ?thesis
      proof (cases "s \<le> r")
        case sr: True
        note d = digit_diff(1) [OF le q(2) k(2) sr]
        have "bit (uval a) (n - sh) \<longleftrightarrow> bit (a ! (q - k)) (r - s)"
          using j len q(3) by (simp add: bit_uval q(1) k(1) d less_imp_diff_less)
        moreover have "bit (uint_shl a sh ! q) r \<longleftrightarrow> bit (a ! (q - k)) (r - s)"
          using j d sr q(2,3) k by (auto simp: nth_shl bit_simps bit_u32_beyond)
        ultimately show ?thesis by (simp add: lhs rhs True)
      next
        case False
        then have rs: "r < s" by simp
        note d = digit_diff(2) [OF le q(2) k(2) rs]
        have "bit (uval a) (n - sh) \<longleftrightarrow> bit (a ! (q - k - 1)) (r + 32 - s)"
          using j len q(3) by (simp add: bit_uval q(1) k(1) d less_imp_diff_less)
        moreover have "bit (uint_shl a sh ! q) r \<longleftrightarrow> bit (a ! (q - k - 1)) (r + 32 - s)"
          using j d rs q(2,3) k by (auto simp: nth_shl bit_simps add.commute)
        ultimately show ?thesis by (simp add: lhs rhs True)
      qed
    next
      case False
      then have "q < k \<or> q = k \<and> r < s" using q(1,2) k(1,2) by linarith
      then have "\<not> bit (uint_shl a sh ! q) r"
        using j q(3) k by (auto simp: nth_shl bit_simps)
      with False show ?thesis by (simp add: lhs rhs)
    qed
  qed
  then show ?thesis
    using uval_bound [OF wf_shl, of a sh] by (simp add: push_bit_eq_mult)
qed

lemma length_shr_step [simp]: "length (shr_step a k s i pn) = length pn"
  by (simp add: shr_step_def Let_def)

lemma nth_shr_step:
  assumes "length pn = WIDTH" "j < WIDTH" "i < WIDTH"
  shows "shr_step a k s i pn ! j =
    (if i = j + k then pn ! j OR drop_bit s (a ! i)
     else if i = j + k + 1 \<and> s \<noteq> 0 then pn ! j OR push_bit (32 - s) (a ! i) else pn ! j)"
proof -
  consider "i < k" | "i = k" | "k < i" by linarith
  then show ?thesis
    using assms by cases (auto simp: shr_step_def Let_def nth_list_update)
qed

lemma shr_fold:
  assumes "m \<le> WIDTH"
  shows "length (fold (shr_step a k s) [0..<m] uint_zero) = WIDTH \<and>
    (\<forall>j < WIDTH. fold (shr_step a k s) [0..<m] uint_zero ! j =
       (if j + k < m then drop_bit s (a ! (j + k)) else 0) OR
       (if j + k + 1 < m \<and> s \<noteq> 0 then push_bit (32 - s) (a ! (j + k + 1)) else 0))"
  using assms
proof (induction m)
  case 0
  then show ?case by (simp add: uint_zero_def)
next
  case (Suc m)
  let ?pn = "fold (shr_step a k s) [0..<m] uint_zero"
  from Suc have len: "length ?pn = WIDTH" and m: "m < WIDTH" by simp_all
  have IH: "?pn ! j = (if j + k < m then drop_bit s (a ! (j + k)) else 0) OR
       (if j + k + 1 < m \<and> s \<noteq> 0 then push_bit (32 - s) (a ! (j + k + 1)) else 0)"
    if "j < WIDTH" for j using Suc that by simp
  have "shr_step a k s m ?pn ! j =
       (if j + k < Suc m then drop_bit s (a ! (j + k)) else 0) OR
       (if j + k + 1 < Suc m \<and> s \<noteq> 0 then push_bit (32 - s) (a ! (j + k + 1)) else 0)"
    if j: "j < WIDTH" for j
  proof -
    consider "m = j + k" | "m = j + k + 1" | "m < j + k" | "j + k + 1 < m" by linarith
    then show ?thesis
      unfolding nth_shr_step [OF len j m] IH [OF j] by cases auto
  qed
  then show ?case using len by simp
qed

lemma wf_shr [wf_intros]: "wf_uint (uint_shr a sh)"
  using shr_fold [of WIDTH a "sh div 32" "sh mod 32"] by (simp add: uint_shr_def wf_uint_def)

lemma nth_shr:
  assumes "j < WIDTH"
  shows "uint_shr a sh ! j =
    (if j + sh div 32 < WIDTH then drop_bit (sh mod 32) (a ! (j + sh div 32)) else 0) OR
    (if j + sh div 32 + 1 < WIDTH \<and> sh mod 32 \<noteq> 0
     then push_bit (32 - sh mod 32) (a ! (j + sh div 32 + 1)) else 0)"
  using shr_fold [of WIDTH a "sh div 32" "sh mod 32"] assms by (simp add: uint_shr_def)

lemma digit_div_mod: "(r :: nat) < 32 \<Longrightarrow> (32 * q + r) div 32 = q \<and> (32 * q + r) mod 32 = r"
  by simp

lemma digit_sum:
  fixes q r k s :: nat
  assumes "r < 32" and "s < 32"
  shows "r + s < 32 \<Longrightarrow> (32 * q + r + (32 * k + s)) div 32 = q + k \<and>
           (32 * q + r + (32 * k + s)) mod 32 = r + s"
    and "32 \<le> r + s \<Longrightarrow> (32 * q + r + (32 * k + s)) div 32 = q + k + 1 \<and>
           (32 * q + r + (32 * k + s)) mod 32 = r + s - 32"
proof -
  assume "r + s < 32"
  moreover have eq: "32 * q + r + (32 * k + s) = 32 * (q + k) + (r + s)" by simp
  ultimately show "(32 * q + r + (32 * k + s)) div 32 = q + k \<and>
           (32 * q + r + (32 * k + s)) mod 32 = r + s" unfolding eq by (intro digit_div_mod)
next
  assume "32 \<le> r + s"
  then have eq: "32 * q + r + (32 * k + s) = 32 * (q + k + 1) + (r + s - 32)" by simp
  moreover have "r + s - 32 < 32" using assms by linarith
  then show "(32 * q + r + (32 * k + s)) div 32 = q + k + 1 \<and>
           (32 * q + r + (32 * k + s)) mod 32 = r + s - 32" unfolding eq by (intro digit_div_mod)
qed

lemma uval_shr [value_simps]:
  assumes "wf_uint a"
  shows "uval (uint_shr a sh) = uval a div 2 ^ sh"
proof -
  have "uval (uint_shr a sh) mod 2 ^ 256 = drop_bit sh (uval a) mod 2 ^ 256"
  proof (rule nat_eq_by_bits)
    fix n :: nat
    assume n: "n < 256"
    then have j: "n div 32 < WIDTH" by (simp add: WIDTH_def)
    have len: "length (uint_shr a sh) = WIDTH" "length a = WIDTH"
      using assms wf_shr by (simp_all add: wf_uint_def)
    have rhs: "bit (drop_bit sh (uval a)) n \<longleftrightarrow> bit (uval a) (n + sh)"
      by (simp add: bit_simps add.commute)
    obtain q r where q: "n = 32 * q + r" "r < 32" "n div 32 = q" by (rule digit_obtain)
    obtain k s where k: "sh = 32 * k + s" "s < 32" "sh div 32 = k" "sh mod 32 = s"
      by (rule digit_obtain)
    have lhs: "bit (uval (uint_shr a sh)) n \<longleftrightarrow> bit (uint_shr a sh ! q) r"
      using j len q by (simp add: bit_uval_digit)
    show "bit (uval (uint_shr a sh)) n = bit (drop_bit sh (uval a)) n"
    proof (cases "r + s < 32")
      case True
      note d = digit_sum(1) [OF q(2) k(2) True]
      have "bit (uval a) (n + sh) \<longleftrightarrow> q + k < WIDTH \<and> bit (a ! (q + k)) (r + s)"
        using len by (simp add: bit_uval q(1) k(1) d)
      moreover have "bit (uint_shr a sh ! q) r \<longleftrightarrow> q + k < WIDTH \<and> bit (a ! (q + k)) (r + s)"
        using j True q(3) k by (auto simp: nth_shr bit_simps add.commute)
      ultimately show ?thesis by (simp add: lhs rhs)
    next
      case False
      then have ge: "32 \<le> r + s" by simp
      note d = digit_sum(2) [OF q(2) k(2) ge]
      have "s \<noteq> 0" "r - (32 - s) = r + s - 32" using ge q(2) k(2) by auto
      moreover have "bit (uval a) (n + sh) \<longleftrightarrow> q + k + 1 < WIDTH \<and> bit (a ! (q + k + 1)) (r + s - 32)"
        using len by (simp add: bit_uval q(1) k(1) d)
      moreover have "bit (uint_shr a sh ! q) r \<longleftrightarrow>
          q + k + 1 < WIDTH \<and> bit (a ! (q + k + 1)) (r - (32 - s))"
        using j ge q(2,3) k \<open>s \<noteq> 0\<close> by (auto simp: nth_shr bit_simps bit_u32_beyond)
      ultimately show ?thesis by (simp add: lhs rhs)
    qed
  qed
  moreover have "drop_bit sh (uval a) < 2 ^ 256"
    using uval_bound [OF assms] by (simp add: drop_bit_eq_div) (meson div_le_dividend le_less_trans)
  ultimately show ?thesis
    using uval_bound [OF wf_shr, of a sh] by (simp add: drop_bit_eq_div)
qed

subsection \<open>Signs of comparisons and bounds of the bit length\<close>

lemma uval_take_Suc: "i < length a \<Longrightarrow> uval (take (Suc i) a) = uval (take i a) + 4294967296 ^ i * unat (a ! i)"
  by (simp add: take_Suc_conv_app_nth uval_append)

lemma digit_less:
  assumes "x < (c :: nat)" and "p < q"
  shows "x + c * p < y + c * q"
proof -
  have "x + c * p < c * (p + 1)" using assms(1) by (simp add: algebra_simps)
  also have "\<dots> \<le> c * q" using assms(2) by (intro mult_le_mono2) simp
  finally show ?thesis by simp
qed

lemma compare_from_sign:
  assumes "i \<le> length a" and "i \<le> length b"
  shows "(compare_from i a b < 0 \<longleftrightarrow> uval (take i a) < uval (take i b)) \<and>
         (compare_from i a b > 0 \<longleftrightarrow> uval (take i a) > uval (take i b))"
  using assms
proof (induction i)
  case (Suc i)
  have lt: "uval (take i a) < 4294967296 ^ i" "uval (take i b) < 4294967296 ^ i"
    using Suc.prems uval_less [of "take i a"] uval_less [of "take i b"] by (simp_all add: min_def)
  have eq: "uval (take (Suc i) a) = uval (take i a) + 4294967296 ^ i * unat (a ! i)"
    "uval (take (Suc i) b) = uval (take i b) + 4294967296 ^ i * unat (b ! i)"
    using Suc.prems by (simp_all add: uval_take_Suc)
  consider "a ! i < b ! i" | "b ! i < a ! i" | "a ! i = b ! i" by force
  then show ?case
  proof cases
    case 1
    then have "unat (a ! i) < unat (b ! i)" by (simp add: word_less_nat_alt)
    from digit_less [OF lt(1) this] 1 show ?thesis unfolding eq by (simp add: not_less order.asym less_imp_le)
  next
    case 2
    then have "unat (b ! i) < unat (a ! i)" by (simp add: word_less_nat_alt)
    from digit_less [OF lt(2) this] 2 show ?thesis unfolding eq by (simp add: not_less order.asym less_imp_le)
  next
    case 3
    then show ?thesis unfolding eq using Suc by simp
  qed
qed simp

lemma uint_compare_sign:
  assumes "wf_uint a" and "wf_uint b"
  shows "uint_compare a b < 0 \<longleftrightarrow> uval a < uval b"
    and "uint_compare a b > 0 \<longleftrightarrow> uval a > uval b"
    and "uint_compare a b \<ge> 0 \<longleftrightarrow> uval a \<ge> uval b"
    and "uint_compare a b \<le> 0 \<longleftrightarrow> uval a \<le> uval b"
  using compare_from_sign [of WIDTH a b] assms unfolding wf_uint_def uint_compare_def
  by (auto simp: not_less [symmetric])

lemma odd_div_iff_ge:
  assumes "x < 2 * (p :: nat)" shows "odd (x div p) \<longleftrightarrow> p \<le> x"
proof (cases "p \<le> x")
  case True
  with assms have "x div p = 1" by (intro div_nat_eqI) auto
  with True show ?thesis by simp
qed simp

lemma bit_unat_top: "unat w < 2 ^ Suc k \<Longrightarrow> bit (w :: u32) k \<longleftrightarrow> 2 ^ k \<le> unat w"
proof -
  assume "unat w < 2 ^ Suc k"
  moreover have "bit w k \<longleftrightarrow> bit (unat w) k" by (simp add: bit_unsigned_iff)
  ultimately show ?thesis
    using odd_div_iff_ge [of "unat w" "2 ^ k"] by (simp add: bit_iff_odd [of "unat w"])
qed

lemma top_bit_bounds:
  assumes "unat w < 2 ^ Suc k" and "0 < unat w"
  shows "2 ^ top_bit k w \<le> unat w \<and> unat w < 2 ^ Suc (top_bit k w)"
  using assms
proof (induction k)
  case (Suc k)
  then show ?case using bit_unat_top [of w "Suc k"] by auto
qed auto

lemma bits_from_bounds:
  assumes "n \<le> length a"
  shows "uval (take n a) = 0 \<and> bits_from n a = 0 \<or>
    0 < bits_from n a \<and> bits_from n a \<le> 32 * n \<and>
    2 ^ (bits_from n a - 1) \<le> uval (take n a) \<and> uval (take n a) < 2 ^ bits_from n a"
  using assms
proof (induction n)
  case (Suc n)
  have split: "uval (take (Suc n) a) = uval (take n a) + 4294967296 ^ n * unat (a ! n)"
    using Suc.prems by (simp add: uval_take_Suc)
  show ?case
  proof (cases "a ! n = 0")
    case True
    then show ?thesis using Suc split by auto
  next
    case False
    let ?t = "top_bit 31 (a ! n)"
    have t: "2 ^ ?t \<le> unat (a ! n)" "unat (a ! n) < 2 ^ Suc ?t"
      using top_bit_bounds [of "a ! n" 31] False unat_u32_less [of "a ! n"]
      by (simp_all add: unat_gt_0)
    then have "(2 :: nat) ^ ?t < 2 ^ 32" using unat_u32_less [of "a ! n"] by simp
    then have t32: "?t < 32" by (rule power_less_imp_less_exp [rotated]) simp
    have pow: "(4294967296 :: nat) ^ n = 2 ^ (32 * n)" by (simp add: power_mult)
    have lo: "uval (take n a) < 4294967296 ^ n"
      using uval_less [of "take n a"] Suc.prems by (simp add: min_def)
    have "2 ^ (32 * n + ?t) \<le> uval (take (Suc n) a)"
      using t(1) unfolding split pow power_add by (meson mult_le_mono2 le_add2 order_trans)
    moreover have "uval (take (Suc n) a) < 2 ^ (32 * n) * 2 ^ Suc ?t"
      using digit_less [OF lo t(2), of 0] unfolding split pow by simp
    then have "uval (take (Suc n) a) < 2 ^ (32 * n + ?t + 1)"
      by (simp add: power_add algebra_simps)
    ultimately show ?thesis using False t32 by simp
  qed
qed simp

lemma uint_bits_bounds:
  assumes "wf_uint a"
  shows "uval a = 0 \<Longrightarrow> uint_bits a = 0"
    and "0 < uval a \<Longrightarrow> 0 < uint_bits a"
    and "0 < uval a \<Longrightarrow> 2 ^ (uint_bits a - 1) \<le> uval a"
    and "uval a < 2 ^ uint_bits a"
    and "uint_bits a \<le> 256"
  using bits_from_bounds [of WIDTH a] assms
  unfolding uint_bits_def wf_uint_def by (auto simp: WIDTH_def)

lemma uint_bits_0_iff: "wf_uint a \<Longrightarrow> uint_bits a = 0 \<longleftrightarrow> uval a = 0"
  using uint_bits_bounds [of a] by (metis gr0I less_irrefl)

subsection \<open>Values of quotients\<close>

lemma uval_set_bit:
  assumes "wf_uint q" and "sh < 256" and "\<not> bit (uval q) sh"
  shows "uval (q[sh div 32 := q ! (sh div 32) OR push_bit (sh mod 32) 1]) = uval q + 2 ^ sh"
proof -
  have sh: "sh div 32 < length q" using assms by (simp add: wf_uint_def WIDTH_def)
  have "uval (q[sh div 32 := q ! (sh div 32) OR push_bit (sh mod 32) 1]) = uval q OR push_bit sh 1"
  proof (rule bit_eqI)
    fix n :: nat
    have "sh = n \<longleftrightarrow> sh div 32 = n div 32 \<and> sh mod 32 = n mod 32"
      by (metis div_mult_mod_eq)
    then show "bit (uval (q[sh div 32 := q ! (sh div 32) OR push_bit (sh mod 32) 1])) n
        = bit (uval q OR push_bit sh 1) n"
      using sh by (auto simp: bit_uval nth_list_update bit_simps bit_1_iff)
  qed
  also have "\<dots> = uval q + push_bit sh 1"
    by (rule disjunctive_add_eq_or [symmetric], rule bit_eqI)
      (use assms(3) in \<open>auto simp: bit_simps bit_1_iff\<close>)
  finally show ?thesis by simp
qed

lemma div_loop_correct:
  assumes "wf_uint num" "wf_uint dv" "wf_uint q" "m \<le> 256" "0 < D"
    and "uval num < D * 2 ^ m" and "m \<noteq> 0 \<Longrightarrow> uval dv = D * 2 ^ (m - 1)"
    and "2 ^ m dvd uval q"
  shows "wf_uint (div_loop m num dv q) \<and> uval (div_loop m num dv q) = uval q + uval num div D"
  using assms
proof (induction m arbitrary: num dv q)
  case 0
  then show ?case by simp
next
  case (Suc sh)
  let ?q = "q[sh div 32 := q ! (sh div 32) OR push_bit (sh mod 32) 1]"
  have dv: "uval dv = D * 2 ^ sh" using Suc.prems by simp
  have dv': "uval (uint_shr dv 1) = D * 2 ^ (sh - 1)" if "sh \<noteq> 0"
    using that Suc.prems(2) dv by (cases sh) (simp_all add: value_simps)
  have dvd: "2 ^ sh dvd uval q" using Suc.prems(8) by (rule power_le_dvd) simp
  show ?case
  proof (cases "uint_compare num dv \<ge> 0")
    case True
    then have ge: "D * 2 ^ sh \<le> uval num"
      using Suc.prems dv by (simp add: uint_compare_sign)
    then have sub: "uval (uint_sub num dv) = uval num - D * 2 ^ sh"
      using Suc.prems dv by (simp add: uval_sub_le)
    have "\<not> bit (uval q) sh"
      using Suc.prems(8) by (auto simp: bit_iff_odd elim!: dvdE)
    then have q': "uval ?q = uval q + 2 ^ sh" using Suc.prems by (intro uval_set_bit) auto
    have "wf_uint ?q" using Suc.prems by (simp add: wf_uint_def)
    moreover have "uval (uint_sub num dv) < D * 2 ^ sh" using Suc.prems(6) sub ge by simp
    moreover have "2 ^ sh dvd uval ?q" using dvd q' by simp
    ultimately have "wf_uint (div_loop sh (uint_sub num dv) (uint_shr dv 1) ?q) \<and>
       uval (div_loop sh (uint_sub num dv) (uint_shr dv 1) ?q) = uval ?q + uval (uint_sub num dv) div D"
      using Suc.prems dv' by (intro Suc.IH) (auto intro: wf_intros)
    moreover have "uval num div D = 2 ^ sh + (uval num - D * 2 ^ sh) div D"
    proof -
      have "uval num = (uval num - D * 2 ^ sh) + 2 ^ sh * D" using ge by (simp add: algebra_simps)
      then have "uval num div D = ((uval num - D * 2 ^ sh) + 2 ^ sh * D) div D" by simp
      then show ?thesis using Suc.prems(5) by simp
    qed
    ultimately show ?thesis using True sub q' by simp
  next
    case False
    then have "uval num < D * 2 ^ sh" using Suc.prems dv by (simp add: uint_compare_sign)
    then have "wf_uint (div_loop sh num (uint_shr dv 1) q) \<and>
       uval (div_loop sh num (uint_shr dv 1) q) = uval q + uval num div D"
      using Suc.prems dv' dvd by (intro Suc.IH) (auto intro: wf_intros)
    with False show ?thesis by simp
  qed
qed

lemma uint_div_zero: "wf_uint b \<Longrightarrow> uval b = 0 \<Longrightarrow> uint_div a b = Inl DivisionByZero"
  by (simp add: uint_div_def uint_bits_bounds)

lemma uint_div_correct:
  assumes "wf_uint a" "wf_uint b" "0 < uval b"
  shows "\<exists>q. uint_div a b = Inr q \<and> wf_uint q \<and> uval q = uval a div uval b"
proof (cases "uint_bits b > uint_bits a")
  case True
  have "uval a < 2 ^ uint_bits a" using assms by (simp add: uint_bits_bounds)
  also have "\<dots> \<le> 2 ^ (uint_bits b - 1)" using True by (intro power_increasing) auto
  also have "\<dots> \<le> uval b" using uint_bits_bounds(3) [OF assms(2,3)] .
  finally show ?thesis
    using True assms uint_bits_bounds(2) [of b] by (simp add: uint_div_def)
next
  case False
  let ?sh = "uint_bits a - uint_bits b"
  have b0: "0 < uint_bits b" using assms by (simp add: uint_bits_bounds)
  have "uval b * 2 ^ ?sh < 2 ^ uint_bits b * 2 ^ ?sh"
    using assms by (simp add: uint_bits_bounds)
  also have "\<dots> = 2 ^ uint_bits a" using False by (simp add: power_add [symmetric])
  also have "\<dots> \<le> 2 ^ 256" using assms by (intro power_increasing) (auto simp: uint_bits_bounds)
  finally have shl: "uval (uint_shl b ?sh) = uval b * 2 ^ ?sh"
    using assms by (simp add: value_simps)
  have "uval a < 2 ^ uint_bits a" using assms by (simp add: uint_bits_bounds)
  also have "\<dots> = 2 ^ (uint_bits b - 1) * 2 ^ Suc ?sh"
    using False b0 by (simp add: power_add [symmetric] Suc_diff_le del: power_Suc)
  also have "\<dots> \<le> uval b * 2 ^ Suc ?sh"
    using uint_bits_bounds(3) [OF assms(2,3)] by (rule mult_le_mono1)
  finally have "uval a < uval b * 2 ^ Suc ?sh" .
  then have "wf_uint (div_loop (Suc ?sh) a (uint_shl b ?sh) uint_zero) \<and>
    uval (div_loop (Suc ?sh) a (uint_shl b ?sh) uint_zero) = uval uint_zero + uval a div uval b"
    using assms shl b0 uint_bits_bounds(5) [of a]
    by (intro div_loop_correct) (auto intro: wf_intros simp del: power_Suc)
  then show ?thesis using False b0 by (simp add: uint_div_def Let_def del: div_loop.simps)
qed

subsection \<open>Properties\<close>

text \<open>
  C34. The long division \<open>operator/=\<close> returns the quotient of the numbers its operands denote
  for every divisor other than zero.
\<close>

theorem uint_div_quotient:
  assumes "wf_uint a" and "wf_uint b" and "0 < uval b"
  shows "\<exists>q. uint_div a b = Inr q \<and> wf_uint q \<and> uval q = uval a div uval b"
  using uint_div_correct [OF assms] .

lemma uint_div_quotient_witness:
  "\<exists>q. uint_div (uint_of_u64 100) (uint_of_u64 7) = Inr q \<and> wf_uint q \<and> uval q = 14"
  using uint_div_quotient [of "uint_of_u64 100" "uint_of_u64 7"] by (simp add: wf_of_u64 uval_of_u64)

text \<open>
  The schoolbook product \<open>operator*=\<close>, built from 32-bit digits with 64-bit carries, is
  the product of the operands modulo \<open>2 ^ 256\<close>.
\<close>

theorem uint_mul_product:
  assumes "wf_uint a" and "wf_uint b"
  shows "wf_uint (uint_mul a b) \<and> uval (uint_mul a b) = uval a * uval b mod 2 ^ 256"
  using wf_mul [OF assms] uval_mul [OF assms] by simp

lemma uint_mul_product_witness: "uval (uint_mul (uint_of_u64 100) (uint_of_u64 7)) = 700"
  using uint_mul_product [of "uint_of_u64 100" "uint_of_u64 7"] by (simp add: wf_of_u64 uval_of_u64)

end
