(* ===== verification/Compact.thy ===== *)
theory Compact
  imports ArithUint256
begin

text \<open>
  The compact 32-bit encoding of difficulty targets (\<open>arith_uint256::SetCompact\<close> and
  \<open>arith_uint256::GetCompact\<close>): an exponent byte and a 23-bit mantissa with a sign bit.
  \<open>compact_value\<close> is the number the header of \<open>arith_uint256.h\<close> describes,
  \<open>mantissa * 256 ^ (exponent - 3)\<close>.
\<close>

unbundle bit_operations_syntax

subsection \<open>Decoding and encoding\<close>

definition SetCompact :: "u32 \<Rightarrow> base_uint \<times> bool \<times> bool" where
  "SetCompact nCompact =
     (let nSize = unat (drop_bit 24 nCompact);
          nWord = nCompact AND 0x007fffff;
          nWord = (if nSize \<le> 3 then drop_bit (8 * (3 - nSize)) nWord else nWord);
          r = (if nSize \<le> 3 then uint_of_u64 (ucast nWord)
               else uint_shl (uint_of_u64 (ucast nWord)) (8 * (nSize - 3)));
          fNegative = (nWord \<noteq> 0 \<and> nCompact AND 0x00800000 \<noteq> 0);
          fOverflow = (nWord \<noteq> 0 \<and> (nSize > 34 \<or> (nWord > 0xff \<and> nSize > 33) \<or>
                                     (nWord > 0xffff \<and> nSize > 32)))
      in (r, fNegative, fOverflow))"

text \<open>The two \<open>assert\<close>s of \<open>GetCompact\<close> abort the program: None here.\<close>

definition GetCompact :: "base_uint \<Rightarrow> bool \<Rightarrow> u32 option" where
  "GetCompact a fNegative =
     (let nSize = (uint_bits a + 7) div 8;
          nCompact = (if nSize \<le> 3 then ucast (push_bit (8 * (3 - nSize)) (uint_low64 a))
                      else ucast (uint_low64 (uint_shr a (8 * (nSize - 3)))));
          (nCompact, nSize) = (if nCompact AND 0x00800000 \<noteq> 0
                               then (drop_bit 8 nCompact, nSize + 1) else (nCompact, nSize))
      in if nCompact AND NOT 0x007fffff \<noteq> 0 then None
         else if \<not> nSize < 256 then None
         else let c = nCompact OR push_bit 24 (of_nat nSize)
              in Some (c OR (if fNegative \<and> c AND 0x007fffff \<noteq> 0 then 0x00800000 else 0)))"

definition compact_value :: "u32 \<Rightarrow> nat" where
  "compact_value c = unat (c AND 0x007fffff) * 256 ^ unat (drop_bit 24 c) div 256 ^ 3"

subsection \<open>Value and flags of a decoded target\<close>

lemma uval_low64: "wf_uint a \<Longrightarrow> unat (uint_low64 a) = uval a mod 2 ^ 64"
proof -
  assume a: "wf_uint a"
  then obtain x y xs where xs: "a = x # y # xs"
    by (auto simp: wf_uint_def WIDTH_def length_Suc_conv numeral_eq_Suc)
  have or_plus: "ucast x OR push_bit 32 (ucast y :: u64) = ucast x + push_bit 32 (ucast y)"
    by (rule disjunctive_add_eq_or [symmetric], rule bit_eqI) (auto simp: bit_simps bit_u32_beyond)
  have y: "unat (push_bit 32 (ucast y :: u64)) = 4294967296 * unat y"
    using unat_u32_less [of y] by (simp add: push_bit_eq_mult unat_word_ariths)
  have "unat (uint_low64 a) = unat x + 4294967296 * unat y"
    using unat_u32_less [of x] unat_u32_less [of y]
    unfolding uint_low64_def xs by (simp add: or_plus unat_word_ariths y)
  moreover have "uval a = (unat x + 4294967296 * unat y) + 2 ^ 64 * uval xs"
    by (simp add: xs)
  moreover have "unat x + 4294967296 * unat y < 2 ^ 64"
    using unat_u32_less [of x] unat_u32_less [of y] by simp
  ultimately show ?thesis by simp
qed

lemma and_mask_23: "unat (c AND 0x007fffff :: u32) = unat c mod 2 ^ 23"
proof -
  have "(0x007fffff :: u32) = mask 23" by (simp add: mask_eq_exp_minus_1)
  then have "c AND 0x007fffff = take_bit 23 c" by (simp only: take_bit_eq_mask)
  then have "unat (c AND 0x007fffff) = take_bit 23 (unat c)" by (simp only: unsigned_take_bit_eq)
  then show ?thesis by (simp add: take_bit_eq_mod)
qed

lemma ucast_up_value: "uval (uint_of_u64 (ucast (w :: u32))) = unat w"
  by (simp add: value_simps)

lemma pow_256: "(256 :: nat) ^ k = 2 ^ (8 * k)"
  by (simp add: power_mult)

lemma compact_shift_value:
  assumes "3 < n"
  shows "(m :: nat) * 256 ^ n div 16777216 = m * 2 ^ (8 * (n - 3))"
proof -
  have "(256 :: nat) ^ n = 256 ^ (n - 3) * 256 ^ 3"
    using assms by (metis le_add_diff_inverse2 less_imp_le power_add)
  then have e: "m * 256 ^ n = (m * 2 ^ (8 * (n - 3))) * 16777216"
    by (simp only: pow_256 [of "n - 3"]) simp
  show ?thesis unfolding e by (rule nonzero_mult_div_cancel_right) simp
qed

lemma compact_small_value:
  assumes "n \<le> 3"
  shows "(m :: nat) * 256 ^ n div 16777216 = m div 2 ^ (8 * (3 - n))"
proof -
  have "(256 :: nat) ^ 3 = 256 ^ (3 - n) * 256 ^ n"
    using assms by (metis le_add_diff_inverse2 power_add)
  then have "m * 256 ^ n div 16777216 = m * 256 ^ n div (256 ^ (3 - n) * 256 ^ n)" by simp
  also have "\<dots> = m div 256 ^ (3 - n)" by (rule div_mult_mult2) simp
  finally show ?thesis unfolding pow_256 .
qed

lemma SetCompact_value:
  "uval (fst (SetCompact c)) = compact_value c mod 2 ^ 256" "wf_uint (fst (SetCompact c))"
proof -
  have small: "unat (drop_bit k (c AND 0x007fffff :: u32)) < 2 ^ 256" for k
    using unat_u32_less [of "drop_bit k (c AND 0x007fffff)"] by simp
  show "uval (fst (SetCompact c)) = compact_value c mod 2 ^ 256"
    using small
    by (auto simp: SetCompact_def compact_value_def Let_def ucast_up_value value_simps wf_intros
        compact_shift_value compact_small_value unat_drop_bit simp del: drop_bit_eq_div drop_bit_and)
  show "wf_uint (fst (SetCompact c))"
    by (simp add: SetCompact_def Let_def wf_intros)
qed

lemma compact_mantissa_less: "unat (c AND 0x007fffff :: u32) < 2 ^ 23"
  by (simp add: and_mask_23)

lemma SetCompact_overflow:
  "snd (snd (SetCompact c)) \<longleftrightarrow> 2 ^ 256 \<le> compact_value c"
proof -
  let ?n = "unat (drop_bit 24 c)" and ?m = "unat (c AND 0x007fffff)"
  have m: "?m < 8388608" using compact_mantissa_less [of c] by simp
  consider "?n \<le> 3" | "3 < ?n" "?n \<le> 32" | "?n = 33" | "?n = 34" | "34 < ?n" by linarith
  then show ?thesis
  proof cases
    case 1
    have "?m div 2 ^ (8 * (3 - ?n)) < 2 ^ 256"
      by (rule le_less_trans [OF div_le_dividend]) (use m in simp)
    then have "compact_value c < 2 ^ 256"
      unfolding compact_value_def using 1 by (simp add: compact_small_value del: drop_bit_eq_div)
    with 1 show ?thesis by (simp add: SetCompact_def Let_def not_less del: drop_bit_eq_div)
  next
    case 2
    have "?m * 2 ^ (8 * (?n - 3)) < 2 ^ 23 * 2 ^ (8 * (?n - 3))" using m by simp
    also have "\<dots> = (2 :: nat) ^ (23 + 8 * (?n - 3))" by (simp only: power_add)
    also have "\<dots> \<le> 2 ^ 256" using 2 by (intro power_increasing) simp_all
    finally have "compact_value c < 2 ^ 256"
      unfolding compact_value_def using 2 by (simp add: compact_shift_value del: drop_bit_eq_div)
    with 2 show ?thesis by (auto simp: SetCompact_def Let_def simp del: drop_bit_eq_div)
  next
    case 3
    then have "compact_value c = ?m * 2 ^ 240"
      unfolding compact_value_def by (simp add: compact_shift_value del: drop_bit_eq_div)
    with 3 show ?thesis
      by (auto simp: SetCompact_def Let_def word_less_nat_alt word_unat_eq_iff simp del: drop_bit_eq_div)
  next
    case 4
    then have "compact_value c = ?m * 2 ^ 248"
      unfolding compact_value_def by (simp add: compact_shift_value del: drop_bit_eq_div)
    with 4 show ?thesis
      by (auto simp: SetCompact_def Let_def word_less_nat_alt word_unat_eq_iff simp del: drop_bit_eq_div)
  next
    case 5
    then have v: "compact_value c = ?m * 2 ^ (8 * (?n - 3))"
      unfolding compact_value_def by (simp add: compact_shift_value del: drop_bit_eq_div)
    have "(2 :: nat) ^ 256 \<le> 2 ^ (8 * (?n - 3))" using 5 by (intro power_increasing) simp_all
    then have "2 ^ 256 \<le> compact_value c \<longleftrightarrow> ?m \<noteq> 0"
      unfolding v by (cases ?m) (auto intro: le_trans)
    moreover have "snd (snd (SetCompact c)) \<longleftrightarrow> ?m \<noteq> 0"
      using 5 by (simp add: SetCompact_def Let_def word_unat_eq_iff del: drop_bit_eq_div)
    ultimately show ?thesis by simp
  qed
qed

lemma SetCompact_negative:
  "fst (snd (SetCompact c)) \<Longrightarrow> c AND 0x00800000 \<noteq> 0"
  by (simp add: SetCompact_def Let_def)

text \<open>The bytes of a value, and the mantissa that \<open>GetCompact\<close> keeps of it.\<close>

lemma byte_length_bounds:
  assumes a: "wf_uint a" "0 < uval a" and n: "n = (uint_bits a + 7) div 8"
  shows "256 ^ (n - 1) \<le> uval a" "uval a < 256 ^ n" "1 \<le> n" "n \<le> 32"
proof -
  note b = uint_bits_bounds [OF a(1)]
  have b0: "0 < uint_bits a" using b(2) a(2) by simp
  then show "1 \<le> n" using n by linarith
  have "8 * (n - 1) \<le> uint_bits a - 1" using n b0 by linarith
  then have "(2 :: nat) ^ (8 * (n - 1)) \<le> 2 ^ (uint_bits a - 1)" by (intro power_increasing) simp_all
  then show "256 ^ (n - 1) \<le> uval a" unfolding pow_256 using b(3) a(2) by (meson le_trans)
  have "uint_bits a \<le> 8 * n" using n by linarith
  then have "(2 :: nat) ^ uint_bits a \<le> 2 ^ (8 * n)" by (intro power_increasing) simp_all
  then show "uval a < 256 ^ n" unfolding pow_256 using b(4) by (meson less_le_trans)
  show "n \<le> 32" using n b(5) by linarith
qed

lemma mantissa_less:
  "(v :: nat) < 256 ^ n \<Longrightarrow> v * 16777216 div 256 ^ n < 16777216"
  by (simp add: div_less_iff_less_mult)

lemma mantissa_small: "n \<le> 3 \<Longrightarrow> (v :: nat) * 16777216 div 256 ^ n = v * 2 ^ (8 * (3 - n))"
proof -
  assume "n \<le> 3"
  then have "(256 :: nat) ^ 3 = 256 ^ (3 - n) * 256 ^ n" by (metis le_add_diff_inverse2 power_add)
  then have e: "v * 16777216 = (v * 2 ^ (8 * (3 - n))) * 256 ^ n"
    by (simp only: pow_256 [of "3 - n"]) simp
  show ?thesis unfolding e by (rule nonzero_mult_div_cancel_right) simp
qed

lemma mantissa_large: "3 < n \<Longrightarrow> (v :: nat) * 16777216 div 256 ^ n = v div 2 ^ (8 * (n - 3))"
proof -
  assume "3 < n"
  then have "(256 :: nat) ^ n = 256 ^ (n - 3) * 256 ^ 3"
    by (metis le_add_diff_inverse2 less_imp_le power_add)
  then have "(256 :: nat) ^ n = 2 ^ (8 * (n - 3)) * 16777216" by (simp only: pow_256 [of "n - 3"]) simp
  then have "v * 16777216 div 256 ^ n = v * 16777216 div (2 ^ (8 * (n - 3)) * 16777216)" by simp
  also have "\<dots> = v div 2 ^ (8 * (n - 3))" by (rule div_mult_mult2) simp
  finally show ?thesis .
qed

lemma unat_or_disjoint:
  "(x :: u32) AND y = 0 \<Longrightarrow> unat (x OR y) = unat x + unat y"
proof -
  assume xy: "x AND y = 0"
  have "unat (x OR y) = unat x OR unat y" by (rule bit_eqI) (auto simp: bit_simps)
  also have "unat x AND unat y = unat (x AND y)" by (rule bit_eqI) (auto simp: bit_simps)
  then have "unat x AND unat y = 0" using xy by simp
  then have "unat x OR unat y = unat x + unat y" by (rule disjunctive_add_eq_or [symmetric])
  finally show ?thesis .
qed

lemma bit_800000: "bit (0x00800000 :: u32) n \<longleftrightarrow> n = 23"
proof -
  have "(0x00800000 :: u32) = 2 ^ 23" by simp
  then show ?thesis by (simp only: bit_exp_iff possible_bit_word) auto
qed

lemma compact_join:
  assumes "unat (m :: u32) < 2 ^ 23" and "s < 256"
  shows "unat ((m OR push_bit 24 (of_nat s)) AND 0x007fffff) = unat m"
    and "unat (drop_bit 24 (m OR push_bit 24 (of_nat s))) = s"
    and "(m OR push_bit 24 (of_nat s)) AND 0x00800000 = 0"
proof -
  have "unat (push_bit 24 (of_nat s :: u32)) = s * 16777216"
    using assms(2) by (simp add: push_bit_eq_mult unat_word_ariths unat_of_nat)
  moreover have mb: "\<not> bit m n" if "23 \<le> n" for n
  proof -
    have "unat m < 2 ^ n" using assms(1) that by (meson less_le_trans one_le_numeral power_increasing)
    then have "\<not> bit (unat m) n" by (simp add: bit_iff_odd)
    then show ?thesis by (auto simp: bit_simps dest: bit_imp_le_length)
  qed
  have "m AND push_bit 24 (of_nat s) = 0"
    by (rule bit_eqI) (auto simp: bit_simps mb)
  then have sum: "unat (m OR push_bit 24 (of_nat s)) = unat m + s * 16777216"
    using calculation by (simp add: unat_or_disjoint)
  show "unat ((m OR push_bit 24 (of_nat s)) AND 0x007fffff) = unat m"
  proof -
    have "unat m + s * 16777216 = unat m + (2 * s) * 2 ^ 23" by simp
    then show ?thesis
      using assms sum by (simp only: and_mask_23 mod_mult_self1) simp
  qed
  show "unat (drop_bit 24 (m OR push_bit 24 (of_nat s))) = s"
    using assms sum unat_drop_bit [of 24 "m OR push_bit 24 (of_nat s)"] by (simp del: drop_bit_eq_div drop_bit_or)
  show "(m OR push_bit 24 (of_nat s)) AND 0x00800000 = 0"
    by (rule bit_eqI) (auto simp: bit_simps bit_800000 mb simp del: bit_numeral_word_iff)
qed

lemma bit_23_iff: "c AND 0x00800000 \<noteq> (0 :: u32) \<longleftrightarrow> bit c 23"
proof -
  have "c AND 0x00800000 = 0 \<longleftrightarrow> (\<forall>n. \<not> bit (c AND 0x00800000) n)"
    by (metis bit_0_eq bit_eqI bot_apply bot_bool_def)
  then show ?thesis by (auto simp: bit_and_iff bit_800000 simp del: bit_numeral_word_iff)
qed

lemma bit_23_value: "unat (c :: u32) < 2 ^ 24 \<Longrightarrow> bit c 23 \<longleftrightarrow> 2 ^ 23 \<le> unat c"
  using bit_unat_top [of c 23] by simp

lemma no_high_bits: "unat (c :: u32) < 2 ^ 23 \<Longrightarrow> c AND NOT 0x007fffff = 0"
proof -
  assume c: "unat c < 2 ^ 23"
  have m: "(0x007fffff :: u32) = mask 23" by (simp add: mask_eq_exp_minus_1)
  have "\<not> bit c n" if "23 \<le> n" for n
  proof -
    have "unat c < 2 ^ n" using c that by (meson less_le_trans one_le_numeral power_increasing)
    then have "\<not> bit (unat c) n" by (simp add: bit_iff_odd)
    then show ?thesis by (auto simp: bit_simps dest: bit_imp_le_length)
  qed
  then have "bit c n = bit (take_bit 23 c) n" for n
    by (cases "n < 23") (auto simp: bit_take_bit_iff)
  then have "c = take_bit 23 c" by (rule bit_eqI)
  then have "c AND mask 23 = c" by (simp only: take_bit_eq_mask)
  then have "c AND NOT (mask 23) = 0" by (metis and.assoc and_zero_eq bit.conj_cancel_right)
  with m show ?thesis by simp
qed

definition compact_size :: "base_uint \<Rightarrow> nat" where
  "compact_size a =
     (let n = (uint_bits a + 7) div 8
      in if 2 ^ 23 \<le> uval a * 16777216 div 256 ^ n then n + 1 else n)"

lemma uval_pos_mantissa:
  assumes a: "wf_uint a" and n: "n = (uint_bits a + 7) div 8"
  shows "uval a * 16777216 div 256 ^ n < 2 ^ 24"
proof (cases "uval a = 0")
  case False
  then show ?thesis using byte_length_bounds(2) [OF a _ n] mantissa_less [of "uval a" n] by simp
qed simp

lemma low_word_of_shift:
  assumes a: "wf_uint a" and n: "n = (uint_bits a + 7) div 8"
  shows "unat (if n \<le> 3 then ucast (push_bit (8 * (3 - n)) (uint_low64 a))
               else ucast (uint_low64 (uint_shr a (8 * (n - 3)))) :: u32)
       = uval a * 16777216 div 256 ^ n"
proof (cases "n \<le> 3")
  case True
  let ?k = "8 * (3 - n)"
  have m: "uval a * 2 ^ ?k < 2 ^ 24"
    using uval_pos_mantissa [OF a n] True by (simp add: mantissa_small)
  have small: "uval a < 2 ^ 24" by (rule le_less_trans [OF _ m]) simp
  then have low: "unat (uint_low64 a) = uval a" using a by (simp add: uval_low64)
  have "unat (push_bit ?k (uint_low64 a)) = uval a * 2 ^ ?k"
    using m low by (simp add: unsigned_push_bit_eq take_bit_eq_mod push_bit_eq_mult [of _ "uval a"])
  then show ?thesis using True m by (simp add: mantissa_small)
next
  case False
  let ?k = "8 * (n - 3)"
  have m: "uval a div 2 ^ ?k < 2 ^ 24"
    using uval_pos_mantissa [OF a n] False by (simp add: mantissa_large)
  have "unat (uint_low64 (uint_shr a ?k)) = uval a div 2 ^ ?k"
    using m a by (simp add: uval_low64 wf_intros value_simps)
  then show ?thesis using False m by (simp add: mantissa_large)
qed

lemma compact_guards:
  "b \<Longrightarrow> (if (0 :: u32) \<noteq> 0 then None else if \<not> b then None
    else Some ((x :: u32) OR (if False \<and> q then y else 0))) = Some x"
  by simp

lemma GetCompact_fields:
  assumes a: "wf_uint a"
  shows "\<exists>c. GetCompact a False = Some c \<and> c AND 0x00800000 = 0 \<and>
    unat (drop_bit 24 c) = compact_size a \<and>
    unat (c AND 0x007fffff) = uval a * 16777216 div 256 ^ compact_size a"
proof -
  define n where "n = (uint_bits a + 7) div 8"
  define w :: u32 where "w = (if n \<le> 3 then ucast (push_bit (8 * (3 - n)) (uint_low64 a))
               else ucast (uint_low64 (uint_shr a (8 * (n - 3)))))"
  define w' :: u32 where "w' = (if bit w 23 then drop_bit 8 w else w)"
  define n' where "n' = (if bit w 23 then n + 1 else n)"
  have n32: "n \<le> 32" using uint_bits_bounds(5) [OF a] unfolding n_def by linarith
  have w: "unat w = uval a * 16777216 div 256 ^ n"
    unfolding w_def by (rule low_word_of_shift [OF a n_def])
  have w24: "unat w < 2 ^ 24" unfolding w by (rule uval_pos_mantissa [OF a n_def])
  have b: "bit w 23 \<longleftrightarrow> 2 ^ 23 \<le> unat w" by (rule bit_23_value [OF w24])
  have n': "n' = compact_size a"
    unfolding n'_def compact_size_def Let_def b w n_def ..
  have w': "unat w' = uval a * 16777216 div 256 ^ n'"
    unfolding w'_def n'_def by (simp add: unat_drop_bit w div_mult2_eq [symmetric] mult.commute
        del: drop_bit_eq_div)
  have w'23: "unat w' < 2 ^ 23"
    using w24 b unfolding w'_def by (auto simp: unat_drop_bit simp del: drop_bit_eq_div)
  have n'256: "n' < 256" using n32 unfolding n'_def by simp
  have c: "(if bit w 23 then (drop_bit 8 w, n + 1) else (w, n)) = (w', n')"
    by (simp add: w'_def n'_def)
  have "GetCompact a False = Some (w' OR push_bit 24 (of_nat n'))"
    unfolding GetCompact_def Let_def n_def [symmetric] w_def [symmetric] bit_23_iff c prod.case
    by (subst no_high_bits [OF w'23]) (rule compact_guards [OF n'256])
  then show ?thesis
    using compact_join [OF w'23 n'256] w'
    by (intro exI [of _ "w' OR push_bit 24 (of_nat n')"] conjI) (simp_all only: n')
qed

lemma compact_value_GetCompact:
  assumes "unat (drop_bit 24 c) = n" and "unat (c AND 0x007fffff) = v * 16777216 div 256 ^ n"
  shows "compact_value c = v * 16777216 div 256 ^ n * 256 ^ n div 16777216"
  unfolding compact_value_def assms by simp

lemma compact_size_mantissa:
  assumes a: "wf_uint a" and big: "3 < compact_size a"
  shows "2 ^ 15 \<le> uval a * 16777216 div 256 ^ compact_size a"
proof -
  define n where "n = (uint_bits a + 7) div 8"
  have pos: "0 < uval a"
  proof (rule ccontr)
    assume "\<not> 0 < uval a"
    then show False using big uint_bits_bounds(1) [OF a] by (simp add: compact_size_def)
  qed
  note n = byte_length_bounds [OF a pos n_def]
  show ?thesis
  proof (cases "2 ^ 23 \<le> uval a * 16777216 div 256 ^ n")
    case True
    then have s: "compact_size a = n + 1" by (simp add: compact_size_def Let_def n_def)
    have "2 ^ 15 \<le> uval a * 16777216 div 256 ^ n div 256" using True by simp
    then show ?thesis unfolding s by (simp add: div_mult2_eq [symmetric] mult.commute)
  next
    case False
    then have s: "compact_size a = n" by (simp add: compact_size_def Let_def n_def)
    then have n3: "3 < n" using big by simp
    have "(256 :: nat) ^ (n - 1) = 256 ^ (n - 3 + 2)" using n3 by (intro arg_cong [of _ _ "power 256"]) simp
    then have "(256 :: nat) ^ (n - 1) = 2 ^ (8 * (n - 3)) * 65536"
      by (simp only: power_add pow_256) simp
    then have "65536 * 2 ^ (8 * (n - 3)) \<le> uval a" using n(1) by (simp add: mult.commute)
    then have "65536 \<le> uval a div 2 ^ (8 * (n - 3))" by (simp add: less_eq_div_iff_mult_less_eq)
    then show ?thesis using n3 unfolding s by (simp add: mantissa_large)
  qed
qed

lemma GetCompact_SetCompact:
  assumes a: "wf_uint a"
  shows "\<exists>c v. GetCompact a False = Some c \<and> SetCompact c = (v, False, False) \<and> wf_uint v \<and>
    uval v \<le> uval a \<and> (uval a - uval v) * 2 ^ 15 \<le> uval a"
proof -
  obtain c where c: "GetCompact a False = Some c" "c AND 0x00800000 = 0"
    "unat (drop_bit 24 c) = compact_size a"
    "unat (c AND 0x007fffff) = uval a * 16777216 div 256 ^ compact_size a"
    using GetCompact_fields [OF a] by blast
  let ?n = "compact_size a" and ?v = "uval a"
  have cv: "compact_value c = ?v * 16777216 div 256 ^ ?n * 256 ^ ?n div 16777216"
    by (rule compact_value_GetCompact [OF c(3,4)])
  have le: "compact_value c \<le> ?v"
  proof -
    have "?v * 16777216 div 256 ^ ?n * 256 ^ ?n \<le> ?v * 16777216" by (rule div_times_less_eq_dividend)
    then have "compact_value c \<le> ?v * 16777216 div 16777216" unfolding cv by (rule div_le_mono)
    then show ?thesis by simp
  qed
  have err: "(?v - compact_value c) * 2 ^ 15 \<le> ?v"
  proof (cases "3 < ?n")
    case True
    let ?e = "2 ^ (8 * (?n - 3)) :: nat"
    have "compact_value c = ?v div ?e * ?e"
      unfolding cv using True by (simp add: mantissa_large compact_shift_value)
    then have "?v - compact_value c = ?v mod ?e" by (simp add: minus_div_mult_eq_mod)
    then have "?v - compact_value c \<le> ?e" by (simp add: less_imp_le)
    then have "(?v - compact_value c) * 2 ^ 15 \<le> ?e * (?v div ?e)"
      using compact_size_mantissa [OF a True] True by (intro mult_le_mono) (simp_all add: mantissa_large)
    also have "\<dots> \<le> ?v" by simp
    finally show ?thesis .
  next
    case False
    then have "compact_value c = ?v"
      unfolding cv by (simp add: mantissa_small compact_small_value)
    then show ?thesis by simp
  qed
  have lt: "compact_value c < 2 ^ 256" using le uval_bound [OF a] by (rule le_less_trans)
  let ?r = "fst (SetCompact c)"
  have v: "uval ?r = compact_value c" using SetCompact_value(1) [of c] lt by simp
  have "SetCompact c = (?r, False, False)"
    using SetCompact_overflow [of c] lt c(2)
    by (metis SetCompact_negative not_le prod.collapse)
  then show ?thesis using c(1) le err SetCompact_value(2) [of c] unfolding v [symmetric] by metis
qed

subsection \<open>Properties\<close>

text \<open>
  Decoding a compact target yields \<open>mantissa * 256 ^ (exponent - 3)\<close> reduced modulo
  \<open>2 ^ 256\<close>, and the overflow flag is raised exactly when that reduction loses bits.
\<close>

theorem SetCompact_decodes:
  "\<exists>v neg ovf. SetCompact c = (v, neg, ovf) \<and> wf_uint v \<and>
     uval v = compact_value c mod 2 ^ 256 \<and> (ovf \<longleftrightarrow> 2 ^ 256 \<le> compact_value c)"
  using SetCompact_value [of c] SetCompact_overflow [of c] by (cases "SetCompact c") simp

text \<open>
  \<open>GetCompact\<close> never trips its assertions, and decoding its result returns a value that
  is not above the original and keeps at least its 15 leading bits, with no flag raised.
\<close>

theorem GetCompact_precision:
  assumes "wf_uint a"
  shows "\<exists>c v. GetCompact a False = Some c \<and> SetCompact c = (v, False, False) \<and> wf_uint v \<and>
    uval v \<le> uval a \<and> (uval a - uval v) * 2 ^ 15 \<le> uval a"
  by (rule GetCompact_SetCompact [OF assms])

lemma GetCompact_precision_witness:
  "\<exists>c v. GetCompact (uint_of_u64 0x123456789) False = Some c \<and> SetCompact c = (v, False, False) \<and>
    uval v \<le> 0x123456789"
  using GetCompact_precision [of "uint_of_u64 0x123456789"]
  by (auto simp: wf_of_u64 uval_of_u64)

end
