(* ===== verification/Uint256.thy ===== *)
theory Uint256
  imports Compact
begin

text \<open>
  The opaque blobs of \<open>uint256.h\<close> and \<open>uint256.cpp\<close> (\<open>base_blob\<close>) as byte
  lists in memory order, their hexadecimal text (with \<open>HexDigit\<close> of
  \<open>utilstrencodings.cpp\<close>), and the conversions to and from \<open>arith_uint256\<close>.
\<close>

unbundle bit_operations_syntax

subsection \<open>Blobs\<close>

type_synonym uint256 = bytes
type_synonym uint160 = bytes

definition wf_blob :: "nat \<Rightarrow> bytes \<Rightarrow> bool" where
  "wf_blob bits b \<longleftrightarrow> length b = bits div 8"

definition blob_SetNull :: "nat \<Rightarrow> bytes" where
  "blob_SetNull bits = replicate (bits div 8) 0"

definition blob_IsNull :: "bytes \<Rightarrow> bool" where
  "blob_IsNull b \<longleftrightarrow> list_all (\<lambda>x. x = 0) b"

text \<open>
  \<open>memcmp(a, b) < 0\<close>: lexicographic on the bytes in memory order.  Blobs of one type have the
  same size; on lists of different sizes a proper prefix comes first, so that the order is
  total.
\<close>

fun blob_less :: "bytes \<Rightarrow> bytes \<Rightarrow> bool" where
  "blob_less (x # xs) (y # ys) \<longleftrightarrow> (if x = y then blob_less xs ys else x < y)"
| "blob_less [] (y # ys) \<longleftrightarrow> True"
| "blob_less _ [] \<longleftrightarrow> False"

text \<open>\<open>explicit base_blob(const std::vector<unsigned char>& vch)\<close> asserts the size.\<close>

definition blob_of_vch :: "nat \<Rightarrow> bytes \<Rightarrow> bytes option" where
  "blob_of_vch bits vch = (if length vch = bits div 8 then Some vch else None)"

subsection \<open>Characters of the C library\<close>

definition isspace :: "char \<Rightarrow> bool" where
  "isspace c \<longleftrightarrow> (let n = of_char c :: nat in n = 32 \<or> 9 \<le> n \<and> n \<le> 13)"

definition tolower :: "char \<Rightarrow> char" where
  "tolower c = (let n = of_char c :: nat in if 65 \<le> n \<and> n \<le> 90 then char_of (n + 32) else c)"

definition p_util_hexdigit :: "int list" where
  "p_util_hexdigit =
     replicate 48 (- 1) @ [0, 1, 2, 3, 4, 5, 6, 7, 8, 9] @ replicate 7 (- 1)
     @ [0xa, 0xb, 0xc, 0xd, 0xe, 0xf] @ replicate 26 (- 1)
     @ [0xa, 0xb, 0xc, 0xd, 0xe, 0xf] @ replicate 153 (- 1)"

definition HexDigit :: "char \<Rightarrow> int" where
  "HexDigit c = p_util_hexdigit ! of_char c"

definition hexmap :: "char list" where
  "hexmap = ''0123456789abcdef''"

text \<open>\<open>fmt::format("{:02x}", b)\<close>\<close>

definition format_02x :: "u8 \<Rightarrow> string" where
  "format_02x b = [hexmap ! unat (drop_bit 4 b), hexmap ! unat (b AND 15)]"

subsection \<open>Hexadecimal text\<close>

definition GetHex :: "bytes \<Rightarrow> string" where
  "GetHex data = concat (map (\<lambda>i. format_02x (data ! (length data - i - 1))) [0..<length data])"

text \<open>
  The loop of \<open>SetHex\<close> reads the digits backwards, two to a byte, and stops at the end of
  the digits or of the array; the first argument counts the bytes of the array still free.
\<close>

fun fill_nibbles :: "nat \<Rightarrow> char list \<Rightarrow> bytes" where
  "fill_nibbles 0 ds = []"
| "fill_nibbles (Suc n) [] = 0 # fill_nibbles n []"
| "fill_nibbles (Suc n) [d] = of_int (HexDigit d) # fill_nibbles n []"
| "fill_nibbles (Suc n) (d # e # ds) =
     (of_int (HexDigit d) OR push_bit 4 (of_int (HexDigit e))) # fill_nibbles n ds"

definition skip_0x :: "string \<Rightarrow> string" where
  "skip_0x psz = (case psz of
      c # d # rest \<Rightarrow> if c = CHR ''0'' \<and> tolower d = CHR ''x'' then rest else psz
    | _ \<Rightarrow> psz)"

definition SetHex :: "nat \<Rightarrow> string \<Rightarrow> bytes" where
  "SetHex bits psz =
     (let psz = skip_0x (dropWhile isspace psz);
          digits = takeWhile (\<lambda>c. HexDigit c \<noteq> - 1) psz
      in fill_nibbles (bits div 8) (rev digits))"

definition uint256S :: "string \<Rightarrow> uint256" where
  "uint256S str = SetHex 256 str"

subsection \<open>Conversion to and from the arithmetic type\<close>

definition htole32 :: "u32 \<Rightarrow> bytes" where
  "htole32 w = map (\<lambda>i. ucast (drop_bit (8 * i) w)) [0..<4]"

definition letoh32 :: "bytes \<Rightarrow> u32" where
  "letoh32 bs = fold (\<lambda>i acc. acc OR push_bit (8 * i) (ucast (bs ! i))) [0..<4] 0"

definition ArithToUint256 :: "base_uint \<Rightarrow> uint256" where
  "ArithToUint256 a = concat (map (\<lambda>x. htole32 (a ! x)) [0..<WIDTH])"

definition UintToArith256 :: "uint256 \<Rightarrow> base_uint" where
  "UintToArith256 b = map (\<lambda>x. letoh32 (take 4 (drop (4 * x) b))) [0..<WIDTH]"

subsection \<open>Round trips\<close>

lemma hexmap_digit: "\<forall>n < 16. HexDigit (hexmap ! n) = int n \<and> \<not> isspace (hexmap ! n) \<and>
    tolower (hexmap ! n) \<noteq> CHR ''x''"
  by (simp add: All_less_Suc numeral_eq_Suc del: One_nat_def) code_simp

lemma GetHex_rev: "GetHex data = concat (map format_02x (rev data))"
proof -
  have "map (\<lambda>i. data ! (length data - i - 1)) [0..<length data] = rev data"
    by (rule nth_equalityI) (simp_all add: rev_nth)
  then have "map format_02x (map (\<lambda>i. data ! (length data - i - 1)) [0..<length data]) = map format_02x (rev data)"
    by simp
  then show ?thesis by (simp add: GetHex_def comp_def)
qed

lemma nibbles: "unat (drop_bit 4 (b :: u8)) < 16" "unat (b AND 15) < 16"
proof -
  show "unat (drop_bit 4 b) < 16"
    using unat_u8_less [of b] by (simp add: unat_drop_bit del: drop_bit_eq_div)
  have "(15 :: u8) = mask 4" by (simp add: mask_eq_exp_minus_1)
  then have "unat (b AND 15) = take_bit 4 (unat b)"
    by (simp only: take_bit_eq_mask [symmetric] unsigned_take_bit_eq)
  then show "unat (b AND 15) < 16" by (simp add: take_bit_eq_mod)
qed

lemma nibbles_join: "(b AND 15) OR push_bit 4 (drop_bit 4 b) = (b :: u8)"
proof -
  have "(15 :: u8) = mask 4" by (simp add: mask_eq_exp_minus_1)
  then have "b AND 15 = take_bit 4 b" by (simp only: take_bit_eq_mask)
  then show ?thesis
    by (auto intro!: bit_eqI simp: bit_simps)
qed

lemma HexDigit_format:
  "of_int (HexDigit (hexmap ! unat (b AND 15))) = (b AND 15 :: u8)"
  "of_int (HexDigit (hexmap ! unat (drop_bit 4 b))) = (drop_bit 4 b :: u8)"
  using hexmap_digit nibbles [of b] by simp_all

lemma fill_nibbles_format:
  "fill_nibbles (length bs) (concat (map (\<lambda>b. rev (format_02x b)) bs)) = bs"
  by (induction bs) (simp_all add: format_02x_def HexDigit_format nibbles_join del: drop_bit_eq_div)

lemma hexmap_char:
  "n < 16 \<Longrightarrow> HexDigit (hexmap ! n) \<noteq> - 1 \<and> \<not> isspace (hexmap ! n) \<and>
    tolower (hexmap ! n) \<noteq> CHR ''x''"
  using hexmap_digit by auto

lemma bit_u8_beyond: "8 \<le> n \<Longrightarrow> \<not> bit (w :: u8) n"
  by (auto dest: bit_imp_le_length)

lemma format_02x_chars:
  "c \<in> set (format_02x b) \<Longrightarrow> HexDigit c \<noteq> - 1 \<and> \<not> isspace c \<and> tolower c \<noteq> CHR ''x''"
  using hexmap_char nibbles [of b] by (auto simp: format_02x_def simp del: drop_bit_eq_div)

lemma GetHex_chars: "c \<in> set (GetHex h) \<Longrightarrow> HexDigit c \<noteq> - 1 \<and> \<not> isspace c \<and> tolower c \<noteq> CHR ''x''"
  by (auto simp: GetHex_rev dest: format_02x_chars)

lemma skip_0x_id: "(\<And>c. c \<in> set s \<Longrightarrow> tolower c \<noteq> CHR ''x'') \<Longrightarrow> skip_0x s = s"
  by (auto simp: skip_0x_def split: list.splits)

lemma SetHex_GetHex:
  assumes "wf_blob bits h"
  shows "SetHex bits (GetHex h) = h"
proof -
  have "dropWhile isspace (GetHex h) = GetHex h"
    using GetHex_chars [of _ h] by (cases "GetHex h") auto
  moreover have "skip_0x (GetHex h) = GetHex h" using GetHex_chars by (intro skip_0x_id) blast
  moreover have "takeWhile (\<lambda>c. HexDigit c \<noteq> - 1) (GetHex h) = GetHex h"
    unfolding takeWhile_eq_all_conv using GetHex_chars by blast
  moreover have "rev (GetHex h) = concat (map (\<lambda>b. rev (format_02x b)) h)"
    by (simp add: GetHex_rev rev_concat rev_map comp_def)
  ultimately show ?thesis
    using fill_nibbles_format [of h] assms unfolding SetHex_def Let_def wf_blob_def by argo
qed

lemma length_GetHex: "length (GetHex h) = 2 * length h"
  by (simp add: GetHex_rev length_concat comp_def format_02x_def sum_list_triv)

lemma htole32_list: "htole32 w = [ucast w, ucast (drop_bit 8 w), ucast (drop_bit 16 w), ucast (drop_bit 24 w)]"
  by (simp add: htole32_def numeral_eq_Suc upt_rec)

lemma letoh32_list: "letoh32 [a, b, c, d] =
    ucast a OR push_bit 8 (ucast b) OR push_bit 16 (ucast c) OR push_bit 24 (ucast d)"
  by (simp add: letoh32_def numeral_eq_Suc upt_rec or.assoc)

lemma letoh32_htole32: "letoh32 (htole32 w) = w"
proof (rule bit_eqI)
  fix n :: nat
  consider "n < 8" | "8 \<le> n" "n < 16" | "16 \<le> n" "n < 24" | "24 \<le> n" by linarith
  then show "bit (letoh32 (htole32 w)) n = bit w n"
    unfolding htole32_list letoh32_list by cases (auto simp: bit_simps dest: bit_imp_le_length)
qed

lemma htole32_letoh32: "length bs = 4 \<Longrightarrow> htole32 (letoh32 bs) = bs"
proof -
  assume "length bs = 4"
  then obtain a b c d where bs: "bs = [a, b, c, d]" by (auto simp: numeral_eq_Suc length_Suc_conv)
  show ?thesis unfolding bs htole32_list letoh32_list
    by (auto intro!: bit_eqI simp: bit_simps bit_u8_beyond)
qed

lemma ArithToUint256_list:
  "ArithToUint256 [a, b, c, d, e, f, g, h] =
    htole32 a @ htole32 b @ htole32 c @ htole32 d @ htole32 e @ htole32 f @ htole32 g @ htole32 h"
  by (simp add: ArithToUint256_def WIDTH_def numeral_eq_Suc upt_rec)

lemma length_htole32 [simp]: "length (htole32 w) = 4"
  by (simp add: htole32_def)

lemma length_ArithToUint256 [simp]: "length (ArithToUint256 a) = 32"
  by (simp add: ArithToUint256_def WIDTH_def length_concat comp_def sum_list_triv)

lemma wf_UintToArith256 [wf_intros]: "wf_uint (UintToArith256 b)"
  by (simp add: UintToArith256_def wf_uint_def)

lemma UintToArith256_ArithToUint256: "wf_uint a \<Longrightarrow> UintToArith256 (ArithToUint256 a) = a"
  unfolding wf_uint_def WIDTH_def
  by (erule list_length_8)
    (simp add: ArithToUint256_list UintToArith256_def WIDTH_def upt_rec letoh32_htole32 del: upt_rec_numeral)

subsection \<open>Properties\<close>

text \<open>
  Reading back the hexadecimal text of a blob of any width gives the blob.
\<close>

theorem SetHex_of_GetHex:
  assumes "wf_blob bits h"
  shows "SetHex bits (GetHex h) = h \<and> length (GetHex h) = 2 * (bits div 8)"
  using SetHex_GetHex [OF assms] length_GetHex [of h] assms by (simp add: wf_blob_def)

lemma SetHex_of_GetHex_witness: "SetHex 16 (GetHex [0xab, 0x01]) = [0xab, 0x01]"
  using SetHex_of_GetHex [of 16 "[0xab, 0x01]"] by (simp add: wf_blob_def)

end
