(* ===== verification/Hashing.thy ===== *)
theory Hashing
  imports Uint256
begin

text \<open>
  The streaming hash functions of \<open>crypto/\<close> (SHA-256, SHA-512, SHA-1, RIPEMD-160), the two
  HMACs, and the hashers of \<open>hash.h\<close> and \<open>hash.cpp\<close> built from them.  The four classes
  share the code of \<open>Write\<close> up to the transformation and the block size; it is modelled
  once, over the state (digest words, block buffer, byte count), and the lemmas about it live in
  the locale \<open>block_stream\<close>, which each class interprets with its own transformation.

  The unrolled rounds of the transformations are folds: the code rotates the names of its
  variables from one line to the next, the model rotates the list of their values.
\<close>

unbundle bit_operations_syntax

subsection \<open>Byte order\<close>

definition htobe32 :: "u32 \<Rightarrow> bytes" where
  "htobe32 w = [ucast (drop_bit 24 w), ucast (drop_bit 16 w), ucast (drop_bit 8 w), ucast w]"

definition betoh32 :: "bytes \<Rightarrow> u32" where
  "betoh32 bs = push_bit 24 (ucast (bs ! 0)) OR push_bit 16 (ucast (bs ! 1)) OR
     push_bit 8 (ucast (bs ! 2)) OR ucast (bs ! 3)"

definition htobe64 :: "u64 \<Rightarrow> bytes" where
  "htobe64 w = map (\<lambda>i. ucast (drop_bit (56 - 8 * i) w)) [0..<8]"

definition betoh64 :: "bytes \<Rightarrow> u64" where
  "betoh64 bs = fold (\<lambda>i acc. push_bit 8 acc OR ucast (bs ! i)) [0..<8] 0"

definition htole64 :: "u64 \<Rightarrow> bytes" where
  "htole64 w = map (\<lambda>i. ucast (drop_bit (8 * i) w)) [0..<8]"

subsection \<open>The streaming interface\<close>

record 'w hasher =
  hs :: "'w list"
  hbuf :: bytes
  hbytes :: nat

definition memcpy :: "bytes \<Rightarrow> nat \<Rightarrow> bytes \<Rightarrow> bytes" where
  "memcpy dest off src = take off dest @ src @ drop (off + length src) dest"

text \<open>\<open>while (end >= data + 64)\<close>: whole chunks directly from the source.\<close>

function write_chunks :: "('w list \<Rightarrow> bytes \<Rightarrow> 'w list) \<Rightarrow> nat \<Rightarrow> 'w list \<Rightarrow> bytes \<Rightarrow> 'w list \<times> bytes" where
  "write_chunks T n s data =
     (if 0 < n \<and> n \<le> length data then write_chunks T n (T s (take n data)) (drop n data)
      else (s, data))"
  by pat_completeness auto
termination by (relation "measure (\<lambda>(T, n, s, data). length data)") auto

declare write_chunks.simps [simp del]

definition hash_write :: "('w list \<Rightarrow> bytes \<Rightarrow> 'w list) \<Rightarrow> nat \<Rightarrow> 'w hasher \<Rightarrow> bytes \<Rightarrow> 'w hasher" where
  "hash_write T n h data =
     (let bufsize = hbytes h mod n;
          (h, data, bufsize) =
            (if bufsize \<noteq> 0 \<and> n \<le> bufsize + length data
             then let buf = memcpy (hbuf h) bufsize (take (n - bufsize) data)
                  in (h\<lparr>hbuf := buf, hbytes := hbytes h + (n - bufsize), hs := T (hs h) buf\<rparr>,
                      drop (n - bufsize) data, 0)
             else (h, data, bufsize));
          (s, rest) = write_chunks T n (hs h) data;
          h = h\<lparr>hs := s, hbytes := hbytes h + (length data - length rest)\<rparr>
      in if rest \<noteq> []
         then h\<lparr>hbuf := memcpy (hbuf h) bufsize rest, hbytes := hbytes h + length rest\<rparr>
         else h)"

text \<open>A constructed hasher: the buffer is uninitialised, its content is never read.\<close>

definition hash_start :: "'w list \<Rightarrow> bytes \<Rightarrow> 'w hasher" where
  "hash_start s0 buf = \<lparr>hs = s0, hbuf = buf, hbytes = 0\<rparr>"

subsection \<open>SHA-256\<close>

definition rotr32 :: "nat \<Rightarrow> u32 \<Rightarrow> u32" where
  "rotr32 k x = drop_bit k x OR push_bit (32 - k) x"

definition sha256_Ch :: "u32 \<Rightarrow> u32 \<Rightarrow> u32 \<Rightarrow> u32" where
  "sha256_Ch x y z = z XOR (x AND (y XOR z))"

definition sha256_Maj :: "u32 \<Rightarrow> u32 \<Rightarrow> u32 \<Rightarrow> u32" where
  "sha256_Maj x y z = (x AND y) OR (z AND (x OR y))"

definition sha256_Sigma0 :: "u32 \<Rightarrow> u32" where
  "sha256_Sigma0 x = rotr32 2 x XOR rotr32 13 x XOR rotr32 22 x"

definition sha256_Sigma1 :: "u32 \<Rightarrow> u32" where
  "sha256_Sigma1 x = rotr32 6 x XOR rotr32 11 x XOR rotr32 25 x"

definition sha256_sigma0 :: "u32 \<Rightarrow> u32" where
  "sha256_sigma0 x = rotr32 7 x XOR rotr32 18 x XOR drop_bit 3 x"

definition sha256_sigma1 :: "u32 \<Rightarrow> u32" where
  "sha256_sigma1 x = rotr32 17 x XOR rotr32 19 x XOR drop_bit 10 x"

text \<open>
  One \<open>Round\<close>, with its variables in the order in which the next line names them: the code
  updates \<open>d\<close> and \<open>h\<close> in place and calls the next round on \<open>h, a, b, c, d, e, f, g\<close>.
\<close>

definition sha256_Round :: "u32 list \<Rightarrow> u32 \<Rightarrow> u32 \<Rightarrow> u32 list" where
  "sha256_Round v k w =
     (let a = v ! 0; b = v ! 1; c = v ! 2; d = v ! 3; e = v ! 4; f = v ! 5; g = v ! 6; h = v ! 7;
          t1 = h + sha256_Sigma1 e + sha256_Ch e f g + k + w;
          t2 = sha256_Sigma0 a + sha256_Maj a b c
      in [t1 + t2, a, b, c, d + t1, e, f, g])"

definition sha256_Initialize :: "u32 list" where
  "sha256_Initialize = [0x6a09e667, 0xbb67ae85, 0x3c6ef372, 0xa54ff53a, 0x510e527f, 0x9b05688c,
     0x1f83d9ab, 0x5be0cd19]"

text \<open>The constants of the rounds, in the groups of eight in which the code writes them.\<close>

definition sha256_k :: "u32 list" where
  "sha256_k = concat
     [[0x428a2f98, 0x71374491, 0xb5c0fbcf, 0xe9b5dba5, 0x3956c25b, 0x59f111f1, 0x923f82a4, 0xab1c5ed5],
      [0xd807aa98, 0x12835b01, 0x243185be, 0x550c7dc3, 0x72be5d74, 0x80deb1fe, 0x9bdc06a7, 0xc19bf174],
      [0xe49b69c1, 0xefbe4786, 0x0fc19dc6, 0x240ca1cc, 0x2de92c6f, 0x4a7484aa, 0x5cb0a9dc, 0x76f988da],
      [0x983e5152, 0xa831c66d, 0xb00327c8, 0xbf597fc7, 0xc6e00bf3, 0xd5a79147, 0x06ca6351, 0x14292967],
      [0x27b70a85, 0x2e1b2138, 0x4d2c6dfc, 0x53380d13, 0x650a7354, 0x766a0abb, 0x81c2c92e, 0x92722c85],
      [0xa2bfe8a1, 0xa81a664b, 0xc24b8b70, 0xc76c51a3, 0xd192e819, 0xd6990624, 0xf40e3585, 0x106aa070],
      [0x19a4c116, 0x1e376c08, 0x2748774c, 0x34b0bcb5, 0x391c0cb3, 0x4ed8aa4a, 0x5b9cca4f, 0x682e6ff3],
      [0x748f82ee, 0x78a5636f, 0x84c87814, 0x8cc70208, 0x90befffa, 0xa4506ceb, 0xbef9a3f7, 0xc67178f2]]"

text \<open>The word of round \<open>i\<close>: from the chunk, then the 16 schedule words updated in a ring.\<close>

definition sha256_word :: "bytes \<Rightarrow> u32 list \<Rightarrow> nat \<Rightarrow> u32" where
  "sha256_word chunk w i =
     (if i < 16 then betoh32 (drop (4 * i) chunk)
      else w ! (i mod 16) + (sha256_sigma1 (w ! ((i + 14) mod 16)) + w ! ((i + 9) mod 16) +
             sha256_sigma0 (w ! ((i + 1) mod 16))))"

definition sha256_Transform :: "u32 list \<Rightarrow> bytes \<Rightarrow> u32 list" where
  "sha256_Transform s chunk =
     (let (v, w) = fold (\<lambda>i (v, w). let wi = sha256_word chunk w i
                           in (sha256_Round v (sha256_k ! i) wi, w[i mod 16 := wi]))
                     [0..<64] (s, replicate 16 0)
      in map2 (+) s v)"

definition CSHA256 :: "bytes \<Rightarrow> u32 hasher" where
  "CSHA256 buf = hash_start sha256_Initialize buf"

definition CSHA256_Write :: "u32 hasher \<Rightarrow> bytes \<Rightarrow> u32 hasher" where
  "CSHA256_Write h data = hash_write sha256_Transform 64 h data"

definition CSHA256_Finalize :: "u32 hasher \<Rightarrow> u32 hasher \<times> bytes" where
  "CSHA256_Finalize h =
     (let sizedesc = htobe64 (push_bit 3 (of_nat (hbytes h)));
          h = CSHA256_Write h (take (1 + (119 - hbytes h mod 64) mod 64) (0x80 # replicate 63 0));
          h = CSHA256_Write h sizedesc
      in (h, concat (map htobe32 (hs h))))"

definition CSHA256_Reset :: "u32 hasher \<Rightarrow> u32 hasher" where
  "CSHA256_Reset h = h\<lparr>hbytes := 0, hs := sha256_Initialize\<rparr>"

subsection \<open>SHA-512\<close>

definition rotr64 :: "nat \<Rightarrow> u64 \<Rightarrow> u64" where
  "rotr64 k x = drop_bit k x OR push_bit (64 - k) x"

definition sha512_Ch :: "u64 \<Rightarrow> u64 \<Rightarrow> u64 \<Rightarrow> u64" where
  "sha512_Ch x y z = z XOR (x AND (y XOR z))"

definition sha512_Maj :: "u64 \<Rightarrow> u64 \<Rightarrow> u64 \<Rightarrow> u64" where
  "sha512_Maj x y z = (x AND y) OR (z AND (x OR y))"

definition sha512_Sigma0 :: "u64 \<Rightarrow> u64" where
  "sha512_Sigma0 x = rotr64 28 x XOR rotr64 34 x XOR rotr64 39 x"

definition sha512_Sigma1 :: "u64 \<Rightarrow> u64" where
  "sha512_Sigma1 x = rotr64 14 x XOR rotr64 18 x XOR rotr64 41 x"

definition sha512_sigma0 :: "u64 \<Rightarrow> u64" where
  "sha512_sigma0 x = rotr64 1 x XOR rotr64 8 x XOR drop_bit 7 x"

definition sha512_sigma1 :: "u64 \<Rightarrow> u64" where
  "sha512_sigma1 x = rotr64 19 x XOR rotr64 61 x XOR drop_bit 6 x"

definition sha512_Round :: "u64 list \<Rightarrow> u64 \<Rightarrow> u64 \<Rightarrow> u64 list" where
  "sha512_Round v k w =
     (let a = v ! 0; b = v ! 1; c = v ! 2; d = v ! 3; e = v ! 4; f = v ! 5; g = v ! 6; h = v ! 7;
          t1 = h + sha512_Sigma1 e + sha512_Ch e f g + k + w;
          t2 = sha512_Sigma0 a + sha512_Maj a b c
      in [t1 + t2, a, b, c, d + t1, e, f, g])"

definition sha512_Initialize :: "u64 list" where
  "sha512_Initialize = [0x6a09e667f3bcc908, 0xbb67ae8584caa73b, 0x3c6ef372fe94f82b,
     0xa54ff53a5f1d36f1, 0x510e527fade682d1, 0x9b05688c2b3e6c1f, 0x1f83d9abfb41bd6b,
     0x5be0cd19137e2179]"

definition sha512_k :: "u64 list" where
  "sha512_k = concat
     [[0x428a2f98d728ae22, 0x7137449123ef65cd, 0xb5c0fbcfec4d3b2f, 0xe9b5dba58189dbbc,
       0x3956c25bf348b538, 0x59f111f1b605d019, 0x923f82a4af194f9b, 0xab1c5ed5da6d8118],
      [0xd807aa98a3030242, 0x12835b0145706fbe, 0x243185be4ee4b28c, 0x550c7dc3d5ffb4e2,
       0x72be5d74f27b896f, 0x80deb1fe3b1696b1, 0x9bdc06a725c71235, 0xc19bf174cf692694],
      [0xe49b69c19ef14ad2, 0xefbe4786384f25e3, 0x0fc19dc68b8cd5b5, 0x240ca1cc77ac9c65,
       0x2de92c6f592b0275, 0x4a7484aa6ea6e483, 0x5cb0a9dcbd41fbd4, 0x76f988da831153b5],
      [0x983e5152ee66dfab, 0xa831c66d2db43210, 0xb00327c898fb213f, 0xbf597fc7beef0ee4,
       0xc6e00bf33da88fc2, 0xd5a79147930aa725, 0x06ca6351e003826f, 0x142929670a0e6e70],
      [0x27b70a8546d22ffc, 0x2e1b21385c26c926, 0x4d2c6dfc5ac42aed, 0x53380d139d95b3df,
       0x650a73548baf63de, 0x766a0abb3c77b2a8, 0x81c2c92e47edaee6, 0x92722c851482353b],
      [0xa2bfe8a14cf10364, 0xa81a664bbc423001, 0xc24b8b70d0f89791, 0xc76c51a30654be30,
       0xd192e819d6ef5218, 0xd69906245565a910, 0xf40e35855771202a, 0x106aa07032bbd1b8],
      [0x19a4c116b8d2d0c8, 0x1e376c085141ab53, 0x2748774cdf8eeb99, 0x34b0bcb5e19b48a8,
       0x391c0cb3c5c95a63, 0x4ed8aa4ae3418acb, 0x5b9cca4f7763e373, 0x682e6ff3d6b2b8a3],
      [0x748f82ee5defb2fc, 0x78a5636f43172f60, 0x84c87814a1f0ab72, 0x8cc702081a6439ec,
       0x90befffa23631e28, 0xa4506cebde82bde9, 0xbef9a3f7b2c67915, 0xc67178f2e372532b],
      [0xca273eceea26619c, 0xd186b8c721c0c207, 0xeada7dd6cde0eb1e, 0xf57d4f7fee6ed178,
       0x06f067aa72176fba, 0x0a637dc5a2c898a6, 0x113f9804bef90dae, 0x1b710b35131c471b],
      [0x28db77f523047d84, 0x32caab7b40c72493, 0x3c9ebe0a15c9bebc, 0x431d67c49c100d4c,
       0x4cc5d4becb3e42b6, 0x597f299cfc657e2a, 0x5fcb6fab3ad6faec, 0x6c44198c4a475817]]"

definition sha512_word :: "bytes \<Rightarrow> u64 list \<Rightarrow> nat \<Rightarrow> u64" where
  "sha512_word chunk w i =
     (if i < 16 then betoh64 (drop (8 * i) chunk)
      else w ! (i mod 16) + (sha512_sigma1 (w ! ((i + 14) mod 16)) + w ! ((i + 9) mod 16) +
             sha512_sigma0 (w ! ((i + 1) mod 16))))"

definition sha512_Transform :: "u64 list \<Rightarrow> bytes \<Rightarrow> u64 list" where
  "sha512_Transform s chunk =
     (let (v, w) = fold (\<lambda>i (v, w). let wi = sha512_word chunk w i
                           in (sha512_Round v (sha512_k ! i) wi, w[i mod 16 := wi]))
                     [0..<80] (s, replicate 16 0)
      in map2 (+) s v)"

definition CSHA512 :: "bytes \<Rightarrow> u64 hasher" where
  "CSHA512 buf = hash_start sha512_Initialize buf"

definition CSHA512_Write :: "u64 hasher \<Rightarrow> bytes \<Rightarrow> u64 hasher" where
  "CSHA512_Write h data = hash_write sha512_Transform 128 h data"

definition CSHA512_Finalize :: "u64 hasher \<Rightarrow> u64 hasher \<times> bytes" where
  "CSHA512_Finalize h =
     (let sizedesc = replicate 8 0 @ htobe64 (push_bit 3 (of_nat (hbytes h)));
          h = CSHA512_Write h (take (1 + (239 - hbytes h mod 128) mod 128) (0x80 # replicate 127 0));
          h = CSHA512_Write h sizedesc
      in (h, concat (map htobe64 (hs h))))"

definition CSHA512_Reset :: "u64 hasher \<Rightarrow> u64 hasher" where
  "CSHA512_Reset h = h\<lparr>hbytes := 0, hs := sha512_Initialize\<rparr>"

subsection \<open>SHA-1\<close>

definition rol32 :: "nat \<Rightarrow> u32 \<Rightarrow> u32" where
  "rol32 k x = push_bit k x OR drop_bit (32 - k) x"

definition sha1_f1 :: "u32 \<Rightarrow> u32 \<Rightarrow> u32 \<Rightarrow> u32" where
  "sha1_f1 b c d = d XOR (b AND (c XOR d))"

definition sha1_f2 :: "u32 \<Rightarrow> u32 \<Rightarrow> u32 \<Rightarrow> u32" where
  "sha1_f2 b c d = b XOR c XOR d"

definition sha1_f3 :: "u32 \<Rightarrow> u32 \<Rightarrow> u32 \<Rightarrow> u32" where
  "sha1_f3 b c d = (b AND c) OR (d AND (b OR c))"

definition sha1_Initialize :: "u32 list" where
  "sha1_Initialize = [0x67452301, 0xEFCDAB89, 0x98BADCFE, 0x10325476, 0xC3D2E1F0]"

text \<open>The function and the constant of round \<open>i\<close> (20 rounds of each kind).\<close>

definition sha1_f :: "nat \<Rightarrow> u32 \<Rightarrow> u32 \<Rightarrow> u32 \<Rightarrow> u32" where
  "sha1_f i = (if i < 20 then sha1_f1 else if i < 40 then sha1_f2 else if i < 60 then sha1_f3 else sha1_f2)"

definition sha1_k :: "nat \<Rightarrow> u32" where
  "sha1_k i = (if i < 20 then 0x5A827999 else if i < 40 then 0x6ED9EBA1
     else if i < 60 then 0x8F1BBCDC else 0xCA62C1D6)"

definition sha1_Round :: "u32 list \<Rightarrow> nat \<Rightarrow> u32 \<Rightarrow> u32 list" where
  "sha1_Round v i w =
     (let a = v ! 0; b = v ! 1; c = v ! 2; d = v ! 3; e = v ! 4
      in [e + (rol32 5 a + sha1_f i b c d + sha1_k i + w), a, rol32 30 b, c, d])"

definition sha1_word :: "bytes \<Rightarrow> u32 list \<Rightarrow> nat \<Rightarrow> u32" where
  "sha1_word chunk w i =
     (if i < 16 then betoh32 (drop (4 * i) chunk)
      else rol32 1 (w ! (i mod 16) XOR w ! ((i + 13) mod 16) XOR w ! ((i + 8) mod 16) XOR
             w ! ((i + 2) mod 16)))"

definition sha1_Transform :: "u32 list \<Rightarrow> bytes \<Rightarrow> u32 list" where
  "sha1_Transform s chunk =
     (let (v, w) = fold (\<lambda>i (v, w). let wi = sha1_word chunk w i
                           in (sha1_Round v i wi, w[i mod 16 := wi]))
                     [0..<80] (s, replicate 16 0)
      in map2 (+) s v)"

definition CSHA1 :: "bytes \<Rightarrow> u32 hasher" where
  "CSHA1 buf = hash_start sha1_Initialize buf"

definition CSHA1_Write :: "u32 hasher \<Rightarrow> bytes \<Rightarrow> u32 hasher" where
  "CSHA1_Write h data = hash_write sha1_Transform 64 h data"

definition CSHA1_Finalize :: "u32 hasher \<Rightarrow> u32 hasher \<times> bytes" where
  "CSHA1_Finalize h =
     (let sizedesc = htobe64 (push_bit 3 (of_nat (hbytes h)));
          h = CSHA1_Write h (take (1 + (119 - hbytes h mod 64) mod 64) (0x80 # replicate 63 0));
          h = CSHA1_Write h sizedesc
      in (h, concat (map htobe32 (hs h))))"

definition CSHA1_Reset :: "u32 hasher \<Rightarrow> u32 hasher" where
  "CSHA1_Reset h = h\<lparr>hbytes := 0, hs := sha1_Initialize\<rparr>"

subsection \<open>RIPEMD-160\<close>

definition ripemd_f :: "nat \<Rightarrow> u32 \<Rightarrow> u32 \<Rightarrow> u32 \<Rightarrow> u32" where
  "ripemd_f j x y z =
     (if j = 1 then x XOR y XOR z
      else if j = 2 then (x AND y) OR (NOT x AND z)
      else if j = 3 then (x OR NOT y) XOR z
      else if j = 4 then (x AND z) OR (y AND NOT z)
      else x XOR (y OR NOT z))"

definition ripemd_Initialize :: "u32 list" where
  "ripemd_Initialize = [0x67452301, 0xEFCDAB89, 0x98BADCFE, 0x10325476, 0xC3D2E1F0]"

text \<open>\<open>R11\<close> \dots \<open>R51\<close> and \<open>R12\<close> \dots \<open>R52\<close>: function and constant of the two lines.\<close>

definition ripemd_k1 :: "u32 list" where
  "ripemd_k1 = [0, 0x5A827999, 0x6ED9EBA1, 0x8F1BBCDC, 0xA953FD4E]"

definition ripemd_k2 :: "u32 list" where
  "ripemd_k2 = [0x50A28BE6, 0x5C4DD124, 0x6D703EF3, 0x7A6D76E9, 0]"

definition ripemd_w1 :: "nat list" where
  "ripemd_w1 =
     [0, 1, 2, 3, 4, 5, 6, 7, 8, 9, 10, 11, 12, 13, 14, 15, 7, 4, 13, 1, 10, 6, 15, 3, 12, 0,
      9, 5, 2, 14, 11, 8, 3, 10, 14, 4, 9, 15, 8, 1, 2, 7, 0, 6, 13, 11, 5, 12, 1, 9, 11, 10,
      0, 8, 12, 4, 13, 3, 7, 15, 14, 5, 6, 2, 4, 0, 5, 9, 7, 12, 2, 10, 14, 1, 3, 8, 11, 6,
      15, 13]"

definition ripemd_r1 :: "nat list" where
  "ripemd_r1 =
     [11, 14, 15, 12, 5, 8, 7, 9, 11, 13, 14, 15, 6, 7, 9, 8, 7, 6, 8, 13, 11, 9, 7, 15, 7,
      12, 15, 9, 11, 7, 13, 12, 11, 13, 6, 7, 14, 9, 13, 15, 14, 8, 13, 6, 5, 12, 7, 5, 11,
      12, 14, 15, 14, 15, 9, 8, 9, 14, 5, 6, 8, 6, 5, 12, 9, 15, 5, 11, 6, 8, 13, 12, 5, 12,
      13, 14, 11, 8, 5, 6]"

definition ripemd_w2 :: "nat list" where
  "ripemd_w2 =
     [5, 14, 7, 0, 9, 2, 11, 4, 13, 6, 15, 8, 1, 10, 3, 12, 6, 11, 3, 7, 0, 13, 5, 10, 14,
      15, 8, 12, 4, 9, 1, 2, 15, 5, 1, 3, 7, 14, 6, 9, 11, 8, 12, 2, 10, 0, 4, 13, 8, 6, 4,
      1, 3, 11, 15, 0, 5, 12, 2, 13, 9, 7, 10, 14, 12, 15, 10, 4, 1, 5, 8, 7, 6, 2, 13, 14,
      0, 3, 9, 11]"

definition ripemd_r2 :: "nat list" where
  "ripemd_r2 =
     [8, 9, 9, 11, 13, 15, 15, 5, 7, 7, 8, 11, 14, 14, 12, 6, 9, 13, 15, 7, 12, 8, 9, 11, 7,
      7, 12, 7, 6, 15, 13, 11, 9, 7, 15, 11, 8, 6, 6, 14, 12, 13, 5, 14, 13, 13, 7, 5, 15, 5,
      8, 11, 14, 14, 6, 14, 6, 9, 12, 9, 12, 5, 15, 8, 8, 5, 12, 9, 12, 5, 14, 6, 8, 13, 6,
      5, 15, 13, 11, 11]"

definition ripemd_Round :: "u32 list \<Rightarrow> (u32 \<Rightarrow> u32 \<Rightarrow> u32 \<Rightarrow> u32) \<Rightarrow> u32 \<Rightarrow> u32 \<Rightarrow> nat \<Rightarrow> u32 list" where
  "ripemd_Round v f x k r =
     (let a = v ! 0; b = v ! 1; c = v ! 2; d = v ! 3; e = v ! 4
      in [e, rol32 r (a + f b c d + x + k) + e, b, rol32 10 c, d])"

definition ripemd_Transform :: "u32 list \<Rightarrow> bytes \<Rightarrow> u32 list" where
  "ripemd_Transform s chunk =
     (let w = map (\<lambda>i. letoh32 (take 4 (drop (4 * i) chunk))) [0..<16];
          v1 = fold (\<lambda>i v. ripemd_Round v (ripemd_f (i div 16 + 1)) (w ! (ripemd_w1 ! i))
                        (ripemd_k1 ! (i div 16)) (ripemd_r1 ! i)) [0..<80] s;
          v2 = fold (\<lambda>i v. ripemd_Round v (ripemd_f (5 - i div 16)) (w ! (ripemd_w2 ! i))
                        (ripemd_k2 ! (i div 16)) (ripemd_r2 ! i)) [0..<80] s
      in [s ! 1 + v1 ! 2 + v2 ! 3, s ! 2 + v1 ! 3 + v2 ! 4, s ! 3 + v1 ! 4 + v2 ! 0,
          s ! 4 + v1 ! 0 + v2 ! 1, s ! 0 + v1 ! 1 + v2 ! 2])"

definition CRIPEMD160 :: "bytes \<Rightarrow> u32 hasher" where
  "CRIPEMD160 buf = hash_start ripemd_Initialize buf"

definition CRIPEMD160_Write :: "u32 hasher \<Rightarrow> bytes \<Rightarrow> u32 hasher" where
  "CRIPEMD160_Write h data = hash_write ripemd_Transform 64 h data"

text \<open>
  The code stores \<open>htole64\<close> of each word, cut to 32 bits.  On a little-endian machine that is the word
  in little-endian order, as here; on a big-endian one it would be zero.
\<close>

definition CRIPEMD160_Finalize :: "u32 hasher \<Rightarrow> u32 hasher \<times> bytes" where
  "CRIPEMD160_Finalize h =
     (let sizedesc = htole64 (push_bit 3 (of_nat (hbytes h)));
          h = CRIPEMD160_Write h (take (1 + (119 - hbytes h mod 64) mod 64) (0x80 # replicate 63 0));
          h = CRIPEMD160_Write h sizedesc
      in (h, concat (map htole32 (hs h))))"

definition CRIPEMD160_Reset :: "u32 hasher \<Rightarrow> u32 hasher" where
  "CRIPEMD160_Reset h = h\<lparr>hbytes := 0, hs := ripemd_Initialize\<rparr>"

subsection \<open>HMAC and the hashers of the node\<close>

text \<open>The padded key of the two HMAC constructors, for block size \<open>n\<close> and hash \<open>H\<close>.\<close>

definition hmac_rkey :: "nat \<Rightarrow> (bytes \<Rightarrow> bytes) \<Rightarrow> bytes \<Rightarrow> bytes" where
  "hmac_rkey n H key =
     (if length key \<le> n then key @ replicate (n - length key) 0
      else H key @ replicate (n - length (H key)) 0)"

definition SHA256 :: "bytes \<Rightarrow> bytes" where
  "SHA256 data = snd (CSHA256_Finalize (CSHA256_Write (CSHA256 (replicate 64 0)) data))"

definition SHA512 :: "bytes \<Rightarrow> bytes" where
  "SHA512 data = snd (CSHA512_Finalize (CSHA512_Write (CSHA512 (replicate 128 0)) data))"

definition RIPEMD160 :: "bytes \<Rightarrow> bytes" where
  "RIPEMD160 data = snd (CRIPEMD160_Finalize (CRIPEMD160_Write (CRIPEMD160 (replicate 64 0)) data))"

text \<open>The two hashers of an HMAC: outer, inner.\<close>

definition CHMAC_SHA256 :: "bytes \<Rightarrow> u32 hasher \<times> u32 hasher" where
  "CHMAC_SHA256 key =
     (let rkey = map (\<lambda>b. b XOR 0x5c) (hmac_rkey 64 SHA256 key);
          outer = CSHA256_Write (CSHA256 (replicate 64 0)) rkey;
          rkey = map (\<lambda>b. b XOR (0x5c XOR 0x36)) rkey;
          inner = CSHA256_Write (CSHA256 (replicate 64 0)) rkey
      in (outer, inner))"

definition CHMAC_SHA256_Write :: "u32 hasher \<times> u32 hasher \<Rightarrow> bytes \<Rightarrow> u32 hasher \<times> u32 hasher" where
  "CHMAC_SHA256_Write h data = (fst h, CSHA256_Write (snd h) data)"

definition CHMAC_SHA256_Finalize :: "u32 hasher \<times> u32 hasher \<Rightarrow> bytes" where
  "CHMAC_SHA256_Finalize h =
     (let temp = snd (CSHA256_Finalize (snd h)) in snd (CSHA256_Finalize (CSHA256_Write (fst h) temp)))"

definition CHMAC_SHA512 :: "bytes \<Rightarrow> u64 hasher \<times> u64 hasher" where
  "CHMAC_SHA512 key =
     (let rkey = map (\<lambda>b. b XOR 0x5c) (hmac_rkey 128 SHA512 key);
          outer = CSHA512_Write (CSHA512 (replicate 128 0)) rkey;
          rkey = map (\<lambda>b. b XOR (0x5c XOR 0x36)) rkey;
          inner = CSHA512_Write (CSHA512 (replicate 128 0)) rkey
      in (outer, inner))"

definition CHMAC_SHA512_Write :: "u64 hasher \<times> u64 hasher \<Rightarrow> bytes \<Rightarrow> u64 hasher \<times> u64 hasher" where
  "CHMAC_SHA512_Write h data = (fst h, CSHA512_Write (snd h) data)"

definition CHMAC_SHA512_Finalize :: "u64 hasher \<times> u64 hasher \<Rightarrow> bytes" where
  "CHMAC_SHA512_Finalize h =
     (let temp = snd (CSHA512_Finalize (snd h)) in snd (CSHA512_Finalize (CSHA512_Write (fst h) temp)))"

text \<open>\<open>CHash256\<close>: SHA-256 of the SHA-256, on one hasher that is reset in between.\<close>

definition CHash256_Finalize :: "u32 hasher \<Rightarrow> bytes" where
  "CHash256_Finalize sha =
     (let (sha, buf) = CSHA256_Finalize sha in snd (CSHA256_Finalize (CSHA256_Write (CSHA256_Reset sha) buf)))"

definition CHash160_Finalize :: "u32 hasher \<Rightarrow> bytes" where
  "CHash160_Finalize sha =
     (let buf = snd (CSHA256_Finalize sha) in RIPEMD160 buf)"

text \<open>\<open>Hash(p1begin, p1end, \<dots>)\<close>: the parts are written one after the other.\<close>

definition Hash :: "bytes list \<Rightarrow> uint256" where
  "Hash parts = CHash256_Finalize (foldl CSHA256_Write (CSHA256 (replicate 64 0)) parts)"

definition Hash160 :: "bytes \<Rightarrow> uint160" where
  "Hash160 data = CHash160_Finalize (CSHA256_Write (CSHA256 (replicate 64 0)) data)"

definition BIP32Hash :: "uint256 \<Rightarrow> u32 \<Rightarrow> u8 \<Rightarrow> bytes \<Rightarrow> bytes" where
  "BIP32Hash chainCode nChild header data =
     (let num = [ucast (drop_bit 24 nChild AND 0xFF), ucast (drop_bit 16 nChild AND 0xFF),
                 ucast (drop_bit 8 nChild AND 0xFF), ucast (nChild AND 0xFF)]
      in CHMAC_SHA512_Finalize (CHMAC_SHA512_Write (CHMAC_SHA512_Write (CHMAC_SHA512_Write
           (CHMAC_SHA512 chainCode) [header]) data) num))"

subsection \<open>MurmurHash3\<close>

definition murmur_mix :: "u32 \<Rightarrow> u32" where
  "murmur_mix k1 = rol32 15 (k1 * 0xcc9e2d51) * 0x1b873593"

definition murmur_body :: "bytes \<Rightarrow> nat \<Rightarrow> u32 \<Rightarrow> u32" where
  "murmur_body data i h1 =
     (let k1 = letoh32 (take 4 (drop (4 * i) data)); h1 = h1 XOR murmur_mix k1
      in rol32 13 h1 * 5 + 0xe6546b64)"

text \<open>The \<open>switch\<close> with its fall-through cases on the last \<open>size & 3\<close> bytes.\<close>

definition murmur_tail :: "bytes \<Rightarrow> u32 \<Rightarrow> u32" where
  "murmur_tail tail h1 =
     (let k1 = (if length tail \<ge> 3 then push_bit 16 (ucast (tail ! 2)) else 0);
          k1 = (if length tail \<ge> 2 then k1 XOR push_bit 8 (ucast (tail ! 1)) else k1)
      in if length tail \<ge> 1 then h1 XOR murmur_mix (k1 XOR ucast (tail ! 0)) else h1)"

definition MurmurHash3 :: "u32 \<Rightarrow> bytes \<Rightarrow> u32" where
  "MurmurHash3 nHashSeed data =
     (let h1 = (if 0 < length data
                then let nblocks = length data div 4;
                         h1 = fold (murmur_body data) [0..<nblocks] nHashSeed
                     in murmur_tail (drop (nblocks * 4) data) h1
                else nHashSeed);
          h1 = h1 XOR of_nat (length data);
          h1 = h1 XOR drop_bit 16 h1;
          h1 = h1 * 0x85ebca6b;
          h1 = h1 XOR drop_bit 13 h1;
          h1 = h1 * 0xc2b2ae35
      in h1 XOR drop_bit 16 h1)"

subsection \<open>Streaming is concatenation\<close>

lemma length_memcpy: "off + length src \<le> length dest \<Longrightarrow> length (memcpy dest off src) = length dest"
  by (cases "src = []") (auto simp: memcpy_def simp flip: length_greater_0_conv)

lemma take_memcpy: "off + length src \<le> length dest \<Longrightarrow>
    take (off + length src) (memcpy dest off src) = take off dest @ src"
  by (cases src) (auto simp: memcpy_def)

lemma fill_mod: "0 < n \<Longrightarrow> (a + (n - a mod n)) mod n = (0 :: nat)"
proof -
  assume "0 < n"
  then have "a + (n - a mod n) = (a div n + 1) * n"
    using div_mult_mod_eq [of a n] mod_less_divisor [of n a] unfolding distrib_right by linarith
  then show ?thesis by simp
qed

lemma write_chunks_short: "length d < n \<Longrightarrow> write_chunks T n s d = (s, d)"
  by (simp add: write_chunks.simps)

lemma write_chunks_step: "0 < n \<Longrightarrow> length c = n \<Longrightarrow> write_chunks T n s (c @ d) = write_chunks T n (T s c) d"
  by (subst write_chunks.simps) simp

text \<open>
  The interface: a transformation of the digest words by one block of \<open>n\<close> bytes.  The law is
  that the digest keeps its number of words.
\<close>

locale block_stream =
  fixes T :: "'w list \<Rightarrow> bytes \<Rightarrow> 'w list" and n k :: nat
  assumes block_pos: "0 < n"
    and digest_words: "length s = k \<Longrightarrow> length (T s c) = k"
begin

lemma chunks_rest: "write_chunks T n s d = (s', r) \<Longrightarrow> length r = length d mod n"
proof (induction "length d" arbitrary: s d rule: less_induct)
  case less
  show ?case
  proof (cases "n \<le> length d")
    case True
    then have "write_chunks T n (T s (take n d)) (drop n d) = (s', r)"
      using less.prems block_pos by (subst (asm) write_chunks.simps) simp
    then have "length r = (length d - n) mod n"
      using less.hyps [of "drop n d"] True block_pos by simp
    then show ?thesis using True by (simp add: le_mod_geq)
  next
    case False
    then show ?thesis using less.prems by (simp add: write_chunks_short)
  qed
qed

lemma chunks_digest: "length s = k \<Longrightarrow> write_chunks T n s d = (s', r) \<Longrightarrow> length s' = k"
proof (induction "length d" arbitrary: s d rule: less_induct)
  case less
  show ?case
  proof (cases "n \<le> length d")
    case True
    then have "write_chunks T n (T s (take n d)) (drop n d) = (s', r)"
      using less.prems block_pos by (subst (asm) write_chunks.simps) simp
    then show ?thesis
      using less.hyps [of "drop n d" "T s (take n d)"] less.prems True block_pos digest_words by simp
  next
    case False
    then show ?thesis using less.prems by (simp add: write_chunks_short)
  qed
qed

lemma chunks_append:
  "write_chunks T n s d = (s', r) \<Longrightarrow> write_chunks T n s (d @ x) = write_chunks T n s' (r @ x)"
proof (induction "length d" arbitrary: s d rule: less_induct)
  case less
  show ?case
  proof (cases "n \<le> length d")
    case True
    then have "write_chunks T n (T s (take n d)) (drop n d) = (s', r)"
      using less.prems block_pos by (subst (asm) write_chunks.simps) simp
    then have "write_chunks T n (T s (take n d)) (drop n d @ x) = write_chunks T n s' (r @ x)"
      using less.hyps [of "drop n d"] True block_pos by simp
    moreover have "write_chunks T n s (d @ x) = write_chunks T n (T s (take n d)) (drop n d @ x)"
      using True block_pos by (subst write_chunks.simps) simp
    ultimately show ?thesis by simp
  next
    case False
    then show ?thesis using less.prems by (simp add: write_chunks_short)
  qed
qed

text \<open>The hasher has absorbed \<open>d\<close>: digest of the whole blocks, the rest in the buffer.\<close>

definition absorbed :: "'w list \<Rightarrow> 'w hasher \<Rightarrow> bytes \<Rightarrow> bool" where
  "absorbed s0 h d \<longleftrightarrow> length (hbuf h) = n \<and> hbytes h = length d \<and>
     write_chunks T n s0 d = (hs h, take (length d mod n) (hbuf h))"

lemma absorbed_start: "length buf = n \<Longrightarrow> absorbed s0 (hash_start s0 buf) []"
  using block_pos by (simp add: absorbed_def hash_start_def write_chunks_short)

lemma absorbed_fill:
  assumes "absorbed s0 h d" and "length d mod n \<noteq> 0" and "n \<le> length d mod n + length x"
  shows "absorbed s0 (h\<lparr>hbuf := memcpy (hbuf h) (length d mod n) (take (n - length d mod n) x),
    hbytes := hbytes h + (n - length d mod n),
    hs := T (hs h) (memcpy (hbuf h) (length d mod n) (take (n - length d mod n) x))\<rparr>)
    (d @ take (n - length d mod n) x)"
proof -
  let ?m = "length d mod n" and ?x = "take (n - length d mod n) x"
  let ?buf = "memcpy (hbuf h) ?m ?x"
  have m: "?m < n" using block_pos by simp
  have lx: "length ?x = n - ?m" using assms(3) by simp
  have hb: "length (hbuf h) = n" "hbytes h = length d"
    "write_chunks T n s0 d = (hs h, take ?m (hbuf h))" using assms(1) by (auto simp: absorbed_def)
  have lb: "length ?buf = n" using lx m hb(1) by (simp add: length_memcpy)
  have "take (?m + length ?x) ?buf = take ?m (hbuf h) @ ?x"
    using lx m hb(1) by (intro take_memcpy) simp
  then have buf: "?buf = take ?m (hbuf h) @ ?x" using lx lb m by simp
  have "write_chunks T n s0 (d @ ?x) = write_chunks T n (hs h) (take ?m (hbuf h) @ ?x @ [])"
    using chunks_append [OF hb(3)] by simp
  also have "\<dots> = write_chunks T n (T (hs h) ?buf) []"
    using write_chunks_step [OF block_pos lb, of T "hs h" "[]"] buf by simp
  also have "\<dots> = (T (hs h) ?buf, [])" using block_pos by (simp add: write_chunks_short)
  finally have "write_chunks T n s0 (d @ ?x) = (T (hs h) ?buf, [])" .
  moreover have "length (d @ ?x) mod n = 0"
    using lx fill_mod [OF block_pos, of "length d"] by simp
  ultimately show ?thesis using hb lb lx by (simp add: absorbed_def)
qed

lemma absorbed_chunks:
  assumes "absorbed s0 h d" and "length d mod n = 0 \<or> length d mod n + length x < n"
    and "write_chunks T n (hs h) x = (s, r)"
  shows "absorbed s0 (if r \<noteq> [] then h\<lparr>hs := s, hbuf := memcpy (hbuf h) (length d mod n) r,
      hbytes := hbytes h + (length x - length r) + length r\<rparr>
    else h\<lparr>hs := s, hbytes := hbytes h + (length x - length r)\<rparr>) (d @ x)"
proof -
  let ?m = "length d mod n"
  have hb: "length (hbuf h) = n" "hbytes h = length d"
    "write_chunks T n s0 d = (hs h, take ?m (hbuf h))" using assms(1) by (auto simp: absorbed_def)
  have m: "?m < n" using block_pos by simp
  have app: "write_chunks T n s0 (d @ x) = write_chunks T n (hs h) (take ?m (hbuf h) @ x)"
    by (rule chunks_append [OF hb(3)])
  have lr: "length r = length x mod n" by (rule chunks_rest [OF assms(3)])
  have lrx: "length r \<le> length x" unfolding lr by (rule mod_less_eq_dividend)
  show ?thesis
  proof (cases "?m = 0")
    case True
    have lm: "(length d + length x) mod n = length r"
      using True lr by (simp add: mod_add_eq [of "length d", symmetric])
    have r: "write_chunks T n s0 (d @ x) = (s, r)" using app True assms(3) by simp
    have "length r < n" using lr block_pos by simp
    then have "take (length r) (memcpy (hbuf h) 0 r) = r" "length (memcpy (hbuf h) 0 r) = n"
      using hb(1) by (simp_all add: memcpy_def)
    then show ?thesis using r hb lm True lrx by (auto simp: absorbed_def)
  next
    case False
    then have short: "?m + length x < n" using assms(2) by simp
    then have sr: "s = hs h" "r = x" using assms(3) by (simp_all add: write_chunks_short)
    have lm: "(length d + length x) mod n = ?m + length x"
      using short by (metis mod_add_left_eq mod_less)
    have "length (take ?m (hbuf h) @ x) < n" using short hb(1) m by simp
    then have r: "write_chunks T n s0 (d @ x) = (hs h, take ?m (hbuf h) @ x)"
      using app by (simp add: write_chunks_short)
    have "take (?m + length x) (memcpy (hbuf h) ?m x) = take ?m (hbuf h) @ x"
      "length (memcpy (hbuf h) ?m x) = n"
      using short hb(1) by (simp_all add: take_memcpy length_memcpy)
    then show ?thesis using r hb lm sr by (auto simp: absorbed_def)
  qed
qed

lemma absorbed_write:
  assumes "absorbed s0 h d"
  shows "absorbed s0 (hash_write T n h x) (d @ x)"
proof -
  let ?m = "length d mod n"
  have hb: "hbytes h = length d" using assms by (simp add: absorbed_def)
  show ?thesis
  proof (cases "?m \<noteq> 0 \<and> n \<le> ?m + length x")
    case True
    let ?x = "take (n - ?m) x" and ?y = "drop (n - ?m) x"
    let ?h = "h\<lparr>hbuf := memcpy (hbuf h) ?m ?x, hbytes := hbytes h + (n - ?m),
      hs := T (hs h) (memcpy (hbuf h) ?m ?x)\<rparr>"
    have a: "absorbed s0 ?h (d @ ?x)" using absorbed_fill [OF assms] True by blast
    have z: "length (d @ ?x) mod n = 0"
    proof -
      have "length ?x = n - ?m" using True by (auto simp: min_def)
      then show ?thesis using fill_mod [OF block_pos, of "length d"] by (simp only: length_append)
    qed
    obtain s r where w: "write_chunks T n (hs ?h) ?y = (s, r)" by (cases "write_chunks T n (hs ?h) ?y")
    have "absorbed s0 (if r \<noteq> [] then ?h\<lparr>hs := s, hbuf := memcpy (hbuf ?h) (length (d @ ?x) mod n) r,
        hbytes := hbytes ?h + (length ?y - length r) + length r\<rparr>
      else ?h\<lparr>hs := s, hbytes := hbytes ?h + (length ?y - length r)\<rparr>) ((d @ ?x) @ ?y)"
      by (rule absorbed_chunks [OF a _ w]) (use z in simp)
    moreover have "hash_write T n h x = (if r \<noteq> [] then ?h\<lparr>hs := s, hbuf := memcpy (hbuf ?h) (length (d @ ?x) mod n) r,
        hbytes := hbytes ?h + (length ?y - length r) + length r\<rparr>
      else ?h\<lparr>hs := s, hbytes := hbytes ?h + (length ?y - length r)\<rparr>)"
      unfolding hash_write_def Let_def hb using True w z by simp
    ultimately show ?thesis by simp
  next
    case False
    obtain s r where w: "write_chunks T n (hs h) x = (s, r)" by (cases "write_chunks T n (hs h) x")
    have "?m = 0 \<or> ?m + length x < n" using False by linarith
    from absorbed_chunks [OF assms this w] show ?thesis
      unfolding hash_write_def Let_def hb using False w by (auto simp: hb)
  qed
qed

lemma absorbed_writes: "absorbed s0 h d \<Longrightarrow> absorbed s0 (foldl (hash_write T n) h xs) (d @ concat xs)"
  by (induction xs arbitrary: h d) (auto dest: absorbed_write [where x = "_ :: bytes"] simp flip: append_assoc)

text \<open>When the whole input is a number of blocks, the digest is the fold over its blocks.\<close>

lemma absorbed_digest: "absorbed s0 h d \<Longrightarrow> hs h = fst (write_chunks T n s0 d)"
  by (simp add: absorbed_def)

end

subsection \<open>Reference digests\<close>

definition chunks_of :: "nat \<Rightarrow> bytes \<Rightarrow> bytes list" where
  "chunks_of n xs = map (\<lambda>i. take n (drop (n * i) xs)) [0..<length xs div n]"

lemma chunks_of_short: "length d < n \<Longrightarrow> chunks_of n d = []"
  by (simp add: chunks_of_def)

lemma chunks_of_step:
  assumes "0 < n" and "n \<le> length d"
  shows "chunks_of n d = take n d # chunks_of n (drop n d)"
proof -
  have "length d div n = Suc ((length d - n) div n)" using assms by (simp add: le_div_geq)
  then show ?thesis
    by (simp add: chunks_of_def upt_rec [of 0] map_Suc_upt [symmetric] comp_def algebra_simps del: upt_Suc)
qed

context block_stream
begin

lemma chunks_digest_fold: "fst (write_chunks T n s d) = fold (\<lambda>c s. T s c) (chunks_of n d) s"
proof (induction "length d" arbitrary: s d rule: less_induct)
  case less
  show ?case
  proof (cases "n \<le> length d")
    case True
    then have "write_chunks T n s d = write_chunks T n (T s (take n d)) (drop n d)"
      using block_pos by (subst write_chunks.simps) simp
    then show ?thesis
      using less.hyps [of "drop n d" "T s (take n d)"] True block_pos by (simp add: chunks_of_step)
  next
    case False
    then show ?thesis by (simp add: write_chunks_short chunks_of_short)
  qed
qed

lemma digest_of_writes:
  assumes "length buf = n"
  shows "hs (hash_write T n (hash_write T n (foldl (hash_write T n) (hash_start s0 buf) xs) p) q) =
    fold (\<lambda>c s. T s c) (chunks_of n (concat xs @ p @ q)) s0"
proof -
  have "absorbed s0 (foldl (hash_write T n) (hash_start s0 buf) xs) (concat xs)"
    using absorbed_writes [OF absorbed_start [OF assms], of s0 xs] by simp
  then have "absorbed s0 (hash_write T n (hash_write T n (foldl (hash_write T n) (hash_start s0 buf) xs) p) q)
      ((concat xs @ p) @ q)"
    by (intro absorbed_write)
  then show ?thesis using absorbed_digest chunks_digest_fold by simp
qed

lemma count_of_writes:
  assumes "length buf = n"
  shows "hbytes (foldl (hash_write T n) (hash_start s0 buf) xs) = length (concat xs)"
  using absorbed_writes [OF absorbed_start [OF assms], of s0 xs] by (simp add: absorbed_def)

lemma buffer_of_writes:
  assumes "length buf = n"
  shows "length (hbuf (foldl (hash_write T n) (hash_start s0 buf) xs)) = n"
  using absorbed_writes [OF absorbed_start [OF assms], of s0 xs] by (simp add: absorbed_def)

end

text \<open>
  The transformations keep the number of digest words, so each class is a \<open>block_stream\<close>.
\<close>

lemma fold_state_length:
  assumes "\<And>i v w. length (f i v w) = k" and "length s = k"
  shows "length (fst (fold (\<lambda>i (v, w). (f i v w, g i v w)) xs (s, w0))) = k"
  using assms(2)
proof (induction xs arbitrary: s w0)
  case (Cons x xs)
  show ?case using Cons.IH [of "f x s w0"] assms(1) by simp
qed simp

lemma length_sha256_Round [simp]: "length (sha256_Round v k w) = 8"
  by (simp add: sha256_Round_def Let_def)

lemma length_sha256_Transform: "length s = 8 \<Longrightarrow> length (sha256_Transform s c) = 8"
proof -
  assume s: "length s = 8"
  have "length (fst (fold (\<lambda>i (v, w). (sha256_Round v (sha256_k ! i) (sha256_word c w i), w[i mod 16 := sha256_word c w i]))
      [0..<64] (s, replicate 16 0))) = 8"
    by (rule fold_state_length [OF _ s]) (rule length_sha256_Round)
  then show ?thesis using s unfolding sha256_Transform_def Let_def case_prod_unfold
    by (simp del: upt_rec_numeral)
qed

lemma length_sha512_Round [simp]: "length (sha512_Round v k w) = 8"
  by (simp add: sha512_Round_def Let_def)

lemma length_sha512_Transform: "length s = 8 \<Longrightarrow> length (sha512_Transform s c) = 8"
proof -
  assume s: "length s = 8"
  have "length (fst (fold (\<lambda>i (v, w). (sha512_Round v (sha512_k ! i) (sha512_word c w i), w[i mod 16 := sha512_word c w i]))
      [0..<80] (s, replicate 16 0))) = 8"
    by (rule fold_state_length [OF _ s]) (rule length_sha512_Round)
  then show ?thesis using s unfolding sha512_Transform_def Let_def case_prod_unfold
    by (simp del: upt_rec_numeral)
qed

lemma length_sha1_Round [simp]: "length (sha1_Round v k w) = 5"
  by (simp add: sha1_Round_def Let_def)

lemma length_sha1_Transform: "length s = 5 \<Longrightarrow> length (sha1_Transform s c) = 5"
proof -
  assume s: "length s = 5"
  have "length (fst (fold (\<lambda>i (v, w). (sha1_Round v (i) (sha1_word c w i), w[i mod 16 := sha1_word c w i]))
      [0..<80] (s, replicate 16 0))) = 5"
    by (rule fold_state_length [OF _ s]) (rule length_sha1_Round)
  then show ?thesis using s unfolding sha1_Transform_def Let_def case_prod_unfold
    by (simp del: upt_rec_numeral)
qed

lemma length_ripemd_Transform: "length s = 5 \<Longrightarrow> length (ripemd_Transform s c) = 5"
  by (simp add: ripemd_Transform_def Let_def del: upt_rec_numeral)

interpretation sha256: block_stream sha256_Transform 64 8
  by unfold_locales (simp_all add: length_sha256_Transform)

interpretation sha512: block_stream sha512_Transform 128 8
  by unfold_locales (simp_all add: length_sha512_Transform)

interpretation sha1: block_stream sha1_Transform 64 5
  by unfold_locales (simp_all add: length_sha1_Transform)

interpretation ripemd160: block_stream ripemd_Transform 64 5
  by unfold_locales (simp_all add: length_ripemd_Transform)

text \<open>The standard's padding: a one bit, zeros up to the size field, the size in bits.\<close>

definition md_pad :: "nat \<Rightarrow> nat \<Rightarrow> (u64 \<Rightarrow> bytes) \<Rightarrow> bytes \<Rightarrow> bytes" where
  "md_pad n z enc m = m @ [0x80] @ replicate ((2 * n - z - 1 - length m mod n) mod n) 0 @
     replicate (z - 8) 0 @ enc (of_nat (8 * length m))"

definition sha256_ref :: "bytes \<Rightarrow> bytes" where
  "sha256_ref m = concat (map htobe32 (fold (\<lambda>c s. sha256_Transform s c)
     (chunks_of 64 (md_pad 64 8 htobe64 m)) sha256_Initialize))"

definition sha512_ref :: "bytes \<Rightarrow> bytes" where
  "sha512_ref m = concat (map htobe64 (fold (\<lambda>c s. sha512_Transform s c)
     (chunks_of 128 (md_pad 128 16 htobe64 m)) sha512_Initialize))"

definition sha1_ref :: "bytes \<Rightarrow> bytes" where
  "sha1_ref m = concat (map htobe32 (fold (\<lambda>c s. sha1_Transform s c)
     (chunks_of 64 (md_pad 64 8 htobe64 m)) sha1_Initialize))"

definition ripemd160_ref :: "bytes \<Rightarrow> bytes" where
  "ripemd160_ref m = concat (map htole32 (fold (\<lambda>c s. ripemd_Transform s c)
     (chunks_of 64 (md_pad 64 8 htole64 m)) ripemd_Initialize))"

lemma mod_add3: "(a + b + c mod n) mod n = (a mod n + b + c) mod (n :: nat)"
  by (metis add.assoc mod_add_left_eq mod_add_right_eq)

lemma pad_total: "a < n \<Longrightarrow> z + 1 < n \<Longrightarrow> a + (z + 1) + (2 * n - z - 1 - a) = 2 * (n :: nat)"
  by simp

lemma md_pad_whole:
  assumes "0 < n" "8 \<le> z" "z + 1 < n" and "\<And>w. length (enc w) = 8"
  shows "n dvd length (md_pad n z enc m)"
proof -
  let ?x = "2 * n - z - 1 - length m mod n"
  have m: "length m mod n < n" using assms(1) by simp
  have len: "length (md_pad n z enc m) = length m + (z + 1) + ?x mod n"
    using assms(2,4) by (simp add: md_pad_def)
  have "(length m + (z + 1) + ?x mod n) mod n = (length m mod n + (z + 1) + ?x) mod n"
    by (rule mod_add3)
  also have "length m mod n + (z + 1) + ?x = 2 * n" by (rule pad_total [OF m assms(3)])
  finally have "length (md_pad n z enc m) mod n = 2 * n mod n" unfolding len .
  then show ?thesis by (simp only: mod_mult_self2_is_0 mod_0_imp_dvd)
qed

lemma push_bit_3: "push_bit 3 (of_nat k :: u64) = of_nat (8 * k)"
  by (simp add: push_bit_eq_mult)

lemma take_pad: "x < Suc k \<Longrightarrow> take (Suc x) (a # replicate k b) = a # replicate x b"
  by simp

lemma CSHA256_Write_hash: "CSHA256_Write = hash_write sha256_Transform 64"
  by (intro ext) (simp add: CSHA256_Write_def)

lemma CSHA512_Write_hash: "CSHA512_Write = hash_write sha512_Transform 128"
  by (intro ext) (simp add: CSHA512_Write_def)

lemma CSHA1_Write_hash: "CSHA1_Write = hash_write sha1_Transform 64"
  by (intro ext) (simp add: CSHA1_Write_def)

lemma CRIPEMD160_Write_hash: "CRIPEMD160_Write = hash_write ripemd_Transform 64"
  by (intro ext) (simp add: CRIPEMD160_Write_def)

lemma sha256_streams:
  assumes "length buf = 64"
  shows "snd (CSHA256_Finalize (foldl CSHA256_Write (CSHA256 buf) xs)) = sha256_ref (concat xs)"
  using sha256.digest_of_writes [OF assms] sha256.count_of_writes [OF assms]
  by (simp add: CSHA256_Finalize_def CSHA256_Write_hash CSHA256_def Let_def sha256_ref_def md_pad_def
      push_bit_3 take_pad del: length_concat take_Suc_Cons)

lemma sha512_streams:
  assumes "length buf = 128"
  shows "snd (CSHA512_Finalize (foldl CSHA512_Write (CSHA512 buf) xs)) = sha512_ref (concat xs)"
  using sha512.digest_of_writes [OF assms] sha512.count_of_writes [OF assms]
  by (simp add: CSHA512_Finalize_def CSHA512_Write_hash CSHA512_def Let_def sha512_ref_def md_pad_def
      push_bit_3 take_pad del: length_concat take_Suc_Cons)

lemma sha1_streams:
  assumes "length buf = 64"
  shows "snd (CSHA1_Finalize (foldl CSHA1_Write (CSHA1 buf) xs)) = sha1_ref (concat xs)"
  using sha1.digest_of_writes [OF assms] sha1.count_of_writes [OF assms]
  by (simp add: CSHA1_Finalize_def CSHA1_Write_hash CSHA1_def Let_def sha1_ref_def md_pad_def
      push_bit_3 take_pad del: length_concat take_Suc_Cons)

lemma ripemd160_streams:
  assumes "length buf = 64"
  shows "snd (CRIPEMD160_Finalize (foldl CRIPEMD160_Write (CRIPEMD160 buf) xs)) = ripemd160_ref (concat xs)"
  using ripemd160.digest_of_writes [OF assms] ripemd160.count_of_writes [OF assms]
  by (simp add: CRIPEMD160_Finalize_def CRIPEMD160_Write_hash CRIPEMD160_def Let_def ripemd160_ref_def md_pad_def
      push_bit_3 take_pad del: length_concat take_Suc_Cons)

lemma length_fold_keeps: "(\<And>s c. length s = k \<Longrightarrow> length (T s c) = k) \<Longrightarrow> length s = k \<Longrightarrow>
    length (fold (\<lambda>c s. T s c) cs s) = k"
  by (induction cs arbitrary: s) auto

lemma length_htobe32 [simp]: "length (htobe32 w) = 4"
  by (simp add: htobe32_def)

lemma length_sha256_ref [simp]: "length (sha256_ref m) = 32"
  using length_fold_keeps [of 8 sha256_Transform sha256_Initialize] length_sha256_Transform
  by (simp add: sha256_ref_def length_concat comp_def sum_list_triv sha256_Initialize_def)

lemma SHA256_ref: "SHA256 m = sha256_ref m"
  using sha256_streams [of "replicate 64 0" "[m]"] by (simp add: SHA256_def)

text \<open>\<open>CHash256\<close> reuses its hasher: the buffer keeps its size, its content does not matter.\<close>

lemma hash256_streams: "Hash parts = sha256_ref (sha256_ref (concat parts))"
proof -
  let ?h = "foldl CSHA256_Write (CSHA256 (replicate 64 0)) parts"
  obtain h buf where f: "CSHA256_Finalize ?h = (h, buf)" by (cases "CSHA256_Finalize ?h")
  have buf: "buf = sha256_ref (concat parts)"
    using sha256_streams [of "replicate 64 0" parts] f by (simp)
  let ?p = "take (1 + (119 - hbytes ?h mod 64) mod 64) (0x80 # replicate 63 0)"
  let ?q = "htobe64 (push_bit 3 (of_nat (hbytes ?h)))"
  have h: "h = foldl (hash_write sha256_Transform 64) (hash_start sha256_Initialize (replicate 64 0)) (parts @ [?p, ?q])"
    using f by (simp add: CSHA256_Finalize_def Let_def CSHA256_Write_hash CSHA256_def)
  have "length (hbuf h) = 64" unfolding h by (rule sha256.buffer_of_writes) simp
  moreover have "CSHA256_Reset h = CSHA256 (hbuf h)"
    by (simp add: CSHA256_Reset_def CSHA256_def hash_start_def)
  ultimately have "snd (CSHA256_Finalize (CSHA256_Write (CSHA256_Reset h) buf)) = sha256_ref buf"
    using sha256_streams [of "hbuf h" "[buf]"] by simp
  then show ?thesis using f buf by (simp add: Hash_def CHash256_Finalize_def Let_def)
qed

lemma length_Hash: "length (Hash parts) = 32"
  by (simp add: hash256_streams)

text \<open>HMAC as the standard defines it.\<close>

lemma hmac_sha256_streams:
  "CHMAC_SHA256_Finalize (foldl CHMAC_SHA256_Write (CHMAC_SHA256 key) xs) =
    sha256_ref (map (\<lambda>b. b XOR 0x5c) (hmac_rkey 64 sha256_ref key) @
      sha256_ref (map (\<lambda>b. b XOR 0x36) (hmac_rkey 64 sha256_ref key) @ concat xs))"
proof -
  let ?K = "hmac_rkey 64 sha256_ref key"
  have K: "hmac_rkey 64 SHA256 key = ?K" by (simp add: hmac_rkey_def SHA256_ref)
  let ?o = "map (\<lambda>b. b XOR 0x5c) ?K" and ?i = "map (\<lambda>b. b XOR 0x36) ?K"
  let ?h0 = "CSHA256 (replicate 64 0)"
  have x: "(b XOR 0x5c) XOR (0x5c XOR 0x36) = (b XOR 0x36 :: u8)" for b
    by (metis xor.assoc xor.right_neutral xor_self_eq)
  then have ki: "map (\<lambda>b. b XOR (0x5c XOR 0x36)) ?o = ?i" by (simp only: map_map comp_def)
  have step: "foldl CHMAC_SHA256_Write (out, inn) xs = (out, foldl CSHA256_Write inn xs)" for out inn
    by (induction xs arbitrary: inn) (simp_all add: CHMAC_SHA256_Write_def)
  have "CHMAC_SHA256 key = (CSHA256_Write ?h0 ?o, CSHA256_Write ?h0 ?i)"
    unfolding CHMAC_SHA256_def Let_def K ki ..
  then have "CHMAC_SHA256_Finalize (foldl CHMAC_SHA256_Write (CHMAC_SHA256 key) xs) =
    snd (CSHA256_Finalize (foldl CSHA256_Write ?h0
      [?o, snd (CSHA256_Finalize (foldl CSHA256_Write ?h0 (?i # xs)))]))"
    by (simp add: step CHMAC_SHA256_Finalize_def Let_def)
  then show ?thesis
    using sha256_streams [of "replicate 64 0"] by (simp del: foldl_Cons)
qed

subsection \<open>Properties\<close>

text \<open>
  C19. However the input is split over calls of \<open>Write\<close>, and whatever the buffer held before,
  the four streaming hashers return the digest of the padded concatenation of the parts, which
  is a whole number of blocks.
\<close>

theorem hashers_stream:
  assumes "length buf = 64" and "length buf2 = 128"
  shows "snd (CSHA256_Finalize (foldl CSHA256_Write (CSHA256 buf) xs)) = sha256_ref (concat xs) \<and>
    snd (CSHA1_Finalize (foldl CSHA1_Write (CSHA1 buf) xs)) = sha1_ref (concat xs) \<and>
    snd (CRIPEMD160_Finalize (foldl CRIPEMD160_Write (CRIPEMD160 buf) xs)) = ripemd160_ref (concat xs) \<and>
    snd (CSHA512_Finalize (foldl CSHA512_Write (CSHA512 buf2) xs)) = sha512_ref (concat xs) \<and>
    64 dvd length (md_pad 64 8 htobe64 (concat xs)) \<and> 64 dvd length (md_pad 64 8 htole64 (concat xs)) \<and>
    128 dvd length (md_pad 128 16 htobe64 (concat xs))"
  using sha256_streams [OF assms(1), of xs] sha1_streams [OF assms(1), of xs]
    ripemd160_streams [OF assms(1), of xs] sha512_streams [OF assms(2), of xs]
    md_pad_whole [of 64 8 htobe64] md_pad_whole [of 64 8 htole64] md_pad_whole [of 128 16 htobe64]
  by (simp add: htobe64_def htole64_def)

lemma hashers_stream_witness:
  "snd (CSHA256_Finalize (CSHA256_Write (CSHA256_Write (CSHA256 (replicate 64 7)) [1, 2]) [3])) =
    snd (CSHA256_Finalize (CSHA256_Write (CSHA256 (replicate 64 9)) [1, 2, 3]))"
  using hashers_stream [of "replicate 64 7" "replicate 128 7" "[[1, 2], [3]]"]
    hashers_stream [of "replicate 64 9" "replicate 128 7" "[[1, 2, 3]]"]
  by simp

text \<open>
  \<open>CHMAC_SHA256\<close> is HMAC: the outer hash of the key xor \<open>0x5c\<close> and the inner hash of the key
  xor \<open>0x36\<close> and the message, with the key padded to the block size, or hashed first when it is
  longer.
\<close>

theorem hmac_sha256_correct:
  "CHMAC_SHA256_Finalize (foldl CHMAC_SHA256_Write (CHMAC_SHA256 key) xs) =
    sha256_ref (map (\<lambda>b. b XOR 0x5c) (hmac_rkey 64 sha256_ref key) @
      sha256_ref (map (\<lambda>b. b XOR 0x36) (hmac_rkey 64 sha256_ref key) @ concat xs))"
  by (rule hmac_sha256_streams)

end
