(* ===== verification/Containers.thy ===== *)
theory Containers
  imports Prelude "HOL-Library.Multiset" "HOL-Library.List_Lexorder" "HOL-Library.Char_ord"
begin

text \<open>
  The parts of the C++ standard library that the claim trie uses: ordered maps (\<open>std::map\<close>)
  as association lists kept in the order of a comparison, erasing the first element that
  satisfies a condition, and \<open>std::make_heap\<close>.  The comparisons enter as the parameters of two
  locales that state their laws.
\<close>

subsection \<open>Ordered maps\<close>

fun map_put :: "('k \<Rightarrow> 'k \<Rightarrow> bool) \<Rightarrow> 'k \<Rightarrow> 'v \<Rightarrow> ('k \<times> 'v) list \<Rightarrow> ('k \<times> 'v) list" where
  "map_put lt k v [] = [(k, v)]"
| "map_put lt k v ((k', v') # m) =
     (if lt k k' then (k, v) # (k', v') # m
      else if lt k' k then (k', v') # map_put lt k v m
      else (k, v) # m)"

definition map_erase :: "'k \<Rightarrow> ('k \<times> 'v) list \<Rightarrow> ('k \<times> 'v) list" where
  "map_erase k m = filter (\<lambda>e. fst e \<noteq> k) m"

text \<open>\<open>std::map\<close> needs a strict total order on its keys.\<close>

locale key_order =
  fixes lt :: "'k \<Rightarrow> 'k \<Rightarrow> bool"
  assumes lt_irrefl: "\<not> lt x x"
    and lt_trans: "lt x y \<Longrightarrow> lt y z \<Longrightarrow> lt x z"
    and lt_total: "x \<noteq> y \<Longrightarrow> lt x y \<or> lt y x"
begin

definition ordered :: "('k \<times> 'v) list \<Rightarrow> bool" where
  "ordered m \<longleftrightarrow> sorted_wrt lt (map fst m)"

lemma map_of_put: "map_of (map_put lt k v m) = (map_of m)(k \<mapsto> v)"
proof (induction m)
  case (Cons e m)
  then show ?case using lt_irrefl lt_total by (cases e) (auto simp: fun_eq_iff)
qed simp

lemma keys_put: "fst ` set (map_put lt k v m) = insert k (fst ` set m)"
proof (induction m)
  case (Cons e m)
  then show ?case using lt_irrefl lt_total by (cases e) force
qed simp

lemma ordered_put: "ordered m \<Longrightarrow> ordered (map_put lt k v m)"
proof (induction m)
  case (Cons e m)
  obtain k' v' where e: "e = (k', v')" by force
  have tail: "ordered m" "\<forall>x \<in> fst ` set m. lt k' x" using Cons.prems by (auto simp: ordered_def e)
  consider "lt k k'" | "\<not> lt k k'" "lt k' k" | "\<not> lt k k'" "\<not> lt k' k" by blast
  then show ?case
  proof cases
    case 1
    then show ?thesis using tail Cons.prems lt_trans [of k k'] by (auto simp: ordered_def e)
  next
    case 2
    then have "\<forall>x \<in> fst ` set (map_put lt k v m). lt k' x" unfolding keys_put using 2 tail by auto
    then show ?thesis using 2 Cons.IH [OF tail(1)] by (auto simp: ordered_def e)
  next
    case 3
    then have "k = k'" using lt_total by blast
    then show ?thesis using 3 tail by (auto simp: ordered_def e)
  qed
qed (simp add: ordered_def)

lemma ordered_erase: "ordered m \<Longrightarrow> ordered (map_erase k m)"
  unfolding ordered_def map_erase_def
  by (induction m) (auto simp: image_iff)

lemma ordered_distinct: "ordered m \<Longrightarrow> distinct (map fst m)"
  unfolding ordered_def by (induction m) (use lt_irrefl in auto)

end

lemma map_of_erase: "map_of (map_erase k m) = (map_of m)(k := None)"
  by (induction m) (auto simp: map_erase_def)

interpretation int_order: key_order "(<) :: int \<Rightarrow> int \<Rightarrow> bool"
  by unfold_locales auto

interpretation string_order: key_order "(<) :: string \<Rightarrow> string \<Rightarrow> bool"
  by unfold_locales auto

interpretation char_order: key_order "(<) :: char \<Rightarrow> char \<Rightarrow> bool"
  by unfold_locales auto

subsection \<open>Erasing the first match\<close>

fun remove_first :: "('a \<Rightarrow> bool) \<Rightarrow> 'a list \<Rightarrow> ('a \<times> 'a list) option" where
  "remove_first P [] = None"
| "remove_first P (x # xs) =
     (if P x then Some (x, xs)
      else (case remove_first P xs of None \<Rightarrow> None | Some (y, ys) \<Rightarrow> Some (y, x # ys)))"

lemma remove_first_None: "remove_first P xs = None \<longleftrightarrow> (\<forall>x \<in> set xs. \<not> P x)"
  by (induction xs) (auto split: option.splits)

lemma remove_first_Some: "remove_first P xs = Some (y, ys) \<Longrightarrow>
    \<exists>as bs. xs = as @ y # bs \<and> ys = as @ bs \<and> P y \<and> (\<forall>x \<in> set as. \<not> P x)"
proof (induction xs arbitrary: ys)
  case (Cons x xs)
  show ?case
  proof (cases "P x")
    case True
    then show ?thesis using Cons.prems by force
  next
    case False
    then obtain zs where zs: "remove_first P xs = Some (y, zs)" "ys = x # zs"
      using Cons.prems by (auto split: option.splits prod.splits)
    from Cons.IH [OF zs(1)] obtain as bs where "xs = as @ y # bs" "zs = as @ bs" "P y"
      "\<forall>x \<in> set as. \<not> P x" by blast
    then show ?thesis using False zs(2) by (intro exI [of _ "x # as"] exI [of _ bs]) simp
  qed
qed simp

lemma remove_first_mset: "remove_first P xs = Some (y, ys) \<Longrightarrow> mset xs = add_mset y (mset ys)"
  by (drule remove_first_Some) auto

lemma remove_first_append:
  "(\<forall>x \<in> set xs. \<not> P x) \<Longrightarrow> P y \<Longrightarrow> remove_first P (xs @ [y]) = Some (y, xs)"
  by (induction xs) auto

subsection \<open>\<open>std::make_heap\<close>\<close>

text \<open>
  The elements with children are taken from the last to the first, and each is exchanged
  with its larger child until no child is larger.
\<close>

function sift_down :: "('a \<Rightarrow> 'a \<Rightarrow> bool) \<Rightarrow> 'a list \<Rightarrow> nat \<Rightarrow> 'a list" where
  "sift_down lt xs i =
     (if 2 * i + 1 < length xs
      then let c = (if 2 * i + 2 < length xs \<and> \<not> lt (xs ! (2 * i + 2)) (xs ! (2 * i + 1))
                    then 2 * i + 2 else 2 * i + 1)
           in if lt (xs ! i) (xs ! c) then sift_down lt (xs[i := xs ! c, c := xs ! i]) c else xs
      else xs)"
  by pat_completeness auto
termination
  by (relation "measure (\<lambda>(lt, xs, i). length xs - i)") (auto split: if_splits)

declare sift_down.simps [simp del]

definition make_heap :: "('a \<Rightarrow> 'a \<Rightarrow> bool) \<Rightarrow> 'a list \<Rightarrow> 'a list" where
  "make_heap lt xs = fold (\<lambda>i ys. sift_down lt ys i) (rev [0..<length xs div 2]) xs"

lemma length_sift_down [simp]: "length (sift_down lt xs i) = length xs"
proof (induction lt xs i rule: sift_down.induct)
  case (1 lt xs i)
  then show ?case by (subst sift_down.simps) (simp add: Let_def)
qed

lemma mset_sift_down: "mset (sift_down lt xs i) = mset xs"
proof (induction lt xs i rule: sift_down.induct)
  case (1 lt xs i)
  have swap: "i < length xs \<Longrightarrow> c < length xs \<Longrightarrow> mset (xs[i := xs ! c, c := xs ! i]) = mset xs" for c
    by (rule mset_swap)
  show ?case using 1 swap by (subst sift_down.simps) (simp add: Let_def)
qed

lemma mset_make_heap: "mset (make_heap lt xs) = mset xs"
proof -
  have "mset (fold (\<lambda>i ys. sift_down lt ys i) is xs) = mset xs" for "is" xs
    by (induction "is" arbitrary: xs) (simp_all add: mset_sift_down)
  then show ?thesis by (simp add: make_heap_def)
qed

text \<open>\<open>std::make_heap\<close> needs a strict weak order; the law used is negative transitivity.\<close>

locale heap_order =
  fixes lt :: "'a \<Rightarrow> 'a \<Rightarrow> bool"
  assumes asym: "lt x y \<Longrightarrow> \<not> lt y x"
    and neg_trans: "\<not> lt x y \<Longrightarrow> \<not> lt y z \<Longrightarrow> \<not> lt x z"
begin

text \<open>The heap condition for the elements from position \<open>k\<close> on, except at position \<open>e\<close>.\<close>

definition heap_but :: "'a list \<Rightarrow> nat \<Rightarrow> nat option \<Rightarrow> bool" where
  "heap_but xs k e \<longleftrightarrow> (\<forall>i c. k \<le> i \<and> Some i \<noteq> e \<and> (c = 2 * i + 1 \<or> c = 2 * i + 2) \<and>
     c < length xs \<longrightarrow> \<not> lt (xs ! i) (xs ! c))"

lemma heap_but_weaken: "heap_but xs k None \<Longrightarrow> heap_but xs k e"
  by (auto simp: heap_but_def)

lemma sift_down_heap:
  assumes "heap_but xs k (Some i)" and "k \<le> i"
    and "\<And>p c. k \<le> p \<Longrightarrow> i = 2 * p + 1 \<or> i = 2 * p + 2 \<Longrightarrow> c = 2 * i + 1 \<or> c = 2 * i + 2 \<Longrightarrow>
      c < length xs \<Longrightarrow> \<not> lt (xs ! p) (xs ! c)"
  shows "heap_but (sift_down lt xs i) k None"
  using assms
proof (induction "length xs - i" arbitrary: xs i rule: less_induct)
  case less
  show ?case
  proof (cases "2 * i + 1 < length xs")
    case False
    then have "heap_but xs k None" using less.prems(1) by (auto simp: heap_but_def)
    then show ?thesis using False by (subst sift_down.simps) simp
  next
    case True
    define c where "c = (if 2 * i + 2 < length xs \<and> \<not> lt (xs ! (2 * i + 2)) (xs ! (2 * i + 1))
                    then 2 * i + 2 else 2 * i + 1)"
    have c: "c = 2 * i + 1 \<or> c = 2 * i + 2" "c < length xs" "i < c" "i < length xs"
      using True by (auto simp: c_def)
    have cmax: "d = 2 * i + 1 \<or> d = 2 * i + 2 \<Longrightarrow> d < length xs \<Longrightarrow> \<not> lt (xs ! c) (xs ! d)" for d
      using asym by (auto simp: c_def)
    have sd: "sift_down lt xs i =
        (if lt (xs ! i) (xs ! c) then sift_down lt (xs[i := xs ! c, c := xs ! i]) c else xs)"
      using True by (subst sift_down.simps) (simp add: Let_def c_def)
    show ?thesis
    proof (cases "lt (xs ! i) (xs ! c)")
      case False
      have "\<not> lt (xs ! i) (xs ! d)" if "d = 2 * i + 1 \<or> d = 2 * i + 2" "d < length xs" for d
        using neg_trans [OF False cmax [OF that]] .
      then have "heap_but xs k None" using less.prems(1) by (auto simp: heap_but_def)
      then show ?thesis using sd False by simp
    next
      case lt: True
      let ?ys = "xs[i := xs ! c, c := xs ! i]"
      have nth: "j < length xs \<Longrightarrow> ?ys ! j = (if j = c then xs ! i else if j = i then xs ! c else xs ! j)" for j
        using c by (auto simp: nth_list_update)
      have "heap_but (sift_down lt ?ys c) k None"
      proof (rule less.hyps)
        show "length ?ys - c < length xs - i" using c by simp
        show "k \<le> c" using c less.prems(2) by simp
        show "heap_but ?ys k (Some c)"
          unfolding heap_but_def
        proof (intro allI impI, elim conjE)
          fix j d assume j: "k \<le> j" "Some j \<noteq> Some c" and d: "d = 2 * j + 1 \<or> d = 2 * j + 2" "d < length ?ys"
          show "\<not> lt (?ys ! j) (?ys ! d)"
          proof (cases "j = i")
            case True
            then have "\<not> lt (xs ! c) (xs ! d)" using cmax d by simp
            moreover have "\<not> lt (xs ! c) (xs ! i)" using asym lt by blast
            moreover have "d \<noteq> i" using d True by auto
            ultimately show ?thesis using d True c by (simp add: nth)
          next
            case False
            have dj: "j < length xs" "d < length xs" using d by auto
            show ?thesis
            proof (cases "d = i")
              case True
              then have "\<not> lt (xs ! j) (xs ! c)" using less.prems(3) [of j c] j d c by auto
              then show ?thesis using False True j dj c by (simp add: nth)
            next
              case di: False
              have "d \<noteq> c" using d c(1) False by auto
              moreover have "\<not> lt (xs ! j) (xs ! d)"
                using less.prems(1) j False d unfolding heap_but_def by auto
              ultimately show ?thesis using False di j dj by (simp add: nth)
            qed
          qed
        qed
        fix p d assume p: "k \<le> p" "c = 2 * p + 1 \<or> c = 2 * p + 2" and d: "d = 2 * c + 1 \<or> d = 2 * c + 2" "d < length ?ys"
        have "p = i" using p(2) c(1) by auto
        moreover have "\<not> lt (xs ! c) (xs ! d)"
          using less.prems(1) c d less.prems(2) unfolding heap_but_def by auto
        moreover have "d \<noteq> c" "d \<noteq> i" "d < length xs" using d c by auto
        ultimately show "\<not> lt (?ys ! p) (?ys ! d)" using c by (simp add: nth)
      qed
      then show ?thesis using sd lt by simp
    qed
  qed
qed

lemma make_heap_heap: "heap_but (make_heap lt xs) 0 None"
proof -
  have "heap_but (fold (\<lambda>i ys. sift_down lt ys i) (rev [k..<n]) ys) k None"
    if "heap_but ys n None" "k \<le> n" for k n and ys :: "'a list"
    using that
  proof (induction "n - k" arbitrary: n ys)
    case 0
    then show ?case by simp
  next
    case (Suc m)
    then obtain n' where n': "n = Suc n'" "k \<le> n'" by (cases n) auto
    have "heap_but ys n' (Some n')" using Suc.prems n' by (auto simp: heap_but_def)
    then have "heap_but (sift_down lt ys n') n' None" by (rule sift_down_heap) auto
    then show ?case using Suc.hyps(1) [of n' "sift_down lt ys n'"] Suc.hyps(2) n' by simp
  qed
  moreover have "heap_but xs (length xs div 2) None"
    by (auto simp: heap_but_def)
  ultimately show ?thesis unfolding make_heap_def by blast
qed

lemma heap_front: "heap_but xs 0 None \<Longrightarrow> j < length xs \<Longrightarrow> \<not> lt (xs ! 0) (xs ! j)"
proof (induction j rule: less_induct)
  case (less j)
  show ?case
  proof (cases "j = 0")
    case True
    then show ?thesis using asym by blast
  next
    case False
    let ?p = "(j - 1) div 2"
    have p: "?p < j" "j = 2 * ?p + 1 \<or> j = 2 * ?p + 2" using False by presburger+
    then have "\<not> lt (xs ! 0) (xs ! ?p)" using less by simp
    moreover have "\<not> lt (xs ! ?p) (xs ! j)" using less.prems p(2) unfolding heap_but_def by blast
    ultimately show ?thesis by (rule neg_trans)
  qed
qed

lemma make_heap_front: "x \<in> set xs \<Longrightarrow> \<not> lt (hd (make_heap lt xs)) x"
proof -
  assume "x \<in> set xs"
  then have "x \<in> set (make_heap lt xs)" by (metis mset_make_heap set_mset_mset)
  then obtain j where "j < length (make_heap lt xs)" "x = make_heap lt xs ! j"
    by (auto simp: in_set_conv_nth)
  moreover then have "hd (make_heap lt xs) = make_heap lt xs ! 0" by (cases "make_heap lt xs") auto
  ultimately show ?thesis using heap_front [OF make_heap_heap] by simp
qed

end

end
