(* ===== verification/ClaimTypes.thy ===== *)
theory ClaimTypes
  imports Hashing Containers
begin

text \<open>
  The data of the claim trie (\<open>claimtrie.h\<close>): outpoints, claims, supports, trie nodes and the
  rows of the queues, with the operations of \<open>CClaimTrieNode\<close> and the value hash.

  A node owns its children in the base trie, so a node is a tree; the child map is an
  association list in the order of the characters.  A node copied into a cache shares the
  children of the original, which is the same as copying them because every walk looks a
  position up in the cache before it follows a child pointer.  Amounts and heights are
  integers.
\<close>

unbundle bit_operations_syntax

subsection \<open>Outpoints, claims and supports\<close>

record COutPoint =
  op_hash :: uint256
  op_n :: u32

definition outpoint_less :: "COutPoint \<Rightarrow> COutPoint \<Rightarrow> bool" where
  "outpoint_less a b \<longleftrightarrow> blob_less (op_hash a) (op_hash b) \<or> op_hash a = op_hash b \<and> op_n a < op_n b"

record CClaimValue =
  claim_outPoint :: COutPoint
  claim_claimId :: uint160
  claim_nAmount :: int
  claim_nEffectiveAmount :: int
  claim_nHeight :: int
  claim_nValidAtHeight :: int
  claim_saddr :: string
  claim_sname :: string
  claim_NameAddress :: "(string \<times> string) list"

definition mk_claim :: "COutPoint \<Rightarrow> uint160 \<Rightarrow> int \<Rightarrow> int \<Rightarrow> int \<Rightarrow> string \<Rightarrow> string \<Rightarrow> CClaimValue" where
  "mk_claim op cid amount height valid addr name = \<lparr>claim_outPoint = op, claim_claimId = cid,
     claim_nAmount = amount, claim_nEffectiveAmount = amount, claim_nHeight = height,
     claim_nValidAtHeight = valid, claim_saddr = addr, claim_sname = name,
     claim_NameAddress = [(name, addr)]\<rparr>"

text \<open>\<open>operator<\<close>: by effective amount, then the older claim, then the smaller outpoint.\<close>

definition claim_less :: "CClaimValue \<Rightarrow> CClaimValue \<Rightarrow> bool" where
  "claim_less a b \<longleftrightarrow>
     (if claim_nEffectiveAmount a < claim_nEffectiveAmount b then True
      else if claim_nEffectiveAmount a = claim_nEffectiveAmount b
        then if claim_nHeight a > claim_nHeight b then True
             else if claim_nHeight a = claim_nHeight b
               then claim_outPoint a \<noteq> claim_outPoint b \<and> \<not> outpoint_less (claim_outPoint a) (claim_outPoint b)
             else False
      else False)"

text \<open>\<open>operator==\<close> compares the serialized fields only.\<close>

definition claim_eq :: "CClaimValue \<Rightarrow> CClaimValue \<Rightarrow> bool" where
  "claim_eq a b \<longleftrightarrow> claim_outPoint a = claim_outPoint b \<and> claim_claimId a = claim_claimId b \<and>
     claim_nAmount a = claim_nAmount b \<and> claim_nHeight a = claim_nHeight b \<and>
     claim_nValidAtHeight a = claim_nValidAtHeight b"

record CSupportValue =
  sup_outPoint :: COutPoint
  sup_supportedClaimId :: uint160
  sup_nAmount :: int
  sup_nHeight :: int
  sup_nValidAtHeight :: int

subsection \<open>Trie nodes\<close>

datatype CClaimTrieNode =
  Node (node_hash: uint256) (node_children: "(char \<times> CClaimTrieNode) list")
    (node_takeover: int) (node_claims: "CClaimValue list")

definition new_node :: CClaimTrieNode where
  "new_node = Node (blob_SetNull 256) [] 0 []"

definition node_empty :: "CClaimTrieNode \<Rightarrow> bool" where
  "node_empty n \<longleftrightarrow> node_children n = [] \<and> node_claims n = []"

definition set_claims :: "CClaimValue list \<Rightarrow> CClaimTrieNode \<Rightarrow> CClaimTrieNode" where
  "set_claims cl n = Node (node_hash n) (node_children n) (node_takeover n) cl"

definition set_children :: "(char \<times> CClaimTrieNode) list \<Rightarrow> CClaimTrieNode \<Rightarrow> CClaimTrieNode" where
  "set_children ch n = Node (node_hash n) ch (node_takeover n) (node_claims n)"

definition child :: "CClaimTrieNode \<Rightarrow> char \<Rightarrow> CClaimTrieNode option" where
  "child n c = map_of (node_children n) c"

definition put_child :: "char \<Rightarrow> CClaimTrieNode \<Rightarrow> CClaimTrieNode \<Rightarrow> CClaimTrieNode" where
  "put_child c m n = set_children (map_put (<) c m (node_children n)) n"

definition node_insertClaim :: "CClaimTrieNode \<Rightarrow> CClaimValue \<Rightarrow> CClaimTrieNode" where
  "node_insertClaim n claim = set_claims (node_claims n @ [claim]) n"

definition node_removeClaim :: "CClaimTrieNode \<Rightarrow> COutPoint \<Rightarrow> (CClaimTrieNode \<times> CClaimValue) option" where
  "node_removeClaim n op =
     (case remove_first (\<lambda>c. claim_outPoint c = op) (node_claims n) of
        None \<Rightarrow> None
      | Some (claim, rest) \<Rightarrow> Some (set_claims rest n, claim))"

definition node_getBestClaim :: "CClaimTrieNode \<Rightarrow> CClaimValue option" where
  "node_getBestClaim n = (case node_claims n of [] \<Rightarrow> None | c # _ \<Rightarrow> Some c)"

definition node_haveClaim :: "CClaimTrieNode \<Rightarrow> COutPoint \<Rightarrow> bool" where
  "node_haveClaim n op \<longleftrightarrow> list_ex (\<lambda>c. claim_outPoint c = op) (node_claims n)"

text \<open>A support raises the first claim that has the supported identifier.\<close>

fun apply_support :: "CSupportValue \<Rightarrow> CClaimValue list \<Rightarrow> CClaimValue list" where
  "apply_support sp [] = []"
| "apply_support sp (c # cs) =
     (if sup_supportedClaimId sp = claim_claimId c
      then c\<lparr>claim_nEffectiveAmount := claim_nEffectiveAmount c + sup_nAmount sp\<rparr> # cs
      else c # apply_support sp cs)"

definition reset_effective :: "CClaimValue \<Rightarrow> CClaimValue" where
  "reset_effective c = c\<lparr>claim_nEffectiveAmount := claim_nAmount c\<rparr>"

definition node_reorderClaims :: "CClaimTrieNode \<Rightarrow> CSupportValue list \<Rightarrow> CClaimTrieNode" where
  "node_reorderClaims n supports =
     set_claims (make_heap claim_less
       (fold apply_support supports (map reset_effective (node_claims n)))) n"

subsection \<open>Queue rows\<close>

record outPointHeightType =
  oph_outPoint :: COutPoint
  oph_nHeight :: int

record nameOutPointHeightType =
  noph_name :: string
  noph_outPoint :: COutPoint
  noph_nHeight :: int

record nameOutPointType =
  nop_name :: string
  nop_outPoint :: COutPoint

type_synonym claimQueueRowType = "(string \<times> CClaimValue) list"
type_synonym supportQueueRowType = "(string \<times> CSupportValue) list"
type_synonym queueNameRowType = "outPointHeightType list"
type_synonym expirationQueueRowType = "nameOutPointType list"
type_synonym insertUndoType = "nameOutPointHeightType list"

record claimsForNameType =
  cfn_claims :: "CClaimValue list"
  cfn_supports :: "CSupportValue list"
  cfn_nLastTakeoverHeight :: int

text \<open>The order of the node cache: shorter names first.\<close>

definition nodenamecompare :: "string \<Rightarrow> string \<Rightarrow> bool" where
  "nodenamecompare i j \<longleftrightarrow> (if length i = length j then i < j else length i < length j)"

interpretation name_order: key_order nodenamecompare
  by unfold_locales (auto simp: nodenamecompare_def split: if_splits)

subsection \<open>Value hash\<close>

definition heightToVch :: "int \<Rightarrow> bytes" where
  "heightToVch n = [0, 0, 0, 0, of_int (drop_bit 24 n), of_int (drop_bit 16 n), of_int (drop_bit 8 n), of_int n]"

text \<open>\<open>ss << outPoint.n\<close>: the decimal digits.\<close>

fun decimal :: "nat \<Rightarrow> string" where
  "decimal n = (if n < 10 then [char_of (48 + n)] else decimal (n div 10) @ [char_of (48 + n mod 10)])"

declare decimal.simps [simp del]

definition getValueHash :: "COutPoint \<Rightarrow> int \<Rightarrow> uint256" where
  "getValueHash op nHeightOfLastTakeover =
     (let vchtxHash = Hash [op_hash op];
          vchnOutHash = Hash [map of_char (decimal (unat (op_n op)))];
          vchTakeoverHash = Hash [heightToVch nHeightOfLastTakeover]
      in Hash [vchtxHash, vchnOutHash, vchTakeoverHash])"

subsection \<open>Reordering claims\<close>

text \<open>The comparisons are strict total orders, and \<open>operator<\<close> of claims a strict weak one.\<close>

lemma blob_less_total: "x \<noteq> y \<Longrightarrow> blob_less x y \<or> blob_less y x"
proof (induction x arbitrary: y)
  case Nil
  then show ?case by (cases y) auto
next
  case (Cons a x)
  then show ?case by (cases y) auto
qed

lemma blob_less_trans: "blob_less x y \<Longrightarrow> blob_less y z \<Longrightarrow> blob_less x z"
proof (induction x y arbitrary: z rule: blob_less.induct)
  case (1 x xs y ys)
  then show ?case by (cases z) (auto split: if_splits)
next
  case (2 y ys)
  then show ?case by (cases z) auto
qed auto

lemma blob_less_irrefl: "\<not> blob_less x x"
  by (induction x) auto

lemma outpoint_order: "key_order outpoint_less"
proof
  show "\<not> outpoint_less x x" for x by (simp add: outpoint_less_def blob_less_irrefl)
  show "outpoint_less x y \<Longrightarrow> outpoint_less y z \<Longrightarrow> outpoint_less x z" for x y z
    by (auto simp: outpoint_less_def intro: blob_less_trans)
  show "x \<noteq> y \<Longrightarrow> outpoint_less x y \<or> outpoint_less y x" for x y
    using blob_less_total [of "op_hash x" "op_hash y"]
    by (cases x; cases y; cases "op_n x < op_n y") (auto simp: outpoint_less_def)
qed

interpretation outpoint: key_order outpoint_less
  by (rule outpoint_order)

lemma outpoint_not_trans: "\<not> outpoint_less x y \<Longrightarrow> \<not> outpoint_less y z \<Longrightarrow> \<not> outpoint_less x z"
  using outpoint.lt_total outpoint.lt_trans by metis

lemma claim_less_iff: "claim_less a b \<longleftrightarrow>
    claim_nEffectiveAmount a < claim_nEffectiveAmount b \<or>
    claim_nEffectiveAmount a = claim_nEffectiveAmount b \<and>
      (claim_nHeight b < claim_nHeight a \<or>
       claim_nHeight a = claim_nHeight b \<and> outpoint_less (claim_outPoint b) (claim_outPoint a))"
  using outpoint.lt_total [of "claim_outPoint a" "claim_outPoint b"] outpoint.lt_irrefl
    outpoint.lt_trans [of "claim_outPoint a" "claim_outPoint b" "claim_outPoint a"]
  by (auto simp: claim_less_def)

interpretation claim_heap: heap_order claim_less
proof
  show "claim_less x y \<Longrightarrow> \<not> claim_less y x" for x y
    using outpoint.lt_irrefl outpoint.lt_trans [of "claim_outPoint x" "claim_outPoint y" "claim_outPoint x"]
    by (auto simp: claim_less_iff)
  show "\<not> claim_less x y \<Longrightarrow> \<not> claim_less y z \<Longrightarrow> \<not> claim_less x z" for x y z
    using outpoint_not_trans [of "claim_outPoint z" "claim_outPoint y" "claim_outPoint x"]
    by (auto simp: claim_less_iff)
qed

text \<open>What a claim is apart from its effective amount.\<close>

lemma reset_apply_support: "map reset_effective (apply_support sp cs) = map reset_effective cs"
  by (induction cs) (auto simp: reset_effective_def)

lemma reset_fold_support: "map reset_effective (fold apply_support sps cs) = map reset_effective cs"
  by (induction sps arbitrary: cs) (auto simp: reset_apply_support)

lemma reset_reset [simp]: "reset_effective (reset_effective c) = reset_effective c"
  by (simp add: reset_effective_def)

lemma claim_eq_reset: "claim_eq (reset_effective a) b = claim_eq a b" "claim_eq a (reset_effective b) = claim_eq a b"
  by (simp_all add: claim_eq_def reset_effective_def)

lemma reorder_mset: "mset (map reset_effective (node_claims (node_reorderClaims n sps))) =
    mset (map reset_effective (node_claims n))"
proof -
  have "mset (map reset_effective (fold apply_support sps (map reset_effective (node_claims n)))) =
    mset (map reset_effective (node_claims n))"
    by (simp only: reset_fold_support) (simp add: comp_def)
  then show ?thesis by (simp add: node_reorderClaims_def set_claims_def mset_make_heap)
qed

lemma reorder_length: "length (node_claims (node_reorderClaims n sps)) = length (node_claims n)"
proof -
  have "size (mset (map reset_effective (node_claims (node_reorderClaims n sps)))) =
    size (mset (map reset_effective (node_claims n)))" by (simp only: reorder_mset)
  then show ?thesis by simp
qed

lemma reorder_front: "c \<in> set (node_claims (node_reorderClaims n sps)) \<Longrightarrow>
    \<not> claim_less (hd (node_claims (node_reorderClaims n sps))) c"
proof -
  assume "c \<in> set (node_claims (node_reorderClaims n sps))"
  then have "c \<in> set (fold apply_support sps (map reset_effective (node_claims n)))"
    unfolding node_reorderClaims_def set_claims_def by (simp flip: set_mset_mset add: mset_make_heap)
  then show ?thesis unfolding node_reorderClaims_def set_claims_def
    by (simp add: claim_heap.make_heap_front)
qed

text \<open>The supports of a claim, added up.\<close>

definition support_sum :: "CSupportValue list \<Rightarrow> uint160 \<Rightarrow> int" where
  "support_sum sps cid = sum_list (map sup_nAmount (filter (\<lambda>s. sup_supportedClaimId s = cid) sps))"

lemma claimId_apply_support: "map claim_claimId (apply_support sp cs) = map claim_claimId cs"
  by (induction cs) auto

lemma apply_support_distinct:
  "distinct (map claim_claimId cs) \<Longrightarrow> apply_support sp cs =
    map (\<lambda>c. if claim_claimId c = sup_supportedClaimId sp
      then c\<lparr>claim_nEffectiveAmount := claim_nEffectiveAmount c + sup_nAmount sp\<rparr> else c) cs"
  by (induction cs) (auto simp: image_iff intro!: map_idI [symmetric])

lemma fold_support_distinct:
  "distinct (map claim_claimId cs) \<Longrightarrow> fold apply_support sps cs =
    map (\<lambda>c. c\<lparr>claim_nEffectiveAmount := claim_nEffectiveAmount c + support_sum sps (claim_claimId c)\<rparr>) cs"
proof (induction sps arbitrary: cs)
  case Nil
  then show ?case by (simp add: support_sum_def)
next
  case (Cons sp sps)
  have "distinct (map claim_claimId (apply_support sp cs))" using Cons.prems by (simp add: claimId_apply_support)
  then show ?case using Cons by (auto simp: apply_support_distinct support_sum_def comp_def)
qed

lemma reorder_effective:
  assumes "distinct (map claim_claimId (node_claims n))" and "c \<in> set (node_claims (node_reorderClaims n sps))"
  shows "claim_nEffectiveAmount c = claim_nAmount c + support_sum sps (claim_claimId c)"
proof -
  have d: "distinct (map claim_claimId (map reset_effective (node_claims n)))"
    using assms(1) by (simp add: comp_def reset_effective_def)
  have "c \<in> set (fold apply_support sps (map reset_effective (node_claims n)))"
    using assms(2) unfolding node_reorderClaims_def set_claims_def
    by (simp flip: set_mset_mset add: mset_make_heap)
  then show ?thesis unfolding fold_support_distinct [OF d] by (auto simp: reset_effective_def)
qed

lemma reorder_fields [simp]:
  "node_children (node_reorderClaims n sps) = node_children n"
  "node_hash (node_reorderClaims n sps) = node_hash n"
  "node_takeover (node_reorderClaims n sps) = node_takeover n"
  by (simp_all add: node_reorderClaims_def set_claims_def)

subsection \<open>Properties\<close>

text \<open>
  C27. \<open>reorderClaims\<close> keeps the claims of the node (up to their effective amounts), gives each
  claim its amount plus all its supports when the identifiers are distinct, and puts a claim in
  front that no other claim beats: the controlling claim of the name.
\<close>

theorem reorderClaims_elects:
  assumes "distinct (map claim_claimId (node_claims n))"
  shows "mset (map reset_effective (node_claims (node_reorderClaims n sps))) =
      mset (map reset_effective (node_claims n)) \<and>
    list_all (\<lambda>c. claim_nEffectiveAmount c = claim_nAmount c + support_sum sps (claim_claimId c) \<and>
      \<not> claim_less (hd (node_claims (node_reorderClaims n sps))) c)
      (node_claims (node_reorderClaims n sps))"
  using reorder_mset reorder_effective [OF assms] reorder_front by (simp add: list_all_iff)

definition sample_claim :: "nat \<Rightarrow> int \<Rightarrow> CClaimValue" where
  "sample_claim k amount = mk_claim \<lparr>op_hash = replicate 32 0, op_n = of_nat k\<rparr> [of_nat k] amount 10 10 [] []"

lemma reorderClaims_elects_witness:
  "hd (node_claims (node_reorderClaims (Node [] [] 0 [sample_claim 1 5, sample_claim 2 7])
     [\<lparr>sup_outPoint = \<lparr>op_hash = [], op_n = 0\<rparr>, sup_supportedClaimId = [1], sup_nAmount = 4,
       sup_nHeight = 11, sup_nValidAtHeight = 11\<rparr>])) \<in>
   {c. claim_nEffectiveAmount c = claim_nAmount c + (if claim_claimId c = [1] then 4 else 0)}"
proof -
  let ?n = "Node [] [] 0 [sample_claim 1 5, sample_claim 2 7]"
  let ?s = "[\<lparr>sup_outPoint = \<lparr>op_hash = [], op_n = 0\<rparr>, sup_supportedClaimId = [1 :: u8], sup_nAmount = 4,
       sup_nHeight = 11, sup_nValidAtHeight = 11\<rparr>]"
  have "distinct (map claim_claimId (node_claims ?n))" by (simp add: sample_claim_def mk_claim_def)
  note r = reorderClaims_elects [OF this, of ?s]
  have "node_claims (node_reorderClaims ?n ?s) \<noteq> []"
    using r by (metis (no_types, lifting) CClaimTrieNode.sel(4) list.map_disc_iff list.simps(3) mset_zero_iff)
  then show ?thesis using r by (cases "node_claims (node_reorderClaims ?n ?s)") (auto simp: support_sum_def)
qed

end
