(* ===== verification/ClaimTrie.thy ===== *)
theory ClaimTrie
  imports ClaimTypes
begin

text \<open>
  The base claim trie (class \<open>CClaimTrie\<close> of \<open>claimtrie.h\<close> and \<open>claimtrie.cpp\<close>): queries over
  the tree of nodes, the rows of the claim, support and expiration queues in the dirty maps
  over the database, the update from a cache, and writing to and reading from the database.

  The database (LevelDB behind \<open>CDBWrapper\<close>) is the record of what a read of each kind of key
  returns; what a cursor delivers is an argument.  Reading a claim back restores the serialized
  fields only; \<open>db_junk\<close> is the indeterminate effective amount such a claim starts with.
\<close>

subsection \<open>State\<close>

record ClaimDB =
  db_hashBlock :: "uint256 option"
  db_nCurrentHeight :: "int option"
  db_nodes :: "string \<Rightarrow> CClaimTrieNode option"
  db_claimById :: "uint160 \<Rightarrow> (string \<times> CClaimValue) option"
  db_queueRows :: "int \<Rightarrow> claimQueueRowType option"
  db_queueNameRows :: "string \<Rightarrow> queueNameRowType option"
  db_expirationRows :: "int \<Rightarrow> expirationQueueRowType option"
  db_supports :: "string \<Rightarrow> CSupportValue list option"
  db_supportQueueRows :: "int \<Rightarrow> supportQueueRowType option"
  db_supportQueueNameRows :: "string \<Rightarrow> queueNameRowType option"
  db_supportExpirationRows :: "int \<Rightarrow> expirationQueueRowType option"
  db_junk :: int

text \<open>
  \<open>dirtyNodes\<close> maps a name to a pointer into the tree or to null; a pointer always is the node
  of that name, so the map records only which of the two it is.
\<close>

record CClaimTrie =
  trie_root :: CClaimTrieNode
  trie_hashBlock :: uint256
  trie_nCurrentHeight :: int
  trie_nExpirationTime :: int
  trie_nProportionalDelayFactor :: int
  dirtyQueueRows :: "int \<Rightarrow> claimQueueRowType option"
  dirtyQueueNameRows :: "string \<Rightarrow> queueNameRowType option"
  dirtyExpirationQueueRows :: "int \<Rightarrow> expirationQueueRowType option"
  dirtySupportQueueRows :: "int \<Rightarrow> supportQueueRowType option"
  dirtySupportQueueNameRows :: "string \<Rightarrow> queueNameRowType option"
  dirtySupportExpirationQueueRows :: "int \<Rightarrow> expirationQueueRowType option"
  dirtyNodes :: "(string \<times> bool) list"
  dirtySupportNodes :: "string \<Rightarrow> CSupportValue list option"
  trie_db :: ClaimDB

definition zero_hash :: uint256 where
  "zero_hash = uint256S ''0000000000000000000000000000000000000000000000000000000000000000''"

definition CClaimTrie_init :: "ClaimDB \<Rightarrow> int \<Rightarrow> CClaimTrie" where
  "CClaimTrie_init d delayFactor = \<lparr>trie_root = Node zero_hash [] 0 [],
     trie_hashBlock = blob_SetNull 256, trie_nCurrentHeight = 1, trie_nExpirationTime = 262974,
     trie_nProportionalDelayFactor = delayFactor, dirtyQueueRows = Map.empty,
     dirtyQueueNameRows = Map.empty, dirtyExpirationQueueRows = Map.empty,
     dirtySupportQueueRows = Map.empty, dirtySupportQueueNameRows = Map.empty,
     dirtySupportExpirationQueueRows = Map.empty, dirtyNodes = [],
     dirtySupportNodes = Map.empty, trie_db = d\<rparr>"

definition trie_getMerkleHash :: "CClaimTrie \<Rightarrow> uint256" where
  "trie_getMerkleHash T = node_hash (trie_root T)"

definition trie_empty :: "CClaimTrie \<Rightarrow> bool" where
  "trie_empty T \<longleftrightarrow> node_empty (trie_root T)"

definition setExpirationTime :: "CClaimTrie \<Rightarrow> int \<Rightarrow> CClaimTrie" where
  "setExpirationTime T t = T\<lparr>trie_nExpirationTime := t\<rparr>"

subsection \<open>Which queues are empty\<close>

text \<open>
  The argument lists what decoding each key of the cursor as a pair of a key type and a key
  yields, in the order of the database: \<open>None\<close> when the key has another shape, where the
  loop stops.
\<close>

fun keyTypeEmpty :: "char \<Rightarrow> char option list \<Rightarrow> bool" where
  "keyTypeEmpty keyType [] = True"
| "keyTypeEmpty keyType (None # keys) = True"
| "keyTypeEmpty keyType (Some c # keys) = (if c = keyType then False else keyTypeEmpty keyType keys)"

text \<open>\<open>rows\<close>: the rows of the dirty map in the order of their keys.\<close>

definition rows_empty :: "'r list list \<Rightarrow> char \<Rightarrow> char option list \<Rightarrow> bool" where
  "rows_empty rows keyType keys \<longleftrightarrow>
     (if list_ex (\<lambda>r. r \<noteq> []) rows then False else keyTypeEmpty keyType keys)"

definition queueEmpty :: "claimQueueRowType list \<Rightarrow> char option list \<Rightarrow> bool" where
  "queueEmpty rows keys = rows_empty rows CHR ''r'' keys"

definition expirationQueueEmpty :: "expirationQueueRowType list \<Rightarrow> char option list \<Rightarrow> bool" where
  "expirationQueueEmpty rows keys = rows_empty rows CHR ''e'' keys"

definition supportEmpty :: "CSupportValue list list \<Rightarrow> char option list \<Rightarrow> bool" where
  "supportEmpty rows keys = rows_empty rows CHR ''s'' keys"

definition supportQueueEmpty :: "supportQueueRowType list \<Rightarrow> char option list \<Rightarrow> bool" where
  "supportQueueEmpty rows keys = rows_empty rows CHR ''u'' keys"

subsection \<open>Queries over the tree\<close>

fun getNodeForName_from :: "CClaimTrieNode \<Rightarrow> string \<Rightarrow> CClaimTrieNode option" where
  "getNodeForName_from n [] = Some n"
| "getNodeForName_from n (c # cs) =
     (case child n c of None \<Rightarrow> None | Some m \<Rightarrow> getNodeForName_from m cs)"

definition getNodeForName :: "CClaimTrie \<Rightarrow> string \<Rightarrow> CClaimTrieNode option" where
  "getNodeForName T name = getNodeForName_from (trie_root T) name"

definition trie_haveClaim :: "CClaimTrie \<Rightarrow> string \<Rightarrow> COutPoint \<Rightarrow> bool" where
  "trie_haveClaim T name op =
     (case getNodeForName_from (trie_root T) name of None \<Rightarrow> False | Some n \<Rightarrow> node_haveClaim n op)"

definition getInfoForName :: "CClaimTrie \<Rightarrow> string \<Rightarrow> CClaimValue option" where
  "getInfoForName T name =
     (case getNodeForName T name of None \<Rightarrow> None | Some n \<Rightarrow> node_getBestClaim n)"

definition trie_getLastTakeoverForName :: "CClaimTrie \<Rightarrow> string \<Rightarrow> int option" where
  "trie_getLastTakeoverForName T name = (case getNodeForName T name of
      None \<Rightarrow> None
    | Some n \<Rightarrow> if node_claims n \<noteq> [] then Some (node_takeover n) else None)"

text \<open>The totals are \<open>unsigned int\<close>; the sums of amounts are \<open>CAmount\<close>.\<close>

primrec getTotalNamesRecursive :: "CClaimTrieNode \<Rightarrow> u32" where
  "getTotalNamesRecursive (Node h ch t cl) =
     (if cl \<noteq> [] then 1 else 0) + sum_list (map snd (map (map_prod id getTotalNamesRecursive) ch))"

definition getTotalNamesInTrie :: "CClaimTrie \<Rightarrow> u32" where
  "getTotalNamesInTrie T = (if trie_empty T then 0 else getTotalNamesRecursive (trie_root T))"

primrec getTotalClaimsRecursive :: "CClaimTrieNode \<Rightarrow> u32" where
  "getTotalClaimsRecursive (Node h ch t cl) =
     of_nat (length cl) + sum_list (map snd (map (map_prod id getTotalClaimsRecursive) ch))"

definition getTotalClaimsInTrie :: "CClaimTrie \<Rightarrow> u32" where
  "getTotalClaimsInTrie T = (if trie_empty T then 0 else getTotalClaimsRecursive (trie_root T))"

primrec getTotalValueOfClaimsRecursive :: "bool \<Rightarrow> CClaimTrieNode \<Rightarrow> int" where
  "getTotalValueOfClaimsRecursive ctrl (Node h ch t cl) =
     (if ctrl then (case cl of [] \<Rightarrow> 0 | c # _ \<Rightarrow> claim_nAmount c) else sum_list (map claim_nAmount cl)) +
     sum_list (map snd (map (map_prod id (getTotalValueOfClaimsRecursive ctrl)) ch))"

definition getTotalValueOfClaimsInTrie :: "CClaimTrie \<Rightarrow> bool \<Rightarrow> int" where
  "getTotalValueOfClaimsInTrie T ctrl =
     (if trie_empty T then 0 else getTotalValueOfClaimsRecursive ctrl (trie_root T))"

primrec recursiveFlattenTrie :: "CClaimTrieNode \<Rightarrow> string \<Rightarrow> (string \<times> CClaimTrieNode) list" where
  "recursiveFlattenTrie (Node h ch t cl) = (\<lambda>name.
     (name, Node h ch t cl) #
     concat (map (\<lambda>(c, flatten). flatten (name @ [c])) (map (map_prod id recursiveFlattenTrie) ch)))"

definition flattenTrie :: "CClaimTrie \<Rightarrow> (string \<times> CClaimTrieNode) list" where
  "flattenTrie T = recursiveFlattenTrie (trie_root T) []"

subsection \<open>Rows: the dirty map over the database\<close>

definition getQueueRow :: "CClaimTrie \<Rightarrow> int \<Rightarrow> claimQueueRowType option" where
  "getQueueRow T h = (case dirtyQueueRows T h of Some r \<Rightarrow> Some r | None \<Rightarrow> db_queueRows (trie_db T) h)"

definition getQueueNameRow :: "CClaimTrie \<Rightarrow> string \<Rightarrow> queueNameRowType option" where
  "getQueueNameRow T name =
     (case dirtyQueueNameRows T name of Some r \<Rightarrow> Some r | None \<Rightarrow> db_queueNameRows (trie_db T) name)"

definition getExpirationQueueRow :: "CClaimTrie \<Rightarrow> int \<Rightarrow> expirationQueueRowType option" where
  "getExpirationQueueRow T h =
     (case dirtyExpirationQueueRows T h of Some r \<Rightarrow> Some r | None \<Rightarrow> db_expirationRows (trie_db T) h)"

definition getSupportNode :: "CClaimTrie \<Rightarrow> string \<Rightarrow> CSupportValue list option" where
  "getSupportNode T name =
     (case dirtySupportNodes T name of Some r \<Rightarrow> Some r | None \<Rightarrow> db_supports (trie_db T) name)"

definition getSupportQueueRow :: "CClaimTrie \<Rightarrow> int \<Rightarrow> supportQueueRowType option" where
  "getSupportQueueRow T h =
     (case dirtySupportQueueRows T h of Some r \<Rightarrow> Some r | None \<Rightarrow> db_supportQueueRows (trie_db T) h)"

definition getSupportQueueNameRow :: "CClaimTrie \<Rightarrow> string \<Rightarrow> queueNameRowType option" where
  "getSupportQueueNameRow T name =
     (case dirtySupportQueueNameRows T name of Some r \<Rightarrow> Some r
      | None \<Rightarrow> db_supportQueueNameRows (trie_db T) name)"

definition getSupportExpirationQueueRow :: "CClaimTrie \<Rightarrow> int \<Rightarrow> expirationQueueRowType option" where
  "getSupportExpirationQueueRow T h =
     (case dirtySupportExpirationQueueRows T h of Some r \<Rightarrow> Some r
      | None \<Rightarrow> db_supportExpirationRows (trie_db T) h)"

definition getClaimById :: "CClaimTrie \<Rightarrow> uint160 \<Rightarrow> (string \<times> CClaimValue) option" where
  "getClaimById T cid = (case db_claimById (trie_db T) cid of
      None \<Rightarrow> None
    | Some (name, claim) \<Rightarrow> if claim_claimId claim = cid then Some (name, claim) else None)"

definition trie_haveSupport :: "CClaimTrie \<Rightarrow> string \<Rightarrow> COutPoint \<Rightarrow> bool" where
  "trie_haveSupport T name op = (case getSupportNode T name of
      None \<Rightarrow> False | Some node \<Rightarrow> list_ex (\<lambda>s. sup_outPoint s = op) node)"

text \<open>\<open>haveClaimInQueue\<close> returns the height through its reference argument.\<close>

definition haveClaimInQueue :: "CClaimTrie \<Rightarrow> string \<Rightarrow> COutPoint \<Rightarrow> int option" where
  "haveClaimInQueue T name op = (case getQueueNameRow T name of
      None \<Rightarrow> None
    | Some nameRow \<Rightarrow> (case List.find (\<lambda>e. oph_outPoint e = op) nameRow of
          None \<Rightarrow> None
        | Some e \<Rightarrow> (case getQueueRow T (oph_nHeight e) of
              None \<Rightarrow> None
            | Some row \<Rightarrow>
                if list_ex (\<lambda>(n, c). n = name \<and> claim_outPoint c = op) row
                then Some (oph_nHeight e) else None)))"

definition haveSupportInQueue :: "CClaimTrie \<Rightarrow> string \<Rightarrow> COutPoint \<Rightarrow> int option" where
  "haveSupportInQueue T name op = (case getSupportQueueNameRow T name of
      None \<Rightarrow> None
    | Some nameRow \<Rightarrow> (case List.find (\<lambda>e. oph_outPoint e = op) nameRow of
          None \<Rightarrow> None
        | Some e \<Rightarrow> (case getSupportQueueRow T (oph_nHeight e) of
              None \<Rightarrow> None
            | Some row \<Rightarrow>
                if list_ex (\<lambda>(n, s). n = name \<and> sup_outPoint s = op) row
                then Some (oph_nHeight e) else None)))"

text \<open>The entries of the height rows that a name row points to.\<close>

definition queued_claims :: "CClaimTrie \<Rightarrow> string \<Rightarrow> queueNameRowType \<Rightarrow> CClaimValue list" where
  "queued_claims T name nameRow = concat (map (\<lambda>e. case getQueueRow T (oph_nHeight e) of
      None \<Rightarrow> []
    | Some row \<Rightarrow> (case List.find (\<lambda>(n, c). n = name \<and> claim_outPoint c = oph_outPoint e) row of
          None \<Rightarrow> [] | Some (n, c) \<Rightarrow> [c])) nameRow)"

definition queued_supports :: "CClaimTrie \<Rightarrow> string \<Rightarrow> queueNameRowType \<Rightarrow> CSupportValue list" where
  "queued_supports T name nameRow = concat (map (\<lambda>e. case getSupportQueueRow T (oph_nHeight e) of
      None \<Rightarrow> []
    | Some row \<Rightarrow> (case List.find (\<lambda>(n, s). n = name \<and> sup_outPoint s = oph_outPoint e) row of
          None \<Rightarrow> [] | Some (n, s) \<Rightarrow> [s])) nameRow)"

definition getClaimsForName :: "CClaimTrie \<Rightarrow> string \<Rightarrow> claimsForNameType" where
  "getClaimsForName T name =
     (let (claims, takeover) = (case getNodeForName T name of
              None \<Rightarrow> ([], 0)
            | Some n \<Rightarrow> (node_claims n, if node_claims n \<noteq> [] then node_takeover n else 0));
          supports = (case getSupportNode T name of None \<Rightarrow> [] | Some s \<Rightarrow> s);
          claims = claims @ (case getQueueNameRow T name of None \<Rightarrow> [] | Some r \<Rightarrow> queued_claims T name r);
          supports = supports @
            (case getSupportQueueNameRow T name of None \<Rightarrow> [] | Some r \<Rightarrow> queued_supports T name r)
      in \<lparr>cfn_claims = claims, cfn_supports = supports, cfn_nLastTakeoverHeight = takeover\<rparr>)"

text \<open>
  The loop over the claims has no braces around the body of its condition: the statements
  that record a find and leave the loop run for the first claim, whatever it is.
\<close>

definition getEffectiveAmountForClaim :: "CClaimTrie \<Rightarrow> string \<Rightarrow> uint160 \<Rightarrow> int" where
  "getEffectiveAmountForClaim T name cid =
     (let claims = getClaimsForName T name
      in case cfn_claims claims of
           [] \<Rightarrow> 0
         | c # _ \<Rightarrow>
             (if claim_claimId c = cid \<and> claim_nValidAtHeight c < trie_nCurrentHeight T
              then claim_nAmount c else 0) +
             sum_list (map sup_nAmount (filter (\<lambda>s. sup_supportedClaimId s = cid \<and>
               sup_nValidAtHeight s < trie_nCurrentHeight T) (cfn_supports claims))))"

subsection \<open>Hash consistency\<close>

definition node_value_bytes :: "CClaimTrieNode \<Rightarrow> bytes" where
  "node_value_bytes n = (case node_getBestClaim n of
      None \<Rightarrow> [] | Some c \<Rightarrow> getValueHash (claim_outPoint c) (node_takeover n))"

primrec recursiveCheckConsistency :: "CClaimTrieNode \<Rightarrow> bool" where
  "recursiveCheckConsistency (Node h ch t cl) \<longleftrightarrow>
     list_all snd (map (map_prod id recursiveCheckConsistency) ch) \<and>
     Hash [concat (map (\<lambda>(c, m). of_char c # node_hash m) ch) @ node_value_bytes (Node h ch t cl)] = h"

definition checkConsistency :: "CClaimTrie \<Rightarrow> bool" where
  "checkConsistency T \<longleftrightarrow> (if trie_empty T then True else recursiveCheckConsistency (trie_root T))"

subsection \<open>Update from a cache\<close>

definition markNodeDirty :: "string \<Rightarrow> bool \<Rightarrow> CClaimTrie \<Rightarrow> CClaimTrie" where
  "markNodeDirty name live T = T\<lparr>dirtyNodes := map_put nodenamecompare name live (dirtyNodes T)\<rparr>"

text \<open>The node of a name, created when only the last character is missing.\<close>

fun ensure_path :: "CClaimTrieNode \<Rightarrow> string \<Rightarrow> CClaimTrieNode option" where
  "ensure_path n [] = Some n"
| "ensure_path n (c # cs) = (case child n c of
      None \<Rightarrow> if cs = [] then Some (put_child c new_node n) else None
    | Some m \<Rightarrow> (case ensure_path m cs of None \<Rightarrow> None | Some m' \<Rightarrow> Some (put_child c m' n)))"

fun modify_at :: "(CClaimTrieNode \<Rightarrow> CClaimTrieNode) \<Rightarrow> CClaimTrieNode \<Rightarrow> string \<Rightarrow> CClaimTrieNode option" where
  "modify_at f n [] = Some (f n)"
| "modify_at f n (c # cs) = (case child n c of
      None \<Rightarrow> None
    | Some m \<Rightarrow> (case modify_at f m cs of None \<Rightarrow> None | Some m' \<Rightarrow> Some (put_child c m' n)))"

text \<open>The names below a node, in the order in which \<open>recursiveNullify\<close> marks them.\<close>

primrec recursiveNullify :: "CClaimTrieNode \<Rightarrow> string \<Rightarrow> string list" where
  "recursiveNullify (Node h ch t cl) = (\<lambda>name.
     concat (map (\<lambda>(c, nullify). nullify (name @ [c])) (map (map_prod id recursiveNullify) ch)) @ [name])"

text \<open>The second component is the cache node, which receives the old claims by the swap.\<close>

definition updateName :: "CClaimTrie \<Rightarrow> string \<Rightarrow> CClaimTrieNode \<Rightarrow> CClaimTrie \<times> CClaimTrieNode \<times> bool" where
  "updateName T name updated = (case ensure_path (trie_root T) name of
      None \<Rightarrow> (T, updated, False)
    | Some root \<Rightarrow> (case getNodeForName_from root name of
          None \<Rightarrow> (T, updated, False)
        | Some current \<Rightarrow>
            let removed = filter (\<lambda>(c, m). child updated c = None) (node_children current);
                kept = filter (\<lambda>(c, m). child updated c \<noteq> None) (node_children current);
                T = markNodeDirty name True
                  (T\<lparr>trie_root := (case modify_at (\<lambda>n. set_children kept (set_claims (node_claims updated) n)) root name of
                      None \<Rightarrow> root | Some root' \<Rightarrow> root')\<rparr>);
                T = fold (\<lambda>nm. markNodeDirty nm False)
                      (concat (map (\<lambda>(c, m). recursiveNullify m (name @ [c])) removed)) T
            in (T, set_claims (node_claims current) updated, True)))"

definition updateHash :: "CClaimTrie \<Rightarrow> string \<Rightarrow> uint256 \<Rightarrow> CClaimTrie \<times> bool" where
  "updateHash T name hash =
     (case modify_at (\<lambda>n. Node hash (node_children n) (node_takeover n) (node_claims n)) (trie_root T) name of
        None \<Rightarrow> (T, False)
      | Some root \<Rightarrow> (markNodeDirty name True (T\<lparr>trie_root := root\<rparr>), True))"

definition updateTakeoverHeight :: "CClaimTrie \<Rightarrow> string \<Rightarrow> int \<Rightarrow> CClaimTrie \<times> bool" where
  "updateTakeoverHeight T name height =
     (case modify_at (\<lambda>n. Node (node_hash n) (node_children n) height (node_claims n)) (trie_root T) name of
        None \<Rightarrow> (T, False)
      | Some root \<Rightarrow> (markNodeDirty name True (T\<lparr>trie_root := root\<rparr>), True))"

text \<open>
  \<open>updateQueueRow\<close> and its six companions swap the row of the cache with the row of the dirty
  map, which is empty when it is new; over a whole cache map this gives the pair of the new
  dirty map and what the swaps leave in the cache.
\<close>

definition swap_rows :: "('k \<Rightarrow> 'r list option) \<Rightarrow> ('k \<Rightarrow> 'r list option) \<Rightarrow>
    ('k \<Rightarrow> 'r list option) \<times> ('k \<Rightarrow> 'r list option)" where
  "swap_rows dirty rows =
     (dirty ++ rows,
      (\<lambda>k. case rows k of None \<Rightarrow> None
           | Some _ \<Rightarrow> Some (case dirty k of None \<Rightarrow> [] | Some old \<Rightarrow> old)))"

fun update_names :: "CClaimTrie \<Rightarrow> (string \<times> CClaimTrieNode) list \<Rightarrow>
    CClaimTrie \<times> (string \<times> CClaimTrieNode) list \<times> bool" where
  "update_names T [] = (T, [], True)"
| "update_names T ((name, node) # rest) =
     (case updateName T name node of (T, node', ok) \<Rightarrow>
        if \<not> ok then (T, (name, node') # rest, False)
        else (case update_names T rest of (T, rest', ok) \<Rightarrow> (T, (name, node') # rest', ok)))"

fun update_hashes :: "CClaimTrie \<Rightarrow> (string \<times> uint256) list \<Rightarrow> CClaimTrie \<times> bool" where
  "update_hashes T [] = (T, True)"
| "update_hashes T ((name, hash) # rest) =
     (case updateHash T name hash of (T, ok) \<Rightarrow> if \<not> ok then (T, False) else update_hashes T rest)"

fun update_takeovers :: "CClaimTrie \<Rightarrow> (string \<times> int) list \<Rightarrow> CClaimTrie \<times> bool" where
  "update_takeovers T [] = (T, True)"
| "update_takeovers T ((name, height) # rest) =
     (case updateTakeoverHeight T name height of (T, ok) \<Rightarrow>
        if \<not> ok then (T, False) else update_takeovers T rest)"

subsection \<open>Writing to the database\<close>

definition disk_claim :: "ClaimDB \<Rightarrow> CClaimValue \<Rightarrow> CClaimValue" where
  "disk_claim d c = c\<lparr>claim_nEffectiveAmount := db_junk d, claim_saddr := [], claim_sname := [],
     claim_NameAddress := []\<rparr>"

definition disk_node :: "ClaimDB \<Rightarrow> CClaimTrieNode \<Rightarrow> CClaimTrieNode" where
  "disk_node d n = Node (node_hash n) [] (node_takeover n) (map (disk_claim d) (node_claims n))"

text \<open>An empty row is erased, any other row is written; the rows not dirty stay.\<close>

definition batch_rows :: "('r list \<Rightarrow> 'r list) \<Rightarrow> ('k \<Rightarrow> 'r list option) \<Rightarrow> ('k \<Rightarrow> 'r list option) \<Rightarrow>
    'k \<Rightarrow> 'r list option" where
  "batch_rows enc dirty stored k = (case dirty k of
      None \<Rightarrow> stored k | Some row \<Rightarrow> if row = [] then None else Some (enc row))"

definition BatchWriteNode :: "CClaimTrie \<Rightarrow> string \<times> bool \<Rightarrow> ClaimDB \<Rightarrow> ClaimDB" where
  "BatchWriteNode T e d = d\<lparr>db_nodes := (db_nodes d)(fst e :=
     (if snd e then map_option (disk_node d) (getNodeForName T (fst e)) else None))\<rparr>"

definition WriteToDisk :: "CClaimTrie \<Rightarrow> CClaimTrie" where
  "WriteToDisk T =
     (let d = fold (BatchWriteNode T) (dirtyNodes T) (trie_db T);
          d = d\<lparr>db_queueRows := batch_rows (map (map_prod id (disk_claim d))) (dirtyQueueRows T) (db_queueRows d),
            db_queueNameRows := batch_rows id (dirtyQueueNameRows T) (db_queueNameRows d),
            db_expirationRows := batch_rows id (dirtyExpirationQueueRows T) (db_expirationRows d),
            db_supports := batch_rows id (dirtySupportNodes T) (db_supports d),
            db_supportQueueRows := batch_rows id (dirtySupportQueueRows T) (db_supportQueueRows d),
            db_supportQueueNameRows := batch_rows id (dirtySupportQueueNameRows T) (db_supportQueueNameRows d),
            db_supportExpirationRows := batch_rows id (dirtySupportExpirationQueueRows T) (db_supportExpirationRows d),
            db_hashBlock := Some (trie_hashBlock T),
            db_nCurrentHeight := Some (trie_nCurrentHeight T)\<rparr>
      in T\<lparr>dirtyNodes := [], dirtyQueueRows := Map.empty, dirtyQueueNameRows := Map.empty,
           dirtyExpirationQueueRows := Map.empty, dirtySupportNodes := Map.empty,
           dirtySupportQueueRows := Map.empty, dirtySupportQueueNameRows := Map.empty,
           dirtySupportExpirationQueueRows := Map.empty, trie_db := d\<rparr>)"

fun insert_below :: "CClaimTrieNode \<Rightarrow> string \<Rightarrow> CClaimTrieNode \<Rightarrow> CClaimTrieNode option" where
  "insert_below n [] m = Some m"
| "insert_below n [c] m = Some (put_child c m n)"
| "insert_below n (c # d # cs) m = (case child n c of
      None \<Rightarrow> None
    | Some k \<Rightarrow> (case insert_below k (d # cs) m of None \<Rightarrow> None | Some k' \<Rightarrow> Some (put_child c k' n)))"

definition InsertFromDisk :: "CClaimTrie \<Rightarrow> string \<Rightarrow> CClaimTrieNode \<Rightarrow> CClaimTrie \<times> bool" where
  "InsertFromDisk T name node = (case insert_below (trie_root T) name node of
      None \<Rightarrow> (T, False) | Some root \<Rightarrow> (T\<lparr>trie_root := root\<rparr>, True))"

text \<open>
  The node entries in the order of the cursor; \<open>None\<close> is a value that does not decode.
\<close>

fun read_nodes :: "CClaimTrie \<Rightarrow> (string \<times> CClaimTrieNode option) list \<Rightarrow> CClaimTrie \<times> bool" where
  "read_nodes T [] = (T, True)"
| "read_nodes T ((name, None) # es) = (T, False)"
| "read_nodes T ((name, Some n) # es) =
     (case InsertFromDisk T name n of (T, ok) \<Rightarrow> if \<not> ok then (T, False) else read_nodes T es)"

definition ReadFromDisk :: "CClaimTrie \<Rightarrow> (string \<times> CClaimTrieNode option) list \<Rightarrow> bool \<Rightarrow> CClaimTrie \<times> bool" where
  "ReadFromDisk T entries check =
     (let T = (case db_hashBlock (trie_db T) of None \<Rightarrow> T | Some h \<Rightarrow> T\<lparr>trie_hashBlock := h\<rparr>);
          T = (case db_nCurrentHeight (trie_db T) of None \<Rightarrow> T | Some h \<Rightarrow> T\<lparr>trie_nCurrentHeight := h\<rparr>);
          (T, ok) = read_nodes T entries
      in if \<not> ok then (T, False) else if check then (T, checkConsistency T) else (T, True))"

end
