(* ===== verification/ClaimCache.thy ===== *)
theory ClaimCache
  imports ClaimTrie
begin

text \<open>
  The working copy of the claim trie (class \<open>CClaimTrieCache\<close>): a node cache over the base
  trie, caches of the queue rows, the names whose hash or ownership must be looked at again,
  and the operations of a block - adding, updating and spending claims and supports, moving to
  the next block and back, computing the root hash, and flushing into the base.

  Every operation returns the new state; a \<open>bool\<close> is the result of the code.  An outer \<open>None\<close>
  is an access through an iterator that does not point to an element.
\<close>

unbundle bit_operations_syntax

subsection \<open>State\<close>

record CClaimTrieCache =
  base :: CClaimTrie
  fRequireTakeoverHeights :: bool
  cache :: "(string \<times> CClaimTrieNode) list"
  block_originals :: "(string \<times> CClaimTrieNode) list"
  dirtyHashes :: "string list"
  cacheHashes :: "(string \<times> uint256) list"
  claimQueueCache :: "int \<Rightarrow> claimQueueRowType option"
  claimQueueNameCache :: "string \<Rightarrow> queueNameRowType option"
  expirationQueueCache :: "int \<Rightarrow> expirationQueueRowType option"
  supportCache :: "string \<Rightarrow> CSupportValue list option"
  supportQueueCache :: "int \<Rightarrow> supportQueueRowType option"
  supportQueueNameCache :: "string \<Rightarrow> queueNameRowType option"
  supportExpirationQueueCache :: "int \<Rightarrow> expirationQueueRowType option"
  namesToCheckForTakeover :: "string list"
  cacheTakeoverHeights :: "(string \<times> int) list"
  cache_nCurrentHeight :: int
  cache_hashBlock :: uint256

definition CClaimTrieCache_init :: "CClaimTrie \<Rightarrow> bool \<Rightarrow> CClaimTrieCache" where
  "CClaimTrieCache_init T req = \<lparr>base = T, fRequireTakeoverHeights = req, cache = [],
     block_originals = [], dirtyHashes = [], cacheHashes = [], claimQueueCache = Map.empty,
     claimQueueNameCache = Map.empty, expirationQueueCache = Map.empty, supportCache = Map.empty,
     supportQueueCache = Map.empty, supportQueueNameCache = Map.empty,
     supportExpirationQueueCache = Map.empty, namesToCheckForTakeover = [],
     cacheTakeoverHeights = [], cache_nCurrentHeight = trie_nCurrentHeight T,
     cache_hashBlock = blob_SetNull 256\<rparr>"

definition cache_find :: "CClaimTrieCache \<Rightarrow> string \<Rightarrow> CClaimTrieNode option" where
  "cache_find S name = map_of (cache S) name"

definition cache_put :: "string \<Rightarrow> CClaimTrieNode \<Rightarrow> CClaimTrieCache \<Rightarrow> CClaimTrieCache" where
  "cache_put name n S = S\<lparr>cache := map_put nodenamecompare name n (cache S)\<rparr>"

definition cache_dirty :: "CClaimTrieCache \<Rightarrow> bool" where
  "cache_dirty S \<longleftrightarrow> dirtyHashes S \<noteq> []"

definition cache_empty :: "CClaimTrieCache \<Rightarrow> bool" where
  "cache_empty S \<longleftrightarrow> trie_empty (base S) \<and> cache S = []"

text \<open>Insertion into a \<open>std::set\<close> of names.\<close>

definition set_insert :: "string \<Rightarrow> string list \<Rightarrow> string list" where
  "set_insert x xs = insort_insert x xs"

definition mark_dirty :: "string \<Rightarrow> CClaimTrieCache \<Rightarrow> CClaimTrieCache" where
  "mark_dirty name S = S\<lparr>dirtyHashes :=
     set_insert name (fold (\<lambda>i d. set_insert (take i name) d) [0..<length name] (dirtyHashes S))\<rparr>"

definition check_takeover :: "string \<Rightarrow> CClaimTrieCache \<Rightarrow> CClaimTrieCache" where
  "check_takeover name S = S\<lparr>namesToCheckForTakeover := set_insert name (namesToCheckForTakeover S)\<rparr>"

subsection \<open>The node cache\<close>

definition addNodeToCache :: "string \<Rightarrow> CClaimTrieNode \<Rightarrow> CClaimTrieCache \<Rightarrow> CClaimTrieCache" where
  "addNodeToCache position original S =
     (let S = cache_put position original S
      in if map_of (block_originals S) position = None
         then S\<lparr>block_originals := map_put nodenamecompare position original (block_originals S)\<rparr>
         else S)"

definition getOriginalInfoForName :: "CClaimTrieCache \<Rightarrow> string \<Rightarrow> CClaimValue option" where
  "getOriginalInfoForName S name = (case map_of (block_originals S) name of
      None \<Rightarrow> getInfoForName (base S) name
    | Some n \<Rightarrow> node_getBestClaim n)"

definition getSupportsForName :: "CClaimTrieCache \<Rightarrow> string \<Rightarrow> CSupportValue list option" where
  "getSupportsForName S name = (case supportCache S name of
      Some node \<Rightarrow> Some node | None \<Rightarrow> getSupportNode (base S) name)"

text \<open>A lookup that finds nothing leaves the local vector empty.\<close>

definition supports_of :: "CClaimTrieCache \<Rightarrow> string \<Rightarrow> CSupportValue list" where
  "supports_of S name = (case getSupportsForName S name of None \<Rightarrow> [] | Some node \<Rightarrow> node)"

definition start_node :: "CClaimTrieCache \<Rightarrow> CClaimTrieNode \<times> bool" where
  "start_node S = (case cache_find S [] of
      Some n \<Rightarrow> (n, True) | None \<Rightarrow> (trie_root (base S), False))"

text \<open>
  The walk of \<open>insertClaimIntoTrie\<close>.  \<open>pos\<close> is the part of the name already walked and
  \<open>cached\<close> tells whether the current node is the one in the cache, which is what the code's
  comparison of pointers asks.
\<close>

fun insert_walk :: "CClaimTrieCache \<Rightarrow> CClaimTrieNode \<Rightarrow> bool \<Rightarrow> string \<Rightarrow> string \<Rightarrow>
    CClaimTrieCache \<times> (CClaimTrieNode \<times> bool) option" where
  "insert_walk S cur cached pos [] = (S, Some (cur, cached))"
| "insert_walk S cur cached pos (c # cs) =
     (let nxt = pos @ [c] in
      case cache_find S nxt of
        Some n \<Rightarrow> insert_walk S n True nxt cs
      | None \<Rightarrow> (case child cur c of
          Some n \<Rightarrow> insert_walk S n False nxt cs
        | None \<Rightarrow>
            if cache_find S pos \<noteq> None \<and> \<not> cached then (S, None)
            else let S = (if cache_find S pos \<noteq> None then S else addNodeToCache pos cur S);
                     S = addNodeToCache nxt new_node S;
                     S = cache_put pos (put_child c new_node cur) S
                 in insert_walk S new_node True nxt cs))"

definition insertClaimIntoTrie :: "string \<Rightarrow> CClaimValue \<Rightarrow> bool \<Rightarrow> CClaimTrieCache \<Rightarrow>
    CClaimTrieCache \<times> bool" where
  "insertClaimIntoTrie name claim fCheckTakeover S =
     (case insert_walk S (fst (start_node S)) (snd (start_node S)) [] name of
        (S, None) \<Rightarrow> (S, False)
      | (S, Some (cur, cached)) \<Rightarrow>
          if cache_find S name \<noteq> None \<and> \<not> cached then (S, False)
          else
            let S = (if cache_find S name \<noteq> None then S else addNodeToCache name cur S);
                (cur', fChanged) = (case node_claims cur of
                    [] \<Rightarrow> (node_insertClaim cur claim, True)
                  | currentTop # _ \<Rightarrow>
                      let cur' = node_reorderClaims (node_insertClaim cur claim) (supports_of S name)
                      in (cur', \<not> claim_eq currentTop (hd (node_claims cur'))));
                S = cache_put name cur' S;
                S = (if fChanged then mark_dirty name S else S);
                S = (if fChanged \<and> fCheckTakeover then check_takeover name S else S)
            in (S, True))"

text \<open>The walk of \<open>removeClaimFromTrie\<close> and \<open>reorderTrieNode\<close> does not create nodes.\<close>

fun find_walk :: "CClaimTrieCache \<Rightarrow> CClaimTrieNode \<Rightarrow> bool \<Rightarrow> string \<Rightarrow> string \<Rightarrow>
    (CClaimTrieNode \<times> bool) option" where
  "find_walk S cur cached pos [] = Some (cur, cached)"
| "find_walk S cur cached pos (c # cs) =
     (case cache_find S (pos @ [c]) of
        Some n \<Rightarrow> find_walk S n True (pos @ [c]) cs
      | None \<Rightarrow> (case child cur c of
          Some n \<Rightarrow> find_walk S n False (pos @ [c]) cs
        | None \<Rightarrow> None))"

text \<open>A node other than the root that has become empty leaves the cache.\<close>

definition prune_self :: "CClaimTrieNode \<Rightarrow> bool \<Rightarrow> string \<Rightarrow> CClaimTrieCache \<Rightarrow>
    CClaimTrieCache \<times> bool \<times> bool" where
  "prune_self cur cached pos S =
     (if pos \<noteq> [] \<and> node_empty cur
      then if cache_find S pos \<noteq> None
           then if \<not> cached then (S, False, False)
                else (S\<lparr>cache := map_erase pos (cache S)\<rparr>, True, True)
           else (S, True, True)
      else (S, True, False))"

text \<open>
  \<open>recursivePruneName\<close> on the rest of the name below \<open>pos\<close>: the results are the code's result
  and whether the current node nullified itself.
\<close>

fun recursivePruneName :: "CClaimTrieNode \<Rightarrow> bool \<Rightarrow> string \<Rightarrow> string \<Rightarrow> CClaimTrieCache \<Rightarrow>
    CClaimTrieCache \<times> bool \<times> bool" where
  "recursivePruneName cur cached pos [] S = prune_self cur cached pos S"
| "recursivePruneName cur cached pos (c # cs) S =
     (case (case cache_find S (pos @ [c]) of
              Some n \<Rightarrow> Some (n, True)
            | None \<Rightarrow> map_option (\<lambda>n. (n, False)) (child cur c)) of
        None \<Rightarrow> (S, False, False)
      | Some (n, n_cached) \<Rightarrow>
          (case recursivePruneName n n_cached (pos @ [c]) cs S of (S, ok, fChildNullified) \<Rightarrow>
             if \<not> ok then (S, False, False)
             else if \<not> fChildNullified then prune_self cur cached pos S
             else
               let (S, cached) = (if cache_find S pos = None then (addNodeToCache pos cur S, True)
                                  else (S, cached))
               in if child cur c = None then (S, False, False)
                  else
                    let cur = set_children (map_erase c (node_children cur)) cur;
                        S = (if cached then cache_put pos cur S else S)
                    in prune_self cur cached pos S))"

text \<open>
  The removed claim is returned through the reference argument of the code, also when the
  pruning fails afterwards.
\<close>

definition removeClaimFromTrie :: "string \<Rightarrow> COutPoint \<Rightarrow> bool \<Rightarrow> CClaimTrieCache \<Rightarrow>
    CClaimTrieCache \<times> CClaimValue option \<times> bool" where
  "removeClaimFromTrie name op fCheckTakeover S =
     (case find_walk S (fst (start_node S)) (snd (start_node S)) [] name of
        None \<Rightarrow> (S, None, False)
      | Some (cur, cached) \<Rightarrow>
          if cache_find S name \<noteq> None \<and> \<not> cached then (S, None, False)
          else
            let S = (if cache_find S name \<noteq> None then S else addNodeToCache name cur S)
            in (case node_claims cur of
                  [] \<Rightarrow> (S, None, False)
                | currentTop # _ \<Rightarrow>
                    let (cur1, removed) = (case node_removeClaim cur op of
                            None \<Rightarrow> (cur, None) | Some (cur1, claim) \<Rightarrow> (cur1, Some claim));
                        (cur2, fChanged) = (if node_claims cur1 \<noteq> []
                           then let cur2 = node_reorderClaims cur1 (supports_of S name)
                                in (cur2, \<not> claim_eq currentTop (hd (node_claims cur2)))
                           else (cur1, True));
                        S = cache_put name cur2 S
                    in (case removed of
                          None \<Rightarrow> (S, None, False)
                        | Some claim \<Rightarrow>
                            let S = (if fChanged then mark_dirty name S else S);
                                S = (if fChanged \<and> fCheckTakeover then check_takeover name S else S);
                                (rootNode, root_cached) = start_node S
                            in (case recursivePruneName rootNode root_cached [] name S of
                                  (S, ok, _) \<Rightarrow> (S, Some claim, ok)))))"

definition reorderTrieNode :: "string \<Rightarrow> bool \<Rightarrow> CClaimTrieCache \<Rightarrow> CClaimTrieCache \<times> bool" where
  "reorderTrieNode name fCheckTakeover S =
     (case (case cache_find S name of
              Some n \<Rightarrow> Some (S, n)
            | None \<Rightarrow> (case find_walk S (trie_root (base S)) False [] name of
                None \<Rightarrow> None
              | Some (cur, cached) \<Rightarrow> Some (cache_put name cur S, cur))) of
        None \<Rightarrow> (S, True)
      | Some (S, n) \<Rightarrow>
          (case node_claims n of
             [] \<Rightarrow> (S, True)
           | currentTop # _ \<Rightarrow>
               let n' = node_reorderClaims n (supports_of S name);
                   S = cache_put name n' S;
                   fChanged = (\<not> claim_eq (hd (node_claims n')) currentTop);
                   S = (if fChanged then mark_dirty name S else S);
                   S = (if fChanged \<and> fCheckTakeover then check_takeover name S else S)
               in (S, True)))"

subsection \<open>Queue rows in the cache\<close>

text \<open>
  \<open>getQueueCacheRow\<close> and its companions find the row in the cache, or copy it from the base,
  or create it when asked to; \<open>None\<close> is the end iterator.
\<close>

definition getQueueCacheRow :: "int \<Rightarrow> bool \<Rightarrow> CClaimTrieCache \<Rightarrow> CClaimTrieCache \<times> claimQueueRowType option" where
  "getQueueCacheRow h create S = (case claimQueueCache S h of
      Some row \<Rightarrow> (S, Some row)
    | None \<Rightarrow> (case getQueueRow (base S) h of
          Some row \<Rightarrow> (S\<lparr>claimQueueCache := (claimQueueCache S)(h \<mapsto> row)\<rparr>, Some row)
        | None \<Rightarrow> if create then (S\<lparr>claimQueueCache := (claimQueueCache S)(h \<mapsto> [])\<rparr>, Some [])
            else (S, None)))"

definition getQueueCacheNameRow :: "string \<Rightarrow> bool \<Rightarrow> CClaimTrieCache \<Rightarrow> CClaimTrieCache \<times> queueNameRowType option" where
  "getQueueCacheNameRow name create S = (case claimQueueNameCache S name of
      Some row \<Rightarrow> (S, Some row)
    | None \<Rightarrow> (case getQueueNameRow (base S) name of
          Some row \<Rightarrow> (S\<lparr>claimQueueNameCache := (claimQueueNameCache S)(name \<mapsto> row)\<rparr>, Some row)
        | None \<Rightarrow> if create then (S\<lparr>claimQueueNameCache := (claimQueueNameCache S)(name \<mapsto> [])\<rparr>, Some [])
            else (S, None)))"

definition getExpirationQueueCacheRow :: "int \<Rightarrow> bool \<Rightarrow> CClaimTrieCache \<Rightarrow> CClaimTrieCache \<times> expirationQueueRowType option" where
  "getExpirationQueueCacheRow h create S = (case expirationQueueCache S h of
      Some row \<Rightarrow> (S, Some row)
    | None \<Rightarrow> (case getExpirationQueueRow (base S) h of
          Some row \<Rightarrow> (S\<lparr>expirationQueueCache := (expirationQueueCache S)(h \<mapsto> row)\<rparr>, Some row)
        | None \<Rightarrow> if create then (S\<lparr>expirationQueueCache := (expirationQueueCache S)(h \<mapsto> [])\<rparr>, Some [])
            else (S, None)))"

definition getSupportQueueCacheRow :: "int \<Rightarrow> bool \<Rightarrow> CClaimTrieCache \<Rightarrow> CClaimTrieCache \<times> supportQueueRowType option" where
  "getSupportQueueCacheRow h create S = (case supportQueueCache S h of
      Some row \<Rightarrow> (S, Some row)
    | None \<Rightarrow> (case getSupportQueueRow (base S) h of
          Some row \<Rightarrow> (S\<lparr>supportQueueCache := (supportQueueCache S)(h \<mapsto> row)\<rparr>, Some row)
        | None \<Rightarrow> if create then (S\<lparr>supportQueueCache := (supportQueueCache S)(h \<mapsto> [])\<rparr>, Some [])
            else (S, None)))"

definition getSupportQueueCacheNameRow :: "string \<Rightarrow> bool \<Rightarrow> CClaimTrieCache \<Rightarrow> CClaimTrieCache \<times> queueNameRowType option" where
  "getSupportQueueCacheNameRow name create S = (case supportQueueNameCache S name of
      Some row \<Rightarrow> (S, Some row)
    | None \<Rightarrow> (case getSupportQueueNameRow (base S) name of
          Some row \<Rightarrow> (S\<lparr>supportQueueNameCache := (supportQueueNameCache S)(name \<mapsto> row)\<rparr>, Some row)
        | None \<Rightarrow> if create then (S\<lparr>supportQueueNameCache := (supportQueueNameCache S)(name \<mapsto> [])\<rparr>, Some [])
            else (S, None)))"

definition getSupportExpirationQueueCacheRow :: "int \<Rightarrow> bool \<Rightarrow> CClaimTrieCache \<Rightarrow> CClaimTrieCache \<times> expirationQueueRowType option" where
  "getSupportExpirationQueueCacheRow h create S = (case supportExpirationQueueCache S h of
      Some row \<Rightarrow> (S, Some row)
    | None \<Rightarrow> (case getSupportExpirationQueueRow (base S) h of
          Some row \<Rightarrow> (S\<lparr>supportExpirationQueueCache := (supportExpirationQueueCache S)(h \<mapsto> row)\<rparr>, Some row)
        | None \<Rightarrow> if create then (S\<lparr>supportExpirationQueueCache := (supportExpirationQueueCache S)(h \<mapsto> [])\<rparr>, Some [])
            else (S, None)))"

text \<open>Writing a row back through the iterator.\<close>

definition set_queue_row :: "int \<Rightarrow> claimQueueRowType \<Rightarrow> CClaimTrieCache \<Rightarrow> CClaimTrieCache" where
  "set_queue_row h row S = S\<lparr>claimQueueCache := (claimQueueCache S)(h \<mapsto> row)\<rparr>"

definition set_queue_name_row :: "string \<Rightarrow> queueNameRowType \<Rightarrow> CClaimTrieCache \<Rightarrow> CClaimTrieCache" where
  "set_queue_name_row name row S = S\<lparr>claimQueueNameCache := (claimQueueNameCache S)(name \<mapsto> row)\<rparr>"

definition set_expiration_row :: "int \<Rightarrow> expirationQueueRowType \<Rightarrow> CClaimTrieCache \<Rightarrow> CClaimTrieCache" where
  "set_expiration_row h row S = S\<lparr>expirationQueueCache := (expirationQueueCache S)(h \<mapsto> row)\<rparr>"

definition set_support_queue_row :: "int \<Rightarrow> supportQueueRowType \<Rightarrow> CClaimTrieCache \<Rightarrow> CClaimTrieCache" where
  "set_support_queue_row h row S = S\<lparr>supportQueueCache := (supportQueueCache S)(h \<mapsto> row)\<rparr>"

definition set_support_queue_name_row :: "string \<Rightarrow> queueNameRowType \<Rightarrow> CClaimTrieCache \<Rightarrow> CClaimTrieCache" where
  "set_support_queue_name_row name row S =
     S\<lparr>supportQueueNameCache := (supportQueueNameCache S)(name \<mapsto> row)\<rparr>"

definition set_support_expiration_row :: "int \<Rightarrow> expirationQueueRowType \<Rightarrow> CClaimTrieCache \<Rightarrow> CClaimTrieCache" where
  "set_support_expiration_row h row S =
     S\<lparr>supportExpirationQueueCache := (supportExpirationQueueCache S)(h \<mapsto> row)\<rparr>"

definition addToExpirationQueue :: "int \<Rightarrow> nameOutPointType \<Rightarrow> CClaimTrieCache \<Rightarrow> CClaimTrieCache" where
  "addToExpirationQueue h entry S = (case getExpirationQueueCacheRow h True S of
      (S, None) \<Rightarrow> S | (S, Some row) \<Rightarrow> set_expiration_row h (row @ [entry]) S)"

text \<open>
  When the row does not exist, the code compares and dereferences iterators that were never
  set: \<open>None\<close>.
\<close>

definition removeFromExpirationQueue :: "string \<Rightarrow> COutPoint \<Rightarrow> int \<Rightarrow> CClaimTrieCache \<Rightarrow> CClaimTrieCache option" where
  "removeFromExpirationQueue name op h S =
     (let h = h + trie_nExpirationTime (base S) in
      case getExpirationQueueCacheRow h False S of
        (S, None) \<Rightarrow> None
      | (S, Some row) \<Rightarrow> (case remove_first (\<lambda>e. nop_name e = name \<and> nop_outPoint e = op) row of
            None \<Rightarrow> Some S | Some (_, row') \<Rightarrow> Some (set_expiration_row h row' S)))"

definition addSupportToExpirationQueue :: "int \<Rightarrow> nameOutPointType \<Rightarrow> CClaimTrieCache \<Rightarrow> CClaimTrieCache" where
  "addSupportToExpirationQueue h entry S = (case getSupportExpirationQueueCacheRow h True S of
      (S, None) \<Rightarrow> S | (S, Some row) \<Rightarrow> set_support_expiration_row h (row @ [entry]) S)"

definition removeSupportFromExpirationQueue :: "string \<Rightarrow> COutPoint \<Rightarrow> int \<Rightarrow> CClaimTrieCache \<Rightarrow> CClaimTrieCache option" where
  "removeSupportFromExpirationQueue name op h S =
     (let h = h + trie_nExpirationTime (base S) in
      case getSupportExpirationQueueCacheRow h False S of
        (S, None) \<Rightarrow> None
      | (S, Some row) \<Rightarrow> (case remove_first (\<lambda>e. nop_name e = name \<and> nop_outPoint e = op) row of
            None \<Rightarrow> Some S | Some (_, row') \<Rightarrow> Some (set_support_expiration_row h row' S)))"

definition addClaimToQueues :: "string \<Rightarrow> CClaimValue \<Rightarrow> CClaimTrieCache \<Rightarrow> CClaimTrieCache" where
  "addClaimToQueues name claim S =
     (let valid = claim_nValidAtHeight claim;
          (S, row) = getQueueCacheRow valid True S;
          (S, nameRow) = getQueueCacheNameRow name True S;
          S = set_queue_row valid (the row @ [(name, claim)]) S;
          S = set_queue_name_row name (the nameRow @
                [\<lparr>oph_outPoint = claim_outPoint claim, oph_nHeight = valid\<rparr>]) S
      in addToExpirationQueue (claim_nHeight claim + trie_nExpirationTime (base S))
           \<lparr>nop_name = name, nop_outPoint = claim_outPoint claim\<rparr> S)"

definition removeClaimFromQueue :: "string \<Rightarrow> COutPoint \<Rightarrow> CClaimTrieCache \<Rightarrow> CClaimTrieCache \<times> CClaimValue option" where
  "removeClaimFromQueue name op S = (case getQueueCacheNameRow name False S of
      (S, None) \<Rightarrow> (S, None)
    | (S, Some nameRow) \<Rightarrow> (case remove_first (\<lambda>e. oph_outPoint e = op) nameRow of
          None \<Rightarrow> (S, None)
        | Some (e, nameRow') \<Rightarrow> (case getQueueCacheRow (oph_nHeight e) False S of
              (S, None) \<Rightarrow> (S, None)
            | (S, Some row) \<Rightarrow>
                (case remove_first (\<lambda>(n, c). name = n \<and> claim_outPoint c = op) row of
                   None \<Rightarrow> (S, None)
                 | Some ((_, claim), row') \<Rightarrow>
                     (set_queue_row (oph_nHeight e) row' (set_queue_name_row name nameRow' S), Some claim)))))"

definition addSupportToQueues :: "string \<Rightarrow> CSupportValue \<Rightarrow> CClaimTrieCache \<Rightarrow> CClaimTrieCache" where
  "addSupportToQueues name support S =
     (let valid = sup_nValidAtHeight support;
          (S, row) = getSupportQueueCacheRow valid True S;
          (S, nameRow) = getSupportQueueCacheNameRow name True S;
          S = set_support_queue_row valid (the row @ [(name, support)]) S;
          S = set_support_queue_name_row name (the nameRow @
                [\<lparr>oph_outPoint = sup_outPoint support, oph_nHeight = valid\<rparr>]) S
      in addSupportToExpirationQueue (sup_nHeight support + trie_nExpirationTime (base S))
           \<lparr>nop_name = name, nop_outPoint = sup_outPoint support\<rparr> S)"

definition removeSupportFromQueue :: "string \<Rightarrow> COutPoint \<Rightarrow> CClaimTrieCache \<Rightarrow> CClaimTrieCache \<times> CSupportValue option" where
  "removeSupportFromQueue name op S = (case getSupportQueueCacheNameRow name False S of
      (S, None) \<Rightarrow> (S, None)
    | (S, Some nameRow) \<Rightarrow> (case remove_first (\<lambda>e. oph_outPoint e = op) nameRow of
          None \<Rightarrow> (S, None)
        | Some (e, nameRow') \<Rightarrow> (case getSupportQueueCacheRow (oph_nHeight e) False S of
              (S, None) \<Rightarrow> (S, None)
            | (S, Some row) \<Rightarrow>
                (case remove_first (\<lambda>(n, s). name = n \<and> sup_outPoint s = op) row of
                   None \<Rightarrow> (S, None)
                 | Some ((_, support), row') \<Rightarrow>
                     (set_support_queue_row (oph_nHeight e) row' (set_support_queue_name_row name nameRow' S),
                      Some support)))))"

end
