(* ===== verification/ClaimBlocks.thy ===== *)
theory ClaimBlocks
  imports ClaimCache
begin

text \<open>
  The operations of \<open>CClaimTrieCache\<close> that transactions and blocks call: adding, updating and
  spending claims and supports with their delays, \<open>incrementBlock\<close> and \<open>decrementBlock\<close> with
  their undo data, the Merkle root, proofs, and flushing into the base trie.
\<close>

unbundle bit_operations_syntax

subsection \<open>Ownership and delays\<close>

definition getLastTakeoverForName :: "CClaimTrieCache \<Rightarrow> string \<Rightarrow> int option" where
  "getLastTakeoverForName S name =
     (if \<not> fRequireTakeoverHeights S then Some 0
      else (case map_of (cacheTakeoverHeights S) name of
          None \<Rightarrow> trie_getLastTakeoverForName (base S) name
        | Some h \<Rightarrow> Some h))"

definition getNumBlocksOfContinuousOwnership :: "CClaimTrieCache \<Rightarrow> string \<Rightarrow> int" where
  "getNumBlocksOfContinuousOwnership S name =
     (case (case cache_find S name of Some n \<Rightarrow> Some n | None \<Rightarrow> getNodeForName (base S) name) of
        None \<Rightarrow> 0
      | Some n \<Rightarrow>
          if node_claims n = [] then 0
          else (case getLastTakeoverForName S name of
              None \<Rightarrow> 0 | Some h \<Rightarrow> cache_nCurrentHeight S - h))"

text \<open>The division of the code truncates; a zero factor is a division by zero.\<close>

definition getDelayForName :: "CClaimTrieCache \<Rightarrow> string \<Rightarrow> int" where
  "getDelayForName S name =
     (if \<not> fRequireTakeoverHeights S then 0
      else let n = getNumBlocksOfContinuousOwnership S name; d = trie_nProportionalDelayFactor (base S)
           in min (sgn n * sgn d * (\<bar>n\<bar> div \<bar>d\<bar>)) 4032)"

subsection \<open>Claims\<close>

definition addClaim :: "string \<Rightarrow> COutPoint \<Rightarrow> uint160 \<Rightarrow> int \<Rightarrow> int \<Rightarrow> string \<Rightarrow> CClaimTrieCache \<Rightarrow>
    CClaimTrieCache \<times> bool" where
  "addClaim name op cid amount height addr S =
     (let delay = (case getOriginalInfoForName S name of
              Some current \<Rightarrow> if claim_claimId current = cid then 0 else getDelayForName S name
            | None \<Rightarrow> getDelayForName S name)
      in (addClaimToQueues name (mk_claim op cid amount height (height + delay) addr name) S, True))"

text \<open>The last two arguments of the constructor are exchanged here: name, then address.\<close>

definition undoSpendClaim :: "string \<Rightarrow> COutPoint \<Rightarrow> uint160 \<Rightarrow> int \<Rightarrow> int \<Rightarrow> int \<Rightarrow> string \<Rightarrow>
    CClaimTrieCache \<Rightarrow> CClaimTrieCache \<times> bool" where
  "undoSpendClaim name op cid amount height valid addr S =
     (let claim = mk_claim op cid amount height valid name addr
      in if valid < cache_nCurrentHeight S
         then insertClaimIntoTrie name claim False
                (addToExpirationQueue (height + trie_nExpirationTime (base S))
                   \<lparr>nop_name = name, nop_outPoint = op\<rparr> S)
         else (addClaimToQueues name claim S, True))"

text \<open>The inner \<open>option\<close> is the height at which the removed claim was valid.\<close>

definition removeClaim :: "string \<Rightarrow> COutPoint \<Rightarrow> int \<Rightarrow> bool \<Rightarrow> CClaimTrieCache \<Rightarrow>
    (CClaimTrieCache \<times> int option) option" where
  "removeClaim name op height fCheckTakeover S =
     (let (S, removed) = (case removeClaimFromQueue name op S of
            (S, Some claim) \<Rightarrow> (S, Some claim)
          | (S, None) \<Rightarrow> (case removeClaimFromTrie name op fCheckTakeover S of
                (S, claim, ok) \<Rightarrow> (S, if ok then claim else None)))
      in case removed of
           None \<Rightarrow> Some (S, None)
         | Some claim \<Rightarrow> (case removeFromExpirationQueue name op height S of
               None \<Rightarrow> None | Some S \<Rightarrow> Some (S, Some (claim_nValidAtHeight claim))))"

definition undoAddClaim :: "string \<Rightarrow> COutPoint \<Rightarrow> int \<Rightarrow> CClaimTrieCache \<Rightarrow> (CClaimTrieCache \<times> bool) option" where
  "undoAddClaim name op height S =
     map_option (\<lambda>(S, r). (S, r \<noteq> None)) (removeClaim name op height False S)"

definition spendClaim :: "string \<Rightarrow> COutPoint \<Rightarrow> int \<Rightarrow> CClaimTrieCache \<Rightarrow> (CClaimTrieCache \<times> int option) option" where
  "spendClaim name op height S = removeClaim name op height True S"

subsection \<open>Supports\<close>

definition insertSupportIntoMap :: "string \<Rightarrow> CSupportValue \<Rightarrow> bool \<Rightarrow> CClaimTrieCache \<Rightarrow> CClaimTrieCache \<times> bool" where
  "insertSupportIntoMap name support fCheckTakeover S =
     reorderTrieNode name fCheckTakeover
       (S\<lparr>supportCache := (supportCache S)(name \<mapsto> supports_of S name @ [support])\<rparr>)"

definition removeSupportFromMap :: "string \<Rightarrow> COutPoint \<Rightarrow> bool \<Rightarrow> CClaimTrieCache \<Rightarrow>
    CClaimTrieCache \<times> CSupportValue option \<times> bool" where
  "removeSupportFromMap name op fCheckTakeover S = (case getSupportsForName S name of
      None \<Rightarrow> (S, None, False)
    | Some node \<Rightarrow>
        let S = S\<lparr>supportCache := (supportCache S)(name \<mapsto> node)\<rparr>
        in (case remove_first (\<lambda>s. sup_outPoint s = op) node of
              None \<Rightarrow> (S, None, False)
            | Some (support, node') \<Rightarrow>
                (case reorderTrieNode name fCheckTakeover
                        (S\<lparr>supportCache := (supportCache S)(name \<mapsto> node')\<rparr>) of
                   (S, ok) \<Rightarrow> (S, Some support, ok))))"

definition addSupport :: "string \<Rightarrow> COutPoint \<Rightarrow> int \<Rightarrow> uint160 \<Rightarrow> int \<Rightarrow> CClaimTrieCache \<Rightarrow> CClaimTrieCache \<times> bool" where
  "addSupport name op amount cid height S =
     (let delay = (case getOriginalInfoForName S name of
              Some claim \<Rightarrow> if claim_claimId claim = cid then 0 else getDelayForName S name
            | None \<Rightarrow> getDelayForName S name)
      in (addSupportToQueues name \<lparr>sup_outPoint = op, sup_supportedClaimId = cid, sup_nAmount = amount,
            sup_nHeight = height, sup_nValidAtHeight = height + delay\<rparr> S, True))"

definition undoSpendSupport :: "string \<Rightarrow> COutPoint \<Rightarrow> uint160 \<Rightarrow> int \<Rightarrow> int \<Rightarrow> int \<Rightarrow> CClaimTrieCache \<Rightarrow>
    CClaimTrieCache \<times> bool" where
  "undoSpendSupport name op cid amount height valid S =
     (let support = \<lparr>sup_outPoint = op, sup_supportedClaimId = cid, sup_nAmount = amount,
            sup_nHeight = height, sup_nValidAtHeight = valid\<rparr>
      in if valid < cache_nCurrentHeight S
         then insertSupportIntoMap name support False
                (addSupportToExpirationQueue (height + trie_nExpirationTime (base S))
                   \<lparr>nop_name = name, nop_outPoint = op\<rparr> S)
         else (addSupportToQueues name support S, True))"

definition removeSupport :: "string \<Rightarrow> COutPoint \<Rightarrow> int \<Rightarrow> bool \<Rightarrow> CClaimTrieCache \<Rightarrow>
    (CClaimTrieCache \<times> int option) option" where
  "removeSupport name op height fCheckTakeover S =
     (let (S, removed) = (case removeSupportFromQueue name op S of
            (S, Some support) \<Rightarrow> (S, Some support)
          | (S, None) \<Rightarrow> (case removeSupportFromMap name op fCheckTakeover S of
                (S, support, ok) \<Rightarrow> (S, if ok then support else None)))
      in case removed of
           None \<Rightarrow> Some (S, None)
         | Some support \<Rightarrow> (case removeSupportFromExpirationQueue name op height S of
               None \<Rightarrow> None | Some S \<Rightarrow> Some (S, Some (sup_nValidAtHeight support))))"

definition undoAddSupport :: "string \<Rightarrow> COutPoint \<Rightarrow> int \<Rightarrow> CClaimTrieCache \<Rightarrow> (CClaimTrieCache \<times> bool) option" where
  "undoAddSupport name op height S =
     map_option (\<lambda>(S, r). (S, r \<noteq> None)) (removeSupport name op height False S)"

definition spendSupport :: "string \<Rightarrow> COutPoint \<Rightarrow> int \<Rightarrow> CClaimTrieCache \<Rightarrow> (CClaimTrieCache \<times> int option) option" where
  "spendSupport name op height S = removeSupport name op height True S"

subsection \<open>To the next block\<close>

text \<open>The undo vectors a block fills.\<close>

record BlockUndo =
  insertUndo :: insertUndoType
  expireUndo :: claimQueueRowType
  insertSupportUndo :: insertUndoType
  expireSupportUndo :: supportQueueRowType
  takeoverHeightUndo :: "(string \<times> int) list"

definition no_undo :: BlockUndo where
  "no_undo = \<lparr>insertUndo = [], expireUndo = [], insertSupportUndo = [], expireSupportUndo = [],
     takeoverHeightUndo = []\<rparr>"

text \<open>Claims that become valid at this height go from the queue into the trie.\<close>

fun activate_claims :: "claimQueueRowType \<Rightarrow> CClaimTrieCache \<Rightarrow> BlockUndo \<Rightarrow> CClaimTrieCache \<times> BlockUndo \<times> bool" where
  "activate_claims [] S U = (S, U, True)"
| "activate_claims ((name, claim) # row) S U =
     (case getQueueCacheNameRow name False S of
        (S, None) \<Rightarrow> (S, U, False)
      | (S, Some nameRow) \<Rightarrow>
          (case remove_first (\<lambda>e. oph_outPoint e = claim_outPoint claim \<and>
                  oph_nHeight e = cache_nCurrentHeight S) nameRow of
             None \<Rightarrow> (S, U, False)
           | Some (_, nameRow') \<Rightarrow>
               let S = fst (insertClaimIntoTrie name claim True (set_queue_name_row name nameRow' S));
                   U = U\<lparr>insertUndo := insertUndo U @ [\<lparr>noph_name = name,
                     noph_outPoint = claim_outPoint claim, noph_nHeight = claim_nValidAtHeight claim\<rparr>]\<rparr>
               in activate_claims row S U))"

fun expire_claims :: "expirationQueueRowType \<Rightarrow> CClaimTrieCache \<Rightarrow> BlockUndo \<Rightarrow> CClaimTrieCache \<times> BlockUndo \<times> bool" where
  "expire_claims [] S U = (S, U, True)"
| "expire_claims (e # row) S U =
     (case removeClaimFromTrie (nop_name e) (nop_outPoint e) True S of
        (S, Some claim, True) \<Rightarrow>
          expire_claims row S (U\<lparr>expireUndo := expireUndo U @ [(nop_name e, claim)]\<rparr>)
      | (S, _, _) \<Rightarrow> (S, U, False))"

text \<open>For supports the missing entry of the name row is only logged.\<close>

fun activate_supports :: "supportQueueRowType \<Rightarrow> CClaimTrieCache \<Rightarrow> BlockUndo \<Rightarrow> CClaimTrieCache \<times> BlockUndo" where
  "activate_supports [] S U = (S, U)"
| "activate_supports ((name, support) # row) S U =
     (let S = (case getSupportQueueCacheNameRow name False S of
            (S, None) \<Rightarrow> S
          | (S, Some nameRow) \<Rightarrow>
              (case remove_first (\<lambda>e. oph_outPoint e = sup_outPoint support \<and>
                      oph_nHeight e = sup_nValidAtHeight support) nameRow of
                 None \<Rightarrow> S
               | Some (_, nameRow') \<Rightarrow> set_support_queue_name_row name nameRow' S));
          S = fst (insertSupportIntoMap name support True S);
          U = U\<lparr>insertSupportUndo := insertSupportUndo U @ [\<lparr>noph_name = name,
            noph_outPoint = sup_outPoint support, noph_nHeight = sup_nValidAtHeight support\<rparr>]\<rparr>
      in activate_supports row S U)"

fun expire_supports :: "expirationQueueRowType \<Rightarrow> CClaimTrieCache \<Rightarrow> BlockUndo \<Rightarrow> CClaimTrieCache \<times> BlockUndo \<times> bool" where
  "expire_supports [] S U = (S, U, True)"
| "expire_supports (e # row) S U =
     (case removeSupportFromMap (nop_name e) (nop_outPoint e) True S of
        (S, Some support, True) \<Rightarrow>
          expire_supports row S (U\<lparr>expireSupportUndo := expireSupportUndo U @ [(nop_name e, support)]\<rparr>)
      | (S, _, _) \<Rightarrow> (S, U, False))"

text \<open>Has the owner of a name changed since the last block?\<close>

definition takeoverHappened :: "CClaimTrieCache \<Rightarrow> string \<Rightarrow> bool" where
  "takeoverHappened S name =
     (let inCache = (case cache_find S name of None \<Rightarrow> None | Some n \<Rightarrow> node_getBestClaim n)
      in case getOriginalInfoForName S name of
           None \<Rightarrow> True
         | Some claimInTrie \<Rightarrow> (case inCache of
               None \<Rightarrow> True
             | Some claimInCache \<Rightarrow>
                 \<not> claim_eq claimInCache claimInTrie \<and>
                 claim_claimId claimInCache \<noteq> claim_claimId claimInTrie))"

text \<open>After a takeover the queued claims of the name become valid at once.\<close>

fun pull_claims :: "string \<Rightarrow> queueNameRowType \<Rightarrow> CClaimTrieCache \<Rightarrow> BlockUndo \<Rightarrow> CClaimTrieCache \<times> BlockUndo \<times> bool" where
  "pull_claims name [] S U = (S, U, True)"
| "pull_claims name (e # nameRow) S U =
     (case getQueueCacheRow (oph_nHeight e) False S of
        (S, None) \<Rightarrow> (S, U, False)
      | (S, Some row) \<Rightarrow>
          (case remove_first (\<lambda>(n, c). name = n \<and> claim_outPoint c = oph_outPoint e \<and>
                  claim_nValidAtHeight c = oph_nHeight e) row of
             None \<Rightarrow> (S, U, False)
           | Some ((n, claim), row') \<Rightarrow>
               let U = U\<lparr>insertUndo := insertUndo U @ [\<lparr>noph_name = n,
                     noph_outPoint = claim_outPoint claim, noph_nHeight = claim_nValidAtHeight claim\<rparr>]\<rparr>;
                   claim = claim\<lparr>claim_nValidAtHeight := cache_nCurrentHeight S\<rparr>;
                   S = fst (insertClaimIntoTrie n claim False S);
                   S = set_queue_row (oph_nHeight e) row' S
               in pull_claims name nameRow S U))"

fun pull_supports :: "string \<Rightarrow> queueNameRowType \<Rightarrow> CClaimTrieCache \<Rightarrow> BlockUndo \<Rightarrow> CClaimTrieCache \<times> BlockUndo" where
  "pull_supports name [] S U = (S, U)"
| "pull_supports name (e # nameRow) S U =
     (case getSupportQueueCacheRow (oph_nHeight e) False S of
        (S, None) \<Rightarrow> pull_supports name nameRow S U
      | (S, Some row) \<Rightarrow>
          (case remove_first (\<lambda>(n, s). name = n \<and> sup_outPoint s = oph_outPoint e \<and>
                  sup_nValidAtHeight s = oph_nHeight e) row of
             None \<Rightarrow> pull_supports name nameRow S U
           | Some ((n, support), row') \<Rightarrow>
               let U = U\<lparr>insertSupportUndo := insertSupportUndo U @ [\<lparr>noph_name = n,
                     noph_outPoint = sup_outPoint support, noph_nHeight = sup_nValidAtHeight support\<rparr>]\<rparr>;
                   support = support\<lparr>sup_nValidAtHeight := cache_nCurrentHeight S\<rparr>;
                   S = fst (insertSupportIntoMap n support False S);
                   S = set_support_queue_row (oph_nHeight e) row' S
               in pull_supports name nameRow S U))"

definition process_takeover :: "string \<Rightarrow> CClaimTrieCache \<Rightarrow> BlockUndo \<Rightarrow> CClaimTrieCache \<times> BlockUndo \<times> bool" where
  "process_takeover name S U =
     (let haveClaimInTrie = (getOriginalInfoForName S name \<noteq> None);
          (S, U, ok) = (case getQueueCacheNameRow name False S of
             (S, None) \<Rightarrow> (S, U, True)
           | (S, Some nameRow) \<Rightarrow> (case pull_claims name nameRow S U of
               (S, U, ok) \<Rightarrow> (if ok then set_queue_name_row name [] S else S, U, ok)))
      in if \<not> ok then (S, U, False)
         else
           let (S, U) = (case getSupportQueueCacheNameRow name False S of
                   (S, None) \<Rightarrow> (S, U)
                 | (S, Some nameRow) \<Rightarrow> (case pull_supports name nameRow S U of
                     (S, U) \<Rightarrow> (set_support_queue_name_row name [] S, U)));
               takeover = getLastTakeoverForName S name
           in if haveClaimInTrie \<and> takeover = None then (S, U, False)
              else
                let U = (if haveClaimInTrie
                         then U\<lparr>takeoverHeightUndo := takeoverHeightUndo U @ [(name, the takeover)]\<rparr> else U);
                    S = (if cache_find S name \<noteq> None
                         then S\<lparr>cacheTakeoverHeights := map_put (<) name (cache_nCurrentHeight S) (cacheTakeoverHeights S)\<rparr>
                         else S)
                in (S, U, True))"

fun process_takeovers :: "string list \<Rightarrow> CClaimTrieCache \<Rightarrow> BlockUndo \<Rightarrow> CClaimTrieCache \<times> BlockUndo \<times> bool" where
  "process_takeovers [] S U = (S, U, True)"
| "process_takeovers (name # names) S U =
     (if takeoverHappened S name
      then (case process_takeover name S U of
          (S, U, ok) \<Rightarrow> if \<not> ok then (S, U, False) else process_takeovers names S U)
      else process_takeovers names S U)"

text \<open>The block's originals become the nodes that are in the cache.\<close>

definition snapshot_originals :: "CClaimTrieCache \<Rightarrow> CClaimTrieCache" where
  "snapshot_originals S = S\<lparr>block_originals := cache S\<rparr>"

definition incrementBlock :: "CClaimTrieCache \<Rightarrow> BlockUndo \<Rightarrow> CClaimTrieCache \<times> BlockUndo \<times> bool" where
  "incrementBlock S U =
     (let h = cache_nCurrentHeight S;
          (S, U, ok) = (case getQueueCacheRow h False S of
             (S, None) \<Rightarrow> (S, U, True)
           | (S, Some row) \<Rightarrow> (case activate_claims row S U of
               (S, U, ok) \<Rightarrow> (if ok then set_queue_row h [] S else S, U, ok)))
      in if \<not> ok then (S, U, False) else
      let (S, U, ok) = (case getExpirationQueueCacheRow h False S of
             (S, None) \<Rightarrow> (S, U, True)
           | (S, Some row) \<Rightarrow> (case expire_claims row S U of
               (S, U, ok) \<Rightarrow> (if ok then set_expiration_row h [] S else S, U, ok)))
      in if \<not> ok then (S, U, False) else
      let (S, U) = (case getSupportQueueCacheRow h False S of
             (S, None) \<Rightarrow> (S, U)
           | (S, Some row) \<Rightarrow> (case activate_supports row S U of
               (S, U) \<Rightarrow> (set_support_queue_row h [] S, U)));
          (S, U, ok) = (case getSupportExpirationQueueCacheRow h False S of
             (S, None) \<Rightarrow> (S, U, True)
           | (S, Some row) \<Rightarrow> (case expire_supports row S U of
               (S, U, ok) \<Rightarrow> (if ok then set_support_expiration_row h [] S else S, U, ok)))
      in if \<not> ok then (S, U, False) else
      (case process_takeovers (namesToCheckForTakeover S) S U of
         (S, U, ok) \<Rightarrow>
           if \<not> ok then (S, U, False)
           else ((snapshot_originals S)\<lparr>namesToCheckForTakeover := [], cache_nCurrentHeight := h + 1\<rparr>, U, True)))"

subsection \<open>Back to the previous block\<close>

fun undo_expired_supports :: "supportQueueRowType \<Rightarrow> int \<Rightarrow> CClaimTrieCache \<Rightarrow> CClaimTrieCache" where
  "undo_expired_supports [] h S = S"
| "undo_expired_supports ((name, support) # es) h S =
     undo_expired_supports es h
       (addSupportToExpirationQueue h \<lparr>nop_name = name, nop_outPoint = sup_outPoint support\<rparr>
          (fst (insertSupportIntoMap name support False S)))"

text \<open>
  A support that is not in the map is only logged; what is queued then is the uninitialised
  local variable, which the argument \<open>junk\<close> stands for.
\<close>

fun undo_inserted_supports :: "CSupportValue \<Rightarrow> insertUndoType \<Rightarrow> CClaimTrieCache \<Rightarrow> CClaimTrieCache" where
  "undo_inserted_supports junk [] S = S"
| "undo_inserted_supports junk (u # us) S =
     (let (S, row) = getSupportQueueCacheRow (noph_nHeight u) True S;
          (S, support, ok) = removeSupportFromMap (noph_name u) (noph_outPoint u) False S;
          support = (case support of None \<Rightarrow> junk | Some s \<Rightarrow> s);
          (S, nameRow) = getSupportQueueCacheNameRow (noph_name u) True S;
          S = set_support_queue_row (noph_nHeight u) (the row @ [(noph_name u, support)]) S;
          S = set_support_queue_name_row (noph_name u) (the nameRow @
                [\<lparr>oph_outPoint = sup_outPoint support, oph_nHeight = sup_nValidAtHeight support\<rparr>]) S
      in undo_inserted_supports junk us S)"

fun undo_expired_claims :: "claimQueueRowType \<Rightarrow> int \<Rightarrow> CClaimTrieCache \<Rightarrow> CClaimTrieCache" where
  "undo_expired_claims [] h S = S"
| "undo_expired_claims ((name, claim) # es) h S =
     undo_expired_claims es h
       (addToExpirationQueue h \<lparr>nop_name = name, nop_outPoint = claim_outPoint claim\<rparr>
          (fst (insertClaimIntoTrie name claim False S)))"

fun undo_inserted_claims :: "insertUndoType \<Rightarrow> CClaimTrieCache \<Rightarrow> CClaimTrieCache \<times> bool" where
  "undo_inserted_claims [] S = (S, True)"
| "undo_inserted_claims (u # us) S =
     (let (S, row) = getQueueCacheRow (noph_nHeight u) True S
      in case removeClaimFromTrie (noph_name u) (noph_outPoint u) False S of
           (S, Some claim, True) \<Rightarrow>
             let (S, nameRow) = getQueueCacheNameRow (noph_name u) True S;
                 S = set_queue_row (noph_nHeight u) (the row @ [(noph_name u, claim)]) S;
                 S = set_queue_name_row (noph_name u) (the nameRow @
                       [\<lparr>oph_outPoint = noph_outPoint u, oph_nHeight = noph_nHeight u\<rparr>]) S
             in undo_inserted_claims us S
         | (S, _, _) \<Rightarrow> (S, False))"

definition decrementBlock :: "CSupportValue \<Rightarrow> CClaimTrieCache \<Rightarrow> BlockUndo \<Rightarrow> CClaimTrieCache \<times> bool" where
  "decrementBlock junk S U =
     (let S = S\<lparr>cache_nCurrentHeight := cache_nCurrentHeight S - 1\<rparr>;
          h = cache_nCurrentHeight S;
          S = (if expireSupportUndo U \<noteq> []
               then undo_expired_supports (expireSupportUndo U) h (fst (getSupportExpirationQueueCacheRow h True S))
               else S);
          S = undo_inserted_supports junk (insertSupportUndo U) S;
          S = (if expireUndo U \<noteq> []
               then undo_expired_claims (expireUndo U) h (fst (getExpirationQueueCacheRow h True S))
               else S)
      in case undo_inserted_claims (insertUndo U) S of
           (S, False) \<Rightarrow> (S, False)
         | (S, True) \<Rightarrow>
             (S\<lparr>cacheTakeoverHeights := fold (\<lambda>(name, h). map_put (<) name h) (takeoverHeightUndo U)
                  (cacheTakeoverHeights S)\<rparr>, True))"

definition finalizeDecrement :: "CClaimTrieCache \<Rightarrow> CClaimTrieCache \<times> bool" where
  "finalizeDecrement S = (snapshot_originals S, True)"

end
