(* ===== verification/ClaimMerkle.thy ===== *)
theory ClaimMerkle
  imports ClaimBlocks
begin

text \<open>
  The root hash of \<open>CClaimTrieCache\<close> (\<open>recursiveComputeMerkleHash\<close>, \<open>getMerkleHash\<close>), the proofs
  for names, and flushing the cache into the base trie.

  The recursion of the hash follows the names marked dirty; it is given fuel, and the length of
  the longest dirty name plus two is always enough.
\<close>

unbundle bit_operations_syntax

subsection \<open>The root hash\<close>

definition one_hash :: uint256 where
  "one_hash = uint256S ''0000000000000000000000000000000000000000000000000000000000000001''"

text \<open>The bytes of the best claim of a node; \<open>None\<close> when its takeover height is unknown.\<close>

definition value_bytes :: "CClaimTrieCache \<Rightarrow> CClaimTrieNode \<Rightarrow> string \<Rightarrow> bytes option" where
  "value_bytes S n pos = (case node_getBestClaim n of
      None \<Rightarrow> Some []
    | Some c \<Rightarrow> map_option (getValueHash (claim_outPoint c)) (getLastTakeoverForName S pos))"

definition set_cache_hash :: "string \<Rightarrow> uint256 \<Rightarrow> CClaimTrieCache \<Rightarrow> CClaimTrieCache" where
  "set_cache_hash pos h S = S\<lparr>cacheHashes := map_put (<) pos h (cacheHashes S)\<rparr>"

text \<open>The outer \<open>option\<close> is fuel, the \<open>bool\<close> the result of the code.\<close>

function recursiveComputeMerkleHash :: "nat \<Rightarrow> CClaimTrieCache \<Rightarrow> CClaimTrieNode \<Rightarrow> string \<Rightarrow>
    (CClaimTrieCache \<times> bool) option"
  and merkle_children :: "nat \<Rightarrow> CClaimTrieCache \<Rightarrow> (char \<times> CClaimTrieNode) list \<Rightarrow> string \<Rightarrow> bytes \<Rightarrow>
    (CClaimTrieCache \<times> bytes) option"
where
  "recursiveComputeMerkleHash 0 S n pos = None"
| "recursiveComputeMerkleHash (Suc k) S n pos =
     (if pos = [] \<and> node_empty n then Some (set_cache_hash [] one_hash S, True)
      else (case merkle_children k S (node_children n) pos [] of
          None \<Rightarrow> None
        | Some (S, vchToHash) \<Rightarrow>
            (case value_bytes S n pos of
               None \<Rightarrow> Some (S, False)
             | Some v \<Rightarrow>
                 let S = set_cache_hash pos (Hash [vchToHash @ v]) S
                 in Some (S\<lparr>dirtyHashes := removeAll pos (dirtyHashes S)\<rparr>, True))))"
| "merkle_children k S [] pos vch = Some (S, vch)"
| "merkle_children k S ((c, m) # ch) pos vch =
     (let nxt = pos @ [c] in
      case (if nxt \<in> set (dirtyHashes S)
            then map_option fst (recursiveComputeMerkleHash k S
                   (case cache_find S nxt of Some n \<Rightarrow> n | None \<Rightarrow> m) nxt)
            else Some S) of
        None \<Rightarrow> None
      | Some S \<Rightarrow> merkle_children k S ch pos
          (vch @ of_char c # (case map_of (cacheHashes S) nxt of Some h \<Rightarrow> h | None \<Rightarrow> node_hash m)))"
  by pat_completeness auto
termination
  by (relation "measures [case_sum (\<lambda>(k, S, n, pos). k) (\<lambda>(k, S, ch, pos, vch). k),
       case_sum (\<lambda>(k, S, n, pos). 0) (\<lambda>(k, S, ch, pos, vch). Suc (length ch))]") auto

definition merkle_fuel :: "CClaimTrieCache \<Rightarrow> nat" where
  "merkle_fuel S = Max (set (0 # map length (dirtyHashes S))) + 2"

definition getMerkleHash :: "CClaimTrieCache \<Rightarrow> (CClaimTrieCache \<times> uint256) option" where
  "getMerkleHash S =
     (if cache_empty S then Some (S, one_hash)
      else
        (case (if cache_dirty S
               then map_option fst (recursiveComputeMerkleHash (merkle_fuel S) S (fst (start_node S)) [])
               else Some S) of
           None \<Rightarrow> None
         | Some S \<Rightarrow> Some (S, (case map_of (cacheHashes S) [] of
               Some h \<Rightarrow> h | None \<Rightarrow> node_hash (trie_root (base S))))))"

subsection \<open>Proofs for names\<close>

record CClaimTrieProofNode =
  proof_children :: "(char \<times> uint256) list"
  proof_hasValue :: bool
  proof_valHash :: uint256

record CClaimTrieProof =
  proof_nodes :: "CClaimTrieProofNode list"
  proof_nameHasValue :: bool
  proof_outPoint :: COutPoint
  proof_nHeightOfLastTakeover :: int

definition getLeafHashForProof :: "CClaimTrieCache \<Rightarrow> string \<Rightarrow> char \<Rightarrow> CClaimTrieNode \<Rightarrow> uint256" where
  "getLeafHashForProof S pos c n = (case map_of (cacheHashes S) (pos @ [c]) of
      Some h \<Rightarrow> h | None \<Rightarrow> node_hash n)"

text \<open>
  The node of the proof at one position; \<open>next\<close> is the next character of the name, if there is
  one.  A takeover height that cannot be found is only logged and left uninitialised: \<open>junk\<close>.
\<close>

definition proof_node :: "CClaimTrieCache \<Rightarrow> int \<Rightarrow> CClaimTrieNode \<Rightarrow> string \<Rightarrow> char option \<Rightarrow> CClaimTrieProofNode" where
  "proof_node S junk cur pos nxt =
     \<lparr>proof_children = map (\<lambda>(c, m). (c, if nxt = Some c then blob_SetNull 256
        else getLeafHashForProof S pos c m)) (node_children cur),
      proof_hasValue = (node_getBestClaim cur \<noteq> None),
      proof_valHash = (if nxt = None then blob_SetNull 256
        else (case node_getBestClaim cur of
            None \<Rightarrow> blob_SetNull 256
          | Some c \<Rightarrow> getValueHash (claim_outPoint c)
              (case getLastTakeoverForName S pos of Some h \<Rightarrow> h | None \<Rightarrow> junk)))\<rparr>"

definition proof_current :: "CClaimTrieCache \<Rightarrow> string \<Rightarrow> CClaimTrieNode \<Rightarrow> CClaimTrieNode" where
  "proof_current S pos cur = (case cache_find S pos of Some n \<Rightarrow> n | None \<Rightarrow> cur)"

fun proof_walk :: "CClaimTrieCache \<Rightarrow> int \<Rightarrow> CClaimTrieNode \<Rightarrow> string \<Rightarrow> string \<Rightarrow>
    CClaimTrieProofNode list \<times> CClaimTrieNode option" where
  "proof_walk S junk cur pos [] =
     (let cur = proof_current S pos cur in ([proof_node S junk cur pos None], Some cur))"
| "proof_walk S junk cur pos (c # cs) =
     (let cur = proof_current S pos cur; node = proof_node S junk cur pos (Some c) in
      case child cur c of
        None \<Rightarrow> ([node], None)
      | Some m \<Rightarrow> (case proof_walk S junk m (pos @ [c]) cs of (nodes, end) \<Rightarrow> (node # nodes, end)))"

definition null_outpoint :: COutPoint where
  "null_outpoint = \<lparr>op_hash = blob_SetNull 256, op_n = - 1\<rparr>"

definition getProofForName :: "CClaimTrieCache \<Rightarrow> int \<Rightarrow> string \<Rightarrow> (CClaimTrieCache \<times> CClaimTrieProof) option" where
  "getProofForName S junk name =
     (case (if cache_dirty S then map_option fst (getMerkleHash S) else Some S) of
        None \<Rightarrow> None
      | Some S \<Rightarrow>
          (case proof_walk S junk (trie_root (base S)) [] name of (nodes, end) \<Rightarrow>
             let best = (case end of None \<Rightarrow> None | Some n \<Rightarrow> node_getBestClaim n)
             in Some (S, \<lparr>proof_nodes = nodes, proof_nameHasValue = (best \<noteq> None),
                  proof_outPoint = (case best of None \<Rightarrow> null_outpoint | Some c \<Rightarrow> claim_outPoint c),
                  proof_nHeightOfLastTakeover = (if best = None then 0
                    else (case getLastTakeoverForName S name of Some h \<Rightarrow> h | None \<Rightarrow> 0))\<rparr>)))"

subsection \<open>Flushing into the base trie\<close>

definition getBestBlock :: "CClaimTrieCache \<Rightarrow> CClaimTrieCache \<times> uint256" where
  "getBestBlock S =
     (let S = (if blob_IsNull (cache_hashBlock S) then S\<lparr>cache_hashBlock := trie_hashBlock (base S)\<rparr> else S)
      in (S, cache_hashBlock S))"

definition setBestBlock :: "uint256 \<Rightarrow> CClaimTrieCache \<Rightarrow> CClaimTrieCache" where
  "setBestBlock h S = S\<lparr>cache_hashBlock := h\<rparr>"

text \<open>\<open>clear\<close> leaves the support expiration rows.\<close>

definition cache_clear :: "CClaimTrieCache \<Rightarrow> CClaimTrieCache" where
  "cache_clear S = S\<lparr>cache := [], block_originals := [], dirtyHashes := [], cacheHashes := [],
     claimQueueCache := Map.empty, claimQueueNameCache := Map.empty,
     expirationQueueCache := Map.empty, supportCache := Map.empty, supportQueueCache := Map.empty,
     supportQueueNameCache := Map.empty, namesToCheckForTakeover := [], cacheTakeoverHeights := []\<rparr>"

text \<open>\<open>CClaimTrie::update\<close> on the rows, once the nodes, hashes and heights are in.\<close>

definition update_rows :: "uint256 \<Rightarrow> CClaimTrieCache \<Rightarrow> CClaimTrieCache" where
  "update_rows hashBlock S =
     (let T = base S;
          (q, q') = swap_rows (dirtyQueueRows T) (claimQueueCache S);
          (qn, qn') = swap_rows (dirtyQueueNameRows T) (claimQueueNameCache S);
          (e, e') = swap_rows (dirtyExpirationQueueRows T) (expirationQueueCache S);
          (s, s') = swap_rows (dirtySupportNodes T) (supportCache S);
          (sq, sq') = swap_rows (dirtySupportQueueRows T) (supportQueueCache S);
          (sn, sn') = swap_rows (dirtySupportQueueNameRows T) (supportQueueNameCache S);
          (se, se') = swap_rows (dirtySupportExpirationQueueRows T) (supportExpirationQueueCache S)
      in S\<lparr>base := T\<lparr>dirtyQueueRows := q, dirtyQueueNameRows := qn, dirtyExpirationQueueRows := e,
             dirtySupportNodes := s, dirtySupportQueueRows := sq, dirtySupportQueueNameRows := sn,
             dirtySupportExpirationQueueRows := se, trie_hashBlock := hashBlock,
             trie_nCurrentHeight := cache_nCurrentHeight S\<rparr>,
           claimQueueCache := q', claimQueueNameCache := qn', expirationQueueCache := e',
           supportCache := s', supportQueueCache := sq', supportQueueNameCache := sn',
           supportExpirationQueueCache := se'\<rparr>)"

definition trie_update :: "uint256 \<Rightarrow> CClaimTrieCache \<Rightarrow> CClaimTrieCache \<times> bool" where
  "trie_update hashBlock S = (case update_names (base S) (cache S) of
      (T, nodes, ok) \<Rightarrow>
        let S = S\<lparr>base := T, cache := nodes\<rparr>
        in if \<not> ok then (S, False)
           else (case update_hashes T (cacheHashes S) of (T, ok) \<Rightarrow>
             if \<not> ok then (S\<lparr>base := T\<rparr>, False)
             else (case update_takeovers T (cacheTakeoverHeights S) of (T, ok) \<Rightarrow>
               if \<not> ok then (S\<lparr>base := T\<rparr>, False)
               else (update_rows hashBlock (S\<lparr>base := T\<rparr>), True))))"

definition flush :: "CClaimTrieCache \<Rightarrow> (CClaimTrieCache \<times> bool) option" where
  "flush S =
     (case (if cache_dirty S then map_option fst (getMerkleHash S) else Some S) of
        None \<Rightarrow> None
      | Some S \<Rightarrow>
          (case getBestBlock S of (S, hashBlock) \<Rightarrow>
             (case trie_update hashBlock S of (S, ok) \<Rightarrow>
                Some (if ok then (cache_clear S, True) else (S, False)))))"

end
