(* ===== verification/ClaimLookup.thy ===== *)
theory ClaimLookup
  imports ClaimMerkle
begin

text \<open>
  What a cache says of a name, through the node cache and the tree below it, and what inserting
  and removing a claim do to it: the other names keep their claims, and the cached nodes stay
  linked to their parents.
\<close>


subsection \<open>What a cache says of a name\<close>

text \<open>
  The node of a name is the one in the cache, or else the child of the node of the name without
  its last character.  The claims of a name are those of its node.
\<close>

definition lookup_step :: "CClaimTrieCache \<Rightarrow> CClaimTrieNode option \<Rightarrow> string \<Rightarrow> char \<Rightarrow> CClaimTrieNode option" where
  "lookup_step S cur pos c = (case cache_find S (pos @ [c]) of
      Some n \<Rightarrow> Some n
    | None \<Rightarrow> (case cur of None \<Rightarrow> None | Some n \<Rightarrow> child n c))"

fun lookup_walk :: "CClaimTrieCache \<Rightarrow> CClaimTrieNode option \<Rightarrow> string \<Rightarrow> string \<Rightarrow> CClaimTrieNode option" where
  "lookup_walk S cur pos [] = cur"
| "lookup_walk S cur pos (c # cs) = lookup_walk S (lookup_step S cur pos c) (pos @ [c]) cs"

definition lookup :: "CClaimTrieCache \<Rightarrow> string \<Rightarrow> CClaimTrieNode option" where
  "lookup S name = lookup_walk S (Some (fst (start_node S))) [] name"

definition claims_of :: "CClaimTrieNode option \<Rightarrow> CClaimValue list" where
  "claims_of n = (case n of None \<Rightarrow> [] | Some n \<Rightarrow> node_claims n)"

definition claims_at :: "CClaimTrieCache \<Rightarrow> string \<Rightarrow> CClaimValue list" where
  "claims_at S name = claims_of (lookup S name)"

lemma claims_of_simps [simp]: "claims_of None = []" "claims_of (Some n) = node_claims n"
  by (simp_all add: claims_of_def)

lemma lookup_walk_snoc:
  "lookup_walk S cur pos (xs @ [c]) = lookup_step S (lookup_walk S cur pos xs) (pos @ xs) c"
  by (induction xs arbitrary: cur pos) auto

lemma lookup_Nil: "lookup S [] = Some (fst (start_node S))"
  by (simp add: lookup_def)

lemma lookup_snoc: "lookup S (p @ [c]) = lookup_step S (lookup S p) p c"
  by (simp add: lookup_def lookup_walk_snoc)

lemma lookup_cached: "cache_find S p = Some n \<Longrightarrow> lookup S p = Some n"
  by (cases p rule: rev_cases) (auto simp: lookup_Nil lookup_snoc lookup_step_def start_node_def)

lemma lookup_uncached: "cache_find S (p @ [c]) = None \<Longrightarrow>
    lookup S (p @ [c]) = (case lookup S p of None \<Rightarrow> None | Some n \<Rightarrow> child n c)"
  by (simp add: lookup_snoc lookup_step_def)

text \<open>The current node of a walk: what the lookup finds, with the flag that says where.\<close>

definition walk_at :: "CClaimTrieCache \<Rightarrow> CClaimTrieNode \<Rightarrow> bool \<Rightarrow> string \<Rightarrow> bool" where
  "walk_at S cur cached pos \<longleftrightarrow> lookup S pos = Some cur \<and> cached = (cache_find S pos \<noteq> None)"

lemma walk_at_start: "walk_at S (fst (start_node S)) (snd (start_node S)) []"
  by (auto simp: walk_at_def lookup_Nil start_node_def split: option.splits)

lemma walk_at_cached: "cache_find S p = Some n \<Longrightarrow> walk_at S n True p"
  by (simp add: walk_at_def lookup_cached)

lemma walk_at_child: "walk_at S cur cached pos \<Longrightarrow> cache_find S (pos @ [c]) = None \<Longrightarrow>
    child cur c = Some n \<Longrightarrow> walk_at S n False (pos @ [c])"
  by (simp add: walk_at_def lookup_uncached)

text \<open>The node map of the cache, updated.\<close>

lemma cache_find_put [simp]: "cache_find (cache_put p n S) = (cache_find S)(p \<mapsto> n)"
  by (simp add: fun_eq_iff cache_find_def cache_put_def name_order.map_of_put)

lemma cache_find_add [simp]: "cache_find (addNodeToCache p n S) = (cache_find S)(p \<mapsto> n)"
  by (simp add: fun_eq_iff addNodeToCache_def cache_find_def cache_put_def name_order.map_of_put Let_def)

lemma cache_find_erase: "cache_find (S\<lparr>cache := map_erase p (cache S)\<rparr>) = (cache_find S)(p := None)"
  by (simp add: fun_eq_iff cache_find_def map_of_erase)

lemma base_put [simp]: "base (cache_put p n S) = base S" "base (addNodeToCache p n S) = base S"
  by (simp_all add: cache_put_def addNodeToCache_def Let_def)

lemma base_mark [simp]: "base (mark_dirty p S) = base S" "base (check_takeover p S) = base S"
  "cache_find (mark_dirty p S) = cache_find S" "cache_find (check_takeover p S) = cache_find S"
  by (simp_all add: mark_dirty_def check_takeover_def cache_find_def fun_eq_iff)

lemma supports_put [simp]: "supports_of (cache_put p n S) = supports_of S"
  "supports_of (addNodeToCache p n S) = supports_of S"
  by (auto simp: supports_of_def getSupportsForName_def cache_put_def addNodeToCache_def Let_def fun_eq_iff
      split: option.splits)

text \<open>A lookup depends on the node map and the root of the base only.\<close>

lemma lookup_cong:
  assumes "cache_find S' = cache_find S" and "base S' = base S"
  shows "lookup S' = lookup S"
proof
  show "lookup S' p = lookup S p" for p
  proof (induction p rule: rev_induct)
    case Nil
    then show ?case using assms by (simp add: lookup_Nil start_node_def split: option.splits)
  next
    case (snoc c p)
    then show ?case by (simp add: lookup_snoc lookup_step_def assms)
  qed
qed

text \<open>Copying a node into the cache does not change any lookup.\<close>

lemma lookup_copy:
  assumes "lookup S p = Some n" and "cache_find S' = (cache_find S)(p \<mapsto> n)" and "base S' = base S"
  shows "lookup S' = lookup S"
proof
  show "lookup S' q = lookup S q" for q
  proof (induction q rule: rev_induct)
    case Nil
    then show ?case using assms by (auto simp: lookup_Nil start_node_def split: option.splits)
  next
    case (snoc c q)
    then show ?case using assms by (auto simp: lookup_snoc lookup_step_def)
  qed
qed

text \<open>Changing only the claims of a cached node changes the claims of that name alone.\<close>

lemma lookup_set_claims:
  assumes "lookup S p = Some n" and "cache_find S' = (cache_find S)(p \<mapsto> m)" and "base S' = base S"
    and "child m = child n"
  shows "lookup S' = (lookup S)(p \<mapsto> m)"
proof
  show "lookup S' q = ((lookup S)(p \<mapsto> m)) q" for q
  proof (induction q rule: rev_induct)
    case Nil
    then show ?case using assms by (auto simp: lookup_Nil start_node_def split: option.splits)
  next
    case (snoc c q)
    then show ?case using assms by (auto simp: lookup_snoc lookup_step_def split: option.splits)
  qed
qed

text \<open>A new child without claims and children: only its own lookup changes, to an empty node.\<close>

lemma child_put: "child (put_child c m n) = (child n)(c \<mapsto> m)"
  by (simp add: fun_eq_iff child_def put_child_def set_children_def char_order.map_of_put)

lemma child_new [simp]: "child new_node c = None"
  by (simp add: child_def new_node_def)

lemma claims_put [simp]: "node_claims (put_child c m n) = node_claims n" "node_claims new_node = []"
  by (simp_all add: put_child_def set_children_def new_node_def)

lemma lookup_new_child:
  assumes "lookup S p = Some n" and "lookup S (p @ [c]) = None"
    and "cache_find S' = (cache_find S)(p \<mapsto> put_child c new_node n, p @ [c] \<mapsto> new_node)"
    and "base S' = base S"
  shows "lookup S' = (lookup S)(p \<mapsto> put_child c new_node n, p @ [c] \<mapsto> new_node)"
proof
  have no: "cache_find S (p @ [c]) = None"
    using assms(2) by (auto simp: lookup_snoc lookup_step_def split: option.splits)
  show "lookup S' q = ((lookup S)(p \<mapsto> put_child c new_node n, p @ [c] \<mapsto> new_node)) q" for q
  proof (induction q rule: rev_induct)
    case Nil
    then show ?case using assms by (auto simp: lookup_Nil start_node_def split: option.splits)
  next
    case (snoc d q)
    show ?case
    proof (cases "q = p @ [c]")
      case True
      then show ?thesis using snoc assms no lookup_snoc [of S' "p @ [c]" d] lookup_snoc [of S "p @ [c]" d]
        by (auto simp: lookup_step_def split: option.splits)
    next
      case False
      then show ?thesis using snoc assms no
        by (auto simp: lookup_snoc lookup_step_def child_put split: option.splits)
    qed
  qed
qed


text \<open>\<open>cur\<close> is the node of \<open>pos\<close>, and the walk never loses a claim.\<close>

lemma insert_walk_ok:
  assumes "walk_at S cur cached pos" and "insert_walk S cur cached pos cs = (S', r)"
  shows "\<exists>n b. r = Some (n, b) \<and> walk_at S' n b (pos @ cs) \<and> claims_at S' = claims_at S \<and>
    supports_of S' = supports_of S \<and> base S' = base S"
  using assms
proof (induction cs arbitrary: S cur cached pos)
  case Nil
  then show ?case by auto
next
  case (Cons c cs)
  let ?nxt = "pos @ [c]"
  show ?case
  proof (cases "cache_find S ?nxt")
    case (Some n)
    then show ?thesis using Cons.IH [OF walk_at_cached [OF Some]] Cons.prems(2) by (simp add: Let_def)
  next
    case None
    show ?thesis
    proof (cases "child cur c")
      case (Some n)
      then show ?thesis using Cons.IH [OF walk_at_child [OF Cons.prems(1) None Some]] Cons.prems(2) None
        by (simp add: Let_def)
    next
      case stuck: None
      have cur: "lookup S pos = Some cur" and flag: "cached = (cache_find S pos \<noteq> None)"
        using Cons.prems(1) by (auto simp: walk_at_def)
      let ?S1 = "if cache_find S pos \<noteq> None then S else addNodeToCache pos cur S"
      let ?S2 = "cache_put pos (put_child c new_node cur) (addNodeToCache ?nxt new_node ?S1)"
      have b: "base ?S2 = base S" "supports_of ?S2 = supports_of S" by simp_all
      have f: "cache_find ?S2 = (cache_find S)(pos \<mapsto> put_child c new_node cur, ?nxt \<mapsto> new_node)"
        by (auto simp: fun_eq_iff)
      have none: "lookup S ?nxt = None" using cur None stuck by (simp add: lookup_uncached)
      note l = lookup_new_child [OF cur none f b(1)]
      have "claims_at ?S2 = claims_at S" unfolding claims_at_def l using cur none by (auto simp: fun_eq_iff)
      moreover have "walk_at ?S2 new_node True ?nxt" unfolding walk_at_def l f by simp
      moreover have "insert_walk ?S2 new_node True ?nxt cs = (S', r)"
        using Cons.prems(2) None stuck flag by (cases "cache_find S pos") (simp_all add: Let_def)
      ultimately show ?thesis using Cons.IH [of ?S2 new_node True ?nxt] b
        by (simp split: if_splits)
    qed
  qed
qed


lemma child_claims [simp]: "child (set_claims cl n) = child n"
  by (simp add: fun_eq_iff child_def set_claims_def)

lemma child_reorder [simp]: "child (node_reorderClaims n sps) = child n"
  by (simp add: fun_eq_iff child_def)

lemma claims_set [simp]: "node_claims (set_claims cl n) = cl"
  by (simp add: set_claims_def)

lemma claims_at_mark [simp]: "claims_at (mark_dirty p S) = claims_at S" "claims_at (check_takeover p S) = claims_at S"
  unfolding claims_at_def by (subst lookup_cong [of _ S]; simp)+

lemma claims_at_put:
  assumes "walk_at S n b p" and "child m = child n"
  shows "claims_at (cache_put p m S) = (claims_at S)(p := node_claims m)"
  using lookup_set_claims [of S p n "cache_put p m S" m] assms
  by (auto simp: claims_at_def walk_at_def fun_eq_iff)

subsection \<open>Inserting a claim\<close>

text \<open>The claims of the node once a claim is inserted or removed: in the order of the code.\<close>

definition settled :: "CSupportValue list \<Rightarrow> CClaimValue list \<Rightarrow> CClaimValue list" where
  "settled sps cl = node_claims (node_reorderClaims (Node [] [] 0 cl) sps)"

lemma reorder_settled: "node_claims (node_reorderClaims n sps) = settled sps (node_claims n)"
  by (simp add: settled_def node_reorderClaims_def set_claims_def)

lemma settled_outpoints: "mset (map claim_outPoint (settled sps cl)) = mset (map claim_outPoint cl)"
proof -
  have "image_mset claim_outPoint (mset (map reset_effective (settled sps cl))) =
      image_mset claim_outPoint (mset (map reset_effective cl))"
    using reorder_mset [of "Node [] [] 0 cl" sps] by (simp add: settled_def)
  then show ?thesis by (simp add: image_mset.compositionality comp_def reset_effective_def)
qed

lemma insertClaimIntoTrie_keeps:
  "\<exists>S'. insertClaimIntoTrie name claim chk S = (S', True) \<and>
    claims_at S' = (claims_at S)(name := (if claims_at S name = [] then [claim]
      else settled (supports_of S name) (claims_at S name @ [claim])))"
proof -
  obtain S1 r where w: "insert_walk S (fst (start_node S)) (snd (start_node S)) [] name = (S1, r)" by force
  obtain n b where r: "r = Some (n, b)" and n: "walk_at S1 n b name" and same: "claims_at S1 = claims_at S"
    "supports_of S1 = supports_of S"
    using insert_walk_ok [OF walk_at_start w] by auto
  define S2 where "S2 = (if cache_find S1 name \<noteq> None then S1 else addNodeToCache name n S1)"
  have "lookup S2 = lookup S1"
    using lookup_copy [of S1 name n "addNodeToCache name n S1"] n by (auto simp: walk_at_def S2_def)
  then have n2: "walk_at S2 n True name" and same2: "claims_at S2 = claims_at S" "supports_of S2 = supports_of S"
    using n same by (auto simp: walk_at_def claims_at_def S2_def fun_eq_iff)
  have cl: "claims_at S name = node_claims n" using n fun_cong [OF same(1), of name] by (simp add: walk_at_def claims_at_def)
  have eq: "insertClaimIntoTrie name claim chk S = 
    (let (cur', fChanged) = (case node_claims n of
                    [] \<Rightarrow> (node_insertClaim n claim, True)
                  | currentTop # _ \<Rightarrow>
                      let cur' = node_reorderClaims (node_insertClaim n claim) (supports_of S2 name)
                      in (cur', \<not> claim_eq currentTop (hd (node_claims cur'))));
                S = cache_put name cur' S2;
                S = (if fChanged then mark_dirty name S else S);
                S = (if fChanged \<and> chk then check_takeover name S else S)
            in (S, True))"
    using n unfolding insertClaimIntoTrie_def w r prod.case option.case
    by (cases "cache_find S1 name") (simp_all add: walk_at_def Let_def S2_def split: list.split)
  show ?thesis
    unfolding eq using claims_at_put [OF n2, of "node_insertClaim n claim"]
      claims_at_put [OF n2, of "node_reorderClaims (node_insertClaim n claim) (supports_of S2 name)"]
    by (cases "node_claims n") (simp_all add: Let_def cl same2 node_insertClaim_def reorder_settled)
qed

text \<open>
  C12. \<open>insertClaimIntoTrie\<close> always succeeds, whatever the cache holds: neither comparison of
  pointers can fail.  The claims of the name become the old ones and the new one (in the order
  of the code, with the supports of the name applied, when there were some), and no other name
  sees any change.
\<close>

theorem insertClaimIntoTrie_adds:
  "\<exists>S'. insertClaimIntoTrie name claim chk S = (S', True) \<and>
    claims_at S' = (claims_at S)(name := (if claims_at S name = [] then [claim]
      else settled (supports_of S name) (claims_at S name @ [claim])))"
  by (rule insertClaimIntoTrie_keeps)

subsection \<open>Linked caches\<close>

text \<open>
  A cached node hangs on a node that has its character among its children: no walk misses it.
\<close>

definition linked :: "CClaimTrieCache \<Rightarrow> bool" where
  "linked S \<longleftrightarrow> (\<forall>p c. cache_find S (p @ [c]) \<noteq> None \<longrightarrow> (\<exists>n. lookup S p = Some n \<and> child n c \<noteq> None))"

lemma linkedI: "(\<And>p c m. cache_find S (p @ [c]) = Some m \<Longrightarrow> \<exists>n. lookup S p = Some n \<and> child n c \<noteq> None) \<Longrightarrow> linked S"
  by (auto simp: linked_def)

lemma linked_child: "linked S \<Longrightarrow> lookup S (p @ [c]) = Some m \<Longrightarrow> \<exists>n. lookup S p = Some n \<and> child n c \<noteq> None"
  by (cases "cache_find S (p @ [c])") (auto simp: linked_def lookup_uncached split: option.splits)

lemma linked_cong: "cache_find S' = cache_find S \<Longrightarrow> base S' = base S \<Longrightarrow> linked S' = linked S"
  using lookup_cong [of S' S] by (simp add: linked_def)

lemma linked_init: "cache S = [] \<Longrightarrow> linked S"
  by (simp add: linked_def cache_find_def)

text \<open>Replacing the node of a name by one that has at least the same children.\<close>

lemma linked_put:
  assumes "linked S" and "lookup S p = Some n" and "cache_find S' = (cache_find S)(p \<mapsto> m)" and "base S' = base S"
    and "child m = child n"
  shows "linked S'"
proof (rule linkedI)
  note l = lookup_set_claims [OF assms(2-5)]
  fix q c x
  assume x: "cache_find S' (q @ [c]) = Some x"
  have "\<exists>k. lookup S q = Some k \<and> child k c \<noteq> None"
  proof (cases "q @ [c] = p")
    case True
    then show ?thesis using linked_child [OF assms(1)] assms(2) by auto
  next
    case False
    then show ?thesis using x assms(1,3) by (auto simp: linked_def)
  qed
  then show "\<exists>k. lookup S' q = Some k \<and> child k c \<noteq> None" using assms(2,5) by (auto simp: l)
qed

lemma linked_new_child:
  assumes "linked S" and "lookup S p = Some n" and "lookup S (p @ [c]) = None"
    and "cache_find S' = (cache_find S)(p \<mapsto> put_child c new_node n, p @ [c] \<mapsto> new_node)"
    and "base S' = base S"
  shows "linked S'"
proof (rule linkedI)
  note l = lookup_new_child [OF assms(2-5)]
  fix q d x
  assume x: "cache_find S' (q @ [d]) = Some x"
  show "\<exists>k. lookup S' q = Some k \<and> child k d \<noteq> None"
  proof (cases "q @ [d] = p @ [c]")
    case True
    then show ?thesis by (auto simp: l child_put)
  next
    case False
    have "\<exists>k. lookup S q = Some k \<and> child k d \<noteq> None"
    proof (cases "q @ [d] = p")
      case True
      then show ?thesis using linked_child [OF assms(1)] assms(2) by auto
    next
      case no: False
      then show ?thesis using x False assms(1,4) by (auto simp: linked_def)
    qed
    then show ?thesis using assms(2,3) by (auto simp: l child_put)
  qed
qed

lemma insert_walk_linked:
  assumes "linked S" and "walk_at S cur cached pos"
  shows "linked (fst (insert_walk S cur cached pos cs))"
  using assms
proof (induction cs arbitrary: S cur cached pos)
  case Nil
  then show ?case by simp
next
  case (Cons c cs)
  let ?nxt = "pos @ [c]"
  show ?case
  proof (cases "cache_find S ?nxt")
    case (Some n)
    then show ?thesis using Cons.IH [OF _ walk_at_cached [OF Some]] Cons.prems by (simp add: Let_def)
  next
    case None
    show ?thesis
    proof (cases "child cur c")
      case (Some n)
      then show ?thesis using Cons.IH [OF _ walk_at_child [OF Cons.prems(2) None Some]] Cons.prems None
        by (simp add: Let_def)
    next
      case stuck: None
      have cur: "lookup S pos = Some cur" and flag: "cached = (cache_find S pos \<noteq> None)"
        using Cons.prems by (auto simp: walk_at_def)
      define S2 where "S2 = cache_put pos (put_child c new_node cur) (addNodeToCache ?nxt new_node
        (if cache_find S pos \<noteq> None then S else addNodeToCache pos cur S))"
      have b: "base S2 = base S" by (simp add: S2_def)
      have f: "cache_find S2 = (cache_find S)(pos \<mapsto> put_child c new_node cur, ?nxt \<mapsto> new_node)"
        by (auto simp: S2_def fun_eq_iff)
      have none: "lookup S ?nxt = None" using cur None stuck by (simp add: lookup_uncached)
      note l = lookup_new_child [OF cur none f b]
      have "walk_at S2 new_node True ?nxt" unfolding walk_at_def l f by simp
      moreover have "linked S2" by (rule linked_new_child [OF Cons.prems(1) cur none f b])
      moreover have "insert_walk S cur cached pos (c # cs) = insert_walk S2 new_node True ?nxt cs"
        unfolding S2_def using None stuck flag by (cases "cache_find S pos") (simp_all add: Let_def)
      ultimately show ?thesis using Cons.IH [of S2 new_node True ?nxt] by simp
    qed
  qed
qed

text \<open>Taking a node without claims and children away from its parent.\<close>

lemma child_erase: "child (set_children (map_erase c (node_children n)) n) = (child n)(c := None)"
  by (simp add: fun_eq_iff child_def set_children_def map_of_erase)

lemma lookup_drop_child:
  assumes "lookup S p = Some n" and "lookup S (p @ [c]) = Some e" and "node_empty e"
    and "cache_find S' = (cache_find S)(p \<mapsto> m, p @ [c] := None)"
    and "child m = (child n)(c := None)" and "base S' = base S"
  shows "lookup S' = (lookup S)(p \<mapsto> m, p @ [c] := None)"
proof
  have e: "child e d = None" for d using assms(3) by (simp add: node_empty_def child_def)
  show "lookup S' q = ((lookup S)(p \<mapsto> m, p @ [c] := None)) q" for q
  proof (induction q rule: rev_induct)
    case Nil
    then show ?case using assms by (auto simp: lookup_Nil start_node_def split: option.splits)
  next
    case (snoc d q)
    show ?case
    proof (cases "q = p @ [c]")
      case True
      then show ?thesis using snoc assms e lookup_snoc [of S' "p @ [c]" d] lookup_snoc [of S "p @ [c]" d]
        by (auto simp: lookup_step_def split: option.splits)
    next
      case False
      then show ?thesis using snoc assms
        by (auto simp: lookup_snoc lookup_step_def split: option.splits)
    qed
  qed
qed

lemma linked_drop_child:
  assumes "linked S" and "lookup S p = Some n" and "lookup S (p @ [c]) = Some e" and "node_empty e"
    and "cache_find S' = (cache_find S)(p \<mapsto> m, p @ [c] := None)"
    and "child m = (child n)(c := None)" and "base S' = base S"
  shows "linked S'"
proof (rule linkedI)
  note l = lookup_drop_child [OF assms(2-7)]
  fix q d x
  assume x: "cache_find S' (q @ [d]) = Some x"
  have ne: "q @ [d] \<noteq> p @ [c]" using x assms(5) by auto
  have k: "\<exists>k. lookup S q = Some k \<and> child k d \<noteq> None"
  proof (cases "q @ [d] = p")
    case True
    then show ?thesis using linked_child [OF assms(1)] assms(2) by auto
  next
    case False
    then show ?thesis using x ne assms(1,5) by (auto simp: linked_def)
  qed
  then have "q \<noteq> p @ [c]" using assms(3,4) by (auto simp: node_empty_def child_def)
  then show "\<exists>k. lookup S' q = Some k \<and> child k d \<noteq> None" using k ne assms(2,6) by (auto simp: l)
qed

lemma lookup_prefix_cong:
  assumes "\<And>q. length q \<le> length p \<Longrightarrow> cache_find S' q = cache_find S q" and "base S' = base S"
  shows "lookup S' p = lookup S p"
  using assms(1)
proof (induction p rule: rev_induct)
  case Nil
  then show ?case using assms(2) by (simp add: lookup_Nil start_node_def split: option.splits)
next
  case (snoc c p)
  then show ?case by (simp add: lookup_snoc lookup_step_def)
qed

subsection \<open>Pruning\<close>

text \<open>
  What pruning below \<open>pos\<close> leaves: either nothing is lost, or the node of \<open>pos\<close> was empty and
  is gone from the cache, so that the parent must drop it.
\<close>

definition pruned :: "CClaimTrieCache \<Rightarrow> CClaimTrieCache \<Rightarrow> string \<Rightarrow> bool \<Rightarrow> bool" where
  "pruned S S' pos nul \<longleftrightarrow> base S' = base S \<and>
     (\<forall>q. length q < length pos \<longrightarrow> cache_find S' q = cache_find S q) \<and>
     (\<exists>S1 e. linked S1 \<and> base S1 = base S \<and> claims_at S1 = claims_at S \<and> lookup S1 pos = Some e \<and>
       (\<forall>q. length q < length pos \<longrightarrow> cache_find S1 q = cache_find S q) \<and>
       (if nul then pos \<noteq> [] \<and> node_empty e \<and> cache_find S' = (cache_find S1)(pos := None)
        else cache_find S' = cache_find S1))"

lemma prune_self_pruned:
  assumes "linked S1" and "base S1 = base S" and "claims_at S1 = claims_at S"
    and "\<And>q. length q < length pos \<Longrightarrow> cache_find S1 q = cache_find S q"
    and "lookup S1 pos = Some cur" and "cached = (cache_find S1 pos \<noteq> None)"
  shows "\<exists>S' nul. prune_self cur cached pos S1 = (S', True, nul) \<and> pruned S S' pos nul"
proof -
  have "pruned S (S1\<lparr>cache := map_erase pos (cache S1)\<rparr>) pos True" if "pos \<noteq> []" "node_empty cur"
    unfolding pruned_def using assms that
    by (auto simp: cache_find_erase intro!: exI [of _ S1])
  moreover have "pruned S S1 pos True" if "pos \<noteq> []" "node_empty cur" "cache_find S1 pos = None"
    unfolding pruned_def using assms that by (auto simp: fun_eq_iff intro!: exI [of _ S1])
  moreover have "pruned S S1 pos False"
    unfolding pruned_def using assms by (auto intro!: exI [of _ S1])
  ultimately show ?thesis using assms(6) by (auto simp: prune_self_def)
qed

lemma recursivePruneName_pruned:
  assumes "linked S" and "walk_at S cur cached pos" and "lookup S (pos @ cs) \<noteq> None"
  shows "\<exists>S' nul. recursivePruneName cur cached pos cs S = (S', True, nul) \<and> pruned S S' pos nul"
  using assms
proof (induction cs arbitrary: cur cached pos)
  case Nil
  then show ?case using prune_self_pruned [of S S pos cur cached] by (simp add: walk_at_def)
next
  case (Cons c cs)
  let ?nxt = "pos @ [c]"
  have cur: "lookup S pos = Some cur" and flag: "cached = (cache_find S pos \<noteq> None)"
    using Cons.prems by (auto simp: walk_at_def)
  have "lookup S ?nxt \<noteq> None"
    using Cons.prems(3) Cons.prems(1)
  proof (induction cs rule: rev_induct)
    case (snoc d ds)
    then have "lookup S ((?nxt @ ds) @ [d]) \<noteq> None" by simp
    then obtain m where "lookup S (?nxt @ ds) = Some m" using linked_child [OF Cons.prems(1)] by blast
    then show ?case using snoc by simp
  qed simp
  then obtain n where n: "lookup S ?nxt = Some n" by blast
  have ch: "child cur c \<noteq> None" using linked_child [OF Cons.prems(1) n] cur by simp
  define b where "b = (cache_find S ?nxt \<noteq> None)"
  have at: "walk_at S n b ?nxt" using n by (simp add: walk_at_def b_def)
  have sel: "(case cache_find S ?nxt of Some n \<Rightarrow> Some (n, True)
            | None \<Rightarrow> map_option (\<lambda>n. (n, False)) (child cur c)) = Some (n, b)"
    using n cur ch by (cases "cache_find S ?nxt") (auto simp: b_def lookup_cached lookup_uncached)
  obtain S2 nul where rec: "recursivePruneName n b ?nxt cs S = (S2, True, nul)" and pr: "pruned S S2 ?nxt nul"
    using Cons.IH [OF Cons.prems(1) at] Cons.prems(3) by auto
  obtain S1 e where S1: "linked S1" "base S1 = base S" "claims_at S1 = claims_at S" "lookup S1 ?nxt = Some e"
    and pre1: "\<And>q. length q \<le> length pos \<Longrightarrow> cache_find S1 q = cache_find S q"
    and nul: "nul \<Longrightarrow> node_empty e" "cache_find S2 = (if nul then (cache_find S1)(?nxt := None) else cache_find S1)"
    using pr by (auto simp: pruned_def split: if_splits)
  have base2: "base S2 = base S" and pre2: "\<And>q. length q \<le> length pos \<Longrightarrow> cache_find S2 q = cache_find S q"
    using pr by (auto simp: pruned_def)
  have cur1: "lookup S1 pos = Some cur" and flag2: "cached = (cache_find S2 pos \<noteq> None)"
    using lookup_prefix_cong [of pos S1 S] pre1 pre2 S1(2) cur flag by auto
  show ?case
  proof (cases nul)
    case False
    then have "cache_find S2 = cache_find S1" "base S2 = base S1" using nul base2 S1 by auto
    then have "linked S2" "claims_at S2 = claims_at S" "lookup S2 pos = Some cur"
      using lookup_cong [of S2 S1] linked_cong [of S2 S1] S1 cur1 by (auto simp: claims_at_def fun_eq_iff)
    then show ?thesis
      using prune_self_pruned [of S2 S pos cur cached] base2 pre2 flag2 False
      by (simp add: sel rec)
  next
    case True
    define S3 where "S3 = (if cache_find S2 pos = None then addNodeToCache pos cur S2 else S2)"
    define m where "m = set_children (map_erase c (node_children cur)) cur"
    define S4 where "S4 = cache_put pos m S3"
    have f4: "cache_find S4 = (cache_find S1)(pos \<mapsto> m, ?nxt := None)"
      using nul(2) True by (auto simp: S4_def S3_def fun_eq_iff)
    have b4: "base S4 = base S1" "base S4 = base S" using base2 S1 by (simp_all add: S4_def S3_def)
    have ch4: "child m = (child cur)(c := None)" by (simp add: m_def child_erase)
    note l4 = lookup_drop_child [OF cur1 S1(4) nul(1) [OF True] f4 ch4 b4(1)]
    have "node_claims e = []" "node_claims m = node_claims cur"
      using nul(1) True by (auto simp: node_empty_def m_def set_children_def)
    then have "claims_at S4 = claims_at S1"
      unfolding claims_at_def l4 using cur1 S1(4) by (auto simp: fun_eq_iff)
    then have c4: "claims_at S4 = claims_at S" using S1 by simp
    have link4: "linked S4" by (rule linked_drop_child [OF S1(1) cur1 S1(4) nul(1) [OF True] f4 ch4 b4(1)])
    have pre4: "cache_find S4 q = cache_find S q" if "length q < length pos" for q
      using that pre1 [of q] by (auto simp: f4)
    have at4: "lookup S4 pos = Some m" "True = (cache_find S4 pos \<noteq> None)" by (simp_all add: l4 f4)
    have "recursivePruneName cur cached pos (c # cs) S = prune_self m True pos S4"
      using ch flag2 True by (cases "cache_find S2 pos") (auto simp: sel rec S4_def S3_def m_def Let_def)
    then show ?thesis using prune_self_pruned [OF link4 b4(2) c4 pre4 at4] by simp
  qed
qed

lemma pruned_root:
  assumes "pruned S S' [] nul"
  shows "claims_at S' = claims_at S \<and> linked S' \<and> base S' = base S"
proof -
  obtain S1 where S1: "linked S1" "base S1 = base S" "claims_at S1 = claims_at S"
    "cache_find S' = cache_find S1" and b: "base S' = base S"
    using assms by (auto simp: pruned_def split: if_splits)
  then have "lookup S' = lookup S1" "linked S'" using lookup_cong [of S' S1] linked_cong [of S' S1] by simp_all
  then show ?thesis using S1(3) b by (simp add: claims_at_def fun_eq_iff)
qed

subsection \<open>Removing a claim\<close>

lemma find_walk_ok:
  assumes "walk_at S cur cached pos" and "linked S" and "lookup S (pos @ cs) \<noteq> None"
  shows "\<exists>n b. find_walk S cur cached pos cs = Some (n, b) \<and> walk_at S n b (pos @ cs)"
  using assms
proof (induction cs arbitrary: cur cached pos)
  case Nil
  then show ?case by auto
next
  case (Cons c cs)
  show ?case
  proof (cases "cache_find S (pos @ [c])")
    case (Some n)
    then show ?thesis using Cons.IH [OF walk_at_cached [OF Some] Cons.prems(2)] Cons.prems(3) by simp
  next
    case None
    have "lookup S ((pos @ [c]) @ cs) = None" if "child cur c = None"
    proof (induction cs rule: rev_induct)
      case Nil
      then show ?case using that None Cons.prems(1) by (simp add: walk_at_def lookup_uncached)
    next
      case (snoc d ds)
      then show ?case using linked_child [OF Cons.prems(2), of "(pos @ [c]) @ ds" d]
        by (cases "lookup S (((pos @ [c]) @ ds) @ [d])") auto
    qed
    then obtain n where n: "child cur c = Some n" using Cons.prems(3) by auto
    then show ?thesis
      using Cons.IH [OF walk_at_child [OF Cons.prems(1) None n] Cons.prems(2)] Cons.prems(3) None by simp
  qed
qed

lemma linked_mark [simp]: "linked (mark_dirty p S) = linked S" "linked (check_takeover p S) = linked S"
  by (rule linked_cong; simp)+

lemma removeClaimFromTrie_base:
  assumes "linked S" and "remove_first (\<lambda>c. claim_outPoint c = op) (claims_at S name) = Some (claim, rest)"
  shows "\<exists>S'. removeClaimFromTrie name op chk S = (S', Some claim, True) \<and> linked S' \<and> base S' = base S \<and>
    claims_at S' = (claims_at S)(name := (if rest = [] then [] else settled (supports_of S name) rest))"
proof -
  have "lookup S name \<noteq> None" using assms(2) by (cases "lookup S name") (auto simp: claims_at_def)
  then obtain n b where w: "find_walk S (fst (start_node S)) (snd (start_node S)) [] name = Some (n, b)"
    and at: "walk_at S n b name"
    using find_walk_ok [OF walk_at_start assms(1), of name] by auto
  have cl: "claims_at S name = node_claims n" using at by (simp add: walk_at_def claims_at_def)
  then have rem: "node_removeClaim n op = Some (set_claims rest n, claim)" and ne: "node_claims n \<noteq> []"
    using assms(2) by (auto simp: node_removeClaim_def)
  define S2 where "S2 = (if cache_find S name \<noteq> None then S else addNodeToCache name n S)"
  have f2: "cache_find S2 = (cache_find S)(name \<mapsto> n)" and b2: "base S2 = base S" and s2: "supports_of S2 = supports_of S"
    using at by (auto simp: S2_def walk_at_def fun_eq_iff lookup_cached)
  have l2: "lookup S2 = lookup S" using lookup_copy [OF _ f2 b2] at by (simp add: walk_at_def)
  have at2: "walk_at S2 n True name" by (simp add: walk_at_def f2 lookup_cached)
  have link2: "linked S2" using linked_put [OF assms(1) _ f2 b2 refl] at by (simp add: walk_at_def)
  define n2 where "n2 = (if rest = [] then set_claims rest n
    else node_reorderClaims (set_claims rest n) (supports_of S name))"
  define S3 where "S3 = cache_put name n2 S2"
  have ch2: "child n2 = child n" by (auto simp: n2_def)
  have cl2: "node_claims n2 = (if rest = [] then [] else settled (supports_of S name) rest)"
    by (simp add: n2_def reorder_settled)
  have c3: "claims_at S3 = (claims_at S)(name := node_claims n2)"
    unfolding S3_def using claims_at_put [OF at2 ch2] by (simp add: claims_at_def fun_eq_iff l2)
  have link3: "linked S3"
    using linked_put [OF link2, of name n S3 n2] at2 ch2 by (simp add: walk_at_def S3_def)
  obtain fChanged where eq: "removeClaimFromTrie name op chk S =
     (let S = (if fChanged then mark_dirty name S3 else S3);
          S = (if fChanged \<and> chk then check_takeover name S else S);
          (rootNode, root_cached) = start_node S
      in (case recursivePruneName rootNode root_cached [] name S of (S, ok, _) \<Rightarrow> (S, Some claim, ok)))"
  proof -
    obtain top cs where top: "node_claims n = top # cs" using ne by (cases "node_claims n") auto
    have sel: "(if cache_find S name \<noteq> None then S else addNodeToCache name n S) = S2" by (simp add: S2_def)
    have guard: "(cache_find S name \<noteq> None \<and> \<not> b) = False" using at by (auto simp: walk_at_def)
    show thesis
      by (rule that [of "if rest \<noteq> [] then \<not> claim_eq top (hd (node_claims n2)) else True"],
          unfold removeClaimFromTrie_def w option.case prod.case guard sel Let_def top list.case rem if_False)
        (simp add: S3_def n2_def s2)
  qed
  define S4 where "S4 = (let S = (if fChanged then mark_dirty name S3 else S3)
      in (if fChanged \<and> chk then check_takeover name S else S))"
  have S4: "linked S4" "claims_at S4 = claims_at S3" "cache_find S4 = cache_find S3" "base S4 = base S"
    using link3 b2 by (simp_all add: S4_def S3_def Let_def)
  have "lookup S4 ([] @ name) \<noteq> None"
    using S4(3) by (simp add: S3_def lookup_cached [of S4 name n2])
  then obtain S' nul where p: "recursivePruneName (fst (start_node S4)) (snd (start_node S4)) [] name S4 = (S', True, nul)"
    "pruned S4 S' [] nul"
    using recursivePruneName_pruned [OF S4(1) walk_at_start] by blast
  have "removeClaimFromTrie name op chk S = (S', Some claim, True)"
    using p(1) unfolding eq by (simp add: S4_def Let_def case_prod_beta)
  then show ?thesis using pruned_root [OF p(2)] S4(2,4) c3 cl2 by auto
qed

text \<open>
  C11. In a linked cache \<open>removeClaimFromTrie\<close> of a claim that its name has succeeds and returns
  the first claim with that outpoint; the other claims of the name stay and are put in order
  again, the nodes left empty are pruned, no other name sees any change, and the cache is
  linked again.
\<close>

theorem removeClaimFromTrie_removes:
  assumes "linked S" and "remove_first (\<lambda>c. claim_outPoint c = op) (claims_at S name) = Some (claim, rest)"
  shows "\<exists>S'. removeClaimFromTrie name op chk S = (S', Some claim, True) \<and> linked S' \<and>
    claims_at S' = (claims_at S)(name := (if rest = [] then [] else settled (supports_of S name) rest))"
  using removeClaimFromTrie_base [OF assms, of chk] by blast

lemma insertClaimIntoTrie_keeps_linked:
  assumes "linked S"
  shows "linked (fst (insertClaimIntoTrie name claim chk S))"
proof -
  obtain S1 r where w: "insert_walk S (fst (start_node S)) (snd (start_node S)) [] name = (S1, r)" by force
  obtain n b where r: "r = Some (n, b)" and n: "walk_at S1 n b name"
    using insert_walk_ok [OF walk_at_start w] by auto
  have link1: "linked S1" using insert_walk_linked [OF assms walk_at_start, of name] w by simp
  define S2 where "S2 = (if cache_find S1 name \<noteq> None then S1 else addNodeToCache name n S1)"
  have f2: "cache_find S2 = (cache_find S1)(name \<mapsto> n)" and b2: "base S2 = base S1"
    using n by (auto simp: S2_def walk_at_def fun_eq_iff lookup_cached)
  have link2: "linked S2" using linked_put [OF link1 _ f2 b2 refl] n by (simp add: walk_at_def)
  have l2: "lookup S2 name = Some n" using f2 by (simp add: lookup_cached)
  have put: "linked (cache_put name m S2)" if "child m = child n" for m
    using linked_put [OF link2 l2 _ _ that, of "cache_put name m S2"] by simp
  have guard: "(cache_find S1 name \<noteq> None \<and> \<not> b) = False" using n by (auto simp: walk_at_def)
  have sel: "(if cache_find S1 name \<noteq> None then S1 else addNodeToCache name n S1) = S2" by (simp add: S2_def)
  have ins: "linked (cache_put name (node_insertClaim n claim) S2)"
    and reo: "linked (cache_put name (node_reorderClaims (node_insertClaim n claim) sps) S2)" for sps
    by (rule put; simp add: node_insertClaim_def)+
  show ?thesis
    unfolding insertClaimIntoTrie_def w r option.case prod.case guard sel Let_def if_False
    by (cases "node_claims n") (simp_all add: ins reo)
qed

text \<open>
  A claim inserted into a linked cache leaves it linked; with the property of the removal,
  every cache that such operations make from an empty one is linked.
\<close>

theorem insertClaimIntoTrie_linked:
  assumes "linked S"
  shows "linked (fst (insertClaimIntoTrie name claim chk S))"
  by (rule insertClaimIntoTrie_keeps_linked [OF assms])

definition sample_db :: ClaimDB where
  "sample_db = \<lparr>db_hashBlock = None, db_nCurrentHeight = None, db_nodes = Map.empty, db_claimById = Map.empty,
     db_queueRows = Map.empty, db_queueNameRows = Map.empty, db_expirationRows = Map.empty,
     db_supports = Map.empty, db_supportQueueRows = Map.empty, db_supportQueueNameRows = Map.empty,
     db_supportExpirationRows = Map.empty, db_junk = 0\<rparr>"

definition sample_cache :: CClaimTrieCache where
  "sample_cache = CClaimTrieCache_init (CClaimTrie_init sample_db 32) True"

lemma sample_cache_simps [simp]: "cache sample_cache = []" "fRequireTakeoverHeights sample_cache = True"
  "supports_of sample_cache name = []"
  by (simp_all add: sample_cache_def CClaimTrieCache_init_def supports_of_def getSupportsForName_def
      getSupportNode_def CClaimTrie_init_def sample_db_def)

lemma claims_at_sample: "claims_at sample_cache name = []"
proof (induction name rule: rev_induct)
  case Nil
  then show ?case by (simp add: claims_at_def lookup_Nil start_node_def cache_find_def)
      (simp add: sample_cache_def CClaimTrieCache_init_def CClaimTrie_init_def)
next
  case (snoc c name)
  have "lookup sample_cache (p @ [c]) = None" for p c
  proof (induction p arbitrary: c rule: rev_induct)
    case Nil
    then show ?case using lookup_snoc [of sample_cache "[]" c]
      by (simp add: lookup_step_def lookup_Nil start_node_def cache_find_def)
        (simp add: sample_cache_def CClaimTrieCache_init_def CClaimTrie_init_def child_def)
  next
    case (snoc d p)
    then show ?case using lookup_snoc [of sample_cache "p @ [d]" c]
      by (simp add: lookup_step_def cache_find_def)
  qed
  then show ?case by (simp add: claims_at_def)
qed

lemma insertClaimIntoTrie_linked_witness:
  "linked (fst (insertClaimIntoTrie ''ab'' (sample_claim 1 5) False sample_cache))"
  by (rule insertClaimIntoTrie_linked [OF linked_init]) simp

lemma removeClaimFromTrie_removes_witness:
  "\<exists>S'. removeClaimFromTrie ''ab'' (claim_outPoint (sample_claim 1 5)) True
      (fst (insertClaimIntoTrie ''ab'' (sample_claim 1 5) False sample_cache)) = (S', Some (sample_claim 1 5), True) \<and>
    claims_at S' ''ab'' = []"
proof -
  obtain S where S: "insertClaimIntoTrie ''ab'' (sample_claim 1 5) False sample_cache = (S, True)"
    and c: "claims_at S ''ab'' = [sample_claim 1 5]"
    using insertClaimIntoTrie_keeps [of "''ab''" "sample_claim 1 5" False sample_cache] by (auto simp: claims_at_sample)
  have "linked (fst (insertClaimIntoTrie ''ab'' (sample_claim 1 5) False sample_cache))"
    by (rule insertClaimIntoTrie_keeps_linked [OF linked_init]) simp
  then have "linked S" by (simp only: S fst_conv)
  from removeClaimFromTrie_removes [OF this, of "claim_outPoint (sample_claim 1 5)" "''ab''" "sample_claim 1 5" "[]" True]
  show ?thesis using S c by auto
qed

subsection \<open>Reordering a name that was pruned\<close>

definition stale_cache :: CClaimTrieCache where
  "stale_cache = CClaimTrieCache_init ((CClaimTrie_init sample_db 32)\<lparr>trie_root :=
     Node zero_hash [(CHR ''a'', Node zero_hash [] 0 [sample_claim 1 5])] 0 []\<rparr>) True"

definition stale_removed :: "CClaimTrieCache \<times> CClaimValue option \<times> bool" where
  "stale_removed = removeClaimFromTrie ''a'' (claim_outPoint (sample_claim 1 5)) True stale_cache"

lemma stale_removed: "fst (snd stale_removed) = Some (sample_claim 1 5)"
    "cache (fst stale_removed) = [([], Node zero_hash [] 0 [])]"
  by code_simp+

text \<open>Where no node of the name is cached, the walk is the one of the base trie.\<close>

lemma find_walk_uncached:
  assumes "\<And>k. 0 < k \<Longrightarrow> k \<le> length cs \<Longrightarrow> cache_find S (pos @ take k cs) = None"
  shows "map_option fst (find_walk S cur cached pos cs) = getNodeForName_from cur cs"
  using assms
proof (induction cs arbitrary: cur cached pos)
  case (Cons c cs)
  have "cache_find S (pos @ [c]) = None" using Cons.prems [of 1] by simp
  moreover have "cache_find S ((pos @ [c]) @ take k cs) = None" if "0 < k" "k \<le> length cs" for k
    using Cons.prems [of "Suc k"] that by simp
  ultimately show ?case using Cons.IH by (simp split: option.splits)
qed simp

lemma reorderTrieNode_uncached:
  assumes "\<And>k. 0 < k \<Longrightarrow> k \<le> length name \<Longrightarrow> cache_find S (take k name) = None" "name \<noteq> []"
    and "getNodeForName (base S) name = Some n" "node_claims n \<noteq> []"
  shows "claims_at (fst (reorderTrieNode name chk S)) name = settled (supports_of S name) (node_claims n)"
proof -
  have "map_option fst (find_walk S (trie_root (base S)) False [] name) = Some n"
    using find_walk_uncached [of name S "[]"] assms(1,3) by (simp add: getNodeForName_def)
  then obtain b where w: "find_walk S (trie_root (base S)) False [] name = Some (n, b)" by auto
  have u: "cache_find S name = None" using assms(1) [of "length name"] assms(2) by simp
  obtain S' where "fst (reorderTrieNode name chk S) = S'"
    "cache_find S' = (cache_find S)(name \<mapsto> node_reorderClaims n (supports_of S name))"
    using assms(4) by (cases "node_claims n") (auto simp: reorderTrieNode_def u w Let_def)
  then show ?thesis by (simp add: claims_at_def lookup_cached reorder_settled)
qed

text \<open>
  C28. \<open>reorderTrieNode\<close> starts its walk at the root of the base trie also when the cache holds
  another root.  When the only claim of a name has been spent in a linked cache and the removal
  pruned the nodes of the name up to the root, the name has no claims; but reordering the name, which
  is what adding or removing a support does, copies the node of the base back into the cache, and the
  claim that was spent is among the claims of the name again.
\<close>

theorem reorderTrieNode_brings_back:
  assumes "linked S" "name \<noteq> []" "remove_first (\<lambda>c. claim_outPoint c = op) (claims_at S name) = Some (claim, [])"
    and "getNodeForName (base S) name = Some n" "op \<in> claim_outPoint ` set (node_claims n)"
    and "removeClaimFromTrie name op chk S = (S1, removed)"
    and "\<And>k. 0 < k \<Longrightarrow> k \<le> length name \<Longrightarrow> cache_find S1 (take k name) = None"
  shows "removed = (Some claim, True) \<and> claims_at S1 name = [] \<and>
    op \<in> claim_outPoint ` set (claims_at (fst (reorderTrieNode name chk' S1)) name)"
proof -
  have r: "removed = (Some claim, True)" "base S1 = base S" "claims_at S1 name = []"
    using removeClaimFromTrie_base [OF assms(1,3), of chk] assms(6) by auto
  have "node_claims n \<noteq> []" using assms(5) by auto
  from reorderTrieNode_uncached [OF assms(7,2) _ this] r(2) assms(4)
  have "claims_at (fst (reorderTrieNode name chk' S1)) name = settled (supports_of S1 name) (node_claims n)" by simp
  moreover have "claim_outPoint ` set (settled sps cl) = claim_outPoint ` set cl" for sps cl
    using settled_outpoints [of sps cl] mset_eq_setD by fastforce
  ultimately show ?thesis using r assms(5) by simp
qed

lemma stale_linked: "linked stale_cache"
  by (rule linked_init) (simp add: stale_cache_def CClaimTrieCache_init_def)

lemma reorderTrieNode_brings_back_witness:
  "claims_at (fst stale_removed) ''a'' = [] \<and>
   claim_outPoint (sample_claim 1 5) \<in> claim_outPoint ` set (claims_at (fst (reorderTrieNode ''a'' True (fst stale_removed))) ''a'')"
proof -
  have f: "cache_find stale_cache = Map.empty"
    by (simp add: stale_cache_def CClaimTrieCache_init_def cache_find_def fun_eq_iff)
  have b: "trie_root (base stale_cache) = Node zero_hash [(CHR ''a'', Node zero_hash [] 0 [sample_claim 1 5])] 0 []"
    by (simp add: stale_cache_def CClaimTrieCache_init_def)
  have c: "claims_at stale_cache ''a'' = [sample_claim 1 5]"
    using lookup_snoc [of stale_cache "[]" "CHR ''a''"]
    by (simp add: claims_at_def lookup_Nil lookup_step_def start_node_def f b child_def)
  have n: "getNodeForName (base stale_cache) ''a'' = Some (Node zero_hash [] 0 [sample_claim 1 5])"
    by (simp add: getNodeForName_def b child_def)
  have r: "removeClaimFromTrie ''a'' (claim_outPoint (sample_claim 1 5)) True stale_cache = (fst stale_removed, snd stale_removed)"
    by (simp add: stale_removed_def)
  have "cache_find (fst stale_removed) (take k ''a'') = None" if "0 < k" "k \<le> length ''a''" for k
    using that stale_removed by (simp add: cache_find_def)
  from reorderTrieNode_brings_back [OF stale_linked _ _ n _ r this, of "sample_claim 1 5" True] show ?thesis by (simp add: c)
qed

end
