(* ===== verification/ClaimQueues.thy ===== *)
theory ClaimQueues
  imports ClaimLookup
begin

text \<open>
  The queues of a cache: what a row holds through the cache, the dirty rows and the database
  (the contract \<open>row_cache\<close>, with the six row accessors of \<open>CClaimTrieCache\<close> as its
  interpretations), and the agreement of the rows by height with the rows by name.
\<close>


subsection \<open>Rows of a cache over a base\<close>

text \<open>What a row holds: the cached row, or the one of the base, or nothing.\<close>

definition row_view :: "('k \<Rightarrow> 'r list option) \<Rightarrow> ('k \<Rightarrow> 'r list option) \<Rightarrow> 'k \<Rightarrow> 'r list" where
  "row_view rows stored k = (case rows k of
      Some r \<Rightarrow> r | None \<Rightarrow> (case stored k of Some r \<Rightarrow> r | None \<Rightarrow> []))"

lemma row_view_upd [simp]: "row_view (rows(k \<mapsto> r)) stored = (row_view rows stored)(k := r)"
  by (simp add: fun_eq_iff row_view_def)

definition claim_row :: "CClaimTrieCache \<Rightarrow> int \<Rightarrow> claimQueueRowType" where
  "claim_row S = row_view (claimQueueCache S) (getQueueRow (base S))"

definition claim_name_row :: "CClaimTrieCache \<Rightarrow> string \<Rightarrow> queueNameRowType" where
  "claim_name_row S = row_view (claimQueueNameCache S) (getQueueNameRow (base S))"

definition expiration_row :: "CClaimTrieCache \<Rightarrow> int \<Rightarrow> expirationQueueRowType" where
  "expiration_row S = row_view (expirationQueueCache S) (getExpirationQueueRow (base S))"

definition support_row :: "CClaimTrieCache \<Rightarrow> int \<Rightarrow> supportQueueRowType" where
  "support_row S = row_view (supportQueueCache S) (getSupportQueueRow (base S))"

definition support_name_row :: "CClaimTrieCache \<Rightarrow> string \<Rightarrow> queueNameRowType" where
  "support_name_row S = row_view (supportQueueNameCache S) (getSupportQueueNameRow (base S))"

definition support_expiration_row :: "CClaimTrieCache \<Rightarrow> int \<Rightarrow> expirationQueueRowType" where
  "support_expiration_row S = row_view (supportExpirationQueueCache S) (getSupportExpirationQueueRow (base S))"

lemmas view_defs = claim_row_def claim_name_row_def expiration_row_def support_row_def
  support_name_row_def support_expiration_row_def

text \<open>
  The contract of a cached queue: getting a row never changes what any row holds, yields what
  the row holds, and finds nothing only when the row is empty and need not be created.
\<close>

locale row_cache =
  fixes get :: "'k \<Rightarrow> bool \<Rightarrow> 's \<Rightarrow> 's \<times> 'r list option"
    and put :: "'k \<Rightarrow> 'r list \<Rightarrow> 's \<Rightarrow> 's"
    and view :: "'s \<Rightarrow> 'k \<Rightarrow> 'r list"
  assumes get_view: "view (fst (get k c S)) = view S"
    and get_row: "snd (get k c S) = Some r \<Longrightarrow> r = view S k"
    and get_none: "snd (get k c S) = None \<Longrightarrow> \<not> c \<and> view S k = []"
    and put_view: "view (put k r S) = (view S)(k := r)"
begin

lemma get_create: "snd (get k True S) = Some (view S k)"
  using get_none [of k True S] get_row [of k True S] by (cases "snd (get k True S)") auto

lemma get_cases:
  obtains S' where "get k c S = (S', None)" and "view S' = view S" and "view S k = []" and "\<not> c"
  | S' where "get k c S = (S', Some (view S k))" and "view S' = view S"
  using get_view [of k c S] get_row [of k c S] get_none [of k c S]
  by (cases "get k c S"; cases "snd (get k c S)") auto

lemma append_view: "view (case get k True S of (S, None) \<Rightarrow> S | (S, Some row) \<Rightarrow> put k (row @ [e]) S) =
    (view S)(k := view S k @ [e])"
  using get_create [of k S] get_view [of k True S] by (cases "get k True S") (simp add: put_view)

lemma replace_view: "view (put k r (fst (get k c S))) = (view S)(k := r)"
  by (simp add: put_view get_view)

end

lemmas row_get_defs = getQueueCacheRow_def getQueueCacheNameRow_def getExpirationQueueCacheRow_def
  getSupportQueueCacheRow_def getSupportQueueCacheNameRow_def getSupportExpirationQueueCacheRow_def

lemmas row_put_defs = set_queue_row_def set_queue_name_row_def set_expiration_row_def
  set_support_queue_row_def set_support_queue_name_row_def set_support_expiration_row_def

interpretation claim_rows: row_cache getQueueCacheRow set_queue_row claim_row
  by unfold_locales (auto simp: row_get_defs row_put_defs view_defs row_view_def fun_eq_iff split: option.splits if_splits)

interpretation claim_name_rows: row_cache getQueueCacheNameRow set_queue_name_row claim_name_row
  by unfold_locales (auto simp: row_get_defs row_put_defs view_defs row_view_def fun_eq_iff split: option.splits if_splits)

interpretation expiration_rows: row_cache getExpirationQueueCacheRow set_expiration_row expiration_row
  by unfold_locales (auto simp: row_get_defs row_put_defs view_defs row_view_def fun_eq_iff split: option.splits if_splits)

interpretation support_rows: row_cache getSupportQueueCacheRow set_support_queue_row support_row
  by unfold_locales (auto simp: row_get_defs row_put_defs view_defs row_view_def fun_eq_iff split: option.splits if_splits)

interpretation support_name_rows: row_cache getSupportQueueCacheNameRow set_support_queue_name_row support_name_row
  by unfold_locales (auto simp: row_get_defs row_put_defs view_defs row_view_def fun_eq_iff split: option.splits if_splits)

interpretation support_expiration_rows: row_cache getSupportExpirationQueueCacheRow
    set_support_expiration_row support_expiration_row
  by unfold_locales (auto simp: row_get_defs row_put_defs view_defs row_view_def fun_eq_iff split: option.splits if_splits)

text \<open>Getting and setting a row of one queue leaves everything else.\<close>

lemma get_frame [simp]:
  "claim_name_row (fst (getQueueCacheRow h c S)) = claim_name_row S"
  "expiration_row (fst (getQueueCacheRow h c S)) = expiration_row S"
  "claim_row (fst (getQueueCacheNameRow name c S)) = claim_row S"
  "expiration_row (fst (getQueueCacheNameRow name c S)) = expiration_row S"
  "claim_row (fst (getExpirationQueueCacheRow h c S)) = claim_row S"
  "claim_name_row (fst (getExpirationQueueCacheRow h c S)) = claim_name_row S"
  "support_name_row (fst (getSupportQueueCacheRow h c S)) = support_name_row S"
  "support_expiration_row (fst (getSupportQueueCacheRow h c S)) = support_expiration_row S"
  "support_row (fst (getSupportQueueCacheNameRow name c S)) = support_row S"
  "support_expiration_row (fst (getSupportQueueCacheNameRow name c S)) = support_expiration_row S"
  "support_row (fst (getSupportExpirationQueueCacheRow h c S)) = support_row S"
  "support_name_row (fst (getSupportExpirationQueueCacheRow h c S)) = support_name_row S"
  by (auto simp: row_get_defs view_defs split: option.splits)

lemma put_frame [simp]:
  "claim_name_row (set_queue_row h r S) = claim_name_row S"
  "expiration_row (set_queue_row h r S) = expiration_row S"
  "claim_row (set_queue_name_row name r' S) = claim_row S"
  "expiration_row (set_queue_name_row name r' S) = expiration_row S"
  "claim_row (set_expiration_row h e S) = claim_row S"
  "claim_name_row (set_expiration_row h e S) = claim_name_row S"
  "support_name_row (set_support_queue_row h s S) = support_name_row S"
  "support_expiration_row (set_support_queue_row h s S) = support_expiration_row S"
  "support_row (set_support_queue_name_row name r' S) = support_row S"
  "support_expiration_row (set_support_queue_name_row name r' S) = support_expiration_row S"
  "support_row (set_support_expiration_row h e S) = support_row S"
  "support_name_row (set_support_expiration_row h e S) = support_name_row S"
  by (simp_all add: row_put_defs view_defs)

lemma get_base [simp]:
  "base (fst (getQueueCacheRow h c S)) = base S"
  "base (fst (getQueueCacheNameRow name c S)) = base S"
  "base (fst (getExpirationQueueCacheRow h c S)) = base S"
  "base (fst (getSupportQueueCacheRow h c S)) = base S"
  "base (fst (getSupportQueueCacheNameRow name c S)) = base S"
  "base (fst (getSupportExpirationQueueCacheRow h c S)) = base S"
  "base (set_queue_row h r S) = base S"
  "base (set_queue_name_row name r' S) = base S"
  "base (set_expiration_row h e S) = base S"
  "base (set_support_queue_row h s S) = base S"
  "base (set_support_queue_name_row name r' S) = base S"
  "base (set_support_expiration_row h e S) = base S"
  by (auto simp: row_get_defs row_put_defs split: option.splits)

lemma get_height [simp]:
  "cache_nCurrentHeight (fst (getQueueCacheRow h c S)) = cache_nCurrentHeight S"
  "cache_nCurrentHeight (fst (getQueueCacheNameRow name c S)) = cache_nCurrentHeight S"
  "cache_nCurrentHeight (fst (getExpirationQueueCacheRow h c S)) = cache_nCurrentHeight S"
  "cache_nCurrentHeight (set_queue_row h r S) = cache_nCurrentHeight S"
  "cache_nCurrentHeight (set_queue_name_row name r' S) = cache_nCurrentHeight S"
  "cache_nCurrentHeight (set_expiration_row h e S) = cache_nCurrentHeight S"
  by (auto simp: row_get_defs row_put_defs split: option.splits)

subsection \<open>Adding a claim to the queues and taking it out\<close>

definition queue_entry :: "CClaimValue \<Rightarrow> outPointHeightType" where
  "queue_entry claim = \<lparr>oph_outPoint = claim_outPoint claim, oph_nHeight = claim_nValidAtHeight claim\<rparr>"

lemma addToExpirationQueue_views:
  "expiration_row (addToExpirationQueue h e S) = (expiration_row S)(h := expiration_row S h @ [e])"
  "claim_row (addToExpirationQueue h e S) = claim_row S"
  "claim_name_row (addToExpirationQueue h e S) = claim_name_row S"
  "base (addToExpirationQueue h e S) = base S"
proof -
  obtain S' where g: "getExpirationQueueCacheRow h True S = (S', Some (expiration_row S h))"
    and v: "expiration_row S' = expiration_row S"
    by (rule expiration_rows.get_cases [of h True S]) auto
  have "S' = fst (getExpirationQueueCacheRow h True S)" by (simp add: g)
  then have f: "claim_row S' = claim_row S" "claim_name_row S' = claim_name_row S" "base S' = base S"
    by simp_all
  show "expiration_row (addToExpirationQueue h e S) = (expiration_row S)(h := expiration_row S h @ [e])"
    by (simp only: addToExpirationQueue_def expiration_rows.append_view)
  show "claim_row (addToExpirationQueue h e S) = claim_row S"
    "claim_name_row (addToExpirationQueue h e S) = claim_name_row S"
    "base (addToExpirationQueue h e S) = base S"
    by (simp_all add: addToExpirationQueue_def g f)
qed

lemma addClaimToQueues_views:
  "claim_row (addClaimToQueues name claim S) = (claim_row S)(claim_nValidAtHeight claim :=
     claim_row S (claim_nValidAtHeight claim) @ [(name, claim)])"
  "claim_name_row (addClaimToQueues name claim S) = (claim_name_row S)(name :=
     claim_name_row S name @ [queue_entry claim])"
  "expiration_row (addClaimToQueues name claim S) =
     (let h = claim_nHeight claim + trie_nExpirationTime (base S) in (expiration_row S)(h :=
       expiration_row S h @ [\<lparr>nop_name = name, nop_outPoint = claim_outPoint claim\<rparr>]))"
  "base (addClaimToQueues name claim S) = base S"
proof -
  let ?v = "claim_nValidAtHeight claim"
  obtain S1 where g1: "getQueueCacheRow ?v True S = (S1, Some (claim_row S ?v))" and v1: "claim_row S1 = claim_row S"
    by (rule claim_rows.get_cases [of ?v True S]) auto
  have S1: "S1 = fst (getQueueCacheRow ?v True S)" by (simp add: g1)
  obtain S2 where g2: "getQueueCacheNameRow name True S1 = (S2, Some (claim_name_row S1 name))"
    and v2: "claim_name_row S2 = claim_name_row S1"
    by (rule claim_name_rows.get_cases [of name True S1]) auto
  have S2: "S2 = fst (getQueueCacheNameRow name True S1)" by (simp add: g2)
  have "claim_row S2 = claim_row S1" "expiration_row S2 = expiration_row S1" "base S2 = base S1"
    "claim_name_row S1 = claim_name_row S" "expiration_row S1 = expiration_row S" "base S1 = base S"
    unfolding S2 unfolding S1 by simp_all
  then have s: "claim_row S2 = claim_row S" "claim_name_row S1 = claim_name_row S" "claim_name_row S2 = claim_name_row S"
    "expiration_row S2 = expiration_row S" "base S2 = base S"
    by (simp_all add: v1 v2)
  have eq: "addClaimToQueues name claim S = addToExpirationQueue (claim_nHeight claim + trie_nExpirationTime (base S))
      \<lparr>nop_name = name, nop_outPoint = claim_outPoint claim\<rparr>
      (set_queue_name_row name (claim_name_row S name @ [queue_entry claim])
        (set_queue_row ?v (claim_row S ?v @ [(name, claim)]) S2))"
    by (simp add: addClaimToQueues_def Let_def g1 g2 s queue_entry_def)
  show "claim_row (addClaimToQueues name claim S) = (claim_row S)(?v := claim_row S ?v @ [(name, claim)])"
    "claim_name_row (addClaimToQueues name claim S) = (claim_name_row S)(name := claim_name_row S name @ [queue_entry claim])"
    "expiration_row (addClaimToQueues name claim S) =
      (let h = claim_nHeight claim + trie_nExpirationTime (base S) in (expiration_row S)(h :=
       expiration_row S h @ [\<lparr>nop_name = name, nop_outPoint = claim_outPoint claim\<rparr>]))"
    "base (addClaimToQueues name claim S) = base S"
    by (simp_all add: eq addToExpirationQueue_views claim_rows.put_view claim_name_rows.put_view s Let_def)
qed

lemma removeClaimFromQueue_views:
  assumes "remove_first (\<lambda>e. oph_outPoint e = op) (claim_name_row S name) = Some (e, names)"
    and "remove_first (\<lambda>(n, c). name = n \<and> claim_outPoint c = op) (claim_row S (oph_nHeight e)) =
      Some ((n, claim), row)"
  shows "\<exists>S'. removeClaimFromQueue name op S = (S', Some claim) \<and> base S' = base S \<and>
    claim_row S' = (claim_row S)(oph_nHeight e := row) \<and>
    claim_name_row S' = (claim_name_row S)(name := names) \<and> expiration_row S' = expiration_row S"
proof -
  have ne: "claim_name_row S name \<noteq> []" "claim_row S (oph_nHeight e) \<noteq> []" using assms by auto
  obtain S1 where g1: "getQueueCacheNameRow name False S = (S1, Some (claim_name_row S name))"
    and v1: "claim_name_row S1 = claim_name_row S"
    by (rule claim_name_rows.get_cases [of name False S]) (use ne in auto)
  have S1: "S1 = fst (getQueueCacheNameRow name False S)" by (simp add: g1)
  have s1: "claim_row S1 = claim_row S" "expiration_row S1 = expiration_row S" "base S1 = base S"
    unfolding S1 by simp_all
  obtain S2 where g2: "getQueueCacheRow (oph_nHeight e) False S1 = (S2, Some (claim_row S (oph_nHeight e)))"
    and v2: "claim_row S2 = claim_row S"
    by (rule claim_rows.get_cases [of "oph_nHeight e" False S1]) (use ne s1 in auto)
  have S2: "S2 = fst (getQueueCacheRow (oph_nHeight e) False S1)" by (simp add: g2)
  have s2: "claim_name_row S2 = claim_name_row S" "expiration_row S2 = expiration_row S" "base S2 = base S"
    unfolding S2 by (simp_all add: s1 v1)
  have "removeClaimFromQueue name op S =
     (set_queue_row (oph_nHeight e) row (set_queue_name_row name names S2), Some claim)"
    using assms by (simp add: removeClaimFromQueue_def g1 g2)
  then show ?thesis by (simp add: claim_rows.put_view claim_name_rows.put_view s2 v2)
qed

text \<open>
  The two queues agree: a name row lists exactly the outpoints and heights of the claims of the
  name in the height rows, and a claim is queued for the height at which it is valid.
\<close>

definition rows_agree :: "(int \<Rightarrow> claimQueueRowType) \<Rightarrow> (string \<Rightarrow> queueNameRowType) \<Rightarrow> bool" where
  "rows_agree crow nrow \<longleftrightarrow>
     (\<forall>name op h. count (mset (nrow name)) \<lparr>oph_outPoint = op, oph_nHeight = h\<rparr> =
        count (image_mset (map_prod id claim_outPoint) (mset (crow h))) (name, op)) \<and>
     (\<forall>h. \<forall>(name, claim) \<in> set (crow h). claim_nValidAtHeight claim = h)"

definition queues_agree :: "CClaimTrieCache \<Rightarrow> bool" where
  "queues_agree S \<longleftrightarrow> rows_agree (claim_row S) (claim_name_row S)"

lemma rows_agree_name_entry:
  assumes "rows_agree crow nrow" and "\<lparr>oph_outPoint = op, oph_nHeight = h\<rparr> \<in> set (nrow name)"
  shows "(name, op) \<in> map_prod id claim_outPoint ` set (crow h)"
proof -
  have "count (image_mset (map_prod id claim_outPoint) (mset (crow h))) (name, op) > 0"
    using assms by (metis (no_types, lifting) count_greater_zero_iff rows_agree_def set_mset_mset)
  then show ?thesis by (metis count_greater_zero_iff set_image_mset set_mset_mset)
qed

lemma rows_agree_claim_entry:
  assumes "rows_agree crow nrow" and "(name, claim) \<in> set (crow h)"
  shows "\<lparr>oph_outPoint = claim_outPoint claim, oph_nHeight = h\<rparr> \<in> set (nrow name)"
proof -
  have "(name, claim_outPoint claim) \<in> map_prod id claim_outPoint ` set (crow h)" using assms(2) by force
  then have "count (image_mset (map_prod id claim_outPoint) (mset (crow h))) (name, claim_outPoint claim) > 0"
    by (metis count_greater_zero_iff set_image_mset set_mset_mset)
  then have "count (mset (nrow name)) \<lparr>oph_outPoint = claim_outPoint claim, oph_nHeight = h\<rparr> > 0"
    using assms(1) by (simp only: rows_agree_def)
  then show ?thesis by (metis count_greater_zero_iff set_mset_mset)
qed

lemma rows_agree_valid: "rows_agree crow nrow \<Longrightarrow> (name, claim) \<in> set (crow h) \<Longrightarrow> claim_nValidAtHeight claim = h"
  by (auto simp: rows_agree_def)

lemma rows_agree_find:
  assumes "rows_agree crow nrow" and "\<lparr>oph_outPoint = op, oph_nHeight = h\<rparr> \<in> set (nrow name)"
    and "\<And>n c. Q (n, c) \<longleftrightarrow> name = n \<and> claim_outPoint c = op \<and> (claim_nValidAtHeight c = h \<or> q)"
  shows "\<exists>claim row. remove_first Q (crow h) = Some ((name, claim), row) \<and> claim_outPoint claim = op \<and>
    claim_nValidAtHeight claim = h"
proof -
  have "(name, op) \<in> map_prod id claim_outPoint ` set (crow h)" by (rule rows_agree_name_entry [OF assms(1,2)])
  then obtain c where c: "(name, c) \<in> set (crow h)" "claim_outPoint c = op" by auto
  then have "Q (name, c)" using rows_agree_valid [OF assms(1) c(1)] by (simp add: assms(3))
  then have "remove_first Q (crow h) \<noteq> None" using c by (auto simp: remove_first_None)
  then obtain n claim row where r: "remove_first Q (crow h) = Some ((n, claim), row)" by auto
  then have "Q (n, claim)" "(n, claim) \<in> set (crow h)" using remove_first_Some [OF r] by auto
  then show ?thesis using r rows_agree_valid [OF assms(1)] by (simp add: assms(3))
qed

lemma rows_agree_add:
  "rows_agree crow nrow \<Longrightarrow>
   rows_agree (crow(claim_nValidAtHeight claim := crow (claim_nValidAtHeight claim) @ [(name, claim)]))
     (nrow(name := nrow name @ [queue_entry claim]))"
  unfolding rows_agree_def by (auto simp: queue_entry_def)

lemma rows_agree_remove:
  assumes "rows_agree crow nrow" and "mset (nrow name) = add_mset \<lparr>oph_outPoint = op, oph_nHeight = h\<rparr> (mset names)"
    and "mset (crow h) = add_mset (name, claim) (mset row)" and "claim_outPoint claim = op"
  shows "rows_agree (crow(h := row)) (nrow(name := names))"
proof -
  have c: "count (mset (nrow n)) \<lparr>oph_outPoint = p, oph_nHeight = k\<rparr> =
        count (image_mset (map_prod id claim_outPoint) (mset (crow k))) (n, p)" for n p k
    using assms(1) by (simp add: rows_agree_def)
  have "set row \<subseteq> set (crow h)" by (metis assms(3) set_mset_add_mset_insert set_mset_mset subset_insertI)
  then have sub: "set ((crow(h := row)) k) \<subseteq> set (crow k)" for k by simp
  have "\<forall>(n, c) \<in> set ((crow(h := row)) k). claim_nValidAtHeight c = k" for k
  proof -
    have "\<forall>(n, c) \<in> set (crow k). claim_nValidAtHeight c = k" using assms(1) by (simp add: rows_agree_def)
    then show ?thesis using sub [of k] by blast
  qed
  moreover have "count (mset ((nrow(name := names)) n)) \<lparr>oph_outPoint = p, oph_nHeight = k\<rparr> =
        count (image_mset (map_prod id claim_outPoint) (mset ((crow(h := row)) k))) (n, p)" for n p k
  proof -
    have "count (mset ((nrow(name := names)) n)) x = count (mset (nrow n)) x -
        (if n = name \<and> x = \<lparr>oph_outPoint = op, oph_nHeight = h\<rparr> then 1 else 0)" for x
      by (cases "n = name") (simp_all add: assms(2))
    moreover have "count (image_mset (map_prod id claim_outPoint) (mset ((crow(h := row)) k))) x =
        count (image_mset (map_prod id claim_outPoint) (mset (crow k))) x -
        (if k = h \<and> x = (name, op) then 1 else 0)" for x
      by (cases "k = h") (simp_all only: assms(3) fun_upd_same fun_upd_other image_mset_add_mset count_add_mset
        map_prod_simp id_apply assms(4) simp_thms if_True if_False diff_zero split: if_splits, simp_all)
    moreover have "(n = name \<and> \<lparr>oph_outPoint = p, oph_nHeight = k\<rparr> = \<lparr>oph_outPoint = op, oph_nHeight = h\<rparr>) =
        (k = h \<and> (n, p) = (name, op))" by auto
    ultimately show ?thesis by (simp only: c)
  qed
  ultimately show ?thesis unfolding rows_agree_def by (intro conjI allI) simp_all
qed

lemma removeClaimFromQueue_found:
  assumes "queues_agree S" and "e \<in> set (claim_name_row S name)" and "oph_outPoint e = op"
  shows "\<exists>S' claim. removeClaimFromQueue name op S = (S', Some claim) \<and> claim_outPoint claim = op \<and>
    queues_agree S'"
proof -
  have "remove_first (\<lambda>e. oph_outPoint e = op) (claim_name_row S name) \<noteq> None"
    using assms(2,3) by (auto simp: remove_first_None)
  then obtain f names where f: "remove_first (\<lambda>e. oph_outPoint e = op) (claim_name_row S name) = Some (f, names)"
    by auto
  define h where "h = oph_nHeight f"
  have f_eq: "f = \<lparr>oph_outPoint = op, oph_nHeight = h\<rparr>" "f \<in> set (claim_name_row S name)"
    using remove_first_Some [OF f] by (auto simp: h_def)
  have ag: "rows_agree (claim_row S) (claim_name_row S)" using assms(1) by (simp add: queues_agree_def)
  obtain claim row where r: "remove_first (\<lambda>(n, c). name = n \<and> claim_outPoint c = op) (claim_row S h) = Some ((name, claim), row)"
    and op: "claim_outPoint claim = op"
    using rows_agree_find [OF ag, of op h name "\<lambda>(n, c). name = n \<and> claim_outPoint c = op" True] f_eq by auto
  obtain S' where S': "removeClaimFromQueue name op S = (S', Some claim)"
    "claim_row S' = (claim_row S)(h := row)" "claim_name_row S' = (claim_name_row S)(name := names)"
    using removeClaimFromQueue_views [OF f] r by (auto simp: h_def)
  have "queues_agree S'"
    unfolding queues_agree_def S'
    by (rule rows_agree_remove [OF ag _ remove_first_mset [OF r] op]) (simp add: remove_first_mset [OF f] f_eq(1))
  then show ?thesis using S' op by blast
qed

lemma removeClaimFromQueue_missing:
  assumes "\<forall>e \<in> set (claim_name_row S name). oph_outPoint e \<noteq> op"
  shows "\<exists>S'. removeClaimFromQueue name op S = (S', None) \<and> claim_row S' = claim_row S \<and>
    claim_name_row S' = claim_name_row S"
proof -
  have r: "remove_first (\<lambda>e. oph_outPoint e = op) (claim_name_row S name) = None"
    using assms by (simp add: remove_first_None)
  define S1 where "S1 = fst (getQueueCacheNameRow name False S)"
  have v: "claim_row S1 = claim_row S" "claim_name_row S1 = claim_name_row S"
    by (simp_all add: S1_def claim_name_rows.get_view)
  have "removeClaimFromQueue name op S = (S1, None)"
    by (rule claim_name_rows.get_cases [of name False S]) (simp_all add: removeClaimFromQueue_def S1_def r)
  then show ?thesis using v by blast
qed

text \<open>
  Adding a claim files it twice, in the row of the height at which it becomes valid and in
  the row of its name, so the agreement of the two queues is kept.
\<close>

theorem addClaim_queues_agree:
  assumes "queues_agree S"
  shows "queues_agree (fst (addClaim name op cid amount height addr S))"
proof -
  have "queues_agree (addClaimToQueues name claim S)" for claim
    using rows_agree_add assms by (simp add: queues_agree_def addClaimToQueues_views)
  then show ?thesis by (simp add: addClaim_def Let_def)
qed

text \<open>
  When the queues agree, \<open>removeClaimFromQueue\<close> finds a claim exactly when the row of the
  name lists its outpoint - the row of the height never lacks it - returns a claim with that
  outpoint, and leaves the queues in agreement.
\<close>

theorem removeClaimFromQueue_complete:
  assumes "queues_agree S"
  shows "case removeClaimFromQueue name op S of (S', removed) \<Rightarrow> queues_agree S' \<and>
    (case removed of
       None \<Rightarrow> list_all (\<lambda>e. oph_outPoint e \<noteq> op) (claim_name_row S name)
     | Some claim \<Rightarrow> claim_outPoint claim = op \<and> list_ex (\<lambda>e. oph_outPoint e = op) (claim_name_row S name))"
proof (cases "\<forall>e \<in> set (claim_name_row S name). oph_outPoint e \<noteq> op")
  case True
  then show ?thesis using removeClaimFromQueue_missing [OF True] assms by (auto simp: queues_agree_def list_all_iff)
next
  case False
  then obtain e where "e \<in> set (claim_name_row S name)" "oph_outPoint e = op" by blast
  then show ?thesis using removeClaimFromQueue_found [OF assms, of e name op] by (force simp: list_ex_iff)
qed

text \<open>
  Taking a claim out of the queue right after it was added, when neither queue lists its
  outpoint for the name, gives the claim back and restores both queues.
\<close>

theorem addClaimToQueues_then_remove:
  assumes "list_all (\<lambda>e. oph_outPoint e \<noteq> claim_outPoint claim) (claim_name_row S name)"
    and "list_all (\<lambda>(n, c). n \<noteq> name \<or> claim_outPoint c \<noteq> claim_outPoint claim)
      (claim_row S (claim_nValidAtHeight claim))"
  shows "case removeClaimFromQueue name (claim_outPoint claim) (addClaimToQueues name claim S) of (S', removed) \<Rightarrow>
    removed = Some claim \<and> claim_row S' = claim_row S \<and> claim_name_row S' = claim_name_row S"
proof -
  let ?S = "addClaimToQueues name claim S"
  have "remove_first (\<lambda>e. oph_outPoint e = claim_outPoint claim) (claim_name_row ?S name) =
      Some (queue_entry claim, claim_name_row S name)"
    unfolding addClaimToQueues_views fun_upd_same
    by (rule remove_first_append) (use assms(1) in \<open>auto simp: list_all_iff queue_entry_def\<close>)
  moreover have "remove_first (\<lambda>(n, c). name = n \<and> claim_outPoint c = claim_outPoint claim)
      (claim_row ?S (oph_nHeight (queue_entry claim))) = Some ((name, claim), claim_row S (claim_nValidAtHeight claim))"
    by (simp add: addClaimToQueues_views queue_entry_def)
      (rule remove_first_append, use assms(2) in \<open>auto simp: list_all_iff\<close>)
  ultimately obtain S' where "removeClaimFromQueue name (claim_outPoint claim) ?S = (S', Some claim)"
    "claim_row S' = (claim_row ?S)(oph_nHeight (queue_entry claim) := claim_row S (claim_nValidAtHeight claim))"
    "claim_name_row S' = (claim_name_row ?S)(name := claim_name_row S name)"
    using removeClaimFromQueue_views by blast
  then show ?thesis by (simp add: addClaimToQueues_views queue_entry_def)
qed

lemma sample_rows [simp]: "claim_row sample_cache h = []" "claim_name_row sample_cache name = []"
  by (simp_all add: view_defs row_view_def sample_cache_def CClaimTrieCache_init_def CClaimTrie_init_def
      getQueueRow_def getQueueNameRow_def sample_db_def)

lemma sample_agree: "queues_agree sample_cache"
  by (simp add: queues_agree_def rows_agree_def)

lemma addClaim_queues_agree_witness:
  "queues_agree (fst (addClaim ''ab'' (claim_outPoint (sample_claim 1 5)) [1] 5 10 ''x'' sample_cache))"
  by (rule addClaim_queues_agree [OF sample_agree])

lemma removeClaimFromQueue_complete_witness:
  "snd (removeClaimFromQueue ''ab'' (claim_outPoint (sample_claim 1 5)) sample_cache) = None"
  using removeClaimFromQueue_complete [OF sample_agree, where name = "''ab''" and op = "claim_outPoint (sample_claim 1 5)"]
  by (auto split: prod.splits option.splits)

lemma addClaimToQueues_then_remove_witness:
  "snd (removeClaimFromQueue ''ab'' (claim_outPoint (sample_claim 1 5))
     (addClaimToQueues ''ab'' (sample_claim 1 5) sample_cache)) = Some (sample_claim 1 5)"
  using addClaimToQueues_then_remove [of "sample_claim 1 5" sample_cache "''ab''"] by (auto split: prod.splits)

subsection \<open>Activating the claims of a height\<close>

text \<open>Operations on the nodes leave the queues, the base and the height.\<close>

definition same_queues :: "CClaimTrieCache \<Rightarrow> CClaimTrieCache \<Rightarrow> bool" where
  "same_queues S S' \<longleftrightarrow> base S' = base S \<and> cache_nCurrentHeight S' = cache_nCurrentHeight S \<and>
     claimQueueCache S' = claimQueueCache S \<and> claimQueueNameCache S' = claimQueueNameCache S \<and>
     expirationQueueCache S' = expirationQueueCache S \<and> supportCache S' = supportCache S \<and>
     supportQueueCache S' = supportQueueCache S \<and> supportQueueNameCache S' = supportQueueNameCache S \<and>
     supportExpirationQueueCache S' = supportExpirationQueueCache S"

lemma same_queues_refl [simp]: "same_queues S S"
  by (simp add: same_queues_def)

lemma same_queues_trans: "same_queues S S' \<Longrightarrow> same_queues S' S'' \<Longrightarrow> same_queues S S''"
  by (simp add: same_queues_def)

lemma same_queues_put [simp]: "same_queues S (cache_put p n S') = same_queues S S'"
  "same_queues S (addNodeToCache p n S') = same_queues S S'"
  "same_queues S (mark_dirty p S') = same_queues S S'" "same_queues S (check_takeover p S') = same_queues S S'"
  by (simp_all add: same_queues_def cache_put_def addNodeToCache_def mark_dirty_def check_takeover_def Let_def)

lemma same_queues_views: "same_queues S S' \<Longrightarrow> claim_row S' = claim_row S \<and> claim_name_row S' = claim_name_row S \<and>
    expiration_row S' = expiration_row S \<and> support_row S' = support_row S \<and>
    support_name_row S' = support_name_row S \<and> support_expiration_row S' = support_expiration_row S \<and>
    cache_nCurrentHeight S' = cache_nCurrentHeight S \<and> base S' = base S"
  by (simp add: same_queues_def view_defs)

lemma insert_walk_same: "same_queues S (fst (insert_walk S cur cached pos cs))"
proof (induction cs arbitrary: S cur cached pos)
  case Nil
  then show ?case by simp
next
  case (Cons c cs)
  have "same_queues S (fst (insert_walk (cache_put pos (put_child c new_node cur)
       (addNodeToCache (pos @ [c]) new_node S')) new_node True (pos @ [c]) cs))" if "same_queues S S'" for S'
    by (rule same_queues_trans [OF _ Cons.IH]) (simp add: that)
  then show ?case using Cons.IH by (auto simp: Let_def split: option.splits)
qed

lemma insertClaimIntoTrie_same: "same_queues S (fst (insertClaimIntoTrie name claim chk S))"
proof -
  obtain S1 r where w: "insert_walk S (fst (start_node S)) (snd (start_node S)) [] name = (S1, r)" by force
  have s: "same_queues S S1" using insert_walk_same [of S _ _ "[]" name] w by (metis fst_conv)
  show ?thesis unfolding insertClaimIntoTrie_def w
    using s by (auto simp: Let_def split: option.splits list.splits prod.splits if_splits)
qed

end
