(* ===== verification/ClaimSteps.thy ===== *)
theory ClaimSteps
  imports ClaimQueues
begin

text \<open>
  What a block does to the queues: activating the claims of a height and pulling the claims of a
  name forward never fail while the queues agree, no other step touches them, and
  \<open>incrementBlock\<close> keeps the agreement.
\<close>

subsection \<open>Claims out of the queues into the trie\<close>

definition outpoints_at :: "CClaimTrieCache \<Rightarrow> string \<Rightarrow> COutPoint multiset" where
  "outpoints_at S name = mset (map claim_outPoint (claims_at S name))"

lemma outpoints_insert:
  "outpoints_at (fst (insertClaimIntoTrie name claim chk S)) =
    (outpoints_at S)(name := add_mset (claim_outPoint claim) (outpoints_at S name))"
proof -
  obtain S' where S': "insertClaimIntoTrie name claim chk S = (S', True)"
    and c: "claims_at S' = (claims_at S)(name := (if claims_at S name = [] then [claim]
      else settled (supports_of S name) (claims_at S name @ [claim])))"
    using insertClaimIntoTrie_keeps by blast
  show ?thesis by (auto simp: S' fun_eq_iff outpoints_at_def c settled_outpoints simp del: mset_map)
qed

lemma claims_at_cong: "cache_find S' = cache_find S \<Longrightarrow> base S' = base S \<Longrightarrow> claims_at S' = claims_at S"
  using lookup_cong [of S' S] by (simp add: fun_eq_iff claims_at_def)

lemma remove_first_member: "x \<in> set xs \<Longrightarrow> P x \<Longrightarrow> \<exists>y ys. remove_first P xs = Some (y, ys) \<and> P y"
  using remove_first_None [of P xs] remove_first_Some [of P xs] by (cases "remove_first P xs") auto

lemma claims_at_rows [simp]:
  "claims_at (set_queue_row h r S) = claims_at S" "claims_at (set_queue_name_row n r' S) = claims_at S"
  "claims_at (fst (getQueueCacheRow h c S)) = claims_at S"
  "claims_at (fst (getQueueCacheNameRow n c S)) = claims_at S"
  by (rule claims_at_cong; auto simp: fun_eq_iff cache_find_def row_put_defs row_get_defs split: option.splits)+

lemma outpoints_at_rows [simp]:
  "outpoints_at (set_queue_row h r S) = outpoints_at S" "outpoints_at (set_queue_name_row n r' S) = outpoints_at S"
  "outpoints_at (fst (getQueueCacheRow h c S)) = outpoints_at S"
  "outpoints_at (fst (getQueueCacheNameRow n c S)) = outpoints_at S"
  by (simp_all add: fun_eq_iff outpoints_at_def)

definition undo_entry :: "string \<times> CClaimValue \<Rightarrow> nameOutPointHeightType" where
  "undo_entry e = \<lparr>noph_name = fst e, noph_outPoint = claim_outPoint (snd e), noph_nHeight = claim_nValidAtHeight (snd e)\<rparr>"

definition queued_outpoints :: "claimQueueRowType \<Rightarrow> string \<Rightarrow> COutPoint multiset" where
  "queued_outpoints row name = mset (map (\<lambda>e. claim_outPoint (snd e)) (filter (\<lambda>e. fst e = name) row))"

lemma queued_outpoints_simps [simp]: "queued_outpoints [] n = {#}"
  "queued_outpoints (e # row) n = (if fst e = n then add_mset (claim_outPoint (snd e)) (queued_outpoints row n)
     else queued_outpoints row n)"
  by (simp_all add: queued_outpoints_def)

lemma activate_claims_ok:
  assumes "rows_agree ((claim_row S)(cache_nCurrentHeight S := row)) (claim_name_row S)"
  shows "\<exists>S'. activate_claims row S U = (S', U\<lparr>insertUndo := insertUndo U @ map undo_entry row\<rparr>, True) \<and>
    rows_agree ((claim_row S')(cache_nCurrentHeight S := [])) (claim_name_row S') \<and> claim_row S' = claim_row S \<and>
    cache_nCurrentHeight S' = cache_nCurrentHeight S \<and> base S' = base S \<and>
    outpoints_at S' = (\<lambda>n. outpoints_at S n +
      queued_outpoints row n)"
  using assms
proof (induction row arbitrary: S U)
  case Nil
  then show ?case by (simp add: fun_eq_iff)
next
  case (Cons e row)
  obtain name claim where e: "e = (name, claim)" by force
  let ?h = "cache_nCurrentHeight S"
  let ?P = "\<lambda>e. oph_outPoint e = claim_outPoint claim \<and> oph_nHeight e = ?h"
  have "\<lparr>oph_outPoint = claim_outPoint claim, oph_nHeight = ?h\<rparr> \<in> set (claim_name_row S name)"
    by (rule rows_agree_claim_entry [OF Cons.prems]) (simp add: e)
  from remove_first_member [OF this, of ?P]
  obtain f names where r: "remove_first ?P (claim_name_row S name) = Some (f, names)" and P: "?P f" by auto
  then have f: "f = \<lparr>oph_outPoint = claim_outPoint claim, oph_nHeight = ?h\<rparr>" "claim_name_row S name \<noteq> []"
    by auto
  obtain S1 where g: "getQueueCacheNameRow name False S = (S1, Some (claim_name_row S name))"
    and v: "claim_name_row S1 = claim_name_row S"
    by (rule claim_name_rows.get_cases [of name False S]) (use f in auto)
  have S1: "S1 = fst (getQueueCacheNameRow name False S)" by (simp add: g)
  define S2 where "S2 = set_queue_name_row name names S1"
  have s2: "claim_row S2 = claim_row S" "cache_nCurrentHeight S2 = ?h" "base S2 = base S" "outpoints_at S2 = outpoints_at S"
    "claim_name_row S2 = (claim_name_row S)(name := names)"
    unfolding S2_def by (simp_all add: claim_name_rows.put_view v) (simp_all add: S1)
  define S3 where "S3 = fst (insertClaimIntoTrie name claim True S2)"
  have "same_queues S2 S3" by (simp add: S3_def insertClaimIntoTrie_same)
  then have s3: "claim_row S3 = claim_row S" "cache_nCurrentHeight S3 = ?h" "base S3 = base S"
    "claim_name_row S3 = (claim_name_row S)(name := names)"
    using same_queues_views [of S2 S3] by (simp_all add: s2)
  have o3: "outpoints_at S3 = (outpoints_at S)(name := add_mset (claim_outPoint claim) (outpoints_at S name))"
    by (simp add: S3_def outpoints_insert s2)
  have "rows_agree (((claim_row S)(?h := e # row))(?h := row)) ((claim_name_row S)(name := names))"
    by (rule rows_agree_remove [OF Cons.prems _ _ refl])
      (simp_all add: e remove_first_mset [OF r] f(1))
  then have ag: "rows_agree ((claim_row S3)(cache_nCurrentHeight S3 := row)) (claim_name_row S3)"
    by (simp add: s3)
  have "claim_nValidAtHeight claim = ?h" by (rule rows_agree_valid [OF Cons.prems, of name]) (simp add: e)
  define U1 where "U1 = U\<lparr>insertUndo := insertUndo U @ [undo_entry e]\<rparr>"
  have h1: "cache_nCurrentHeight S1 = ?h" by (simp add: S1)
  have "remove_first (\<lambda>e. oph_outPoint e = claim_outPoint claim \<and> oph_nHeight e = cache_nCurrentHeight S1)
      (claim_name_row S name) = Some (f, names)" unfolding h1 by (rule r)
  then have step: "activate_claims (e # row) S U = activate_claims row S3 U1"
    by (simp add: e g Let_def S3_def S2_def U1_def undo_entry_def)
  obtain S' where S': "activate_claims row S3 U1 = (S', U1\<lparr>insertUndo := insertUndo U1 @ map undo_entry row\<rparr>, True)"
    "rows_agree ((claim_row S')(cache_nCurrentHeight S3 := [])) (claim_name_row S')" "claim_row S' = claim_row S3"
    "cache_nCurrentHeight S' = cache_nCurrentHeight S3" "base S' = base S3"
    "outpoints_at S' = (\<lambda>n. outpoints_at S3 n + queued_outpoints row n)"
    using Cons.IH [OF ag, of U1] by blast
  have "outpoints_at S' = (\<lambda>n. outpoints_at S n + queued_outpoints (e # row) n)"
    unfolding S'(6) o3 by (rule ext) (simp add: e)
  moreover have "U1\<lparr>insertUndo := insertUndo U1 @ map undo_entry row\<rparr> =
      U\<lparr>insertUndo := insertUndo U @ map undo_entry (e # row)\<rparr>" by (simp add: U1_def)
  ultimately show ?case unfolding step S'(1) using S'(2-5) s3(1-3) by metis
qed

text \<open>Pulling the queued claims of a name forward.\<close>

definition pull_match :: "string \<Rightarrow> outPointHeightType \<Rightarrow> string \<times> CClaimValue \<Rightarrow> bool" where
  "pull_match name e = (\<lambda>(n, c). name = n \<and> claim_outPoint c = oph_outPoint e \<and>
                  claim_nValidAtHeight c = oph_nHeight e)"

lemma pull_claims_ok:
  assumes "rows_agree (claim_row S) ((claim_name_row S)(name := names))"
  shows "\<exists>S' U'. pull_claims name names S U = (S', U', True) \<and>
    rows_agree (claim_row S') ((claim_name_row S')(name := [])) \<and> claim_name_row S' = claim_name_row S \<and>
    (\<forall>h. claim_row S h = [] \<longrightarrow> claim_row S' h = []) \<and>
    cache_nCurrentHeight S' = cache_nCurrentHeight S \<and> base S' = base S \<and>
    outpoints_at S' = (outpoints_at S)(name := outpoints_at S name + mset (map oph_outPoint names))"
  using assms
proof (induction names arbitrary: S U)
  case Nil
  then show ?case by auto
next
  case (Cons e names)
  let ?h = "oph_nHeight e"
  have mem: "\<lparr>oph_outPoint = oph_outPoint e, oph_nHeight = ?h\<rparr> \<in> set (((claim_name_row S)(name := e # names)) name)"
    by simp
  obtain claim row where r: "remove_first (pull_match name e) (claim_row S ?h) = Some ((name, claim), row)"
    and c: "claim_outPoint claim = oph_outPoint e"
    using rows_agree_find [OF Cons.prems mem, of "pull_match name e" False] by (auto simp: pull_match_def)
  have ne: "claim_row S ?h \<noteq> []" using r by auto
  obtain S1 where g: "getQueueCacheRow ?h False S = (S1, Some (claim_row S ?h))"
    and v: "claim_row S1 = claim_row S"
    by (rule claim_rows.get_cases [of ?h False S]) (use ne in auto)
  have S1: "S1 = fst (getQueueCacheRow ?h False S)" by (simp add: g)
  have s1: "claim_name_row S1 = claim_name_row S" "cache_nCurrentHeight S1 = cache_nCurrentHeight S"
    "base S1 = base S" "outpoints_at S1 = outpoints_at S"
    unfolding S1 by simp_all
  define claim' where "claim' = claim\<lparr>claim_nValidAtHeight := cache_nCurrentHeight S1\<rparr>"
  define S2 where "S2 = fst (insertClaimIntoTrie name claim' False S1)"
  have "same_queues S1 S2" by (simp add: S2_def insertClaimIntoTrie_same)
  then have s2: "claim_row S2 = claim_row S" "cache_nCurrentHeight S2 = cache_nCurrentHeight S" "base S2 = base S"
    "claim_name_row S2 = claim_name_row S"
    using same_queues_views [of S1 S2] by (simp_all add: s1 v)
  have o2: "outpoints_at S2 = (outpoints_at S)(name := add_mset (oph_outPoint e) (outpoints_at S name))"
    by (simp add: S2_def outpoints_insert s1 claim'_def c)
  define S3 where "S3 = set_queue_row ?h row S2"
  have s3: "claim_row S3 = (claim_row S)(?h := row)" "claim_name_row S3 = claim_name_row S"
    "cache_nCurrentHeight S3 = cache_nCurrentHeight S" "base S3 = base S"
    "outpoints_at S3 = (outpoints_at S)(name := add_mset (oph_outPoint e) (outpoints_at S name))"
    unfolding S3_def by (simp_all add: claim_rows.put_view s2 o2)
  have "rows_agree ((claim_row S)(?h := row)) (((claim_name_row S)(name := e # names))(name := names))"
    by (rule rows_agree_remove [OF Cons.prems _ remove_first_mset [OF r] c]) simp
  then have ag: "rows_agree (claim_row S3) ((claim_name_row S3)(name := names))" by (simp add: s3)
  define U3 where "U3 = U\<lparr>insertUndo := insertUndo U @ [\<lparr>noph_name = name,
                     noph_outPoint = claim_outPoint claim, noph_nHeight = claim_nValidAtHeight claim\<rparr>]\<rparr>"
  have step: "pull_claims name (e # names) S U = pull_claims name names S3 U3"
    using r unfolding pull_match_def
    by (simp add: g Let_def S3_def S2_def U3_def claim'_def)
  obtain S' U' where rec: "pull_claims name names S3 U3 = (S', U', True)"
    "rows_agree (claim_row S') ((claim_name_row S')(name := []))" "claim_name_row S' = claim_name_row S3"
    "\<forall>h. claim_row S3 h = [] \<longrightarrow> claim_row S' h = []"
    "cache_nCurrentHeight S' = cache_nCurrentHeight S3" "base S' = base S3"
    "outpoints_at S' = (outpoints_at S3)(name := outpoints_at S3 name + mset (map oph_outPoint names))"
    using Cons.IH [OF ag, of U3] by blast
  have "\<forall>h. claim_row S h = [] \<longrightarrow> claim_row S' h = []" using rec(4) ne by (metis fun_upd_other s3(1))
  moreover have "outpoints_at S' = (outpoints_at S)(name := outpoints_at S name + mset (map oph_outPoint (e # names)))"
    using rec(7) by (simp add: s3)
  ultimately show ?case unfolding step using rec(1-3,5,6) s3(2-4) by metis
qed

subsection \<open>The other steps of a block leave the claim queues\<close>

definition keeps_queues :: "CClaimTrieCache \<Rightarrow> CClaimTrieCache \<Rightarrow> bool" where
  "keeps_queues S S' \<longleftrightarrow> claim_row S' = claim_row S \<and> claim_name_row S' = claim_name_row S \<and>
     cache_nCurrentHeight S' = cache_nCurrentHeight S \<and> base S' = base S"

lemma keeps_refl [simp]: "keeps_queues S S"
  by (simp add: keeps_queues_def)

lemma keeps_trans: "keeps_queues S S' \<Longrightarrow> keeps_queues S' S'' \<Longrightarrow> keeps_queues S S''"
  by (simp add: keeps_queues_def)

lemma keeps_same: "same_queues S S' \<Longrightarrow> keeps_queues S S'"
  using same_queues_views [of S S'] by (simp add: keeps_queues_def)

lemma keeps_fields [simp]:
  "keeps_queues S (S'\<lparr>cache := x\<rparr>) = keeps_queues S S'"
  "keeps_queues S (S'\<lparr>supportCache := m\<rparr>) = keeps_queues S S'"
  "keeps_queues S (S'\<lparr>cacheTakeoverHeights := t\<rparr>) = keeps_queues S S'"
  "keeps_queues S (cache_put p n S') = keeps_queues S S'"
  "keeps_queues S (addNodeToCache p n S') = keeps_queues S S'"
  "keeps_queues S (mark_dirty p S') = keeps_queues S S'"
  "keeps_queues S (check_takeover p S') = keeps_queues S S'"
  "keeps_queues S (set_expiration_row h e S') = keeps_queues S S'"
  "keeps_queues S (set_support_queue_row h s S') = keeps_queues S S'"
  "keeps_queues S (set_support_queue_name_row nm r S') = keeps_queues S S'"
  "keeps_queues S (set_support_expiration_row h e S') = keeps_queues S S'"
  by (simp_all add: keeps_queues_def view_defs row_put_defs cache_put_def addNodeToCache_def mark_dirty_def
      check_takeover_def Let_def)

lemma keeps_get [simp]:
  "keeps_queues S (fst (getQueueCacheRow h c S))" "keeps_queues S (fst (getQueueCacheNameRow nm c S))"
  "keeps_queues S (fst (getExpirationQueueCacheRow h c S))" "keeps_queues S (fst (getSupportQueueCacheRow h c S))"
  "keeps_queues S (fst (getSupportQueueCacheNameRow nm c S))"
  "keeps_queues S (fst (getSupportExpirationQueueCacheRow h c S))"
  by (simp_all add: keeps_queues_def claim_rows.get_view claim_name_rows.get_view)
    (auto simp: view_defs row_get_defs split: option.splits)

lemma prune_self_keeps: "keeps_queues S (fst (prune_self cur cached pos S))"
  by (simp add: prune_self_def)

lemma recursivePruneName_keeps: "keeps_queues S (fst (recursivePruneName cur cached pos cs S))"
proof (induction cs arbitrary: cur cached pos)
  case Nil
  then show ?case by (simp add: prune_self_keeps)
next
  case (Cons c cs)
  let ?sel = "case cache_find S (pos @ [c]) of Some n \<Rightarrow> Some (n, True)
            | None \<Rightarrow> map_option (\<lambda>n. (n, False)) (child cur c)"
  have self: "keeps_queues S (fst (prune_self cur' b pos S'))" if "keeps_queues S S'" for cur' b S'
    by (rule keeps_trans [OF that prune_self_keeps])
  show ?case
  proof (cases ?sel)
    case None
    then show ?thesis by simp
  next
    case (Some e)
    obtain n b where e: "e = (n, b)" by force
    obtain S1 ok nul where r: "recursivePruneName n b (pos @ [c]) cs S = (S1, ok, nul)" by (metis prod.exhaust)
    have "keeps_queues S S1" using Cons.IH [of n b "pos @ [c]"] r by simp
    then show ?thesis using self Some e r by (simp add: Let_def)
  qed
qed

lemma removeClaimFromTrie_keeps: "keeps_queues S (fst (removeClaimFromTrie name op chk S))"
proof -
  have p: "keeps_queues S S1" if "recursivePruneName n b [] name S' = (S1, ok, nul)" and "keeps_queues S S'"
    for n b S' S1 ok nul
    using keeps_trans [OF that(2) recursivePruneName_keeps] that(1) by (metis fst_conv)
  show ?thesis unfolding removeClaimFromTrie_def Let_def
    by (auto split: option.split list.split prod.split simp del: recursivePruneName.simps intro: p)
qed

lemma reorderTrieNode_keeps: "keeps_queues S (fst (reorderTrieNode name chk S))"
  unfolding reorderTrieNode_def Let_def by (auto split: option.split list.split)

lemma insertSupportIntoMap_keeps: "keeps_queues S (fst (insertSupportIntoMap name support chk S))"
  unfolding insertSupportIntoMap_def by (rule keeps_trans [OF _ reorderTrieNode_keeps]) simp

lemma removeSupportFromMap_keeps: "keeps_queues S (fst (removeSupportFromMap name op chk S))"
proof -
  have "keeps_queues S (fst (reorderTrieNode name chk S'))" if "keeps_queues S S'" for S'
    by (rule keeps_trans [OF that reorderTrieNode_keeps])
  then show ?thesis unfolding removeSupportFromMap_def Let_def by (auto split: option.split prod.split) (metis fst_conv keeps_fields(2) keeps_refl)
qed

lemma insertClaimIntoTrie_keeps_queues: "keeps_queues S (fst (insertClaimIntoTrie name claim chk S))"
  by (rule keeps_same [OF insertClaimIntoTrie_same])

lemma expire_claims_keeps: "keeps_queues S (fst (expire_claims row S U))"
proof (induction row arbitrary: S U)
  case Nil
  then show ?case by simp
next
  case (Cons e row)
  obtain S1 r ok where d: "removeClaimFromTrie (nop_name e) (nop_outPoint e) True S = (S1, r, ok)" by (metis prod.exhaust)
  have "keeps_queues S S1" using removeClaimFromTrie_keeps [of S "nop_name e" "nop_outPoint e" True] d by simp
  then show ?case using keeps_trans [OF _ Cons.IH] by (auto simp: d split: option.split bool.split)
qed

lemma activate_supports_keeps: "keeps_queues S (fst (activate_supports row S U))"
proof (induction row arbitrary: S U)
  case Nil
  then show ?case by simp
next
  case (Cons e row)
  obtain name support where e: "e = (name, support)" by force
  let ?S1 = "case getSupportQueueCacheNameRow name False S of
            (S, None) \<Rightarrow> S
          | (S, Some nameRow) \<Rightarrow>
              (case remove_first (\<lambda>e. oph_outPoint e = sup_outPoint support \<and>
                      oph_nHeight e = sup_nValidAtHeight support) nameRow of
                 None \<Rightarrow> S
               | Some (_, nameRow') \<Rightarrow> set_support_queue_name_row name nameRow' S)"
  have "keeps_queues S (fst (getSupportQueueCacheNameRow name False S))" by simp
  then have "keeps_queues S ?S1" by (cases "getSupportQueueCacheNameRow name False S") (auto split: option.split)
  then have "keeps_queues S (fst (insertSupportIntoMap name support True ?S1))"
    by (rule keeps_trans [OF _ insertSupportIntoMap_keeps])
  from keeps_trans [OF this Cons.IH] show ?case by (simp add: e Let_def)
qed

lemma expire_supports_keeps: "keeps_queues S (fst (expire_supports row S U))"
proof (induction row arbitrary: S U)
  case Nil
  then show ?case by simp
next
  case (Cons e row)
  obtain S1 r ok where d: "removeSupportFromMap (nop_name e) (nop_outPoint e) True S = (S1, r, ok)" by (metis prod.exhaust)
  have "keeps_queues S S1" using removeSupportFromMap_keeps [of S "nop_name e" "nop_outPoint e" True] d by simp
  then show ?case using keeps_trans [OF _ Cons.IH] by (auto simp: d split: option.split bool.split)
qed

lemma pull_supports_keeps: "keeps_queues S (fst (pull_supports name names S U))"
proof (induction names arbitrary: S U)
  case Nil
  then show ?case by simp
next
  case (Cons e names)
  obtain S1 r where d: "getSupportQueueCacheRow (oph_nHeight e) False S = (S1, r)" by force
  have S1: "keeps_queues S S1" using keeps_get(4) [of S "oph_nHeight e" False] d by simp
  have k: "keeps_queues S (fst (insertSupportIntoMap n s False S1))" for n s
    by (rule keeps_trans [OF S1 insertSupportIntoMap_keeps])
  show ?case
    using keeps_trans [OF _ Cons.IH] S1 k by (auto simp: d Let_def split: option.split prod.split)
qed

subsection \<open>A whole block\<close>

definition forward :: "CClaimTrieCache \<Rightarrow> CClaimTrieCache \<Rightarrow> bool" where
  "forward S S' \<longleftrightarrow> queues_agree S' \<and> cache_nCurrentHeight S' = cache_nCurrentHeight S \<and> base S' = base S \<and>
     (\<forall>h. claim_row S h = [] \<longrightarrow> claim_row S' h = [])"

lemma forward_keeps: "queues_agree S \<Longrightarrow> keeps_queues S S' \<Longrightarrow> forward S S'"
  by (simp add: forward_def keeps_queues_def queues_agree_def)

lemma forward_trans: "forward S S' \<Longrightarrow> forward S' S'' \<Longrightarrow> forward S S''"
  by (simp add: forward_def)

lemma forward_then_keeps: "forward S S' \<Longrightarrow> keeps_queues S' S'' \<Longrightarrow> forward S S''"
  using forward_keeps forward_trans by (meson forward_def)

lemma process_takeover_forward:
  assumes "queues_agree S"
  shows "forward S (fst (process_takeover name S U))"
proof -
  let ?claims = "case getQueueCacheNameRow name False S of
             (S, None) \<Rightarrow> (S, U, True)
           | (S, Some nameRow) \<Rightarrow> (case pull_claims name nameRow S U of
               (S, U, ok) \<Rightarrow> (if ok then set_queue_name_row name [] S else S, U, ok))"
  have "\<exists>S1 U1. ?claims = (S1, U1, True) \<and> forward S S1"
  proof (rule claim_name_rows.get_cases [of name False S])
    fix S1
    assume g: "getQueueCacheNameRow name False S = (S1, None)"
    then have "keeps_queues S S1" using keeps_get(2) [of S name False] by simp
    then show ?thesis using forward_keeps [OF assms] g by auto
  next
    fix S1
    assume g: "getQueueCacheNameRow name False S = (S1, Some (claim_name_row S name))"
    then have k: "keeps_queues S S1" using keeps_get(2) [of S name False] by simp
    then have "rows_agree (claim_row S1) ((claim_name_row S1)(name := claim_name_row S name))"
      using assms by (simp add: keeps_queues_def queues_agree_def)
    then obtain S2 U2 where p: "pull_claims name (claim_name_row S name) S1 U = (S2, U2, True)"
      "rows_agree (claim_row S2) ((claim_name_row S2)(name := []))"
      "\<forall>h. claim_row S1 h = [] \<longrightarrow> claim_row S2 h = []"
      "cache_nCurrentHeight S2 = cache_nCurrentHeight S1" "base S2 = base S1"
      using pull_claims_ok [of S1 name "claim_name_row S name" U] by blast
    have "forward S (set_queue_name_row name [] S2)"
      using p k by (simp add: forward_def queues_agree_def claim_name_rows.put_view keeps_queues_def)
    then show ?thesis by (simp add: g p)
  qed
  then obtain S1 U1 where c: "?claims = (S1, U1, True)" and f1: "forward S S1" by blast
  let ?sups = "case getSupportQueueCacheNameRow name False S1 of
                   (S, None) \<Rightarrow> (S, U1)
                 | (S, Some nameRow) \<Rightarrow> (case pull_supports name nameRow S U1 of
                     (S, U) \<Rightarrow> (set_support_queue_name_row name [] S, U))"
  obtain S2 U2 where s: "?sups = (S2, U2)" by force
  obtain S0 r where g: "getSupportQueueCacheNameRow name False S1 = (S0, r)" by force
  have k0: "keeps_queues S1 S0" using keeps_get(5) [of S1 name False] g by simp
  have "keeps_queues S1 S2"
    using s k0 keeps_trans [OF k0 pull_supports_keeps] by (auto simp: g split: option.splits prod.splits) (metis fst_conv)
  then have f2: "forward S S2" by (rule forward_then_keeps [OF f1])
  then have f3: "forward S (S2\<lparr>cacheTakeoverHeights := t\<rparr>)" for t
    by (rule forward_then_keeps) simp
  show ?thesis unfolding process_takeover_def c Let_def prod.case s using f2 f3 by auto
qed

lemma process_takeovers_forward:
  "queues_agree S \<Longrightarrow> forward S (fst (process_takeovers names S U))"
proof (induction names arbitrary: S U)
  case Nil
  then show ?case by (simp add: forward_keeps)
next
  case (Cons name names)
  obtain S1 U1 ok where p: "process_takeover name S U = (S1, U1, ok)" by (metis prod.exhaust)
  have f: "forward S S1" using process_takeover_forward [OF Cons.prems, of name U] p by simp
  then have "queues_agree S1" by (simp add: forward_def)
  then show ?case using Cons.IH [of S1 U1] Cons.IH [OF Cons.prems, of U] f forward_trans [OF f] by (simp add: p)
qed

lemma activate_row_forward:
  assumes "queues_agree S"
  shows "\<exists>S1 U1. (case getQueueCacheRow (cache_nCurrentHeight S) False S of
             (S', None) \<Rightarrow> (S', U, True)
           | (S', Some row) \<Rightarrow> (case activate_claims row S' U of
               (S', U, ok) \<Rightarrow> (if ok then set_queue_row (cache_nCurrentHeight S) [] S' else S', U, ok))) = (S1, U1, True) \<and>
    forward S S1 \<and> claim_row S1 (cache_nCurrentHeight S) = []"
proof (rule claim_rows.get_cases [of "cache_nCurrentHeight S" False S])
  fix S1
  assume g: "getQueueCacheRow (cache_nCurrentHeight S) False S = (S1, None)" and "claim_row S1 = claim_row S"
    and "claim_row S (cache_nCurrentHeight S) = []"
  moreover have "keeps_queues S S1" using keeps_get(1) [of S "cache_nCurrentHeight S" False] g by simp
  ultimately show ?thesis using forward_keeps [OF assms] by auto
next
  fix S1
  let ?h = "cache_nCurrentHeight S"
  assume g: "getQueueCacheRow ?h False S = (S1, Some (claim_row S ?h))"
  then have k: "keeps_queues S S1" using keeps_get(1) [of S ?h False] by simp
  then have "rows_agree ((claim_row S1)(cache_nCurrentHeight S1 := claim_row S ?h)) (claim_name_row S1)"
    using assms by (simp add: keeps_queues_def queues_agree_def)
  then obtain S2 U2 where a: "activate_claims (claim_row S ?h) S1 U = (S2, U2, True)"
    "rows_agree ((claim_row S2)(cache_nCurrentHeight S1 := [])) (claim_name_row S2)" "claim_row S2 = claim_row S1"
    "cache_nCurrentHeight S2 = cache_nCurrentHeight S1" "base S2 = base S1"
    using activate_claims_ok [of S1 "claim_row S ?h" U] by blast
  have "forward S (set_queue_row ?h [] S2)"
    using a k by (simp add: forward_def queues_agree_def claim_rows.put_view keeps_queues_def)
  then show ?thesis using a(1) g by (simp add: claim_rows.put_view)
qed

lemma stage_keeps:
  assumes "(case g of (S1, None) \<Rightarrow> (S1, U, True)
      | (S1, Some row) \<Rightarrow> (case f row S1 U of (S, U, ok) \<Rightarrow> (if ok then put S else S, U, ok))) = (S2, U2, ok2)"
    and "keeps_queues S (fst g)" and "\<And>row S1 U. keeps_queues S1 (fst (f row S1 U))" and "\<And>T. keeps_queues T (put T)"
  shows "keeps_queues S S2"
proof -
  obtain S1 r where g: "g = (S1, r)" by force
  show ?thesis
  proof (cases r)
    case None
    then show ?thesis using assms(1,2) g by simp
  next
    case (Some row)
    obtain S3 U3 ok where f: "f row S1 U = (S3, U3, ok)" by (metis prod.exhaust)
    have "keeps_queues S S3" using keeps_trans [OF _ assms(3) [of S1 row U]] assms(2) by (simp add: f g)
    then have "keeps_queues S (if ok then put S3 else S3)" using keeps_trans [OF _ assms(4)] by simp
    then show ?thesis using assms(1) by (auto simp: g Some f)
  qed
qed

lemma stage_keeps_support:
  assumes "(case g of (S1, None) \<Rightarrow> (S1, U)
      | (S1, Some row) \<Rightarrow> (case f row S1 U of (S, U) \<Rightarrow> (put S, U))) = (S2, U2)"
    and "keeps_queues S (fst g)" and "\<And>row S1 U. keeps_queues S1 (fst (f row S1 U))" and "\<And>T. keeps_queues T (put T)"
  shows "keeps_queues S S2"
proof -
  obtain S1 r where g: "g = (S1, r)" by force
  show ?thesis
  proof (cases r)
    case None
    then show ?thesis using assms(1,2) g by simp
  next
    case (Some row)
    obtain S3 U3 where f: "f row S1 U = (S3, U3)" by force
    have "keeps_queues S S3" using keeps_trans [OF _ assms(3) [of S1 row U]] assms(2) by (simp add: f g)
    then have "keeps_queues S (put S3)" using keeps_trans [OF _ assms(4)] by simp
    then show ?thesis using assms(1) by (simp add: g Some f)
  qed
qed

lemma incrementBlock_forward:
  assumes "queues_agree S"
  shows "case incrementBlock S U of (S', U', ok) \<Rightarrow> queues_agree S' \<and> claim_row S' (cache_nCurrentHeight S) = [] \<and>
    (if ok then cache_nCurrentHeight S' = cache_nCurrentHeight S + 1 \<and> namesToCheckForTakeover S' = [] \<and>
        block_originals S' = cache S'
     else cache_nCurrentHeight S' = cache_nCurrentHeight S)"
proof -
  let ?h = "cache_nCurrentHeight S"
  obtain S1 U1 where c: "(case getQueueCacheRow ?h False S of
             (S', None) \<Rightarrow> (S', U, True)
           | (S', Some row) \<Rightarrow> (case activate_claims row S' U of
               (S', U, ok) \<Rightarrow> (if ok then set_queue_row ?h [] S' else S', U, ok))) = (S1, U1, True)"
    and f1: "forward S S1" and e1: "claim_row S1 ?h = []"
    using activate_row_forward [OF assms, of U] by blast
  let ?exp = "case getExpirationQueueCacheRow ?h False S1 of
             (S, None) \<Rightarrow> (S, U1, True)
           | (S, Some row) \<Rightarrow> (case expire_claims row S U1 of
               (S, U, ok) \<Rightarrow> (if ok then set_expiration_row ?h [] S else S, U, ok))"
  obtain S2 U2 ok2 where x: "?exp = (S2, U2, ok2)" by (rule prod_cases3 [of ?exp])
  have k2: "keeps_queues S1 S2"
    by (rule stage_keeps [where f = expire_claims and put = "set_expiration_row ?h []", OF x]) (simp_all add: expire_claims_keeps)
  let ?sup = "case getSupportQueueCacheRow ?h False S2 of
             (S, None) \<Rightarrow> (S, U2)
           | (S, Some row) \<Rightarrow> (case activate_supports row S U2 of
               (S, U) \<Rightarrow> (set_support_queue_row ?h [] S, U))"
  obtain S3 U3 where y: "?sup = (S3, U3)" by force
  have k3: "keeps_queues S2 S3"
    by (rule stage_keeps_support [where f = activate_supports and put = "set_support_queue_row ?h []", OF y]) (simp_all add: activate_supports_keeps)
  let ?sexp = "case getSupportExpirationQueueCacheRow ?h False S3 of
             (S, None) \<Rightarrow> (S, U3, True)
           | (S, Some row) \<Rightarrow> (case expire_supports row S U3 of
               (S, U, ok) \<Rightarrow> (if ok then set_support_expiration_row ?h [] S else S, U, ok))"
  obtain S4 U4 ok4 where z: "?sexp = (S4, U4, ok4)" by (rule prod_cases3 [of ?sexp])
  have k4: "keeps_queues S3 S4"
    by (rule stage_keeps [where f = expire_supports and put = "set_support_expiration_row ?h []", OF z]) (simp_all add: expire_supports_keeps)
  obtain S5 U5 ok5 where t: "process_takeovers (namesToCheckForTakeover S4) S4 U4 = (S5, U5, ok5)" by (rule prod_cases3)
  have f2: "forward S S2" by (rule forward_then_keeps [OF f1 k2])
  have f4: "forward S S4" by (rule forward_then_keeps [OF forward_then_keeps [OF f2 k3] k4])
  have "forward S4 S5"
    using process_takeovers_forward [of S4 "namesToCheckForTakeover S4" U4] f4 t by (simp add: forward_def)
  then have f5: "forward S S5" by (rule forward_trans [OF f4])
  have e2: "claim_row S2 ?h = []" "claim_row S4 ?h = []" using e1 k2 k3 k4 by (simp_all add: keeps_queues_def)
  have e5: "claim_row S5 ?h = []" using \<open>forward S4 S5\<close> e2 by (simp add: forward_def)
  have final: "queues_agree (S\<lparr>block_originals := o', namesToCheckForTakeover := n', cache_nCurrentHeight := h'\<rparr>) = queues_agree S"
    "claim_row (S\<lparr>block_originals := o', namesToCheckForTakeover := n', cache_nCurrentHeight := h'\<rparr>) = claim_row S"
    for S :: CClaimTrieCache and o' n' h' by (simp_all add: queues_agree_def view_defs)
  show ?thesis
    unfolding incrementBlock_def Let_def c prod.case x y z t
    using f2 f4 f5 e2 e5 by (auto simp: forward_def snapshot_originals_def final)
qed

subsection \<open>Properties\<close>

text \<open>
  C4. When the queues agree, activating the claims of the current height never fails: no claim
  of the row lacks its entry in the row of its name.  Every name gains the outpoints that were
  queued for it and loses none, the undo data list the activated claims in order, and the
  queues agree again once the row is emptied.
\<close>

theorem activate_claims_activates:
  assumes "queues_agree S"
  shows "case activate_claims (claim_row S (cache_nCurrentHeight S)) S U of (S', U', ok) \<Rightarrow>
    ok \<and> queues_agree (set_queue_row (cache_nCurrentHeight S) [] S') \<and>
    outpoints_at S' = (\<lambda>name. outpoints_at S name + queued_outpoints (claim_row S (cache_nCurrentHeight S)) name) \<and>
    U' = U\<lparr>insertUndo := insertUndo U @ map undo_entry (claim_row S (cache_nCurrentHeight S))\<rparr>"
proof -
  have "rows_agree ((claim_row S)(cache_nCurrentHeight S := claim_row S (cache_nCurrentHeight S))) (claim_name_row S)"
    using assms by (simp add: queues_agree_def)
  from activate_claims_ok [OF this, of U] show ?thesis
    by (auto simp: queues_agree_def claim_rows.put_view)
qed

text \<open>
  After a takeover every queued claim of the name is found at its height and brought into
  the trie at once: nothing fails, the name gains exactly the outpoints its row listed, and the
  queues agree once the row of the name is emptied.
\<close>

theorem pull_claims_pulls:
  assumes "queues_agree S"
  shows "case pull_claims name (claim_name_row S name) S U of (S', U', ok) \<Rightarrow>
    ok \<and> queues_agree (set_queue_name_row name [] S') \<and>
    outpoints_at S' = (outpoints_at S)(name := outpoints_at S name + mset (map oph_outPoint (claim_name_row S name)))"
proof -
  have "rows_agree (claim_row S) ((claim_name_row S)(name := claim_name_row S name))"
    using assms by (simp add: queues_agree_def)
  from pull_claims_ok [OF this, of U] show ?thesis
    by (auto simp: queues_agree_def claim_name_rows.put_view)
qed

text \<open>
  C10. Moving to the next block keeps the queues in agreement and leaves nothing queued for the
  height that has passed, also when it fails; when it succeeds, the height is one higher, no
  takeover is left to be examined and the originals of the next block are the nodes of the
  cache.
\<close>

theorem incrementBlock_advances:
  assumes "queues_agree S"
  shows "case incrementBlock S U of (S', U', ok) \<Rightarrow> queues_agree S' \<and> claim_row S' (cache_nCurrentHeight S) = [] \<and>
    (if ok then cache_nCurrentHeight S' = cache_nCurrentHeight S + 1 \<and> namesToCheckForTakeover S' = [] \<and>
        block_originals S' = cache S'
     else cache_nCurrentHeight S' = cache_nCurrentHeight S)"
  by (rule incrementBlock_forward [OF assms])

definition due_cache :: CClaimTrieCache where
  "due_cache = (addClaimToQueues ''ab'' (sample_claim 1 5) sample_cache)\<lparr>cache_nCurrentHeight := 10\<rparr>"

lemma due_views: "claim_row due_cache = claim_row (addClaimToQueues ''ab'' (sample_claim 1 5) sample_cache)"
    "claim_name_row due_cache = claim_name_row (addClaimToQueues ''ab'' (sample_claim 1 5) sample_cache)"
  by (simp_all add: due_cache_def view_defs)

lemma due_agree: "queues_agree due_cache"
  unfolding queues_agree_def due_views addClaimToQueues_views
  by (rule rows_agree_add) (use sample_agree in \<open>simp add: queues_agree_def\<close>)

lemma due_rows: "claim_row due_cache 10 = [(''ab'', sample_claim 1 5)]" "cache_nCurrentHeight due_cache = 10"
  "map oph_outPoint (claim_name_row due_cache ''ab'') = [claim_outPoint (sample_claim 1 5)]"
proof -
  have "claim_nValidAtHeight (sample_claim 1 5) = 10" by (simp add: sample_claim_def mk_claim_def)
  then show "claim_row due_cache 10 = [(''ab'', sample_claim 1 5)]"
    "map oph_outPoint (claim_name_row due_cache ''ab'') = [claim_outPoint (sample_claim 1 5)]"
    by (simp_all add: due_views addClaimToQueues_views queue_entry_def)
  show "cache_nCurrentHeight due_cache = 10" by (simp add: due_cache_def)
qed

lemma activate_claims_activates_witness:
  "claim_outPoint (sample_claim 1 5) \<in># outpoints_at (fst (activate_claims [(''ab'', sample_claim 1 5)] due_cache no_undo)) ''ab''"
  using activate_claims_activates [OF due_agree, of no_undo] by (auto simp: due_rows split: prod.splits)

lemma pull_claims_pulls_witness:
  "claim_outPoint (sample_claim 1 5) \<in>#
     outpoints_at (fst (pull_claims ''ab'' (claim_name_row due_cache ''ab'') due_cache no_undo)) ''ab''"
  using pull_claims_pulls [OF due_agree, of "''ab''" no_undo]
  by (auto simp: due_rows simp del: mset_map split: prod.splits)

lemma incrementBlock_advances_witness:
  "claim_row (fst (incrementBlock due_cache no_undo)) 10 = []"
  using incrementBlock_advances [OF due_agree, of no_undo] by (auto simp: due_rows split: prod.splits)

end
