(* ===== verification/ClaimHash.thy ===== *)
theory ClaimHash
  imports ClaimSteps
begin

text \<open>
  The root hash of a cache: the incremental computation, which visits the names marked dirty and
  uses stored hashes for the others, returns the hash of the whole trie, and touches nothing but the
  hashes and the marks.
\<close>

subsection \<open>The root hash is that of the whole trie\<close>

text \<open>
  The reference: the hash of a name over everything the cache shows below it, computed from
  nothing that is stored.  A node contributes the character and the hash of each child, in order,
  and then the hash of its best claim.
\<close>

inductive name_hash :: "CClaimTrieCache \<Rightarrow> string \<Rightarrow> uint256 \<Rightarrow> bool" for S where
  "lookup S pos = Some n \<Longrightarrow>
   list_all2 (\<lambda>e h. name_hash S (pos @ [fst e]) h) (node_children n) hl \<Longrightarrow>
   (case node_claims n of [] \<Rightarrow> v = []
    | c # _ \<Rightarrow> \<exists>height. getLastTakeoverForName S pos = Some height \<and> v = getValueHash (claim_outPoint c) height) \<Longrightarrow>
   name_hash S pos (Hash [concat (map2 (\<lambda>e h. of_char (fst e) # h) (node_children n) hl) @ v])"

text \<open>An empty trie has the hash 1.\<close>

definition root_hash :: "CClaimTrieCache \<Rightarrow> uint256 \<Rightarrow> bool" where
  "root_hash S h \<longleftrightarrow> (if node_empty (fst (start_node S)) then h = one_hash else name_hash S [] h)"

text \<open>The hash that is stored for a name, in the cache or in the node of the base trie.\<close>

definition stored_hash :: "CClaimTrieCache \<Rightarrow> string \<Rightarrow> CClaimTrieNode \<Rightarrow> uint256" where
  "stored_hash S pos m = (case map_of (cacheHashes S) pos of Some h \<Rightarrow> h | None \<Rightarrow> node_hash m)"

text \<open>
  What the cache maintains: a name that is not marked dirty has the right hash stored, the
  children of a node have different characters, and the height of the takeover of a name with
  claims is known.
\<close>

definition hashes_right :: "CClaimTrieCache \<Rightarrow> bool" where
  "hashes_right S \<longleftrightarrow>
     (\<forall>pos n. lookup S pos = Some n \<longrightarrow> distinct (map fst (node_children n)) \<and>
        (node_claims n \<noteq> [] \<longrightarrow> getLastTakeoverForName S pos \<noteq> None) \<and>
        (\<forall>c m. child n c = Some m \<longrightarrow> pos @ [c] \<notin> set (dirtyHashes S) \<longrightarrow>
           name_hash S (pos @ [c]) (stored_hash S (pos @ [c]) m)))"

definition only_hashes :: "CClaimTrieCache \<Rightarrow> CClaimTrieCache \<Rightarrow> bool" where
  "only_hashes S S' \<longleftrightarrow> (\<exists>hl ds. S' = S\<lparr>cacheHashes := hl, dirtyHashes := ds\<rparr>)"

lemma only_hashes_refl [simp]: "only_hashes S S"
proof -
  have "S = S\<lparr>cacheHashes := cacheHashes S, dirtyHashes := dirtyHashes S\<rparr>" by simp
  then show ?thesis unfolding only_hashes_def by blast
qed

lemma only_hashes_trans: "only_hashes S S' \<Longrightarrow> only_hashes S' S'' \<Longrightarrow> only_hashes S S''"
  unfolding only_hashes_def by (elim exE, hypsubst, simp, intro exI, rule refl)

lemma only_hashes_view:
  assumes "only_hashes S S'"
  shows "lookup S' = lookup S" "getLastTakeoverForName S' = getLastTakeoverForName S" "start_node S' = start_node S"
    "cache_find S' = cache_find S"
proof -
  obtain hl ds where S': "S' = S\<lparr>cacheHashes := hl, dirtyHashes := ds\<rparr>" using assms by (auto simp: only_hashes_def)
  show f: "cache_find S' = cache_find S" by (simp add: S' cache_find_def fun_eq_iff)
  show "lookup S' = lookup S" by (rule lookup_cong [OF f]) (simp add: S')
  show "getLastTakeoverForName S' = getLastTakeoverForName S" by (simp add: S' getLastTakeoverForName_def fun_eq_iff split: option.split)
  have "base S' = base S" by (simp add: S')
  show "start_node S' = start_node S" unfolding start_node_def f \<open>base S' = base S\<close> by (rule refl)
qed

lemma name_hash_mono:
  assumes "name_hash S pos h" "lookup S' = lookup S" "getLastTakeoverForName S' = getLastTakeoverForName S"
  shows "name_hash S' pos h"
  using assms
proof (induction rule: name_hash.induct)
  case (1 pos n hl v)
  have lk: "lookup S' pos = Some n" using 1(1,4) by simp
  have top: "case node_claims n of [] \<Rightarrow> v = []
    | c # _ \<Rightarrow> \<exists>height. getLastTakeoverForName S' pos = Some height \<and> v = getValueHash (claim_outPoint c) height"
    using 1 by (cases "node_claims n") auto
  have "list_all2 (\<lambda>e h. name_hash S' (pos @ [fst e]) h) (node_children n) hl"
    using 1(3-5) by (auto elim: list_all2_mono)
  from name_hash.intros [OF lk this top] show ?case .
qed

lemma name_hash_only: "only_hashes S S' \<Longrightarrow> name_hash S' = name_hash S"
  using name_hash_mono only_hashes_view by (intro ext) metis

lemma root_hash_only: "only_hashes S S' \<Longrightarrow> root_hash S' = root_hash S"
  by (simp add: root_hash_def name_hash_only only_hashes_view fun_eq_iff)

text \<open>Storing the right hash of a name, and taking its mark away, keeps the stored hashes right.\<close>

lemma hashes_right_store:
  assumes "hashes_right S" "pos \<noteq> [] \<Longrightarrow> name_hash S pos h" "set (dirtyHashes S) - {pos} \<subseteq> set ds"
  shows "hashes_right (S\<lparr>cacheHashes := map_put (<) pos h (cacheHashes S), dirtyHashes := ds\<rparr>)"
proof -
  let ?S = "S\<lparr>cacheHashes := map_put (<) pos h (cacheHashes S), dirtyHashes := ds\<rparr>"
  have o: "only_hashes S ?S" by (auto simp: only_hashes_def)
  have st: "stored_hash ?S q m = (if q = pos then h else stored_hash S q m)" for q m
    by (simp add: stored_hash_def string_order.map_of_put)
  show ?thesis
    unfolding hashes_right_def only_hashes_view [OF o] name_hash_only [OF o] st
  proof (intro allI impI conjI)
    fix q n assume n: "lookup S q = Some n"
    note r = assms(1) [unfolded hashes_right_def, rule_format, OF n]
    show "distinct (map fst (node_children n))" using r by blast
    show "getLastTakeoverForName S q \<noteq> None" if "node_claims n \<noteq> []" using r that by blast
    show "name_hash S (q @ [c]) (if q @ [c] = pos then h else stored_hash S (q @ [c]) m)"
      if "child n c = Some m" "q @ [c] \<notin> set (dirtyHashes ?S)" for c m
      using r that assms(2,3) by auto
  qed
qed

text \<open>
  One node and the children that are left to do.  \<open>M\<close> bounds the length of the names that are marked.
\<close>

lemma value_bytes_top:
  assumes "hashes_right S" "lookup S pos = Some n"
  obtains v where "value_bytes S n pos = Some v"
    "case node_claims n of [] \<Rightarrow> v = []
      | c # _ \<Rightarrow> \<exists>height. getLastTakeoverForName S pos = Some height \<and> v = getValueHash (claim_outPoint c) height"
proof (cases "node_claims n")
  case Nil
  then show thesis by (intro that [of "[]"]) (simp_all add: value_bytes_def node_getBestClaim_def)
next
  case (Cons c cl)
  then obtain height where "getLastTakeoverForName S pos = Some height"
    using assms unfolding hashes_right_def by force
  then show thesis using Cons by (intro that [of "getValueHash (claim_outPoint c) height"]) (simp_all add: value_bytes_def node_getBestClaim_def)
qed

lemma merkle_right:
  "hashes_right S \<Longrightarrow> lookup S pos = Some n \<Longrightarrow> \<not> (pos = [] \<and> node_empty n) \<Longrightarrow>
    (\<forall>p \<in> set (dirtyHashes S). length p \<le> M) \<Longrightarrow> length pos \<le> M \<Longrightarrow> M < k + length pos \<Longrightarrow>
    \<exists>S' h. recursiveComputeMerkleHash k S n pos = Some (S', True) \<and> only_hashes S S' \<and> hashes_right S' \<and>
      set (dirtyHashes S') \<subseteq> set (dirtyHashes S) \<and> map_of (cacheHashes S') pos = Some h \<and> name_hash S pos h"
  "hashes_right S \<Longrightarrow> lookup S pos = Some n \<Longrightarrow> set ch \<subseteq> set (node_children n) \<Longrightarrow>
    (\<forall>p \<in> set (dirtyHashes S). length p \<le> M) \<Longrightarrow> M < Suc k + length pos \<Longrightarrow>
    \<exists>S' hl. merkle_children k S ch pos vch = Some (S', vch @ concat (map2 (\<lambda>e h. of_char (fst e) # h) ch hl)) \<and>
      only_hashes S S' \<and> hashes_right S' \<and> set (dirtyHashes S') \<subseteq> set (dirtyHashes S) \<and>
      list_all2 (\<lambda>e h. name_hash S (pos @ [fst e]) h) ch hl"
proof (induction k S n pos and k S ch pos vch arbitrary: and n rule: recursiveComputeMerkleHash_merkle_children.induct)
  case (1 S n pos)
  then show ?case by simp
next
  case (2 k S n pos)
  have "\<not> (pos = [] \<and> node_empty n)" using 2 by blast
  from 2(1) [OF this 2(2,3) subset_refl 2(5)] 2(7) obtain S1 hl where
    c: "merkle_children k S (node_children n) pos [] = Some (S1, concat (map2 (\<lambda>e h. of_char (fst e) # h) (node_children n) hl))"
      "only_hashes S S1" "hashes_right S1" "set (dirtyHashes S1) \<subseteq> set (dirtyHashes S)"
      "list_all2 (\<lambda>e h. name_hash S (pos @ [fst e]) h) (node_children n) hl" by auto
  note view = only_hashes_view [OF c(2)]
  from 2(3) have "lookup S1 pos = Some n" by (simp add: view)
  from value_bytes_top [OF c(3) this] obtain v where v: "value_bytes S1 n pos = Some v"
    "case node_claims n of [] \<Rightarrow> v = []
      | c # _ \<Rightarrow> \<exists>height. getLastTakeoverForName S pos = Some height \<and> v = getValueHash (claim_outPoint c) height"
    unfolding view by blast
  let ?h = "Hash [concat (map2 (\<lambda>e h. of_char (fst e) # h) (node_children n) hl) @ v]"
  have h: "name_hash S pos ?h" by (rule name_hash.intros [OF 2(3) c(5) v(2)])
  let ?S = "(set_cache_hash pos ?h S1)\<lparr>dirtyHashes := removeAll pos (dirtyHashes S1)\<rparr>"
  have "recursiveComputeMerkleHash (Suc k) S n pos = Some (?S, True)"
    using 2(4) c(1) v(1) by (auto simp: Let_def set_cache_hash_def)
  moreover have "hashes_right ?S"
    using hashes_right_store [OF c(3), of pos ?h "removeAll pos (dirtyHashes S1)"] h
    by (simp add: set_cache_hash_def name_hash_only [OF c(2)])
  moreover have "only_hashes S1 ?S" by (auto simp: only_hashes_def set_cache_hash_def)
  ultimately show ?case
    using h c(2,4) only_hashes_trans by (intro exI [of _ ?S] exI [of _ ?h]) (auto simp: set_cache_hash_def string_order.map_of_put)
next
  case (3 k S pos vch)
  then show ?case by simp
next
  case (4 k S c m ch pos vch)
  let ?nxt = "pos @ [c]"
  let ?cur = "case cache_find S ?nxt of Some n \<Rightarrow> n | None \<Rightarrow> m"
  have ch: "child n c = Some m"
    using 4(3-5) unfolding hashes_right_def child_def by (auto intro!: map_of_is_SomeI)
  have cur: "lookup S ?nxt = Some ?cur" using 4(4) ch by (simp add: lookup_snoc lookup_step_def split: option.splits)
  have "\<exists>S1 h. (if ?nxt \<in> set (dirtyHashes S) then map_option fst (recursiveComputeMerkleHash k S ?cur ?nxt) else Some S) = Some S1 \<and>
      only_hashes S S1 \<and> hashes_right S1 \<and> set (dirtyHashes S1) \<subseteq> set (dirtyHashes S) \<and> stored_hash S1 ?nxt m = h \<and> name_hash S ?nxt h"
  proof (cases "?nxt \<in> set (dirtyHashes S)")
    case True
    then have "length ?nxt \<le> M" using 4(6) by blast
    with 4(1) [OF refl True 4(3) cur _ 4(6)] 4(7) True show ?thesis by (force simp: stored_hash_def)
  next
    case False
    then show ?thesis using 4(3,4) ch by (auto simp: hashes_right_def)
  qed
  then obtain S1 h where s: "(if ?nxt \<in> set (dirtyHashes S) then map_option fst (recursiveComputeMerkleHash k S ?cur ?nxt) else Some S) = Some S1"
    and s1: "only_hashes S S1" "hashes_right S1" "set (dirtyHashes S1) \<subseteq> set (dirtyHashes S)" "stored_hash S1 ?nxt m = h" "name_hash S ?nxt h"
    by blast
  have "lookup S1 pos = Some n" "set ch \<subseteq> set (node_children n)" "\<forall>p \<in> set (dirtyHashes S1). length p \<le> M"
    using 4(4-6) s1(3) by (auto simp: only_hashes_view [OF s1(1)])
  from 4(2) [OF refl s s1(2) this 4(7)] obtain S2 hl where
    "merkle_children k S1 ch pos (vch @ of_char c # stored_hash S1 ?nxt m) =
       Some (S2, (vch @ of_char c # h) @ concat (map2 (\<lambda>e h. of_char (fst e) # h) ch hl))"
    "only_hashes S1 S2" "hashes_right S2" "set (dirtyHashes S2) \<subseteq> set (dirtyHashes S1)"
    "list_all2 (\<lambda>e h. name_hash S (pos @ [fst e]) h) ch hl"
    unfolding stored_hash_def [symmetric] s1(4) name_hash_only [OF s1(1)] by blast
  then show ?case
    using s s1 only_hashes_trans
    by (intro exI [of _ S2] exI [of _ "h # hl"]) (auto simp: Let_def stored_hash_def [symmetric])
qed

text \<open>
  C29. \<open>getMerkleHash\<close> returns the hash of the whole trie that the cache shows: where every name that
  is not marked dirty has its right hash stored, the hash it returns is the one computed from all
  names, children and best claims, with nothing stored, and afterwards the stored hashes are right
  again.  Only the marked names are visited, and the recursion ends.
\<close>

theorem getMerkleHash_hashes_trie:
  assumes "hashes_right S"
    and "\<not> cache_dirty S \<Longrightarrow> root_hash S (stored_hash S [] (trie_root (base S)))"
  shows "\<exists>S' h. getMerkleHash S = Some (S', h) \<and> root_hash S h \<and> hashes_right S' \<and> lookup S' = lookup S"
proof (cases "cache_empty S \<or> \<not> cache_dirty S")
  case True
  have "start_node S = (trie_root (base S), False)" if "cache_empty S"
    using that by (simp add: cache_empty_def start_node_def cache_find_def)
  then have "root_hash S one_hash" if "cache_empty S"
    using that by (simp add: root_hash_def cache_empty_def trie_empty_def)
  then show ?thesis using True assms by (auto simp: getMerkleHash_def stored_hash_def)
next
  case False
  let ?n = "fst (start_node S)" and ?k = "merkle_fuel S"
  have "\<exists>S' h. recursiveComputeMerkleHash ?k S ?n [] = Some (S', True) \<and> only_hashes S S' \<and> hashes_right S' \<and>
      map_of (cacheHashes S') [] = Some h \<and> root_hash S h"
  proof (cases "node_empty ?n")
    case True
    have "?k = Suc (?k - 1)" by (simp add: merkle_fuel_def)
    then have "recursiveComputeMerkleHash ?k S ?n [] = Some (set_cache_hash [] one_hash S, True)"
      using True by (metis recursiveComputeMerkleHash.simps(2))
    moreover have "hashes_right (set_cache_hash [] one_hash S)"
      using hashes_right_store [OF assms(1), of "[]" one_hash "dirtyHashes S"] by (auto simp: set_cache_hash_def)
    moreover have "only_hashes S (set_cache_hash [] one_hash S)"
      unfolding only_hashes_def set_cache_hash_def
      by (rule exI [of _ "map_put (<) [] one_hash (cacheHashes S)"], rule exI [of _ "dirtyHashes S"]) simp
    ultimately show ?thesis using True by (auto simp: set_cache_hash_def string_order.map_of_put root_hash_def)
  next
    case False
    let ?M = "Max (set (0 # map length (dirtyHashes S)))"
    have "\<forall>p \<in> set (dirtyHashes S). length p \<le> ?M" by (auto intro!: Max_ge)
    moreover have "?M < ?k + length ([] :: string)" unfolding merkle_fuel_def by linarith
    ultimately show ?thesis
      using merkle_right(1) [OF assms(1) lookup_Nil, of ?M ?k] False by (auto simp: root_hash_def)
  qed
  then show ?thesis using False only_hashes_view(1) by (fastforce simp: getMerkleHash_def)
qed

text \<open>A name with one claim, inserted into an empty trie.\<close>

definition one_name :: CClaimTrieCache where
  "one_name = (fst (insertClaimIntoTrie ''a'' (sample_claim 1 5) True sample_cache))\<lparr>cacheTakeoverHeights := [(''a'', 3)]\<rparr>"

lemma one_name_parts:
  "cache one_name = [([], Node (blob_SetNull 256) [(CHR ''a'', new_node)] 0 []), (''a'', Node (blob_SetNull 256) [] 0 [sample_claim 1 5])]"
  "dirtyHashes one_name = [[], ''a'']" "cacheTakeoverHeights one_name = [(''a'', 3)]"
  "fRequireTakeoverHeights one_name"
  by code_simp+

lemma one_name_find: "cache_find one_name = Map.empty([] \<mapsto> Node (blob_SetNull 256) [(CHR ''a'', new_node)] 0 [],
    ''a'' \<mapsto> Node (blob_SetNull 256) [] 0 [sample_claim 1 5])"
  by (simp add: fun_eq_iff cache_find_def one_name_parts)

lemma one_name_lookup: "lookup one_name = cache_find one_name"
proof
  show "lookup one_name p = cache_find one_name p" for p
  proof (induction p rule: rev_induct)
    case Nil
    then show ?case by (simp add: lookup_Nil start_node_def one_name_find)
  next
    case (snoc c p)
    then show ?case by (auto simp: lookup_snoc lookup_step_def one_name_find child_def split: option.splits)
  qed
qed

lemma one_name_right: "hashes_right one_name"
  unfolding hashes_right_def one_name_lookup
  by (auto simp: one_name_find child_def one_name_parts getLastTakeoverForName_def split: if_splits)

lemma getMerkleHash_hashes_trie_witness:
  "\<exists>S'. getMerkleHash one_name = Some (S', Hash [97 # Hash [getValueHash (claim_outPoint (sample_claim 1 5)) 3]])"
proof -
  have "cache_dirty one_name" by (simp add: cache_dirty_def one_name_parts)
  then obtain S' h where h: "getMerkleHash one_name = Some (S', h)" "root_hash one_name h"
    using getMerkleHash_hashes_trie [OF one_name_right] by blast
  have "fst (start_node one_name) = Node (blob_SetNull 256) [(CHR ''a'', new_node)] 0 []"
    by (simp add: start_node_def one_name_find)
  then have "name_hash one_name [] h" using h(2) by (simp add: root_hash_def node_empty_def)
  then obtain x where x: "name_hash one_name ''a'' x" "h = Hash [97 # x]"
    by (cases rule: name_hash.cases) (auto simp: one_name_lookup one_name_find list_all2_Cons1)
  from x(1) have "x = Hash [getValueHash (claim_outPoint (sample_claim 1 5)) 3]"
    by (cases rule: name_hash.cases)
      (auto simp: one_name_lookup one_name_find getLastTakeoverForName_def one_name_parts split: if_splits)
  then show ?thesis using h(1) x(2) by blast
qed

end
