(* ===== verification/StrEncodings.thy ===== *)
theory StrEncodings
  imports Uint256
begin

text \<open>
  Text conversions (\<open>utilstrencodings.cpp\<close>): sanitising, hexadecimal, base 64 and base 32 text,
  integers, paragraphs and fixed-point numbers.  A C string is a list without its terminating
  NUL; a loop that keeps a mode and bits left over takes both as arguments.
\<close>


unbundle bit_operations_syntax

subsection \<open>Characters\<close>

text \<open>What a C string holds before its terminating NUL.\<close>

definition c_str :: "string \<Rightarrow> string" where
  "c_str s = takeWhile (\<lambda>c. of_char c \<noteq> (0 :: nat)) s"

definition isdigit :: "char \<Rightarrow> bool" where
  "isdigit c \<longleftrightarrow> (let n = of_char c :: nat in 48 \<le> n \<and> n \<le> 57)"

definition digit :: "char \<Rightarrow> int" where
  "digit c = int (of_char c) - 48"

definition CHARS_ALPHA_NUM :: string where
  "CHARS_ALPHA_NUM = ''abcdefghijklmnopqrstuvwxyzABCDEFGHIJKLMNOPQRSTUVWXYZ0123456789''"

definition SAFE_CHARS :: "string list" where
  "SAFE_CHARS = [CHARS_ALPHA_NUM @ '' .,;-_/:?@()'', CHARS_ALPHA_NUM @ '' .,;-_?@'']"

definition SanitizeString :: "string \<Rightarrow> nat \<Rightarrow> string" where
  "SanitizeString str rule = filter (\<lambda>c. c \<in> set (SAFE_CHARS ! rule)) str"

subsection \<open>Hexadecimal text\<close>

definition IsHex :: "string \<Rightarrow> bool" where
  "IsHex str \<longleftrightarrow> list_all (\<lambda>c. \<not> HexDigit c < 0) str \<and> 0 < length str \<and> length str mod 2 = 0"

text \<open>The end of the list stands for the terminating NUL, which is not a hexadecimal digit.\<close>

function ParseHex_loop :: "string \<Rightarrow> bytes" where
  "ParseHex_loop psz = (case dropWhile isspace psz of
      [] \<Rightarrow> []
    | [c] \<Rightarrow> []
    | c # d # rest \<Rightarrow>
        if HexDigit c = - 1 \<or> HexDigit d = - 1 then []
        else (of_int (push_bit 4 (HexDigit c)) OR of_int (HexDigit d)) # ParseHex_loop rest)"
  by pat_completeness auto
termination
proof (relation "measure length")
  show "wf (measure (length :: string \<Rightarrow> nat))" by simp
  show "(rest, psz) \<in> measure length" if "dropWhile isspace psz = c # ds" "ds = d # rest"
    "\<not> (HexDigit c = - 1 \<or> HexDigit d = - 1)" for psz c ds d rest
    using length_dropWhile_le [of isspace psz] that by simp
qed

definition ParseHex :: "string \<Rightarrow> bytes" where
  "ParseHex str = ParseHex_loop (c_str str)"

text \<open>\<open>fSpaces\<close> puts a space between the bytes.\<close>

definition HexStr :: "bytes \<Rightarrow> bool \<Rightarrow> string" where
  "HexStr vch fSpaces =
     concat (map (\<lambda>i. (if fSpaces \<and> i \<noteq> 0 then '' '' else []) @
                     [hexmap ! unat (drop_bit 4 (vch ! i)), hexmap ! unat (vch ! i AND 15)]) [0..<length vch])"

text \<open>Sizes and elements are compared without an early exit.\<close>

definition TimingResistantEqual :: "bytes \<Rightarrow> bytes \<Rightarrow> bool" where
  "TimingResistantEqual a b \<longleftrightarrow>
     (if length b = 0 then length a = 0
      else fold (\<lambda>i acc. acc OR ucast (a ! i XOR b ! (i mod length b))) [0..<length a]
             (of_nat (length a) XOR of_nat (length b) :: u64) = 0)"

subsection \<open>Base 64\<close>

definition pbase64 :: string where
  "pbase64 = ''ABCDEFGHIJKLMNOPQRSTUVWXYZabcdefghijklmnopqrstuvwxyz0123456789+/''"

text \<open>\<open>mode\<close> counts the bytes of the group; \<open>left\<close> holds the bits not written yet.\<close>

fun EncodeBase64_loop :: "bytes \<Rightarrow> nat \<Rightarrow> int \<Rightarrow> string" where
  "EncodeBase64_loop [] mode left =
     (if mode \<noteq> 0 then pbase64 ! nat left # CHR ''='' # (if mode = 1 then ''='' else []) else [])"
| "EncodeBase64_loop (b # bs) mode left =
     (let enc = uint b in
      if mode = 0 then pbase64 ! nat (drop_bit 2 enc) # EncodeBase64_loop bs 1 (push_bit 4 (enc AND 3))
      else if mode = 1
        then pbase64 ! nat (left OR drop_bit 4 enc) # EncodeBase64_loop bs 2 (push_bit 2 (enc AND 15))
      else pbase64 ! nat (left OR drop_bit 6 enc) # pbase64 ! nat (enc AND 63) # EncodeBase64_loop bs 0 left)"

definition EncodeBase64 :: "bytes \<Rightarrow> string" where
  "EncodeBase64 pch = EncodeBase64_loop pch 0 0"

text \<open>\<open>decode64_table\<close>: the index of a character of the alphabet, \<open>-1\<close> for any other.\<close>

fun index_of :: "string \<Rightarrow> char \<Rightarrow> int \<Rightarrow> int" where
  "index_of [] c i = - 1"
| "index_of (d # ds) c i = (if c = d then i else index_of ds c (i + 1))"

definition decode64_table :: "char \<Rightarrow> int" where
  "decode64_table c = index_of pbase64 c 0"

fun DecodeBase64_loop :: "string \<Rightarrow> nat \<Rightarrow> int \<Rightarrow> bytes \<times> nat \<times> int \<times> string" where
  "DecodeBase64_loop [] mode left = ([], mode, left, [])"
| "DecodeBase64_loop (c # p) mode left =
     (let dec = decode64_table c in
      if dec = - 1 then ([], mode, left, c # p)
      else if mode = 0 then DecodeBase64_loop p 1 dec
      else let (v, left') = (if mode = 1 then (push_bit 2 left OR drop_bit 4 dec, dec AND 15)
                   else if mode = 2 then (push_bit 4 left OR drop_bit 2 dec, dec AND 3)
                   else (push_bit 6 left OR dec, left));
               (vch, rest) = DecodeBase64_loop p (if mode = 3 then 0 else mode + 1) left'
           in (of_int v # vch, rest))"

text \<open>\<open>p\<close> is what the loop stopped at; reading past its end finds the NUL.\<close>

definition at :: "string \<Rightarrow> nat \<Rightarrow> char" where
  "at p i = (if i < length p then p ! i else CHR 0x00)"

definition base64_invalid :: "nat \<Rightarrow> int \<Rightarrow> string \<Rightarrow> bool" where
  "base64_invalid mode left p \<longleftrightarrow>
     (if mode = 0 then False
      else if mode = 1 then True
      else if mode = 2 then left \<noteq> 0 \<or> at p 0 \<noteq> CHR ''='' \<or> at p 1 \<noteq> CHR ''='' \<or> decode64_table (at p 2) \<noteq> - 1
      else left \<noteq> 0 \<or> at p 0 \<noteq> CHR ''='' \<or> decode64_table (at p 1) \<noteq> - 1)"

text \<open>The bytes and \<open>*pfInvalid\<close>.\<close>

definition DecodeBase64 :: "string \<Rightarrow> bytes \<times> bool" where
  "DecodeBase64 str =
     (case DecodeBase64_loop (c_str str) 0 0 of (vch, mode, left, p) \<Rightarrow> (vch, base64_invalid mode left p))"

subsection \<open>Base 32\<close>

definition pbase32 :: string where
  "pbase32 = ''abcdefghijklmnopqrstuvwxyz234567''"

fun EncodeBase32_loop :: "bytes \<Rightarrow> nat \<Rightarrow> int \<Rightarrow> string" where
  "EncodeBase32_loop [] mode left =
     (if mode \<noteq> 0 then pbase32 ! nat left # replicate ([0, 6, 4, 3, 1] ! mode) CHR ''='' else [])"
| "EncodeBase32_loop (b # bs) mode left =
     (let enc = uint b in
      if mode = 0 then pbase32 ! nat (drop_bit 3 enc) # EncodeBase32_loop bs 1 (push_bit 2 (enc AND 7))
      else if mode = 1
        then pbase32 ! nat (left OR drop_bit 6 enc) # pbase32 ! nat (drop_bit 1 enc AND 31) #
             EncodeBase32_loop bs 2 (push_bit 4 (enc AND 1))
      else if mode = 2
        then pbase32 ! nat (left OR drop_bit 4 enc) # EncodeBase32_loop bs 3 (push_bit 1 (enc AND 15))
      else if mode = 3
        then pbase32 ! nat (left OR drop_bit 7 enc) # pbase32 ! nat (drop_bit 2 enc AND 31) #
             EncodeBase32_loop bs 4 (push_bit 3 (enc AND 3))
      else pbase32 ! nat (left OR drop_bit 5 enc) # pbase32 ! nat (enc AND 31) # EncodeBase32_loop bs 0 left)"

definition EncodeBase32 :: "bytes \<Rightarrow> string" where
  "EncodeBase32 pch = EncodeBase32_loop pch 0 0"

text \<open>The table also accepts capital letters.\<close>

definition decode32_table :: "char \<Rightarrow> int" where
  "decode32_table c =
     (let i = index_of pbase32 c 0 in
      if i \<noteq> - 1 then i else index_of ''ABCDEFGHIJKLMNOPQRSTUVWXYZ'' c 0)"

fun DecodeBase32_loop :: "string \<Rightarrow> nat \<Rightarrow> int \<Rightarrow> bytes \<times> nat \<times> int \<times> string" where
  "DecodeBase32_loop [] mode left = ([], mode, left, [])"
| "DecodeBase32_loop (c # p) mode left =
     (let dec = decode32_table c in
      if dec = - 1 then ([], mode, left, c # p)
      else if mode = 0 then DecodeBase32_loop p 1 dec
      else if mode = 2 then DecodeBase32_loop p 3 (push_bit 5 left OR dec)
      else if mode = 5 then DecodeBase32_loop p 6 (push_bit 5 left OR dec)
      else let (v, left') = (if mode = 1 then (push_bit 3 left OR drop_bit 2 dec, dec AND 3)
                   else if mode = 3 then (push_bit 1 left OR drop_bit 4 dec, dec AND 15)
                   else if mode = 4 then (push_bit 4 left OR drop_bit 1 dec, dec AND 1)
                   else if mode = 6 then (push_bit 2 left OR drop_bit 3 dec, dec AND 7)
                   else (push_bit 5 left OR dec, left));
               (vch, rest) = DecodeBase32_loop p (if mode = 7 then 0 else mode + 1) left'
           in (of_int v # vch, rest))"

definition base32_padded :: "int \<Rightarrow> string \<Rightarrow> nat \<Rightarrow> bool" where
  "base32_padded left p n \<longleftrightarrow>
     left \<noteq> 0 \<or> list_ex (\<lambda>i. at p i \<noteq> CHR ''='') [0..<n] \<or> decode32_table (at p n) \<noteq> - 1"

definition base32_invalid :: "nat \<Rightarrow> int \<Rightarrow> string \<Rightarrow> bool" where
  "base32_invalid mode left p \<longleftrightarrow>
     (if mode = 0 then False
      else if mode \<in> {1, 3, 6} then True
      else if mode = 2 then base32_padded left p 6
      else if mode = 4 then base32_padded left p 4
      else if mode = 5 then base32_padded left p 3
      else base32_padded left p 1)"

definition DecodeBase32 :: "string \<Rightarrow> bytes \<times> bool" where
  "DecodeBase32 str =
     (case DecodeBase32_loop (c_str str) 0 0 of (vch, mode, left, p) \<Rightarrow> (vch, base32_invalid mode left p))"

subsection \<open>Numbers\<close>

definition ParsePrechecks :: "string \<Rightarrow> bool" where
  "ParsePrechecks str \<longleftrightarrow>
     (if str = [] then False
      else if isspace (hd str) \<or> isspace (last str) then False
      else if length str \<noteq> length (c_str str) then False
      else True)"

fun digits_value :: "int \<Rightarrow> string \<Rightarrow> int" where
  "digits_value v [] = v"
| "digits_value v (c # cs) = digits_value (v * 10 + digit c) cs"

text \<open>
  \<open>strtol\<close> and \<open>strtoll\<close> at base 10 with 64-bit results: the value, whether \<open>errno\<close> is set, and
  the rest of the text.
\<close>

definition strtoll :: "string \<Rightarrow> int \<times> bool \<times> string" where
  "strtoll s =
     (let t = dropWhile isspace s;
          neg = (t \<noteq> [] \<and> hd t = CHR ''-'');
          u = (if t \<noteq> [] \<and> hd t \<in> {CHR ''-'', CHR ''+''} then tl t else t);
          ds = takeWhile isdigit u;
          v = (if neg then - digits_value 0 ds else digits_value 0 ds)
      in if ds = [] then (0, False, s)
         else if v > 9223372036854775807 then (9223372036854775807, True, dropWhile isdigit u)
         else if v < - 9223372036854775808 then (- 9223372036854775808, True, dropWhile isdigit u)
         else (v, False, dropWhile isdigit u))"

text \<open>What is written to \<open>*out\<close>, if anything, and the result.\<close>

definition ParseInt32 :: "string \<Rightarrow> 32 word option \<times> bool" where
  "ParseInt32 str =
     (if \<not> ParsePrechecks str then (None, False)
      else case strtoll (c_str str) of (n, err, rest) \<Rightarrow>
        (Some (word_of_int n), rest = [] \<and> \<not> err \<and> n \<ge> - 2147483648 \<and> n \<le> 2147483647))"

definition ParseInt64 :: "string \<Rightarrow> 64 word option \<times> bool" where
  "ParseInt64 str =
     (if \<not> ParsePrechecks str then (None, False)
      else case strtoll (c_str str) of (n, err, rest) \<Rightarrow>
        (Some (word_of_int n), rest = [] \<and> \<not> err \<and>
           n \<ge> - 9223372036854775808 \<and> n \<le> 9223372036854775807))"

definition atoi64 :: "string \<Rightarrow> int" where
  "atoi64 str = fst (strtoll (c_str str))"

text \<open>\<open>int atoi(const std::string&)\<close>: the C library's \<open>atoi\<close> narrows the \<open>long\<close>.\<close>

definition atoi :: "string \<Rightarrow> int" where
  "atoi str = sint (word_of_int (fst (strtoll (c_str str))) :: 32 word)"

text \<open>\<open>fmt::format("%d", n)\<close> holds no replacement field, so the arguments are not used.\<close>

definition i64tostr :: "int \<Rightarrow> string" where
  "i64tostr n = ''%d''"

definition itostr :: "int \<Rightarrow> string" where
  "itostr n = ''%d''"

text \<open>The words of a text, wrapped at a width.\<close>

function FormatParagraph_loop :: "string \<Rightarrow> nat \<Rightarrow> nat \<Rightarrow> nat \<Rightarrow> string" where
  "FormatParagraph_loop s width indent col =
     (let s = dropWhile (\<lambda>c. c = CHR '' '') s in
      if s = [] then []
      else
        let word = takeWhile (\<lambda>c. c \<noteq> CHR '' '') s; rest = dropWhile (\<lambda>c. c \<noteq> CHR '' '') s;
            (sep, col) = (if col > 0
              then if col + length word > width then (CHR 0x0A # replicate indent CHR '' '', 0) else ('' '', col)
              else ([], col))
        in sep @ word @ FormatParagraph_loop rest width indent (col + length word + 1))"
  by pat_completeness auto
termination
proof (relation "measure (\<lambda>(s, width, indent, col). length s)", goal_cases)
  case 1
  then show ?case by simp
next
  case (2 s width indent col t word rest p sep col')
  have ne: "t \<noteq> []" using 2 by simp
  then have "hd t \<noteq> CHR '' ''" using hd_dropWhile [of "\<lambda>c. c = CHR '' ''" s] 2(1) by simp
  then have "length rest < length t" using ne 2(4) by (cases t) (auto simp: le_imp_less_Suc length_dropWhile_le)
  moreover have "length t \<le> length s" using 2 length_dropWhile_le by auto
  ultimately show ?case by simp
qed

definition FormatParagraph :: "string \<Rightarrow> nat \<Rightarrow> nat \<Rightarrow> string" where
  "FormatParagraph s width indent = FormatParagraph_loop s width indent 0"

subsection \<open>Fixed-point numbers\<close>

definition UPPER_BOUND :: int where
  "UPPER_BOUND = 1000000000000000000 - 1"

text \<open>Multiplying by ten with a guard; \<open>None\<close> is the overflow result.\<close>

fun times_ten :: "nat \<Rightarrow> int \<Rightarrow> int option" where
  "times_ten 0 m = Some m"
| "times_ten (Suc n) m =
     (if m > UPPER_BOUND div 10 \<or> m < - (UPPER_BOUND div 10) then None else times_ten n (m * 10))"

definition ProcessMantissaDigit :: "char \<Rightarrow> int \<Rightarrow> nat \<Rightarrow> (int \<times> nat) option" where
  "ProcessMantissaDigit ch mantissa tzeros =
     (if ch = CHR ''0'' then Some (mantissa, tzeros + 1)
      else case times_ten (tzeros + 1) mantissa of
        None \<Rightarrow> None | Some m \<Rightarrow> Some (m + digit ch, 0))"

fun mantissa_digits :: "string \<Rightarrow> int \<Rightarrow> nat \<Rightarrow> (int \<times> nat) option" where
  "mantissa_digits [] m z = Some (m, z)"
| "mantissa_digits (c # cs) m z = (case ProcessMantissaDigit c m z of
      None \<Rightarrow> None | Some (m, z) \<Rightarrow> mantissa_digits cs m z)"

fun exponent_digits :: "string \<Rightarrow> int \<Rightarrow> int option" where
  "exponent_digits [] e = Some e"
| "exponent_digits (c # cs) e =
     (if e > UPPER_BOUND div 10 then None else exponent_digits cs (e * 10 + digit c))"

text \<open>The parts of the number: each takes the text and returns what is left of it.\<close>

definition parse_sign :: "string \<Rightarrow> bool \<times> string" where
  "parse_sign v = (case v of c # cs \<Rightarrow> if c = CHR ''-'' then (True, cs) else (False, v) | [] \<Rightarrow> (False, []))"

definition parse_whole :: "string \<Rightarrow> (int \<times> nat \<times> string) option" where
  "parse_whole v = (case v of
      [] \<Rightarrow> None
    | c # cs \<Rightarrow>
        if c = CHR ''0'' then Some (0, 0, cs)
        else if isdigit c
          then map_option (\<lambda>(m, z). (m, z, dropWhile isdigit v)) (mantissa_digits (takeWhile isdigit v) 0 0)
          else None)"

definition parse_fraction :: "string \<Rightarrow> int \<Rightarrow> nat \<Rightarrow> (int \<times> nat \<times> nat \<times> string) option" where
  "parse_fraction v m z = (case v of
      c # cs \<Rightarrow>
        if c = CHR ''.''
        then if cs \<noteq> [] \<and> isdigit (hd cs)
             then map_option (\<lambda>(m, z). (m, z, length (takeWhile isdigit cs), dropWhile isdigit cs))
                    (mantissa_digits (takeWhile isdigit cs) m z)
             else None
        else Some (m, z, 0, v)
    | [] \<Rightarrow> Some (m, z, 0, []))"

definition parse_exponent :: "string \<Rightarrow> (int \<times> string) option" where
  "parse_exponent v = (case v of
      c # cs \<Rightarrow>
        if c = CHR ''e'' \<or> c = CHR ''E''
        then let neg = (cs \<noteq> [] \<and> hd cs = CHR ''-'');
                 ds = (if cs \<noteq> [] \<and> hd cs \<in> {CHR ''+'', CHR ''-''} then tl cs else cs)
             in if ds \<noteq> [] \<and> isdigit (hd ds)
                then map_option (\<lambda>e. (if neg then - e else e, dropWhile isdigit ds))
                       (exponent_digits (takeWhile isdigit ds) 0)
                else None
        else Some (0, v)
    | [] \<Rightarrow> Some (0, []))"

definition ParseFixedPoint :: "string \<Rightarrow> int \<Rightarrow> int option" where
  "ParseFixedPoint val decimals =
     (let (neg, v) = parse_sign val in
      case parse_whole v of None \<Rightarrow> None
      | Some (m, z, v) \<Rightarrow> (case parse_fraction v m z of None \<Rightarrow> None
        | Some (m, z, point_ofs, v) \<Rightarrow> (case parse_exponent v of None \<Rightarrow> None
          | Some (e, v) \<Rightarrow>
              if v \<noteq> [] then None
              else
                let e = e - int point_ofs + int z + decimals; m = (if neg then - m else m)
                in if e < 0 then None else if e \<ge> 18 then None
                   else (case times_ten (nat e) m of
                       None \<Rightarrow> None
                     | Some m \<Rightarrow> if m > UPPER_BOUND \<or> m < - UPPER_BOUND then None else Some m))))"

subsection \<open>Base 64 reads back\<close>

lemma table64:
  assumes "i < 64"
  shows "decode64_table (pbase64 ! i) = int i \<and> (0 :: nat) < of_char (pbase64 ! i)"
proof -
  have "list_all (\<lambda>i. decode64_table (pbase64 ! i) = int i \<and> (0 :: nat) < of_char (pbase64 ! i)) [0..<64]"
    by code_simp
  then show ?thesis using assms by (simp add: list_all_iff)
qed

lemma int_masks: "(x :: int) AND 1 = take_bit 1 x" "x AND 3 = take_bit 2 x" "x AND 7 = take_bit 3 x" "x AND 15 = take_bit 4 x"
  "x AND 31 = take_bit 5 x" "x AND 63 = take_bit 6 x"
  by (simp_all add: take_bit_eq_mask mask_eq_exp_minus_1)

lemma index64:
  assumes "take_bit 6 v = v"
  shows "decode64_table (pbase64 ! nat v) = v" and "(0 :: nat) < of_char (pbase64 ! nat v)" and "v \<noteq> - 1"
proof -
  have v: "0 \<le> v" "v < 64" using assms take_bit_nonnegative [of 6 v] take_bit_int_less_exp [of 6 v] by auto
  then have "nat v < 64" by simp
  from table64 [OF this] v show "decode64_table (pbase64 ! nat v) = v" "(0 :: nat) < of_char (pbase64 ! nat v)" "v \<noteq> - 1"
    by auto
qed

lemma byte_beyond: "8 \<le> n \<Longrightarrow> \<not> bit (b :: u8) n"
  by (auto dest: bit_imp_le_length)

lemma bits8:
  assumes "P 0" "P 1" "P 2" "P 3" "P 4" "P 5" "P 6" "P 7" "\<And>n. 8 \<le> n \<Longrightarrow> P n"
  shows "P (n :: nat)"
proof (cases "8 \<le> n")
  case False
  then have "n = 0 \<or> n = 1 \<or> n = 2 \<or> n = 3 \<or> n = 4 \<or> n = 5 \<or> n = 6 \<or> n = 7" by linarith
  then show ?thesis using assms(1-8) by blast
qed (rule assms(9))

lemmas byte_bit_simps = bit_simps int_masks byte_beyond not_le

text \<open>What the encoder writes keeps six bits, and what the decoder joins are the bytes.\<close>

lemma six_bits:
  "take_bit 6 (drop_bit 2 (uint (b :: u8))) = drop_bit 2 (uint b)"
  "take_bit 6 (push_bit 4 (uint b AND 3) OR drop_bit 4 (uint (c :: u8))) = push_bit 4 (uint b AND 3) OR drop_bit 4 (uint c)"
  "take_bit 6 (push_bit 2 (uint b AND 15) OR drop_bit 6 (uint c)) = push_bit 2 (uint b AND 15) OR drop_bit 6 (uint c)"
  "take_bit 6 (uint b AND 63) = uint b AND 63"
  "take_bit 6 (push_bit 4 (uint b AND 3)) = push_bit 4 (uint b AND 3)"
  "take_bit 6 (push_bit 2 (uint b AND 15)) = push_bit 2 (uint b AND 15)"
  by (rule bit_eqI; rule bits8; simp add: byte_bit_simps)+

lemma joins64:
  "(word_of_int (push_bit 2 (drop_bit 2 (uint b)) OR drop_bit 4 (push_bit 4 (uint b AND 3) OR drop_bit 4 (uint (c :: u8)))) :: u8) = b"
  "(word_of_int (push_bit 4 (drop_bit 4 (uint b)) OR drop_bit 2 (push_bit 2 (uint b AND 15) OR drop_bit 6 (uint c))) :: u8) = b"
  "(word_of_int (push_bit 6 (drop_bit 6 (uint b)) OR (uint b AND 63)) :: u8) = b"
  "(word_of_int (push_bit 2 (drop_bit 2 (uint b)) OR drop_bit 4 (push_bit 4 (uint b AND 3))) :: u8) = b"
  "(word_of_int (push_bit 4 (drop_bit 4 (uint b)) OR drop_bit 2 (push_bit 2 (uint b AND 15))) :: u8) = b"
  by (rule bit_word_eqI; rule bits8; simp add: byte_bit_simps)+

lemma lefts64:
  "(push_bit 4 (uint b AND 3) OR drop_bit 4 (uint (c :: u8))) AND 15 = drop_bit 4 (uint c)"
  "(push_bit 2 (uint (b :: u8) AND 15) OR drop_bit 6 (uint c)) AND 3 = drop_bit 6 (uint c)"
  "push_bit 4 (uint b AND 3) AND 15 = 0" "push_bit 2 (uint b AND 15) AND 3 = 0"
  by (rule bit_eqI; rule bits8; simp add: byte_bit_simps)+

lemmas chars64 = six_bits [THEN index64(1)] six_bits [THEN index64(2)] six_bits [THEN index64(3)]

declare push_bit_and [simp del] push_bit_or [simp del] drop_bit_and [simp del] drop_bit_or [simp del] One_nat_def [simp del]

definition decodes64 :: "bytes \<times> nat \<times> int \<times> string \<Rightarrow> bytes \<Rightarrow> bool" where
  "decodes64 r bs \<longleftrightarrow> (case r of (vch, mode, left, p) \<Rightarrow> vch = bs \<and> \<not> base64_invalid mode left p)"

lemma base64_loops:
  "decodes64 (DecodeBase64_loop (EncodeBase64_loop bs 0 l) 0 l') bs"
  "decodes64 (DecodeBase64_loop (EncodeBase64_loop bs 1 (push_bit 4 (uint b AND 3))) 1 (drop_bit 2 (uint b))) (b # bs)"
  "decodes64 (DecodeBase64_loop (EncodeBase64_loop bs 2 (push_bit 2 (uint b AND 15))) 2 (drop_bit 4 (uint b))) (b # bs)"
proof (induction bs arbitrary: b l l')
  case Nil
  have eq: "decode64_table CHR ''='' = - 1" "decode64_table CHR 0x00 = - 1" by (simp_all add: decode64_table_def pbase64_def)
  {
    case 1
    then show ?case by (simp add: decodes64_def base64_invalid_def)
  next
    case 2
    then show ?case
      by (simp add: decodes64_def base64_invalid_def chars64 joins64 lefts64 eq at_def Let_def)
  next
    case 3
    then show ?case
      by (simp add: decodes64_def base64_invalid_def chars64 joins64 lefts64 eq at_def Let_def)
  }
next
  case (Cons c bs)
  {
    case 1
    then show ?case using Cons.IH(2) [of c] by (simp add: Let_def chars64)
  next
    case 2
    then show ?case using Cons.IH(3) [of c]
      by (simp add: Let_def chars64 joins64 lefts64 decodes64_def split: prod.splits)
  next
    case 3
    then show ?case using Cons.IH(1) [of "push_bit 2 (uint b AND 15)" "drop_bit 6 (uint c)"]
      by (simp add: Let_def chars64 joins64 lefts64 decodes64_def split: prod.splits)
  }
qed

lemma base64_chars:
  "x \<in> set (EncodeBase64_loop bs 0 l) \<Longrightarrow> (0 :: nat) < of_char x"
  "x \<in> set (EncodeBase64_loop bs 1 (push_bit 4 (uint (b :: u8) AND 3))) \<Longrightarrow> (0 :: nat) < of_char x"
  "x \<in> set (EncodeBase64_loop bs 2 (push_bit 2 (uint b AND 15))) \<Longrightarrow> (0 :: nat) < of_char x"
proof (induction bs arbitrary: b l)
  case Nil
  {
    case 1
    then show ?case by simp
  next
    case 2
    then show ?case by (auto simp: chars64)
  next
    case 3
    then show ?case by (auto simp: chars64)
  }
next
  case (Cons c bs)
  {
    case 1
    then show ?case using Cons.IH(2) [of c] by (auto simp: Let_def chars64)
  next
    case 2
    then show ?case using Cons.IH(3) [of c] by (auto simp: Let_def chars64)
  next
    case 3
    then show ?case using Cons.IH(1) [of "push_bit 2 (uint b AND 15)"] by (auto simp: Let_def chars64)
  }
qed

lemma c_str_id: "(\<And>c. c \<in> set s \<Longrightarrow> (0 :: nat) < of_char c) \<Longrightarrow> c_str s = s"
  by (simp add: c_str_def takeWhile_eq_all_conv)

lemma DecodeBase64_EncodeBase64: "DecodeBase64 (EncodeBase64 bs) = (bs, False)"
  using base64_loops(1) [of bs 0 0] c_str_id [of "EncodeBase64 bs"] base64_chars(1) [of _ bs 0]
  by (simp add: DecodeBase64_def EncodeBase64_def decodes64_def split: prod.splits)

declare push_bit_and [simp] push_bit_or [simp] drop_bit_and [simp] drop_bit_or [simp] One_nat_def [simp]

subsection \<open>Base 32 reads back\<close>

lemma table32:
  assumes "i < 32"
  shows "decode32_table (pbase32 ! i) = int i \<and> (0 :: nat) < of_char (pbase32 ! i)"
proof -
  have "list_all (\<lambda>i. decode32_table (pbase32 ! i) = int i \<and> (0 :: nat) < of_char (pbase32 ! i)) [0..<32]"
    by code_simp
  then show ?thesis using assms by (simp add: list_all_iff)
qed

lemma index32:
  assumes "take_bit 5 v = v"
  shows "decode32_table (pbase32 ! nat v) = v" and "(0 :: nat) < of_char (pbase32 ! nat v)" and "v \<noteq> - 1"
proof -
  have v: "0 \<le> v" "v < 32" using assms take_bit_nonnegative [of 5 v] take_bit_int_less_exp [of 5 v] by auto
  then have "nat v < 32" by simp
  from table32 [OF this] v show "decode32_table (pbase32 ! nat v) = v" "(0 :: nat) < of_char (pbase32 ! nat v)" "v \<noteq> - 1"
    by auto
qed

lemma five_bits:
  "take_bit 5 (drop_bit 3 (uint (b :: u8))) = drop_bit 3 (uint b)"
  "take_bit 5 (push_bit 2 (uint b AND 7) OR drop_bit 6 (uint (c :: u8))) = push_bit 2 (uint b AND 7) OR drop_bit 6 (uint c)"
  "take_bit 5 (drop_bit 1 (uint b) AND 31) = drop_bit 1 (uint b) AND 31"
  "take_bit 5 (push_bit 4 (uint b AND 1) OR drop_bit 4 (uint c)) = push_bit 4 (uint b AND 1) OR drop_bit 4 (uint c)"
  "take_bit 5 (push_bit 1 (uint b AND 15) OR drop_bit 7 (uint c)) = push_bit 1 (uint b AND 15) OR drop_bit 7 (uint c)"
  "take_bit 5 (drop_bit 2 (uint b) AND 31) = drop_bit 2 (uint b) AND 31"
  "take_bit 5 (push_bit 3 (uint b AND 3) OR drop_bit 5 (uint c)) = push_bit 3 (uint b AND 3) OR drop_bit 5 (uint c)"
  "take_bit 5 (uint b AND 31) = uint b AND 31"
  "take_bit 5 (push_bit 2 (uint b AND 7)) = push_bit 2 (uint b AND 7)"
  "take_bit 5 (push_bit 4 (uint b AND 1)) = push_bit 4 (uint b AND 1)"
  "take_bit 5 (push_bit 1 (uint b AND 15)) = push_bit 1 (uint b AND 15)"
  "take_bit 5 (push_bit 3 (uint b AND 3)) = push_bit 3 (uint b AND 3)"
  by (rule bit_eqI; rule bits8; (simp only: byte_bit_simps)?; simp add: byte_bit_simps)+

text \<open>Bits joined from two neighbouring bytes, taken apart again.\<close>

lemma above_byte: "drop_bit 8 (uint (c :: u8)) = 0"
  by (rule bit_eqI) (auto simp: bit_simps dest: bit_imp_le_length)

lemma lower_part: "m + j = 8 \<Longrightarrow> take_bit m (drop_bit j (uint (c :: u8))) = drop_bit j (uint c)"
  by (rule bit_eqI) (auto simp: bit_simps dest: bit_imp_le_length)

lemma middle_part:
  "i = j + m \<Longrightarrow> push_bit m (drop_bit i (uint (c :: u8))) OR take_bit m (drop_bit j (uint c)) = drop_bit j (uint c)"
  by (rule bit_eqI) (auto simp: bit_simps)

lemma whole: "push_bit k (drop_bit k (x :: int)) OR take_bit k x = x"
  by (rule bit_eqI) (auto simp: bit_simps)

lemma upper_part: "drop_bit m (push_bit m (x :: int)) = x" "take_bit m (push_bit m x) = 0"
  by (rule bit_eqI; auto simp: bit_simps)+

lemma joins32:
  "(word_of_int (push_bit 3 (drop_bit 3 (uint b)) OR drop_bit 2 (push_bit 2 (uint b AND 7) OR drop_bit 6 (uint (c :: u8)))) :: u8) = b"
  "(word_of_int (push_bit 1 (drop_bit 1 (uint b)) OR drop_bit 4 (push_bit 4 (uint b AND 1) OR drop_bit 4 (uint c))) :: u8) = b"
  "(word_of_int (push_bit 4 (drop_bit 4 (uint b)) OR drop_bit 1 (push_bit 1 (uint b AND 15) OR drop_bit 7 (uint c))) :: u8) = b"
  "(word_of_int (push_bit 2 (drop_bit 2 (uint b)) OR drop_bit 3 (push_bit 3 (uint b AND 3) OR drop_bit 5 (uint c))) :: u8) = b"
  "(word_of_int (push_bit 5 (drop_bit 5 (uint b)) OR (uint b AND 31)) :: u8) = b"
  "(word_of_int (push_bit 3 (drop_bit 3 (uint b)) OR drop_bit 2 (push_bit 2 (uint b AND 7))) :: u8) = b"
  "(word_of_int (push_bit 1 (drop_bit 1 (uint b)) OR drop_bit 4 (push_bit 4 (uint b AND 1))) :: u8) = b"
  "(word_of_int (push_bit 4 (drop_bit 4 (uint b)) OR drop_bit 1 (push_bit 1 (uint b AND 15))) :: u8) = b"
  "(word_of_int (push_bit 2 (drop_bit 2 (uint b)) OR drop_bit 3 (push_bit 3 (uint b AND 3))) :: u8) = b"
  by (simp_all del: One_nat_def add: int_masks above_byte upper_part whole)

lemma lefts32:
  "(push_bit 2 (uint b AND 7) OR drop_bit 6 (uint (c :: u8))) AND 3 = drop_bit 6 (uint c)"
  "push_bit 5 (drop_bit 6 (uint c)) OR (drop_bit 1 (uint c) AND 31) = drop_bit 1 (uint c)"
  "(push_bit 4 (uint (b :: u8) AND 1) OR drop_bit 4 (uint c)) AND 15 = drop_bit 4 (uint c)"
  "(push_bit 1 (uint b AND 15) OR drop_bit 7 (uint c)) AND 1 = drop_bit 7 (uint c)"
  "push_bit 5 (drop_bit 7 (uint c)) OR (drop_bit 2 (uint c) AND 31) = drop_bit 2 (uint c)"
  "(push_bit 3 (uint b AND 3) OR drop_bit 5 (uint c)) AND 7 = drop_bit 5 (uint c)"
  "push_bit 2 (uint b AND 7) AND 3 = 0" "push_bit 4 (uint b AND 1) AND 15 = 0"
  "push_bit 1 (uint b AND 15) AND 1 = 0" "push_bit 3 (uint b AND 3) AND 7 = 0"
  by (simp_all del: One_nat_def add: int_masks lower_part upper_part middle_part)


lemma padding32:
  shows "DecodeBase32_loop (replicate n CHR ''='') mode left = ([], mode, left, replicate n CHR ''='')"
    and "\<not> base32_padded 0 (replicate n CHR ''='') n"
proof -
  have eq: "decode32_table CHR ''='' = - 1" "decode32_table CHR 0x00 = - 1"
    by (simp_all add: decode32_table_def pbase32_def Let_def)
  show "DecodeBase32_loop (replicate n CHR ''='') mode left = ([], mode, left, replicate n CHR ''='')"
    by (cases n) (simp_all add: eq)
  show "\<not> base32_padded 0 (replicate n CHR ''='') n"
    by (auto simp: base32_padded_def at_def list_ex_iff eq)
qed

lemmas chars32 = five_bits [THEN index32(1)] five_bits [THEN index32(2)] five_bits [THEN index32(3)]

declare push_bit_and [simp del] push_bit_or [simp del] drop_bit_and [simp del] drop_bit_or [simp del] One_nat_def [simp del]

definition decodes32 :: "bytes \<times> nat \<times> int \<times> string \<Rightarrow> bytes \<Rightarrow> bool" where
  "decodes32 r bs \<longleftrightarrow> (case r of (vch, mode, left, p) \<Rightarrow> vch = bs \<and> \<not> base32_invalid mode left p)"

lemma base32_loops:
  "decodes32 (DecodeBase32_loop (EncodeBase32_loop bs 0 l) 0 l') bs"
  "decodes32 (DecodeBase32_loop (EncodeBase32_loop bs 1 (push_bit 2 (uint b AND 7))) 1 (drop_bit 3 (uint b))) (b # bs)"
  "decodes32 (DecodeBase32_loop (EncodeBase32_loop bs 2 (push_bit 4 (uint b AND 1))) 3 (drop_bit 1 (uint b))) (b # bs)"
  "decodes32 (DecodeBase32_loop (EncodeBase32_loop bs 3 (push_bit 1 (uint b AND 15))) 4 (drop_bit 4 (uint b))) (b # bs)"
  "decodes32 (DecodeBase32_loop (EncodeBase32_loop bs 4 (push_bit 3 (uint b AND 3))) 6 (drop_bit 2 (uint b))) (b # bs)"
proof (induction bs arbitrary: b l l')
  case Nil
  note s = decodes32_def base32_invalid_def chars32 joins32 lefts32 Let_def padding32
  {
    case 1
    then show ?case by (simp add: decodes32_def base32_invalid_def)
  next
    case 2
    then show ?case by (simp add: s)
  next
    case 3
    then show ?case by (simp add: s)
  next
    case 4
    then show ?case by (simp add: s)
  next
    case 5
    then show ?case by (simp add: s)
  }
next
  case (Cons c bs)
  note s = Let_def chars32 joins32 lefts32 decodes32_def
  {
    case 1
    then show ?case using Cons.IH(2) [of c] by (simp add: Let_def chars32)
  next
    case 2
    then show ?case using Cons.IH(3) [of c] by (simp add: s split: prod.splits)
  next
    case 3
    then show ?case using Cons.IH(4) [of c] by (simp add: s split: prod.splits)
  next
    case 4
    then show ?case using Cons.IH(5) [of c] by (simp add: s split: prod.splits)
  next
    case 5
    then show ?case using Cons.IH(1) [of "push_bit 3 (uint b AND 3)" "drop_bit 5 (uint c)"]
      by (simp add: s split: prod.splits)
  }
qed

lemma base32_chars:
  "x \<in> set (EncodeBase32_loop bs 0 l) \<Longrightarrow> (0 :: nat) < of_char x"
  "x \<in> set (EncodeBase32_loop bs 1 (push_bit 2 (uint (b :: u8) AND 7))) \<Longrightarrow> (0 :: nat) < of_char x"
  "x \<in> set (EncodeBase32_loop bs 2 (push_bit 4 (uint b AND 1))) \<Longrightarrow> (0 :: nat) < of_char x"
  "x \<in> set (EncodeBase32_loop bs 3 (push_bit 1 (uint b AND 15))) \<Longrightarrow> (0 :: nat) < of_char x"
  "x \<in> set (EncodeBase32_loop bs 4 (push_bit 3 (uint b AND 3))) \<Longrightarrow> (0 :: nat) < of_char x"
proof (induction bs arbitrary: b l)
  case Nil
  {
    case 1
    then show ?case by simp
  next
    case 2
    then show ?case by (auto simp: chars32)
  next
    case 3
    then show ?case by (auto simp: chars32)
  next
    case 4
    then show ?case by (auto simp: chars32)
  next
    case 5
    then show ?case by (auto simp: chars32)
  }
next
  case (Cons c bs)
  {
    case 1
    then show ?case using Cons.IH(2) [of c] by (auto simp: Let_def chars32)
  next
    case 2
    then show ?case using Cons.IH(3) [of c] by (auto simp: Let_def chars32)
  next
    case 3
    then show ?case using Cons.IH(4) [of c] by (auto simp: Let_def chars32)
  next
    case 4
    then show ?case using Cons.IH(5) [of c] by (auto simp: Let_def chars32)
  next
    case 5
    then show ?case using Cons.IH(1) [of "push_bit 3 (uint b AND 3)"] by (auto simp: Let_def chars32)
  }
qed

declare push_bit_and [simp] push_bit_or [simp] drop_bit_and [simp] drop_bit_or [simp] One_nat_def [simp]

lemma DecodeBase32_EncodeBase32: "DecodeBase32 (EncodeBase32 bs) = (bs, False)"
  using base32_loops(1) [of bs 0 0] c_str_id [of "EncodeBase32 bs"] base32_chars(1) [of _ bs 0]
  by (simp add: DecodeBase32_def EncodeBase32_def decodes32_def split: prod.splits)

text \<open>
  Decoding the base 64 or the base 32 text of any bytes gives the bytes back and reports the
  text as valid.
\<close>

theorem base64_base32_read_back:
  "DecodeBase64 (EncodeBase64 bs) = (bs, False) \<and> DecodeBase32 (EncodeBase32 bs) = (bs, False)"
  by (simp add: DecodeBase64_EncodeBase64 DecodeBase32_EncodeBase32)

end
