(* ===== verification/Amounts.thy ===== *)
theory Amounts
  imports StrEncodings
begin

text \<open>
  Amounts of money (\<open>amount.h\<close>, \<open>amount.cpp\<close>, \<open>utilmoneystr.cpp\<close>) and their compressed form
  (\<open>compressor.cpp\<close>).  A \<open>CAmount\<close> is an integer; where the code computes with \<open>size_t\<close> or
  \<open>uint64_t\<close> the arithmetic is on words or taken modulo \<open>2 ^ 64\<close>.
\<close>

unbundle bit_operations_syntax

type_synonym CAmount = int

definition COIN :: CAmount where
  "COIN = 100000000"

definition CENT :: CAmount where
  "CENT = 1000000"

definition MAX_MONEY :: CAmount where
  "MAX_MONEY = 1000000000 * COIN"

definition MoneyRange :: "CAmount \<Rightarrow> bool" where
  "MoneyRange nValue \<longleftrightarrow> 0 \<le> nValue \<and> nValue \<le> MAX_MONEY"

subsection \<open>Fee rates\<close>

text \<open>
  The rate is an \<open>int64_t\<close>; multiplied with or divided by a \<open>size_t\<close> it is converted to the
  unsigned type, so that the division is the one of words.
\<close>

record CFeeRate =
  nSatoshisPerK :: u64

definition CFeeRate_of_fee :: "u64 \<Rightarrow> u64 \<Rightarrow> CFeeRate" where
  "CFeeRate_of_fee nFeePaid nSize =
     \<lparr>nSatoshisPerK = (if nSize > 0 then nFeePaid * 1000 div nSize else 0)\<rparr>"

definition GetFee :: "CFeeRate \<Rightarrow> u64 \<Rightarrow> u64" where
  "GetFee r nSize =
     (let nFee = nSatoshisPerK r * nSize div 1000
      in if nFee = 0 \<and> sint (nSatoshisPerK r) > 0 then nSatoshisPerK r else nFee)"

definition GetFeePerK :: "CFeeRate \<Rightarrow> u64" where
  "GetFeePerK r = GetFee r 1000"

definition feerate_less :: "CFeeRate \<Rightarrow> CFeeRate \<Rightarrow> bool" where
  "feerate_less a b \<longleftrightarrow> sint (nSatoshisPerK a) < sint (nSatoshisPerK b)"

definition feerate_add :: "CFeeRate \<Rightarrow> CFeeRate \<Rightarrow> CFeeRate" where
  "feerate_add a b = \<lparr>nSatoshisPerK = nSatoshisPerK a + nSatoshisPerK b\<rparr>"

text \<open>The format string has no replacement field in the syntax of \<open>fmt::format\<close>.\<close>

definition feerate_ToString :: "CFeeRate \<Rightarrow> string" where
  "feerate_ToString r = ''%d.%08d %s/kB''"

subsection \<open>Text of an amount\<close>

definition digit_char :: "nat \<Rightarrow> char" where
  "digit_char d = char_of (48 + d)"

text \<open>\<open>{:d}\<close> of a non-negative number.\<close>

fun format_d :: "nat \<Rightarrow> string" where
  "format_d n = (if n < 10 then [digit_char n] else format_d (n div 10) @ [digit_char (n mod 10)])"

text \<open>\<open>{:08d}\<close>, the last digits of a number below \<open>10 ^ w\<close>.\<close>

fun format_0d :: "nat \<Rightarrow> nat \<Rightarrow> string" where
  "format_0d 0 n = []"
| "format_0d (Suc w) n = format_0d w (n div 10) @ [digit_char (n mod 10)]"

text \<open>The trimming loop, on the reversed text.\<close>

fun trim_zeros :: "string \<Rightarrow> string" where
  "trim_zeros (c # d # e # s) = (if c = CHR ''0'' \<and> isdigit e then trim_zeros (d # e # s) else c # d # e # s)"
| "trim_zeros s = s"

definition FormatMoney :: "CAmount \<Rightarrow> string" where
  "FormatMoney n =
     (let n_abs = (if n > 0 then n else - n);
          quotient = n_abs div COIN;
          remainder = n_abs mod COIN;
          str = format_d (nat quotient) @ ''.'' @ format_0d 8 (nat remainder);
          str = rev (trim_zeros (rev str))
      in (if n < 0 then ''-'' else []) @ str)"

text \<open>The fraction: the units and the rest of the text.\<close>

function parse_units :: "string \<Rightarrow> int \<Rightarrow> int \<Rightarrow> int \<times> string" where
  "parse_units p nMult nUnits = (case p of
      [] \<Rightarrow> (nUnits, [])
    | c # cs \<Rightarrow>
        if isdigit c \<and> nMult > 0 then parse_units cs (nMult div 10) (nUnits + nMult * digit c)
        else (nUnits, p))"
  by pat_completeness auto
termination by (relation "measure (\<lambda>(p, _, _). length p)") auto

declare parse_units.simps [simp del]

text \<open>The first loop: \<open>None\<close> is \<open>return false\<close>; otherwise \<open>strWhole\<close>, \<open>nUnits\<close> and the rest.\<close>

fun parse_money_loop :: "string \<Rightarrow> string \<Rightarrow> (string \<times> int \<times> string) option" where
  "parse_money_loop [] strWhole = Some (strWhole, 0, [])"
| "parse_money_loop (c # p) strWhole =
     (if c = CHR ''.'' then (case parse_units p (CENT * 10) 0 of (nUnits, rest) \<Rightarrow> Some (strWhole, nUnits, rest))
      else if isspace c then Some (strWhole, 0, c # p)
      else if \<not> isdigit c then None
      else parse_money_loop p (strWhole @ [c]))"

definition ParseMoney :: "string \<Rightarrow> CAmount option" where
  "ParseMoney str =
     (case parse_money_loop (dropWhile isspace (c_str str)) [] of
        None \<Rightarrow> None
      | Some (strWhole, nUnits, rest) \<Rightarrow>
          if \<not> list_all isspace rest then None
          else if length strWhole > 10 then None
          else if nUnits < 0 \<or> nUnits > COIN then None
          else let nWhole = atoi64 strWhole in Some (nWhole * COIN + nUnits))"

subsection \<open>Compressed amounts\<close>

fun strip_zeros :: "nat \<Rightarrow> nat \<Rightarrow> nat \<times> nat" where
  "strip_zeros 0 n = (0, n)"
| "strip_zeros (Suc k) n = (if n mod 10 = 0 then (case strip_zeros k (n div 10) of (e, m) \<Rightarrow> (Suc e, m)) else (0, n))"

text \<open>\<open>uint64_t\<close> arithmetic; \<open>None\<close> is the failed assertion.\<close>

definition CompressAmount :: "nat \<Rightarrow> nat option" where
  "CompressAmount n =
     (if n = 0 then Some 0
      else case strip_zeros 9 n of (e, n) \<Rightarrow>
        if e < 9
        then let d = n mod 10 in
          if d \<ge> 1 \<and> d \<le> 9 then Some ((1 + (n div 10 * 9 + d - 1) * 10 + e) mod 2 ^ 64) else None
        else Some ((1 + (n - 1) * 10 + 9) mod 2 ^ 64))"

definition DecompressAmount :: "nat \<Rightarrow> nat" where
  "DecompressAmount x =
     (if x = 0 then 0
      else let x = x - 1; e = x mod 10; x = x div 10;
               n = (if e < 9 then let d = x mod 9 + 1; x = x div 9 in x * 10 + d else x + 1)
           in (n * 10 ^ e) mod 2 ^ 64)"

subsection \<open>Compressing and decompressing\<close>

lemma strip_zeros_result:
  assumes "strip_zeros k n = (e, m)" "0 < n"
  shows "n = m * 10 ^ e" "e \<le> k" "e < k \<Longrightarrow> m mod 10 \<noteq> 0" "0 < m"
  using assms by (induction k n arbitrary: e m rule: strip_zeros.induct)
    (auto split: if_splits prod.splits)

lemma CompressAmount_DecompressAmount:
  assumes "n \<le> 2000000000000000000"
  shows "\<exists>x. CompressAmount n = Some x \<and> x < 2 ^ 64 \<and> DecompressAmount x = n"
proof (cases "n = 0")
  case False
  obtain e m where em: "strip_zeros 9 n = (e, m)" by fastforce
  have n: "0 < n" using False by simp
  note s = strip_zeros_result [OF em n] n
  have "m \<le> n" using s by simp
  show ?thesis
  proof (cases "e < 9")
    case True
    define x where "x = 1 + (m div 10 * 9 + m mod 10 - 1) * 10 + e"
    have d: "m mod 10 \<ge> 1" "m mod 10 \<le> 9" using s True by auto
    have x: "x < 2 ^ 64" "x > 0" "(x - 1) mod 10 = e" "(x - 1) div 10 = m div 10 * 9 + (m mod 10 - 1)"
      using d True \<open>m \<le> n\<close> assms by (auto simp: x_def)
    define q r where qr: "q = m div 10" "r = m mod 10 - 1"
    have "r < 9" using d by (simp add: qr)
    then have "(q * 9 + r) mod 9 = r" "(q * 9 + r) div 9 = q" by simp_all
    then have "(x - 1) div 10 mod 9 = m mod 10 - 1" "(x - 1) div 10 div 9 = m div 10"
      unfolding x(4) qr by blast+
    moreover have "CompressAmount n = Some x"
      using s(5) d x(1) True unfolding CompressAmount_def em x_def by (simp add: Let_def)
    ultimately show ?thesis
      using x d True s(1) assms by (auto simp: DecompressAmount_def Let_def)
  next
    case e: False
    define x where "x = 1 + (m - 1) * 10 + 9"
    have "e = 9" using e s by simp
    then have "m \<le> 2000000000" using s(1) assms by simp
    have x: "x < 2 ^ 64" "x > 0" "(x - 1) mod 10 = 9" "(x - 1) div 10 = m - 1"
      using \<open>m \<le> 2000000000\<close> by (auto simp: x_def)
    moreover have "CompressAmount n = Some x"
      using s e x(1) unfolding CompressAmount_def em x_def by (simp add: Let_def)
    ultimately show ?thesis
      using s assms \<open>e = 9\<close> by (auto simp: DecompressAmount_def Let_def)
  qed
qed (simp add: CompressAmount_def DecompressAmount_def)

subsection \<open>Digits\<close>

declare format_d.simps [simp del]

lemma digit_char [simp]:
  assumes "d < 10"
  shows "isdigit (digit_char d)" "digit (digit_char d) = int d" "\<not> isspace (digit_char d)"
    "(0 :: nat) < of_char (digit_char d)" "digit_char d \<noteq> CHR ''-''" "digit_char d \<noteq> CHR ''+''"
    "digit_char d \<noteq> CHR ''.''"
proof -
  have "list_all (\<lambda>d. isdigit (digit_char d) \<and> digit (digit_char d) = int d \<and> \<not> isspace (digit_char d) \<and>
      (0 :: nat) < of_char (digit_char d) \<and> digit_char d \<noteq> CHR ''-'' \<and> digit_char d \<noteq> CHR ''+'' \<and>
      digit_char d \<noteq> CHR ''.'') [0..<10]"
    by code_simp
  then show "isdigit (digit_char d)" "digit (digit_char d) = int d" "\<not> isspace (digit_char d)"
    "(0 :: nat) < of_char (digit_char d)" "digit_char d \<noteq> CHR ''-''" "digit_char d \<noteq> CHR ''+''"
    "digit_char d \<noteq> CHR ''.''"
    using assms by (auto simp: list_all_iff)
qed

definition is_digits :: "string \<Rightarrow> bool" where
  "is_digits s \<longleftrightarrow> (\<forall>c \<in> set s. \<exists>d < 10. c = digit_char d)"

lemma is_digits_format [simp]: "is_digits (format_d n)" "is_digits (format_0d w n)"
proof -
  show "is_digits (format_d n)"
    by (induction n rule: format_d.induct) (subst format_d.simps, auto simp: is_digits_def intro!: exI)
  show "is_digits (format_0d w n)"
    by (induction w arbitrary: n) (auto simp: is_digits_def intro!: exI)
qed

lemma is_digits_simps [simp]:
  "is_digits []" "is_digits (s @ t) \<longleftrightarrow> is_digits s \<and> is_digits t"
  "is_digits (c # s) \<longleftrightarrow> (\<exists>d < 10. c = digit_char d) \<and> is_digits s"
  by (auto simp: is_digits_def)

lemma digits_value_append: "digits_value v (s @ t) = digits_value (digits_value v s) t"
  by (induction s arbitrary: v) simp_all

lemma digits_value_start: "digits_value v s = v * 10 ^ length s + digits_value 0 s"
proof (induction s arbitrary: v)
  case (Cons c s)
  show ?case using Cons [of "v * 10 + digit c"] Cons [of "digit c"] by (simp add: algebra_simps)
qed simp

lemma digits_value_format_d: "digits_value 0 (format_d n) = int n"
proof (induction n rule: format_d.induct)
  case (1 n)
  then show ?case
    by (subst format_d.simps) (auto simp: digits_value_append zdiv_int zmod_int)
qed

lemma digits_value_format_0d: "digits_value 0 (format_0d w n) = int (n mod 10 ^ w)"
proof (induction w arbitrary: n)
  case (Suc w)
  have "n mod 10 ^ Suc w = n div 10 mod 10 ^ w * 10 + n mod 10"
    using mod_mult2_eq [of n 10 "10 ^ w"] by simp
  then show ?case using Suc [of "n div 10"] by (simp add: digits_value_append)
qed simp

lemma digits_value_zeros: "digits_value v (replicate k CHR ''0'') = v * 10 ^ k"
  by (induction k arbitrary: v) (simp_all add: digit_def)

lemma length_format_d: "n < 10 ^ Suc k \<Longrightarrow> length (format_d n) \<le> Suc k"
proof (induction k arbitrary: n)
  case (Suc k)
  then have "n div 10 < 10 ^ Suc k" by (simp add: less_mult_imp_div_less)
  from Suc.IH [OF this] show ?case by (subst format_d.simps) simp
qed (simp add: format_d.simps)

lemma length_format_0d [simp]: "length (format_0d w n) = w"
  by (induction w arbitrary: n) simp_all

lemma format_d_Nil [simp]: "format_d n \<noteq> []"
  by (simp add: format_d.simps [of n])

lemma atoi64_digits:
  assumes "is_digits s" "s \<noteq> []" "digits_value 0 s \<le> 9223372036854775807" "0 \<le> digits_value 0 s"
  shows "atoi64 s = digits_value 0 s"
proof -
  obtain c cs where s: "s = c # cs" using assms(2) by (cases s) auto
  have "\<And>c. c \<in> set s \<Longrightarrow> (0 :: nat) < of_char c" using assms(1) by (auto simp: is_digits_def)
  then have "c_str s = s" by (rule c_str_id)
  moreover have "takeWhile isdigit s = s" and "dropWhile isspace s = s"
    and "c \<noteq> CHR ''-''" "c \<noteq> CHR ''+''"
    using assms(1) s by (auto simp: is_digits_def takeWhile_eq_all_conv)
  ultimately show ?thesis using s assms by (simp add: atoi64_def strtoll_def Let_def)
qed

lemma parse_units_digits:
  "is_digits ds \<Longrightarrow> length ds \<le> Suc j \<Longrightarrow>
     parse_units ds (10 ^ j) u = (u + digits_value 0 ds * 10 ^ (Suc j - length ds), [])"
proof (induction ds arbitrary: j u)
  case Nil
  then show ?case by (simp add: parse_units.simps)
next
  case (Cons c cs)
  show ?case
  proof (cases j)
    case 0
    then show ?thesis using Cons.prems by (auto simp: parse_units.simps [of "_ # _"] parse_units.simps [of "[]"])
  next
    case (Suc i)
    obtain d where c: "c = digit_char d" "d < 10" and cs: "is_digits cs" using Cons.prems(1) by auto
    have len: "length cs \<le> Suc i" using Cons.prems(2) Suc by simp
    have "(10 :: int) ^ j = 10 ^ length cs * 10 ^ (Suc i - length cs)"
      using len Suc by (simp flip: power_add)
    then have v: "digits_value 0 (c # cs) * 10 ^ (Suc j - length (c # cs)) =
        10 ^ j * int d + digits_value 0 cs * 10 ^ (Suc i - length cs)"
      using digits_value_start [of "int d" cs] c Suc by (simp add: algebra_simps)
    have "parse_units (c # cs) (10 ^ j) u = parse_units cs (10 ^ i) (u + 10 ^ j * int d)"
      using c Suc by (simp add: parse_units.simps [of "_ # _"])
    also have "\<dots> = (u + 10 ^ j * int d + digits_value 0 cs * 10 ^ (Suc i - length cs), [])"
      by (rule Cons.IH [OF cs len])
    finally show ?thesis unfolding v by simp
  qed
qed

lemma trim_zeros_point:
  "\<exists>k ds'. ds = replicate k CHR ''0'' @ ds' \<and> trim_zeros (ds @ CHR ''.'' # rest) = ds' @ CHR ''.'' # rest"
proof (induction ds)
  case Nil
  have "trim_zeros (CHR ''.'' # rest) = CHR ''.'' # rest"
    by (cases "CHR ''.'' # rest" rule: trim_zeros.cases) auto
  then show ?case by (intro exI [of _ 0]) simp
next
  case (Cons c ds)
  show ?case
  proof (cases "trim_zeros (c # ds @ CHR ''.'' # rest) = c # ds @ CHR ''.'' # rest")
    case True
    then show ?thesis by (intro exI [of _ 0]) simp
  next
    case False
    then have "c = CHR ''0'' \<and> trim_zeros (c # ds @ CHR ''.'' # rest) = trim_zeros (ds @ CHR ''.'' # rest)"
      by (cases "c # ds @ CHR ''.'' # rest" rule: trim_zeros.cases) (simp_all split: if_splits)
    from conjunct1 [OF this] conjunct2 [OF this]
    have "c = CHR ''0''" "trim_zeros (c # ds @ CHR ''.'' # rest) = trim_zeros (ds @ CHR ''.'' # rest)" .
    moreover obtain k ds' where "ds = replicate k CHR ''0'' @ ds'"
      "trim_zeros (ds @ CHR ''.'' # rest) = ds' @ CHR ''.'' # rest" using Cons by blast
    ultimately show ?thesis by (intro exI [of _ "Suc k"] exI [of _ ds']) auto
  qed
qed

lemma parse_money_digits:
  "is_digits ds \<Longrightarrow> parse_money_loop (ds @ CHR ''.'' # p) w =
     (case parse_units p (CENT * 10) 0 of (nUnits, rest) \<Rightarrow> Some (w @ ds, nUnits, rest))"
  by (induction ds arbitrary: w) (auto simp: is_digits_def split: prod.splits)

lemma FormatMoney_shape:
  assumes "0 \<le> n"
  shows "\<exists>k ds. FormatMoney n = format_d (nat (n div COIN)) @ ''.'' @ ds \<and>
      format_0d 8 (nat (n mod COIN)) = ds @ replicate k CHR ''0''"
proof -
  define d8 where "d8 = format_0d 8 (nat (n mod COIN))"
  obtain k ds' where k: "rev d8 = replicate k CHR ''0'' @ ds'"
    "trim_zeros (rev d8 @ CHR ''.'' # rev (format_d (nat (n div COIN)))) = ds' @ CHR ''.'' # rev (format_d (nat (n div COIN)))"
    using trim_zeros_point by blast
  have abs: "(if n > 0 then n else - n) = n" using assms by auto
  have "FormatMoney n = format_d (nat (n div COIN)) @ ''.'' @ rev ds'"
    using k(2) assms unfolding FormatMoney_def Let_def abs d8_def by simp
  moreover have "d8 = rev ds' @ replicate k CHR ''0''"
    using arg_cong [OF k(1), of rev] by simp
  ultimately show ?thesis unfolding d8_def by blast
qed

lemma ParseMoney_FormatMoney:
  assumes "0 \<le> n" "n < 1000000000000000000"
  shows "ParseMoney (FormatMoney n) = Some n"
proof -
  define q where "q = nat (n div COIN)"
  obtain k ds where f: "FormatMoney n = format_d q @ ''.'' @ ds"
    and ds: "format_0d 8 (nat (n mod COIN)) = ds @ replicate k CHR ''0''"
    using FormatMoney_shape [OF assms(1)] unfolding q_def by blast
  have "length ds + k = 8" using arg_cong [OF ds, of length] by simp
  moreover have "is_digits ds" using is_digits_format(2) [of 8 "nat (n mod COIN)"] unfolding ds by simp
  ultimately have dd: "is_digits ds" "length ds \<le> Suc 7" "length ds + k = 8" by simp_all
  have "digits_value 0 (ds @ replicate k CHR ''0'') = n mod COIN"
    unfolding ds [symmetric] by (simp add: digits_value_format_0d COIN_def)
  then have u: "digits_value 0 ds * 10 ^ (Suc 7 - length ds) = n mod COIN"
    using dd(3) by (simp add: digits_value_append digits_value_zeros) (metis diff_add_inverse)
  have pu: "parse_units ds (CENT * 10) 0 = (n mod COIN, [])"
    using parse_units_digits [OF dd(1,2), of 0] u by (simp add: CENT_def)
  have q: "int q = n div COIN" "q < 10 ^ Suc 9" using assms by (auto simp: q_def COIN_def)
  have len: "length (format_d q) \<le> 10" using length_format_d [OF q(2)] by simp
  have whole: "atoi64 (format_d q) = n div COIN"
    using q by (subst atoi64_digits) (simp_all add: digits_value_format_d)
  obtain c cs where c: "format_d q = c # cs" "\<not> isspace c"
    using is_digits_format(1) [of q] by (cases "format_d q") auto
  have "c_str (FormatMoney n) = FormatMoney n"
    using dd(1) is_digits_format(1) [of q] unfolding f by (intro c_str_id) (auto simp: is_digits_def)
  moreover have "dropWhile isspace (FormatMoney n) = FormatMoney n" using c unfolding f by simp
  moreover have "parse_money_loop (FormatMoney n) [] = Some (format_d q, n mod COIN, [])"
    unfolding f using parse_money_digits [of "format_d q" ds "[]"] pu by simp
  moreover have "0 \<le> n mod COIN" "n mod COIN \<le> COIN"
    using pos_mod_bound [of COIN n] by (simp_all add: COIN_def)
  ultimately show ?thesis
    using len whole by (simp add: ParseMoney_def)
qed

lemma ParseMoney_negative: "n < 0 \<Longrightarrow> ParseMoney (FormatMoney n) = None"
  by (simp add: FormatMoney_def Let_def ParseMoney_def c_str_def isspace_def isdigit_def)

subsection \<open>Properties\<close>

text \<open>
  The text of an amount from zero up to 10,000,000,000 coins is read back as the amount; the
  text of a negative amount is refused.
\<close>

theorem ParseMoney_reads_FormatMoney:
  assumes "n < 10000000000 * COIN"
  shows "ParseMoney (FormatMoney n) = (if n < 0 then None else Some n)"
  using ParseMoney_FormatMoney [of n] ParseMoney_negative [of n] assms by (simp add: COIN_def)

lemma ParseMoney_reads_FormatMoney_witness:
  "ParseMoney (FormatMoney 123450000) = Some 123450000 \<and> ParseMoney (FormatMoney (- 5)) = None"
  using ParseMoney_reads_FormatMoney [of 123450000] ParseMoney_reads_FormatMoney [of "- 5"]
  by (simp add: COIN_def)

end
