(* ===== verification/Chain.thy ===== *)
theory Chain
  imports Uint256
begin

text \<open>
  The block index of \<open>chain.h\<close> and \<open>chain.cpp\<close>: a tree of \<open>CBlockIndex\<close> nodes that
  refer to each other by pointer (\<open>pprev\<close>, \<open>pskip\<close>), with the skip list walk
  \<open>GetAncestor\<close>, and the active chain \<open>CChain\<close> kept as a vector of pointers.

  Pointers are block identifiers, \<open>None\<close> is the null pointer, and the heap of block
  indices is a function from identifiers to nodes (an identifier that was never allocated
  holds a default constructed node).  A loop over pointers is a partial function, so that a
  walk that does not come back, a failed assertion or an access out of a vector's range is
  the value \<open>None\<close>.
\<close>

unbundle bit_operations_syntax

subsection \<open>Block headers and block index nodes\<close>

record CBlockHeader =
  hdr_nVersion :: "32 word"
  hdr_hashPrevBlock :: uint256
  hdr_hashMerkleRoot :: uint256
  hdr_hashClaimTrie :: uint256
  hdr_nTime :: u32
  hdr_nBits :: u32
  hdr_nNonce :: uint256

definition CBlockHeader_SetNull :: CBlockHeader where
  "CBlockHeader_SetNull = \<lparr>hdr_nVersion = 1, hdr_hashPrevBlock = blob_SetNull 256,
     hdr_hashMerkleRoot = blob_SetNull 256, hdr_hashClaimTrie = blob_SetNull 256,
     hdr_nTime = 0, hdr_nBits = 0, hdr_nNonce = blob_SetNull 256\<rparr>"

definition CBlockHeader_IsNull :: "CBlockHeader \<Rightarrow> bool" where
  "CBlockHeader_IsNull h \<longleftrightarrow> hdr_nBits h = 0"

definition BLOCK_VALID_UNKNOWN :: u32 where "BLOCK_VALID_UNKNOWN = 0"
definition BLOCK_VALID_HEADER :: u32 where "BLOCK_VALID_HEADER = 1"
definition BLOCK_VALID_TREE :: u32 where "BLOCK_VALID_TREE = 2"
definition BLOCK_VALID_TRANSACTIONS :: u32 where "BLOCK_VALID_TRANSACTIONS = 3"
definition BLOCK_VALID_CHAIN :: u32 where "BLOCK_VALID_CHAIN = 4"
definition BLOCK_VALID_SCRIPTS :: u32 where "BLOCK_VALID_SCRIPTS = 5"

definition BLOCK_VALID_MASK :: u32 where
  "BLOCK_VALID_MASK = BLOCK_VALID_HEADER OR BLOCK_VALID_TREE OR BLOCK_VALID_TRANSACTIONS OR
     BLOCK_VALID_CHAIN OR BLOCK_VALID_SCRIPTS"

definition BLOCK_HAVE_DATA :: u32 where "BLOCK_HAVE_DATA = 8"
definition BLOCK_HAVE_UNDO :: u32 where "BLOCK_HAVE_UNDO = 16"
definition BLOCK_FAILED_VALID :: u32 where "BLOCK_FAILED_VALID = 32"
definition BLOCK_FAILED_CHILD :: u32 where "BLOCK_FAILED_CHILD = 64"
definition BLOCK_FAILED_MASK :: u32 where
  "BLOCK_FAILED_MASK = BLOCK_FAILED_VALID OR BLOCK_FAILED_CHILD"

record CDiskBlockPos =
  pos_nFile :: int
  pos_nPos :: u32

definition CDiskBlockPos_SetNull :: CDiskBlockPos where
  "CDiskBlockPos_SetNull = \<lparr>pos_nFile = - 1, pos_nPos = 0\<rparr>"

definition CDiskBlockPos_IsNull :: "CDiskBlockPos \<Rightarrow> bool" where
  "CDiskBlockPos_IsNull p \<longleftrightarrow> pos_nFile p = - 1"

type_synonym block_id = nat

record CBlockIndex =
  phashBlock :: uint256
  pprev :: "block_id option"
  pskip :: "block_id option"
  nHeight :: int
  nFile :: int
  nDataPos :: u32
  nUndoPos :: u32
  nChainWork :: base_uint
  nTx :: u32
  nChainTx :: u32
  nStatus :: u32
  nVersion :: "32 word"
  hashMerkleRoot :: uint256
  hashClaimTrie :: uint256
  nTime :: u32
  nBits :: u32
  nNonce :: uint256
  nSequenceId :: u32

type_synonym block_store = "block_id \<Rightarrow> CBlockIndex"

definition CBlockIndex_default :: CBlockIndex where
  "CBlockIndex_default = \<lparr>phashBlock = blob_SetNull 256, pprev = None, pskip = None,
     nHeight = 0, nFile = 0, nDataPos = 0, nUndoPos = 0, nChainWork = uint_zero, nTx = 0,
     nChainTx = 0, nStatus = 0, nVersion = 0, hashMerkleRoot = blob_SetNull 256,
     hashClaimTrie = blob_SetNull 256, nTime = 0, nBits = 0, nNonce = blob_SetNull 256,
     nSequenceId = 0\<rparr>"

text \<open>\<open>explicit CBlockIndex(const CBlockHeader& block)\<close>\<close>

definition CBlockIndex_of_header :: "CBlockHeader \<Rightarrow> CBlockIndex" where
  "CBlockIndex_of_header block = CBlockIndex_default\<lparr>nVersion := hdr_nVersion block,
     hashMerkleRoot := hdr_hashMerkleRoot block, hashClaimTrie := hdr_hashClaimTrie block,
     nTime := hdr_nTime block, nBits := hdr_nBits block, nNonce := hdr_nNonce block\<rparr>"

definition GetBlockHeader :: "block_store \<Rightarrow> block_id \<Rightarrow> CBlockHeader" where
  "GetBlockHeader S p = \<lparr>hdr_nVersion = nVersion (S p),
     hdr_hashPrevBlock = (case pprev (S p) of None \<Rightarrow> blob_SetNull 256 | Some q \<Rightarrow> phashBlock (S q)),
     hdr_hashMerkleRoot = hashMerkleRoot (S p), hdr_hashClaimTrie = hashClaimTrie (S p),
     hdr_nTime = nTime (S p), hdr_nBits = nBits (S p), hdr_nNonce = nNonce (S p)\<rparr>"

definition GetBlockPos :: "CBlockIndex \<Rightarrow> CDiskBlockPos" where
  "GetBlockPos b = (if nStatus b AND BLOCK_HAVE_DATA \<noteq> 0
     then \<lparr>pos_nFile = nFile b, pos_nPos = nDataPos b\<rparr> else CDiskBlockPos_SetNull)"

definition GetUndoPos :: "CBlockIndex \<Rightarrow> CDiskBlockPos" where
  "GetUndoPos b = (if nStatus b AND BLOCK_HAVE_UNDO \<noteq> 0
     then \<lparr>pos_nFile = nFile b, pos_nPos = nUndoPos b\<rparr> else CDiskBlockPos_SetNull)"

text \<open>The assertion that only validity flags are passed is the outer \<open>option\<close>.\<close>

definition IsValid :: "CBlockIndex \<Rightarrow> u32 \<Rightarrow> bool option" where
  "IsValid b nUpTo =
     (if nUpTo AND NOT BLOCK_VALID_MASK \<noteq> 0 then None
      else if nStatus b AND BLOCK_FAILED_MASK \<noteq> 0 then Some False
      else Some (nUpTo \<le> nStatus b AND BLOCK_VALID_MASK))"

definition RaiseValidity :: "CBlockIndex \<Rightarrow> u32 \<Rightarrow> (CBlockIndex \<times> bool) option" where
  "RaiseValidity b nUpTo =
     (if nUpTo AND NOT BLOCK_VALID_MASK \<noteq> 0 then None
      else if nStatus b AND BLOCK_FAILED_MASK \<noteq> 0 then Some (b, False)
      else if nStatus b AND BLOCK_VALID_MASK < nUpTo
        then Some (b\<lparr>nStatus := (nStatus b AND NOT BLOCK_VALID_MASK) OR nUpTo\<rparr>, True)
      else Some (b, False))"

subsection \<open>Median time\<close>

definition GetBlockTime :: "CBlockIndex \<Rightarrow> int" where
  "GetBlockTime b = uint (nTime b)"

definition nMedianTimeSpan :: nat where
  "nMedianTimeSpan = 11"

text \<open>The loop that fills \<open>pmedian\<close> from its end; the newest time is the last element.\<close>

fun median_window :: "block_store \<Rightarrow> nat \<Rightarrow> block_id option \<Rightarrow> int list \<Rightarrow> int list" where
  "median_window S 0 pindex acc = acc"
| "median_window S (Suc n) None acc = acc"
| "median_window S (Suc n) (Some p) acc = median_window S n (pprev (S p)) (GetBlockTime (S p) # acc)"

definition GetMedianTimePast :: "block_store \<Rightarrow> block_id \<Rightarrow> int" where
  "GetMedianTimePast S p =
     (let times = sort (median_window S nMedianTimeSpan (Some p) []) in times ! (length times div 2))"

subsection \<open>The skip list\<close>

definition InvertLowestOne :: "int \<Rightarrow> int" where
  "InvertLowestOne n = n AND (n - 1)"

definition GetSkipHeight :: "int \<Rightarrow> int" where
  "GetSkipHeight height =
     (if height < 2 then 0
      else if height AND 1 \<noteq> 0 then InvertLowestOne (InvertLowestOne (height - 1)) + 1
      else InvertLowestOne height)"

partial_function (option) ancestor_walk ::
  "block_store \<Rightarrow> int \<Rightarrow> int \<Rightarrow> block_id \<Rightarrow> block_id option" where
  "ancestor_walk S height heightWalk w =
     (if height < heightWalk
      then let heightSkip = GetSkipHeight heightWalk;
               heightSkipPrev = GetSkipHeight (heightWalk - 1)
           in if pskip (S w) \<noteq> None \<and>
                 (heightSkip = height \<or>
                  heightSkip > height \<and>
                    \<not> (heightSkipPrev < heightSkip - 2 \<and> height \<le> heightSkipPrev))
              then ancestor_walk S height heightSkip (the (pskip (S w)))
              else (case pprev (S w) of
                  None \<Rightarrow> None
                | Some q \<Rightarrow> ancestor_walk S height (heightWalk - 1) q)
      else Some w)"

text \<open>The outer \<open>None\<close> is the failed assertion, the inner one the null pointer.\<close>

definition GetAncestor :: "block_store \<Rightarrow> block_id \<Rightarrow> int \<Rightarrow> block_id option option" where
  "GetAncestor S p height =
     (if nHeight (S p) < height \<or> height < 0 then Some None
      else map_option Some (ancestor_walk S height (nHeight (S p)) p))"

definition BuildSkip :: "block_store \<Rightarrow> block_id \<Rightarrow> block_store option" where
  "BuildSkip S p = (case pprev (S p) of
      None \<Rightarrow> Some S
    | Some q \<Rightarrow> (case GetAncestor S q (GetSkipHeight (nHeight (S p))) of
          None \<Rightarrow> None
        | Some s \<Rightarrow> Some (S(p := (S p)\<lparr>pskip := s\<rparr>))))"

subsection \<open>The active chain\<close>

type_synonym CChain = "block_id option list"

definition Genesis :: "CChain \<Rightarrow> block_id option" where
  "Genesis vChain = (if 0 < length vChain then vChain ! 0 else None)"

definition Tip :: "CChain \<Rightarrow> block_id option" where
  "Tip vChain = (if 0 < length vChain then vChain ! (length vChain - 1) else None)"

definition chain_at :: "CChain \<Rightarrow> int \<Rightarrow> block_id option" where
  "chain_at vChain h = (if h < 0 \<or> int (length vChain) \<le> h then None else vChain ! nat h)"

text \<open>
  \<open>operator==\<close> reads the last elements whenever the sizes agree; on two empty chains that
  is an access out of range.
\<close>

definition chain_eq :: "CChain \<Rightarrow> CChain \<Rightarrow> bool option" where
  "chain_eq a b = (if length a \<noteq> length b then Some False
     else if a = [] then None
     else Some (a ! (length a - 1) = b ! (length b - 1)))"

definition Contains :: "block_store \<Rightarrow> CChain \<Rightarrow> block_id \<Rightarrow> bool" where
  "Contains S vChain p \<longleftrightarrow> chain_at vChain (nHeight (S p)) = Some p"

definition Next :: "block_store \<Rightarrow> CChain \<Rightarrow> block_id \<Rightarrow> block_id option" where
  "Next S vChain p = (if Contains S vChain p then chain_at vChain (nHeight (S p) + 1) else None)"

definition Height :: "CChain \<Rightarrow> int" where
  "Height vChain = int (length vChain) - 1"

definition chain_resize :: "nat \<Rightarrow> CChain \<Rightarrow> CChain" where
  "chain_resize n vChain = take n vChain @ replicate (n - length vChain) None"

partial_function (option) SetTip_loop ::
  "block_store \<Rightarrow> CChain \<Rightarrow> block_id option \<Rightarrow> CChain option" where
  "SetTip_loop S vChain pindex = (case pindex of
      None \<Rightarrow> Some vChain
    | Some p \<Rightarrow>
        if nHeight (S p) < 0 \<or> int (length vChain) \<le> nHeight (S p) then None
        else if vChain ! nat (nHeight (S p)) \<noteq> Some p
          then SetTip_loop S (vChain[nat (nHeight (S p)) := Some p]) (pprev (S p))
          else Some vChain)"

definition SetTip :: "block_store \<Rightarrow> CChain \<Rightarrow> block_id option \<Rightarrow> CChain option" where
  "SetTip S vChain pindex = (case pindex of
      None \<Rightarrow> Some []
    | Some p \<Rightarrow> SetTip_loop S (chain_resize (nat (nHeight (S p) + 1)) vChain) pindex)"

partial_function (option) GetLocator_loop ::
  "block_store \<Rightarrow> CChain \<Rightarrow> int \<Rightarrow> uint256 list \<Rightarrow> block_id option \<Rightarrow> uint256 list option" where
  "GetLocator_loop S vChain nStep vHave pindex = (case pindex of
      None \<Rightarrow> Some vHave
    | Some p \<Rightarrow>
        let vHave = vHave @ [phashBlock (S p)] in
        if nHeight (S p) = 0 then Some vHave
        else let h = max (nHeight (S p) - nStep) 0;
                 next_step = (if length vHave > 10 then nStep * 2 else nStep)
             in if Contains S vChain p
                then GetLocator_loop S vChain next_step vHave (chain_at vChain h)
                else (case GetAncestor S p h of
                    None \<Rightarrow> None
                  | Some q \<Rightarrow> GetLocator_loop S vChain next_step vHave q))"

definition GetLocator :: "block_store \<Rightarrow> CChain \<Rightarrow> block_id option \<Rightarrow> uint256 list option" where
  "GetLocator S vChain pindex =
     GetLocator_loop S vChain 1 [] (if pindex = None then Tip vChain else pindex)"

partial_function (option) FindFork_loop ::
  "block_store \<Rightarrow> CChain \<Rightarrow> block_id option \<Rightarrow> block_id option option" where
  "FindFork_loop S vChain pindex = (case pindex of
      None \<Rightarrow> Some None
    | Some p \<Rightarrow> if \<not> Contains S vChain p then FindFork_loop S vChain (pprev (S p)) else Some pindex)"

definition FindFork :: "block_store \<Rightarrow> CChain \<Rightarrow> block_id option \<Rightarrow> block_id option option" where
  "FindFork S vChain pindex = (case pindex of
      None \<Rightarrow> Some None
    | Some p \<Rightarrow>
        if Height vChain < nHeight (S p)
        then (case GetAncestor S p (Height vChain) of
            None \<Rightarrow> None
          | Some q \<Rightarrow> FindFork_loop S vChain q)
        else FindFork_loop S vChain pindex)"

subsection \<open>Ancestors\<close>

lemma InvertLowestOne_less: "0 < n \<Longrightarrow> InvertLowestOne n < n"
  using AND_upper2 [of "n - 1" n] by (simp add: InvertLowestOne_def)

lemma InvertLowestOne_nonneg: "0 \<le> n \<Longrightarrow> 0 \<le> InvertLowestOne n"
  by (simp add: InvertLowestOne_def)

lemma InvertLowestOne_even: "even n \<Longrightarrow> even (InvertLowestOne n)"
  by (simp add: InvertLowestOne_def even_and_iff)

lemma GetSkipHeight_bounds:
  assumes "0 < h"
  shows "0 \<le> GetSkipHeight h \<and> GetSkipHeight h < h"
proof (cases "h < 2")
  case True
  then show ?thesis using assms by (simp add: GetSkipHeight_def)
next
  case False
  have inner: "InvertLowestOne (h - 1) < h - 1" "0 \<le> InvertLowestOne (h - 1)"
    using False InvertLowestOne_less [of "h - 1"] InvertLowestOne_nonneg [of "h - 1"] by simp_all
  have "InvertLowestOne (InvertLowestOne (h - 1)) \<le> InvertLowestOne (h - 1)"
    using inner InvertLowestOne_less [of "InvertLowestOne (h - 1)"]
    by (cases "InvertLowestOne (h - 1) = 0") (simp_all add: InvertLowestOne_def)
  then show ?thesis
    using False inner InvertLowestOne_less [of h] InvertLowestOne_nonneg [of h]
      InvertLowestOne_nonneg [of "InvertLowestOne (h - 1)"]
    by (auto simp: GetSkipHeight_def)
qed

text \<open>
  The reference walk: \<open>n\<close> steps along \<open>pprev\<close>.  In a well formed store heights grow by
  one along \<open>pprev\<close>, only blocks at height zero have no predecessor, and a skip pointer
  leads to the ancestor at the height that \<open>GetSkipHeight\<close> computes.
\<close>

fun up :: "block_store \<Rightarrow> nat \<Rightarrow> block_id \<Rightarrow> block_id option" where
  "up S 0 p = Some p"
| "up S (Suc n) p = (case pprev (S p) of None \<Rightarrow> None | Some q \<Rightarrow> up S n q)"

definition wf_store :: "block_store \<Rightarrow> bool" where
  "wf_store S \<longleftrightarrow> (\<forall>p.
     (case pprev (S p) of None \<Rightarrow> nHeight (S p) = 0
      | Some q \<Rightarrow> 0 \<le> nHeight (S q) \<and> nHeight (S p) = nHeight (S q) + 1) \<and>
     (case pskip (S p) of None \<Rightarrow> True
      | Some s \<Rightarrow> 0 < nHeight (S p) \<and>
          up S (nat (nHeight (S p) - GetSkipHeight (nHeight (S p)))) p = Some s))"

lemma wf_pprev: "wf_store S \<Longrightarrow> pprev (S p) = Some q \<Longrightarrow> nHeight (S p) = nHeight (S q) + 1 \<and> 0 \<le> nHeight (S q)"
  unfolding wf_store_def by (drule spec [of _ p]) simp

lemma wf_root: "wf_store S \<Longrightarrow> pprev (S p) = None \<longleftrightarrow> nHeight (S p) = 0"
  unfolding wf_store_def by (drule spec [of _ p]) (auto split: option.splits)

lemma wf_height: "wf_store S \<Longrightarrow> 0 \<le> nHeight (S p)"
  unfolding wf_store_def by (drule spec [of _ p]) (auto split: option.splits)

lemma wf_pskip: "wf_store S \<Longrightarrow> pskip (S p) = Some s \<Longrightarrow> 0 < nHeight (S p) \<and>
    up S (nat (nHeight (S p) - GetSkipHeight (nHeight (S p)))) p = Some s"
  unfolding wf_store_def by (drule spec [of _ p]) simp

lemma up_add: "up S (m + n) p = (case up S m p of None \<Rightarrow> None | Some q \<Rightarrow> up S n q)"
  by (induction S m p rule: up.induct) (auto split: option.splits)

lemma up_height: "wf_store S \<Longrightarrow> up S n p = Some q \<Longrightarrow> nHeight (S q) = nHeight (S p) - int n"
  by (induction S n p rule: up.induct) (auto split: option.splits dest: wf_pprev)

lemma up_total: "wf_store S \<Longrightarrow> int n \<le> nHeight (S p) \<Longrightarrow> \<exists>q. up S n p = Some q"
proof (induction n arbitrary: p)
  case 0
  then show ?case by simp
next
  case (Suc n)
  then obtain q where q: "pprev (S p) = Some q" using wf_root [of S p] by (cases "pprev (S p)") auto
  with Suc.prems have "int n \<le> nHeight (S q)" using wf_pprev [of S p q] by simp
  with Suc show ?case using q by simp
qed

lemma up_split:
  assumes "up S m p = Some q" and "m \<le> n"
  shows "up S n p = up S (n - m) q"
  using assms up_add [of S m "n - m" p] by simp

lemma ancestor_walk_up:
  assumes "wf_store S" and "0 \<le> h" and "h \<le> nHeight (S w)"
  shows "ancestor_walk S h (nHeight (S w)) w = up S (nat (nHeight (S w) - h)) w"
  using assms(3)
proof (induction "nat (nHeight (S w))" arbitrary: w rule: less_induct)
  case less
  let ?hw = "nHeight (S w)"
  show ?case
  proof (cases "h < ?hw")
    case False
    then show ?thesis using less.prems by (subst ancestor_walk.simps) simp
  next
    case True
    show ?thesis
    proof (cases "pskip (S w) \<noteq> None \<and>
                 (GetSkipHeight ?hw = h \<or> GetSkipHeight ?hw > h \<and>
                    \<not> (GetSkipHeight (?hw - 1) < GetSkipHeight ?hw - 2 \<and> h \<le> GetSkipHeight (?hw - 1)))")
      case True
      then obtain s where s: "pskip (S w) = Some s" by auto
      have ups: "up S (nat (?hw - GetSkipHeight ?hw)) w = Some s"
        using wf_pskip [OF assms(1) s] by simp
      have sb: "GetSkipHeight ?hw < ?hw" "h \<le> GetSkipHeight ?hw"
        using GetSkipHeight_bounds [of ?hw] \<open>h < ?hw\<close> assms(2) True by auto
      have hs: "nHeight (S s) = GetSkipHeight ?hw"
        using up_height [OF assms(1) ups] sb by simp
      have "ancestor_walk S h ?hw w = ancestor_walk S h (nHeight (S s)) s"
        using \<open>h < ?hw\<close> True s by (subst ancestor_walk.simps) (simp add: Let_def hs)
      also have "\<dots> = up S (nat (nHeight (S s) - h)) s"
        using less.hyps [of s] sb hs assms(2) by simp
      also have "\<dots> = up S (nat (?hw - h)) w"
      proof -
        have "nat (?hw - h) - nat (?hw - GetSkipHeight ?hw) = nat (nHeight (S s) - h)"
          using sb assms(2) hs by linarith
        then show ?thesis using up_split [OF ups, of "nat (?hw - h)"] sb by simp
      qed
      finally show ?thesis .
    next
      case skip: False
      obtain q where q: "pprev (S w) = Some q"
        using wf_root [OF assms(1), of w] \<open>h < ?hw\<close> assms(2) by (cases "pprev (S w)") auto
      have hq: "nHeight (S q) = ?hw - 1" using wf_pprev [OF assms(1) q] by simp
      have "ancestor_walk S h ?hw w = ancestor_walk S h (nHeight (S q)) q"
        by (subst ancestor_walk.simps)
          (simp only: Let_def if_P [OF \<open>h < ?hw\<close>] if_not_P [OF skip] q hq option.case)
      also have "\<dots> = up S (nat (nHeight (S q) - h)) q"
        using less.hyps [of q] hq \<open>h < ?hw\<close> assms(2) by simp
      also have "\<dots> = up S (Suc (nat (nHeight (S q) - h))) w" using q by simp
      also have "Suc (nat (nHeight (S q) - h)) = nat (?hw - h)" using hq \<open>h < ?hw\<close> by simp
      finally show ?thesis .
    qed
  qed
qed

lemma GetAncestor_up:
  assumes "wf_store S"
  shows "GetAncestor S p h = Some (if 0 \<le> h \<and> h \<le> nHeight (S p)
    then up S (nat (nHeight (S p) - h)) p else None)"
proof (cases "0 \<le> h \<and> h \<le> nHeight (S p)")
  case True
  then obtain q where "up S (nat (nHeight (S p) - h)) p = Some q"
    using up_total [OF assms, of "nat (nHeight (S p) - h)" p] by auto
  with True show ?thesis using ancestor_walk_up [OF assms, of h p] by (simp add: GetAncestor_def)
qed (auto simp: GetAncestor_def)

lemma up_store_pskip: "up (S(p := (S p)\<lparr>pskip := s\<rparr>)) n q = up S n q"
  by (induction S n q rule: up.induct) (auto split: option.splits)

lemma BuildSkip_wf:
  assumes "wf_store S" and "BuildSkip S p = Some S'"
  shows "wf_store S'"
proof (cases "pprev (S p)")
  case None
  with assms show ?thesis by (simp add: BuildSkip_def)
next
  case (Some q)
  let ?h = "nHeight (S p)"
  have hq: "?h = nHeight (S q) + 1" "0 \<le> nHeight (S q)" using wf_pprev [OF assms(1) Some] by auto
  have g: "0 \<le> GetSkipHeight ?h" "GetSkipHeight ?h \<le> nHeight (S q)"
    using GetSkipHeight_bounds [of ?h] hq by auto
  define s where "s = up S (nat (nHeight (S q) - GetSkipHeight ?h)) q"
  have "Suc (nat (nHeight (S q) - GetSkipHeight ?h)) = nat (?h - GetSkipHeight ?h)"
    using g hq by simp
  then have up_s: "up S (nat (?h - GetSkipHeight ?h)) p = s"
    using Some by (metis s_def up.simps(2) option.simps(5))
  have S': "S' = S(p := (S p)\<lparr>pskip := s\<rparr>)"
    using assms(2) Some g GetAncestor_up [OF assms(1), of q "GetSkipHeight ?h"]
    by (simp add: BuildSkip_def s_def)
  have fields: "nHeight (S' r) = nHeight (S r)" "pprev (S' r) = pprev (S r)"
      "pskip (S' r) = (if r = p then s else pskip (S r))" "up S' n r = up S n r" for r n
    by (simp_all add: S' up_store_pskip)
  show ?thesis
    unfolding wf_store_def fields
  proof
    fix r
    have "(case pprev (S r) of None \<Rightarrow> nHeight (S r) = 0
        | Some q \<Rightarrow> 0 \<le> nHeight (S q) \<and> nHeight (S r) = nHeight (S q) + 1) \<and>
       (case pskip (S r) of None \<Rightarrow> True
        | Some s \<Rightarrow> 0 < nHeight (S r) \<and>
            up S (nat (nHeight (S r) - GetSkipHeight (nHeight (S r)))) r = Some s)"
      using assms(1) unfolding wf_store_def by (rule spec)
    then show "(case pprev (S r) of None \<Rightarrow> nHeight (S r) = 0
        | Some q \<Rightarrow> 0 \<le> nHeight (S q) \<and> nHeight (S r) = nHeight (S q) + 1) \<and>
       (case if r = p then s else pskip (S r) of None \<Rightarrow> True
        | Some s \<Rightarrow> 0 < nHeight (S r) \<and>
            up S (nat (nHeight (S r) - GetSkipHeight (nHeight (S r)))) r = Some s)"
      using hq up_s by (simp split: option.splits)
  qed
qed

subsection \<open>The active chain is a path\<close>

definition chain_ok :: "block_store \<Rightarrow> CChain \<Rightarrow> bool" where
  "chain_ok S v \<longleftrightarrow> (\<forall>i < length v. \<exists>p. v ! i = Some p \<and> nHeight (S p) = int i \<and>
     (0 < i \<longrightarrow> pprev (S p) = v ! (i - 1)))"

lemma chain_okD:
  assumes "chain_ok S v" and "i < length v" and "v ! i = Some p"
  shows "nHeight (S p) = int i" and "0 < i \<Longrightarrow> pprev (S p) = v ! (i - 1)"
  using assms unfolding chain_ok_def by auto

lemma length_chain_resize [simp]: "length (chain_resize n v) = n"
  by (simp add: chain_resize_def)

lemma nth_chain_resize: "i < n \<Longrightarrow> chain_resize n v ! i = (if i < length v then v ! i else None)"
  by (auto simp: chain_resize_def nth_append)

text \<open>
  The invariant of the loop of \<open>SetTip\<close>: entries above the current block are a path that
  ends in it, entries up to it are those of a consistent chain or null.
\<close>

lemma SetTip_loop_ok:
  assumes "wf_store S" and "nHeight (S p) < int (length v)"
    and "\<And>i. int i \<le> nHeight (S p) \<Longrightarrow> v ! i \<noteq> None \<Longrightarrow>
      \<exists>q. v ! i = Some q \<and> nHeight (S q) = int i \<and> (0 < i \<longrightarrow> v ! (i - 1) \<noteq> None \<and> pprev (S q) = v ! (i - 1))"
    and "\<And>i. nHeight (S p) < int i \<Longrightarrow> i < length v \<Longrightarrow> \<exists>q. v ! i = Some q \<and> nHeight (S q) = int i \<and>
      pprev (S q) = (if int i = nHeight (S p) + 1 then Some p else v ! (i - 1))"
  shows "\<exists>v'. SetTip_loop S v (Some p) = Some v' \<and> chain_ok S v' \<and> length v' = length v \<and>
    v' ! nat (nHeight (S p)) = Some p \<and> (\<forall>i < length v. nHeight (S p) < int i \<longrightarrow> v' ! i = v ! i)"
  using assms(2-4)
proof (induction "nat (nHeight (S p))" arbitrary: p v rule: less_induct)
  case less
  have h0: "0 \<le> nHeight (S p)" by (rule wf_height [OF assms(1)])
  let ?h = "nat (nHeight (S p))"
  have hl: "?h < length v" using less.prems(1) h0 by simp
  show ?case
  proof (cases "v ! ?h = Some p")
    case True
    have down: "\<exists>q. v ! i = Some q \<and> nHeight (S q) = int i \<and> (0 < i \<longrightarrow> pprev (S q) = v ! (i - 1))"
      if "i \<le> ?h" for i
      using that
    proof (induction "?h - i" arbitrary: i)
      case 0
      then have "i = ?h" by simp
      then show ?case using less.prems(2) [of ?h] True h0 by auto
    next
      case (Suc n)
      have "n = ?h - Suc i" "Suc i \<le> ?h" using Suc.hyps(2) by linarith+
      then have "v ! Suc i \<noteq> None" using Suc.hyps(1) [of "Suc i"] by auto
      moreover have "int (Suc i) \<le> nHeight (S p)" using \<open>Suc i \<le> ?h\<close> h0 by linarith
      ultimately have "v ! i \<noteq> None" using less.prems(2) [of "Suc i"] by auto
      moreover have "int i \<le> nHeight (S p)" using \<open>Suc i \<le> ?h\<close> h0 by linarith
      ultimately obtain q where "v ! i = Some q" "nHeight (S q) = int i"
        "0 < i \<longrightarrow> v ! (i - 1) \<noteq> None \<and> pprev (S q) = v ! (i - 1)"
        using less.prems(2) [of i] by blast
      then show ?case by simp
    qed
    have "chain_ok S v"
      unfolding chain_ok_def
    proof (intro allI impI)
      fix i assume i: "i < length v"
      show "\<exists>p. v ! i = Some p \<and> nHeight (S p) = int i \<and> (0 < i \<longrightarrow> pprev (S p) = v ! (i - 1))"
      proof (cases "i \<le> ?h")
        case le: True
        then show ?thesis by (rule down)
      next
        case gt: False
        then have "nHeight (S p) < int i" by simp
        from less.prems(3) [OF this i] obtain q where q: "v ! i = Some q" "nHeight (S q) = int i"
          "pprev (S q) = (if int i = nHeight (S p) + 1 then Some p else v ! (i - 1))" by blast
        have "int i = nHeight (S p) + 1 \<Longrightarrow> i - 1 = ?h" using h0 by linarith
        with q True show ?thesis by auto
      qed
    qed
    then show ?thesis using True h0 less.prems(1) by (subst SetTip_loop.simps) simp
  next
    case False
    let ?v = "v[?h := Some p]"
    show ?thesis
    proof (cases "pprev (S p)")
      case None
      then have "nHeight (S p) = 0" using wf_root [OF assms(1)] by simp
      have "chain_ok S ?v"
        unfolding chain_ok_def
      proof (intro allI impI)
        fix i assume i: "i < length ?v"
        show "\<exists>r. ?v ! i = Some r \<and> nHeight (S r) = int i \<and> (0 < i \<longrightarrow> pprev (S r) = ?v ! (i - 1))"
        proof (cases "i = 0")
          case True
          then show ?thesis using \<open>nHeight (S p) = 0\<close> hl by simp
        next
          case False
          then have "nHeight (S p) < int i" using \<open>nHeight (S p) = 0\<close> by simp
          from less.prems(3) [OF this] i obtain r where "v ! i = Some r" "nHeight (S r) = int i"
            "pprev (S r) = (if int i = nHeight (S p) + 1 then Some p else v ! (i - 1))" by auto
          then show ?thesis using False hl \<open>nHeight (S p) = 0\<close>
            by (cases "i = 1") (auto simp: nth_list_update)
        qed
      qed
      then show ?thesis using False h0 hl None less.prems(1)
        by (subst SetTip_loop.simps, subst SetTip_loop.simps) auto
    next
      case (Some q)
      have hq: "nHeight (S p) = nHeight (S q) + 1" "0 \<le> nHeight (S q)"
        using wf_pprev [OF assms(1) Some] by auto
      have "\<exists>v'. SetTip_loop S ?v (Some q) = Some v' \<and> chain_ok S v' \<and> length v' = length ?v \<and>
        v' ! nat (nHeight (S q)) = Some q \<and> (\<forall>i < length ?v. nHeight (S q) < int i \<longrightarrow> v' ! i = ?v ! i)"
      proof (rule less.hyps)
        show "nat (nHeight (S q)) < ?h" using hq by simp
        show "nHeight (S q) < int (length ?v)" using hq less.prems(1) by simp
        fix i
        show "\<exists>r. ?v ! i = Some r \<and> nHeight (S r) = int i \<and>
            (0 < i \<longrightarrow> ?v ! (i - 1) \<noteq> None \<and> pprev (S r) = ?v ! (i - 1))"
          if "int i \<le> nHeight (S q)" "?v ! i \<noteq> None"
          using that less.prems(2) [of i] hq by (auto simp: nth_list_update)
        show "\<exists>r. ?v ! i = Some r \<and> nHeight (S r) = int i \<and>
            pprev (S r) = (if int i = nHeight (S q) + 1 then Some q else ?v ! (i - 1))"
          if i: "nHeight (S q) < int i" "i < length ?v"
        proof (cases "i = ?h")
          case True
          then show ?thesis using hl hq Some by simp
        next
          case ne: False
          then have gt: "nHeight (S p) < int i" using i hq by simp
          have il: "i < length v" using i(2) by simp
          from less.prems(3) [OF gt il] obtain r where r: "v ! i = Some r" "nHeight (S r) = int i"
            "pprev (S r) = (if int i = nHeight (S p) + 1 then Some p else v ! (i - 1))" by blast
          have n1: "?v ! (i - 1) = (if int i = nHeight (S p) + 1 then Some p else v ! (i - 1))"
          proof (cases "int i = nHeight (S p) + 1")
            case True
            then have "i - 1 = ?h" using h0 by linarith
            then show ?thesis using True hl by simp
          next
            case False
            then have "i - 1 \<noteq> ?h" using gt h0 by linarith
            then show ?thesis using False by simp
          qed
          have "int i \<noteq> nHeight (S q) + 1" using gt hq by simp
          then show ?thesis using r ne n1 by simp
        qed
      qed
      then obtain v' where v': "SetTip_loop S ?v (Some q) = Some v'" "chain_ok S v'" "length v' = length v"
        "\<And>i. i < length v \<Longrightarrow> nHeight (S q) < int i \<Longrightarrow> v' ! i = ?v ! i"
        by auto
      have "SetTip_loop S v (Some p) = Some v'"
        using False h0 less.prems(1) v'(1) Some by (subst SetTip_loop.simps) simp
      moreover have "v' ! ?h = Some p" using v'(4) [of ?h] hl hq h0 by simp
      moreover have "\<forall>i < length v. nHeight (S p) < int i \<longrightarrow> v' ! i = v ! i"
        using v'(4) hq by (auto simp: nth_list_update)
      ultimately show ?thesis using v' by blast
    qed
  qed
qed

lemma SetTip_ok:
  assumes "wf_store S" and "chain_ok S v"
  shows "\<exists>v'. SetTip S v (Some p) = Some v' \<and> chain_ok S v' \<and>
    int (length v') = nHeight (S p) + 1 \<and> Tip v' = Some p"
proof -
  let ?n = "nat (nHeight (S p) + 1)"
  have h0: "0 \<le> nHeight (S p)" by (rule wf_height [OF assms(1)])
  have "\<exists>v'. SetTip_loop S (chain_resize ?n v) (Some p) = Some v' \<and> chain_ok S v' \<and>
    length v' = length (chain_resize ?n v) \<and> v' ! nat (nHeight (S p)) = Some p \<and>
    (\<forall>i < length (chain_resize ?n v). nHeight (S p) < int i \<longrightarrow> v' ! i = chain_resize ?n v ! i)"
  proof (rule SetTip_loop_ok [OF assms(1)])
    show "nHeight (S p) < int (length (chain_resize ?n v))" using h0 by simp
    fix i
    show "\<exists>q. chain_resize ?n v ! i = Some q \<and> nHeight (S q) = int i \<and>
        (0 < i \<longrightarrow> chain_resize ?n v ! (i - 1) \<noteq> None \<and> pprev (S q) = chain_resize ?n v ! (i - 1))"
      if i: "int i \<le> nHeight (S p)" "chain_resize ?n v ! i \<noteq> None"
    proof -
      have lt: "i < ?n" using i by simp
      then have il: "i < length v" using i(2) by (simp add: nth_chain_resize split: if_splits)
      from assms(2) il obtain q where q: "v ! i = Some q" "nHeight (S q) = int i"
        "0 < i \<longrightarrow> pprev (S q) = v ! (i - 1)" unfolding chain_ok_def by blast
      have "i - 1 < length v" using il by simp
      then obtain r where "v ! (i - 1) = Some r" using assms(2) unfolding chain_ok_def by blast
      with q il lt show ?thesis by (auto simp: nth_chain_resize)
    qed
    show "\<exists>q. chain_resize ?n v ! i = Some q \<and> nHeight (S q) = int i \<and>
        pprev (S q) = (if int i = nHeight (S p) + 1 then Some p else chain_resize ?n v ! (i - 1))"
      if "nHeight (S p) < int i" "i < length (chain_resize ?n v)"
      using that by simp
  qed
  then obtain v' where "SetTip_loop S (chain_resize ?n v) (Some p) = Some v'" "chain_ok S v'"
    "length v' = ?n" "v' ! nat (nHeight (S p)) = Some p" by auto
  moreover have "nat (nHeight (S p) + 1) - 1 = nat (nHeight (S p))" "0 < nat (nHeight (S p) + 1)" using h0 by simp_all
  ultimately show ?thesis using h0 by (auto simp: SetTip_def Tip_def)
qed


lemma Contains_iff: "wf_store S \<Longrightarrow> Contains S v p \<longleftrightarrow>
    nHeight (S p) < int (length v) \<and> v ! nat (nHeight (S p)) = Some p"
  using wf_height [of S p] by (auto simp: Contains_def chain_at_def)

text \<open>
  The fork of a block with the chain: the first block on the way from it to the genesis
  block that the chain contains, or null when there is none.
\<close>

definition is_fork :: "block_store \<Rightarrow> CChain \<Rightarrow> block_id \<Rightarrow> block_id option \<Rightarrow> bool" where
  "is_fork S v p r \<longleftrightarrow> (case r of
      None \<Rightarrow> \<forall>n q. up S n p = Some q \<longrightarrow> \<not> Contains S v q
    | Some q \<Rightarrow> \<exists>n. up S n p = Some q \<and> Contains S v q \<and>
        (\<forall>m < n. \<forall>q'. up S m p = Some q' \<longrightarrow> \<not> Contains S v q'))"

lemma is_fork_here: "Contains S v p \<Longrightarrow> is_fork S v p (Some p)"
  unfolding is_fork_def by (auto intro!: exI [of _ 0])

lemma is_fork_root: "\<not> Contains S v p \<Longrightarrow> pprev (S p) = None \<Longrightarrow> is_fork S v p None"
  unfolding is_fork_def by (auto elim: up.elims split: option.splits)

lemma is_fork_up:
  assumes "up S k p = Some w" and "\<forall>m < k. \<forall>q. up S m p = Some q \<longrightarrow> \<not> Contains S v q"
    and "is_fork S v w r"
  shows "is_fork S v p r"
proof (cases r)
  case None
  have "\<not> Contains S v q" if q: "up S n p = Some q" for n q
  proof (cases "n < k")
    case True
    then show ?thesis using assms(2) q by blast
  next
    case False
    then have "up S (n - k) w = Some q" using up_split [OF assms(1), of n] q by simp
    then show ?thesis using assms(3) None by (auto simp: is_fork_def)
  qed
  then show ?thesis using None by (simp add: is_fork_def)
next
  case (Some f)
  then obtain n where n: "up S n w = Some f" "Contains S v f"
    "\<forall>m < n. \<forall>q'. up S m w = Some q' \<longrightarrow> \<not> Contains S v q'"
    using assms(3) by (auto simp: is_fork_def)
  have "\<not> Contains S v q" if q: "up S m p = Some q" and m: "m < k + n" for m q
  proof (cases "m < k")
    case True
    then show ?thesis using assms(2) q by blast
  next
    case False
    then have "up S (m - k) w = Some q" "m - k < n" using up_split [OF assms(1), of m] q m by simp_all
    then show ?thesis using n(3) by blast
  qed
  moreover have "up S (k + n) p = Some f" using assms(1) n(1) by (simp add: up_add)
  ultimately show ?thesis using Some n(2) unfolding is_fork_def by (auto intro!: exI [of _ "k + n"])
qed

lemma FindFork_loop_ok:
  assumes "wf_store S"
  shows "\<exists>r. FindFork_loop S v (Some p) = Some r \<and> is_fork S v p r"
proof (induction "nat (nHeight (S p))" arbitrary: p rule: less_induct)
  case less
  show ?case
  proof (cases "Contains S v p")
    case True
    then show ?thesis by (subst FindFork_loop.simps) (simp add: is_fork_here)
  next
    case False
    then have step: "FindFork_loop S v (Some p) = FindFork_loop S v (pprev (S p))"
      by (subst FindFork_loop.simps) simp
    show ?thesis
    proof (cases "pprev (S p)")
      case None
      have "FindFork_loop S v None = Some None" by (subst FindFork_loop.simps) simp
      then show ?thesis using step None is_fork_root [OF False None] by simp
    next
      case (Some q)
      then have "nHeight (S p) = nHeight (S q) + 1 \<and> 0 \<le> nHeight (S q)" by (rule wf_pprev [OF assms])
      then obtain r where r: "FindFork_loop S v (Some q) = Some r" "is_fork S v q r"
        using less [of q] by auto
      have "is_fork S v p r"
        by (rule is_fork_up [of S 1 p q]) (use Some False r in auto)
      then show ?thesis using r step Some by auto
    qed
  qed
qed

lemma FindFork_ok:
  assumes "wf_store S"
  shows "\<exists>r. FindFork S v (Some p) = Some r \<and> is_fork S v p r"
proof (cases "Height v < nHeight (S p)")
  case False
  then show ?thesis using FindFork_loop_ok [OF assms, of v p] by (simp add: FindFork_def)
next
  case True
  have above: "\<not> Contains S v q" if "up S m p = Some q" "int m < nHeight (S p) - Height v" for m q
    using up_height [OF assms that(1)] that(2) Contains_iff [OF assms, of v q] by (simp add: Height_def)
  show ?thesis
  proof (cases "v = []")
    case empty: True
    then have "is_fork S v p None" using Contains_iff [OF assms, of v] wf_height [OF assms]
      by (simp add: is_fork_def not_less)
    moreover have "FindFork S v (Some p) = Some None"
      using True GetAncestor_up [OF assms, of p "-1"] empty
      by (simp add: FindFork_def Height_def FindFork_loop.simps)
    ultimately show ?thesis by blast
  next
    case False
    then have h: "0 \<le> Height v" by (cases v) (simp_all add: Height_def)
    then obtain w where w: "up S (nat (nHeight (S p) - Height v)) p = Some w"
      using up_total [OF assms, of "nat (nHeight (S p) - Height v)" p] True by auto
    obtain r where r: "FindFork_loop S v (Some w) = Some r" "is_fork S v w r"
      using FindFork_loop_ok [OF assms] by blast
    have "is_fork S v p r"
      by (rule is_fork_up [OF w _ r(2)]) (use above in auto)
    moreover have "FindFork S v (Some p) = Some r"
      using True h GetAncestor_up [OF assms, of p "Height v"] w r by (simp add: FindFork_def)
    ultimately show ?thesis by blast
  qed
qed

subsection \<open>Properties\<close>

text \<open>
  C39. In a well formed block index the skip list walk \<open>GetAncestor\<close> terminates without
  tripping its assertion and returns exactly the block reached by following \<open>pprev\<close> down to the
  requested height, and null for a height outside the block's history.
\<close>

theorem GetAncestor_is_ancestor:
  assumes "wf_store S"
  shows "GetAncestor S p h = Some (if 0 \<le> h \<and> h \<le> nHeight (S p)
    then up S (nat (nHeight (S p) - h)) p else None)"
  by (rule GetAncestor_up [OF assms])

definition sample_store :: block_store where
  "sample_store = (\<lambda>p. CBlockIndex_default\<lparr>nHeight := int p,
     pprev := (if p = 0 then None else Some (p - 1)), nTime := word_of_nat (100 + p)\<rparr>)"

lemma wf_sample_store: "wf_store sample_store"
  by (auto simp: wf_store_def sample_store_def CBlockIndex_default_def split: option.splits)

lemma GetAncestor_is_ancestor_witness: "GetAncestor sample_store 5 3 = Some (Some 3)"
  using GetAncestor_is_ancestor [OF wf_sample_store, of 5 3]
  by (simp add: sample_store_def numeral_eq_Suc CBlockIndex_default_def)

text \<open>
  \<open>BuildSkip\<close> keeps the block index well formed: the pointer it stores leads to the ancestor
  at the height \<open>GetSkipHeight\<close> computes.
\<close>

theorem BuildSkip_keeps_wf:
  assumes "wf_store S"
  shows "\<exists>S'. BuildSkip S p = Some S' \<and> wf_store S'"
proof -
  have "\<exists>S'. BuildSkip S p = Some S'"
    by (auto simp: BuildSkip_def GetAncestor_up [OF assms] split: option.splits)
  then show ?thesis using BuildSkip_wf [OF assms] by blast
qed

lemma BuildSkip_keeps_wf_witness: "\<exists>S'. BuildSkip sample_store 6 = Some S' \<and> wf_store S'"
  by (rule BuildSkip_keeps_wf [OF wf_sample_store])

text \<open>
  C33. \<open>SetTip\<close> turns any consistent chain into the consistent chain from the genesis block to
  the given block: it stops early at the first entry it shares with the old chain, and what it
  leaves below is right.
\<close>

theorem SetTip_establishes_chain:
  assumes "wf_store S" and "chain_ok S v"
  shows "\<exists>v'. SetTip S v (Some p) = Some v' \<and> chain_ok S v' \<and>
    int (length v') = nHeight (S p) + 1 \<and> Tip v' = Some p"
  by (rule SetTip_ok [OF assms])

lemma SetTip_establishes_chain_witness:
  "\<exists>v'. SetTip sample_store [Some 0, Some 1] (Some 3) = Some v' \<and> length v' = 4 \<and> Tip v' = Some 3"
proof -
  have "chain_ok sample_store [Some 0, Some 1]"
    by (auto simp: chain_ok_def sample_store_def less_Suc_eq)
  from SetTip_establishes_chain [OF wf_sample_store this, of 3] show ?thesis
    by (auto simp: sample_store_def)
qed

text \<open>
  \<open>FindFork\<close> returns the last common block: the first block on the way from the given one
  to the genesis block that the chain contains, or null when there is none.
\<close>

theorem FindFork_last_common:
  assumes "wf_store S"
  shows "\<exists>r. FindFork S v (Some p) = Some r \<and> is_fork S v p r"
  by (rule FindFork_ok [OF assms])

lemma FindFork_last_common_witness:
  "\<exists>r. FindFork sample_store [Some 0, Some 1] (Some 3) = Some r \<and> is_fork sample_store [Some 0, Some 1] 3 r"
  by (rule FindFork_last_common [OF wf_sample_store])

end
