(* ===== verification/Serialize.thy ===== *)
theory Serialize
  imports Uint256 Hashing
begin

text \<open>
  Serialization (\<open>serialize.h\<close>, \<open>streams.h\<close>).  Writing returns the bytes written; a reader takes
  the unread bytes of a stream and returns what it read and the bytes that are left, or the
  exception it throws.  \<open>CDataStream\<close> itself, a buffer with a read position, is shown to refine
  this view.  The contract of a type with a writer and a reader is the locale \<open>codec\<close>.
\<close>

unbundle bit_operations_syntax

subsection \<open>Readers\<close>

datatype ser_error = EndOfData | NonCanonicalSize | SizeTooLarge | StringLimitExceeded

type_synonym 'a reader = "bytes \<Rightarrow> ser_error + 'a \<times> bytes"

definition rd_return :: "'a \<Rightarrow> 'a reader" where
  "rd_return a s = Inr (a, s)"

definition rd_fail :: "ser_error \<Rightarrow> 'a reader" where
  "rd_fail e s = Inl e"

definition rd_then :: "'a reader \<Rightarrow> ('a \<Rightarrow> 'b reader) \<Rightarrow> 'b reader" where
  "rd_then r f s = (case r s of Inl e \<Rightarrow> Inl e | Inr (a, s) \<Rightarrow> f a s)"

definition stream_read :: "nat \<Rightarrow> bytes reader" where
  "stream_read n s = (if n \<le> length s then Inr (take n s, drop n s) else Inl EndOfData)"

subsection \<open>Words in little-endian order\<close>

fun le_bytes :: "nat \<Rightarrow> nat \<Rightarrow> bytes" where
  "le_bytes 0 n = []"
| "le_bytes (Suc k) n = of_nat (n mod 256) # le_bytes k (n div 256)"

definition le_value :: "bytes \<Rightarrow> nat" where
  "le_value bs = horner_sum unat 256 bs"

definition ser_writedata8 :: "nat \<Rightarrow> bytes" where "ser_writedata8 obj = le_bytes 1 obj"
definition ser_writedata16 :: "nat \<Rightarrow> bytes" where "ser_writedata16 obj = le_bytes 2 obj"
definition ser_writedata32 :: "nat \<Rightarrow> bytes" where "ser_writedata32 obj = le_bytes 4 obj"
definition ser_writedata64 :: "nat \<Rightarrow> bytes" where "ser_writedata64 obj = le_bytes 8 obj"
definition ser_writedata32be :: "nat \<Rightarrow> bytes" where "ser_writedata32be obj = rev (le_bytes 4 obj)"

definition ser_readdata :: "nat \<Rightarrow> nat reader" where
  "ser_readdata k = rd_then (stream_read k) (\<lambda>bs. rd_return (le_value bs))"

definition ser_readdata8 :: "nat reader" where "ser_readdata8 = ser_readdata 1"
definition ser_readdata16 :: "nat reader" where "ser_readdata16 = ser_readdata 2"
definition ser_readdata32 :: "nat reader" where "ser_readdata32 = ser_readdata 4"
definition ser_readdata64 :: "nat reader" where "ser_readdata64 = ser_readdata 8"
definition ser_readdata32be :: "nat reader" where
  "ser_readdata32be = rd_then (stream_read 4) (\<lambda>bs. rd_return (le_value (rev bs)))"

text \<open>The integers of a class are words; \<open>Serialize(s, uint32_t)\<close> and the like.\<close>

definition Serialize_u32 :: "u32 \<Rightarrow> bytes" where "Serialize_u32 a = ser_writedata32 (unat a)"
definition Serialize_u64 :: "u64 \<Rightarrow> bytes" where "Serialize_u64 a = ser_writedata64 (unat a)"
definition Serialize_bool :: "bool \<Rightarrow> bytes" where "Serialize_bool a = ser_writedata8 (if a then 1 else 0)"

definition Unserialize_u32 :: "u32 reader" where
  "Unserialize_u32 = rd_then ser_readdata32 (\<lambda>n. rd_return (of_nat n))"
definition Unserialize_u64 :: "u64 reader" where
  "Unserialize_u64 = rd_then ser_readdata64 (\<lambda>n. rd_return (of_nat n))"
definition Unserialize_bool :: "bool reader" where
  "Unserialize_bool = rd_then ser_readdata8 (\<lambda>n. rd_return (n \<noteq> 0))"

subsection \<open>Compact sizes\<close>

definition MAX_SIZE :: nat where
  "MAX_SIZE = 0x02000000"

definition GetSizeOfCompactSize :: "nat \<Rightarrow> nat" where
  "GetSizeOfCompactSize nSize =
     (if nSize < 253 then 1 else if nSize \<le> 0xFFFF then 1 + 2 else if nSize \<le> 0xFFFFFFFF then 1 + 4 else 1 + 8)"

definition WriteCompactSize :: "nat \<Rightarrow> bytes" where
  "WriteCompactSize nSize =
     (if nSize < 253 then ser_writedata8 nSize
      else if nSize \<le> 0xFFFF then ser_writedata8 253 @ ser_writedata16 nSize
      else if nSize \<le> 0xFFFFFFFF then ser_writedata8 254 @ ser_writedata32 nSize
      else ser_writedata8 255 @ ser_writedata64 nSize)"

definition ReadCompactSize :: "nat reader" where
  "ReadCompactSize =
     rd_then ser_readdata8 (\<lambda>chSize.
     rd_then (if chSize < 253 then rd_return chSize
              else if chSize = 253 then rd_then ser_readdata16 (\<lambda>n. if n < 253 then rd_fail NonCanonicalSize else rd_return n)
              else if chSize = 254 then rd_then ser_readdata32 (\<lambda>n. if n < 0x10000 then rd_fail NonCanonicalSize else rd_return n)
              else rd_then ser_readdata64 (\<lambda>n. if n < 0x100000000 then rd_fail NonCanonicalSize else rd_return n))
     (\<lambda>nSizeRet. if nSizeRet > MAX_SIZE then rd_fail SizeTooLarge else rd_return nSizeRet))"

subsection \<open>Variable-length integers\<close>

text \<open>The numbers are below \<open>2 ^ w\<close> for the width \<open>w\<close> of the type \<open>I\<close>.\<close>

fun GetSizeOfVarInt :: "nat \<Rightarrow> nat" where
  "GetSizeOfVarInt n = (if n \<le> 0x7F then 1 else 1 + GetSizeOfVarInt (n div 128 - 1))"

text \<open>The bytes of \<open>tmp\<close>, the last one first; \<open>cont\<close> says that \<open>len\<close> is not zero.\<close>

fun varint_tmp :: "nat \<Rightarrow> bool \<Rightarrow> bytes" where
  "varint_tmp n cont =
     (of_nat (n mod 128) OR (if cont then 0x80 else 0)) #
     (if n \<le> 0x7F then [] else varint_tmp (n div 128 - 1) True)"

definition WriteVarInt :: "nat \<Rightarrow> bytes" where
  "WriteVarInt n = rev (varint_tmp n False)"

text \<open>The loop over the bytes of the stream.\<close>

fun ReadVarInt_loop :: "nat \<Rightarrow> nat \<Rightarrow> nat reader" where
  "ReadVarInt_loop w n [] = Inl EndOfData"
| "ReadVarInt_loop w n (chData # s) =
     (let n = (n * 128) mod 2 ^ w OR unat (chData AND 0x7F)
      in if chData AND 0x80 \<noteq> 0 then ReadVarInt_loop w ((n + 1) mod 2 ^ w) s else Inr (n, s))"

definition ReadVarInt :: "nat \<Rightarrow> nat reader" where
  "ReadVarInt w = ReadVarInt_loop w 0"

subsection \<open>Byte vectors, strings and vectors\<close>

definition Serialize_bytes :: "bytes \<Rightarrow> bytes" where
  "Serialize_bytes v = WriteCompactSize (length v) @ v"

text \<open>\<open>rem\<close> is \<open>nSize - i\<close>; a block is at most five million bytes.\<close>

definition block_limit :: nat where
  "block_limit = 1 + 4999999"

function read_blocks :: "nat \<Rightarrow> bytes reader" where
  "read_blocks rem s =
     (if rem = 0 then rd_return [] s
      else let blk = min rem block_limit in
        case stream_read blk s of
          Inl e \<Rightarrow> Inl e
        | Inr (b, s) \<Rightarrow> (case read_blocks (rem - blk) s of Inl e \<Rightarrow> Inl e | Inr (bs, s) \<Rightarrow> Inr (b @ bs, s)))"
  by pat_completeness auto
termination by (relation "measure fst") (auto simp: block_limit_def)

declare read_blocks.simps [simp del] varint_tmp.simps [simp del] GetSizeOfVarInt.simps [simp del]

definition Unserialize_bytes :: "bytes reader" where
  "Unserialize_bytes = rd_then ReadCompactSize read_blocks"

definition Unserialize_string :: "bytes reader" where
  "Unserialize_string = rd_then ReadCompactSize (\<lambda>nSize. if nSize \<noteq> 0 then stream_read nSize else rd_return [])"

definition LimitedString_Unserialize :: "nat \<Rightarrow> bytes reader" where
  "LimitedString_Unserialize Limit =
     rd_then ReadCompactSize (\<lambda>size.
       if size > Limit then rd_fail StringLimitExceeded
       else if size \<noteq> 0 then stream_read size else rd_return [])"

text \<open>Elements one by one; the blocks of the reading loop only bound how far the vector grows.\<close>

definition Serialize_vector :: "('a \<Rightarrow> bytes) \<Rightarrow> 'a list \<Rightarrow> bytes" where
  "Serialize_vector ser v = WriteCompactSize (length v) @ concat (map ser v)"

fun read_elements :: "'a reader \<Rightarrow> nat \<Rightarrow> 'a list reader" where
  "read_elements rd 0 = rd_return []"
| "read_elements rd (Suc n) = rd_then rd (\<lambda>a. rd_then (read_elements rd n) (\<lambda>as. rd_return (a # as)))"

definition Unserialize_vector :: "'a reader \<Rightarrow> 'a list reader" where
  "Unserialize_vector rd = rd_then ReadCompactSize (read_elements rd)"

definition Serialize_pair :: "('a \<Rightarrow> bytes) \<Rightarrow> ('b \<Rightarrow> bytes) \<Rightarrow> 'a \<times> 'b \<Rightarrow> bytes" where
  "Serialize_pair ser1 ser2 item = ser1 (fst item) @ ser2 (snd item)"

definition Unserialize_pair :: "'a reader \<Rightarrow> 'b reader \<Rightarrow> ('a \<times> 'b) reader" where
  "Unserialize_pair rd1 rd2 = rd_then rd1 (\<lambda>a. rd_then rd2 (\<lambda>b. rd_return (a, b)))"

text \<open>Blobs have a fixed size (\<open>base_blob::Serialize\<close>).\<close>

definition Serialize_blob :: "bytes \<Rightarrow> bytes" where
  "Serialize_blob b = b"

definition Unserialize_blob :: "nat \<Rightarrow> bytes reader" where
  "Unserialize_blob bits = stream_read (bits div 8)"

subsection \<open>The data stream\<close>

record CDataStream =
  ds_vch :: bytes
  ds_nReadPos :: nat

definition ds_unread :: "CDataStream \<Rightarrow> bytes" where
  "ds_unread s = drop (ds_nReadPos s) (ds_vch s)"

definition ds_size :: "CDataStream \<Rightarrow> nat" where
  "ds_size s = length (ds_vch s) - ds_nReadPos s"

definition ds_clear :: "CDataStream \<Rightarrow> CDataStream" where
  "ds_clear s = s\<lparr>ds_vch := [], ds_nReadPos := 0\<rparr>"

text \<open>\<open>nReadPosNext\<close> is a 32-bit number.\<close>

definition ds_read :: "CDataStream \<Rightarrow> nat \<Rightarrow> ser_error + bytes \<times> CDataStream" where
  "ds_read s nSize =
     (let nReadPosNext = (ds_nReadPos s + nSize) mod 2 ^ 32
      in if nReadPosNext \<ge> length (ds_vch s)
         then if nReadPosNext > length (ds_vch s) then Inl EndOfData
              else Inr (take nSize (drop (ds_nReadPos s) (ds_vch s)), ds_clear s)
         else Inr (take nSize (drop (ds_nReadPos s) (ds_vch s)), s\<lparr>ds_nReadPos := nReadPosNext\<rparr>))"

definition ds_ignore :: "CDataStream \<Rightarrow> nat \<Rightarrow> ser_error + CDataStream" where
  "ds_ignore s nSize =
     (let nReadPosNext = (ds_nReadPos s + nSize) mod 2 ^ 32
      in if nReadPosNext \<ge> length (ds_vch s)
         then if nReadPosNext > length (ds_vch s) then Inl EndOfData else Inr (ds_clear s)
         else Inr (s\<lparr>ds_nReadPos := nReadPosNext\<rparr>))"

definition ds_write :: "CDataStream \<Rightarrow> bytes \<Rightarrow> CDataStream" where
  "ds_write s pch = s\<lparr>ds_vch := ds_vch s @ pch\<rparr>"

definition ds_Compact :: "CDataStream \<Rightarrow> CDataStream" where
  "ds_Compact s = s\<lparr>ds_vch := drop (ds_nReadPos s) (ds_vch s), ds_nReadPos := 0\<rparr>"

definition ds_Rewind :: "CDataStream \<Rightarrow> nat \<Rightarrow> CDataStream option" where
  "ds_Rewind s n = (if n > ds_nReadPos s then None else Some (s\<lparr>ds_nReadPos := ds_nReadPos s - n\<rparr>))"

definition ds_append :: "CDataStream \<Rightarrow> CDataStream \<Rightarrow> CDataStream" where
  "ds_append a b = a\<lparr>ds_vch := ds_vch a @ ds_unread b\<rparr>"

definition ds_GetAndClear :: "CDataStream \<Rightarrow> bytes \<Rightarrow> bytes \<times> CDataStream" where
  "ds_GetAndClear s data = (data @ ds_unread s, ds_clear s)"

text \<open>The index runs over the number of unread bytes but from the start of the buffer.\<close>

fun Xor_loop :: "bytes \<Rightarrow> bytes \<Rightarrow> nat \<Rightarrow> nat \<Rightarrow> bytes" where
  "Xor_loop key [] j n = []"
| "Xor_loop key (b # bs) j n =
     (if n = 0 then b # bs
      else (b XOR key ! j) # Xor_loop key bs (if j + 1 = length key then 0 else j + 1) (n - 1))"

definition ds_Xor :: "CDataStream \<Rightarrow> bytes \<Rightarrow> CDataStream" where
  "ds_Xor s key = (if length key = 0 then s else s\<lparr>ds_vch := Xor_loop key (ds_vch s) 0 (ds_size s)\<rparr>)"

subsection \<open>The contract of a serialized type\<close>

locale codec =
  fixes ser :: "'a \<Rightarrow> bytes" and unser :: "'a reader" and ok :: "'a \<Rightarrow> bool"
  assumes reads_back: "ok a \<Longrightarrow> unser (ser a @ rest) = Inr (a, rest)"
begin

lemma ser_unique:
  assumes "ok a" "ok b" "ser a @ s = ser b @ t"
  shows "a = b \<and> s = t"
proof -
  have "Inr (a, s) = (Inr (b, t) :: ser_error + 'a \<times> bytes)"
    unfolding reads_back [OF assms(1), of s, symmetric] reads_back [OF assms(2), of t, symmetric] assms(3) ..
  then show ?thesis by simp
qed

lemma then_reads_back: "ok a \<Longrightarrow> rd_then unser f (ser a @ rest) = f a rest"
  by (simp add: rd_then_def reads_back)

lemma elements_read_back:
  "list_all ok v \<Longrightarrow> read_elements unser (length v) (concat (map ser v) @ rest) = Inr (v, rest)"
proof (induction v)
  case (Cons a v)
  then have "read_elements unser (length v) (concat (map ser v) @ rest) = Inr (v, rest)" by simp
  then show ?case using Cons.prems by (simp add: then_reads_back) (simp add: rd_then_def rd_return_def)
qed (simp add: rd_return_def)

end

subsection \<open>Integers read back\<close>

lemma length_le_bytes [simp]: "length (le_bytes k n) = k"
  by (induction k arbitrary: n) simp_all

lemma le_value_le_bytes: "le_value (le_bytes k n) = n mod 256 ^ k"
proof (induction k arbitrary: n)
  case (Suc k)
  have "n mod 256 ^ Suc k = n div 256 mod 256 ^ k * 256 + n mod 256"
    using mod_mult2_eq [of n 256 "256 ^ k"] by simp
  then show ?case using Suc [of "n div 256"]
    by (simp add: le_value_def unsigned_of_nat take_bit_eq_mod)
qed (simp add: le_value_def)

lemma ser_readdata_le_bytes: "ser_readdata k (le_bytes k n @ rest) = Inr (n mod 256 ^ k, rest)"
  by (simp add: ser_readdata_def rd_then_def stream_read_def rd_return_def le_value_le_bytes)

lemma ser_readdata_write:
  "ser_readdata8 (ser_writedata8 n @ s) = Inr (n mod 256, s)"
  "ser_readdata16 (ser_writedata16 n @ s) = Inr (n mod 65536, s)"
  "ser_readdata32 (ser_writedata32 n @ s) = Inr (n mod 4294967296, s)"
  "ser_readdata64 (ser_writedata64 n @ s) = Inr (n mod 18446744073709551616, s)"
  unfolding ser_writedata8_def ser_writedata16_def ser_writedata32_def ser_writedata64_def
    ser_readdata8_def ser_readdata16_def ser_readdata32_def ser_readdata64_def ser_readdata_le_bytes by simp_all

interpretation u32_codec: codec Serialize_u32 Unserialize_u32 "\<lambda>_. True"
  by unfold_locales
    (simp add: Serialize_u32_def Unserialize_u32_def ser_readdata_write rd_then_def rd_return_def unat_u32_less)

interpretation u64_codec: codec Serialize_u64 Unserialize_u64 "\<lambda>_. True"
  by unfold_locales
    (simp add: Serialize_u64_def Unserialize_u64_def ser_readdata_write rd_then_def rd_return_def unat_u64_less)

interpretation bool_codec: codec Serialize_bool Unserialize_bool "\<lambda>_. True"
  by unfold_locales
    (simp add: Serialize_bool_def Unserialize_bool_def ser_readdata_write rd_then_def rd_return_def)

subsection \<open>Compact sizes read back\<close>

interpretation size_codec: codec WriteCompactSize ReadCompactSize "\<lambda>n. n \<le> MAX_SIZE"
proof
  fix n rest
  assume "n \<le> MAX_SIZE"
  then show "ReadCompactSize (WriteCompactSize n @ rest) = Inr (n, rest)"
    by (simp add: WriteCompactSize_def ReadCompactSize_def rd_then_def ser_readdata_write rd_return_def MAX_SIZE_def)
qed

lemma length_WriteCompactSize: "length (WriteCompactSize n) = GetSizeOfCompactSize n"
  by (simp add: WriteCompactSize_def GetSizeOfCompactSize_def ser_writedata8_def ser_writedata16_def
      ser_writedata32_def ser_writedata64_def)

lemma stream_read_append: "stream_read (length v) (v @ rest) = Inr (v, rest)"
  by (simp add: stream_read_def)

lemma read_blocks_stream_read: "read_blocks n s = stream_read n s"
proof (induction n s rule: read_blocks.induct)
  case (1 n s)
  define blk where "blk = min n block_limit"
  have blk: "blk \<le> n" "min n block_limit = blk" by (simp_all add: blk_def)
  show ?case
  proof (cases "n = 0")
    case False
    show ?thesis
    proof (cases "blk \<le> length s")
      case True
      then have "read_blocks (n - blk) (drop blk s) = stream_read (n - blk) (drop blk s)"
        using "1.IH" [OF False refl] unfolding blk(2) by (simp add: stream_read_def)
      then have "read_blocks n s = (case stream_read (n - blk) (drop blk s) of
          Inl e \<Rightarrow> Inl e | Inr (bs, s') \<Rightarrow> Inr (take blk s @ bs, s'))"
        using False True by (subst read_blocks.simps) (simp add: Let_def blk(2) stream_read_def del: One_nat_def)
      also have "\<dots> = stream_read n s"
        using blk True by (auto simp: stream_read_def take_add [symmetric])
      finally show ?thesis .
    next
      case nle: False
      then show ?thesis
        using False blk by (subst read_blocks.simps) (simp add: Let_def blk(2) stream_read_def)
    qed
  qed (simp add: read_blocks.simps stream_read_def rd_return_def)
qed

interpretation bytes_codec: codec Serialize_bytes Unserialize_bytes "\<lambda>v. length v \<le> MAX_SIZE"
proof
  fix v rest :: bytes
  assume "length v \<le> MAX_SIZE"
  then show "Unserialize_bytes (Serialize_bytes v @ rest) = Inr (v, rest)"
    by (simp add: Unserialize_bytes_def Serialize_bytes_def size_codec.then_reads_back
        read_blocks_stream_read stream_read_append)
qed

interpretation string_codec: codec Serialize_bytes Unserialize_string "\<lambda>v. length v \<le> MAX_SIZE"
proof
  fix v rest :: bytes
  assume "length v \<le> MAX_SIZE"
  then show "Unserialize_string (Serialize_bytes v @ rest) = Inr (v, rest)"
    by (simp add: Unserialize_string_def Serialize_bytes_def size_codec.then_reads_back
        stream_read_append rd_return_def)
qed

lemma vector_reads_back:
  assumes "codec ser unser ok" "list_all ok v" "length v \<le> MAX_SIZE"
  shows "Unserialize_vector unser (Serialize_vector ser v @ rest) = Inr (v, rest)"
  using assms(2,3) codec.elements_read_back [OF assms(1)]
  by (simp add: Unserialize_vector_def Serialize_vector_def size_codec.then_reads_back)

lemma vector_codec:
  "codec ser unser ok \<Longrightarrow>
     codec (Serialize_vector ser) (Unserialize_vector unser) (\<lambda>v. list_all ok v \<and> length v \<le> MAX_SIZE)"
  by (simp add: codec_def [of "Serialize_vector ser"] vector_reads_back)

lemma pair_codec:
  assumes "codec ser1 unser1 ok1" "codec ser2 unser2 ok2"
  shows "codec (Serialize_pair ser1 ser2) (Unserialize_pair unser1 unser2) (\<lambda>p. ok1 (fst p) \<and> ok2 (snd p))"
  by (rule codec.intro)
    (simp add: Serialize_pair_def Unserialize_pair_def codec.then_reads_back [OF assms(1)]
      codec.then_reads_back [OF assms(2)] rd_return_def)

interpretation blob256_codec: codec Serialize_blob "Unserialize_blob 256" "\<lambda>b. length b = 32"
  by unfold_locales (simp add: Serialize_blob_def Unserialize_blob_def stream_read_def)

interpretation blob160_codec: codec Serialize_blob "Unserialize_blob 160" "\<lambda>b. length b = 20"
  by unfold_locales (simp add: Serialize_blob_def Unserialize_blob_def stream_read_def)

subsection \<open>Variable-length integers read back\<close>

lemma varint_byte:
  assumes "x < 128"
  shows "unat ((of_nat x OR (if c then 0x80 else 0) :: u8) AND 0x7F) = x"
    and "((of_nat x OR (if c then 0x80 else 0) :: u8) AND 0x80 \<noteq> 0) = c"
proof -
  have "list_all (\<lambda>x. unat ((of_nat x OR (if c then 0x80 else 0) :: u8) AND 0x7F) = x \<and>
      ((of_nat x OR (if c then 0x80 else 0) :: u8) AND 0x80 \<noteq> 0) = c) [0..<128]" for c
    by (cases c; simp only: if_True if_False) code_simp+
  then show "unat ((of_nat x OR (if c then 0x80 else 0) :: u8) AND 0x7F) = x"
    "((of_nat x OR (if c then 0x80 else 0) :: u8) AND 0x80 \<noteq> 0) = c"
    using assms by (auto simp: list_all_iff)
qed

lemma or_low:
  assumes "x < 128"
  shows "n * 128 OR x = n * 128 + (x :: nat)"
proof -
  have x: "x = take_bit 7 x" using assms by (simp add: take_bit_eq_mod)
  have n: "n * 128 = push_bit 7 n" by (simp add: push_bit_eq_mult)
  have "push_bit 7 n AND take_bit 7 x = 0" by (rule bit_eqI) (auto simp: bit_simps)
  then have "n * 128 + x = n * 128 OR x" unfolding n x [symmetric] by (rule disjunctive_add_eq_or)
  then show ?thesis ..
qed

text \<open>Reading the bytes that are followed by others, from zero, yields one more than the number.\<close>

lemma ReadVarInt_continuation:
  assumes "n < 2 ^ w div 128"
  shows "ReadVarInt_loop w 0 (rev (varint_tmp n True) @ s) = ReadVarInt_loop w (n + 1) s"
  using assms
proof (induction n arbitrary: s rule: less_induct)
  case (less n)
  have small: "n + 1 < 2 ^ w" "n mod 128 < 128" using less.prems by simp_all
  show ?case
  proof (cases "n \<le> 0x7F")
    case True
    then show ?thesis using small varint_byte [of n True] by (simp add: varint_tmp.simps Let_def)
  next
    case False
    define m where "m = n div 128 - 1"
    have m: "m < n" "m + 1 = n div 128" "(m + 1) * 128 < 2 ^ w" "n div 128 - 1 = m"
      using False less.prems by (auto simp: m_def)
    then have "m < 2 ^ w div 128" using less.prems by simp
    from less.IH [OF m(1) this] show ?thesis
      using False small varint_byte [of "n mod 128" True] m
      unfolding varint_tmp.simps [of n] m(4) by (simp add: Let_def or_low)
  qed
qed

lemma ReadVarInt_WriteVarInt:
  assumes "n < 2 ^ w" "7 \<le> w"
  shows "ReadVarInt w (WriteVarInt n @ rest) = Inr (n, rest)"
proof (cases "n \<le> 0x7F")
  case True
  then show ?thesis
    using assms varint_byte [of n False] by (simp add: ReadVarInt_def WriteVarInt_def varint_tmp.simps Let_def)
next
  case False
  define m where "m = n div 128 - 1"
  have m: "m + 1 = n div 128" "(m + 1) * 128 < 2 ^ w" "m < 2 ^ w div 128" "n div 128 - 1 = m"
    using False assms by (auto simp: m_def)
  from ReadVarInt_continuation [OF m(3)] show ?thesis
    using False varint_byte [of "n mod 128" False] m
    unfolding ReadVarInt_def WriteVarInt_def varint_tmp.simps [of n] m(4) by (simp add: Let_def or_low)
qed

lemma length_WriteVarInt: "length (WriteVarInt n) = GetSizeOfVarInt n"
proof -
  have "length (varint_tmp n c) = GetSizeOfVarInt n" for c
    by (induction n arbitrary: c rule: GetSizeOfVarInt.induct)
      (subst varint_tmp.simps, subst GetSizeOfVarInt.simps, simp)
  then show ?thesis by (simp add: WriteVarInt_def)
qed

subsection \<open>The data stream refines a reader\<close>

definition ds_wf :: "CDataStream \<Rightarrow> bool" where
  "ds_wf s \<longleftrightarrow> ds_nReadPos s \<le> length (ds_vch s) \<and> length (ds_vch s) < 2 ^ 32"

lemma ds_read_refines:
  assumes "ds_wf s" "ds_nReadPos s + n < 2 ^ 32"
  shows "(case ds_read s n of
      Inl e \<Rightarrow> stream_read n (ds_unread s) = Inl e
    | Inr (b, s') \<Rightarrow> ds_wf s' \<and> stream_read n (ds_unread s) = Inr (b, ds_unread s'))"
  using assms
  by (auto simp: ds_read_def Let_def stream_read_def ds_unread_def ds_wf_def ds_clear_def add.commute)

subsection \<open>Compact sizes are canonical\<close>

lemma le_bytes_le_value: "le_bytes (length bs) (le_value bs) = bs"
proof (induction bs)
  case (Cons b bs)
  have "(unat b + 256 * le_value bs) mod 256 = unat b" "(unat b + 256 * le_value bs) div 256 = le_value bs"
    using unat_u8_less [of b] by simp_all
  then show ?case using Cons by (simp add: le_value_def)
qed (simp add: le_value_def)

lemma le_value_less: "le_value bs < 256 ^ length bs"
  unfolding le_value_def using unat_u8_less by (intro horner_sum_less) simp

lemma ser_readdata_cases:
  assumes "ser_readdata k s = Inr (n, rest)"
  shows "s = le_bytes k n @ rest" "n < 256 ^ k"
proof -
  have "k \<le> length s" "n = le_value (take k s)" "rest = drop k s"
    using assms by (auto simp: ser_readdata_def rd_then_def stream_read_def rd_return_def split: if_splits)
  then show "s = le_bytes k n @ rest" "n < 256 ^ k"
    using le_bytes_le_value [of "take k s"] le_value_less [of "take k s"] by simp_all
qed

lemma ser_readdata_Inr:
  "ser_readdata8 s = Inr (n, rest) \<Longrightarrow> s = ser_writedata8 n @ rest \<and> n < 256"
  "ser_readdata16 s = Inr (n, rest) \<Longrightarrow> s = ser_writedata16 n @ rest \<and> n < 65536"
  "ser_readdata32 s = Inr (n, rest) \<Longrightarrow> s = ser_writedata32 n @ rest \<and> n < 4294967296"
  "ser_readdata64 s = Inr (n, rest) \<Longrightarrow> s = ser_writedata64 n @ rest"
  unfolding ser_readdata8_def ser_readdata16_def ser_readdata32_def ser_readdata64_def
    ser_writedata8_def ser_writedata16_def ser_writedata32_def ser_writedata64_def
  by (frule ser_readdata_cases(1), drule ser_readdata_cases(2), simp)+

lemma ReadCompactSize_Inr:
  assumes "ReadCompactSize s = Inr (n, rest)"
  shows "n \<le> MAX_SIZE \<and> s = WriteCompactSize n @ rest"
proof -
  obtain c t where c: "ser_readdata8 s = Inr (c, t)"
    using assms by (cases "ser_readdata8 s") (auto simp: ReadCompactSize_def rd_then_def)
  note s = ser_readdata_Inr(1) [OF c]
  consider "c < 253" "n = c" "rest = t" | "c = 253" "ser_readdata16 t = Inr (n, rest)" "253 \<le> n"
    | "c = 254" "ser_readdata32 t = Inr (n, rest)" "65536 \<le> n"
    | "c = 255" "ser_readdata64 t = Inr (n, rest)" "4294967296 \<le> n"
    using assms conjunct2 [OF s]
    by (auto simp: ReadCompactSize_def rd_then_def c rd_return_def rd_fail_def split: if_splits sum.splits prod.splits)
  moreover have "n \<le> MAX_SIZE"
    using assms by (auto simp: ReadCompactSize_def rd_then_def c rd_return_def rd_fail_def split: if_splits sum.splits prod.splits)
  ultimately show ?thesis
  proof cases
    case 2
    then show ?thesis using s ser_readdata_Inr(2) [of t n rest] \<open>n \<le> MAX_SIZE\<close> by (simp add: WriteCompactSize_def)
  next
    case 3
    then show ?thesis using s ser_readdata_Inr(3) [of t n rest] \<open>n \<le> MAX_SIZE\<close> by (simp add: WriteCompactSize_def)
  next
    case 4
    then show ?thesis using \<open>n \<le> MAX_SIZE\<close> by (simp add: MAX_SIZE_def)
  qed (use s \<open>n \<le> MAX_SIZE\<close> in \<open>simp add: WriteCompactSize_def\<close>)
qed

text \<open>A variable-length integer wraps around, so its encoding is not the only one that is read as it.\<close>

lemma ReadVarInt_not_unique:
  "ReadVarInt 32 [0x8E, 0xFE, 0xFE, 0xFF, 0x00] = Inr (0, []) \<and> ReadVarInt 32 [0x00] = Inr (0, [])"
proof -
  have "ReadVarInt_loop 32 0 (0x8E # s) = ReadVarInt_loop 32 15 s" for s by (simp add: Let_def)
  moreover have "ReadVarInt_loop 32 15 (0xFE # s) = ReadVarInt_loop 32 2047 s" for s by (simp add: Let_def)
  moreover have "ReadVarInt_loop 32 2047 (0xFE # s) = ReadVarInt_loop 32 262143 s" for s by (simp add: Let_def)
  moreover have "ReadVarInt_loop 32 262143 (0xFF # s) = ReadVarInt_loop 32 33554432 s" for s by (simp add: Let_def)
  moreover have "ReadVarInt_loop 32 33554432 [0] = Inr (0, [])" "ReadVarInt_loop 32 0 [0] = Inr (0, [])"
    by (simp_all add: Let_def)
  ultimately show ?thesis unfolding ReadVarInt_def by presburger
qed

subsection \<open>Properties\<close>

text \<open>
  A compact size is read exactly from the bytes that are written for it: what the reader
  accepts is canonical and at most \<open>MAX_SIZE\<close>, and what is written takes the announced number of
  bytes.
\<close>

theorem ReadCompactSize_canonical:
  "(ReadCompactSize s = Inr (n, rest) \<longleftrightarrow> n \<le> MAX_SIZE \<and> s = WriteCompactSize n @ rest) \<and>
     length (WriteCompactSize n) = GetSizeOfCompactSize n"
proof
  show "ReadCompactSize s = Inr (n, rest) \<longleftrightarrow> n \<le> MAX_SIZE \<and> s = WriteCompactSize n @ rest"
    using ReadCompactSize_Inr [of s n rest] size_codec.reads_back [of n rest] by blast
qed (rule length_WriteCompactSize)

end
