(* ===== verification/Script.thy ===== *)
theory Script
  imports Serialize
begin

text \<open>
  Scripts (\<open>script/script.h\<close>, \<open>script/script.cpp\<close>): opcodes, numbers, building and parsing.  A
  script is its bytes and an iterator into it is the list of the bytes that are left; an opcode
  is its number.  Script numbers are integers, of at most five bytes wherever the code reads one.
\<close>

unbundle bit_operations_syntax

type_synonym CScript = bytes
type_synonym opcodetype = nat

definition MAX_SCRIPT_ELEMENT_SIZE :: nat where "MAX_SCRIPT_ELEMENT_SIZE = 520"
definition MAX_OPS_PER_SCRIPT :: nat where "MAX_OPS_PER_SCRIPT = 201"
definition MAX_PUBKEYS_PER_MULTISIG :: nat where "MAX_PUBKEYS_PER_MULTISIG = 20"
definition LOCKTIME_THRESHOLD :: nat where "LOCKTIME_THRESHOLD = 500000000"

subsection \<open>Opcodes\<close>

abbreviation (input) OP_0 :: nat where "OP_0 \<equiv> 0x00"
abbreviation (input) OP_FALSE :: nat where "OP_FALSE \<equiv> 0x00"
abbreviation (input) OP_PUSHDATA1 :: nat where "OP_PUSHDATA1 \<equiv> 0x4c"
abbreviation (input) OP_PUSHDATA2 :: nat where "OP_PUSHDATA2 \<equiv> 0x4d"
abbreviation (input) OP_PUSHDATA4 :: nat where "OP_PUSHDATA4 \<equiv> 0x4e"
abbreviation (input) OP_1NEGATE :: nat where "OP_1NEGATE \<equiv> 0x4f"
abbreviation (input) OP_RESERVED :: nat where "OP_RESERVED \<equiv> 0x50"
abbreviation (input) OP_1 :: nat where "OP_1 \<equiv> 0x51"
abbreviation (input) OP_TRUE :: nat where "OP_TRUE \<equiv> 0x51"
abbreviation (input) OP_2 :: nat where "OP_2 \<equiv> 0x52"
abbreviation (input) OP_3 :: nat where "OP_3 \<equiv> 0x53"
abbreviation (input) OP_4 :: nat where "OP_4 \<equiv> 0x54"
abbreviation (input) OP_5 :: nat where "OP_5 \<equiv> 0x55"
abbreviation (input) OP_6 :: nat where "OP_6 \<equiv> 0x56"
abbreviation (input) OP_7 :: nat where "OP_7 \<equiv> 0x57"
abbreviation (input) OP_8 :: nat where "OP_8 \<equiv> 0x58"
abbreviation (input) OP_9 :: nat where "OP_9 \<equiv> 0x59"
abbreviation (input) OP_10 :: nat where "OP_10 \<equiv> 0x5a"
abbreviation (input) OP_11 :: nat where "OP_11 \<equiv> 0x5b"
abbreviation (input) OP_12 :: nat where "OP_12 \<equiv> 0x5c"
abbreviation (input) OP_13 :: nat where "OP_13 \<equiv> 0x5d"
abbreviation (input) OP_14 :: nat where "OP_14 \<equiv> 0x5e"
abbreviation (input) OP_15 :: nat where "OP_15 \<equiv> 0x5f"
abbreviation (input) OP_16 :: nat where "OP_16 \<equiv> 0x60"
abbreviation (input) OP_NOP :: nat where "OP_NOP \<equiv> 0x61"
abbreviation (input) OP_VER :: nat where "OP_VER \<equiv> 0x62"
abbreviation (input) OP_IF :: nat where "OP_IF \<equiv> 0x63"
abbreviation (input) OP_NOTIF :: nat where "OP_NOTIF \<equiv> 0x64"
abbreviation (input) OP_VERIF :: nat where "OP_VERIF \<equiv> 0x65"
abbreviation (input) OP_VERNOTIF :: nat where "OP_VERNOTIF \<equiv> 0x66"
abbreviation (input) OP_ELSE :: nat where "OP_ELSE \<equiv> 0x67"
abbreviation (input) OP_ENDIF :: nat where "OP_ENDIF \<equiv> 0x68"
abbreviation (input) OP_VERIFY :: nat where "OP_VERIFY \<equiv> 0x69"
abbreviation (input) OP_RETURN :: nat where "OP_RETURN \<equiv> 0x6a"
abbreviation (input) OP_TOALTSTACK :: nat where "OP_TOALTSTACK \<equiv> 0x6b"
abbreviation (input) OP_FROMALTSTACK :: nat where "OP_FROMALTSTACK \<equiv> 0x6c"
abbreviation (input) OP_2DROP :: nat where "OP_2DROP \<equiv> 0x6d"
abbreviation (input) OP_2DUP :: nat where "OP_2DUP \<equiv> 0x6e"
abbreviation (input) OP_3DUP :: nat where "OP_3DUP \<equiv> 0x6f"
abbreviation (input) OP_2OVER :: nat where "OP_2OVER \<equiv> 0x70"
abbreviation (input) OP_2ROT :: nat where "OP_2ROT \<equiv> 0x71"
abbreviation (input) OP_2SWAP :: nat where "OP_2SWAP \<equiv> 0x72"
abbreviation (input) OP_IFDUP :: nat where "OP_IFDUP \<equiv> 0x73"
abbreviation (input) OP_DEPTH :: nat where "OP_DEPTH \<equiv> 0x74"
abbreviation (input) OP_DROP :: nat where "OP_DROP \<equiv> 0x75"
abbreviation (input) OP_DUP :: nat where "OP_DUP \<equiv> 0x76"
abbreviation (input) OP_NIP :: nat where "OP_NIP \<equiv> 0x77"
abbreviation (input) OP_OVER :: nat where "OP_OVER \<equiv> 0x78"
abbreviation (input) OP_PICK :: nat where "OP_PICK \<equiv> 0x79"
abbreviation (input) OP_ROLL :: nat where "OP_ROLL \<equiv> 0x7a"
abbreviation (input) OP_ROT :: nat where "OP_ROT \<equiv> 0x7b"
abbreviation (input) OP_SWAP :: nat where "OP_SWAP \<equiv> 0x7c"
abbreviation (input) OP_TUCK :: nat where "OP_TUCK \<equiv> 0x7d"
abbreviation (input) OP_CAT :: nat where "OP_CAT \<equiv> 0x7e"
abbreviation (input) OP_SUBSTR :: nat where "OP_SUBSTR \<equiv> 0x7f"
abbreviation (input) OP_LEFT :: nat where "OP_LEFT \<equiv> 0x80"
abbreviation (input) OP_RIGHT :: nat where "OP_RIGHT \<equiv> 0x81"
abbreviation (input) OP_SIZE :: nat where "OP_SIZE \<equiv> 0x82"
abbreviation (input) OP_INVERT :: nat where "OP_INVERT \<equiv> 0x83"
abbreviation (input) OP_AND :: nat where "OP_AND \<equiv> 0x84"
abbreviation (input) OP_OR :: nat where "OP_OR \<equiv> 0x85"
abbreviation (input) OP_XOR :: nat where "OP_XOR \<equiv> 0x86"
abbreviation (input) OP_EQUAL :: nat where "OP_EQUAL \<equiv> 0x87"
abbreviation (input) OP_EQUALVERIFY :: nat where "OP_EQUALVERIFY \<equiv> 0x88"
abbreviation (input) OP_RESERVED1 :: nat where "OP_RESERVED1 \<equiv> 0x89"
abbreviation (input) OP_RESERVED2 :: nat where "OP_RESERVED2 \<equiv> 0x8a"
abbreviation (input) OP_1ADD :: nat where "OP_1ADD \<equiv> 0x8b"
abbreviation (input) OP_1SUB :: nat where "OP_1SUB \<equiv> 0x8c"
abbreviation (input) OP_2MUL :: nat where "OP_2MUL \<equiv> 0x8d"
abbreviation (input) OP_2DIV :: nat where "OP_2DIV \<equiv> 0x8e"
abbreviation (input) OP_NEGATE :: nat where "OP_NEGATE \<equiv> 0x8f"
abbreviation (input) OP_ABS :: nat where "OP_ABS \<equiv> 0x90"
abbreviation (input) OP_NOT :: nat where "OP_NOT \<equiv> 0x91"
abbreviation (input) OP_0NOTEQUAL :: nat where "OP_0NOTEQUAL \<equiv> 0x92"
abbreviation (input) OP_ADD :: nat where "OP_ADD \<equiv> 0x93"
abbreviation (input) OP_SUB :: nat where "OP_SUB \<equiv> 0x94"
abbreviation (input) OP_MUL :: nat where "OP_MUL \<equiv> 0x95"
abbreviation (input) OP_DIV :: nat where "OP_DIV \<equiv> 0x96"
abbreviation (input) OP_MOD :: nat where "OP_MOD \<equiv> 0x97"
abbreviation (input) OP_LSHIFT :: nat where "OP_LSHIFT \<equiv> 0x98"
abbreviation (input) OP_RSHIFT :: nat where "OP_RSHIFT \<equiv> 0x99"
abbreviation (input) OP_BOOLAND :: nat where "OP_BOOLAND \<equiv> 0x9a"
abbreviation (input) OP_BOOLOR :: nat where "OP_BOOLOR \<equiv> 0x9b"
abbreviation (input) OP_NUMEQUAL :: nat where "OP_NUMEQUAL \<equiv> 0x9c"
abbreviation (input) OP_NUMEQUALVERIFY :: nat where "OP_NUMEQUALVERIFY \<equiv> 0x9d"
abbreviation (input) OP_NUMNOTEQUAL :: nat where "OP_NUMNOTEQUAL \<equiv> 0x9e"
abbreviation (input) OP_LESSTHAN :: nat where "OP_LESSTHAN \<equiv> 0x9f"
abbreviation (input) OP_GREATERTHAN :: nat where "OP_GREATERTHAN \<equiv> 0xa0"
abbreviation (input) OP_LESSTHANOREQUAL :: nat where "OP_LESSTHANOREQUAL \<equiv> 0xa1"
abbreviation (input) OP_GREATERTHANOREQUAL :: nat where "OP_GREATERTHANOREQUAL \<equiv> 0xa2"
abbreviation (input) OP_MIN :: nat where "OP_MIN \<equiv> 0xa3"
abbreviation (input) OP_MAX :: nat where "OP_MAX \<equiv> 0xa4"
abbreviation (input) OP_WITHIN :: nat where "OP_WITHIN \<equiv> 0xa5"
abbreviation (input) OP_RIPEMD160 :: nat where "OP_RIPEMD160 \<equiv> 0xa6"
abbreviation (input) OP_SHA1 :: nat where "OP_SHA1 \<equiv> 0xa7"
abbreviation (input) OP_SHA256 :: nat where "OP_SHA256 \<equiv> 0xa8"
abbreviation (input) OP_HASH160 :: nat where "OP_HASH160 \<equiv> 0xa9"
abbreviation (input) OP_HASH256 :: nat where "OP_HASH256 \<equiv> 0xaa"
abbreviation (input) OP_CODESEPARATOR :: nat where "OP_CODESEPARATOR \<equiv> 0xab"
abbreviation (input) OP_CHECKSIG :: nat where "OP_CHECKSIG \<equiv> 0xac"
abbreviation (input) OP_CHECKSIGVERIFY :: nat where "OP_CHECKSIGVERIFY \<equiv> 0xad"
abbreviation (input) OP_CHECKMULTISIG :: nat where "OP_CHECKMULTISIG \<equiv> 0xae"
abbreviation (input) OP_CHECKMULTISIGVERIFY :: nat where "OP_CHECKMULTISIGVERIFY \<equiv> 0xaf"
abbreviation (input) OP_NOP1 :: nat where "OP_NOP1 \<equiv> 0xb0"
abbreviation (input) OP_CHECKLOCKTIMEVERIFY :: nat where "OP_CHECKLOCKTIMEVERIFY \<equiv> 0xb1"
abbreviation (input) OP_NOP2 :: nat where "OP_NOP2 \<equiv> 0xb1"
abbreviation (input) OP_CHECKSEQUENCEVERIFY :: nat where "OP_CHECKSEQUENCEVERIFY \<equiv> 0xb2"
abbreviation (input) OP_NOP3 :: nat where "OP_NOP3 \<equiv> 0xb2"
abbreviation (input) OP_NOP4 :: nat where "OP_NOP4 \<equiv> 0xb3"
abbreviation (input) OP_NOP5 :: nat where "OP_NOP5 \<equiv> 0xb4"
abbreviation (input) OP_NOP6 :: nat where "OP_NOP6 \<equiv> 0xb5"
abbreviation (input) OP_CLAIM_NAME :: nat where "OP_CLAIM_NAME \<equiv> 0xb5"
abbreviation (input) OP_NOP7 :: nat where "OP_NOP7 \<equiv> 0xb6"
abbreviation (input) OP_SUPPORT_CLAIM :: nat where "OP_SUPPORT_CLAIM \<equiv> 0xb6"
abbreviation (input) OP_NOP8 :: nat where "OP_NOP8 \<equiv> 0xb7"
abbreviation (input) OP_UPDATE_CLAIM :: nat where "OP_UPDATE_CLAIM \<equiv> 0xb7"
abbreviation (input) OP_NOP9 :: nat where "OP_NOP9 \<equiv> 0xb8"
abbreviation (input) OP_NOP10 :: nat where "OP_NOP10 \<equiv> 0xb9"
abbreviation (input) OP_NAME_TRIE :: nat where "OP_NAME_TRIE \<equiv> 0xb8"
abbreviation (input) OP_NAME_UPDATE :: nat where "OP_NAME_UPDATE \<equiv> 0xb9"
abbreviation (input) OP_SMALLINTEGER :: nat where "OP_SMALLINTEGER \<equiv> 0xfa"
abbreviation (input) OP_PUBKEYS :: nat where "OP_PUBKEYS \<equiv> 0xfb"
abbreviation (input) OP_PUBKEYHASH :: nat where "OP_PUBKEYHASH \<equiv> 0xfd"
abbreviation (input) OP_PUBKEY :: nat where "OP_PUBKEY \<equiv> 0xfe"
abbreviation (input) OP_INVALIDOPCODE :: nat where "OP_INVALIDOPCODE \<equiv> 0xff"

definition opcode_names :: "(opcodetype \<times> string) list" where
  "opcode_names = [
      (OP_0, ''0''), (OP_PUSHDATA1, ''OP_PUSHDATA1''), (OP_PUSHDATA2, ''OP_PUSHDATA2''),
      (OP_PUSHDATA4, ''OP_PUSHDATA4''), (OP_1NEGATE, ''-1''), (OP_RESERVED, ''OP_RESERVED''),
      (OP_1, ''1''), (OP_2, ''2''), (OP_3, ''3''),
      (OP_4, ''4''), (OP_5, ''5''), (OP_6, ''6''),
      (OP_7, ''7''), (OP_8, ''8''), (OP_9, ''9''),
      (OP_10, ''10''), (OP_11, ''11''), (OP_12, ''12''),
      (OP_13, ''13''), (OP_14, ''14''), (OP_15, ''15''),
      (OP_16, ''16''), (OP_NOP, ''OP_NOP''), (OP_VER, ''OP_VER''),
      (OP_IF, ''OP_IF''), (OP_NOTIF, ''OP_NOTIF''), (OP_VERIF, ''OP_VERIF''),
      (OP_VERNOTIF, ''OP_VERNOTIF''), (OP_ELSE, ''OP_ELSE''), (OP_ENDIF, ''OP_ENDIF''),
      (OP_VERIFY, ''OP_VERIFY''), (OP_RETURN, ''OP_RETURN''), (OP_TOALTSTACK, ''OP_TOALTSTACK''),
      (OP_FROMALTSTACK, ''OP_FROMALTSTACK''), (OP_2DROP, ''OP_2DROP''), (OP_2DUP, ''OP_2DUP''),
      (OP_3DUP, ''OP_3DUP''), (OP_2OVER, ''OP_2OVER''), (OP_2ROT, ''OP_2ROT''),
      (OP_2SWAP, ''OP_2SWAP''), (OP_IFDUP, ''OP_IFDUP''), (OP_DEPTH, ''OP_DEPTH''),
      (OP_DROP, ''OP_DROP''), (OP_DUP, ''OP_DUP''), (OP_NIP, ''OP_NIP''),
      (OP_OVER, ''OP_OVER''), (OP_PICK, ''OP_PICK''), (OP_ROLL, ''OP_ROLL''),
      (OP_ROT, ''OP_ROT''), (OP_SWAP, ''OP_SWAP''), (OP_TUCK, ''OP_TUCK''),
      (OP_CAT, ''OP_CAT''), (OP_SUBSTR, ''OP_SUBSTR''), (OP_LEFT, ''OP_LEFT''),
      (OP_RIGHT, ''OP_RIGHT''), (OP_SIZE, ''OP_SIZE''), (OP_INVERT, ''OP_INVERT''),
      (OP_AND, ''OP_AND''), (OP_OR, ''OP_OR''), (OP_XOR, ''OP_XOR''),
      (OP_EQUAL, ''OP_EQUAL''), (OP_EQUALVERIFY, ''OP_EQUALVERIFY''), (OP_RESERVED1, ''OP_RESERVED1''),
      (OP_RESERVED2, ''OP_RESERVED2''), (OP_1ADD, ''OP_1ADD''), (OP_1SUB, ''OP_1SUB''),
      (OP_2MUL, ''OP_2MUL''), (OP_2DIV, ''OP_2DIV''), (OP_NEGATE, ''OP_NEGATE''),
      (OP_ABS, ''OP_ABS''), (OP_NOT, ''OP_NOT''), (OP_0NOTEQUAL, ''OP_0NOTEQUAL''),
      (OP_ADD, ''OP_ADD''), (OP_SUB, ''OP_SUB''), (OP_MUL, ''OP_MUL''),
      (OP_DIV, ''OP_DIV''), (OP_MOD, ''OP_MOD''), (OP_LSHIFT, ''OP_LSHIFT''),
      (OP_RSHIFT, ''OP_RSHIFT''), (OP_BOOLAND, ''OP_BOOLAND''), (OP_BOOLOR, ''OP_BOOLOR''),
      (OP_NUMEQUAL, ''OP_NUMEQUAL''), (OP_NUMEQUALVERIFY, ''OP_NUMEQUALVERIFY''), (OP_NUMNOTEQUAL, ''OP_NUMNOTEQUAL''),
      (OP_LESSTHAN, ''OP_LESSTHAN''), (OP_GREATERTHAN, ''OP_GREATERTHAN''), (OP_LESSTHANOREQUAL, ''OP_LESSTHANOREQUAL''),
      (OP_GREATERTHANOREQUAL, ''OP_GREATERTHANOREQUAL''), (OP_MIN, ''OP_MIN''), (OP_MAX, ''OP_MAX''),
      (OP_WITHIN, ''OP_WITHIN''), (OP_RIPEMD160, ''OP_RIPEMD160''), (OP_SHA1, ''OP_SHA1''),
      (OP_SHA256, ''OP_SHA256''), (OP_HASH160, ''OP_HASH160''), (OP_HASH256, ''OP_HASH256''),
      (OP_CODESEPARATOR, ''OP_CODESEPARATOR''), (OP_CHECKSIG, ''OP_CHECKSIG''), (OP_CHECKSIGVERIFY, ''OP_CHECKSIGVERIFY''),
      (OP_CHECKMULTISIG, ''OP_CHECKMULTISIG''), (OP_CHECKMULTISIGVERIFY, ''OP_CHECKMULTISIGVERIFY''), (OP_NOP1, ''OP_NOP1''),
      (OP_CHECKLOCKTIMEVERIFY, ''OP_CHECKLOCKTIMEVERIFY''), (OP_CHECKSEQUENCEVERIFY, ''OP_CHECKSEQUENCEVERIFY''), (OP_NOP4, ''OP_NOP4''),
      (OP_NOP5, ''OP_NOP5''), (OP_CLAIM_NAME, ''OP_CLAIM_NAME''), (OP_SUPPORT_CLAIM, ''OP_SUPPORT_CLAIM''),
      (OP_UPDATE_CLAIM, ''OP_UPDATE_CLAIM''), (OP_NAME_TRIE, ''OP_NAME_TRIE''), (OP_NAME_UPDATE, ''OP_NAME_UPDATE''),
      (OP_INVALIDOPCODE, ''OP_INVALIDOPCODE'')]"

definition GetOpName :: "opcodetype \<Rightarrow> string" where
  "GetOpName opcode = (case map_of opcode_names opcode of Some s \<Rightarrow> s | None \<Rightarrow> ''OP_UNKNOWN'')"

text \<open>\<open>None\<close> is a failed assertion.\<close>

definition DecodeOP_N :: "opcodetype \<Rightarrow> nat option" where
  "DecodeOP_N opcode =
     (if opcode = OP_0 then Some 0
      else if opcode \<ge> OP_1 \<and> opcode \<le> OP_16 then Some (opcode - (OP_1 - 1)) else None)"

definition EncodeOP_N :: "int \<Rightarrow> opcodetype option" where
  "EncodeOP_N n =
     (if n \<ge> 0 \<and> n \<le> 16 then Some (if n = 0 then OP_0 else OP_1 + nat n - 1) else None)"

subsection \<open>Numbers\<close>

datatype scriptnum_error = ScriptNumOverflow | ScriptNumNotMinimal

definition nDefaultMaxNumSize :: nat where "nDefaultMaxNumSize = 4"

text \<open>The least number of bytes that hold \<open>absvalue\<close>, least significant first.\<close>

fun abs_bytes :: "nat \<Rightarrow> bytes" where
  "abs_bytes absvalue = (if absvalue = 0 then [] else of_nat (absvalue mod 256) # abs_bytes (absvalue div 256))"

declare abs_bytes.simps [simp del]

definition scriptnum_serialize :: "int \<Rightarrow> bytes" where
  "scriptnum_serialize value =
     (if value = 0 then []
      else let neg = value < 0; result = abs_bytes (nat (if neg then - value else value))
        in if last result AND 0x80 \<noteq> 0 then result @ [if neg then 0x80 else 0]
           else if neg then butlast result @ [last result OR 0x80]
           else result)"

definition set_vch :: "bytes \<Rightarrow> int" where
  "set_vch vch =
     (if vch = [] then 0
      else let result = int (le_value vch)
        in if last vch AND 0x80 \<noteq> 0
           then - (result AND NOT (push_bit (8 * (length vch - 1)) 0x80))
           else result)"

text \<open>The constructor of \<open>CScriptNum\<close> from bytes.\<close>

definition CScriptNum :: "bytes \<Rightarrow> bool \<Rightarrow> nat \<Rightarrow> scriptnum_error + int" where
  "CScriptNum vch fRequireMinimal nMaxNumSize =
     (if length vch > nMaxNumSize then Inl ScriptNumOverflow
      else if fRequireMinimal \<and> length vch > 0 \<and> last vch AND 0x7f = 0 \<and>
          (length vch \<le> 1 \<or> vch ! (length vch - 2) AND 0x80 = 0)
        then Inl ScriptNumNotMinimal
      else Inr (set_vch vch))"

definition getint :: "int \<Rightarrow> int" where
  "getint m_value =
     (if m_value > 2147483647 then 2147483647
      else if m_value < - 2147483648 then - 2147483648 else m_value)"

subsection \<open>Building scripts\<close>

definition push_opcode :: "CScript \<Rightarrow> int \<Rightarrow> CScript option" where
  "push_opcode s opcode = (if opcode < 0 \<or> opcode > 0xff then None else Some (s @ [of_int opcode]))"

definition push_data :: "CScript \<Rightarrow> bytes \<Rightarrow> CScript" where
  "push_data s b =
     s @ (if length b < OP_PUSHDATA1 then [of_nat (length b)]
          else if length b \<le> 0xff then [of_nat OP_PUSHDATA1, of_nat (length b)]
          else if length b \<le> 0xffff then of_nat OP_PUSHDATA2 # le_bytes 2 (length b)
          else of_nat OP_PUSHDATA4 # le_bytes 4 (length b)) @ b"

definition push_int64 :: "CScript \<Rightarrow> int \<Rightarrow> CScript" where
  "push_int64 s n =
     (if n = - 1 \<or> n \<ge> 1 \<and> n \<le> 16 then s @ [of_int (n + (int OP_1 - 1))]
      else if n = 0 then s @ [of_nat OP_0]
      else push_data s (scriptnum_serialize n))"

subsection \<open>Parsing scripts\<close>

text \<open>
  The size of the immediate operand and the position after it; \<open>Inl\<close> is the position where
  the script ends too early.
\<close>

definition push_size :: "opcodetype \<Rightarrow> bytes \<Rightarrow> bytes + nat \<times> bytes" where
  "push_size opcode pc =
     (if opcode < OP_PUSHDATA1 then Inr (opcode, pc)
      else let k = (if opcode = OP_PUSHDATA1 then 1 else if opcode = OP_PUSHDATA2 then 2 else 4)
        in if length pc < k then Inl pc else Inr (le_value (take k pc), drop k pc))"

text \<open>The result, the opcode, the data and the new position.\<close>

fun GetOp :: "bytes \<Rightarrow> bool \<times> opcodetype \<times> bytes \<times> bytes" where
  "GetOp [] = (False, OP_INVALIDOPCODE, [], [])"
| "GetOp (b # pc) =
     (let opcode = unat b in
      if opcode \<le> OP_PUSHDATA4
      then (case push_size opcode pc of
          Inl pc \<Rightarrow> (False, OP_INVALIDOPCODE, [], pc)
        | Inr (nSize, pc) \<Rightarrow>
            if length pc < nSize then (False, OP_INVALIDOPCODE, [], pc)
            else (True, opcode, take nSize pc, drop nSize pc))
      else (True, opcode, [], pc))"

lemma GetOp_shorter:
  assumes "GetOp pc = (r, opcode, data, pc')" "pc \<noteq> []"
  shows "length pc' < length pc"
  using assms by (cases pc) (auto simp: push_size_def Let_def split: if_splits sum.splits prod.splits)

function GetSigOpCount_loop :: "bool \<Rightarrow> bytes \<Rightarrow> opcodetype \<Rightarrow> nat \<Rightarrow> nat" where
  "GetSigOpCount_loop fAccurate pc lastOpcode n =
     (if pc = [] then n
      else case GetOp pc of (r, opcode, data, pc) \<Rightarrow>
        if \<not> r then n
        else GetSigOpCount_loop fAccurate pc opcode
          (if opcode = OP_CHECKSIG \<or> opcode = OP_CHECKSIGVERIFY then n + 1
           else if opcode = OP_CHECKMULTISIG \<or> opcode = OP_CHECKMULTISIGVERIFY
             then if fAccurate \<and> lastOpcode \<ge> OP_1 \<and> lastOpcode \<le> OP_16
                  then n + the (DecodeOP_N lastOpcode) else n + MAX_PUBKEYS_PER_MULTISIG
           else n))"
  by pat_completeness auto
termination
  by (relation "measure (\<lambda>(_, pc, _, _). length pc)") (auto dest: GetOp_shorter [OF sym])

definition GetSigOpCount :: "CScript \<Rightarrow> bool \<Rightarrow> nat" where
  "GetSigOpCount s fAccurate = GetSigOpCount_loop fAccurate s OP_INVALIDOPCODE 0"

definition IsPayToPublicKeyHash :: "CScript \<Rightarrow> bool" where
  "IsPayToPublicKeyHash s \<longleftrightarrow> length s = 25 \<and> unat (s ! 0) = OP_DUP \<and> unat (s ! 1) = OP_HASH160 \<and>
     s ! 2 = 0x14 \<and> unat (s ! 23) = OP_EQUALVERIFY \<and> unat (s ! 24) = OP_CHECKSIG"

definition IsPayToScriptHash :: "CScript \<Rightarrow> bool" where
  "IsPayToScriptHash s \<longleftrightarrow> length s = 23 \<and> unat (s ! 0) = OP_HASH160 \<and> s ! 1 = 0x14 \<and>
     unat (s ! 22) = OP_EQUAL"

text \<open>The data of the last operation of a script of pushes; \<open>None\<close> where the code returns 0.\<close>

function last_push :: "bytes \<Rightarrow> bytes \<Rightarrow> bytes option" where
  "last_push pc data =
     (if pc = [] then Some data
      else case GetOp pc of (r, opcode, data, pc) \<Rightarrow>
        if \<not> r then None else if opcode > OP_16 then None else last_push pc data)"
  by pat_completeness auto
termination by (relation "measure (\<lambda>(pc, _). length pc)") (auto dest: GetOp_shorter [OF sym])

definition GetSigOpCount_P2SH :: "CScript \<Rightarrow> CScript \<Rightarrow> nat" where
  "GetSigOpCount_P2SH s scriptSig =
     (if \<not> IsPayToScriptHash s then GetSigOpCount s True
      else case last_push scriptSig [] of None \<Rightarrow> 0 | Some data \<Rightarrow> GetSigOpCount data True)"

text \<open>The template loops: a wrong opcode at one of the positions, or too many operations, fail.\<close>

function template_loop :: "(nat \<times> opcodetype) list \<Rightarrow> nat \<Rightarrow> bytes \<Rightarrow> nat \<Rightarrow> bool" where
  "template_loop ops n pc i =
     (if pc = [] then True
      else case GetOp pc of (r, opcode, data, pc) \<Rightarrow>
        if (case map_of ops i of Some op \<Rightarrow> opcode \<noteq> op | None \<Rightarrow> i = n) then False
        else template_loop ops n pc (i + 1))"
  by pat_completeness auto
termination by (relation "measure (\<lambda>(_, _, pc, _). length pc)") (auto dest: GetOp_shorter [OF sym])

definition IsNormalPaymentScript :: "CScript \<Rightarrow> bool" where
  "IsNormalPaymentScript s \<longleftrightarrow> length s = 25 \<and>
     template_loop [(0, OP_DUP), (1, OP_HASH160), (3, OP_EQUALVERIFY), (4, OP_CHECKSIG)] 5 s 0"

definition IsCrossChainPaymentScript :: "CScript \<Rightarrow> bool" where
  "IsCrossChainPaymentScript s \<longleftrightarrow> length s = 81 \<and>
     template_loop [(0, OP_IF), (1, OP_RIPEMD160), (3, OP_EQUALVERIFY), (4, OP_DUP), (5, OP_HASH160),
       (7, OP_ELSE), (9, OP_CHECKLOCKTIMEVERIFY), (10, OP_DROP), (11, OP_DUP), (12, OP_HASH160),
       (14, OP_ENDIF), (15, OP_EQUALVERIFY), (16, OP_CHECKSIG)] 17 s 0"

function IsPushOnly :: "bytes \<Rightarrow> bool" where
  "IsPushOnly pc =
     (if pc = [] then True
      else case GetOp pc of (r, opcode, data, pc) \<Rightarrow>
        if \<not> r then False else if opcode > OP_16 then False else IsPushOnly pc)"
  by pat_completeness auto
termination by (relation "measure length") (auto dest: GetOp_shorter [OF sym])

definition IsUnspendable :: "CScript \<Rightarrow> bool" where
  "IsUnspendable s \<longleftrightarrow> s \<noteq> [] \<and> unat (hd s) = OP_RETURN"

function Find :: "bytes \<Rightarrow> opcodetype \<Rightarrow> nat" where
  "Find pc op =
     (if pc = [] then 0
      else case GetOp pc of (r, opcode, data, pc) \<Rightarrow>
        if \<not> r then 0 else (if opcode = op then 1 else 0) + Find pc op)"
  by pat_completeness auto
termination by (relation "measure (\<lambda>(pc, _). length pc)") (auto dest: GetOp_shorter [OF sym])

text \<open>The inner loop of \<open>FindAndDelete\<close>: the matches at a position.\<close>

function skip_matches :: "bytes \<Rightarrow> bytes \<Rightarrow> nat \<times> bytes" where
  "skip_matches b pc =
     (if b \<noteq> [] \<and> length pc \<ge> length b \<and> take (length b) pc = b
      then (case skip_matches b (drop (length b) pc) of (n, pc) \<Rightarrow> (n + 1, pc)) else (0, pc))"
  by pat_completeness auto
termination by (relation "measure (\<lambda>(_, pc). length pc)") (auto simp flip: length_greater_0_conv)

declare skip_matches.simps [simp del]

lemma skip_matches_length: "skip_matches b pc = (n, pc') \<Longrightarrow> length pc' \<le> length pc"
  by (induction b pc arbitrary: n pc' rule: skip_matches.induct)
    (subst (asm) skip_matches.simps, fastforce split: if_splits prod.splits)

text \<open>The outer loop: what is copied to \<open>result\<close>, the rest included, and the number of matches.\<close>

function FindAndDelete_loop :: "bytes \<Rightarrow> bytes \<Rightarrow> bytes \<times> nat" where
  "FindAndDelete_loop b pc =
     (case skip_matches b pc of (n, pc2) \<Rightarrow>
       case GetOp pc2 of (r, opcode, data, pc) \<Rightarrow>
         if r \<and> pc2 \<noteq> [] then
           (case FindAndDelete_loop b pc of (result, nFound) \<Rightarrow>
             (take (length pc2 - length pc) pc2 @ result, n + nFound))
         else (pc2, n))"
  by pat_completeness auto
termination
  by (relation "measure (\<lambda>(_, pc). length pc)")
    (auto dest!: GetOp_shorter [OF sym] skip_matches_length [OF sym])

definition FindAndDelete :: "CScript \<Rightarrow> CScript \<Rightarrow> CScript \<times> nat" where
  "FindAndDelete s b =
     (if b = [] then (s, 0)
      else case FindAndDelete_loop b s of (result, nFound) \<Rightarrow> (if nFound > 0 then result else s, nFound))"

declare GetSigOpCount_loop.simps [simp del] last_push.simps [simp del] template_loop.simps [simp del]
  IsPushOnly.simps [simp del] Find.simps [simp del] FindAndDelete_loop.simps [simp del]

subsection \<open>Bytes and their top bit\<close>

lemma byte_top_bit:
  "(b AND 0x80 = 0) = (unat (b :: u8) < 128)"
  "(b AND 0x7f = 0) = (unat b = 0 \<or> unat b = 128)"
  "unat b < 128 \<Longrightarrow> unat (b OR 0x80) = unat b + 128"
proof -
  have "list_all (\<lambda>n. ((of_nat n :: u8) AND 0x80 = 0) = (n < 128) \<and>
      ((of_nat n :: u8) AND 0x7f = 0) = (n = 0 \<or> n = 128) \<and>
      (n < 128 \<longrightarrow> unat ((of_nat n :: u8) OR 0x80) = n + 128)) [0..<256]"
    by code_simp
  then have "\<forall>n < 256. ((of_nat n :: u8) AND 0x80 = 0) = (n < 128) \<and>
      ((of_nat n :: u8) AND 0x7f = 0) = (n = 0 \<or> n = 128) \<and>
      (n < 128 \<longrightarrow> unat ((of_nat n :: u8) OR 0x80) = n + 128)"
    by (simp add: list_all_iff)
  from this [rule_format, OF unat_u8_less [of b]]
  show "(b AND 0x80 = 0) = (unat b < 128)" "(b AND 0x7f = 0) = (unat b = 0 \<or> unat b = 128)"
    "unat b < 128 \<Longrightarrow> unat (b OR 0x80) = unat b + 128"
    by simp_all
qed

lemma clear_bit:
  assumes "0 \<le> m" "m < 2 ^ j"
  shows "(m + 2 ^ j) AND NOT (2 ^ j) = (m :: int)"
proof -
  have "take_bit j m = m" using assms by (simp add: take_bit_int_eq_self)
  then have nb: "\<not> bit m j" by (metis bit_take_bit_iff less_irrefl)
  then have "m AND 2 ^ j = 0" by (auto intro!: bit_eqI simp: bit_simps)
  then have "m + 2 ^ j = m OR 2 ^ j" by (rule disjunctive_add_eq_or)
  then show ?thesis using nb by (auto intro!: bit_eqI simp: bit_simps)
qed

subsection \<open>Values of byte strings\<close>

lemma le_value_snoc: "le_value (xs @ [x]) = le_value xs + 256 ^ length xs * unat x"
  by (simp add: le_value_def horner_sum_append_nat)

lemma le_value_zero: "le_value (xs @ [0]) = le_value xs"
  by (simp add: le_value_snoc)

lemma le_value_positive:
  assumes "xs \<noteq> []" "last xs \<noteq> 0"
  shows "0 < le_value xs"
proof -
  have "xs = butlast xs @ [last xs]" using assms(1) by simp
  then have "le_value xs = le_value (butlast xs) + 256 ^ (length xs - 1) * unat (last xs)"
    using le_value_snoc [of "butlast xs" "last xs"] by simp
  then show ?thesis using assms(2) by (simp add: unat_gt_0)
qed

lemma abs_bytes_le_value: "xs = [] \<or> last xs \<noteq> 0 \<Longrightarrow> abs_bytes (le_value xs) = xs"
proof (induction xs)
  case (Cons x xs)
  have "xs = [] \<or> last xs \<noteq> 0" using Cons.prems by auto
  then have IH: "abs_bytes (le_value xs) = xs" by (rule Cons.IH)
  have "0 < le_value (x # xs)" using le_value_positive [of "x # xs"] Cons.prems by simp
  then show ?case
    using IH unat_u8_less [of x] by (subst abs_bytes.simps) (simp add: le_value_def)
qed (simp add: abs_bytes.simps le_value_def)

lemma abs_bytes_properties:
  "le_value (abs_bytes n) = n \<and> (0 < n \<longrightarrow> abs_bytes n \<noteq> [] \<and> last (abs_bytes n) \<noteq> 0)"
proof (induction n rule: abs_bytes.induct)
  case (1 n)
  show ?case
  proof (cases "n = 0")
    case False
    then have "abs_bytes n = of_nat (n mod 256) # abs_bytes (n div 256)" by (simp add: abs_bytes.simps)
    moreover have "unat (of_nat (n mod 256) :: u8) = n mod 256" by (simp add: unsigned_of_nat take_bit_eq_mod)
    moreover have "n div 256 = 0 \<Longrightarrow> (of_nat (n mod 256) :: u8) \<noteq> 0" and "n div 256 = 0 \<Longrightarrow> abs_bytes (n div 256) = []"
      using False calculation(2) by (auto simp: abs_bytes.simps simp flip: unat_eq_0)
    ultimately show ?thesis using 1 [OF False] False
      by (cases "n div 256 = 0") (auto simp: le_value_def)
  qed (simp add: abs_bytes.simps le_value_def)
qed

subsection \<open>Script numbers read back\<close>

text \<open>The value of bytes by their last one: the top bit is the sign.\<close>

lemma set_vch_snoc:
  "set_vch (xs @ [x]) =
     (if unat x < 128 then int (le_value (xs @ [x]))
      else - int (le_value xs + 256 ^ length xs * (unat x - 128)))"
proof (cases "unat x < 128")
  case False
  define m where "m = le_value xs + 256 ^ length xs * (unat x - 128)"
  have "(256 :: nat) ^ k * 128 = 2 ^ (8 * k + 7)" for k
    by (simp add: power_add power_mult)
  then have p: "(256 :: nat) ^ length xs * 128 = 2 ^ (8 * length xs + 7)" .
  have "unat x - 128 + 1 \<le> 128" using unat_u8_less [of x] by simp
  then have "256 ^ length xs * (unat x - 128 + 1) \<le> 256 ^ length xs * 128" by (rule mult_le_mono2)
  moreover have "le_value xs < 256 ^ length xs" by (rule le_value_less)
  ultimately have "m < 2 ^ (8 * length xs + 7)" unfolding p by (simp add: m_def algebra_simps)
  moreover have "le_value (xs @ [x]) = m + 2 ^ (8 * length xs + 7)"
    using False unfolding p [symmetric] le_value_snoc m_def by (simp flip: add_mult_distrib2)
  ultimately have "int (le_value (xs @ [x])) AND NOT (2 ^ (8 * length xs + 7)) = int m"
    using clear_bit [of "int m" "8 * length xs + 7"] by simp
  moreover have "push_bit (8 * length xs) 0x80 = (2 :: int) ^ (8 * length xs + 7)"
    by (simp add: push_bit_eq_mult power_add)
  ultimately have "set_vch (xs @ [x]) = - int m"
    using False by (simp add: set_vch_def Let_def byte_top_bit)
  then show ?thesis using False by (simp add: m_def)
qed (simp add: set_vch_def Let_def byte_top_bit)

lemma scriptnum_positive:
  "0 < n \<Longrightarrow> scriptnum_serialize (int n) =
     (if unat (last (abs_bytes n)) < 128 then abs_bytes n else abs_bytes n @ [0])"
  by (simp add: scriptnum_serialize_def Let_def byte_top_bit)

lemma scriptnum_negative:
  "0 < n \<Longrightarrow> scriptnum_serialize (- int n) =
     (if unat (last (abs_bytes n)) < 128 then butlast (abs_bytes n) @ [last (abs_bytes n) OR 0x80]
      else abs_bytes n @ [0x80])"
  by (simp add: scriptnum_serialize_def Let_def byte_top_bit)

lemma set_vch_serialize: "set_vch (scriptnum_serialize v) = v"
proof -
  consider "v = 0" | n where "0 < n" "v = int n" | n where "0 < n" "v = - int n"
    by (cases v rule: int_cases2) auto
  then show ?thesis
  proof cases
    case 1
    then show ?thesis by (simp add: scriptnum_serialize_def set_vch_def)
  next
    case 2
    obtain xs x where r: "abs_bytes n = xs @ [x]" "le_value (xs @ [x]) = n"
      using abs_bytes_properties [of n] 2(1) by (metis append_butlast_last_id)
    show ?thesis
      using 2 r by (cases "unat x < 128")
        (simp_all add: scriptnum_positive set_vch_snoc set_vch_snoc [of "xs @ [x]" 0, simplified] le_value_zero
          le_value_zero [of "xs @ [x]", simplified])
  next
    case 3
    obtain xs x where r: "abs_bytes n = xs @ [x]" "le_value (xs @ [x]) = n"
      using abs_bytes_properties [of n] 3(1) by (metis append_butlast_last_id)
    show ?thesis
      using 3 r by (cases "unat x < 128")
        (simp_all add: scriptnum_negative set_vch_snoc byte_top_bit(3) le_value_snoc [of xs x, symmetric]
          set_vch_snoc [of "xs @ [x]" "0x80", simplified])
  qed
qed

definition minimal_vch :: "bytes \<Rightarrow> bool" where
  "minimal_vch vch \<longleftrightarrow>
     (vch = [] \<or> last vch AND 0x7f \<noteq> 0 \<or> length vch > 1 \<and> vch ! (length vch - 2) AND 0x80 \<noteq> 0)"

lemma minimal_vch_snoc:
  "minimal_vch (xs @ [x]) \<longleftrightarrow> unat x \<noteq> 0 \<and> unat x \<noteq> 128 \<or> xs \<noteq> [] \<and> 128 \<le> unat (last xs)"
  by (cases xs rule: rev_cases) (auto simp: minimal_vch_def byte_top_bit nth_append)

lemma CScriptNum_minimal:
  "CScriptNum vch True k =
     (if k < length vch then Inl ScriptNumOverflow
      else if minimal_vch vch then Inr (set_vch vch) else Inl ScriptNumNotMinimal)"
  by (auto simp: CScriptNum_def minimal_vch_def)

lemma minimal_serialize: "minimal_vch (scriptnum_serialize v)"
proof -
  consider "v = 0" | n where "0 < n" "v = int n" | n where "0 < n" "v = - int n"
    by (cases v rule: int_cases2) auto
  then show ?thesis
  proof cases
    case 1
    then show ?thesis by (simp add: scriptnum_serialize_def minimal_vch_def)
  next
    case 2
    obtain xs x where r: "abs_bytes n = xs @ [x]" "x \<noteq> 0"
      using abs_bytes_properties [of n] 2(1) by (metis append_butlast_last_id)
    then have "unat x \<noteq> 0" by (simp add: unat_eq_0)
    then show ?thesis
      using 2 r minimal_vch_snoc [of xs x] minimal_vch_snoc [of "xs @ [x]" 0]
      by (cases "unat x < 128") (simp_all add: scriptnum_positive)
  next
    case 3
    obtain xs x where r: "abs_bytes n = xs @ [x]" "x \<noteq> 0"
      using abs_bytes_properties [of n] 3(1) by (metis append_butlast_last_id)
    then have "unat x \<noteq> 0" by (simp add: unat_eq_0)
    then show ?thesis
      using 3 r minimal_vch_snoc [of xs "x OR 0x80"] minimal_vch_snoc [of "xs @ [x]" "0x80"] byte_top_bit(3) [of x]
      by (cases "unat x < 128") (simp_all add: scriptnum_negative)
  qed
qed

lemma abs_bytes_last: "last xs \<noteq> 0 \<Longrightarrow> le_value xs = n \<Longrightarrow> abs_bytes n = xs"
  using abs_bytes_le_value [of xs] by auto

lemma serialize_set_vch:
  assumes "minimal_vch vch"
  shows "scriptnum_serialize (set_vch vch) = vch"
proof (cases vch rule: rev_cases)
  case (snoc xs x)
  note min = assms [unfolded snoc minimal_vch_snoc]
  show ?thesis
  proof (cases "unat x = 0 \<or> unat x = 128")
    case False
    then have "x \<noteq> 0" by auto
    then have pos: "0 < le_value (xs @ [x])" "x \<noteq> 0"
      using le_value_positive [of "xs @ [x]"] by simp_all
    show ?thesis
    proof (cases "unat x < 128")
      case True
      then show ?thesis
        using pos abs_bytes_last [of "xs @ [x]"] by (simp add: snoc set_vch_snoc scriptnum_positive)
    next
      case big: False
      define y where "y = (of_nat (unat x - 128) :: u8)"
      have "unat y = (unat x - 128) mod 256" unfolding y_def by (simp only: unsigned_of_nat take_bit_eq_mod) simp
      then have y: "unat y = unat x - 128" "unat y \<noteq> 0" "unat y < 128"
        using unat_u8_less [of x] False big by simp_all
      then have "y \<noteq> 0" by auto
      have "y OR 0x80 = x" using y byte_top_bit(3) [of y] big by (simp add: word_unat_eq_iff)
      moreover have "le_value (xs @ [y]) = le_value xs + 256 ^ length xs * (unat x - 128)"
        using y by (simp add: le_value_snoc)
      moreover have "0 < le_value (xs @ [y])" using le_value_positive [of "xs @ [y]"] \<open>y \<noteq> 0\<close> by simp
      ultimately show ?thesis
        using big y \<open>y \<noteq> 0\<close> abs_bytes_last [of "xs @ [y]"] scriptnum_negative [of "le_value (xs @ [y])"]
        by (simp add: snoc set_vch_snoc)
    qed
  next
    case True
    then have xs: "xs \<noteq> []" "128 \<le> unat (last xs)" "last xs \<noteq> 0" using min by auto
    then have n: "0 < le_value xs" "abs_bytes (le_value xs) = xs"
      using le_value_positive [of xs] abs_bytes_last [of xs] by auto
    have "x = 0 \<or> x = 0x80" using True by (simp add: word_unat_eq_iff)
    then show ?thesis
    proof
      assume "x = 0"
      then show ?thesis using n xs by (simp add: snoc set_vch_snoc le_value_zero scriptnum_positive)
    next
      assume "x = 0x80"
      then show ?thesis using n xs by (simp add: snoc set_vch_snoc scriptnum_negative)
    qed
  qed
qed (simp add: set_vch_def scriptnum_serialize_def)

lemma CScriptNum_Inr:
  "CScriptNum vch True k = Inr n \<longleftrightarrow> vch = scriptnum_serialize n \<and> length vch \<le> k"
  using minimal_serialize set_vch_serialize serialize_set_vch [of vch]
  by (auto simp: CScriptNum_minimal split: if_splits)

subsection \<open>Pushes are parsed back\<close>

lemma push_size_le_bytes:
  assumes "(opcode, k) \<in> {(OP_PUSHDATA1, 1), (OP_PUSHDATA2, 2), (OP_PUSHDATA4, 4)}" "n < 256 ^ k"
  shows "push_size opcode (le_bytes k n @ rest) = Inr (n, rest)"
proof -
  have "\<not> opcode < OP_PUSHDATA1" "(if opcode = OP_PUSHDATA1 then 1 else if opcode = OP_PUSHDATA2 then 2 else 4) = k"
    using assms(1) by auto
  then show ?thesis using assms(2) by (simp add: push_size_def le_value_le_bytes)
qed

lemma GetOp_push_data:
  assumes "length b < 2 ^ 32"
  shows "\<exists>opcode. opcode \<le> OP_PUSHDATA4 \<and> GetOp (push_data [] b @ rest) = (True, opcode, b, rest)"
proof -
  have one: "[of_nat n :: u8] = le_bytes 1 n" if "n < 256" for n using that by simp
  consider "length b < OP_PUSHDATA1" | "OP_PUSHDATA1 \<le> length b" "length b \<le> 0xff"
    | "0xff < length b" "length b \<le> 0xffff" | "0xffff < length b" by linarith
  then show ?thesis
  proof cases
    case 1
    then show ?thesis by (intro exI [of _ "length b"]) (simp add: push_data_def push_size_def unsigned_of_nat take_bit_eq_mod)
  next
    case 2
    then show ?thesis
      using push_size_le_bytes [of OP_PUSHDATA1 1 "length b" "b @ rest"]
      by (intro exI [of _ OP_PUSHDATA1]) (simp add: push_data_def)
  next
    case 3
    then show ?thesis
      using push_size_le_bytes [of OP_PUSHDATA2 2 "length b" "b @ rest"]
      by (intro exI [of _ OP_PUSHDATA2]) (simp add: push_data_def)
  next
    case 4
    then show ?thesis
      using push_size_le_bytes [of OP_PUSHDATA4 4 "length b" "b @ rest"] assms
      by (intro exI [of _ OP_PUSHDATA4]) (simp add: push_data_def)
  qed
qed

text \<open>A script of pushes only.\<close>

lemma IsPushOnly_push_data:
  assumes "length b < 2 ^ 32"
  shows "IsPushOnly (push_data [] b @ rest) = IsPushOnly rest"
proof -
  obtain opcode where "opcode \<le> OP_PUSHDATA4" "GetOp (push_data [] b @ rest) = (True, opcode, b, rest)"
    using GetOp_push_data [OF assms] by blast
  moreover have "push_data [] b \<noteq> []" by (simp add: push_data_def)
  ultimately show ?thesis by (subst IsPushOnly.simps) simp
qed

lemma GetSigOpCount_bound_loop:
  "GetSigOpCount_loop fAccurate pc lastOpcode n \<le> n + MAX_PUBKEYS_PER_MULTISIG * length pc"
proof (induction fAccurate pc lastOpcode n rule: GetSigOpCount_loop.induct)
  case (1 fAccurate pc lastOpcode n)
  obtain r opcode data pc' where g: "GetOp pc = (r, opcode, data, pc')" by (rule prod_cases4)
  show ?case
  proof (cases "pc = [] \<or> \<not> r")
    case True
    then show ?thesis using g by (subst GetSigOpCount_loop.simps) auto
  next
    case False
    define m where "m = (if opcode = OP_CHECKSIG \<or> opcode = OP_CHECKSIGVERIFY then n + 1
           else if opcode = OP_CHECKMULTISIG \<or> opcode = OP_CHECKMULTISIGVERIFY
             then if fAccurate \<and> lastOpcode \<ge> OP_1 \<and> lastOpcode \<le> OP_16
                  then n + the (DecodeOP_N lastOpcode) else n + MAX_PUBKEYS_PER_MULTISIG
           else n)"
    have "GetSigOpCount_loop fAccurate pc' opcode m \<le> m + MAX_PUBKEYS_PER_MULTISIG * length pc'"
      unfolding m_def using False by (intro "1.IH" [OF _ g [symmetric] refl refl]) auto
    moreover have "m \<le> n + MAX_PUBKEYS_PER_MULTISIG"
      by (auto simp: m_def MAX_PUBKEYS_PER_MULTISIG_def DecodeOP_N_def)
    moreover have "length pc' + 1 \<le> length pc" using GetOp_shorter [OF g] False by auto
    then have "MAX_PUBKEYS_PER_MULTISIG * (length pc' + 1) \<le> MAX_PUBKEYS_PER_MULTISIG * length pc"
      by (rule mult_le_mono2)
    moreover have "GetSigOpCount_loop fAccurate pc lastOpcode n = GetSigOpCount_loop fAccurate pc' opcode m"
      using False g by (subst GetSigOpCount_loop.simps) (simp add: m_def)
    ultimately show ?thesis by (simp add: algebra_simps)
  qed
qed

text \<open>A pay-to-key-hash script passes the slower template test as well.\<close>

lemma IsPayToPublicKeyHash_IsNormalPaymentScript:
  assumes "IsPayToPublicKeyHash s"
  shows "IsNormalPaymentScript s"
proof -
  have len: "length s = 25" and b: "unat (s ! 0) = OP_DUP" "unat (s ! 1) = OP_HASH160" "s ! 2 = 0x14"
    "unat (s ! 23) = OP_EQUALVERIFY" "unat (s ! 24) = OP_CHECKSIG"
    using assms by (auto simp: IsPayToPublicKeyHash_def)
  define h where "h = take 20 (drop 3 s)"
  have "s = s ! 0 # s ! 1 # s ! 2 # h @ [s ! 23, s ! 24]"
  proof (rule nth_equalityI)
    show "length s = length (s ! 0 # s ! 1 # s ! 2 # h @ [s ! 23, s ! 24])" using len by (simp add: h_def)
    show "s ! i = (s ! 0 # s ! 1 # s ! 2 # h @ [s ! 23, s ! 24]) ! i" if "i < length s" for i
    proof -
      have "i = 0 \<or> i = 1 \<or> i = 2 \<or> 3 \<le> i \<and> i < 23 \<or> i = 23 \<or> i = 24"
        using that len by presburger
      then show ?thesis using len by (elim disjE) (simp_all add: h_def nth_Cons' nth_append, intro impI, linarith)
    qed
  qed
  then obtain a c d e where s: "s = a # c # 0x14 # h @ [d, e]" "unat a = OP_DUP" "unat c = OP_HASH160"
    "unat d = OP_EQUALVERIFY" "unat e = OP_CHECKSIG" using b by metis
  have h: "length h = 20" using len by (simp add: h_def)
  have "template_loop ops 5 s 0 = template_loop ops 5 (0x14 # h @ [d, e]) 2"
    if "map_of ops 0 = Some OP_DUP" "map_of ops 1 = Some OP_HASH160" for ops
    using that s by (simp add: template_loop.simps [of _ _ "a # _"] template_loop.simps [of _ _ "c # _"] numeral_2_eq_2)
  moreover have "GetOp (0x14 # h @ [d, e]) = (True, 20, h, [d, e])"
    using h by (simp add: push_size_def)
  ultimately show ?thesis
    using s(4,5) len by (simp add: IsNormalPaymentScript_def template_loop.simps [of _ _ "_ # _"] template_loop.simps [of _ _ "[]"])
qed

text \<open>Deleting a pattern removes exactly the bytes of the matches that are counted.\<close>

lemma skip_matches_count:
  "skip_matches b pc = (n, pc') \<Longrightarrow> length pc = n * length b + length pc'"
proof (induction b pc arbitrary: n pc' rule: skip_matches.induct)
  case (1 b pc)
  show ?case
  proof (cases "b \<noteq> [] \<and> length pc \<ge> length b \<and> take (length b) pc = b")
    case True
    obtain m q where m: "skip_matches b (drop (length b) pc) = (m, q)" by fastforce
    then have "n = m + 1" "pc' = q" using 1(2) True by (simp_all add: skip_matches.simps [of b pc])
    moreover have "length (drop (length b) pc) = m * length b + length q" by (rule "1.IH" [OF True m])
    ultimately show ?thesis using conjunct1 [OF conjunct2 [OF True]] by simp
  next
    case False
    then show ?thesis using 1(2) by (subst (asm) skip_matches.simps) auto
  qed
qed

lemma GetOp_suffix: "GetOp pc = (r, opcode, data, pc') \<Longrightarrow> length pc' \<le> length pc"
  using GetOp_shorter [of pc r opcode data pc'] by (cases "pc = []") auto

lemma FindAndDelete_loop_count:
  "FindAndDelete_loop b pc = (result, n) \<Longrightarrow> length pc = n * length b + length result"
proof (induction b pc arbitrary: result n rule: FindAndDelete_loop.induct)
  case (1 b pc)
  obtain k pc2 where k: "skip_matches b pc = (k, pc2)" by fastforce
  obtain r opcode data pc' where g: "GetOp pc2 = (r, opcode, data, pc')" by (rule prod_cases4)
  obtain res m where rec: "FindAndDelete_loop b pc' = (res, m)" by fastforce
  show ?case
  proof (cases "r \<and> pc2 \<noteq> []")
    case True
    have "length pc' = m * length b + length res"
      by (rule "1.IH" [OF k [symmetric] g [symmetric] refl refl True rec])
    moreover have "result = take (length pc2 - length pc') pc2 @ res" "n = k + m"
      using 1(2) True k g rec by (simp_all add: FindAndDelete_loop.simps [of b pc])
    ultimately show ?thesis
      using skip_matches_count [OF k] GetOp_suffix [OF g] by (simp add: algebra_simps)
  next
    case False
    then show ?thesis
      using 1(2) skip_matches_count [OF k] k g by (auto simp: FindAndDelete_loop.simps [of b pc] split: if_splits)
  qed
qed

lemma FindAndDelete_count:
  "FindAndDelete s b = (result, n) \<Longrightarrow> length s = n * length b + length result"
  using FindAndDelete_loop_count [of b s] by (auto simp: FindAndDelete_def split: if_splits prod.splits)

subsection \<open>Properties\<close>

text \<open>
  A script number has exactly one encoding that is accepted under the minimality rule: the
  one \<open>serialize\<close> produces, whatever the limit on its size.
\<close>

theorem CScriptNum_unique_encoding:
  "CScriptNum vch True nMaxNumSize = Inr n \<longleftrightarrow> vch = scriptnum_serialize n \<and> length vch \<le> nMaxNumSize"
  by (rule CScriptNum_Inr)

text \<open>
  Data pushed onto a script is parsed back as one push operation with the data, and the parser
  stops at what follows it; an argument of a script of pushes keeps it one.
\<close>

theorem GetOp_reads_push:
  assumes "length b < 2 ^ 32"
  shows "(\<exists>opcode \<le> OP_PUSHDATA4. GetOp (push_data [] b @ rest) = (True, opcode, b, rest)) \<and>
    IsPushOnly (push_data [] b @ rest) = IsPushOnly rest"
  using GetOp_push_data [OF assms] IsPushOnly_push_data [OF assms] by simp

lemma GetOp_reads_push_witness:
  "\<exists>opcode \<le> OP_PUSHDATA4. GetOp (push_data [] (replicate 80 7) @ [0xac]) = (True, opcode, replicate 80 7, [0xac])"
  using GetOp_reads_push [of "replicate 80 7" "[0xac]"] by simp

end
