(* ===== verification/Transactions.thy ===== *)
theory Transactions
  imports Amounts Chain ClaimTypes Script
begin

text \<open>
  Transactions and blocks (\<open>primitives/transaction.h\<close>, \<open>primitives/transaction.cpp\<close>,
  \<open>primitives/block.h\<close>): their fields, their serialization, their hashes and sizes.
\<close>

unbundle bit_operations_syntax

subsection \<open>Outpoints, inputs and outputs\<close>

definition COutPoint_SetNull :: COutPoint where
  "COutPoint_SetNull = \<lparr>op_hash = blob_SetNull 256, op_n = - 1\<rparr>"

definition COutPoint_IsNull :: "COutPoint \<Rightarrow> bool" where
  "COutPoint_IsNull o1 \<longleftrightarrow> blob_IsNull (op_hash o1) \<and> op_n o1 = - 1"

definition SEQUENCE_FINAL :: u32 where "SEQUENCE_FINAL = 0xffffffff"
definition SEQUENCE_LOCKTIME_DISABLE_FLAG :: u32 where "SEQUENCE_LOCKTIME_DISABLE_FLAG = push_bit 31 1"
definition SEQUENCE_LOCKTIME_TYPE_FLAG :: u32 where "SEQUENCE_LOCKTIME_TYPE_FLAG = push_bit 22 1"
definition SEQUENCE_LOCKTIME_MASK :: u32 where "SEQUENCE_LOCKTIME_MASK = 0x0000ffff"
definition SEQUENCE_LOCKTIME_GRANULARITY :: nat where "SEQUENCE_LOCKTIME_GRANULARITY = 9"

record CTxIn =
  prevout :: COutPoint
  scriptSig :: CScript
  nSequence :: u32
  prevPubKey :: CScript

definition mk_CTxIn :: "COutPoint \<Rightarrow> CScript \<Rightarrow> u32 \<Rightarrow> CTxIn" where
  "mk_CTxIn prevoutIn scriptSigIn nSequenceIn =
     \<lparr>prevout = prevoutIn, scriptSig = scriptSigIn, nSequence = nSequenceIn, prevPubKey = []\<rparr>"

record CTxOut =
  nValue :: CAmount
  scriptPubKey :: CScript
  nRounds :: int

definition mk_CTxOut :: "CAmount \<Rightarrow> CScript \<Rightarrow> CTxOut" where
  "mk_CTxOut nValueIn scriptPubKeyIn = \<lparr>nValue = nValueIn, scriptPubKey = scriptPubKeyIn, nRounds = - 10\<rparr>"

definition CTxOut_SetNull :: CTxOut where
  "CTxOut_SetNull = \<lparr>nValue = - 1, scriptPubKey = [], nRounds = - 10\<rparr>"

definition CTxOut_IsNull :: "CTxOut \<Rightarrow> bool" where
  "CTxOut_IsNull out \<longleftrightarrow> nValue out = - 1"

record CTransaction =
  tx_nVersion :: u32
  vin :: "CTxIn list"
  vout :: "CTxOut list"
  nLockTime :: u32

definition CURRENT_VERSION :: u32 where "CURRENT_VERSION = 1"

definition CTransaction_Null :: CTransaction where
  "CTransaction_Null = \<lparr>tx_nVersion = CURRENT_VERSION, vin = [], vout = [], nLockTime = 0\<rparr>"

definition CTransaction_IsNull :: "CTransaction \<Rightarrow> bool" where
  "CTransaction_IsNull tx \<longleftrightarrow> vin tx = [] \<and> vout tx = []"

definition IsCoinBase :: "CTransaction \<Rightarrow> bool" where
  "IsCoinBase tx \<longleftrightarrow> length (vin tx) = 1 \<and> COutPoint_IsNull (prevout (vin tx ! 0))"

record CBlock =
  blk_header :: CBlockHeader
  vtx :: "CTransaction list"

subsection \<open>Serialization\<close>

definition Serialize_int64 :: "int \<Rightarrow> bytes" where
  "Serialize_int64 a = Serialize_u64 (of_int a)"

definition Unserialize_int64 :: "int reader" where
  "Unserialize_int64 = rd_then Unserialize_u64 (\<lambda>w. rd_return (sint w))"

definition Serialize_COutPoint :: "COutPoint \<Rightarrow> bytes" where
  "Serialize_COutPoint p = Serialize_blob (op_hash p) @ Serialize_u32 (op_n p)"

definition Unserialize_COutPoint :: "COutPoint reader" where
  "Unserialize_COutPoint =
     rd_then (Unserialize_blob 256) (\<lambda>h. rd_then Unserialize_u32 (\<lambda>n. rd_return \<lparr>op_hash = h, op_n = n\<rparr>))"

definition Serialize_CTxIn :: "CTxIn \<Rightarrow> bytes" where
  "Serialize_CTxIn i = Serialize_COutPoint (prevout i) @ Serialize_bytes (scriptSig i) @ Serialize_u32 (nSequence i)"

definition Unserialize_CTxIn :: "CTxIn reader" where
  "Unserialize_CTxIn =
     rd_then Unserialize_COutPoint (\<lambda>p. rd_then Unserialize_bytes (\<lambda>s. rd_then Unserialize_u32 (\<lambda>n.
       rd_return (mk_CTxIn p s n))))"

definition Serialize_CTxOut :: "CTxOut \<Rightarrow> bytes" where
  "Serialize_CTxOut out = Serialize_int64 (nValue out) @ Serialize_bytes (scriptPubKey out)"

definition Unserialize_CTxOut :: "CTxOut reader" where
  "Unserialize_CTxOut =
     rd_then Unserialize_int64 (\<lambda>v. rd_then Unserialize_bytes (\<lambda>s. rd_return (mk_CTxOut v s)))"

definition Serialize_CTransaction :: "CTransaction \<Rightarrow> bytes" where
  "Serialize_CTransaction tx =
     Serialize_u32 (tx_nVersion tx) @ Serialize_vector Serialize_CTxIn (vin tx) @
     Serialize_vector Serialize_CTxOut (vout tx) @ Serialize_u32 (nLockTime tx)"

definition Unserialize_CTransaction :: "CTransaction reader" where
  "Unserialize_CTransaction =
     rd_then Unserialize_u32 (\<lambda>v. rd_then (Unserialize_vector Unserialize_CTxIn) (\<lambda>is.
     rd_then (Unserialize_vector Unserialize_CTxOut) (\<lambda>os. rd_then Unserialize_u32 (\<lambda>t.
       rd_return \<lparr>tx_nVersion = v, vin = is, vout = os, nLockTime = t\<rparr>))))"

definition Serialize_CBlockHeader :: "CBlockHeader \<Rightarrow> bytes" where
  "Serialize_CBlockHeader h =
     Serialize_u32 (hdr_nVersion h) @ Serialize_blob (hdr_hashPrevBlock h) @ Serialize_blob (hdr_hashMerkleRoot h) @
     Serialize_blob (hdr_hashClaimTrie h) @ Serialize_u32 (hdr_nTime h) @ Serialize_u32 (hdr_nBits h) @
     Serialize_blob (hdr_nNonce h)"

definition Unserialize_CBlockHeader :: "CBlockHeader reader" where
  "Unserialize_CBlockHeader =
     rd_then Unserialize_u32 (\<lambda>v. rd_then (Unserialize_blob 256) (\<lambda>p. rd_then (Unserialize_blob 256) (\<lambda>m.
     rd_then (Unserialize_blob 256) (\<lambda>c. rd_then Unserialize_u32 (\<lambda>t. rd_then Unserialize_u32 (\<lambda>b.
     rd_then (Unserialize_blob 256) (\<lambda>n. rd_return \<lparr>hdr_nVersion = v, hdr_hashPrevBlock = p,
       hdr_hashMerkleRoot = m, hdr_hashClaimTrie = c, hdr_nTime = t, hdr_nBits = b, hdr_nNonce = n\<rparr>)))))))"

definition Serialize_CBlock :: "CBlock \<Rightarrow> bytes" where
  "Serialize_CBlock b = Serialize_CBlockHeader (blk_header b) @ Serialize_vector Serialize_CTransaction (vtx b)"

definition Unserialize_CBlock :: "CBlock reader" where
  "Unserialize_CBlock =
     rd_then Unserialize_CBlockHeader (\<lambda>h. rd_then (Unserialize_vector Unserialize_CTransaction) (\<lambda>txs.
       rd_return \<lparr>blk_header = h, vtx = txs\<rparr>))"

text \<open>The locator has the stream version in front, unless it is hashed.\<close>

definition Serialize_CBlockLocator :: "u32 \<Rightarrow> uint256 list \<Rightarrow> bool \<Rightarrow> bytes" where
  "Serialize_CBlockLocator version vHave gethash =
     (if gethash then [] else Serialize_u32 version) @ Serialize_vector Serialize_blob vHave"

subsection \<open>Hashes, sums and sizes\<close>

definition SerializeHash :: "bytes \<Rightarrow> uint256" where
  "SerializeHash data = Hash [data]"

definition CTransaction_GetHash :: "CTransaction \<Rightarrow> uint256" where
  "CTransaction_GetHash tx = SerializeHash (Serialize_CTransaction tx)"

definition CTxOut_GetHash :: "CTxOut \<Rightarrow> uint256" where
  "CTxOut_GetHash out = SerializeHash (Serialize_CTxOut out)"

text \<open>\<open>None\<close> is the exception "value out of range".\<close>

fun value_out_loop :: "CTxOut list \<Rightarrow> CAmount \<Rightarrow> CAmount option" where
  "value_out_loop [] nValueOut = Some nValueOut"
| "value_out_loop (out # outs) nValueOut =
     (let nValueOut = nValueOut + nValue out in
      if \<not> MoneyRange (nValue out) \<or> \<not> MoneyRange nValueOut then None else value_out_loop outs nValueOut)"

definition GetValueOut :: "CTransaction \<Rightarrow> CAmount option" where
  "GetValueOut tx = value_out_loop (vout tx) 0"

definition CalculateModifiedSize :: "CTransaction \<Rightarrow> nat \<Rightarrow> nat" where
  "CalculateModifiedSize tx nTxSize =
     fold (\<lambda>i nTxSize. let offset = 41 + min 110 (length (scriptSig i))
                       in if nTxSize > offset then nTxSize - offset else nTxSize)
       (vin tx) (if nTxSize = 0 then length (Serialize_CTransaction tx) else nTxSize)"

definition GetDustThreshold :: "CTxOut \<Rightarrow> CFeeRate \<Rightarrow> CAmount" where
  "GetDustThreshold out minRelayTxFee =
     (if IsUnspendable (scriptPubKey out) then 0
      else let nSize = length (Serialize_CTxOut out) + 148
        in sint (3 * GetFee minRelayTxFee (of_nat nSize)))"

definition IsDust :: "CTxOut \<Rightarrow> CFeeRate \<Rightarrow> bool" where
  "IsDust out minRelayTxFee \<longleftrightarrow> nValue out < GetDustThreshold out minRelayTxFee"

subsection \<open>What is written is read back\<close>

definition wf_outpoint :: "COutPoint \<Rightarrow> bool" where
  "wf_outpoint p \<longleftrightarrow> length (op_hash p) = 32"

definition wf_txin :: "CTxIn \<Rightarrow> bool" where
  "wf_txin i \<longleftrightarrow> wf_outpoint (prevout i) \<and> length (scriptSig i) \<le> MAX_SIZE \<and> prevPubKey i = []"

definition wf_txout :: "CTxOut \<Rightarrow> bool" where
  "wf_txout out \<longleftrightarrow> - (2 ^ 63) \<le> nValue out \<and> nValue out < 2 ^ 63 \<and> length (scriptPubKey out) \<le> MAX_SIZE \<and>
     nRounds out = - 10"

definition wf_tx :: "CTransaction \<Rightarrow> bool" where
  "wf_tx tx \<longleftrightarrow> list_all wf_txin (vin tx) \<and> length (vin tx) \<le> MAX_SIZE \<and>
     list_all wf_txout (vout tx) \<and> length (vout tx) \<le> MAX_SIZE"

definition wf_header :: "CBlockHeader \<Rightarrow> bool" where
  "wf_header h \<longleftrightarrow> length (hdr_hashPrevBlock h) = 32 \<and> length (hdr_hashMerkleRoot h) = 32 \<and>
     length (hdr_hashClaimTrie h) = 32 \<and> length (hdr_nNonce h) = 32"

definition wf_block :: "CBlock \<Rightarrow> bool" where
  "wf_block b \<longleftrightarrow> wf_header (blk_header b) \<and> list_all wf_tx (vtx b) \<and> length (vtx b) \<le> MAX_SIZE"

interpretation int64_codec: codec Serialize_int64 Unserialize_int64 "\<lambda>a. - (2 ^ 63) \<le> a \<and> a < 2 ^ 63"
proof
  fix a :: int and rest
  assume "- (2 ^ 63) \<le> a \<and> a < 2 ^ 63"
  then have "sint (word_of_int a :: u64) = a"
    by (simp add: sint_sbintrunc' signed_take_bit_int_eq_self)
  then show "Unserialize_int64 (Serialize_int64 a @ rest) = Inr (a, rest)"
    by (simp add: Unserialize_int64_def Serialize_int64_def u64_codec.then_reads_back rd_return_def)
qed

interpretation outpoint_codec: codec Serialize_COutPoint Unserialize_COutPoint wf_outpoint
  by unfold_locales
    (simp add: Serialize_COutPoint_def Unserialize_COutPoint_def wf_outpoint_def blob256_codec.then_reads_back
      u32_codec.then_reads_back rd_return_def)

interpretation txin_codec: codec Serialize_CTxIn Unserialize_CTxIn wf_txin
  by unfold_locales
    (simp add: Serialize_CTxIn_def Unserialize_CTxIn_def wf_txin_def outpoint_codec.then_reads_back
      bytes_codec.then_reads_back u32_codec.then_reads_back rd_return_def mk_CTxIn_def)

interpretation txout_codec: codec Serialize_CTxOut Unserialize_CTxOut wf_txout
  by unfold_locales
    (simp add: Serialize_CTxOut_def Unserialize_CTxOut_def wf_txout_def int64_codec.then_reads_back
      bytes_codec.then_reads_back rd_return_def mk_CTxOut_def)

interpretation txins_codec: codec "Serialize_vector Serialize_CTxIn" "Unserialize_vector Unserialize_CTxIn"
  "\<lambda>v. list_all wf_txin v \<and> length v \<le> MAX_SIZE"
  by (rule vector_codec [OF txin_codec.codec_axioms])

interpretation txouts_codec: codec "Serialize_vector Serialize_CTxOut" "Unserialize_vector Unserialize_CTxOut"
  "\<lambda>v. list_all wf_txout v \<and> length v \<le> MAX_SIZE"
  by (rule vector_codec [OF txout_codec.codec_axioms])

interpretation tx_codec: codec Serialize_CTransaction Unserialize_CTransaction wf_tx
  by unfold_locales
    (simp add: Serialize_CTransaction_def Unserialize_CTransaction_def wf_tx_def u32_codec.then_reads_back
      txins_codec.then_reads_back txouts_codec.then_reads_back rd_return_def)

interpretation txs_codec: codec "Serialize_vector Serialize_CTransaction" "Unserialize_vector Unserialize_CTransaction"
  "\<lambda>v. list_all wf_tx v \<and> length v \<le> MAX_SIZE"
  by (rule vector_codec [OF tx_codec.codec_axioms])

interpretation header_codec: codec Serialize_CBlockHeader Unserialize_CBlockHeader wf_header
  by unfold_locales
    (simp add: Serialize_CBlockHeader_def Unserialize_CBlockHeader_def wf_header_def u32_codec.then_reads_back
      blob256_codec.then_reads_back rd_return_def)

interpretation block_codec: codec Serialize_CBlock Unserialize_CBlock wf_block
  by unfold_locales
    (simp add: Serialize_CBlock_def Unserialize_CBlock_def wf_block_def header_codec.then_reads_back
      txs_codec.then_reads_back rd_return_def)

lemma value_out_loop_Some:
  "value_out_loop outs acc = Some v \<Longrightarrow> v = acc + sum_list (map nValue outs) \<and> (\<forall>out \<in> set outs. MoneyRange (nValue out))"
proof (induction outs arbitrary: acc)
  case (Cons out outs)
  from Cons.prems have "value_out_loop outs (acc + nValue out) = Some v" "MoneyRange (nValue out)"
    by (simp_all add: Let_def split: if_splits)
  with Cons.IH [OF this(1)] show ?case by auto
qed simp

lemma value_out_loop_range: "value_out_loop outs acc = Some v \<Longrightarrow> outs = [] \<or> MoneyRange v"
proof (induction outs arbitrary: acc)
  case (Cons out outs)
  then show ?case by (cases outs) (auto simp: Let_def split: if_splits)
qed simp

lemma value_out_loop_total:
  assumes "0 \<le> acc" "\<forall>out \<in> set outs. 0 \<le> nValue out" "acc + sum_list (map nValue outs) \<le> MAX_MONEY"
  shows "value_out_loop outs acc = Some (acc + sum_list (map nValue outs))"
  using assms
proof (induction outs arbitrary: acc)
  case (Cons out outs)
  have "0 \<le> sum_list (map nValue outs)" using Cons.prems(2) by (intro sum_list_nonneg) auto
  then show ?case using Cons.prems Cons.IH [of "acc + nValue out"] by (simp add: Let_def MoneyRange_def)
qed simp

lemma GetValueOut_iff:
  "GetValueOut tx = Some v \<longleftrightarrow>
     v = sum_list (map nValue (vout tx)) \<and> (\<forall>out \<in> set (vout tx). 0 \<le> nValue out) \<and> v \<le> MAX_MONEY"
proof
  assume a: "GetValueOut tx = Some v"
  then have "v \<le> MAX_MONEY"
    using value_out_loop_range [of "vout tx" 0 v] by (auto simp: GetValueOut_def MoneyRange_def MAX_MONEY_def COIN_def)
  then show "v = sum_list (map nValue (vout tx)) \<and> (\<forall>out \<in> set (vout tx). 0 \<le> nValue out) \<and> v \<le> MAX_MONEY"
    using a value_out_loop_Some [of "vout tx" 0 v] by (auto simp: GetValueOut_def MoneyRange_def)
next
  assume "v = sum_list (map nValue (vout tx)) \<and> (\<forall>out \<in> set (vout tx). 0 \<le> nValue out) \<and> v \<le> MAX_MONEY"
  then show "GetValueOut tx = Some v"
    using value_out_loop_total [of 0 "vout tx"] by (simp add: GetValueOut_def)
qed

subsection \<open>Properties\<close>

text \<open>
  C38. A block that is written is read back from the front of any stream, field by field and
  transaction by transaction, and what follows it is left unread.
\<close>

theorem CBlock_reads_back:
  assumes "wf_block b"
  shows "Unserialize_CBlock (Serialize_CBlock b @ rest) = Inr (b, rest)"
  by (rule block_codec.reads_back [OF assms])

lemma CBlock_reads_back_witness:
  "Unserialize_CBlock (Serialize_CBlock \<lparr>blk_header = CBlockHeader_SetNull, vtx = [\<lparr>tx_nVersion = 1,
       vin = [mk_CTxIn COutPoint_SetNull [1, 2] SEQUENCE_FINAL], vout = [mk_CTxOut 5000 [0x51]], nLockTime = 0\<rparr>]\<rparr> @ [9]) =
     Inr (\<lparr>blk_header = CBlockHeader_SetNull, vtx = [\<lparr>tx_nVersion = 1,
       vin = [mk_CTxIn COutPoint_SetNull [1, 2] SEQUENCE_FINAL], vout = [mk_CTxOut 5000 [0x51]], nLockTime = 0\<rparr>]\<rparr>, [9])"
  by (rule CBlock_reads_back)
    (simp add: wf_block_def wf_header_def wf_tx_def wf_txin_def wf_txout_def wf_outpoint_def CBlockHeader_SetNull_def
      blob_SetNull_def COutPoint_SetNull_def mk_CTxIn_def mk_CTxOut_def MAX_SIZE_def)

text \<open>
  \<open>GetValueOut\<close> returns a sum exactly when no output is negative and the outputs together
  are at most \<open>MAX_MONEY\<close>; otherwise it throws.
\<close>

theorem GetValueOut_sum:
  "GetValueOut tx = Some v \<longleftrightarrow>
     v = sum_list (map nValue (vout tx)) \<and> (\<forall>out \<in> set (vout tx). 0 \<le> nValue out) \<and> v \<le> MAX_MONEY"
  by (rule GetValueOut_iff)

lemma GetValueOut_sum_witness:
  "GetValueOut \<lparr>tx_nVersion = 1, vin = [], vout = [mk_CTxOut 5000 [0x51], mk_CTxOut 70 []], nLockTime = 0\<rparr> = Some 5070"
  unfolding GetValueOut_sum by (simp add: mk_CTxOut_def MAX_MONEY_def COIN_def)

end
