(* ===== verification/Standard.thy ===== *)
theory Standard
  imports Transactions
begin

text \<open>
  Script templates: claim scripts (\<open>nameclaim.cpp\<close>), standard payment scripts and their
  destinations (\<open>script/standard.cpp\<close>), and compressed scripts and outputs (\<open>compressor.cpp\<close>).
  A public key is its bytes, empty when it is invalid; whether a point is on the curve and the
  decompression of a key are parameters, because they are answered by the secp256k1 library.
\<close>

unbundle bit_operations_syntax

subsection \<open>Public keys\<close>

definition GetLen :: "u8 \<Rightarrow> nat" where
  "GetLen chHeader =
     (if chHeader = 2 \<or> chHeader = 3 then 33
      else if chHeader = 4 \<or> chHeader = 6 \<or> chHeader = 7 then 65 else 0)"

definition CPubKey_Set :: "bytes \<Rightarrow> bytes" where
  "CPubKey_Set vch =
     (let len = (if vch = [] then 0 else GetLen (hd vch)) in if len \<noteq> 0 \<and> len = length vch then vch else [])"

definition CPubKey_IsValid :: "bytes \<Rightarrow> bool" where
  "CPubKey_IsValid key \<longleftrightarrow> key \<noteq> []"

definition CPubKey_GetID :: "bytes \<Rightarrow> uint160" where
  "CPubKey_GetID key = Hash160 key"

subsection \<open>Claim scripts\<close>

definition uint32_t_to_vch :: "u32 \<Rightarrow> bytes" where
  "uint32_t_to_vch n = [ucast (drop_bit 24 n), ucast (drop_bit 16 n), ucast (drop_bit 8 n), ucast n]"

definition vch_to_uint32_t :: "bytes \<Rightarrow> u32" where
  "vch_to_uint32_t vchN =
     (if length vchN \<noteq> 4 then 0
      else push_bit 24 (ucast (vchN ! 0)) OR push_bit 16 (ucast (vchN ! 1)) OR push_bit 8 (ucast (vchN ! 2)) OR
           ucast (vchN ! 3))"

definition op_byte :: "opcodetype \<Rightarrow> bytes" where
  "op_byte opcode = [of_nat opcode]"

definition ClaimNameScript :: "bytes \<Rightarrow> bytes \<Rightarrow> CScript" where
  "ClaimNameScript name value =
     push_data (push_data (op_byte OP_CLAIM_NAME) name) value @ op_byte OP_2DROP @ op_byte OP_DROP @ op_byte OP_TRUE"

definition SupportClaimScript :: "bytes \<Rightarrow> uint160 \<Rightarrow> CScript" where
  "SupportClaimScript name claimId =
     push_data (push_data (op_byte OP_SUPPORT_CLAIM) name) claimId @ op_byte OP_2DROP @ op_byte OP_DROP @ op_byte OP_TRUE"

definition UpdateClaimScript :: "bytes \<Rightarrow> uint160 \<Rightarrow> bytes \<Rightarrow> CScript" where
  "UpdateClaimScript name claimId value =
     push_data (push_data (push_data (op_byte OP_UPDATE_CLAIM) name) claimId) value @
     op_byte OP_2DROP @ op_byte OP_2DROP @ op_byte OP_TRUE"

text \<open>A pushed parameter and the position after it.\<close>

definition claim_param :: "bytes \<Rightarrow> (bytes \<times> bytes) option" where
  "claim_param pc =
     (case GetOp pc of (r, opcode, vchParam, pc) \<Rightarrow>
       if \<not> r \<or> opcode > OP_PUSHDATA4 then None else Some (vchParam, pc))"

text \<open>An operation without data: its opcode and the position after it.\<close>

definition claim_op :: "bytes \<Rightarrow> (opcodetype \<times> bytes) option" where
  "claim_op pc = (case GetOp pc of (r, opcode, _, pc) \<Rightarrow> if \<not> r then None else Some (opcode, pc))"

definition claim_drops :: "opcodetype \<Rightarrow> bytes \<Rightarrow> bytes option" where
  "claim_drops op pc =
     (case claim_op pc of None \<Rightarrow> None
      | Some (opcode, pc) \<Rightarrow>
          if opcode \<noteq> OP_2DROP then None
          else (case claim_op pc of None \<Rightarrow> None
            | Some (opcode, pc) \<Rightarrow>
                if (op = OP_CLAIM_NAME \<or> op = OP_SUPPORT_CLAIM) \<and> opcode \<noteq> OP_DROP then None
                else if op = OP_UPDATE_CLAIM \<and> opcode \<noteq> OP_2DROP then None
                else Some pc))"

text \<open>\<open>DecodeClaimScript\<close>: the operation, the parameters and the position of the payment script.\<close>

definition DecodeClaimScript :: "CScript \<Rightarrow> (opcodetype \<times> bytes list \<times> bytes) option" where
  "DecodeClaimScript scriptIn =
     (case claim_op scriptIn of None \<Rightarrow> None
      | Some (op, pc) \<Rightarrow>
      if op \<noteq> OP_CLAIM_NAME \<and> op \<noteq> OP_SUPPORT_CLAIM \<and> op \<noteq> OP_UPDATE_CLAIM then None
      else (case claim_param pc of None \<Rightarrow> None
      | Some (vchParam1, pc) \<Rightarrow> (case claim_param pc of None \<Rightarrow> None
      | Some (vchParam2, pc) \<Rightarrow>
      if (op = OP_UPDATE_CLAIM \<or> op = OP_SUPPORT_CLAIM) \<and> length vchParam2 \<noteq> 160 div 8 then None
      else if op = OP_UPDATE_CLAIM
        then (case claim_param pc of None \<Rightarrow> None
          | Some (vchParam3, pc) \<Rightarrow>
              map_option (\<lambda>pc. (op, [vchParam1, vchParam2, vchParam3], pc)) (claim_drops op pc))
        else map_option (\<lambda>pc. (op, [vchParam1, vchParam2], pc)) (claim_drops op pc))))"

definition ClaimIdHash :: "uint256 \<Rightarrow> u32 \<Rightarrow> uint160" where
  "ClaimIdHash txhash nOut = Hash160 (txhash @ uint32_t_to_vch nOut)"

definition StripClaimScriptPrefix :: "CScript \<Rightarrow> CScript" where
  "StripClaimScriptPrefix scriptIn =
     (case DecodeClaimScript scriptIn of None \<Rightarrow> scriptIn | Some (op, vvchParams, pc) \<Rightarrow> pc)"

definition ClaimScriptSize :: "CScript \<Rightarrow> nat" where
  "ClaimScriptSize scriptIn = length scriptIn - length (StripClaimScriptPrefix scriptIn)"

definition ClaimNameSize :: "CScript \<Rightarrow> nat" where
  "ClaimNameSize scriptIn =
     (case DecodeClaimScript scriptIn of None \<Rightarrow> 0 | Some (op, vvchParams, pc) \<Rightarrow> length (vvchParams ! 0))"

subsection \<open>Standard scripts\<close>

datatype txnouttype = TX_NONSTANDARD | TX_PUBKEY | TX_PUBKEYHASH | TX_SCRIPTHASH | TX_MULTISIG | TX_NULL_DATA

definition GetTxnOutputType :: "txnouttype \<Rightarrow> string" where
  "GetTxnOutputType t = (case t of
      TX_NONSTANDARD \<Rightarrow> ''nonstandard'' | TX_PUBKEY \<Rightarrow> ''pubkey'' | TX_PUBKEYHASH \<Rightarrow> ''pubkeyhash''
    | TX_SCRIPTHASH \<Rightarrow> ''scripthash'' | TX_MULTISIG \<Rightarrow> ''multisig'' | TX_NULL_DATA \<Rightarrow> ''nulldata'')"

definition mTemplates :: "(txnouttype \<times> CScript) list" where
  "mTemplates =
     [(TX_PUBKEY, map of_nat [OP_PUBKEY, OP_CHECKSIG]),
      (TX_PUBKEYHASH, map of_nat [OP_DUP, OP_HASH160, OP_PUBKEYHASH, OP_EQUALVERIFY, OP_CHECKSIG]),
      (TX_MULTISIG, map of_nat [OP_SMALLINTEGER, OP_PUBKEYS, OP_SMALLINTEGER, OP_CHECKMULTISIG])]"

text \<open>The keys of a multisignature script: the keys, and the operation the loop stopped at.\<close>

function pubkeys_loop :: "opcodetype \<Rightarrow> bytes \<Rightarrow> bytes \<Rightarrow> bytes list \<times> opcodetype \<times> bytes \<times> bytes" where
  "pubkeys_loop opcode1 vch1 pc1 =
     (if length vch1 \<ge> 33 \<and> length vch1 \<le> 65
      then (case GetOp pc1 of (r, opcode1', vch1', pc1') \<Rightarrow>
        if \<not> r then ([vch1], opcode1', vch1', pc1')
        else (case pubkeys_loop opcode1' vch1' pc1' of (keys, rest) \<Rightarrow> (vch1 # keys, rest)))
      else ([], opcode1, vch1, pc1))"
  by pat_completeness auto
termination
proof (relation "measure (\<lambda>(_, _, pc1). length pc1)")
  show "((opcode1', vch1', pc1'), opcode1, vch1, pc1) \<in> measure (\<lambda>(_, _, pc1). length pc1)"
    if "(r, x) = GetOp pc1" "(opcode1', y) = x" "(vch1', pc1') = y" "\<not> \<not> r"
    for opcode1 vch1 pc1 r x opcode1' y vch1' pc1'
    using that GetOp_shorter [of pc1 r opcode1' vch1' pc1'] by (cases "pc1 = []") auto
qed simp

declare pubkeys_loop.simps [simp del]

text \<open>What comparing with one template yields: no match, or the result and the solutions.\<close>

datatype template_result = NoMatch | Matched bool "bytes list"

definition multisig_ok :: "bytes list \<Rightarrow> bool" where
  "multisig_ok vSolutions =
     (let m = unat (hd (hd vSolutions)); n = unat (hd (last vSolutions))
      in \<not> (m < 1 \<or> n < 1 \<or> m > n \<or> length vSolutions - 2 \<noteq> n))"

lemma pubkeys_loop_shorter:
  "pubkeys_loop op1 v pc = (keys, op2, v2, pc') \<Longrightarrow> length pc' \<le> length pc"
proof (induction op1 v pc arbitrary: keys rule: pubkeys_loop.induct)
  case (1 op1 v pc)
  obtain r op3 v3 pc3 where g: "GetOp pc = (r, op3, v3, pc3)" by (rule prod_cases4)
  have le: "length pc3 \<le> length pc" by (rule GetOp_suffix [OF g])
  show ?case
  proof (cases "33 \<le> length v \<and> length v \<le> 65 \<and> r")
    case True
    obtain ks rest where rec: "pubkeys_loop op3 v3 pc3 = (ks, rest)" by (rule prod.exhaust)
    then have "rest = (op2, v2, pc')" using 1(2) True g by (simp add: pubkeys_loop.simps [of op1])
    with rec have "length pc' \<le> length pc3"
      using True g by (intro "1.IH" [OF _ g [symmetric] refl refl, of ks]) auto
    with le show ?thesis by simp
  next
    case False
    then show ?thesis using 1(2) g le by (auto simp: pubkeys_loop.simps [of op1] split: if_splits)
  qed
qed

text \<open>
  One round of the comparison at two operations: \<open>None\<close> leaves the loop, otherwise the solutions
  and the new positions.
\<close>

definition match_op :: "opcodetype \<Rightarrow> bytes \<Rightarrow> bytes \<Rightarrow> opcodetype \<Rightarrow> bytes \<Rightarrow> bytes \<Rightarrow> bytes list \<Rightarrow>
    (bytes list \<times> bytes \<times> bytes) option" where
  "match_op opcode1 vch1 pc1 opcode2 vch2 pc2 vSolutions =
     (if opcode2 = OP_PUBKEY
      then if length vch1 < 33 \<or> length vch1 > 65 then None else Some (vSolutions @ [vch1], pc1, pc2)
      else if opcode2 = OP_PUBKEYHASH
        then if length vch1 \<noteq> 20 then None else Some (vSolutions @ [vch1], pc1, pc2)
      else if opcode2 = OP_SMALLINTEGER
        then if opcode1 = OP_0 \<or> opcode1 \<ge> OP_1 \<and> opcode1 \<le> OP_16
             then Some (vSolutions @ [[of_nat (the (DecodeOP_N opcode1))]], pc1, pc2) else None
      else if opcode1 \<noteq> opcode2 \<or> vch1 \<noteq> vch2 then None
      else Some (vSolutions, pc1, pc2))"

definition match_step :: "opcodetype \<Rightarrow> bytes \<Rightarrow> bytes \<Rightarrow> opcodetype \<Rightarrow> bytes \<Rightarrow> bytes \<Rightarrow> bytes list \<Rightarrow>
    (bytes list \<times> bytes \<times> bytes) option" where
  "match_step opcode1 vch1 pc1 opcode2 vch2 pc2 vSolutions =
     (if opcode2 = OP_PUBKEYS
      then case pubkeys_loop opcode1 vch1 pc1 of (keys, opcode1, vch1, pc1) \<Rightarrow>
        (case GetOp pc2 of (r, opcode2, vch2, pc2) \<Rightarrow>
          if \<not> r then None else match_op opcode1 vch1 pc1 opcode2 vch2 pc2 (vSolutions @ keys))
      else match_op opcode1 vch1 pc1 opcode2 vch2 pc2 vSolutions)"

lemma match_op_pc: "match_op o1 v1 pc1 o2 v2 pc2 sols = Some (sols', pc1', pc2') \<Longrightarrow> pc1' = pc1"
  by (auto simp: match_op_def split: if_splits)

lemma match_step_pc:
  "match_step o1 v1 pc1 o2 v2 pc2 sols = Some (sols', pc1', pc2') \<Longrightarrow> length pc1' \<le> length pc1"
  by (auto simp: match_step_def split: if_splits prod.splits dest!: match_op_pc pubkeys_loop_shorter)

function match_template :: "txnouttype \<Rightarrow> bytes \<Rightarrow> bytes \<Rightarrow> bytes list \<Rightarrow> template_result" where
  "match_template ty pc1 pc2 vSolutions =
     (if pc1 = [] \<and> pc2 = []
      then Matched (if ty = TX_MULTISIG then multisig_ok vSolutions else True) vSolutions
      else case GetOp pc1 of (r1, opcode1, vch1, pc1') \<Rightarrow>
        if \<not> r1 then NoMatch
        else (case GetOp pc2 of (r2, opcode2, vch2, pc2') \<Rightarrow>
          if \<not> r2 then NoMatch
          else (case match_step opcode1 vch1 pc1' opcode2 vch2 pc2' vSolutions of
              None \<Rightarrow> NoMatch
            | Some (vSolutions, pc1, pc2) \<Rightarrow> match_template ty pc1 pc2 vSolutions)))"
  by pat_completeness auto
termination
proof (relation "measure (\<lambda>(_, pc1, _, _). length pc1)", goal_cases)
  case (2 ty pc1 pc2 sols r1 x1 opcode1 y1 vch1 pc1' r2 x2 opcode2 y2 vch2 pc2' z sols' w pc1'' pc2'')
  have "GetOp pc1 = (r1, opcode1, vch1, pc1')" "r1" using 2 by auto
  then have "length pc1' < length pc1" using GetOp_shorter [of pc1 r1 opcode1 vch1 pc1'] by (cases "pc1 = []") auto
  moreover have "length pc1'' \<le> length pc1'" using 2 by (intro match_step_pc) auto
  ultimately show ?case by simp
qed simp

declare match_template.simps [simp del]

fun scan_templates :: "(txnouttype \<times> CScript) list \<Rightarrow> CScript \<Rightarrow> bool \<times> txnouttype \<times> bytes list" where
  "scan_templates [] s = (False, TX_NONSTANDARD, [])"
| "scan_templates ((ty, tplate) # ts) s =
     (case match_template ty s tplate [] of
        Matched r vSolutions \<Rightarrow> (r, ty, vSolutions)
      | NoMatch \<Rightarrow> scan_templates ts s)"

text \<open>The result, the type and the solutions.\<close>

definition Solver :: "CScript \<Rightarrow> bool \<times> txnouttype \<times> bytes list" where
  "Solver spk =
     (if IsPayToScriptHash spk then (True, TX_SCRIPTHASH, [take 20 (drop 2 spk)])
      else if length spk \<ge> 1 \<and> unat (hd spk) = OP_RETURN \<and> IsPushOnly (tl spk)
        then (True, TX_NULL_DATA, [])
      else scan_templates mTemplates spk)"

datatype CTxDestination = CNoDestination | CKeyID uint160 | CScriptID uint160

definition IsValidDestination :: "CTxDestination \<Rightarrow> bool" where
  "IsValidDestination dest \<longleftrightarrow> dest \<noteq> CNoDestination"

definition ExtractDestination :: "CScript \<Rightarrow> CTxDestination option" where
  "ExtractDestination spk =
     (case Solver spk of (r, whichType, vSolutions) \<Rightarrow>
       if \<not> r then None
       else if whichType = TX_PUBKEY
         then let pubKey = CPubKey_Set (vSolutions ! 0)
              in if \<not> CPubKey_IsValid pubKey then None else Some (CKeyID (CPubKey_GetID pubKey))
       else if whichType = TX_PUBKEYHASH then Some (CKeyID (vSolutions ! 0))
       else if whichType = TX_SCRIPTHASH then Some (CScriptID (vSolutions ! 0))
       else None)"

text \<open>The result, the type, the addresses and the number of required signatures.\<close>

definition ExtractDestinations :: "CScript \<Rightarrow> bool \<times> txnouttype \<times> CTxDestination list \<times> nat option" where
  "ExtractDestinations spk =
     (case Solver spk of (r, typeRet, vSolutions) \<Rightarrow>
       if \<not> r \<or> typeRet = TX_NULL_DATA then (False, typeRet, [], None)
       else if typeRet = TX_MULTISIG
         then let keys = filter CPubKey_IsValid (map CPubKey_Set (butlast (tl vSolutions)));
                  addressRet = map (\<lambda>key. CKeyID (CPubKey_GetID key)) keys
              in (addressRet \<noteq> [], typeRet, addressRet, Some (unat (hd (hd vSolutions))))
       else (case ExtractDestination spk of
           None \<Rightarrow> (False, typeRet, [], Some 1)
         | Some address \<Rightarrow> (True, typeRet, [address], Some 1)))"

text \<open>The hash and the type of an address; \<open>None\<close> leaves a null hash and type 0.\<close>

definition DecodeAddressHash :: "CScript \<Rightarrow> (uint160 \<times> nat) option" where
  "DecodeAddressHash spk =
     (case Solver spk of (r, addressType, vSolutions) \<Rightarrow>
       if \<not> r then None
       else if addressType = TX_SCRIPTHASH then Some (vSolutions ! 0, 2)
       else if addressType = TX_PUBKEYHASH then Some (vSolutions ! 0, 1)
       else if addressType = TX_PUBKEY then Some (Hash160 (vSolutions ! 0), 1)
       else None)"

definition GetScriptForDestination :: "CTxDestination \<Rightarrow> CScript" where
  "GetScriptForDestination dest = (case dest of
      CNoDestination \<Rightarrow> []
    | CKeyID keyID \<Rightarrow> push_data (map of_nat [OP_DUP, OP_HASH160]) keyID @ map of_nat [OP_EQUALVERIFY, OP_CHECKSIG]
    | CScriptID scriptID \<Rightarrow> push_data (op_byte OP_HASH160) scriptID @ op_byte OP_EQUAL)"

definition GetScriptForRawPubKey :: "bytes \<Rightarrow> CScript" where
  "GetScriptForRawPubKey pubKey = push_data [] pubKey @ op_byte OP_CHECKSIG"

text \<open>\<open>None\<close> is the failed assertion of \<open>EncodeOP_N\<close>.\<close>

definition GetScriptForMultisig :: "int \<Rightarrow> bytes list \<Rightarrow> CScript option" where
  "GetScriptForMultisig nRequired keys =
     (case EncodeOP_N nRequired of None \<Rightarrow> None
      | Some m \<Rightarrow> (case EncodeOP_N (int (length keys)) of None \<Rightarrow> None
        | Some n \<Rightarrow> Some (fold (\<lambda>key s. push_data s key) keys (op_byte m) @ op_byte n @ op_byte OP_CHECKMULTISIG)))"

subsection \<open>Compressed scripts and outputs\<close>

definition IsToKeyID :: "CScript \<Rightarrow> uint160 option" where
  "IsToKeyID s =
     (if length s = 25 \<and> unat (s ! 0) = OP_DUP \<and> unat (s ! 1) = OP_HASH160 \<and> s ! 2 = 20 \<and>
         unat (s ! 23) = OP_EQUALVERIFY \<and> unat (s ! 24) = OP_CHECKSIG
      then Some (take 20 (drop 3 s)) else None)"

definition IsToScriptID :: "CScript \<Rightarrow> uint160 option" where
  "IsToScriptID s =
     (if length s = 23 \<and> unat (s ! 0) = OP_HASH160 \<and> s ! 1 = 20 \<and> unat (s ! 22) = OP_EQUAL
      then Some (take 20 (drop 2 s)) else None)"

definition IsToPubKey :: "(bytes \<Rightarrow> bool) \<Rightarrow> CScript \<Rightarrow> bytes option" where
  "IsToPubKey fully_valid s =
     (if length s = 35 \<and> s ! 0 = 33 \<and> unat (s ! 34) = OP_CHECKSIG \<and> (s ! 1 = 0x02 \<or> s ! 1 = 0x03)
      then Some (CPubKey_Set (take 33 (drop 1 s)))
      else if length s = 67 \<and> s ! 0 = 65 \<and> unat (s ! 66) = OP_CHECKSIG \<and> s ! 1 = 0x04
        then let pubkey = CPubKey_Set (take 65 (drop 1 s)) in if fully_valid pubkey then Some pubkey else None
      else None)"

definition Compress :: "(bytes \<Rightarrow> bool) \<Rightarrow> CScript \<Rightarrow> bytes option" where
  "Compress fully_valid s =
     (case IsToKeyID s of Some keyID \<Rightarrow> Some (0x00 # keyID)
      | None \<Rightarrow> (case IsToScriptID s of Some scriptID \<Rightarrow> Some (0x01 # scriptID)
        | None \<Rightarrow> (case IsToPubKey fully_valid s of None \<Rightarrow> None
          | Some pubkey \<Rightarrow>
              if pubkey ! 0 = 0x02 \<or> pubkey ! 0 = 0x03 then Some (pubkey ! 0 # take 32 (drop 1 pubkey))
              else if pubkey ! 0 = 0x04 then Some ((0x04 OR (pubkey ! 64 AND 0x01)) # take 32 (drop 1 pubkey))
              else None)))"

definition GetSpecialSize :: "nat \<Rightarrow> nat" where
  "GetSpecialSize nSize =
     (if nSize = 0 \<or> nSize = 1 then 20 else if nSize = 2 \<or> nSize = 3 \<or> nSize = 4 \<or> nSize = 5 then 32 else 0)"

text \<open>The result and the script, unchanged where the code does not write it; a script is cleared before.\<close>

definition Decompress :: "(bytes \<Rightarrow> bytes option) \<Rightarrow> nat \<Rightarrow> bytes \<Rightarrow> bool \<times> CScript" where
  "Decompress decompress_key nSize inp =
     (if nSize = 0 then (True, map of_nat [OP_DUP, OP_HASH160, 20] @ take 20 inp @ map of_nat [OP_EQUALVERIFY, OP_CHECKSIG])
      else if nSize = 1 then (True, map of_nat [OP_HASH160, 20] @ take 20 inp @ op_byte OP_EQUAL)
      else if nSize = 2 \<or> nSize = 3 then (True, 33 # of_nat nSize # take 32 inp @ op_byte OP_CHECKSIG)
      else if nSize = 4 \<or> nSize = 5
        then (case decompress_key (of_nat (nSize - 2) # take 32 inp) of
            None \<Rightarrow> (False, [])
          | Some pubkey \<Rightarrow> (True, 65 # take 65 pubkey @ op_byte OP_CHECKSIG))
      else (False, []))"

definition nSpecialScripts :: nat where "nSpecialScripts = 6"

definition Serialize_CScriptCompressor :: "(bytes \<Rightarrow> bool) \<Rightarrow> CScript \<Rightarrow> bytes" where
  "Serialize_CScriptCompressor fully_valid s =
     (case Compress fully_valid s of
        Some compr \<Rightarrow> compr
      | None \<Rightarrow> WriteVarInt (length s + nSpecialScripts) @ s)"

definition Unserialize_CScriptCompressor :: "(bytes \<Rightarrow> bytes option) \<Rightarrow> CScript reader" where
  "Unserialize_CScriptCompressor decompress_key =
     rd_then (ReadVarInt 32) (\<lambda>nSize.
       if nSize < nSpecialScripts
       then rd_then (stream_read (GetSpecialSize nSize)) (\<lambda>vch. rd_return (snd (Decompress decompress_key nSize vch)))
       else stream_read (nSize - nSpecialScripts))"

text \<open>\<open>CTxOutCompressor\<close>; an output starts as a new one when it is read.\<close>

definition Serialize_CTxOutCompressor :: "(bytes \<Rightarrow> bool) \<Rightarrow> CTxOut \<Rightarrow> bytes option" where
  "Serialize_CTxOutCompressor fully_valid txout =
     map_option (\<lambda>nVal. WriteVarInt nVal @ Serialize_CScriptCompressor fully_valid (scriptPubKey txout))
       (CompressAmount (unat (of_int (nValue txout) :: u64)))"

definition Unserialize_CTxOutCompressor :: "(bytes \<Rightarrow> bytes option) \<Rightarrow> CTxOut reader" where
  "Unserialize_CTxOutCompressor decompress_key =
     rd_then (ReadVarInt 64) (\<lambda>nVal. rd_then (Unserialize_CScriptCompressor decompress_key) (\<lambda>s.
       rd_return (mk_CTxOut (sint (of_nat (DecompressAmount nVal) :: u64)) s)))"

subsection \<open>Claim scripts are decoded\<close>

lemma push_data_append: "push_data s b = s @ push_data [] b"
  by (simp add: push_data_def)

lemma push_data_twice: "push_data (push_data (op_byte op) a) b = op_byte op @ push_data [] a @ push_data [] b"
  by (metis append.assoc push_data_append)

lemma push_data_thrice:
  "push_data (push_data (push_data (op_byte op) a) b) c = op_byte op @ push_data [] a @ push_data [] b @ push_data [] c"
  by (metis append.assoc push_data_append push_data_twice)

lemma claim_op_byte: "OP_PUSHDATA4 < op \<Longrightarrow> op < 256 \<Longrightarrow> claim_op (op_byte op @ pc) = Some (op, pc)"
  by (simp add: claim_op_def op_byte_def unsigned_of_nat take_bit_eq_mod)

lemma claim_param_push: "length b < 2 ^ 32 \<Longrightarrow> claim_param (push_data [] b @ pc) = Some (b, pc)"
  using GetOp_push_data [of b pc] by (auto simp: claim_param_def)

lemma claim_drops_bytes:
  "op \<in> {OP_CLAIM_NAME, OP_SUPPORT_CLAIM} \<Longrightarrow> claim_drops op (op_byte OP_2DROP @ op_byte OP_DROP @ pc) = Some pc"
  "claim_drops OP_UPDATE_CLAIM (op_byte OP_2DROP @ op_byte OP_2DROP @ pc) = Some pc"
  by (auto simp: claim_drops_def claim_op_byte)

lemma DecodeClaimScript_built:
  assumes "length name < 2 ^ 32" "length value < 2 ^ 32" "length claimId = 20"
  shows "DecodeClaimScript (op_byte OP_CLAIM_NAME @ push_data [] name @ push_data [] value @ op_byte OP_2DROP @ op_byte OP_DROP @ pc) =
      Some (OP_CLAIM_NAME, [name, value], pc)"
    and "DecodeClaimScript (op_byte OP_SUPPORT_CLAIM @ push_data [] name @ push_data [] claimId @ op_byte OP_2DROP @ op_byte OP_DROP @ pc) =
      Some (OP_SUPPORT_CLAIM, [name, claimId], pc)"
    and "DecodeClaimScript (op_byte OP_UPDATE_CLAIM @ push_data [] name @ push_data [] claimId @ push_data [] value @
        op_byte OP_2DROP @ op_byte OP_2DROP @ pc) = Some (OP_UPDATE_CLAIM, [name, claimId, value], pc)"
  using assms by (simp_all add: DecodeClaimScript_def claim_op_byte claim_param_push claim_drops_bytes)

text \<open>A script that decodes is the prefix of its parameters followed by the payment script.\<close>

lemma claim_op_shorter: "claim_op pc = Some (op, pc') \<Longrightarrow> length pc' < length pc"
  using GetOp_shorter [of pc True op] by (cases "pc = []") (auto simp: claim_op_def split: if_splits prod.splits)

lemma claim_param_shorter: "claim_param pc = Some (b, pc') \<Longrightarrow> length pc' + length b < length pc"
proof -
  assume a: "claim_param pc = Some (b, pc')"
  obtain c cs where pc: "pc = c # cs" using a by (cases pc) (auto simp: claim_param_def)
  show ?thesis
    using a by (auto simp: claim_param_def pc Let_def push_size_def split: if_splits sum.splits prod.splits)
qed

lemma claim_drops_shorter: "claim_drops op pc = Some pc' \<Longrightarrow> length pc' < length pc"
  by (auto simp: claim_drops_def split: option.splits if_splits dest!: claim_op_shorter)

lemma DecodeClaimScript_shape:
  assumes "DecodeClaimScript s = Some (op, ps, pc)"
  shows "op \<in> {OP_CLAIM_NAME, OP_SUPPORT_CLAIM, OP_UPDATE_CLAIM}"
    and "length ps = (if op = OP_UPDATE_CLAIM then 3 else 2)"
    and "op \<noteq> OP_CLAIM_NAME \<Longrightarrow> length (ps ! 1) = 20"
    and "length pc + sum_list (map length ps) < length s"
proof -
  obtain pc1 b1 pc2 b2 pc3 where d: "claim_op s = Some (op, pc1)" "claim_param pc1 = Some (b1, pc2)"
    "claim_param pc2 = Some (b2, pc3)" "op \<in> {OP_CLAIM_NAME, OP_SUPPORT_CLAIM, OP_UPDATE_CLAIM}"
    "op \<noteq> OP_CLAIM_NAME \<longrightarrow> length b2 = 20"
    and e: "(if op = OP_UPDATE_CLAIM
        then (case claim_param pc3 of None \<Rightarrow> None
          | Some (b3, pc) \<Rightarrow> map_option (\<lambda>pc. (op, [b1, b2, b3], pc)) (claim_drops op pc))
        else map_option (\<lambda>pc. (op, [b1, b2], pc)) (claim_drops op pc3)) = Some (op, ps, pc)"
    using assms by (auto simp: DecodeClaimScript_def split: option.splits if_splits)
  note sh = claim_op_shorter [OF d(1)] claim_param_shorter [OF d(2)] claim_param_shorter [OF d(3)]
  show "op \<in> {OP_CLAIM_NAME, OP_SUPPORT_CLAIM, OP_UPDATE_CLAIM}" by (rule d(4))
  show "length ps = (if op = OP_UPDATE_CLAIM then 3 else 2)" "op \<noteq> OP_CLAIM_NAME \<Longrightarrow> length (ps ! 1) = 20"
    using e d(5) by (auto split: if_splits option.splits)
  show "length pc + sum_list (map length ps) < length s"
    using e sh by (auto split: if_splits option.splits dest!: claim_param_shorter claim_drops_shorter)
qed

lemma vch_to_uint32_t_inverse: "vch_to_uint32_t (uint32_t_to_vch n) = n"
proof (rule bit_eqI)
  fix i :: nat
  consider "i < 8" | "8 \<le> i" "i < 16" | "16 \<le> i" "i < 24" | "24 \<le> i" by linarith
  then show "bit (vch_to_uint32_t (uint32_t_to_vch n)) i = bit n i"
    unfolding vch_to_uint32_t_def uint32_t_to_vch_def
    by cases (auto simp: bit_simps dest: bit_imp_le_length)
qed

subsection \<open>Destinations\<close>

lemma GetOp_byte:
  "OP_PUSHDATA4 < op \<Longrightarrow> op < 256 \<Longrightarrow> GetOp (of_nat op # pc) = (True, op, [], pc)"
  by (simp add: unsigned_of_nat take_bit_eq_mod)

lemma GetOp_push_20: "length h = 20 \<Longrightarrow> GetOp (0x14 # h @ pc) = (True, 20, h, pc)"
  by (simp add: push_size_def)

lemma GetScriptForDestination_bytes:
  "length h = 20 \<Longrightarrow> GetScriptForDestination (CKeyID h) = 0x76 # 0xa9 # 0x14 # h @ [0x88, 0xac]"
  "length h = 20 \<Longrightarrow> GetScriptForDestination (CScriptID h) = 0xa9 # 0x14 # h @ [0x87]"
  by (simp_all add: GetScriptForDestination_def push_data_def op_byte_def)

lemma match_template_step:
  assumes "GetOp pc1 = (True, o1, v1, pc1')" "GetOp pc2 = (True, o2, v2, pc2')"
    and "match_step o1 v1 pc1' o2 v2 pc2' sols = Some (sols', p, q)"
  shows "match_template ty pc1 pc2 sols = match_template ty p q sols'"
  using assms by (subst match_template.simps) auto

lemma match_same_op:
  assumes "OP_PUSHDATA4 < op" "op < OP_SMALLINTEGER"
  shows "match_template ty (of_nat op # p) (of_nat op # q) sols = match_template ty p q sols"
  using assms
  by (intro match_template_step [OF GetOp_byte GetOp_byte]) (simp_all add: match_step_def match_op_def)

lemma match_end: "match_template ty [] [] sols = Matched (if ty = TX_MULTISIG then multisig_ok sols else True) sols"
  by (subst match_template.simps) simp

lemma Solver_key_hash:
  assumes "length h = 20"
  shows "Solver (0x76 # 0xa9 # 0x14 # h @ [0x88, 0xac]) = (True, TX_PUBKEYHASH, [h])"
proof -
  let ?s = "0x76 # 0xa9 # 0x14 # h @ [0x88, 0xac] :: bytes"
  have "match_template TX_PUBKEY ?s (map of_nat [OP_PUBKEY, OP_CHECKSIG]) [] = NoMatch"
    by (subst match_template.simps) (simp add: match_step_def match_op_def)
  moreover have g2: "GetOp [0xfd, 0x88, 0xac] = (True, OP_PUBKEYHASH, [], [0x88, 0xac])" by simp
  have "match_template TX_PUBKEYHASH (0x14 # h @ [0x88, 0xac]) [0xfd, 0x88, 0xac] [] =
      match_template TX_PUBKEYHASH [0x88, 0xac] [0x88, 0xac] [h]"
    by (rule match_template_step [OF GetOp_push_20 [OF assms] g2]) (simp add: match_step_def match_op_def assms)
  then have "match_template TX_PUBKEYHASH ?s
      (map of_nat [OP_DUP, OP_HASH160, OP_PUBKEYHASH, OP_EQUALVERIFY, OP_CHECKSIG]) [] = Matched True [h]"
    using match_same_op [of OP_DUP] match_same_op [of OP_HASH160] match_same_op [of OP_EQUALVERIFY] match_same_op [of OP_CHECKSIG]
    by (simp add: match_end)
  ultimately show ?thesis
    using assms by (simp add: Solver_def IsPayToScriptHash_def mTemplates_def)
qed

lemma Solver_script_hash:
  assumes "length h = 20"
  shows "Solver (0xa9 # 0x14 # h @ [0x87]) = (True, TX_SCRIPTHASH, [h])"
  using assms by (simp add: Solver_def IsPayToScriptHash_def nth_append)

lemma ExtractDestination_inverse:
  assumes "length h = 20"
  shows "ExtractDestination (GetScriptForDestination (CKeyID h)) = Some (CKeyID h)"
    and "ExtractDestination (GetScriptForDestination (CScriptID h)) = Some (CScriptID h)"
  by (simp_all only: GetScriptForDestination_bytes [OF assms] ExtractDestination_def Solver_key_hash [OF assms]
      Solver_script_hash [OF assms]) simp_all

subsection \<open>Compressed scripts read back\<close>

lemma cut_last: "length s = k + m + 1 \<Longrightarrow> s = take k s @ take m (drop k s) @ [s ! (k + m)]"
  by (metis add_diff_cancel_left' append_take_drop_id append_eq_append_conv2 drop_drop hd_drop_conv_nth
      length_drop length_Suc_conv One_nat_def Suc_eq_plus1 lessI list.sel(1) list.size(3) length_0_conv add.commute)

lemma take_nths: "1 \<le> length s \<Longrightarrow> take 1 s = [s ! 0]" "2 \<le> length s \<Longrightarrow> take 2 s = [s ! 0, s ! 1]"
  "3 \<le> length s \<Longrightarrow> take 3 s = [s ! 0, s ! 1, s ! 2]"
  by (auto simp: numeral_eq_Suc Suc_le_length_iff)

lemma IsToKeyID_Some:
  assumes "IsToKeyID s = Some h"
  shows "s = 0x76 # 0xa9 # 20 # h @ [0x88, 0xac]" "length h = 20"
proof -
  have b: "length s = 25" "s ! 0 = 0x76" "s ! 1 = 0xa9" "s ! 2 = 20" "s ! 23 = 0x88" "s ! 24 = 0xac" "h = take 20 (drop 3 s)"
    using assms by (auto simp: IsToKeyID_def word_unat_eq_iff split: if_splits)
  show "length h = 20" using b by simp
  have "take 21 (drop 3 s) = h @ [s ! 23]" using b take_Suc_conv_app_nth [of 20 "drop 3 s"] by simp
  then show "s = 0x76 # 0xa9 # 20 # h @ [0x88, 0xac]"
    using cut_last [of s 3 21] b take_nths(3) [of s] by simp
qed

lemma IsToScriptID_Some:
  assumes "IsToScriptID s = Some h"
  shows "s = 0xa9 # 20 # h @ [0x87]" "length h = 20"
proof -
  have b: "length s = 23" "s ! 0 = 0xa9" "s ! 1 = 20" "s ! 22 = 0x87" "h = take 20 (drop 2 s)"
    using assms by (auto simp: IsToScriptID_def word_unat_eq_iff split: if_splits)
  then show "s = 0xa9 # 20 # h @ [0x87]" "length h = 20"
    using cut_last [of s 2 20] take_nths(2) [of s] by simp_all
qed

lemma CPubKey_Set_id: "length k = GetLen (hd k) \<Longrightarrow> k \<noteq> [] \<Longrightarrow> CPubKey_Set k = k"
proof -
  assume a: "length k = GetLen (hd k)" "k \<noteq> []"
  then have "GetLen (hd k) \<noteq> 0" by (metis length_0_conv)
  with a show ?thesis by (simp add: CPubKey_Set_def)
qed

lemma IsToPubKey_Some:
  assumes "IsToPubKey fully_valid s = Some k"
  shows "(hd k = 2 \<or> hd k = 3) \<and> length k = 33 \<and> s = 33 # k @ [0xac] \<or>
    hd k = 4 \<and> length k = 65 \<and> fully_valid k \<and> s = 65 # k @ [0xac]"
proof -
  consider "length s = 35" "s ! 0 = 33" "s ! 34 = 0xac" "s ! 1 = 2 \<or> s ! 1 = 3" "k = CPubKey_Set (take 33 (drop 1 s))"
    | "length s = 67" "s ! 0 = 65" "s ! 66 = 0xac" "s ! 1 = 4" "k = CPubKey_Set (take 65 (drop 1 s))" "fully_valid k"
    using assms by (auto simp: IsToPubKey_def word_unat_eq_iff Let_def split: if_splits)
  then show ?thesis
  proof cases
    case 1
    have "hd (take 33 (drop 1 s)) = s ! 1" using 1(1) by (simp add: hd_conv_nth)
    moreover from this have "k = take 33 (drop 1 s)" using 1 by (simp add: CPubKey_Set_id GetLen_def)
    ultimately show ?thesis using 1 cut_last [of s 1 33] take_nths(1) [of s] by auto
  next
    case 2
    have "hd (take 65 (drop 1 s)) = s ! 1" using 2(1) by (simp add: hd_conv_nth)
    moreover from this have "k = take 65 (drop 1 s)" using 2 by (simp add: CPubKey_Set_id GetLen_def)
    ultimately show ?thesis using 2 cut_last [of s 1 65] take_nths(1) [of s] by auto
  qed
qed

lemma ReadVarInt_small: "n < 128 \<Longrightarrow> ReadVarInt 32 (of_nat n # s) = Inr (n, s)"
  using ReadVarInt_WriteVarInt [of n 32 s] by (simp add: WriteVarInt_def varint_tmp.simps)

text \<open>What is assumed of the elliptic curve: a valid uncompressed key is found again from its compressed form.\<close>

definition curve_ok :: "(bytes \<Rightarrow> bool) \<Rightarrow> (bytes \<Rightarrow> bytes option) \<Rightarrow> bool" where
  "curve_ok fully_valid decompress_key \<longleftrightarrow>
     (\<forall>k. fully_valid k \<and> length k = 65 \<and> hd k = 4 \<longrightarrow>
        decompress_key ((2 + (k ! 64 AND 1)) # take 32 (tl k)) = Some k)"

lemma CScriptCompressor_reads_back:
  assumes "curve_ok fully_valid decompress_key" "length s + nSpecialScripts < 2 ^ 32"
  shows "Unserialize_CScriptCompressor decompress_key (Serialize_CScriptCompressor fully_valid s @ rest) = Inr (s, rest)"
proof (cases "Compress fully_valid s")
  case None
  then show ?thesis
    using assms(2) ReadVarInt_WriteVarInt [of "length s + nSpecialScripts" 32 "s @ rest"]
    by (simp add: Serialize_CScriptCompressor_def Unserialize_CScriptCompressor_def rd_then_def stream_read_append)
next
  case (Some compr)
  have read: "Unserialize_CScriptCompressor decompress_key (of_nat n # h @ rest) =
      Inr (snd (Decompress decompress_key n h), rest)" if "n < 6" "length h = GetSpecialSize n" for n h
    using that ReadVarInt_small [of n "h @ rest"]
    by (simp add: Unserialize_CScriptCompressor_def rd_then_def nSpecialScripts_def stream_read_def rd_return_def)
  have ser: "Serialize_CScriptCompressor fully_valid s = compr" using Some by (simp add: Serialize_CScriptCompressor_def)
  consider h where "IsToKeyID s = Some h" "compr = 0 # h"
    | h where "IsToScriptID s = Some h" "compr = 1 # h"
    | k where "IsToPubKey fully_valid s = Some k"
        "compr = (if k ! 0 = 2 \<or> k ! 0 = 3 then k ! 0 # take 32 (drop 1 k) else (4 OR (k ! 64 AND 1)) # take 32 (drop 1 k))"
    using Some by (auto simp: Compress_def split: option.splits if_splits)
  then show ?thesis
  proof cases
    case 1
    then show ?thesis
      using read [of 0 h] IsToKeyID_Some [OF 1(1)] unfolding ser 1(2)
      by (simp add: GetSpecialSize_def Decompress_def)
  next
    case 2
    then show ?thesis
      using read [of 1 h] IsToScriptID_Some [OF 2(1)] unfolding ser 2(2)
      by (simp add: GetSpecialSize_def Decompress_def op_byte_def)
  next
    case 3
    from IsToPubKey_Some [OF 3(1)] show ?thesis
    proof (elim disjE conjE)
      assume k: "length k = 33" "s = 33 # k @ [0xac]" and "hd k = 2"
      then obtain t where t: "k = 2 # t" "length t = 32" by (cases k) auto
      then show ?thesis
        using k(2) read [of 2 t] unfolding ser 3(2) by (simp add: GetSpecialSize_def Decompress_def op_byte_def)
    next
      assume k: "length k = 33" "s = 33 # k @ [0xac]" and "hd k = 3"
      then obtain t where t: "k = 3 # t" "length t = 32" by (cases k) auto
      then show ?thesis
        using k(2) read [of 3 t] unfolding ser 3(2) by (simp add: GetSpecialSize_def Decompress_def op_byte_def)
    next
      assume k: "hd k = 4" "length k = 65" "fully_valid k" "s = 65 # k @ [0xac]"
      have k0: "k ! 0 = 4" using k by (cases k) auto
      have d: "decompress_key ((2 + (k ! 64 AND 1)) # take 32 (tl k)) = Some k"
        using assms(1) k by (simp add: curve_ok_def)
      have "k ! 64 AND 1 = 0 \<or> k ! 64 AND 1 = 1" by (simp add: and_one_eq mod2_eq_if)
      then show ?thesis
        using k k0 d read [of 4 "take 32 (drop 1 k)"] read [of 5 "take 32 (drop 1 k)"] unfolding ser 3(2)
        by (auto simp: GetSpecialSize_def Decompress_def op_byte_def drop_Suc)
    qed
  qed
qed

lemma CTxOutCompressor_reads_back:
  assumes "curve_ok fully_valid decompress_key" "0 \<le> v" "v \<le> 20 * MAX_MONEY"
    and "length s + nSpecialScripts < 2 ^ 32"
  shows "\<exists>data. Serialize_CTxOutCompressor fully_valid (mk_CTxOut v s) = Some data \<and>
    Unserialize_CTxOutCompressor decompress_key (data @ rest) = Inr (mk_CTxOut v s, rest)"
proof -
  have v: "v \<le> 2000000000000000000" using assms(3) by (simp add: MAX_MONEY_def COIN_def)
  have w: "unat (of_int v :: u64) = nat v" using assms(2) v
    by (simp add: unsigned_of_int take_bit_int_eq_self)
  have "sint (word_of_int v :: u64) = v"
    using assms(2) v by (simp add: sint_sbintrunc' signed_take_bit_int_eq_self)
  moreover have "(of_nat (nat v) :: u64) = word_of_int v" using assms(2) by (metis of_int_of_nat_eq int_nat_eq)
  ultimately have si: "sint (of_nat (nat v) :: u64) = v" by (simp only:)
  obtain x where x: "CompressAmount (nat v) = Some x" "x < 2 ^ 64" "DecompressAmount x = nat v"
    using CompressAmount_DecompressAmount [of "nat v"] v by (auto simp: nat_le_iff)
  have "ReadVarInt 64 (WriteVarInt x @ Serialize_CScriptCompressor fully_valid s @ rest) =
      Inr (x, Serialize_CScriptCompressor fully_valid s @ rest)"
    using x(2) by (rule ReadVarInt_WriteVarInt) simp
  then show ?thesis
    using w x si CScriptCompressor_reads_back [OF assms(1,4), of rest]
    by (simp add: Serialize_CTxOutCompressor_def Unserialize_CTxOutCompressor_def mk_CTxOut_def rd_then_def rd_return_def)
qed

subsection \<open>Properties\<close>

text \<open>
  The scripts of a claim, a support and an update are decoded to their operation and their
  parameters, and \<open>StripClaimScriptPrefix\<close> leaves what follows the two drops.
\<close>

theorem claim_scripts_decode:
  assumes "length name < 2 ^ 32" "length value < 2 ^ 32" "length claimId = 20"
  shows "DecodeClaimScript (ClaimNameScript name value) = Some (OP_CLAIM_NAME, [name, value], [of_nat OP_TRUE]) \<and>
    DecodeClaimScript (SupportClaimScript name claimId) = Some (OP_SUPPORT_CLAIM, [name, claimId], [of_nat OP_TRUE]) \<and>
    DecodeClaimScript (UpdateClaimScript name claimId value) =
      Some (OP_UPDATE_CLAIM, [name, claimId, value], [of_nat OP_TRUE]) \<and>
    StripClaimScriptPrefix (ClaimNameScript name value @ s) = of_nat OP_TRUE # s"
proof -
  have n: "ClaimNameScript name value @ t = op_byte OP_CLAIM_NAME @ push_data [] name @ push_data [] value @
      op_byte OP_2DROP @ op_byte OP_DROP @ (of_nat OP_TRUE # t)" for t
    unfolding ClaimNameScript_def push_data_twice by (simp add: op_byte_def)
  have s: "SupportClaimScript name claimId = op_byte OP_SUPPORT_CLAIM @ push_data [] name @ push_data [] claimId @
      op_byte OP_2DROP @ op_byte OP_DROP @ [of_nat OP_TRUE]"
    unfolding SupportClaimScript_def push_data_twice by (simp add: op_byte_def)
  have u: "UpdateClaimScript name claimId value = op_byte OP_UPDATE_CLAIM @ push_data [] name @ push_data [] claimId @
      push_data [] value @ op_byte OP_2DROP @ op_byte OP_2DROP @ [of_nat OP_TRUE]"
    unfolding UpdateClaimScript_def push_data_thrice by (simp add: op_byte_def)
  show ?thesis
    unfolding s u StripClaimScriptPrefix_def n using n [of "[]"]
    by (simp add: DecodeClaimScript_built [OF assms])
qed

lemma claim_scripts_decode_witness:
  "DecodeClaimScript (ClaimNameScript [110, 97] [118]) = Some (OP_CLAIM_NAME, [[110, 97], [118]], [of_nat OP_TRUE]) \<and>
   DecodeClaimScript (SupportClaimScript [110, 97] (replicate 20 1)) =
     Some (OP_SUPPORT_CLAIM, [[110, 97], replicate 20 1], [of_nat OP_TRUE])"
  using claim_scripts_decode [of "[110, 97]" "[118]" "replicate 20 1"] by simp

text \<open>
  The standard script of a key or script hash is recognised, and its destination is the one
  it was made for.
\<close>

theorem ExtractDestination_of_script:
  assumes "dest = CKeyID h \<or> dest = CScriptID h" "length h = 20"
  shows "ExtractDestination (GetScriptForDestination dest) = Some dest"
  using assms(1) ExtractDestination_inverse [OF assms(2)] by auto

lemma ExtractDestination_of_script_witness:
  "ExtractDestination (GetScriptForDestination (CScriptID (replicate 20 7))) = Some (CScriptID (replicate 20 7))"
  by (rule ExtractDestination_of_script [of _ "replicate 20 7"]) simp_all

text \<open>
  The compressed form of an unspent output is read back as the output, whatever its script,
  for amounts up to twenty times the largest valid one; of the curve it is only assumed that
  a valid key is found again from its compressed form.
\<close>

theorem CTxOutCompressor_round_trip:
  assumes "curve_ok fully_valid decompress_key" "0 \<le> v" "v \<le> 20 * MAX_MONEY"
    and "length s + nSpecialScripts < 2 ^ 32"
  shows "\<exists>data. Serialize_CTxOutCompressor fully_valid (mk_CTxOut v s) = Some data \<and>
    Unserialize_CTxOutCompressor decompress_key (data @ rest) = Inr (mk_CTxOut v s, rest)"
  by (rule CTxOutCompressor_reads_back [OF assms])

lemma CTxOutCompressor_round_trip_witness:
  "let key = 4 # replicate 64 9; fully_valid = (\<lambda>k. k = key);
       decompress_key = (\<lambda>c. if c = 3 # replicate 32 9 then Some key else None); s = 65 # key @ [0xac]
   in \<exists>data. Serialize_CTxOutCompressor fully_valid (mk_CTxOut 5000000 s) = Some data \<and>
     Unserialize_CTxOutCompressor decompress_key (data @ [1]) = Inr (mk_CTxOut 5000000 s, [1])"
proof -
  let ?key = "4 # replicate 64 9 :: bytes"
  have "curve_ok (\<lambda>k. k = ?key) (\<lambda>c. if c = 3 # replicate 32 9 then Some ?key else None)"
    by (simp add: curve_ok_def)
  then show ?thesis unfolding Let_def
    by (intro CTxOutCompressor_round_trip) (simp_all add: MAX_MONEY_def COIN_def nSpecialScripts_def)
qed

end
