(* ===== verification/Base58.thy ===== *)
theory Base58
  imports Standard
begin

text \<open>
  Base 58 text (\<open>base58.h\<close>, \<open>base58.cpp\<close>): the two loops that multiply a fixed array of digits and
  carry, the checksum, and the addresses over them.  The arrays are kept with the last digit in
  front, the way the loops walk them; a carry that is left over is the failed assertion, \<open>None\<close>.
\<close>

subsection \<open>The text of bytes\<close>

definition pszBase58 :: string where
  "pszBase58 = ''123456789ABCDEFGHJKLMNPQRSTUVWXYZabcdefghijkmnopqrstuvwxyz''"

text \<open>\<open>digits = digits * mult + carry\<close> in the given base, with the carry that is left.\<close>

fun mult_add :: "nat \<Rightarrow> nat \<Rightarrow> nat list \<Rightarrow> nat \<Rightarrow> nat list \<times> nat" where
  "mult_add base mul [] carry = ([], carry)"
| "mult_add base mul (d # ds) carry =
     (let carry = carry + mul * d; (ds', carry') = mult_add base mul ds (carry div base)
      in (carry mod base # ds', carry'))"

definition mult_add_assert :: "nat \<Rightarrow> nat \<Rightarrow> nat list \<Rightarrow> nat \<Rightarrow> nat list option" where
  "mult_add_assert base mul ds carry =
     (case mult_add base mul ds carry of (ds', carry') \<Rightarrow> if carry' \<noteq> 0 then None else Some ds')"

fun encode58_loop :: "bytes \<Rightarrow> nat list \<Rightarrow> nat list option" where
  "encode58_loop [] b58 = Some b58"
| "encode58_loop (p # ps) b58 = Option.bind (mult_add_assert 58 256 b58 (unat p)) (encode58_loop ps)"

definition EncodeBase58 :: "bytes \<Rightarrow> string option" where
  "EncodeBase58 vch =
     (let zeroes = length (takeWhile (\<lambda>b. b = 0) vch); rest = dropWhile (\<lambda>b. b = 0) vch in
      map_option (\<lambda>b58. replicate zeroes (CHR ''1'') @ map (\<lambda>d. pszBase58 ! d) (dropWhile (\<lambda>d. d = 0) (rev b58)))
        (encode58_loop rest (replicate (length rest * 138 div 100 + 1) 0)))"

text \<open>\<open>strchr(pszBase58, c) - pszBase58\<close> for a character that is not the end of the text.\<close>

definition digit58 :: "char \<Rightarrow> nat option" where
  "digit58 c = (let n = length (takeWhile (\<lambda>d. d \<noteq> c) pszBase58) in if n < 58 then Some n else None)"

text \<open>Up to the first space: \<open>Some None\<close> is a character that is no digit.\<close>

fun decode58_loop :: "string \<Rightarrow> nat list \<Rightarrow> (nat list \<times> string) option option" where
  "decode58_loop [] b256 = Some (Some (b256, []))"
| "decode58_loop (c # cs) b256 =
     (if isspace c then Some (Some (b256, c # cs))
      else case digit58 c of None \<Rightarrow> Some None
      | Some ch \<Rightarrow> Option.bind (mult_add_assert 256 58 b256 ch) (decode58_loop cs))"

text \<open>\<open>None\<close> is a failed assertion, \<open>Some None\<close> the result \<open>false\<close>.\<close>

definition DecodeBase58 :: "string \<Rightarrow> bytes option option" where
  "DecodeBase58 str =
     (let psz = dropWhile isspace (c_str str);
          zeroes = length (takeWhile (\<lambda>c. c = CHR ''1'') psz);
          psz = dropWhile (\<lambda>c. c = CHR ''1'') psz
      in Option.bind (decode58_loop psz (replicate (length psz * 733 div 1000 + 1) 0)) (\<lambda>r.
        case r of None \<Rightarrow> Some None
        | Some (b256, rest) \<Rightarrow>
            if dropWhile isspace rest \<noteq> [] then Some None
            else Some (Some (replicate zeroes 0 @ map of_nat (dropWhile (\<lambda>d. d = 0) (rev b256))))))"

definition EncodeBase58Check :: "bytes \<Rightarrow> string option" where
  "EncodeBase58Check vchIn = EncodeBase58 (vchIn @ take 4 (Hash [vchIn]))"

definition DecodeBase58Check :: "string \<Rightarrow> bytes option option" where
  "DecodeBase58Check psz =
     (case DecodeBase58 psz of
        None \<Rightarrow> None
      | Some None \<Rightarrow> Some None
      | Some (Some vchRet) \<Rightarrow>
          if length vchRet < 4 then Some None
          else let n = length vchRet - 4 in
            if take 4 (Hash [take n vchRet]) \<noteq> drop n vchRet then Some None
            else Some (Some (take n vchRet)))"

subsection \<open>Addresses\<close>

record CBase58Data =
  vchVersion :: bytes
  vchData :: bytes

datatype Base58Type =
  PUBKEY_ADDRESS | SCRIPT_ADDRESS | SECRET_KEY | EXT_PUBLIC_KEY | EXT_SECRET_KEY | EXT_COIN_TYPE

text \<open>\<open>Params().Base58Prefix\<close> of the three networks.\<close>

definition main_base58Prefixes :: "Base58Type \<Rightarrow> bytes" where
  "main_base58Prefixes t = (case t of
      PUBKEY_ADDRESS \<Rightarrow> [68] | SCRIPT_ADDRESS \<Rightarrow> [63] | SECRET_KEY \<Rightarrow> [0x80]
    | EXT_PUBLIC_KEY \<Rightarrow> [0x04, 0x88, 0xB2, 0x1E] | EXT_SECRET_KEY \<Rightarrow> [0x04, 0x88, 0xAD, 0xE4]
    | EXT_COIN_TYPE \<Rightarrow> [0x80, 0x00, 0x00, 0xf7])"

definition test_base58Prefixes :: "Base58Type \<Rightarrow> bytes" where
  "test_base58Prefixes t = (case t of
      PUBKEY_ADDRESS \<Rightarrow> [130] | SCRIPT_ADDRESS \<Rightarrow> [125] | SECRET_KEY \<Rightarrow> [0xef]
    | EXT_PUBLIC_KEY \<Rightarrow> [0x04, 0x35, 0x87, 0xCF] | EXT_SECRET_KEY \<Rightarrow> [0x04, 0x35, 0x83, 0x94]
    | EXT_COIN_TYPE \<Rightarrow> [0x80, 0x00, 0x00, 0x01])"

definition regtest_base58Prefixes :: "Base58Type \<Rightarrow> bytes" where
  "regtest_base58Prefixes t = (case t of
      PUBKEY_ADDRESS \<Rightarrow> [140] | SCRIPT_ADDRESS \<Rightarrow> [120] | SECRET_KEY \<Rightarrow> [0xef]
    | EXT_PUBLIC_KEY \<Rightarrow> [0x04, 0x35, 0x87, 0xCF] | EXT_SECRET_KEY \<Rightarrow> [0x04, 0x35, 0x83, 0x94]
    | EXT_COIN_TYPE \<Rightarrow> [0x80, 0x00, 0x00, 0x01])"

definition SetData :: "bytes \<Rightarrow> bytes \<Rightarrow> CBase58Data" where
  "SetData vchVersionIn pdata = \<lparr>vchVersion = vchVersionIn, vchData = pdata\<rparr>"

definition CBase58Data_empty :: CBase58Data where
  "CBase58Data_empty = \<lparr>vchVersion = [], vchData = []\<rparr>"

text \<open>The result and the new value; \<open>None\<close> is a failed assertion.\<close>

definition SetString :: "string \<Rightarrow> nat \<Rightarrow> (bool \<times> CBase58Data) option" where
  "SetString psz nVersionBytes =
     (case DecodeBase58Check psz of
        None \<Rightarrow> None
      | Some None \<Rightarrow> Some (False, CBase58Data_empty)
      | Some (Some vchTemp) \<Rightarrow>
          if length vchTemp < nVersionBytes then Some (False, CBase58Data_empty)
          else Some (True, SetData (take nVersionBytes vchTemp) (drop nVersionBytes vchTemp)))"

definition CBase58Data_ToString :: "CBase58Data \<Rightarrow> string option" where
  "CBase58Data_ToString a = EncodeBase58Check (vchVersion a @ vchData a)"

text \<open>The order of \<open>std::vector\<close>, by elements and then by length.\<close>

fun vch_less :: "bytes \<Rightarrow> bytes \<Rightarrow> bool" where
  "vch_less xs [] = False"
| "vch_less [] (y # ys) = True"
| "vch_less (x # xs) (y # ys) = (x < y \<or> x = y \<and> vch_less xs ys)"

definition CompareTo58 :: "CBase58Data \<Rightarrow> CBase58Data \<Rightarrow> int" where
  "CompareTo58 a b =
     (if vch_less (vchVersion a) (vchVersion b) then - 1
      else if vch_less (vchVersion b) (vchVersion a) then 1
      else if vch_less (vchData a) (vchData b) then - 1
      else if vch_less (vchData b) (vchData a) then 1
      else 0)"

text \<open>\<open>CBitcoinAddress::Set\<close>; a destination that is none leaves the address as it was.\<close>

definition CBitcoinAddress_Set :: "(Base58Type \<Rightarrow> bytes) \<Rightarrow> CTxDestination \<Rightarrow> CBase58Data \<Rightarrow> bool \<times> CBase58Data" where
  "CBitcoinAddress_Set prefixes dest a = (case dest of
      CKeyID h \<Rightarrow> (True, SetData (prefixes PUBKEY_ADDRESS) h)
    | CScriptID h \<Rightarrow> (True, SetData (prefixes SCRIPT_ADDRESS) h)
    | CNoDestination \<Rightarrow> (False, a))"

definition CBitcoinAddress_IsValid :: "(Base58Type \<Rightarrow> bytes) \<Rightarrow> CBase58Data \<Rightarrow> bool" where
  "CBitcoinAddress_IsValid prefixes a \<longleftrightarrow>
     (let fCorrectSize = (length (vchData a) = 20);
          fKnownVersion = (vchVersion a = prefixes PUBKEY_ADDRESS \<or> vchVersion a = prefixes SCRIPT_ADDRESS)
      in fCorrectSize \<and> fKnownVersion)"

definition CBitcoinAddress_GetData :: "(Base58Type \<Rightarrow> bytes) \<Rightarrow> CBase58Data \<Rightarrow> uint160" where
  "CBitcoinAddress_GetData prefixes a =
     (if \<not> CBitcoinAddress_IsValid prefixes a then replicate 20 0 else vchData a)"

definition CBitcoinAddress_Get :: "(Base58Type \<Rightarrow> bytes) \<Rightarrow> CBase58Data \<Rightarrow> CTxDestination" where
  "CBitcoinAddress_Get prefixes a =
     (if \<not> CBitcoinAddress_IsValid prefixes a then CNoDestination
      else let id = vchData a in
        if vchVersion a = prefixes PUBKEY_ADDRESS then CKeyID id
        else if vchVersion a = prefixes SCRIPT_ADDRESS then CScriptID id
        else CNoDestination)"

definition CBitcoinAddress_GetIndexKey :: "(Base58Type \<Rightarrow> bytes) \<Rightarrow> CBase58Data \<Rightarrow> (uint160 \<times> nat) option" where
  "CBitcoinAddress_GetIndexKey prefixes a =
     (if \<not> CBitcoinAddress_IsValid prefixes a then None
      else if vchVersion a = prefixes PUBKEY_ADDRESS then Some (vchData a, 1)
      else if vchVersion a = prefixes SCRIPT_ADDRESS then Some (vchData a, 2)
      else None)"

definition CBitcoinAddress_GetKeyID :: "(Base58Type \<Rightarrow> bytes) \<Rightarrow> CBase58Data \<Rightarrow> uint160 option" where
  "CBitcoinAddress_GetKeyID prefixes a =
     (if \<not> CBitcoinAddress_IsValid prefixes a \<or> vchVersion a \<noteq> prefixes PUBKEY_ADDRESS then None
      else Some (vchData a))"

definition CBitcoinAddress_IsScript :: "(Base58Type \<Rightarrow> bytes) \<Rightarrow> CBase58Data \<Rightarrow> bool" where
  "CBitcoinAddress_IsScript prefixes a \<longleftrightarrow>
     CBitcoinAddress_IsValid prefixes a \<and> vchVersion a = prefixes SCRIPT_ADDRESS"

text \<open>A secret key is its bytes and whether its public key is compressed.\<close>

definition CBitcoinSecret_SetKey :: "(Base58Type \<Rightarrow> bytes) \<Rightarrow> bytes \<Rightarrow> bool \<Rightarrow> CBase58Data" where
  "CBitcoinSecret_SetKey prefixes vchSecret fCompressed =
     (let a = SetData (prefixes SECRET_KEY) vchSecret
      in if fCompressed then a\<lparr>vchData := vchData a @ [1]\<rparr> else a)"

definition CBitcoinSecret_GetKey :: "CBase58Data \<Rightarrow> (bytes \<times> bool) option" where
  "CBitcoinSecret_GetKey a =
     (if length (vchData a) < 32 then None
      else Some (take 32 (vchData a), length (vchData a) > 32 \<and> vchData a ! 32 = 1))"

definition CBitcoinSecret_IsValid :: "(Base58Type \<Rightarrow> bytes) \<Rightarrow> CBase58Data \<Rightarrow> bool" where
  "CBitcoinSecret_IsValid prefixes a \<longleftrightarrow>
     (let fExpectedFormat = (length (vchData a) = 32 \<or> length (vchData a) = 33 \<and> vchData a ! 32 = 1);
          fCorrectVersion = (vchVersion a = prefixes SECRET_KEY)
      in fExpectedFormat \<and> fCorrectVersion)"

definition CBitcoinSecret_SetString :: "(Base58Type \<Rightarrow> bytes) \<Rightarrow> string \<Rightarrow> (bool \<times> CBase58Data) option" where
  "CBitcoinSecret_SetString prefixes pszSecret =
     map_option (\<lambda>(r, a). (r \<and> CBitcoinSecret_IsValid prefixes a, a)) (SetString pszSecret 1)"

definition DecodeDestination :: "(Base58Type \<Rightarrow> bytes) \<Rightarrow> string \<Rightarrow> CTxDestination option" where
  "DecodeDestination prefixes str = map_option (\<lambda>(r, a). CBitcoinAddress_Get prefixes a) (SetString str 1)"

subsection \<open>Digits of a number\<close>

fun digits_of :: "nat \<Rightarrow> nat \<Rightarrow> nat list" where
  "digits_of b n = (if b < 2 \<or> n = 0 then [] else n mod b # digits_of b (n div b))"

declare digits_of.simps [simp del]

definition value_of :: "nat \<Rightarrow> nat list \<Rightarrow> nat" where
  "value_of b ds = foldr (\<lambda>d n. d + b * n) ds 0"

lemma value_of_simps [simp]: "value_of b [] = 0" "value_of b (d # ds) = d + b * value_of b ds"
  by (simp_all add: value_of_def)

lemma digits_of_zero [simp]: "digits_of b 0 = []"
  by (simp add: digits_of.simps)

lemma value_of_append: "value_of b (xs @ ys) = value_of b xs + b ^ length xs * value_of b ys"
  by (induction xs) (simp_all add: algebra_simps)

lemma value_of_replicate [simp]: "value_of b (replicate n 0) = 0"
  by (induction n) simp_all

text \<open>Leading zeros dropped, the digits are those of the value.\<close>

lemma strip_is_digits:
  assumes "2 \<le> b" "\<forall>d \<in> set ds. d < b"
  shows "dropWhile (\<lambda>d. d = 0) (rev ds) = rev (digits_of b (value_of b ds))"
  using assms(2)
proof (induction ds)
  case (Cons d ds)
  then have IH: "dropWhile (\<lambda>d. d = 0) (rev ds) = rev (digits_of b (value_of b ds))" and d: "d < b" by auto
  show ?case
  proof (cases "value_of b ds = 0")
    case True
    then have "\<forall>x \<in> set (rev ds). x = 0" using IH by (simp add: dropWhile_eq_Nil_conv)
    then show ?thesis using True d assms(1)
      by (simp add: dropWhile_append2 dropWhile_append digits_of.simps [of b d])
  next
    case False
    then have "dropWhile (\<lambda>d. d = 0) (rev ds) \<noteq> []" using IH assms(1) by (simp add: digits_of.simps)
    then have "dropWhile (\<lambda>d. d = 0) (rev ds @ [d]) = dropWhile (\<lambda>d. d = 0) (rev ds) @ [d]"
      unfolding dropWhile_eq_Nil_conv by (auto intro: dropWhile_append1)
    moreover have "digits_of b (d + b * value_of b ds) = d # digits_of b (value_of b ds)"
      using d False assms(1) by (subst digits_of.simps) simp
    ultimately show ?thesis using IH by simp
  qed
qed simp

lemma mult_add_value:
  assumes "mult_add base mul ds carry = (ds', carry')" "0 < base"
  shows "length ds' = length ds \<and> (\<forall>d \<in> set ds'. d < base) \<and>
    value_of base ds' + base ^ length ds * carry' = mul * value_of base ds + carry"
  using assms(1)
proof (induction ds arbitrary: carry ds' carry')
  case (Cons d ds)
  define c where "c = carry + mul * d"
  obtain es where es: "mult_add base mul ds (c div base) = (es, carry')" and ds': "ds' = c mod base # es"
    using Cons.prems by (auto simp: Let_def c_def split: prod.splits)
  have IH: "length es = length ds" "\<forall>d \<in> set es. d < base"
    "value_of base es + base ^ length ds * carry' = mul * value_of base ds + c div base"
    using Cons.IH [OF es] by auto
  have "value_of base ds' + base ^ length (d # ds) * carry' =
      c mod base + base * (value_of base es + base ^ length ds * carry')"
    by (simp add: ds' algebra_simps)
  also have "\<dots> = base * (mul * value_of base ds) + (c mod base + base * (c div base))"
    unfolding IH(3) by (simp add: algebra_simps)
  also have "\<dots> = mul * value_of base (d # ds) + carry"
    by (simp add: c_def algebra_simps)
  finally show ?case using IH assms(2) by (simp add: ds')
qed simp

text \<open>The assertion holds as long as the number fits the array.\<close>

lemma mult_add_assert_value:
  assumes "mul * value_of base ds + carry < base ^ length ds" "0 < base"
  shows "\<exists>ds'. mult_add_assert base mul ds carry = Some ds' \<and> length ds' = length ds \<and>
    (\<forall>d \<in> set ds'. d < base) \<and> value_of base ds' = mul * value_of base ds + carry"
proof -
  obtain ds' carry' where m: "mult_add base mul ds carry = (ds', carry')" by (cases "mult_add base mul ds carry")
  note v = mult_add_value [OF m assms(2)]
  have "base ^ length ds * carry' < base ^ length ds" using v assms(1) by linarith
  then have "carry' = 0" by simp
  then show ?thesis using v m by (auto simp: mult_add_assert_def)
qed

subsection \<open>The loops compute digits\<close>

text \<open>The number of some bytes, or of some characters, with the first in the highest place.\<close>

definition be_value :: "nat \<Rightarrow> nat list \<Rightarrow> nat" where
  "be_value b ds = value_of b (rev ds)"

lemma be_value_snoc: "be_value b (ds @ [d]) = d + b * be_value b ds"
  by (simp add: be_value_def)

lemma be_value_Cons: "be_value b (d # ds) = be_value b ds + b ^ length ds * d"
  by (simp add: be_value_def value_of_append)

lemma be_value_less: "\<forall>d \<in> set ds. d < b \<Longrightarrow> be_value b ds < b ^ length ds"
proof (induction ds)
  case (Cons d ds)
  then have "be_value b ds < b ^ length ds" "d + 1 \<le> b" by auto
  then have "be_value b ds + b ^ length ds * d < b ^ length ds * (d + 1)" by simp
  also have "\<dots> \<le> b ^ length ds * b" using \<open>d + 1 \<le> b\<close> by (intro mult_left_mono) auto
  finally show ?case by (simp add: be_value_Cons mult.commute)
qed (simp add: be_value_def)

lemma encode58_loop_value:
  assumes "be_value 256 (map unat ps) + 256 ^ length ps * value_of 58 b58 < 58 ^ length b58"
    and "\<forall>d \<in> set b58. d < 58"
  shows "\<exists>ds. encode58_loop ps b58 = Some ds \<and> (\<forall>d \<in> set ds. d < 58) \<and>
    value_of 58 ds = be_value 256 (map unat ps) + 256 ^ length ps * value_of 58 b58"
  using assms
proof (induction ps arbitrary: b58)
  case (Cons p ps)
  have e: "be_value 256 (map unat (p # ps)) + 256 ^ length (p # ps) * value_of 58 b58 =
      be_value 256 (map unat ps) + 256 ^ length ps * (256 * value_of 58 b58 + unat p)"
    by (simp add: be_value_Cons algebra_simps)
  have "256 * value_of 58 b58 + unat p \<le> 256 ^ length ps * (256 * value_of 58 b58 + unat p)" by simp
  also have "\<dots> < 58 ^ length b58" using Cons.prems(1) unfolding e by linarith
  finally obtain ds where ds: "mult_add_assert 58 256 b58 (unat p) = Some ds" "length ds = length b58"
      "\<forall>d \<in> set ds. d < 58" "value_of 58 ds = 256 * value_of 58 b58 + unat p"
    using mult_add_assert_value [of 256 58 b58 "unat p"] by auto
  have "be_value 256 (map unat ps) + 256 ^ length ps * value_of 58 ds < 58 ^ length ds"
    using Cons.prems(1) unfolding e ds(2,4) .
  from Cons.IH [OF this ds(3)] show ?case unfolding e by (simp add: ds(1,4))
qed (simp add: be_value_def)

lemma power_fits:
  assumes "p ^ k \<le> (q :: nat) ^ j" "0 < k" "1 \<le> q" "n * j \<le> e * k"
  shows "p ^ n \<le> q ^ e"
proof -
  have "(p ^ n) ^ k = (p ^ k) ^ n" by (metis mult.commute power_mult)
  also have "\<dots> \<le> (q ^ j) ^ n" using assms(1) by (intro power_mono) simp_all
  also have "\<dots> = q ^ (n * j)" by (metis mult.commute power_mult)
  also have "\<dots> \<le> q ^ (e * k)" by (rule power_increasing [OF assms(4,3)])
  also have "\<dots> = (q ^ e) ^ k" by (rule power_mult)
  finally show ?thesis unfolding power_mono_iff [OF le0 le0 assms(2)] .
qed

lemma fits_58: "256 ^ n \<le> (58 :: nat) ^ (n * 138 div 100 + 1)"
proof (rule power_fits [of _ 100 _ 138])
  obtain d r where d: "d = n * 138 div 100" and r: "n * 138 = 100 * d + r" "r < 100"
    using mult_div_mod_eq [of 100 "n * 138"] by (metis mod_less_divisor zero_less_numeral)
  show "n * 138 \<le> (n * 138 div 100 + 1) * 100" unfolding d [symmetric] using r by simp
qed simp_all

lemma fits_256: "58 ^ n \<le> (256 :: nat) ^ (n * 733 div 1000 + 1)"
proof (rule power_fits [of _ 71 _ 52])
  obtain d r where d: "d = n * 733 div 1000" and r: "n * 733 = 1000 * d + r" "r < 1000"
    using mult_div_mod_eq [of 1000 "n * 733"] by (metis mod_less_divisor zero_less_numeral)
  show "n * 52 \<le> (n * 733 div 1000 + 1) * 71" unfolding d [symmetric] using r by simp
qed simp_all

subsection \<open>Decoding reads back what encoding writes\<close>

definition digit_values :: "string \<Rightarrow> nat list" where
  "digit_values cs = map (\<lambda>c. the (digit58 c)) cs"

lemma digit58_nth: "n < 58 \<Longrightarrow> digit58 (pszBase58 ! n) = Some n \<and> \<not> isspace (pszBase58 ! n) \<and>
    of_char (pszBase58 ! n) \<noteq> (0 :: nat) \<and> (pszBase58 ! n = CHR ''1'' \<longleftrightarrow> n = 0)"
proof -
  assume "n < 58"
  moreover have "list_all (\<lambda>n. digit58 (pszBase58 ! n) = Some n \<and> \<not> isspace (pszBase58 ! n) \<and>
    of_char (pszBase58 ! n) \<noteq> (0 :: nat) \<and> (pszBase58 ! n = CHR ''1'' \<longleftrightarrow> n = 0)) [0..<58]" by code_simp
  ultimately show ?thesis by (simp add: list_all_iff del: upt_rec_numeral)
qed

lemma digit58_less: "digit58 c = Some n \<Longrightarrow> n < 58"
  by (auto simp: digit58_def Let_def split: if_splits)

lemma decode58_loop_value:
  assumes "be_value 58 ds + 58 ^ length ds * value_of 256 b256 < 256 ^ length b256"
    and "\<forall>d \<in> set b256. d < 256" "\<forall>d \<in> set ds. d < 58"
  shows "\<exists>es. decode58_loop (map (\<lambda>d. pszBase58 ! d) ds) b256 = Some (Some (es, [])) \<and> (\<forall>d \<in> set es. d < 256) \<and>
    value_of 256 es = be_value 58 ds + 58 ^ length ds * value_of 256 b256"
  using assms
proof (induction ds arbitrary: b256)
  case (Cons d ds)
  have e: "be_value 58 (d # ds) + 58 ^ length (d # ds) * value_of 256 b256 =
      be_value 58 ds + 58 ^ length ds * (58 * value_of 256 b256 + d)"
    by (simp add: be_value_Cons algebra_simps)
  have "58 * value_of 256 b256 + d \<le> 58 ^ length ds * (58 * value_of 256 b256 + d)" by simp
  also have "\<dots> < 256 ^ length b256" using Cons.prems(1) unfolding e by linarith
  finally obtain es where es: "mult_add_assert 256 58 b256 d = Some es" "length es = length b256"
      "\<forall>d \<in> set es. d < 256" "value_of 256 es = 58 * value_of 256 b256 + d"
    using mult_add_assert_value [of 58 256 b256 d] by auto
  have "be_value 58 ds + 58 ^ length ds * value_of 256 es < 256 ^ length es"
    using Cons.prems(1) unfolding e es(2,4) .
  from Cons.IH [OF this es(3)] show ?case unfolding e using Cons.prems(3) digit58_nth [of d] by (simp add: es(1,4))
qed (simp add: be_value_def)

lemma EncodeBase58_digits:
  "EncodeBase58 vch = Some (replicate (length (takeWhile (\<lambda>b. b = 0) vch)) (CHR ''1'') @
     map (\<lambda>d. pszBase58 ! d) (rev (digits_of 58 (be_value 256 (map unat (dropWhile (\<lambda>b. b = 0) vch))))))"
proof -
  define rest where "rest = dropWhile (\<lambda>b. b = 0) vch"
  have "be_value 256 (map unat rest) < 256 ^ length (map unat rest)"
    by (rule be_value_less) (use unat_u8_less in auto)
  also have "\<dots> \<le> 58 ^ (length rest * 138 div 100 + 1)" using fits_58 [of "length rest"] by simp
  finally obtain ds where ds: "encode58_loop rest (replicate (length rest * 138 div 100 + 1) 0) = Some ds"
      "\<forall>d \<in> set ds. d < 58" "value_of 58 ds = be_value 256 (map unat rest)"
    using encode58_loop_value [of rest "replicate (length rest * 138 div 100 + 1) 0"] by (auto simp del: replicate.simps replicate_Suc)
  show ?thesis unfolding EncodeBase58_def Let_def rest_def [symmetric] ds(1)
    using strip_is_digits [of 58 ds] ds(2) by (simp add: ds(3))
qed

lemma digits_of_properties:
  assumes "2 \<le> b"
  shows "(\<forall>d \<in> set (digits_of b n). d < b) \<and> value_of b (digits_of b n) = n \<and>
    (digits_of b n \<noteq> [] \<longrightarrow> last (digits_of b n) \<noteq> 0)"
proof (induction n rule: less_induct)
  case (less n)
  show ?case
  proof (cases "n = 0")
    case False
    then have d: "digits_of b n = n mod b # digits_of b (n div b)" using assms by (simp add: digits_of.simps [of b n])
    have "n div b < n" using False assms by simp
    note IH = less [OF this]
    have "n div b = 0 \<Longrightarrow> n mod b \<noteq> 0" using False by (metis add_0 div_mult_mod_eq mult_zero_left)
    moreover have "n div b \<noteq> 0 \<Longrightarrow> digits_of b (n div b) \<noteq> []"
      using assms by (simp add: digits_of.simps [of b "n div b"])
    moreover have "n mod b + b * (n div b) = n" by simp
    moreover have "n mod b < b" using assms by simp
    ultimately show ?thesis unfolding d using IH by (cases "n div b = 0") auto
  qed simp
qed

lemma digits_of_value:
  assumes "2 \<le> b" "\<forall>d \<in> set ds. d < b" "ds \<noteq> [] \<longrightarrow> hd ds \<noteq> 0"
  shows "rev (digits_of b (be_value b ds)) = ds"
proof -
  have "dropWhile (\<lambda>d. d = 0) ds = ds" using assms(3) by (cases ds) auto
  then show ?thesis using strip_is_digits [of b "rev ds"] assms(1,2) by (simp add: be_value_def)
qed

lemma decode_parts:
  assumes "\<forall>d \<in> set ds. d < 58" "ds \<noteq> [] \<longrightarrow> hd ds \<noteq> 0"
  shows "DecodeBase58 (replicate z (CHR ''1'') @ map (\<lambda>d. pszBase58 ! d) ds) =
    Some (Some (replicate z 0 @ map of_nat (rev (digits_of 256 (be_value 58 ds)))))"
proof -
  define txt58 where "txt58 = map (\<lambda>d. pszBase58 ! d) ds"
  define str where "str = replicate z (CHR ''1'') @ txt58"
  have chars: "\<forall>c \<in> set txt58. \<not> isspace c \<and> of_char c \<noteq> (0 :: nat)"
    using digit58_nth assms(1) by (auto simp: txt58_def)
  have one: "\<not> isspace (CHR ''1'')" "of_char (CHR ''1'') \<noteq> (0 :: nat)" by (simp_all add: isspace_def)
  have c: "c_str str = str" using chars one(2) by (auto simp: c_str_def str_def takeWhile_eq_all_conv)
  have sp: "dropWhile isspace str = str"
  proof -
    have "\<forall>c \<in> set str. \<not> isspace c" using chars one(1) by (auto simp: str_def)
    then show ?thesis by (cases str) auto
  qed
  have first: "txt58 \<noteq> [] \<longrightarrow> hd txt58 \<noteq> CHR ''1''"
    using assms digit58_nth [of "hd ds"] by (cases ds) (auto simp: txt58_def)
  have ones: "takeWhile (\<lambda>c. c = CHR ''1'') str = replicate z (CHR ''1'')" "dropWhile (\<lambda>c. c = CHR ''1'') str = txt58"
    using first unfolding str_def by (induction z) (cases txt58; simp)+
  have "be_value 58 ds < 58 ^ length ds" by (rule be_value_less [OF assms(1)])
  also have "\<dots> \<le> 256 ^ (length txt58 * 733 div 1000 + 1)" using fits_256 [of "length ds"] by (simp add: txt58_def)
  finally obtain es where es: "decode58_loop txt58 (replicate (length txt58 * 733 div 1000 + 1) 0) = Some (Some (es, []))"
      "\<forall>d \<in> set es. d < 256" "value_of 256 es = be_value 58 ds"
    using decode58_loop_value [of ds "replicate (length txt58 * 733 div 1000 + 1) 0"] assms(1)
    by (auto simp: txt58_def simp del: replicate.simps replicate_Suc)
  show ?thesis unfolding txt58_def [symmetric] str_def [symmetric] DecodeBase58_def Let_def c sp ones es(1)
    using strip_is_digits [of 256 es] es(2) by (simp add: es(3))
qed

lemma DecodeBase58_EncodeBase58: "\<exists>txt58. EncodeBase58 vch = Some txt58 \<and> DecodeBase58 txt58 = Some (Some vch)"
proof -
  define rest where "rest = dropWhile (\<lambda>b. b = 0) vch"
  define n where "n = be_value 256 (map unat rest)"
  define z where "z = length (takeWhile (\<lambda>b. b = 0) vch)"
  have zeros: "takeWhile (\<lambda>b. b = 0) vch = replicate z 0"
    unfolding z_def by (rule replicate_length_same [symmetric]) (auto dest: set_takeWhileD)
  have "map unat rest \<noteq> [] \<longrightarrow> hd (map unat rest) \<noteq> 0"
    using hd_dropWhile [of "\<lambda>b. b = 0" vch] by (auto simp: rest_def hd_map unat_eq_0)
  then have r: "rev (digits_of 256 n) = map unat rest"
    unfolding n_def by (intro digits_of_value) (use unat_u8_less in auto)
  define ds where "ds = rev (digits_of 58 n)"
  have ds: "\<forall>d \<in> set ds. d < 58" "ds \<noteq> [] \<longrightarrow> hd ds \<noteq> 0" "be_value 58 ds = n"
    using digits_of_properties [of 58 n] by (auto simp: ds_def hd_rev be_value_def)
  have "map (of_nat \<circ> unat) rest = rest" by (simp add: map_idI)
  then have "DecodeBase58 (replicate z (CHR ''1'') @ map (\<lambda>d. pszBase58 ! d) ds) = Some (Some (replicate z 0 @ rest))"
    unfolding decode_parts [OF ds(1,2)] ds(3) r by simp
  moreover have "replicate z 0 @ rest = vch" unfolding zeros [symmetric] rest_def by simp
  moreover have "EncodeBase58 vch = Some (replicate z (CHR ''1'') @ map (\<lambda>d. pszBase58 ! d) ds)"
    unfolding EncodeBase58_digits by (simp add: z_def ds_def n_def rest_def)
  ultimately show ?thesis by simp
qed

lemma DecodeBase58Check_EncodeBase58Check:
  "\<exists>txt58. EncodeBase58Check vch = Some txt58 \<and> DecodeBase58Check txt58 = Some (Some vch)"
proof -
  obtain txt58 where "EncodeBase58 (vch @ take 4 (Hash [vch])) = Some txt58"
      "DecodeBase58 txt58 = Some (Some (vch @ take 4 (Hash [vch])))"
    using DecodeBase58_EncodeBase58 by blast
  then show ?thesis by (auto simp: EncodeBase58Check_def DecodeBase58Check_def length_Hash Let_def)
qed

text \<open>Addresses of a network whose two prefixes are one byte long and different.\<close>

definition address_prefixes :: "(Base58Type \<Rightarrow> bytes) \<Rightarrow> bool" where
  "address_prefixes prefixes \<longleftrightarrow> length (prefixes PUBKEY_ADDRESS) = 1 \<and> length (prefixes SCRIPT_ADDRESS) = 1 \<and>
     prefixes PUBKEY_ADDRESS \<noteq> prefixes SCRIPT_ADDRESS"

lemma network_prefixes:
  "address_prefixes main_base58Prefixes" "address_prefixes test_base58Prefixes" "address_prefixes regtest_base58Prefixes"
  by (simp_all add: address_prefixes_def main_base58Prefixes_def test_base58Prefixes_def regtest_base58Prefixes_def)

lemma SetString_ToString:
  "length (vchVersion a) = n \<Longrightarrow>
    \<exists>txt58. CBase58Data_ToString a = Some txt58 \<and> SetString txt58 n = Some (True, a)"
  using DecodeBase58Check_EncodeBase58Check [of "vchVersion a @ vchData a"]
  by (auto simp: CBase58Data_ToString_def SetString_def SetData_def)

text \<open>
  C40. The address text of a key or script hash reads back as that destination: on every network
  whose address prefixes are single different bytes, writing the address trips no assertion and
  decoding the text gives the destination it was written for.
\<close>

theorem address_reads_back:
  assumes "address_prefixes prefixes" "dest = CKeyID h \<or> dest = CScriptID h" "length h = 20"
  shows "\<exists>txt58. CBase58Data_ToString (snd (CBitcoinAddress_Set prefixes dest CBase58Data_empty)) = Some txt58 \<and>
    DecodeDestination prefixes txt58 = Some dest"
proof -
  define a where "a = snd (CBitcoinAddress_Set prefixes dest CBase58Data_empty)"
  have a: "length (vchVersion a) = 1" "CBitcoinAddress_Get prefixes a = dest"
    using assms by (auto simp: a_def CBitcoinAddress_Set_def SetData_def address_prefixes_def
      CBitcoinAddress_Get_def CBitcoinAddress_IsValid_def)
  show ?thesis using SetString_ToString [OF a(1)] a(2) unfolding a_def [symmetric]
    by (auto simp: DecodeDestination_def)
qed

lemma address_reads_back_witness:
  "\<exists>txt58. CBase58Data_ToString (snd (CBitcoinAddress_Set main_base58Prefixes (CKeyID (replicate 20 7)) CBase58Data_empty)) = Some txt58 \<and>
    DecodeDestination main_base58Prefixes txt58 = Some (CKeyID (replicate 20 7))"
  by (rule address_reads_back [where h = "replicate 20 7"])
    (simp_all add: address_prefixes_def main_base58Prefixes_def)

end
