(* ===== verification/Merkle.thy ===== *)
theory Merkle
  imports Transactions
begin

text \<open>
  Merkle trees over transaction hashes (\<open>consensus/merkle.cpp\<close>, \<open>merkleblock.h\<close>,
  \<open>merkleblock.cpp\<close>).  The constant-space computation keeps one hash per level; the number of
  leaves is carried shifted right by the level, which is all its loops look at.  Partial trees are
  built and extracted by the recursions of the code over height and position.
\<close>

subsection \<open>Root and branch in constant space\<close>

record merkle_state =
  ms_inner :: "uint256 list"
  ms_matchlevel :: int
  ms_branch :: "uint256 list"
  ms_mutated :: bool

text \<open>
  The loop over the low zero bits of the count: level, hash, whether the hash covers the leaf,
  branch, mutation flag and the count shifted to the level that is reached.  The count is never 0.
\<close>

fun combine_loop :: "uint256 list \<Rightarrow> int \<Rightarrow> nat \<Rightarrow> nat \<Rightarrow> uint256 \<Rightarrow> bool \<Rightarrow> uint256 list \<Rightarrow> bool \<Rightarrow>
    nat \<times> nat \<times> uint256 \<times> bool \<times> uint256 list \<times> bool" where
  "combine_loop inner matchlevel c level h matchh branch mutated =
     (if c = 0 \<or> odd c then (c, level, h, matchh, branch, mutated)
      else combine_loop inner matchlevel (c div 2) (Suc level) (Hash [inner ! level, h])
        (matchh \<or> matchlevel = int level)
        (if matchh then branch @ [inner ! level] else if matchlevel = int level then branch @ [h] else branch)
        (mutated \<or> inner ! level = h))"

declare combine_loop.simps [simp del]

text \<open>One leaf; \<open>cnt\<close> is the number of leaves before it.\<close>

definition merkle_leaf :: "nat \<Rightarrow> uint256 \<Rightarrow> nat \<Rightarrow> merkle_state \<Rightarrow> merkle_state" where
  "merkle_leaf branchpos h cnt s =
     (case combine_loop (ms_inner s) (ms_matchlevel s) (Suc cnt) 0 h (cnt = branchpos) (ms_branch s) (ms_mutated s) of
        (_, level, h, matchh, branch, mutated) \<Rightarrow>
          \<lparr>ms_inner = (ms_inner s)[level := h],
           ms_matchlevel = (if matchh then int level else ms_matchlevel s),
           ms_branch = branch, ms_mutated = mutated\<rparr>)"

fun merkle_leaves :: "nat \<Rightarrow> uint256 list \<Rightarrow> nat \<Rightarrow> merkle_state \<Rightarrow> merkle_state" where
  "merkle_leaves branchpos [] cnt s = s"
| "merkle_leaves branchpos (h # rest) cnt s = merkle_leaves branchpos rest (Suc cnt) (merkle_leaf branchpos h cnt s)"

text \<open>The lowest level that holds a hash.\<close>

fun skip_levels :: "nat \<Rightarrow> nat \<Rightarrow> nat \<times> nat" where
  "skip_levels c level = (if c = 0 \<or> odd c then (c, level) else skip_levels (c div 2) (Suc level))"

declare skip_levels.simps [simp del]

lemma combine_loop_le: "combine_loop inner ml c level h matchh branch mutated = (c', r) \<Longrightarrow> c' \<le> c"
proof (induction inner ml c level h matchh branch mutated rule: combine_loop.induct)
  case (1 inner ml c level h matchh branch mutated)
  show ?case
  proof (cases "c = 0 \<or> odd c")
    case False
    have "c' \<le> c div 2"
      by (rule 1(1) [OF False]) (use 1(2) False in \<open>simp add: combine_loop.simps [of inner ml c]\<close>)
    then show ?thesis by simp
  qed (use 1(2) in \<open>simp add: combine_loop.simps [of inner ml c]\<close>)
qed

text \<open>The final sweep; \<open>count\<close> is \<open>1 << level\<close> exactly when the shifted count is 1.\<close>

function sweep :: "uint256 list \<Rightarrow> int \<Rightarrow> nat \<Rightarrow> nat \<Rightarrow> uint256 \<Rightarrow> bool \<Rightarrow> uint256 list \<Rightarrow> uint256 \<times> uint256 list" where
  "sweep inner matchlevel c level h matchh branch =
     (if c \<le> 1 then (h, branch)
      else case combine_loop inner matchlevel (Suc c div 2) (Suc level) (Hash [h, h]) matchh
          (if matchh then branch @ [h] else branch) False of
        (c, level, h, matchh, branch, _) \<Rightarrow> sweep inner matchlevel c level h matchh branch)"
  by pat_completeness auto
termination
proof (relation "measure (\<lambda>(_, _, c, _). c)", goal_cases)
  case (2 inner matchlevel c level h matchh branch x c')
  then have "x \<le> Suc c div 2" by (intro combine_loop_le) (rule sym)
  then show ?case using 2(1) by simp
qed simp

declare sweep.simps [simp del]

definition null256 :: uint256 where
  "null256 = replicate 32 0"

definition MerkleComputation :: "uint256 list \<Rightarrow> nat \<Rightarrow> uint256 \<times> bool \<times> uint256 list" where
  "MerkleComputation leaves branchpos =
     (if length leaves = 0 then (null256, False, [])
      else let s = merkle_leaves branchpos leaves 0
                 \<lparr>ms_inner = replicate 32 null256, ms_matchlevel = - 1, ms_branch = [], ms_mutated = False\<rparr>;
               (c, level) = skip_levels (length leaves) 0;
               (h, branch) = sweep (ms_inner s) (ms_matchlevel s) c level (ms_inner s ! level)
                 (ms_matchlevel s = int level) (ms_branch s)
        in (h, ms_mutated s, branch))"

text \<open>The position \<open>-1\<close> is no position: it is the largest \<open>size_t\<close>.\<close>

definition ComputeMerkleRoot :: "uint256 list \<Rightarrow> uint256 \<times> bool" where
  "ComputeMerkleRoot leaves = (case MerkleComputation leaves (2 ^ 64 - 1) of (hash, mutated, _) \<Rightarrow> (hash, mutated))"

definition ComputeMerkleBranch :: "uint256 list \<Rightarrow> nat \<Rightarrow> uint256 list" where
  "ComputeMerkleBranch leaves position = (case MerkleComputation leaves position of (_, _, ret) \<Rightarrow> ret)"

fun ComputeMerkleRootFromBranch :: "uint256 \<Rightarrow> uint256 list \<Rightarrow> nat \<Rightarrow> uint256" where
  "ComputeMerkleRootFromBranch leaf [] nIndex = leaf"
| "ComputeMerkleRootFromBranch leaf (b # bs) nIndex =
     ComputeMerkleRootFromBranch (if odd nIndex then Hash [b, leaf] else Hash [leaf, b]) bs (nIndex div 2)"

definition BlockMerkleRoot :: "CBlock \<Rightarrow> uint256 \<times> bool" where
  "BlockMerkleRoot block = ComputeMerkleRoot (map CTransaction_GetHash (vtx block))"

definition BlockMerkleBranch :: "CBlock \<Rightarrow> nat \<Rightarrow> uint256 list" where
  "BlockMerkleBranch block position = ComputeMerkleBranch (map CTransaction_GetHash (vtx block)) position"

subsection \<open>Partial trees\<close>

record CPartialMerkleTree =
  nTransactions :: nat
  vBits :: "bool list"
  vHash :: "uint256 list"
  fBad :: bool

definition CalcTreeWidth :: "nat \<Rightarrow> nat \<Rightarrow> nat" where
  "CalcTreeWidth n height = (n + 2 ^ height - 1) div 2 ^ height"

fun CalcHash :: "uint256 list \<Rightarrow> nat \<Rightarrow> nat \<Rightarrow> uint256" where
  "CalcHash vTxid 0 pos = vTxid ! pos"
| "CalcHash vTxid (Suc height) pos =
     (let left = CalcHash vTxid height (pos * 2);
          right = (if pos * 2 + 1 < CalcTreeWidth (length vTxid) height
                   then CalcHash vTxid height (pos * 2 + 1) else left)
      in Hash [left, right])"

definition fParentOfMatch :: "nat \<Rightarrow> bool list \<Rightarrow> nat \<Rightarrow> nat \<Rightarrow> bool" where
  "fParentOfMatch n vMatch height pos =
     list_ex (\<lambda>p. vMatch ! p) [pos * 2 ^ height ..< min ((pos + 1) * 2 ^ height) n]"

text \<open>The bits and the hashes that the traversal appends.\<close>

fun TraverseAndBuild :: "uint256 list \<Rightarrow> bool list \<Rightarrow> nat \<Rightarrow> nat \<Rightarrow> bool list \<times> uint256 list" where
  "TraverseAndBuild vTxid vMatch 0 pos = ([fParentOfMatch (length vTxid) vMatch 0 pos], [CalcHash vTxid 0 pos])"
| "TraverseAndBuild vTxid vMatch (Suc height) pos =
     (if \<not> fParentOfMatch (length vTxid) vMatch (Suc height) pos then ([False], [CalcHash vTxid (Suc height) pos])
      else let (bits, hashes) = TraverseAndBuild vTxid vMatch height (pos * 2) in
        if pos * 2 + 1 < CalcTreeWidth (length vTxid) height
        then let (bits', hashes') = TraverseAndBuild vTxid vMatch height (pos * 2 + 1)
          in (True # bits @ bits', hashes @ hashes')
        else (True # bits, hashes))"

text \<open>The height of the tree: the first at which the width is at most 1.\<close>

function tree_height :: "nat \<Rightarrow> nat \<Rightarrow> nat" where
  "tree_height n hgt = (if CalcTreeWidth n hgt > 1 then tree_height n (Suc hgt) else hgt)"
  by pat_completeness auto
termination
proof (relation "measure (\<lambda>(n, hgt). n - hgt)", goal_cases)
  case (2 n hgt)
  have "hgt < n"
  proof (rule ccontr)
    assume "\<not> hgt < n"
    then have "n \<le> 2 ^ hgt" using less_exp [of hgt] by linarith
    then have "n + 2 ^ hgt - 1 < 2 * 2 ^ hgt" using zero_less_power [of "2 :: nat" hgt] by linarith
    then have "CalcTreeWidth n hgt < 2" unfolding CalcTreeWidth_def by (rule less_mult_imp_div_less)
    then show False using 2 by simp
  qed
  then show ?case by simp
qed simp

declare tree_height.simps [simp del]

definition CPartialMerkleTree_of :: "uint256 list \<Rightarrow> bool list \<Rightarrow> CPartialMerkleTree" where
  "CPartialMerkleTree_of vTxid vMatch =
     (case TraverseAndBuild vTxid vMatch (tree_height (length vTxid) 0) 0 of
        (bits, hashes) \<Rightarrow> \<lparr>nTransactions = length vTxid, vBits = bits, vHash = hashes, fBad = False\<rparr>)"

definition CPartialMerkleTree_empty :: CPartialMerkleTree where
  "CPartialMerkleTree_empty = \<lparr>nTransactions = 0, vBits = [], vHash = [], fBad = True\<rparr>"

text \<open>The counters, the matches found and the failure flag of an extraction.\<close>

record extract_state =
  nBitsUsed :: nat
  nHashUsed :: nat
  ex_vMatch :: "uint256 list"
  ex_fBad :: bool

text \<open>The hash that is read without descending, where the bit says so or at height 0.\<close>

definition extract_hash :: "CPartialMerkleTree \<Rightarrow> bool \<Rightarrow> extract_state \<Rightarrow> uint256 \<times> extract_state" where
  "extract_hash t matched s =
     (if nHashUsed s \<ge> length (vHash t) then (null256, s\<lparr>ex_fBad := True\<rparr>)
      else let hash = vHash t ! nHashUsed s; s = s\<lparr>nHashUsed := nHashUsed s + 1\<rparr>
        in (hash, if matched then s\<lparr>ex_vMatch := ex_vMatch s @ [hash]\<rparr> else s))"

fun TraverseAndExtract :: "CPartialMerkleTree \<Rightarrow> nat \<Rightarrow> nat \<Rightarrow> extract_state \<Rightarrow> uint256 \<times> extract_state" where
  "TraverseAndExtract t 0 pos s =
     (if nBitsUsed s \<ge> length (vBits t) then (null256, s\<lparr>ex_fBad := True\<rparr>)
      else extract_hash t (vBits t ! nBitsUsed s) (s\<lparr>nBitsUsed := nBitsUsed s + 1\<rparr>))"
| "TraverseAndExtract t (Suc height) pos s =
     (if nBitsUsed s \<ge> length (vBits t) then (null256, s\<lparr>ex_fBad := True\<rparr>)
      else let parent = vBits t ! nBitsUsed s; s = s\<lparr>nBitsUsed := nBitsUsed s + 1\<rparr> in
        if \<not> parent then extract_hash t False s
        else let (left, s) = TraverseAndExtract t height (pos * 2) s in
          if pos * 2 + 1 < CalcTreeWidth (nTransactions t) height
          then let (right, s) = TraverseAndExtract t height (pos * 2 + 1) s;
                   s = (if right = left then s\<lparr>ex_fBad := True\<rparr> else s)
            in (Hash [left, right], s)
          else (Hash [left, left], s))"

definition MAX_BLOCK_SIZE :: nat where
  "MAX_BLOCK_SIZE = 4000000"

text \<open>The root, or the null hash on failure, the matches and the tree with its flag.\<close>

definition ExtractMatches :: "CPartialMerkleTree \<Rightarrow> uint256 \<times> uint256 list \<times> CPartialMerkleTree" where
  "ExtractMatches t =
     (if nTransactions t = 0 then (null256, [], t)
      else if nTransactions t > MAX_BLOCK_SIZE div 60 then (null256, [], t)
      else if length (vHash t) > nTransactions t then (null256, [], t)
      else if length (vBits t) < length (vHash t) then (null256, [], t)
      else let hgt = tree_height (nTransactions t) 0;
               (hashMerkleRoot, s) = TraverseAndExtract t hgt 0
                 \<lparr>nBitsUsed = 0, nHashUsed = 0, ex_vMatch = [], ex_fBad = fBad t\<rparr>;
               t' = t\<lparr>fBad := ex_fBad s\<rparr>
        in if ex_fBad s then (null256, ex_vMatch s, t')
           else if (nBitsUsed s + 7) div 8 \<noteq> (length (vBits t) + 7) div 8 then (null256, ex_vMatch s, t')
           else if nHashUsed s \<noteq> length (vHash t) then (null256, ex_vMatch s, t')
           else (hashMerkleRoot, ex_vMatch s, t'))"

subsection \<open>Widths and subtrees\<close>

lemma CalcTreeWidth_0 [simp]: "CalcTreeWidth n 0 = n"
  by (simp add: CalcTreeWidth_def)

lemma CalcTreeWidth_Suc: "CalcTreeWidth n (Suc l) = Suc (CalcTreeWidth n l) div 2"
proof -
  have "n + 2 ^ Suc l - 1 = n + 2 ^ l - 1 + 2 ^ l" by simp
  then have "CalcTreeWidth n (Suc l) = (n + 2 ^ l - 1 + 2 ^ l) div 2 ^ l div 2"
    by (simp add: CalcTreeWidth_def power_Suc2 div_mult2_eq del: power_Suc)
  moreover have "(n + 2 ^ l - 1 + 2 ^ l) div 2 ^ l = Suc ((n + 2 ^ l - 1) div 2 ^ l)"
    by (subst div_add_self2) simp_all
  ultimately show ?thesis by (simp only: CalcTreeWidth_def)
qed

lemma CalcTreeWidth_div:
  "CalcTreeWidth n l = n div 2 ^ l + (if 2 ^ l dvd n then 0 else 1)"
proof (cases "2 ^ l dvd n")
  case True
  then obtain k where "n = 2 ^ l * k" by (rule dvdE)
  then have "n + 2 ^ l - 1 = (2 ^ l - 1) + 2 ^ l * k" by simp
  then have "(n + 2 ^ l - 1) div 2 ^ l = k + (2 ^ l - 1) div 2 ^ l"
    by (simp only:) (rule div_mult_self2, simp)
  then show ?thesis using True \<open>n = 2 ^ l * k\<close> by (simp add: CalcTreeWidth_def)
next
  case False
  then have "0 < n mod 2 ^ l" by (simp add: dvd_eq_mod_eq_0)
  moreover obtain r q where n: "n = 2 ^ l * q + r" "r = n mod 2 ^ l" "q = n div 2 ^ l"
    using mult_div_mod_eq [of "2 ^ l" n] by metis
  ultimately have "n + 2 ^ l - 1 = (n mod 2 ^ l - 1) + 2 ^ l * (n div 2 ^ l + 1)"
    unfolding n(2,3) [symmetric] by (simp add: n(1))
  moreover have "n mod 2 ^ l - 1 < 2 ^ l" by (intro less_imp_diff_less mod_less_divisor) simp
  ultimately have "(n + 2 ^ l - 1) div 2 ^ l = n div 2 ^ l + 1"
    by (simp only: div_mult_self2 div_less power_not_zero zero_neq_numeral [symmetric] not_False_eq_True)
  then show ?thesis using False by (simp add: CalcTreeWidth_def)
qed

lemma CalcHash_pair:
  "2 * k + 1 < CalcTreeWidth (length xs) l \<Longrightarrow>
    CalcHash xs (Suc l) k = Hash [CalcHash xs l (2 * k), CalcHash xs l (2 * k + 1)]"
  by (simp add: mult.commute)

lemma CalcHash_odd_end:
  "CalcTreeWidth (length xs) l = 2 * k + 1 \<Longrightarrow>
    CalcHash xs (Suc l) k = Hash [CalcHash xs l (2 * k), CalcHash xs l (2 * k)]"
  by (simp add: mult.commute Let_def)

lemma CalcHash_even:
  assumes "even c" "0 < c" "c \<le> CalcTreeWidth (length xs) l"
  shows "CalcHash xs (Suc l) (c div 2 - 1) = Hash [CalcHash xs l (c - 2), CalcHash xs l (c - 1)]"
proof -
  define k where "k = c div 2 - 1"
  have k: "c = 2 * Suc k" using assms(1,2) by (auto simp: k_def elim: evenE)
  show ?thesis using assms(3) CalcHash_pair [of k xs l] unfolding k by simp
qed

declare CalcHash.simps [simp del]

lemma RootFromBranch_snoc:
  "ComputeMerkleRootFromBranch leaf (bs @ [b]) p =
    (let r = ComputeMerkleRootFromBranch leaf bs p
     in if odd (p div 2 ^ length bs) then Hash [b, r] else Hash [r, b])"
proof (induction bs arbitrary: leaf p)
  case (Cons a bs)
  show ?case by (simp add: Cons.IH Let_def div_mult2_eq)
qed simp

text \<open>A branch leads from the leaf at a position up to a level.\<close>

definition branch_to :: "uint256 list \<Rightarrow> nat \<Rightarrow> nat \<Rightarrow> uint256 list \<Rightarrow> bool" where
  "branch_to xs p l bs \<longleftrightarrow> length bs = l \<and>
     ComputeMerkleRootFromBranch (xs ! p) bs p = CalcHash xs l (p div 2 ^ l)"

lemma branch_to_0: "branch_to xs p 0 []"
  by (simp add: branch_to_def CalcHash.simps)

lemma branch_to_left:
  assumes "branch_to xs p l bs" "p div 2 ^ l = c - 1" "even c" "0 < c" "c \<le> CalcTreeWidth (length xs) l"
  shows "branch_to xs p (Suc l) (bs @ [CalcHash xs l (c - 2)]) \<and> p div 2 ^ Suc l = c div 2 - 1"
proof -
  have "odd (c - 1)" using assms(3,4) by simp
  moreover have "p div 2 ^ Suc l = (c - 1) div 2" by (simp only: power_Suc2 div_mult2_eq assms(2))
  moreover have "(c - 1) div 2 = c div 2 - 1" using assms(3,4) by presburger
  ultimately show ?thesis using assms(1,2) CalcHash_even [OF assms(3-5)]
    by (simp add: branch_to_def RootFromBranch_snoc Let_def)
qed

lemma branch_to_right:
  assumes "branch_to xs p l bs" "p div 2 ^ l = c - 2" "even c" "0 < c" "c \<le> CalcTreeWidth (length xs) l"
  shows "branch_to xs p (Suc l) (bs @ [CalcHash xs l (c - 1)]) \<and> p div 2 ^ Suc l = c div 2 - 1"
proof -
  have "even (c - 2)" using assms(3,4) by simp
  moreover have "p div 2 ^ Suc l = (c - 2) div 2" by (simp only: power_Suc2 div_mult2_eq assms(2))
  moreover have "(c - 2) div 2 = c div 2 - 1" using assms(3,4) by presburger
  ultimately show ?thesis using assms(1,2) CalcHash_even [OF assms(3-5)]
    by (simp add: branch_to_def RootFromBranch_snoc Let_def)
qed

lemma branch_to_double:
  assumes "branch_to xs p l bs" "p div 2 ^ l = c - 1" "odd c" "c = CalcTreeWidth (length xs) l"
  shows "branch_to xs p (Suc l) (bs @ [CalcHash xs l (c - 1)]) \<and> p div 2 ^ Suc l = Suc c div 2 - 1"
proof -
  obtain k where k: "c = 2 * k + 1" using assms(3) by (rule oddE)
  have "p div 2 ^ Suc l = k" using assms(2) k by (simp add: power_Suc2 div_mult2_eq del: power_Suc)
  moreover have "c - 1 = 2 * k" "Suc c div 2 - 1 = k" using k by simp_all
  ultimately show ?thesis using assms(1,2) CalcHash_odd_end [of xs l k] assms(4) k
    by (simp add: branch_to_def RootFromBranch_snoc Let_def)
qed

subsection \<open>Combining the hashes of the levels\<close>

text \<open>
  \<open>P c l\<close> is what is known when the loop stands at level \<open>l\<close> with \<open>c\<close> subtrees up to and with
  the current one.
\<close>

lemma combine_loop_hash:
  assumes "combine_loop inner ml c l h mh br mut = (c', l', h', mh', br', mut')"
    and "\<And>c l. P c l \<Longrightarrow> 0 < c \<Longrightarrow> even c \<Longrightarrow>
      inner ! l = CalcHash xs l (c - 2) \<and> c \<le> CalcTreeWidth (length xs) l \<and> P (c div 2) (Suc l)"
    and "P c l" "0 < c" "h = CalcHash xs l (c - 1)"
  shows "P c' l' \<and> odd c' \<and> l \<le> l' \<and> h' = CalcHash xs l' (c' - 1)"
  using assms
proof (induction inner ml c l h mh br mut rule: combine_loop.induct)
  case (1 inner ml c l h mh br mut)
  note step = 1(3)
  show ?case
  proof (cases "c = 0 \<or> odd c")
    case True
    then show ?thesis using 1(2,4-) by (auto simp: combine_loop.simps [of _ _ c])
  next
    case False
    then have c: "0 < c" "even c" by auto
    note s = step [OF 1(4) c]
    have h: "Hash [inner ! l, h] = CalcHash xs (Suc l) (c div 2 - 1)"
      unfolding s [THEN conjunct1] 1(6) by (rule CalcHash_even [symmetric]) (use s c in auto)
    have "P c' l' \<and> odd c' \<and> Suc l \<le> l' \<and> h' = CalcHash xs l' (c' - 1)"
    proof (rule 1(1) [OF False _ step])
      show "combine_loop inner ml (c div 2) (Suc l) (Hash [inner ! l, h]) (mh \<or> ml = int l)
          (if mh then br @ [inner ! l] else if ml = int l then br @ [h] else br) (mut \<or> inner ! l = h) =
          (c', l', h', mh', br', mut')"
        using 1(2) False by (simp add: combine_loop.simps [of _ _ c])
    qed (use s h c in \<open>auto elim: evenE\<close>)
    then show ?thesis by simp
  qed
qed

lemma combine_loop_branch:
  assumes "combine_loop inner ml c l h mh br mut = (c', l', h', mh', br', mut')"
    and "\<And>c l. P c l \<Longrightarrow> 0 < c \<Longrightarrow> even c \<Longrightarrow>
      inner ! l = CalcHash xs l (c - 2) \<and> c \<le> CalcTreeWidth (length xs) l \<and> P (c div 2) (Suc l)"
    and "\<And>c l. P c l \<Longrightarrow> 0 < c \<Longrightarrow> even c \<Longrightarrow> ml = int l \<Longrightarrow> branch_to xs p l br0 \<and> p div 2 ^ l = c - 2"
    and "P c l" "0 < c" "h = CalcHash xs l (c - 1)"
    and "mh \<Longrightarrow> branch_to xs p l br \<and> p div 2 ^ l = c - 1"
    and "\<not> mh \<Longrightarrow> br = br0"
  shows "(mh' \<longrightarrow> branch_to xs p l' br' \<and> p div 2 ^ l' = c' - 1) \<and>
    (\<not> mh' \<longrightarrow> \<not> mh \<and> br' = br0 \<and> (\<forall>k. l \<le> k \<and> k < l' \<longrightarrow> ml \<noteq> int k))"
  using assms
proof (induction inner ml c l h mh br mut rule: combine_loop.induct)
  case (1 inner ml c l h mh br mut)
  note step = 1(3) and found = 1(4)
  show ?case
  proof (cases "c = 0 \<or> odd c")
    case True
    then show ?thesis using 1(2,5-) by (simp add: combine_loop.simps [of _ _ c])
  next
    case False
    then have c: "0 < c" "even c" by auto
    note s = step [OF 1(5) c]
    have h: "Hash [inner ! l, h] = CalcHash xs (Suc l) (c div 2 - 1)"
      unfolding s [THEN conjunct1] 1(7) by (rule CalcHash_even [symmetric]) (use s c in auto)
    define br1 where "br1 = (if mh then br @ [inner ! l] else if ml = int l then br @ [h] else br)"
    have match: "branch_to xs p (Suc l) br1 \<and> p div 2 ^ Suc l = c div 2 - 1" if "mh \<or> ml = int l"
    proof (cases mh)
      case True
      then show ?thesis using branch_to_left [of xs p l br c] 1(8) c s by (simp add: br1_def)
    next
      case False
      then show ?thesis using branch_to_right [of xs p l br0 c] found [OF 1(5) c] 1(7,9) c s that
        by (simp add: br1_def)
    qed
    have "(mh' \<longrightarrow> branch_to xs p l' br' \<and> p div 2 ^ l' = c' - 1) \<and>
        (\<not> mh' \<longrightarrow> \<not> (mh \<or> ml = int l) \<and> br' = br0 \<and> (\<forall>k. Suc l \<le> k \<and> k < l' \<longrightarrow> ml \<noteq> int k))"
    proof (rule 1(1) [OF False _ step found])
      show "combine_loop inner ml (c div 2) (Suc l) (Hash [inner ! l, h]) (mh \<or> ml = int l)
          (if mh then br @ [inner ! l] else if ml = int l then br @ [h] else br) (mut \<or> inner ! l = h) =
          (c', l', h', mh', br', mut')"
        using 1(2) False by (simp add: combine_loop.simps [of _ _ c])
      show "P (c div 2) (Suc l)" "Hash [inner ! l, h] = CalcHash xs (Suc l) (c div 2 - 1)" "0 < c div 2"
        using s h c by (auto elim: evenE)
    qed (use match 1(9) in \<open>auto simp: br1_def\<close>)
    moreover have "k = l \<or> Suc l \<le> k" if "l \<le> k" for k using that by auto
    ultimately show ?thesis by blast
  qed
qed

subsection \<open>The leaves\<close>

lemma pred_div:
  assumes "0 < (c :: nat)"
  shows "(c - 1) div 2 ^ l = (if 2 ^ l dvd c then c div 2 ^ l - 1 else c div 2 ^ l)"
  using assms div_Suc [of "c - 1" "2 ^ l"] by (auto simp: dvd_eq_mod_eq_0)

text \<open>The hashes of the levels after some leaves.\<close>

definition levels_ok :: "uint256 list \<Rightarrow> nat \<Rightarrow> uint256 list \<Rightarrow> bool" where
  "levels_ok xs cnt inner \<longleftrightarrow> length inner = 32 \<and>
     (\<forall>l. odd (cnt div 2 ^ l) \<longrightarrow> inner ! l = CalcHash xs l (cnt div 2 ^ l - 1))"

text \<open>Where the match stands after some leaves.\<close>

definition match_ok :: "uint256 list \<Rightarrow> nat \<Rightarrow> nat \<Rightarrow> int \<Rightarrow> uint256 list \<Rightarrow> bool" where
  "match_ok xs p cnt ml br \<longleftrightarrow>
     (if p < cnt then \<exists>m. ml = int m \<and> odd (cnt div 2 ^ m) \<and> p div 2 ^ m = cnt div 2 ^ m - 1 \<and> branch_to xs p m br
      else ml = - 1 \<and> br = [])"

lemma mult_pow_div: "c * 2 ^ l = (n :: nat) \<Longrightarrow> n div 2 ^ l = c \<and> 2 ^ l dvd n"
  by auto

lemma odd_power_dvd:
  assumes "c * 2 ^ k = (n :: nat)" "odd c" "k < l"
  shows "\<not> 2 ^ l dvd n"
proof
  assume "2 ^ l dvd n"
  moreover have "(2 :: nat) ^ Suc k dvd 2 ^ l" using assms(3) by (intro le_imp_power_dvd) simp
  ultimately have "2 * 2 ^ k dvd c * 2 ^ k" unfolding assms(1) by (metis dvd_trans power_Suc)
  then show False using assms(2) by simp
qed

text \<open>The subtrees to the left of a level with an even number of subtrees are stored there.\<close>

lemma leaf_levels_step:
  assumes "levels_ok xs cnt inner" "cnt < length xs" "c * 2 ^ l = Suc cnt" "0 < c" "even c"
  shows "inner ! l = CalcHash xs l (c - 2) \<and> c \<le> CalcTreeWidth (length xs) l \<and> c div 2 * 2 ^ Suc l = Suc cnt \<and>
    cnt div 2 ^ l = c - 1"
proof -
  note d = mult_pow_div [OF assms(3)]
  have cnt: "cnt div 2 ^ l = c - 1" using pred_div [of "Suc cnt" l] d by simp
  have "odd (cnt div 2 ^ l)" using cnt assms(4,5) by simp
  then have "inner ! l = CalcHash xs l (cnt div 2 ^ l - 1)" using assms(1) by (simp add: levels_ok_def)
  moreover have "c \<le> length xs div 2 ^ l" using assms(2,3) d by (metis Suc_leI div_le_mono)
  moreover have "c div 2 * 2 ^ Suc l = Suc cnt" using assms(3,5) by (auto elim: evenE)
  ultimately show ?thesis using cnt by (simp add: CalcTreeWidth_div numeral_2_eq_2)
qed

lemma level_below_32: "c' * 2 ^ l' = Suc cnt \<Longrightarrow> cnt < length xs \<Longrightarrow> length xs < 2 ^ 32 \<Longrightarrow> l' < (32 :: nat)"
proof -
  assume a: "c' * 2 ^ l' = Suc cnt" "cnt < length xs" "length xs < 2 ^ 32"
  then have "(2 :: nat) ^ l' \<le> Suc cnt" by (metis dvd_imp_le dvd_triv_right zero_less_Suc)
  then have "(2 :: nat) ^ l' < 2 ^ 32" using a by linarith
  then show ?thesis by (simp only: power_strict_increasing_iff one_less_numeral_iff semiring_norm)
qed

lemma levels_ok_update:
  assumes "levels_ok xs cnt inner" "c' * 2 ^ l' = Suc cnt" "odd c'" "l' < 32"
  shows "levels_ok xs (Suc cnt) (inner[l' := CalcHash xs l' (c' - 1)])"
proof -
  note d = mult_pow_div [OF assms(2)]
  have "inner[l' := CalcHash xs l' (c' - 1)] ! l = CalcHash xs l (Suc cnt div 2 ^ l - 1)"
    if odd: "odd (Suc cnt div 2 ^ l)" for l
  proof (cases l l' rule: linorder_cases)
    case less
    then have "Suc cnt = c' * 2 ^ (l' - l) * 2 ^ l" using assms(2) by (simp add: mult.assoc flip: power_add)
    then have "Suc cnt div 2 ^ l = c' * 2 ^ (l' - l)" by (simp only: mult_pow_div)
    then show ?thesis using odd less by simp
  next
    case equal
    then show ?thesis using d assms(1,4) by (simp add: levels_ok_def)
  next
    case greater
    have "\<not> 2 ^ l dvd Suc cnt" by (rule odd_power_dvd [OF assms(2,3) greater])
    then have "cnt div 2 ^ l = Suc cnt div 2 ^ l" using pred_div [of "Suc cnt" l] by simp
    then show ?thesis using odd assms(1) greater by (simp add: levels_ok_def)
  qed
  then show ?thesis using assms(1) by (simp add: levels_ok_def)
qed

lemma merkle_leaf_ok:
  assumes "levels_ok xs cnt (ms_inner s)" "cnt < length xs" "length xs < 2 ^ 32"
  shows "levels_ok xs (Suc cnt) (ms_inner (merkle_leaf p (xs ! cnt) cnt s))"
    and "match_ok xs p cnt (ms_matchlevel s) (ms_branch s) \<Longrightarrow>
      match_ok xs p (Suc cnt) (ms_matchlevel (merkle_leaf p (xs ! cnt) cnt s)) (ms_branch (merkle_leaf p (xs ! cnt) cnt s))"
proof -
  obtain c l h mh br mut where e: "combine_loop (ms_inner s) (ms_matchlevel s) (Suc cnt) 0 (xs ! cnt) (cnt = p)
      (ms_branch s) (ms_mutated s) = (c, l, h, mh, br, mut)" by (rule prod_cases6)
  define P where "P = (\<lambda>c l. c * 2 ^ l = Suc cnt)"
  have step: "ms_inner s ! l = CalcHash xs l (c - 2) \<and> c \<le> CalcTreeWidth (length xs) l \<and> P (c div 2) (Suc l)"
    if "P c l" "0 < c" "even c" for c l
    using leaf_levels_step [OF assms(1,2)] that by (simp add: P_def)
  have start: "P (Suc cnt) 0" "0 < Suc cnt" "xs ! cnt = CalcHash xs 0 (Suc cnt - 1)"
    by (simp_all add: P_def CalcHash.simps)
  have r: "P c l" "odd c" "h = CalcHash xs l (c - 1)"
    using combine_loop_hash [where P = P, OF e step start] by auto
  then have l: "c * 2 ^ l = Suc cnt" "l < 32" using level_below_32 [OF _ assms(2,3)] by (simp_all add: P_def)
  have m: "merkle_leaf p (xs ! cnt) cnt s = \<lparr>ms_inner = (ms_inner s)[l := h],
      ms_matchlevel = (if mh then int l else ms_matchlevel s), ms_branch = br, ms_mutated = mut\<rparr>"
    unfolding merkle_leaf_def e by simp
  show "levels_ok xs (Suc cnt) (ms_inner (merkle_leaf p (xs ! cnt) cnt s))"
    unfolding m r(3) using levels_ok_update [OF assms(1) l(1) r(2) l(2)] by simp
  assume ok: "match_ok xs p cnt (ms_matchlevel s) (ms_branch s)"
  have found: "branch_to xs p l (ms_branch s) \<and> p div 2 ^ l = c - 2"
    if "P c l" "0 < c" "even c" "ms_matchlevel s = int l" for c l
    using ok leaf_levels_step [OF assms(1,2)] that by (auto simp: match_ok_def P_def split: if_splits)
  have b: "(mh \<longrightarrow> branch_to xs p l br \<and> p div 2 ^ l = c - 1) \<and>
      (\<not> mh \<longrightarrow> cnt \<noteq> p \<and> br = ms_branch s \<and> (\<forall>k. 0 \<le> k \<and> k < l \<longrightarrow> ms_matchlevel s \<noteq> int k))"
    by (rule combine_loop_branch [where P = P, OF e step found start])
       (use ok in \<open>auto simp: match_ok_def branch_to_0\<close>)
  show "match_ok xs p (Suc cnt) (ms_matchlevel (merkle_leaf p (xs ! cnt) cnt s)) (ms_branch (merkle_leaf p (xs ! cnt) cnt s))"
  proof (cases mh)
    case True
    note d = mult_pow_div [OF l(1)]
    have "p div 2 ^ l < c" using b True r(2) by (cases c) auto
    then have "p < Suc cnt" unfolding l(1) [symmetric] by (simp add: div_less_iff_less_mult)
    then show ?thesis unfolding m match_ok_def using True b r(2) d by auto
  next
    case False
    have old: "odd (Suc cnt div 2 ^ k) \<and> p div 2 ^ k = Suc cnt div 2 ^ k - 1 \<and> branch_to xs p k br"
      if "ms_matchlevel s = int k" for k
    proof -
      have o: "odd (cnt div 2 ^ k)" "p div 2 ^ k = cnt div 2 ^ k - 1" "branch_to xs p k br"
        using ok that b False by (auto simp: match_ok_def split: if_splits)
      have "cnt div 2 ^ l = c - 1" using pred_div [of "Suc cnt" l] mult_pow_div [OF l(1)] by simp
      then have "k \<noteq> l" using o(1) r(2) by auto
      then have "l < k" using b False that by (metis linorder_neqE_nat zero_le)
      then have "cnt div 2 ^ k = Suc cnt div 2 ^ k"
        using pred_div [of "Suc cnt" k] odd_power_dvd [OF l(1) r(2)] by simp
      then show ?thesis using o by simp
    qed
    then show ?thesis unfolding m using False b ok by (auto simp: match_ok_def split: if_splits)
  qed
qed

lemma merkle_leaves_ok:
  assumes "levels_ok xs cnt (ms_inner s)" "match_ok xs p cnt (ms_matchlevel s) (ms_branch s)"
    and "ys = drop cnt xs" "cnt \<le> length xs" "length xs < 2 ^ 32"
  shows "levels_ok xs (length xs) (ms_inner (merkle_leaves p ys cnt s)) \<and>
    match_ok xs p (length xs) (ms_matchlevel (merkle_leaves p ys cnt s)) (ms_branch (merkle_leaves p ys cnt s))"
  using assms
proof (induction p ys cnt s rule: merkle_leaves.induct)
  case (1 p cnt s)
  then have "cnt = length xs" by simp
  then show ?case using 1 by simp
next
  case (2 p h ys cnt s)
  have c: "cnt < length xs" using 2(4) by (metis drop_eq_Nil2 list.distinct(1) not_le)
  then have h: "h = xs ! cnt" "ys = drop (Suc cnt) xs" using 2(4) by (simp_all add: Cons_nth_drop_Suc [symmetric])
  show ?case unfolding merkle_leaves.simps h(1)
    by (rule 2(1) [unfolded h(1)]) (use merkle_leaf_ok [OF 2(2) c 2(6)] 2(3) c h 2(6) in auto)
qed

subsection \<open>The sweep\<close>

lemma skip_levels_value:
  assumes "skip_levels c l = (c', l')" "0 < c"
  shows "odd c' \<and> l \<le> l' \<and> c' * 2 ^ (l' - l) = c"
  using assms
proof (induction c l rule: skip_levels.induct)
  case (1 c l)
  show ?case
  proof (cases "odd c")
    case True
    then show ?thesis using 1(2) by (simp add: skip_levels.simps)
  next
    case False
    then have "0 < c div 2" using 1(3) by (auto elim: evenE)
    then have "odd c' \<and> Suc l \<le> l' \<and> c' * 2 ^ (l' - Suc l) = c div 2"
      using 1 False by (simp add: skip_levels.simps [of c l])
    moreover have "l' - l = Suc (l' - Suc l)" using calculation by auto
    moreover have "2 * (c div 2) = c" using False by simp
    ultimately show ?thesis by (simp only: power_Suc) (simp add: mult.left_commute)
  qed
qed

lemma tree_height_minimal:
  assumes "CalcTreeWidth n L \<le> 1" "\<forall>k < L. 1 < CalcTreeWidth n k" "l \<le> L"
  shows "tree_height n l = L"
  using assms
proof (induction n l rule: tree_height.induct)
  case (1 n l)
  show ?case
  proof (cases "l = L")
    case False
    then have "l < L" using 1(4) by simp
    then show ?thesis using 1 by (simp add: tree_height.simps [of n l])
  qed (use 1 in \<open>simp add: tree_height.simps\<close>)
qed

text \<open>Where the match stands during the sweep.\<close>

definition sweep_match :: "uint256 list \<Rightarrow> nat \<Rightarrow> int \<Rightarrow> uint256 list \<Rightarrow> nat \<Rightarrow> nat \<Rightarrow> bool \<Rightarrow> uint256 list \<Rightarrow> bool" where
  "sweep_match xs p ml br0 c l mh br \<longleftrightarrow> p < length xs \<and> match_ok xs p (length xs) ml br0 \<and>
     (mh \<longrightarrow> branch_to xs p l br \<and> p div 2 ^ l = c - 1) \<and>
     (\<not> mh \<longrightarrow> br = br0 \<and> (\<forall>m. ml = int m \<longrightarrow> l < m))"

lemma sweep_level:
  assumes "levels_ok xs (length xs) inner" "c = CalcTreeWidth (length xs) l" "\<not> 2 ^ l dvd length xs" "even c" "0 < c"
  shows "length xs div 2 ^ l = c - 1 \<and> inner ! l = CalcHash xs l (c - 2) \<and>
    c div 2 = CalcTreeWidth (length xs) (Suc l) \<and> \<not> 2 ^ Suc l dvd length xs \<and> 1 < c"
proof -
  have n: "length xs div 2 ^ l = c - 1" using assms(2,3) by (simp add: CalcTreeWidth_div)
  moreover have "inner ! l = CalcHash xs l (length xs div 2 ^ l - 1)"
    using assms(1,4,5) n by (simp add: levels_ok_def)
  moreover have "c div 2 = Suc c div 2" using assms(4) by simp
  moreover have "\<not> 2 ^ Suc l dvd length xs" using assms(3) by (metis dvd_mult_right power_Suc)
  ultimately show ?thesis using assms(2,4,5) by (auto simp: CalcTreeWidth_Suc numeral_2_eq_2 elim: evenE)
qed

lemma sweep_ok:
  assumes "levels_ok xs (length xs) inner" "c = CalcTreeWidth (length xs) l" "odd c"
    and "\<forall>k < l. 1 < CalcTreeWidth (length xs) k" "2 ^ l dvd length xs \<longrightarrow> c * 2 ^ l = length xs"
    and "h = CalcHash xs l (c - 1)"
  shows "\<exists>br'. sweep inner ml c l h mh br = (CalcHash xs (tree_height (length xs) 0) 0, br') \<and>
    (sweep_match xs p ml br0 c l mh br \<longrightarrow> branch_to xs p (tree_height (length xs) 0) br')"
  using assms
proof (induction inner ml c l h mh br rule: sweep.induct)
  case (1 inner ml c l h mh br)
  define n where "n = length xs"
  show ?case
  proof (cases "c \<le> 1")
    case True
    then have c: "c = 1" using 1(4) by (cases c) auto
    then have height: "tree_height (length xs) 0 = l" using 1(3,5) by (intro tree_height_minimal) auto
    have "mh" if m: "sweep_match xs p ml br0 c l mh br"
    proof (rule ccontr)
      assume "\<not> mh"
      then obtain k where k: "l < k" "odd (n div 2 ^ k)"
        using m by (auto simp: sweep_match_def match_ok_def n_def)
      have "n div 2 ^ l \<le> 1" using c 1(3) by (simp add: CalcTreeWidth_div n_def split: if_splits)
      moreover have "n div 2 ^ k = n div 2 ^ l div 2 ^ (k - l)"
        using k(1) by (simp add: div_mult2_eq [symmetric] power_add [symmetric])
      moreover have "2 \<le> (2 :: nat) ^ (k - l)" using k(1) self_le_power [of 2 "k - l"] by simp
      ultimately show False using k(2) by (cases "n div 2 ^ l") auto
    qed
    then show ?thesis using c height 1(7) by (auto simp: sweep.simps sweep_match_def)
  next
    case False
    define br1 where "br1 = (if mh then br @ [h] else br)"
    obtain c' l' h' mh' br' mut' where e: "combine_loop inner ml (Suc c div 2) (Suc l) (Hash [h, h]) mh br1 False =
        (c', l', h', mh', br', mut')" by (rule prod_cases6)
    define P where "P = (\<lambda>c l. c = CalcTreeWidth (length xs) l \<and> \<not> 2 ^ l dvd length xs \<and>
      (\<forall>k < l. 1 < CalcTreeWidth (length xs) k))"
    have step: "inner ! l = CalcHash xs l (c - 2) \<and> c \<le> CalcTreeWidth (length xs) l \<and> P (c div 2) (Suc l)"
      if "P c l" "0 < c" "even c" for c l
      using sweep_level [OF 1(2), of c l] that by (auto simp: P_def less_Suc_eq)
    obtain k where k: "c = 2 * k + 1" using 1(4) by (rule oddE)
    have nd: "\<not> 2 ^ Suc l dvd length xs"
      using 1(4,6) odd_power_dvd [of c l "length xs" "Suc l"] by (metis dvd_mult_right lessI power_Suc)
    have k2: "c - 1 = 2 * k" "Suc c div 2 - 1 = k" using k by simp_all
    have start: "P (Suc c div 2) (Suc l)" "0 < Suc c div 2" "Hash [h, h] = CalcHash xs (Suc l) (Suc c div 2 - 1)"
      using 1(3,5) False nd CalcHash_odd_end [of xs l k] k
      unfolding k2 1(7) by (auto simp: P_def CalcTreeWidth_Suc less_Suc_eq)
    have r: "P c' l'" "odd c'" "h' = CalcHash xs l' (c' - 1)"
      using combine_loop_hash [where P = P, OF e step start] by auto
    have match: "sweep_match xs p ml br0 c' l' mh' br'" if m: "sweep_match xs p ml br0 c l mh br"
    proof -
      have found: "branch_to xs p l br0 \<and> p div 2 ^ l = c - 2"
        if "P c l" "0 < c" "even c" "ml = int l" for c l
        using m that sweep_level [OF 1(2), of c l] by (auto simp: sweep_match_def match_ok_def P_def)
      have mh: "branch_to xs p (Suc l) br1 \<and> p div 2 ^ Suc l = Suc c div 2 - 1" if mh
        using m that branch_to_double [of xs p l br c] 1(3,4,7) by (simp add: sweep_match_def br1_def)
      have b: "(mh' \<longrightarrow> branch_to xs p l' br' \<and> p div 2 ^ l' = c' - 1) \<and>
          (\<not> mh' \<longrightarrow> \<not> mh \<and> br' = br0 \<and> (\<forall>k. Suc l \<le> k \<and> k < l' \<longrightarrow> ml \<noteq> int k))"
        by (rule combine_loop_branch [where P = P, OF e step found start mh])
           (use m in \<open>auto simp: sweep_match_def br1_def\<close>)
      have "l' < j" if "\<not> mh'" "ml = int j" for j
      proof -
        have "Suc l \<le> j" "odd (n div 2 ^ j)" using m b that by (auto simp: sweep_match_def match_ok_def n_def)
        moreover have "even (n div 2 ^ l')" using r by (simp add: P_def CalcTreeWidth_div n_def)
        ultimately show ?thesis using b that by (metis linorder_neqE_nat)
      qed
      then show ?thesis using b m by (auto simp: sweep_match_def)
    qed
    have "\<exists>br''. sweep inner ml c' l' h' mh' br' = (CalcHash xs (tree_height (length xs) 0) 0, br'') \<and>
      (sweep_match xs p ml br0 c' l' mh' br' \<longrightarrow> branch_to xs p (tree_height (length xs) 0) br'')"
      by (rule 1(1) [OF False e [symmetric, unfolded br1_def] refl refl refl refl 1(2)])
         (use r in \<open>auto simp: P_def\<close>)
    moreover have "sweep inner ml c l h mh br = sweep inner ml c' l' h' mh' br'"
      using False e by (simp add: sweep.simps [of _ _ c] br1_def)
    ultimately show ?thesis using match by auto
  qed
qed

lemma MerkleComputation_ok:
  assumes "xs \<noteq> []" "length xs < 2 ^ 32"
  shows "fst (MerkleComputation xs p) = CalcHash xs (tree_height (length xs) 0) 0 \<and>
    (p < length xs \<longrightarrow> branch_to xs p (tree_height (length xs) 0) (snd (snd (MerkleComputation xs p))))"
proof -
  define s0 where "s0 = \<lparr>ms_inner = replicate 32 null256, ms_matchlevel = - 1, ms_branch = [], ms_mutated = False\<rparr>"
  define s where "s = merkle_leaves p xs 0 s0"
  obtain c l where c: "skip_levels (length xs) 0 = (c, l)" by (cases "skip_levels (length xs) 0")
  then have k: "odd c" "c * 2 ^ l = length xs" using skip_levels_value [OF c] assms(1) by auto
  have init: "levels_ok xs 0 (ms_inner s0)" "match_ok xs p 0 (ms_matchlevel s0) (ms_branch s0)"
    by (simp_all add: s0_def levels_ok_def match_ok_def)
  have s: "levels_ok xs (length xs) (ms_inner s)" "match_ok xs p (length xs) (ms_matchlevel s) (ms_branch s)"
    unfolding s_def using merkle_leaves_ok [of xs 0 s0 p xs] init assms(2) by simp_all
  note d = mult_pow_div [OF k(2)]
  have w: "1 < CalcTreeWidth (length xs) j" if "j < l" for j
  proof -
    have "c * 2 ^ (l - j) * 2 ^ j = length xs" using k(2) that by (simp add: mult.assoc flip: power_add)
    then have "length xs div 2 ^ j = c * 2 ^ (l - j)" using mult_pow_div by blast
    moreover have "2 \<le> (2 :: nat) ^ (l - j)" using that self_le_power [of 2 "l - j"] by simp
    moreover have "0 < c" using k(1) by (cases c) auto
    ultimately have "1 < length xs div 2 ^ j" by (metis One_nat_def Suc_leI le_trans mult_le_mono1 mult_1 numeral_2_eq_2 Suc_le_lessD)
    then show ?thesis by (simp add: CalcTreeWidth_div)
  qed
  have h: "ms_inner s ! l = CalcHash xs l (c - 1)" using s(1) d k(1) by (auto simp: levels_ok_def)
  obtain br where sw: "sweep (ms_inner s) (ms_matchlevel s) c l (ms_inner s ! l) (ms_matchlevel s = int l) (ms_branch s) =
      (CalcHash xs (tree_height (length xs) 0) 0, br)"
    and b: "sweep_match xs p (ms_matchlevel s) (ms_branch s) c l (ms_matchlevel s = int l) (ms_branch s) \<longrightarrow>
      branch_to xs p (tree_height (length xs) 0) br"
    using sweep_ok [OF s(1) _ k(1) _ _ h, of "ms_matchlevel s" "ms_matchlevel s = int l" "ms_branch s" p "ms_branch s"]
      d k(2) w by (auto simp: CalcTreeWidth_div)
  have "sweep_match xs p (ms_matchlevel s) (ms_branch s) c l (ms_matchlevel s = int l) (ms_branch s)" if pos: "p < length xs"
  proof -
    obtain m where m: "ms_matchlevel s = int m" "odd (length xs div 2 ^ m)"
        "p div 2 ^ m = length xs div 2 ^ m - 1" "branch_to xs p m (ms_branch s)"
      using s(2) pos by (auto simp: match_ok_def)
    have "l \<le> m"
    proof (rule ccontr)
      assume "\<not> l \<le> m"
      then have "c * 2 ^ (l - m) * 2 ^ m = length xs" using k(2) by (simp add: mult.assoc flip: power_add)
      then have "length xs div 2 ^ m = c * 2 ^ (l - m)" using mult_pow_div by blast
      then show False using m(2) \<open>\<not> l \<le> m\<close> by simp
    qed
    then show ?thesis using pos s(2) m d by (auto simp: sweep_match_def)
  qed
  moreover have "MerkleComputation xs p = (CalcHash xs (tree_height (length xs) 0) 0, ms_mutated s, br)"
    using assms(1) sw by (simp add: MerkleComputation_def Let_def c s_def s0_def)
  ultimately show ?thesis using b by simp
qed

subsection \<open>Partial trees give the matches back\<close>

text \<open>The leaves under a node, and the matched ones among them.\<close>

definition leaves_under :: "nat \<Rightarrow> nat \<Rightarrow> nat \<Rightarrow> nat list" where
  "leaves_under n hgt pos = [pos * 2 ^ hgt ..< min ((pos + 1) * 2 ^ hgt) n]"

definition matched_under :: "uint256 list \<Rightarrow> bool list \<Rightarrow> nat \<Rightarrow> nat \<Rightarrow> uint256 list" where
  "matched_under xs vMatch hgt pos = map (\<lambda>p. xs ! p) (filter (\<lambda>p. vMatch ! p) (leaves_under (length xs) hgt pos))"

lemma width_leaves: "pos < CalcTreeWidth n hgt \<longleftrightarrow> pos * 2 ^ hgt < n"
proof -
  have "pos < CalcTreeWidth n hgt \<longleftrightarrow> Suc pos * 2 ^ hgt \<le> n + 2 ^ hgt - 1"
    unfolding CalcTreeWidth_def Suc_le_eq [symmetric] by (rule less_eq_div_iff_mult_less_eq) simp
  also have "\<dots> \<longleftrightarrow> pos * 2 ^ hgt < n"
    using zero_less_power [of "2 :: nat" hgt] by (simp, linarith)
  finally show ?thesis .
qed

lemma upt_join: "i \<le> j \<Longrightarrow> j \<le> k \<Longrightarrow> [i ..< j] @ [j ..< k] = [i ..< k]"
  by (metis le_add_diff_inverse upt_add_eq_append)

lemma leaves_under_Suc:
  "leaves_under n (Suc hgt) pos = leaves_under n hgt (pos * 2) @
    (if pos * 2 + 1 < CalcTreeWidth n hgt then leaves_under n hgt (pos * 2 + 1) else [])"
proof (cases "pos * 2 + 1 < CalcTreeWidth n hgt")
  case True
  then have "(pos * 2 + 1) * 2 ^ hgt < n" by (simp only: width_leaves)
  then have "leaves_under n hgt (pos * 2) = [pos * 2 * 2 ^ hgt ..< (pos * 2 + 1) * 2 ^ hgt]"
    by (simp add: leaves_under_def min_def)
  moreover have "[pos * 2 * 2 ^ hgt ..< (pos * 2 + 1) * 2 ^ hgt] @
      [(pos * 2 + 1) * 2 ^ hgt ..< min ((pos * 2 + 2) * 2 ^ hgt) n] = [pos * 2 * 2 ^ hgt ..< min ((pos * 2 + 2) * 2 ^ hgt) n]"
    using \<open>(pos * 2 + 1) * 2 ^ hgt < n\<close> by (intro upt_join) auto
  ultimately show ?thesis using True by (simp add: leaves_under_def algebra_simps)
next
  case False
  then have "n \<le> (pos * 2 + 1) * 2 ^ hgt" by (simp only: width_leaves not_less)
  then have "min ((pos * 2 + 1) * 2 ^ hgt) n = n" "min ((pos * 2 + 2) * 2 ^ hgt) n = n" by auto
  then show ?thesis using False by (simp add: leaves_under_def algebra_simps)
qed

lemma no_match_under: "\<not> fParentOfMatch (length xs) vMatch hgt pos \<Longrightarrow> matched_under xs vMatch hgt pos = []"
  by (auto simp: fParentOfMatch_def matched_under_def leaves_under_def list_ex_iff filter_empty_conv)

text \<open>No two neighbouring subtrees have the same hash.\<close>

definition distinct_siblings :: "uint256 list \<Rightarrow> bool" where
  "distinct_siblings xs \<longleftrightarrow> (\<forall>hgt pos. pos * 2 + 1 < CalcTreeWidth (length xs) hgt \<longrightarrow>
     CalcHash xs hgt (pos * 2 + 1) \<noteq> CalcHash xs hgt (pos * 2))"

lemma TraverseAndBuild_sizes:
  assumes "TraverseAndBuild xs vMatch hgt pos = (bits, hashes)" "pos < CalcTreeWidth (length xs) hgt"
  shows "length hashes \<le> length (leaves_under (length xs) hgt pos) \<and> length hashes \<le> length bits"
  using assms
proof (induction hgt arbitrary: pos bits hashes)
  case 0
  then show ?case by (auto simp: leaves_under_def)
next
  case (Suc hgt)
  have left: "pos * 2 < CalcTreeWidth (length xs) hgt"
    using Suc.prems(2) by (simp add: width_leaves mult.assoc)
  have one: "1 \<le> length (leaves_under (length xs) (Suc hgt) pos)"
    using Suc.prems(2) unfolding width_leaves leaves_under_def by (auto simp: min_def)
  obtain b1 h1 where l: "TraverseAndBuild xs vMatch hgt (pos * 2) = (b1, h1)" by fastforce
  obtain b2 h2 where r: "TraverseAndBuild xs vMatch hgt (pos * 2 + 1) = (b2, h2)" by fastforce
  note IH = Suc.IH [OF l left] Suc.IH [OF r]
  show ?case using Suc.prems(1) one IH l r unfolding leaves_under_Suc
    by (auto split: if_splits)
qed

lemma TraverseAndExtract_of_build:
  assumes "TraverseAndBuild xs vMatch hgt pos = (bits, hashes)" "pos < CalcTreeWidth (length xs) hgt"
    and "distinct_siblings xs"
    and "nTransactions t = length xs" "vBits t = bs1 @ bits @ bs2" "vHash t = hs1 @ hashes @ hs2"
    and "nBitsUsed s = length bs1" "nHashUsed s = length hs1"
  shows "TraverseAndExtract t hgt pos s = (CalcHash xs hgt pos,
    s\<lparr>nBitsUsed := length bs1 + length bits, nHashUsed := length hs1 + length hashes,
      ex_vMatch := ex_vMatch s @ matched_under xs vMatch hgt pos\<rparr>)"
  using assms(1,2,5-8)
proof (induction hgt arbitrary: pos bits hashes bs1 bs2 hs1 hs2 s)
  case 0
  then have "pos < length xs" by simp
  then show ?case using 0
    by (auto simp: extract_hash_def Let_def fParentOfMatch_def matched_under_def leaves_under_def nth_append
        CalcHash.simps list_ex_iff)
next
  case (Suc hgt)
  have left: "pos * 2 < CalcTreeWidth (length xs) hgt"
    using Suc.prems(2) by (simp add: width_leaves mult.assoc)
  show ?case
  proof (cases "fParentOfMatch (length xs) vMatch (Suc hgt) pos")
    case False
    then show ?thesis using Suc.prems no_match_under [OF False]
      by (auto simp: extract_hash_def Let_def nth_append)
  next
    case True
    obtain b1 h1 where l: "TraverseAndBuild xs vMatch hgt (pos * 2) = (b1, h1)" by fastforce
    obtain b2 h2 where r: "TraverseAndBuild xs vMatch hgt (pos * 2 + 1) = (b2, h2)" by fastforce
    define right where "right = (pos * 2 + 1 < CalcTreeWidth (length xs) hgt)"
    define b3 where "b3 = (if right then b2 else [])"
    define h3 where "h3 = (if right then h2 else [])"
    have bh: "bits = True # b1 @ b3" "hashes = h1 @ h3"
      using Suc.prems(1) True l r by (auto simp: b3_def h3_def right_def split: if_splits)
    define s1 where "s1 = s\<lparr>nBitsUsed := nBitsUsed s + 1\<rparr>"
    define s2 where "s2 = s1\<lparr>nBitsUsed := length (bs1 @ [True]) + length b1, nHashUsed := length hs1 + length h1,
        ex_vMatch := ex_vMatch s1 @ matched_under xs vMatch hgt (pos * 2)\<rparr>"
    have e1: "TraverseAndExtract t hgt (pos * 2) s1 = (CalcHash xs hgt (pos * 2), s2)"
      unfolding s2_def by (rule Suc.IH [OF l left, of _ "b3 @ bs2" _ "h3 @ hs2"])
        (use Suc.prems bh in \<open>simp_all add: s1_def\<close>)
    have e2: "TraverseAndExtract t hgt (pos * 2 + 1) s2 = (CalcHash xs hgt (pos * 2 + 1),
        s2\<lparr>nBitsUsed := length (bs1 @ True # b1) + length b2, nHashUsed := length (hs1 @ h1) + length h2,
          ex_vMatch := ex_vMatch s2 @ matched_under xs vMatch hgt (pos * 2 + 1)\<rparr>)" if right
      by (rule Suc.IH [OF r, of _ bs2 _ hs2])
        (use Suc.prems bh that in \<open>simp_all add: s2_def s1_def right_def b3_def h3_def\<close>)
    have bit: "vBits t ! nBitsUsed s" "nBitsUsed s < length (vBits t)"
      using Suc.prems bh by (simp_all add: nth_append)
    have step: "TraverseAndExtract t (Suc hgt) pos s =
        (let (left, s) = TraverseAndExtract t hgt (pos * 2) s1 in
          if pos * 2 + 1 < CalcTreeWidth (nTransactions t) hgt
          then let (right, s) = TraverseAndExtract t hgt (pos * 2 + 1) s;
                   s = (if right = left then s\<lparr>ex_fBad := True\<rparr> else s)
            in (Hash [left, right], s)
          else (Hash [left, left], s))"
      using bit by (simp add: s1_def Let_def)
    have m: "matched_under xs vMatch (Suc hgt) pos = matched_under xs vMatch hgt (pos * 2) @
        (if right then matched_under xs vMatch hgt (pos * 2 + 1) else [])"
      unfolding matched_under_def leaves_under_Suc right_def by simp
    show ?thesis
    proof (cases right)
      case R: True
      then have "CalcHash xs hgt (pos * 2 + 1) \<noteq> CalcHash xs hgt (pos * 2)"
        using assms(3) by (simp add: distinct_siblings_def right_def)
      moreover have "Suc (pos * 2) < CalcTreeWidth (length xs) hgt" using R by (simp add: right_def)
      ultimately show ?thesis unfolding step e1 m using e2 R assms(4) bh
        by (simp add: CalcHash.simps(2) [of xs hgt pos] Let_def s2_def s1_def b3_def h3_def)
    next
      case R: False
      moreover from R have "\<not> Suc (pos * 2) < CalcTreeWidth (length xs) hgt" by (simp add: right_def)
      ultimately show ?thesis unfolding step e1 m using assms(4) bh
        by (simp add: CalcHash.simps(2) [of xs hgt pos] Let_def s2_def s1_def b3_def h3_def)
    qed
  qed
qed

lemma tree_height_width: "CalcTreeWidth n (tree_height n l) \<le> 1"
  by (induction n l rule: tree_height.induct) (simp add: tree_height.simps)

text \<open>The bits may be padded up to a whole byte, as they are when the tree has been sent.\<close>

definition padded_tree :: "CPartialMerkleTree \<Rightarrow> bool list \<Rightarrow> CPartialMerkleTree" where
  "padded_tree t pad = t\<lparr>vBits := vBits t @ pad\<rparr>"

lemma ExtractMatches_of_build:
  assumes "xs \<noteq> []" "length xs \<le> MAX_BLOCK_SIZE div 60" "distinct_siblings xs"
    and t: "t = padded_tree (CPartialMerkleTree_of xs vMatch) pad"
    and pad: "(length (vBits t) + 7) div 8 = (length (vBits (CPartialMerkleTree_of xs vMatch)) + 7) div 8"
  shows "ExtractMatches t = (CalcHash xs (tree_height (length xs) 0) 0,
     map (\<lambda>p. xs ! p) (filter (\<lambda>p. vMatch ! p) [0 ..< length xs]), t)"
proof -
  define hgt where "hgt = tree_height (length xs) 0"
  obtain bits hashes where b: "TraverseAndBuild xs vMatch hgt 0 = (bits, hashes)" by fastforce
  have f: "nTransactions t = length xs" "vBits t = bits @ pad" "vHash t = hashes" "fBad t = False" "t\<lparr>fBad := False\<rparr> = t"
    using b by (simp_all add: t CPartialMerkleTree_of_def hgt_def padded_tree_def)
  have pos: "0 < CalcTreeWidth (length xs) hgt" using assms(1) by (simp add: width_leaves)
  have "\<not> 1 * 2 ^ hgt < length xs"
    using tree_height_width [of "length xs" 0] unfolding width_leaves [symmetric] hgt_def by simp
  then have leaves: "leaves_under (length xs) hgt 0 = [0 ..< length xs]"
    by (simp add: leaves_under_def min_def)
  have sizes: "length hashes \<le> length xs" "length hashes \<le> length bits"
    using TraverseAndBuild_sizes [OF b pos] unfolding leaves by auto
  have e: "TraverseAndExtract t hgt 0 \<lparr>nBitsUsed = 0, nHashUsed = 0, ex_vMatch = [], ex_fBad = False\<rparr> =
    (CalcHash xs hgt 0, \<lparr>nBitsUsed = length bits, nHashUsed = length hashes,
      ex_vMatch = matched_under xs vMatch hgt 0, ex_fBad = False\<rparr>)"
    using TraverseAndExtract_of_build [OF b pos assms(3), of t "[]" pad "[]" "[]"
      "\<lparr>nBitsUsed = 0, nHashUsed = 0, ex_vMatch = [], ex_fBad = False\<rparr>"] f by simp
  have "(length bits + length pad + 7) div 8 = (length bits + 7) div 8"
    using pad b f(2) by (simp add: CPartialMerkleTree_of_def hgt_def)
  then show ?thesis unfolding ExtractMatches_def Let_def f hgt_def [symmetric] e
    using assms(1,2) sizes leaves f(5) by (simp add: matched_under_def)
qed

lemma CalcHash_top:
  assumes "xs \<noteq> []" "length xs \<le> MAX_BLOCK_SIZE div 60"
  shows "CalcHash xs (tree_height (length xs) 0) 0 = fst (ComputeMerkleRoot xs)"
  using MerkleComputation_ok [OF assms(1), of "2 ^ 64 - 1"] assms(2)
  by (simp add: ComputeMerkleRoot_def case_prod_beta MAX_BLOCK_SIZE_def)

subsection \<open>What the trees guarantee\<close>

text \<open>
  C17. The constant-space computation of a Merkle root, for any non-empty list of fewer than
  \<open>2 ^ 32\<close> leaves, gives the hash that the recursion over the whole tree (\<open>CalcHash\<close>) gives at
  its top.
\<close>

theorem ComputeMerkleRoot_is_tree:
  assumes "leaves \<noteq> []" "length leaves < 2 ^ 32"
  shows "fst (ComputeMerkleRoot leaves) = CalcHash leaves (tree_height (length leaves) 0) 0"
  using MerkleComputation_ok [OF assms, of "2 ^ 64 - 1"]
  by (simp add: ComputeMerkleRoot_def case_prod_beta)

lemma ComputeMerkleRoot_is_tree_witness:
  "fst (ComputeMerkleRoot [replicate 32 1, replicate 32 2, replicate 32 3]) =
    CalcHash [replicate 32 1, replicate 32 2, replicate 32 3] (tree_height 3 0) 0"
  using ComputeMerkleRoot_is_tree [of "[replicate 32 1, replicate 32 2, replicate 32 3]"] by (simp add: numeral_3_eq_3)

text \<open>
  The branch that is computed for a position leads from the leaf there to the root: every
  transaction of a block can be proved to be in it.
\<close>

theorem ComputeMerkleBranch_proves_leaf:
  assumes "position < length leaves" "length leaves < 2 ^ 32"
  shows "ComputeMerkleRootFromBranch (leaves ! position) (ComputeMerkleBranch leaves position) position =
    fst (ComputeMerkleRoot leaves)"
proof -
  have ne: "leaves \<noteq> []" using assms(1) by auto
  have "position < 2 ^ tree_height (length leaves) 0"
    using tree_height_width [of "length leaves" 0] assms(1) width_leaves [of 1 "length leaves" "tree_height (length leaves) 0"]
    by simp
  then show ?thesis
    using MerkleComputation_ok [OF ne assms(2), of position] MerkleComputation_ok [OF ne assms(2), of "2 ^ 64 - 1"] assms(1)
    by (simp add: ComputeMerkleRoot_def ComputeMerkleBranch_def branch_to_def case_prod_beta)
qed

lemma ComputeMerkleBranch_proves_leaf_witness:
  "ComputeMerkleRootFromBranch (replicate 32 2)
     (ComputeMerkleBranch [replicate 32 1, replicate 32 2, replicate 32 3] 1) 1 =
   fst (ComputeMerkleRoot [replicate 32 1, replicate 32 2, replicate 32 3])"
  using ComputeMerkleBranch_proves_leaf [of 1 "[replicate 32 1, replicate 32 2, replicate 32 3]"] by simp

end
