(* ===== verification/Bloom.thy ===== *)
theory Bloom
  imports Merkle Standard
begin

text \<open>
  Bloom filters (\<open>bloom.h\<close>, \<open>bloom.cpp\<close>) and the Merkle blocks that are sent to the clients that
  use them (\<open>merkleblock.h\<close>, \<open>merkleblock.cpp\<close>).  The reduction of a hash by the number of bits is
  a division: \<open>None\<close> where the filter has no bits.  The sizes that the constructors compute in
  floating point are arguments.
\<close>

unbundle bit_operations_syntax

subsection \<open>The filter\<close>

definition MAX_BLOOM_FILTER_SIZE :: nat where "MAX_BLOOM_FILTER_SIZE = 36000"
definition MAX_HASH_FUNCS :: nat where "MAX_HASH_FUNCS = 50"

definition BLOOM_UPDATE_NONE :: u8 where "BLOOM_UPDATE_NONE = 0"
definition BLOOM_UPDATE_ALL :: u8 where "BLOOM_UPDATE_ALL = 1"
definition BLOOM_UPDATE_P2PUBKEY_ONLY :: u8 where "BLOOM_UPDATE_P2PUBKEY_ONLY = 2"
definition BLOOM_UPDATE_MASK :: u8 where "BLOOM_UPDATE_MASK = 3"

record CBloomFilter =
  vData :: bytes
  isFull :: bool
  isEmpty :: bool
  nHashFuncs :: u32
  nTweak :: u32
  nFlags :: u8

text \<open>\<open>bits\<close> and \<open>funcs\<close> stand for the two floating-point formulas.\<close>

definition CBloomFilter_of :: "nat \<Rightarrow> (nat \<Rightarrow> nat) \<Rightarrow> u32 \<Rightarrow> u8 \<Rightarrow> CBloomFilter" where
  "CBloomFilter_of bits funcs nTweakIn nFlagsIn =
     (let vd = replicate (min bits (MAX_BLOOM_FILTER_SIZE * 8) div 8) 0
      in \<lparr>vData = vd, isFull = False, isEmpty = False,
          nHashFuncs = of_nat (min (funcs (length vd)) MAX_HASH_FUNCS), nTweak = nTweakIn, nFlags = nFlagsIn\<rparr>)"

definition CBloomFilter_unbounded :: "nat \<Rightarrow> (nat \<Rightarrow> nat) \<Rightarrow> u32 \<Rightarrow> CBloomFilter" where
  "CBloomFilter_unbounded bits funcs nTweakIn =
     (let vd = replicate (bits div 8) 0
      in \<lparr>vData = vd, isFull = False, isEmpty = True, nHashFuncs = of_nat (funcs (length vd)),
          nTweak = nTweakIn, nFlags = BLOOM_UPDATE_NONE\<rparr>)"

definition CBloomFilter_default :: CBloomFilter where
  "CBloomFilter_default =
     \<lparr>vData = [], isFull = True, isEmpty = False, nHashFuncs = 0, nTweak = 0, nFlags = 0\<rparr>"

definition Serialize_CBloomFilter :: "CBloomFilter \<Rightarrow> bytes" where
  "Serialize_CBloomFilter f =
     Serialize_bytes (vData f) @ Serialize_u32 (nHashFuncs f) @ Serialize_u32 (nTweak f) @
     ser_writedata8 (unat (nFlags f))"

text \<open>Reading sets four members and leaves the two flags as they are.\<close>

definition Unserialize_CBloomFilter :: "CBloomFilter \<Rightarrow> CBloomFilter reader" where
  "Unserialize_CBloomFilter f =
     rd_then Unserialize_bytes (\<lambda>d. rd_then Unserialize_u32 (\<lambda>h. rd_then Unserialize_u32 (\<lambda>t.
     rd_then ser_readdata8 (\<lambda>g.
       rd_return (f\<lparr>vData := d, nHashFuncs := h, nTweak := t, nFlags := of_nat g\<rparr>)))))"

definition bloom_Hash :: "CBloomFilter \<Rightarrow> nat \<Rightarrow> bytes \<Rightarrow> nat option" where
  "bloom_Hash f nHashNum vDataToHash =
     (if length (vData f) * 8 = 0 then None
      else Some (unat (MurmurHash3 (of_nat nHashNum * 0xFBA4C795 + nTweak f) vDataToHash) mod (length (vData f) * 8)))"

definition set_bit_of :: "CBloomFilter \<Rightarrow> nat \<Rightarrow> CBloomFilter" where
  "set_bit_of f nIndex =
     f\<lparr>vData := (vData f)[nIndex div 8 := vData f ! (nIndex div 8) OR push_bit (nIndex mod 8) 1]\<rparr>"

definition bit_of :: "CBloomFilter \<Rightarrow> nat \<Rightarrow> bool" where
  "bit_of f nIndex \<longleftrightarrow> vData f ! (nIndex div 8) AND push_bit (nIndex mod 8) 1 \<noteq> 0"

text \<open>\<open>k\<close> is what is left of the \<open>nHashFuncs\<close> rounds after round \<open>i\<close>.\<close>

fun insert_loop :: "CBloomFilter \<Rightarrow> bytes \<Rightarrow> nat \<Rightarrow> nat \<Rightarrow> CBloomFilter option" where
  "insert_loop f vKey i 0 = Some f"
| "insert_loop f vKey i (Suc k) =
     (case bloom_Hash f i vKey of
        None \<Rightarrow> None
      | Some nIndex \<Rightarrow> insert_loop (set_bit_of f nIndex) vKey (i + 1) k)"

definition bloom_insert :: "CBloomFilter \<Rightarrow> bytes \<Rightarrow> CBloomFilter option" where
  "bloom_insert f vKey =
     (if isFull f then Some f
      else map_option (\<lambda>f. f\<lparr>isEmpty := False\<rparr>) (insert_loop f vKey 0 (unat (nHashFuncs f))))"

fun contains_loop :: "CBloomFilter \<Rightarrow> bytes \<Rightarrow> nat \<Rightarrow> nat \<Rightarrow> bool option" where
  "contains_loop f vKey i 0 = Some True"
| "contains_loop f vKey i (Suc k) =
     (case bloom_Hash f i vKey of
        None \<Rightarrow> None
      | Some nIndex \<Rightarrow> if \<not> bit_of f nIndex then Some False else contains_loop f vKey (i + 1) k)"

definition bloom_contains :: "CBloomFilter \<Rightarrow> bytes \<Rightarrow> bool option" where
  "bloom_contains f vKey =
     (if isFull f then Some True
      else if isEmpty f then Some False
      else contains_loop f vKey 0 (unat (nHashFuncs f)))"

definition insert_outpoint :: "CBloomFilter \<Rightarrow> COutPoint \<Rightarrow> CBloomFilter option" where
  "insert_outpoint f outpoint = bloom_insert f (Serialize_COutPoint outpoint)"

definition insert_hash :: "CBloomFilter \<Rightarrow> uint256 \<Rightarrow> CBloomFilter option" where
  "insert_hash f hash = bloom_insert f hash"

definition contains_outpoint :: "CBloomFilter \<Rightarrow> COutPoint \<Rightarrow> bool option" where
  "contains_outpoint f outpoint = bloom_contains f (Serialize_COutPoint outpoint)"

definition contains_hash :: "CBloomFilter \<Rightarrow> uint256 \<Rightarrow> bool option" where
  "contains_hash f hash = bloom_contains f hash"

definition bloom_clear :: "CBloomFilter \<Rightarrow> CBloomFilter" where
  "bloom_clear f = f\<lparr>vData := replicate (length (vData f)) 0, isFull := False, isEmpty := True\<rparr>"

definition bloom_reset :: "CBloomFilter \<Rightarrow> u32 \<Rightarrow> CBloomFilter" where
  "bloom_reset f nNewTweak = (bloom_clear f)\<lparr>nTweak := nNewTweak\<rparr>"

definition IsWithinSizeConstraints :: "CBloomFilter \<Rightarrow> bool" where
  "IsWithinSizeConstraints f \<longleftrightarrow> length (vData f) \<le> MAX_BLOOM_FILTER_SIZE \<and> unat (nHashFuncs f) \<le> MAX_HASH_FUNCS"

definition UpdateEmptyFull :: "CBloomFilter \<Rightarrow> CBloomFilter" where
  "UpdateEmptyFull f = f\<lparr>isFull := list_all (\<lambda>b. b = 0xff) (vData f), isEmpty := list_all (\<lambda>b. b = 0) (vData f)\<rparr>"

subsection \<open>Relevant transactions\<close>

text \<open>The loop over the data elements of a script, up to the first that the filter contains.\<close>

function element_matches :: "CBloomFilter \<Rightarrow> bytes \<Rightarrow> bool option" where
  "element_matches f pc =
     (if pc = [] then Some False
      else case GetOp pc of (r, opcode, data, pc) \<Rightarrow>
        if \<not> r then Some False
        else if length data \<noteq> 0
        then (case bloom_contains f data of
                None \<Rightarrow> None
              | Some found \<Rightarrow> if found then Some True else element_matches f pc)
        else element_matches f pc)"
  by pat_completeness auto
termination by (relation "measure (\<lambda>(_, pc). length pc)") (auto dest: GetOp_shorter [OF sym])

declare element_matches.simps [simp del]

text \<open>What a matching output adds to the filter.\<close>

definition update_output :: "CBloomFilter \<Rightarrow> uint256 \<Rightarrow> nat \<Rightarrow> CScript \<Rightarrow> CBloomFilter option" where
  "update_output f hash i spk =
     (if nFlags f AND BLOOM_UPDATE_MASK = BLOOM_UPDATE_ALL
      then insert_outpoint f \<lparr>op_hash = hash, op_n = of_nat i\<rparr>
      else if nFlags f AND BLOOM_UPDATE_MASK = BLOOM_UPDATE_P2PUBKEY_ONLY
      then (case Solver spk of (r, type, vSolutions) \<Rightarrow>
              if r \<and> (type = TX_PUBKEY \<or> type = TX_MULTISIG)
              then insert_outpoint f \<lparr>op_hash = hash, op_n = of_nat i\<rparr> else Some f)
      else Some f)"

fun match_outputs :: "CBloomFilter \<Rightarrow> uint256 \<Rightarrow> nat \<Rightarrow> CTxOut list \<Rightarrow> bool \<Rightarrow> (bool \<times> CBloomFilter) option" where
  "match_outputs f hash i [] fFound = Some (fFound, f)"
| "match_outputs f hash i (txout # outs) fFound =
     (case element_matches f (scriptPubKey txout) of
        None \<Rightarrow> None
      | Some False \<Rightarrow> match_outputs f hash (i + 1) outs fFound
      | Some True \<Rightarrow>
          (case update_output f hash i (scriptPubKey txout) of
             None \<Rightarrow> None
           | Some f \<Rightarrow> match_outputs f hash (i + 1) outs True))"

fun match_inputs :: "CBloomFilter \<Rightarrow> CTxIn list \<Rightarrow> bool option" where
  "match_inputs f [] = Some False"
| "match_inputs f (txin # ins) =
     (case contains_outpoint f (prevout txin) of
        None \<Rightarrow> None
      | Some True \<Rightarrow> Some True
      | Some False \<Rightarrow>
          (case element_matches f (scriptSig txin) of
             None \<Rightarrow> None
           | Some True \<Rightarrow> Some True
           | Some False \<Rightarrow> match_inputs f ins))"

definition IsRelevantAndUpdate :: "CBloomFilter \<Rightarrow> CTransaction \<Rightarrow> (bool \<times> CBloomFilter) option" where
  "IsRelevantAndUpdate f tx =
     (if isFull f then Some (True, f)
      else if isEmpty f then Some (False, f)
      else let hash = CTransaction_GetHash tx in
        case contains_hash f hash of
          None \<Rightarrow> None
        | Some fFound \<Rightarrow>
            (case match_outputs f hash 0 (vout tx) fFound of
               None \<Rightarrow> None
             | Some (fFound, f) \<Rightarrow>
                 if fFound then Some (True, f)
                 else map_option (\<lambda>found. (found, f)) (match_inputs f (vin tx))))"

subsection \<open>The rolling filter\<close>

record CRollingBloomFilter =
  nBloomSize :: nat
  nInsertions :: nat
  b1 :: CBloomFilter
  b2 :: CBloomFilter

text \<open>\<open>nNewTweak\<close> is the random number.\<close>

definition rolling_reset :: "CRollingBloomFilter \<Rightarrow> u32 \<Rightarrow> CRollingBloomFilter" where
  "rolling_reset r nNewTweak =
     r\<lparr>b1 := bloom_reset (b1 r) nNewTweak, b2 := bloom_reset (b2 r) nNewTweak, nInsertions := 0\<rparr>"

definition CRollingBloomFilter_of :: "nat \<Rightarrow> (nat \<Rightarrow> nat) \<Rightarrow> (nat \<Rightarrow> nat \<Rightarrow> nat) \<Rightarrow> u32 \<Rightarrow> CRollingBloomFilter" where
  "CRollingBloomFilter_of nElements bits funcs nNewTweak =
     (let size = nElements * 2 mod 2 ^ 32; b = CBloomFilter_unbounded (bits size) (funcs size) 0
      in rolling_reset \<lparr>nBloomSize = size, nInsertions = 0, b1 = b, b2 = b\<rparr> nNewTweak)"

definition rolling_insert :: "CRollingBloomFilter \<Rightarrow> bytes \<Rightarrow> CRollingBloomFilter option" where
  "rolling_insert r vKey =
     (let r = (if nInsertions r = 0 then r\<lparr>b1 := bloom_clear (b1 r)\<rparr>
               else if nInsertions r = nBloomSize r div 2 then r\<lparr>b2 := bloom_clear (b2 r)\<rparr>
               else r)
      in case bloom_insert (b1 r) vKey of
           None \<Rightarrow> None
         | Some f1 \<Rightarrow>
             (case bloom_insert (b2 r) vKey of
                None \<Rightarrow> None
              | Some f2 \<Rightarrow>
                  let n = (nInsertions r + 1) mod 2 ^ 32
                  in Some (r\<lparr>b1 := f1, b2 := f2, nInsertions := (if n = nBloomSize r then 0 else n)\<rparr>)))"

definition rolling_contains :: "CRollingBloomFilter \<Rightarrow> bytes \<Rightarrow> bool option" where
  "rolling_contains r vKey =
     (if nInsertions r < nBloomSize r div 2 then bloom_contains (b2 r) vKey else bloom_contains (b1 r) vKey)"

subsection \<open>Partial trees on the wire\<close>

text \<open>\<open>vBytes[p / 8] |= vBits[p] << (p % 8)\<close> from position \<open>p\<close> on.\<close>

fun pack_loop :: "bytes \<Rightarrow> bool list \<Rightarrow> nat \<Rightarrow> bytes" where
  "pack_loop vBytes [] p = vBytes"
| "pack_loop vBytes (b # bits) p =
     pack_loop (vBytes[p div 8 := vBytes ! (p div 8) OR push_bit (p mod 8) (if b then 1 else 0)]) bits (p + 1)"

definition pack_bits :: "bool list \<Rightarrow> bytes" where
  "pack_bits bits = pack_loop (replicate ((length bits + 7) div 8) 0) bits 0"

definition unpack_bits :: "bytes \<Rightarrow> bool list" where
  "unpack_bits vBytes = map (\<lambda>p. vBytes ! (p div 8) AND push_bit (p mod 8) 1 \<noteq> 0) [0 ..< length vBytes * 8]"

definition Serialize_CPartialMerkleTree :: "CPartialMerkleTree \<Rightarrow> bytes" where
  "Serialize_CPartialMerkleTree t =
     Serialize_u32 (of_nat (nTransactions t)) @ Serialize_vector Serialize_blob (vHash t) @
     Serialize_bytes (pack_bits (vBits t))"

definition Unserialize_CPartialMerkleTree :: "CPartialMerkleTree reader" where
  "Unserialize_CPartialMerkleTree =
     rd_then Unserialize_u32 (\<lambda>n. rd_then (Unserialize_vector (Unserialize_blob 256)) (\<lambda>hs.
     rd_then Unserialize_bytes (\<lambda>vBytes.
       rd_return \<lparr>nTransactions = unat n, vBits = unpack_bits vBytes, vHash = hs, fBad = False\<rparr>)))"

subsection \<open>Merkle blocks\<close>

record CMerkleBlock =
  mb_header :: CBlockHeader
  mb_txn :: CPartialMerkleTree
  vMatchedTxn :: "(nat \<times> uint256) list"

fun filter_block :: "CBloomFilter \<Rightarrow> CTransaction list \<Rightarrow> (bool list \<times> CBloomFilter) option" where
  "filter_block f [] = Some ([], f)"
| "filter_block f (tx # txs) =
     (case IsRelevantAndUpdate f tx of
        None \<Rightarrow> None
      | Some (found, f) \<Rightarrow> map_option (\<lambda>(ms, f). (found # ms, f)) (filter_block f txs))"

definition CMerkleBlock_filter :: "CBlock \<Rightarrow> CBloomFilter \<Rightarrow> (CMerkleBlock \<times> CBloomFilter) option" where
  "CMerkleBlock_filter block f =
     map_option (\<lambda>(vMatch, f).
       let vHashes = map CTransaction_GetHash (vtx block)
       in (\<lparr>mb_header = blk_header block, mb_txn = CPartialMerkleTree_of vHashes vMatch,
            vMatchedTxn = map (\<lambda>i. (i, vHashes ! i)) (filter (\<lambda>i. vMatch ! i) [0 ..< length (vtx block)])\<rparr>, f))
     (filter_block f (vtx block))"

definition CMerkleBlock_txids :: "CBlock \<Rightarrow> uint256 set \<Rightarrow> CMerkleBlock" where
  "CMerkleBlock_txids block txids =
     (let vHashes = map CTransaction_GetHash (vtx block)
      in \<lparr>mb_header = blk_header block, mb_txn = CPartialMerkleTree_of vHashes (map (\<lambda>hash. hash \<in> txids) vHashes),
          vMatchedTxn = []\<rparr>)"

definition Serialize_CMerkleBlock :: "CMerkleBlock \<Rightarrow> bytes" where
  "Serialize_CMerkleBlock mb = Serialize_CBlockHeader (mb_header mb) @ Serialize_CPartialMerkleTree (mb_txn mb)"

definition Unserialize_CMerkleBlock :: "CMerkleBlock reader" where
  "Unserialize_CMerkleBlock =
     rd_then Unserialize_CBlockHeader (\<lambda>h. rd_then Unserialize_CPartialMerkleTree (\<lambda>t.
       rd_return \<lparr>mb_header = h, mb_txn = t, vMatchedTxn = []\<rparr>))"

subsection \<open>Bits of the filter\<close>

text \<open>What the filter needs so that no hash is reduced by zero.\<close>

definition bloom_ok :: "CBloomFilter \<Rightarrow> bool" where
  "bloom_ok f \<longleftrightarrow> isFull f \<or> vData f \<noteq> []"

definition in_filter :: "CBloomFilter \<Rightarrow> bytes \<Rightarrow> bool" where
  "in_filter f vKey \<longleftrightarrow> bloom_contains f vKey = Some True"

text \<open>The filter \<open>g\<close> is \<open>f\<close> with more bits set.\<close>

definition grows :: "CBloomFilter \<Rightarrow> CBloomFilter \<Rightarrow> bool" where
  "grows f g \<longleftrightarrow> length (vData g) = length (vData f) \<and> isFull g = isFull f \<and> nHashFuncs g = nHashFuncs f \<and>
     nTweak g = nTweak f \<and> nFlags g = nFlags f \<and> (\<forall>n < length (vData f) * 8. bit_of f n \<longrightarrow> bit_of g n)"

lemma bit_of_iff: "bit_of f n \<longleftrightarrow> bit (vData f ! (n div 8)) (n mod 8)"
  unfolding bit_of_def by (simp add: bit_iff_and_push_bit_not_eq_0)

lemma div8_less: "(n :: nat) < k * 8 \<Longrightarrow> n div 8 < k"
  by (simp add: less_mult_imp_div_less)

lemma bit_of_set_bit:
  assumes "n < length (vData f) * 8" "m < length (vData f) * 8"
  shows "bit_of (set_bit_of f n) m \<longleftrightarrow> m = n \<or> bit_of f m"
proof -
  have "m div 8 = n div 8 \<and> m mod 8 = n mod 8 \<longleftrightarrow> m = n" by (metis div_mult_mod_eq)
  then show ?thesis using div8_less [OF assms(1)] div8_less [OF assms(2)]
    by (auto simp: bit_of_iff set_bit_of_def nth_list_update bit_or_iff bit_exp_iff)
qed

lemma length_set_bit [simp]: "length (vData (set_bit_of f n)) = length (vData f)"
  by (simp add: set_bit_of_def)

lemma bloom_Hash_less: "bloom_Hash f i vKey = Some n \<Longrightarrow> n < length (vData f) * 8"
  by (auto simp: bloom_Hash_def split: if_splits)

lemma bloom_Hash_Some: "vData f \<noteq> [] \<Longrightarrow> \<exists>n. bloom_Hash f i vKey = Some n"
  by (simp add: bloom_Hash_def)

lemma bloom_Hash_grows: "grows f g \<Longrightarrow> bloom_Hash g i vKey = bloom_Hash f i vKey"
  by (simp add: grows_def bloom_Hash_def)

lemma grows_refl: "grows f f"
  by (simp add: grows_def)

lemma grows_trans: "grows f g \<Longrightarrow> grows g h \<Longrightarrow> grows f h"
  by (simp add: grows_def)

lemma grows_set_bit: "n < length (vData f) * 8 \<Longrightarrow> grows f (set_bit_of f n)"
  by (auto simp: grows_def bit_of_set_bit) (simp_all add: set_bit_of_def)

lemma insert_loop_ok:
  "vData f \<noteq> [] \<Longrightarrow> \<exists>g. insert_loop f vKey i k = Some g \<and> grows f g \<and>
     (\<forall>j n. i \<le> j \<and> j < i + k \<and> bloom_Hash f j vKey = Some n \<longrightarrow> bit_of g n)"
proof (induction k arbitrary: f i)
  case 0
  show ?case by (auto simp: grows_refl)
next
  case (Suc k)
  obtain n where n: "bloom_Hash f i vKey = Some n" using bloom_Hash_Some [OF Suc.prems] by blast
  define f' where "f' = set_bit_of f n"
  have lt: "n < length (vData f) * 8" using bloom_Hash_less [OF n] .
  have g1: "grows f f'" using grows_set_bit [OF lt] by (simp add: f'_def)
  have "vData f' \<noteq> []" using Suc.prems by (simp add: f'_def set_bit_of_def)
  then obtain g where g: "insert_loop f' vKey (i + 1) k = Some g" "grows f' g"
      "\<forall>j n. i + 1 \<le> j \<and> j < i + 1 + k \<and> bloom_Hash f' j vKey = Some n \<longrightarrow> bit_of g n"
    using Suc.IH by blast
  have "bit_of f' n" using lt by (simp add: f'_def bit_of_set_bit)
  then have "bit_of g n" using g(2) lt by (simp add: grows_def f'_def)
  moreover have "j = i \<or> i + 1 \<le> j" if "i \<le> j" for j using that by auto
  ultimately have "\<forall>j m. i \<le> j \<and> j < i + Suc k \<and> bloom_Hash f j vKey = Some m \<longrightarrow> bit_of g m"
    using g(3) n unfolding bloom_Hash_grows [OF g1] by (metis add_Suc_right add_Suc_shift option.inject Suc_eq_plus1)
  then show ?case using n g(1) grows_trans [OF g1 g(2)] by (auto simp: f'_def)
qed

lemma contains_loop_value:
  "vData f \<noteq> [] \<Longrightarrow> contains_loop f vKey i k =
     Some (\<forall>j n. i \<le> j \<and> j < i + k \<and> bloom_Hash f j vKey = Some n \<longrightarrow> bit_of f n)"
proof (induction k arbitrary: i)
  case (Suc k)
  obtain n where n: "bloom_Hash f i vKey = Some n" using bloom_Hash_Some [OF Suc.prems] by blast
  have "(\<forall>j m. i \<le> j \<and> j < i + Suc k \<and> bloom_Hash f j vKey = Some m \<longrightarrow> bit_of f m) \<longleftrightarrow>
      bit_of f n \<and> (\<forall>j m. i + 1 \<le> j \<and> j < i + 1 + k \<and> bloom_Hash f j vKey = Some m \<longrightarrow> bit_of f m)"
  proof (intro iffI allI impI conjI)
    fix j m
    assume "bit_of f n \<and> (\<forall>j m. i + 1 \<le> j \<and> j < i + 1 + k \<and> bloom_Hash f j vKey = Some m \<longrightarrow> bit_of f m)"
      and "i \<le> j \<and> j < i + Suc k \<and> bloom_Hash f j vKey = Some m"
    moreover from this have "j = i \<or> i + 1 \<le> j" by auto
    ultimately show "bit_of f m" using n by auto
  next
    assume all: "\<forall>j m. i \<le> j \<and> j < i + Suc k \<and> bloom_Hash f j vKey = Some m \<longrightarrow> bit_of f m"
    show "bit_of f n" using all [rule_format, of i n] n by simp
    fix j m
    assume "i + 1 \<le> j \<and> j < i + 1 + k \<and> bloom_Hash f j vKey = Some m"
    then show "bit_of f m" using all [rule_format, of j m] by simp
  qed
  then show ?case using n Suc by simp
qed auto

lemma bloom_contains_Some: "bloom_ok f \<Longrightarrow> \<exists>b. bloom_contains f vKey = Some b"
  by (auto simp: bloom_ok_def bloom_contains_def contains_loop_value)

text \<open>An insertion succeeds, makes its key a member and keeps every member.\<close>

lemma bloom_insert_ok:
  assumes "bloom_ok f"
  shows "\<exists>g. bloom_insert f vKey = Some g \<and> in_filter g vKey \<and> (\<forall>k. in_filter f k \<longrightarrow> in_filter g k) \<and>
    bloom_ok g \<and> isFull g = isFull f \<and> length (vData g) = length (vData f) \<and> nFlags g = nFlags f"
proof (cases "isFull f")
  case True
  then show ?thesis using assms by (simp add: bloom_insert_def in_filter_def bloom_contains_def)
next
  case False
  with assms have ne: "vData f \<noteq> []" by (simp add: bloom_ok_def)
  obtain g where g: "insert_loop f vKey 0 (unat (nHashFuncs f)) = Some g" "grows f g"
      "\<And>j n. j < unat (nHashFuncs f) \<Longrightarrow> bloom_Hash f j vKey = Some n \<Longrightarrow> bit_of g n"
    using insert_loop_ok [OF ne, of vKey 0 "unat (nHashFuncs f)"] by auto
  define h where "h = g\<lparr>isEmpty := False\<rparr>"
  have e: "bloom_insert f vKey = Some h" using g(1) False by (simp add: bloom_insert_def h_def)
  have fr: "length (vData h) = length (vData f)" "nHashFuncs h = nHashFuncs f" "isFull h = isFull f"
      "nFlags h = nFlags f" "isEmpty h = False"
    using g(2) by (simp_all add: grows_def h_def)
  have hash: "bloom_Hash h j k = bloom_Hash f j k" "bit_of h n = bit_of g n" for j k n
    unfolding bloom_Hash_grows [OF g(2), symmetric] by (simp_all add: h_def bloom_Hash_def bit_of_def)
  have nh: "vData h \<noteq> []" using fr(1) ne by auto
  have c: "in_filter h k \<longleftrightarrow> (\<forall>j n. j < unat (nHashFuncs f) \<and> bloom_Hash f j k = Some n \<longrightarrow> bit_of g n)" for k
    using False fr nh by (simp add: in_filter_def bloom_contains_def contains_loop_value hash)
  have "in_filter h k" if "in_filter f k" for k
  proof -
    have "\<forall>j n. j < unat (nHashFuncs f) \<and> bloom_Hash f j k = Some n \<longrightarrow> bit_of f n"
      using that False ne by (simp add: in_filter_def bloom_contains_def contains_loop_value split: if_splits)
    moreover have "bit_of g n" if "bit_of f n" "bloom_Hash f j k = Some n" for j n
      using g(2) bloom_Hash_less [OF that(2)] that(1) by (simp add: grows_def)
    ultimately show ?thesis unfolding c by blast
  qed
  moreover have "in_filter h vKey" unfolding c using g(3) by blast
  ultimately show ?thesis using e fr nh by (simp add: bloom_ok_def)
qed

lemma bloom_clear_frame [simp]:
  "length (vData (bloom_clear f)) = length (vData f)" "isFull (bloom_clear f) = False"
  "bloom_ok (bloom_clear f) \<longleftrightarrow> vData f \<noteq> []"
  by (simp_all add: bloom_clear_def bloom_ok_def)

subsection \<open>The rolling filter remembers the last elements\<close>

text \<open>
  \<open>hist\<close> lists what was inserted since the last reset, the latest first: how much of it the two
  halves hold at each point of the cycle.
\<close>

definition rolling_inv :: "CRollingBloomFilter \<Rightarrow> bytes list \<Rightarrow> bool" where
  "rolling_inv r hist \<longleftrightarrow>
     (let n = nInsertions r; N = nBloomSize r div 2 in
        nBloomSize r = 2 * N \<and> 0 < N \<and> nBloomSize r < 2 ^ 32 \<and> n < nBloomSize r \<and>
        vData (b1 r) \<noteq> [] \<and> vData (b2 r) \<noteq> [] \<and> \<not> isFull (b1 r) \<and> \<not> isFull (b2 r) \<and>
        list_all (in_filter (b1 r)) (take n hist) \<and>
        list_all (in_filter (b2 r)) (take (if n \<le> N then n + N else n - N) hist))"

lemma list_all_insert:
  assumes "list_all (in_filter f) (take n hist)" "in_filter g k" "\<forall>k. in_filter f k \<longrightarrow> in_filter g k" "m \<le> Suc n"
  shows "list_all (in_filter g) (take m (k # hist))"
proof -
  have "list_all (in_filter g) (take (Suc n) (k # hist))" using assms(1-3) by (auto simp: list_all_iff)
  moreover have "take m (k # hist) = take m (take (Suc n) (k # hist))"
    unfolding take_take using assms(4) by (simp only: min.absorb1)
  ultimately show ?thesis by (metis list_all_iff in_set_takeD)
qed

lemma rolling_insert_ok:
  assumes "rolling_inv r hist"
  shows "\<exists>r'. rolling_insert r vKey = Some r' \<and> rolling_inv r' (vKey # hist) \<and> nBloomSize r' = nBloomSize r"
proof -
  define N where "N = nBloomSize r div 2"
  define n where "n = nInsertions r"
  define f1 where "f1 = (if n = 0 then bloom_clear (b1 r) else b1 r)"
  define f2 where "f2 = (if n \<noteq> 0 \<and> n = N then bloom_clear (b2 r) else b2 r)"
  have I: "nBloomSize r = 2 * N" "0 < N" "2 * N < 2 ^ 32" "n < 2 * N" "vData (b1 r) \<noteq> []" "vData (b2 r) \<noteq> []"
      "\<not> isFull (b1 r)" "\<not> isFull (b2 r)" "list_all (in_filter (b1 r)) (take n hist)"
      "list_all (in_filter (b2 r)) (take (if n \<le> N then n + N else n - N) hist)"
    using assms unfolding rolling_inv_def Let_def N_def n_def by (blast | simp)+
  have c: "vData (bloom_clear f) \<noteq> [] \<longleftrightarrow> vData f \<noteq> []" for f
    by (simp add: bloom_clear_def)
  have f1: "vData f1 \<noteq> []" "\<not> isFull f1" "list_all (in_filter f1) (take n hist)"
    using I c by (simp_all add: f1_def)
  have f2: "vData f2 \<noteq> []" "\<not> isFull f2"
      "list_all (in_filter f2) (take (if n < N then n + N else n - N) hist)"
    using I c by (auto simp: f2_def split: if_splits)
  obtain g1 where g1: "bloom_insert f1 vKey = Some g1" "in_filter g1 vKey" "\<forall>k. in_filter f1 k \<longrightarrow> in_filter g1 k"
      "isFull g1 = isFull f1" "length (vData g1) = length (vData f1)"
    using bloom_insert_ok [of f1 vKey] f1(1) by (auto simp: bloom_ok_def)
  obtain g2 where g2: "bloom_insert f2 vKey = Some g2" "in_filter g2 vKey" "\<forall>k. in_filter f2 k \<longrightarrow> in_filter g2 k"
      "isFull g2 = isFull f2" "length (vData g2) = length (vData f2)"
    using bloom_insert_ok [of f2 vKey] f2(1) by (auto simp: bloom_ok_def)
  define n' where "n' = (if n + 1 = 2 * N then 0 else n + 1)"
  define r' where "r' = r\<lparr>b1 := g1, b2 := g2, nInsertions := n'\<rparr>"
  have ne: "vData g1 \<noteq> []" "vData g2 \<noteq> []" using g1(5) g2(5) f1(1) f2(1) by auto
  have "(n + 1) mod 2 ^ 32 = n + 1" using I(3,4) by simp
  then have step: "rolling_insert r vKey = Some r'"
    using g1(1) g2(1) I(1) unfolding rolling_insert_def Let_def f1_def f2_def r'_def n'_def n_def N_def
    by (cases "nInsertions r = 0") (simp_all split: if_splits)
  have m1: "list_all (in_filter g1) (take n' (vKey # hist))"
    by (rule list_all_insert [OF f1(3) g1(2,3)]) (simp add: n'_def)
  have m2: "list_all (in_filter g2) (take (if n' \<le> N then n' + N else n' - N) (vKey # hist))"
    by (rule list_all_insert [OF f2(3) g2(2,3)]) (use I(2,4) in \<open>auto simp: n'_def\<close>)
  have "rolling_inv r' (vKey # hist)"
    using m1 m2 ne g1(4) g2(4) f1(2) f2(2) I(1-4) by (simp add: rolling_inv_def Let_def r'_def) (simp add: n'_def)
  then show ?thesis using step by (simp add: r'_def)
qed

text \<open>Insertion of several keys, one after the other.\<close>

fun rolling_inserts :: "CRollingBloomFilter \<Rightarrow> bytes list \<Rightarrow> CRollingBloomFilter option" where
  "rolling_inserts r [] = Some r"
| "rolling_inserts r (k # ks) = (case rolling_insert r k of None \<Rightarrow> None | Some r \<Rightarrow> rolling_inserts r ks)"

lemma rolling_inserts_ok:
  "rolling_inv r hist \<Longrightarrow>
     \<exists>r'. rolling_inserts r ks = Some r' \<and> rolling_inv r' (rev ks @ hist) \<and> nBloomSize r' = nBloomSize r"
proof (induction ks arbitrary: r hist)
  case (Cons k ks)
  then show ?case using rolling_insert_ok [OF Cons.prems, of k] by fastforce
qed simp

lemma rolling_contains_last:
  assumes "rolling_inv r hist" "k \<in> set (take (nBloomSize r div 2) hist)"
  shows "rolling_contains r k = Some True"
proof -
  define N where "N = nBloomSize r div 2"
  have sub: "set (take N hist) \<subseteq> set (take m hist)" if "N \<le> m" for m
    using set_take_subset_set_take [OF that] .
  show ?thesis
  proof (cases "nInsertions r < N")
    case True
    have "k \<in> set (take (nInsertions r + N) hist)"
      using assms(2) sub [of "nInsertions r + N"] unfolding N_def by auto
    then show ?thesis using assms(1) True
      by (auto simp: rolling_inv_def Let_def N_def rolling_contains_def list_all_iff in_filter_def)
  next
    case False
    have "k \<in> set (take (nInsertions r) hist)"
      using assms(2) sub [of "nInsertions r"] False unfolding N_def by auto
    then show ?thesis using assms(1) False
      by (auto simp: rolling_inv_def Let_def N_def rolling_contains_def list_all_iff in_filter_def)
  qed
qed

lemma rolling_start:
  assumes "0 < nElements" "nElements < 2 ^ 31" "8 \<le> bits (nElements * 2)"
  shows "rolling_inv (CRollingBloomFilter_of nElements bits funcs tweak) []"
    "nBloomSize (CRollingBloomFilter_of nElements bits funcs tweak) = nElements * 2"
  using assms
  by (simp_all add: rolling_inv_def CRollingBloomFilter_of_def rolling_reset_def bloom_reset_def bloom_clear_def
      CBloomFilter_unbounded_def Let_def div_eq_0_iff)

subsection \<open>Matching transactions\<close>

lemma element_matches_Some: "bloom_ok f \<Longrightarrow> \<exists>b. element_matches f pc = Some b"
proof (induction f pc rule: element_matches.induct)
  case (1 f pc)
  obtain r opcode data rest where g: "GetOp pc = (r, opcode, data, rest)" by (rule prod_cases4)
  obtain b where b: "bloom_contains f data = Some b" using bloom_contains_Some [OF 1(3)] by blast
  show ?case
  proof (cases "pc = [] \<or> \<not> r \<or> data \<noteq> [] \<and> b")
    case True
    then show ?thesis using g b by (auto simp: element_matches.simps [of f pc])
  next
    case False
    then have "\<exists>b. element_matches f rest = Some b" using 1(1,2) g b 1(3) by (cases "data = []") auto
    then show ?thesis using False g b by (auto simp: element_matches.simps [of f pc])
  qed
qed

lemma update_output_ok:
  assumes "bloom_ok f"
  shows "\<exists>g. update_output f hash i spk = Some g \<and> bloom_ok g \<and> (\<forall>k. in_filter f k \<longrightarrow> in_filter g k)"
  using bloom_insert_ok [OF assms] assms
  by (auto simp: update_output_def insert_outpoint_def split: prod.splits)

lemma match_outputs_ok:
  "bloom_ok f \<Longrightarrow> \<exists>b g. match_outputs f hash i outs fFound = Some (b, g) \<and> bloom_ok g \<and>
     (\<forall>k. in_filter f k \<longrightarrow> in_filter g k) \<and> (fFound \<longrightarrow> b)"
proof (induction outs arbitrary: f i fFound)
  case (Cons out outs)
  obtain b where b: "element_matches f (scriptPubKey out) = Some b" using element_matches_Some [OF Cons.prems] by blast
  show ?case
  proof (cases b)
    case True
    obtain g where g: "update_output f hash i (scriptPubKey out) = Some g" "bloom_ok g" "\<forall>k. in_filter f k \<longrightarrow> in_filter g k"
      using update_output_ok [OF Cons.prems] by blast
    then show ?thesis using Cons.IH [OF g(2), of "i + 1" True] b True by auto
  next
    case False
    then show ?thesis using Cons.IH [OF Cons.prems, of "i + 1" fFound] b by auto
  qed
qed simp

lemma match_inputs_Some: "bloom_ok f \<Longrightarrow> \<exists>b. match_inputs f ins = Some b"
proof (induction ins)
  case (Cons i ins)
  obtain c where "contains_outpoint f (prevout i) = Some c"
    using bloom_contains_Some [OF Cons.prems] by (auto simp: contains_outpoint_def)
  moreover obtain b where "element_matches f (scriptSig i) = Some b" using element_matches_Some [OF Cons.prems] by blast
  ultimately show ?case using Cons by (auto split: bool.splits)
qed auto

lemma IsRelevantAndUpdate_ok:
  assumes "bloom_ok f"
  shows "\<exists>b g. IsRelevantAndUpdate f tx = Some (b, g) \<and> bloom_ok g \<and> (\<forall>k. in_filter f k \<longrightarrow> in_filter g k) \<and>
    (in_filter f (CTransaction_GetHash tx) \<longrightarrow> b)"
proof (cases "isFull f \<or> isEmpty f")
  case True
  then show ?thesis using assms by (auto simp: IsRelevantAndUpdate_def in_filter_def bloom_contains_def)
next
  case False
  obtain c where c: "bloom_contains f (CTransaction_GetHash tx) = Some c" using bloom_contains_Some [OF assms] by blast
  obtain b g where m: "match_outputs f (CTransaction_GetHash tx) 0 (vout tx) c = Some (b, g)" "bloom_ok g"
      "\<forall>k. in_filter f k \<longrightarrow> in_filter g k" "c \<longrightarrow> b"
    using match_outputs_ok [OF assms] by metis
  obtain d where "match_inputs g (vin tx) = Some d" using match_inputs_Some [OF m(2)] by blast
  then show ?thesis using False c m
    by (auto simp: IsRelevantAndUpdate_def Let_def contains_hash_def in_filter_def)
qed

subsection \<open>Bits on the wire\<close>

lemma length_pack_loop [simp]: "length (pack_loop v bits p) = length v"
  by (induction v bits p rule: pack_loop.induct) simp_all

lemma length_pack_bits: "length (pack_bits bits) = (length bits + 7) div 8"
  by (simp add: pack_bits_def)

lemma pack_loop_bit:
  assumes "p + length bits \<le> length v * 8" "q < length v * 8"
  shows "bit (pack_loop v bits p ! (q div 8)) (q mod 8) \<longleftrightarrow>
    bit (v ! (q div 8)) (q mod 8) \<or> p \<le> q \<and> q < p + length bits \<and> bits ! (q - p)"
  using assms
proof (induction bits arbitrary: v p)
  case (Cons b bits)
  define v' where "v' = v[p div 8 := v ! (p div 8) OR push_bit (p mod 8) (if b then 1 else 0)]"
  have l: "length v' = length v" by (simp add: v'_def)
  have same: "q div 8 = p div 8 \<and> q mod 8 = p mod 8 \<longleftrightarrow> q = p" by (metis div_mult_mod_eq)
  have "bit (v' ! (q div 8)) (q mod 8) \<longleftrightarrow> bit (v ! (q div 8)) (q mod 8) \<or> q = p \<and> b"
    using same div8_less [of p "length v"] div8_less [OF Cons.prems(2)] Cons.prems(1)
    by (auto simp: v'_def nth_list_update bit_or_iff bit_exp_iff)
  moreover have "bit (pack_loop v (b # bits) p ! (q div 8)) (q mod 8) \<longleftrightarrow>
      bit (v' ! (q div 8)) (q mod 8) \<or> p + 1 \<le> q \<and> q < p + 1 + length bits \<and> bits ! (q - (p + 1))"
    using Cons.IH [of "p + 1" v'] Cons.prems l by (simp add: v'_def)
  moreover have "q = p \<or> p + 1 \<le> q \<or> q < p" by auto
  ultimately show ?case by (auto simp: nth_Cons' Suc_diff_Suc)
qed auto

lemma unpack_pack:
  "unpack_bits (pack_bits bits) = bits @ replicate ((length bits + 7) div 8 * 8 - length bits) False"
  (is "_ = bits @ replicate ?pad False")
proof (rule nth_equalityI)
  have le: "length bits \<le> (length bits + 7) div 8 * 8" by linarith
  show len: "length (unpack_bits (pack_bits bits)) = length (bits @ replicate ?pad False)"
    using le by (simp add: unpack_bits_def pack_bits_def)
  fix q assume "q < length (unpack_bits (pack_bits bits))"
  then have q: "q < (length bits + 7) div 8 * 8" by (simp add: unpack_bits_def pack_bits_def)
  have "unpack_bits (pack_bits bits) ! q \<longleftrightarrow> q < length bits \<and> bits ! q"
    using pack_loop_bit [of 0 bits "replicate ((length bits + 7) div 8) 0" q] q le div8_less [OF q]
    by (simp add: unpack_bits_def pack_bits_def bit_iff_and_push_bit_not_eq_0)
  then show "unpack_bits (pack_bits bits) ! q = (bits @ replicate ?pad False) ! q"
    using q by (auto simp: nth_append)
qed

text \<open>A tree arrives as it was sent, but for the padding of its bits.\<close>

definition sendable :: "CPartialMerkleTree \<Rightarrow> bool" where
  "sendable t \<longleftrightarrow> nTransactions t < 2 ^ 32 \<and> list_all (\<lambda>h. length h = 32) (vHash t) \<and>
     length (vHash t) \<le> MAX_SIZE \<and> (length (vBits t) + 7) div 8 \<le> MAX_SIZE \<and> \<not> fBad t"

interpretation hashes_codec: codec "Serialize_vector Serialize_blob" "Unserialize_vector (Unserialize_blob 256)"
  "\<lambda>v. list_all (\<lambda>h. length h = 32) v \<and> length v \<le> MAX_SIZE"
  by (rule vector_codec [OF blob256_codec.codec_axioms])

lemma tree_arrives_padded:
  assumes "sendable t"
  shows "\<exists>pad. Unserialize_CPartialMerkleTree (Serialize_CPartialMerkleTree t @ rest) = Inr (padded_tree t pad, rest) \<and>
    (length (vBits (padded_tree t pad)) + 7) div 8 = (length (vBits t) + 7) div 8"
proof -
  define pad where "pad = replicate ((length (vBits t) + 7) div 8 * 8 - length (vBits t)) False"
  have "unat (of_nat (nTransactions t) :: u32) = nTransactions t"
    using assms by (simp add: sendable_def unsigned_of_nat take_bit_nat_eq_self)
  then have "Unserialize_CPartialMerkleTree (Serialize_CPartialMerkleTree t @ rest) =
      Inr (\<lparr>nTransactions = nTransactions t, vBits = vBits t @ pad, vHash = vHash t, fBad = False\<rparr>, rest)"
    using assms
    by (simp add: Unserialize_CPartialMerkleTree_def Serialize_CPartialMerkleTree_def sendable_def
        u32_codec.then_reads_back hashes_codec.then_reads_back bytes_codec.then_reads_back unpack_pack pad_def
        rd_return_def length_pack_bits)
  moreover have "\<lparr>nTransactions = nTransactions t, vBits = vBits t @ pad, vHash = vHash t, fBad = False\<rparr> = padded_tree t pad"
    using assms by (cases t) (simp add: padded_tree_def sendable_def)
  moreover have "(length (vBits (padded_tree t pad)) + 7) div 8 = (length (vBits t) + 7) div 8"
    by (simp add: padded_tree_def pad_def)
  ultimately show ?thesis by auto
qed

lemma length_CalcHash:
  assumes "list_all (\<lambda>h. length h = 32) xs"
  shows "pos < CalcTreeWidth (length xs) hgt \<Longrightarrow> length (CalcHash xs hgt pos) = 32"
  using assms by (cases hgt) (simp_all add: list_all_length length_Hash Let_def CalcHash.simps)

lemma TraverseAndBuild_bits:
  assumes "TraverseAndBuild xs vMatch hgt pos = (bits, hashes)" "pos < CalcTreeWidth (length xs) hgt"
    and "list_all (\<lambda>h. length h = 32) xs"
  shows "list_all (\<lambda>h. length h = 32) hashes \<and> length bits \<le> Suc hgt * length (leaves_under (length xs) hgt pos)"
  using assms(1,2)
proof (induction hgt arbitrary: pos bits hashes)
  case 0
  then show ?case using length_CalcHash [OF assms(3) 0(2)] by (auto simp: leaves_under_def)
next
  case (Suc hgt)
  have left: "pos * 2 < CalcTreeWidth (length xs) hgt"
    using Suc.prems(2) by (simp add: width_leaves mult.assoc)
  have one: "1 \<le> length (leaves_under (length xs) (Suc hgt) pos)"
    using Suc.prems(2) unfolding width_leaves leaves_under_def by (auto simp: min_def)
  obtain b1 h1 where l: "TraverseAndBuild xs vMatch hgt (pos * 2) = (b1, h1)" by fastforce
  obtain b2 h2 where r: "TraverseAndBuild xs vMatch hgt (pos * 2 + 1) = (b2, h2)" by fastforce
  note IH = Suc.IH [OF l left] Suc.IH [OF r]
  show ?case using Suc.prems(1) one IH l r length_CalcHash [OF assms(3) Suc.prems(2)] unfolding leaves_under_Suc
    by (auto split: if_splits simp: algebra_simps)
qed

lemma tree_height_le: "CalcTreeWidth n k \<le> 1 \<Longrightarrow> l \<le> k \<Longrightarrow> tree_height n l \<le> k"
proof (induction n l rule: tree_height.induct)
  case (1 n l)
  then show ?case by (subst tree_height.simps) (auto simp: not_less_eq_eq le_Suc_eq dest: le_neq_implies_less)
qed

lemma sendable_tree:
  assumes "xs \<noteq> []" "length xs \<le> MAX_BLOCK_SIZE div 60" "list_all (\<lambda>h. length h = 32) xs"
  shows "sendable (CPartialMerkleTree_of xs vMatch)"
proof -
  define hgt where "hgt = tree_height (length xs) 0"
  obtain bits hashes where b: "TraverseAndBuild xs vMatch hgt 0 = (bits, hashes)" by fastforce
  have n: "length xs \<le> 66666" using assms(2) by (simp add: MAX_BLOCK_SIZE_def)
  have pos: "0 < CalcTreeWidth (length xs) hgt" using assms(1) by (simp add: width_leaves)
  have leaves: "length (leaves_under (length xs) hgt 0) \<le> length xs" by (simp add: leaves_under_def)
  have "hgt \<le> 17" unfolding hgt_def
    by (rule tree_height_le) (use n width_leaves [of 1 "length xs" 17] in auto)
  then have "Suc hgt * length (leaves_under (length xs) hgt 0) \<le> 18 * 66666"
    using leaves n by (intro mult_le_mono) simp_all
  moreover note TraverseAndBuild_bits [OF b pos assms(3)] TraverseAndBuild_sizes [OF b pos]
  ultimately show ?thesis using b n leaves
    by (auto simp: sendable_def CPartialMerkleTree_of_def hgt_def [symmetric] MAX_SIZE_def)
qed

text \<open>Sending, receiving and extracting.\<close>

lemma wire_extract:
  assumes "xs \<noteq> []" "length xs \<le> MAX_BLOCK_SIZE div 60" "list_all (\<lambda>h. length h = 32) xs" "distinct_siblings xs"
    and h: "wf_header hdr" and mb: "mb_header mb = hdr" "mb_txn mb = CPartialMerkleTree_of xs vMatch"
  shows "\<exists>mb'. Unserialize_CMerkleBlock (Serialize_CMerkleBlock mb @ rest) = Inr (mb', rest) \<and> mb_header mb' = hdr \<and>
    ExtractMatches (mb_txn mb') = (fst (ComputeMerkleRoot xs),
      map (\<lambda>p. xs ! p) (filter (\<lambda>p. vMatch ! p) [0 ..< length xs]), mb_txn mb')"
proof -
  define t where "t = CPartialMerkleTree_of xs vMatch"
  obtain pad where pad: "Unserialize_CPartialMerkleTree (Serialize_CPartialMerkleTree t @ rest) = Inr (padded_tree t pad, rest)"
      "(length (vBits (padded_tree t pad)) + 7) div 8 = (length (vBits t) + 7) div 8"
    using tree_arrives_padded [OF sendable_tree [OF assms(1-3), of vMatch], of rest] unfolding t_def by blast
  have "Unserialize_CMerkleBlock (Serialize_CMerkleBlock mb @ rest) =
      Inr (\<lparr>mb_header = hdr, mb_txn = padded_tree t pad, vMatchedTxn = []\<rparr>, rest)"
    using pad(1) h mb
    by (simp add: Unserialize_CMerkleBlock_def Serialize_CMerkleBlock_def header_codec.then_reads_back t_def)
      (simp add: rd_then_def rd_return_def)
  moreover have "ExtractMatches (padded_tree t pad) = (fst (ComputeMerkleRoot xs),
      map (\<lambda>p. xs ! p) (filter (\<lambda>p. vMatch ! p) [0 ..< length xs]), padded_tree t pad)"
    using ExtractMatches_of_build [OF assms(1,2,4), of "padded_tree t pad" vMatch pad] pad(2) CalcHash_top [OF assms(1,2)]
    by (simp add: t_def)
  ultimately show ?thesis by simp
qed

lemma filter_block_ok:
  "bloom_ok f \<Longrightarrow> \<exists>ms g. filter_block f txs = Some (ms, g) \<and> bloom_ok g \<and> length ms = length txs \<and>
     (\<forall>k. in_filter f k \<longrightarrow> in_filter g k) \<and>
     (\<forall>i < length txs. in_filter f (CTransaction_GetHash (txs ! i)) \<longrightarrow> ms ! i)"
proof (induction txs arbitrary: f)
  case (Cons tx txs)
  obtain b g where g: "IsRelevantAndUpdate f tx = Some (b, g)" "bloom_ok g" "\<forall>k. in_filter f k \<longrightarrow> in_filter g k"
      "in_filter f (CTransaction_GetHash tx) \<longrightarrow> b"
    using IsRelevantAndUpdate_ok [OF Cons.prems] by blast
  obtain ms h where "filter_block g txs = Some (ms, h)" "bloom_ok h" "length ms = length txs"
      "\<forall>k. in_filter g k \<longrightarrow> in_filter h k"
      "\<forall>i < length txs. in_filter g (CTransaction_GetHash (txs ! i)) \<longrightarrow> ms ! i"
    using Cons.IH [OF g(2)] by blast
  then show ?case using g by (auto simp: nth_Cons')
qed simp

lemma length_tx_hashes: "list_all (\<lambda>h. length h = 32) (map CTransaction_GetHash txs)"
  by (simp add: list_all_iff CTransaction_GetHash_def SerializeHash_def length_Hash)

subsection \<open>Properties\<close>

text \<open>
  C32. A rolling filter for \<open>nElements\<close> elements, whatever the random tweaks and the sizes that the
  floating-point formulas give (at least a byte of bits), answers that it contains each of the last
  \<open>nElements\<close> keys that were inserted; no insertion divides by zero.
\<close>

theorem rolling_filter_remembers:
  assumes "0 < nElements" "nElements < 2 ^ 31" "8 \<le> bits (nElements * 2)"
    and "vKey \<in> set (drop (length keys - nElements) keys)"
  shows "\<exists>r. rolling_inserts (CRollingBloomFilter_of nElements bits funcs tweak) keys = Some r \<and>
    rolling_contains r vKey = Some True"
proof -
  obtain r where r: "rolling_inserts (CRollingBloomFilter_of nElements bits funcs tweak) keys = Some r"
      "rolling_inv r (rev keys @ [])" "nBloomSize r = nElements * 2"
    using rolling_inserts_ok [OF rolling_start(1) [of nElements bits funcs tweak], of keys]
      rolling_start(2) [of nElements bits funcs tweak] assms(1-3) by auto
  have "vKey \<in> set (take nElements (rev keys))" using assms(4) by (simp add: take_rev)
  then show ?thesis using r rolling_contains_last [OF r(2), of vKey] by auto
qed

lemma rolling_filter_remembers_witness:
  "\<exists>r. rolling_inserts (CRollingBloomFilter_of 2 (\<lambda>n. 64) (\<lambda>n k. 3) 5) [[1], [2], [3], [4], [5]] = Some r \<and>
    rolling_contains r [4] = Some True"
  by (rule rolling_filter_remembers) simp_all

text \<open>
  C18. A Merkle block made with a filter that has bits or is full: the client reads back the header
  and a tree from which it extracts the block's Merkle root and exactly the matched transactions,
  and every transaction whose hash the filter contains is among them.  The block is well formed: it has
  at most 66666 transactions, as many as fit into its size, and no two equal siblings in its tree,
  which the extraction refuses.
\<close>

theorem CMerkleBlock_proves_matches:
  assumes "bloom_ok f" "vtx block \<noteq> []" "length (vtx block) \<le> MAX_BLOCK_SIZE div 60" "wf_header (blk_header block)"
    and "distinct_siblings (map CTransaction_GetHash (vtx block))"
  shows "\<exists>mb g mb'. CMerkleBlock_filter block f = Some (mb, g) \<and>
    Unserialize_CMerkleBlock (Serialize_CMerkleBlock mb @ rest) = Inr (mb', rest) \<and> mb_header mb' = blk_header block \<and>
    ExtractMatches (mb_txn mb') = (fst (BlockMerkleRoot block), map snd (vMatchedTxn mb), mb_txn mb') \<and>
    (\<forall>tx \<in> set (vtx block). in_filter f (CTransaction_GetHash tx) \<longrightarrow>
       CTransaction_GetHash tx \<in> set (map snd (vMatchedTxn mb)))"
proof -
  let ?xs = "map CTransaction_GetHash (vtx block)"
  obtain ms g where m: "filter_block f (vtx block) = Some (ms, g)"
      "\<forall>i < length (vtx block). in_filter f (CTransaction_GetHash (vtx block ! i)) \<longrightarrow> ms ! i"
    using filter_block_ok [OF assms(1), of "vtx block"] by blast
  define mb where "mb = \<lparr>mb_header = blk_header block, mb_txn = CPartialMerkleTree_of ?xs ms,
      vMatchedTxn = map (\<lambda>i. (i, ?xs ! i)) (filter (\<lambda>i. ms ! i) [0 ..< length (vtx block)])\<rparr>"
  have e: "CMerkleBlock_filter block f = Some (mb, g)"
    using m(1) by (simp add: CMerkleBlock_filter_def Let_def mb_def)
  have matched: "map snd (vMatchedTxn mb) = map (\<lambda>p. ?xs ! p) (filter (\<lambda>p. ms ! p) [0 ..< length ?xs])"
    by (simp add: mb_def)
  have "\<forall>tx \<in> set (vtx block). in_filter f (CTransaction_GetHash tx) \<longrightarrow>
      CTransaction_GetHash tx \<in> set (map snd (vMatchedTxn mb))"
    using m(2) unfolding matched by (auto simp: in_set_conv_nth [of _ "vtx block"])
  moreover have "fst (BlockMerkleRoot block) = fst (ComputeMerkleRoot ?xs)" by (simp add: BlockMerkleRoot_def)
  moreover have "\<exists>mb'. Unserialize_CMerkleBlock (Serialize_CMerkleBlock mb @ rest) = Inr (mb', rest) \<and>
      mb_header mb' = blk_header block \<and>
      ExtractMatches (mb_txn mb') = (fst (ComputeMerkleRoot ?xs), map snd (vMatchedTxn mb), mb_txn mb')"
    unfolding matched by (rule wire_extract) (use assms length_tx_hashes in \<open>simp_all add: mb_def\<close>)
  ultimately show ?thesis using e by metis
qed

lemma CMerkleBlock_proves_matches_witness:
  "\<exists>mb g (mb' :: CMerkleBlock). CMerkleBlock_filter \<lparr>blk_header = CBlockHeader_SetNull, vtx = [CTransaction_Null]\<rparr> CBloomFilter_default =
      Some (mb, g) \<and>
    ExtractMatches (mb_txn mb') =
      (fst (BlockMerkleRoot \<lparr>blk_header = CBlockHeader_SetNull, vtx = [CTransaction_Null]\<rparr>), map snd (vMatchedTxn mb), mb_txn mb') \<and>
    CTransaction_GetHash CTransaction_Null \<in> set (map snd (vMatchedTxn mb))"
proof -
  have "distinct_siblings [CTransaction_GetHash CTransaction_Null]"
    by (simp add: distinct_siblings_def CalcTreeWidth_def div_eq_dividend_iff)
  moreover have "in_filter CBloomFilter_default k" for k
    by (simp add: in_filter_def CBloomFilter_default_def bloom_contains_def)
  moreover have "bloom_ok CBloomFilter_default" by (simp add: bloom_ok_def CBloomFilter_default_def)
  moreover have "wf_header CBlockHeader_SetNull" by (simp add: wf_header_def CBlockHeader_SetNull_def blob_SetNull_def)
  moreover define b where "b = \<lparr>blk_header = CBlockHeader_SetNull, vtx = [CTransaction_Null]\<rparr>"
  ultimately obtain mb g and mb' :: CMerkleBlock where m: "CMerkleBlock_filter b CBloomFilter_default = Some (mb, g)"
      "ExtractMatches (mb_txn mb') = (fst (BlockMerkleRoot b), map snd (vMatchedTxn mb), mb_txn mb')"
      "\<forall>tx \<in> set (vtx b). in_filter CBloomFilter_default (CTransaction_GetHash tx) \<longrightarrow>
        CTransaction_GetHash tx \<in> set (map snd (vMatchedTxn mb))"
    using CMerkleBlock_proves_matches [of CBloomFilter_default b "[]"]
    by (simp add: MAX_BLOCK_SIZE_def del: set_map) blast
  have "CTransaction_GetHash CTransaction_Null \<in> set (map snd (vMatchedTxn mb))"
    using m(3) \<open>\<And>k. in_filter CBloomFilter_default k\<close> by (simp add: b_def)
  then show ?thesis using m(1,2) unfolding b_def [symmetric] by blast
qed

end
