(* ===== verification/Coins.thy ===== *)
theory Coins
  imports Standard "HOL-Library.AList"
begin

text \<open>
  The set of unspent outputs (\<open>coins.h\<close>, \<open>coins.cpp\<close>, the coin database of \<open>txdb.cpp\<close>): the
  outputs of one transaction, the cache over a backing view, and its modification, batch write and
  flush.  A view is a stack of caches over the database; a call through the virtual interface is a
  function of the stack.  Counters of memory usage are left out.  \<open>None\<close> is a failed assertion or
  an exception of the database.
\<close>

unbundle bit_operations_syntax

subsection \<open>The outputs of a transaction\<close>

record CCoins =
  fCoinBase :: bool
  coins_vout :: "CTxOut list"
  coins_nHeight :: int
  coins_nVersion :: int

definition coins_Clear :: CCoins where
  "coins_Clear = \<lparr>fCoinBase = False, coins_vout = [], coins_nHeight = 0, coins_nVersion = 0\<rparr>"

definition Cleanup :: "CCoins \<Rightarrow> CCoins" where
  "Cleanup c = c\<lparr>coins_vout := rev (dropWhile CTxOut_IsNull (rev (coins_vout c)))\<rparr>"

definition ClearUnspendable :: "CCoins \<Rightarrow> CCoins" where
  "ClearUnspendable c =
     Cleanup (c\<lparr>coins_vout := map (\<lambda>txout. if IsUnspendable (scriptPubKey txout) then CTxOut_SetNull else txout)
                               (coins_vout c)\<rparr>)"

definition FromTx :: "CTransaction \<Rightarrow> int \<Rightarrow> CCoins" where
  "FromTx tx nHeightIn =
     ClearUnspendable \<lparr>fCoinBase = IsCoinBase tx, coins_vout = vout tx, coins_nHeight = nHeightIn,
       coins_nVersion = sint (tx_nVersion tx)\<rparr>"

definition IsPruned :: "CCoins \<Rightarrow> bool" where
  "IsPruned c \<longleftrightarrow> list_all CTxOut_IsNull (coins_vout c)"

definition coins_equal :: "CCoins \<Rightarrow> CCoins \<Rightarrow> bool" where
  "coins_equal a b \<longleftrightarrow> IsPruned a \<and> IsPruned b \<or>
     fCoinBase a = fCoinBase b \<and> coins_nHeight a = coins_nHeight b \<and> coins_nVersion a = coins_nVersion b \<and>
     coins_vout a = coins_vout b"

definition IsAvailable :: "CCoins \<Rightarrow> nat \<Rightarrow> bool" where
  "IsAvailable c nPos \<longleftrightarrow> nPos < length (coins_vout c) \<and> \<not> CTxOut_IsNull (coins_vout c ! nPos)"

definition Spend :: "CCoins \<Rightarrow> nat \<Rightarrow> bool \<times> CCoins" where
  "Spend c nPos =
     (if nPos \<ge> length (coins_vout c) \<or> CTxOut_IsNull (coins_vout c ! nPos) then (False, c)
      else (True, Cleanup (c\<lparr>coins_vout := (coins_vout c)[nPos := CTxOut_SetNull]\<rparr>)))"

subsection \<open>Serialized coins\<close>

text \<open>Bit \<open>i\<close> of byte \<open>b\<close> of the mask, and the bytes that the loop runs over.\<close>

definition mask_bit :: "CTxOut list \<Rightarrow> nat \<Rightarrow> nat \<Rightarrow> bool" where
  "mask_bit outs b i \<longleftrightarrow> 2 + b * 8 + i < length outs \<and> \<not> CTxOut_IsNull (outs ! (2 + b * 8 + i))"

definition mask_length :: "CTxOut list \<Rightarrow> nat" where
  "mask_length outs = (length outs - 2 + 7) div 8"

definition CalcMaskSize :: "CCoins \<Rightarrow> nat \<times> nat" where
  "CalcMaskSize c =
     fold (\<lambda>b (nLastUsedByte, nNonzeroBytes).
             if list_ex (mask_bit (coins_vout c) b) [0 ..< 8] then (b + 1, nNonzeroBytes + 1)
             else (nLastUsedByte, nNonzeroBytes))
       [0 ..< mask_length (coins_vout c)] (0, 0)"

definition mask_byte :: "CTxOut list \<Rightarrow> nat \<Rightarrow> u8" where
  "mask_byte outs b = fold (\<lambda>i chAvail. if mask_bit outs b i then chAvail OR push_bit i 1 else chAvail) [0 ..< 8] 0"

text \<open>A signed integer: a negative one is written as its last seven bits.\<close>

definition WriteVarInt_int :: "int \<Rightarrow> bytes" where
  "WriteVarInt_int n = (if n < 0 then [of_int n AND 0x7F] else WriteVarInt (nat n))"

definition ReadVarInt_int :: "int reader" where
  "ReadVarInt_int = rd_then (ReadVarInt 32) (\<lambda>n. rd_return (sint (of_nat n :: u32)))"

fun write_outs :: "(bytes \<Rightarrow> bool) \<Rightarrow> CTxOut list \<Rightarrow> bytes option" where
  "write_outs fully_valid [] = Some []"
| "write_outs fully_valid (out # outs) =
     (if CTxOut_IsNull out then write_outs fully_valid outs
      else case (Serialize_CTxOutCompressor fully_valid out, write_outs fully_valid outs) of
             (Some b, Some bs) \<Rightarrow> Some (b @ bs)
           | _ \<Rightarrow> None)"

definition coins_code :: "CCoins \<Rightarrow> nat \<Rightarrow> nat" where
  "coins_code c nMaskCode =
     (let fFirst = length (coins_vout c) > 0 \<and> \<not> CTxOut_IsNull (coins_vout c ! 0);
          fSecond = length (coins_vout c) > 1 \<and> \<not> CTxOut_IsNull (coins_vout c ! 1)
      in 8 * (nMaskCode - (if fFirst \<or> fSecond then 0 else 1)) + (if fCoinBase c then 1 else 0) +
         (if fFirst then 2 else 0) + (if fSecond then 4 else 0))"

definition Serialize_CCoins :: "(bytes \<Rightarrow> bool) \<Rightarrow> CCoins \<Rightarrow> bytes option" where
  "Serialize_CCoins fully_valid c =
     (let (nMaskSize, nMaskCode) = CalcMaskSize c;
          fFirst = length (coins_vout c) > 0 \<and> \<not> CTxOut_IsNull (coins_vout c ! 0);
          fSecond = length (coins_vout c) > 1 \<and> \<not> CTxOut_IsNull (coins_vout c ! 1)
      in if \<not> (fFirst \<or> fSecond \<or> nMaskCode \<noteq> 0) then None
         else map_option (\<lambda>outs. WriteVarInt_int (coins_nVersion c) @ WriteVarInt (coins_code c nMaskCode) @
                map (mask_byte (coins_vout c)) [0 ..< nMaskSize] @ outs @ WriteVarInt_int (coins_nHeight c))
              (write_outs fully_valid (coins_vout c)))"

text \<open>The loop over the mask, with the number of non-zero bytes that are still to come.\<close>

fun read_mask :: "nat \<Rightarrow> bool list \<Rightarrow> bool list reader" where
  "read_mask 0 vAvail s = Inr (vAvail, s)"
| "read_mask (Suc nMaskCode) vAvail [] = Inl EndOfData"
| "read_mask (Suc nMaskCode) vAvail (chAvail # s) =
     read_mask (if chAvail \<noteq> 0 then nMaskCode else Suc nMaskCode)
       (vAvail @ map (\<lambda>p. chAvail AND push_bit p 1 \<noteq> 0) [0 ..< 8]) s"

fun read_outs :: "(bytes \<Rightarrow> bytes option) \<Rightarrow> bool list \<Rightarrow> CTxOut list reader" where
  "read_outs decompress_key [] = rd_return []"
| "read_outs decompress_key (avail # vAvail) =
     rd_then (if avail then Unserialize_CTxOutCompressor decompress_key else rd_return CTxOut_SetNull)
       (\<lambda>out. rd_then (read_outs decompress_key vAvail) (\<lambda>outs. rd_return (out # outs)))"

definition Unserialize_CCoins :: "(bytes \<Rightarrow> bytes option) \<Rightarrow> CCoins reader" where
  "Unserialize_CCoins decompress_key =
     rd_then ReadVarInt_int (\<lambda>version. rd_then (ReadVarInt 32) (\<lambda>nCode.
       let nMaskCode = nCode div 8 + (if of_nat nCode AND (6 :: u32) \<noteq> 0 then 0 else 1)
       in rd_then (read_mask nMaskCode [of_nat nCode AND (2 :: u32) \<noteq> 0, of_nat nCode AND (4 :: u32) \<noteq> 0]) (\<lambda>vAvail.
          rd_then (read_outs decompress_key vAvail) (\<lambda>outs. rd_then ReadVarInt_int (\<lambda>height.
            rd_return (Cleanup \<lparr>fCoinBase = of_nat nCode AND (1 :: u32) \<noteq> 0, coins_vout = outs,
              coins_nHeight = height, coins_nVersion = version\<rparr>))))))"

subsection \<open>Views\<close>

record CCoinsCacheEntry =
  ce_coins :: CCoins
  ce_flags :: u8

definition DIRTY :: u8 where "DIRTY = push_bit 0 1"
definition FRESH :: u8 where "FRESH = push_bit 1 1"

definition is_dirty :: "CCoinsCacheEntry \<Rightarrow> bool" where
  "is_dirty e \<longleftrightarrow> ce_flags e AND DIRTY \<noteq> 0"

definition is_fresh :: "CCoinsCacheEntry \<Rightarrow> bool" where
  "is_fresh e \<longleftrightarrow> ce_flags e AND FRESH \<noteq> 0"

type_synonym CCoinsMap = "(uint256 \<times> CCoinsCacheEntry) list"

text \<open>The keys of the database that the coins use; \<open>db_fails\<close> says that the next write throws.\<close>

record CCoinsViewDB =
  db_coins :: "(uint256 \<times> CCoins) list"
  db_best :: "uint256 option"
  db_fails :: bool

record CCoinsViewCache =
  hasModifier :: bool
  cache_hashBlock :: uint256
  cacheCoins :: CCoinsMap

text \<open>The class itself, a view that only forwards, the database and a cache over a view.\<close>

datatype CCoinsView = CoinsNone | CoinsBacked CCoinsView | CoinsDB CCoinsViewDB | CoinsCache CCoinsViewCache CCoinsView

subsection \<open>The database\<close>

text \<open>
  \<open>CCoinsViewDB\<close> declares \<open>GetCoins\<close> with the signature of an older interface: the method is not
  the one that is called through a \<open>CCoinsView\<close>.
\<close>

definition CCoinsViewDB_GetCoins :: "CCoinsViewDB \<Rightarrow> uint256 \<Rightarrow> CCoins option" where
  "CCoinsViewDB_GetCoins d txid = map_of (db_coins d) txid"

definition CCoinsView_GetCoins :: "uint256 \<Rightarrow> CCoins option" where
  "CCoinsView_GetCoins txid = None"

definition CCoinsViewDB_HaveCoins :: "CCoinsViewDB \<Rightarrow> uint256 \<Rightarrow> bool" where
  "CCoinsViewDB_HaveCoins d txid \<longleftrightarrow> map_of (db_coins d) txid \<noteq> None"

definition CCoinsViewDB_GetBestBlock :: "CCoinsViewDB \<Rightarrow> uint256" where
  "CCoinsViewDB_GetBestBlock d = (case db_best d of None \<Rightarrow> blob_SetNull 256 | Some h \<Rightarrow> h)"

definition write_entry :: "uint256 \<times> CCoinsCacheEntry \<Rightarrow> (uint256 \<times> CCoins) list \<Rightarrow> (uint256 \<times> CCoins) list" where
  "write_entry it coins =
     (if is_dirty (snd it)
      then if IsPruned (ce_coins (snd it)) then AList.delete (fst it) coins
           else AList.update (fst it) (ce_coins (snd it)) coins
      else coins)"

definition CCoinsViewDB_BatchWrite :: "CCoinsViewDB \<Rightarrow> CCoinsMap \<Rightarrow> uint256 \<Rightarrow> (bool \<times> CCoinsViewDB) option" where
  "CCoinsViewDB_BatchWrite d mapCoins hashBlock =
     (if db_fails d then None
      else Some (True, d\<lparr>db_coins := fold write_entry mapCoins (db_coins d),
                         db_best := (if blob_IsNull hashBlock then db_best d else Some hashBlock)\<rparr>))"

subsection \<open>Reading through the cache\<close>

text \<open>The entry that is made of what the base returned; the cache is filled.\<close>

definition fill :: "uint256 \<Rightarrow> CCoinsViewCache \<Rightarrow> CCoins option \<times> CCoinsView \<Rightarrow>
    CCoinsCacheEntry option \<times> CCoinsViewCache \<times> CCoinsView" where
  "fill txid c found =
     (case found of
        (None, base) \<Rightarrow> (None, c, base)
      | (Some tmp, base) \<Rightarrow>
          let e = \<lparr>ce_coins = tmp, ce_flags = (if IsPruned tmp then FRESH else 0)\<rparr>
          in (Some e, c\<lparr>cacheCoins := AList.update txid e (cacheCoins c)\<rparr>, base))"

fun GetCoins :: "uint256 \<Rightarrow> CCoinsView \<Rightarrow> CCoins option \<times> CCoinsView" where
  "GetCoins txid CoinsNone = (CCoinsView_GetCoins txid, CoinsNone)"
| "GetCoins txid (CoinsBacked base) = (case GetCoins txid base of (r, base) \<Rightarrow> (r, CoinsBacked base))"
| "GetCoins txid (CoinsDB d) = (CCoinsView_GetCoins txid, CoinsDB d)"
| "GetCoins txid (CoinsCache c base) =
     (case map_of (cacheCoins c) txid of
        Some e \<Rightarrow> (Some (ce_coins e), CoinsCache c base)
      | None \<Rightarrow>
          (case fill txid c (GetCoins txid base) of
             (it, c, base) \<Rightarrow> (map_option ce_coins it, CoinsCache c base)))"

definition FetchCoins :: "uint256 \<Rightarrow> CCoinsViewCache \<Rightarrow> CCoinsView \<Rightarrow>
    CCoinsCacheEntry option \<times> CCoinsViewCache \<times> CCoinsView" where
  "FetchCoins txid c base =
     (case map_of (cacheCoins c) txid of
        Some e \<Rightarrow> (Some e, c, base)
      | None \<Rightarrow> fill txid c (GetCoins txid base))"

definition AccessCoins :: "uint256 \<Rightarrow> CCoinsViewCache \<Rightarrow> CCoinsView \<Rightarrow> CCoins option \<times> CCoinsViewCache \<times> CCoinsView" where
  "AccessCoins txid c base = (case FetchCoins txid c base of (it, c, base) \<Rightarrow> (map_option ce_coins it, c, base))"

fun HaveCoins :: "uint256 \<Rightarrow> CCoinsView \<Rightarrow> bool \<times> CCoinsView" where
  "HaveCoins txid CoinsNone = (False, CoinsNone)"
| "HaveCoins txid (CoinsBacked base) = (case HaveCoins txid base of (r, base) \<Rightarrow> (r, CoinsBacked base))"
| "HaveCoins txid (CoinsDB d) = (CCoinsViewDB_HaveCoins d txid, CoinsDB d)"
| "HaveCoins txid (CoinsCache c base) =
     (case FetchCoins txid c base of
        (None, c, base) \<Rightarrow> (False, CoinsCache c base)
      | (Some e, c, base) \<Rightarrow> (coins_vout (ce_coins e) \<noteq> [], CoinsCache c base))"

definition HaveCoinsInCache :: "uint256 \<Rightarrow> CCoinsViewCache \<Rightarrow> bool" where
  "HaveCoinsInCache txid c \<longleftrightarrow> map_of (cacheCoins c) txid \<noteq> None"

fun GetBestBlock :: "CCoinsView \<Rightarrow> uint256 \<times> CCoinsView" where
  "GetBestBlock CoinsNone = (blob_SetNull 256, CoinsNone)"
| "GetBestBlock (CoinsBacked base) = (case GetBestBlock base of (h, base) \<Rightarrow> (h, CoinsBacked base))"
| "GetBestBlock (CoinsDB d) = (CCoinsViewDB_GetBestBlock d, CoinsDB d)"
| "GetBestBlock (CoinsCache c base) =
     (if blob_IsNull (cache_hashBlock c)
      then (case GetBestBlock base of (h, base) \<Rightarrow> (h, CoinsCache (c\<lparr>cache_hashBlock := h\<rparr>) base))
      else (cache_hashBlock c, CoinsCache c base))"

definition SetBestBlock :: "uint256 \<Rightarrow> CCoinsViewCache \<Rightarrow> CCoinsViewCache" where
  "SetBestBlock hashBlockIn c = c\<lparr>cache_hashBlock := hashBlockIn\<rparr>"

subsection \<open>Modifying\<close>

text \<open>Opening a modifier, using it (\<open>f\<close> is what is done to the coins) and closing it.\<close>

definition open_modifier :: "CCoinsViewCache \<Rightarrow> uint256 \<Rightarrow> CCoinsCacheEntry \<Rightarrow> CCoinsViewCache" where
  "open_modifier c txid e =
     c\<lparr>hasModifier := True, cacheCoins := AList.update txid (e\<lparr>ce_flags := ce_flags e OR DIRTY\<rparr>) (cacheCoins c)\<rparr>"

definition ModifyCoins :: "uint256 \<Rightarrow> CCoinsViewCache \<Rightarrow> CCoinsView \<Rightarrow> (CCoinsViewCache \<times> CCoinsView) option" where
  "ModifyCoins txid c base =
     (if hasModifier c then None
      else case map_of (cacheCoins c) txid of
        Some e \<Rightarrow> Some (open_modifier c txid e, base)
      | None \<Rightarrow>
          (case GetCoins txid base of
             (None, base) \<Rightarrow> Some (open_modifier c txid \<lparr>ce_coins = coins_Clear, ce_flags = FRESH\<rparr>, base)
           | (Some coins, base) \<Rightarrow>
               Some (open_modifier c txid \<lparr>ce_coins = coins, ce_flags = (if IsPruned coins then FRESH else 0)\<rparr>, base)))"

definition ModifyNewCoins :: "uint256 \<Rightarrow> CCoinsViewCache \<Rightarrow> CCoinsViewCache option" where
  "ModifyNewCoins txid c =
     (if hasModifier c then None
      else Some (open_modifier c txid \<lparr>ce_coins = coins_Clear, ce_flags = FRESH\<rparr>))"

definition use_modifier :: "(CCoins \<Rightarrow> CCoins) \<Rightarrow> uint256 \<Rightarrow> CCoinsViewCache \<Rightarrow> CCoinsViewCache" where
  "use_modifier f txid c =
     (case map_of (cacheCoins c) txid of
        None \<Rightarrow> c
      | Some e \<Rightarrow> c\<lparr>cacheCoins := AList.update txid (e\<lparr>ce_coins := f (ce_coins e)\<rparr>) (cacheCoins c)\<rparr>)"

definition close_modifier :: "uint256 \<Rightarrow> CCoinsViewCache \<Rightarrow> CCoinsViewCache option" where
  "close_modifier txid c =
     (if \<not> hasModifier c then None
      else case map_of (cacheCoins c) txid of
        None \<Rightarrow> None
      | Some e \<Rightarrow>
          let e = e\<lparr>ce_coins := Cleanup (ce_coins e)\<rparr>
          in Some (c\<lparr>hasModifier := False,
                cacheCoins := (if is_fresh e \<and> IsPruned (ce_coins e) then AList.delete txid (cacheCoins c)
                               else AList.update txid e (cacheCoins c))\<rparr>))"

text \<open>A modification from the opening to the end of the scope.\<close>

definition modify_coins :: "(CCoins \<Rightarrow> CCoins) \<Rightarrow> uint256 \<Rightarrow> CCoinsViewCache \<Rightarrow> CCoinsView \<Rightarrow>
    (CCoinsViewCache \<times> CCoinsView) option" where
  "modify_coins f txid c base =
     (case ModifyCoins txid c base of
        None \<Rightarrow> None
      | Some (c, base) \<Rightarrow> map_option (\<lambda>c. (c, base)) (close_modifier txid (use_modifier f txid c)))"

definition modify_new_coins :: "(CCoins \<Rightarrow> CCoins) \<Rightarrow> uint256 \<Rightarrow> CCoinsViewCache \<Rightarrow> CCoinsViewCache option" where
  "modify_new_coins f txid c =
     (case ModifyNewCoins txid c of
        None \<Rightarrow> None
      | Some c \<Rightarrow> close_modifier txid (use_modifier f txid c))"

subsection \<open>Writing back\<close>

definition batch_entry :: "uint256 \<times> CCoinsCacheEntry \<Rightarrow> CCoinsMap \<Rightarrow> CCoinsMap" where
  "batch_entry it us =
     (let txid = fst it; e = snd it in
      if is_dirty e
      then (case map_of us txid of
          None \<Rightarrow>
            if is_fresh e \<and> IsPruned (ce_coins e) then us
            else AList.update txid \<lparr>ce_coins = ce_coins e, ce_flags = (if is_fresh e then DIRTY OR FRESH else DIRTY)\<rparr> us
        | Some itUs \<Rightarrow>
            if is_fresh itUs \<and> IsPruned (ce_coins e) then AList.delete txid us
            else AList.update txid \<lparr>ce_coins = ce_coins e, ce_flags = ce_flags itUs OR DIRTY\<rparr> us)
      else us)"

definition CCoinsViewCache_BatchWrite :: "CCoinsViewCache \<Rightarrow> CCoinsMap \<Rightarrow> uint256 \<Rightarrow> (bool \<times> CCoinsViewCache) option" where
  "CCoinsViewCache_BatchWrite c mapCoins hashBlockIn =
     (if hasModifier c then None
      else Some (True, c\<lparr>cacheCoins := fold batch_entry mapCoins (cacheCoins c), cache_hashBlock := hashBlockIn\<rparr>))"

fun BatchWrite :: "CCoinsView \<Rightarrow> CCoinsMap \<Rightarrow> uint256 \<Rightarrow> (bool \<times> CCoinsView) option" where
  "BatchWrite CoinsNone m h = Some (False, CoinsNone)"
| "BatchWrite (CoinsBacked base) m h = map_option (\<lambda>(ok, base). (ok, CoinsBacked base)) (BatchWrite base m h)"
| "BatchWrite (CoinsDB d) m h = map_option (\<lambda>(ok, d). (ok, CoinsDB d)) (CCoinsViewDB_BatchWrite d m h)"
| "BatchWrite (CoinsCache c base) m h =
     map_option (\<lambda>(ok, c). (ok, CoinsCache c base)) (CCoinsViewCache_BatchWrite c m h)"

definition Flush :: "CCoinsViewCache \<Rightarrow> CCoinsView \<Rightarrow> (bool \<times> CCoinsViewCache \<times> CCoinsView) option" where
  "Flush c base =
     map_option (\<lambda>(fOk, base). (fOk, c\<lparr>cacheCoins := []\<rparr>, base)) (BatchWrite base (cacheCoins c) (cache_hashBlock c))"

definition Uncache :: "uint256 \<Rightarrow> CCoinsViewCache \<Rightarrow> CCoinsViewCache" where
  "Uncache hash c =
     (case map_of (cacheCoins c) hash of
        Some e \<Rightarrow> if ce_flags e = 0 then c\<lparr>cacheCoins := AList.delete hash (cacheCoins c)\<rparr> else c
      | None \<Rightarrow> c)"

definition GetCacheSize :: "CCoinsViewCache \<Rightarrow> nat" where
  "GetCacheSize c = length (cacheCoins c)"

subsection \<open>Inputs of a transaction\<close>

definition GetOutputFor :: "CTxIn \<Rightarrow> CCoinsViewCache \<Rightarrow> CCoinsView \<Rightarrow> (CTxOut \<times> CCoinsViewCache \<times> CCoinsView) option" where
  "GetOutputFor inp c base =
     (case AccessCoins (op_hash (prevout inp)) c base of
        (None, c, base) \<Rightarrow> None
      | (Some coins, c, base) \<Rightarrow>
          if IsAvailable coins (unat (op_n (prevout inp)))
          then Some (coins_vout coins ! unat (op_n (prevout inp)), c, base) else None)"

fun value_in_loop :: "CTxIn list \<Rightarrow> CAmount \<Rightarrow> CCoinsViewCache \<Rightarrow> CCoinsView \<Rightarrow> (CAmount \<times> CCoinsViewCache \<times> CCoinsView) option" where
  "value_in_loop [] nResult c base = Some (nResult, c, base)"
| "value_in_loop (i # is) nResult c base =
     (case GetOutputFor i c base of
        None \<Rightarrow> None
      | Some (out, c, base) \<Rightarrow> value_in_loop is (nResult + nValue out) c base)"

definition GetValueIn :: "CTransaction \<Rightarrow> CCoinsViewCache \<Rightarrow> CCoinsView \<Rightarrow> (CAmount \<times> CCoinsViewCache \<times> CCoinsView) option" where
  "GetValueIn tx c base = (if IsCoinBase tx then Some (0, c, base) else value_in_loop (vin tx) 0 c base)"

fun have_inputs_loop :: "CTxIn list \<Rightarrow> CCoinsViewCache \<Rightarrow> CCoinsView \<Rightarrow> bool \<times> CCoinsViewCache \<times> CCoinsView" where
  "have_inputs_loop [] c base = (True, c, base)"
| "have_inputs_loop (i # is) c base =
     (case AccessCoins (op_hash (prevout i)) c base of
        (None, c, base) \<Rightarrow> (False, c, base)
      | (Some coins, c, base) \<Rightarrow>
          if \<not> IsAvailable coins (unat (op_n (prevout i))) then (False, c, base) else have_inputs_loop is c base)"

definition HaveInputs :: "CTransaction \<Rightarrow> CCoinsViewCache \<Rightarrow> CCoinsView \<Rightarrow> bool \<times> CCoinsViewCache \<times> CCoinsView" where
  "HaveInputs tx c base = (if \<not> IsCoinBase tx then have_inputs_loop (vin tx) c base else (True, c, base))"

subsection \<open>The mask\<close>

lemma mask_fold:
  "fold (\<lambda>i acc. if P i then acc OR push_bit i 1 else acc) [0 ..< n] (0 :: u8) = or_mask \<Longrightarrow> n \<le> 8 \<Longrightarrow>
     bit or_mask i \<longleftrightarrow> i < n \<and> P i"
proof (induction n arbitrary: or_mask)
  case (Suc n)
  then show ?case by (auto simp: bit_or_iff bit_exp_iff less_Suc_eq split: if_splits)
qed simp

lemma bit_mask_byte: "bit (mask_byte outs b) i \<longleftrightarrow> i < 8 \<and> mask_bit outs b i"
  by (rule mask_fold [of _ 8]) (simp_all add: mask_byte_def)

lemma mask_byte_zero: "mask_byte outs b \<noteq> 0 \<longleftrightarrow> list_ex (mask_bit outs b) [0 ..< 8]"
proof -
  have "mask_byte outs b = 0 \<longleftrightarrow> (\<forall>i < 8. \<not> bit (mask_byte outs b) i)"
    by (auto simp: bit_eq_iff)
  then show ?thesis by (auto simp: bit_mask_byte list_ex_iff)
qed

definition byte_bits :: "u8 \<Rightarrow> bool list" where
  "byte_bits b = map (\<lambda>p. b AND push_bit p 1 \<noteq> 0) [0 ..< 8]"

lemma byte_bits_mask: "byte_bits (mask_byte outs b) = map (mask_bit outs b) [0 ..< 8]"
  unfolding byte_bits_def using bit_mask_byte by (auto simp: bit_iff_and_push_bit_not_eq_0)

lemma read_mask_bytes:
  "bs = [] \<or> last bs \<noteq> 0 \<Longrightarrow>
     read_mask (length (filter (\<lambda>b. b \<noteq> 0) bs)) av (bs @ rest) = Inr (av @ concat (map byte_bits bs), rest)"
proof (induction bs arbitrary: av)
  case (Cons b bs)
  have l: "bs = [] \<or> last bs \<noteq> 0" using Cons.prems by auto
  obtain m where m: "length (filter (\<lambda>b. b \<noteq> 0) (b # bs)) = Suc m"
    using Cons.prems last_in_set [of "b # bs"] filter_empty_conv [of "\<lambda>b. b \<noteq> 0" "b # bs"]
    by (metis Cons.prems length_0_conv list.distinct(1) not0_implies_Suc)
  then have "(if b \<noteq> 0 then m else Suc m) = length (filter (\<lambda>b. b \<noteq> 0) bs)" by (auto split: if_splits)
  then show ?case using Cons.IH [OF l, of "av @ byte_bits b"] m by (simp add: byte_bits_def)
qed simp

lemma CalcMaskSize_loop:
  fixes P :: "nat \<Rightarrow> bool" and sz code :: nat
  assumes "fold (\<lambda>b (l, n). if P b then (b + 1, n + 1) else (l, n)) [0 ..< N] (0, 0) = (sz, code)"
  shows "sz \<le> N \<and> (sz = 0 \<or> P (sz - 1)) \<and> (\<forall>b. sz \<le> b \<and> b < N \<longrightarrow> \<not> P b) \<and>
    code = length (filter P [0 ..< sz])"
  using assms
proof (induction N arbitrary: sz code)
  case (Suc N)
  obtain l n where f: "fold (\<lambda>b (l, n). if P b then (b + 1, n + 1) else (l, n)) [0 ..< N] (0, 0) = (l, n :: nat)" by fastforce
  note IH = Suc.IH [OF f]
  have "[0 ..< N] = [0 ..< l] @ [l ..< N]" using IH upt_add_eq_append [of 0 l "N - l"] by simp
  moreover have "filter P [l ..< N] = []" using IH by (simp add: filter_empty_conv)
  ultimately have "length (filter P [0 ..< N]) = n" using IH by simp
  then show ?case using Suc.prems f IH by (auto simp: less_Suc_eq split: if_splits)
qed simp

subsection \<open>Cleaned outputs\<close>

definition outs_clean :: "CTxOut list \<Rightarrow> bool" where
  "outs_clean outs \<longleftrightarrow> outs = [] \<or> \<not> CTxOut_IsNull (last outs)"

lemma drop_trailing: "outs_clean outs \<longleftrightarrow> rev (dropWhile CTxOut_IsNull (rev outs)) = outs"
proof -
  have "rev (dropWhile CTxOut_IsNull (rev outs)) = outs \<longleftrightarrow> dropWhile CTxOut_IsNull (rev outs) = rev outs"
    by (metis rev_rev_ident)
  also have "\<dots> \<longleftrightarrow> outs_clean outs"
    unfolding dropWhile_eq_self_iff outs_clean_def by (auto simp: hd_rev)
  finally show ?thesis by blast
qed

lemma drop_trailing_clean: "outs_clean (rev (dropWhile CTxOut_IsNull (rev outs)))"
  using hd_dropWhile [of CTxOut_IsNull "rev outs"] by (auto simp: outs_clean_def last_rev)

lemma drop_trailing_null:
  "list_all CTxOut_IsNull xs \<Longrightarrow> rev (dropWhile CTxOut_IsNull (rev (outs @ xs))) = rev (dropWhile CTxOut_IsNull (rev outs))"
  using dropWhile_append2 [of "rev xs" CTxOut_IsNull "rev outs"] by (auto simp: list_all_iff)

lemma clean_below_mask:
  assumes "outs_clean outs" "CalcMaskSize c = (sz, code)" "coins_vout c = outs"
  shows "length outs \<le> 2 + 8 * sz"
proof (rule ccontr)
  assume "\<not> length outs \<le> 2 + 8 * sz"
  then have n: "2 + 8 * sz < length outs" by simp
  define b where "b = (length outs - 3) div 8"
  define i where "i = (length outs - 3) mod 8"
  have at: "2 + b * 8 + i = length outs - 1" using n by (simp add: b_def i_def)
  have "\<not> CTxOut_IsNull (outs ! (length outs - 1))"
    using assms(1) n last_conv_nth [of outs] by (cases "outs = []") (auto simp: outs_clean_def)
  then have "mask_bit outs b i" using at n by (simp add: mask_bit_def)
  moreover have "i < 8" by (simp add: i_def)
  ultimately have "list_ex (mask_bit outs b) [0 ..< 8]" by (auto simp: list_ex_iff)
  moreover have "sz \<le> b" "b < mask_length outs" using n by (simp_all add: b_def mask_length_def)
  moreover have "\<forall>b. sz \<le> b \<and> b < mask_length outs \<longrightarrow> \<not> list_ex (mask_bit outs b) [0 ..< 8]"
    using CalcMaskSize_loop [of "\<lambda>b. list_ex (mask_bit outs b) [0 ..< 8]" "mask_length outs" sz code] assms(2,3)
    by (simp add: CalcMaskSize_def)
  ultimately show False by blast
qed

text \<open>The availability that the header and the mask describe, output by output.\<close>

lemma availability_list:
  assumes "length outs \<le> 2 + 8 * sz"
  shows "[0 < length outs \<and> \<not> CTxOut_IsNull (outs ! 0), 1 < length outs \<and> \<not> CTxOut_IsNull (outs ! 1)] @
      concat (map (\<lambda>b. map (mask_bit outs b) [0 ..< 8]) [0 ..< sz]) =
    map (\<lambda>out. \<not> CTxOut_IsNull out) (outs @ replicate (2 + 8 * sz - length outs) CTxOut_SetNull)" (is "?l = ?r")
proof (rule nth_equalityI)
  define avail where "avail j \<longleftrightarrow> j < length outs \<and> \<not> CTxOut_IsNull (outs ! j)" for j
  have c: "concat (map (\<lambda>b. map (mask_bit outs b) [0 ..< 8]) [0 ..< m]) = map avail [2 ..< 2 + 8 * m]" for m
  proof (induction m)
    case (Suc m)
    have "map (mask_bit outs m) [0 ..< 8] = map avail [2 + 8 * m ..< 2 + 8 * Suc m]"
      by (rule nth_equalityI) (simp_all add: mask_bit_def avail_def algebra_simps)
    moreover have "[2 ..< 2 + 8 * Suc m] = [2 ..< 2 + 8 * m] @ [2 + 8 * m ..< 2 + 8 * Suc m]"
      using upt_add_eq_append [of 2 "2 + 8 * m" 8] by (simp add: algebra_simps)
    ultimately show ?case using Suc by simp
  qed simp
  have "?l = map avail ([0, 1] @ [2 ..< 2 + 8 * sz])" by (simp add: c avail_def)
  also have "[0, 1] @ [2 ..< 2 + 8 * sz] = [0 ..< 2 + 8 * sz]" by (simp add: upt_conv_Cons numeral_2_eq_2)
  finally have l: "?l = map avail [0 ..< 2 + 8 * sz]" .
  show "length ?l = length ?r" unfolding l using assms by simp
  fix j assume "j < length ?l"
  then have "j < 2 + 8 * sz" unfolding l by simp
  moreover from this have "map avail [0 ..< 2 + 8 * sz] ! j = avail j" by (simp del: upt_Suc)
  ultimately show "?l ! j = ?r ! j" unfolding l using assms
    by (auto simp: avail_def nth_append CTxOut_SetNull_def CTxOut_IsNull_def)
qed

subsection \<open>Coins read back\<close>

text \<open>Outputs that the compressed form covers, and coins that can be written.\<close>

definition out_ok :: "CTxOut \<Rightarrow> bool" where
  "out_ok out \<longleftrightarrow>
     (if CTxOut_IsNull out then out = CTxOut_SetNull
      else out = mk_CTxOut (nValue out) (scriptPubKey out) \<and> 0 \<le> nValue out \<and> nValue out \<le> 20 * MAX_MONEY \<and>
        length (scriptPubKey out) + nSpecialScripts < 2 ^ 32)"

definition coins_ok :: "CCoins \<Rightarrow> bool" where
  "coins_ok c \<longleftrightarrow> list_all out_ok (coins_vout c) \<and> outs_clean (coins_vout c) \<and> coins_vout c \<noteq> [] \<and>
     length (coins_vout c) < 2 ^ 31 \<and> 0 \<le> coins_nVersion c \<and> coins_nVersion c < 2 ^ 31 \<and>
     0 \<le> coins_nHeight c \<and> coins_nHeight c < 2 ^ 31"

lemma write_outs_pad: "write_outs fv (outs @ replicate k CTxOut_SetNull) = write_outs fv outs"
proof (induction outs)
  case Nil
  show ?case by (induction k) (simp_all add: CTxOut_SetNull_def CTxOut_IsNull_def)
next
  case (Cons out outs)
  then show ?case by simp
qed

lemma outs_read_back:
  assumes "curve_ok fv dk"
  shows "list_all out_ok outs \<Longrightarrow> \<exists>data. write_outs fv outs = Some data \<and>
    (\<forall>rest. read_outs dk (map (\<lambda>out. \<not> CTxOut_IsNull out) outs) (data @ rest) = Inr (outs, rest))"
proof (induction outs)
  case (Cons out outs)
  from Cons obtain data where d: "write_outs fv outs = Some data"
      "\<forall>rest. read_outs dk (map (\<lambda>out. \<not> CTxOut_IsNull out) outs) (data @ rest) = Inr (outs, rest)" by auto
  show ?case
  proof (cases "CTxOut_IsNull out")
    case True
    then show ?thesis using d Cons.prems by (simp add: rd_then_def rd_return_def out_ok_def)
  next
    case False
    then have o: "out = mk_CTxOut (nValue out) (scriptPubKey out)" "0 \<le> nValue out" "nValue out \<le> 20 * MAX_MONEY"
        "length (scriptPubKey out) + nSpecialScripts < 2 ^ 32"
      using Cons.prems by (simp_all add: out_ok_def)
    have ex: "\<exists>b. Serialize_CTxOutCompressor fv out = Some b \<and>
        Unserialize_CTxOutCompressor dk (b @ rest) = Inr (out, rest)" for rest
      using CTxOutCompressor_reads_back [OF assms o(2-4), of rest] o(1) by simp
    then obtain b where b: "Serialize_CTxOutCompressor fv out = Some b" by blast
    then have "Unserialize_CTxOutCompressor dk (b @ rest) = Inr (out, rest)" for rest using ex [of rest] by simp
    then show ?thesis using False b d by (simp add: rd_then_def rd_return_def)
  qed
qed (simp add: rd_return_def)

lemma varint_int_reads_back:
  assumes "0 \<le> n" "n < 2 ^ 31"
  shows "ReadVarInt_int (WriteVarInt_int n @ rest) = Inr (n, rest)"
proof -
  have "nat n < 2 ^ 32" using assms(2) by (simp add: nat_less_iff)
  moreover have "sint (of_nat (nat n) :: u32) = n"
    using assms by (simp add: sint_sbintrunc' signed_take_bit_int_eq_self)
  ultimately show ?thesis using assms(1) ReadVarInt_WriteVarInt [of "nat n" 32 rest]
    by (simp add: ReadVarInt_int_def WriteVarInt_int_def rd_then_def rd_return_def)
qed

lemma code_bits:
  fixes m a f s :: nat
  assumes "a \<le> 1" "f \<le> 1" "s \<le> 1"
  defines "n \<equiv> 8 * m + a + 2 * f + 4 * s"
  shows "of_nat n AND (1 :: u32) \<noteq> 0 \<longleftrightarrow> a = 1" "of_nat n AND (2 :: u32) \<noteq> 0 \<longleftrightarrow> f = 1"
    "of_nat n AND (4 :: u32) \<noteq> 0 \<longleftrightarrow> s = 1" "of_nat n AND (6 :: u32) \<noteq> 0 \<longleftrightarrow> f = 1 \<or> s = 1" "n div 8 = m"
proof -
  have b: "of_nat n AND (2 ^ k :: u32) \<noteq> 0 \<longleftrightarrow> odd (n div 2 ^ k)" if "k < 32" for k
  proof -
    have "of_nat n AND (2 ^ k :: u32) \<noteq> 0 \<longleftrightarrow> bit (of_nat n :: u32) k"
      by (simp add: bit_iff_and_push_bit_not_eq_0)
    also have "\<dots> \<longleftrightarrow> bit n k" using that by (simp add: bit_of_nat_iff)
    finally show ?thesis by (simp add: bit_iff_odd)
  qed
  have cases: "a = 0 \<or> a = 1" "f = 0 \<or> f = 1" "s = 0 \<or> s = 1" using assms(1-3) by auto
  have d: "n div 2 = 4 * m + f + 2 * s" "n div 4 = 2 * m + s" "n div 8 = m" "odd n \<longleftrightarrow> a = 1"
    using cases unfolding n_def by auto
  show 1: "of_nat n AND (1 :: u32) \<noteq> 0 \<longleftrightarrow> a = 1" using b [of 0] d by simp
  show 2: "of_nat n AND (2 :: u32) \<noteq> 0 \<longleftrightarrow> f = 1" using b [of 1] d cases by auto
  show 4: "of_nat n AND (4 :: u32) \<noteq> 0 \<longleftrightarrow> s = 1" using b [of 2] d cases by auto
  have "(6 :: u32) = 2 OR 4" by simp
  then show "of_nat n AND (6 :: u32) \<noteq> 0 \<longleftrightarrow> f = 1 \<or> s = 1"
    using 2 4 by (simp only: bit.conj_disj_distrib or_eq_0_iff) simp
  show "n div 8 = m" using d by simp
qed

lemma code_less:
  assumes "CalcMaskSize c = (sz, code)" "length (coins_vout c) < 2 ^ 31"
  shows "coins_code c code < 2 ^ 32"
proof -
  have "code \<le> sz" "sz \<le> mask_length (coins_vout c)"
    using CalcMaskSize_loop [of "\<lambda>b. list_ex (mask_bit (coins_vout c) b) [0 ..< 8]" "mask_length (coins_vout c)" sz code]
      assms(1) length_filter_le [of "\<lambda>b. list_ex (mask_bit (coins_vout c) b) [0 ..< 8]" "[0 ..< sz]"]
    by (auto simp: CalcMaskSize_def)
  then have "8 * code \<le> length (coins_vout c) + 7" by (simp add: mask_length_def)
  then show ?thesis using assms(2) by (auto simp: coins_code_def Let_def)
qed

text \<open>The mask that is written is read as the availability of every output.\<close>

lemma mask_reads_back:
  assumes "CalcMaskSize c = (sz, code)" "outs_clean (coins_vout c)"
    and "outs = coins_vout c @ replicate (2 + 8 * sz - length (coins_vout c)) CTxOut_SetNull"
  shows "read_mask code [0 < length (coins_vout c) \<and> \<not> CTxOut_IsNull (coins_vout c ! 0),
      1 < length (coins_vout c) \<and> \<not> CTxOut_IsNull (coins_vout c ! 1)]
      (map (mask_byte (coins_vout c)) [0 ..< sz] @ rest) = Inr (map (\<lambda>out. \<not> CTxOut_IsNull out) outs, rest)"
proof -
  let ?bs = "map (mask_byte (coins_vout c)) [0 ..< sz]"
  let ?P = "\<lambda>b. list_ex (mask_bit (coins_vout c) b) [0 ..< 8]"
  have m: "sz = 0 \<or> ?P (sz - 1)" "code = length (filter ?P [0 ..< sz])"
    using CalcMaskSize_loop [of ?P "mask_length (coins_vout c)" sz code] assms(1) by (auto simp: CalcMaskSize_def)
  have "code = length (filter (\<lambda>b. b \<noteq> 0) ?bs)"
    unfolding m(2) filter_map length_map by (simp only: comp_def mask_byte_zero)
  moreover have "?bs = [] \<or> last ?bs \<noteq> 0" using m(1) mask_byte_zero by (cases sz) auto
  moreover have "map byte_bits ?bs = map (\<lambda>b. map (mask_bit (coins_vout c) b) [0 ..< 8]) [0 ..< sz]"
    by (simp only: map_map comp_def byte_bits_mask)
  moreover have "length (coins_vout c) \<le> 2 + 8 * sz" by (rule clean_below_mask [OF assms(2,1)]) simp
  ultimately show ?thesis unfolding assms(3) using read_mask_bytes [of ?bs] by (simp only: availability_list)
qed

lemma CCoins_reads_back:
  assumes "curve_ok fv dk" "coins_ok c"
  shows "\<exists>data. Serialize_CCoins fv c = Some data \<and> Unserialize_CCoins dk (data @ rest) = Inr (c, rest)"
proof -
  obtain sz code where m: "CalcMaskSize c = (sz, code)" by fastforce
  let ?vs = "coins_vout c"
  let ?f = "0 < length ?vs \<and> \<not> CTxOut_IsNull (?vs ! 0)"
  let ?s = "1 < length ?vs \<and> \<not> CTxOut_IsNull (?vs ! 1)"
  have ok: "list_all out_ok ?vs" "outs_clean ?vs" "?vs \<noteq> []" "length ?vs < 2 ^ 31" "0 \<le> coins_nVersion c"
      "coins_nVersion c < 2 ^ 31" "0 \<le> coins_nHeight c" "coins_nHeight c < 2 ^ 31"
    using assms(2) by (simp_all add: coins_ok_def)
  define outs where "outs = ?vs @ replicate (2 + 8 * sz - length ?vs) CTxOut_SetNull"
  have "out_ok CTxOut_SetNull" by (simp add: out_ok_def CTxOut_IsNull_def CTxOut_SetNull_def)
  then have "list_all out_ok outs" using ok(1) by (auto simp: outs_def list_all_iff)
  then obtain body where "write_outs fv outs = Some body" and
      body: "\<And>rest. read_outs dk (map (\<lambda>out. \<not> CTxOut_IsNull out) outs) (body @ rest) = Inr (outs, rest)"
    using outs_read_back [OF assms(1), of outs] by blast
  then have w: "write_outs fv ?vs = Some body" by (simp add: outs_def write_outs_pad)
  note mask = mask_reads_back [OF m ok(2) outs_def]
  have some: "?f \<or> ?s \<or> code \<noteq> 0"
  proof (rule ccontr)
    assume none: "\<not> (?f \<or> ?s \<or> code \<noteq> 0)"
    have "read_mask 0 [?f, ?s] (map (mask_byte ?vs) [0 ..< sz] @ []) = Inr (map (\<lambda>out. \<not> CTxOut_IsNull out) outs, [])"
      using mask [of "[]"] none by simp
    then have e: "map (\<lambda>out. \<not> CTxOut_IsNull out) outs = [?f, ?s]" by simp
    have no: "\<not> ?f" "\<not> ?s" using none by blast+
    have "CTxOut_IsNull out" if "out \<in> set outs" for out
    proof -
      have "(\<not> CTxOut_IsNull out) \<in> set (map (\<lambda>out. \<not> CTxOut_IsNull out) outs)"
        using that by (rule image_eqI [OF refl, THEN set_map [THEN equalityD2, THEN subsetD]])
      then show ?thesis unfolding e using no by auto
    qed
    then show False using ok(2,3) last_in_set [OF ok(3)] by (auto simp: outs_def outs_clean_def)
  qed
  define n where "n = coins_code c code"
  define a :: nat where "a = (if fCoinBase c then 1 else 0)"
  define f :: nat where "f = (if ?f then 1 else 0)"
  define s :: nat where "s = (if ?s then 1 else 0)"
  define k where "k = code - (if ?f \<or> ?s then 0 else 1)"
  have n: "n = 8 * k + a + 2 * f + 4 * s"
    by (simp add: n_def coins_code_def Let_def k_def a_def f_def s_def)
  have le: "a \<le> 1" "f \<le> 1" "s \<le> 1" by (simp_all add: a_def f_def s_def)
  have bits: "of_nat n AND (1 :: u32) \<noteq> 0 \<longleftrightarrow> fCoinBase c" "of_nat n AND (2 :: u32) \<noteq> 0 \<longleftrightarrow> ?f"
      "of_nat n AND (4 :: u32) \<noteq> 0 \<longleftrightarrow> ?s" "of_nat n AND (6 :: u32) \<noteq> 0 \<longleftrightarrow> ?f \<or> ?s" "n div 8 = k"
    unfolding n using code_bits [OF le, of k] by (simp_all add: a_def f_def s_def)
  have code: "n div 8 + (if of_nat n AND (6 :: u32) \<noteq> 0 then 0 else 1) = code"
    using bits some by (auto simp: k_def)
  have n32: "ReadVarInt 32 (WriteVarInt n @ r) = Inr (n, r)" for r
    using ReadVarInt_WriteVarInt [of n 32] code_less [OF m ok(4)] by (simp add: n_def)
  have clean: "Cleanup \<lparr>fCoinBase = fCoinBase c, coins_vout = outs, coins_nHeight = coins_nHeight c,
      coins_nVersion = coins_nVersion c\<rparr> = c"
    using drop_trailing [THEN iffD1, OF ok(2)]
      drop_trailing_null [of "replicate (2 + 8 * sz - length ?vs) CTxOut_SetNull" ?vs]
    by (cases c) (simp add: Cleanup_def outs_def CTxOut_IsNull_def CTxOut_SetNull_def list_all_iff)
  define data where "data = WriteVarInt_int (coins_nVersion c) @ WriteVarInt n @ map (mask_byte ?vs) [0 ..< sz] @ body @
      WriteVarInt_int (coins_nHeight c)"
  have "Serialize_CCoins fv c = Some data"
    using some w by (simp add: Serialize_CCoins_def Let_def m n_def data_def del: One_nat_def)
  moreover have "Unserialize_CCoins dk (data @ rest) = Inr (c, rest)"
    unfolding Unserialize_CCoins_def data_def Let_def
    by (simp add: rd_then_def varint_int_reads_back [OF ok(5,6)] varint_int_reads_back [OF ok(7,8)] n32 code bits(1,2,3) mask body clean rd_return_def
        del: One_nat_def length_greater_0_conv)
  ultimately show ?thesis by blast
qed

subsection \<open>What a view shows\<close>

lemma is_dirty_bit: "is_dirty e \<longleftrightarrow> bit (ce_flags e) 0"
  by (simp add: is_dirty_def DIRTY_def bit_iff_and_push_bit_not_eq_0)

lemma is_fresh_bit: "is_fresh e \<longleftrightarrow> bit (ce_flags e) 1"
  by (simp add: is_fresh_def FRESH_def bit_iff_and_push_bit_not_eq_0)

lemma DIRTY_bit: "bit DIRTY n \<longleftrightarrow> n = 0"
  by (auto simp: DIRTY_def bit_1_iff)

lemma FRESH_bit: "bit FRESH n \<longleftrightarrow> n = 1"
  by (auto simp: FRESH_def bit_exp_iff [of 1, simplified])

lemmas flag_simps = is_dirty_bit is_fresh_bit DIRTY_bit FRESH_bit bit_or_iff

text \<open>Coins without outputs count as absent.\<close>

definition live :: "CCoins \<Rightarrow> CCoins option" where
  "live c = (if IsPruned c then None else Some c)"

fun visible :: "CCoinsView \<Rightarrow> uint256 \<Rightarrow> CCoins option" where
  "visible CoinsNone t = None"
| "visible (CoinsBacked base) t = visible base t"
| "visible (CoinsDB d) t = None"
| "visible (CoinsCache c base) t =
     (case map_of (cacheCoins c) t of Some e \<Rightarrow> Some (ce_coins e) | None \<Rightarrow> visible base t)"

definition unspent :: "CCoinsView \<Rightarrow> uint256 \<Rightarrow> CCoins option" where
  "unspent v t = Option.bind (visible v t) live"

text \<open>An entry over a base that shows \<open>u\<close>.\<close>

definition entry_ok :: "(uint256 \<Rightarrow> CCoins option) \<Rightarrow> uint256 \<Rightarrow> CCoinsCacheEntry \<Rightarrow> bool" where
  "entry_ok u t e \<longleftrightarrow> (is_dirty e \<or> live (ce_coins e) = u t) \<and> (is_fresh e \<longrightarrow> u t = None) \<and>
     outs_clean (coins_vout (ce_coins e))"

definition cache_ok :: "(uint256 \<Rightarrow> CCoins option) \<Rightarrow> CCoinsMap \<Rightarrow> bool" where
  "cache_ok u m \<longleftrightarrow> distinct (map fst m) \<and> (\<forall>t e. map_of m t = Some e \<longrightarrow> entry_ok u t e)"

fun view_ok :: "CCoinsView \<Rightarrow> bool" where
  "view_ok CoinsNone \<longleftrightarrow> True"
| "view_ok (CoinsBacked base) \<longleftrightarrow> view_ok base"
| "view_ok (CoinsDB d) \<longleftrightarrow> True"
| "view_ok (CoinsCache c base) \<longleftrightarrow> view_ok base \<and> cache_ok (unspent base) (cacheCoins c)"

definition shown :: "CCoinsMap \<Rightarrow> (uint256 \<Rightarrow> CCoins option) \<Rightarrow> uint256 \<Rightarrow> CCoins option" where
  "shown m u t = (case map_of m t of Some e \<Rightarrow> live (ce_coins e) | None \<Rightarrow> u t)"

lemma unspent_cache: "unspent (CoinsCache c base) = shown (cacheCoins c) (unspent base)"
  by (rule ext) (simp add: unspent_def shown_def split: option.splits)

lemma cache_ok_update:
  "cache_ok u m \<Longrightarrow> entry_ok u t e \<Longrightarrow> cache_ok u (AList.update t e m)"
  by (auto simp: cache_ok_def update_conv' distinct_update)

lemma cache_ok_delete: "cache_ok u m \<Longrightarrow> cache_ok u (AList.delete t m)"
  by (auto simp: cache_ok_def delete_conv' distinct_delete split: if_splits)

lemma shown_update: "shown (AList.update t e m) u = (shown m u)(t := live (ce_coins e))"
  by (rule ext) (simp add: shown_def update_conv')

lemma shown_delete: "shown (AList.delete t m) u = (shown m u)(t := u t)"
  by (rule ext) (simp add: shown_def delete_conv')

lemma live_live: "Option.bind (live c) live = live c"
  by (simp add: live_def)

lemma visible_clean:
  "view_ok v \<Longrightarrow> visible v t = Some c \<Longrightarrow> outs_clean (coins_vout c)"
  by (induction v) (auto simp: cache_ok_def entry_ok_def split: option.splits)

subsection \<open>Reading changes nothing that is shown\<close>

lemma GetCoins_Fetch:
  "GetCoins t (CoinsCache c base) =
     (case FetchCoins t c base of (it, c, base) \<Rightarrow> (map_option ce_coins it, CoinsCache c base))"
  by (simp add: FetchCoins_def split: option.splits prod.splits)

lemma fst_GetCoins: "fst (GetCoins t v) = visible v t"
  by (induction v) (auto simp: fill_def CCoinsView_GetCoins_def Let_def split: option.splits prod.splits)

lemma fill_ok:
  assumes "view_ok (CoinsCache c base)" "map_of (cacheCoins c) t = None"
    and g: "GetCoins t base = (r, base')" "view_ok base'" "unspent base' = unspent base"
    and f: "fill t c (r, base') = (it, c', b')"
  shows "view_ok (CoinsCache c' b') \<and> unspent (CoinsCache c' b') = unspent (CoinsCache c base) \<and> unspent b' = unspent base \<and>
    hasModifier c' = hasModifier c \<and> cache_hashBlock c' = cache_hashBlock c \<and> map_option ce_coins it = visible base t \<and>
    it = map_of (cacheCoins c') t"
proof -
  have r: "r = visible base t" using fst_GetCoins [of t base] g(1) by simp
  show ?thesis
  proof (cases r)
    case None
    then show ?thesis using f assms(1,2) g(2,3) r by (auto simp: fill_def unspent_cache)
  next
    case (Some tmp)
    define e where "e = \<lparr>ce_coins = tmp, ce_flags = (if IsPruned tmp then FRESH else 0)\<rparr>"
    have l: "unspent base t = live tmp" using r [symmetric] Some by (simp add: unspent_def)
    have "outs_clean (coins_vout tmp)" using visible_clean [of base t tmp] assms(1) r Some by simp
    then have "entry_ok (unspent base) t e"
      using l by (auto simp: entry_ok_def e_def flag_simps live_def split: if_splits)
    moreover have "c' = c\<lparr>cacheCoins := AList.update t e (cacheCoins c)\<rparr>" "b' = base'" "it = Some e"
      using f Some by (auto simp: fill_def e_def Let_def)
    moreover have "(shown (cacheCoins c) (unspent base))(t := live tmp) = shown (cacheCoins c) (unspent base)"
      using l assms(2) by (auto simp: shown_def)
    ultimately show ?thesis using assms(1) g(2,3) r Some
      by (simp add: unspent_cache shown_update cache_ok_update e_def update_conv')
  qed
qed

lemma GetCoins_ok: "view_ok v \<Longrightarrow> view_ok (snd (GetCoins t v)) \<and> unspent (snd (GetCoins t v)) = unspent v"
proof (induction v)
  case (CoinsBacked base)
  then show ?case by (cases "GetCoins t base") (auto simp: unspent_def fun_eq_iff)
next
  case (CoinsCache c base)
  show ?case
  proof (cases "map_of (cacheCoins c) t")
    case None
    obtain r base' where g: "GetCoins t base = (r, base')" by fastforce
    obtain it c' b' where f: "fill t c (r, base') = (it, c', b')" by (rule prod_cases3)
    have "view_ok base'" "unspent base' = unspent base" using CoinsCache g by auto
    from fill_ok [OF CoinsCache.prems None g this f] show ?thesis using None g f by auto
  qed (use CoinsCache in simp)
qed simp_all

lemma FetchCoins_ok:
  assumes "view_ok (CoinsCache c base)" "FetchCoins t c base = (it, c', base')"
  shows "view_ok (CoinsCache c' base') \<and> unspent (CoinsCache c' base') = unspent (CoinsCache c base) \<and>
    unspent base' = unspent base \<and> hasModifier c' = hasModifier c \<and> cache_hashBlock c' = cache_hashBlock c \<and>
    map_option ce_coins it = visible (CoinsCache c base) t \<and> it = map_of (cacheCoins c') t"
proof (cases "map_of (cacheCoins c) t")
  case None
  obtain r base'' where g: "GetCoins t base = (r, base'')" by fastforce
  have ok: "view_ok base''" "unspent base'' = unspent base" using GetCoins_ok [of base t] assms(1) g by auto
  have "fill t c (r, base'') = (it, c', base')" using assms(2) None g by (simp add: FetchCoins_def)
  from fill_ok [OF assms(1) None g ok this] show ?thesis using None by auto
next
  case (Some e)
  then have "it = Some e" "c' = c" "base' = base" using assms(2) by (simp_all add: FetchCoins_def)
  then show ?thesis using Some assms(1) by simp
qed

lemma HaveCoins_ok:
  assumes "view_ok (CoinsCache c base)"
  shows "fst (HaveCoins t (CoinsCache c base)) \<longleftrightarrow> unspent (CoinsCache c base) t \<noteq> None"
proof -
  obtain it c' base' where f: "FetchCoins t c base = (it, c', base')" by (rule prod_cases3)
  note ok = FetchCoins_ok [OF assms f]
  show ?thesis
  proof (cases it)
    case (Some e)
    then have v: "visible (CoinsCache c base) t = Some (ce_coins e)" using ok by (auto simp del: visible.simps)
    then have "outs_clean (coins_vout (ce_coins e))" by (rule visible_clean [OF assms])
    then have "coins_vout (ce_coins e) \<noteq> [] \<longleftrightarrow> \<not> IsPruned (ce_coins e)"
      by (auto simp: outs_clean_def IsPruned_def list_all_iff dest: last_in_set)
    then show ?thesis using f Some v unfolding unspent_def by (simp add: live_def)
  next
    case None
    then have "visible (CoinsCache c base) t = None" using ok by (auto simp del: visible.simps)
    then show ?thesis using f None unfolding unspent_def by simp
  qed
qed

subsection \<open>Modifications\<close>

lemma map_of_open [simp]:
  "map_of (cacheCoins (open_modifier c t e)) t = Some (e\<lparr>ce_flags := ce_flags e OR DIRTY\<rparr>)"
  "hasModifier (open_modifier c t e)"
  by (simp_all add: open_modifier_def update_conv')

lemma shown_delete_update [simp]:
  "AList.delete t (AList.update t e m) = AList.delete t m"
  "AList.update t e (AList.update t e' m) = AList.update t e m"
  by (induction m) auto

text \<open>Opening with entry \<open>e\<close>, changing the coins by \<open>f\<close> and closing.\<close>

lemma modifier_cycle:
  assumes "cache_ok u (cacheCoins c)" "\<not> hasModifier c" "is_fresh e \<longrightarrow> u t = None"
  shows "\<exists>c'. close_modifier t (use_modifier f t (open_modifier c t e)) = Some c' \<and> \<not> hasModifier c' \<and>
    cache_ok u (cacheCoins c') \<and> shown (cacheCoins c') u = (shown (cacheCoins c) u)(t := live (Cleanup (f (ce_coins e)))) \<and>
    cache_hashBlock c' = cache_hashBlock c"
proof -
  define d where "d = \<lparr>ce_coins = Cleanup (f (ce_coins e)), ce_flags = ce_flags e OR DIRTY\<rparr>"
  define c' where "c' = c\<lparr>hasModifier := False, cacheCoins := (if is_fresh e \<and> IsPruned (ce_coins d)
      then AList.delete t (cacheCoins c) else AList.update t d (cacheCoins c))\<rparr>"
  have "is_fresh d = is_fresh e" by (simp add: d_def flag_simps)
  moreover have "e\<lparr>ce_flags := ce_flags e OR DIRTY, ce_coins := Cleanup (f (ce_coins e))\<rparr> = d"
    by (cases e) (simp add: d_def)
  ultimately have step: "close_modifier t (use_modifier f t (open_modifier c t e)) = Some c'"
    unfolding use_modifier_def close_modifier_def
    by (simp add: update_conv' Let_def c'_def) (cases c; simp add: open_modifier_def d_def flag_simps)
  have "entry_ok u t d"
    using assms(3) drop_trailing_clean by (simp add: entry_ok_def d_def flag_simps Cleanup_def)
  then have ok: "cache_ok u (cacheCoins c')"
    using assms(1) by (simp add: c'_def cache_ok_update cache_ok_delete)
  have "shown (cacheCoins c') u = (shown (cacheCoins c) u)(t := live (Cleanup (f (ce_coins e))))"
  proof (cases "is_fresh e \<and> IsPruned (ce_coins d)")
    case True
    then show ?thesis using assms(3) by (simp add: c'_def shown_delete) (simp add: d_def live_def)
  next
    case False
    then show ?thesis by (auto simp: c'_def shown_update) (auto simp: d_def)
  qed
  then show ?thesis using step ok by (simp add: c'_def)
qed

text \<open>The coins that a modifier starts from.\<close>

definition modified_coins :: "CCoinsView \<Rightarrow> uint256 \<Rightarrow> CCoins" where
  "modified_coins v t = (case visible v t of Some c \<Rightarrow> c | None \<Rightarrow> coins_Clear)"

lemma modify_coins_ok:
  assumes ok: "view_ok (CoinsCache c base)" and m: "\<not> hasModifier c"
  shows "\<exists>c' base'. modify_coins f t c base = Some (c', base') \<and> view_ok (CoinsCache c' base') \<and> \<not> hasModifier c' \<and>
    unspent (CoinsCache c' base') = (unspent (CoinsCache c base))
      (t := live (Cleanup (f (modified_coins (CoinsCache c base) t)))) \<and>
    unspent base' = unspent base \<and> cache_hashBlock c' = cache_hashBlock c"
proof -
  let ?u = "unspent base"
  have co: "cache_ok ?u (cacheCoins c)" using ok by simp
  have fin: ?thesis
    if "ModifyCoins t c base = Some (open_modifier c t e, base')" "view_ok base'" "unspent base' = ?u"
      "is_fresh e \<longrightarrow> ?u t = None" "ce_coins e = modified_coins (CoinsCache c base) t" for e base'
    using modifier_cycle [OF co m that(4), of f] that
    by (auto simp: modify_coins_def unspent_cache)
  show ?thesis
  proof (cases "map_of (cacheCoins c) t")
    case (Some e)
    have "is_fresh e \<longrightarrow> ?u t = None" using co Some by (auto simp: cache_ok_def entry_ok_def)
    then show ?thesis using fin [of e base] Some m ok by (simp add: ModifyCoins_def modified_coins_def)
  next
    case None
    obtain r base' where g: "GetCoins t base = (r, base')" by fastforce
    have base': "view_ok base'" "unspent base' = ?u" using GetCoins_ok [of base t] ok g by auto
    have r: "visible base t = r" using fst_GetCoins [of t base] g by simp
    show ?thesis
    proof (cases r)
      case N: None
      then show ?thesis
        using fin [of "\<lparr>ce_coins = coins_Clear, ce_flags = FRESH\<rparr>" base'] None m g base' r
        by (simp add: ModifyCoins_def modified_coins_def unspent_def)
    next
      case (Some x)
      have "is_fresh \<lparr>ce_coins = x, ce_flags = (if IsPruned x then FRESH else 0)\<rparr> \<longrightarrow> ?u t = None"
        using r Some by (simp add: unspent_def live_def flag_simps)
      then show ?thesis
        using fin [of "\<lparr>ce_coins = x, ce_flags = (if IsPruned x then FRESH else 0)\<rparr>" base'] None m g base' r Some
        by (simp add: ModifyCoins_def modified_coins_def)
    qed
  qed
qed

lemma modify_new_coins_ok:
  assumes "view_ok (CoinsCache c base)" "\<not> hasModifier c" "unspent base t = None"
  shows "\<exists>c'. modify_new_coins f t c = Some c' \<and> view_ok (CoinsCache c' base) \<and> \<not> hasModifier c' \<and>
    unspent (CoinsCache c' base) = (unspent (CoinsCache c base))(t := live (Cleanup (f coins_Clear))) \<and>
    cache_hashBlock c' = cache_hashBlock c"
  using modifier_cycle [of "unspent base" c "\<lparr>ce_coins = coins_Clear, ce_flags = FRESH\<rparr>" t f] assms
  by (auto simp: modify_new_coins_def ModifyNewCoins_def unspent_cache)

subsection \<open>Writing back\<close>

lemma batch_entry_ok:
  assumes "cache_ok u us" "entry_ok (shown us u) t e"
  shows "cache_ok u (batch_entry (t, e) us) \<and> shown (batch_entry (t, e) us) u = (shown us u)(t := live (ce_coins e))"
proof (cases "is_dirty e")
  case False
  then show ?thesis using assms by (auto simp: batch_entry_def entry_ok_def)
next
  case True
  have clean: "outs_clean (coins_vout (ce_coins e))" using assms(2) by (simp add: entry_ok_def)
  show ?thesis
  proof (cases "map_of us t")
    case None
    then have u: "shown us u t = u t" by (simp add: shown_def)
    show ?thesis
    proof (cases "is_fresh e \<and> IsPruned (ce_coins e)")
      case P: True
      then show ?thesis using True None assms u by (auto simp: batch_entry_def entry_ok_def live_def)
    next
      case P: False
      define d where "d = \<lparr>ce_coins = ce_coins e, ce_flags = (if is_fresh e then DIRTY OR FRESH else DIRTY)\<rparr>"
      have "batch_entry (t, e) us = AList.update t d us" using True None P by (auto simp: batch_entry_def d_def)
      moreover have "entry_ok u t d" using assms(2) u clean by (auto simp: entry_ok_def d_def flag_simps)
      ultimately show ?thesis using assms(1) by (simp add: cache_ok_update shown_update) (simp add: d_def)
    qed
  next
    case (Some us_e)
    have fresh: "is_fresh us_e \<longrightarrow> u t = None" using assms(1) Some by (auto simp: cache_ok_def entry_ok_def)
    show ?thesis
    proof (cases "is_fresh us_e \<and> IsPruned (ce_coins e)")
      case P: True
      then show ?thesis using True Some assms(1) fresh
        by (simp add: batch_entry_def cache_ok_delete shown_delete live_def)
    next
      case P: False
      define d where "d = \<lparr>ce_coins = ce_coins e, ce_flags = ce_flags us_e OR DIRTY\<rparr>"
      have "batch_entry (t, e) us = AList.update t d us" using True Some P by (auto simp: batch_entry_def d_def)
      moreover have "entry_ok u t d" using fresh clean by (auto simp: entry_ok_def d_def flag_simps)
      ultimately show ?thesis using assms(1) by (simp add: cache_ok_update shown_update) (simp add: d_def)
    qed
  qed
qed

lemma batch_ok:
  "cache_ok u us \<Longrightarrow> cache_ok (shown us u) m \<Longrightarrow>
     cache_ok u (fold batch_entry m us) \<and> shown (fold batch_entry m us) u = shown m (shown us u)"
proof (induction m arbitrary: us)
  case Nil
  then show ?case by (simp add: shown_def)
next
  case (Cons te m)
  obtain t e where te: "te = (t, e)" by fastforce
  have e: "entry_ok (shown us u) t e" using Cons.prems(2) te by (auto simp: cache_ok_def)
  define us' where "us' = batch_entry (t, e) us"
  note s = batch_entry_ok [OF Cons.prems(1) e, folded us'_def]
  have nt: "map_of m t = None" using Cons.prems(2) te by (auto simp: cache_ok_def map_of_eq_None_iff)
  have "entry_ok (shown us' u) t' e'" if m: "map_of m t' = Some e'" for t' e'
  proof -
    have "t' \<noteq> t" using nt m by auto
    moreover from this have "map_of (te # m) t' = Some e'" using m te by simp
    then have "entry_ok (shown us u) t' e'" using Cons.prems(2) unfolding cache_ok_def by blast
    ultimately show ?thesis using s by (simp add: entry_ok_def)
  qed
  then have "cache_ok (shown us' u) m" using Cons.prems(2) te by (simp add: cache_ok_def)
  from Cons.IH [OF conjunct1 [OF s] this] have "cache_ok u (fold batch_entry m us')"
      "shown (fold batch_entry m us') u = shown m (shown us' u)" by blast+
  moreover have "shown m (shown us' u) = shown (te # m) (shown us u)"
    unfolding conjunct2 [OF s] te by (rule ext) (use nt in \<open>auto simp: shown_def split: option.splits\<close>)
  ultimately show ?case using te by (simp add: us'_def)
qed

lemma BatchWrite_cache_ok:
  assumes "view_ok (CoinsCache c base)" "\<not> hasModifier c" "cache_ok (unspent (CoinsCache c base)) m"
  shows "\<exists>c'. BatchWrite (CoinsCache c base) m h = Some (True, CoinsCache c' base) \<and> view_ok (CoinsCache c' base) \<and>
    unspent (CoinsCache c' base) = shown m (unspent (CoinsCache c base)) \<and> \<not> hasModifier c' \<and> cache_hashBlock c' = h"
  using assms batch_ok [of "unspent base" "cacheCoins c" m]
  by (simp add: CCoinsViewCache_BatchWrite_def unspent_cache)

lemma Uncache_ok:
  assumes "view_ok (CoinsCache c base)"
  shows "view_ok (CoinsCache (Uncache t c) base) \<and> unspent (CoinsCache (Uncache t c) base) = unspent (CoinsCache c base)"
proof (cases "\<exists>e. map_of (cacheCoins c) t = Some e \<and> ce_flags e = 0")
  case True
  then obtain e where e: "map_of (cacheCoins c) t = Some e" "ce_flags e = 0" by blast
  have "entry_ok (unspent base) t e" using assms e(1) by (simp add: cache_ok_def)
  then have "live (ce_coins e) = unspent base t" using e(2) by (simp add: entry_ok_def flag_simps)
  then have "(shown (cacheCoins c) (unspent base))(t := unspent base t) = shown (cacheCoins c) (unspent base)"
    using e by (auto simp: shown_def)
  then show ?thesis using assms e by (simp add: Uncache_def unspent_cache shown_delete cache_ok_delete)
next
  case False
  then have "Uncache t c = c" by (auto simp: Uncache_def split: option.splits)
  then show ?thesis using assms by simp
qed

lemma write_entries:
  "distinct (map fst m) \<Longrightarrow> map_of (fold write_entry m coins) t =
     (case map_of m t of Some e \<Rightarrow> if is_dirty e then live (ce_coins e) else map_of coins t | None \<Rightarrow> map_of coins t)"
proof (induction m arbitrary: coins)
  case (Cons te m)
  obtain s e where te: "te = (s, e)" by fastforce
  have one: "map_of (write_entry (s, e) coins) t = (if t = s \<and> is_dirty e then live (ce_coins e) else map_of coins t)"
    by (simp add: write_entry_def update_conv' delete_conv' live_def)
  have nt: "map_of m s = None" using Cons.prems te by (auto simp: map_of_eq_None_iff)
  have "map_of (fold write_entry (te # m) coins) t = map_of (fold write_entry m (write_entry (s, e) coins)) t"
    using te by simp
  also have "\<dots> = (case map_of m t of
      Some x \<Rightarrow> if is_dirty x then live (ce_coins x) else map_of (write_entry (s, e) coins) t
    | None \<Rightarrow> map_of (write_entry (s, e) coins) t)"
    by (rule Cons.IH) (use Cons.prems te in simp)
  finally show ?case using nt te one by (cases "t = s") (auto split: option.splits)
qed simp

subsection \<open>Properties\<close>

text \<open>
  Coins that are written to the database are read back, whatever follows them: every
  output that is left, at every position, with the height, the version and the coinbase flag.  Of
  the curve it is only assumed that a valid key is found again from its compressed form.
\<close>

theorem CCoins_round_trip:
  assumes "curve_ok fully_valid decompress_key" "coins_ok c"
  shows "\<exists>data. Serialize_CCoins fully_valid c = Some data \<and>
    Unserialize_CCoins decompress_key (data @ rest) = Inr (c, rest)"
  by (rule CCoins_reads_back [OF assms])

lemma CCoins_round_trip_witness:
  "let c = \<lparr>fCoinBase = True, coins_vout = replicate 13 CTxOut_SetNull @ [mk_CTxOut 50 [0x51], CTxOut_SetNull, mk_CTxOut 7 [0x52]],
       coins_nHeight = 120891, coins_nVersion = 1\<rparr>
   in \<exists>data. Serialize_CCoins (\<lambda>k. False) c = Some data \<and> Unserialize_CCoins (\<lambda>k. None) (data @ [9]) = Inr (c, [9])"
  unfolding Let_def
  by (rule CCoins_round_trip)
    (simp_all add: curve_ok_def coins_ok_def out_ok_def outs_clean_def mk_CTxOut_def CTxOut_SetNull_def CTxOut_IsNull_def
      MAX_MONEY_def COIN_def nSpecialScripts_def list_all_iff)

text \<open>
  C6. A modification through a cache of any depth is a modification of the set that the view shows:
  the coins of one transaction become what the modifier made of them, nothing where nothing is left,
  and no other transaction changes; the view below shows what it showed.
\<close>

theorem modify_coins_refines:
  assumes "view_ok (CoinsCache c base)" "\<not> hasModifier c"
  shows "\<exists>c' base'. modify_coins f txid c base = Some (c', base') \<and> view_ok (CoinsCache c' base') \<and> \<not> hasModifier c' \<and>
    unspent (CoinsCache c' base') = (unspent (CoinsCache c base))
      (txid := live (Cleanup (f (modified_coins (CoinsCache c base) txid)))) \<and> unspent base' = unspent base"
  using modify_coins_ok [OF assms, of f txid] by blast

lemma modify_coins_refines_witness:
  "let c = \<lparr>hasModifier = False, cache_hashBlock = [], cacheCoins = []\<rparr> in
   \<exists>c' base'. modify_coins (\<lambda>_. \<lparr>fCoinBase = False, coins_vout = [mk_CTxOut 5 []], coins_nHeight = 3, coins_nVersion = 1\<rparr>)
       [1] c (CoinsCache c CoinsNone) = Some (c', base') \<and>
     unspent (CoinsCache c' base') [1] = Some \<lparr>fCoinBase = False, coins_vout = [mk_CTxOut 5 []], coins_nHeight = 3, coins_nVersion = 1\<rparr> \<and>
     unspent (CoinsCache c' base') [2] = None"
proof -
  define c where "c = \<lparr>hasModifier = False, cache_hashBlock = [], cacheCoins = []\<rparr>"
  have "view_ok (CoinsCache c (CoinsCache c CoinsNone))" "\<not> hasModifier c" by (simp_all add: c_def cache_ok_def)
  from modify_coins_refines [OF this, of "\<lambda>_. \<lparr>fCoinBase = False, coins_vout = [mk_CTxOut 5 []], coins_nHeight = 3, coins_nVersion = 1\<rparr>" "[1]"]
  show ?thesis unfolding Let_def c_def [symmetric]
    by (auto simp: c_def unspent_def [of "CoinsCache \<lparr>hasModifier = False, cache_hashBlock = [], cacheCoins = []\<rparr> _"]
        live_def Cleanup_def IsPruned_def mk_CTxOut_def CTxOut_IsNull_def)
qed

text \<open>
  C7. Flushing a cache into the cache below it loses nothing: the lower view then shows exactly what
  the upper one showed, with its block as the best block, the upper cache is empty and shows the
  same, and all entries are in order again.
\<close>

theorem Flush_keeps_unspent:
  assumes "view_ok (CoinsCache c (CoinsCache p base))" "\<not> hasModifier p"
  shows "\<exists>c' p'. Flush c (CoinsCache p base) = Some (True, c', CoinsCache p' base) \<and> cacheCoins c' = [] \<and>
    view_ok (CoinsCache c' (CoinsCache p' base)) \<and>
    unspent (CoinsCache p' base) = unspent (CoinsCache c (CoinsCache p base)) \<and>
    unspent (CoinsCache c' (CoinsCache p' base)) = unspent (CoinsCache c (CoinsCache p base)) \<and>
    cache_hashBlock p' = cache_hashBlock c"
proof -
  have "view_ok (CoinsCache p base)" "cache_ok (unspent (CoinsCache p base)) (cacheCoins c)" using assms(1) by simp_all
  from BatchWrite_cache_ok [OF this(1) assms(2) this(2), of "cache_hashBlock c"]
  obtain p' where p': "BatchWrite (CoinsCache p base) (cacheCoins c) (cache_hashBlock c) = Some (True, CoinsCache p' base)"
      "view_ok (CoinsCache p' base)" "unspent (CoinsCache p' base) = shown (cacheCoins c) (unspent (CoinsCache p base))"
      "cache_hashBlock p' = cache_hashBlock c" by blast
  define c' where "c' = c\<lparr>cacheCoins := []\<rparr>"
  have "Flush c (CoinsCache p base) = Some (True, c', CoinsCache p' base)" using p'(1) by (simp add: Flush_def c'_def)
  moreover have "unspent (CoinsCache c' v) = unspent v" for v by (rule ext) (simp add: unspent_cache c'_def shown_def)
  ultimately show ?thesis using p' unspent_cache [of c "CoinsCache p base"]
    by (simp add: c'_def cache_ok_def)
qed

lemma Flush_keeps_unspent_witness:
  "let e = \<lparr>ce_coins = \<lparr>fCoinBase = False, coins_vout = [mk_CTxOut 5 []], coins_nHeight = 3, coins_nVersion = 1\<rparr>, ce_flags = DIRTY OR FRESH\<rparr>;
       c = \<lparr>hasModifier = False, cache_hashBlock = [7], cacheCoins = [([1], e)]\<rparr>;
       p = \<lparr>hasModifier = False, cache_hashBlock = [], cacheCoins = []\<rparr> in
   \<exists>c' p'. Flush c (CoinsCache p CoinsNone) = Some (True, c', CoinsCache p' CoinsNone) \<and>
     unspent (CoinsCache p' CoinsNone) [1] = Some (ce_coins e) \<and> cache_hashBlock p' = [7]"
proof -
  define e where "e = \<lparr>ce_coins = \<lparr>fCoinBase = False, coins_vout = [mk_CTxOut 5 []], coins_nHeight = 3, coins_nVersion = 1\<rparr>,
      ce_flags = DIRTY OR FRESH\<rparr>"
  define c where "c = \<lparr>hasModifier = False, cache_hashBlock = [7], cacheCoins = [([1], e)]\<rparr>"
  define p where "p = \<lparr>hasModifier = False, cache_hashBlock = [], cacheCoins = []\<rparr>"
  have u: "unspent (CoinsCache p CoinsNone) t = None" for t by (simp add: unspent_def p_def)
  have "view_ok (CoinsCache c (CoinsCache p CoinsNone))"
    by (simp add: cache_ok_def entry_ok_def u) (simp add: p_def c_def e_def flag_simps outs_clean_def mk_CTxOut_def CTxOut_IsNull_def)
  moreover have "\<not> hasModifier p" by (simp add: p_def)
  ultimately obtain c' p' where f: "Flush c (CoinsCache p CoinsNone) = Some (True, c', CoinsCache p' CoinsNone)"
      "unspent (CoinsCache p' CoinsNone) = unspent (CoinsCache c (CoinsCache p CoinsNone))" "cache_hashBlock p' = cache_hashBlock c"
    using Flush_keeps_unspent by blast
  have "unspent (CoinsCache p' CoinsNone) [1] = Some (ce_coins e)"
    unfolding f(2) by (simp add: unspent_def c_def e_def live_def IsPruned_def mk_CTxOut_def CTxOut_IsNull_def)
  moreover have "cache_hashBlock p' = [7]" using f(3) by (simp add: c_def)
  ultimately show ?thesis using f(1) unfolding Let_def e_def [symmetric] c_def [symmetric] p_def [symmetric] by blast
qed

text \<open>
  C30. Flushing into the database: the coins are stored and \<open>CCoinsViewDB::GetCoins\<close> finds them, but
  that method does not override the one of \<open>CCoinsView\<close>, and through the view no coins are found
  any more.
\<close>

theorem database_coins_hidden:
  assumes "view_ok (CoinsCache c (CoinsDB d))" "\<not> db_fails d" "unspent (CoinsCache c (CoinsDB d)) txid = Some coins"
  shows "\<exists>c' d'. Flush c (CoinsDB d) = Some (True, c', CoinsDB d') \<and> CCoinsViewDB_GetCoins d' txid = Some coins \<and>
    CCoinsViewDB_HaveCoins d' txid \<and> fst (GetCoins txid (CoinsCache c' (CoinsDB d'))) = None"
proof -
  obtain e where e: "map_of (cacheCoins c) txid = Some e" "live (ce_coins e) = Some coins"
    using assms(3) by (auto simp: unspent_def split: option.splits)
  have "entry_ok (unspent (CoinsDB d)) txid e" using assms(1) e(1) by (simp add: cache_ok_def)
  then have dirty: "is_dirty e" using e(2) by (simp add: entry_ok_def unspent_def)
  define d' where "d' = d\<lparr>db_coins := fold write_entry (cacheCoins c) (db_coins d),
      db_best := (if blob_IsNull (cache_hashBlock c) then db_best d else Some (cache_hashBlock c))\<rparr>"
  have "Flush c (CoinsDB d) = Some (True, c\<lparr>cacheCoins := []\<rparr>, CoinsDB d')"
    using assms(2) by (simp add: Flush_def CCoinsViewDB_BatchWrite_def d'_def)
  moreover have "distinct (map fst (cacheCoins c))" using assms(1) by (simp add: cache_ok_def)
  then have "map_of (db_coins d') txid = Some coins"
    using write_entries [of "cacheCoins c" "db_coins d" txid] e dirty by (simp add: d'_def)
  ultimately show ?thesis unfolding fst_GetCoins
    by (simp add: CCoinsViewDB_GetCoins_def CCoinsViewDB_HaveCoins_def)
qed

lemma database_coins_hidden_witness:
  "let coins = \<lparr>fCoinBase = False, coins_vout = [mk_CTxOut 5 []], coins_nHeight = 3, coins_nVersion = 1\<rparr>;
       c = \<lparr>hasModifier = False, cache_hashBlock = [7], cacheCoins = [([1], \<lparr>ce_coins = coins, ce_flags = DIRTY OR FRESH\<rparr>)]\<rparr>;
       d = \<lparr>db_coins = [], db_best = None, db_fails = False\<rparr> in
   \<exists>c' d'. Flush c (CoinsDB d) = Some (True, c', CoinsDB d') \<and> CCoinsViewDB_GetCoins d' [1] = Some coins \<and>
     fst (GetCoins [1] (CoinsCache c' (CoinsDB d'))) = None"
proof -
  define coins where "coins = \<lparr>fCoinBase = False, coins_vout = [mk_CTxOut 5 []], coins_nHeight = 3, coins_nVersion = 1\<rparr>"
  define c where "c = \<lparr>hasModifier = False, cache_hashBlock = [7], cacheCoins = [([1], \<lparr>ce_coins = coins, ce_flags = DIRTY OR FRESH\<rparr>)]\<rparr>"
  define d where "d = \<lparr>db_coins = [], db_best = None, db_fails = False\<rparr>"
  have v: "view_ok (CoinsCache c (CoinsDB d))"
    by (simp add: cache_ok_def entry_ok_def unspent_def c_def flag_simps coins_def outs_clean_def mk_CTxOut_def CTxOut_IsNull_def)
  moreover have n: "\<not> db_fails d" by (simp add: d_def)
  moreover have u: "unspent (CoinsCache c (CoinsDB d)) [1] = Some coins"
    by (simp add: unspent_def c_def coins_def live_def IsPruned_def mk_CTxOut_def CTxOut_IsNull_def)
  show ?thesis unfolding Let_def coins_def [symmetric] c_def [symmetric] d_def [symmetric]
    using database_coins_hidden [OF v n u] by blast
qed

end
