(* ===== verification/Undo.thy ===== *)
theory Undo
  imports Coins ClaimBlocks
begin

text \<open>
  What is kept of a block to take it back (\<open>undo.h\<close>) and the wire format of the claim records
  inside it (\<open>claimtrie.h\<close>): the spent outputs of every transaction and the changes of the claim
  trie.  A claim is written with its outpoint, id, amount and heights only; what is read back has no
  name and no address.
\<close>

subsection \<open>Strings and claim records\<close>

definition string_of_bytes :: "bytes \<Rightarrow> string" where
  "string_of_bytes bs = map (\<lambda>b. char_of (unat b)) bs"

definition bytes_of_string :: "string \<Rightarrow> bytes" where
  "bytes_of_string s = map of_char s"

lemma char_of_byte: "char_of (unat (of_char c :: u8)) = c"
proof -
  have "unat (of_nat (of_char c) :: u8) = of_char c" using nat_of_char_less_256 [of c] by (simp only: unat_of_nat) simp
  then show ?thesis by (simp only: of_nat_of_char char_of_char)
qed

lemma string_of_bytes_of_string [simp]: "string_of_bytes (bytes_of_string s) = s"
  by (induction s) (simp_all add: string_of_bytes_def bytes_of_string_def char_of_byte)

definition Serialize_string :: "string \<Rightarrow> bytes" where
  "Serialize_string s = Serialize_bytes (bytes_of_string s)"

definition Unserialize_str :: "string reader" where
  "Unserialize_str = rd_then Unserialize_string (\<lambda>b. rd_return (string_of_bytes b))"

definition Serialize_int32 :: "int \<Rightarrow> bytes" where
  "Serialize_int32 a = Serialize_u32 (of_int a)"

definition Unserialize_int32 :: "int reader" where
  "Unserialize_int32 = rd_then Unserialize_u32 (\<lambda>w. rd_return (sint w))"

definition Serialize_CClaimValue :: "CClaimValue \<Rightarrow> bytes" where
  "Serialize_CClaimValue v =
     Serialize_COutPoint (claim_outPoint v) @ Serialize_blob (claim_claimId v) @ Serialize_int64 (claim_nAmount v) @
     Serialize_int32 (claim_nHeight v) @ Serialize_int32 (claim_nValidAtHeight v)"

text \<open>A new claim starts without name and address; \<open>junk\<close> is its amount that nothing sets.\<close>

definition Unserialize_CClaimValue :: "int \<Rightarrow> CClaimValue reader" where
  "Unserialize_CClaimValue junk =
     rd_then Unserialize_COutPoint (\<lambda>op. rd_then (Unserialize_blob 160) (\<lambda>cid. rd_then Unserialize_int64 (\<lambda>amount.
     rd_then Unserialize_int32 (\<lambda>height. rd_then Unserialize_int32 (\<lambda>valid.
       rd_return \<lparr>claim_outPoint = op, claim_claimId = cid, claim_nAmount = amount, claim_nEffectiveAmount = junk,
         claim_nHeight = height, claim_nValidAtHeight = valid, claim_saddr = [], claim_sname = [],
         claim_NameAddress = []\<rparr>)))))"

definition Serialize_CSupportValue :: "CSupportValue \<Rightarrow> bytes" where
  "Serialize_CSupportValue v =
     Serialize_COutPoint (sup_outPoint v) @ Serialize_blob (sup_supportedClaimId v) @ Serialize_int64 (sup_nAmount v) @
     Serialize_int32 (sup_nHeight v) @ Serialize_int32 (sup_nValidAtHeight v)"

definition Unserialize_CSupportValue :: "CSupportValue reader" where
  "Unserialize_CSupportValue =
     rd_then Unserialize_COutPoint (\<lambda>op. rd_then (Unserialize_blob 160) (\<lambda>cid. rd_then Unserialize_int64 (\<lambda>amount.
     rd_then Unserialize_int32 (\<lambda>height. rd_then Unserialize_int32 (\<lambda>valid.
       rd_return \<lparr>sup_outPoint = op, sup_supportedClaimId = cid, sup_nAmount = amount, sup_nHeight = height,
         sup_nValidAtHeight = valid\<rparr>)))))"

definition Serialize_outPointHeight :: "outPointHeightType \<Rightarrow> bytes" where
  "Serialize_outPointHeight v = Serialize_COutPoint (oph_outPoint v) @ Serialize_int32 (oph_nHeight v)"

definition Unserialize_outPointHeight :: "outPointHeightType reader" where
  "Unserialize_outPointHeight =
     rd_then Unserialize_COutPoint (\<lambda>op. rd_then Unserialize_int32 (\<lambda>h. rd_return \<lparr>oph_outPoint = op, oph_nHeight = h\<rparr>))"

definition Serialize_nameOutPointHeight :: "nameOutPointHeightType \<Rightarrow> bytes" where
  "Serialize_nameOutPointHeight v =
     Serialize_string (noph_name v) @ Serialize_COutPoint (noph_outPoint v) @ Serialize_int32 (noph_nHeight v)"

definition Unserialize_nameOutPointHeight :: "nameOutPointHeightType reader" where
  "Unserialize_nameOutPointHeight =
     rd_then Unserialize_str (\<lambda>n. rd_then Unserialize_COutPoint (\<lambda>op. rd_then Unserialize_int32 (\<lambda>h.
       rd_return \<lparr>noph_name = n, noph_outPoint = op, noph_nHeight = h\<rparr>)))"

definition Serialize_nameOutPoint :: "nameOutPointType \<Rightarrow> bytes" where
  "Serialize_nameOutPoint v = Serialize_string (nop_name v) @ Serialize_COutPoint (nop_outPoint v)"

definition Unserialize_nameOutPoint :: "nameOutPointType reader" where
  "Unserialize_nameOutPoint =
     rd_then Unserialize_str (\<lambda>n. rd_then Unserialize_COutPoint (\<lambda>op. rd_return \<lparr>nop_name = n, nop_outPoint = op\<rparr>))"

subsection \<open>Undo records\<close>

record CTxInUndo =
  undo_txout :: CTxOut
  undo_fLastUnspent :: bool
  undo_fCoinBase :: bool
  undo_nHeight :: u32
  undo_nVersion :: int
  undo_nClaimValidHeight :: u32
  undo_fIsClaim :: bool

definition mk_CTxInUndo :: "CTxOut \<Rightarrow> CTxInUndo" where
  "mk_CTxInUndo txoutIn = \<lparr>undo_txout = txoutIn, undo_fLastUnspent = False, undo_fCoinBase = False, undo_nHeight = 0,
     undo_nVersion = 0, undo_nClaimValidHeight = 0, undo_fIsClaim = False\<rparr>"

definition undo_code :: "CTxInUndo \<Rightarrow> u32" where
  "undo_code u = undo_nHeight u * 4 + (if undo_fCoinBase u then 2 else 0) + (if undo_fLastUnspent u then 1 else 0)"

definition Serialize_CTxInUndo :: "(bytes \<Rightarrow> bool) \<Rightarrow> CTxInUndo \<Rightarrow> bytes option" where
  "Serialize_CTxInUndo fully_valid u =
     map_option (\<lambda>out. WriteVarInt (unat (undo_code u)) @
         (if undo_fLastUnspent u then WriteVarInt_int (undo_nVersion u) else []) @
         out @ WriteVarInt (unat (undo_nClaimValidHeight u)) @ Serialize_bool (undo_fIsClaim u))
       (Serialize_CTxOutCompressor fully_valid (undo_txout u))"

definition Unserialize_CTxInUndo :: "(bytes \<Rightarrow> bytes option) \<Rightarrow> CTxInUndo reader" where
  "Unserialize_CTxInUndo decompress_key =
     rd_then (ReadVarInt 32) (\<lambda>nCode. let nCode = of_nat nCode :: u32; fLastUnspent = (nCode AND 1 \<noteq> 0) in
     rd_then (if fLastUnspent then ReadVarInt_int else rd_return 0) (\<lambda>version.
     rd_then (Unserialize_CTxOutCompressor decompress_key) (\<lambda>out.
     rd_then (ReadVarInt 32) (\<lambda>valid. rd_then Unserialize_bool (\<lambda>isClaim.
       rd_return \<lparr>undo_txout = out, undo_fLastUnspent = fLastUnspent, undo_fCoinBase = (nCode AND 2 \<noteq> 0),
         undo_nHeight = nCode div 4, undo_nVersion = version, undo_nClaimValidHeight = of_nat valid,
         undo_fIsClaim = isClaim\<rparr>)))))"

text \<open>Elements that can fail to be written; the vectors of the undo data are made of them.\<close>

fun write_all :: "('a \<Rightarrow> bytes option) \<Rightarrow> 'a list \<Rightarrow> bytes option" where
  "write_all ser [] = Some []"
| "write_all ser (x # xs) = (case (ser x, write_all ser xs) of (Some b, Some bs) \<Rightarrow> Some (b @ bs) | _ \<Rightarrow> None)"

definition Serialize_vector_opt :: "('a \<Rightarrow> bytes option) \<Rightarrow> 'a list \<Rightarrow> bytes option" where
  "Serialize_vector_opt ser xs = map_option ((@) (WriteCompactSize (length xs))) (write_all ser xs)"

type_synonym CTxUndo = "CTxInUndo list"

definition Serialize_CTxUndo :: "(bytes \<Rightarrow> bool) \<Rightarrow> CTxUndo \<Rightarrow> bytes option" where
  "Serialize_CTxUndo fully_valid vprevout = Serialize_vector_opt (Serialize_CTxInUndo fully_valid) vprevout"

definition Unserialize_CTxUndo :: "(bytes \<Rightarrow> bytes option) \<Rightarrow> CTxUndo reader" where
  "Unserialize_CTxUndo decompress_key = Unserialize_vector (Unserialize_CTxInUndo decompress_key)"

record CBlockUndo =
  vtxundo :: "CTxUndo list"
  claim_undo :: BlockUndo

definition Serialize_BlockUndo :: "BlockUndo \<Rightarrow> bytes" where
  "Serialize_BlockUndo U =
     Serialize_vector Serialize_nameOutPointHeight (insertUndo U) @
     Serialize_vector (Serialize_pair Serialize_string Serialize_CClaimValue) (expireUndo U) @
     Serialize_vector Serialize_nameOutPointHeight (insertSupportUndo U) @
     Serialize_vector (Serialize_pair Serialize_string Serialize_CSupportValue) (expireSupportUndo U) @
     Serialize_vector (Serialize_pair Serialize_string Serialize_int32) (takeoverHeightUndo U)"

definition Unserialize_BlockUndo :: "int \<Rightarrow> BlockUndo reader" where
  "Unserialize_BlockUndo junk =
     rd_then (Unserialize_vector Unserialize_nameOutPointHeight) (\<lambda>i.
     rd_then (Unserialize_vector (Unserialize_pair Unserialize_str (Unserialize_CClaimValue junk))) (\<lambda>e.
     rd_then (Unserialize_vector Unserialize_nameOutPointHeight) (\<lambda>is.
     rd_then (Unserialize_vector (Unserialize_pair Unserialize_str Unserialize_CSupportValue)) (\<lambda>es.
     rd_then (Unserialize_vector (Unserialize_pair Unserialize_str Unserialize_int32)) (\<lambda>t.
       rd_return \<lparr>insertUndo = i, expireUndo = e, insertSupportUndo = is, expireSupportUndo = es,
         takeoverHeightUndo = t\<rparr>)))))"

definition Serialize_CBlockUndo :: "(bytes \<Rightarrow> bool) \<Rightarrow> CBlockUndo \<Rightarrow> bytes option" where
  "Serialize_CBlockUndo fully_valid U =
     map_option (\<lambda>txs. txs @ Serialize_BlockUndo (claim_undo U))
       (Serialize_vector_opt (Serialize_CTxUndo fully_valid) (vtxundo U))"

definition Unserialize_CBlockUndo :: "(bytes \<Rightarrow> bytes option) \<Rightarrow> int \<Rightarrow> CBlockUndo reader" where
  "Unserialize_CBlockUndo decompress_key junk =
     rd_then (Unserialize_vector (Unserialize_CTxUndo decompress_key)) (\<lambda>txs.
     rd_then (Unserialize_BlockUndo junk) (\<lambda>U. rd_return \<lparr>vtxundo = txs, claim_undo = U\<rparr>))"

subsection \<open>Reading back\<close>

interpretation int32_codec: codec Serialize_int32 Unserialize_int32 "\<lambda>a. - (2 ^ 31) \<le> a \<and> a < 2 ^ 31"
proof
  fix a :: int and rest
  assume "- (2 ^ 31) \<le> a \<and> a < 2 ^ 31"
  then have "sint (word_of_int a :: u32) = a"
    by (simp add: sint_sbintrunc' signed_take_bit_int_eq_self)
  then show "Unserialize_int32 (Serialize_int32 a @ rest) = Inr (a, rest)"
    by (simp add: Unserialize_int32_def Serialize_int32_def u32_codec.then_reads_back rd_return_def)
qed

interpretation str_codec: codec Serialize_string Unserialize_str "\<lambda>s. length s \<le> MAX_SIZE"
proof
  fix s :: string and rest assume "length s \<le> MAX_SIZE"
  then have "length (bytes_of_string s) \<le> MAX_SIZE" by (simp add: bytes_of_string_def)
  then show "Unserialize_str (Serialize_string s @ rest) = Inr (s, rest)"
    by (simp add: Unserialize_str_def Serialize_string_def string_codec.then_reads_back rd_return_def)
qed

text \<open>
  A type whose writer may fail and whose reader returns a part of what was written: \<open>proj\<close> is what
  is left.
\<close>

locale lossy_codec =
  fixes ser :: "'a \<Rightarrow> bytes option" and unser :: "'b reader" and ok :: "'a \<Rightarrow> bool" and proj :: "'a \<Rightarrow> 'b"
  assumes reads_as: "ok a \<Longrightarrow> \<exists>d. ser a = Some d \<and> (\<forall>rest. unser (d @ rest) = Inr (proj a, rest))"
begin

lemma written:
  assumes "ok a"
  obtains d where "ser a = Some d" "\<And>rest. unser (d @ rest) = Inr (proj a, rest)"
  using reads_as [OF assms] by auto

lemma elements_read_as:
  "list_all ok v \<Longrightarrow> \<exists>d. write_all ser v = Some d \<and> (\<forall>rest. read_elements unser (length v) (d @ rest) = Inr (map proj v, rest))"
proof (induction v)
  case Nil
  then show ?case by (simp add: rd_return_def)
next
  case (Cons a v)
  then obtain ds where ds: "write_all ser v = Some ds" "\<And>rest. read_elements unser (length v) (ds @ rest) = Inr (map proj v, rest)"
    by auto
  have "ok a" using Cons.prems by simp
  then obtain d where d: "ser a = Some d" "\<And>rest. unser (d @ rest) = Inr (proj a, rest)" using written by blast
  then show ?case using ds by (simp add: rd_then_def rd_return_def)
qed

lemma vector_reads_as:
  assumes "list_all ok v" "length v \<le> MAX_SIZE"
  shows "\<exists>d. Serialize_vector_opt ser v = Some d \<and> (\<forall>rest. Unserialize_vector unser (d @ rest) = Inr (map proj v, rest))"
  using elements_read_as [OF assms(1)] assms(2)
  by (auto simp: Serialize_vector_opt_def Unserialize_vector_def size_codec.then_reads_back)

lemma vector_lossy:
  "lossy_codec (Serialize_vector_opt ser) (Unserialize_vector unser) (\<lambda>v. list_all ok v \<and> length v \<le> MAX_SIZE) (map proj)"
  by (rule lossy_codec.intro) (simp add: vector_reads_as)

end

lemma write_all_Some: "write_all (\<lambda>x. Some (ser x)) v = Some (concat (map ser v))"
  by (induction v) simp_all

lemma Serialize_vector_opt_Some: "Serialize_vector_opt (\<lambda>x. Some (ser x)) v = Some (Serialize_vector ser v)"
  by (simp add: Serialize_vector_opt_def Serialize_vector_def write_all_Some)

text \<open>What is left of a claim.\<close>

definition disk_claim :: "int \<Rightarrow> CClaimValue \<Rightarrow> CClaimValue" where
  "disk_claim junk v = v\<lparr>claim_nEffectiveAmount := junk, claim_saddr := [], claim_sname := [], claim_NameAddress := []\<rparr>"

definition wf_claim :: "CClaimValue \<Rightarrow> bool" where
  "wf_claim v \<longleftrightarrow> wf_outpoint (claim_outPoint v) \<and> length (claim_claimId v) = 20 \<and>
     - (2 ^ 63) \<le> claim_nAmount v \<and> claim_nAmount v < 2 ^ 63 \<and> - (2 ^ 31) \<le> claim_nHeight v \<and> claim_nHeight v < 2 ^ 31 \<and>
     - (2 ^ 31) \<le> claim_nValidAtHeight v \<and> claim_nValidAtHeight v < 2 ^ 31"

definition wf_support :: "CSupportValue \<Rightarrow> bool" where
  "wf_support v \<longleftrightarrow> wf_outpoint (sup_outPoint v) \<and> length (sup_supportedClaimId v) = 20 \<and>
     - (2 ^ 63) \<le> sup_nAmount v \<and> sup_nAmount v < 2 ^ 63 \<and> - (2 ^ 31) \<le> sup_nHeight v \<and> sup_nHeight v < 2 ^ 31 \<and>
     - (2 ^ 31) \<le> sup_nValidAtHeight v \<and> sup_nValidAtHeight v < 2 ^ 31"

definition wf_noph :: "nameOutPointHeightType \<Rightarrow> bool" where
  "wf_noph v \<longleftrightarrow> length (noph_name v) \<le> MAX_SIZE \<and> wf_outpoint (noph_outPoint v) \<and>
     - (2 ^ 31) \<le> noph_nHeight v \<and> noph_nHeight v < 2 ^ 31"

lemmas claim_readers = outpoint_codec.then_reads_back blob160_codec.then_reads_back int64_codec.then_reads_back
  int32_codec.then_reads_back str_codec.then_reads_back rd_return_def

interpretation claim_codec: lossy_codec "\<lambda>v. Some (Serialize_CClaimValue v)" "Unserialize_CClaimValue junk" wf_claim "disk_claim junk"
  by unfold_locales
    (simp add: Serialize_CClaimValue_def Unserialize_CClaimValue_def wf_claim_def disk_claim_def claim_readers)

interpretation support_codec: codec Serialize_CSupportValue Unserialize_CSupportValue wf_support
  by unfold_locales (simp add: Serialize_CSupportValue_def Unserialize_CSupportValue_def wf_support_def claim_readers)

interpretation noph_codec: codec Serialize_nameOutPointHeight Unserialize_nameOutPointHeight wf_noph
  by unfold_locales (simp add: Serialize_nameOutPointHeight_def Unserialize_nameOutPointHeight_def wf_noph_def claim_readers)

interpretation oph_codec: codec Serialize_outPointHeight Unserialize_outPointHeight
    "\<lambda>v. wf_outpoint (oph_outPoint v) \<and> - (2 ^ 31) \<le> oph_nHeight v \<and> oph_nHeight v < 2 ^ 31"
  by unfold_locales (simp add: Serialize_outPointHeight_def Unserialize_outPointHeight_def claim_readers)

interpretation nop_codec: codec Serialize_nameOutPoint Unserialize_nameOutPoint
    "\<lambda>v. length (nop_name v) \<le> MAX_SIZE \<and> wf_outpoint (nop_outPoint v)"
  by unfold_locales (simp add: Serialize_nameOutPoint_def Unserialize_nameOutPoint_def claim_readers)

interpretation noph_rows: codec "Serialize_vector Serialize_nameOutPointHeight" "Unserialize_vector Unserialize_nameOutPointHeight"
    "\<lambda>v. list_all wf_noph v \<and> length v \<le> MAX_SIZE"
  by (rule vector_codec [OF noph_codec.codec_axioms])

interpretation support_rows: codec "Serialize_vector (Serialize_pair Serialize_string Serialize_CSupportValue)"
    "Unserialize_vector (Unserialize_pair Unserialize_str Unserialize_CSupportValue)"
    "\<lambda>v. list_all (\<lambda>p. length (fst p) \<le> MAX_SIZE \<and> wf_support (snd p)) v \<and> length v \<le> MAX_SIZE"
  by (rule vector_codec [OF pair_codec [OF str_codec.codec_axioms support_codec.codec_axioms]])

interpretation takeover_rows: codec "Serialize_vector (Serialize_pair Serialize_string Serialize_int32)"
    "Unserialize_vector (Unserialize_pair Unserialize_str Unserialize_int32)"
    "\<lambda>v. list_all (\<lambda>p. length (fst p) \<le> MAX_SIZE \<and> - (2 ^ 31) \<le> snd p \<and> snd p < 2 ^ 31) v \<and> length v \<le> MAX_SIZE"
  by (rule vector_codec [OF pair_codec [OF str_codec.codec_axioms int32_codec.codec_axioms]])

interpretation claim_pair: lossy_codec "\<lambda>p. Some (Serialize_pair Serialize_string Serialize_CClaimValue p)"
    "Unserialize_pair Unserialize_str (Unserialize_CClaimValue junk)"
    "\<lambda>p. length (fst p) \<le> MAX_SIZE \<and> wf_claim (snd p)" "\<lambda>p. (fst p, disk_claim junk (snd p))"
proof
  fix p :: "string \<times> CClaimValue"
  assume "length (fst p) \<le> MAX_SIZE \<and> wf_claim (snd p)"
  then show "\<exists>d. Some (Serialize_pair Serialize_string Serialize_CClaimValue p) = Some d \<and>
      (\<forall>rest. Unserialize_pair Unserialize_str (Unserialize_CClaimValue junk) (d @ rest) = Inr ((fst p, disk_claim junk (snd p)), rest))"
    using claim_codec.reads_as [of "snd p" junk]
    by (simp add: Serialize_pair_def Unserialize_pair_def str_codec.then_reads_back) (simp add: rd_then_def rd_return_def)
qed

lemma claim_rows_read_as:
  assumes "list_all (\<lambda>p. length (fst p) \<le> MAX_SIZE \<and> wf_claim (snd p)) v" "length v \<le> MAX_SIZE"
  shows "Unserialize_vector (Unserialize_pair Unserialize_str (Unserialize_CClaimValue junk))
      (Serialize_vector (Serialize_pair Serialize_string Serialize_CClaimValue) v @ rest) =
    Inr (map (\<lambda>p. (fst p, disk_claim junk (snd p))) v, rest)"
  using claim_pair.vector_reads_as [OF assms, of junk] by (simp add: Serialize_vector_opt_Some)

definition wf_claim_undo :: "BlockUndo \<Rightarrow> bool" where
  "wf_claim_undo U \<longleftrightarrow>
     list_all wf_noph (insertUndo U) \<and> length (insertUndo U) \<le> MAX_SIZE \<and>
     list_all (\<lambda>p. length (fst p) \<le> MAX_SIZE \<and> wf_claim (snd p)) (expireUndo U) \<and> length (expireUndo U) \<le> MAX_SIZE \<and>
     list_all wf_noph (insertSupportUndo U) \<and> length (insertSupportUndo U) \<le> MAX_SIZE \<and>
     list_all (\<lambda>p. length (fst p) \<le> MAX_SIZE \<and> wf_support (snd p)) (expireSupportUndo U) \<and>
     length (expireSupportUndo U) \<le> MAX_SIZE \<and>
     list_all (\<lambda>p. length (fst p) \<le> MAX_SIZE \<and> - (2 ^ 31) \<le> snd p \<and> snd p < 2 ^ 31) (takeoverHeightUndo U) \<and>
     length (takeoverHeightUndo U) \<le> MAX_SIZE"

definition disk_claim_undo :: "int \<Rightarrow> BlockUndo \<Rightarrow> BlockUndo" where
  "disk_claim_undo junk U = U\<lparr>expireUndo := map (\<lambda>p. (fst p, disk_claim junk (snd p))) (expireUndo U)\<rparr>"

lemma claim_undo_reads_as:
  assumes "wf_claim_undo U"
  shows "Unserialize_BlockUndo junk (Serialize_BlockUndo U @ rest) = Inr (disk_claim_undo junk U, rest)"
proof -
  have e: "rd_then (Unserialize_vector (Unserialize_pair Unserialize_str (Unserialize_CClaimValue junk))) f
      (Serialize_vector (Serialize_pair Serialize_string Serialize_CClaimValue) (expireUndo U) @ rest) =
    f (map (\<lambda>p. (fst p, disk_claim junk (snd p))) (expireUndo U)) rest" for f :: "_ \<Rightarrow> BlockUndo reader" and rest
    using assms claim_rows_read_as by (simp add: rd_then_def wf_claim_undo_def)
  show ?thesis
    using assms by (simp add: Unserialize_BlockUndo_def Serialize_BlockUndo_def wf_claim_undo_def e disk_claim_undo_def
        noph_rows.then_reads_back support_rows.then_reads_back takeover_rows.then_reads_back rd_return_def)
qed

text \<open>An output that can be written, and what is left of a record: the version only of the last output.\<close>

definition undo_ok :: "CTxInUndo \<Rightarrow> bool" where
  "undo_ok u \<longleftrightarrow> 0 \<le> nValue (undo_txout u) \<and> nValue (undo_txout u) \<le> 20 * MAX_MONEY \<and>
     length (scriptPubKey (undo_txout u)) + nSpecialScripts < 2 ^ 32 \<and> unat (undo_nHeight u) < 2 ^ 30 \<and>
     0 \<le> undo_nVersion u \<and> undo_nVersion u < 2 ^ 31"

definition disk_undo :: "CTxInUndo \<Rightarrow> CTxInUndo" where
  "disk_undo u = u\<lparr>undo_txout := mk_CTxOut (nValue (undo_txout u)) (scriptPubKey (undo_txout u)),
     undo_nVersion := (if undo_fLastUnspent u then undo_nVersion u else 0)\<rparr>"

lemma undo_code_parts:
  assumes "unat (undo_nHeight u) < 2 ^ 30"
  shows "undo_code u div 4 = undo_nHeight u" "undo_code u AND 1 \<noteq> 0 \<longleftrightarrow> undo_fLastUnspent u"
    "undo_code u AND 2 \<noteq> 0 \<longleftrightarrow> undo_fCoinBase u"
proof -
  let ?c = "(if undo_fCoinBase u then 2 else 0) + (if undo_fLastUnspent u then 1 else 0) :: nat"
  have code: "undo_code u = of_nat (4 * unat (undo_nHeight u) + ?c)"
    by (simp add: undo_code_def mult.commute)
  have b: "4 * unat (undo_nHeight u) + ?c < 2 ^ 32" using assms by simp
  have n: "unat (undo_code u) = 4 * unat (undo_nHeight u) + ?c"
    unfolding code by (subst unat_of_nat) (use b in simp)
  have "unat (undo_code u div 4) = unat (undo_nHeight u)" by (simp add: unat_div n)
  then show "undo_code u div 4 = undo_nHeight u" by (simp add: word_unat_eq_iff)
  have bits: "bit (undo_code u) k \<longleftrightarrow> odd ((4 * unat (undo_nHeight u) + ?c) div 2 ^ k)" if "k < 2" for k
    using that unfolding n [symmetric] bit_iff_odd [symmetric] by (simp add: bit_unsigned_iff)
  show "undo_code u AND 1 \<noteq> 0 \<longleftrightarrow> undo_fLastUnspent u"
    using bits [of 0] by (simp add: and_one_eq bit_0 odd_iff_mod_2_eq_one)
  have "undo_code u AND 2 \<noteq> 0 \<longleftrightarrow> bit (undo_code u) 1"
    using bit_iff_and_push_bit_not_eq_0 [of "undo_code u" 1] by simp
  then show "undo_code u AND 2 \<noteq> 0 \<longleftrightarrow> undo_fCoinBase u"
    using bits [of 1] by (auto split: if_splits)
qed

lemma varint32: "n < 2 ^ 32 \<Longrightarrow> rd_then (ReadVarInt 32) f (WriteVarInt n @ rest) = f n rest"
  by (simp add: rd_then_def ReadVarInt_WriteVarInt)

interpretation txin_undo_codec: lossy_codec "Serialize_CTxInUndo fv" "Unserialize_CTxInUndo dk"
    "\<lambda>u. curve_ok fv dk \<and> undo_ok u" disk_undo
proof
  fix u assume "curve_ok fv dk \<and> undo_ok u"
  then have curve: "curve_ok fv dk" and ok: "undo_ok u" by simp_all
  define out where "out = mk_CTxOut (nValue (undo_txout u)) (scriptPubKey (undo_txout u))"
  have same: "Serialize_CTxOutCompressor fv (undo_txout u) = Serialize_CTxOutCompressor fv out"
    by (simp add: Serialize_CTxOutCompressor_def out_def mk_CTxOut_def)
  have "\<exists>b. Serialize_CTxOutCompressor fv out = Some b" for rest :: bytes
    using CTxOutCompressor_reads_back [OF curve, of "nValue (undo_txout u)" "scriptPubKey (undo_txout u)"] ok
    by (auto simp: undo_ok_def out_def)
  then obtain b where b: "Serialize_CTxOutCompressor fv (undo_txout u) = Some b" unfolding same by blast
  have rb: "Unserialize_CTxOutCompressor dk (b @ rest) = Inr (out, rest)" for rest
    using CTxOutCompressor_reads_back [OF curve, of "nValue (undo_txout u)" "scriptPubKey (undo_txout u)" rest] ok b
    unfolding same by (auto simp: undo_ok_def out_def)
  have v: "rd_then ReadVarInt_int f (WriteVarInt_int (undo_nVersion u) @ rest) = f (undo_nVersion u) rest" for f rest
    using varint_int_reads_back [of "undo_nVersion u" rest] ok by (simp add: rd_then_def undo_ok_def)
  note parts = undo_code_parts [of u]
  have c: "unat (undo_code u) < 2 ^ 32" "unat (undo_nClaimValidHeight u) < 2 ^ 32"
    using unsigned_less [of "undo_code u"] unsigned_less [of "undo_nClaimValidHeight u"] by simp_all
  have step: "Unserialize_CTxInUndo dk (WriteVarInt (unat (undo_code u)) @
      (if undo_fLastUnspent u then WriteVarInt_int (undo_nVersion u) else []) @ b @
      WriteVarInt (unat (undo_nClaimValidHeight u)) @ Serialize_bool (undo_fIsClaim u) @ rest) = Inr (disk_undo u, rest)" for rest
    using parts ok
    by (simp add: Unserialize_CTxInUndo_def varint32 [OF c(1)] varint32 [OF c(2)] Let_def undo_ok_def v bool_codec.then_reads_back disk_undo_def out_def
        rd_then_def [of "Unserialize_CTxOutCompressor dk"] rd_then_def [of "rd_return 0"] rb rd_return_def)
  then show "\<exists>d. Serialize_CTxInUndo fv u = Some d \<and> (\<forall>rest. Unserialize_CTxInUndo dk (d @ rest) = Inr (disk_undo u, rest))"
    by (auto simp: Serialize_CTxInUndo_def b)
qed

interpretation tx_undo_codec: lossy_codec "Serialize_CTxUndo fv" "Unserialize_CTxUndo dk"
    "\<lambda>v. list_all (\<lambda>u. curve_ok fv dk \<and> undo_ok u) v \<and> length v \<le> MAX_SIZE" "map disk_undo"
proof -
  have "Serialize_CTxUndo fv = Serialize_vector_opt (Serialize_CTxInUndo fv)" by (rule ext) (simp add: Serialize_CTxUndo_def)
  then show "lossy_codec (Serialize_CTxUndo fv) (Unserialize_CTxUndo dk)
      (\<lambda>v. list_all (\<lambda>u. curve_ok fv dk \<and> undo_ok u) v \<and> length v \<le> MAX_SIZE) (map disk_undo)"
    unfolding Unserialize_CTxUndo_def by (simp only: txin_undo_codec.vector_lossy)
qed

definition wf_block_undo :: "CBlockUndo \<Rightarrow> bool" where
  "wf_block_undo U \<longleftrightarrow> list_all (\<lambda>v. list_all undo_ok v \<and> length v \<le> MAX_SIZE) (vtxundo U) \<and>
     length (vtxundo U) \<le> MAX_SIZE \<and> wf_claim_undo (claim_undo U)"

definition disk_block_undo :: "int \<Rightarrow> CBlockUndo \<Rightarrow> CBlockUndo" where
  "disk_block_undo junk U =
     \<lparr>vtxundo = map (map disk_undo) (vtxundo U), claim_undo = disk_claim_undo junk (claim_undo U)\<rparr>"

subsection \<open>Properties\<close>

text \<open>
  C37. The undo data of a block is read back, whatever follows it, but for what its format drops: the
  version of the coins unless an output is marked as the last one, and of a claim that expired the
  name, the address and the effective amount.
\<close>

theorem CBlockUndo_round_trip:
  assumes "curve_ok fully_valid decompress_key" "wf_block_undo U"
  shows "\<exists>data. Serialize_CBlockUndo fully_valid U = Some data \<and>
    Unserialize_CBlockUndo decompress_key junk (data @ rest) = Inr (disk_block_undo junk U, rest)"
proof -
  have "list_all (\<lambda>v. list_all (\<lambda>u. curve_ok fully_valid decompress_key \<and> undo_ok u) v \<and> length v \<le> MAX_SIZE) (vtxundo U)"
    using assms by (auto simp: wf_block_undo_def list_all_iff)
  from tx_undo_codec.vector_reads_as [OF this] obtain d where d:
      "Serialize_vector_opt (Serialize_CTxUndo fully_valid) (vtxundo U) = Some d"
      "\<And>rest. Unserialize_vector (Unserialize_CTxUndo decompress_key) (d @ rest) = Inr (map (map disk_undo) (vtxundo U), rest)"
    using assms(2) by (auto simp: wf_block_undo_def)
  have "wf_claim_undo (claim_undo U)" using assms(2) by (simp add: wf_block_undo_def)
  from claim_undo_reads_as [OF this] show ?thesis
    by (simp add: Serialize_CBlockUndo_def Unserialize_CBlockUndo_def d rd_then_def rd_return_def disk_block_undo_def)
qed

lemma CBlockUndo_round_trip_witness:
  "let u = (mk_CTxInUndo (mk_CTxOut 50 [0x51]))\<lparr>undo_nHeight := 9, undo_nVersion := 1\<rparr>;
       U = \<lparr>vtxundo = [[u]], claim_undo = no_undo\<lparr>takeoverHeightUndo := [(''a'', 7)]\<rparr>\<rparr>
   in \<exists>data. Serialize_CBlockUndo (\<lambda>k. False) U = Some data \<and>
     Unserialize_CBlockUndo (\<lambda>k. None) 0 (data @ [9]) =
       Inr (\<lparr>vtxundo = [[u\<lparr>undo_nVersion := 0\<rparr>]], claim_undo = no_undo\<lparr>takeoverHeightUndo := [(''a'', 7)]\<rparr>\<rparr>, [9])"
proof -
  define u where "u = (mk_CTxInUndo (mk_CTxOut 50 [0x51]))\<lparr>undo_nHeight := 9, undo_nVersion := 1\<rparr>"
  define U where "U = \<lparr>vtxundo = [[u]], claim_undo = no_undo\<lparr>takeoverHeightUndo := [(''a'', 7)]\<rparr>\<rparr>"
  have "curve_ok (\<lambda>k. False) (\<lambda>k. None)" by (simp add: curve_ok_def)
  moreover have "wf_block_undo U"
    by (simp add: wf_block_undo_def U_def u_def undo_ok_def wf_claim_undo_def no_undo_def mk_CTxInUndo_def mk_CTxOut_def
        MAX_MONEY_def COIN_def nSpecialScripts_def MAX_SIZE_def)
  ultimately have "\<exists>data. Serialize_CBlockUndo (\<lambda>k. False) U = Some data \<and>
      Unserialize_CBlockUndo (\<lambda>k. None) 0 (data @ [9]) = Inr (disk_block_undo 0 U, [9])"
    by (rule CBlockUndo_round_trip)
  moreover have "disk_block_undo 0 U =
      \<lparr>vtxundo = [[u\<lparr>undo_nVersion := 0\<rparr>]], claim_undo = no_undo\<lparr>takeoverHeightUndo := [(''a'', 7)]\<rparr>\<rparr>"
    by (simp add: disk_block_undo_def U_def disk_undo_def u_def mk_CTxInUndo_def mk_CTxOut_def disk_claim_undo_def no_undo_def)
  ultimately show ?thesis unfolding Let_def u_def [symmetric] U_def [symmetric] by simp
qed

end
