(* ===== verification/Rewards.thy ===== *)
theory Rewards
  imports Transactions Base58 "HOL-Library.Signed_Division"
begin

text \<open>
  What a block may pay (\<open>main.cpp\<close>, \<open>chainparams.cpp\<close>, \<open>masternode-payments.cpp\<close>,
  \<open>governance-classes.cpp\<close>): the rewards of the three networks by height, the superblock rules and
  the check of the value of a coinbase.  Amounts stay below the 64-bit range; the constants that the
  code multiplies in floating point are the truncated products.
\<close>

subsection \<open>The reward parameters of a network\<close>

record RewardParams =
  premine :: CAmount
  genesisReward :: CAmount
  minerReward4 :: CAmount
  minerReward5 :: CAmount
  mnReward1 :: CAmount
  mnReward2 :: CAmount
  mnReward5 :: CAmount
  foundersReward :: CAmount
  bdgetReward4 :: CAmount
  bdgetReward5 :: CAmount
  nSubsidyHalvingInterval :: int
  nMasternodePaymentsStartBlock :: int
  nMasternodePaymentsIncreasePeriod :: int
  nBudgetPaymentsStartBlock :: int
  nBudgetPaymentsCycleBlocks :: int
  nBudgetPaymentsWindowBlocks :: int
  nSuperblockStartBlock :: int
  nSuperblockCycle :: int
  vFoundersRewardAddress :: "string list"

definition main_rewards :: RewardParams where
  "main_rewards = \<lparr>premine = 10000000000000000, genesisReward = 100000000, minerReward4 = 11296600000,
     minerReward5 = 13377500000, mnReward1 = 5241100000, mnReward2 = 7610400000, mnReward5 = 13377500000,
     foundersReward = 416666666700000, bdgetReward4 = 52083333300000, bdgetReward5 = 52083333300000,
     nSubsidyHalvingInterval = 840960, nMasternodePaymentsStartBlock = 57600,
     nMasternodePaymentsIncreasePeriod = 576 * 365, nBudgetPaymentsStartBlock = 2,
     nBudgetPaymentsCycleBlocks = 576 * 30, nBudgetPaymentsWindowBlocks = 100, nSuperblockStartBlock = 100,
     nSuperblockCycle = 576 * 30,
     vFoundersRewardAddress = [''USu35JzWCXSvgvDL1utfFzb52zR1fdkfZ9'', ''US2b9XyE5fCu8DNXhC4xwU7wo7b4uMNy4q'']\<rparr>"

definition test_rewards :: RewardParams where
  "test_rewards = \<lparr>premine = 10000000000000000, genesisReward = 100000000, minerReward4 = 11296600000,
     minerReward5 = 53510299999, mnReward1 = 5241100000, mnReward2 = 7610400000, mnReward5 = 53510299999,
     foundersReward = 416666666700000, bdgetReward4 = 52083333300000, bdgetReward5 = 208333333300000,
     nSubsidyHalvingInterval = 840960, nMasternodePaymentsStartBlock = 100,
     nMasternodePaymentsIncreasePeriod = 576, nBudgetPaymentsStartBlock = 300,
     nBudgetPaymentsCycleBlocks = 50, nBudgetPaymentsWindowBlocks = 10, nSuperblockStartBlock = 60,
     nSuperblockCycle = 72,
     vFoundersRewardAddress = [''uTZGwu5TsrswPUEb9QciyhH9xpmRy4Rfq6'', ''ubwJhHMSVPVCHr3PNPgieNYpWvuWG5XvcQ'']\<rparr>"

definition regtest_rewards :: RewardParams where
  "regtest_rewards = \<lparr>premine = 10000000000000000, genesisReward = 100000000, minerReward4 = 11296600000,
     minerReward5 = 53510299999, mnReward1 = 5241100000, mnReward2 = 7610400000, mnReward5 = 53510299999,
     foundersReward = 416666666700000, bdgetReward4 = 52083333300000, bdgetReward5 = 208333333300000,
     nSubsidyHalvingInterval = 150, nMasternodePaymentsStartBlock = 240,
     nMasternodePaymentsIncreasePeriod = 10, nBudgetPaymentsStartBlock = 1000,
     nBudgetPaymentsCycleBlocks = 50, nBudgetPaymentsWindowBlocks = 10, nSuperblockStartBlock = 1500,
     nSuperblockCycle = 10, vFoundersRewardAddress = [''u2FwcEhFdNXuFMv1tcYwaBJtYVtMj8b1uTg'']\<rparr>"

definition endOfFoundersReward :: "RewardParams \<Rightarrow> int" where
  "endOfFoundersReward cp = 4 * 12 * nSuperblockCycle cp + 1"

subsection \<open>Rewards by height\<close>

text \<open>
  \<open>amount >> halvings\<close> on 64 bits.  A count of 64 or more is undefined in C++; the model takes what
  the processor does, which is to look at the lowest six bits of the count only.
\<close>

definition shift_right :: "CAmount \<Rightarrow> int \<Rightarrow> CAmount" where
  "shift_right amount halvings = amount div 2 ^ (nat halvings mod 64)"

definition GetMinerSubsidy :: "int \<Rightarrow> RewardParams \<Rightarrow> CAmount" where
  "GetMinerSubsidy height cp =
     (if height = 0 then genesisReward cp
      else if height = 1 then premine cp
      else let intval = nSubsidyHalvingInterval cp in
        if height < intval then minerReward4 cp
        else let halvings = (height - intval) sdiv intval in
          if halvings > 63 then 0 else shift_right (minerReward5 cp) halvings)"

definition GetMasternodePayment :: "int \<Rightarrow> RewardParams \<Rightarrow> CAmount" where
  "GetMasternodePayment height cp =
     (let starting = nMasternodePaymentsStartBlock cp; period = nMasternodePaymentsIncreasePeriod cp;
          intval = nSubsidyHalvingInterval cp
      in if height < starting then 0
         else if height < period then mnReward1 cp
         else if height < period * 2 then mnReward2 cp
         else if height < period * 3 then mnReward2 cp sdiv 2 * 3
         else if height < period * 4 then mnReward2 cp * 2
         else let halvings = (height - intval) sdiv intval in
           if halvings > 63 then 0 else shift_right (mnReward5 cp) halvings)"

definition GetBudget :: "int \<Rightarrow> RewardParams \<Rightarrow> CAmount" where
  "GetBudget height cp =
     (let beg = nSuperblockStartBlock cp; intval = nSubsidyHalvingInterval cp
      in if height < beg then 0
         else if height < intval then bdgetReward4 cp
         else let halvings = (height - intval) sdiv intval in
           if halvings > 63 then 0 else shift_right (bdgetReward5 cp) halvings)"

definition GetFoundersReward :: "int \<Rightarrow> RewardParams \<Rightarrow> CAmount" where
  "GetFoundersReward height cp =
     (let beg = nSuperblockStartBlock cp; end' = endOfFoundersReward cp
      in if height \<ge> beg \<and> height < end' then foundersReward cp else 0)"

definition GetBlockSubsidy :: "int \<Rightarrow> RewardParams \<Rightarrow> CAmount" where
  "GetBlockSubsidy height cp =
     GetBudget height cp + GetMasternodePayment height cp + GetMinerSubsidy height cp + GetFoundersReward height cp"

subsection \<open>Superblocks\<close>

definition IsValidBlockHeight :: "int \<Rightarrow> RewardParams \<Rightarrow> bool" where
  "IsValidBlockHeight nBlockHeight cp \<longleftrightarrow>
     nBlockHeight \<ge> nSuperblockStartBlock cp \<and> nBlockHeight smod nSuperblockCycle cp = 0"

definition GetPaymentsLimit :: "int \<Rightarrow> RewardParams \<Rightarrow> CAmount" where
  "GetPaymentsLimit nBlockHeight cp =
     (if \<not> IsValidBlockHeight nBlockHeight cp then 0 else GetBlockSubsidy nBlockHeight cp)"

definition GetFoundersRewardAddressAtHeight :: "int \<Rightarrow> RewardParams \<Rightarrow> string option" where
  "GetFoundersRewardAddressAtHeight height cp =
     (if \<not> (height > 1 \<and> height < endOfFoundersReward cp) then None
      else let addrs = vFoundersRewardAddress cp; h = height sdiv nSuperblockCycle cp
        in Some (addrs ! (nat h mod length addrs)))"

definition GetFoundersRewardScriptAtHeight :: "(Base58Type \<Rightarrow> bytes) \<Rightarrow> int \<Rightarrow> RewardParams \<Rightarrow> CScript option" where
  "GetFoundersRewardScriptAtHeight prefixes height cp =
     (case GetFoundersRewardAddressAtHeight height cp of
        None \<Rightarrow> None
      | Some addr \<Rightarrow>
          (case SetString addr 1 of
             None \<Rightarrow> None
           | Some (_, address) \<Rightarrow>
               if \<not> CBitcoinAddress_IsValid prefixes address then None
               else Some (GetScriptForDestination (CBitcoinAddress_Get prefixes address))))"

text \<open>What the outputs pay to the address; an output without destination keeps an empty address.\<close>

definition address_of_script :: "(Base58Type \<Rightarrow> bytes) \<Rightarrow> CScript \<Rightarrow> CBase58Data" where
  "address_of_script prefixes spk =
     snd (CBitcoinAddress_Set prefixes (case ExtractDestination spk of Some d \<Rightarrow> d | None \<Rightarrow> CNoDestination) CBase58Data_empty)"

definition founders_actual :: "(Base58Type \<Rightarrow> bytes) \<Rightarrow> CBase58Data \<Rightarrow> CTxOut list \<Rightarrow> CAmount" where
  "founders_actual prefixes address outs =
     fold (\<lambda>out acc. if CompareTo58 (address_of_script prefixes (scriptPubKey out)) address = 0 then acc + nValue out else acc)
       outs 0"

definition IsFounderValid :: "(Base58Type \<Rightarrow> bytes) \<Rightarrow> RewardParams \<Rightarrow> CTransaction \<Rightarrow> int \<Rightarrow> CAmount \<Rightarrow> bool option" where
  "IsFounderValid prefixes cp txNew nBlockHeight blockReward =
     (let foundersExpected = GetFoundersReward nBlockHeight cp in
      case GetValueOut txNew of
        None \<Rightarrow> None
      | Some nBlockValue \<Rightarrow>
          let value_ok = \<not> nBlockValue > blockReward + GetBudget nBlockHeight cp + foundersExpected in
          if nBlockHeight > 1 \<and> nBlockHeight < endOfFoundersReward cp
          then (case GetFoundersRewardAddressAtHeight nBlockHeight cp of
                  None \<Rightarrow> None
                | Some addr \<Rightarrow>
                    (case SetString addr 1 of
                       None \<Rightarrow> None
                     | Some (_, address) \<Rightarrow>
                         if founders_actual prefixes address (vout txNew) \<noteq> foundersExpected then Some False
                         else Some value_ok))
          else Some value_ok)"

text \<open>
  Payments are pairs of a script and an amount; the search for the next starts at the output that
  matched the last.
\<close>

fun find_payment :: "CScript \<times> CAmount \<Rightarrow> CTxOut list \<Rightarrow> nat \<Rightarrow> nat option" where
  "find_payment payment [] j = None"
| "find_payment payment (out # outs) j =
     (if fst payment = scriptPubKey out \<and> snd payment = nValue out then Some j else find_payment payment outs (j + 1))"

fun match_payments :: "(CScript \<times> CAmount) list \<Rightarrow> CTxOut list \<Rightarrow> nat \<Rightarrow> bool" where
  "match_payments [] outs nVoutIndex = True"
| "match_payments (payment # payments) outs nVoutIndex =
     (case find_payment payment (drop nVoutIndex outs) nVoutIndex of
        None \<Rightarrow> False
      | Some j \<Rightarrow> match_payments payments outs j)"

definition GetPaymentsTotalAmount :: "(CScript \<times> CAmount) list \<Rightarrow> CAmount" where
  "GetPaymentsTotalAmount payments = sum_list (map snd payments)"

definition CSuperblock_IsValid :: "RewardParams \<Rightarrow> (CScript \<times> CAmount) list \<Rightarrow> CTransaction \<Rightarrow> int \<Rightarrow> CAmount \<Rightarrow> bool option" where
  "CSuperblock_IsValid cp payments txNew nBlockHeight blockReward =
     (if \<not> IsValidBlockHeight nBlockHeight cp then Some False
      else if length (vout txNew) < length payments + 1 then Some False
      else let budgetLimit = GetBudget nBlockHeight cp in
        if GetPaymentsTotalAmount payments > budgetLimit then Some False
        else case GetValueOut txNew of
          None \<Rightarrow> None
        | Some nBlockValue \<Rightarrow>
            if nBlockValue > blockReward + budgetLimit + GetFoundersReward nBlockHeight cp then Some False
            else Some (match_payments payments (vout txNew) 0))"

subsection \<open>The value of a block\<close>

text \<open>
  What the check asks of the rest of the node: whether it is synchronised, the two sporks, whether
  a superblock was voted for at a height, and the payments of the best one.
\<close>

record block_context =
  ctx_synced :: bool
  ctx_SPORK_13 :: bool
  ctx_SPORK_9 :: bool
  ctx_triggered :: "int \<Rightarrow> bool"
  ctx_best :: "int \<Rightarrow> (CScript \<times> CAmount) list option"

definition IsBlockValueValid ::
  "(Base58Type \<Rightarrow> bytes) \<Rightarrow> RewardParams \<Rightarrow> block_context \<Rightarrow> CBlock \<Rightarrow> int \<Rightarrow> CAmount \<Rightarrow> bool option" where
  "IsBlockValueValid prefixes cp ctx block nBlockHeight blockReward =
     (let coinbase = vtx block ! 0 in
      case GetValueOut coinbase of
        None \<Rightarrow> None
      | Some value \<Rightarrow>
          let isBlockRewardValueMet = (value \<le> blockReward) in
          if nBlockHeight < nSuperblockStartBlock cp
          then let nOffset = nBlockHeight smod nBudgetPaymentsCycleBlocks cp in
            if nBlockHeight \<ge> nBudgetPaymentsStartBlock cp \<and> nOffset < nBudgetPaymentsWindowBlocks cp
            then if ctx_synced ctx \<and> \<not> ctx_SPORK_13 ctx then Some isBlockRewardValueMet else Some True
            else Some isBlockRewardValueMet
          else let isSuperblockMaxValueMet = (value \<le> GetPaymentsLimit nBlockHeight cp) in
            case (if IsValidBlockHeight nBlockHeight cp then IsFounderValid prefixes cp coinbase nBlockHeight blockReward
                  else Some True) of
              None \<Rightarrow> None
            | Some founders \<Rightarrow>
                if \<not> founders then Some False
                else if \<not> ctx_synced ctx
                then if IsValidBlockHeight nBlockHeight cp then Some isSuperblockMaxValueMet else Some isBlockRewardValueMet
                else if ctx_SPORK_9 ctx
                then if ctx_triggered ctx nBlockHeight
                  then (case ctx_best ctx nBlockHeight of
                          Some payments \<Rightarrow> CSuperblock_IsValid cp payments coinbase nBlockHeight blockReward
                        | None \<Rightarrow> Some False)
                  else Some isBlockRewardValueMet
                else Some isBlockRewardValueMet)"

subsection \<open>Bounds\<close>

lemma sdiv_nonneg: "0 \<le> a \<Longrightarrow> 0 < b \<Longrightarrow> a sdiv b = a div (b :: int)"
  by (cases "a = 0") (simp_all add: signed_divide_int_def)

lemma shift_right_bounds: "0 \<le> a \<Longrightarrow> 0 \<le> shift_right a k \<and> shift_right a k \<le> a"
  unfolding shift_right_def
  by (simp add: pos_imp_zdiv_nonneg_iff) (metis div_by_1 one_le_numeral one_le_power zdiv_mono2 zero_less_one)

definition known_networks :: "RewardParams list" where
  "known_networks = [main_rewards, test_rewards, regtest_rewards]"

lemma known_cases: "cp \<in> set known_networks \<longleftrightarrow> cp = main_rewards \<or> cp = test_rewards \<or> cp = regtest_rewards"
  by (auto simp: known_networks_def)

lemmas network_defs = main_rewards_def test_rewards_def regtest_rewards_def

lemma part_bounds:
  assumes "cp \<in> set known_networks"
  shows "0 \<le> GetMinerSubsidy h cp \<and> GetMinerSubsidy h cp \<le> 10000000000000000"
    "0 \<le> GetMasternodePayment h cp \<and> GetMasternodePayment h cp \<le> 100000000000"
    "0 \<le> GetBudget h cp \<and> GetBudget h cp \<le> 208333333300000"
    "0 \<le> GetFoundersReward h cp \<and> GetFoundersReward h cp \<le> 416666666700000"
proof -
  have s: "0 \<le> shift_right a k \<and> shift_right a k \<le> b" if "0 \<le> a" "a \<le> b" for a b k
    using shift_right_bounds [of a k] that by auto
  show "0 \<le> GetMinerSubsidy h cp \<and> GetMinerSubsidy h cp \<le> 10000000000000000"
    using assms s [of "minerReward5 cp" 10000000000000000] unfolding known_cases GetMinerSubsidy_def Let_def
    by (elim disjE) (simp_all add: network_defs)
  show "0 \<le> GetMasternodePayment h cp \<and> GetMasternodePayment h cp \<le> 100000000000"
    using assms s [of "mnReward5 cp" 100000000000] unfolding known_cases GetMasternodePayment_def Let_def
    by (elim disjE) (simp_all add: network_defs sdiv_nonneg)
  show "0 \<le> GetBudget h cp \<and> GetBudget h cp \<le> 208333333300000"
    using assms s [of "bdgetReward5 cp" 208333333300000] unfolding known_cases GetBudget_def Let_def
    by (elim disjE) (simp_all add: network_defs)
  show "0 \<le> GetFoundersReward h cp \<and> GetFoundersReward h cp \<le> 416666666700000"
    using assms unfolding known_cases GetFoundersReward_def Let_def
    by (elim disjE) (simp_all add: network_defs)
qed



text \<open>An early block of the main network after the superblocks have started.\<close>

lemma early_subsidy:
  assumes "100 \<le> h" "h < 57600"
  shows "GetBlockSubsidy h main_rewards = 468761296600000"
  using assms by (simp add: GetBlockSubsidy_def GetMinerSubsidy_def GetMasternodePayment_def GetBudget_def
      GetFoundersReward_def Let_def main_rewards_def endOfFoundersReward_def)

lemma sum_list_const: "(\<And>x. x \<in> set xs \<Longrightarrow> f x = (c :: int)) \<Longrightarrow> sum_list (map f xs) = int (length xs) * c"
  by (induction xs) (simp_all add: distrib_right)

lemma main_sum_nonneg: "0 \<le> (\<Sum>h \<leftarrow> ks. GetBlockSubsidy (int h) main_rewards)"
  using part_bounds [of main_rewards] by (induction ks) (simp_all add: known_cases GetBlockSubsidy_def)

lemma early_issuance: "MAX_MONEY < (\<Sum>h \<leftarrow> [1 ..< 292]. GetBlockSubsidy (int h) main_rewards)"
proof -
  have "(\<Sum>h \<leftarrow> [100 ..< 292]. GetBlockSubsidy (int h) main_rewards) = 192 * 468761296600000"
    by (subst sum_list_const [of _ _ 468761296600000]) (auto intro: early_subsidy)
  moreover have "0 \<le> (\<Sum>h \<leftarrow> [2 ..< 100]. GetBlockSubsidy (int h) main_rewards)"
    by (rule main_sum_nonneg)
  moreover have "GetBlockSubsidy 1 main_rewards = 10000000000000000"
    by (simp add: GetBlockSubsidy_def GetMinerSubsidy_def GetMasternodePayment_def GetBudget_def
      GetFoundersReward_def Let_def main_rewards_def)
  moreover have "[1 ..< 292] = [1] @ [2 ..< 100] @ [100 ..< 292 :: nat]"
    using upt_add_eq_append [of 2 100 192] by (simp add: upt_conv_Cons)
  ultimately show ?thesis by (simp only: map_append sum_list_append) (simp add: MAX_MONEY_def COIN_def)
qed

text \<open>Before height 292 no block of the main network is a superblock, and the reward is the limit.\<close>

lemma main_early_params:
  "nSuperblockCycle main_rewards = 17280" "nSuperblockStartBlock main_rewards = 100"
  "nBudgetPaymentsStartBlock main_rewards = 2" "nBudgetPaymentsCycleBlocks main_rewards = 17280"
  "nBudgetPaymentsWindowBlocks main_rewards = 100"
  by (simp_all add: main_rewards_def)

lemma early_no_superblock: "1 \<le> h \<Longrightarrow> h < 292 \<Longrightarrow> \<not> IsValidBlockHeight h main_rewards"
  by (simp add: IsValidBlockHeight_def main_early_params signed_modulo_int_def)

lemma early_block_value:
  assumes "ctx_synced ctx" "\<not> ctx_SPORK_13 ctx" "\<And>k. \<not> ctx_triggered ctx k" "1 \<le> h" "h < 292"
    "GetValueOut (vtx block ! 0) = Some v" "v \<le> r"
  shows "IsBlockValueValid prefixes main_rewards ctx block h r = Some True"
proof -
  note cyc = main_early_params
  have "\<not> IsValidBlockHeight h main_rewards" by (rule early_no_superblock) (use assms in auto)
  then show ?thesis using assms by (simp add: IsBlockValueValid_def cyc Let_def)
qed

subsection \<open>Payments of a superblock\<close>

lemma find_payment_Some:
  "find_payment p outs k = Some j \<longleftrightarrow>
     k \<le> j \<and> j < k + length outs \<and> (scriptPubKey (outs ! (j - k)), nValue (outs ! (j - k))) = p \<and>
     (\<forall>i < j - k. (scriptPubKey (outs ! i), nValue (outs ! i)) \<noteq> p)"
proof (induction p outs k rule: find_payment.induct)
  case (1 p k)
  then show ?case by simp
next
  case (2 p out outs k)
  show ?case
  proof (cases "p = (scriptPubKey out, nValue out)")
    case True
    then show ?thesis by (cases "j = k") (auto simp: nth_Cons' dest: spec [of _ 0])
  next
    case False
    then have *: "find_payment p (out # outs) k = find_payment p outs (k + 1)" by (cases p) auto
    have ih: "find_payment p outs (k + 1) = Some j \<longleftrightarrow> k + 1 \<le> j \<and> j < k + 1 + length outs \<and>
        (scriptPubKey (outs ! (j - (k + 1))), nValue (outs ! (j - (k + 1)))) = p \<and>
        (\<forall>i < j - (k + 1). (scriptPubKey (outs ! i), nValue (outs ! i)) \<noteq> p)"
      by (rule 2) (use False in \<open>cases p; auto\<close>)
    show ?thesis
    proof (cases "k < j")
      case True
      then obtain d where d: "j = k + 1 + d" by (metis add.commute add_Suc_right less_imp_Suc_add plus_1_eq_Suc)
      show ?thesis unfolding * ih using False by (auto simp: d All_less_Suc2)
    next
      case f: False
      then show ?thesis unfolding * ih using False by auto
    qed
  qed
qed

lemma find_payment_least:
  assumes "k \<le> j" "j < length outs" "(scriptPubKey (outs ! j), nValue (outs ! j)) = p"
  obtains j' where "find_payment p (drop k outs) k = Some j'" "k \<le> j'" "j' \<le> j"
proof (cases "find_payment p (drop k outs) k")
  case None
  have "find_payment p outs k \<noteq> None" if "(scriptPubKey o', nValue o') = p" "o' \<in> set outs" for o' outs k
    using that by (induction p outs k rule: find_payment.induct) auto
  moreover have "outs ! j \<in> set (drop k outs)"
    using nth_mem [of "j - k" "drop k outs"] assms(1,2) by simp
  ultimately show ?thesis using None assms(3) by blast
next
  case (Some j')
  have "\<not> j < j'"
  proof
    assume "j < j'"
    then have "(scriptPubKey (drop k outs ! (j - k)), nValue (drop k outs ! (j - k))) \<noteq> p"
      using Some assms(1) unfolding find_payment_Some by simp
    then show False using assms by simp
  qed
  moreover have "k \<le> j'" using Some unfolding find_payment_Some by simp
  ultimately show ?thesis using that Some by simp
qed

lemma match_payments_iff:
  "match_payments payments outs k \<longleftrightarrow>
     (\<exists>js. sorted js \<and> set js \<subseteq> {k ..< length outs} \<and>
        map (\<lambda>j. (scriptPubKey (outs ! j), nValue (outs ! j))) js = payments)"
proof (induction payments arbitrary: k)
  case Nil
  show ?case by (auto intro: exI [of _ "[]"])
next
  case (Cons p ps)
  show ?case
  proof
    assume m: "match_payments (p # ps) outs k"
    then obtain j where j: "find_payment p (drop k outs) k = Some j" "match_payments ps outs j"
      by (auto split: option.splits)
    obtain js where js: "sorted js" "set js \<subseteq> {j ..< length outs}"
        "map (\<lambda>j. (scriptPubKey (outs ! j), nValue (outs ! j))) js = ps"
      using j(2) unfolding Cons.IH by blast
    have j1: "k \<le> j" "j < length outs" "(scriptPubKey (outs ! j), nValue (outs ! j)) = p"
      using j(1) unfolding find_payment_Some by auto
    then show "\<exists>js. sorted js \<and> set js \<subseteq> {k ..< length outs} \<and>
        map (\<lambda>j. (scriptPubKey (outs ! j), nValue (outs ! j))) js = p # ps"
      using js by (intro exI [of _ "j # js"]) auto
  next
    assume "\<exists>js. sorted js \<and> set js \<subseteq> {k ..< length outs} \<and>
        map (\<lambda>j. (scriptPubKey (outs ! j), nValue (outs ! j))) js = p # ps"
    then obtain j js where js: "sorted (j # js)" "set (j # js) \<subseteq> {k ..< length outs}"
        "(scriptPubKey (outs ! j), nValue (outs ! j)) = p"
        "map (\<lambda>j. (scriptPubKey (outs ! j), nValue (outs ! j))) js = ps"
      by (auto simp: map_eq_Cons_conv)
    obtain j' where j': "find_payment p (drop k outs) k = Some j'" "k \<le> j'" "j' \<le> j"
      using find_payment_least [of k j outs p] js(2,3) by auto
    have "match_payments ps outs j'"
      unfolding Cons.IH using js(1,2,4) j'(3) by (intro exI [of _ js]) fastforce
    then show "match_payments (p # ps) outs k" using j'(1) by simp
  qed
qed

subsection \<open>What the rules allow\<close>

definition one_output_block :: "CAmount \<Rightarrow> CBlock" where
  "one_output_block v =
     \<lparr>blk_header = CBlockHeader_SetNull, vtx = [CTransaction_Null\<lparr>vout := [mk_CTxOut v []]\<rparr>]\<rparr>"

text \<open>
  C36. The main network issues more than all the money there may be before height 292: when a node is
  synchronised, the old-superblock spork is off and no superblock was voted for, it accepts at each
  height from 1 to 291 a coinbase of the whole subsidy, budget and founders' share included although
  none of these heights is a superblock, and these coinbases add up to more than MAX_MONEY.
\<close>

theorem coinbases_exceed_money:
  assumes "ctx_synced ctx" "\<not> ctx_SPORK_13 ctx" "\<And>k. \<not> ctx_triggered ctx k"
    "\<And>h. GetValueOut (vtx (blocks h) ! 0) = Some (GetBlockSubsidy (int h) main_rewards)"
  shows "(\<forall>h \<in> {1 ..< 292}. \<not> IsValidBlockHeight (int h) main_rewards \<and>
      IsBlockValueValid prefixes main_rewards ctx (blocks h) (int h) (GetBlockSubsidy (int h) main_rewards) = Some True) \<and>
    MAX_MONEY < (\<Sum>h \<leftarrow> [1 ..< 292]. GetBlockSubsidy (int h) main_rewards)"
proof (intro conjI ballI)
  fix h assume "h \<in> {1 ..< 292 :: nat}"
  then show "\<not> IsValidBlockHeight (int h) main_rewards"
      and "IsBlockValueValid prefixes main_rewards ctx (blocks h) (int h) (GetBlockSubsidy (int h) main_rewards) = Some True"
    using assms by (auto intro: early_block_value simp: early_no_superblock)
qed (rule early_issuance)

lemma coinbases_exceed_money_witness:
  "(\<lambda>ctx prefixes. IsBlockValueValid prefixes main_rewards ctx (one_output_block 468761296600000) 200 468761296600000)
     \<lparr>ctx_synced = True, ctx_SPORK_13 = False, ctx_SPORK_9 = True, ctx_triggered = (\<lambda>k. False), ctx_best = (\<lambda>k. None)\<rparr>
     (\<lambda>t. [3]) = Some True"
proof -
  let ?ctx = "\<lparr>ctx_synced = True, ctx_SPORK_13 = False, ctx_SPORK_9 = True, ctx_triggered = (\<lambda>k. False), ctx_best = (\<lambda>k. None)\<rparr>"
  have "GetValueOut (vtx (one_output_block (GetBlockSubsidy h main_rewards)) ! 0) = Some (GetBlockSubsidy h main_rewards)" for h
    using part_bounds [of main_rewards h]
    by (simp add: one_output_block_def GetValueOut_def mk_CTxOut_def MoneyRange_def MAX_MONEY_def COIN_def known_cases
        GetBlockSubsidy_def)
  then have "\<forall>h \<in> {1 ..< 292}. IsBlockValueValid (\<lambda>t. [3]) main_rewards ?ctx
      (one_output_block (GetBlockSubsidy (int h) main_rewards)) (int h) (GetBlockSubsidy (int h) main_rewards) = Some True"
    using coinbases_exceed_money
      [of ?ctx "\<lambda>h. one_output_block (GetBlockSubsidy (int h) main_rewards)" "\<lambda>t. [3]"] by simp
  then have "IsBlockValueValid (\<lambda>t. [3]) main_rewards ?ctx
      (one_output_block (GetBlockSubsidy (int 200) main_rewards)) (int 200) (GetBlockSubsidy (int 200) main_rewards) = Some True"
    by (rule bspec) simp
  then show ?thesis by (simp add: early_subsidy)
qed

text \<open>
  The search for the payments of a superblock succeeds exactly when they can be placed on outputs
  of the transaction in order, where one output may serve several equal payments in a row.
\<close>

theorem superblock_payments_placed:
  "match_payments payments outs 0 \<longleftrightarrow>
     (\<exists>js. sorted js \<and> set js \<subseteq> {..< length outs} \<and>
        map (\<lambda>j. (scriptPubKey (outs ! j), nValue (outs ! j))) js = payments)"
  unfolding match_payments_iff by (simp add: lessThan_atLeast0)



end
