(* ===== verification/ClaimRows.thy ===== *)
theory ClaimRows
  imports ClaimBlocks
begin

text \<open>
  The rows of the two expiration queues.  \<open>removeFromExpirationQueue\<close> and its companion for supports
  use iterators that they only set when the row exists, so taking back a block depends on the rows of
  its height.  No operation on the way back ever takes a row away: it may empty it, and \<open>flush\<close>
  alone erases empty rows.
\<close>

subsection \<open>Rows stay\<close>

definition claims_expire :: "CClaimTrieCache \<Rightarrow> int \<Rightarrow> bool" where
  "claims_expire S h \<longleftrightarrow> expirationQueueCache S h \<noteq> None \<or> getExpirationQueueRow (base S) h \<noteq> None"

definition supports_expire :: "CClaimTrieCache \<Rightarrow> int \<Rightarrow> bool" where
  "supports_expire S h \<longleftrightarrow> supportExpirationQueueCache S h \<noteq> None \<or> getSupportExpirationQueueRow (base S) h \<noteq> None"

definition keeps_rows :: "CClaimTrieCache \<Rightarrow> CClaimTrieCache \<Rightarrow> bool" where
  "keeps_rows S S' \<longleftrightarrow> base S' = base S \<and> (\<forall>h. claims_expire S h \<longrightarrow> claims_expire S' h) \<and>
     (\<forall>h. supports_expire S h \<longrightarrow> supports_expire S' h)"

lemmas rows_defs = keeps_rows_def claims_expire_def supports_expire_def

lemma rows_refl [simp]: "keeps_rows S S"
  by (simp add: keeps_rows_def)

lemma rows_trans: "keeps_rows S S' \<Longrightarrow> keeps_rows S' S'' \<Longrightarrow> keeps_rows S S''"
  by (simp add: keeps_rows_def)

lemma rows_fields [simp]:
  "keeps_rows S (S'\<lparr>cache := x\<rparr>) = keeps_rows S S'"
  "keeps_rows S (S'\<lparr>supportCache := m\<rparr>) = keeps_rows S S'"
  "keeps_rows S (S'\<lparr>cacheTakeoverHeights := t\<rparr>) = keeps_rows S S'"
  "keeps_rows S (S'\<lparr>cache_nCurrentHeight := k\<rparr>) = keeps_rows S S'"
  "keeps_rows S (cache_put p n S') = keeps_rows S S'"
  "keeps_rows S (addNodeToCache p n S') = keeps_rows S S'"
  "keeps_rows S (mark_dirty p S') = keeps_rows S S'"
  "keeps_rows S (check_takeover p S') = keeps_rows S S'"
  "keeps_rows S (set_queue_row h q S') = keeps_rows S S'"
  "keeps_rows S (set_queue_name_row nm r S') = keeps_rows S S'"
  "keeps_rows S (set_support_queue_row h s S') = keeps_rows S S'"
  "keeps_rows S (set_support_queue_name_row nm r S') = keeps_rows S S'"
  by (simp_all add: rows_defs cache_put_def addNodeToCache_def mark_dirty_def check_takeover_def
      set_queue_row_def set_queue_name_row_def set_support_queue_row_def set_support_queue_name_row_def Let_def)

lemma rows_set [simp]:
  "keeps_rows S S' \<Longrightarrow> keeps_rows S (set_expiration_row h e S')"
  "keeps_rows S S' \<Longrightarrow> keeps_rows S (set_support_expiration_row h e S')"
  by (auto simp: rows_defs set_expiration_row_def set_support_expiration_row_def)

lemmas row_gets = getQueueCacheRow_def getQueueCacheNameRow_def getExpirationQueueCacheRow_def
  getSupportQueueCacheRow_def getSupportQueueCacheNameRow_def getSupportExpirationQueueCacheRow_def

lemma rows_get [simp]:
  "keeps_rows S (fst (getQueueCacheRow h c S))"
  "keeps_rows S (fst (getQueueCacheNameRow nm c S))"
  "keeps_rows S (fst (getExpirationQueueCacheRow h c S))"
  "keeps_rows S (fst (getSupportQueueCacheRow h c S))"
  "keeps_rows S (fst (getSupportQueueCacheNameRow nm c S))"
  "keeps_rows S (fst (getSupportExpirationQueueCacheRow h c S))"
  by (auto simp: rows_defs row_gets split: option.splits)

lemma rows_get_eq:
  "getQueueCacheRow h c S = (S', r) \<Longrightarrow> keeps_rows S S'"
  "getQueueCacheNameRow nm c S = (S', r') \<Longrightarrow> keeps_rows S S'"
  "getExpirationQueueCacheRow h c S = (S', e) \<Longrightarrow> keeps_rows S S'"
  "getSupportQueueCacheRow h c S = (S', s) \<Longrightarrow> keeps_rows S S'"
  "getSupportQueueCacheNameRow nm c S = (S', r') \<Longrightarrow> keeps_rows S S'"
  "getSupportExpirationQueueCacheRow h c S = (S', e) \<Longrightarrow> keeps_rows S S'"
  using rows_get [of S] by (metis fst_conv)+

lemma addToExpirationQueue_rows: "keeps_rows S (addToExpirationQueue h e S)"
  unfolding addToExpirationQueue_def by (auto split: prod.split option.split dest: rows_get_eq)

lemma addSupportToExpirationQueue_rows: "keeps_rows S (addSupportToExpirationQueue h e S)"
  unfolding addSupportToExpirationQueue_def by (auto split: prod.split option.split dest: rows_get_eq)

lemma removeFromExpirationQueue_rows:
  "case removeFromExpirationQueue name op h S of
     None \<Rightarrow> \<not> claims_expire S (h + trie_nExpirationTime (base S)) | Some S' \<Rightarrow> keeps_rows S S'"
  unfolding removeFromExpirationQueue_def Let_def
  by (auto split: prod.split option.split dest: rows_get_eq)
    (auto simp: row_gets claims_expire_def split: option.splits)

lemma removeSupportFromExpirationQueue_rows:
  "case removeSupportFromExpirationQueue name op h S of
     None \<Rightarrow> \<not> supports_expire S (h + trie_nExpirationTime (base S)) | Some S' \<Rightarrow> keeps_rows S S'"
  unfolding removeSupportFromExpirationQueue_def Let_def
  by (auto split: prod.split option.split dest: rows_get_eq)
    (auto simp: row_gets supports_expire_def split: option.splits)

subsection \<open>Queues\<close>

lemma addClaimToQueues_rows: "keeps_rows S (addClaimToQueues name claim S)"
  unfolding addClaimToQueues_def Let_def
  by (auto split: prod.split intro!: rows_trans [OF _ addToExpirationQueue_rows] dest!: rows_get_eq intro: rows_trans)

lemma addSupportToQueues_rows: "keeps_rows S (addSupportToQueues name support S)"
  unfolding addSupportToQueues_def Let_def
  by (auto split: prod.split intro!: rows_trans [OF _ addSupportToExpirationQueue_rows] dest!: rows_get_eq intro: rows_trans)

lemma removeClaimFromQueue_rows: "keeps_rows S (fst (removeClaimFromQueue name op S))"
  unfolding removeClaimFromQueue_def
  by (auto split: prod.split option.split dest!: rows_get_eq intro: rows_trans)

lemma removeSupportFromQueue_rows: "keeps_rows S (fst (removeSupportFromQueue name op S))"
  unfolding removeSupportFromQueue_def
  by (auto split: prod.split option.split dest!: rows_get_eq intro: rows_trans)

subsection \<open>The node cache\<close>

lemma prune_self_rows: "keeps_rows S (fst (prune_self cur cached pos S))"
  by (simp add: prune_self_def)

lemma recursivePruneName_rows: "keeps_rows S (fst (recursivePruneName cur cached pos cs S))"
proof (induction cs arbitrary: cur cached pos)
  case Nil
  then show ?case by (simp add: prune_self_rows)
next
  case (Cons c cs)
  let ?sel = "case cache_find S (pos @ [c]) of Some n \<Rightarrow> Some (n, True)
            | None \<Rightarrow> map_option (\<lambda>n. (n, False)) (child cur c)"
  have self: "keeps_rows S (fst (prune_self cur' b pos S'))" if "keeps_rows S S'" for cur' b S'
    by (rule rows_trans [OF that prune_self_rows])
  show ?case
  proof (cases ?sel)
    case None
    then show ?thesis by simp
  next
    case (Some e)
    obtain n b where e: "e = (n, b)" by force
    obtain S1 ok nul where r: "recursivePruneName n b (pos @ [c]) cs S = (S1, ok, nul)" by (metis prod.exhaust)
    have "keeps_rows S S1" using Cons.IH [of n b "pos @ [c]"] r by simp
    then show ?thesis using self Some e r by (simp add: Let_def)
  qed
qed

lemma removeClaimFromTrie_rows: "keeps_rows S (fst (removeClaimFromTrie name op chk S))"
proof -
  have p: "keeps_rows S S1" if "recursivePruneName n b [] name S' = (S1, ok, nul)" and "keeps_rows S S'"
    for n b S' S1 ok nul
    using rows_trans [OF that(2) recursivePruneName_rows] that(1) by (metis fst_conv)
  show ?thesis unfolding removeClaimFromTrie_def Let_def
    by (auto split: option.split list.split prod.split simp del: recursivePruneName.simps intro: p)
qed

lemma insert_walk_rows: "keeps_rows S (fst (insert_walk S cur cached pos cs))"
proof (induction cs arbitrary: S cur cached pos)
  case (Cons c cs)
  show ?case using rows_trans [OF _ Cons.IH] by (auto simp: Let_def split: option.split)
qed simp

lemma insertClaimIntoTrie_rows: "keeps_rows S (fst (insertClaimIntoTrie name claim chk S))"
proof -
  obtain S1 r where w: "insert_walk S (fst (start_node S)) (snd (start_node S)) [] name = (S1, r)" by force
  have "keeps_rows S S1" using insert_walk_rows [of S "fst (start_node S)" "snd (start_node S)" "[]" name] w by simp
  then show ?thesis unfolding insertClaimIntoTrie_def w Let_def by (auto split: option.split prod.split list.split)
qed

lemma reorderTrieNode_rows: "keeps_rows S (fst (reorderTrieNode name chk S))"
  unfolding reorderTrieNode_def Let_def by (auto split: option.split list.split)

lemma insertSupportIntoMap_rows: "keeps_rows S (fst (insertSupportIntoMap name support chk S))"
  unfolding insertSupportIntoMap_def by (rule rows_trans [OF _ reorderTrieNode_rows]) simp

lemma removeSupportFromMap_rows: "keeps_rows S (fst (removeSupportFromMap name op chk S))"
proof -
  have "keeps_rows S (fst (reorderTrieNode name chk S'))" if "keeps_rows S S'" for S'
    by (rule rows_trans [OF that reorderTrieNode_rows])
  then show ?thesis unfolding removeSupportFromMap_def Let_def by (auto split: option.split prod.split) (metis fst_conv rows_fields(2) rows_refl)
qed

subsection \<open>Operations of a transaction and of a block\<close>

lemma undoSpendClaim_rows: "keeps_rows S (fst (undoSpendClaim name op cid amount height valid addr S))"
  unfolding undoSpendClaim_def Let_def
  using rows_trans [OF addToExpirationQueue_rows insertClaimIntoTrie_rows] addClaimToQueues_rows by simp

lemma undoSpendSupport_rows: "keeps_rows S (fst (undoSpendSupport name op cid amount height valid S))"
  unfolding undoSpendSupport_def Let_def
  using rows_trans [OF addSupportToExpirationQueue_rows insertSupportIntoMap_rows] addSupportToQueues_rows by simp

text \<open>A claim is removed unless it is there and the row of its expiration is not.\<close>

lemma removeClaim_rows:
  "case removeClaim name op height chk S of
     None \<Rightarrow> \<not> claims_expire S (height + trie_nExpirationTime (base S)) | Some (S', r) \<Rightarrow> keeps_rows S S'"
proof -
  let ?p = "case removeClaimFromQueue name op S of
            (S, Some claim) \<Rightarrow> (S, Some claim)
          | (S, None) \<Rightarrow> (case removeClaimFromTrie name op chk S of (S, claim, ok) \<Rightarrow> (S, if ok then claim else None))"
  obtain S1 removed where p: "?p = (S1, removed)" by force
  obtain S0 q where q: "removeClaimFromQueue name op S = (S0, q)" by force
  have k0: "keeps_rows S S0" using removeClaimFromQueue_rows [of S name op] q by simp
  have k: "keeps_rows S S1"
    using p k0 rows_trans [OF k0 removeClaimFromTrie_rows] by (auto simp: q split: option.splits prod.splits) (metis fst_conv)
  have eq: "removeClaim name op height chk S = (case removed of None \<Rightarrow> Some (S1, None)
      | Some claim \<Rightarrow> (case removeFromExpirationQueue name op height S1 of
               None \<Rightarrow> None | Some S \<Rightarrow> Some (S, Some (claim_nValidAtHeight claim))))"
    unfolding removeClaim_def p by simp
  show ?thesis unfolding eq
    using k removeFromExpirationQueue_rows [where name = name and op = op and h = height and S = S1] rows_trans [OF k]
    by (auto simp: keeps_rows_def split: option.splits)
qed

lemma removeSupport_rows:
  "case removeSupport name op height chk S of
     None \<Rightarrow> \<not> supports_expire S (height + trie_nExpirationTime (base S)) | Some (S', r) \<Rightarrow> keeps_rows S S'"
proof -
  let ?p = "case removeSupportFromQueue name op S of
            (S, Some s) \<Rightarrow> (S, Some s)
          | (S, None) \<Rightarrow> (case removeSupportFromMap name op chk S of (S, s, ok) \<Rightarrow> (S, if ok then s else None))"
  obtain S1 removed where p: "?p = (S1, removed)" by force
  obtain S0 q where q: "removeSupportFromQueue name op S = (S0, q)" by force
  have k0: "keeps_rows S S0" using removeSupportFromQueue_rows [of S name op] q by simp
  have k: "keeps_rows S S1"
    using p k0 rows_trans [OF k0 removeSupportFromMap_rows] by (auto simp: q split: option.splits prod.splits) (metis fst_conv)
  have eq: "removeSupport name op height chk S = (case removed of None \<Rightarrow> Some (S1, None)
      | Some s \<Rightarrow> (case removeSupportFromExpirationQueue name op height S1 of
               None \<Rightarrow> None | Some S \<Rightarrow> Some (S, Some (sup_nValidAtHeight s))))"
    unfolding removeSupport_def p by simp
  show ?thesis unfolding eq
    using k removeSupportFromExpirationQueue_rows [where name = name and op = op and h = height and S = S1] rows_trans [OF k]
    by (auto simp: keeps_rows_def split: option.splits)
qed

lemma undo_expired_supports_rows: "keeps_rows S (undo_expired_supports es h S)"
proof (induction es h S rule: undo_expired_supports.induct)
  case (2 name support es h S)
  then show ?case
    using rows_trans [OF rows_trans [OF insertSupportIntoMap_rows addSupportToExpirationQueue_rows]] by auto
qed simp

lemma undo_expired_claims_rows: "keeps_rows S (undo_expired_claims es h S)"
proof (induction es h S rule: undo_expired_claims.induct)
  case (2 name claim es h S)
  then show ?case
    using rows_trans [OF rows_trans [OF insertClaimIntoTrie_rows addToExpirationQueue_rows]] by auto
qed simp

lemma undo_inserted_supports_rows: "keeps_rows S (undo_inserted_supports junk us S)"
proof (induction us arbitrary: S)
  case (Cons u us)
  obtain S1 row where 1: "getSupportQueueCacheRow (noph_nHeight u) True S = (S1, row)" by force
  obtain S2 s ok where 2: "removeSupportFromMap (noph_name u) (noph_outPoint u) False S1 = (S2, s, ok)" by (metis prod.exhaust)
  obtain S3 nr where 3: "getSupportQueueCacheNameRow (noph_name u) True S2 = (S3, nr)" by force
  have "keeps_rows S1 S2" using removeSupportFromMap_rows [of S1 "noph_name u" "noph_outPoint u" False] 2 by simp
  then have "keeps_rows S S3" using rows_get_eq(4) [OF 1] rows_get_eq(5) [OF 3] rows_trans by blast
  then show ?case using rows_trans [OF _ Cons.IH] by (simp add: 1 2 3 Let_def)
qed simp

lemma undo_inserted_claims_rows: "keeps_rows S (fst (undo_inserted_claims us S))"
proof (induction us arbitrary: S)
  case (Cons u us)
  obtain S1 row where 1: "getQueueCacheRow (noph_nHeight u) True S = (S1, row)" by force
  obtain S2 c ok where 2: "removeClaimFromTrie (noph_name u) (noph_outPoint u) False S1 = (S2, c, ok)" by (metis prod.exhaust)
  obtain S3 nr where 3: "getQueueCacheNameRow (noph_name u) True S2 = (S3, nr)" by force
  have "keeps_rows S1 S2" using removeClaimFromTrie_rows [of S1 "noph_name u" "noph_outPoint u" False] 2 by simp
  then have k: "keeps_rows S S2" "keeps_rows S S3"
    using rows_get_eq(1) [OF 1] rows_get_eq(2) [OF 3] rows_trans by blast+
  then show ?case using rows_trans [OF _ Cons.IH] by (auto simp: 1 2 3 Let_def split: option.split bool.split)
qed simp

lemma decrementBlock_rows: "keeps_rows S (fst (decrementBlock junk S U))"
proof -
  let ?S0 = "S\<lparr>cache_nCurrentHeight := cache_nCurrentHeight S - 1\<rparr>" and ?h = "cache_nCurrentHeight S - 1"
  define S1 where "S1 = (if expireSupportUndo U \<noteq> []
               then undo_expired_supports (expireSupportUndo U) ?h (fst (getSupportExpirationQueueCacheRow ?h True ?S0)) else ?S0)"
  define S2 where "S2 = undo_inserted_supports junk (insertSupportUndo U) S1"
  define S3 where "S3 = (if expireUndo U \<noteq> []
               then undo_expired_claims (expireUndo U) ?h (fst (getExpirationQueueCacheRow ?h True S2)) else S2)"
  obtain S4 ok where 4: "undo_inserted_claims (insertUndo U) S3 = (S4, ok)" by force
  have 0: "keeps_rows S ?S0" by simp
  have "keeps_rows ?S0 S1" unfolding S1_def using rows_trans [OF rows_get(6) undo_expired_supports_rows] by simp
  moreover have "keeps_rows S1 S2" unfolding S2_def by (rule undo_inserted_supports_rows)
  moreover have "keeps_rows S2 S3" unfolding S3_def using rows_trans [OF rows_get(3) undo_expired_claims_rows] by simp
  moreover have "keeps_rows S3 S4" using undo_inserted_claims_rows [of S3 "insertUndo U"] 4 by simp
  ultimately have "keeps_rows S S4" using 0 rows_trans by blast
  moreover have "decrementBlock junk S U = (case (S4, ok) of
           (S, False) \<Rightarrow> (S, False)
         | (S, True) \<Rightarrow>
             (S\<lparr>cacheTakeoverHeights := fold (\<lambda>(name, h). map_put (<) name h) (takeoverHeightUndo U)
                  (cacheTakeoverHeights S)\<rparr>, True))"
    unfolding 4 [symmetric] by (simp add: decrementBlock_def Let_def S1_def S2_def S3_def)
  ultimately show ?thesis by (cases ok) simp_all
qed

end
