(* ===== verification/Connect.thy ===== *)
theory Connect
  imports Undo Rewards ClaimRows
begin

text \<open>
  How a block changes the coins and the claim trie and how it is taken back (\<open>main.cpp\<close>):
  \<open>UpdateCoins\<close>, the part of \<open>ConnectBlock\<close> that moves claims, \<open>ApplyTxInUndo\<close> and
  \<open>DisconnectBlock\<close>.  The optional address and spent indexes are off, as they are by default; \<open>None\<close>
  is a failed assertion.
\<close>

subsection \<open>The scope of a modifier\<close>

text \<open>What is done with the coins of a transaction while a modifier is open, with a result.\<close>

definition with_coins :: "(CCoins \<Rightarrow> ('a \<times> CCoins) option) \<Rightarrow> uint256 \<Rightarrow> CCoinsViewCache \<Rightarrow> CCoinsView \<Rightarrow>
    ('a \<times> CCoinsViewCache \<times> CCoinsView) option" where
  "with_coins f txid c below =
     (case ModifyCoins txid c below of
        None \<Rightarrow> None
      | Some (c, below) \<Rightarrow>
          (case map_of (cacheCoins c) txid of
             None \<Rightarrow> None
           | Some e \<Rightarrow>
               (case f (ce_coins e) of
                  None \<Rightarrow> None
                | Some (r, coins) \<Rightarrow>
                    map_option (\<lambda>c. (r, c, below)) (close_modifier txid (use_modifier (\<lambda>_. coins) txid c)))))"

subsection \<open>Spending and adding\<close>

definition spend_coins :: "nat \<Rightarrow> CCoins \<Rightarrow> (CTxInUndo \<times> CCoins) option" where
  "spend_coins nPos coins =
     (if nPos \<ge> length (coins_vout coins) \<or> CTxOut_IsNull (coins_vout coins ! nPos) then None
      else let undo = mk_CTxInUndo (coins_vout coins ! nPos);
               coins = snd (Spend coins nPos)
           in if length (coins_vout coins) = 0
              then Some (undo\<lparr>undo_nHeight := of_int (coins_nHeight coins), undo_fCoinBase := fCoinBase coins,
                           undo_nVersion := coins_nVersion coins\<rparr>, coins)
              else Some (undo, coins))"

fun spend_inputs :: "CTxIn list \<Rightarrow> CTxUndo \<Rightarrow> CCoinsViewCache \<Rightarrow> CCoinsView \<Rightarrow>
    (CTxUndo \<times> CCoinsViewCache \<times> CCoinsView) option" where
  "spend_inputs [] vprevout c below = Some (vprevout, c, below)"
| "spend_inputs (txin # txins) vprevout c below =
     (case with_coins (spend_coins (unat (op_n (prevout txin)))) (op_hash (prevout txin)) c below of
        None \<Rightarrow> None
      | Some (undo, c, below) \<Rightarrow> spend_inputs txins (vprevout @ [undo]) c below)"

definition UpdateCoins :: "CTransaction \<Rightarrow> CTxUndo \<Rightarrow> int \<Rightarrow> CCoinsViewCache \<Rightarrow> CCoinsView \<Rightarrow>
    (CTxUndo \<times> CCoinsViewCache \<times> CCoinsView) option" where
  "UpdateCoins tx txundo height c below =
     (if \<not> IsCoinBase tx
      then (case spend_inputs (vin tx) txundo c below of
              None \<Rightarrow> None
            | Some (txundo, c, below) \<Rightarrow>
                map_option (\<lambda>c. (txundo, c, below)) (modify_new_coins (\<lambda>_. FromTx tx height) (CTransaction_GetHash tx) c))
      else map_option (\<lambda>(c, below). (txundo, c, below))
             (modify_coins (\<lambda>_. FromTx tx height) (CTransaction_GetHash tx) c below))"

subsection \<open>Claims of a block\<close>

text \<open>The id of a claim that an output makes or updates.\<close>

definition claim_id_of :: "opcodetype \<Rightarrow> bytes list \<Rightarrow> COutPoint \<Rightarrow> uint160" where
  "claim_id_of op vvchParams out =
     (if op = OP_CLAIM_NAME then ClaimIdHash (op_hash out) (op_n out) else vvchParams ! 1)"

text \<open>
  The loop over the inputs: the heights to remember by the number of the input, and the spent claims
  by name and id.  \<open>coins->vout[n]\<close> is read without a check.
\<close>

fun spend_claims :: "nat \<Rightarrow> CTxIn list \<Rightarrow> (nat \<times> int) list \<Rightarrow> (string \<times> uint160) list \<Rightarrow>
    CCoinsViewCache \<times> CCoinsView \<times> CClaimTrieCache \<Rightarrow>
    ((nat \<times> int) list \<times> (string \<times> uint160) list \<times> CCoinsViewCache \<times> CCoinsView \<times> CClaimTrieCache) option" where
  "spend_claims m [] heights spent (c, below, trie) = Some (heights, spent, c, below, trie)"
| "spend_claims m (txin # txins) heights spent (c, below, trie) =
     (case AccessCoins (op_hash (prevout txin)) c below of
        (None, c, below) \<Rightarrow> None
      | (Some coins, c, below) \<Rightarrow>
          if unat (op_n (prevout txin)) \<ge> length (coins_vout coins) then None
          else case DecodeClaimScript (scriptPubKey (coins_vout coins ! unat (op_n (prevout txin)))) of
            None \<Rightarrow> spend_claims (m + 1) txins heights spent (c, below, trie)
          | Some (op, vvchParams, pc) \<Rightarrow>
              let name = string_of_bytes (vvchParams ! 0) in
              if op = OP_CLAIM_NAME \<or> op = OP_UPDATE_CLAIM
              then (case spendClaim name (prevout txin) (coins_nHeight coins) trie of
                      None \<Rightarrow> None
                    | Some (trie, None) \<Rightarrow> spend_claims (m + 1) txins heights spent (c, below, trie)
                    | Some (trie, Some nValidAtHeight) \<Rightarrow>
                        spend_claims (m + 1) txins (heights @ [(m, nValidAtHeight)])
                          (spent @ [(name, claim_id_of op vvchParams (prevout txin))]) (c, below, trie))
              else (case spendSupport name (prevout txin) (coins_nHeight coins) trie of
                      None \<Rightarrow> None
                    | Some (trie, None) \<Rightarrow> spend_claims (m + 1) txins heights spent (c, below, trie)
                    | Some (trie, Some nValidAtHeight) \<Rightarrow>
                        spend_claims (m + 1) txins (heights @ [(m, nValidAtHeight)]) spent (c, below, trie)))"

text \<open>The loop over the outputs; an update takes the first spent claim with its name and id.\<close>

fun add_claims :: "uint256 \<Rightarrow> int \<Rightarrow> nat \<Rightarrow> CTxOut list \<Rightarrow> (string \<times> uint160) list \<Rightarrow> CClaimTrieCache \<Rightarrow> CClaimTrieCache" where
  "add_claims txhash height l [] spent trie = trie"
| "add_claims txhash height l (txout # txouts) spent trie =
     (let out = \<lparr>op_hash = txhash, op_n = of_nat l\<rparr> in
      case DecodeClaimScript (scriptPubKey txout) of
        None \<Rightarrow> add_claims txhash height (l + 1) txouts spent trie
      | Some (op, vvchParams, pc) \<Rightarrow>
          let name = string_of_bytes (vvchParams ! 0) in
          if op = OP_CLAIM_NAME
          then add_claims txhash height (l + 1) txouts spent
                 (fst (addClaim name out (ClaimIdHash txhash (of_nat l)) (nValue txout) height
                   (string_of_bytes (vvchParams ! 1)) trie))
          else if op = OP_UPDATE_CLAIM
          then if (name, vvchParams ! 1) \<in> set spent
            then add_claims txhash height (l + 1) txouts (remove1 (name, vvchParams ! 1) spent)
                   (fst (addClaim name out (vvchParams ! 1) (nValue txout) height (string_of_bytes (vvchParams ! 2)) trie))
            else add_claims txhash height (l + 1) txouts spent trie
          else add_claims txhash height (l + 1) txouts spent
                 (fst (addSupport name out (nValue txout) (vvchParams ! 1) height trie)))"

text \<open>The heights at which claims go back into the trie are kept with the inputs.\<close>

definition mark_claim :: "nat \<times> int \<Rightarrow> CTxUndo \<Rightarrow> CTxUndo" where
  "mark_claim itHeight txinUndos =
     txinUndos[fst itHeight := (txinUndos ! fst itHeight)\<lparr>undo_nClaimValidHeight := of_int (snd itHeight),
       undo_fIsClaim := True\<rparr>]"

type_synonym ConnectState = "CTxUndo list \<times> CCoinsViewCache \<times> CCoinsView \<times> CClaimTrieCache"

definition connect_tx :: "nat \<Rightarrow> CTransaction \<Rightarrow> int \<Rightarrow> ConnectState \<Rightarrow> ConnectState option" where
  "connect_tx i tx height st =
     (case st of (vtxu, c, below, trie) \<Rightarrow>
      case (if \<not> IsCoinBase tx
            then (case spend_claims 0 (vin tx) [] [] (c, below, trie) of
                    None \<Rightarrow> None
                  | Some (heights, spent, c, below, trie) \<Rightarrow>
                      Some (heights, c, below, add_claims (CTransaction_GetHash tx) height 0 (vout tx) spent trie))
            else Some ([], c, below, trie)) of
        None \<Rightarrow> None
      | Some (heights, c, below, trie) \<Rightarrow>
          (case UpdateCoins tx [] height c below of
             None \<Rightarrow> None
           | Some (txundo, c, below) \<Rightarrow>
               Some (if i > 0 then vtxu @ [fold mark_claim heights txundo] else vtxu, c, below, trie)))"

fun connect_txs :: "nat \<Rightarrow> CTransaction list \<Rightarrow> int \<Rightarrow> ConnectState \<Rightarrow> ConnectState option" where
  "connect_txs i [] height st = Some st"
| "connect_txs i (tx # txs) height st =
     (case connect_tx i tx height st of None \<Rightarrow> None | Some st \<Rightarrow> connect_txs (i + 1) txs height st)"

subsection \<open>Taking back an input\<close>

definition restore_claim :: "CTxInUndo \<Rightarrow> COutPoint \<Rightarrow> CCoins \<Rightarrow> CClaimTrieCache \<Rightarrow> CClaimTrieCache" where
  "restore_claim undo out coins trie =
     (case (if undo_fIsClaim undo then DecodeClaimScript (scriptPubKey (undo_txout undo)) else None) of
        None \<Rightarrow> trie
      | Some (op, vvchParams, pc) \<Rightarrow>
          let name = string_of_bytes (vvchParams ! 0); nValidHeight = sint (undo_nClaimValidHeight undo) in
          if \<not> (nValidHeight > 0 \<and> nValidHeight \<ge> coins_nHeight coins) then trie
          else if op = OP_CLAIM_NAME \<or> op = OP_UPDATE_CLAIM
          then fst (undoSpendClaim name out (claim_id_of op vvchParams out) (nValue (undo_txout undo)) (coins_nHeight coins)
                 nValidHeight (string_of_bytes (vvchParams ! (if op = OP_CLAIM_NAME then 1 else 2))) trie)
          else fst (undoSpendSupport name out (vvchParams ! 1) (nValue (undo_txout undo)) (coins_nHeight coins)
                 nValidHeight trie))"

text \<open>\<open>out.n + 1\<close> wraps at 32 bits; a write behind the end is undefined.\<close>

definition apply_undo :: "CTxInUndo \<Rightarrow> COutPoint \<Rightarrow> CClaimTrieCache \<Rightarrow> CCoins \<Rightarrow> ((bool \<times> CClaimTrieCache) \<times> CCoins) option" where
  "apply_undo undo out trie coins =
     (let (fClean, coins) =
        (if undo_nHeight undo \<noteq> 0
         then (IsPruned coins, coins_Clear\<lparr>fCoinBase := undo_fCoinBase undo, coins_nHeight := sint (undo_nHeight undo),
                 coins_nVersion := undo_nVersion undo\<rparr>)
         else (\<not> IsPruned coins, coins));
          fClean = (fClean \<and> \<not> IsAvailable coins (unat (op_n out)));
          outs = coins_vout coins @ replicate (unat (op_n out + 1) - length (coins_vout coins)) CTxOut_SetNull;
          trie = restore_claim undo out coins trie
      in if unat (op_n out) \<ge> length outs then None
         else Some ((fClean, trie), coins\<lparr>coins_vout := outs[unat (op_n out) := undo_txout undo]\<rparr>))"

definition ApplyTxInUndo :: "CTxInUndo \<Rightarrow> COutPoint \<Rightarrow> CCoinsViewCache \<Rightarrow> CCoinsView \<Rightarrow> CClaimTrieCache \<Rightarrow>
    ((bool \<times> CClaimTrieCache) \<times> CCoinsViewCache \<times> CCoinsView) option" where
  "ApplyTxInUndo undo out c below trie = with_coins (apply_undo undo out trie) (op_hash out) c below"

text \<open>The inputs from the last to the first.\<close>

fun apply_undos :: "(CTxIn \<times> CTxInUndo) list \<Rightarrow> bool \<Rightarrow> CCoinsViewCache \<Rightarrow> CCoinsView \<Rightarrow> CClaimTrieCache \<Rightarrow>
    (bool \<times> CCoinsViewCache \<times> CCoinsView \<times> CClaimTrieCache) option" where
  "apply_undos [] fClean c below trie = Some (fClean, c, below, trie)"
| "apply_undos ((txin, undo) # us) fClean c below trie =
     (case ApplyTxInUndo undo (prevout txin) c below trie of
        None \<Rightarrow> None
      | Some ((clean, trie), c, below) \<Rightarrow> apply_undos us (fClean \<and> clean) c below trie)"

subsection \<open>Taking back a block\<close>

fun undo_claims :: "uint256 \<Rightarrow> int \<Rightarrow> nat \<Rightarrow> CTxOut list \<Rightarrow> CClaimTrieCache \<Rightarrow> CClaimTrieCache option" where
  "undo_claims hash height i [] trie = Some trie"
| "undo_claims hash height i (txout # txouts) trie =
     (case DecodeClaimScript (scriptPubKey txout) of
        None \<Rightarrow> undo_claims hash height (i + 1) txouts trie
      | Some (op, vvchParams, pc) \<Rightarrow>
          let name = string_of_bytes (vvchParams ! 0); out = \<lparr>op_hash = hash, op_n = of_nat i\<rparr> in
          (case (if op = OP_CLAIM_NAME \<or> op = OP_UPDATE_CLAIM then undoAddClaim name out height trie
                 else undoAddSupport name out height trie) of
             None \<Rightarrow> None
           | Some (trie, found) \<Rightarrow> undo_claims hash height (i + 1) txouts trie))"

text \<open>The outputs are compared with those of the block; the version is taken from the block.\<close>

definition remove_outputs :: "CTransaction \<Rightarrow> int \<Rightarrow> CClaimTrieCache \<Rightarrow> CCoins \<Rightarrow> ((bool \<times> CClaimTrieCache) \<times> CCoins) option" where
  "remove_outputs tx height trie outs =
     (let outsBlock = FromTx tx height;
          outs = (ClearUnspendable outs)\<lparr>coins_nVersion := coins_nVersion outsBlock\<rparr>
      in case undo_claims (CTransaction_GetHash tx) height 0 (vout tx) trie of
           None \<Rightarrow> None
         | Some trie \<Rightarrow> Some ((coins_equal outs outsBlock, trie), coins_Clear))"

datatype disconnect_error = NoUndoData | UndoUnreadable | UndoInconsistent | DisconnectAssert

definition disconnect_tx :: "CTransaction \<Rightarrow> CTxUndo option \<Rightarrow> int \<Rightarrow> bool \<Rightarrow> CCoinsViewCache \<Rightarrow> CCoinsView \<Rightarrow> CClaimTrieCache \<Rightarrow>
    disconnect_error + bool \<times> CCoinsViewCache \<times> CCoinsView \<times> CClaimTrieCache" where
  "disconnect_tx tx txundo height fClean c below trie =
     (case with_coins (remove_outputs tx height trie) (CTransaction_GetHash tx) c below of
        None \<Rightarrow> Inl DisconnectAssert
      | Some ((clean, trie), c, below) \<Rightarrow>
          (case txundo of
             None \<Rightarrow> Inr (fClean \<and> clean, c, below, trie)
           | Some vprevout \<Rightarrow>
               if length vprevout \<noteq> length (vin tx) then Inl UndoInconsistent
               else case apply_undos (rev (zip (vin tx) vprevout)) (fClean \<and> clean) c below trie of
                 None \<Rightarrow> Inl DisconnectAssert
               | Some r \<Rightarrow> Inr r))"

text \<open>The transactions with their undo data, the last first; the first one of the block has none.\<close>

fun disconnect_txs :: "(CTransaction \<times> CTxUndo option) list \<Rightarrow> int \<Rightarrow> bool \<Rightarrow> CCoinsViewCache \<Rightarrow> CCoinsView \<Rightarrow> CClaimTrieCache \<Rightarrow>
    disconnect_error + bool \<times> CCoinsViewCache \<times> CCoinsView \<times> CClaimTrieCache" where
  "disconnect_txs [] height fClean c below trie = Inr (fClean, c, below, trie)"
| "disconnect_txs ((tx, txundo) # txs) height fClean c below trie =
     (case disconnect_tx tx txundo height fClean c below trie of
        Inl e \<Rightarrow> Inl e
      | Inr (fClean, c, below, trie) \<Rightarrow> disconnect_txs txs height fClean c below trie)"

definition block_undos :: "CTransaction list \<Rightarrow> CTxUndo list \<Rightarrow> (CTransaction \<times> CTxUndo option) list" where
  "block_undos txs vtxu = zip txs (None # map Some vtxu)"

text \<open>
  \<open>stored\<close> is the position of the undo data in the block index, \<open>read\<close> what is read there; \<open>junk\<close>
  stands for values that the code leaves unset.
\<close>

definition DisconnectBlock :: "CSupportValue \<Rightarrow> CBlock \<Rightarrow> uint256 \<Rightarrow> uint256 \<Rightarrow> int \<Rightarrow> bool \<Rightarrow> CBlockUndo option \<Rightarrow>
    CCoinsViewCache \<Rightarrow> CCoinsView \<Rightarrow> CClaimTrieCache \<Rightarrow>
    disconnect_error + bool \<times> CCoinsViewCache \<times> CCoinsView \<times> CClaimTrieCache" where
  "DisconnectBlock junk block blockHash prevHash height stored read c below trie =
     (case GetBestBlock (CoinsCache c below) of
        (best, CoinsCache c below) \<Rightarrow>
          if blockHash \<noteq> best then Inl DisconnectAssert
          else if \<not> stored then Inl NoUndoData
          else (case read of
             None \<Rightarrow> Inl UndoUnreadable
           | Some blockUndo \<Rightarrow>
               if length (vtxundo blockUndo) + 1 \<noteq> length (vtx block) then Inl UndoInconsistent
               else (case decrementBlock junk trie (claim_undo blockUndo) of
                  (trie, False) \<Rightarrow> Inl DisconnectAssert
                | (trie, True) \<Rightarrow>
                    (case disconnect_txs (rev (block_undos (vtx block) (vtxundo blockUndo))) height True c below trie of
                       Inl e \<Rightarrow> Inl e
                     | Inr (fClean, c, below, trie) \<Rightarrow>
                         let c = SetBestBlock prevHash c in
                         (case finalizeDecrement trie of
                            (trie, False) \<Rightarrow> Inl DisconnectAssert
                          | (trie, True) \<Rightarrow> Inr (fClean, c, below, trie)))))
      | _ \<Rightarrow> Inl DisconnectAssert)"

subsection \<open>Modifier scopes act on the unspent coins\<close>

lemma ModifyCoins_entry:
  assumes "ModifyCoins t c below = Some (c1, b1)"
  shows "\<exists>e. map_of (cacheCoins c1) t = Some e \<and> ce_coins e = modified_coins (CoinsCache c below) t"
proof (cases "map_of (cacheCoins c) t")
  case (Some e)
  then show ?thesis using assms by (auto simp: ModifyCoins_def modified_coins_def split: if_splits)
next
  case None
  have "visible below t = fst (GetCoins t below)" by (simp add: fst_GetCoins)
  then show ?thesis using assms None
    by (auto simp: ModifyCoins_def modified_coins_def split: if_splits option.splits prod.splits)
qed

lemma with_coins_Some:
  assumes "view_ok (CoinsCache c below)" "\<not> hasModifier c" "f (modified_coins (CoinsCache c below) t) = Some (r, x)"
  shows "\<exists>c' below'. with_coins f t c below = Some (r, c', below') \<and> view_ok (CoinsCache c' below') \<and> \<not> hasModifier c' \<and>
    unspent (CoinsCache c' below') = (unspent (CoinsCache c below))(t := live (Cleanup x)) \<and>
    unspent below' = unspent below \<and> CCoinsViewCache.cache_hashBlock c' = CCoinsViewCache.cache_hashBlock c"
proof -
  from modify_coins_ok [OF assms(1,2), of "\<lambda>_. x" t] obtain c' below' where
    m: "modify_coins (\<lambda>_. x) t c below = Some (c', below')" and
    r: "view_ok (CoinsCache c' below')" "\<not> hasModifier c'"
      "unspent (CoinsCache c' below') = (unspent (CoinsCache c below))(t := live (Cleanup x))"
      "unspent below' = unspent below" "CCoinsViewCache.cache_hashBlock c' = CCoinsViewCache.cache_hashBlock c" by blast
  from m obtain c1 where c1: "ModifyCoins t c below = Some (c1, below')"
      "close_modifier t (use_modifier (\<lambda>_. x) t c1) = Some c'"
    by (auto simp: modify_coins_def split: option.splits)
  then show ?thesis using ModifyCoins_entry [OF c1(1)] assms(3) r by (auto simp: with_coins_def)
qed

lemma with_coins_None:
  assumes "view_ok (CoinsCache c below)" "\<not> hasModifier c" "f (modified_coins (CoinsCache c below) t) = None"
  shows "with_coins f t c below = None"
proof (cases "ModifyCoins t c below")
  case (Some r)
  obtain c1 b1 where "r = (c1, b1)" by fastforce
  with Some ModifyCoins_entry [of t c below c1 b1] show ?thesis using assms(3) by (auto simp: with_coins_def)
qed (simp add: with_coins_def)

text \<open>What a modifier starts from, seen through the unspent coins.\<close>

lemma unspent_modified: "unspent v t = live (modified_coins v t)"
  by (auto simp: unspent_def modified_coins_def live_def IsPruned_def coins_Clear_def split: option.splits)

lemma unspent_Some: "unspent v t = Some x \<longleftrightarrow> modified_coins v t = x \<and> \<not> IsPruned x"
  by (auto simp: unspent_modified live_def)

lemma unspent_None: "unspent v t = None \<longleftrightarrow> IsPruned (modified_coins v t)"
  by (simp add: unspent_modified live_def)

lemma modified_clean: "view_ok v \<Longrightarrow> outs_clean (coins_vout (modified_coins v t))"
  using visible_clean [of v t] by (auto simp: modified_coins_def coins_Clear_def outs_clean_def split: option.splits)

lemma pruned_clean: "IsPruned x \<Longrightarrow> outs_clean (coins_vout x) \<Longrightarrow> coins_vout x = []"
  by (metis IsPruned_def last_in_set list_all_iff outs_clean_def)

subsection \<open>An output comes back\<close>

text \<open>Outputs without anything that the undo data would drop.\<close>

definition plain_out :: "CTxOut \<Rightarrow> bool" where
  "plain_out out \<longleftrightarrow> nRounds out = - 10 \<and> (CTxOut_IsNull out \<longrightarrow> scriptPubKey out = [])"

lemma plain_null: "plain_out out \<Longrightarrow> CTxOut_IsNull out \<longleftrightarrow> out = CTxOut_SetNull"
  by (cases out) (auto simp: plain_out_def CTxOut_IsNull_def CTxOut_SetNull_def)

lemma plain_mk: "plain_out out \<Longrightarrow> mk_CTxOut (nValue out) (scriptPubKey out) = out"
  by (cases out) (simp add: plain_out_def mk_CTxOut_def)

definition trim :: "CTxOut list \<Rightarrow> CTxOut list" where
  "trim outs = rev (dropWhile CTxOut_IsNull (rev outs))"

lemma trim_pad: "trim (outs @ replicate k CTxOut_SetNull) = trim outs"
proof -
  have "dropWhile CTxOut_IsNull (replicate k CTxOut_SetNull @ xs) = dropWhile CTxOut_IsNull xs" for xs
    by (induction k) (simp_all add: CTxOut_IsNull_def CTxOut_SetNull_def)
  then show ?thesis by (simp add: trim_def)
qed

lemma trim_clean: "outs_clean outs \<Longrightarrow> trim outs = outs"
  using drop_trailing [of outs] by (simp add: trim_def)

lemma trim_split: "list_all plain_out outs \<Longrightarrow> \<exists>k. outs = trim outs @ replicate k CTxOut_SetNull"
proof (induction outs rule: rev_induct)
  case (snoc out outs)
  show ?case
  proof (cases "CTxOut_IsNull out")
    case True
    then have "out = CTxOut_SetNull" using snoc.prems plain_null by simp
    moreover obtain k where k: "outs = trim outs @ replicate k CTxOut_SetNull" using snoc by auto
    moreover have "trim (outs @ [out]) = trim outs" using True by (simp add: trim_def)
    ultimately show ?thesis by (metis append.assoc replicate_Suc replicate_append_same)
  next
    case False
    then show ?thesis by (intro exI [of _ 0]) (simp add: trim_def)
  qed
qed (simp add: trim_def)

lemma plain_update: "list_all plain_out outs \<Longrightarrow> list_all plain_out (outs[n := CTxOut_SetNull])"
proof -
  have "plain_out CTxOut_SetNull" by (simp add: plain_out_def CTxOut_SetNull_def)
  then show "list_all plain_out outs \<Longrightarrow> list_all plain_out (outs[n := CTxOut_SetNull])"
    by (auto simp: list_all_iff dest!: set_update_subset_insert [THEN subsetD])
qed

lemma restore_outs:
  assumes "outs_clean outs" "list_all plain_out outs" "n < length outs"
    "ys = trim (outs[n := CTxOut_SetNull])"
  shows "trim ((ys @ replicate (Suc n - length ys) CTxOut_SetNull)[n := outs ! n]) = outs"
proof -
  let ?N = CTxOut_SetNull
  have "list_all plain_out (outs[n := ?N])" by (rule plain_update [OF assms(2)])
  then obtain k where k: "outs[n := ?N] = ys @ replicate k ?N" using trim_split assms(4) by metis
  define p where "p = ys @ replicate (Suc n - length ys) ?N"
  have len: "n < length p" by (simp add: p_def)
  have "length outs = length ys + k" using arg_cong [OF k, of length] by simp
  then have "p @ replicate (length ys + k - Suc n) ?N = outs[n := ?N] @ replicate 0 ?N \<or> length ys > n"
    using assms(3) unfolding k p_def by (auto simp: replicate_add [symmetric])
  moreover have "p @ replicate k ?N = outs[n := ?N]" if "length ys > n" using that k by (simp add: p_def)
  ultimately obtain j where j: "p @ replicate j ?N = outs[n := ?N]" by auto
  have "(p @ replicate j ?N)[n := outs ! n] = outs" unfolding j by simp
  then have "p[n := outs ! n] @ replicate j ?N = outs" using len by (simp add: list_update_append1)
  then have "trim (p[n := outs ! n]) = trim outs" using trim_pad by metis
  then show ?thesis using trim_clean [OF assms(1)] by (simp add: p_def)
qed

text \<open>Coins that the undo data describes completely, but for the version.\<close>

definition coins_plain :: "CCoins \<Rightarrow> bool" where
  "coins_plain x \<longleftrightarrow> list_all plain_out (coins_vout x) \<and> length (coins_vout x) < 2 ^ 32 \<and>
     0 < coins_nHeight x \<and> coins_nHeight x < 2 ^ 31"

definition plain_set :: "(uint256 \<Rightarrow> CCoins option) \<Rightarrow> bool" where
  "plain_set u \<longleftrightarrow> (\<forall>t x. u t = Some x \<longrightarrow> coins_plain x)"

definition noversion :: "(uint256 \<Rightarrow> CCoins option) \<Rightarrow> uint256 \<Rightarrow> CCoins option" where
  "noversion u t = map_option (\<lambda>x. x\<lparr>coins_nVersion := 0\<rparr>) (u t)"

definition undo_like :: "CTxInUndo \<Rightarrow> CTxInUndo \<Rightarrow> bool" where
  "undo_like a b \<longleftrightarrow> undo_txout a = undo_txout b \<and> undo_nHeight a = undo_nHeight b \<and> undo_fCoinBase a = undo_fCoinBase b"

lemma noversion_update: "noversion (u(t := x)) = (noversion u)(t := map_option (\<lambda>x. x\<lparr>coins_nVersion := 0\<rparr>) x)"
  by (rule ext) (simp add: noversion_def)

lemma Cleanup_trim: "Cleanup x = x\<lparr>coins_vout := trim (coins_vout x)\<rparr>"
  by (simp add: Cleanup_def trim_def)

lemma trim_trim [simp]: "trim (trim outs) = trim outs"
  by (rule trim_clean) (simp add: trim_def drop_trailing_clean)

lemma outs_clean_trim: "outs_clean (trim outs)"
  by (simp add: trim_def drop_trailing_clean)

lemma not_pruned_nth: "n < length (coins_vout x) \<Longrightarrow> \<not> CTxOut_IsNull (coins_vout x ! n) \<Longrightarrow> \<not> IsPruned x"
  by (auto simp: IsPruned_def list_all_iff)

lemma coins_parts_eq:
  "a\<lparr>coins_nVersion := 0\<rparr> = b\<lparr>coins_nVersion := 0\<rparr> \<longleftrightarrow>
     fCoinBase a = fCoinBase b \<and> coins_vout a = coins_vout b \<and> coins_nHeight a = coins_nHeight b" for a b :: CCoins
  by (cases a; cases b) auto

lemma spend_coins_Some:
  assumes "spend_coins n x = Some (undo, y)"
  shows "n < length (coins_vout x)" "\<not> CTxOut_IsNull (coins_vout x ! n)"
    "y = x\<lparr>coins_vout := trim ((coins_vout x)[n := CTxOut_SetNull])\<rparr>" "undo_txout undo = coins_vout x ! n"
    "coins_vout y = [] \<Longrightarrow> undo_nHeight undo = of_int (coins_nHeight x) \<and> undo_fCoinBase undo = fCoinBase x"
    "coins_vout y \<noteq> [] \<Longrightarrow> undo_nHeight undo = 0" "\<not> undo_fLastUnspent undo" "0 \<le> coins_nVersion x \<Longrightarrow> undo_nVersion undo = 0 \<or> undo_nVersion undo = coins_nVersion x"
  using assms by (auto simp: spend_coins_def Spend_def Cleanup_trim mk_CTxInUndo_def Let_def split: if_splits)

text \<open>The undo record of a spent output puts it back.\<close>

lemma apply_undo_restores:
  assumes s: "spend_coins n x = Some (undo, y)" and x: "outs_clean (coins_vout x)" "coins_plain x"
    and z: "if coins_vout y = [] then IsPruned z \<and> outs_clean (coins_vout z)
      else z\<lparr>coins_nVersion := 0\<rparr> = y\<lparr>coins_nVersion := 0\<rparr>"
    and out: "unat (op_n out) = n" and like: "undo_like undo' undo"
  shows "\<exists>trie' w. apply_undo undo' out trie z = Some ((True, trie'), w) \<and>
    (Cleanup w)\<lparr>coins_nVersion := 0\<rparr> = x\<lparr>coins_nVersion := 0\<rparr>"
proof -
  note sp = spend_coins_Some [OF s]
  let ?N = CTxOut_SetNull
  have y: "coins_vout y = trim ((coins_vout x)[n := ?N])" "coins_nHeight y = coins_nHeight x" "fCoinBase y = fCoinBase x"
    using sp(3) by simp_all
  have pl: "list_all plain_out (coins_vout x)" using x(2) by (simp add: coins_plain_def)
  have n1: "unat (op_n out + 1) = Suc n"
  proof -
    have "n + 1 < 2 ^ 32" using sp(1) x(2) by (simp add: coins_plain_def)
    then show ?thesis using out by (simp add: unat_word_ariths)
  qed
  have restored: "trim ((coins_vout y @ replicate (Suc n - length (coins_vout y)) ?N)[n := coins_vout x ! n]) = coins_vout x"
    by (rule restore_outs [OF x(1) pl sp(1) y(1)])
  have h: "of_int (coins_nHeight x) \<noteq> (0 :: u32)" "sint (of_int (coins_nHeight x) :: u32) = coins_nHeight x"
  proof -
    have b: "0 < coins_nHeight x" "coins_nHeight x < 2 ^ 31" using x(2) by (simp_all add: coins_plain_def)
    then show s: "sint (of_int (coins_nHeight x) :: u32) = coins_nHeight x"
      by (simp add: sint_sbintrunc' signed_take_bit_int_eq_self)
    show "of_int (coins_nHeight x) \<noteq> (0 :: u32)"
    proof
      assume "of_int (coins_nHeight x) = (0 :: u32)"
      then show False using s b(1) by simp
    qed
  qed
  show ?thesis
  proof (cases "coins_vout y = []")
    case True
    then have "IsPruned z" using z by simp
    then show ?thesis
      using True sp(4) sp(5) [OF True] h restored like out
      by (simp add: apply_undo_def undo_like_def n1 coins_Clear_def IsAvailable_def Cleanup_trim coins_parts_eq del: replicate_Suc)
  next
    case False
    then have zy: "fCoinBase z = fCoinBase y" "coins_vout z = coins_vout y" "coins_nHeight z = coins_nHeight y"
      using z by (simp_all add: coins_parts_eq)
    have "\<not> IsPruned z" using False outs_clean_trim [of "(coins_vout x)[n := ?N]"] pruned_clean [of z] y(1) zy(2) by auto
    moreover have "\<not> IsAvailable z n"
    proof -
      obtain k where k: "(coins_vout x)[n := ?N] = coins_vout y @ replicate k ?N"
        using trim_split [OF plain_update [OF pl]] y(1) by metis
      have "coins_vout y ! n = (coins_vout x)[n := ?N] ! n" if "n < length (coins_vout y)"
        using that by (simp add: k nth_append)
      then show ?thesis using sp(1) by (auto simp: IsAvailable_def zy CTxOut_SetNull_def CTxOut_IsNull_def)
    qed
    ultimately show ?thesis
      using sp(4) sp(6) [OF False] restored like out zy y
      by (simp add: apply_undo_def undo_like_def n1 Cleanup_trim coins_parts_eq del: replicate_Suc)
  qed
qed

lemma apply_undos_append:
  "apply_undos (us @ ws) fClean c below trie =
     (case apply_undos us fClean c below trie of
        None \<Rightarrow> None
      | Some (fClean, c, below, trie) \<Rightarrow> apply_undos ws fClean c below trie)"
  by (induction us fClean c below trie rule: apply_undos.induct) (auto split: option.splits)

text \<open>Taking the inputs back leads from the coins \<open>u'\<close> to the coins \<open>u\<close>, cleanly.\<close>

definition undone :: "(CTxIn \<times> CTxInUndo) list \<Rightarrow> (uint256 \<Rightarrow> CCoins option) \<Rightarrow> (uint256 \<Rightarrow> CCoins option) \<Rightarrow> bool" where
  "undone us u u' \<longleftrightarrow>
     (\<forall>c below fClean trie. view_ok (CoinsCache c below) \<and> \<not> hasModifier c \<and>
        noversion (unspent (CoinsCache c below)) = noversion u' \<longrightarrow>
        (\<exists>c' below' trie'. apply_undos (rev us) fClean c below trie = Some (fClean, c', below', trie') \<and>
           view_ok (CoinsCache c' below') \<and> \<not> hasModifier c' \<and> noversion (unspent (CoinsCache c' below')) = noversion u \<and>
           unspent below' = unspent below \<and> CCoinsViewCache.cache_hashBlock c' = CCoinsViewCache.cache_hashBlock c))"

lemma undone_Nil: "undone [] u u"
  by (simp add: undone_def)

lemma undone_Cons:
  assumes "undone [x] u u1" "undone us u1 u'"
  shows "undone (x # us) u u'"
  unfolding undone_def
proof (intro allI impI)
  fix c below fClean trie
  assume v: "view_ok (CoinsCache c below) \<and> \<not> hasModifier c \<and> noversion (unspent (CoinsCache c below)) = noversion u'"
  with assms(2) obtain c1 b1 trie1 where 1: "apply_undos (rev us) fClean c below trie = Some (fClean, c1, b1, trie1)"
      "view_ok (CoinsCache c1 b1)" "\<not> hasModifier c1" "noversion (unspent (CoinsCache c1 b1)) = noversion u1"
      "unspent b1 = unspent below" "CCoinsViewCache.cache_hashBlock c1 = CCoinsViewCache.cache_hashBlock c"
    unfolding undone_def by metis
  with assms(1) obtain c2 b2 trie2 where 2: "apply_undos (rev [x]) fClean c1 b1 trie1 = Some (fClean, c2, b2, trie2)"
      "view_ok (CoinsCache c2 b2)" "\<not> hasModifier c2" "noversion (unspent (CoinsCache c2 b2)) = noversion u"
      "unspent b2 = unspent b1" "CCoinsViewCache.cache_hashBlock c2 = CCoinsViewCache.cache_hashBlock c1"
    unfolding undone_def by metis
  have "apply_undos (rev (x # us)) fClean c below trie = Some (fClean, c2, b2, trie2)"
    using 1(1) 2(1) by (simp add: apply_undos_append)
  then show "\<exists>c' below' trie'. apply_undos (rev (x # us)) fClean c below trie = Some (fClean, c', below', trie') \<and>
      view_ok (CoinsCache c' below') \<and> \<not> hasModifier c' \<and> noversion (unspent (CoinsCache c' below')) = noversion u \<and>
      unspent below' = unspent below \<and> CCoinsViewCache.cache_hashBlock c' = CCoinsViewCache.cache_hashBlock c"
    using 1 2 by auto
qed

lemma undone_one:
  assumes s: "spend_coins (unat (op_n (prevout i))) x = Some (undo, y)" and x: "outs_clean (coins_vout x)" "coins_plain x"
    and u: "u (op_hash (prevout i)) = Some x" and like: "undo_like undo' undo"
  shows "undone [(i, undo')] u (u(op_hash (prevout i) := live (Cleanup y)))"
  unfolding undone_def
proof (intro allI impI)
  fix c below fClean trie
  let ?t = "op_hash (prevout i)" and ?z = "modified_coins (CoinsCache c below) (op_hash (prevout i))"
  assume v: "view_ok (CoinsCache c below) \<and> \<not> hasModifier c \<and>
    noversion (unspent (CoinsCache c below)) = noversion (u(?t := live (Cleanup y)))"
  have yt: "Cleanup y = y" using spend_coins_Some(3) [OF s] by (simp add: Cleanup_trim)
  have nv: "map_option (\<lambda>x. x\<lparr>coins_nVersion := 0\<rparr>) (unspent (CoinsCache c below) ?t) =
      map_option (\<lambda>x. x\<lparr>coins_nVersion := 0\<rparr>) (live y)"
    using fun_cong [OF v [THEN conjunct2, THEN conjunct2], of ?t] by (simp add: noversion_def yt)
  have cl: "outs_clean (coins_vout ?z)" using modified_clean v by blast
  have "if coins_vout y = [] then IsPruned ?z \<and> outs_clean (coins_vout ?z) else ?z\<lparr>coins_nVersion := 0\<rparr> = y\<lparr>coins_nVersion := 0\<rparr>"
  proof (cases "coins_vout y = []")
    case True
    then show ?thesis using nv cl by (simp add: unspent_modified live_def IsPruned_def split: if_splits)
  next
    case False
    have "outs_clean (coins_vout y)" using spend_coins_Some(3) [OF s] by (simp add: outs_clean_trim)
    then have "\<not> IsPruned y" using False pruned_clean by blast
    then show ?thesis using nv False by (simp add: unspent_modified live_def split: if_splits)
  qed
  from apply_undo_restores [OF s x this refl like, of trie] obtain trie' w where
    w: "apply_undo undo' (prevout i) trie ?z = Some ((True, trie'), w)" "(Cleanup w)\<lparr>coins_nVersion := 0\<rparr> = x\<lparr>coins_nVersion := 0\<rparr>"
    by blast
  from with_coins_Some [of c below "apply_undo undo' (prevout i) trie" ?t, OF _ _ w(1)] v obtain c' below' where
    c': "ApplyTxInUndo undo' (prevout i) c below trie = Some ((True, trie'), c', below')" "view_ok (CoinsCache c' below')"
      "\<not> hasModifier c'" "unspent (CoinsCache c' below') = (unspent (CoinsCache c below))(?t := live (Cleanup w))"
      "unspent below' = unspent below" "CCoinsViewCache.cache_hashBlock c' = CCoinsViewCache.cache_hashBlock c"
    unfolding ApplyTxInUndo_def by blast
  have "\<not> IsPruned x" by (rule not_pruned_nth [OF spend_coins_Some(1,2) [OF s]])
  then have "\<not> IsPruned (Cleanup w)" using w(2) by (simp add: coins_parts_eq IsPruned_def)
  then have "noversion (unspent (CoinsCache c' below')) = noversion u"
    unfolding c'(4) noversion_update v [THEN conjunct2, THEN conjunct2]
    using w(2) u by (auto simp: live_def noversion_def)
  then show "\<exists>c' below' trie'. apply_undos (rev [(i, undo')]) fClean c below trie = Some (fClean, c', below', trie') \<and>
      view_ok (CoinsCache c' below') \<and> \<not> hasModifier c' \<and> noversion (unspent (CoinsCache c' below')) = noversion u \<and>
      unspent below' = unspent below \<and> CCoinsViewCache.cache_hashBlock c' = CCoinsViewCache.cache_hashBlock c"
    using c' by auto
qed

lemma undo_like_refl [simp]: "undo_like u u"
  by (simp add: undo_like_def)

lemma mark_claim_like: "list_all2 undo_like (mark_claim m us) us"
proof (cases "fst m < length us")
  case True
  then show ?thesis by (auto simp: mark_claim_def list_all2_conv_all_nth nth_list_update undo_like_def)
next
  case False
  then have "length us \<le> fst m" by simp
  then have "mark_claim m us = us" unfolding mark_claim_def by (rule list_update_beyond)
  then show ?thesis by (simp add: list_all2_refl)
qed

lemma undo_like_trans: "undo_like a b \<Longrightarrow> undo_like b c \<Longrightarrow> undo_like a c"
  by (simp add: undo_like_def)

lemma likes_trans: "list_all2 undo_like as bs \<Longrightarrow> list_all2 undo_like bs cs \<Longrightarrow> list_all2 undo_like as cs"
  by (auto simp: list_all2_conv_all_nth undo_like_def)

lemma mark_claims_like: "list_all2 undo_like (fold mark_claim ms us) us"
proof (induction ms arbitrary: us)
  case (Cons m ms)
  have "list_all2 undo_like (fold mark_claim ms (mark_claim m us)) (mark_claim m us)" by (rule Cons.IH)
  then have "list_all2 undo_like (fold mark_claim ms (mark_claim m us)) us"
    using mark_claim_like [of m us] by (rule likes_trans)
  then show ?case by simp
qed (simp add: list_all2_refl)

lemma disk_undo_like: "plain_out (undo_txout u) \<Longrightarrow> undo_like (disk_undo u) u"
  by (simp add: undo_like_def disk_undo_def plain_mk)

lemma disk_marked_like:
  assumes "list_all (\<lambda>u. plain_out (undo_txout u)) us"
  shows "list_all2 undo_like (map disk_undo (fold mark_claim ms us)) us"
proof -
  have m: "list_all2 undo_like (fold mark_claim ms us) us" by (rule mark_claims_like)
  then have "undo_like (disk_undo (fold mark_claim ms us ! k)) (us ! k)" if "k < length us" for k
  proof -
    have l: "undo_like (fold mark_claim ms us ! k) (us ! k)" using m that by (simp add: list_all2_conv_all_nth)
    then have "plain_out (undo_txout (fold mark_claim ms us ! k))"
      using assms that by (simp add: undo_like_def list_all_length)
    then show ?thesis using disk_undo_like undo_like_trans l by blast
  qed
  then show ?thesis using m by (simp add: list_all2_conv_all_nth)
qed

lemma spend_inputs_ok:
  "spend_inputs ins us0 c below = Some (us, c', below') \<Longrightarrow> view_ok (CoinsCache c below) \<Longrightarrow> \<not> hasModifier c \<Longrightarrow>
   plain_set (unspent (CoinsCache c below)) \<Longrightarrow>
   \<exists>us1. us = us0 @ us1 \<and> length us1 = length ins \<and> list_all (\<lambda>u. plain_out (undo_txout u)) us1 \<and>
     view_ok (CoinsCache c' below') \<and> \<not> hasModifier c' \<and> unspent below' = unspent below \<and>
     CCoinsViewCache.cache_hashBlock c' = CCoinsViewCache.cache_hashBlock c \<and> plain_set (unspent (CoinsCache c' below')) \<and>
     (\<forall>t. unspent (CoinsCache c below) t = None \<longrightarrow> unspent (CoinsCache c' below') t = None) \<and>
     (\<forall>us'. list_all2 undo_like us' us1 \<longrightarrow>
        undone (zip ins us') (unspent (CoinsCache c below)) (unspent (CoinsCache c' below')))"
proof (induction ins us0 c below rule: spend_inputs.induct)
  case (1 vprevout c below)
  then show ?case by (auto simp: undone_Nil)
next
  case (2 i ins us0 c below)
  let ?t = "op_hash (prevout i)" and ?n = "unat (op_n (prevout i))" and ?u = "unspent (CoinsCache c below)"
  let ?x = "modified_coins (CoinsCache c below) ?t"
  from "2.prems"(1) obtain undo c1 b1 where w: "with_coins (spend_coins ?n) ?t c below = Some (undo, c1, b1)"
      and rest: "spend_inputs ins (us0 @ [undo]) c1 b1 = Some (us, c', below')"
    by (auto split: option.splits)
  from w with_coins_None [OF "2.prems"(2,3), of "spend_coins ?n" ?t]
  obtain undo2 y where s2: "spend_coins ?n ?x = Some (undo2, y)" by (cases "spend_coins ?n ?x") auto
  from with_coins_Some [where f = "spend_coins ?n" and t = ?t, OF "2.prems"(2,3) s2] w
  have s: "spend_coins ?n ?x = Some (undo, y)" and v1: "view_ok (CoinsCache c1 b1)" "\<not> hasModifier c1"
      "unspent (CoinsCache c1 b1) = ?u(?t := live (Cleanup y))" "unspent b1 = unspent below"
      "CCoinsViewCache.cache_hashBlock c1 = CCoinsViewCache.cache_hashBlock c"
    using s2 by auto
  note sp = spend_coins_Some [OF s]
  have ux: "?u ?t = Some ?x" using not_pruned_nth [OF sp(1,2)] by (simp add: unspent_Some)
  then have plx: "coins_plain ?x" using "2.prems"(4) by (simp add: plain_set_def)
  have sub: "length (trim outs) \<le> length outs" "set (trim outs) \<subseteq> set outs" for outs
    using length_dropWhile_le [of CTxOut_IsNull "rev outs"] by (auto simp: trim_def dest: set_dropWhileD)
  have "length (coins_vout (Cleanup y)) < 2 ^ 32"
    using sub(1) [of "(coins_vout ?x)[?n := CTxOut_SetNull]"] plx by (simp add: coins_plain_def sp(3) Cleanup_trim)
  moreover have "list_all plain_out (coins_vout (Cleanup y))"
    using sub(2) [of "(coins_vout ?x)[?n := CTxOut_SetNull]"] plain_update [of "coins_vout ?x" ?n] plx
    by (auto simp: coins_plain_def sp(3) Cleanup_trim list_all_iff)
  ultimately have "coins_plain (Cleanup y)"
    using plx by (simp add: coins_plain_def) (simp add: sp(3) Cleanup_trim)
  then have pl1: "plain_set (unspent (CoinsCache c1 b1))"
    using "2.prems"(4) unfolding v1(3) by (auto simp: plain_set_def live_def)
  from "2.IH" [OF w refl refl rest v1(1,2) pl1] obtain us1 where
    us1: "us = (us0 @ [undo]) @ us1" "length us1 = length ins" "list_all (\<lambda>u. plain_out (undo_txout u)) us1"
      "view_ok (CoinsCache c' below')" "\<not> hasModifier c'" "unspent below' = unspent b1"
      "CCoinsViewCache.cache_hashBlock c' = CCoinsViewCache.cache_hashBlock c1" "plain_set (unspent (CoinsCache c' below'))"
      "\<And>t. unspent (CoinsCache c1 b1) t = None \<Longrightarrow> unspent (CoinsCache c' below') t = None"
      "\<And>us'. list_all2 undo_like us' us1 \<Longrightarrow> undone (zip ins us') (unspent (CoinsCache c1 b1)) (unspent (CoinsCache c' below'))"
    by blast
  have "undone (zip (i # ins) us') ?u (unspent (CoinsCache c' below'))" if l: "list_all2 undo_like us' (undo # us1)" for us'
  proof -
    obtain a as where a: "us' = a # as" "undo_like a undo" "list_all2 undo_like as us1" using l by (auto simp: list_all2_Cons2)
    have "undone [(i, a)] ?u (unspent (CoinsCache c1 b1))"
      unfolding v1(3) by (rule undone_one [where x = ?x and u = ?u, OF s modified_clean [OF "2.prems"(2)] plx ux a(2)])
    then show ?thesis using undone_Cons us1(10) [OF a(3)] a(1) by simp
  qed
  moreover have "plain_out (undo_txout undo)"
    using plx sp(1,4) by (simp add: coins_plain_def list_all_length)
  moreover have "unspent (CoinsCache c' below') t = None" if "?u t = None" for t
    using us1(9) [of t] that ux unfolding v1(3) by (cases "t = ?t") auto
  ultimately show ?case using us1(1-8) v1(4,5) by (intro exI [of _ "undo # us1"]) simp
qed

lemma FromTx_parts:
  "coins_vout (FromTx tx h) = trim (map (\<lambda>o'. if IsUnspendable (scriptPubKey o') then CTxOut_SetNull else o') (vout tx))"
  "coins_nHeight (FromTx tx h) = h" "fCoinBase (FromTx tx h) = IsCoinBase tx" "Cleanup (FromTx tx h) = FromTx tx h"
  by (simp_all add: FromTx_def ClearUnspendable_def Cleanup_trim)

lemma set_trim: "set (trim outs) \<subseteq> set outs"
  by (auto simp: trim_def dest: set_dropWhileD)

lemma length_trim: "length (trim outs) \<le> length outs"
  using length_dropWhile_le [of CTxOut_IsNull "rev outs"] by (simp add: trim_def)

lemma ClearUnspendable_FromTx:
  "coins_vout (ClearUnspendable (z\<lparr>coins_vout := coins_vout (FromTx tx h)\<rparr>)) = coins_vout (FromTx tx h)"
proof -
  let ?clr = "\<lambda>o'. if IsUnspendable (scriptPubKey o') then CTxOut_SetNull else o'"
  let ?F = "trim (map ?clr (vout tx))"
  have "\<not> IsUnspendable (scriptPubKey CTxOut_SetNull)" by (simp add: CTxOut_SetNull_def IsUnspendable_def)
  then have "?clr o' = o'" if "o' \<in> set ?F" for o'
    using subsetD [OF set_trim that] by auto
  then have "map ?clr ?F = ?F" by (rule map_idI)
  then show ?thesis by (simp add: FromTx_parts(1) ClearUnspendable_def Cleanup_trim)
qed

lemma FromTx_plain:
  assumes "list_all plain_out (vout tx)" "length (vout tx) < 2 ^ 32" "0 < h" "h < 2 ^ 31"
  shows "coins_plain (FromTx tx h)"
proof -
  let ?xs = "map (\<lambda>o'. if IsUnspendable (scriptPubKey o') then CTxOut_SetNull else o') (vout tx)"
  have "plain_out CTxOut_SetNull" by (simp add: plain_out_def CTxOut_SetNull_def)
  then have "list_all plain_out ?xs" using assms(1) by (auto simp: list_all_iff)
  then have "list_all plain_out (trim ?xs)" using set_trim [of ?xs] by (auto simp: list_all_iff)
  moreover have "length (trim ?xs) < 2 ^ 32" using length_trim [of ?xs] assms(2) by simp
  ultimately show ?thesis using assms(3,4) by (simp add: coins_plain_def FromTx_parts)
qed

text \<open>The outputs of a transaction are found unchanged, and removed.\<close>

lemma remove_outputs_clean:
  assumes z: "map_option (\<lambda>x. x\<lparr>coins_nVersion := 0\<rparr>) (live z) = map_option (\<lambda>x. x\<lparr>coins_nVersion := 0\<rparr>) (live (FromTx tx h))"
    and "outs_clean (coins_vout z)" and "undo_claims (CTransaction_GetHash tx) h 0 (vout tx) trie = Some trie'"
  shows "remove_outputs tx h trie z = Some ((True, trie'), coins_Clear)"
proof -
  let ?F = "FromTx tx h"
  have "coins_equal ((ClearUnspendable z)\<lparr>coins_nVersion := coins_nVersion ?F\<rparr>) ?F"
  proof (cases "IsPruned ?F")
    case True
    then have "IsPruned z" using z by (simp add: live_def split: if_splits)
    then have "coins_vout z = []" by (rule pruned_clean [OF _ assms(2)])
    then show ?thesis using True by (simp add: coins_equal_def ClearUnspendable_def Cleanup_def IsPruned_def)
  next
    case False
    then have e: "fCoinBase z = fCoinBase ?F" "coins_vout z = coins_vout ?F" "coins_nHeight z = coins_nHeight ?F"
      using z by (simp_all add: live_def coins_parts_eq split: if_splits)
    have "z\<lparr>coins_vout := coins_vout ?F\<rparr> = z" using e(2) by (cases z) simp
    then have "coins_vout (ClearUnspendable z) = coins_vout ?F" using ClearUnspendable_FromTx [where z = z and tx = tx and h = h] by simp
    moreover have "fCoinBase (ClearUnspendable z) = fCoinBase z" "coins_nHeight (ClearUnspendable z) = coins_nHeight z"
      by (simp_all add: ClearUnspendable_def Cleanup_def)
    ultimately show ?thesis using e by (simp add: coins_equal_def)
  qed
  then show ?thesis using assms(3) by (simp add: remove_outputs_def)
qed

subsection \<open>The claim trie on the way back\<close>

text \<open>
  The row that taking back an output needs: of the expirations of claims for an output that makes or
  updates a claim, of those of supports for one that supports a claim, at the height of the block.
  \<open>addClaimToQueues\<close> and \<open>addSupportToQueues\<close> make it when the block is connected.
\<close>

definition out_row :: "int \<Rightarrow> CClaimTrieCache \<Rightarrow> CTxOut \<Rightarrow> bool" where
  "out_row h S txout =
     (case DecodeClaimScript (scriptPubKey txout) of
        None \<Rightarrow> True
      | Some (op, vvchParams, pc) \<Rightarrow>
          if op = OP_CLAIM_NAME \<or> op = OP_UPDATE_CLAIM then claims_expire S (h + trie_nExpirationTime (base S))
          else supports_expire S (h + trie_nExpirationTime (base S)))"

definition tx_rows :: "int \<Rightarrow> CClaimTrieCache \<Rightarrow> CTransaction \<Rightarrow> bool" where
  "tx_rows h S tx \<longleftrightarrow> list_all (out_row h S) (vout tx)"

lemma out_row_keeps: "keeps_rows S S' \<Longrightarrow> out_row h S txout \<Longrightarrow> out_row h S' txout"
  by (auto simp: out_row_def keeps_rows_def split: option.splits if_splits)

lemma tx_rows_keeps: "keeps_rows S S' \<Longrightarrow> tx_rows h S tx \<Longrightarrow> tx_rows h S' tx"
  using out_row_keeps by (auto simp: tx_rows_def list_all_iff)

lemma undo_claims_rows:
  "case undo_claims hash h i outs S of None \<Rightarrow> \<not> list_all (out_row h S) outs | Some S' \<Rightarrow> keeps_rows S S'"
proof (induction outs arbitrary: i S)
  case (Cons txout outs)
  show ?case
  proof (cases "DecodeClaimScript (scriptPubKey txout)")
    case None
    then have "out_row h S txout" by (simp add: out_row_def)
    then show ?thesis using None Cons.IH [where i = "i + 1" and S = S] by (simp split: option.splits)
  next
    case (Some d)
    obtain op vvchParams pc where d: "d = (op, vvchParams, pc)" by (rule prod_cases3)
    let ?name = "string_of_bytes (vvchParams ! 0)" and ?out = "\<lparr>op_hash = hash, op_n = of_nat i\<rparr>"
    let ?r = "if op = OP_CLAIM_NAME \<or> op = OP_UPDATE_CLAIM then undoAddClaim ?name ?out h S else undoAddSupport ?name ?out h S"
    have r: "case ?r of None \<Rightarrow> \<not> out_row h S txout | Some (S', found) \<Rightarrow> keeps_rows S S'"
      using removeClaim_rows [where name = ?name and op = ?out and height = h and chk = False and S = S]
        removeSupport_rows [where name = ?name and op = ?out and height = h and chk = False and S = S]
      by (auto simp: undoAddClaim_def undoAddSupport_def out_row_def Some d split: option.splits)
    show ?thesis
    proof (cases ?r)
      case None
      then have "undo_claims hash h i (txout # outs) S = None" by (simp add: Some d Let_def)
      then show ?thesis using r None by simp
    next
      case r': (Some e)
      obtain S1 found where e: "e = (S1, found)" by force
      have k: "keeps_rows S S1" using r r' e by simp
      have "undo_claims hash h i (txout # outs) S = undo_claims hash h (i + 1) outs S1" using r' by (simp add: Some d e Let_def)
      moreover have "\<not> list_all (out_row h S) outs" if "\<not> list_all (out_row h S1) outs"
        using that out_row_keeps [OF k] by (auto simp: list_all_iff)
      ultimately show ?thesis using Cons.IH [where i = "i + 1" and S = S1] rows_trans [OF k] by (auto split: option.splits)
    qed
  qed
qed simp

lemma with_coins_result: "with_coins f t c below = Some (r, c', below') \<Longrightarrow> \<exists>x y. f x = Some (r, y)"
  by (auto simp: with_coins_def split: option.splits prod.splits)

lemma restore_claim_rows: "keeps_rows S (restore_claim undo out coins S)"
  using undoSpendClaim_rows undoSpendSupport_rows by (simp add: restore_claim_def Let_def split: option.split)

lemma apply_undo_rows:
  assumes "apply_undo undo out S x = Some ((clean, S1), y)"
  shows "keeps_rows S S1"
proof -
  obtain f x' where fx: "(if undo_nHeight undo \<noteq> 0
         then (IsPruned x, coins_Clear\<lparr>fCoinBase := undo_fCoinBase undo, coins_nHeight := sint (undo_nHeight undo),
                 coins_nVersion := undo_nVersion undo\<rparr>)
         else (\<not> IsPruned x, x)) = (f, x')" by force
  have "S1 = restore_claim undo out x' S"
    using assms unfolding apply_undo_def fx Let_def prod.case by (simp split: if_split_asm)
  then show ?thesis using restore_claim_rows by simp
qed

lemma apply_undos_rows: "apply_undos us fClean c below S = Some (fClean', c', below', S') \<Longrightarrow> keeps_rows S S'"
proof (induction us arbitrary: fClean c below S)
  case (Cons u us)
  obtain txin undo where u: "u = (txin, undo)" by force
  from Cons.prems obtain clean S1 c1 b1 where a: "ApplyTxInUndo undo (prevout txin) c below S = Some ((clean, S1), c1, b1)"
      and rest: "apply_undos us (fClean \<and> clean) c1 b1 S1 = Some (fClean', c', below', S')"
    by (auto simp: u split: option.splits)
  obtain x y where "apply_undo undo (prevout txin) S x = Some ((clean, S1), y)"
    using with_coins_result [OF a [unfolded ApplyTxInUndo_def]] by blast
  then have "keeps_rows S S1" by (rule apply_undo_rows)
  then show ?case using Cons.IH [OF rest] by (rule rows_trans)
qed simp

lemma disconnect_tx_rows:
  assumes "disconnect_tx tx us h fClean c below S = Inr (fClean', c', below', S')"
  shows "keeps_rows S S'"
proof -
  from assms obtain clean S1 c1 b1 where
    w: "with_coins (remove_outputs tx h S) (CTransaction_GetHash tx) c below = Some ((clean, S1), c1, b1)"
    by (auto simp: disconnect_tx_def split: option.splits)
  obtain x y where "remove_outputs tx h S x = Some ((clean, S1), y)" using with_coins_result [OF w] by blast
  then have k: "keeps_rows S S1" using undo_claims_rows [where hash = "CTransaction_GetHash tx" and h = h and i = 0 and outs = "vout tx" and S = S]
    by (auto simp: remove_outputs_def Let_def split: option.splits)
  then show ?thesis using assms rows_trans [OF k apply_undos_rows]
    by (auto simp: disconnect_tx_def w split: option.splits if_splits)
qed

lemma disconnect_txs_rows:
  "disconnect_txs ps h fClean c below S = Inr (fClean', c', below', S') \<Longrightarrow> keeps_rows S S'"
proof (induction ps arbitrary: fClean c below S)
  case (Cons p ps)
  obtain tx us where p: "p = (tx, us)" by force
  from Cons.prems obtain f1 c1 b1 S1 where a: "disconnect_tx tx us h fClean c below S = Inr (f1, c1, b1, S1)"
      and rest: "disconnect_txs ps h f1 c1 b1 S1 = Inr (fClean', c', below', S')"
    by (auto simp: p split: sum.splits)
  show ?case by (rule rows_trans [OF disconnect_tx_rows [OF a] Cons.IH [OF rest]])
qed simp

text \<open>
  A connected state and what the coins of a transaction are taken back to.  The assertion can only stop
  the way back for a row that is missing.
\<close>

definition tx_undone :: "CTransaction \<Rightarrow> CTxUndo option \<Rightarrow> int \<Rightarrow> (uint256 \<Rightarrow> CCoins option) \<Rightarrow> (uint256 \<Rightarrow> CCoins option) \<Rightarrow> bool" where
  "tx_undone tx us h u u' \<longleftrightarrow>
     (\<forall>c below fClean trie. view_ok (CoinsCache c below) \<and> \<not> hasModifier c \<and>
        noversion (unspent (CoinsCache c below)) = noversion u' \<longrightarrow>
        (\<exists>c' below' trie'. disconnect_tx tx us h fClean c below trie = Inr (fClean, c', below', trie') \<and>
           view_ok (CoinsCache c' below') \<and> \<not> hasModifier c' \<and> noversion (unspent (CoinsCache c' below')) = noversion u \<and>
           unspent below' = unspent below \<and> CCoinsViewCache.cache_hashBlock c' = CCoinsViewCache.cache_hashBlock c) \<or>
        disconnect_tx tx us h fClean c below trie = Inl DisconnectAssert \<and> \<not> tx_rows h trie tx)"

lemma tx_undoneI:
  assumes inputs: "case us of None \<Rightarrow> u1 = u | Some vp \<Rightarrow> length vp = length (vin tx) \<and> undone (zip (vin tx) vp) u u1"
    and fresh: "u1 (CTransaction_GetHash tx) = None"
  shows "tx_undone tx us h u (u1(CTransaction_GetHash tx := live (FromTx tx h)))"
  unfolding tx_undone_def
proof (intro allI impI)
  fix c below fClean trie
  let ?t = "CTransaction_GetHash tx"
  assume v: "view_ok (CoinsCache c below) \<and> \<not> hasModifier c \<and>
    noversion (unspent (CoinsCache c below)) = noversion (u1(?t := live (FromTx tx h)))"
  let ?ok = "\<exists>c' below' trie'. disconnect_tx tx us h fClean c below trie = Inr (fClean, c', below', trie') \<and>
      view_ok (CoinsCache c' below') \<and> \<not> hasModifier c' \<and> noversion (unspent (CoinsCache c' below')) = noversion u \<and>
      unspent below' = unspent below \<and> CCoinsViewCache.cache_hashBlock c' = CCoinsViewCache.cache_hashBlock c"
  have ok: ?ok if t1: "undo_claims ?t h 0 (vout tx) trie = Some trie1" for trie1
  proof -
    have nv: "map_option (\<lambda>x. x\<lparr>coins_nVersion := 0\<rparr>) (live (modified_coins (CoinsCache c below) ?t)) =
        map_option (\<lambda>x. x\<lparr>coins_nVersion := 0\<rparr>) (live (FromTx tx h))"
      using fun_cong [OF v [THEN conjunct2, THEN conjunct2], of ?t] unfolding unspent_modified [symmetric]
      by (simp add: noversion_def)
    have "outs_clean (coins_vout (modified_coins (CoinsCache c below) ?t))" using modified_clean v by blast
    from remove_outputs_clean [OF nv this t1] with_coins_Some [of c below "remove_outputs tx h trie" ?t] v
    obtain c1 b1 where c1: "with_coins (remove_outputs tx h trie) ?t c below = Some ((True, trie1), c1, b1)"
        "view_ok (CoinsCache c1 b1)" "\<not> hasModifier c1"
        "unspent (CoinsCache c1 b1) = (unspent (CoinsCache c below))(?t := live (Cleanup coins_Clear))"
        "unspent b1 = unspent below" "CCoinsViewCache.cache_hashBlock c1 = CCoinsViewCache.cache_hashBlock c"
      by blast
    have "live (Cleanup coins_Clear) = None" by (simp add: live_def Cleanup_def coins_Clear_def IsPruned_def)
    then have n1: "noversion (unspent (CoinsCache c1 b1)) = noversion u1"
      unfolding c1(4) noversion_update v [THEN conjunct2, THEN conjunct2] using fresh by (auto simp: noversion_def)
    show ?thesis
    proof (cases us)
      case None
      then show ?thesis using inputs c1 n1 by (simp add: disconnect_tx_def)
    next
      case (Some vp)
      then have vp: "length vp = length (vin tx)" "undone (zip (vin tx) vp) u u1" using inputs by simp_all
      from vp(2) c1 n1 obtain c' b' trie' where
        "apply_undos (rev (zip (vin tx) vp)) fClean c1 b1 trie1 = Some (fClean, c', b', trie')"
        "view_ok (CoinsCache c' b')" "\<not> hasModifier c'" "noversion (unspent (CoinsCache c' b')) = noversion u"
        "unspent b' = unspent b1" "CCoinsViewCache.cache_hashBlock c' = CCoinsViewCache.cache_hashBlock c1"
        unfolding undone_def by metis
      then show ?thesis using Some vp(1) c1 by (simp add: disconnect_tx_def)
    qed
  qed
  show "?ok \<or> disconnect_tx tx us h fClean c below trie = Inl DisconnectAssert \<and> \<not> tx_rows h trie tx"
  proof (cases "undo_claims ?t h 0 (vout tx) trie")
    case None
    then have "remove_outputs tx h trie (modified_coins (CoinsCache c below) ?t) = None" by (simp add: remove_outputs_def)
    then have "with_coins (remove_outputs tx h trie) ?t c below = None" using v by (intro with_coins_None) simp_all
    moreover have "\<not> tx_rows h trie tx" using undo_claims_rows [where hash = ?t and h = h and i = 0 and outs = "vout tx" and S = trie] None by (simp add: tx_rows_def)
    ultimately show ?thesis by (simp add: disconnect_tx_def)
  next
    case (Some trie1)
    then show ?thesis using ok by blast
  qed
qed

subsection \<open>Connecting a transaction\<close>

lemma AccessCoins_ok:
  assumes "view_ok (CoinsCache c below)" "AccessCoins t c below = (it, c', below')"
  shows "view_ok (CoinsCache c' below') \<and> unspent (CoinsCache c' below') = unspent (CoinsCache c below) \<and>
    unspent below' = unspent below \<and> hasModifier c' = hasModifier c \<and>
    CCoinsViewCache.cache_hashBlock c' = CCoinsViewCache.cache_hashBlock c"
  using assms FetchCoins_ok [OF assms(1), of t] by (auto simp: AccessCoins_def split: prod.splits)

lemma spend_claims_ok:
  "spend_claims m ins heights spent (c, below, trie) = Some (heights', spent', c', below', trie') \<Longrightarrow>
   view_ok (CoinsCache c below) \<Longrightarrow>
     view_ok (CoinsCache c' below') \<and> unspent (CoinsCache c' below') = unspent (CoinsCache c below) \<and>
     unspent below' = unspent below \<and> hasModifier c' = hasModifier c \<and>
     CCoinsViewCache.cache_hashBlock c' = CCoinsViewCache.cache_hashBlock c"
proof (induction ins arbitrary: m heights spent c below trie)
  case (Cons i ins)
  obtain it c1 b1 where a: "AccessCoins (op_hash (prevout i)) c below = (it, c1, b1)" by (rule prod_cases3)
  note ok = AccessCoins_ok [OF Cons.prems(2) a]
  have "\<exists>m' hs' sp' tr'. spend_claims m' ins hs' sp' (c1, b1, tr') = Some (heights', spent', c', below', trie')"
    using Cons.prems(1) by (auto simp: a Let_def split: option.splits if_splits prod.splits)
  with Cons.IH ok show ?case by metis
qed simp

text \<open>Transactions whose outputs the undo data describes completely.\<close>

definition tx_plain :: "CTransaction \<Rightarrow> bool" where
  "tx_plain tx \<longleftrightarrow> list_all plain_out (vout tx) \<and> length (vout tx) < 2 ^ 32"

lemma plain_set_update: "plain_set u \<Longrightarrow> coins_plain x \<Longrightarrow> plain_set (u(t := live x))"
  by (auto simp: plain_set_def live_def)

lemma UpdateCoins_ok:
  assumes "UpdateCoins tx [] h c below = Some (us, c', below')" "\<not> IsCoinBase tx"
    and v: "view_ok (CoinsCache c below)" "\<not> hasModifier c" "plain_set (unspent (CoinsCache c below))"
    and new: "unspent (CoinsCache c below) (CTransaction_GetHash tx) = None" "unspent below (CTransaction_GetHash tx) = None"
    and tx: "tx_plain tx" "0 < h" "h < 2 ^ 31"
  shows "list_all (\<lambda>u. plain_out (undo_txout u)) us \<and>
    view_ok (CoinsCache c' below') \<and> \<not> hasModifier c' \<and> plain_set (unspent (CoinsCache c' below')) \<and>
    unspent below' = unspent below \<and> CCoinsViewCache.cache_hashBlock c' = CCoinsViewCache.cache_hashBlock c \<and>
    (\<forall>t. t \<noteq> CTransaction_GetHash tx \<longrightarrow> unspent (CoinsCache c below) t = None \<longrightarrow> unspent (CoinsCache c' below') t = None) \<and>
    (\<forall>us'. list_all2 undo_like us' us \<longrightarrow>
       tx_undone tx (Some us') h (unspent (CoinsCache c below)) (unspent (CoinsCache c' below')))"
proof -
  let ?t = "CTransaction_GetHash tx"
  from assms(1,2) obtain c1 where s: "spend_inputs (vin tx) [] c below = Some (us, c1, below')"
      and n: "modify_new_coins (\<lambda>_. FromTx tx h) ?t c1 = Some c'"
    by (auto simp: UpdateCoins_def split: option.splits)
  from spend_inputs_ok [OF s v] have
    len: "length us = length (vin tx)" and pl: "list_all (\<lambda>u. plain_out (undo_txout u)) us" and
    v1: "view_ok (CoinsCache c1 below')" "\<not> hasModifier c1" "unspent below' = unspent below"
      "CCoinsViewCache.cache_hashBlock c1 = CCoinsViewCache.cache_hashBlock c" "plain_set (unspent (CoinsCache c1 below'))" and
    none: "\<And>t. unspent (CoinsCache c below) t = None \<Longrightarrow> unspent (CoinsCache c1 below') t = None" and
    un: "\<And>us'. list_all2 undo_like us' us \<Longrightarrow>
        undone (zip (vin tx) us') (unspent (CoinsCache c below)) (unspent (CoinsCache c1 below'))"
    by auto
  have "unspent below' ?t = None" using new(2) v1(3) by simp
  from modify_new_coins_ok [OF v1(1,2) this, of "\<lambda>_. FromTx tx h"] n have
    v2: "view_ok (CoinsCache c' below')" "\<not> hasModifier c'"
      "unspent (CoinsCache c' below') = (unspent (CoinsCache c1 below'))(?t := live (FromTx tx h))"
      "CCoinsViewCache.cache_hashBlock c' = CCoinsViewCache.cache_hashBlock c1"
    by (auto simp: FromTx_parts)
  have "tx_undone tx (Some us') h (unspent (CoinsCache c below)) (unspent (CoinsCache c' below'))"
    if "list_all2 undo_like us' us" for us'
    unfolding v2(3) by (rule tx_undoneI)
      (use that len un none [OF new(1)] in \<open>auto dest: list_all2_lengthD\<close>)
  moreover have "plain_set (unspent (CoinsCache c' below'))"
    unfolding v2(3) by (rule plain_set_update [OF v1(5) FromTx_plain]) (use tx in \<open>auto simp: tx_plain_def\<close>)
  moreover have "unspent (CoinsCache c' below') t = None" if "t \<noteq> ?t" "unspent (CoinsCache c below) t = None" for t
    unfolding v2(3) using that none by simp
  ultimately show ?thesis using pl v1 v2(1,2,4) by simp
qed

lemma UpdateCoins_coinbase:
  assumes "UpdateCoins tx [] h c below = Some (us, c', below')" "IsCoinBase tx"
    and v: "view_ok (CoinsCache c below)" "\<not> hasModifier c" "plain_set (unspent (CoinsCache c below))"
    and new: "unspent (CoinsCache c below) (CTransaction_GetHash tx) = None"
    and tx: "tx_plain tx" "0 < h" "h < 2 ^ 31"
  shows "view_ok (CoinsCache c' below') \<and> \<not> hasModifier c' \<and> plain_set (unspent (CoinsCache c' below')) \<and>
    unspent below' = unspent below \<and> CCoinsViewCache.cache_hashBlock c' = CCoinsViewCache.cache_hashBlock c \<and>
    (\<forall>t. t \<noteq> CTransaction_GetHash tx \<longrightarrow> unspent (CoinsCache c below) t = None \<longrightarrow> unspent (CoinsCache c' below') t = None) \<and>
    tx_undone tx None h (unspent (CoinsCache c below)) (unspent (CoinsCache c' below'))"
proof -
  let ?t = "CTransaction_GetHash tx"
  from modify_coins_ok [OF v(1,2), of "\<lambda>_. FromTx tx h" ?t] assms(1,2) have
    v2: "view_ok (CoinsCache c' below')" "\<not> hasModifier c'"
      "unspent (CoinsCache c' below') = (unspent (CoinsCache c below))(?t := live (FromTx tx h))"
      "unspent below' = unspent below" "CCoinsViewCache.cache_hashBlock c' = CCoinsViewCache.cache_hashBlock c"
    by (auto simp: UpdateCoins_def FromTx_parts)
  have "tx_undone tx None h (unspent (CoinsCache c below)) (unspent (CoinsCache c' below'))"
    unfolding v2(3) by (rule tx_undoneI) (use new in auto)
  moreover have "plain_set (unspent (CoinsCache c' below'))"
    unfolding v2(3) by (rule plain_set_update [OF v(3) FromTx_plain]) (use tx in \<open>auto simp: tx_plain_def\<close>)
  ultimately show ?thesis using v2 by simp
qed

definition txs_undone :: "(CTransaction \<times> CTxUndo option) list \<Rightarrow> int \<Rightarrow> (uint256 \<Rightarrow> CCoins option) \<Rightarrow> (uint256 \<Rightarrow> CCoins option) \<Rightarrow> bool" where
  "txs_undone ps h u u' \<longleftrightarrow>
     (\<forall>c below fClean trie. view_ok (CoinsCache c below) \<and> \<not> hasModifier c \<and>
        noversion (unspent (CoinsCache c below)) = noversion u' \<longrightarrow>
        (\<exists>c' below' trie'. disconnect_txs (rev ps) h fClean c below trie = Inr (fClean, c', below', trie') \<and>
           view_ok (CoinsCache c' below') \<and> \<not> hasModifier c' \<and> noversion (unspent (CoinsCache c' below')) = noversion u \<and>
           unspent below' = unspent below \<and> CCoinsViewCache.cache_hashBlock c' = CCoinsViewCache.cache_hashBlock c) \<or>
        disconnect_txs (rev ps) h fClean c below trie = Inl DisconnectAssert \<and> \<not> list_all (tx_rows h trie) (map fst ps))"

lemma disconnect_txs_append:
  "disconnect_txs (ps @ qs) h fClean c below trie =
     (case disconnect_txs ps h fClean c below trie of
        Inl e \<Rightarrow> Inl e
      | Inr (fClean, c, below, trie) \<Rightarrow> disconnect_txs qs h fClean c below trie)"
  by (induction ps h fClean c below trie rule: disconnect_txs.induct) (auto split: sum.splits)

lemma txs_undone_Nil: "txs_undone [] h u u"
  by (simp add: txs_undone_def)

lemma txs_undone_Cons:
  assumes "tx_undone tx us h u u1" "txs_undone ps h u1 u'"
  shows "txs_undone ((tx, us) # ps) h u u'"
  unfolding txs_undone_def
proof (intro allI impI)
  fix c below fClean trie
  let ?d = "disconnect_txs (rev ((tx, us) # ps)) h fClean c below trie"
  let ?ok = "\<exists>c' below' trie'. ?d = Inr (fClean, c', below', trie') \<and>
      view_ok (CoinsCache c' below') \<and> \<not> hasModifier c' \<and> noversion (unspent (CoinsCache c' below')) = noversion u \<and>
      unspent below' = unspent below \<and> CCoinsViewCache.cache_hashBlock c' = CCoinsViewCache.cache_hashBlock c"
  let ?rows = "list_all (tx_rows h trie) (map fst ((tx, us) # ps))"
  assume v: "view_ok (CoinsCache c below) \<and> \<not> hasModifier c \<and> noversion (unspent (CoinsCache c below)) = noversion u'"
  with assms(2) consider
    c1 b1 trie1 where "disconnect_txs (rev ps) h fClean c below trie = Inr (fClean, c1, b1, trie1)"
      "view_ok (CoinsCache c1 b1)" "\<not> hasModifier c1" "noversion (unspent (CoinsCache c1 b1)) = noversion u1"
      "unspent b1 = unspent below" "CCoinsViewCache.cache_hashBlock c1 = CCoinsViewCache.cache_hashBlock c"
  | "disconnect_txs (rev ps) h fClean c below trie = Inl DisconnectAssert" "\<not> list_all (tx_rows h trie) (map fst ps)"
    unfolding txs_undone_def by metis
  then show "?ok \<or> ?d = Inl DisconnectAssert \<and> \<not> ?rows"
  proof cases
    case (1 c1 b1 trie1)
    have d: "?d = disconnect_txs [(tx, us)] h fClean c1 b1 trie1" using 1(1) by (simp add: disconnect_txs_append)
    from assms(1) 1(2-4) consider
      c2 b2 trie2 where "disconnect_tx tx us h fClean c1 b1 trie1 = Inr (fClean, c2, b2, trie2)"
        "view_ok (CoinsCache c2 b2)" "\<not> hasModifier c2" "noversion (unspent (CoinsCache c2 b2)) = noversion u"
        "unspent b2 = unspent b1" "CCoinsViewCache.cache_hashBlock c2 = CCoinsViewCache.cache_hashBlock c1"
    | "disconnect_tx tx us h fClean c1 b1 trie1 = Inl DisconnectAssert" "\<not> tx_rows h trie1 tx"
      unfolding tx_undone_def by metis
    then show ?thesis
    proof cases
      case (1 c2 b2 trie2)
      then show ?thesis using d \<open>unspent b1 = unspent below\<close>
          \<open>CCoinsViewCache.cache_hashBlock c1 = CCoinsViewCache.cache_hashBlock c\<close> by simp
    next
      case 2
      then have "\<not> ?rows" using tx_rows_keeps [OF disconnect_txs_rows [OF 1(1)]] by auto
      then show ?thesis using 2(1) d by simp
    qed
  next
    case 2
    then show ?thesis by (simp add: disconnect_txs_append)
  qed
qed

text \<open>A transaction that can be connected at a height: new, and described by the undo data.\<close>

definition tx_new :: "CTransaction \<Rightarrow> int \<Rightarrow> CCoinsViewCache \<Rightarrow> CCoinsView \<Rightarrow> bool" where
  "tx_new tx h c below \<longleftrightarrow> tx_plain tx \<and> unspent (CoinsCache c below) (CTransaction_GetHash tx) = None \<and>
     unspent below (CTransaction_GetHash tx) = None"

lemma tx_new_after:
  assumes "list_all (\<lambda>tx. \<not> IsCoinBase tx \<and> tx_new tx h c below) txs" "t \<notin> CTransaction_GetHash ` set txs"
    and "unspent b1 = unspent below"
    and "\<And>t'. t' \<noteq> t \<Longrightarrow> unspent (CoinsCache c below) t' = None \<Longrightarrow> unspent (CoinsCache c1 b1) t' = None"
  shows "list_all (\<lambda>tx. \<not> IsCoinBase tx \<and> tx_new tx h c1 b1) txs"
  unfolding list_all_iff
proof
  fix x assume x: "x \<in> set txs"
  then have n: "tx_new x h c below" "\<not> IsCoinBase x" using assms(1) by (simp_all add: list_all_iff)
  have "CTransaction_GetHash x \<noteq> t" using assms(2) imageI [OF x, of CTransaction_GetHash] by auto
  then have "unspent (CoinsCache c1 b1) (CTransaction_GetHash x) = None" using assms(4) n(1) unfolding tx_new_def by blast
  then show "\<not> IsCoinBase x \<and> tx_new x h c1 b1" using n assms(3) by (simp add: tx_new_def)
qed

lemma connect_txs_ok:
  "connect_txs i txs h (vs, c, below, trie) = Some (vs', c', below', trie') \<Longrightarrow> 0 < i \<Longrightarrow>
   view_ok (CoinsCache c below) \<Longrightarrow> \<not> hasModifier c \<Longrightarrow> plain_set (unspent (CoinsCache c below)) \<Longrightarrow> 0 < h \<Longrightarrow> h < 2 ^ 31 \<Longrightarrow>
   distinct (map CTransaction_GetHash txs) \<Longrightarrow> list_all (\<lambda>tx. \<not> IsCoinBase tx \<and> tx_new tx h c below) txs \<Longrightarrow>
   \<exists>vs1. vs' = vs @ vs1 \<and> length vs1 = length txs \<and>
     view_ok (CoinsCache c' below') \<and> \<not> hasModifier c' \<and> unspent below' = unspent below \<and>
     CCoinsViewCache.cache_hashBlock c' = CCoinsViewCache.cache_hashBlock c \<and>
     txs_undone (zip txs (map (\<lambda>us. Some (map disk_undo us)) vs1)) h (unspent (CoinsCache c below)) (unspent (CoinsCache c' below'))"
proof (induction txs arbitrary: i vs c below trie)
  case Nil
  then show ?case by (simp add: txs_undone_Nil)
next
  case (Cons tx txs)
  let ?t = "CTransaction_GetHash tx"
  have nc: "\<not> IsCoinBase tx" and new: "tx_new tx h c below" using Cons.prems(9) by simp_all
  from Cons.prems(1,2) nc obtain hs sp cc bb tt us c1 b1 where
    sc: "spend_claims 0 (vin tx) [] [] (c, below, trie) = Some (hs, sp, cc, bb, tt)" and
    uc: "UpdateCoins tx [] h cc bb = Some (us, c1, b1)" and
    rest: "connect_txs (i + 1) txs h (vs @ [fold mark_claim hs us], c1, b1, add_claims ?t h 0 (vout tx) sp tt) =
      Some (vs', c', below', trie')"
    by (auto simp: connect_tx_def split: option.splits prod.splits)
  from spend_claims_ok [OF sc Cons.prems(3)] have
    s: "view_ok (CoinsCache cc bb)" "unspent (CoinsCache cc bb) = unspent (CoinsCache c below)" "unspent bb = unspent below"
      "\<not> hasModifier cc" "CCoinsViewCache.cache_hashBlock cc = CCoinsViewCache.cache_hashBlock c"
    using Cons.prems(4) by blast+
  have new': "unspent (CoinsCache cc bb) ?t = None" "unspent bb ?t = None" "tx_plain tx"
    using new unfolding tx_new_def s(2,3) by blast+
  have "plain_set (unspent (CoinsCache cc bb))" using Cons.prems(5) s(2) by simp
  from UpdateCoins_ok [OF uc nc s(1,4) this new' Cons.prems(6,7)] have
    u: "list_all (\<lambda>u. plain_out (undo_txout u)) us" "view_ok (CoinsCache c1 b1)" "\<not> hasModifier c1"
      "plain_set (unspent (CoinsCache c1 b1))" "unspent b1 = unspent bb"
      "CCoinsViewCache.cache_hashBlock c1 = CCoinsViewCache.cache_hashBlock cc"
      "\<And>t. t \<noteq> ?t \<Longrightarrow> unspent (CoinsCache cc bb) t = None \<Longrightarrow> unspent (CoinsCache c1 b1) t = None"
      "\<And>us'. list_all2 undo_like us' us \<Longrightarrow>
         tx_undone tx (Some us') h (unspent (CoinsCache cc bb)) (unspent (CoinsCache c1 b1))"
    by blast+
  have "list_all (\<lambda>tx. \<not> IsCoinBase tx \<and> tx_new tx h c1 b1) txs"
    using Cons.prems(8,9) u(5,7) s(2,3) by (intro tx_new_after [of h c below txs ?t b1 c1]) simp_all
  from Cons.IH [OF rest _ u(2-4) Cons.prems(6,7) _ this] Cons.prems(8) obtain vs1 where
    r: "vs' = (vs @ [fold mark_claim hs us]) @ vs1" "length vs1 = length txs"
      "view_ok (CoinsCache c' below')" "\<not> hasModifier c'" "unspent below' = unspent b1"
      "CCoinsViewCache.cache_hashBlock c' = CCoinsViewCache.cache_hashBlock c1"
      "txs_undone (zip txs (map (\<lambda>us. Some (map disk_undo us)) vs1)) h (unspent (CoinsCache c1 b1)) (unspent (CoinsCache c' below'))"
    by auto
  have "tx_undone tx (Some (map disk_undo (fold mark_claim hs us))) h (unspent (CoinsCache c below)) (unspent (CoinsCache c1 b1))"
    using u(8) [OF disk_marked_like [OF u(1)]] s(2) by simp
  from txs_undone_Cons [OF this r(7)] show ?case
    using r u(5,6) s(3,5) by (intro exI [of _ "fold mark_claim hs us # vs1"]) simp
qed

lemma SetBestBlock_view [simp]:
  "view_ok (CoinsCache (SetBestBlock hash c) below) = view_ok (CoinsCache c below)"
  "hasModifier (SetBestBlock hash c) = hasModifier c"
  "unspent (CoinsCache (SetBestBlock hash c) below) = unspent (CoinsCache c below)"
  "CCoinsViewCache.cache_hashBlock (SetBestBlock hash c) = hash"
  by (simp_all add: SetBestBlock_def unspent_cache)

subsection \<open>Properties\<close>

text \<open>
  C2. Taking back a block restores the coins, whatever claims and supports its transactions make, update
  or spend and whatever the claim trie holds by then: after the transactions were connected and their
  undo data was written and read back, either an assertion about the claim trie ends the program or
  \<open>DisconnectBlock\<close> reports a clean end, the best block is the previous one, and the unspent outputs
  are again those before the block, with their heights and coinbase flags.  The assertion cannot fail
  when the trie goes back a block and still has the expiration row of the height for the claims and
  supports among the outputs.  Only the versions of coins can differ: the format of the undo data
  drops them.  The transactions have distinct ids that are new to the view, as the rule on duplicate
  ids demands, and the coins of the view lie above height 0.
\<close>

theorem DisconnectBlock_restores_coins:
  fixes junk :: CSupportValue and prevHash :: uint256 and trie2 :: CClaimTrieCache
  assumes block: "vtx block = cb # txs" "IsCoinBase cb" "list_all (\<lambda>tx. \<not> IsCoinBase tx) txs"
      "distinct (map CTransaction_GetHash (vtx block))" "list_all (\<lambda>tx. tx_new tx h c below) (vtx block)"
    and view: "view_ok (CoinsCache c below)" "\<not> hasModifier c" "plain_set (unspent (CoinsCache c below))"
    and height: "0 < h" "h < 2 ^ 31"
    and connected: "connect_txs 0 (vtx block) h ([], c, below, trie) = Some (vs, c', below', trie')"
    and undo: "vtxundo U = map (map disk_undo) vs"
    and hash: "\<not> blob_IsNull blockHash"
  defines "result \<equiv> DisconnectBlock junk block blockHash prevHash h True (Some U) (SetBestBlock blockHash c') below' trie2"
  defines "restored \<equiv> \<exists>c2 below2 trie3. result = Inr (True, c2, below2, trie3) \<and>
    noversion (unspent (CoinsCache c2 below2)) = noversion (unspent (CoinsCache c below)) \<and>
    CCoinsViewCache.cache_hashBlock c2 = prevHash"
  shows "(restored \<or> result = Inl DisconnectAssert) \<and>
    (snd (decrementBlock junk trie2 (claim_undo U)) \<and> list_all (tx_rows h trie2) (vtx block) \<longrightarrow> restored)"
proof -
  let ?u = "unspent (CoinsCache c below)"
  have "tx_new cb h c below" using block(1,5) by simp
  then have cb: "?u (CTransaction_GetHash cb) = None" "tx_plain cb" unfolding tx_new_def by blast+
  from connected block(1,2) obtain us c1 b1 where
    uc: "UpdateCoins cb [] h c below = Some (us, c1, b1)" and
    rest: "connect_txs 1 txs h ([], c1, b1, trie) = Some (vs, c', below', trie')"
    by (auto simp: connect_tx_def split: option.splits prod.splits)
  from UpdateCoins_coinbase [OF uc block(2) view cb height] have
    u: "view_ok (CoinsCache c1 b1)" "\<not> hasModifier c1" "plain_set (unspent (CoinsCache c1 b1))" "unspent b1 = unspent below"
      "\<And>t. t \<noteq> CTransaction_GetHash cb \<Longrightarrow> ?u t = None \<Longrightarrow> unspent (CoinsCache c1 b1) t = None"
      "tx_undone cb None h ?u (unspent (CoinsCache c1 b1))"
    by blast+
  have "list_all (\<lambda>tx. \<not> IsCoinBase tx \<and> tx_new tx h c1 b1) txs"
    using block u(4,5) by (intro tx_new_after [of h c below txs "CTransaction_GetHash cb" b1 c1]) (simp_all add: list_all_iff)
  from connect_txs_ok [OF rest _ u(1-3) height _ this] block(1,4) have
    v: "length vs = length txs" "view_ok (CoinsCache c' below')" "\<not> hasModifier c'"
      "txs_undone (zip txs (map (\<lambda>us. Some (map disk_undo us)) vs)) h (unspent (CoinsCache c1 b1)) (unspent (CoinsCache c' below'))"
    by auto
  have bu: "block_undos (vtx block) (vtxundo U) = (cb, None) # zip txs (map (\<lambda>us. Some (map disk_undo us)) vs)"
    by (simp add: block_undos_def block(1) undo comp_def)
  obtain trie1 ok where dec: "decrementBlock junk trie2 (claim_undo U) = (trie1, ok)" by force
  let ?d = "disconnect_txs (rev (block_undos (vtx block) (vtxundo U))) h True (SetBestBlock blockHash c') below' trie1"
  have "GetBestBlock (CoinsCache (SetBestBlock blockHash c') below') = (blockHash, CoinsCache (SetBestBlock blockHash c') below')"
    using hash by simp
  then have r: "result = (if \<not> ok then Inl DisconnectAssert else case ?d of Inl e \<Rightarrow> Inl e
      | Inr (fClean, c, below, trie) \<Rightarrow> Inr (fClean, SetBestBlock prevHash c, below, fst (finalizeDecrement trie)))"
    using v(1) by (simp add: result_def DisconnectBlock_def undo dec block(1) finalizeDecrement_def Let_def split: sum.split)
  have "list_all (tx_rows h trie2) (vtx block) \<Longrightarrow> list_all (tx_rows h trie1) (vtx block)"
    using tx_rows_keeps decrementBlock_rows [of trie2 junk "claim_undo U"] dec by (auto simp: list_all_iff)
  moreover have "map fst (block_undos (vtx block) (vtxundo U)) = vtx block" unfolding bu using v(1) by (simp add: block(1))
  moreover have "(\<exists>c2 b2 trie3. ?d = Inr (True, c2, b2, trie3) \<and> noversion (unspent (CoinsCache c2 b2)) = noversion ?u) \<or>
      ?d = Inl DisconnectAssert \<and> \<not> list_all (tx_rows h trie1) (map fst (block_undos (vtx block) (vtxundo U)))"
    using txs_undone_Cons [OF u(6) v(4)] v(2,3) unfolding bu txs_undone_def by (metis SetBestBlock_view(1-3))
  ultimately show ?thesis unfolding restored_def r by (auto simp: dec)
qed

text \<open>A coinbase paying 50 to a script, connected at height 7 in an empty view.\<close>

definition sample_coinbase :: CTransaction where
  "sample_coinbase = \<lparr>tx_nVersion = 1, vin = [mk_CTxIn COutPoint_SetNull [1, 2] SEQUENCE_FINAL],
     vout = [mk_CTxOut 50 [0x51]], nLockTime = 0\<rparr>"

text \<open>One that claims a name with its output, and a trie in which that claim waits for its height.\<close>

definition claim_coinbase :: CTransaction where
  "claim_coinbase = sample_coinbase\<lparr>vout := [mk_CTxOut 50 (ClaimNameScript [110, 97] [118])]\<rparr>"

definition claim_queued :: "CClaimTrieCache \<Rightarrow> CClaimTrieCache" where
  "claim_queued S = addClaimToQueues ''na''
     (mk_claim \<lparr>op_hash = CTransaction_GetHash claim_coinbase, op_n = 0\<rparr> (replicate 20 1) 50 7 9 ''v'' ''na'') S"

lemma claim_queued_row: "claims_expire (claim_queued S) (7 + trie_nExpirationTime (base S))"
  by (auto simp: claim_queued_def addClaimToQueues_def addToExpirationQueue_def mk_claim_def claims_expire_def row_gets
      set_queue_row_def set_queue_name_row_def set_expiration_row_def Let_def split: option.splits)

lemma claim_queued_base: "base (claim_queued S) = base S"
  using addClaimToQueues_rows unfolding claim_queued_def keeps_rows_def by blast

lemma DisconnectBlock_restores_coins_witness:
  "\<forall>junk trie. \<exists>c' below' c2 below2 trie'.
     connect_txs 0 [claim_coinbase] 7 ([], \<lparr>hasModifier = False, cache_hashBlock = [], cacheCoins = []\<rparr>, CoinsNone, trie) =
       Some ([], c', below', trie) \<and>
     DisconnectBlock junk \<lparr>blk_header = CBlockHeader_SetNull, vtx = [claim_coinbase]\<rparr> [5] [4] 7 True
       (Some \<lparr>vtxundo = [], claim_undo = no_undo\<rparr>) (SetBestBlock [5] c') below' (claim_queued trie) =
       Inr (True, c2, below2, trie') \<and>
     unspent (CoinsCache c2 below2) = Map.empty \<and> CCoinsViewCache.cache_hashBlock c2 = [4]"
proof (intro allI)
  fix junk trie
  define c :: CCoinsViewCache where "c = \<lparr>hasModifier = False, cache_hashBlock = [], cacheCoins = []\<rparr>"
  define blk where "blk = \<lparr>blk_header = CBlockHeader_SetNull, vtx = [claim_coinbase]\<rparr>"
  define U where "U = \<lparr>vtxundo = [], claim_undo = no_undo\<rparr>"
  have vt: "vtx blk = [claim_coinbase]" by (simp add: blk_def)
  have cb: "IsCoinBase claim_coinbase"
    by (simp add: claim_coinbase_def sample_coinbase_def IsCoinBase_def COutPoint_IsNull_def COutPoint_SetNull_def mk_CTxIn_def
        blob_IsNull_def blob_SetNull_def list_all_iff)
  have u: "unspent (CoinsCache c CoinsNone) = Map.empty" by (rule ext) (simp add: unspent_def c_def)
  have view: "view_ok (CoinsCache c CoinsNone)" "\<not> hasModifier c" "plain_set (unspent (CoinsCache c CoinsNone))"
    unfolding u by (simp_all add: c_def cache_ok_def plain_set_def)
  have "tx_new claim_coinbase 7 c CoinsNone"
    unfolding tx_new_def u
    by (simp add: tx_plain_def plain_out_def claim_coinbase_def mk_CTxOut_def CTxOut_IsNull_def unspent_def)
  then have new: "list_all (\<lambda>tx. tx_new tx 7 c CoinsNone) (vtx blk)" by (simp add: vt)
  obtain c' below' where "modify_coins (\<lambda>_. FromTx claim_coinbase 7) (CTransaction_GetHash claim_coinbase) c CoinsNone = Some (c', below')"
    using modify_coins_ok [OF view(1,2)] by blast
  then have con: "connect_txs 0 (vtx blk) 7 ([], c, CoinsNone, trie) = Some ([], c', below', trie)"
    by (simp add: vt connect_tx_def cb UpdateCoins_def)
  have dec: "snd (decrementBlock junk (claim_queued trie) (claim_undo U))"
    by (simp add: U_def decrementBlock_def no_undo_def Let_def)
  have "DecodeClaimScript (ClaimNameScript [110, 97] [118]) = Some (OP_CLAIM_NAME, [[110, 97], [118]], [0x51])" by code_simp
  then have rows: "list_all (tx_rows 7 (claim_queued trie)) (vtx blk)"
    using claim_queued_row [of trie]
    by (simp add: vt tx_rows_def out_row_def claim_coinbase_def claim_queued_base mk_CTxOut_def)
  obtain c2 below2 trie3 where d: "DisconnectBlock junk blk [5] [4] 7 True (Some U) (SetBestBlock [5] c') below' (claim_queued trie) =
      Inr (True, c2, below2, trie3)"
    "noversion (unspent (CoinsCache c2 below2)) = noversion (unspent (CoinsCache c CoinsNone))"
    "CCoinsViewCache.cache_hashBlock c2 = [4]"
    using DisconnectBlock_restores_coins [OF vt cb _ _ new view _ _ con, of U "[5]" junk "[4]" "claim_queued trie"] dec rows
    by (auto simp: vt blob_IsNull_def U_def)
  have e: "f = Map.empty" if "noversion f = noversion Map.empty" for f :: "uint256 \<Rightarrow> CCoins option"
  proof
    fix t show "f t = None" using fun_cong [OF that, of t] by (simp add: noversion_def)
  qed
  show "\<exists>c' below' c2 below2 trie'.
     connect_txs 0 [claim_coinbase] 7 ([], \<lparr>hasModifier = False, cache_hashBlock = [], cacheCoins = []\<rparr>, CoinsNone, trie) =
       Some ([], c', below', trie) \<and>
     DisconnectBlock junk \<lparr>blk_header = CBlockHeader_SetNull, vtx = [claim_coinbase]\<rparr> [5] [4] 7 True
       (Some \<lparr>vtxundo = [], claim_undo = no_undo\<rparr>) (SetBestBlock [5] c') below' (claim_queued trie) =
       Inr (True, c2, below2, trie') \<and>
     unspent (CoinsCache c2 below2) = Map.empty \<and> CCoinsViewCache.cache_hashBlock c2 = [4]"
    unfolding c_def [symmetric] blk_def [symmetric] U_def [symmetric]
    using con [unfolded vt] d(1,3) e [OF d(2) [unfolded u]] by blast
qed

end
