(* ===== verification/Interpreter.thy ===== *)
theory Interpreter
  imports Standard "HOL-Library.Sublist"
begin

text \<open>
  The script machine (\<open>script/interpreter.cpp\<close>, \<open>script/script_error.h\<close>).  The stacks and the
  list of conditions are lists with the top in front, \<open>stacktop(-i)\<close> is element \<open>i - 1\<close>.  An
  error return is \<open>Inl\<close>; an exception of a script number, the only one that the size checks do
  not exclude, is the error the code catches it as.  The signature checker is a record of its
  three methods; verifying a signature and the low-S test are answers of the secp256k1 library
  and therefore arguments.
\<close>

unbundle bit_operations_syntax

subsection \<open>Errors and flags\<close>

datatype ScriptError =
    SCRIPT_ERR_OK | SCRIPT_ERR_UNKNOWN_ERROR | SCRIPT_ERR_EVAL_FALSE
  | SCRIPT_ERR_OP_RETURN | SCRIPT_ERR_SCRIPT_SIZE | SCRIPT_ERR_PUSH_SIZE
  | SCRIPT_ERR_OP_COUNT | SCRIPT_ERR_STACK_SIZE | SCRIPT_ERR_SIG_COUNT
  | SCRIPT_ERR_PUBKEY_COUNT | SCRIPT_ERR_VERIFY | SCRIPT_ERR_EQUALVERIFY
  | SCRIPT_ERR_CHECKMULTISIGVERIFY | SCRIPT_ERR_CHECKSIGVERIFY | SCRIPT_ERR_NUMEQUALVERIFY
  | SCRIPT_ERR_BAD_OPCODE | SCRIPT_ERR_DISABLED_OPCODE | SCRIPT_ERR_INVALID_STACK_OPERATION
  | SCRIPT_ERR_INVALID_ALTSTACK_OPERATION | SCRIPT_ERR_UNBALANCED_CONDITIONAL | SCRIPT_ERR_NEGATIVE_LOCKTIME
  | SCRIPT_ERR_UNSATISFIED_LOCKTIME | SCRIPT_ERR_SIG_HASHTYPE | SCRIPT_ERR_SIG_DER
  | SCRIPT_ERR_MINIMALDATA | SCRIPT_ERR_SIG_PUSHONLY | SCRIPT_ERR_SIG_HIGH_S
  | SCRIPT_ERR_SIG_NULLDUMMY | SCRIPT_ERR_PUBKEYTYPE | SCRIPT_ERR_CLEANSTACK
  | SCRIPT_ERR_DISCOURAGE_UPGRADABLE_NOPS | SCRIPT_ERR_ERROR_COUNT

definition ScriptErrorString :: "ScriptError \<Rightarrow> string" where
  "ScriptErrorString serror = (case serror of
      SCRIPT_ERR_OK \<Rightarrow> ''No error''
    | SCRIPT_ERR_EVAL_FALSE \<Rightarrow> ''Script evaluated without error but finished with a false/empty top stack element''
    | SCRIPT_ERR_VERIFY \<Rightarrow> ''Script failed an OP_VERIFY operation''
    | SCRIPT_ERR_EQUALVERIFY \<Rightarrow> ''Script failed an OP_EQUALVERIFY operation''
    | SCRIPT_ERR_CHECKMULTISIGVERIFY \<Rightarrow> ''Script failed an OP_CHECKMULTISIGVERIFY operation''
    | SCRIPT_ERR_CHECKSIGVERIFY \<Rightarrow> ''Script failed an OP_CHECKSIGVERIFY operation''
    | SCRIPT_ERR_NUMEQUALVERIFY \<Rightarrow> ''Script failed an OP_NUMEQUALVERIFY operation''
    | SCRIPT_ERR_SCRIPT_SIZE \<Rightarrow> ''Script is too big''
    | SCRIPT_ERR_PUSH_SIZE \<Rightarrow> ''Push value size limit exceeded''
    | SCRIPT_ERR_OP_COUNT \<Rightarrow> ''Operation limit exceeded''
    | SCRIPT_ERR_STACK_SIZE \<Rightarrow> ''Stack size limit exceeded''
    | SCRIPT_ERR_SIG_COUNT \<Rightarrow> ''Signature count negative or greater than pubkey count''
    | SCRIPT_ERR_PUBKEY_COUNT \<Rightarrow> ''Pubkey count negative or limit exceeded''
    | SCRIPT_ERR_BAD_OPCODE \<Rightarrow> ''Opcode missing or not understood''
    | SCRIPT_ERR_DISABLED_OPCODE \<Rightarrow> ''Attempted to use a disabled opcode''
    | SCRIPT_ERR_INVALID_STACK_OPERATION \<Rightarrow> ''Operation not valid with the current stack size''
    | SCRIPT_ERR_INVALID_ALTSTACK_OPERATION \<Rightarrow> ''Operation not valid with the current altstack size''
    | SCRIPT_ERR_OP_RETURN \<Rightarrow> ''OP_RETURN was encountered''
    | SCRIPT_ERR_UNBALANCED_CONDITIONAL \<Rightarrow> ''Invalid OP_IF construction''
    | SCRIPT_ERR_NEGATIVE_LOCKTIME \<Rightarrow> ''Negative locktime''
    | SCRIPT_ERR_UNSATISFIED_LOCKTIME \<Rightarrow> ''Locktime requirement not satisfied''
    | SCRIPT_ERR_SIG_HASHTYPE \<Rightarrow> ''Signature hash type missing or not understood''
    | SCRIPT_ERR_SIG_DER \<Rightarrow> ''Non-canonical DER signature''
    | SCRIPT_ERR_MINIMALDATA \<Rightarrow> ''Data push larger than necessary''
    | SCRIPT_ERR_SIG_PUSHONLY \<Rightarrow> ''Only non-push operators allowed in signatures''
    | SCRIPT_ERR_SIG_HIGH_S \<Rightarrow> ''Non-canonical signature: S value is unnecessarily high''
    | SCRIPT_ERR_SIG_NULLDUMMY \<Rightarrow> ''Dummy CHECKMULTISIG argument must be zero''
    | SCRIPT_ERR_DISCOURAGE_UPGRADABLE_NOPS \<Rightarrow> ''NOPx reserved for soft-fork upgrades''
    | SCRIPT_ERR_PUBKEYTYPE \<Rightarrow> ''Public key is neither compressed or uncompressed''
    | _ \<Rightarrow> ''unknown error'')"

definition SIGHASH_ALL :: nat where "SIGHASH_ALL = 1"
definition SIGHASH_NONE :: nat where "SIGHASH_NONE = 2"
definition SIGHASH_SINGLE :: nat where "SIGHASH_SINGLE = 3"
definition SIGHASH_ANYONECANPAY :: nat where "SIGHASH_ANYONECANPAY = 0x80"

definition SCRIPT_VERIFY_P2SH :: nat where "SCRIPT_VERIFY_P2SH = 0"
definition SCRIPT_VERIFY_STRICTENC :: nat where "SCRIPT_VERIFY_STRICTENC = 1"
definition SCRIPT_VERIFY_DERSIG :: nat where "SCRIPT_VERIFY_DERSIG = 2"
definition SCRIPT_VERIFY_LOW_S :: nat where "SCRIPT_VERIFY_LOW_S = 3"
definition SCRIPT_VERIFY_NULLDUMMY :: nat where "SCRIPT_VERIFY_NULLDUMMY = 4"
definition SCRIPT_VERIFY_SIGPUSHONLY :: nat where "SCRIPT_VERIFY_SIGPUSHONLY = 5"
definition SCRIPT_VERIFY_MINIMALDATA :: nat where "SCRIPT_VERIFY_MINIMALDATA = 6"
definition SCRIPT_VERIFY_DISCOURAGE_UPGRADABLE_NOPS :: nat where "SCRIPT_VERIFY_DISCOURAGE_UPGRADABLE_NOPS = 7"
definition SCRIPT_VERIFY_CLEANSTACK :: nat where "SCRIPT_VERIFY_CLEANSTACK = 8"
definition SCRIPT_VERIFY_CHECKLOCKTIMEVERIFY :: nat where "SCRIPT_VERIFY_CHECKLOCKTIMEVERIFY = 9"
definition SCRIPT_VERIFY_CHECKSEQUENCEVERIFY :: nat where "SCRIPT_VERIFY_CHECKSEQUENCEVERIFY = 10"

text \<open>A flag is the number of its bit, and \<open>flags & (1U << n)\<close> tests it.\<close>

definition has_flag :: "u32 \<Rightarrow> nat \<Rightarrow> bool" where
  "has_flag flags n \<longleftrightarrow> flags AND push_bit n 1 \<noteq> 0"

subsection \<open>Values and encodings\<close>

type_synonym valtype = bytes

fun CastToBool :: "valtype \<Rightarrow> bool" where
  "CastToBool [] = False"
| "CastToBool (b # bs) = (if b \<noteq> 0 then \<not> (bs = [] \<and> b = 0x80) else CastToBool bs)"

definition IsCompressedOrUncompressedPubKey :: "valtype \<Rightarrow> bool" where
  "IsCompressedOrUncompressedPubKey vchPubKey \<longleftrightarrow>
     (if length vchPubKey < 33 then False
      else if vchPubKey ! 0 = 0x04 then length vchPubKey = 65
      else if vchPubKey ! 0 = 0x02 \<or> vchPubKey ! 0 = 0x03 then length vchPubKey = 33
      else False)"

definition IsValidSignatureEncoding :: "bytes \<Rightarrow> bool" where
  "IsValidSignatureEncoding sig \<longleftrightarrow>
     (if length sig < 9 then False
      else if length sig > 73 then False
      else if sig ! 0 \<noteq> 0x30 then False
      else if unat (sig ! 1) \<noteq> length sig - 3 then False
      else let lenR = unat (sig ! 3) in
        if 5 + lenR \<ge> length sig then False
        else let lenS = unat (sig ! (5 + lenR)) in
          if lenR + lenS + 7 \<noteq> length sig then False
          else if sig ! 2 \<noteq> 0x02 then False
          else if lenR = 0 then False
          else if sig ! 4 AND 0x80 \<noteq> 0 then False
          else if lenR > 1 \<and> sig ! 4 = 0 \<and> sig ! 5 AND 0x80 = 0 then False
          else if sig ! (lenR + 4) \<noteq> 0x02 then False
          else if lenS = 0 then False
          else if sig ! (lenR + 6) AND 0x80 \<noteq> 0 then False
          else if lenS > 1 \<and> sig ! (lenR + 6) = 0 \<and> sig ! (lenR + 7) AND 0x80 = 0 then False
          else True)"

definition IsLowDERSignature :: "(bytes \<Rightarrow> bool) \<Rightarrow> valtype \<Rightarrow> ScriptError" where
  "IsLowDERSignature CheckLowS vchSig =
     (if \<not> IsValidSignatureEncoding vchSig then SCRIPT_ERR_SIG_DER
      else if \<not> CheckLowS (butlast vchSig) then SCRIPT_ERR_SIG_HIGH_S
      else SCRIPT_ERR_OK)"

definition IsDefinedHashtypeSignature :: "valtype \<Rightarrow> bool" where
  "IsDefinedHashtypeSignature vchSig \<longleftrightarrow>
     (if length vchSig = 0 then False
      else let nHashType = unat (last vchSig AND NOT (of_nat SIGHASH_ANYONECANPAY))
        in \<not> (nHashType < SIGHASH_ALL \<or> nHashType > SIGHASH_SINGLE))"

definition CheckSignatureEncoding :: "(bytes \<Rightarrow> bool) \<Rightarrow> valtype \<Rightarrow> u32 \<Rightarrow> ScriptError" where
  "CheckSignatureEncoding CheckLowS vchSig flags =
     (let err = IsLowDERSignature CheckLowS vchSig in
      if length vchSig = 0 then SCRIPT_ERR_OK
      else if (has_flag flags SCRIPT_VERIFY_DERSIG \<or> has_flag flags SCRIPT_VERIFY_LOW_S \<or>
               has_flag flags SCRIPT_VERIFY_STRICTENC) \<and> \<not> IsValidSignatureEncoding vchSig
        then SCRIPT_ERR_SIG_DER
      else if has_flag flags SCRIPT_VERIFY_LOW_S \<and> err \<noteq> SCRIPT_ERR_OK then err
      else if has_flag flags SCRIPT_VERIFY_STRICTENC \<and> \<not> IsDefinedHashtypeSignature vchSig
        then SCRIPT_ERR_SIG_HASHTYPE
      else SCRIPT_ERR_OK)"

definition CheckPubKeyEncoding :: "valtype \<Rightarrow> u32 \<Rightarrow> ScriptError" where
  "CheckPubKeyEncoding vchPubKey flags =
     (if has_flag flags SCRIPT_VERIFY_STRICTENC \<and> \<not> IsCompressedOrUncompressedPubKey vchPubKey
      then SCRIPT_ERR_PUBKEYTYPE else SCRIPT_ERR_OK)"

definition CheckMinimalPush :: "valtype \<Rightarrow> opcodetype \<Rightarrow> bool" where
  "CheckMinimalPush data opcode \<longleftrightarrow>
     (if length data = 0 then opcode = OP_0
      else if length data = 1 \<and> data ! 0 \<ge> 1 \<and> data ! 0 \<le> 16 then opcode = OP_1 + (unat (data ! 0) - 1)
      else if length data = 1 \<and> data ! 0 = 0x81 then opcode = OP_1NEGATE
      else if length data \<le> 75 then opcode = length data
      else if length data \<le> 255 then opcode = OP_PUSHDATA1
      else if length data \<le> 65535 then opcode = OP_PUSHDATA2
      else True)"

subsection \<open>The machine\<close>

record SignatureChecker =
  chk_CheckSig :: "valtype \<Rightarrow> valtype \<Rightarrow> CScript \<Rightarrow> bool"
  chk_CheckLockTime :: "int \<Rightarrow> bool"
  chk_CheckSequence :: "int \<Rightarrow> bool"
  chk_CheckLowS :: "bytes \<Rightarrow> bool"

definition BaseSignatureChecker :: SignatureChecker where
  "BaseSignatureChecker = \<lparr>chk_CheckSig = (\<lambda>_ _ _. False), chk_CheckLockTime = (\<lambda>_. False),
     chk_CheckSequence = (\<lambda>_. False), chk_CheckLowS = (\<lambda>_. False)\<rparr>"

text \<open>The local variables of \<open>EvalScript\<close> that the operations change.\<close>

record machine =
  stack :: "valtype list"
  altstack :: "valtype list"
  vfExec :: "bool list"
  nOpCount :: int
  pbegincodehash :: bytes

definition vchTrue :: valtype where "vchTrue = [1]"
definition vchFalse :: valtype where "vchFalse = []"

definition of_bool_vch :: "bool \<Rightarrow> valtype" where
  "of_bool_vch b = (if b then vchTrue else vchFalse)"

text \<open>A number on the stack; its exceptions are caught as the unknown error.\<close>

definition stack_num :: "valtype \<Rightarrow> bool \<Rightarrow> nat \<Rightarrow> ScriptError + int" where
  "stack_num vch fRequireMinimal nMaxNumSize =
     (case CScriptNum vch fRequireMinimal nMaxNumSize of
        Inl e \<Rightarrow> Inl SCRIPT_ERR_UNKNOWN_ERROR | Inr n \<Rightarrow> Inr n)"

definition set_stack :: "valtype list \<Rightarrow> machine \<Rightarrow> ScriptError + machine" where
  "set_stack s m = Inr (m\<lparr>stack := s\<rparr>)"

subsection \<open>Lock times\<close>

definition exec_CHECKLOCKTIMEVERIFY :: "u32 \<Rightarrow> SignatureChecker \<Rightarrow> machine \<Rightarrow> ScriptError + machine" where
  "exec_CHECKLOCKTIMEVERIFY flags checker m =
     (if \<not> has_flag flags SCRIPT_VERIFY_CHECKLOCKTIMEVERIFY
      then if has_flag flags SCRIPT_VERIFY_DISCOURAGE_UPGRADABLE_NOPS
           then Inl SCRIPT_ERR_DISCOURAGE_UPGRADABLE_NOPS else Inr m
      else case stack m of
        [] \<Rightarrow> Inl SCRIPT_ERR_INVALID_STACK_OPERATION
      | x # _ \<Rightarrow> (case stack_num x (has_flag flags SCRIPT_VERIFY_MINIMALDATA) 5 of
          Inl e \<Rightarrow> Inl e
        | Inr n \<Rightarrow> if n < 0 then Inl SCRIPT_ERR_NEGATIVE_LOCKTIME
                   else if \<not> chk_CheckLockTime checker n then Inl SCRIPT_ERR_UNSATISFIED_LOCKTIME
                   else Inr m))"

definition exec_CHECKSEQUENCEVERIFY :: "u32 \<Rightarrow> SignatureChecker \<Rightarrow> machine \<Rightarrow> ScriptError + machine" where
  "exec_CHECKSEQUENCEVERIFY flags checker m =
     (if \<not> has_flag flags SCRIPT_VERIFY_CHECKSEQUENCEVERIFY
      then if has_flag flags SCRIPT_VERIFY_DISCOURAGE_UPGRADABLE_NOPS
           then Inl SCRIPT_ERR_DISCOURAGE_UPGRADABLE_NOPS else Inr m
      else case stack m of
        [] \<Rightarrow> Inl SCRIPT_ERR_INVALID_STACK_OPERATION
      | x # _ \<Rightarrow> (case stack_num x (has_flag flags SCRIPT_VERIFY_MINIMALDATA) 5 of
          Inl e \<Rightarrow> Inl e
        | Inr n \<Rightarrow> if n < 0 then Inl SCRIPT_ERR_NEGATIVE_LOCKTIME
                   else if n AND uint SEQUENCE_LOCKTIME_DISABLE_FLAG \<noteq> 0 then Inr m
                   else if \<not> chk_CheckSequence checker n then Inl SCRIPT_ERR_UNSATISFIED_LOCKTIME
                   else Inr m))"

subsection \<open>Control and stack operations\<close>

definition exec_control :: "opcodetype \<Rightarrow> bool \<Rightarrow> machine \<Rightarrow> ScriptError + machine" where
  "exec_control opcode fExec m =
     (if opcode = OP_IF \<or> opcode = OP_NOTIF
      then if fExec
           then (case stack m of
               [] \<Rightarrow> Inl SCRIPT_ERR_UNBALANCED_CONDITIONAL
             | vch # s \<Rightarrow> Inr (m\<lparr>stack := s,
                 vfExec := (if opcode = OP_NOTIF then \<not> CastToBool vch else CastToBool vch) # vfExec m\<rparr>))
           else Inr (m\<lparr>vfExec := False # vfExec m\<rparr>)
      else if opcode = OP_ELSE
        then (case vfExec m of [] \<Rightarrow> Inl SCRIPT_ERR_UNBALANCED_CONDITIONAL | b # bs \<Rightarrow> Inr (m\<lparr>vfExec := (\<not> b) # bs\<rparr>))
      else if opcode = OP_ENDIF
        then (case vfExec m of [] \<Rightarrow> Inl SCRIPT_ERR_UNBALANCED_CONDITIONAL | b # bs \<Rightarrow> Inr (m\<lparr>vfExec := bs\<rparr>))
      else if opcode = OP_VERIFY
        then (case stack m of
            [] \<Rightarrow> Inl SCRIPT_ERR_INVALID_STACK_OPERATION
          | vch # s \<Rightarrow> if CastToBool vch then set_stack s m else Inl SCRIPT_ERR_VERIFY)
      else if opcode = OP_RETURN then Inl SCRIPT_ERR_OP_RETURN
      else Inl SCRIPT_ERR_BAD_OPCODE)"

definition exec_altstack :: "opcodetype \<Rightarrow> machine \<Rightarrow> ScriptError + machine" where
  "exec_altstack opcode m =
     (if opcode = OP_TOALTSTACK
      then (case stack m of
          [] \<Rightarrow> Inl SCRIPT_ERR_INVALID_STACK_OPERATION
        | x # s \<Rightarrow> Inr (m\<lparr>stack := s, altstack := x # altstack m\<rparr>))
      else (case altstack m of
          [] \<Rightarrow> Inl SCRIPT_ERR_INVALID_ALTSTACK_OPERATION
        | x # s \<Rightarrow> Inr (m\<lparr>stack := x # stack m, altstack := s\<rparr>)))"

text \<open>The operations that only move elements; \<open>None\<close> is a stack that is too small.\<close>

definition move_op :: "opcodetype \<Rightarrow> valtype list \<Rightarrow> valtype list option" where
  "move_op opcode s =
     (if opcode = OP_2DROP then (case s of _ # _ # s \<Rightarrow> Some s | _ \<Rightarrow> None)
      else if opcode = OP_2DUP then (case s of x2 # x1 # s \<Rightarrow> Some (x2 # x1 # x2 # x1 # s) | _ \<Rightarrow> None)
      else if opcode = OP_3DUP
        then (case s of x3 # x2 # x1 # s \<Rightarrow> Some (x3 # x2 # x1 # x3 # x2 # x1 # s) | _ \<Rightarrow> None)
      else if opcode = OP_2OVER
        then (case s of x4 # x3 # x2 # x1 # s \<Rightarrow> Some (x2 # x1 # x4 # x3 # x2 # x1 # s) | _ \<Rightarrow> None)
      else if opcode = OP_2ROT
        then (case s of x6 # x5 # x4 # x3 # x2 # x1 # s \<Rightarrow> Some (x2 # x1 # x6 # x5 # x4 # x3 # s) | _ \<Rightarrow> None)
      else if opcode = OP_2SWAP
        then (case s of x4 # x3 # x2 # x1 # s \<Rightarrow> Some (x2 # x1 # x4 # x3 # s) | _ \<Rightarrow> None)
      else if opcode = OP_IFDUP
        then (case s of x # s \<Rightarrow> Some (if CastToBool x then x # x # s else x # s) | _ \<Rightarrow> None)
      else if opcode = OP_DEPTH then Some (scriptnum_serialize (int (length s)) # s)
      else if opcode = OP_DROP then (case s of _ # s \<Rightarrow> Some s | _ \<Rightarrow> None)
      else if opcode = OP_DUP then (case s of x # s \<Rightarrow> Some (x # x # s) | _ \<Rightarrow> None)
      else if opcode = OP_NIP then (case s of x2 # x1 # s \<Rightarrow> Some (x2 # s) | _ \<Rightarrow> None)
      else if opcode = OP_OVER then (case s of x2 # x1 # s \<Rightarrow> Some (x1 # x2 # x1 # s) | _ \<Rightarrow> None)
      else if opcode = OP_ROT then (case s of x3 # x2 # x1 # s \<Rightarrow> Some (x1 # x3 # x2 # s) | _ \<Rightarrow> None)
      else if opcode = OP_SWAP then (case s of x2 # x1 # s \<Rightarrow> Some (x1 # x2 # s) | _ \<Rightarrow> None)
      else if opcode = OP_TUCK then (case s of x2 # x1 # s \<Rightarrow> Some (x2 # x1 # x2 # s) | _ \<Rightarrow> None)
      else (case s of x # s \<Rightarrow> Some (scriptnum_serialize (int (length x)) # x # s) | _ \<Rightarrow> None))"

definition is_move_op :: "opcodetype \<Rightarrow> bool" where
  "is_move_op opcode \<longleftrightarrow> opcode \<in> {OP_2DROP, OP_2DUP, OP_3DUP, OP_2OVER, OP_2ROT, OP_2SWAP, OP_IFDUP, OP_DEPTH,
     OP_DROP, OP_DUP, OP_NIP, OP_OVER, OP_ROT, OP_SWAP, OP_TUCK, OP_SIZE}"

definition exec_move :: "opcodetype \<Rightarrow> machine \<Rightarrow> ScriptError + machine" where
  "exec_move opcode m =
     (case move_op opcode (stack m) of
        None \<Rightarrow> Inl SCRIPT_ERR_INVALID_STACK_OPERATION | Some s \<Rightarrow> set_stack s m)"

definition exec_pick :: "opcodetype \<Rightarrow> bool \<Rightarrow> machine \<Rightarrow> ScriptError + machine" where
  "exec_pick opcode fRequireMinimal m =
     (case stack m of
        x # y # ys \<Rightarrow> (case stack_num x fRequireMinimal nDefaultMaxNumSize of
          Inl e \<Rightarrow> Inl e
        | Inr bn \<Rightarrow>
            let n = getint bn; s = y # ys in
            if n < 0 \<or> n \<ge> int (length s) then Inl SCRIPT_ERR_INVALID_STACK_OPERATION
            else let vch = s ! nat n
              in set_stack (vch # (if opcode = OP_ROLL then take (nat n) s @ drop (nat n + 1) s else s)) m)
      | _ \<Rightarrow> Inl SCRIPT_ERR_INVALID_STACK_OPERATION)"

definition exec_equal :: "opcodetype \<Rightarrow> machine \<Rightarrow> ScriptError + machine" where
  "exec_equal opcode m =
     (case stack m of
        vch2 # vch1 # s \<Rightarrow>
          let fEqual = (vch1 = vch2) in
          if opcode = OP_EQUALVERIFY
          then if fEqual then set_stack s m else Inl SCRIPT_ERR_EQUALVERIFY
          else set_stack (of_bool_vch fEqual # s) m
      | _ \<Rightarrow> Inl SCRIPT_ERR_INVALID_STACK_OPERATION)"

subsection \<open>Numbers\<close>

definition unary_value :: "opcodetype \<Rightarrow> int \<Rightarrow> int" where
  "unary_value opcode bn =
     (if opcode = OP_1ADD then bn + 1
      else if opcode = OP_1SUB then bn - 1
      else if opcode = OP_NEGATE then - bn
      else if opcode = OP_ABS then (if bn < 0 then - bn else bn)
      else if opcode = OP_NOT then of_bool (bn = 0)
      else of_bool (bn \<noteq> 0))"

definition exec_unary :: "opcodetype \<Rightarrow> bool \<Rightarrow> machine \<Rightarrow> ScriptError + machine" where
  "exec_unary opcode fRequireMinimal m =
     (case stack m of
        x # s \<Rightarrow> (case stack_num x fRequireMinimal nDefaultMaxNumSize of
          Inl e \<Rightarrow> Inl e | Inr bn \<Rightarrow> set_stack (scriptnum_serialize (unary_value opcode bn) # s) m)
      | [] \<Rightarrow> Inl SCRIPT_ERR_INVALID_STACK_OPERATION)"

definition binary_value :: "opcodetype \<Rightarrow> int \<Rightarrow> int \<Rightarrow> int" where
  "binary_value opcode bn1 bn2 =
     (if opcode = OP_ADD then bn1 + bn2
      else if opcode = OP_SUB then bn1 - bn2
      else if opcode = OP_BOOLAND then of_bool (bn1 \<noteq> 0 \<and> bn2 \<noteq> 0)
      else if opcode = OP_BOOLOR then of_bool (bn1 \<noteq> 0 \<or> bn2 \<noteq> 0)
      else if opcode = OP_NUMEQUAL \<or> opcode = OP_NUMEQUALVERIFY then of_bool (bn1 = bn2)
      else if opcode = OP_NUMNOTEQUAL then of_bool (bn1 \<noteq> bn2)
      else if opcode = OP_LESSTHAN then of_bool (bn1 < bn2)
      else if opcode = OP_GREATERTHAN then of_bool (bn1 > bn2)
      else if opcode = OP_LESSTHANOREQUAL then of_bool (bn1 \<le> bn2)
      else if opcode = OP_GREATERTHANOREQUAL then of_bool (bn1 \<ge> bn2)
      else if opcode = OP_MIN then (if bn1 < bn2 then bn1 else bn2)
      else (if bn1 > bn2 then bn1 else bn2))"

definition exec_binary :: "opcodetype \<Rightarrow> bool \<Rightarrow> machine \<Rightarrow> ScriptError + machine" where
  "exec_binary opcode fRequireMinimal m =
     (case stack m of
        x2 # x1 # s \<Rightarrow> (case stack_num x1 fRequireMinimal nDefaultMaxNumSize of
          Inl e \<Rightarrow> Inl e
        | Inr bn1 \<Rightarrow> (case stack_num x2 fRequireMinimal nDefaultMaxNumSize of
            Inl e \<Rightarrow> Inl e
          | Inr bn2 \<Rightarrow>
              let vch = scriptnum_serialize (binary_value opcode bn1 bn2) in
              if opcode = OP_NUMEQUALVERIFY
              then if CastToBool vch then set_stack s m else Inl SCRIPT_ERR_NUMEQUALVERIFY
              else set_stack (vch # s) m))
      | _ \<Rightarrow> Inl SCRIPT_ERR_INVALID_STACK_OPERATION)"

definition exec_within :: "bool \<Rightarrow> machine \<Rightarrow> ScriptError + machine" where
  "exec_within fRequireMinimal m =
     (case stack m of
        x3 # x2 # x1 # s \<Rightarrow> (case stack_num x1 fRequireMinimal nDefaultMaxNumSize of
          Inl e \<Rightarrow> Inl e
        | Inr bn1 \<Rightarrow> (case stack_num x2 fRequireMinimal nDefaultMaxNumSize of
            Inl e \<Rightarrow> Inl e
          | Inr bn2 \<Rightarrow> (case stack_num x3 fRequireMinimal nDefaultMaxNumSize of
              Inl e \<Rightarrow> Inl e
            | Inr bn3 \<Rightarrow> set_stack (of_bool_vch (bn2 \<le> bn1 \<and> bn1 < bn3) # s) m)))
      | _ \<Rightarrow> Inl SCRIPT_ERR_INVALID_STACK_OPERATION)"

subsection \<open>Hashes and signatures\<close>

definition hash_value :: "opcodetype \<Rightarrow> bytes \<Rightarrow> bytes" where
  "hash_value opcode vch =
     (if opcode = OP_RIPEMD160 then RIPEMD160 vch
      else if opcode = OP_SHA1 then snd (CSHA1_Finalize (CSHA1_Write (CSHA1 (replicate 64 0)) vch))
      else if opcode = OP_SHA256 then SHA256 vch
      else if opcode = OP_HASH160 then Hash160 vch
      else Hash [vch])"

definition exec_hash :: "opcodetype \<Rightarrow> machine \<Rightarrow> ScriptError + machine" where
  "exec_hash opcode m =
     (case stack m of
        vch # s \<Rightarrow> set_stack (hash_value opcode vch # s) m
      | [] \<Rightarrow> Inl SCRIPT_ERR_INVALID_STACK_OPERATION)"

text \<open>The checks of a signature and a key before the signature itself is checked.\<close>

definition check_encodings :: "SignatureChecker \<Rightarrow> u32 \<Rightarrow> valtype \<Rightarrow> valtype \<Rightarrow> ScriptError" where
  "check_encodings checker flags vchSig vchPubKey =
     (let err = CheckSignatureEncoding (chk_CheckLowS checker) vchSig flags
      in if err \<noteq> SCRIPT_ERR_OK then err else CheckPubKeyEncoding vchPubKey flags)"

text \<open>\<open>CScript(vchSig)\<close> is the script that pushes the signature.\<close>

definition drop_signature :: "CScript \<Rightarrow> valtype \<Rightarrow> CScript" where
  "drop_signature scriptCode vchSig = fst (FindAndDelete scriptCode (push_data [] vchSig))"

definition exec_CHECKSIG :: "u32 \<Rightarrow> SignatureChecker \<Rightarrow> opcodetype \<Rightarrow> machine \<Rightarrow> ScriptError + machine" where
  "exec_CHECKSIG flags checker opcode m =
     (case stack m of
        vchPubKey # vchSig # s \<Rightarrow>
          let scriptCode = drop_signature (pbegincodehash m) vchSig;
              err = check_encodings checker flags vchSig vchPubKey in
          if err \<noteq> SCRIPT_ERR_OK then Inl err
          else let fSuccess = chk_CheckSig checker vchSig vchPubKey scriptCode in
            if opcode = OP_CHECKSIGVERIFY
            then if fSuccess then set_stack s m else Inl SCRIPT_ERR_CHECKSIGVERIFY
            else set_stack (of_bool_vch fSuccess # s) m
      | _ \<Rightarrow> Inl SCRIPT_ERR_INVALID_STACK_OPERATION)"

text \<open>
  The loop over the signatures and the keys: the next key is used up whether or not it made the
  signature, and the loop stops as soon as fewer keys than signatures are left.
\<close>

fun multisig_loop :: "SignatureChecker \<Rightarrow> u32 \<Rightarrow> CScript \<Rightarrow> valtype list \<Rightarrow> valtype list \<Rightarrow> ScriptError + bool" where
  "multisig_loop checker flags scriptCode [] keys = Inr True"
| "multisig_loop checker flags scriptCode (sig # sigs) [] = Inr False"
| "multisig_loop checker flags scriptCode (sig # sigs) (key # keys) =
     (let err = check_encodings checker flags sig key in
      if err \<noteq> SCRIPT_ERR_OK then Inl err
      else let left = (if chk_CheckSig checker sig key scriptCode then sigs else sig # sigs) in
        if length left > length keys then Inr False
        else multisig_loop checker flags scriptCode left keys)"

definition exec_CHECKMULTISIG :: "u32 \<Rightarrow> SignatureChecker \<Rightarrow> opcodetype \<Rightarrow> machine \<Rightarrow> ScriptError + machine" where
  "exec_CHECKMULTISIG flags checker opcode m =
     (let s = stack m; fRequireMinimal = has_flag flags SCRIPT_VERIFY_MINIMALDATA in
      if length s < 1 then Inl SCRIPT_ERR_INVALID_STACK_OPERATION
      else case stack_num (s ! 0) fRequireMinimal nDefaultMaxNumSize of Inl e \<Rightarrow> Inl e
      | Inr bnKeys \<Rightarrow>
      let nKeysCount = getint bnKeys in
      if nKeysCount < 0 \<or> nKeysCount > int MAX_PUBKEYS_PER_MULTISIG then Inl SCRIPT_ERR_PUBKEY_COUNT
      else let m = m\<lparr>nOpCount := nOpCount m + nKeysCount\<rparr>; nk = nat nKeysCount in
      if nOpCount m > int MAX_OPS_PER_SCRIPT then Inl SCRIPT_ERR_OP_COUNT
      else if length s < 2 + nk then Inl SCRIPT_ERR_INVALID_STACK_OPERATION
      else case stack_num (s ! (1 + nk)) fRequireMinimal nDefaultMaxNumSize of Inl e \<Rightarrow> Inl e
      | Inr bnSigs \<Rightarrow>
      let nSigsCount = getint bnSigs in
      if nSigsCount < 0 \<or> nSigsCount > nKeysCount then Inl SCRIPT_ERR_SIG_COUNT
      else let ns = nat nSigsCount in
      if length s < 3 + nk + ns then Inl SCRIPT_ERR_INVALID_STACK_OPERATION
      else let keys = take nk (drop 1 s); sigs = take ns (drop (2 + nk) s);
               scriptCode = foldl drop_signature (pbegincodehash m) sigs in
      case multisig_loop checker flags scriptCode sigs keys of Inl e \<Rightarrow> Inl e
      | Inr fSuccess \<Rightarrow>
      (case drop (2 + nk + ns) s of
        [] \<Rightarrow> Inl SCRIPT_ERR_INVALID_STACK_OPERATION
      | dummy # s \<Rightarrow>
          if has_flag flags SCRIPT_VERIFY_NULLDUMMY \<and> dummy \<noteq> [] then Inl SCRIPT_ERR_SIG_NULLDUMMY
          else if opcode = OP_CHECKMULTISIGVERIFY
            then if fSuccess then set_stack s m else Inl SCRIPT_ERR_CHECKMULTISIGVERIFY
          else set_stack (of_bool_vch fSuccess # s) m))"

subsection \<open>One instruction\<close>

definition is_disabled :: "opcodetype \<Rightarrow> bool" where
  "is_disabled opcode \<longleftrightarrow> opcode \<in> {OP_CAT, OP_SUBSTR, OP_LEFT, OP_RIGHT, OP_INVERT, OP_AND, OP_OR, OP_XOR,
     OP_2MUL, OP_2DIV, OP_MUL, OP_DIV, OP_MOD, OP_LSHIFT, OP_RSHIFT}"

definition is_claim_op :: "opcodetype \<Rightarrow> bool" where
  "is_claim_op opcode \<longleftrightarrow> opcode \<in> {OP_CLAIM_NAME, OP_SUPPORT_CLAIM, OP_UPDATE_CLAIM, OP_NAME_TRIE, OP_NAME_UPDATE}"

text \<open>The switch; \<open>pc\<close> is the position after the instruction.\<close>

definition exec_op :: "u32 \<Rightarrow> SignatureChecker \<Rightarrow> opcodetype \<Rightarrow> bool \<Rightarrow> bytes \<Rightarrow> machine \<Rightarrow> ScriptError + machine" where
  "exec_op flags checker opcode fExec pc m =
     (let fRequireMinimal = has_flag flags SCRIPT_VERIFY_MINIMALDATA in
      if opcode = OP_1NEGATE \<or> OP_1 \<le> opcode \<and> opcode \<le> OP_16
        then set_stack (scriptnum_serialize (int opcode - (int OP_1 - 1)) # stack m) m
      else if opcode = OP_NOP then Inr m
      else if opcode = OP_CHECKLOCKTIMEVERIFY then exec_CHECKLOCKTIMEVERIFY flags checker m
      else if is_claim_op opcode then set_stack (vchFalse # stack m) m
      else if opcode = OP_CHECKSEQUENCEVERIFY then exec_CHECKSEQUENCEVERIFY flags checker m
      else if opcode = OP_NOP1 \<or> opcode = OP_NOP4 \<or> opcode = OP_NOP5
        then if has_flag flags SCRIPT_VERIFY_DISCOURAGE_UPGRADABLE_NOPS
             then Inl SCRIPT_ERR_DISCOURAGE_UPGRADABLE_NOPS else Inr m
      else if OP_IF \<le> opcode \<and> opcode \<le> OP_RETURN then exec_control opcode fExec m
      else if opcode = OP_TOALTSTACK \<or> opcode = OP_FROMALTSTACK then exec_altstack opcode m
      else if is_move_op opcode then exec_move opcode m
      else if opcode = OP_PICK \<or> opcode = OP_ROLL then exec_pick opcode fRequireMinimal m
      else if opcode = OP_EQUAL \<or> opcode = OP_EQUALVERIFY then exec_equal opcode m
      else if opcode \<in> {OP_1ADD, OP_1SUB, OP_NEGATE, OP_ABS, OP_NOT, OP_0NOTEQUAL}
        then exec_unary opcode fRequireMinimal m
      else if opcode \<in> {OP_ADD, OP_SUB} \<or> OP_BOOLAND \<le> opcode \<and> opcode \<le> OP_MAX
        then exec_binary opcode fRequireMinimal m
      else if opcode = OP_WITHIN then exec_within fRequireMinimal m
      else if OP_RIPEMD160 \<le> opcode \<and> opcode \<le> OP_HASH256 then exec_hash opcode m
      else if opcode = OP_CODESEPARATOR then Inr (m\<lparr>pbegincodehash := pc\<rparr>)
      else if opcode = OP_CHECKSIG \<or> opcode = OP_CHECKSIGVERIFY then exec_CHECKSIG flags checker opcode m
      else if opcode = OP_CHECKMULTISIG \<or> opcode = OP_CHECKMULTISIGVERIFY
        then exec_CHECKMULTISIG flags checker opcode m
      else Inl SCRIPT_ERR_BAD_OPCODE)"

definition exec_instruction :: "u32 \<Rightarrow> SignatureChecker \<Rightarrow> opcodetype \<Rightarrow> valtype \<Rightarrow> bytes \<Rightarrow> machine \<Rightarrow>
    ScriptError + machine" where
  "exec_instruction flags checker opcode vchPushValue pc m =
     (let fExec = (False \<notin> set (vfExec m)) in
      if length vchPushValue > MAX_SCRIPT_ELEMENT_SIZE then Inl SCRIPT_ERR_PUSH_SIZE
      else let m = (if opcode > OP_16 then m\<lparr>nOpCount := nOpCount m + 1\<rparr> else m) in
      if opcode > OP_16 \<and> nOpCount m > int MAX_OPS_PER_SCRIPT then Inl SCRIPT_ERR_OP_COUNT
      else if is_disabled opcode then Inl SCRIPT_ERR_DISABLED_OPCODE
      else if fExec \<and> opcode \<le> OP_PUSHDATA4
        then if has_flag flags SCRIPT_VERIFY_MINIMALDATA \<and> \<not> CheckMinimalPush vchPushValue opcode
             then Inl SCRIPT_ERR_MINIMALDATA else set_stack (vchPushValue # stack m) m
      else if fExec \<or> OP_IF \<le> opcode \<and> opcode \<le> OP_ENDIF then exec_op flags checker opcode fExec pc m
      else Inr m)"

function eval_loop :: "u32 \<Rightarrow> SignatureChecker \<Rightarrow> bytes \<Rightarrow> machine \<Rightarrow> ScriptError + machine" where
  "eval_loop flags checker pc m =
     (if pc = [] then Inr m
      else case GetOp pc of (r, opcode, vchPushValue, pc) \<Rightarrow>
        if \<not> r then Inl SCRIPT_ERR_BAD_OPCODE
        else (case exec_instruction flags checker opcode vchPushValue pc m of
            Inl e \<Rightarrow> Inl e
          | Inr m \<Rightarrow> if length (stack m) + length (altstack m) > 1000 then Inl SCRIPT_ERR_STACK_SIZE
                     else eval_loop flags checker pc m))"
  by pat_completeness auto
termination
  by (relation "measure (\<lambda>(_, _, pc, _). length pc)") (auto dest: GetOp_shorter [OF sym])

declare eval_loop.simps [simp del]

text \<open>\<open>Inr\<close> is \<open>SCRIPT_ERR_OK\<close> with the stack that is left.\<close>

definition EvalScript :: "valtype list \<Rightarrow> CScript \<Rightarrow> u32 \<Rightarrow> SignatureChecker \<Rightarrow> ScriptError + valtype list" where
  "EvalScript stk script flags checker =
     (if length script > 10000 then Inl SCRIPT_ERR_SCRIPT_SIZE
      else case eval_loop flags checker script
          \<lparr>stack = stk, altstack = [], vfExec = [], nOpCount = 0, pbegincodehash = script\<rparr> of
        Inl e \<Rightarrow> Inl e
      | Inr m \<Rightarrow> if vfExec m \<noteq> [] then Inl SCRIPT_ERR_UNBALANCED_CONDITIONAL else Inr (stack m))"

subsection \<open>Signature hashes\<close>

function code_separators :: "bytes \<Rightarrow> nat" where
  "code_separators it =
     (case GetOp it of (r, opcode, data, it') \<Rightarrow>
       if \<not> r then 0 else (if opcode = OP_CODESEPARATOR then 1 else 0) + code_separators it')"
  by pat_completeness auto
termination
proof (relation "measure length")
  show "(it', it) \<in> measure length" if "(r, x) = GetOp it" "(opcode, y) = x" "(data, it') = y" "\<not> \<not> r"
    for it r x opcode y data and it' :: bytes
    using that GetOp_shorter [of it r opcode data it'] by (cases "it = []") auto
qed simp

text \<open>The bytes between the separators; the last piece ends where parsing stopped.\<close>

function script_code_loop :: "bytes \<Rightarrow> bytes \<Rightarrow> bytes" where
  "script_code_loop itBegin it =
     (case GetOp it of (r, opcode, data, it') \<Rightarrow>
       if \<not> r then (if itBegin \<noteq> [] then take (length itBegin - length it') itBegin else [])
       else if opcode = OP_CODESEPARATOR
         then take (length itBegin - length it' - 1) itBegin @ script_code_loop it' it'
       else script_code_loop itBegin it')"
  by pat_completeness auto
termination
proof (relation "measure (\<lambda>(_, it). length it)", goal_cases)
  case (2 itBegin it r x opcode y data it')
  then show ?case using GetOp_shorter [of it r opcode data it'] by (cases "it = []") auto
next
  case (3 itBegin it r x opcode y data it')
  then show ?case using GetOp_shorter [of it r opcode data it'] by (cases "it = []") auto
qed simp

declare code_separators.simps [simp del] script_code_loop.simps [simp del]

definition SerializeScriptCode :: "CScript \<Rightarrow> bytes" where
  "SerializeScriptCode scriptCode =
     WriteCompactSize (length scriptCode - code_separators scriptCode) @ script_code_loop scriptCode scriptCode"

definition fAnyoneCanPay :: "nat \<Rightarrow> bool" where
  "fAnyoneCanPay nHashType \<longleftrightarrow> nHashType AND SIGHASH_ANYONECANPAY \<noteq> 0"
definition fHashSingle :: "nat \<Rightarrow> bool" where
  "fHashSingle nHashType \<longleftrightarrow> nHashType AND 0x1f = SIGHASH_SINGLE"
definition fHashNone :: "nat \<Rightarrow> bool" where
  "fHashNone nHashType \<longleftrightarrow> nHashType AND 0x1f = SIGHASH_NONE"

definition SerializeInput :: "CTransaction \<Rightarrow> CScript \<Rightarrow> nat \<Rightarrow> nat \<Rightarrow> nat \<Rightarrow> bytes" where
  "SerializeInput txTo scriptCode nIn nHashType nInput =
     (let nInput = (if fAnyoneCanPay nHashType then nIn else nInput); i = vin txTo ! nInput
      in Serialize_COutPoint (prevout i) @
         (if nInput \<noteq> nIn then Serialize_bytes [] else SerializeScriptCode scriptCode) @
         (if nInput \<noteq> nIn \<and> (fHashSingle nHashType \<or> fHashNone nHashType) then Serialize_u32 0
          else Serialize_u32 (nSequence i)))"

definition SerializeOutput :: "CTransaction \<Rightarrow> nat \<Rightarrow> nat \<Rightarrow> nat \<Rightarrow> bytes" where
  "SerializeOutput txTo nIn nHashType nOutput =
     (if fHashSingle nHashType \<and> nOutput \<noteq> nIn then Serialize_CTxOut CTxOut_SetNull
      else Serialize_CTxOut (vout txTo ! nOutput))"

definition SerializeForSignature :: "CTransaction \<Rightarrow> CScript \<Rightarrow> nat \<Rightarrow> nat \<Rightarrow> bytes" where
  "SerializeForSignature txTo scriptCode nIn nHashType =
     (let nInputs = (if fAnyoneCanPay nHashType then 1 else length (vin txTo));
          nOutputs = (if fHashNone nHashType then 0 else if fHashSingle nHashType then nIn + 1 else length (vout txTo))
      in Serialize_u32 (tx_nVersion txTo) @ WriteCompactSize nInputs @
         concat (map (SerializeInput txTo scriptCode nIn nHashType) [0..<nInputs]) @ WriteCompactSize nOutputs @
         concat (map (SerializeOutput txTo nIn nHashType) [0..<nOutputs]) @ Serialize_u32 (nLockTime txTo))"

definition uint256_one :: uint256 where
  "uint256_one = uint256S ''0000000000000000000000000000000000000000000000000000000000000001''"

definition SignatureHash :: "CScript \<Rightarrow> CTransaction \<Rightarrow> nat \<Rightarrow> nat \<Rightarrow> uint256" where
  "SignatureHash scriptCode txTo nIn nHashType =
     (if nIn \<ge> length (vin txTo) then uint256_one
      else if fHashSingle nHashType \<and> nIn \<ge> length (vout txTo) then uint256_one
      else SerializeHash (SerializeForSignature txTo scriptCode nIn nHashType @ Serialize_u32 (of_nat nHashType)))"

subsection \<open>The signature checker of a transaction\<close>

text \<open>\<open>verify\<close> is \<open>CPubKey::Verify\<close>.\<close>

definition tx_CheckSig :: "(bytes \<Rightarrow> uint256 \<Rightarrow> bytes \<Rightarrow> bool) \<Rightarrow> CTransaction \<Rightarrow> nat \<Rightarrow>
    valtype \<Rightarrow> valtype \<Rightarrow> CScript \<Rightarrow> bool" where
  "tx_CheckSig verify txTo nIn vchSigIn vchPubKey scriptCode \<longleftrightarrow>
     (let pubkey = CPubKey_Set vchPubKey in
      if \<not> CPubKey_IsValid pubkey then False
      else if vchSigIn = [] then False
      else let nHashType = unat (last vchSigIn); vchSig = butlast vchSigIn;
               sighash = SignatureHash scriptCode txTo nIn nHashType
        in verify pubkey sighash vchSig)"

definition tx_CheckLockTime :: "CTransaction \<Rightarrow> nat \<Rightarrow> int \<Rightarrow> bool" where
  "tx_CheckLockTime txTo nIn lockTime \<longleftrightarrow>
     (let txLock = uint (nLockTime txTo) in
      if \<not> (txLock < int LOCKTIME_THRESHOLD \<and> lockTime < int LOCKTIME_THRESHOLD \<or>
             txLock \<ge> int LOCKTIME_THRESHOLD \<and> lockTime \<ge> int LOCKTIME_THRESHOLD) then False
      else if lockTime > txLock then False
      else if SEQUENCE_FINAL = nSequence (vin txTo ! nIn) then False
      else True)"

definition tx_CheckSequence :: "CTransaction \<Rightarrow> nat \<Rightarrow> int \<Rightarrow> bool" where
  "tx_CheckSequence txTo nIn seq \<longleftrightarrow>
     (let txToSequence = uint (nSequence (vin txTo ! nIn)) in
      if tx_nVersion txTo < 2 then False
      else if txToSequence AND uint SEQUENCE_LOCKTIME_DISABLE_FLAG \<noteq> 0 then False
      else let nLockTimeMask = uint (SEQUENCE_LOCKTIME_TYPE_FLAG OR SEQUENCE_LOCKTIME_MASK);
               txToSequenceMasked = txToSequence AND nLockTimeMask; nSequenceMasked = seq AND nLockTimeMask;
               typ = uint SEQUENCE_LOCKTIME_TYPE_FLAG in
        if \<not> (txToSequenceMasked < typ \<and> nSequenceMasked < typ \<or> txToSequenceMasked \<ge> typ \<and> nSequenceMasked \<ge> typ)
        then False
        else if nSequenceMasked > txToSequenceMasked then False
        else True)"

subsection \<open>Verifying a spend\<close>

text \<open>The stack of a successful evaluation must end in a true value.\<close>

definition eval_true :: "ScriptError + valtype list \<Rightarrow> ScriptError + valtype list" where
  "eval_true r = (case r of
      Inl e \<Rightarrow> Inl e
    | Inr [] \<Rightarrow> Inl SCRIPT_ERR_EVAL_FALSE
    | Inr (v # s) \<Rightarrow> if \<not> CastToBool v then Inl SCRIPT_ERR_EVAL_FALSE else Inr (v # s))"

text \<open>\<open>None\<close> is a failed assertion.\<close>

definition VerifyScript :: "CScript \<Rightarrow> CScript \<Rightarrow> u32 \<Rightarrow> SignatureChecker \<Rightarrow> ScriptError option" where
  "VerifyScript sigScript spk flags checker =
     (if has_flag flags SCRIPT_VERIFY_SIGPUSHONLY \<and> \<not> IsPushOnly sigScript then Some SCRIPT_ERR_SIG_PUSHONLY
      else case EvalScript [] sigScript flags checker of Inl e \<Rightarrow> Some e
      | Inr stackCopy \<Rightarrow>
      (case eval_true (EvalScript stackCopy spk flags checker) of Inl e \<Rightarrow> Some e
      | Inr stk \<Rightarrow>
      let cleanstack = (\<lambda>stk. if has_flag flags SCRIPT_VERIFY_CLEANSTACK
            then if \<not> has_flag flags SCRIPT_VERIFY_P2SH then None
                 else if length stk \<noteq> 1 then Some SCRIPT_ERR_CLEANSTACK else Some SCRIPT_ERR_OK
            else Some SCRIPT_ERR_OK) in
      if has_flag flags SCRIPT_VERIFY_P2SH \<and> IsPayToScriptHash spk
      then if \<not> IsPushOnly sigScript then Some SCRIPT_ERR_SIG_PUSHONLY
        else (case stackCopy of [] \<Rightarrow> None
          | pubKey2 # s \<Rightarrow>
              (case eval_true (EvalScript s pubKey2 flags checker) of Inl e \<Rightarrow> Some e | Inr stk \<Rightarrow> cleanstack stk))
      else cleanstack stk))"

subsection \<open>Sizes of the values\<close>

lemma abs_bytes_length: "n < 256 ^ k \<Longrightarrow> length (abs_bytes n) \<le> k"
proof (induction k arbitrary: n)
  case (Suc k)
  have "n div 256 < 256 ^ k" using Suc.prems by (simp add: less_mult_imp_div_less mult.commute)
  then show ?case using Suc.IH by (subst abs_bytes.simps) simp
qed (simp add: abs_bytes.simps)

lemma scriptnum_serialize_length: "\<bar>v\<bar> < 256 ^ k \<Longrightarrow> length (scriptnum_serialize v) \<le> Suc k"
proof -
  assume v: "\<bar>v\<bar> < 256 ^ k"
  have "nat (if v < 0 then - v else v) < 256 ^ k" using v by (auto simp: nat_less_iff)
  then have "length (abs_bytes (nat (if v < 0 then - v else v))) \<le> k" by (rule abs_bytes_length)
  then show ?thesis
    unfolding scriptnum_serialize_def Let_def by (cases "v < 0") (auto simp del: last_conv_nth)
qed

lemma set_vch_less: "\<bar>set_vch xs\<bar> < 256 ^ length xs"
proof (cases xs rule: rev_cases)
  case (snoc ys y)
  have a: "le_value xs < 256 ^ length xs" by (rule le_value_less)
  have "le_value ys + 256 ^ length ys * (unat y - 128) \<le> le_value xs"
    unfolding snoc le_value_snoc by simp
  then have "le_value ys + 256 ^ length ys * (unat y - 128) < 256 ^ length xs" using a by simp
  then have "int (le_value ys + 256 ^ length ys * (unat y - 128)) < 256 ^ length xs"
    by (metis of_nat_less_iff of_nat_power of_nat_numeral)
  moreover have "int (le_value xs) < 256 ^ length xs" using a
    by (metis of_nat_less_iff of_nat_power of_nat_numeral)
  ultimately show ?thesis unfolding snoc set_vch_snoc
    by (auto simp del: of_nat_add of_nat_mult)
qed (simp add: set_vch_def)

lemma stack_num_less:
  assumes "stack_num vch fmin k = Inr n"
  shows "\<bar>n\<bar> < 256 ^ k"
proof -
  have "length vch \<le> k" "n = set_vch vch"
    using assms by (auto simp: stack_num_def CScriptNum_def split: sum.splits if_splits)
  moreover have "(256 :: int) ^ length vch \<le> 256 ^ k" using calculation(1) by (intro power_increasing) auto
  ultimately show ?thesis using set_vch_less [of vch] order_less_le_trans by blast
qed

lemma length_ripemd160_ref [simp]: "length (ripemd160_ref m) = 20"
  using length_fold_keeps [of 5 ripemd_Transform ripemd_Initialize] length_ripemd_Transform
  by (simp add: ripemd160_ref_def length_concat comp_def sum_list_triv ripemd_Initialize_def htole32_def)

lemma length_sha1_ref [simp]: "length (sha1_ref m) = 20"
  using length_fold_keeps [of 5 sha1_Transform sha1_Initialize] length_sha1_Transform
  by (simp add: sha1_ref_def length_concat comp_def sum_list_triv sha1_Initialize_def)

lemma RIPEMD160_ref: "RIPEMD160 m = ripemd160_ref m"
  using ripemd160_streams [of "replicate 64 0" "[m]"] by (simp add: RIPEMD160_def)

lemma SHA1_ref: "snd (CSHA1_Finalize (CSHA1_Write (CSHA1 (replicate 64 0)) m)) = sha1_ref m"
  using sha1_streams [of "replicate 64 0" "[m]"] by simp

lemma Hash160_ref: "Hash160 m = ripemd160_ref (sha256_ref m)"
  using sha256_streams [of "replicate 64 0" "[m]"] by (simp add: Hash160_def CHash160_Finalize_def RIPEMD160_ref)

lemma hash_value_length: "length (hash_value opcode v) \<le> 32"
  unfolding hash_value_def by (simp add: RIPEMD160_ref SHA1_ref SHA256_ref Hash160_ref hash256_streams)

subsection \<open>The limits of the machine\<close>

definition small_stack :: "valtype list \<Rightarrow> bool" where
  "small_stack s \<longleftrightarrow> (\<forall>x \<in> set s. length x \<le> MAX_SCRIPT_ELEMENT_SIZE)"

definition machine_ok :: "machine \<Rightarrow> bool" where
  "machine_ok m \<longleftrightarrow> small_stack (stack m) \<and> small_stack (altstack m) \<and>
     length (stack m) + length (altstack m) \<le> 1000 \<and> nOpCount m \<le> int MAX_OPS_PER_SCRIPT"

text \<open>What one operation keeps, before the size of the stacks is checked.\<close>

definition op_ok :: "machine \<Rightarrow> bool" where
  "op_ok m \<longleftrightarrow> small_stack (stack m) \<and> small_stack (altstack m) \<and> nOpCount m \<le> int MAX_OPS_PER_SCRIPT"

lemma small_stack_simps [simp]:
  "small_stack []" "small_stack (x # s) \<longleftrightarrow> length x \<le> 520 \<and> small_stack s"
  "small_stack (s @ t) \<longleftrightarrow> small_stack s \<and> small_stack t"
  by (auto simp: small_stack_def MAX_SCRIPT_ELEMENT_SIZE_def)

lemma small_stack_subset: "small_stack s \<Longrightarrow> set t \<subseteq> set s \<Longrightarrow> small_stack t"
  by (auto simp: small_stack_def)

lemma small_stack_drop: "small_stack s \<Longrightarrow> small_stack (drop n s)"
  by (rule small_stack_subset) (auto dest: in_set_dropD)

lemma of_bool_vch_length [simp]: "length (of_bool_vch b) \<le> 520"
  by (simp add: of_bool_vch_def vchTrue_def vchFalse_def)

lemma set_stack_ok [simp]: "set_stack s m = Inr m' \<longleftrightarrow> m' = m\<lparr>stack := s\<rparr>"
  by (auto simp: set_stack_def)

lemma op_ok_stack [simp]: "op_ok (m\<lparr>stack := s\<rparr>) \<longleftrightarrow> small_stack s \<and> small_stack (altstack m) \<and> nOpCount m \<le> int MAX_OPS_PER_SCRIPT"
  by (simp add: op_ok_def)

lemma op_okD: "op_ok m \<Longrightarrow> small_stack (stack m) \<and> small_stack (altstack m) \<and> nOpCount m \<le> int MAX_OPS_PER_SCRIPT"
  by (simp add: op_ok_def)

lemma number_520: "\<bar>v\<bar> < 256 ^ 5 \<Longrightarrow> length (scriptnum_serialize v) \<le> 520"
  using scriptnum_serialize_length [of v 5] by simp

lemma exec_CHECKLOCKTIMEVERIFY_same: "exec_CHECKLOCKTIMEVERIFY flags checker m = Inr m' \<Longrightarrow> m' = m"
  by (auto simp: exec_CHECKLOCKTIMEVERIFY_def split: if_splits list.splits sum.splits)

lemma exec_CHECKSEQUENCEVERIFY_same: "exec_CHECKSEQUENCEVERIFY flags checker m = Inr m' \<Longrightarrow> m' = m"
  by (auto simp: exec_CHECKSEQUENCEVERIFY_def split: if_splits list.splits sum.splits)

lemma exec_control_ok: "exec_control opcode fExec m = Inr m' \<Longrightarrow> op_ok m \<Longrightarrow> op_ok m'"
  by (auto simp: exec_control_def op_ok_def split: if_splits list.splits)

lemma exec_altstack_ok: "exec_altstack opcode m = Inr m' \<Longrightarrow> op_ok m \<Longrightarrow> op_ok m'"
  by (auto simp: exec_altstack_def op_ok_def split: if_splits list.splits)

lemma move_op_ok:
  assumes "move_op opcode s = Some t" "small_stack s" "length s \<le> 1000"
  shows "small_stack t"
proof -
  have n: "length (scriptnum_serialize (int k)) \<le> 520" if "k \<le> 1000" for k
    using that by (intro number_520) simp
  have m: "\<forall>x \<in> set s. length (scriptnum_serialize (int (length x))) \<le> 520"
    using assms(2) n by (auto simp: small_stack_def MAX_SCRIPT_ELEMENT_SIZE_def)
  show ?thesis
    using assms n [OF assms(3)] m unfolding move_op_def
    by (auto split: if_splits list.splits)
qed

lemma exec_move_ok:
  "exec_move opcode m = Inr m' \<Longrightarrow> op_ok m \<Longrightarrow> length (stack m) \<le> 1000 \<Longrightarrow> op_ok m'"
  by (auto simp: exec_move_def dest: op_okD move_op_ok split: option.splits)

lemma exec_pick_ok:
  assumes "exec_pick opcode fmin m = Inr m'" "op_ok m"
  shows "op_ok m'"
proof -
  note d = op_okD [OF assms(2)]
  from assms(1) obtain x y ys k where s: "stack m = x # y # ys" and k: "0 \<le> k" "k < int (length (y # ys))"
    and m'': "m' = m\<lparr>stack := (y # ys) ! nat k # (if opcode = OP_ROLL then take (nat k) (y # ys) @ drop (nat k + 1) (y # ys) else y # ys)\<rparr>"
    by (fastforce simp: exec_pick_def Let_def split: list.splits sum.splits if_splits)
  define n where "n = nat k"
  have n: "n < length (y # ys)" using k by (simp add: n_def)
  have m': "m' = m\<lparr>stack := (y # ys) ! n # (if opcode = OP_ROLL then take n (y # ys) @ drop (n + 1) (y # ys) else y # ys)\<rparr>"
    unfolding n_def by (rule m'')
  have sub: "set ((y # ys) ! n # (if opcode = OP_ROLL then take n (y # ys) @ drop (n + 1) (y # ys) else y # ys)) \<subseteq> set (stack m)"
    using n nth_mem [OF n] unfolding s by (auto dest: in_set_takeD in_set_dropD)
  show ?thesis unfolding m' op_ok_stack using d small_stack_subset [OF _ sub] by blast
qed

lemma exec_equal_ok: "exec_equal opcode m = Inr m' \<Longrightarrow> op_ok m \<Longrightarrow> op_ok m'"
  by (auto simp: exec_equal_def Let_def dest: op_okD split: list.splits if_splits)

lemma unary_value_less: "\<bar>n\<bar> < 256 ^ 4 \<Longrightarrow> \<bar>unary_value opcode n\<bar> < 256 ^ 5"
  by (auto simp: unary_value_def)

lemma binary_value_cases: "binary_value opcode a b \<in> {a + b, a - b, 0, 1, a, b}"
  unfolding binary_value_def of_bool_def by simp

lemma binary_value_less: "\<bar>a\<bar> < 256 ^ 4 \<Longrightarrow> \<bar>b\<bar> < 256 ^ 4 \<Longrightarrow> \<bar>binary_value opcode a b\<bar> < 256 ^ 5"
  using binary_value_cases [of opcode a b] by auto

lemma nDefault_less: "stack_num x fmin nDefaultMaxNumSize = Inr n \<Longrightarrow> \<bar>n\<bar> < 256 ^ 4"
  using stack_num_less [of x fmin nDefaultMaxNumSize n] by (simp add: nDefaultMaxNumSize_def)

lemma exec_unary_ok: "exec_unary opcode fmin m = Inr m' \<Longrightarrow> op_ok m \<Longrightarrow> op_ok m'"
  by (auto simp: exec_unary_def dest: op_okD intro!: number_520 unary_value_less nDefault_less split: list.splits sum.splits)

lemma exec_binary_ok: "exec_binary opcode fmin m = Inr m' \<Longrightarrow> op_ok m \<Longrightarrow> op_ok m'"
  by (auto simp: exec_binary_def Let_def dest: op_okD intro!: number_520 binary_value_less nDefault_less
      split: list.splits sum.splits if_splits)

lemma exec_within_ok: "exec_within fmin m = Inr m' \<Longrightarrow> op_ok m \<Longrightarrow> op_ok m'"
  by (auto simp: exec_within_def dest: op_okD split: list.splits sum.splits)

lemma exec_hash_ok: "exec_hash opcode m = Inr m' \<Longrightarrow> op_ok m \<Longrightarrow> op_ok m'"
  by (auto simp: exec_hash_def dest: op_okD intro: order_trans [OF hash_value_length] split: list.splits)

lemma exec_CHECKSIG_ok: "exec_CHECKSIG flags checker opcode m = Inr m' \<Longrightarrow> op_ok m \<Longrightarrow> op_ok m'"
  by (auto simp: exec_CHECKSIG_def Let_def dest: op_okD split: list.splits if_splits)

lemma small_stack_dropD: "drop k s = x # t \<Longrightarrow> small_stack s \<Longrightarrow> small_stack t"
  using small_stack_drop [of s k] by simp

lemma exec_CHECKMULTISIG_ok: "exec_CHECKMULTISIG flags checker opcode m = Inr m' \<Longrightarrow> op_ok m \<Longrightarrow> op_ok m'"
  unfolding exec_CHECKMULTISIG_def Let_def
  by (drule op_okD) (auto simp: op_ok_def not_less dest: small_stack_dropD split: list.splits sum.splits if_splits)

lemma if_InrE:
  assumes "(if c then a else b) = Inr m" "c \<Longrightarrow> a = Inr m \<Longrightarrow> P" "\<not> c \<Longrightarrow> b = Inr m \<Longrightarrow> P"
  shows P
  using assms by (cases c) auto

lemma exec_op_ok:
  assumes "exec_op flags checker opcode fExec pc m = Inr m'" "op_ok m" "length (stack m) \<le> 1000"
  shows "op_ok m'"
proof -
  have n: "op_ok (m\<lparr>stack := scriptnum_serialize (int opcode - (int OP_1 - 1)) # stack m\<rparr>)"
    if "opcode = OP_1NEGATE \<or> OP_1 \<le> opcode \<and> opcode \<le> OP_16"
  proof -
    have "\<bar>int opcode - (int OP_1 - 1)\<bar> < 256 ^ 5" using that by auto
    then show ?thesis using op_okD [OF assms(2)] number_520 by simp
  qed
  have v: "op_ok (m\<lparr>stack := vchFalse # stack m\<rparr>)" "op_ok (m\<lparr>pbegincodehash := pc\<rparr>)"
    using op_okD [OF assms(2)] by (simp_all add: vchFalse_def op_ok_def)
  note ok = exec_control_ok exec_altstack_ok
    exec_move_ok exec_pick_ok exec_equal_ok exec_unary_ok exec_binary_ok exec_within_ok exec_hash_ok
    exec_CHECKSIG_ok exec_CHECKMULTISIG_ok
  show ?thesis
    using assms unfolding exec_op_def Let_def
    apply (elim if_InrE)
    subgoal using n by simp
    subgoal by simp
    subgoal using exec_CHECKLOCKTIMEVERIFY_same by blast
    subgoal using v by simp
    subgoal using exec_CHECKSEQUENCEVERIFY_same by blast
    by (((erule ok; assumption) | clarsimp simp add: v)+)
qed

lemma exec_instruction_ok:
  assumes "exec_instruction flags checker opcode vch pc m = Inr m'" "machine_ok m"
  shows "op_ok m'"
proof -
  have ok: "op_ok (m\<lparr>nOpCount := nOpCount m + 1\<rparr>)" if "nOpCount m + 1 \<le> int MAX_OPS_PER_SCRIPT"
    using assms(2) that by (simp add: machine_ok_def op_ok_def)
  have m: "op_ok m" "length (stack m) \<le> 1000" using assms(2) by (auto simp: machine_ok_def op_ok_def)
  define m1 where "m1 = (if opcode > OP_16 then m\<lparr>nOpCount := nOpCount m + 1\<rparr> else m)"
  have "length vch \<le> MAX_SCRIPT_ELEMENT_SIZE \<and> \<not> (opcode > OP_16 \<and> nOpCount m1 > int MAX_OPS_PER_SCRIPT)"
    using assms(1) by (auto simp: exec_instruction_def Let_def m1_def split: if_splits)
  then have m1: "op_ok m1" "length vch \<le> 520" "stack m1 = stack m"
    using ok m by (auto simp: m1_def MAX_SCRIPT_ELEMENT_SIZE_def)
  then have push: "op_ok (m1\<lparr>stack := vch # stack m1\<rparr>)" using m by (auto dest: op_okD)
  have "m' = m1 \<or> m' = m1\<lparr>stack := vch # stack m1\<rparr> \<or>
      exec_op flags checker opcode (False \<notin> set (vfExec m)) pc m1 = Inr m'"
    using assms(1) unfolding exec_instruction_def Let_def m1_def [symmetric] set_stack_def
    by (elim if_InrE) auto
  then show ?thesis using m1 m push exec_op_ok by auto
qed

theorem eval_loop_ok: "eval_loop flags checker pc m = Inr m' \<Longrightarrow> machine_ok m \<Longrightarrow> machine_ok m'"
proof (induction flags checker pc m rule: eval_loop.induct)
  case (1 flags checker pc m)
  show ?case
  proof (cases "pc = []")
    case False
    obtain r opcode vch pc' where g: "GetOp pc = (r, opcode, vch, pc')" by (rule prod_cases4)
    from 1(2) obtain m1 where r: "r" and e: "exec_instruction flags checker opcode vch pc' m = Inr m1"
      and le: "\<not> length (stack m1) + length (altstack m1) > 1000"
      and rest: "eval_loop flags checker pc' m1 = Inr m'"
      using False g by (subst (asm) eval_loop.simps) (auto split: if_splits sum.splits)
    have "machine_ok m1" using exec_instruction_ok [OF e 1(3)] le by (simp add: machine_ok_def op_ok_def)
    with rest show ?thesis using 1(1) [OF False g [symmetric] refl refl _ e] r le by auto
  qed (use 1 in \<open>simp add: eval_loop.simps\<close>)
qed

lemma EvalScript_stack_ok:
  assumes "EvalScript stk script flags checker = Inr stk'" "small_stack stk" "length stk \<le> 1000"
  shows "small_stack stk' \<and> length stk' \<le> 1000"
proof -
  obtain m where "eval_loop flags checker script
      \<lparr>stack = stk, altstack = [], vfExec = [], nOpCount = 0, pbegincodehash = script\<rparr> = Inr m" "stack m = stk'"
    using assms(1) by (auto simp: EvalScript_def split: if_splits sum.splits)
  moreover have "machine_ok \<lparr>stack = stk, altstack = [], vfExec = [], nOpCount = 0, pbegincodehash = script\<rparr>"
    using assms(2,3) by (simp add: machine_ok_def)
  ultimately show ?thesis using eval_loop_ok by (fastforce simp: machine_ok_def)
qed

subsection \<open>Signatures are matched to keys in order\<close>

lemma subseq_list_all2_Cons:
  "(\<exists>ks. subseq ks (key # keys) \<and> list_all2 P (sig # sigs) ks) \<longleftrightarrow>
     P sig key \<and> (\<exists>ks. subseq ks keys \<and> list_all2 P sigs ks) \<or>
     (\<exists>ks. subseq ks keys \<and> list_all2 P (sig # sigs) ks)"
proof
  assume "\<exists>ks. subseq ks (key # keys) \<and> list_all2 P (sig # sigs) ks"
  then obtain k ks where k: "subseq (k # ks) (key # keys)" "P sig k" "list_all2 P sigs ks"
    by (auto simp: list_all2_Cons1)
  then show "P sig key \<and> (\<exists>ks. subseq ks keys \<and> list_all2 P sigs ks) \<or>
     (\<exists>ks. subseq ks keys \<and> list_all2 P (sig # sigs) ks)"
    by (cases "k = key") auto
next
  assume "P sig key \<and> (\<exists>ks. subseq ks keys \<and> list_all2 P sigs ks) \<or>
     (\<exists>ks. subseq ks keys \<and> list_all2 P (sig # sigs) ks)"
  then show "\<exists>ks. subseq ks (key # keys) \<and> list_all2 P (sig # sigs) ks"
    by (elim disjE conjE exE) (auto intro: exI [of _ "key # _"] list_emb_Cons)
qed

lemma subseq_drop_first:
  "\<exists>ks. subseq ks keys \<and> list_all2 P (sig # sigs) ks \<Longrightarrow> \<exists>ks. subseq ks keys \<and> list_all2 P sigs ks"
  by (auto simp: list_all2_Cons1 dest: subseq_Cons' intro: list_emb_Nil)

text \<open>The loop takes the first key that fits; no other choice of keys could do better.\<close>

lemma multisig_loop_matching:
  assumes "\<forall>sig \<in> set sigs. \<forall>key \<in> set keys. check_encodings checker flags sig key = SCRIPT_ERR_OK"
  shows "multisig_loop checker flags scriptCode sigs keys =
    Inr (\<exists>ks. subseq ks keys \<and> list_all2 (\<lambda>sig key. chk_CheckSig checker sig key scriptCode) sigs ks)"
  using assms
proof (induction checker flags scriptCode sigs keys rule: multisig_loop.induct)
  case (1 checker flags scriptCode keys)
  then show ?case by (auto intro: exI [of _ "[]"])
next
  case (3 checker flags scriptCode sig sigs key keys)
  define P where "P = (\<lambda>sig key. chk_CheckSig checker sig key scriptCode)"
  define left where "left = (if P sig key then sigs else sig # sigs)"
  have enc: "check_encodings checker flags sig key = SCRIPT_ERR_OK" using 3(2) by simp
  have goal: "(\<exists>ks. subseq ks (key # keys) \<and> list_all2 P (sig # sigs) ks) \<longleftrightarrow>
      (\<exists>ks. subseq ks keys \<and> list_all2 P left ks)"
    unfolding subseq_list_all2_Cons left_def using subseq_drop_first [of keys P sig sigs] by auto
  have short: "\<not> (\<exists>ks. subseq ks keys \<and> list_all2 P left ks)" if "length left > length keys"
    using that list_all2_lengthD list_emb_length by fastforce
  have step: "multisig_loop checker flags scriptCode (sig # sigs) (key # keys) =
      (if length left > length keys then Inr False else multisig_loop checker flags scriptCode left keys)"
    using enc by (simp add: left_def P_def)
  have "multisig_loop checker flags scriptCode left keys = Inr (\<exists>ks. subseq ks keys \<and> list_all2 P left ks)"
    if "\<not> length left > length keys"
    unfolding P_def using that 3 enc by (auto simp: left_def P_def)
  then show ?case using short unfolding step P_def [symmetric] goal by auto
qed (auto dest: list_emb_Nil2)

subsection \<open>Running a script step by step\<close>

lemma eval_loop_Nil [simp]: "eval_loop flags checker [] m = Inr m"
  by (simp add: eval_loop.simps)

lemma eval_loop_step:
  assumes "GetOp pc = (True, opcode, v, pc')"
  shows "eval_loop flags checker pc m =
    (case exec_instruction flags checker opcode v pc' m of Inl e \<Rightarrow> Inl e
     | Inr m' \<Rightarrow> if length (stack m') + length (altstack m') > 1000 then Inl SCRIPT_ERR_STACK_SIZE
                else eval_loop flags checker pc' m')"
  using assms by (subst eval_loop.simps) (auto split: sum.splits)

lemma exec_push:
  assumes "opcode \<le> OP_PUSHDATA4" "False \<notin> set (vfExec m)" "length v \<le> 520"
    and "has_flag flags SCRIPT_VERIFY_MINIMALDATA \<Longrightarrow> CheckMinimalPush v opcode"
  shows "exec_instruction flags checker opcode v pc m = Inr (m\<lparr>stack := v # stack m\<rparr>)"
  using assms by (auto simp: exec_instruction_def is_disabled_def MAX_SCRIPT_ELEMENT_SIZE_def set_stack_def)

text \<open>An operation that is not a push, not disabled and within the limit of operations.\<close>

lemma exec_counted:
  assumes "opcode > OP_16" "\<not> is_disabled opcode" "False \<notin> set (vfExec m)" "nOpCount m < int MAX_OPS_PER_SCRIPT"
  shows "exec_instruction flags checker opcode [] pc m =
    exec_op flags checker opcode True pc (m\<lparr>nOpCount := nOpCount m + 1\<rparr>)"
  using assms by (auto simp: exec_instruction_def MAX_SCRIPT_ELEMENT_SIZE_def)

lemma GetOp_no_data: "GetOp pc = (True, opcode, v, pc') \<Longrightarrow> opcode > OP_PUSHDATA4 \<Longrightarrow> v = []"
  by (cases pc) (auto simp: Let_def split: if_splits sum.splits)

lemma exec_claim_ops:
  "is_claim_op opcode \<Longrightarrow> opcode \<noteq> OP_NOP \<Longrightarrow>
    exec_op flags checker opcode True pc m = Inr (m\<lparr>stack := vchFalse # stack m\<rparr>)"
  "exec_op flags checker OP_2DROP True pc m = exec_move OP_2DROP m"
  "exec_op flags checker OP_DROP True pc m = exec_move OP_DROP m"
  by (auto simp: exec_op_def is_claim_op_def set_stack_def is_move_op_def)

lemma claim_op_GetOp: "claim_op pc = Some (op, pc') \<Longrightarrow> op > OP_PUSHDATA4 \<Longrightarrow> GetOp pc = (True, op, [], pc')"
  using GetOp_no_data [of pc op _ pc'] by (auto simp: claim_op_def split: if_splits prod.splits)

lemma claim_param_GetOp: "claim_param pc = Some (b, pc') \<Longrightarrow> \<exists>opcode. opcode \<le> OP_PUSHDATA4 \<and> GetOp pc = (True, opcode, b, pc')"
  by (auto simp: claim_param_def split: if_splits prod.splits)

lemma eval_claim_op:
  assumes "claim_op pc = Some (op, pc')" "op \<in> {OP_CLAIM_NAME, OP_SUPPORT_CLAIM, OP_UPDATE_CLAIM}"
    and "False \<notin> set (vfExec m)" "nOpCount m < int MAX_OPS_PER_SCRIPT" "length (stack m) + length (altstack m) < 1000"
  shows "eval_loop flags checker pc m =
    eval_loop flags checker pc' (m\<lparr>nOpCount := nOpCount m + 1, stack := vchFalse # stack m\<rparr>)"
proof -
  have op: "op > OP_16" "op > OP_PUSHDATA4" "\<not> is_disabled op" "is_claim_op op" "op \<noteq> OP_NOP"
    using assms(2) by (auto simp: is_disabled_def is_claim_op_def)
  show ?thesis using eval_loop_step [OF claim_op_GetOp [OF assms(1) op(2)]] exec_counted [OF op(1,3) assms(3,4)]
      exec_claim_ops(1) [OF op(4,5)] assms(5) by simp
qed

lemma eval_claim_param:
  assumes "claim_param pc = Some (b, pc')" "length b \<le> 520" "\<not> has_flag flags SCRIPT_VERIFY_MINIMALDATA"
    and "False \<notin> set (vfExec m)" "length (stack m) + length (altstack m) < 1000"
  shows "eval_loop flags checker pc m = eval_loop flags checker pc' (m\<lparr>stack := b # stack m\<rparr>)"
proof -
  obtain opcode where g: "opcode \<le> OP_PUSHDATA4" "GetOp pc = (True, opcode, b, pc')"
    using claim_param_GetOp [OF assms(1)] by blast
  show ?thesis using eval_loop_step [OF g(2)] exec_push [OF g(1) assms(4,2), of flags checker pc'] assms(3,5) by simp
qed

lemma eval_claim_drop:
  assumes "claim_op pc = Some (op, pc')" "op \<in> {OP_2DROP, OP_DROP}" "move_op op (stack m) = Some s"
    and "False \<notin> set (vfExec m)" "nOpCount m < int MAX_OPS_PER_SCRIPT" "length s + length (altstack m) \<le> 1000"
  shows "eval_loop flags checker pc m = eval_loop flags checker pc' (m\<lparr>nOpCount := nOpCount m + 1, stack := s\<rparr>)"
proof -
  have op: "op > OP_16" "op > OP_PUSHDATA4" "\<not> is_disabled op"
    using assms(2) by (auto simp: is_disabled_def)
  show ?thesis using eval_loop_step [OF claim_op_GetOp [OF assms(1) op(2)]] exec_counted [OF op(1,3) assms(4,5)]
      exec_claim_ops(2,3) assms(2,3,6) by (auto simp: exec_move_def set_stack_def)
qed

lemma eval_claim_drops:
  assumes "claim_drops op pc = Some pc'" "op \<in> {OP_CLAIM_NAME, OP_SUPPORT_CLAIM, OP_UPDATE_CLAIM}"
    and "stack m = ps @ s" "length ps = (if op = OP_UPDATE_CLAIM then 4 else 3)"
    and "False \<notin> set (vfExec m)" "nOpCount m + 2 \<le> int MAX_OPS_PER_SCRIPT" "length s + 4 + length (altstack m) \<le> 1000"
  shows "eval_loop flags checker pc m = eval_loop flags checker pc' (m\<lparr>nOpCount := nOpCount m + 2, stack := s\<rparr>)"
proof -
  from assms(1) obtain pc1 op2 where a: "claim_op pc = Some (OP_2DROP, pc1)" "claim_op pc1 = Some (op2, pc')"
    and op2: "op2 = (if op = OP_UPDATE_CLAIM then OP_2DROP else OP_DROP)"
    using assms(2) by (auto simp: claim_drops_def split: option.splits if_splits)
  define m1 where "m1 = m\<lparr>nOpCount := nOpCount m + 1, stack := drop 2 ps @ s\<rparr>"
  have m1: "move_op OP_2DROP (stack m) = Some (drop 2 ps @ s)" "move_op op2 (stack m1) = Some s"
    using assms(3,4) op2 unfolding m1_def by (auto simp: move_op_def numeral_eq_Suc length_Suc_conv split: if_splits)
  have l: "length (drop 2 ps @ s) + length (altstack m) \<le> 1000" "length s + length (altstack m1) \<le> 1000"
    using assms(4,7) by (auto simp: m1_def)
  have "eval_loop flags checker pc m = eval_loop flags checker pc1 m1"
    unfolding m1_def by (rule eval_claim_drop [OF a(1) _ m1(1) assms(5) _ l(1)]) (use assms(6) in auto)
  also have "\<dots> = eval_loop flags checker pc' (m1\<lparr>nOpCount := nOpCount m1 + 1, stack := s\<rparr>)"
    by (rule eval_claim_drop [OF a(2) _ m1(2) _ _ l(2)]) (use assms(5,6) op2 in \<open>auto simp: m1_def\<close>)
  also have "m1\<lparr>nOpCount := nOpCount m1 + 1, stack := s\<rparr> = m\<lparr>nOpCount := nOpCount m + 2, stack := s\<rparr>"
    by (simp add: m1_def)
  finally show ?thesis .
qed

text \<open>A claim before a payment script leaves nothing behind but three counted operations.\<close>

lemma eval_claim_prefix:
  assumes "DecodeClaimScript script = Some (op, params, rest)" "\<forall>p \<in> set params. length p \<le> 520"
    and "\<not> has_flag flags SCRIPT_VERIFY_MINIMALDATA" "False \<notin> set (vfExec m)"
    and "nOpCount m + 3 \<le> int MAX_OPS_PER_SCRIPT" "length (stack m) + 4 + length (altstack m) \<le> 1000"
  shows "eval_loop flags checker script m = eval_loop flags checker rest (m\<lparr>nOpCount := nOpCount m + 3\<rparr>)"
proof -
  define m1 where "m1 = m\<lparr>nOpCount := nOpCount m + 1, stack := vchFalse # stack m\<rparr>"
  from assms(1) obtain pc1 p1 pc2 p2 pc3 where c: "claim_op script = Some (op, pc1)"
      "op \<in> {OP_CLAIM_NAME, OP_SUPPORT_CLAIM, OP_UPDATE_CLAIM}"
    and p1: "claim_param pc1 = Some (p1, pc2)" and p2: "claim_param pc2 = Some (p2, pc3)"
    and r: "op \<noteq> OP_UPDATE_CLAIM \<and> params = [p1, p2] \<and> claim_drops op pc3 = Some rest \<or>
      op = OP_UPDATE_CLAIM \<and> (\<exists>p3 pc4. claim_param pc3 = Some (p3, pc4) \<and> params = [p1, p2, p3] \<and>
        claim_drops op pc4 = Some rest)"
    by (auto simp: DecodeClaimScript_def split: option.splits if_splits)
  have len: "length p1 \<le> 520" "length p2 \<le> 520" using r assms(2) by auto
  define m3 where "m3 = m1\<lparr>stack := p2 # p1 # stack m1\<rparr>"
  have "eval_loop flags checker script m = eval_loop flags checker pc1 m1"
    unfolding m1_def by (rule eval_claim_op [OF c assms(4)]) (use assms(5,6) in auto)
  also have "\<dots> = eval_loop flags checker pc2 (m1\<lparr>stack := p1 # stack m1\<rparr>)"
    by (rule eval_claim_param [OF p1 len(1) assms(3)]) (use assms(4,6) in \<open>auto simp: m1_def\<close>)
  also have "\<dots> = eval_loop flags checker pc3 (m1\<lparr>stack := p2 # p1 # stack m1\<rparr>)"
    by (subst eval_claim_param [OF p2 len(2) assms(3)]) (use assms(4,6) in \<open>auto simp: m1_def\<close>)
  finally have e: "eval_loop flags checker script m = eval_loop flags checker pc3 m3" by (simp add: m3_def)
  from r show ?thesis
  proof (elim disjE conjE exE)
    assume "op \<noteq> OP_UPDATE_CLAIM" "claim_drops op pc3 = Some rest"
    then have "eval_loop flags checker pc3 m3 =
        eval_loop flags checker rest (m3\<lparr>nOpCount := nOpCount m3 + 2, stack := stack m\<rparr>)"
      by (intro eval_claim_drops [OF _ c(2), where ps = "[p2, p1, vchFalse]"])
         (use assms(4,5,6) in \<open>auto simp: m3_def m1_def\<close>)
    then show ?thesis unfolding e by (simp add: m3_def m1_def add.commute)
  next
    fix p3 pc4
    assume u: "op = OP_UPDATE_CLAIM" and p3: "claim_param pc3 = Some (p3, pc4)" and d: "claim_drops op pc4 = Some rest"
      and ps: "params = [p1, p2, p3]"
    define m4 where "m4 = m3\<lparr>stack := p3 # stack m3\<rparr>"
    have l3: "length p3 \<le> 520" using ps assms(2) by simp
    have "eval_loop flags checker pc3 m3 = eval_loop flags checker pc4 m4"
      unfolding m4_def by (rule eval_claim_param [OF p3 l3 assms(3)]) (use assms(4,6) in \<open>auto simp: m3_def m1_def\<close>)
    also have "\<dots> = eval_loop flags checker rest (m4\<lparr>nOpCount := nOpCount m4 + 2, stack := stack m\<rparr>)"
      by (intro eval_claim_drops [OF d c(2), where ps = "[p3, p2, p1, vchFalse]"])
         (use u assms(4,5,6) in \<open>auto simp: m4_def m3_def m1_def\<close>)
    finally show ?thesis unfolding e by (simp add: m4_def m3_def m1_def add.commute)
  qed
qed

subsection \<open>Scripts that can never be spent\<close>

lemma unspendable_eval:
  assumes "IsUnspendable script"
  shows "EvalScript stk script flags checker =
    Inl (if length script > 10000 then SCRIPT_ERR_SCRIPT_SIZE else SCRIPT_ERR_OP_RETURN)"
proof -
  obtain b pc where s: "script = b # pc" "unat b = OP_RETURN" using assms by (cases script) (auto simp: IsUnspendable_def)
  then have g: "GetOp script = (True, OP_RETURN, [], pc)" by simp
  have "exec_instruction flags checker OP_RETURN [] pc
      \<lparr>stack = stk, altstack = [], vfExec = [], nOpCount = 0, pbegincodehash = script\<rparr> = Inl SCRIPT_ERR_OP_RETURN"
    by (subst exec_counted) (auto simp: is_disabled_def is_claim_op_def exec_op_def exec_control_def MAX_OPS_PER_SCRIPT_def)
  then show ?thesis using eval_loop_step [OF g] by (simp add: EvalScript_def)
qed

subsection \<open>Spending a payment to a key hash\<close>

lemma GetOp_short_push:
  "2 \<le> length b \<Longrightarrow> length b \<le> 75 \<Longrightarrow> GetOp (push_data [] b @ pc) = (True, length b, b, pc)"
  by (simp add: push_data_def push_size_def unsigned_of_nat take_bit_eq_mod)

lemma CheckMinimalPush_short: "2 \<le> length b \<Longrightarrow> length b \<le> 75 \<Longrightarrow> CheckMinimalPush b (length b)"
  by (auto simp: CheckMinimalPush_def)

lemma eval_short_push:
  assumes "2 \<le> length b" "length b \<le> 75" "False \<notin> set (vfExec m)" "length (stack m) + length (altstack m) < 1000"
  shows "eval_loop flags checker (push_data [] b @ pc) m = eval_loop flags checker pc (m\<lparr>stack := b # stack m\<rparr>)"
  using eval_loop_step [OF GetOp_short_push [OF assms(1,2)]]
    exec_push [of "length b" m b flags checker pc] CheckMinimalPush_short [OF assms(1,2)] assms by simp

text \<open>An operation of the script, with what it does to the machine.\<close>

lemma eval_op:
  assumes "OP_16 < op" "op < 256" "\<not> is_disabled op" "False \<notin> set (vfExec m)" "nOpCount m < int MAX_OPS_PER_SCRIPT"
  shows "eval_loop flags checker (of_nat op # pc) m =
    (case exec_op flags checker op True pc (m\<lparr>nOpCount := nOpCount m + 1\<rparr>) of Inl e \<Rightarrow> Inl e
     | Inr m' \<Rightarrow> if length (stack m') + length (altstack m') > 1000 then Inl SCRIPT_ERR_STACK_SIZE
                else eval_loop flags checker pc m')"
proof -
  have g: "GetOp (of_nat op # pc) = (True, op, [], pc)" using assms(1,2) by (intro GetOp_byte) auto
  show ?thesis unfolding eval_loop_step [OF g] exec_counted [OF assms(1,3,4,5)] ..
qed

lemma exec_pkh_ops:
  "exec_op flags checker OP_DUP True pc m = exec_move OP_DUP m"
  "exec_op flags checker OP_HASH160 True pc m = exec_hash OP_HASH160 m"
  "exec_op flags checker OP_EQUALVERIFY True pc m = exec_equal OP_EQUALVERIFY m"
  "exec_op flags checker OP_CHECKSIG True pc m = exec_CHECKSIG flags checker OP_CHECKSIG m"
  by (simp_all add: exec_op_def is_claim_op_def is_move_op_def)

lemma eval_key_hash_script:
  assumes h: "length h = 20"
  shows "EvalScript [key, sig] (GetScriptForDestination (CKeyID h)) flags checker =
    (if Hash160 key \<noteq> h then Inl SCRIPT_ERR_EQUALVERIFY
     else let err = check_encodings checker flags sig key in
       if err \<noteq> SCRIPT_ERR_OK then Inl err
       else Inr [of_bool_vch (chk_CheckSig checker sig key
         (drop_signature (GetScriptForDestination (CKeyID h)) sig))])"
proof -
  define script where "script = GetScriptForDestination (CKeyID h)"
  define m where "m = (\<lambda>s n. \<lparr>stack = s, altstack = [], vfExec = [], nOpCount = n, pbegincodehash = script\<rparr>)"
  have s: "script = of_nat OP_DUP # of_nat OP_HASH160 # push_data [] h @ [of_nat OP_EQUALVERIFY, of_nat OP_CHECKSIG]"
    unfolding script_def by (simp add: GetScriptForDestination_def push_data_def op_byte_def h)
  have len: "length script = 25" unfolding script_def by (simp add: GetScriptForDestination_bytes h)
  note op = m_def is_disabled_def MAX_OPS_PER_SCRIPT_def exec_pkh_ops set_stack_def
  have dup: "eval_loop flags checker (of_nat OP_DUP # pc) (m [key, sig] 0) = eval_loop flags checker pc (m [key, key, sig] 1)" for pc
    by (subst eval_op) (simp_all add: op exec_move_def move_op_def)
  have hash: "eval_loop flags checker (of_nat OP_HASH160 # pc) (m [key, key, sig] 1) =
      eval_loop flags checker pc (m [Hash160 key, key, sig] 2)" for pc
    by (subst eval_op) (simp_all add: op exec_hash_def hash_value_def)
  have push: "eval_loop flags checker (push_data [] h @ pc) (m [Hash160 key, key, sig] 2) =
      eval_loop flags checker pc (m [h, Hash160 key, key, sig] 2)" for pc
    by (subst eval_short_push) (simp_all add: op h)
  have equal: "eval_loop flags checker (of_nat OP_EQUALVERIFY # pc) (m [h, Hash160 key, key, sig] 2) =
      (if Hash160 key \<noteq> h then Inl SCRIPT_ERR_EQUALVERIFY else eval_loop flags checker pc (m [key, sig] 3))" for pc
    by (subst eval_op) (simp_all add: op exec_equal_def)
  have check: "eval_loop flags checker [of_nat OP_CHECKSIG] (m [key, sig] 3) =
      (let err = check_encodings checker flags sig key in
       if err \<noteq> SCRIPT_ERR_OK then Inl err
       else Inr (m [of_bool_vch (chk_CheckSig checker sig key (drop_signature script sig))] 4))"
    by (subst eval_op) (simp_all add: op exec_CHECKSIG_def Let_def)
  have "eval_loop flags checker script (m [key, sig] 0) =
    (if Hash160 key \<noteq> h then Inl SCRIPT_ERR_EQUALVERIFY
     else let err = check_encodings checker flags sig key in
       if err \<noteq> SCRIPT_ERR_OK then Inl err
       else Inr (m [of_bool_vch (chk_CheckSig checker sig key (drop_signature script sig))] 4))"
    by (subst s) (simp only: dup hash push equal check)
  then show ?thesis unfolding EvalScript_def len script_def [symmetric] by (simp add: Let_def m_def)
qed

lemma eval_two_pushes:
  assumes "2 \<le> length a" "length a \<le> 75" "2 \<le> length b" "length b \<le> 75"
  shows "EvalScript [] (push_data (push_data [] a) b) flags checker = Inr [b, a]"
proof -
  have s: "push_data (push_data [] a) b = push_data [] a @ push_data [] b @ []"
    by (simp add: push_data_append [of "push_data [] a" b])
  have len: "length (push_data [] a @ push_data [] b @ []) \<le> 10000"
    using assms by (simp add: push_data_def)
  show ?thesis using assms len unfolding s EvalScript_def
    by (simp add: eval_short_push eval_short_push [where pc = "[]", simplified])
qed

lemma push_only_two_pushes:
  assumes "length a \<le> 75" "length b \<le> 75"
  shows "IsPushOnly (push_data (push_data [] a) b)"
proof -
  have s: "push_data (push_data [] a) b = push_data [] a @ push_data [] b @ []"
    by (simp add: push_data_append [of "push_data [] a" b])
  have l: "length a < 2 ^ 32" "length b < 2 ^ 32" using assms by simp_all
  show ?thesis unfolding s IsPushOnly_push_data [OF l(1)] IsPushOnly_push_data [OF l(2)]
    by (simp add: IsPushOnly.simps)
qed

subsection \<open>What the machine guarantees\<close>

text \<open>
  C20. Resource bounds of script evaluation: whatever the script and the signature checker, a
  successful evaluation that starts from at most 1000 elements of at most 520 bytes ends with at
  most 1000 elements of at most 520 bytes.
\<close>

theorem EvalScript_keeps_limits:
  assumes "EvalScript stk script flags checker = Inr stk'"
    and "\<forall>x \<in> set stk. length x \<le> MAX_SCRIPT_ELEMENT_SIZE" "length stk \<le> 1000"
  shows "(\<forall>x \<in> set stk'. length x \<le> MAX_SCRIPT_ELEMENT_SIZE) \<and> length stk' \<le> 1000"
  using EvalScript_stack_ok [OF assms(1)] assms(2,3) by (simp add: small_stack_def)

theorem EvalScript_keeps_limits_witness:
  "EvalScript [[7]] [0x76, 0x01, 0x05, 0x93] 0 BaseSignatureChecker = Inr [[12], [7]] \<and>
   length [12 :: u8] \<le> MAX_SCRIPT_ELEMENT_SIZE \<and> length [[12 :: u8], [7]] \<le> 1000"
proof -
  have e: "EvalScript [[7]] [0x76, 0x01, 0x05, 0x93] 0 BaseSignatureChecker = Inr [[12], [7]]" by code_simp
  show ?thesis using EvalScript_keeps_limits [OF e] e by (simp add: MAX_SCRIPT_ELEMENT_SIZE_def)
qed

text \<open>
  C21. A claim in front of a payment script does not change how the payment is spent: when a script
  decodes as a claim, support or update, running it is running the payment script behind it on the
  same stacks, with three operations counted.  The parameters are at most 520 bytes long, minimal
  pushes are not demanded (\<open>SCRIPT_VERIFY_MINIMALDATA\<close> is off), and the limits leave room for three
  operations and four stack elements.
\<close>

theorem claim_prefix_is_transparent:
  assumes "DecodeClaimScript script = Some (op, params, rest)" "\<forall>p \<in> set params. length p \<le> MAX_SCRIPT_ELEMENT_SIZE"
    and "\<not> has_flag flags SCRIPT_VERIFY_MINIMALDATA" "False \<notin> set (vfExec m)"
    and "nOpCount m + 3 \<le> int MAX_OPS_PER_SCRIPT" "length (stack m) + 4 + length (altstack m) \<le> 1000"
  shows "eval_loop flags checker script m = eval_loop flags checker rest (m\<lparr>nOpCount := nOpCount m + 3\<rparr>)"
  by (rule eval_claim_prefix [OF assms(1) _ assms(3-6)]) (use assms(2) in \<open>simp add: MAX_SCRIPT_ELEMENT_SIZE_def\<close>)

theorem claim_prefix_is_transparent_witness:
  "eval_loop 0 BaseSignatureChecker (ClaimNameScript [110, 97] [118])
     \<lparr>stack = [[3]], altstack = [], vfExec = [True], nOpCount = 5, pbegincodehash = []\<rparr> =
   eval_loop 0 BaseSignatureChecker [0x51]
     \<lparr>stack = [[3]], altstack = [], vfExec = [True], nOpCount = 8, pbegincodehash = []\<rparr>"
proof -
  have "DecodeClaimScript (ClaimNameScript [110, 97] [118]) = Some (OP_CLAIM_NAME, [[110, 97], [118]], [0x51])" by code_simp
  from claim_prefix_is_transparent [OF this, of 0
      "\<lparr>stack = [[3]], altstack = [], vfExec = [True], nOpCount = 5, pbegincodehash = []\<rparr>" BaseSignatureChecker]
  show ?thesis by (simp add: MAX_SCRIPT_ELEMENT_SIZE_def MAX_OPS_PER_SCRIPT_def has_flag_def)
qed

text \<open>
  C8. \<open>OP_CHECKMULTISIG\<close> finds a matching whenever there is one: when the encodings of the
  signatures and keys pass, its loop answers whether some keys, in the order of the script, match
  the signatures one by one.
\<close>

theorem multisig_loop_finds_matching:
  assumes "\<forall>sig \<in> set sigs. \<forall>key \<in> set keys. check_encodings checker flags sig key = SCRIPT_ERR_OK"
  shows "multisig_loop checker flags scriptCode sigs keys =
    Inr (\<exists>ks. subseq ks keys \<and> list_all2 (\<lambda>sig key. chk_CheckSig checker sig key scriptCode) sigs ks)"
  using assms by (rule multisig_loop_matching)

theorem multisig_loop_finds_matching_witness:
  "multisig_loop (BaseSignatureChecker\<lparr>chk_CheckSig := (\<lambda>s k _. s = k)\<rparr>) 0 [] [[1], [3]] [[1], [2], [3]] = Inr True \<and>
   (\<exists>ks. subseq ks [[1], [2], [3]] \<and> list_all2 (\<lambda>s k. s = k) [[1], [3 :: u8]] ks)"
proof -
  define c where "c = BaseSignatureChecker\<lparr>chk_CheckSig := (\<lambda>s k _. s = k)\<rparr>"
  have enc: "\<forall>sig \<in> set [[1], [3 :: u8]]. \<forall>key \<in> set [[1], [2], [3]]. check_encodings c 0 sig key = SCRIPT_ERR_OK"
    unfolding c_def by code_simp
  have r: "multisig_loop c 0 [] [[1], [3]] [[1], [2], [3]] = Inr True" unfolding c_def by code_simp
  from multisig_loop_finds_matching [OF enc, of "[]"] r show ?thesis by (simp add: c_def)
qed

text \<open>
  Spending a payment to a key hash, from the two pushes of the input to the verdict: the key
  must hash to the 20 bytes of the script, signature and key must be encoded as the flags demand,
  and then the signature check decides.
\<close>

theorem VerifyScript_key_hash:
  assumes "length h = 20" "2 \<le> length sig" "length sig \<le> 75" "2 \<le> length key" "length key \<le> 75"
    and "has_flag flags SCRIPT_VERIFY_CLEANSTACK \<Longrightarrow> has_flag flags SCRIPT_VERIFY_P2SH"
  shows "VerifyScript (push_data (push_data [] sig) key) (GetScriptForDestination (CKeyID h)) flags checker =
    Some (if Hash160 key \<noteq> h then SCRIPT_ERR_EQUALVERIFY
      else if check_encodings checker flags sig key \<noteq> SCRIPT_ERR_OK then check_encodings checker flags sig key
      else if chk_CheckSig checker sig key (drop_signature (GetScriptForDestination (CKeyID h)) sig)
      then SCRIPT_ERR_OK else SCRIPT_ERR_EVAL_FALSE)"
proof -
  have "\<not> IsPayToScriptHash (GetScriptForDestination (CKeyID h))"
    by (simp add: IsPayToScriptHash_def GetScriptForDestination_bytes assms(1))
  then show ?thesis
    using push_only_two_pushes [OF assms(3,5)] eval_two_pushes [OF assms(2-5)] assms(6)
    unfolding VerifyScript_def
    by (simp add: eval_key_hash_script [OF assms(1)] eval_true_def of_bool_vch_def vchTrue_def vchFalse_def Let_def)
qed

theorem VerifyScript_key_hash_witness:
  "VerifyScript (push_data (push_data [] (replicate 70 1)) (replicate 33 2))
     (GetScriptForDestination (CKeyID (replicate 20 9))) 0 BaseSignatureChecker =
   Some (if Hash160 (replicate 33 2) \<noteq> replicate 20 9 then SCRIPT_ERR_EQUALVERIFY
     else if check_encodings BaseSignatureChecker 0 (replicate 70 1) (replicate 33 2) \<noteq> SCRIPT_ERR_OK
     then check_encodings BaseSignatureChecker 0 (replicate 70 1) (replicate 33 2)
     else if chk_CheckSig BaseSignatureChecker (replicate 70 1) (replicate 33 2)
       (drop_signature (GetScriptForDestination (CKeyID (replicate 20 9))) (replicate 70 1))
     then SCRIPT_ERR_OK else SCRIPT_ERR_EVAL_FALSE)"
  by (rule VerifyScript_key_hash) (simp_all add: has_flag_def)

end
