(* ===== verification/Pow.thy ===== *)
theory Pow
  imports Chain "HOL-Library.Signed_Division"
begin

text \<open>
  Proof of work (\<open>pow.cpp\<close>): the averaging difficulty adjustment, the check of a block
  hash against its compact target, and the work a block contributes to its chain.  The
  64-bit times and spans are integers; the places where the code narrows them to 32 bits
  or to an unsigned word are written out.  \<open>None\<close> is an exception or a failed assertion.
\<close>

unbundle bit_operations_syntax

subsection \<open>Consensus parameters\<close>

record Params =
  powLimit :: uint256
  nPowAveragingWindow :: int
  nPowTargetSpacing :: int
  nPowMaxAdjustDown :: int
  nPowMaxAdjustUp :: int

definition AveragingWindowTimespan :: "Params \<Rightarrow> int" where
  "AveragingWindowTimespan P = nPowAveragingWindow P * nPowTargetSpacing P"

definition MinActualTimespan :: "Params \<Rightarrow> int" where
  "MinActualTimespan P = (AveragingWindowTimespan P * (100 - nPowMaxAdjustUp P)) sdiv 100"

definition MaxActualTimespan :: "Params \<Rightarrow> int" where
  "MaxActualTimespan P = (AveragingWindowTimespan P * (100 + nPowMaxAdjustDown P)) sdiv 100"

subsection \<open>Difficulty adjustment\<close>

text \<open>An \<open>int64_t\<close> operand becomes a 256-bit number through \<open>base_uint(uint64_t)\<close>.\<close>

definition uint_of_int64 :: "int \<Rightarrow> base_uint" where
  "uint_of_int64 n = uint_of_u64 (word_of_int n)"

definition bounded_timespan :: "Params \<Rightarrow> int \<Rightarrow> int \<Rightarrow> int" where
  "bounded_timespan P nLastBlockTime nFirstBlockTime =
     (let span = nLastBlockTime - nFirstBlockTime;
          span = AveragingWindowTimespan P + (span - AveragingWindowTimespan P) sdiv 4;
          span = (if span < MinActualTimespan P then MinActualTimespan P else span)
      in if MaxActualTimespan P < span then MaxActualTimespan P else span)"

text \<open>
  \<open>bnNew *= nActualTimespan\<close> selects \<open>operator*=(uint32_t)\<close>, so the span is cut to its low
  32 bits.
\<close>

definition retarget :: "Params \<Rightarrow> base_uint \<Rightarrow> int \<Rightarrow> base_uint option" where
  "retarget P bnAvg nActualTimespan =
     (let bnPowLimit = UintToArith256 (powLimit P)
      in case uint_div bnAvg (uint_of_int64 (AveragingWindowTimespan P)) of
          Inl e \<Rightarrow> None
        | Inr q \<Rightarrow>
            let bnNew = uint_mul32 q (word_of_int nActualTimespan)
            in Some (if uint_compare bnNew bnPowLimit > 0 then bnPowLimit else bnNew))"

definition CalculateNextWorkRequired :: "Params \<Rightarrow> base_uint \<Rightarrow> int \<Rightarrow> int \<Rightarrow> u32 option" where
  "CalculateNextWorkRequired P bnAvg nLastBlockTime nFirstBlockTime =
     (case retarget P bnAvg (bounded_timespan P nLastBlockTime nFirstBlockTime) of
        None \<Rightarrow> None
      | Some bnNew \<Rightarrow> GetCompact bnNew False)"

text \<open>
  The loop over the averaging window: the first argument counts the iterations left, and the
  result is the sum of the targets with the block where the loop stopped.
\<close>

fun sum_targets :: "block_store \<Rightarrow> nat \<Rightarrow> block_id option \<Rightarrow> base_uint \<Rightarrow> base_uint \<times> block_id option" where
  "sum_targets S 0 pindexFirst bnTot = (bnTot, pindexFirst)"
| "sum_targets S (Suc n) None bnTot = (bnTot, None)"
| "sum_targets S (Suc n) (Some p) bnTot =
     sum_targets S n (pprev (S p)) (uint_add bnTot (fst (SetCompact (nBits (S p)))))"

definition GetNextWorkRequired :: "Params \<Rightarrow> block_store \<Rightarrow> block_id option \<Rightarrow> u32 option" where
  "GetNextWorkRequired P S pindexLast =
     (case GetCompact (UintToArith256 (powLimit P)) False of
        None \<Rightarrow> None
      | Some nProofOfWorkLimit \<Rightarrow> (case pindexLast of
            None \<Rightarrow> Some nProofOfWorkLimit
          | Some tip \<Rightarrow>
              let (bnTot, pindexFirst) =
                sum_targets S (nat (nPowAveragingWindow P)) pindexLast uint_zero
              in (case pindexFirst of
                  None \<Rightarrow> Some nProofOfWorkLimit
                | Some first \<Rightarrow>
                    (case uint_div bnTot (uint_of_int64 (nPowAveragingWindow P)) of
                       Inl e \<Rightarrow> None
                     | Inr bnAvg \<Rightarrow> CalculateNextWorkRequired P bnAvg
                         (GetMedianTimePast S tip) (GetMedianTimePast S first)))))"

subsection \<open>Checking work and adding it up\<close>

definition CheckProofOfWork :: "Params \<Rightarrow> uint256 \<Rightarrow> u32 \<Rightarrow> bool" where
  "CheckProofOfWork P hash target_bits =
     (let (bnTarget, fNegative, fOverflow) = SetCompact target_bits
      in if fNegative \<or> uint_equal64 bnTarget 0 \<or> fOverflow \<or>
            uint_compare bnTarget (UintToArith256 (powLimit P)) > 0 then False
         else if uint_compare (UintToArith256 hash) bnTarget > 0 then False
         else True)"

text \<open>The argument is the \<open>nBits\<close> of the block.\<close>

definition GetBlockProof :: "u32 \<Rightarrow> base_uint option" where
  "GetBlockProof target_bits =
     (let (bnTarget, fNegative, fOverflow) = SetCompact target_bits
      in if fNegative \<or> fOverflow \<or> uint_equal64 bnTarget 0 then Some uint_zero
         else (case uint_div (uint_compl bnTarget) (uint_add bnTarget (uint_of_u64 1)) of
             Inl e \<Rightarrow> None
           | Inr q \<Rightarrow> Some (uint_add q (uint_of_u64 1))))"

definition int64_max :: int where
  "int64_max = 2 ^ 63 - 1"

text \<open>The last product is an unsigned 64-bit word that is read back as an \<open>int64_t\<close>.\<close>

definition GetBlockProofEquivalentTime ::
  "Params \<Rightarrow> base_uint \<Rightarrow> base_uint \<Rightarrow> u32 \<Rightarrow> int option" where
  "GetBlockProofEquivalentTime P to_work from_work tip_bits =
     (let (r, sign) = (if uint_compare to_work from_work > 0
                       then (uint_sub to_work from_work, 1) else (uint_sub from_work to_work, - 1))
      in case GetBlockProof tip_bits of None \<Rightarrow> None
         | Some proof \<Rightarrow>
             (case uint_div (uint_mul r (uint_of_int64 (nPowTargetSpacing P))) proof of
                Inl e \<Rightarrow> None
              | Inr r \<Rightarrow>
                  if uint_bits r > 63 then Some (sign * int64_max)
                  else Some (sint (word_of_int sign * uint_low64 r :: u64))))"

subsection \<open>Correctness\<close>

lemma ucast_u32_eq_0: "(ucast (w :: u32) :: u64) = 0 \<longleftrightarrow> w = 0"
proof -
  have "unat (ucast w :: u64) = unat w" by (rule unat_ucast_up_32)
  then show ?thesis by (metis unat_eq_zero)
qed

lemma uint_equal64_0: "wf_uint a \<Longrightarrow> uint_equal64 a 0 \<longleftrightarrow> uval a = 0"
  unfolding wf_uint_def WIDTH_def uint_is_zero_iff [symmetric]
  by (erule list_length_8) (auto simp: uint_equal64_def uint_is_zero_def ucast_u32_eq_0)

lemma uval_one [simp]: "uval (uint_of_u64 1) = 1"
  by (simp add: uval_of_u64)

lemma div_split: "0 < t \<Longrightarrow> t < (N::nat) \<Longrightarrow> (N - 1 - t) div (t + 1) + 1 = N div (t + 1)"
proof -
  assume "0 < t" "t < N"
  then have "N = (N - 1 - t) + (t + 1)" by simp
  then show ?thesis by (metis div_add_self2 add_is_0 One_nat_def nat.distinct(1))
qed

text \<open>A decoded target is never the largest number, so that adding one does not wrap.\<close>

lemma compact_value_not_max: "compact_value c < 2 ^ 256 \<Longrightarrow> compact_value c + 1 < 2 ^ 256"
proof -
  assume lt: "compact_value c < 2 ^ 256"
  let ?n = "unat (drop_bit 24 c)" and ?m = "unat (c AND 0x007fffff)"
  have m: "?m < 2 ^ 23" by (rule compact_mantissa_less)
  show ?thesis
  proof (cases "?n \<le> 3")
    case True
    have "?m * 256 ^ ?n \<le> ?m * 256 ^ 3" using True by (intro mult_le_mono2 power_increasing) auto
    then have "compact_value c \<le> ?m * 256 ^ 3 div 256 ^ 3" unfolding compact_value_def by (rule div_le_mono)
    then have "compact_value c \<le> ?m" by simp
    then show ?thesis using m by simp
  next
    case False
    then obtain k where k: "?n = 3 + Suc k" by (metis add_Suc_right less_imp_add_positive not_le Suc_pred')
    then have "compact_value c = ?m * 256 ^ k * 256"
      by (simp add: compact_value_def power_add)
    then have "even (compact_value c)" by simp
    moreover have "odd (2 ^ 256 - 1 :: nat)" by simp
    ultimately have "compact_value c \<noteq> 2 ^ 256 - 1" by metis
    then show ?thesis using lt by linarith
  qed
qed

lemma GetBlockProof_value:
  assumes "SetCompact nb = (t, neg, ovf)"
  shows "\<exists>r. GetBlockProof nb = Some r \<and> wf_uint r \<and>
    uval r = (if neg \<or> ovf \<or> uval t = 0 then 0 else 2 ^ 256 div (uval t + 1))"
proof -
  have t: "wf_uint t" using SetCompact_value(2) [of nb] assms by simp
  show ?thesis
  proof (cases "neg \<or> ovf \<or> uval t = 0")
    case True
    then show ?thesis using assms t by (auto simp: GetBlockProof_def uint_equal64_0 wf_intros)
  next
    case False
    then have nz: "0 < uval t" by simp
    have b: "uval t < 2 ^ 256" by (rule uval_bound [OF t])
    have c: "uval (uint_compl t) = 2 ^ 256 - 1 - uval t" by (rule uval_compl_256 [OF t])
    let ?d = "uint_add t (uint_of_u64 1)"
    have d: "uval ?d = (uval t + 1) mod 2 ^ 256" using t by (simp only: uval_add wf_of_u64 uval_one)
    have "uval t = compact_value nb" 
      using SetCompact_value(1) [of nb] SetCompact_overflow [of nb] False assms by simp
    then have "uval t + 1 < 2 ^ 256" using compact_value_not_max [of nb] b by simp
    then have d': "uval ?d = uval t + 1" using d by simp
    obtain q where q: "uint_div (uint_compl t) ?d = Inr q" "wf_uint q"
      "uval q = (2 ^ 256 - 1 - uval t) div (uval t + 1)"
      using uint_div_correct [of "uint_compl t" ?d] t d' c by (auto simp: wf_intros)
    have e: "uval q + 1 = 2 ^ 256 div (uval t + 1)" unfolding q(3) by (rule div_split [OF nz b])
    have "2 ^ 256 div (uval t + 1) < (2::nat) ^ 256" using nz by (intro div_less_dividend) auto
    then have "uval (uint_add q (uint_of_u64 1)) = 2 ^ 256 div (uval t + 1)"
      using q(2) e by (simp only: uval_add wf_of_u64 uval_one mod_less)
    then show ?thesis using assms False t q by (auto simp: GetBlockProof_def uint_equal64_0 wf_intros)
  qed
qed

lemma CheckProofOfWork_iff:
  "CheckProofOfWork P hash nb \<longleftrightarrow>
    \<not> fst (snd (SetCompact nb)) \<and> 0 < compact_value nb \<and>
    compact_value nb \<le> uval (UintToArith256 (powLimit P)) \<and>
    uval (UintToArith256 hash) \<le> compact_value nb"
proof -
  obtain t neg ovf where t: "SetCompact nb = (t, neg, ovf)" by (cases "SetCompact nb")
  have w: "wf_uint t" using SetCompact_value(2) [of nb] t by simp
  have lim: "uval (UintToArith256 (powLimit P)) < 2 ^ 256" by (rule uval_bound [OF wf_UintToArith256])
  have v: "uval t = compact_value nb mod 2 ^ 256" using SetCompact_value(1) [of nb] t by simp
  have o: "ovf \<longleftrightarrow> 2 ^ 256 \<le> compact_value nb" using SetCompact_overflow [of nb] t by simp
  have unf: "CheckProofOfWork P hash nb \<longleftrightarrow> \<not> neg \<and> 0 < uval t \<and> \<not> ovf \<and>
      uval t \<le> uval (UintToArith256 (powLimit P)) \<and> uval (UintToArith256 hash) \<le> uval t"
    using w by (auto simp: CheckProofOfWork_def t uint_equal64_0 uint_compare_sign wf_UintToArith256)
  show ?thesis
  proof (cases ovf)
    case True
    then show ?thesis using unf o lim by (auto simp: t)
  next
    case False
    then have "uval t = compact_value nb" using o v by simp
    then show ?thesis using unf False by (simp add: t)
  qed
qed

text \<open>The time span that enters the retarget stays between its bounds.\<close>

lemma bounded_timespan_bounds:
  assumes "MinActualTimespan P \<le> MaxActualTimespan P"
  shows "MinActualTimespan P \<le> bounded_timespan P l f \<and> bounded_timespan P l f \<le> MaxActualTimespan P"
  using assms by (auto simp: bounded_timespan_def Let_def)

lemma uval_of_int64: "0 \<le> n \<Longrightarrow> n < 2 ^ 64 \<Longrightarrow> uval (uint_of_int64 n) = nat n"
  by (simp add: uint_of_int64_def uval_of_u64 unat_eq_nat_uint uint_word_of_int)

lemma wf_of_int64 [wf_intros]: "wf_uint (uint_of_int64 n)"
  by (simp add: uint_of_int64_def wf_intros)

text \<open>
  While the quotient times the span fits 256 bits and the span fits 32 bits, the retarget
  computes what it should: the average target scaled by the span, capped at the limit.
\<close>

lemma retarget_value:
  assumes "wf_uint avg" and "0 < AveragingWindowTimespan P" and "AveragingWindowTimespan P < 2 ^ 63"
    and "0 \<le> s" and "s < 2 ^ 32"
  shows "\<exists>r. retarget P avg s = Some r \<and> wf_uint r \<and>
    uval r = min (uval (UintToArith256 (powLimit P)))
      (uval avg div nat (AveragingWindowTimespan P) * nat s mod 2 ^ 256)"
proof -
  let ?T = "AveragingWindowTimespan P"
  have T: "uval (uint_of_int64 ?T) = nat ?T" using assms(2,3) by (intro uval_of_int64) simp_all
  obtain q where q: "uint_div avg (uint_of_int64 ?T) = Inr q" "wf_uint q" "uval q = uval avg div nat ?T"
    using uint_div_correct [OF assms(1) wf_of_int64, of ?T] assms(2) unfolding T by auto
  have s: "unat (word_of_int s :: u32) = nat s"
    using assms(4,5) by (simp add: unat_eq_nat_uint uint_word_of_int)
  let ?m = "uint_mul32 q (word_of_int s)"
  have m: "uval ?m = uval avg div nat ?T * nat s mod 2 ^ 256"
    using uval_mul32 [OF q(2), of "word_of_int s"] unfolding q(3) s .
  have wm: "wf_uint ?m" by (rule wf_mul32 [OF q(2)])
  show ?thesis
  proof (cases "uint_compare ?m (UintToArith256 (powLimit P)) > 0")
    case True
    then have "uval (UintToArith256 (powLimit P)) < uval ?m"
      using uint_compare_sign(2) [OF wm wf_UintToArith256] by simp
    then show ?thesis unfolding m [symmetric] using True q(1) wf_UintToArith256 by (simp add: retarget_def)
  next
    case False
    then have "uval ?m \<le> uval (UintToArith256 (powLimit P))"
      using uint_compare_sign(2) [OF wm wf_UintToArith256, of "powLimit P"] by simp
    then show ?thesis unfolding m [symmetric] using False q(1) wm by (simp add: retarget_def)
  qed
qed

lemma SetCompact_GetCompact_le:
  assumes "wf_uint a"
  obtains c v where "GetCompact a False = Some c" "SetCompact c = (v, False, False)" "wf_uint v"
    "uval v \<le> uval a" "(uval a - uval v) * 2 ^ 15 \<le> uval a"
  using GetCompact_SetCompact [OF assms] by blast

text \<open>The parameters under which the adjustment neither wraps a span nor divides by zero.\<close>

definition wf_params :: "Params \<Rightarrow> bool" where
  "wf_params P \<longleftrightarrow> 0 < AveragingWindowTimespan P \<and> AveragingWindowTimespan P < 2 ^ 63 \<and>
     0 < nPowAveragingWindow P \<and> nPowAveragingWindow P < 2 ^ 31 \<and>
     0 \<le> MinActualTimespan P \<and> MinActualTimespan P \<le> MaxActualTimespan P \<and>
     MaxActualTimespan P < 2 ^ 32"

lemma CalculateNextWorkRequired_ok:
  assumes "wf_params P" and "wf_uint avg"
  shows "\<exists>c v r. CalculateNextWorkRequired P avg l f = Some c \<and> SetCompact c = (v, False, False) \<and>
    r = min (uval (UintToArith256 (powLimit P)))
      (uval avg div nat (AveragingWindowTimespan P) * nat (bounded_timespan P l f) mod 2 ^ 256) \<and>
    uval v \<le> r \<and> (r - uval v) * 2 ^ 15 \<le> r"
proof -
  let ?s = "bounded_timespan P l f"
  have s: "0 \<le> ?s" "?s < 2 ^ 32"
    using bounded_timespan_bounds [of P l f] assms(1) unfolding wf_params_def by linarith+
  have T: "0 < AveragingWindowTimespan P" "AveragingWindowTimespan P < 2 ^ 63"
    using assms(1) unfolding wf_params_def by simp_all
  obtain b where b: "retarget P avg ?s = Some b" "wf_uint b"
    "uval b = min (uval (UintToArith256 (powLimit P)))
      (uval avg div nat (AveragingWindowTimespan P) * nat ?s mod 2 ^ 256)"
    using retarget_value [OF assms(2) T s] by blast
  obtain c v where c: "GetCompact b False = Some c" "SetCompact c = (v, False, False)" "wf_uint v"
    "uval v \<le> uval b" "(uval b - uval v) * 2 ^ 15 \<le> uval b"
    by (rule SetCompact_GetCompact_le [OF b(2)])
  have "CalculateNextWorkRequired P avg l f = Some c"
    unfolding CalculateNextWorkRequired_def b(1) option.case by (rule c(1))
  then show ?thesis
    using c(2,4,5) unfolding b(3) [symmetric] by (intro exI conjI) (assumption | rule refl)+
qed

lemma wf_sum_targets: "wf_uint t \<Longrightarrow> wf_uint (fst (sum_targets S n p t))"
  by (induction S n p t rule: sum_targets.induct) (simp_all add: wf_add SetCompact_value(2))

text \<open>The next target never exceeds the limit, and the computation never aborts.\<close>

lemma GetNextWorkRequired_ok:
  assumes "wf_params P"
  shows "\<exists>c v. GetNextWorkRequired P S tip = Some c \<and> SetCompact c = (v, False, False) \<and>
    uval v \<le> uval (UintToArith256 (powLimit P))"
proof -
  let ?L = "UintToArith256 (powLimit P)"
  obtain c0 v0 where c0: "GetCompact ?L False = Some c0" "SetCompact c0 = (v0, False, False)"
    "uval v0 \<le> uval ?L"
    by (rule SetCompact_GetCompact_le [OF wf_UintToArith256 [of "powLimit P"]])
  show ?thesis
  proof (cases tip)
    case None
    then show ?thesis using c0 by (simp add: GetNextWorkRequired_def)
  next
    case (Some t)
    obtain tot first where st: "sum_targets S (nat (nPowAveragingWindow P)) tip uint_zero = (tot, first)"
      by (cases "sum_targets S (nat (nPowAveragingWindow P)) tip uint_zero")
    show ?thesis
    proof (cases first)
      case None
      then show ?thesis using c0 Some st by (simp add: GetNextWorkRequired_def)
    next
      case (Some fb)
      have w: "wf_uint tot" using wf_sum_targets [OF wf_zero] st by (metis fst_conv)
      let ?w = "nPowAveragingWindow P"
      have wv: "uval (uint_of_int64 ?w) = nat ?w" "0 < ?w"
        using assms by (auto simp: wf_params_def intro!: uval_of_int64)
      obtain avg where a: "uint_div tot (uint_of_int64 ?w) = Inr avg" "wf_uint avg"
        using uint_div_correct [OF w wf_of_int64, of ?w] wv by auto
      obtain c v r where c: "CalculateNextWorkRequired P avg (GetMedianTimePast S t) (GetMedianTimePast S fb) = Some c"
        "SetCompact c = (v, False, False)" "r \<le> uval ?L" "uval v \<le> r"
        using CalculateNextWorkRequired_ok [OF assms a(2), of "GetMedianTimePast S t" "GetMedianTimePast S fb"]
        by (metis min.cobounded1)
      have "GetNextWorkRequired P S tip = Some c"
        using c0(1) st \<open>tip = Some t\<close> Some a(1) c(1) by (simp add: GetNextWorkRequired_def)
      then show ?thesis using c by (intro exI conjI) (assumption | simp)+
    qed
  qed
qed

subsection \<open>Properties\<close>

text \<open>
  The next work required is always computed (no division by zero, no failed assertion) and
  decodes, with no flag raised, to a target that is not easier than the limit.
\<close>

theorem GetNextWorkRequired_within_limit:
  assumes "wf_params P"
  shows "\<exists>c v. GetNextWorkRequired P S tip = Some c \<and> SetCompact c = (v, False, False) \<and>
    uval v \<le> uval (UintToArith256 (powLimit P))"
  by (rule GetNextWorkRequired_ok [OF assms])

definition sample_params :: Params where
  "sample_params = \<lparr>powLimit = replicate 31 255 @ [0x0f], nPowAveragingWindow = 17,
     nPowTargetSpacing = 150, nPowMaxAdjustDown = 32, nPowMaxAdjustUp = 16\<rparr>"

lemma wf_sample_params: "wf_params sample_params"
  by (simp add: wf_params_def sample_params_def AveragingWindowTimespan_def MinActualTimespan_def
      MaxActualTimespan_def signed_divide_int_def)

lemma GetNextWorkRequired_within_limit_witness:
  "\<exists>c v. GetNextWorkRequired sample_params sample_store (Some 20) = Some c \<and>
    SetCompact c = (v, False, False) \<and> uval v \<le> uval (UintToArith256 (powLimit sample_params))"
  by (rule GetNextWorkRequired_within_limit [OF wf_sample_params])

text \<open>
  The retarget is the average target divided by the window span and scaled by the bounded
  actual span, capped at the limit, up to the precision of the compact encoding.
\<close>

theorem CalculateNextWorkRequired_value:
  assumes "wf_params P" and "wf_uint avg"
  shows "\<exists>c v r. CalculateNextWorkRequired P avg l f = Some c \<and> SetCompact c = (v, False, False) \<and>
    r = min (uval (UintToArith256 (powLimit P)))
      (uval avg div nat (AveragingWindowTimespan P) * nat (bounded_timespan P l f) mod 2 ^ 256) \<and>
    uval v \<le> r \<and> (r - uval v) * 2 ^ 15 \<le> r"
  by (rule CalculateNextWorkRequired_ok [OF assms])

lemma CalculateNextWorkRequired_value_witness:
  "\<exists>c v r. CalculateNextWorkRequired sample_params (uint_of_u64 1000000) 5000 2000 = Some c \<and>
    SetCompact c = (v, False, False) \<and>
    r = min (uval (UintToArith256 (powLimit sample_params))) (392 * nat (bounded_timespan sample_params 5000 2000) mod 2 ^ 256) \<and>
    uval v \<le> r"
  using CalculateNextWorkRequired_value [OF wf_sample_params, of "uint_of_u64 1000000" 5000 2000]
  by (auto simp: wf_of_u64 uval_of_u64 sample_params_def AveragingWindowTimespan_def)

text \<open>
  A hash passes the proof of work check exactly when the decoded target is positive, not
  negative, not easier than the limit (which excludes every overflow), and at least the hash.
\<close>

theorem CheckProofOfWork_accepts:
  "CheckProofOfWork P hash nb \<longleftrightarrow>
    \<not> fst (snd (SetCompact nb)) \<and> 0 < compact_value nb \<and>
    compact_value nb \<le> uval (UintToArith256 (powLimit P)) \<and>
    uval (UintToArith256 hash) \<le> compact_value nb"
  by (rule CheckProofOfWork_iff)

text \<open>
  The work of a block is \<open>2 ^ 256 div (target + 1)\<close>, computed without a number that does not
  fit 256 bits, and zero for a target that is zero, negative or too large.
\<close>

theorem GetBlockProof_work:
  "\<exists>t neg ovf r. SetCompact nb = (t, neg, ovf) \<and> GetBlockProof nb = Some r \<and> wf_uint r \<and>
    uval r = (if neg \<or> ovf \<or> uval t = 0 then 0 else 2 ^ 256 div (uval t + 1))"
  using GetBlockProof_value [of nb] by (cases "SetCompact nb") auto

end
