(* ===== verification/Validation.thy ===== *)
theory Validation
  imports Connect Interpreter Pow Merkle
begin

text \<open>
  The checks of a single transaction (\<open>main.cpp\<close>, \<open>consensus/validation.h\<close>,
  \<open>script/sigcache.cpp\<close>): the validation state, finality and relative lock times, signature
  operation counts, the context-free rules, the values of the inputs, the scripts of the inputs and
  the cache of valid signatures.  \<open>None\<close> is a failed assertion, an exception or a read through an
  iterator or pointer that is not valid.  The checks read coins through a view that they may fill,
  so the cache and the view below it are passed along.
\<close>

unbundle bit_operations_syntax

subsection \<open>The validation state\<close>

definition REJECT_MALFORMED :: nat where "REJECT_MALFORMED = 0x01"
definition REJECT_INVALID :: nat where "REJECT_INVALID = 0x10"
definition REJECT_OBSOLETE :: nat where "REJECT_OBSOLETE = 0x11"
definition REJECT_DUPLICATE :: nat where "REJECT_DUPLICATE = 0x12"
definition REJECT_NONSTANDARD :: nat where "REJECT_NONSTANDARD = 0x40"
definition REJECT_DUST :: nat where "REJECT_DUST = 0x41"
definition REJECT_INSUFFICIENTFEE :: nat where "REJECT_INSUFFICIENTFEE = 0x42"
definition REJECT_CHECKPOINT :: nat where "REJECT_CHECKPOINT = 0x43"
definition REJECT_ACOOUNTNAME_CREATE :: nat where "REJECT_ACOOUNTNAME_CREATE = 0x44"

datatype mode_state = MODE_VALID | MODE_INVALID | MODE_ERROR

record CValidationState =
  vs_mode :: mode_state
  vs_nDoS :: int
  strRejectReason :: string
  chRejectCode :: nat
  corruptionPossible :: bool
  strDebugMessage :: string

definition CValidationState_new :: CValidationState where
  "CValidationState_new = \<lparr>vs_mode = MODE_VALID, vs_nDoS = 0, strRejectReason = [], chRejectCode = 0,
     corruptionPossible = False, strDebugMessage = []\<rparr>"

definition state_DoS :: "int \<Rightarrow> nat \<Rightarrow> string \<Rightarrow> bool \<Rightarrow> string \<Rightarrow> CValidationState \<Rightarrow> CValidationState" where
  "state_DoS level chRejectCodeIn strRejectReasonIn corruptionIn strDebugMessageIn st =
     (let st = st\<lparr>chRejectCode := chRejectCodeIn, strRejectReason := strRejectReasonIn,
                 corruptionPossible := corruptionIn, strDebugMessage := strDebugMessageIn\<rparr>
      in if vs_mode st \<noteq> MODE_ERROR then st\<lparr>vs_nDoS := vs_nDoS st + level, vs_mode := MODE_INVALID\<rparr> else st)"

definition state_Invalid :: "nat \<Rightarrow> string \<Rightarrow> string \<Rightarrow> CValidationState \<Rightarrow> CValidationState" where
  "state_Invalid code reason debug st = state_DoS 0 code reason False debug st"

definition state_Error :: "string \<Rightarrow> CValidationState \<Rightarrow> CValidationState" where
  "state_Error strRejectReasonIn st =
     (let st = (if vs_mode st = MODE_VALID then st\<lparr>strRejectReason := strRejectReasonIn\<rparr> else st)
      in st\<lparr>vs_mode := MODE_ERROR\<rparr>)"

definition state_IsValid :: "CValidationState \<Rightarrow> bool" where
  "state_IsValid st \<longleftrightarrow> vs_mode st = MODE_VALID"

definition state_IsInvalid :: "CValidationState \<Rightarrow> bool" where
  "state_IsInvalid st \<longleftrightarrow> vs_mode st = MODE_INVALID"

definition state_IsError :: "CValidationState \<Rightarrow> bool" where
  "state_IsError st \<longleftrightarrow> vs_mode st = MODE_ERROR"

text \<open>The overload that also sets \<open>nDoSOut\<close>.\<close>

definition state_IsInvalid_DoS :: "CValidationState \<Rightarrow> int \<Rightarrow> bool \<times> int" where
  "state_IsInvalid_DoS st nDoSOut = (if state_IsInvalid st then (True, vs_nDoS st) else (False, nDoSOut))"

text \<open>A rejection of a state that is still valid.\<close>

definition reject :: "int \<Rightarrow> nat \<Rightarrow> string \<Rightarrow> CValidationState" where
  "reject level code reason = state_DoS level code reason False [] CValidationState_new"

subsection \<open>Lock times\<close>

definition LOCKTIME_VERIFY_SEQUENCE :: nat where "LOCKTIME_VERIFY_SEQUENCE = 0"
definition LOCKTIME_MEDIAN_TIME_PAST :: nat where "LOCKTIME_MEDIAN_TIME_PAST = 1"

definition IsFinalTx :: "CTransaction \<Rightarrow> int \<Rightarrow> int \<Rightarrow> bool" where
  "IsFinalTx tx nBlockHeight nBlockTime \<longleftrightarrow>
     (if nLockTime tx = 0 then True
      else if uint (nLockTime tx) < (if uint (nLockTime tx) < int LOCKTIME_THRESHOLD then nBlockHeight else nBlockTime)
      then True
      else list_all (\<lambda>txin. nSequence txin = SEQUENCE_FINAL) (vin tx))"

text \<open>
  \<open>flags\<close> is signed, a negative value counts as none; the tip of the chain is not null when its median time is read.
\<close>

definition CheckFinalTx :: "block_store \<Rightarrow> CChain \<Rightarrow> int \<Rightarrow> CTransaction \<Rightarrow> int \<Rightarrow> bool option" where
  "CheckFinalTx S chainActive adjusted_time tx flags =
     (let flags = max flags 0; nBlockHeight = Height chainActive + 1
      in if bit flags LOCKTIME_MEDIAN_TIME_PAST
         then map_option (\<lambda>tip. IsFinalTx tx nBlockHeight (GetMedianTimePast S tip)) (Tip chainActive)
         else Some (IsFinalTx tx nBlockHeight adjusted_time))"

text \<open>The loop over the inputs; it clears the heights of inputs without a relative lock.\<close>

fun sequence_locks_loop :: "block_store \<Rightarrow> block_id \<Rightarrow> (CTxIn \<times> int) list \<Rightarrow> int \<Rightarrow> int \<Rightarrow> int list \<Rightarrow>
    ((int \<times> int) \<times> int list) option" where
  "sequence_locks_loop S block [] nMinHeight nMinTime heights = Some ((nMinHeight, nMinTime), heights)"
| "sequence_locks_loop S block ((txin, nCoinHeight) # is) nMinHeight nMinTime heights =
     (if nSequence txin AND SEQUENCE_LOCKTIME_DISABLE_FLAG \<noteq> 0
      then sequence_locks_loop S block is nMinHeight nMinTime (heights @ [0])
      else if nSequence txin AND SEQUENCE_LOCKTIME_TYPE_FLAG \<noteq> 0
      then (case GetAncestor S block (max (nCoinHeight - 1) 0) of
              Some (Some ancestor) \<Rightarrow>
                sequence_locks_loop S block is nMinHeight
                  (max nMinTime (GetMedianTimePast S ancestor +
                     uint (push_bit SEQUENCE_LOCKTIME_GRANULARITY (nSequence txin AND SEQUENCE_LOCKTIME_MASK)) - 1))
                  (heights @ [nCoinHeight])
            | _ \<Rightarrow> None)
      else sequence_locks_loop S block is
             (max nMinHeight (nCoinHeight + uint (nSequence txin AND SEQUENCE_LOCKTIME_MASK) - 1)) nMinTime
             (heights @ [nCoinHeight]))"

definition CalculateSequenceLocks :: "block_store \<Rightarrow> CTransaction \<Rightarrow> int \<Rightarrow> int list \<Rightarrow> block_id \<Rightarrow>
    ((int \<times> int) \<times> int list) option" where
  "CalculateSequenceLocks S tx flags prevHeights block =
     (if length prevHeights \<noteq> length (vin tx) then None
      else let fEnforceBIP68 = (tx_nVersion tx \<ge> 2 \<and> bit flags LOCKTIME_VERIFY_SEQUENCE)
           in if \<not> fEnforceBIP68 then Some ((- 1, - 1), prevHeights)
              else sequence_locks_loop S block (zip (vin tx) prevHeights) (- 1) (- 1) [])"

definition EvaluateSequenceLocks :: "block_store \<Rightarrow> block_id \<Rightarrow> int \<times> int \<Rightarrow> bool option" where
  "EvaluateSequenceLocks S block lockPair =
     (case pprev (S block) of
        None \<Rightarrow> None
      | Some p \<Rightarrow>
          let nBlockTime = GetMedianTimePast S p
          in if fst lockPair \<ge> nHeight (S block) \<or> snd lockPair \<ge> nBlockTime then Some False else Some True)"

definition SequenceLocks :: "block_store \<Rightarrow> CTransaction \<Rightarrow> int \<Rightarrow> int list \<Rightarrow> block_id \<Rightarrow> (bool \<times> int list) option" where
  "SequenceLocks S tx flags prevHeights block =
     (case CalculateSequenceLocks S tx flags prevHeights block of
        None \<Rightarrow> None
      | Some (lockPair, heights) \<Rightarrow> map_option (\<lambda>ok. (ok, heights)) (EvaluateSequenceLocks S block lockPair))"

subsection \<open>Signature operations\<close>

definition GetLegacySigOpCount :: "CTransaction \<Rightarrow> nat" where
  "GetLegacySigOpCount tx =
     (let nSigOps = foldl (\<lambda>n txin. n + GetSigOpCount (scriptSig txin) False) 0 (vin tx)
      in foldl (\<lambda>n txout. n + GetSigOpCount (scriptPubKey txout) False) nSigOps (vout tx))"

fun p2sh_sigops_loop :: "CTxIn list \<Rightarrow> nat \<Rightarrow> CCoinsViewCache \<Rightarrow> CCoinsView \<Rightarrow> (nat \<times> CCoinsViewCache \<times> CCoinsView) option" where
  "p2sh_sigops_loop [] nSigOps c below = Some (nSigOps, c, below)"
| "p2sh_sigops_loop (txin # is) nSigOps c below =
     (case GetOutputFor txin c below of
        None \<Rightarrow> None
      | Some (out, c, below) \<Rightarrow>
          p2sh_sigops_loop is
            (if IsPayToScriptHash (scriptPubKey out)
             then nSigOps + GetSigOpCount_P2SH (scriptPubKey out) (scriptSig txin) else nSigOps) c below)"

definition GetP2SHSigOpCount :: "CTransaction \<Rightarrow> CCoinsViewCache \<Rightarrow> CCoinsView \<Rightarrow> (nat \<times> CCoinsViewCache \<times> CCoinsView) option" where
  "GetP2SHSigOpCount tx c below = (if IsCoinBase tx then Some (0, c, below) else p2sh_sigops_loop (vin tx) 0 c below)"

subsection \<open>Checks without context\<close>

text \<open>The reason for a rejection of the outputs.\<close>

fun check_outputs_loop :: "CTxOut list \<Rightarrow> CAmount \<Rightarrow> string option" where
  "check_outputs_loop [] nValueOut = None"
| "check_outputs_loop (txout # outs) nValueOut =
     (if nValue txout < 0 then Some ''bad-txns-vout-negative''
      else if nValue txout > MAX_MONEY then Some ''bad-txns-vout-toolarge''
      else let nValueOut = nValueOut + nValue txout
        in if \<not> MoneyRange nValueOut then Some ''bad-txns-txouttotal-toolarge''
           else check_outputs_loop outs nValueOut)"

fun duplicate_input :: "CTxIn list \<Rightarrow> COutPoint set \<Rightarrow> bool" where
  "duplicate_input [] vInOutPoints = False"
| "duplicate_input (txin # is) vInOutPoints =
     (if prevout txin \<in> vInOutPoints then True else duplicate_input is (insert (prevout txin) vInOutPoints))"

definition CheckTransaction :: "CTransaction \<Rightarrow> CValidationState" where
  "CheckTransaction tx =
     (if vin tx = [] then reject 10 REJECT_INVALID ''bad-txns-vin-empty''
      else if vout tx = [] then reject 10 REJECT_INVALID ''bad-txns-vout-empty''
      else if length (Serialize_CTransaction tx) > MAX_BLOCK_SIZE then reject 100 REJECT_INVALID ''bad-txns-oversize''
      else case check_outputs_loop (vout tx) 0 of Some reason \<Rightarrow> reject 100 REJECT_INVALID reason
      | None \<Rightarrow>
      if duplicate_input (vin tx) {} then reject 100 REJECT_INVALID ''bad-txns-inputs-duplicate''
      else if IsCoinBase tx
      then if length (scriptSig (vin tx ! 0)) < 2 \<or> length (scriptSig (vin tx ! 0)) > 100
           then reject 100 REJECT_INVALID ''bad-cb-length'' else CValidationState_new
      else if list_ex (\<lambda>txin. COutPoint_IsNull (prevout txin)) (vin tx)
           then reject 10 REJECT_INVALID ''bad-txns-prevout-null'' else CValidationState_new)"

subsection \<open>Values of the inputs\<close>

definition COINBASE_MATURITY :: int where "COINBASE_MATURITY = 100"

text \<open>
  The height of a block that spends from the view: the block of the view is looked up in the index.
\<close>

definition GetSpendHeight :: "block_store \<Rightarrow> (uint256 \<Rightarrow> block_id option) \<Rightarrow> CCoinsViewCache \<Rightarrow> CCoinsView \<Rightarrow>
    (int \<times> CCoinsViewCache \<times> CCoinsView) option" where
  "GetSpendHeight S mapBlockIndex c below =
     (case GetBestBlock (CoinsCache c below) of
        (h, CoinsCache c below) \<Rightarrow> map_option (\<lambda>p. (nHeight (S p) + 1, c, below)) (mapBlockIndex h)
      | _ \<Rightarrow> None)"

text \<open>
  The formatting functions are given patterns of another library, so the debug message is the
  pattern itself.  The reason for a rejection is \<open>Inl\<close>, the value of the inputs \<open>Inr\<close>.
\<close>

fun tx_inputs_loop :: "int \<Rightarrow> CTxIn list \<Rightarrow> CAmount \<Rightarrow> CValidationState \<Rightarrow> CCoinsViewCache \<Rightarrow> CCoinsView \<Rightarrow>
    ((CValidationState + CAmount) \<times> CCoinsViewCache \<times> CCoinsView) option" where
  "tx_inputs_loop nSpendHeight [] nValueIn st c below = Some (Inr nValueIn, c, below)"
| "tx_inputs_loop nSpendHeight (txin # is) nValueIn st c below =
     (case AccessCoins (op_hash (prevout txin)) c below of
        (None, c, below) \<Rightarrow> None
      | (Some coins, c, below) \<Rightarrow>
          if fCoinBase coins \<and> nSpendHeight - coins_nHeight coins < COINBASE_MATURITY
          then Some (Inl (state_Invalid REJECT_INVALID ''bad-txns-premature-spend-of-coinbase''
                 ''tried to spend coinbase at depth %d'' st), c, below)
          else if length (coins_vout coins) \<le> unat (op_n (prevout txin)) then None
          else let v = nValue (coins_vout coins ! unat (op_n (prevout txin))); nValueIn = nValueIn + v
            in if \<not> MoneyRange v \<or> \<not> MoneyRange nValueIn
               then Some (Inl (state_DoS 100 REJECT_INVALID ''bad-txns-inputvalues-outofrange'' False [] st), c, below)
               else tx_inputs_loop nSpendHeight is nValueIn st c below)"

definition CheckTxInputs :: "CTransaction \<Rightarrow> CValidationState \<Rightarrow> int \<Rightarrow> CCoinsViewCache \<Rightarrow> CCoinsView \<Rightarrow>
    (bool \<times> CValidationState \<times> CCoinsViewCache \<times> CCoinsView) option" where
  "CheckTxInputs tx st nSpendHeight c below =
     (case HaveInputs tx c below of
        (False, c, below) \<Rightarrow> Some (False, state_Invalid 0 [] ''Inputs unavailable'' st, c, below)
      | (True, c, below) \<Rightarrow>
     (case tx_inputs_loop nSpendHeight (vin tx) 0 st c below of
        None \<Rightarrow> None
      | Some (Inl st, c, below) \<Rightarrow> Some (False, st, c, below)
      | Some (Inr nValueIn, c, below) \<Rightarrow>
     (case GetValueOut tx of
        None \<Rightarrow> None
      | Some nValueOut \<Rightarrow>
          if nValueIn < nValueOut
          then Some (False, state_DoS 100 REJECT_INVALID ''bad-txns-in-belowout'' False
                 ''value in (%s) < value out (%s)'' st, c, below)
          else let nTxFee = nValueIn - nValueOut
            in if nTxFee < 0
               then Some (False, state_DoS 100 REJECT_INVALID ''bad-txns-fee-negative'' False [] st, c, below)
               else let nFees = 0 + nTxFee
                 in if \<not> MoneyRange nFees
                    then Some (False, state_DoS 100 REJECT_INVALID ''bad-txns-fee-outofrange'' False [] st, c, below)
                    else Some (True, st, c, below))))"

subsection \<open>The cache of valid signatures\<close>

definition DEFAULT_MAX_SIG_CACHE_SIZE :: nat where "DEFAULT_MAX_SIG_CACHE_SIZE = 40"

record CSignatureCache =
  sc_nonce :: uint256
  setValid :: "uint256 set"

definition ComputeEntry :: "CSignatureCache \<Rightarrow> uint256 \<Rightarrow> bytes \<Rightarrow> bytes \<Rightarrow> uint256" where
  "ComputeEntry sc hash vchSig pubkey =
     snd (CSHA256_Finalize (CSHA256_Write (CSHA256_Write (CSHA256_Write (CSHA256_Write (CSHA256 (replicate 64 0))
       (sc_nonce sc)) hash) pubkey) vchSig))"

definition sigcache_Get :: "CSignatureCache \<Rightarrow> uint256 \<Rightarrow> bool" where
  "sigcache_Get sc entry \<longleftrightarrow> entry \<in> setValid sc"

definition sigcache_Erase :: "CSignatureCache \<Rightarrow> uint256 \<Rightarrow> CSignatureCache" where
  "sigcache_Erase sc entry = sc\<lparr>setValid := setValid sc - {entry}\<rparr>"

text \<open>The memory that a set uses and the entries that the random buckets offer are arguments.\<close>

fun evict_loop :: "(uint256 set \<Rightarrow> nat) \<Rightarrow> nat \<Rightarrow> uint256 list \<Rightarrow> uint256 set \<Rightarrow> uint256 set" where
  "evict_loop DynamicUsage nMaxCacheSize [] s = s"
| "evict_loop DynamicUsage nMaxCacheSize (e # es) s =
     (if DynamicUsage s > nMaxCacheSize then evict_loop DynamicUsage nMaxCacheSize es (s - {e}) else s)"

definition sigcache_Set :: "(uint256 set \<Rightarrow> nat) \<Rightarrow> nat \<Rightarrow> uint256 list \<Rightarrow> CSignatureCache \<Rightarrow> uint256 \<Rightarrow> CSignatureCache" where
  "sigcache_Set DynamicUsage maxsigcachesize offered sc entry =
     (let nMaxCacheSize = maxsigcachesize * 2 ^ 20
      in if nMaxCacheSize \<le> 0 then sc
         else sc\<lparr>setValid := insert entry (evict_loop DynamicUsage nMaxCacheSize offered (setValid sc))\<rparr>)"

text \<open>\<open>verify\<close> is \<open>CPubKey::Verify\<close>.\<close>

definition caching_VerifySignature :: "(bytes \<Rightarrow> uint256 \<Rightarrow> bytes \<Rightarrow> bool) \<Rightarrow> (uint256 set \<Rightarrow> nat) \<Rightarrow> nat \<Rightarrow> uint256 list \<Rightarrow> bool \<Rightarrow>
    bytes \<Rightarrow> bytes \<Rightarrow> uint256 \<Rightarrow> CSignatureCache \<Rightarrow> bool \<times> CSignatureCache" where
  "caching_VerifySignature verify DynamicUsage maxsigcachesize offered store vchSig pubkey sighash sc =
     (let entry = ComputeEntry sc sighash vchSig pubkey in
      if sigcache_Get sc entry then (True, if \<not> store then sigcache_Erase sc entry else sc)
      else if \<not> verify pubkey sighash vchSig then (False, sc)
      else (True, if store then sigcache_Set DynamicUsage maxsigcachesize offered sc entry else sc))"

subsection \<open>Scripts of the inputs\<close>

definition flag_word :: "nat list \<Rightarrow> u32" where
  "flag_word ns = foldr (\<lambda>n w. push_bit n 1 OR w) ns 0"

definition MANDATORY_SCRIPT_VERIFY_FLAGS :: u32 where
  "MANDATORY_SCRIPT_VERIFY_FLAGS = flag_word [SCRIPT_VERIFY_P2SH]"

definition STANDARD_SCRIPT_VERIFY_FLAGS :: u32 where
  "STANDARD_SCRIPT_VERIFY_FLAGS = MANDATORY_SCRIPT_VERIFY_FLAGS OR
     flag_word [SCRIPT_VERIFY_DERSIG, SCRIPT_VERIFY_STRICTENC, SCRIPT_VERIFY_MINIMALDATA, SCRIPT_VERIFY_NULLDUMMY,
       SCRIPT_VERIFY_DISCOURAGE_UPGRADABLE_NOPS, SCRIPT_VERIFY_CLEANSTACK, SCRIPT_VERIFY_CHECKLOCKTIMEVERIFY,
       SCRIPT_VERIFY_CHECKSEQUENCEVERIFY, SCRIPT_VERIFY_LOW_S]"

definition STANDARD_NOT_MANDATORY_VERIFY_FLAGS :: u32 where
  "STANDARD_NOT_MANDATORY_VERIFY_FLAGS = STANDARD_SCRIPT_VERIFY_FLAGS AND NOT MANDATORY_SCRIPT_VERIFY_FLAGS"

record CScriptCheck =
  sck_scriptPubKey :: CScript
  sck_ptxTo :: CTransaction
  sck_nIn :: nat
  sck_nFlags :: u32
  sck_cacheStore :: bool

definition CScriptCheck_of :: "CCoins \<Rightarrow> CTransaction \<Rightarrow> nat \<Rightarrow> u32 \<Rightarrow> bool \<Rightarrow> CScriptCheck option" where
  "CScriptCheck_of txFromIn txToIn nInIn nFlagsIn cacheIn =
     (let n = unat (op_n (prevout (vin txToIn ! nInIn)))
      in if n < length (coins_vout txFromIn)
         then Some \<lparr>sck_scriptPubKey = scriptPubKey (coins_vout txFromIn ! n), sck_ptxTo = txToIn, sck_nIn = nInIn,
                sck_nFlags = nFlagsIn, sck_cacheStore = cacheIn\<rparr>
         else None)"

text \<open>
  The checker of a transaction; \<open>verify\<close> stands for the verification of a signature through the
  cache and \<open>lowS\<close> for \<open>CPubKey::CheckLowS\<close>.
\<close>

definition tx_checker :: "(bool \<Rightarrow> bytes \<Rightarrow> uint256 \<Rightarrow> bytes \<Rightarrow> bool) \<Rightarrow> (bytes \<Rightarrow> bool) \<Rightarrow> CTransaction \<Rightarrow> nat \<Rightarrow> bool \<Rightarrow> SignatureChecker" where
  "tx_checker verify lowS txTo nIn store =
     \<lparr>chk_CheckSig = tx_CheckSig (verify store) txTo nIn, chk_CheckLockTime = tx_CheckLockTime txTo nIn,
      chk_CheckSequence = tx_CheckSequence txTo nIn, chk_CheckLowS = lowS\<rparr>"

definition CScriptCheck_Verify :: "(CTransaction \<Rightarrow> nat \<Rightarrow> bool \<Rightarrow> SignatureChecker) \<Rightarrow> CScriptCheck \<Rightarrow> ScriptError option" where
  "CScriptCheck_Verify checker sck =
     (let ssig = scriptSig (vin (sck_ptxTo sck) ! sck_nIn sck)
      in VerifyScript ssig (sck_scriptPubKey sck) (sck_nFlags sck)
           (checker (sck_ptxTo sck) (sck_nIn sck) (sck_cacheStore sck)))"

text \<open>
  The loop over the inputs: with a list of checks the checks are only collected, without one they
  are run.  A failure leaves the loop with the state.
\<close>

fun script_checks_loop :: "(CTransaction \<Rightarrow> nat \<Rightarrow> bool \<Rightarrow> SignatureChecker) \<Rightarrow> CTransaction \<Rightarrow> u32 \<Rightarrow> bool \<Rightarrow> nat list \<Rightarrow>
    CValidationState \<Rightarrow> CScriptCheck list option \<Rightarrow> CCoinsViewCache \<Rightarrow> CCoinsView \<Rightarrow>
    (CValidationState \<times> CScriptCheck list option \<times> CCoinsViewCache \<times> CCoinsView) option" where
  "script_checks_loop checker tx flags cacheStore [] st pvChecks c below = Some (st, pvChecks, c, below)"
| "script_checks_loop checker tx flags cacheStore (i # is) st pvChecks c below =
     (case AccessCoins (op_hash (prevout (vin tx ! i))) c below of
        (None, c, below) \<Rightarrow> None
      | (Some coins, c, below) \<Rightarrow>
     (case CScriptCheck_of coins tx i flags cacheStore of
        None \<Rightarrow> None
      | Some check \<Rightarrow>
     (case pvChecks of
        Some checks \<Rightarrow> script_checks_loop checker tx flags cacheStore is st (Some (checks @ [check])) c below
      | None \<Rightarrow>
     (case CScriptCheck_Verify checker check of
        None \<Rightarrow> None
      | Some error \<Rightarrow>
          if error = SCRIPT_ERR_OK then script_checks_loop checker tx flags cacheStore is st pvChecks c below
          else if flags AND STANDARD_NOT_MANDATORY_VERIFY_FLAGS \<noteq> 0
          then (case CScriptCheck_Verify checker (check\<lparr>sck_nFlags := flags AND NOT STANDARD_NOT_MANDATORY_VERIFY_FLAGS\<rparr>) of
                  None \<Rightarrow> None
                | Some error \<Rightarrow>
                    if error \<noteq> SCRIPT_ERR_OK
                    then Some (state_Invalid REJECT_NONSTANDARD
                           (''non-mandatory-script-verify-flag ('' @ ScriptErrorString error @ '')'') [] st, pvChecks, c, below)
                    else Some (state_DoS 100 REJECT_INVALID ''mandatory-script-verify-flag-failed (%s)'' False [] st,
                           pvChecks, c, below))
          else Some (state_DoS 100 REJECT_INVALID ''mandatory-script-verify-flag-failed (%s)'' False [] st,
                 pvChecks, c, below)))))"

definition CheckInputs :: "(CTransaction \<Rightarrow> nat \<Rightarrow> bool \<Rightarrow> SignatureChecker) \<Rightarrow> block_store \<Rightarrow> (uint256 \<Rightarrow> block_id option) \<Rightarrow>
    CTransaction \<Rightarrow> bool \<Rightarrow> u32 \<Rightarrow> bool \<Rightarrow> CScriptCheck list option \<Rightarrow> CCoinsViewCache \<Rightarrow> CCoinsView \<Rightarrow>
    (CValidationState \<times> CScriptCheck list option \<times> CCoinsViewCache \<times> CCoinsView) option" where
  "CheckInputs checker S mapBlockIndex tx fScriptChecks flags cacheStore pvChecks c below =
     (let st = CValidationState_new in
      if IsCoinBase tx then Some (st, pvChecks, c, below)
      else case GetSpendHeight S mapBlockIndex c below of None \<Rightarrow> None
      | Some (nSpendHeight, c, below) \<Rightarrow>
     (case CheckTxInputs tx st nSpendHeight c below of
        None \<Rightarrow> None
      | Some (ok, st, c, below) \<Rightarrow>
          if \<not> ok then Some (st, pvChecks, c, below)
          else if fScriptChecks
          then script_checks_loop checker tx flags cacheStore [0 ..< length (vin tx)] st pvChecks c below
          else Some (st, pvChecks, c, below)))"

subsection \<open>Reading inputs through the view\<close>

declare view_ok.simps [simp del] visible.simps [simp del]

text \<open>Two states of a cache that show the same.\<close>

definition same_view :: "CCoinsViewCache \<Rightarrow> CCoinsView \<Rightarrow> CCoinsViewCache \<Rightarrow> CCoinsView \<Rightarrow> bool" where
  "same_view c below c' below' \<longleftrightarrow> view_ok (CoinsCache c' below') \<and>
     unspent (CoinsCache c' below') = unspent (CoinsCache c below) \<and> unspent below' = unspent below \<and>
     hasModifier c' = hasModifier c"

lemma same_view_refl: "view_ok (CoinsCache c below) \<Longrightarrow> same_view c below c below"
  by (simp add: same_view_def)

lemma same_view_trans: "same_view c below c1 b1 \<Longrightarrow> same_view c1 b1 c2 b2 \<Longrightarrow> same_view c below c2 b2"
  by (simp add: same_view_def)

lemma same_viewD:
  "same_view c below c' below' \<Longrightarrow> view_ok (CoinsCache c' below')"
  "same_view c below c' below' \<Longrightarrow> unspent (CoinsCache c' below') = unspent (CoinsCache c below)"
  by (simp_all add: same_view_def)

lemma AccessCoins_shows:
  assumes "view_ok (CoinsCache c below)" "AccessCoins t c below = (it, c', below')"
  shows "same_view c below c' below'" "it = visible (CoinsCache c below) t"
  using assms FetchCoins_ok [OF assms(1), of t] AccessCoins_ok [OF assms]
  by (auto simp: AccessCoins_def same_view_def split: prod.splits)

lemma available_unspent:
  "visible v t = Some x \<Longrightarrow> IsAvailable x n \<Longrightarrow> unspent v t = Some x"
  by (auto simp: unspent_def live_def IsAvailable_def IsPruned_def list_all_length)

lemma unspent_visible: "unspent v t = Some x \<Longrightarrow> visible v t = Some x"
  by (auto simp: unspent_def live_def bind_eq_Some_conv split: if_splits)

text \<open>The coins and the output that an input spends.\<close>

definition spent_coins :: "(uint256 \<Rightarrow> CCoins option) \<Rightarrow> CTxIn \<Rightarrow> CCoins option" where
  "spent_coins u i =
     (case u (op_hash (prevout i)) of
        None \<Rightarrow> None
      | Some x \<Rightarrow> if IsAvailable x (unat (op_n (prevout i))) then Some x else None)"

definition spent_value :: "(uint256 \<Rightarrow> CCoins option) \<Rightarrow> CTxIn \<Rightarrow> CAmount" where
  "spent_value u i =
     (case spent_coins u i of None \<Rightarrow> 0 | Some x \<Rightarrow> nValue (coins_vout x ! unat (op_n (prevout i))))"

definition inputs_available :: "(uint256 \<Rightarrow> CCoins option) \<Rightarrow> CTransaction \<Rightarrow> bool" where
  "inputs_available u tx \<longleftrightarrow> list_all (\<lambda>i. spent_coins u i \<noteq> None) (vin tx)"

definition value_in :: "(uint256 \<Rightarrow> CCoins option) \<Rightarrow> CTransaction \<Rightarrow> CAmount" where
  "value_in u tx = sum_list (map (spent_value u) (vin tx))"

definition mature :: "(uint256 \<Rightarrow> CCoins option) \<Rightarrow> int \<Rightarrow> CTxIn \<Rightarrow> bool" where
  "mature u h i \<longleftrightarrow> (case spent_coins u i of None \<Rightarrow> True | Some x \<Rightarrow> fCoinBase x \<longrightarrow> coins_nHeight x + COINBASE_MATURITY \<le> h)"

lemma spent_coins_visible:
  "spent_coins (unspent v) i = Some x \<longleftrightarrow> visible v (op_hash (prevout i)) = Some x \<and> IsAvailable x (unat (op_n (prevout i)))"
proof
  assume "spent_coins (unspent v) i = Some x"
  then have "unspent v (op_hash (prevout i)) = Some x" "IsAvailable x (unat (op_n (prevout i)))"
    by (auto simp: spent_coins_def split: option.splits if_splits)
  then show "visible v (op_hash (prevout i)) = Some x \<and> IsAvailable x (unat (op_n (prevout i)))"
    by (simp add: unspent_visible)
next
  assume "visible v (op_hash (prevout i)) = Some x \<and> IsAvailable x (unat (op_n (prevout i)))"
  then have "unspent v (op_hash (prevout i)) = Some x" "IsAvailable x (unat (op_n (prevout i)))"
    using available_unspent by blast+
  then show "spent_coins (unspent v) i = Some x" by (simp add: spent_coins_def)
qed

lemma have_inputs_loop_ok:
  "view_ok (CoinsCache c below) \<Longrightarrow> have_inputs_loop is c below = (r, c', below') \<Longrightarrow>
   same_view c below c' below' \<and> (r \<longleftrightarrow> list_all (\<lambda>i. spent_coins (unspent (CoinsCache c below)) i \<noteq> None) is)"
proof (induction "is" arbitrary: c below)
  case (Cons i "is")
  obtain it c1 b1 where a: "AccessCoins (op_hash (prevout i)) c below = (it, c1, b1)" by (rule prod_cases3)
  note sv = AccessCoins_shows [OF Cons.prems(1) a]
  have e: "spent_coins (unspent (CoinsCache c below)) i =
      (case it of None \<Rightarrow> None | Some x \<Rightarrow> if IsAvailable x (unat (op_n (prevout i))) then Some x else None)"
    proof (cases it)
    case None
    then have "spent_coins (unspent (CoinsCache c below)) i \<noteq> Some x" for x
      using sv(2) by (simp add: spent_coins_visible)
    then show ?thesis using None by (cases "spent_coins (unspent (CoinsCache c below)) i") auto
  next
    case (Some x)
    then have v: "visible (CoinsCache c below) (op_hash (prevout i)) = Some x" using sv(2) by simp
    then have "spent_coins (unspent (CoinsCache c below)) i = Some y \<longleftrightarrow> y = x \<and> IsAvailable x (unat (op_n (prevout i)))" for y
      by (auto simp: spent_coins_visible)
    then show ?thesis using Some by (cases "spent_coins (unspent (CoinsCache c below)) i") auto
  qed
  show ?case
  proof (cases "spent_coins (unspent (CoinsCache c below)) i")
    case None
    then show ?thesis using Cons.prems(2) sv(1) by (auto simp: a e split: option.splits if_splits)
  next
    case (Some x)
    then have "have_inputs_loop is c1 b1 = (r, c', below')"
      using Cons.prems(2) by (auto simp: a e split: option.splits if_splits)
    from Cons.IH [OF same_viewD(1) [OF sv(1)] this] show ?thesis
      using Some sv(1) same_view_trans same_viewD(2) [OF sv(1)] by auto
  qed
qed (simp add: same_view_refl)

lemma state_DoS_invalid [simp]: "\<not> state_IsValid (state_DoS level code reason corrupt debug st)"
  by (simp add: state_DoS_def state_IsValid_def Let_def)

lemma state_Invalid_invalid [simp]: "\<not> state_IsValid (state_Invalid code reason debug st)"
  by (simp add: state_Invalid_def)

definition inputs_fine :: "(uint256 \<Rightarrow> CCoins option) \<Rightarrow> int \<Rightarrow> CAmount \<Rightarrow> CTxIn list \<Rightarrow> bool" where
  "inputs_fine u h v is \<longleftrightarrow> list_all (\<lambda>i. mature u h i \<and> MoneyRange (spent_value u i)) is \<and>
     v + sum_list (map (spent_value u) is) \<le> MAX_MONEY"

lemma sum_spent_nonneg:
  "list_all (\<lambda>i. mature u h i \<and> MoneyRange (spent_value u i)) is \<Longrightarrow> 0 \<le> sum_list (map (spent_value u) is)"
  by (rule sum_list_nonneg) (auto simp: list_all_iff MoneyRange_def)

lemma inputs_fine_Cons:
  "inputs_fine u h v (i # is) \<longleftrightarrow>
     mature u h i \<and> MoneyRange (spent_value u i) \<and> v + spent_value u i \<le> MAX_MONEY \<and> inputs_fine u h (v + spent_value u i) is"
  using sum_spent_nonneg [of u h "is"] by (auto simp: inputs_fine_def)

lemma tx_inputs_loop_ok:
  "view_ok (CoinsCache c below) \<Longrightarrow> u = unspent (CoinsCache c below) \<Longrightarrow>
   list_all (\<lambda>i. spent_coins u i \<noteq> None) is \<Longrightarrow> 0 \<le> v \<Longrightarrow>
   \<exists>r c' below'. tx_inputs_loop h is v st c below = Some (r, c', below') \<and> same_view c below c' below' \<and>
     (if inputs_fine u h v is then r = Inr (v + sum_list (map (spent_value u) is))
      else \<exists>st'. r = Inl st' \<and> \<not> state_IsValid st')" if "v \<le> MAX_MONEY"
  using that
proof (induction "is" arbitrary: c below v)
  case Nil
  then show ?case by (simp add: same_view_refl inputs_fine_def)
next
  case (Cons i "is")
  obtain it c1 b1 where a: "AccessCoins (op_hash (prevout i)) c below = (it, c1, b1)" by (rule prod_cases3)
  note sv = AccessCoins_shows [OF Cons.prems(1) a]
  from Cons.prems(3) obtain x where x: "spent_coins u i = Some x" by auto
  then have it: "it = Some x" and av: "IsAvailable x (unat (op_n (prevout i)))"
    using spent_coins_visible [of "CoinsCache c below" i x] sv(2) Cons.prems(2) by auto
  have lt: "unat (op_n (prevout i)) < length (coins_vout x)" using av by (simp add: IsAvailable_def)
  have val: "spent_value u i = nValue (coins_vout x ! unat (op_n (prevout i)))" using x by (simp add: spent_value_def)
  have mat: "mature u h i \<longleftrightarrow> \<not> (fCoinBase x \<and> h - coins_nHeight x < COINBASE_MATURITY)"
    using x by (auto simp: mature_def)
  show ?case
  proof (cases "mature u h i \<and> MoneyRange (spent_value u i) \<and> v + spent_value u i \<le> MAX_MONEY")
    case True
    then have "0 \<le> v + spent_value u i" using Cons.prems(4) by (simp add: MoneyRange_def)
    from Cons.IH [OF same_viewD(1) [OF sv(1)] _ _ this] True Cons.prems(2,3) same_viewD(2) [OF sv(1)]
    obtain r c' below' where r: "tx_inputs_loop h is (v + spent_value u i) st c1 b1 = Some (r, c', below')"
        "same_view c1 b1 c' below'"
        "if inputs_fine u h (v + spent_value u i) is then r = Inr (v + spent_value u i + sum_list (map (spent_value u) is))
         else \<exists>st'. r = Inl st' \<and> \<not> state_IsValid st'" by auto
    have m: "\<not> (fCoinBase x \<and> h - coins_nHeight x < COINBASE_MATURITY)" using True mat by blast
    have mr: "MoneyRange (spent_value u i)" "MoneyRange (v + spent_value u i)"
      using True Cons.prems(4) by (auto simp: MoneyRange_def)
    have "tx_inputs_loop h (i # is) v st c below = Some (r, c', below')"
      using r(1) mr lt unfolding val by (simp add: a it m Let_def del: de_Morgan_conj)
    then show ?thesis using r(2,3) same_view_trans [OF sv(1)] True by (auto simp: inputs_fine_Cons ac_simps)
  next
    case False
    then have nf: "\<not> inputs_fine u h v (i # is)" by (auto simp: inputs_fine_Cons)
    have "\<exists>st'. tx_inputs_loop h (i # is) v st c below = Some (Inl st', c1, b1) \<and> \<not> state_IsValid st'"
    proof (cases "mature u h i")
      case True
      then have m: "\<not> (fCoinBase x \<and> h - coins_nHeight x < COINBASE_MATURITY)" using mat by blast
      have "\<not> MoneyRange (spent_value u i) \<or> \<not> MoneyRange (v + spent_value u i)"
        using True False Cons.prems(4) by (auto simp: MoneyRange_def)
      then show ?thesis unfolding val using lt by (auto simp: a it m Let_def simp del: de_Morgan_conj)
    qed (use mat in \<open>auto simp: a it\<close>)
    then show ?thesis using nf sv(1) by auto
  qed
qed

text \<open>
  A transaction is refused for its inputs, or what is left to decide is the code behind the loop with
  their value.
\<close>

lemma CheckTxInputs_cases:
  assumes "view_ok (CoinsCache c below)" "\<not> IsCoinBase tx"
  defines "u \<equiv> unspent (CoinsCache c below)"
  obtains (bad) st' c' below' where "\<not> (inputs_available u tx \<and> inputs_fine u h 0 (vin tx))" "same_view c below c' below'"
      "CheckTxInputs tx st h c below = Some (False, st', c', below')" "\<not> state_IsValid st'"
  | (good) c' below' where "inputs_available u tx" "inputs_fine u h 0 (vin tx)" "same_view c below c' below'"
      "CheckTxInputs tx st h c below = (case GetValueOut tx of None \<Rightarrow> None | Some out \<Rightarrow>
         if value_in u tx < out
         then Some (False, state_DoS 100 REJECT_INVALID ''bad-txns-in-belowout'' False ''value in (%s) < value out (%s)'' st, c', below')
         else if \<not> MoneyRange (value_in u tx - out)
         then Some (False, state_DoS 100 REJECT_INVALID ''bad-txns-fee-outofrange'' False [] st, c', below')
         else Some (True, st, c', below'))"
proof -
  obtain r c1 b1 where hi: "have_inputs_loop (vin tx) c below = (r, c1, b1)" by (rule prod_cases3)
  from have_inputs_loop_ok [OF assms(1) hi] have sv: "same_view c below c1 b1" and
    r: "r \<longleftrightarrow> inputs_available u tx" by (simp_all add: inputs_available_def u_def)
  have hi': "HaveInputs tx c below = (r, c1, b1)" using hi assms(2) by (simp add: HaveInputs_def)
  show thesis
  proof (cases r)
    case False
    then show thesis using r by (intro bad [OF _ sv, of "state_Invalid 0 [] ''Inputs unavailable'' st"]) (simp_all add: CheckTxInputs_def hi')
  next
    case True
    have "u = unspent (CoinsCache c1 b1)" using same_viewD(2) [OF sv] by (simp add: u_def)
    moreover have "(0::int) \<le> MAX_MONEY" by (simp add: MAX_MONEY_def COIN_def)
    ultimately obtain x c2 b2 where t: "tx_inputs_loop h (vin tx) 0 st c1 b1 = Some (x, c2, b2)" "same_view c1 b1 c2 b2"
        "if inputs_fine u h 0 (vin tx) then x = Inr (0 + value_in u tx) else \<exists>st'. x = Inl st' \<and> \<not> state_IsValid st'"
      using tx_inputs_loop_ok [OF _ same_viewD(1) [OF sv], of 0 u "vin tx" h st] True r
      unfolding value_in_def inputs_available_def by blast
    have sv2: "same_view c below c2 b2" by (rule same_view_trans [OF sv t(2)])
    show thesis
    proof (cases "inputs_fine u h 0 (vin tx)")
      case fine: True
      then show thesis using t True r
        by (intro good [OF _ _ sv2]) (auto simp: CheckTxInputs_def hi' Let_def split: option.split)
    next
      case False
      then obtain st' where "x = Inl st'" "\<not> state_IsValid st'" using t(3) by auto
      then show thesis using t(1) True False by (intro bad [OF _ sv2, of st']) (simp_all add: CheckTxInputs_def hi')
    qed
  qed
qed

lemma fee_in_range: "inputs_fine u h 0 (vin tx) \<Longrightarrow> 0 \<le> out \<Longrightarrow> out \<le> value_in u tx \<Longrightarrow> MoneyRange (value_in u tx - out)"
  by (auto simp: MoneyRange_def inputs_fine_def value_in_def)

lemma CheckTxInputs_ok:
  assumes "view_ok (CoinsCache c below)" "\<not> IsCoinBase tx" "GetValueOut tx = Some out" "0 \<le> out"
  defines "u \<equiv> unspent (CoinsCache c below)"
  shows "\<exists>ok st' c' below'. CheckTxInputs tx st h c below = Some (ok, st', c', below') \<and> same_view c below c' below' \<and>
    (ok \<longleftrightarrow> inputs_available u tx \<and> inputs_fine u h 0 (vin tx) \<and> out \<le> value_in u tx) \<and>
    (if ok then st' = st else \<not> state_IsValid st')"
proof (cases rule: CheckTxInputs_cases [OF assms(1,2), of h st, case_names bad good])
  case (bad st' c' below')
  then show ?thesis unfolding u_def by (intro exI [of _ False] exI [of _ st'] exI [of _ c'] exI [of _ below']) auto
next
  case (good c' below')
  then show ?thesis using assms(3) fee_in_range [OF good(2) assms(4)] unfolding u_def by (auto simp: not_less)
qed

subsection \<open>What a checked transaction looks like\<close>

lemma reject_invalid [simp]: "\<not> state_IsValid (reject level code reason)"
  by (simp add: reject_def)

lemma new_valid [simp]: "state_IsValid CValidationState_new"
  by (simp add: state_IsValid_def CValidationState_new_def)

lemma check_outputs_None:
  "0 \<le> v \<Longrightarrow> v \<le> MAX_MONEY \<Longrightarrow>
   check_outputs_loop outs v = None \<longleftrightarrow>
     list_all (\<lambda>out. MoneyRange (nValue out)) outs \<and> v + sum_list (map nValue outs) \<le> MAX_MONEY"
proof (induction outs arbitrary: v)
  case (Cons out outs)
  have nn: "0 \<le> sum_list (map nValue outs)" if "list_all (\<lambda>out. MoneyRange (nValue out)) outs"
    using that by (intro sum_list_nonneg) (auto simp: list_all_iff MoneyRange_def)
  show ?case
  proof (cases "MoneyRange (nValue out) \<and> MoneyRange (v + nValue out)")
    case True
    then have "check_outputs_loop (out # outs) v = check_outputs_loop outs (v + nValue out)"
      by (simp add: MoneyRange_def Let_def)
    then show ?thesis using True Cons.IH [of "v + nValue out"] by (simp add: MoneyRange_def ac_simps)
  next
    case False
    then have "check_outputs_loop (out # outs) v \<noteq> None" by (auto simp: MoneyRange_def Let_def)
    then show ?thesis using False Cons.prems nn by (auto simp: MoneyRange_def)
  qed
qed simp

lemma duplicate_input_iff:
  "duplicate_input is s \<longleftrightarrow> \<not> (distinct (map prevout is) \<and> prevout ` set is \<inter> s = {})"
  by (induction "is" arbitrary: s) (auto simp: Let_def)

definition tx_well_formed :: "CTransaction \<Rightarrow> bool" where
  "tx_well_formed tx \<longleftrightarrow>
     vin tx \<noteq> [] \<and> vout tx \<noteq> [] \<and> length (Serialize_CTransaction tx) \<le> MAX_BLOCK_SIZE \<and>
     list_all (\<lambda>out. MoneyRange (nValue out)) (vout tx) \<and> sum_list (map nValue (vout tx)) \<le> MAX_MONEY \<and>
     distinct (map prevout (vin tx)) \<and>
     (if IsCoinBase tx then length (scriptSig (vin tx ! 0)) \<in> {2..100}
      else list_all (\<lambda>i. \<not> COutPoint_IsNull (prevout i)) (vin tx))"

lemma CheckTransaction_ok: "state_IsValid (CheckTransaction tx) \<longleftrightarrow> tx_well_formed tx"
proof -
  have "(0::int) \<le> MAX_MONEY" by (simp add: MAX_MONEY_def COIN_def)
  note o = check_outputs_None [OF order_refl this, of "vout tx"]
  have "list_ex (\<lambda>i. COutPoint_IsNull (prevout i)) (vin tx) \<longleftrightarrow>
      \<not> list_all (\<lambda>i. \<not> COutPoint_IsNull (prevout i)) (vin tx)" by (auto simp: list_ex_iff list_all_iff)
  then show ?thesis using o
    by (cases "check_outputs_loop (vout tx) 0")
      (simp_all add: CheckTransaction_def tx_well_formed_def duplicate_input_iff not_less not_le)
qed

subsection \<open>Money in the unspent coins\<close>

definition out_value :: "CTxOut \<Rightarrow> CAmount" where
  "out_value out = (if CTxOut_IsNull out then 0 else nValue out)"

definition coins_value :: "CCoins \<Rightarrow> CAmount" where
  "coins_value x = sum_list (map out_value (coins_vout x))"

definition money :: "(uint256 \<Rightarrow> CCoins option) \<Rightarrow> CAmount" where
  "money u = (\<Sum>t \<in> dom u. coins_value (the (u t)))"

definition coins_at :: "(uint256 \<Rightarrow> CCoins option) \<Rightarrow> uint256 \<Rightarrow> CAmount" where
  "coins_at u t = (case u t of None \<Rightarrow> 0 | Some x \<Rightarrow> coins_value x)"

lemma money_coins_at: "finite A \<Longrightarrow> dom u \<subseteq> A \<Longrightarrow> money u = (\<Sum>t \<in> A. coins_at u t)"
  unfolding money_def by (rule sum.mono_neutral_cong_left) (auto simp: coins_at_def split: option.splits)

lemma null_sum: "list_all CTxOut_IsNull ys \<Longrightarrow> sum_list (map out_value ys) = 0"
  by (induction ys) (auto simp: out_value_def)

lemma pruned_value: "IsPruned x \<Longrightarrow> coins_value x = 0"
  by (simp add: IsPruned_def coins_value_def null_sum)

lemma money_update:
  assumes "finite (dom u)"
  shows "money (u(t := live x)) = money u - coins_at u t + coins_value x" "finite (dom (u(t := live x)))"
proof -
  let ?A = "insert t (dom u)"
  have "money (u(t := live x)) = (\<Sum>s \<in> ?A. coins_at (u(t := live x)) s)"
    by (rule money_coins_at) (use assms in auto)
  also have "\<dots> = coins_at (u(t := live x)) t + (\<Sum>s \<in> ?A - {t}. coins_at (u(t := live x)) s)"
    using assms by (intro sum.remove) auto
  also have "(\<Sum>s \<in> ?A - {t}. coins_at (u(t := live x)) s) = (\<Sum>s \<in> ?A - {t}. coins_at u s)"
    by (rule sum.cong) (auto simp: coins_at_def)
  also have "coins_at (u(t := live x)) t = coins_value x"
    by (auto simp: coins_at_def live_def pruned_value)
  finally have "money (u(t := live x)) = coins_value x + (\<Sum>s \<in> ?A - {t}. coins_at u s)" .
  moreover have "money u = coins_at u t + (\<Sum>s \<in> ?A - {t}. coins_at u s)"
    using money_coins_at [of ?A u] assms sum.remove [of ?A t "coins_at u"] by auto
  ultimately show "money (u(t := live x)) = money u - coins_at u t + coins_value x" by simp
  show "finite (dom (u(t := live x)))" by (rule finite_subset [of _ ?A]) (use assms in \<open>auto split: if_splits\<close>)
qed

lemma trim_append: "\<exists>ys. xs = trim xs @ ys \<and> list_all CTxOut_IsNull ys"
proof -
  have "xs = rev (takeWhile CTxOut_IsNull (rev xs) @ dropWhile CTxOut_IsNull (rev xs))" by simp
  then have "xs = trim xs @ rev (takeWhile CTxOut_IsNull (rev xs))" by (simp only: rev_append trim_def)
  then show ?thesis by (intro exI conjI, assumption) (auto simp: list_all_iff dest: set_takeWhileD)
qed

lemma trim_value: "sum_list (map out_value (trim xs)) = sum_list (map out_value xs)"
proof -
  obtain ys where ys: "xs = trim xs @ ys" "list_all CTxOut_IsNull ys" using trim_append [of xs] by blast
  have "sum_list (map out_value xs) = sum_list (map out_value (trim xs @ ys))" using ys(1) by simp
  then show ?thesis using null_sum [OF ys(2)] by simp
qed

lemma trim_nth:
  assumes "n < length xs" "\<not> CTxOut_IsNull (xs ! n)"
  shows "n < length (trim xs)" "trim xs ! n = xs ! n"
proof -
  obtain ys where ys: "xs = trim xs @ ys" "list_all CTxOut_IsNull ys" using trim_append [of xs] by blast
  show l: "n < length (trim xs)"
  proof (rule ccontr)
    assume a: "\<not> n < length (trim xs)"
    have "xs ! n = (trim xs @ ys) ! n" using ys(1) by simp
    then have "xs ! n = ys ! (n - length (trim xs))" using a by (simp add: nth_append)
    moreover have "n - length (trim xs) < length ys"
      using a assms(1) arg_cong [OF ys(1), of length] by simp
    ultimately show False using ys(2) assms(2) by (auto simp: list_all_length)
  qed
  have "xs ! n = (trim xs @ ys) ! n" using ys(1) by simp
  then show "trim xs ! n = xs ! n" using l by (simp add: nth_append)
qed

lemma update_value:
  "n < length xs \<Longrightarrow> sum_list (map out_value (xs[n := CTxOut_SetNull])) = sum_list (map out_value xs) - out_value (xs ! n)"
  by (induction xs arbitrary: n) (auto simp: out_value_def CTxOut_IsNull_def CTxOut_SetNull_def split: nat.splits)

text \<open>Spending one output.\<close>

lemma spend_coins_available:
  "IsAvailable x n \<Longrightarrow> \<exists>undo y. spend_coins n x = Some (undo, y)"
  by (auto simp: spend_coins_def IsAvailable_def Let_def)

lemma spent_value_rest:
  assumes "spend_coins n x = Some (undo, y)"
  shows "coins_value (Cleanup y) = coins_value x - nValue (coins_vout x ! n)"
    and "m \<noteq> n \<Longrightarrow> IsAvailable x m \<Longrightarrow>
      IsAvailable (Cleanup y) m \<and> coins_vout (Cleanup y) ! m = coins_vout x ! m"
proof -
  note s = spend_coins_Some [OF assms]
  have y: "coins_vout (Cleanup y) = trim ((coins_vout x)[n := CTxOut_SetNull])" by (simp add: Cleanup_trim s(3))
  show "coins_value (Cleanup y) = coins_value x - nValue (coins_vout x ! n)"
    unfolding coins_value_def y trim_value using update_value [OF s(1)] s(2) by (simp add: out_value_def)
  assume "m \<noteq> n" "IsAvailable x m"
  then show "IsAvailable (Cleanup y) m \<and> coins_vout (Cleanup y) ! m = coins_vout x ! m"
    using trim_nth [of m "(coins_vout x)[n := CTxOut_SetNull]"] unfolding IsAvailable_def y by auto
qed

definition only_removes :: "(uint256 \<Rightarrow> CCoins option) \<Rightarrow> (uint256 \<Rightarrow> CCoins option) \<Rightarrow> bool" where
  "only_removes u u' \<longleftrightarrow> (\<forall>t. u t = None \<longrightarrow> u' t = None)"

lemma spent_after:
  assumes "u (op_hash (prevout i)) = Some x" "spend_coins (unat (op_n (prevout i))) x = Some (undo, y)"
    and "prevout j \<noteq> prevout i" "spent_coins u j \<noteq> None"
  defines "u' \<equiv> u(op_hash (prevout i) := live (Cleanup y))"
  shows "spent_coins u' j \<noteq> None \<and> spent_value u' j = spent_value u j"
proof (cases "op_hash (prevout j) = op_hash (prevout i)")
  case False
  then show ?thesis using assms(4) by (simp add: u'_def spent_coins_def spent_value_def)
next
  case True
  let ?m = "unat (op_n (prevout j))"
  have "op_n (prevout j) \<noteq> op_n (prevout i)"
    using assms(3) True by (cases "prevout i"; cases "prevout j") auto
  then have mn: "?m \<noteq> unat (op_n (prevout i))" by (simp add: word_unat_eq_iff)
  have av: "IsAvailable x ?m" using assms(1,4) True by (auto simp: spent_coins_def split: if_splits)
  note r = spent_value_rest(2) [OF assms(2) mn av]
  have "\<not> IsPruned (Cleanup y)" by (rule not_pruned_nth [of ?m]) (use r in \<open>auto simp: IsAvailable_def\<close>)
  then have "u' (op_hash (prevout j)) = Some (Cleanup y)" using True by (simp add: u'_def live_def)
  then show ?thesis using r av assms(1) True by (simp add: spent_coins_def spent_value_def)
qed

lemma spend_inputs_total:
  "view_ok (CoinsCache c below) \<Longrightarrow> \<not> hasModifier c \<Longrightarrow> u = unspent (CoinsCache c below) \<Longrightarrow> finite (dom u) \<Longrightarrow>
   distinct (map prevout ins) \<Longrightarrow> list_all (\<lambda>i. spent_coins u i \<noteq> None) ins \<Longrightarrow>
   \<exists>us c' below'. spend_inputs ins us0 c below = Some (us, c', below') \<and> view_ok (CoinsCache c' below') \<and>
     \<not> hasModifier c' \<and> unspent below' = unspent below \<and> finite (dom (unspent (CoinsCache c' below'))) \<and>
     only_removes u (unspent (CoinsCache c' below')) \<and>
     money (unspent (CoinsCache c' below')) = money u - sum_list (map (spent_value u) ins)"
proof (induction ins arbitrary: us0 c below u)
  case Nil
  then show ?case by (simp add: only_removes_def)
next
  case (Cons i ins)
  let ?t = "op_hash (prevout i)" and ?n = "unat (op_n (prevout i))"
  from Cons.prems(6) obtain x where x: "u ?t = Some x" "IsAvailable x ?n"
    by (auto simp: spent_coins_def split: option.splits if_splits)
  obtain undo y where y: "spend_coins ?n x = Some (undo, y)" using spend_coins_available [OF x(2)] by blast
  have "modified_coins (CoinsCache c below) ?t = x" using x(1) unspent_Some Cons.prems(3) by blast
  then have y': "spend_coins ?n (modified_coins (CoinsCache c below) ?t) = Some (undo, y)" using y by simp
  from with_coins_Some [where f = "spend_coins ?n" and t = ?t, OF Cons.prems(1,2) y'] Cons.prems(3)
  obtain c1 b1 where w: "with_coins (spend_coins ?n) ?t c below = Some (undo, c1, b1)"
      "view_ok (CoinsCache c1 b1)" "\<not> hasModifier c1" "unspent (CoinsCache c1 b1) = u(?t := live (Cleanup y))"
      "unspent b1 = unspent below" by blast
  let ?u1 = "u(?t := live (Cleanup y))"
  note mu = money_update [OF Cons.prems(4), of ?t "Cleanup y"]
  have rest: "spent_coins ?u1 j \<noteq> None \<and> spent_value ?u1 j = spent_value u j" if "j \<in> set ins" for j
  proof (rule spent_after [where u = u and x = x, OF x(1) y])
    show "prevout j \<noteq> prevout i" using that Cons.prems(5) by (metis distinct.simps(2) image_eqI list.set_map list.simps(9))
    show "spent_coins u j \<noteq> None" using that Cons.prems(6) by (simp add: list_all_iff)
  qed
  then have av: "list_all (\<lambda>j. spent_coins ?u1 j \<noteq> None) ins" by (simp add: list_all_iff)
  have "distinct (map prevout ins)" using Cons.prems(5) by simp
  from Cons.IH [OF w(2,3) w(4) [symmetric] mu(2) this av, of "us0 @ [undo]"] obtain us c' b' where
    r: "spend_inputs ins (us0 @ [undo]) c1 b1 = Some (us, c', b')" "view_ok (CoinsCache c' b')" "\<not> hasModifier c'"
      "unspent b' = unspent b1" "finite (dom (unspent (CoinsCache c' b')))" "only_removes ?u1 (unspent (CoinsCache c' b'))"
      "money (unspent (CoinsCache c' b')) = money ?u1 - sum_list (map (spent_value ?u1) ins)" by blast
  have "map (spent_value ?u1) ins = map (spent_value u) ins" by (rule map_cong [OF refl]) (use rest in blast)
  moreover have "money ?u1 = money u - spent_value u i"
    using mu(1) x spent_value_rest(1) [OF y] by (simp add: coins_at_def spent_value_def spent_coins_def)
  ultimately have m: "money (unspent (CoinsCache c' b')) = money u - sum_list (map (spent_value u) (i # ins))"
    using r(7) by (simp del: map_eq_conv)
  have "only_removes u (unspent (CoinsCache c' b'))" 
    unfolding only_removes_def
  proof (intro allI impI)
    fix t assume n: "u t = None"
    then have "t \<noteq> ?t" using x(1) by auto
    then show "unspent (CoinsCache c' b') t = None" using r(6) n by (simp add: only_removes_def)
  qed
  then show ?case using w(1,5) r(1-5) m by auto
qed

definition burned :: "CTransaction \<Rightarrow> CAmount" where
  "burned tx = sum_list (map nValue (filter (\<lambda>out. IsUnspendable (scriptPubKey out)) (vout tx)))"

definition value_out :: "CTransaction \<Rightarrow> CAmount" where
  "value_out tx = sum_list (map nValue (vout tx))"

lemma FromTx_value:
  assumes "list_all (\<lambda>out. MoneyRange (nValue out)) (vout tx)"
  shows "coins_value (FromTx tx h) = value_out tx - burned tx"
proof -
  have "sum_list (map out_value (map (\<lambda>out. if IsUnspendable (scriptPubKey out) then CTxOut_SetNull else out) outs)) =
      sum_list (map nValue outs) - sum_list (map nValue (filter (\<lambda>out. IsUnspendable (scriptPubKey out)) outs))"
    if "list_all (\<lambda>out. MoneyRange (nValue out)) outs" for outs
    using that by (induction outs) (auto simp: out_value_def CTxOut_IsNull_def CTxOut_SetNull_def MoneyRange_def)
  from this [OF assms] show ?thesis
    by (simp add: coins_value_def FromTx_parts trim_value value_out_def burned_def)
qed

lemma UpdateCoins_money:
  assumes "view_ok (CoinsCache c below)" "\<not> hasModifier c" "finite (dom (unspent (CoinsCache c below)))"
    and "tx_well_formed tx" "\<not> IsCoinBase tx" "inputs_available (unspent (CoinsCache c below)) tx"
    and new: "unspent (CoinsCache c below) (CTransaction_GetHash tx) = None" "unspent below (CTransaction_GetHash tx) = None"
  shows "\<exists>us c' below'. UpdateCoins tx txundo h c below = Some (us, c', below') \<and> view_ok (CoinsCache c' below') \<and>
    \<not> hasModifier c' \<and> finite (dom (unspent (CoinsCache c' below'))) \<and>
    money (unspent (CoinsCache c' below')) =
      money (unspent (CoinsCache c below)) - value_in (unspent (CoinsCache c below)) tx + (value_out tx - burned tx) \<and>
    unspent below' = unspent below \<and>
    (\<forall>t. t \<noteq> CTransaction_GetHash tx \<longrightarrow> unspent (CoinsCache c below) t = None \<longrightarrow> unspent (CoinsCache c' below') t = None)"
proof -
  let ?u = "unspent (CoinsCache c below)" and ?t = "CTransaction_GetHash tx"
  have wf: "distinct (map prevout (vin tx))" "list_all (\<lambda>out. MoneyRange (nValue out)) (vout tx)"
    using assms(4) by (simp_all add: tx_well_formed_def)
  from spend_inputs_total [OF assms(1,2) refl assms(3) wf(1), of txundo] assms(6)
  obtain us c1 b1 where s: "spend_inputs (vin tx) txundo c below = Some (us, c1, b1)"
      "view_ok (CoinsCache c1 b1)" "\<not> hasModifier c1" "unspent b1 = unspent below"
      "finite (dom (unspent (CoinsCache c1 b1)))" "only_removes ?u (unspent (CoinsCache c1 b1))"
      "money (unspent (CoinsCache c1 b1)) = money ?u - value_in ?u tx"
    unfolding inputs_available_def value_in_def by blast
  have n: "unspent b1 ?t = None" using s(4) new(2) by simp
  from modify_new_coins_ok [OF s(2,3) n, of "\<lambda>_. FromTx tx h"] obtain c2 where
    m: "modify_new_coins (\<lambda>_. FromTx tx h) ?t c1 = Some c2" "view_ok (CoinsCache c2 b1)" "\<not> hasModifier c2"
      "unspent (CoinsCache c2 b1) = (unspent (CoinsCache c1 b1))(?t := live (FromTx tx h))"
    by (auto simp: FromTx_parts)
  have "unspent (CoinsCache c1 b1) ?t = None" using s(6) new(1) by (simp add: only_removes_def)
  then have "money (unspent (CoinsCache c2 b1)) = money ?u - value_in ?u tx + (value_out tx - burned tx)"
      "finite (dom (unspent (CoinsCache c2 b1)))"
    unfolding m(4) using money_update [OF s(5), of ?t "FromTx tx h"] s(7) FromTx_value [OF wf(2), of h]
    by (simp_all add: coins_at_def)
  moreover have "unspent (CoinsCache c2 b1) t = None" if "t \<noteq> ?t" "?u t = None" for t
    unfolding m(4) using that s(6) by (simp add: only_removes_def)
  ultimately show ?thesis using s(1,4) m(1-3) assms(5) by (auto simp: UpdateCoins_def)
qed

subsection \<open>Properties\<close>

text \<open>
  C24. \<open>CheckTransaction\<close> accepts exactly the well-formed transactions: with inputs and outputs, not
  larger than a block, every value and the total an amount of money, no output spent twice, a
  coinbase script of 2 to 100 bytes in a coinbase and no null input in any other.
\<close>

theorem CheckTransaction_accepts:
  "state_IsValid (CheckTransaction tx) \<longleftrightarrow>
     vin tx \<noteq> [] \<and> vout tx \<noteq> [] \<and> length (Serialize_CTransaction tx) \<le> 4000000 \<and>
     list_all (\<lambda>out. 0 \<le> nValue out \<and> nValue out \<le> MAX_MONEY) (vout tx) \<and> sum_list (map nValue (vout tx)) \<le> MAX_MONEY \<and>
     distinct (map prevout (vin tx)) \<and>
     (if IsCoinBase tx then 2 \<le> length (scriptSig (vin tx ! 0)) \<and> length (scriptSig (vin tx ! 0)) \<le> 100
      else list_all (\<lambda>i. \<not> COutPoint_IsNull (prevout i)) (vin tx))"
  by (simp add: CheckTransaction_ok tx_well_formed_def MoneyRange_def MAX_BLOCK_SIZE_def)

text \<open>
  C5. A transaction that passes \<open>CheckTransaction\<close> and \<open>CheckTxInputs\<close>, is no coinbase and has an id that
  is new to the view, as the rule on duplicate ids demands, can be applied to the view, no
  assertion of \<open>UpdateCoins\<close> fails, and it creates no money: what it spends is at least what it
  pays, and the value of all unspent coins falls by the difference, the fee, and by the outputs
  that can never be spent.
\<close>

theorem checked_transaction_creates_no_money:
  assumes "view_ok (CoinsCache c below)" "\<not> hasModifier c" "finite (dom (unspent (CoinsCache c below)))"
    and checked: "state_IsValid (CheckTransaction tx)" "\<not> IsCoinBase tx"
      "CheckTxInputs tx st h c below = Some (True, st', c1, b1)"
    and new: "unspent (CoinsCache c below) (CTransaction_GetHash tx) = None" "unspent below (CTransaction_GetHash tx) = None"
  shows "\<exists>us c' below'. UpdateCoins tx txundo h c1 b1 = Some (us, c', below') \<and>
    money (unspent (CoinsCache c' below')) =
      money (unspent (CoinsCache c below)) - (value_in (unspent (CoinsCache c below)) tx - value_out tx) - burned tx \<and>
    value_out tx \<le> value_in (unspent (CoinsCache c below)) tx"
proof -
  have wf: "tx_well_formed tx" using checked(1) by (simp add: CheckTransaction_ok)
  then have "GetValueOut tx = Some (value_out tx)" "0 \<le> value_out tx"
    by (auto simp: GetValueOut_iff value_out_def tx_well_formed_def list_all_iff MoneyRange_def intro!: sum_list_nonneg)
  from CheckTxInputs_ok [OF assms(1) checked(2) this, of st h] checked(3)
  have sv: "same_view c below c1 b1" and a: "inputs_available (unspent (CoinsCache c below)) tx"
      "value_out tx \<le> value_in (unspent (CoinsCache c below)) tx" by auto
  have "view_ok (CoinsCache c1 b1)" "\<not> hasModifier c1" "unspent (CoinsCache c1 b1) = unspent (CoinsCache c below)"
      "unspent b1 = unspent below" using sv assms(2) by (simp_all add: same_view_def)
  with UpdateCoins_money [of c1 b1 tx txundo h] assms(3) wf checked(2) a(1) new
  obtain us c' b' where "UpdateCoins tx txundo h c1 b1 = Some (us, c', b')"
      "money (unspent (CoinsCache c' b')) = money (unspent (CoinsCache c below)) - value_in (unspent (CoinsCache c below)) tx +
        (value_out tx - burned tx)" by auto
  then show ?thesis using a(2) by auto
qed

text \<open>
  C23. \<open>CheckTxInputs\<close> accepts a transaction that is no coinbase exactly when every output it spends is
  unspent, a spent coinbase is at least 100 blocks deep, every value and the total are amounts of
  money and the inputs cover the outputs.  It throws exactly when the inputs are good but the outputs
  do not add up to an amount of money, which \<open>CheckTransaction\<close> rules out beforehand; in every other
  case it returns, and what the view shows does not change.
\<close>

theorem CheckTxInputs_accepts:
  fixes h :: int
  assumes "view_ok (CoinsCache c below)" "\<not> IsCoinBase tx"
  defines "u \<equiv> unspent (CoinsCache c below)"
  defines "inputs_good \<equiv> list_all (\<lambda>i. spent_coins u i \<noteq> None \<and> mature u h i \<and> MoneyRange (spent_value u i)) (vin tx) \<and>
    value_in u tx \<le> MAX_MONEY"
  shows "(CheckTxInputs tx st h c below = None \<longleftrightarrow> inputs_good \<and> GetValueOut tx = None) \<and>
    (\<forall>ok st' c' below'. CheckTxInputs tx st h c below = Some (ok, st', c', below') \<longrightarrow>
       (ok \<longleftrightarrow> inputs_good \<and> (\<exists>out. GetValueOut tx = Some out \<and> out \<le> value_in u tx)) \<and>
       unspent (CoinsCache c' below') = u)"
proof -
  have good_iff: "inputs_good \<longleftrightarrow> inputs_available u tx \<and> inputs_fine u h 0 (vin tx)"
    by (auto simp: inputs_good_def inputs_available_def inputs_fine_def value_in_def list_all_iff)
  have out: "0 \<le> out" if "GetValueOut tx = Some out" for out
    using that by (auto simp: GetValueOut_iff intro!: sum_list_nonneg)
  show ?thesis
  proof (cases rule: CheckTxInputs_cases [OF assms(1,2), of h st, case_names bad good])
    case (bad st' c' below')
    then show ?thesis using good_iff same_viewD(2) [OF bad(2)] by (auto simp: u_def)
  next
    case (good c' below')
    have "MoneyRange (value_in u tx - out)" if "GetValueOut tx = Some out" "out \<le> value_in u tx" for out
      using fee_in_range [of u h tx out] good(2) out that by (simp add: u_def)
    then show ?thesis
      using good good_iff same_viewD(2) [OF good(3)] by (auto simp: u_def not_less split: option.splits if_splits)
  qed
qed

subsection \<open>A checked payment\<close>

text \<open>A view with one unspent output of 10, and a payment of 7 from it to a script.\<close>

definition sample_coins :: CCoins where
  "sample_coins = \<lparr>fCoinBase = False, coins_vout = [mk_CTxOut 10 [0x51]], coins_nHeight = 5, coins_nVersion = 1\<rparr>"

definition sample_funds :: CCoinsViewCache where
  "sample_funds = \<lparr>hasModifier = False, cache_hashBlock = [2], cacheCoins = [([1], \<lparr>ce_coins = sample_coins, ce_flags = 3\<rparr>)]\<rparr>"

definition sample_payment :: CTransaction where
  "sample_payment = \<lparr>tx_nVersion = 1, vin = [mk_CTxIn \<lparr>op_hash = [1], op_n = 0\<rparr> [0x51] SEQUENCE_FINAL],
     vout = [mk_CTxOut 7 [0x51]], nLockTime = 0\<rparr>"

lemma sample_payment_id: "CTransaction_GetHash sample_payment \<noteq> [1]"
  using length_Hash by (metis CTransaction_GetHash_def SerializeHash_def length_Cons list.size(3) numeral_eq_one_iff One_nat_def semiring_norm(83))

lemma sample_view:
  "view_ok (CoinsCache sample_funds CoinsNone)" "\<not> hasModifier sample_funds"
  "unspent (CoinsCache sample_funds CoinsNone) = [[1] \<mapsto> sample_coins]"
proof -
  have live: "live sample_coins = Some sample_coins"
    by (simp add: live_def IsPruned_def sample_coins_def CTxOut_IsNull_def mk_CTxOut_def)
  have n: "unspent CoinsNone t = None" for t by (simp add: unspent_def visible.simps)
  show "view_ok (CoinsCache sample_funds CoinsNone)"
    by (simp add: view_ok.simps cache_ok_def entry_ok_def sample_funds_def n is_dirty_def is_fresh_def sample_coins_def
        outs_clean_def CTxOut_IsNull_def mk_CTxOut_def DIRTY_def FRESH_def)
  show "\<not> hasModifier sample_funds" by (simp add: sample_funds_def)
  show "unspent (CoinsCache sample_funds CoinsNone) = [[1] \<mapsto> sample_coins]"
    by (rule ext) (simp add: unspent_cache shown_def sample_funds_def n live)
qed

lemma sample_payment_parts:
  "state_IsValid (CheckTransaction sample_payment)" "\<not> IsCoinBase sample_payment"
  "GetValueOut sample_payment = Some 7" "value_out sample_payment = 7" "burned sample_payment = 0"
  "value_in [[1] \<mapsto> sample_coins] sample_payment = 10" "money [[1] \<mapsto> sample_coins] = 10"
  "list_all (\<lambda>i. spent_coins [[1] \<mapsto> sample_coins] i \<noteq> None \<and> mature [[1] \<mapsto> sample_coins] 9 i \<and>
     MoneyRange (spent_value [[1] \<mapsto> sample_coins] i)) (vin sample_payment)"
proof -
  have len: "length (Serialize_CTransaction sample_payment) \<le> MAX_BLOCK_SIZE"
    by (simp add: Serialize_CTransaction_def sample_payment_def Serialize_vector_def Serialize_CTxIn_def Serialize_CTxOut_def
        mk_CTxIn_def mk_CTxOut_def Serialize_COutPoint_def Serialize_bytes_def MAX_BLOCK_SIZE_def WriteCompactSize_def
        Serialize_u32_def ser_writedata8_def ser_writedata32_def Serialize_int64_def Serialize_u64_def ser_writedata64_def Serialize_blob_def)
  show cb: "\<not> IsCoinBase sample_payment"
    by (simp add: sample_payment_def IsCoinBase_def mk_CTxIn_def COutPoint_IsNull_def blob_IsNull_def)
  have "\<not> COutPoint_IsNull \<lparr>op_hash = [1], op_n = 0\<rparr>" by (simp add: COutPoint_IsNull_def)
  then show "state_IsValid (CheckTransaction sample_payment)"
    using len cb by (simp add: CheckTransaction_ok tx_well_formed_def)
      (simp add: sample_payment_def mk_CTxIn_def mk_CTxOut_def MoneyRange_def MAX_MONEY_def COIN_def)
  show "GetValueOut sample_payment = Some 7"
    by (simp add: GetValueOut_iff sample_payment_def mk_CTxOut_def MAX_MONEY_def COIN_def)
  show "value_out sample_payment = 7" by (simp add: value_out_def sample_payment_def mk_CTxOut_def)
  show "burned sample_payment = 0" by (simp add: burned_def sample_payment_def mk_CTxOut_def IsUnspendable_def)
  have sp: "spent_coins [[1] \<mapsto> sample_coins] i = Some sample_coins" "spent_value [[1] \<mapsto> sample_coins] i = 10"
      "mature [[1] \<mapsto> sample_coins] 9 i" if "i \<in> set (vin sample_payment)" for i
    using that by (auto simp: sample_payment_def spent_coins_def spent_value_def mature_def sample_coins_def IsAvailable_def
        mk_CTxIn_def mk_CTxOut_def CTxOut_IsNull_def)
  show "value_in [[1] \<mapsto> sample_coins] sample_payment = 10"
    using sp(2) by (simp add: value_in_def) (simp add: sample_payment_def)
  show "money [[1] \<mapsto> sample_coins] = 10"
    by (simp add: money_def coins_value_def sample_coins_def out_value_def mk_CTxOut_def CTxOut_IsNull_def)
  show "list_all (\<lambda>i. spent_coins [[1] \<mapsto> sample_coins] i \<noteq> None \<and> mature [[1] \<mapsto> sample_coins] 9 i \<and>
     MoneyRange (spent_value [[1] \<mapsto> sample_coins] i)) (vin sample_payment)"
    using sp by (simp add: list_all_iff MoneyRange_def MAX_MONEY_def COIN_def)
qed

lemma CheckTxInputs_accepts_witness:
  "\<exists>st' c' below'. CheckTxInputs sample_payment CValidationState_new 9 sample_funds CoinsNone = Some (True, st', c', below')"
proof -
  note l = CheckTxInputs_accepts [OF sample_view(1) sample_payment_parts(2), of CValidationState_new 9]
  show ?thesis using l sample_payment_parts(3,6,8) unfolding sample_view(3)
    by (cases "CheckTxInputs sample_payment CValidationState_new 9 sample_funds CoinsNone") (auto simp: MAX_MONEY_def COIN_def)
qed

lemma checked_transaction_creates_no_money_witness:
  "\<exists>st' c1 b1 us c' below'. CheckTxInputs sample_payment CValidationState_new 9 sample_funds CoinsNone = Some (True, st', c1, b1) \<and>
     UpdateCoins sample_payment [] 9 c1 b1 = Some (us, c', below') \<and> money (unspent (CoinsCache c' below')) = 7"
proof -
  obtain ok st' c1 b1 where c: "CheckTxInputs sample_payment CValidationState_new 9 sample_funds CoinsNone = Some (ok, st', c1, b1)"
      "ok \<longleftrightarrow> inputs_available [[1] \<mapsto> sample_coins] sample_payment \<and> inputs_fine [[1] \<mapsto> sample_coins] 9 0 (vin sample_payment) \<and>
         7 \<le> value_in [[1] \<mapsto> sample_coins] sample_payment"
    using CheckTxInputs_ok [OF sample_view(1) sample_payment_parts(2,3), of CValidationState_new 9]
    unfolding sample_view(3) by auto
  have ok: "ok" unfolding c(2)
    using sample_payment_parts(6,8)
    by (auto simp: inputs_available_def inputs_fine_def list_all_iff value_in_def MAX_MONEY_def COIN_def)
  have n: "unspent (CoinsCache sample_funds CoinsNone) (CTransaction_GetHash sample_payment) = None"
    using sample_payment_id unfolding sample_view(3) by simp
  have "unspent CoinsNone (CTransaction_GetHash sample_payment) = None" by (simp add: unspent_def visible.simps)
  note l = checked_transaction_creates_no_money [OF sample_view(1,2) _ sample_payment_parts(1,2) _ n this, where h = 9]
  show ?thesis using l c(1) ok sample_payment_parts(4-7) unfolding sample_view(3) by fastforce
qed

subsection \<open>Verdicts on the scripts\<close>

lemma GetBestBlock_shows:
  "view_ok v \<Longrightarrow> view_ok (snd (GetBestBlock v)) \<and> unspent (snd (GetBestBlock v)) = unspent v"
proof (induction v)
  case (CoinsBacked v)
  then show ?case by (auto simp: view_ok.simps unspent_def visible.simps fun_eq_iff split: prod.splits)
next
  case (CoinsCache c v)
  obtain h v' where g: "GetBestBlock v = (h, v')" by fastforce
  then have "view_ok v'" "unspent v' = unspent v" using CoinsCache by (auto simp: view_ok.simps)
  then show ?case using CoinsCache.prems g by (simp add: view_ok.simps unspent_cache)
qed (simp_all add: view_ok.simps)

lemma GetSpendHeight_shows:
  assumes "view_ok (CoinsCache c below)" "GetSpendHeight S idx c below = Some (h, c', below')"
  shows "same_view c below c' below'"
proof -
  obtain hb v' where g: "GetBestBlock below = (hb, v')" by fastforce
  then have v: "view_ok v'" "unspent v' = unspent below"
    using GetBestBlock_shows [of below] assms(1) by (auto simp: view_ok.simps)
  show ?thesis using assms v g
    by (auto simp: GetSpendHeight_def same_view_def view_ok.simps unspent_cache split: if_splits)
qed

text \<open>The verdict on an input, for the output it spends.\<close>

definition input_verdict :: "(CTransaction \<Rightarrow> nat \<Rightarrow> bool \<Rightarrow> SignatureChecker) \<Rightarrow> (uint256 \<Rightarrow> CCoins option) \<Rightarrow> CTransaction \<Rightarrow>
    bool \<Rightarrow> u32 \<Rightarrow> nat \<Rightarrow> ScriptError option" where
  "input_verdict checker u tx cacheStore flags i =
     (case spent_coins u (vin tx ! i) of
        None \<Rightarrow> None
      | Some x \<Rightarrow> VerifyScript (scriptSig (vin tx ! i)) (scriptPubKey (coins_vout x ! unat (op_n (prevout (vin tx ! i))))) flags
          (checker tx i cacheStore))"

definition failure_state :: "ScriptError \<Rightarrow> CValidationState \<Rightarrow> CValidationState" where
  "failure_state error st =
     (if error \<noteq> SCRIPT_ERR_OK
      then state_Invalid REJECT_NONSTANDARD (''non-mandatory-script-verify-flag ('' @ ScriptErrorString error @ '')'') [] st
      else state_DoS 100 REJECT_INVALID ''mandatory-script-verify-flag-failed (%s)'' False [] st)"

lemma script_check_available:
  assumes "view_ok (CoinsCache c below)" "spent_coins (unspent (CoinsCache c below)) (vin tx ! i) = Some x"
  obtains c1 b1 check where "AccessCoins (op_hash (prevout (vin tx ! i))) c below = (Some x, c1, b1)" "same_view c below c1 b1"
    "CScriptCheck_of x tx i flags store = Some check"
    "\<And>fl. CScriptCheck_Verify checker (check\<lparr>sck_nFlags := fl\<rparr>) =
       input_verdict checker (unspent (CoinsCache c below)) tx store fl i"
    "CScriptCheck_Verify checker check = input_verdict checker (unspent (CoinsCache c below)) tx store flags i"
proof -
  obtain it c1 b1 where a: "AccessCoins (op_hash (prevout (vin tx ! i))) c below = (it, c1, b1)" by (rule prod_cases3)
  note sv = AccessCoins_shows [OF assms(1) a]
  have v: "it = Some x" "IsAvailable x (unat (op_n (prevout (vin tx ! i))))"
    using assms(2) sv(2) by (simp_all add: spent_coins_visible)
  then obtain check where check: "CScriptCheck_of x tx i flags store = Some check"
    by (auto simp: CScriptCheck_of_def IsAvailable_def Let_def)
  show ?thesis
  proof (rule that)
    show "AccessCoins (op_hash (prevout (vin tx ! i))) c below = (Some x, c1, b1)" using a v(1) by simp
    show "same_view c below c1 b1" by (rule sv(1))
    show "CScriptCheck_of x tx i flags store = Some check" by (rule check)
  qed (use check assms(2) in \<open>auto simp: CScriptCheck_of_def CScriptCheck_Verify_def input_verdict_def Let_def split: if_splits\<close>)
qed

lemma script_checks_fail:
  "view_ok (CoinsCache c below) \<Longrightarrow> u = unspent (CoinsCache c below) \<Longrightarrow>
   list_all (\<lambda>i. spent_coins u (vin tx ! i) \<noteq> None) (is @ [k]) \<Longrightarrow>
   list_all (\<lambda>i. input_verdict checker u tx store flags i = Some SCRIPT_ERR_OK) is \<Longrightarrow>
   input_verdict checker u tx store flags k = Some e \<Longrightarrow> e \<noteq> SCRIPT_ERR_OK \<Longrightarrow>
   flags AND STANDARD_NOT_MANDATORY_VERIFY_FLAGS \<noteq> 0 \<Longrightarrow>
   input_verdict checker u tx store (flags AND NOT STANDARD_NOT_MANDATORY_VERIFY_FLAGS) k = Some e2 \<Longrightarrow>
   \<exists>c' below'. script_checks_loop checker tx flags store (is @ k # js) st None c below = Some (failure_state e2 st, None, c', below')"
proof (induction "is" arbitrary: c below)
  case Nil
  then obtain x where "spent_coins (unspent (CoinsCache c below)) (vin tx ! k) = Some x" by auto
  from script_check_available [OF Nil.prems(1) this, of flags store checker] obtain c1 b1 check where
    s: "AccessCoins (op_hash (prevout (vin tx ! k))) c below = (Some x, c1, b1)" "same_view c below c1 b1"
       "CScriptCheck_of x tx k flags store = Some check"
       "\<And>fl. CScriptCheck_Verify checker (check\<lparr>sck_nFlags := fl\<rparr>) = input_verdict checker u tx store fl k"
       "CScriptCheck_Verify checker check = input_verdict checker u tx store flags k"
    using Nil.prems(2) by metis
  show ?case using Nil.prems(5-8) s by (simp add: failure_state_def)
next
  case (Cons i "is")
  then obtain x where "spent_coins (unspent (CoinsCache c below)) (vin tx ! i) = Some x" by auto
  from script_check_available [OF Cons.prems(1) this, of flags store checker] obtain c1 b1 check where
    s: "AccessCoins (op_hash (prevout (vin tx ! i))) c below = (Some x, c1, b1)" "same_view c below c1 b1"
       "CScriptCheck_of x tx i flags store = Some check"
       "CScriptCheck_Verify checker check = input_verdict checker u tx store flags i"
    using Cons.prems(2) by metis
  have u1: "u = unspent (CoinsCache c1 b1)" using same_viewD(2) [OF s(2)] Cons.prems(2) by simp
  have "\<exists>c' below'. script_checks_loop checker tx flags store (is @ k # js) st None c1 b1 = Some (failure_state e2 st, None, c', below')"
    by (rule Cons.IH [OF same_viewD(1) [OF s(2)] u1]) (use Cons.prems(3-8) in auto)
  then show ?case using s Cons.prems(4) by simp
qed

text \<open>
  C16. When the script of an input fails and the flags contain rules that are not mandatory,
  \<open>CheckInputs\<close> runs it again with the mandatory rules alone, and confuses the two outcomes: a
  script that breaks only rules that are not mandatory gives the peer the penalty 100, and one that
  breaks the mandatory rules is taken for a breach of the others and gives none.
\<close>

theorem CheckInputs_exchanges_penalties:
  assumes "view_ok (CoinsCache c below)" "\<not> IsCoinBase tx"
    and inputs: "GetSpendHeight S mapBlockIndex c below = Some (h, c0, b0)"
      "CheckTxInputs tx CValidationState_new h c0 b0 = Some (True, st', c1, b1)"
    and earlier: "k < length (vin tx)"
      "list_all (\<lambda>i. input_verdict checker (unspent (CoinsCache c below)) tx store flags i = Some SCRIPT_ERR_OK) [0 ..< k]"
    and failing: "input_verdict checker (unspent (CoinsCache c below)) tx store flags k = Some e" "e \<noteq> SCRIPT_ERR_OK"
      "flags AND STANDARD_NOT_MANDATORY_VERIFY_FLAGS \<noteq> 0"
    and again: "input_verdict checker (unspent (CoinsCache c below)) tx store
      (flags AND NOT STANDARD_NOT_MANDATORY_VERIFY_FLAGS) k = Some e2"
  shows "\<exists>st pvChecks c' below'. CheckInputs checker S mapBlockIndex tx True flags store None c below = Some (st, pvChecks, c', below') \<and>
    state_IsInvalid st \<and> vs_nDoS st = (if e2 = SCRIPT_ERR_OK then 100 else 0)"
proof -
  let ?u = "unspent (CoinsCache c below)"
  note sv0 = GetSpendHeight_shows [OF assms(1) inputs(1)]
  obtain out where out: "GetValueOut tx = Some out"
    using inputs(2) by (auto simp: CheckTxInputs_def split: prod.splits bool.splits option.splits sum.splits)
  then have "0 \<le> out" by (auto simp: GetValueOut_iff intro!: sum_list_nonneg)
  from CheckTxInputs_ok [OF same_viewD(1) [OF sv0] assms(2) out this, of CValidationState_new h] inputs(2)
  have r: "same_view c0 b0 c1 b1" "inputs_available ?u tx" "st' = CValidationState_new"
    using same_viewD(2) [OF sv0] by auto
  have sv: "same_view c below c1 b1" by (rule same_view_trans [OF sv0 r(1)])
  have split: "[0 ..< length (vin tx)] = [0 ..< k] @ k # [Suc k ..< length (vin tx)]"
    using earlier(1) by (metis upt_add_eq_append upt_conv_Cons le_add_diff_inverse less_imp_le zero_le)
  have av: "list_all (\<lambda>i. spent_coins ?u (vin tx ! i) \<noteq> None) ([0 ..< k] @ [k])"
    using r(2) earlier(1)
    unfolding inputs_available_def list_all_length [of _ "vin tx"] list_all_iff [of _ "[0 ..< k] @ [k]"] by auto
  obtain c' b' where "script_checks_loop checker tx flags store [0 ..< length (vin tx)] st' None c1 b1 =
      Some (failure_state e2 st', None, c', b')"
    unfolding split
    using script_checks_fail [OF same_viewD(1) [OF sv] same_viewD(2) [OF sv, symmetric] av earlier(2) failing again] by blast
  then have "CheckInputs checker S mapBlockIndex tx True flags store None c below = Some (failure_state e2 st', None, c', b')"
    using inputs assms(2) by (simp add: CheckInputs_def)
  then show ?thesis unfolding r(3)
    by (auto simp: failure_state_def state_Invalid_def state_DoS_def CValidationState_new_def state_IsInvalid_def)
qed

text \<open>
  The payment leaves two values on the stack: it breaks the rule of the clean stack, which is not
  mandatory.
\<close>

definition sample_flags :: u32 where
  "sample_flags = flag_word [SCRIPT_VERIFY_P2SH, SCRIPT_VERIFY_CLEANSTACK]"

lemma sample_verdicts:
  "VerifyScript [0x51] [0x51] sample_flags BaseSignatureChecker = Some SCRIPT_ERR_CLEANSTACK"
  "VerifyScript [0x51] [0x51] (sample_flags AND NOT STANDARD_NOT_MANDATORY_VERIFY_FLAGS) BaseSignatureChecker = Some SCRIPT_ERR_OK"
  by code_simp+

lemma CheckInputs_exchanges_penalties_witness:
  "\<exists>st pvChecks c' below'. CheckInputs (\<lambda>_ _ _. BaseSignatureChecker) (sample_store(0 := (sample_store 0)\<lparr>nHeight := 8\<rparr>)) [[2] \<mapsto> 0]
       sample_payment True sample_flags True None sample_funds CoinsNone = Some (st, pvChecks, c', below') \<and>
     state_IsInvalid st \<and> vs_nDoS st = 100"
proof -
  let ?S = "sample_store(0 := (sample_store 0)\<lparr>nHeight := 8\<rparr>)"
  have h: "GetSpendHeight ?S [[2] \<mapsto> 0] sample_funds CoinsNone = Some (9, sample_funds, CoinsNone)"
    by (simp add: GetSpendHeight_def sample_funds_def blob_IsNull_def)
  obtain ok st' c1 b1 where c: "CheckTxInputs sample_payment CValidationState_new 9 sample_funds CoinsNone = Some (ok, st', c1, b1)"
      "ok \<longleftrightarrow> inputs_available [[1] \<mapsto> sample_coins] sample_payment \<and> inputs_fine [[1] \<mapsto> sample_coins] 9 0 (vin sample_payment) \<and>
         7 \<le> value_in [[1] \<mapsto> sample_coins] sample_payment"
    using CheckTxInputs_ok [OF sample_view(1) sample_payment_parts(2,3), of CValidationState_new 9]
    unfolding sample_view(3) by auto
  have ok: "ok" unfolding c(2)
    using sample_payment_parts(6,8)
    by (auto simp: inputs_available_def inputs_fine_def list_all_iff value_in_def MAX_MONEY_def COIN_def)
  have v: "input_verdict (\<lambda>_ _ _. BaseSignatureChecker) [[1] \<mapsto> sample_coins] sample_payment True fl 0 =
      VerifyScript [0x51] [0x51] fl BaseSignatureChecker" for fl
    by (simp add: input_verdict_def sample_payment_def spent_coins_def sample_coins_def IsAvailable_def mk_CTxIn_def
        mk_CTxOut_def CTxOut_IsNull_def)
  have f: "sample_flags AND STANDARD_NOT_MANDATORY_VERIFY_FLAGS \<noteq> 0" by code_simp
  have k: "0 < length (vin sample_payment)" by (simp add: sample_payment_def)
  have "CheckTxInputs sample_payment CValidationState_new 9 sample_funds CoinsNone = Some (True, st', c1, b1)" using c(1) ok by simp
  from CheckInputs_exchanges_penalties [OF sample_view(1) sample_payment_parts(2) h this k, of "\<lambda>_ _ _. BaseSignatureChecker" True sample_flags
      SCRIPT_ERR_CLEANSTACK SCRIPT_ERR_OK]
  show ?thesis using f unfolding sample_view(3) v sample_verdicts by simp
qed

subsection \<open>Relative lock times\<close>

text \<open>What the lock of one input asks of the block: a height or a median time that has passed.\<close>

definition lock_passed :: "block_store \<Rightarrow> block_id \<Rightarrow> block_id \<Rightarrow> CTxIn \<Rightarrow> int \<Rightarrow> bool" where
  "lock_passed S block prev txin coinHeight \<longleftrightarrow>
     (if bit (nSequence txin) 31 then True
      else let units = uint (nSequence txin) mod 2 ^ 16
        in if bit (nSequence txin) 22
           then GetMedianTimePast S (the (up S (nat (nHeight (S block) - max (coinHeight - 1) 0)) block)) + 512 * units \<le>
                  GetMedianTimePast S prev
           else coinHeight + units \<le> nHeight (S block))"

lemma sequence_masks:
  fixes w :: u32
  shows "w AND SEQUENCE_LOCKTIME_DISABLE_FLAG \<noteq> 0 \<longleftrightarrow> bit w 31"
    "w AND SEQUENCE_LOCKTIME_TYPE_FLAG \<noteq> 0 \<longleftrightarrow> bit w 22"
    "uint (w AND SEQUENCE_LOCKTIME_MASK) = uint w mod 2 ^ 16"
    "uint (push_bit SEQUENCE_LOCKTIME_GRANULARITY (w AND SEQUENCE_LOCKTIME_MASK)) = 512 * (uint w mod 2 ^ 16)"
proof -
  show "w AND SEQUENCE_LOCKTIME_DISABLE_FLAG \<noteq> 0 \<longleftrightarrow> bit w 31" "w AND SEQUENCE_LOCKTIME_TYPE_FLAG \<noteq> 0 \<longleftrightarrow> bit w 22"
    by (simp_all only: SEQUENCE_LOCKTIME_DISABLE_FLAG_def SEQUENCE_LOCKTIME_TYPE_FLAG_def bit_iff_and_push_bit_not_eq_0)
  have m: "w AND SEQUENCE_LOCKTIME_MASK = take_bit 16 w"
    by (simp add: SEQUENCE_LOCKTIME_MASK_def take_bit_eq_mask mask_eq_exp_minus_1)
  show u: "uint (w AND SEQUENCE_LOCKTIME_MASK) = uint w mod 2 ^ 16"
    unfolding m unsigned_take_bit_eq by (rule take_bit_eq_mod)
  have "uint w mod 2 ^ 16 * 512 < 2 ^ 32" by (simp add: order.strict_trans1 [OF mult_right_mono [OF order.strict_implies_order [OF pos_mod_bound]]])
  then show "uint (push_bit SEQUENCE_LOCKTIME_GRANULARITY (w AND SEQUENCE_LOCKTIME_MASK)) = 512 * (uint w mod 2 ^ 16)"
    using u by (simp add: SEQUENCE_LOCKTIME_GRANULARITY_def push_bit_eq_mult uint_mult_lem [THEN iffD1] uint_word_ariths mod_pos_pos_trivial)
qed

lemma median_time_nonneg: "0 \<le> GetMedianTimePast S p"
proof -
  have "(\<forall>t \<in> set acc. 0 \<le> t) \<Longrightarrow> (\<forall>t \<in> set (median_window S n q acc). 0 \<le> t)" for n q acc
    by (induction S n q acc rule: median_window.induct) (auto simp: GetBlockTime_def)
  from this [of "[]" nMedianTimeSpan "Some p"] have w: "\<forall>t \<in> set (median_window S nMedianTimeSpan (Some p) []). 0 \<le> t" by simp
  have "length acc \<le> length (median_window S n q acc)" for n q acc
    by (induction S n q acc rule: median_window.induct) auto
  then have "median_window S nMedianTimeSpan (Some p) [] \<noteq> []"
    by (metis One_nat_def length_Cons list.size(3) median_window.simps(3) nMedianTimeSpan_def not_one_le_zero numeral_eq_Suc)
  then have "sort (median_window S nMedianTimeSpan (Some p) []) ! (length (sort (median_window S nMedianTimeSpan (Some p) [])) div 2) \<in>
      set (median_window S nMedianTimeSpan (Some p) [])"
    using nth_mem [of "length (sort (median_window S nMedianTimeSpan (Some p) [])) div 2" "sort (median_window S nMedianTimeSpan (Some p) [])"]
    by simp
  then show ?thesis using w by (simp add: GetMedianTimePast_def Let_def)
qed

lemma sequence_locks_loop_ok:
  assumes "wf_store S"
  shows "list_all (\<lambda>(i, h). h \<le> nHeight (S block) + 1) is \<Longrightarrow>
    \<exists>mh' mt' ks'. sequence_locks_loop S block is mh mt ks = Some ((mh', mt'), ks') \<and>
      (mh' < nHeight (S block) \<and> mt' < GetMedianTimePast S prev \<longleftrightarrow>
       mh < nHeight (S block) \<and> mt < GetMedianTimePast S prev \<and> list_all (\<lambda>(i, h). lock_passed S block prev i h) is)"
proof (induction "is" arbitrary: mh mt ks)
  case (Cons ih "is")
  obtain i h where ih: "ih = (i, h)" by fastforce
  have hb: "h \<le> nHeight (S block) + 1" and rest: "list_all (\<lambda>(i, h). h \<le> nHeight (S block) + 1) is"
    using Cons.prems by (simp_all add: ih)
  let ?d = "nat (nHeight (S block) - max (h - 1) 0)"
  have mx: "0 \<le> max (h - 1) 0" "max (h - 1) 0 \<le> nHeight (S block)" using hb wf_height [OF assms, of block] by auto
  obtain q where q: "up S ?d block = Some q" using up_total [OF assms, of ?d block] mx by auto
  then have anc: "GetAncestor S block (max (h - 1) 0) = Some (Some q)" using mx by (simp add: GetAncestor_up [OF assms])
  show ?case
  proof (cases "bit (nSequence i) 31")
    case True
    then show ?thesis using Cons.IH [OF rest, of mh mt "ks @ [0]"]
      by (simp add: ih sequence_masks(1) lock_passed_def)
  next
    case f31: False
    show ?thesis
    proof (cases "bit (nSequence i) 22")
      case True
      let ?m = "GetMedianTimePast S q + 512 * (uint (nSequence i) mod 2 ^ 16)"
      obtain mh' mt' ks' where r: "sequence_locks_loop S block is mh (max mt (?m - 1)) (ks @ [h]) = Some ((mh', mt'), ks')"
        "mh' < nHeight (S block) \<and> mt' < GetMedianTimePast S prev \<longleftrightarrow> mh < nHeight (S block) \<and>
         max mt (?m - 1) < GetMedianTimePast S prev \<and> list_all (\<lambda>(i, h). lock_passed S block prev i h) is"
        using Cons.IH [OF rest] by blast
      have "lock_passed S block prev i h \<longleftrightarrow> ?m \<le> GetMedianTimePast S prev"
        using f31 True q by (simp add: lock_passed_def)
      moreover have "sequence_locks_loop S block (ih # is) mh mt ks = Some ((mh', mt'), ks')"
        using r(1) f31 True anc by (simp add: ih sequence_masks del: push_bit_and)
      ultimately show ?thesis using r(2) by (auto simp: ih)
    next
      case False
      let ?m = "h + uint (nSequence i) mod 2 ^ 16"
      obtain mh' mt' ks' where r: "sequence_locks_loop S block is (max mh (?m - 1)) mt (ks @ [h]) = Some ((mh', mt'), ks')"
        "mh' < nHeight (S block) \<and> mt' < GetMedianTimePast S prev \<longleftrightarrow> max mh (?m - 1) < nHeight (S block) \<and>
         mt < GetMedianTimePast S prev \<and> list_all (\<lambda>(i, h). lock_passed S block prev i h) is"
        using Cons.IH [OF rest] by blast
      have "lock_passed S block prev i h \<longleftrightarrow> ?m \<le> nHeight (S block)"
        using f31 False by (simp add: lock_passed_def)
      moreover have "sequence_locks_loop S block (ih # is) mh mt ks = Some ((mh', mt'), ks')"
        using r(1) f31 False by (simp add: ih sequence_masks)
      ultimately show ?thesis using r(2) by (auto simp: ih)
    qed
  qed
qed simp

text \<open>
  C22. \<open>SequenceLocks\<close>, which folds the locks of the inputs into one height and one time, returns
  and accepts a transaction in a block exactly when the relative lock of every input has passed:
  none when its sequence number disables it, else blocks since the coin's height or units of 512
  seconds of median time since the block before the coin's.  Without the flag, or in a transaction
  of version below 2, nothing is asked.
\<close>

theorem SequenceLocks_accepts:
  assumes "wf_store S" "pprev (S block) = Some prev" "length prevHeights = length (vin tx)"
    and "list_all (\<lambda>h. h \<le> nHeight (S block) + 1) prevHeights"
  shows "\<exists>ks. SequenceLocks S tx flags prevHeights block =
    Some (tx_nVersion tx < 2 \<or> \<not> bit flags LOCKTIME_VERIFY_SEQUENCE \<or>
            list_all (\<lambda>(i, h). lock_passed S block prev i h) (zip (vin tx) prevHeights), ks)"
proof -
  have H: "0 \<le> nHeight (S block)" "0 \<le> GetMedianTimePast S prev" by (rule wf_height [OF assms(1)], rule median_time_nonneg)
  have z: "list_all (\<lambda>(i, h). h \<le> nHeight (S block) + 1) (zip (vin tx) prevHeights)"
    using assms(4) by (auto simp: list_all_iff dest: set_zip_rightD)
  obtain mh mt ks where l: "sequence_locks_loop S block (zip (vin tx) prevHeights) (- 1) (- 1) [] = Some ((mh, mt), ks)"
      "mh < nHeight (S block) \<and> mt < GetMedianTimePast S prev \<longleftrightarrow>
       - 1 < nHeight (S block) \<and> - 1 < GetMedianTimePast S prev \<and> list_all (\<lambda>(i, h). lock_passed S block prev i h) (zip (vin tx) prevHeights)"
    using sequence_locks_loop_ok [OF assms(1) z, of "- 1" "- 1" "[]" prev] by blast
  show ?thesis
  proof (cases "2 \<le> tx_nVersion tx \<and> bit flags LOCKTIME_VERIFY_SEQUENCE")
    case True
    then show ?thesis using l H assms(2,3) by (auto simp: SequenceLocks_def CalculateSequenceLocks_def EvaluateSequenceLocks_def)
  next
    case False
    then show ?thesis using H assms(2,3)
      by (auto simp: SequenceLocks_def CalculateSequenceLocks_def EvaluateSequenceLocks_def Let_def not_le)
  qed
qed

lemma SequenceLocks_accepts_witness:
  "\<exists>ks ks'. SequenceLocks sample_store (sample_payment\<lparr>tx_nVersion := 2, vin := [mk_CTxIn COutPoint_SetNull [] 3]\<rparr>) 1 [2] 5 = Some (True, ks) \<and>
     SequenceLocks sample_store (sample_payment\<lparr>tx_nVersion := 2, vin := [mk_CTxIn COutPoint_SetNull [] 4]\<rparr>) 1 [2] 5 = Some (False, ks')"
proof -
  have s: "pprev (sample_store 5) = Some 4" "nHeight (sample_store 5) = 5" by (simp_all add: sample_store_def)
  have b: "\<not> bit (3 :: u32) 31" "\<not> bit (3 :: u32) 22" "\<not> bit (4 :: u32) 31" "\<not> bit (4 :: u32) 22" by simp_all
  have l: "lock_passed sample_store 5 4 (mk_CTxIn COutPoint_SetNull [] 3) 2" "\<not> lock_passed sample_store 5 4 (mk_CTxIn COutPoint_SetNull [] 4) 2"
    using b by (simp_all add: lock_passed_def mk_CTxIn_def s)
  note t = SequenceLocks_accepts [OF wf_sample_store s(1), of "[2]", where flags = 1]
  show ?thesis
    using t [of "sample_payment\<lparr>tx_nVersion := 2, vin := [mk_CTxIn COutPoint_SetNull [] 3]\<rparr>"]
      t [of "sample_payment\<lparr>tx_nVersion := 2, vin := [mk_CTxIn COutPoint_SetNull [] 4]\<rparr>"] l
    by (simp add: s LOCKTIME_VERIFY_SEQUENCE_def)
qed

end
