(* ===== verification/VersionBits.thy ===== *)
theory VersionBits
  imports Chain
begin

text \<open>
  Deployment of rule changes by version bits (\<open>versionbits.h\<close>, \<open>versionbits.cpp\<close>, the parts of
  \<open>main.cpp\<close> that use it): the state of a deployment for the block after a given one, computed period
  by period with a cache.  The states by period are compared with the automaton that the proposal
  describes, without cache and without the shortcut before the start time.
\<close>

unbundle bit_operations_syntax

subsection \<open>States, parameters and conditions\<close>

datatype ThresholdState = THRESHOLD_DEFINED | THRESHOLD_STARTED | THRESHOLD_LOCKED_IN | THRESHOLD_ACTIVE | THRESHOLD_FAILED

definition VERSIONBITS_LAST_OLD_BLOCK_VERSION :: "32 word" where "VERSIONBITS_LAST_OLD_BLOCK_VERSION = 4"
definition VERSIONBITS_TOP_BITS :: "32 word" where "VERSIONBITS_TOP_BITS = 0x20000000"
definition VERSIONBITS_TOP_MASK :: "32 word" where "VERSIONBITS_TOP_MASK = 0xE0000000"
definition VERSIONBITS_NUM_BITS :: nat where "VERSIONBITS_NUM_BITS = 29"

record BIP9Deployment =
  dep_bit :: nat
  dep_nStartTime :: int
  dep_nTimeout :: int

datatype DeploymentPos = DEPLOYMENT_TESTDUMMY | DEPLOYMENT_CSV

definition all_deployments :: "DeploymentPos list" where
  "all_deployments = [DEPLOYMENT_TESTDUMMY, DEPLOYMENT_CSV]"

record DeploymentParams =
  nRuleChangeActivationThreshold :: nat
  nMinerConfirmationWindow :: nat
  vDeployments :: "DeploymentPos \<Rightarrow> BIP9Deployment"

definition main_deployments :: DeploymentParams where
  "main_deployments = \<lparr>nRuleChangeActivationThreshold = 1916, nMinerConfirmationWindow = 2016,
     vDeployments = (\<lambda>d. case d of
       DEPLOYMENT_TESTDUMMY \<Rightarrow> \<lparr>dep_bit = 28, dep_nStartTime = 1199145601, dep_nTimeout = 1230767999\<rparr>
     | DEPLOYMENT_CSV \<Rightarrow> \<lparr>dep_bit = 0, dep_nStartTime = 1524045652, dep_nTimeout = 1555581652\<rparr>)\<rparr>"

definition test_deployments :: DeploymentParams where
  "test_deployments = \<lparr>nRuleChangeActivationThreshold = 1512, nMinerConfirmationWindow = 2016,
     vDeployments = (\<lambda>d. case d of
       DEPLOYMENT_TESTDUMMY \<Rightarrow> \<lparr>dep_bit = 28, dep_nStartTime = 1199145601, dep_nTimeout = 123076799\<rparr>
     | DEPLOYMENT_CSV \<Rightarrow> \<lparr>dep_bit = 0, dep_nStartTime = 1524057440, dep_nTimeout = 1555592236\<rparr>)\<rparr>"

definition regtest_deployments :: DeploymentParams where
  "regtest_deployments = \<lparr>nRuleChangeActivationThreshold = 108, nMinerConfirmationWindow = 144,
     vDeployments = (\<lambda>d. case d of
       DEPLOYMENT_TESTDUMMY \<Rightarrow> \<lparr>dep_bit = 28, dep_nStartTime = 0, dep_nTimeout = 999999999999\<rparr>
     | DEPLOYMENT_CSV \<Rightarrow> \<lparr>dep_bit = 0, dep_nStartTime = 0, dep_nTimeout = 1000000000000\<rparr>)\<rparr>"

text \<open>The virtual functions of a checker.\<close>

record ThresholdChecker =
  Condition :: "block_store \<Rightarrow> block_id \<Rightarrow> bool"
  BeginTime :: int
  EndTime :: int
  Period :: nat
  Threshold :: nat

definition deployment_mask :: "DeploymentParams \<Rightarrow> DeploymentPos \<Rightarrow> u32" where
  "deployment_mask params pos = push_bit (dep_bit (vDeployments params pos)) 1"

definition VersionBitsConditionChecker :: "DeploymentParams \<Rightarrow> DeploymentPos \<Rightarrow> ThresholdChecker" where
  "VersionBitsConditionChecker params pos =
     \<lparr>Condition = (\<lambda>S p. nVersion (S p) AND VERSIONBITS_TOP_MASK = VERSIONBITS_TOP_BITS \<and>
        nVersion (S p) AND deployment_mask params pos \<noteq> 0),
      BeginTime = dep_nStartTime (vDeployments params pos), EndTime = dep_nTimeout (vDeployments params pos),
      Period = nMinerConfirmationWindow params, Threshold = nRuleChangeActivationThreshold params\<rparr>"

text \<open>\<open>expected\<close> is what \<open>ComputeBlockVersion\<close> returns for the block after a given one.\<close>

definition WarningBitsConditionChecker :: "DeploymentParams \<Rightarrow> (block_id option \<Rightarrow> 32 word) \<Rightarrow> nat \<Rightarrow> ThresholdChecker" where
  "WarningBitsConditionChecker params expected b =
     \<lparr>Condition = (\<lambda>S p. nVersion (S p) AND VERSIONBITS_TOP_MASK = VERSIONBITS_TOP_BITS \<and>
        drop_bit b (nVersion (S p)) AND 1 \<noteq> 0 \<and> drop_bit b (expected (pprev (S p))) AND 1 = 0),
      BeginTime = 0, EndTime = 2 ^ 63 - 1,
      Period = nMinerConfirmationWindow params, Threshold = nRuleChangeActivationThreshold params\<rparr>"

subsection \<open>The state of a deployment\<close>

type_synonym ThresholdConditionCache = "block_id option \<Rightarrow> ThresholdState option"

text \<open>Backwards in steps of a period to a block whose state is known.\<close>

partial_function (option) find_known ::
  "block_store \<Rightarrow> ThresholdChecker \<Rightarrow> ThresholdConditionCache \<Rightarrow> block_id option \<Rightarrow> block_id list \<Rightarrow>
   (ThresholdConditionCache \<times> block_id option \<times> block_id list) option" where
  "find_known S ck cache pindexPrev vToCompute =
     (if cache pindexPrev \<noteq> None then Some (cache, pindexPrev, vToCompute)
      else case pindexPrev of
        None \<Rightarrow> Some (cache(None := Some THRESHOLD_DEFINED), None, vToCompute)
      | Some p \<Rightarrow>
          if GetMedianTimePast S p < BeginTime ck
          then Some (cache(Some p := Some THRESHOLD_DEFINED), Some p, vToCompute)
          else (case GetAncestor S p (nHeight (S p) - int (Period ck)) of
                  None \<Rightarrow> None
                | Some pindexPrev \<Rightarrow> find_known S ck cache pindexPrev (p # vToCompute)))"

text \<open>Counting over a period; following the null pointer is undefined.\<close>

fun count_condition :: "block_store \<Rightarrow> ThresholdChecker \<Rightarrow> nat \<Rightarrow> block_id option \<Rightarrow> nat \<Rightarrow> nat option" where
  "count_condition S ck 0 pindexCount cnt = Some cnt"
| "count_condition S ck (Suc n) None cnt = None"
| "count_condition S ck (Suc n) (Some p) cnt =
     count_condition S ck n (pprev (S p)) (if Condition ck S p then cnt + 1 else cnt)"

definition next_state :: "block_store \<Rightarrow> ThresholdChecker \<Rightarrow> block_id \<Rightarrow> ThresholdState \<Rightarrow> ThresholdState option" where
  "next_state S ck p state =
     (case state of
        THRESHOLD_DEFINED \<Rightarrow>
          Some (if GetMedianTimePast S p \<ge> EndTime ck then THRESHOLD_FAILED
                else if GetMedianTimePast S p \<ge> BeginTime ck then THRESHOLD_STARTED
                else THRESHOLD_DEFINED)
      | THRESHOLD_STARTED \<Rightarrow>
          if GetMedianTimePast S p \<ge> EndTime ck then Some THRESHOLD_FAILED
          else map_option (\<lambda>cnt. if cnt \<ge> Threshold ck then THRESHOLD_LOCKED_IN else THRESHOLD_STARTED)
                 (count_condition S ck (Period ck) (Some p) 0)
      | THRESHOLD_LOCKED_IN \<Rightarrow> Some THRESHOLD_ACTIVE
      | THRESHOLD_FAILED \<Rightarrow> Some THRESHOLD_FAILED
      | THRESHOLD_ACTIVE \<Rightarrow> Some THRESHOLD_ACTIVE)"

text \<open>Forward again; the last block that was put aside comes first.\<close>

fun compute_states :: "block_store \<Rightarrow> ThresholdChecker \<Rightarrow> ThresholdConditionCache \<Rightarrow> ThresholdState \<Rightarrow> block_id list \<Rightarrow>
    (ThresholdState \<times> ThresholdConditionCache) option" where
  "compute_states S ck cache state [] = Some (state, cache)"
| "compute_states S ck cache state (p # vToCompute) =
     (case next_state S ck p state of
        None \<Rightarrow> None
      | Some state \<Rightarrow> compute_states S ck (cache(Some p := Some state)) state vToCompute)"

definition GetStateFor :: "block_store \<Rightarrow> ThresholdChecker \<Rightarrow> block_id option \<Rightarrow> ThresholdConditionCache \<Rightarrow>
    (ThresholdState \<times> ThresholdConditionCache) option" where
  "GetStateFor S ck pindexPrev cache =
     (case (case pindexPrev of
              None \<Rightarrow> Some None
            | Some p \<Rightarrow> GetAncestor S p (nHeight (S p) - (nHeight (S p) + 1) mod int (Period ck))) of
        None \<Rightarrow> None
      | Some pindexPrev \<Rightarrow>
          (case find_known S ck cache pindexPrev [] of
             None \<Rightarrow> None
           | Some (cache, pindexPrev, vToCompute) \<Rightarrow>
               (case cache pindexPrev of
                  None \<Rightarrow> None
                | Some state \<Rightarrow> compute_states S ck cache state vToCompute)))"

type_synonym VersionBitsCache = "DeploymentPos \<Rightarrow> ThresholdConditionCache"

definition VersionBitsCache_Clear :: VersionBitsCache where
  "VersionBitsCache_Clear = (\<lambda>pos. Map.empty)"

definition VersionBitsState :: "block_store \<Rightarrow> block_id option \<Rightarrow> DeploymentParams \<Rightarrow> DeploymentPos \<Rightarrow> VersionBitsCache \<Rightarrow>
    (ThresholdState \<times> VersionBitsCache) option" where
  "VersionBitsState S pindexPrev params pos cache =
     map_option (\<lambda>(state, c). (state, cache(pos := c)))
       (GetStateFor S (VersionBitsConditionChecker params pos) pindexPrev (cache pos))"

definition VersionBitsMask :: "DeploymentParams \<Rightarrow> DeploymentPos \<Rightarrow> u32" where
  "VersionBitsMask params pos = deployment_mask params pos"

fun block_version_loop :: "block_store \<Rightarrow> block_id option \<Rightarrow> DeploymentParams \<Rightarrow> DeploymentPos list \<Rightarrow> 32 word \<Rightarrow> VersionBitsCache \<Rightarrow>
    (32 word \<times> VersionBitsCache) option" where
  "block_version_loop S pindexPrev params [] version cache = Some (version, cache)"
| "block_version_loop S pindexPrev params (pos # ps) version cache =
     (case VersionBitsState S pindexPrev params pos cache of
        None \<Rightarrow> None
      | Some (state, cache) \<Rightarrow>
          block_version_loop S pindexPrev params ps
            (if state = THRESHOLD_LOCKED_IN \<or> state = THRESHOLD_STARTED
             then version OR VersionBitsMask params pos else version) cache)"

definition ComputeBlockVersion :: "block_store \<Rightarrow> block_id option \<Rightarrow> DeploymentParams \<Rightarrow> VersionBitsCache \<Rightarrow>
    (32 word \<times> VersionBitsCache) option" where
  "ComputeBlockVersion S pindexPrev params cache =
     block_version_loop S pindexPrev params all_deployments VERSIONBITS_TOP_BITS cache"

text \<open>How many of the last blocks have a version bit that was not expected.\<close>

fun count_upgraded :: "block_store \<Rightarrow> DeploymentParams \<Rightarrow> nat \<Rightarrow> block_id option \<Rightarrow> nat \<Rightarrow> VersionBitsCache \<Rightarrow>
    (nat \<times> VersionBitsCache) option" where
  "count_upgraded S params 0 pindex nUpgraded cache = Some (nUpgraded, cache)"
| "count_upgraded S params (Suc i) None nUpgraded cache = Some (nUpgraded, cache)"
| "count_upgraded S params (Suc i) (Some p) nUpgraded cache =
     (case ComputeBlockVersion S (pprev (S p)) params cache of
        None \<Rightarrow> None
      | Some (nExpectedVersion, cache) \<Rightarrow>
          count_upgraded S params i (pprev (S p))
            (if sint (nVersion (S p)) > sint VERSIONBITS_LAST_OLD_BLOCK_VERSION \<and>
                nVersion (S p) AND NOT nExpectedVersion \<noteq> 0
             then nUpgraded + 1 else nUpgraded) cache)"

definition unknown_versions :: "block_store \<Rightarrow> DeploymentParams \<Rightarrow> block_id option \<Rightarrow> VersionBitsCache \<Rightarrow>
    (bool \<times> VersionBitsCache) option" where
  "unknown_versions S params tip cache =
     map_option (\<lambda>(nUpgraded, cache). (nUpgraded > 100 div 2, cache)) (count_upgraded S params 100 tip 0 cache)"

subsection \<open>The states by period\<close>

text \<open>
  The automaton of the proposal: the state after \<open>k\<close> periods, on the block that ends the last of
  them, and the number of blocks of a period that meet the condition.
\<close>

fun signals :: "block_store \<Rightarrow> ThresholdChecker \<Rightarrow> nat \<Rightarrow> block_id \<Rightarrow> nat" where
  "signals S ck 0 p = 0"
| "signals S ck (Suc n) p =
     (if Condition ck S p then 1 else 0) + (case pprev (S p) of None \<Rightarrow> 0 | Some q \<Rightarrow> signals S ck n q)"

fun period_state :: "block_store \<Rightarrow> ThresholdChecker \<Rightarrow> nat \<Rightarrow> block_id option \<Rightarrow> ThresholdState" where
  "period_state S ck 0 p = THRESHOLD_DEFINED"
| "period_state S ck (Suc k) None = THRESHOLD_DEFINED"
| "period_state S ck (Suc k) (Some p) =
     (let before = period_state S ck k (up S (Period ck) p); time = GetMedianTimePast S p in
      case before of
        THRESHOLD_DEFINED \<Rightarrow>
          if time \<ge> EndTime ck then THRESHOLD_FAILED
          else if time \<ge> BeginTime ck then THRESHOLD_STARTED else THRESHOLD_DEFINED
      | THRESHOLD_STARTED \<Rightarrow>
          if time \<ge> EndTime ck then THRESHOLD_FAILED
          else if signals S ck (Period ck) p \<ge> Threshold ck then THRESHOLD_LOCKED_IN else THRESHOLD_STARTED
      | THRESHOLD_LOCKED_IN \<Rightarrow> THRESHOLD_ACTIVE
      | THRESHOLD_ACTIVE \<Rightarrow> THRESHOLD_ACTIVE
      | THRESHOLD_FAILED \<Rightarrow> THRESHOLD_FAILED)"

text \<open>The state for the block after a given one.\<close>

definition state_after :: "block_store \<Rightarrow> ThresholdChecker \<Rightarrow> block_id option \<Rightarrow> ThresholdState" where
  "state_after S ck pindexPrev =
     (case pindexPrev of
        None \<Rightarrow> THRESHOLD_DEFINED
      | Some p \<Rightarrow>
          let n = nat (nHeight (S p) + 1) in
          period_state S ck (n div Period ck) (if n < Period ck then None else up S (n mod Period ck) p))"

subsection \<open>Ends of periods\<close>

text \<open>\<open>p\<close> is the last block of \<open>k\<close> full periods.\<close>

definition period_end :: "block_store \<Rightarrow> ThresholdChecker \<Rightarrow> nat \<Rightarrow> block_id option \<Rightarrow> bool" where
  "period_end S ck k p \<longleftrightarrow>
     (case p of None \<Rightarrow> k = 0 | Some q \<Rightarrow> 0 < k \<and> nHeight (S q) + 1 = int (k * Period ck))"

definition cache_right :: "block_store \<Rightarrow> ThresholdChecker \<Rightarrow> ThresholdConditionCache \<Rightarrow> bool" where
  "cache_right S ck cache \<longleftrightarrow>
     (\<forall>k p s. period_end S ck k p \<longrightarrow> cache p = Some s \<longrightarrow> s = period_state S ck k p)"

definition times_rise :: "block_store \<Rightarrow> bool" where
  "times_rise S \<longleftrightarrow> (\<forall>p q. pprev (S p) = Some q \<longrightarrow> GetMedianTimePast S q \<le> GetMedianTimePast S p)"

lemma times_rise_up: "times_rise S \<Longrightarrow> up S n p = Some q \<Longrightarrow> GetMedianTimePast S q \<le> GetMedianTimePast S p"
proof (induction S n p rule: up.induct)
  case (2 S n p)
  then obtain r where r: "pprev (S p) = Some r" "up S n r = Some q" by (auto split: option.splits)
  then have "GetMedianTimePast S q \<le> GetMedianTimePast S r" using 2 by simp
  also have "\<dots> \<le> GetMedianTimePast S p" using "2.prems"(1) r(1) by (simp add: times_rise_def)
  finally show ?case .
qed simp

lemma up_beyond: "wf_store S \<Longrightarrow> nHeight (S p) < int n \<Longrightarrow> up S n p = None"
  using up_height [of S n p] wf_height [of S "the (up S n p)"] by (cases "up S n p") auto

lemma period_end_down:
  assumes "wf_store S" "0 < Period ck" "period_end S ck (Suc k) (Some q)"
  shows "period_end S ck k (up S (Period ck) q)"
    "GetAncestor S q (nHeight (S q) - int (Period ck)) = Some (up S (Period ck) q)"
proof -
  have h: "nHeight (S q) + 1 = int (Suc k * Period ck)" using assms(3) by (simp add: period_end_def)
  have "period_end S ck k (up S (Period ck) q) \<and>
      GetAncestor S q (nHeight (S q) - int (Period ck)) = Some (up S (Period ck) q)"
  proof (cases k)
    case 0
    then have "up S (Period ck) q = None" using up_beyond [OF assms(1)] h by simp
    moreover have "nHeight (S q) - int (Period ck) < 0" using h 0 by simp
    ultimately show ?thesis using 0 by (simp add: GetAncestor_up [OF assms(1)] period_end_def)
  next
    case (Suc j)
    have "nHeight (S q) + 1 = int j * int (Period ck) + 2 * int (Period ck)" using h Suc by (simp add: algebra_simps)
    moreover have "0 \<le> int j * int (Period ck)" by simp
    ultimately have le: "int (Period ck) \<le> nHeight (S q)" using assms(2) by linarith
    then obtain r where r: "up S (Period ck) q = Some r" using up_total [OF assms(1)] by blast
    have "nHeight (S r) = nHeight (S q) - int (Period ck)" by (rule up_height [OF assms(1) r])
    then have "period_end S ck k (Some r)" using h Suc by (simp add: period_end_def algebra_simps)
    then show ?thesis using r le assms(2) by (simp add: GetAncestor_up [OF assms(1)])
  qed
  then show "period_end S ck k (up S (Period ck) q)"
    "GetAncestor S q (nHeight (S q) - int (Period ck)) = Some (up S (Period ck) q)" by simp_all
qed

lemma count_condition_signals:
  "wf_store S \<Longrightarrow> int n \<le> nHeight (S p) + 1 \<Longrightarrow>
     count_condition S ck n (Some p) cnt = Some (cnt + signals S ck n p)"
proof (induction n arbitrary: p cnt)
  case (Suc n)
  show ?case
  proof (cases "pprev (S p)")
    case None
    then have "n = 0" using wf_root [OF Suc.prems(1), of p] Suc.prems(2) by simp
    then show ?thesis using None by simp
  next
    case (Some q)
    then have "int n \<le> nHeight (S q) + 1" using wf_pprev [OF Suc.prems(1) Some] Suc.prems(2) by simp
    then show ?thesis using Suc.IH [OF Suc.prems(1)] Some by simp
  qed
qed simp

lemma next_state_period:
  assumes "wf_store S" "period_end S ck (Suc k) (Some q)"
  shows "next_state S ck q (period_state S ck k (up S (Period ck) q)) = Some (period_state S ck (Suc k) (Some q))"
proof -
  have "int (Period ck) \<le> nHeight (S q) + 1" using assms(2) by (simp add: period_end_def)
  from count_condition_signals [OF assms(1) this]
  show ?thesis by (simp add: next_state_def Let_def split: ThresholdState.splits)
qed

text \<open>The shortcut: before the start time every period is in the first state.\<close>

lemma early_defined:
  assumes "wf_store S" "times_rise S" "BeginTime ck \<le> EndTime ck"
  shows "GetMedianTimePast S q < BeginTime ck \<Longrightarrow> period_state S ck k (Some q) = THRESHOLD_DEFINED"
proof (induction k arbitrary: q)
  case (Suc k)
  have "period_state S ck k (up S (Period ck) q) = THRESHOLD_DEFINED"
  proof (cases "up S (Period ck) q")
    case None
    then show ?thesis by (cases k) simp_all
  next
    case (Some r)
    then show ?thesis using Suc times_rise_up [OF assms(2) Some] by simp
  qed
  then show ?case using Suc.prems assms(3) by simp
qed simp

text \<open>A list of period ends, each a period above the one before.\<close>

fun ladder :: "block_store \<Rightarrow> ThresholdChecker \<Rightarrow> nat \<Rightarrow> block_id option \<Rightarrow> block_id list \<Rightarrow> nat \<Rightarrow> block_id option \<Rightarrow> bool" where
  "ladder S ck k p [] k' p' \<longleftrightarrow> k' = k \<and> p' = p"
| "ladder S ck k p (q # qs) k' p' \<longleftrightarrow>
     up S (Period ck) q = p \<and> period_end S ck (Suc k) (Some q) \<and> ladder S ck (Suc k) (Some q) qs k' p'"

lemma ladder_snoc:
  "ladder S ck k p qs k' p' \<Longrightarrow> up S (Period ck) q = p' \<Longrightarrow> period_end S ck (Suc k') (Some q) \<Longrightarrow>
     ladder S ck k p (qs @ [q]) (Suc k') (Some q)"
  by (induction qs arbitrary: k p) auto

lemma period_end_unique: "0 < Period ck \<Longrightarrow> period_end S ck k p \<Longrightarrow> period_end S ck k' p \<Longrightarrow> k = k'"
  by (auto simp: period_end_def split: option.splits)

lemma cache_right_update:
  "0 < Period ck \<Longrightarrow> cache_right S ck cache \<Longrightarrow> period_end S ck k p \<Longrightarrow>
     cache_right S ck (cache(p := Some (period_state S ck k p)))"
  unfolding cache_right_def using period_end_unique [of ck S] by (metis fun_upd_apply option.inject)

lemma find_known_ok:
  assumes "wf_store S" "0 < Period ck" "times_rise S" "BeginTime ck \<le> EndTime ck"
  shows "cache_right S ck cache \<Longrightarrow> period_end S ck k p \<Longrightarrow>
    \<exists>cache' k' p' qs. find_known S ck cache p v = Some (cache', p', qs @ v) \<and> cache_right S ck cache' \<and>
      cache' p' = Some (period_state S ck k' p') \<and> ladder S ck k' p' qs k p"
proof (induction k arbitrary: p v)
  case 0
  then have p: "p = None" by (simp add: period_end_def split: option.splits)
  show ?case
  proof (cases "cache None")
    case None
    have "cache_right S ck (cache(None := Some (period_state S ck 0 None)))"
      by (rule cache_right_update [OF assms(2) 0(1)]) (simp add: period_end_def)
    then show ?thesis using None p by (subst find_known.simps) (intro exI [of _ 0] exI [of _ "[]"] exI, auto)
  next
    case (Some s)
    then have "s = period_state S ck 0 None" using 0 p unfolding cache_right_def by blast
    then show ?thesis using Some p 0(1) by (subst find_known.simps) (intro exI [of _ 0] exI [of _ "[]"] exI, auto)
  qed
next
  case (Suc k)
  obtain q where p: "p = Some q" using Suc.prems(2) by (auto simp: period_end_def split: option.splits)
  note down = period_end_down [OF assms(1,2) Suc.prems(2) [unfolded p]]
  show ?case
  proof (cases "cache p")
    case (Some s)
    then have "s = period_state S ck (Suc k) p" using Suc.prems unfolding cache_right_def by blast
    then show ?thesis using Some p Suc.prems(1)
      by (subst find_known.simps) (intro exI [of _ "Suc k"] exI [of _ "[]"] exI, auto)
  next
    case None
    show ?thesis
    proof (cases "GetMedianTimePast S q < BeginTime ck")
      case True
      have d: "period_state S ck (Suc k) (Some q) = THRESHOLD_DEFINED" by (rule early_defined [OF assms(1,3,4) True])
      have "cache_right S ck (cache(p := Some (period_state S ck (Suc k) p)))"
        by (rule cache_right_update [OF assms(2) Suc.prems])
      then show ?thesis using None True p d
        by (subst find_known.simps) (intro exI [of _ "Suc k"] exI [of _ "[]"] exI, auto simp del: period_state.simps)
    next
      case False
      from Suc.IH [OF Suc.prems(1) down(1), of "q # v"] obtain cache' k' p' qs where
        r: "find_known S ck cache (up S (Period ck) q) (q # v) = Some (cache', p', qs @ q # v)" "cache_right S ck cache'"
          "cache' p' = Some (period_state S ck k' p')" "ladder S ck k' p' qs k (up S (Period ck) q)" by blast
      have "find_known S ck cache p v = Some (cache', p', (qs @ [q]) @ v)"
        using None False p r(1) down(2) by (subst find_known.simps) simp
      moreover have "ladder S ck k' p' (qs @ [q]) (Suc k) (Some q)"
        by (rule ladder_snoc [OF r(4) refl]) (use Suc.prems(2) p in simp)
      ultimately show ?thesis using r(2,3) p by blast
    qed
  qed
qed

lemma compute_states_ok:
  assumes "wf_store S" "0 < Period ck"
  shows "cache_right S ck cache \<Longrightarrow> ladder S ck k p qs k' p' \<Longrightarrow>
    \<exists>cache'. compute_states S ck cache (period_state S ck k p) qs = Some (period_state S ck k' p', cache') \<and> cache_right S ck cache'"
proof (induction qs arbitrary: k p cache)
  case (Cons q qs)
  then have q: "up S (Period ck) q = p" "period_end S ck (Suc k) (Some q)" "ladder S ck (Suc k) (Some q) qs k' p'" by simp_all
  have "next_state S ck q (period_state S ck k p) = Some (period_state S ck (Suc k) (Some q))"
    using next_state_period [OF assms(1) q(2)] q(1) by simp
  moreover have "cache_right S ck (cache(Some q := Some (period_state S ck (Suc k) (Some q))))"
    by (rule cache_right_update [OF assms(2) Cons.prems(1) q(2)])
  ultimately show ?case using Cons.IH [OF _ q(3)] by (simp del: period_state.simps)
qed simp

lemma last_period_end:
  fixes S :: block_store and ck :: ThresholdChecker and q :: block_id
  assumes "wf_store S" "0 < Period ck"
  defines "n \<equiv> nat (nHeight (S q) + 1)"
  defines "b \<equiv> (if n < Period ck then None else up S (n mod Period ck) q)"
  shows "GetAncestor S q (nHeight (S q) - (nHeight (S q) + 1) mod int (Period ck)) = Some b"
    "period_end S ck (n div Period ck) b"
proof -
  have h: "0 \<le> nHeight (S q)" by (rule wf_height [OF assms(1)])
  have m: "(nHeight (S q) + 1) mod int (Period ck) = int (n mod Period ck)" using h by (simp add: n_def zmod_int)
  have eq: "nHeight (S q) + 1 = int (n div Period ck * Period ck) + int (n mod Period ck)"
  proof -
    have "int n = int (n div Period ck * Period ck) + int (n mod Period ck)" by (simp only: of_nat_add [symmetric] div_mult_mod_eq)
    then show ?thesis using h by (simp add: n_def)
  qed
  have "GetAncestor S q (nHeight (S q) - int (n mod Period ck)) = Some b \<and> period_end S ck (n div Period ck) b"
  proof (cases "n < Period ck")
    case True
    then show ?thesis using h by (simp add: b_def GetAncestor_up [OF assms(1)] period_end_def n_def)
  next
    case False
    then have k: "0 < n div Period ck" using assms(2) by (simp add: div_greater_zero_iff)
    then have "1 * Period ck \<le> n div Period ck * Period ck" by (intro mult_le_mono1) simp
    then have "int (Period ck) \<le> int (n div Period ck * Period ck)" by (simp only: of_nat_le_iff mult_1)
    then have le: "int (n mod Period ck) \<le> nHeight (S q)" using eq assms(2) by linarith
    then obtain r where r: "up S (n mod Period ck) q = Some r" using up_total [OF assms(1)] by blast
    have "nHeight (S r) = nHeight (S q) - int (n mod Period ck)" by (rule up_height [OF assms(1) r])
    then have "period_end S ck (n div Period ck) (Some r)" using eq k by (simp add: period_end_def)
    then show ?thesis using False r le by (simp add: b_def GetAncestor_up [OF assms(1)])
  qed
  then show "GetAncestor S q (nHeight (S q) - (nHeight (S q) + 1) mod int (Period ck)) = Some b"
    "period_end S ck (n div Period ck) b" unfolding m by simp_all
qed

lemma GetStateFor_ok:
  assumes "wf_store S" "0 < Period ck" "times_rise S" "BeginTime ck \<le> EndTime ck" "cache_right S ck cache"
  shows "\<exists>cache'. GetStateFor S ck p cache = Some (state_after S ck p, cache') \<and> cache_right S ck cache'"
proof -
  obtain k b where b: "(case p of None \<Rightarrow> Some None
        | Some q \<Rightarrow> GetAncestor S q (nHeight (S q) - (nHeight (S q) + 1) mod int (Period ck))) = Some b"
      "period_end S ck k b" "state_after S ck p = period_state S ck k b"
  proof (cases p)
    case None
    then show ?thesis using that [of None 0] by (simp add: period_end_def state_after_def)
  next
    case (Some q)
    then show ?thesis using that last_period_end [OF assms(1,2), of q] by (simp add: state_after_def Let_def)
  qed
  from find_known_ok [OF assms(1-4,5) b(2), of "[]"] obtain cache' k' p' qs where
    f: "find_known S ck cache b [] = Some (cache', p', qs)" "cache_right S ck cache'"
      "cache' p' = Some (period_state S ck k' p')" "ladder S ck k' p' qs k b" by auto
  from compute_states_ok [OF assms(1,2) f(2,4)] show ?thesis
    using b(1,3) f(1,3) by (auto simp: GetStateFor_def)
qed

subsection \<open>Properties\<close>

text \<open>
  C9. The state that \<open>GetStateFor\<close> finds with its cache, its shortcut and its walk over period ends is
  the state of the automaton of the proposal at the last full period, it never follows a null pointer
  and it leaves the cache right.  The median times rise along the chain, as the rule on block times
  ensures, and the start time is not after the timeout.
\<close>

theorem GetStateFor_is_automaton:
  assumes "wf_store S" "0 < Period ck" "times_rise S" "BeginTime ck \<le> EndTime ck" "cache_right S ck cache"
  shows "\<exists>cache'. GetStateFor S ck p cache = Some (state_after S ck p, cache') \<and> cache_right S ck cache'"
  by (rule GetStateFor_ok [OF assms])

lemma cache_right_empty: "cache_right S ck Map.empty"
  by (simp add: cache_right_def)

text \<open>Once locked in, active from the next period on.\<close>

lemma active_after_lock_in:
  assumes "period_state S ck k (Some q) = THRESHOLD_LOCKED_IN"
  shows "up S (j * Period ck) b = Some q \<Longrightarrow>
    period_state S ck (k + j) (Some b) = (if j = 0 then THRESHOLD_LOCKED_IN else THRESHOLD_ACTIVE)"
proof (induction j arbitrary: b)
  case 0
  then show ?case using assms by simp
next
  case (Suc j)
  then obtain c where c: "up S (Period ck) b = Some c" "up S (j * Period ck) c = Some q"
    by (auto simp: up_add split: option.splits)
  show ?case using Suc.IH [OF c(2)] c(1) by (cases "j = 0") (simp_all add: Let_def)
qed

lemma locked_in_then_active:
  assumes "wf_store S" "0 < Period ck"
    and started: "period_end S ck k (Some q)" "period_state S ck k (Some q) = THRESHOLD_STARTED"
    and signalled: "up S (Period ck) q1 = Some q" "GetMedianTimePast S q1 < EndTime ck" "Threshold ck \<le> signals S ck (Period ck) q1"
    and later: "up S n r = Some q1"
  shows "state_after S ck (Some r) = (if n < Period ck then THRESHOLD_LOCKED_IN else THRESHOLD_ACTIVE)"
proof -
  let ?P = "Period ck"
  have l: "period_state S ck (Suc k) (Some q1) = THRESHOLD_LOCKED_IN" using started(2) signalled by (simp add: Let_def)
  have "nHeight (S q) = nHeight (S q1) - int ?P" "nHeight (S q1) = nHeight (S r) - int n"
    using up_height [OF assms(1)] signalled(1) later by blast+
  then have h: "nHeight (S r) + 1 = int (Suc k * ?P + n)" using started(1) by (simp add: period_end_def algebra_simps)
  have m: "nat (nHeight (S r) + 1) = Suc k * ?P + n" unfolding h by (rule nat_int)
  have d: "(Suc k * ?P + n) div ?P = Suc k + n div ?P" "(Suc k * ?P + n) mod ?P = n mod ?P"
    using div_mult_self3 [of ?P "Suc k" n] mod_mult_self3 [of "Suc k" ?P n] assms(2) by auto
  have ge: "\<not> Suc k * ?P + n < ?P" by simp
  have "n mod ?P + n div ?P * ?P = n" by simp
  then have "up S (n mod ?P + n div ?P * ?P) r = Some q1" using later by simp
  then obtain b where b: "up S (n mod ?P) r = Some b" "up S (n div ?P * ?P) b = Some q1"
    unfolding up_add by (auto split: option.splits)
  have "state_after S ck (Some r) = period_state S ck (Suc k + n div ?P) (Some b)"
    using b(1) ge by (simp only: state_after_def option.case Let_def m d if_False)
  also have "\<dots> = (if n div ?P = 0 then THRESHOLD_LOCKED_IN else THRESHOLD_ACTIVE)"
    by (rule active_after_lock_in [OF l b(2)])
  finally show ?thesis using assms(2) by (simp add: div_eq_0_iff)
qed

lemma state_after_period_end:
  assumes "0 < Period ck" "period_end S ck k (Some q)"
  shows "state_after S ck (Some q) = period_state S ck k (Some q)"
proof -
  have h: "nHeight (S q) + 1 = int (k * Period ck)" "0 < k" using assms(2) by (simp_all add: period_end_def)
  then have "nat (nHeight (S q) + 1) = k * Period ck" by (metis nat_int)
  then show ?thesis using h(2) assms(1) by (simp add: state_after_def Let_def)
qed

text \<open>
  C26. A deployment that is started is locked in when enough blocks of a period signal it before the
  timeout, and it is active for every later block, a period after that: whatever the blocks built on
  the end \<open>q1\<close> of that period say, \<open>GetStateFor\<close> finds the next block locked in within the next
  period and active from then on.
\<close>

theorem signalled_deployment_becomes_active:
  assumes "wf_store S" "0 < Period ck" "times_rise S" "BeginTime ck \<le> EndTime ck"
    and "cache_right S ck cache0" "cache_right S ck cache"
    and started: "period_end S ck k (Some q)" "GetStateFor S ck (Some q) cache0 = Some (THRESHOLD_STARTED, cache1)"
    and signalled: "up S (Period ck) q1 = Some q" "GetMedianTimePast S q1 < EndTime ck" "Threshold ck \<le> signals S ck (Period ck) q1"
    and later: "up S n r = Some q1"
  shows "\<exists>cache'. GetStateFor S ck (Some r) cache =
    Some (if n < Period ck then THRESHOLD_LOCKED_IN else THRESHOLD_ACTIVE, cache')"
proof -
  have "period_state S ck k (Some q) = THRESHOLD_STARTED"
    using GetStateFor_ok [OF assms(1-5), of "Some q"] started(2) state_after_period_end [OF assms(2) started(1)] by auto
  from locked_in_then_active [OF assms(1,2) started(1) this signalled later]
  show ?thesis using GetStateFor_ok [OF assms(1-4,6), of "Some r"] by auto
qed

text \<open>A chain whose blocks all have the same time and all signal; periods of two blocks.\<close>

definition flat_store :: block_store where
  "flat_store = (\<lambda>p. (sample_store p)\<lparr>nTime := 100\<rparr>)"

definition flat_checker :: ThresholdChecker where
  "flat_checker = \<lparr>Condition = (\<lambda>S p. True), BeginTime = 50, EndTime = 1000, Period = 2, Threshold = 2\<rparr>"

lemma wf_flat_store: "wf_store flat_store"
  by (auto simp: wf_store_def flat_store_def sample_store_def CBlockIndex_default_def split: option.splits)

lemma flat_parts: "nHeight (flat_store p) = int p" "pprev (flat_store p) = (if p = 0 then None else Some (p - 1))"
  by (simp_all add: flat_store_def sample_store_def)

lemma flat_median: "GetMedianTimePast flat_store p = 100"
proof -
  have "set (median_window flat_store n p acc) \<subseteq> insert 100 (set acc)" for n p acc
    by (induction flat_store n p acc rule: median_window.induct) (auto simp: flat_store_def GetBlockTime_def)
  then have s: "set (median_window flat_store nMedianTimeSpan (Some p) []) \<subseteq> {100}" by fastforce
  have "length acc \<le> length (median_window flat_store n p acc)" for n p acc
    by (induction flat_store n p acc rule: median_window.induct) auto
  then have "median_window flat_store nMedianTimeSpan (Some p) [] \<noteq> []"
    by (metis One_nat_def length_Cons list.size(3) median_window.simps(3) nMedianTimeSpan_def not_one_le_zero numeral_eq_Suc)
  moreover have "sort xs ! (length (sort xs) div 2) \<in> set xs" if "xs \<noteq> []" for xs :: "int list"
    using nth_mem [of "length (sort xs) div 2" "sort xs"] that by simp
  ultimately have "sort (median_window flat_store nMedianTimeSpan (Some p) []) !
      (length (sort (median_window flat_store nMedianTimeSpan (Some p) [])) div 2) = 100"
    using s by blast
  then show ?thesis by (simp add: GetMedianTimePast_def Let_def)
qed

lemma flat_states:
  "period_state flat_store flat_checker 1 (Some 1) = THRESHOLD_STARTED"
  "period_state flat_store flat_checker 3 (Some 5) = THRESHOLD_ACTIVE"
  by (simp_all add: numeral_eq_Suc Let_def flat_median flat_checker_def flat_parts)

lemma GetStateFor_is_automaton_witness:
  "\<exists>cache'. GetStateFor flat_store flat_checker (Some 5) Map.empty = Some (THRESHOLD_ACTIVE, cache')"
proof -
  have "times_rise flat_store" by (simp add: times_rise_def flat_median)
  then have "\<exists>cache'. GetStateFor flat_store flat_checker (Some 5) Map.empty = Some (state_after flat_store flat_checker (Some 5), cache') \<and>
      cache_right flat_store flat_checker cache'"
    by (intro GetStateFor_is_automaton [OF wf_flat_store _ _ _ cache_right_empty]) (simp_all add: flat_checker_def)
  moreover have "state_after flat_store flat_checker (Some 5) = THRESHOLD_ACTIVE"
    using flat_states(2) by (simp add: state_after_def Let_def flat_parts flat_checker_def)
  ultimately show ?thesis by auto
qed

lemma signalled_deployment_becomes_active_witness:
  "\<exists>c d. GetStateFor flat_store flat_checker (Some 4) Map.empty = Some (THRESHOLD_LOCKED_IN, c) \<and>
     GetStateFor flat_store flat_checker (Some 9) Map.empty = Some (THRESHOLD_ACTIVE, d)"
proof -
  have t: "times_rise flat_store" "BeginTime flat_checker \<le> EndTime flat_checker"
    by (simp_all add: times_rise_def flat_median flat_checker_def)
  have s: "period_end flat_store flat_checker 1 (Some 1)" "up flat_store (Period flat_checker) 3 = Some 1"
      "GetMedianTimePast flat_store 3 < EndTime flat_checker"
      "Threshold flat_checker \<le> signals flat_store flat_checker (Period flat_checker) 3" "0 < Period flat_checker"
    by (simp_all add: period_end_def flat_checker_def flat_parts flat_median numeral_eq_Suc)
  have u: "up flat_store 1 4 = Some 3" "up flat_store 6 9 = Some 3" by (simp_all add: flat_parts numeral_eq_Suc)
  obtain c where g: "GetStateFor flat_store flat_checker (Some 1) Map.empty = Some (THRESHOLD_STARTED, c)"
    using GetStateFor_ok [OF wf_flat_store s(5) t cache_right_empty, of "Some 1"]
      state_after_period_end [OF s(5,1)] flat_states(1) by auto
  note l = signalled_deployment_becomes_active
    [OF wf_flat_store s(5) t cache_right_empty cache_right_empty s(1) g s(2-4)]
  show ?thesis using l [OF u(1)] l [OF u(2)] by (simp add: flat_checker_def)
qed

end
