(* ===== verification/BlockChecks.thy ===== *)
theory BlockChecks
  imports Validation VersionBits
begin

text \<open>
  The checks of headers and blocks (\<open>main.cpp\<close>, \<open>checkpoints.cpp\<close>): proof of work and time,
  the Merkle root, sizes and coinbases, locked outputs, majorities of block versions, checkpoints,
  lock times and the height in a coinbase.  The hash of a header, the adjusted time, the spork and
  the table of locked outputs are arguments.  \<open>None\<close> is a null pointer or an index out of range
  that the code follows.
\<close>

unbundle bit_operations_syntax

subsection \<open>Blocks without context\<close>

definition MAX_BLOCK_SIGOPS :: nat where "MAX_BLOCK_SIGOPS = MAX_BLOCK_SIZE div 50"

definition CheckBlockHeader :: "(CBlockHeader \<Rightarrow> uint256) \<Rightarrow> Params \<Rightarrow> int \<Rightarrow> CBlockHeader \<Rightarrow> bool \<Rightarrow> CValidationState" where
  "CheckBlockHeader GetHash P adjusted_time block fCheckPOW =
     (if fCheckPOW \<and> \<not> CheckProofOfWork P (GetHash block) (hdr_nBits block)
      then reject 50 REJECT_INVALID ''high-hash''
      else if uint (hdr_nTime block) > adjusted_time + 2 * 60 * 60
      then state_Invalid REJECT_INVALID ''time-too-new'' [] CValidationState_new
      else CValidationState_new)"

text \<open>The first locked output that a transaction other than the locking one spends.\<close>

fun lock_conflict_inputs :: "(COutPoint \<Rightarrow> uint256 option) \<Rightarrow> uint256 \<Rightarrow> CTxIn list \<Rightarrow> uint256 option" where
  "lock_conflict_inputs locked txid [] = None"
| "lock_conflict_inputs locked txid (txin # is) =
     (case locked (prevout txin) of
        Some hashLocked \<Rightarrow> if hashLocked \<noteq> txid then Some hashLocked else lock_conflict_inputs locked txid is
      | None \<Rightarrow> lock_conflict_inputs locked txid is)"

fun lock_conflict :: "(COutPoint \<Rightarrow> uint256 option) \<Rightarrow> CTransaction list \<Rightarrow> uint256 option" where
  "lock_conflict locked [] = None"
| "lock_conflict locked (tx # txs) =
     (if IsCoinBase tx then lock_conflict locked txs
      else case lock_conflict_inputs locked (CTransaction_GetHash tx) (vin tx) of
          Some hashLocked \<Rightarrow> Some hashLocked
        | None \<Rightarrow> lock_conflict locked txs)"

text \<open>The state of the last transaction that was checked; the loop stops at the first invalid one.\<close>

fun check_transactions :: "CTransaction list \<Rightarrow> CValidationState \<Rightarrow> CValidationState" where
  "check_transactions [] st = st"
| "check_transactions (tx # txs) st =
     (let st = CheckTransaction tx in if \<not> state_IsValid st then st else check_transactions txs st)"

text \<open>
  The result is the state, the new value of \<open>fChecked\<close> and the hash of the transaction whose lock
  is violated: it is relayed, and the block is remembered as rejected.
\<close>

definition CheckBlock :: "(CBlockHeader \<Rightarrow> uint256) \<Rightarrow> Params \<Rightarrow> int \<Rightarrow> bool \<Rightarrow> (COutPoint \<Rightarrow> uint256 option) \<Rightarrow>
    CBlock \<Rightarrow> bool \<Rightarrow> bool \<Rightarrow> bool \<Rightarrow> CValidationState \<times> bool \<times> uint256 option" where
  "CheckBlock GetHash P adjusted_time block_filtering locked block fChecked fCheckPOW fCheckMerkleRoot =
     (if fChecked then (CValidationState_new, fChecked, None)
      else let st = CheckBlockHeader GetHash P adjusted_time (blk_header block) fCheckPOW in
      if \<not> state_IsValid st then (st, fChecked, None)
      else let (hashMerkleRoot2, mutated) = BlockMerkleRoot block in
      if fCheckMerkleRoot \<and> hdr_hashMerkleRoot (blk_header block) \<noteq> hashMerkleRoot2
      then (state_DoS 100 REJECT_INVALID ''bad-txnmrklroot'' True [] st, fChecked, None)
      else if fCheckMerkleRoot \<and> mutated
      then (state_DoS 100 REJECT_INVALID ''bad-txns-duplicate'' True [] st, fChecked, None)
      else if vtx block = [] \<or> length (vtx block) > MAX_BLOCK_SIZE \<or> length (Serialize_CBlock block) > MAX_BLOCK_SIZE
      then (state_DoS 100 REJECT_INVALID ''bad-blk-length'' False [] st, fChecked, None)
      else if vtx block = [] \<or> \<not> IsCoinBase (vtx block ! 0)
      then (state_DoS 100 REJECT_INVALID ''bad-cb-missing'' False [] st, fChecked, None)
      else if list_ex IsCoinBase (tl (vtx block))
      then (state_DoS 100 REJECT_INVALID ''bad-cb-multiple'' False [] st, fChecked, None)
      else case (if block_filtering then lock_conflict locked (vtx block) else None) of
        Some hashLocked \<Rightarrow> (state_DoS 0 REJECT_INVALID ''conflict-tx-lock'' False [] st, fChecked, Some hashLocked)
      | None \<Rightarrow>
      let st = check_transactions (vtx block) st in
      if \<not> state_IsValid st then (st, fChecked, None)
      else let nSigOps = foldl (\<lambda>n tx. n + GetLegacySigOpCount tx) 0 (vtx block) in
      if nSigOps > MAX_BLOCK_SIGOPS
      then (state_DoS 100 REJECT_INVALID ''bad-blk-sigops'' False [] st, fChecked, None)
      else (st, if fCheckPOW \<and> fCheckMerkleRoot then True else fChecked, None))"

subsection \<open>Checkpoints\<close>

text \<open>The checkpoints, by rising height.\<close>

type_synonym MapCheckpoints = "(int \<times> uint256) list"

definition GetTotalBlocksEstimate :: "MapCheckpoints \<Rightarrow> int" where
  "GetTotalBlocksEstimate checkpoints = (if checkpoints = [] then 0 else fst (last checkpoints))"

fun last_known :: "(uint256 \<Rightarrow> block_id option) \<Rightarrow> MapCheckpoints \<Rightarrow> block_id option" where
  "last_known mapBlockIndex [] = None"
| "last_known mapBlockIndex ((h, hash) # rest) =
     (case mapBlockIndex hash of Some p \<Rightarrow> Some p | None \<Rightarrow> last_known mapBlockIndex rest)"

definition GetLastCheckpoint :: "(uint256 \<Rightarrow> block_id option) \<Rightarrow> MapCheckpoints \<Rightarrow> block_id option" where
  "GetLastCheckpoint mapBlockIndex checkpoints = last_known mapBlockIndex (rev checkpoints)"

definition GetHeightCheckpoint :: "int \<Rightarrow> MapCheckpoints \<Rightarrow> uint256 option" where
  "GetHeightCheckpoint h checkpoints = map_of checkpoints h"

definition CheckIndexAgainstCheckpoint :: "block_store \<Rightarrow> (uint256 \<Rightarrow> block_id option) \<Rightarrow> uint256 \<Rightarrow> MapCheckpoints \<Rightarrow>
    block_id \<Rightarrow> CValidationState \<Rightarrow> bool \<times> CValidationState" where
  "CheckIndexAgainstCheckpoint S mapBlockIndex hashGenesisBlock checkpoints pindexPrev st =
     (if phashBlock (S pindexPrev) = hashGenesisBlock then (True, st)
      else let h = nHeight (S pindexPrev) + 1 in
      case GetLastCheckpoint mapBlockIndex checkpoints of
        Some pcheckpoint \<Rightarrow> if h < nHeight (S pcheckpoint) then (False, state_DoS 100 0 [] False [] st) else (True, st)
      | None \<Rightarrow> (True, st))"

subsection \<open>Blocks in their context\<close>

record MajorityParams =
  nMajorityEnforceBlockUpgrade :: nat
  nMajorityRejectBlockOutdated :: nat
  nMajorityWindow :: nat

definition main_majority :: MajorityParams where
  "main_majority = \<lparr>nMajorityEnforceBlockUpgrade = 750, nMajorityRejectBlockOutdated = 950, nMajorityWindow = 1000\<rparr>"

definition test_majority :: MajorityParams where
  "test_majority = \<lparr>nMajorityEnforceBlockUpgrade = 51, nMajorityRejectBlockOutdated = 75, nMajorityWindow = 100\<rparr>"

definition regtest_majority :: MajorityParams where
  "regtest_majority = \<lparr>nMajorityEnforceBlockUpgrade = 750, nMajorityRejectBlockOutdated = 950, nMajorityWindow = 1000\<rparr>"

text \<open>The loop counts until enough are found; its first number is how many iterations are left.\<close>

fun super_majority_loop :: "block_store \<Rightarrow> int \<Rightarrow> nat \<Rightarrow> nat \<Rightarrow> block_id option \<Rightarrow> nat \<Rightarrow> nat" where
  "super_majority_loop S minVersion nRequired 0 pstart nFound = nFound"
| "super_majority_loop S minVersion nRequired (Suc i) None nFound = nFound"
| "super_majority_loop S minVersion nRequired (Suc i) (Some p) nFound =
     (if nFound < nRequired
      then super_majority_loop S minVersion nRequired i (pprev (S p))
             (if sint (nVersion (S p)) \<ge> minVersion then nFound + 1 else nFound)
      else nFound)"

definition IsSuperMajority :: "block_store \<Rightarrow> MajorityParams \<Rightarrow> int \<Rightarrow> block_id option \<Rightarrow> nat \<Rightarrow> bool" where
  "IsSuperMajority S M minVersion pstart nRequired \<longleftrightarrow>
     super_majority_loop S minVersion nRequired (nMajorityWindow M) pstart 0 \<ge> nRequired"

definition ContextualCheckBlockHeader :: "(CBlockHeader \<Rightarrow> uint256) \<Rightarrow> Params \<Rightarrow> MajorityParams \<Rightarrow> uint256 \<Rightarrow> block_store \<Rightarrow>
    CBlockHeader \<Rightarrow> block_id \<Rightarrow> CValidationState option" where
  "ContextualCheckBlockHeader GetHash P M hashGenesisBlock S block pindexPrev =
     (if GetHash block = hashGenesisBlock then Some CValidationState_new
      else case GetNextWorkRequired P S (Some pindexPrev) of None \<Rightarrow> None
      | Some required \<Rightarrow> Some (
      if hdr_nBits block \<noteq> required then reject 100 REJECT_INVALID ''bad-diffbits''
      else if uint (hdr_nTime block) \<le> GetMedianTimePast S pindexPrev
      then state_Invalid REJECT_INVALID ''time-too-old'' [] CValidationState_new
      else let rejected = nMajorityRejectBlockOutdated M; v = sint (hdr_nVersion block);
               outdated = (\<lambda>k. v < k \<and> IsSuperMajority S M k (Some pindexPrev) rejected) in
      if outdated 2 \<or> outdated 3 \<or> outdated 4
      then state_Invalid REJECT_OBSOLETE ''bad-version'' [] CValidationState_new
      else CValidationState_new))"

definition starts_with :: "bytes \<Rightarrow> bytes \<Rightarrow> bool" where
  "starts_with s expect \<longleftrightarrow> length expect \<le> length s \<and> take (length expect) s = expect"

definition ContextualCheckBlock :: "DeploymentParams \<Rightarrow> MajorityParams \<Rightarrow> block_store \<Rightarrow> CBlock \<Rightarrow> block_id option \<Rightarrow>
    VersionBitsCache \<Rightarrow> (CValidationState \<times> VersionBitsCache) option" where
  "ContextualCheckBlock D M S block pindexPrev cch =
     (let h = (case pindexPrev of None \<Rightarrow> 0 | Some p \<Rightarrow> nHeight (S p) + 1) in
      case VersionBitsState S pindexPrev D DEPLOYMENT_CSV cch of
        None \<Rightarrow> None
      | Some (state, cch) \<Rightarrow>
      (case (if state = THRESHOLD_ACTIVE then map_option (GetMedianTimePast S) pindexPrev
             else Some (uint (hdr_nTime (blk_header block)))) of
        None \<Rightarrow> None
      | Some nLockTimeCutoff \<Rightarrow>
      if list_ex (\<lambda>tx. \<not> IsFinalTx tx h nLockTimeCutoff) (vtx block)
      then Some (reject 10 REJECT_INVALID ''bad-txns-nonfinal'', cch)
      else if sint (hdr_nVersion (blk_header block)) \<ge> 2 \<and>
              IsSuperMajority S M 2 pindexPrev (nMajorityEnforceBlockUpgrade M)
      then (case vtx block of
              coinbase # _ \<Rightarrow> (case vin coinbase of
                  i # _ \<Rightarrow> Some (if \<not> starts_with (scriptSig i) (push_int64 [] h)
                            then reject 100 REJECT_INVALID ''bad-cb-height'' else CValidationState_new, cch)
                | [] \<Rightarrow> None)
            | [] \<Rightarrow> None)
      else Some (CValidationState_new, cch)))"

subsection \<open>Majorities\<close>

fun last_blocks :: "block_store \<Rightarrow> nat \<Rightarrow> block_id option \<Rightarrow> block_id list" where
  "last_blocks S 0 p = []"
| "last_blocks S (Suc n) None = []"
| "last_blocks S (Suc n) (Some p) = p # last_blocks S n (pprev (S p))"

lemma super_majority_loop_count:
  "nFound \<le> nRequired \<Longrightarrow> super_majority_loop S v nRequired n p nFound =
     min nRequired (nFound + length (filter (\<lambda>q. v \<le> sint (nVersion (S q))) (last_blocks S n p)))"
  by (induction S v nRequired n p nFound rule: super_majority_loop.induct) auto

lemma IsSuperMajority_counts:
  "IsSuperMajority S M v p nRequired \<longleftrightarrow>
     nRequired \<le> length (filter (\<lambda>q. v \<le> sint (nVersion (S q))) (last_blocks S (nMajorityWindow M) p))"
  using super_majority_loop_count [of 0 nRequired S v "nMajorityWindow M" p] by (auto simp: IsSuperMajority_def)

subsection \<open>The height in a coinbase\<close>

lemma length_abs_bytes: "n < 256 ^ k \<Longrightarrow> length (abs_bytes n) \<le> k"
proof (induction k arbitrary: n)
  case (Suc k)
  have "n div 256 < 256 ^ k" using Suc.prems by (simp add: less_mult_imp_div_less mult.commute)
  then show ?case using Suc.IH by (subst abs_bytes.simps) simp
qed (simp add: abs_bytes.simps)

lemma length_serialize: "0 \<le> h \<Longrightarrow> h < 2 ^ 31 \<Longrightarrow> length (scriptnum_serialize h) \<le> 5"
  using length_abs_bytes [of "nat h" 4] by (auto simp: scriptnum_serialize_def Let_def nat_less_iff)

text \<open>The script is parsed back to the height, whatever follows.\<close>

definition pushed_height :: "opcodetype \<Rightarrow> bytes \<Rightarrow> int" where
  "pushed_height opcode data = (if opcode > OP_PUSHDATA4 then int opcode - 80 else set_vch data)"

lemma GetOp_push_height:
  assumes "0 \<le> h" "h < 2 ^ 31"
  shows "\<exists>opcode data. GetOp (push_int64 [] h @ s) = (True, opcode, data, s) \<and> pushed_height opcode data = h"
proof (cases "1 \<le> h \<and> h \<le> 16")
  case True
  define n where "n = nat h"
  have n: "h = int n" "1 \<le> n" "n \<le> 16" using True by (auto simp: n_def)
  have "push_int64 [] h = [of_nat (n + 80)]" using n by (simp add: push_int64_def)
  moreover have "unat (of_nat (n + 80) :: u8) = n + 80" using n by (simp only: unsigned_of_nat) (simp add: take_bit_eq_mod)
  ultimately have "GetOp (push_int64 [] h @ s) = (True, n + 80, [], s)" using n by (simp add: Let_def)
  then show ?thesis using n by (auto simp: pushed_height_def)
next
  case False
  have p: "push_int64 [] h = push_data [] (scriptnum_serialize h)"
    using False assms by (auto simp: push_int64_def push_data_def scriptnum_serialize_def)
  have "length (scriptnum_serialize h) < 2 ^ 32" using length_serialize [OF assms] by simp
  from GetOp_push_data [OF this, of s] obtain opcode where
    "opcode \<le> OP_PUSHDATA4" "GetOp (push_data [] (scriptnum_serialize h) @ s) = (True, opcode, scriptnum_serialize h, s)" by blast
  then show ?thesis unfolding p
    by (intro exI [of _ opcode] exI [of _ "scriptnum_serialize h"]) (simp add: pushed_height_def set_vch_serialize)
qed

lemma starts_with_append: "starts_with s e \<longleftrightarrow> (\<exists>r. s = e @ r)"
  unfolding starts_with_def by (metis append_eq_conv_conj append_take_drop_id le_add1 length_append)

lemma coinbase_height_unique:
  assumes "starts_with s (push_int64 [] h)" "starts_with s (push_int64 [] h')" "0 \<le> h" "h < 2 ^ 31" "0 \<le> h'" "h' < 2 ^ 31"
  shows "h = h'"
proof -
  obtain r r' where s: "s = push_int64 [] h @ r" "s = push_int64 [] h' @ r'" using assms(1,2) unfolding starts_with_append by blast
  obtain opcode data where g: "GetOp s = (True, opcode, data, r)" "pushed_height opcode data = h"
    using GetOp_push_height [OF assms(3,4), of r] s(1) by auto
  obtain opcode' data' where g': "GetOp s = (True, opcode', data', r')" "pushed_height opcode' data' = h'"
    using GetOp_push_height [OF assms(5,6), of r'] s(2) by auto
  show ?thesis using g g' by simp
qed

subsection \<open>Properties\<close>

text \<open>
  C25. Where the majority rule asks for the height in the coinbase, two blocks that pass
  \<open>ContextualCheckBlock\<close> at different heights have different coinbases: the scripts that push two
  heights are never beginnings of the same coinbase script.
\<close>

theorem coinbases_differ_by_height:
  assumes "ContextualCheckBlock D M S b (Some p) cch = Some (st, cch1)" "state_IsValid st"
    and "ContextualCheckBlock D M S b' (Some p') cch' = Some (st', cch2)" "state_IsValid st'"
    and majority: "IsSuperMajority S M 2 (Some p) (nMajorityEnforceBlockUpgrade M)"
      "IsSuperMajority S M 2 (Some p') (nMajorityEnforceBlockUpgrade M)"
    and versions: "2 \<le> sint (hdr_nVersion (blk_header b))" "2 \<le> sint (hdr_nVersion (blk_header b'))"
    and heights: "0 \<le> nHeight (S p)" "nHeight (S p) < 2 ^ 31 - 1" "0 \<le> nHeight (S p')" "nHeight (S p') < 2 ^ 31 - 1"
      "nHeight (S p) \<noteq> nHeight (S p')"
  shows "vtx b ! 0 \<noteq> vtx b' ! 0"
proof
  have ex: "\<exists>i. vin (vtx b ! 0) ! 0 = i \<and> starts_with (scriptSig i) (push_int64 [] (nHeight (S p) + 1))"
    if "ContextualCheckBlock D M S b (Some p) cch = Some (st, cch1)" "state_IsValid st"
      "IsSuperMajority S M 2 (Some p) (nMajorityEnforceBlockUpgrade M)" "2 \<le> sint (hdr_nVersion (blk_header b))" for b p cch st cch1
    using that unfolding ContextualCheckBlock_def
    by (auto simp: Let_def split: option.splits prod.splits if_splits list.splits)
  assume "vtx b ! 0 = vtx b' ! 0"
  then have "starts_with (scriptSig (vin (vtx b ! 0) ! 0)) (push_int64 [] (nHeight (S p) + 1))"
      "starts_with (scriptSig (vin (vtx b ! 0) ! 0)) (push_int64 [] (nHeight (S p') + 1))"
    using ex [OF assms(1,2) majority(1) versions(1)] ex [OF assms(3,4) majority(2) versions(2)] by auto
  from coinbase_height_unique [OF this] show False using heights by simp
qed

definition version2_store :: block_store where
  "version2_store = (\<lambda>p. (sample_store p)\<lparr>nVersion := 2\<rparr>)"

definition height_block :: "int \<Rightarrow> CBlock" where
  "height_block h = \<lparr>blk_header = CBlockHeader_SetNull\<lparr>hdr_nVersion := 2\<rparr>,
     vtx = [sample_coinbase\<lparr>vin := [mk_CTxIn COutPoint_SetNull (push_int64 [] h) SEQUENCE_FINAL]\<rparr>]\<rparr>"

definition small_majority :: MajorityParams where
  "small_majority = \<lparr>nMajorityEnforceBlockUpgrade = 1, nMajorityRejectBlockOutdated = 1, nMajorityWindow = 1\<rparr>"

lemma version2_parts: "wf_store version2_store" "nHeight (version2_store p) = int p" "sint (nVersion (version2_store p)) = 2"
  by (auto simp: version2_store_def wf_store_def sample_store_def CBlockIndex_default_def split: option.splits)

lemma height_block_accepted:
  assumes "p < 100"
  shows "\<exists>cch. ContextualCheckBlock main_deployments small_majority version2_store (height_block (int p + 1)) (Some p)
     VersionBitsCache_Clear = Some (CValidationState_new, cch)"
proof -
  have m: "(int p + 1) mod 2016 = int p + 1" using assms by simp
  have "GetAncestor version2_store p (- 1) = Some None"
    using GetAncestor_up [OF version2_parts(1), of p "- 1"] by simp
  then have "GetStateFor version2_store (VersionBitsConditionChecker main_deployments DEPLOYMENT_CSV) (Some p) Map.empty =
      Some (THRESHOLD_DEFINED, [None \<mapsto> THRESHOLD_DEFINED])"
    by (simp add: GetStateFor_def VersionBitsConditionChecker_def main_deployments_def version2_parts m find_known.simps)
  then obtain cch where "VersionBitsState version2_store (Some p) main_deployments DEPLOYMENT_CSV VersionBitsCache_Clear =
      Some (THRESHOLD_DEFINED, cch)" by (simp add: VersionBitsState_def VersionBitsCache_Clear_def)
  moreover have "IsFinalTx (sample_coinbase\<lparr>vin := x\<rparr>) h t" for x h t by (simp add: IsFinalTx_def sample_coinbase_def)
  moreover have "starts_with (push_int64 [] h) (push_int64 [] h)" for h by (simp add: starts_with_def)
  ultimately show ?thesis
    by (simp add: ContextualCheckBlock_def height_block_def version2_parts mk_CTxIn_def ac_simps)
qed

lemma coinbases_differ_by_height_witness: "vtx (height_block 4) ! 0 \<noteq> vtx (height_block 5) ! 0"
proof -
  obtain cch cch' where c: "ContextualCheckBlock main_deployments small_majority version2_store (height_block 4) (Some 3)
       VersionBitsCache_Clear = Some (CValidationState_new, cch)"
     "ContextualCheckBlock main_deployments small_majority version2_store (height_block 5) (Some 4)
       VersionBitsCache_Clear = Some (CValidationState_new, cch')"
    using height_block_accepted [of 3] height_block_accepted [of 4] by auto
  have m: "IsSuperMajority version2_store small_majority 2 (Some p) (nMajorityEnforceBlockUpgrade small_majority)" for p
    by (simp add: IsSuperMajority_counts small_majority_def version2_parts)
  have v: "2 \<le> sint (hdr_nVersion (blk_header (height_block h)))" for h by (simp add: height_block_def)
  show ?thesis
    by (rule coinbases_differ_by_height [OF c(1) new_valid c(2) new_valid m m v v]) (simp_all add: version2_parts)
qed

end
