(* ===== verification/BlockTree.thy ===== *)
theory BlockTree
  imports BlockChecks
begin

text \<open>
  The tree of blocks around the active chain (\<open>main.cpp\<close>): adding headers, linking blocks whose
  transactions have arrived, the candidates for the tip in their order, the search for the most-work
  chain, marking blocks as failed and taking the mark back, and the warnings about forks.  A pointer
  is the number of a block in the store; numbers also stand for the addresses that break ties.
  \<open>None\<close> is a failed assertion, a null pointer that is followed, or a walk that does not end.
\<close>

unbundle bit_operations_syntax

record BlockTree =
  bt_store :: block_store
  bt_index :: "uint256 \<Rightarrow> block_id option"
  chainActive :: CChain
  pindexBestHeader :: "block_id option"
  pindexBestInvalid :: "block_id option"
  setBlockIndexCandidates :: "block_id list"
  mapBlocksUnlinked :: "(block_id option \<times> block_id) list"
  nBlockSequenceId :: u32
  setDirtyBlockIndex :: "block_id set"
  fLargeWorkForkFound :: bool
  fLargeWorkInvalidChainFound :: bool
  pindexBestForkTip :: "block_id option"
  pindexBestForkBase :: "block_id option"

definition set_block :: "block_id \<Rightarrow> (CBlockIndex \<Rightarrow> CBlockIndex) \<Rightarrow> BlockTree \<Rightarrow> BlockTree" where
  "set_block p f T = T\<lparr>bt_store := (bt_store T)(p := f (bt_store T p))\<rparr>"

definition set_dirty :: "block_id \<Rightarrow> BlockTree \<Rightarrow> BlockTree" where
  "set_dirty p T = T\<lparr>setDirtyBlockIndex := insert p (setDirtyBlockIndex T)\<rparr>"

definition failed :: "block_store \<Rightarrow> block_id \<Rightarrow> bool" where
  "failed S p \<longleftrightarrow> nStatus (S p) AND BLOCK_FAILED_MASK \<noteq> 0"

definition have_data :: "block_store \<Rightarrow> block_id \<Rightarrow> bool" where
  "have_data S p \<longleftrightarrow> nStatus (S p) AND BLOCK_HAVE_DATA \<noteq> 0"

definition work_above :: "block_store \<Rightarrow> block_id \<Rightarrow> block_id option \<Rightarrow> bool" where
  "work_above S p best \<longleftrightarrow> (case best of None \<Rightarrow> True | Some q \<Rightarrow> uint_compare (nChainWork (S p)) (nChainWork (S q)) > 0)"

subsection \<open>The order of the candidates\<close>

definition CBlockIndexWorkComparator :: "block_store \<Rightarrow> block_id \<Rightarrow> block_id \<Rightarrow> bool" where
  "CBlockIndexWorkComparator S pa pb \<longleftrightarrow>
     (let c = uint_compare (nChainWork (S pa)) (nChainWork (S pb)) in
      if c > 0 then False else if c < 0 then True
      else if nSequenceId (S pa) < nSequenceId (S pb) then False
      else if nSequenceId (S pa) > nSequenceId (S pb) then True
      else if pa < pb then False else if pa > pb then True else False)"

text \<open>The set is the list of its elements in order.\<close>

fun candidates_insert :: "block_store \<Rightarrow> block_id \<Rightarrow> block_id list \<Rightarrow> block_id list" where
  "candidates_insert S p [] = [p]"
| "candidates_insert S p (q # qs) =
     (if CBlockIndexWorkComparator S p q then p # q # qs
      else if CBlockIndexWorkComparator S q p then q # candidates_insert S p qs
      else q # qs)"

fun candidates_erase :: "block_store \<Rightarrow> block_id \<Rightarrow> block_id list \<Rightarrow> block_id list" where
  "candidates_erase S p [] = []"
| "candidates_erase S p (q # qs) =
     (if CBlockIndexWorkComparator S p q then q # qs
      else if CBlockIndexWorkComparator S q p then q # candidates_erase S p qs
      else qs)"

definition insert_candidate :: "block_id \<Rightarrow> BlockTree \<Rightarrow> BlockTree" where
  "insert_candidate p T = T\<lparr>setBlockIndexCandidates := candidates_insert (bt_store T) p (setBlockIndexCandidates T)\<rparr>"

definition erase_candidate :: "block_id \<Rightarrow> BlockTree \<Rightarrow> BlockTree" where
  "erase_candidate p T = T\<lparr>setBlockIndexCandidates := candidates_erase (bt_store T) p (setBlockIndexCandidates T)\<rparr>"

definition PruneBlockIndexCandidates :: "BlockTree \<Rightarrow> BlockTree option" where
  "PruneBlockIndexCandidates T =
     (let kept = (case Tip (chainActive T) of
            None \<Rightarrow> None
          | Some tip \<Rightarrow> Some (dropWhile (\<lambda>p. CBlockIndexWorkComparator (bt_store T) p tip) (setBlockIndexCandidates T)))
      in case (if setBlockIndexCandidates T = [] then Some [] else kept) of
           None \<Rightarrow> None
         | Some ps \<Rightarrow> if ps = [] then None else Some (T\<lparr>setBlockIndexCandidates := ps\<rparr>))"

subsection \<open>Headers\<close>

text \<open>\<open>p\<close> is the address of the new block.\<close>

definition AddToBlockIndex :: "(CBlockHeader \<Rightarrow> uint256) \<Rightarrow> CBlockHeader \<Rightarrow> block_id \<Rightarrow> BlockTree \<Rightarrow> (block_id \<times> BlockTree) option" where
  "AddToBlockIndex GetHash block p T =
     (let hash = GetHash block in
      case bt_index T hash of Some q \<Rightarrow> Some (q, T)
      | None \<Rightarrow>
      let b = (CBlockIndex_of_header block)\<lparr>nSequenceId := 0, phashBlock := hash\<rparr>;
          T = T\<lparr>bt_store := (bt_store T)(p := b), bt_index := (bt_index T)(hash \<mapsto> p)\<rparr> in
      case (case bt_index T (hdr_hashPrevBlock block) of
              Some q \<Rightarrow>
                map_option (\<lambda>S. T\<lparr>bt_store := S\<rparr>)
                  (BuildSkip ((bt_store T)(p := b\<lparr>pprev := Some q, nHeight := nHeight (bt_store T q) + 1\<rparr>)) p)
            | None \<Rightarrow> Some T) of
        None \<Rightarrow> None
      | Some T \<Rightarrow>
      (case GetBlockProof (nBits (bt_store T p)) of
        None \<Rightarrow> None
      | Some proof \<Rightarrow>
      let S = bt_store T;
          work = uint_add (case pprev (S p) of Some q \<Rightarrow> nChainWork (S q) | None \<Rightarrow> uint_zero) proof in
      (case RaiseValidity ((S p)\<lparr>nChainWork := work\<rparr>) BLOCK_VALID_TREE of
        None \<Rightarrow> None
      | Some (b, _) \<Rightarrow>
      let T = T\<lparr>bt_store := S(p := b)\<rparr>;
          T = (if work_above (bt_store T) p (pindexBestHeader T) then T\<lparr>pindexBestHeader := Some p\<rparr> else T)
      in Some (p, set_dirty p T))))"

definition AcceptBlockHeader :: "(CBlockHeader \<Rightarrow> uint256) \<Rightarrow> Params \<Rightarrow> MajorityParams \<Rightarrow> uint256 \<Rightarrow> MapCheckpoints \<Rightarrow> bool \<Rightarrow> int \<Rightarrow>
    CBlockHeader \<Rightarrow> block_id \<Rightarrow> BlockTree \<Rightarrow> (CValidationState \<times> block_id option \<times> BlockTree) option" where
  "AcceptBlockHeader GetHash P M hashGenesisBlock checkpoints fCheckpointsEnabled adjusted_time block p T =
     (let hash = GetHash block;
          add = map_option (\<lambda>(q, T). (CValidationState_new, Some q, T)) (AddToBlockIndex GetHash block p T) in
      if hash = hashGenesisBlock then add
      else case bt_index T hash of
        Some q \<Rightarrow>
          if failed (bt_store T) q then Some (state_Invalid 0 ''duplicate'' [] CValidationState_new, Some q, T)
          else Some (CValidationState_new, Some q, T)
      | None \<Rightarrow>
      let st = CheckBlockHeader GetHash P adjusted_time block True in
      if \<not> state_IsValid st then Some (st, None, T)
      else case bt_index T (hdr_hashPrevBlock block) of
        None \<Rightarrow> Some (state_DoS 10 0 ''bad-prevblk'' False [] st, None, T)
      | Some pindexPrev \<Rightarrow>
      if failed (bt_store T) pindexPrev then Some (state_DoS 100 REJECT_INVALID ''bad-prevblk'' False [] st, None, T)
      else if fCheckpointsEnabled \<and>
              (case GetHeightCheckpoint (nHeight (bt_store T pindexPrev) + 1) checkpoints of
                 Some checkpoint \<Rightarrow> hash \<noteq> checkpoint | None \<Rightarrow> False)
      then Some (state_DoS 100 REJECT_INVALID ''bad-prevblk'' False [] st, None, T)
      else let (ok, st') = CheckIndexAgainstCheckpoint (bt_store T) (bt_index T) hashGenesisBlock checkpoints pindexPrev st in
      if fCheckpointsEnabled \<and> \<not> ok then Some (st', None, T)
      else case ContextualCheckBlockHeader GetHash P M hashGenesisBlock (bt_store T) block pindexPrev of
        None \<Rightarrow> None
      | Some st \<Rightarrow> if \<not> state_IsValid st then Some (st, None, T) else add)"

subsection \<open>Transactions have arrived\<close>

lemma unlinked_set_block [simp]: "mapBlocksUnlinked (set_block p f T) = mapBlocksUnlinked T"
  and unlinked_insert [simp]: "mapBlocksUnlinked (insert_candidate p T) = mapBlocksUnlinked T"
  by (simp_all add: set_block_def insert_candidate_def)

text \<open>The queue of blocks that can be linked; each takes what waited for it out of the map.\<close>

function link_loop :: "block_id list \<Rightarrow> BlockTree \<Rightarrow> BlockTree" where
  "link_loop [] T = T"
| "link_loop (p # queue) T =
     (let S = bt_store T;
          before = (case pprev (S p) of Some q \<Rightarrow> nChainTx (S q) | None \<Rightarrow> 0);
          T = set_block p (\<lambda>b. b\<lparr>nChainTx := before + nTx b, nSequenceId := nBlockSequenceId T\<rparr>) T;
          T = T\<lparr>nBlockSequenceId := nBlockSequenceId T + 1\<rparr>;
          T = (case Tip (chainActive T) of
                 None \<Rightarrow> insert_candidate p T
               | Some tip \<Rightarrow> if \<not> CBlockIndexWorkComparator (bt_store T) p tip then insert_candidate p T else T);
          waiting = filter (\<lambda>e. fst e = Some p) (mapBlocksUnlinked T)
      in link_loop (queue @ map snd waiting)
           (T\<lparr>mapBlocksUnlinked := filter (\<lambda>e. fst e \<noteq> Some p) (mapBlocksUnlinked T)\<rparr>))"
  by pat_completeness auto

termination
proof (relation "measure (\<lambda>(queue, T). length queue + length (mapBlocksUnlinked T))", goal_cases)
  case (2 p queue T S before T1 T2 T3 waiting)
  have "mapBlocksUnlinked T3 = mapBlocksUnlinked T" using 2(3-5) by (auto split: option.splits)
  moreover have "length (filter (\<lambda>e. fst e = Some p) l) + length (filter (\<lambda>e. fst e \<noteq> Some p) l) = length l"
    for l :: "(block_id option \<times> block_id) list" by (rule sum_length_filter_compl)
  ultimately show ?case using 2(6) by simp
qed simp

declare link_loop.simps [simp del]

definition ReceivedBlockTransactions :: "CBlock \<Rightarrow> block_id \<Rightarrow> CDiskBlockPos \<Rightarrow> BlockTree \<Rightarrow> BlockTree option" where
  "ReceivedBlockTransactions block p pos T =
     (let T = set_block p (\<lambda>b. b\<lparr>nTx := of_nat (length (vtx block)), nChainTx := 0, nFile := pos_nFile pos,
                 nDataPos := pos_nPos pos, nUndoPos := 0, nStatus := nStatus b OR BLOCK_HAVE_DATA\<rparr>) T in
      case RaiseValidity (bt_store T p) BLOCK_VALID_TRANSACTIONS of None \<Rightarrow> None
      | Some (b, _) \<Rightarrow>
      let T = set_dirty p (set_block p (\<lambda>_. b) T) in
      case pprev (bt_store T p) of
        None \<Rightarrow> Some (link_loop [p] T)
      | Some q \<Rightarrow>
          if nChainTx (bt_store T q) \<noteq> 0 then Some (link_loop [p] T)
          else (case IsValid (bt_store T q) BLOCK_VALID_TREE of
                  None \<Rightarrow> None
                | Some valid \<Rightarrow> Some (if valid then T\<lparr>mapBlocksUnlinked := mapBlocksUnlinked T @ [(Some q, p)]\<rparr> else T)))"

subsection \<open>Warnings about forks\<close>

text \<open>The alerts and log messages are left out; \<open>initial\<close> is \<open>IsInitialBlockDownload()\<close>.\<close>

definition CheckForkWarningConditions :: "bool \<Rightarrow> BlockTree \<Rightarrow> BlockTree option" where
  "CheckForkWarningConditions initial T =
     (if initial then Some T
      else let S = bt_store T;
          T = (case pindexBestForkTip T of
                 Some tip \<Rightarrow> if Height (chainActive T) - nHeight (S tip) \<ge> 72 then T\<lparr>pindexBestForkTip := None\<rparr> else T
               | None \<Rightarrow> T) in
      case (if pindexBestForkTip T \<noteq> None then Some True
            else case pindexBestInvalid T of None \<Rightarrow> Some False
              | Some bad \<Rightarrow>
                  (case Tip (chainActive T) of None \<Rightarrow> None
                   | Some tip \<Rightarrow> map_option (\<lambda>proof. uint_compare (nChainWork (S bad))
                        (uint_add (nChainWork (S tip)) (uint_mul32 proof 6)) > 0) (GetBlockProof (nBits (S tip))))) of
        None \<Rightarrow> None
      | Some False \<Rightarrow> Some (T\<lparr>fLargeWorkForkFound := False, fLargeWorkInvalidChainFound := False\<rparr>)
      | Some True \<Rightarrow>
          if pindexBestForkTip T \<noteq> None \<and> pindexBestForkBase T \<noteq> None
          then Some (T\<lparr>fLargeWorkForkFound := True\<rparr>)
          else if pindexBestInvalid T = None then None
          else Some (T\<lparr>fLargeWorkInvalidChainFound := True\<rparr>))"

text \<open>The fork between a new tip and the active chain, by two walks towards the genesis block.\<close>

partial_function (option) lower_to :: "block_store \<Rightarrow> int \<Rightarrow> block_id option \<Rightarrow> block_id option option" where
  "lower_to S h plonger =
     (case plonger of None \<Rightarrow> Some None
      | Some q \<Rightarrow> if nHeight (S q) > h then lower_to S h (pprev (S q)) else Some plonger)"

partial_function (option) fork_walk :: "block_store \<Rightarrow> block_id option \<Rightarrow> block_id option \<Rightarrow> block_id option option" where
  "fork_walk S pfork plonger =
     (case pfork of None \<Rightarrow> Some None
      | Some p \<Rightarrow>
          if pfork = plonger then Some pfork
          else (case lower_to S (nHeight (S p)) plonger of None \<Rightarrow> None
                | Some plonger \<Rightarrow> if pfork = plonger then Some pfork else fork_walk S (pprev (S p)) plonger))"

definition CheckForkWarningConditionsOnNewFork :: "bool \<Rightarrow> block_id \<Rightarrow> BlockTree \<Rightarrow> BlockTree option" where
  "CheckForkWarningConditionsOnNewFork initial pnew T =
     (let S = bt_store T in
      case fork_walk S (Some pnew) (Tip (chainActive T)) of None \<Rightarrow> None
      | Some None \<Rightarrow> CheckForkWarningConditions initial T
      | Some (Some pfork) \<Rightarrow>
      (case GetBlockProof (nBits (S pfork)) of None \<Rightarrow> None
      | Some proof \<Rightarrow>
          CheckForkWarningConditions initial
            (if (case pindexBestForkTip T of None \<Rightarrow> True | Some tip \<Rightarrow> nHeight (S pnew) > nHeight (S tip)) \<and>
                uint_compare (uint_sub (nChainWork (S pnew)) (nChainWork (S pfork))) (uint_mul32 proof 7) > 0 \<and>
                Height (chainActive T) - nHeight (S pnew) < 72
             then T\<lparr>pindexBestForkTip := Some pnew, pindexBestForkBase := Some pfork\<rparr> else T)))"

subsection \<open>Failed blocks\<close>

definition InvalidChainFound :: "bool \<Rightarrow> block_id \<Rightarrow> BlockTree \<Rightarrow> BlockTree option" where
  "InvalidChainFound initial p T =
     (let T = (if work_above (bt_store T) p (pindexBestInvalid T) then T\<lparr>pindexBestInvalid := Some p\<rparr> else T)
      in if Tip (chainActive T) = None then None else CheckForkWarningConditions initial T)"

text \<open>The message to the peer that sent the block is left out.\<close>

definition InvalidBlockFound :: "bool \<Rightarrow> block_id \<Rightarrow> CValidationState \<Rightarrow> BlockTree \<Rightarrow> BlockTree option" where
  "InvalidBlockFound initial p st T =
     (if \<not> corruptionPossible st
      then InvalidChainFound initial p
             (erase_candidate p (set_dirty p (set_block p (\<lambda>b. b\<lparr>nStatus := nStatus b OR BLOCK_FAILED_VALID\<rparr>) T)))
      else Some T)"

text \<open>
  From a candidate towards the active chain: the first block that has failed or misses its data,
  and whether it has failed.
\<close>

partial_function (option) test_path :: "BlockTree \<Rightarrow> block_id option \<Rightarrow> (block_id \<times> bool) option option" where
  "test_path T pindexTest =
     (case pindexTest of None \<Rightarrow> Some None
      | Some p \<Rightarrow>
          let S = bt_store T in
          if Contains S (chainActive T) p then Some None
          else if nChainTx (S p) = 0 \<and> nHeight (S p) \<noteq> 0 then None
          else if failed S p \<or> \<not> have_data S p then Some (Some (p, failed S p))
          else test_path T (pprev (S p)))"

partial_function (option) remove_path :: "block_id \<Rightarrow> bool \<Rightarrow> block_id option \<Rightarrow> BlockTree \<Rightarrow> BlockTree option" where
  "remove_path pindexTest fFailedChain pindexFailed T =
     (if Some pindexTest = pindexFailed then Some T
      else case pindexFailed of None \<Rightarrow> None
      | Some p \<Rightarrow>
          let T = (if fFailedChain then set_block p (\<lambda>b. b\<lparr>nStatus := nStatus b OR BLOCK_FAILED_CHILD\<rparr>) T
                   else T\<lparr>mapBlocksUnlinked := mapBlocksUnlinked T @ [(pprev (bt_store T p), p)]\<rparr>)
          in remove_path pindexTest fFailedChain (pprev (bt_store T p)) (erase_candidate p T))"

partial_function (option) FindMostWorkChain :: "BlockTree \<Rightarrow> (block_id option \<times> BlockTree) option" where
  "FindMostWorkChain T =
     (if setBlockIndexCandidates T = [] then Some (None, T)
      else let pindexNew = last (setBlockIndexCandidates T) in
        (case test_path T (Some pindexNew) of
           None \<Rightarrow> None
         | Some None \<Rightarrow> Some (Some pindexNew, T)
         | Some (Some (pindexTest, fFailedChain)) \<Rightarrow>
             let T = (if fFailedChain \<and> work_above (bt_store T) pindexNew (pindexBestInvalid T)
                      then T\<lparr>pindexBestInvalid := Some pindexNew\<rparr> else T) in
             (case remove_path pindexTest fFailedChain (Some pindexNew) T of
                None \<Rightarrow> None
              | Some T \<Rightarrow> FindMostWorkChain (erase_candidate pindexTest T))))"

text \<open>
  \<open>DisconnectTip\<close> is the disconnection of the tip: its state and the tree with the shorter active
  chain.  The memory pool is left out.  The blocks of the index are visited in the order of their
  hashes, \<open>blocks\<close>.
\<close>

partial_function (option) disconnect_to ::
  "(BlockTree \<Rightarrow> (CValidationState \<times> BlockTree) option) \<Rightarrow> block_id \<Rightarrow> BlockTree \<Rightarrow> (CValidationState \<times> BlockTree) option" where
  "disconnect_to DisconnectTip p T =
     (if \<not> Contains (bt_store T) (chainActive T) p then Some (CValidationState_new, T)
      else case Tip (chainActive T) of None \<Rightarrow> None
      | Some walk \<Rightarrow>
          let T = erase_candidate walk (set_dirty walk
                (set_block walk (\<lambda>b. b\<lparr>nStatus := nStatus b OR BLOCK_FAILED_CHILD\<rparr>) T)) in
          (case DisconnectTip T of None \<Rightarrow> None
           | Some (st, T) \<Rightarrow> if \<not> state_IsValid st then Some (st, T) else disconnect_to DisconnectTip p T))"

fun readd_candidates :: "block_id list \<Rightarrow> BlockTree \<Rightarrow> BlockTree option" where
  "readd_candidates [] T = Some T"
| "readd_candidates (p # ps) T =
     (case IsValid (bt_store T p) BLOCK_VALID_TRANSACTIONS of None \<Rightarrow> None
      | Some False \<Rightarrow> readd_candidates ps T
      | Some True \<Rightarrow>
          if nChainTx (bt_store T p) = 0 then readd_candidates ps T
          else (case Tip (chainActive T) of None \<Rightarrow> None
                | Some tip \<Rightarrow> readd_candidates ps
                    (if \<not> CBlockIndexWorkComparator (bt_store T) p tip then insert_candidate p T else T)))"

definition InvalidateBlock :: "(BlockTree \<Rightarrow> (CValidationState \<times> BlockTree) option) \<Rightarrow> bool \<Rightarrow> block_id list \<Rightarrow> block_id \<Rightarrow> BlockTree \<Rightarrow>
    (CValidationState \<times> BlockTree) option" where
  "InvalidateBlock DisconnectTip initial blocks p T =
     (let T = erase_candidate p (set_dirty p (set_block p (\<lambda>b. b\<lparr>nStatus := nStatus b OR BLOCK_FAILED_VALID\<rparr>) T)) in
      case disconnect_to DisconnectTip p T of None \<Rightarrow> None
      | Some (st, T) \<Rightarrow>
      if \<not> state_IsValid st then Some (st, T)
      else case readd_candidates blocks T of None \<Rightarrow> None
      | Some T \<Rightarrow> map_option (\<lambda>T. (st, T)) (InvalidChainFound initial p T))"

definition clear_failed :: "block_id \<Rightarrow> BlockTree \<Rightarrow> BlockTree" where
  "clear_failed p T = set_dirty p (set_block p (\<lambda>b. b\<lparr>nStatus := nStatus b AND NOT BLOCK_FAILED_MASK\<rparr>) T)"

text \<open>
  The loop variable has the name of the block: what is compared is the ancestor of the visited block
  and the visited block itself.
\<close>

fun reconsider_descendants :: "block_id list \<Rightarrow> block_id \<Rightarrow> BlockTree \<Rightarrow> BlockTree option" where
  "reconsider_descendants [] p T = Some T"
| "reconsider_descendants (q # qs) p T =
     (case IsValid (bt_store T q) BLOCK_VALID_TRANSACTIONS of None \<Rightarrow> None
      | Some valid \<Rightarrow>
     (case GetAncestor (bt_store T) q (nHeight (bt_store T p)) of None \<Rightarrow> None
      | Some ancestor \<Rightarrow>
          if \<not> valid \<and> ancestor = Some q then
            let T = clear_failed q T in
            (case IsValid (bt_store T q) BLOCK_VALID_TRANSACTIONS of None \<Rightarrow> None
             | Some ready \<Rightarrow>
                 (case (if ready \<and> nChainTx (bt_store T q) \<noteq> 0
                        then (case Tip (chainActive T) of None \<Rightarrow> None
                              | Some tip \<Rightarrow> Some (if CBlockIndexWorkComparator (bt_store T) tip q then insert_candidate q T else T))
                        else Some T) of
                    None \<Rightarrow> None
                  | Some T \<Rightarrow> reconsider_descendants qs p
                      (if pindexBestInvalid T = Some q then T\<lparr>pindexBestInvalid := None\<rparr> else T)))
          else reconsider_descendants qs p T))"

partial_function (option) reconsider_ancestors :: "block_id option \<Rightarrow> BlockTree \<Rightarrow> BlockTree option" where
  "reconsider_ancestors pindex T =
     (case pindex of None \<Rightarrow> Some T
      | Some p \<Rightarrow> reconsider_ancestors (pprev (bt_store T p)) (if failed (bt_store T) p then clear_failed p T else T))"

definition ReconsiderBlock :: "block_id list \<Rightarrow> block_id \<Rightarrow> BlockTree \<Rightarrow> BlockTree option" where
  "ReconsiderBlock blocks p T =
     (case reconsider_descendants blocks p T of None \<Rightarrow> None | Some T \<Rightarrow> reconsider_ancestors (Some p) T)"

subsection \<open>Reconsidering a block\<close>

definition same_shape :: "block_store \<Rightarrow> block_store \<Rightarrow> bool" where
  "same_shape S S' \<longleftrightarrow> (\<forall>q. pprev (S' q) = pprev (S q) \<and> pskip (S' q) = pskip (S q) \<and> nHeight (S' q) = nHeight (S q))"

lemma same_shape_refl [simp]: "same_shape S S"
  by (simp add: same_shape_def)

lemma same_shape_trans: "same_shape S S1 \<Longrightarrow> same_shape S1 S2 \<Longrightarrow> same_shape S S2"
  by (simp add: same_shape_def)

lemma up_shape: "same_shape S S' \<Longrightarrow> up S' n p = up S n p"
  by (induction S n p rule: up.induct) (auto simp: same_shape_def split: option.splits)

lemma wf_shape:
  assumes "same_shape S S'" "wf_store S"
  shows "wf_store S'"
proof -
  have e: "pprev (S' q) = pprev (S q)" "pskip (S' q) = pskip (S q)" "nHeight (S' q) = nHeight (S q)" for q
    using assms(1) by (simp_all add: same_shape_def)
  show ?thesis using assms(2) unfolding wf_store_def e up_shape [OF assms(1)] .
qed

lemma GetAncestor_self:
  assumes "wf_store S"
  shows "GetAncestor S q h = Some (Some q) \<longleftrightarrow> nHeight (S q) = h"
proof -
  have "up S (nat (nHeight (S q) - h)) q = Some q \<Longrightarrow> h \<le> nHeight (S q) \<Longrightarrow> nHeight (S q) = h"
    using up_height [OF assms, of "nat (nHeight (S q) - h)" q q] by simp
  then show ?thesis using wf_height [OF assms, of q] by (auto simp: GetAncestor_up [OF assms])
qed

text \<open>What clearing a block changes of the others.\<close>

lemma clear_failed_store:
  "bt_store (clear_failed q T) = (bt_store T)(q := (bt_store T q)\<lparr>nStatus := nStatus (bt_store T q) AND NOT BLOCK_FAILED_MASK\<rparr>)"
  by (simp add: clear_failed_def set_dirty_def set_block_def)

lemma insert_candidate_store [simp]: "bt_store (insert_candidate q T) = bt_store T"
  by (simp add: insert_candidate_def)

lemma not_failed_cleared: "(w AND NOT BLOCK_FAILED_MASK) AND BLOCK_FAILED_MASK = 0" for w :: u32
  by (simp add: bit_eq_iff bit_and_iff bit_not_iff)

definition higher_kept :: "int \<Rightarrow> block_store \<Rightarrow> block_store \<Rightarrow> bool" where
  "higher_kept h S S' \<longleftrightarrow> same_shape S S' \<and> (\<forall>q. h < nHeight (S q) \<longrightarrow> nStatus (S' q) = nStatus (S q)) \<and>
     (\<forall>q. failed S' q \<longrightarrow> failed S q)"

lemma higher_kept_refl [simp]: "higher_kept h S S"
  by (simp add: higher_kept_def)

lemma higher_kept_trans: "higher_kept h S S1 \<Longrightarrow> higher_kept h S1 S2 \<Longrightarrow> higher_kept h S S2"
  by (auto simp: higher_kept_def same_shape_def)

lemma clear_failed_kept:
  assumes "nHeight (bt_store T q) \<le> h"
  shows "higher_kept h (bt_store T) (bt_store (clear_failed q T))" "\<not> failed (bt_store (clear_failed q T)) q"
  using assms by (auto simp: higher_kept_def same_shape_def clear_failed_store failed_def not_failed_cleared)

lemma reconsider_descendants_kept:
  "reconsider_descendants qs p T = Some T' \<Longrightarrow> wf_store (bt_store T) \<Longrightarrow>
   higher_kept (nHeight (bt_store T p)) (bt_store T) (bt_store T') \<and>
   (\<forall>q \<in> set qs. nHeight (bt_store T q) = nHeight (bt_store T p) \<longrightarrow> \<not> failed (bt_store T') q)"
proof (induction qs p T rule: reconsider_descendants.induct)
  case (1 p T)
  then show ?case by simp
next
  case (2 q qs p T)
  let ?S = "bt_store T" and ?h = "nHeight (bt_store T p)"
  from "2.prems"(1) obtain valid anc where
    v: "IsValid (?S q) BLOCK_VALID_TRANSACTIONS = Some valid" "GetAncestor ?S q ?h = Some anc"
    by (auto split: option.splits)
  show ?case
  proof (cases "\<not> valid \<and> anc = Some q")
    case False
    then have rest: "reconsider_descendants qs p T = Some T'" using "2.prems"(1) v by auto
    have ih: "higher_kept ?h ?S (bt_store T') \<and> (\<forall>q \<in> set qs. nHeight (?S q) = ?h \<longrightarrow> \<not> failed (bt_store T') q)"
      by (rule "2.IH"(2) [OF v False rest "2.prems"(2)])
    have "\<not> failed ?S q" if "nHeight (?S q) = ?h"
      using that False v GetAncestor_self [OF "2.prems"(2), of q ?h] by (auto simp: IsValid_def failed_def split: if_splits)
    then show ?thesis using ih by (auto simp: higher_kept_def)
  next
    case True
    then have hq: "nHeight (?S q) = ?h" using v(2) GetAncestor_self [OF "2.prems"(2)] by simp
    let ?T1 = "clear_failed q T"
    from "2.prems"(1) v True obtain T2 ready where
      t: "IsValid (bt_store ?T1 q) BLOCK_VALID_TRANSACTIONS = Some ready"
        "(if ready \<and> nChainTx (bt_store ?T1 q) \<noteq> 0
          then (case Tip (chainActive ?T1) of None \<Rightarrow> None
                | Some tip \<Rightarrow> Some (if CBlockIndexWorkComparator (bt_store ?T1) tip q then insert_candidate q ?T1 else ?T1))
          else Some ?T1) = Some T2"
        "reconsider_descendants qs p (if pindexBestInvalid T2 = Some q then T2\<lparr>pindexBestInvalid := None\<rparr> else T2) = Some T'"
      by (auto simp: Let_def split: option.splits)
    let ?T3 = "if pindexBestInvalid T2 = Some q then T2\<lparr>pindexBestInvalid := None\<rparr> else T2"
    have s2: "bt_store T2 = bt_store ?T1" using t(2) by (auto split: if_splits option.splits)
    then have s3: "bt_store ?T3 = bt_store ?T1" by simp
    have k1: "higher_kept ?h ?S (bt_store ?T1)" "\<not> failed (bt_store ?T1) q" using clear_failed_kept [of T q ?h] hq by simp_all
    then have shape: "same_shape ?S (bt_store ?T1)" by (simp add: higher_kept_def)
    then have h1: "nHeight (bt_store ?T1 r) = nHeight (?S r)" for r by (simp add: same_shape_def)
    have ih: "higher_kept (nHeight (bt_store ?T3 p)) (bt_store ?T3) (bt_store T') \<and>
        (\<forall>q \<in> set qs. nHeight (bt_store ?T3 q) = nHeight (bt_store ?T3 p) \<longrightarrow> \<not> failed (bt_store T') q)"
      by (rule "2.IH"(1) [OF v True refl t(1,2,3)]) (use s3 wf_shape [OF shape "2.prems"(2)] in simp)
    then have k2: "higher_kept ?h (bt_store ?T1) (bt_store T')" "\<And>r. r \<in> set qs \<Longrightarrow> nHeight (?S r) = ?h \<Longrightarrow> \<not> failed (bt_store T') r"
      unfolding s3 h1 by auto
    moreover have "\<not> failed (bt_store T') q" using k2(1) k1(2) by (auto simp: higher_kept_def)
    ultimately show ?thesis using higher_kept_trans [OF k1(1) k2(1)] by auto
  qed
qed

lemma reconsider_ancestors_kept:
  "wf_store (bt_store T) \<Longrightarrow> pindex = None \<or> (\<exists>p. pindex = Some p \<and> nHeight (bt_store T p) \<le> h) \<Longrightarrow>
   n = (case pindex of None \<Rightarrow> 0 | Some p \<Rightarrow> Suc (nat (nHeight (bt_store T p)))) \<Longrightarrow>
   \<exists>T'. reconsider_ancestors pindex T = Some T' \<and> higher_kept h (bt_store T) (bt_store T') \<and>
     (\<forall>p k q. pindex = Some p \<longrightarrow> up (bt_store T) k p = Some q \<longrightarrow> \<not> failed (bt_store T') q)"
proof (induction n arbitrary: pindex T)
  case 0
  then have "pindex = None" by (cases pindex) auto
  then show ?case by (simp add: reconsider_ancestors.simps)
next
  case (Suc n)
  then obtain p where p: "pindex = Some p" "nHeight (bt_store T p) \<le> h" by (cases pindex) auto
  define T1 where "T1 = (if failed (bt_store T) p then clear_failed p T else T)"
  have k: "higher_kept h (bt_store T) (bt_store T1)" "\<not> failed (bt_store T1) p"
    using clear_failed_kept [OF p(2)] by (auto simp: T1_def)
  then have shape: "same_shape (bt_store T) (bt_store T1)" by (simp add: higher_kept_def)
  have pp: "pprev (bt_store T1 p) = pprev (bt_store T p)" using shape by (simp add: same_shape_def)
  have par: "\<exists>T'. reconsider_ancestors (pprev (bt_store T p)) T1 = Some T' \<and> higher_kept h (bt_store T1) (bt_store T') \<and>
     (\<forall>r k q. pprev (bt_store T p) = Some r \<longrightarrow> up (bt_store T1) k r = Some q \<longrightarrow> \<not> failed (bt_store T') q)"
  proof (rule Suc.IH)
    show "wf_store (bt_store T1)" by (rule wf_shape [OF shape Suc.prems(1)])
    have "nHeight (bt_store T1 r) = nHeight (bt_store T r)" for r using shape by (simp add: same_shape_def)
    note e = this
    show "pprev (bt_store T p) = None \<or> (\<exists>r. pprev (bt_store T p) = Some r \<and> nHeight (bt_store T1 r) \<le> h)"
    proof (cases "pprev (bt_store T p)")
      case (Some r)
      then show ?thesis using wf_pprev [OF Suc.prems(1) Some] p(2) e [of r] by simp
    qed simp
    show "n = (case pprev (bt_store T p) of None \<Rightarrow> 0 | Some r \<Rightarrow> Suc (nat (nHeight (bt_store T1 r))))"
    proof (cases "pprev (bt_store T p)")
      case None
      then show ?thesis using wf_root [OF Suc.prems(1), of p] Suc.prems(3) p(1) by simp
    next
      case (Some r)
      then show ?thesis using wf_pprev [OF Suc.prems(1) Some] Suc.prems(3) p(1) e [of r] by (simp add: nat_add_distrib)
    qed
  qed
  then obtain T' where t: "reconsider_ancestors (pprev (bt_store T p)) T1 = Some T'" "higher_kept h (bt_store T1) (bt_store T')"
     "\<And>r k q. pprev (bt_store T p) = Some r \<Longrightarrow> up (bt_store T) k r = Some q \<Longrightarrow> \<not> failed (bt_store T') q"
    unfolding up_shape [OF shape] by blast
  have "\<not> failed (bt_store T') q" if u: "up (bt_store T) j p = Some q" for j q
  proof (cases j)
    case 0
    then show ?thesis using u k(2) t(2) by (auto simp: higher_kept_def)
  next
    case (Suc i)
    then show ?thesis using u t(3) by (auto split: option.splits)
  qed
  then show ?case using t(1) higher_kept_trans [OF k(1) t(2)] p(1) reconsider_ancestors.simps [of pindex T] by (simp add: T1_def [symmetric])
qed

lemma valid_levels:
  "BLOCK_VALID_TRANSACTIONS AND NOT BLOCK_VALID_MASK = 0" "BLOCK_VALID_TREE AND NOT BLOCK_VALID_MASK = 0"
  by code_simp+

lemma IsValid_total: "\<exists>r. IsValid b BLOCK_VALID_TRANSACTIONS = Some r" "\<exists>r. IsValid b BLOCK_VALID_TREE = Some r"
  unfolding IsValid_def valid_levels by (auto simp: if_distrib)

lemma chainActive_kept [simp]:
  "chainActive (clear_failed q T) = chainActive T" "chainActive (insert_candidate q T) = chainActive T"
  "chainActive (set_block q f T) = chainActive T" "chainActive (set_dirty q T) = chainActive T"
  "chainActive (erase_candidate q T) = chainActive T"
  by (simp_all add: clear_failed_def insert_candidate_def set_block_def set_dirty_def erase_candidate_def)

lemma reconsider_descendants_total:
  "wf_store (bt_store T) \<Longrightarrow> Tip (chainActive T) = Some tip \<Longrightarrow> \<exists>T'. reconsider_descendants qs p T = Some T'"
proof (induction qs arbitrary: T)
  case (Cons q qs)
  obtain v where v: "IsValid (bt_store T q) BLOCK_VALID_TRANSACTIONS = Some v" using IsValid_total(1) by blast
  obtain anc where anc: "GetAncestor (bt_store T) q (nHeight (bt_store T p)) = Some anc" by (simp add: GetAncestor_up [OF Cons.prems(1)])
  obtain v2 where v2: "IsValid (bt_store (clear_failed q T) q) BLOCK_VALID_TRANSACTIONS = Some v2" using IsValid_total(1) by blast
  have wf: "wf_store (bt_store (clear_failed q T))"
    by (rule wf_shape [OF _ Cons.prems(1)]) (simp add: same_shape_def clear_failed_store)
  have step: "\<exists>T'. reconsider_descendants qs p (if pindexBestInvalid T2 = Some q then T2\<lparr>pindexBestInvalid := None\<rparr> else T2) = Some T'"
    if "bt_store T2 = bt_store (clear_failed q T)" "chainActive T2 = chainActive T" for T2
    by (rule Cons.IH) (use that wf Cons.prems(2) in auto)
  show ?case
    using Cons.IH [OF Cons.prems] step [of "clear_failed q T"] step [of "insert_candidate q (clear_failed q T)"]
    by (auto simp add: v anc v2 Let_def Cons.prems(2))
qed simp

subsection \<open>Properties\<close>

text \<open>
  C31. \<open>ReconsiderBlock\<close> does not do what its comment says: after it returns, the block and its
  ancestors carry no failure mark, but every descendant is marked as before, while every block of
  the index at the height of the block, on whatever branch, has lost its mark.
\<close>

theorem ReconsiderBlock_misses_descendants:
  assumes "wf_store (bt_store T)" "Tip (chainActive T) = Some tip"
  shows "\<exists>T'. ReconsiderBlock blocks p T = Some T' \<and>
    (\<forall>n q. up (bt_store T) n p = Some q \<longrightarrow> \<not> failed (bt_store T') q) \<and>
    (\<forall>n q. up (bt_store T) (Suc n) q = Some p \<longrightarrow> failed (bt_store T') q = failed (bt_store T) q) \<and>
    (\<forall>q \<in> set blocks. nHeight (bt_store T q) = nHeight (bt_store T p) \<longrightarrow> \<not> failed (bt_store T') q)"
proof -
  let ?S = "bt_store T"
  obtain T1 where t1: "reconsider_descendants blocks p T = Some T1" using reconsider_descendants_total [OF assms] by blast
  note k1 = reconsider_descendants_kept [OF t1 assms(1)]
  then have shape: "same_shape ?S (bt_store T1)" by (simp add: higher_kept_def)
  then have h: "nHeight (bt_store T1 q) = nHeight (?S q)" for q by (simp add: same_shape_def)
  obtain T' where t2: "reconsider_ancestors (Some p) T1 = Some T'" "higher_kept (nHeight (?S p)) (bt_store T1) (bt_store T')"
      "\<And>k q. up ?S k p = Some q \<Longrightarrow> \<not> failed (bt_store T') q"
    using reconsider_ancestors_kept [OF wf_shape [OF shape assms(1)], of "Some p" "nHeight (?S p)"]
    unfolding h up_shape [OF shape] by auto
  have k: "higher_kept (nHeight (?S p)) ?S (bt_store T')" using higher_kept_trans k1 t2(2) by blast
  have "failed (bt_store T') q = failed ?S q" if "up ?S (Suc n) q = Some p" for n q
    using up_height [OF assms(1) that] k by (simp add: failed_def higher_kept_def)
  moreover have "\<not> failed (bt_store T') q" if "q \<in> set blocks" "nHeight (?S q) = nHeight (?S p)" for q
    using k1 that t2(2) by (auto simp: higher_kept_def)
  ultimately show ?thesis using t1 t2(1,3) by (auto simp: ReconsiderBlock_def simp del: up.simps)
qed

text \<open>Block 1 and its successor 2 have failed; the active chain ends in the genesis block.\<close>

definition sample_tree :: BlockTree where
  "sample_tree = \<lparr>bt_store = (\<lambda>p. (sample_store p)\<lparr>nStatus := (if p = 1 then BLOCK_FAILED_VALID else if p = 2 then BLOCK_FAILED_CHILD else 3)\<rparr>),
     bt_index = Map.empty, chainActive = [Some 0], pindexBestHeader = None, pindexBestInvalid = Some 1, setBlockIndexCandidates = [0],
     mapBlocksUnlinked = [], nBlockSequenceId = 1, setDirtyBlockIndex = {}, fLargeWorkForkFound = False,
     fLargeWorkInvalidChainFound = False, pindexBestForkTip = None, pindexBestForkBase = None\<rparr>"

lemma ReconsiderBlock_misses_descendants_witness:
  "\<exists>T'. ReconsiderBlock [0, 1, 2] 1 sample_tree = Some T' \<and> \<not> failed (bt_store T') 1 \<and> failed (bt_store T') 2"
proof -
  have s: "same_shape sample_store (bt_store sample_tree)" by (simp add: same_shape_def sample_tree_def)
  have t: "Tip (chainActive sample_tree) = Some 0" by (simp add: sample_tree_def Tip_def)
  have "up (bt_store sample_tree) 0 1 = Some 1" "up (bt_store sample_tree) (Suc 0) 2 = Some 1"
    by (simp_all add: sample_tree_def sample_store_def)
  moreover have "failed (bt_store sample_tree) 2"
    by (simp add: failed_def sample_tree_def BLOCK_FAILED_CHILD_def BLOCK_FAILED_MASK_def BLOCK_FAILED_VALID_def)
  ultimately show ?thesis
    using ReconsiderBlock_misses_descendants [OF wf_shape [OF s wf_sample_store] t, of "[0, 1, 2]" 1] by blast
qed

subsection \<open>Linked blocks\<close>

text \<open>
  A block is received when it and all its ancestors have transactions; \<open>chain_tx\<close> counts the
  transactions up to it.
\<close>

definition received :: "block_store \<Rightarrow> block_id \<Rightarrow> bool" where
  "received S p \<longleftrightarrow> (\<forall>n q. up S n p = Some q \<longrightarrow> nTx (S q) \<noteq> 0)"

fun path_tx :: "block_store \<Rightarrow> nat \<Rightarrow> block_id \<Rightarrow> nat" where
  "path_tx S 0 p = unat (nTx (S p))"
| "path_tx S (Suc n) p = unat (nTx (S p)) + (case pprev (S p) of None \<Rightarrow> 0 | Some q \<Rightarrow> path_tx S n q)"

definition chain_tx :: "block_store \<Rightarrow> block_id \<Rightarrow> nat" where
  "chain_tx S p = path_tx S (nat (nHeight (S p))) p"

lemma received_step:
  "received S p \<longleftrightarrow> nTx (S p) \<noteq> 0 \<and> (case pprev (S p) of None \<Rightarrow> True | Some q \<Rightarrow> received S q)"
proof -
  have "(\<forall>n q. up S n p = Some q \<longrightarrow> nTx (S q) \<noteq> 0) \<longleftrightarrow>
      nTx (S p) \<noteq> 0 \<and> (\<forall>n q. up S (Suc n) p = Some q \<longrightarrow> nTx (S q) \<noteq> 0)"
  proof
    assume a: "nTx (S p) \<noteq> 0 \<and> (\<forall>n q. up S (Suc n) p = Some q \<longrightarrow> nTx (S q) \<noteq> 0)"
    show "\<forall>n q. up S n p = Some q \<longrightarrow> nTx (S q) \<noteq> 0"
    proof (intro allI impI)
      fix n q assume "up S n p = Some q"
      then show "nTx (S q) \<noteq> 0" using a by (cases n) auto
    qed
  qed (metis up.simps(1))
  then show ?thesis by (cases "pprev (S p)") (auto simp: received_def)
qed

lemma chain_tx_step:
  assumes "wf_store S"
  shows "chain_tx S p = unat (nTx (S p)) + (case pprev (S p) of None \<Rightarrow> 0 | Some q \<Rightarrow> chain_tx S q)"
proof (cases "pprev (S p)")
  case None
  then show ?thesis using wf_root [OF assms, of p] by (simp add: chain_tx_def)
next
  case (Some q)
  then show ?thesis using wf_pprev [OF assms Some] by (simp add: chain_tx_def nat_add_distrib)
qed

definition same_tx :: "block_store \<Rightarrow> block_store \<Rightarrow> bool" where
  "same_tx S S' \<longleftrightarrow> same_shape S S' \<and> (\<forall>q. nTx (S' q) = nTx (S q))"

lemma same_tx_trans: "same_tx S S1 \<Longrightarrow> same_tx S1 S2 \<Longrightarrow> same_tx S S2"
  by (simp add: same_tx_def same_shape_def)

lemma received_cong: "same_tx S S' \<Longrightarrow> received S' p = received S p"
  using up_shape [of S S'] by (simp add: received_def same_tx_def)

lemma chain_tx_cong: "same_tx S S' \<Longrightarrow> chain_tx S' p = chain_tx S p"
proof -
  assume a: "same_tx S S'"
  have "path_tx S' n p = path_tx S n p" for n p
    using a by (induction S n p rule: path_tx.induct) (auto simp: same_tx_def same_shape_def split: option.splits)
  then show ?thesis using a by (simp add: chain_tx_def same_tx_def same_shape_def)
qed

text \<open>
  While the blocks of the queue wait: the counts are those of the chain or still zero, a linked
  block has a linked predecessor, and a block with transactions that is not linked is in the queue
  or waits for its predecessor.
\<close>

definition linking :: "block_id list \<Rightarrow> block_store \<Rightarrow> (block_id option \<times> block_id) list \<Rightarrow> bool" where
  "linking queue S unlinked \<longleftrightarrow>
     (\<forall>q. nChainTx (S q) \<noteq> 0 \<longrightarrow> received S q \<and> nChainTx (S q) = of_nat (chain_tx S q)) \<and>
     (\<forall>q r. nChainTx (S q) \<noteq> 0 \<longrightarrow> pprev (S q) = Some r \<longrightarrow> nChainTx (S r) \<noteq> 0) \<and>
     distinct queue \<and>
     (\<forall>q \<in> set queue. nChainTx (S q) = 0 \<and> nTx (S q) \<noteq> 0 \<and> (\<forall>r. pprev (S q) = Some r \<longrightarrow> nChainTx (S r) \<noteq> 0)) \<and>
     (\<forall>(a, q) \<in> set unlinked. nTx (S q) \<noteq> 0 \<and> nChainTx (S q) = 0 \<and> (\<exists>r. a = Some r \<and> pprev (S q) = Some r \<and> nChainTx (S r) = 0)) \<and>
     (\<forall>q. nTx (S q) \<noteq> 0 \<longrightarrow> nChainTx (S q) = 0 \<longrightarrow> q \<notin> set queue \<longrightarrow> (pprev (S q), q) \<in> set unlinked) \<and>
     distinct unlinked"

lemma linkingD:
  assumes "linking queue S unlinked"
  shows "nChainTx (S q) \<noteq> 0 \<Longrightarrow> received S q \<and> nChainTx (S q) = of_nat (chain_tx S q)"
    "nChainTx (S q) \<noteq> 0 \<Longrightarrow> pprev (S q) = Some r \<Longrightarrow> nChainTx (S r) \<noteq> 0"
    "distinct queue" "distinct unlinked"
    "q \<in> set queue \<Longrightarrow> nChainTx (S q) = 0 \<and> nTx (S q) \<noteq> 0"
    "q \<in> set queue \<Longrightarrow> pprev (S q) = Some r \<Longrightarrow> nChainTx (S r) \<noteq> 0"
    "nTx (S q) \<noteq> 0 \<Longrightarrow> nChainTx (S q) = 0 \<Longrightarrow> q \<notin> set queue \<Longrightarrow> (pprev (S q), q) \<in> set unlinked"
    "(a, q) \<in> set unlinked \<Longrightarrow> nTx (S q) \<noteq> 0 \<and> nChainTx (S q) = 0 \<and> (\<exists>r. a = Some r \<and> pprev (S q) = Some r \<and> nChainTx (S r) = 0)"
proof -
  note l = assms [unfolded linking_def]
  show "nChainTx (S q) \<noteq> 0 \<Longrightarrow> received S q \<and> nChainTx (S q) = of_nat (chain_tx S q)" using l by simp
  show "nChainTx (S q) \<noteq> 0 \<Longrightarrow> pprev (S q) = Some r \<Longrightarrow> nChainTx (S r) \<noteq> 0" using l by simp
  show "distinct queue" "distinct unlinked" using l by simp_all
  show "q \<in> set queue \<Longrightarrow> nChainTx (S q) = 0 \<and> nTx (S q) \<noteq> 0"
    "q \<in> set queue \<Longrightarrow> pprev (S q) = Some r \<Longrightarrow> nChainTx (S r) \<noteq> 0" using l by simp_all
  show "nTx (S q) \<noteq> 0 \<Longrightarrow> nChainTx (S q) = 0 \<Longrightarrow> q \<notin> set queue \<Longrightarrow> (pprev (S q), q) \<in> set unlinked" using l by simp
  have "\<forall>e \<in> set unlinked. case e of (a, q) \<Rightarrow> nTx (S q) \<noteq> 0 \<and> nChainTx (S q) = 0 \<and>
      (\<exists>r. a = Some r \<and> pprev (S q) = Some r \<and> nChainTx (S r) = 0)" using l by simp
  then show "(a, q) \<in> set unlinked \<Longrightarrow> nTx (S q) \<noteq> 0 \<and> nChainTx (S q) = 0 \<and>
      (\<exists>r. a = Some r \<and> pprev (S q) = Some r \<and> nChainTx (S r) = 0)" by (drule bspec) auto
qed

lemma linking_step:
  fixes s :: u32
  assumes l: "linking (p # queue) S unlinked" and wf: "wf_store S" and bound: "chain_tx S p < 2 ^ 32"
  defines "waiting \<equiv> filter (\<lambda>e. fst e = Some p) unlinked" and "rest \<equiv> filter (\<lambda>e. fst e \<noteq> Some p) unlinked"
  defines "before \<equiv> (case pprev (S p) of Some q \<Rightarrow> nChainTx (S q) | None \<Rightarrow> 0)"
  assumes S': "S' = S(p := (S p)\<lparr>nChainTx := before + nTx (S p), nSequenceId := s\<rparr>)"
  shows "linking (queue @ map snd waiting) S' rest" "same_tx S S'"
proof -
  show st: "same_tx S S'" by (simp add: same_tx_def same_shape_def S')
  note D = linkingD [OF l]
  have q0: "nChainTx (S p) = 0" "nTx (S p) \<noteq> 0" using D(5) [of p] by auto
  have par: "pprev (S p) = Some r \<Longrightarrow> nChainTx (S r) \<noteq> 0" for r using D(6) [of p r] by simp
  have rec: "received S p" unfolding received_step [of S p]
    using q0 par D(1) by (auto split: option.splits)
  have val: "before + nTx (S p) = of_nat (chain_tx S p)"
    using par D(1) unfolding chain_tx_step [OF wf, of p] before_def by (auto split: option.splits)
  have "0 < chain_tx S p" using q0(2) chain_tx_step [OF wf, of p] by (simp add: unat_gt_0)
  then have nz: "before + nTx (S p) \<noteq> 0" unfolding val using bound by (simp add: word_of_nat_eq_0_iff nat_dvd_not_less)
  have e: "nChainTx (S' q) = (if q = p then before + nTx (S p) else nChainTx (S q))" "nTx (S' q) = nTx (S q)" "pprev (S' q) = pprev (S q)" for q
    by (simp_all add: S')
  have self: "pprev (S p) \<noteq> Some p" using wf_pprev [OF wf, of p p] by auto
  have wait: "q \<in> set (map snd waiting) \<longleftrightarrow> (Some p, q) \<in> set unlinked" for q by (auto simp: waiting_def intro: rev_image_eqI)
  have W: "nTx (S q) \<noteq> 0 \<and> nChainTx (S q) = 0 \<and> pprev (S q) = Some p" if "(Some p, q) \<in> set unlinked" for q
    using D(8) [OF that] by auto
  have Q: "q \<noteq> p \<and> nChainTx (S q) = 0 \<and> nTx (S q) \<noteq> 0" if "q \<in> set queue" for q
    using D(5) [of q] D(3) that by auto
  have notq: "q \<notin> set queue" if "(Some p, q) \<in> set unlinked" for q
    using W [OF that] D(6) [of q p] q0(1) by auto
  have dist: "distinct (queue @ map snd waiting)"
  proof -
    have "distinct (map snd waiting)"
    proof -
      have "inj_on snd (set waiting)" by (auto simp: waiting_def inj_on_def)
      moreover have "distinct waiting" using D(4) by (simp add: waiting_def)
      ultimately show ?thesis by (simp add: distinct_map)
    qed
    then show ?thesis using D(3) notq wait by (auto simp del: set_map)
  qed
  show "linking (queue @ map snd waiting) S' rest"
    unfolding linking_def e received_cong [OF st] chain_tx_cong [OF st]
  proof (intro conjI allI impI ballI dist)
    fix q assume "(if q = p then before + nTx (S p) else nChainTx (S q)) \<noteq> 0"
    then show "received S q" "(if q = p then before + nTx (S p) else nChainTx (S q)) = of_nat (chain_tx S q)"
      using rec val D(1) [of q] by (auto split: if_splits)
  next
    fix q r assume "(if q = p then before + nTx (S p) else nChainTx (S q)) \<noteq> 0" "pprev (S q) = Some r"
    then show "(if r = p then before + nTx (S p) else nChainTx (S r)) \<noteq> 0"
      using nz par [of r] D(2) [of q r] by (auto split: if_splits)
  next
    fix q assume q: "q \<in> set (queue @ map snd waiting)"
    then have m: "q \<in> set queue \<or> (Some p, q) \<in> set unlinked" using wait [of q] by (simp del: set_map)
    then show "(if q = p then before + nTx (S p) else nChainTx (S q)) = 0" "nTx (S q) \<noteq> 0"
      using Q [of q] W [of q] self by auto
    fix r assume "pprev (S q) = Some r"
    then show "(if r = p then before + nTx (S p) else nChainTx (S r)) \<noteq> 0"
      using m nz D(6) [of q r] W [of q] by auto
  next
    fix x assume x: "x \<in> set rest"
    obtain a q where aq: "x = (a, q)" by fastforce
    have i: "(a, q) \<in> set unlinked" "a \<noteq> Some p" using x aq by (auto simp: rest_def)
    then have "q \<noteq> p" using D(8) [OF i(1)] par by auto
    then show "case x of (a, q) \<Rightarrow> nTx (S q) \<noteq> 0 \<and> (if q = p then before + nTx (S p) else nChainTx (S q)) = 0 \<and>
        (\<exists>r. a = Some r \<and> pprev (S q) = Some r \<and> (if r = p then before + nTx (S p) else nChainTx (S r)) = 0)"
      using D(8) [OF i(1)] i(2) aq by auto
  next
    fix q assume a: "nTx (S q) \<noteq> 0" "(if q = p then before + nTx (S p) else nChainTx (S q)) = 0" "q \<notin> set (queue @ map snd waiting)"
    then have qp: "q \<noteq> p" "nChainTx (S q) = 0" using nz by (auto split: if_splits)
    then have "(pprev (S q), q) \<in> set unlinked" using D(7) [of q] a by auto
    moreover have "pprev (S q) \<noteq> Some p" using calculation a(3) wait [of q] by (auto simp del: set_map)
    ultimately show "(pprev (S q), q) \<in> set rest" by (simp add: rest_def)
  next
    show "distinct rest" using D(4) by (simp add: rest_def)
  qed
qed

lemma link_loop_ok:
  "linking queue (bt_store T) (mapBlocksUnlinked T) \<Longrightarrow> wf_store (bt_store T) \<Longrightarrow> (\<And>q. chain_tx (bt_store T) q < 2 ^ 32) \<Longrightarrow>
   linking [] (bt_store (link_loop queue T)) (mapBlocksUnlinked (link_loop queue T)) \<and>
   same_tx (bt_store T) (bt_store (link_loop queue T))"
proof (induction queue T rule: link_loop.induct)
  case (1 T)
  then show ?case by (simp add: link_loop.simps same_tx_def)
next
  case (2 p queue T)
  define before where "before = (case pprev (bt_store T p) of Some q \<Rightarrow> nChainTx (bt_store T q) | None \<Rightarrow> 0)"
  define T1 where "T1 = set_block p (\<lambda>b. b\<lparr>nChainTx := before + nTx b, nSequenceId := nBlockSequenceId T\<rparr>) T"
  define T2 where "T2 = T1\<lparr>nBlockSequenceId := nBlockSequenceId T1 + 1\<rparr>"
  define T3 where "T3 = (case Tip (chainActive T2) of None \<Rightarrow> insert_candidate p T2
      | Some tip \<Rightarrow> if \<not> CBlockIndexWorkComparator (bt_store T2) p tip then insert_candidate p T2 else T2)"
  define waiting where "waiting = filter (\<lambda>e. fst e = Some p) (mapBlocksUnlinked T3)"
  let ?T4 = "T3\<lparr>mapBlocksUnlinked := filter (\<lambda>e. fst e \<noteq> Some p) (mapBlocksUnlinked T3)\<rparr>"
  have s: "bt_store T3 = (bt_store T)(p := (bt_store T p)\<lparr>nChainTx := before + nTx (bt_store T p), nSequenceId := nBlockSequenceId T\<rparr>)"
    by (simp add: T3_def T2_def T1_def set_block_def split: option.splits)
  have u: "mapBlocksUnlinked T3 = mapBlocksUnlinked T" by (simp add: T3_def T2_def T1_def split: option.splits)
  from linking_step [OF "2.prems"(1,2) "2.prems"(3) s [unfolded before_def]] have
    l: "linking (queue @ map snd waiting) (bt_store ?T4) (mapBlocksUnlinked ?T4)" and st: "same_tx (bt_store T) (bt_store ?T4)"
    by (simp_all add: waiting_def u)
  have loop: "link_loop (p # queue) T = link_loop (queue @ map snd waiting) ?T4"
    unfolding link_loop.simps(2) Let_def before_def [symmetric] T1_def [symmetric] T2_def [symmetric] T3_def [symmetric]
      waiting_def [symmetric] ..
  have wf: "wf_store (bt_store ?T4)" using wf_shape [of "bt_store T" "bt_store ?T4"] st "2.prems"(2) by (simp add: same_tx_def)
  have b: "chain_tx (bt_store ?T4) q < 2 ^ 32" for q using chain_tx_cong [OF st] "2.prems"(3) by simp
  from "2.IH" [OF refl before_def T1_def T2_def T3_def waiting_def, OF l wf b]
  show ?case unfolding loop using same_tx_trans [OF st] by blast
qed

definition link_ok :: "block_store \<Rightarrow> (block_id option \<times> block_id) list \<Rightarrow> bool" where
  "link_ok S unlinked \<longleftrightarrow>
     (\<forall>q. nChainTx (S q) = (if received S q then of_nat (chain_tx S q) else 0)) \<and>
     (\<forall>a q. (a, q) \<in> set unlinked \<longleftrightarrow> a = pprev (S q) \<and> nTx (S q) \<noteq> 0 \<and> \<not> received S q) \<and> distinct unlinked"

lemma chain_tx_word:
  assumes "wf_store S" "chain_tx S q < 2 ^ 32" "nTx (S q) \<noteq> 0"
  shows "(of_nat (chain_tx S q) :: u32) \<noteq> 0"
proof -
  have "0 < chain_tx S q" using assms(3) chain_tx_step [OF assms(1), of q] by (simp add: unat_gt_0)
  then show ?thesis using assms(2) by (simp add: word_of_nat_eq_0_iff nat_dvd_not_less)
qed

lemma received_linked:
  assumes "linking [] S unlinked" "wf_store S"
  shows "received S q \<longleftrightarrow> nChainTx (S q) \<noteq> 0"
proof
  have "received S q \<Longrightarrow> nat (nHeight (S q)) = n \<Longrightarrow> nChainTx (S q) \<noteq> 0" for n
  proof (induction n arbitrary: q)
    case 0
    then have "pprev (S q) = None" using wf_root [OF assms(2), of q] wf_height [OF assms(2), of q] by simp
    then show ?case using "0.prems"(1) linkingD(7,8) [OF assms(1)] received_step [of S q] by fastforce
  next
    case (Suc n)
    then obtain r where r: "pprev (S q) = Some r" using wf_root [OF assms(2), of q] by (cases "pprev (S q)") auto
    have "received S r" "nTx (S q) \<noteq> 0" using Suc.prems(1) r received_step [of S q] by simp_all
    then have "nChainTx (S r) \<noteq> 0" using Suc.IH [of r] wf_pprev [OF assms(2) r] Suc.prems(2) by (simp add: nat_add_distrib)
    then show ?case using linkingD(7,8) [OF assms(1)] \<open>nTx (S q) \<noteq> 0\<close> r by fastforce
  qed
  then show "received S q \<Longrightarrow> nChainTx (S q) \<noteq> 0" by blast
qed (use linkingD(1) [OF assms(1)] in blast)

lemma linking_link_ok:
  assumes "linking [] S unlinked" "wf_store S"
  shows "link_ok S unlinked"
proof -
  note R = received_linked [OF assms] and D = linkingD [OF assms(1)]
  have "nChainTx (S q) = (if received S q then of_nat (chain_tx S q) else 0)" for q using R [of q] D(1) [of q] by auto
  moreover have "(a, q) \<in> set unlinked \<longleftrightarrow> a = pprev (S q) \<and> nTx (S q) \<noteq> 0 \<and> \<not> received S q" for a q
    using R [of q] D(8) [of a q] D(7) [of q] by auto
  ultimately show ?thesis using D(4) by (simp add: link_ok_def)
qed

lemma received_before:
  assumes "wf_store S" "same_shape S S1" "nTx (S p) = 0" "\<And>q. q \<noteq> p \<Longrightarrow> nTx (S1 q) = nTx (S q)"
  shows "received S q \<Longrightarrow> received S1 q \<and> chain_tx S1 q = chain_tx S q"
proof (induction "nat (nHeight (S q))" arbitrary: q)
  case 0
  then have "pprev (S q) = None" using wf_root [OF assms(1), of q] wf_height [OF assms(1), of q] by simp
  moreover have "q \<noteq> p" using "0.prems" assms(3) received_step [of S q] by auto
  ultimately show ?case using "0.prems" assms(2,4) received_step [of S q] received_step [of S1 q]
      chain_tx_step [OF assms(1), of q] chain_tx_step [OF wf_shape [OF assms(2,1)], of q] by (auto simp: same_shape_def)
next
  case (Suc n)
  then obtain r where r: "pprev (S q) = Some r" using wf_root [OF assms(1), of q] by (cases "pprev (S q)") auto
  have rr: "received S r" "nTx (S q) \<noteq> 0" using Suc.prems r received_step [of S q] by simp_all
  have "n = nat (nHeight (S r))" using Suc.hyps(2) wf_pprev [OF assms(1) r] by (simp add: nat_add_distrib)
  from Suc.hyps(1) [OF this rr(1)] have "received S1 r" "chain_tx S1 r = chain_tx S r" by auto
  moreover have "q \<noteq> p" using rr(2) assms(3) by auto
  moreover have "pprev (S1 q) = Some r" using assms(2) r by (simp add: same_shape_def)
  ultimately show ?case using rr(2) r assms(4) received_step [of S1 q] chain_tx_step [OF assms(1), of q]
      chain_tx_step [OF wf_shape [OF assms(2,1)], of q] by auto
qed

lemma linking_start:
  assumes wf: "wf_store S" and ok: "link_ok S unlinked" and fresh: "nTx (S p) = 0"
    and S1: "same_shape S S1" "nTx (S1 p) \<noteq> 0" "nChainTx (S1 p) = 0"
      "\<And>q. q \<noteq> p \<Longrightarrow> nTx (S1 q) = nTx (S q) \<and> nChainTx (S1 q) = nChainTx (S q)"
    and bound: "\<And>q. chain_tx S1 q < 2 ^ 32"
    and way: "queue = [p] \<and> unlinked' = unlinked \<and> (\<forall>r. pprev (S p) = Some r \<longrightarrow> nChainTx (S r) \<noteq> 0) \<or>
      queue = [] \<and> (\<exists>r. pprev (S p) = Some r \<and> nChainTx (S r) = 0 \<and> unlinked' = unlinked @ [(Some r, p)])"
  shows "linking queue S1 unlinked'"
proof -
  have L1: "nChainTx (S q) = (if received S q then of_nat (chain_tx S q) else 0)" for q
    using ok by (simp add: link_ok_def)
  have L2: "(a, q) \<in> set unlinked \<longleftrightarrow> a = pprev (S q) \<and> nTx (S q) \<noteq> 0 \<and> \<not> received S q" for a q
    using ok by (simp add: link_ok_def)
  have L3: "distinct unlinked" using ok by (simp add: link_ok_def)
  have R: "received S q \<Longrightarrow> received S1 q \<and> chain_tx S1 q = chain_tx S q" for q
    by (rule received_before [OF wf S1(1) fresh]) (use S1(4) in auto)
  have pr: "pprev (S1 q) = pprev (S q)" for q using S1(1) by (simp add: same_shape_def)
  have nz: "nChainTx (S q) \<noteq> 0 \<longleftrightarrow> received S q" for q
  proof -
    have "received S q \<Longrightarrow> nTx (S q) \<noteq> 0" using received_step [of S q] by simp
    then show ?thesis using L1 [of q] chain_tx_word [where S = S and q = q, OF wf] R [where q = q] bound [where q = q] by auto
  qed
  have np: "\<not> received S p" using fresh received_step [of S p] by simp
  then have c0: "nChainTx (S p) = 0" using nz by blast
  have same: "nChainTx (S1 q) = nChainTx (S q)" for q using S1(3) S1(4) [of q] c0 by (cases "q = p") auto
  have tx: "nTx (S1 q) = nTx (S q) \<or> q = p" for q using S1(4) by blast
  have self: "pprev (S p) \<noteq> Some p" using wf_pprev [OF wf, of p p] by auto
  have old: "nTx (S1 q) \<noteq> 0 \<and> nChainTx (S1 q) = 0 \<and> q \<noteq> p \<and> (\<exists>r. a = Some r \<and> pprev (S q) = Some r \<and> nChainTx (S r) = 0)"
    if "(a, q) \<in> set unlinked" for a q
  proof -
    have q: "a = pprev (S q)" "nTx (S q) \<noteq> 0" "\<not> received S q" using that L2 by blast+
    then obtain r where "pprev (S q) = Some r" "\<not> received S r" using received_step [of S q] by (auto split: option.splits)
    moreover have "q \<noteq> p" using q(2) fresh by auto
    ultimately show ?thesis using q nz S1(4) [of q] by auto
  qed
  show ?thesis
    unfolding linking_def same pr
  proof (intro conjI allI impI ballI)
    fix q assume "nChainTx (S q) \<noteq> 0"
    then show "received S1 q" "nChainTx (S q) = of_nat (chain_tx S1 q)" using nz R L1 by auto
  next
    fix q r assume "nChainTx (S q) \<noteq> 0" "pprev (S q) = Some r"
    then show "nChainTx (S r) \<noteq> 0" using nz received_step [of S q] by auto
  next
    show "distinct queue" using way by auto
  next
    fix q assume "q \<in> set queue"
    then have q: "q = p" "\<forall>r. pprev (S p) = Some r \<longrightarrow> nChainTx (S r) \<noteq> 0" using way by auto
    show "nChainTx (S q) = 0" "nTx (S1 q) \<noteq> 0" using q(1) c0 S1(2) by simp_all
    fix r assume "pprev (S q) = Some r"
    then show "nChainTx (S r) \<noteq> 0" using q by simp
  next
    fix e assume e: "e \<in> set unlinked'"
    obtain a q where aq: "e = (a, q)" by fastforce
    have "(a, q) \<in> set unlinked \<or> q = p \<and> (\<exists>r. a = Some r \<and> pprev (S p) = Some r \<and> nChainTx (S r) = 0)"
      using e aq way by auto
    then show "case e of (a, q) \<Rightarrow> nTx (S1 q) \<noteq> 0 \<and> nChainTx (S q) = 0 \<and> (\<exists>r. a = Some r \<and> pprev (S q) = Some r \<and> nChainTx (S r) = 0)"
      using old [of a q] c0 S1(2) same [of q] unfolding aq by auto
  next
    fix q assume a: "nTx (S1 q) \<noteq> 0" "nChainTx (S q) = 0" "q \<notin> set queue"
    show "(pprev (S q), q) \<in> set unlinked'"
    proof (cases "q = p")
      case True
      then show ?thesis using a(3) way by auto
    next
      case False
      then have "(pprev (S q), q) \<in> set unlinked" using a(1,2) tx [of q] nz [of q] L2 by auto
      then show ?thesis using way by auto
    qed
  next
    show "distinct unlinked'" using way L3 L2 [of "pprev (S p)" p] fresh by auto
  qed
qed

lemma have_data_bit: "w AND BLOCK_HAVE_DATA \<noteq> 0 \<longleftrightarrow> bit w 3" for w :: u32
proof -
  have "BLOCK_HAVE_DATA = push_bit 3 1" by (simp add: BLOCK_HAVE_DATA_def)
  then show ?thesis by (simp only: bit_iff_and_push_bit_not_eq_0)
qed

lemma set_block_store: "bt_store (set_block p f T) = (bt_store T)(p := f (bt_store T p))"
  by (simp add: set_block_def)

lemma link_loop_status: "nStatus (bt_store (link_loop queue T) q) = nStatus (bt_store T q)"
proof (induction queue T rule: link_loop.induct)
  case (2 p queue T)
  then show ?case
    by (simp add: link_loop.simps(2) Let_def) (auto simp: set_block_store split: option.splits)
qed (simp add: link_loop.simps)

text \<open>
  C13. \<open>ReceivedBlockTransactions\<close> keeps the block tree linked: a block whose ancestors all have their
  transactions counts the transactions of its chain and waits for nothing, every other block with
  transactions waits in \<open>mapBlocksUnlinked\<close>, once, and nothing else does.  A single block that
  arrives late links everything that was waiting behind it, along all branches.  The parent of the
  block is a valid header, not a failed one, and the counts of transactions stay below 2^32.
\<close>

theorem ReceivedBlockTransactions_links:
  assumes wf: "wf_store (bt_store T)" and ok: "link_ok (bt_store T) (mapBlocksUnlinked T)"
    and fresh: "nTx (bt_store T p) = 0" and "vtx block \<noteq> []" "length (vtx block) < 2 ^ 32"
    and parent: "\<And>q. pprev (bt_store T p) = Some q \<Longrightarrow> IsValid (bt_store T q) BLOCK_VALID_TREE = Some True"
    and bound: "\<And>q. chain_tx ((bt_store T)(p := (bt_store T p)\<lparr>nTx := of_nat (length (vtx block))\<rparr>)) q < 2 ^ 32"
  shows "\<exists>T'. ReceivedBlockTransactions block p pos T = Some T' \<and> link_ok (bt_store T') (mapBlocksUnlinked T') \<and>
    wf_store (bt_store T') \<and> nTx (bt_store T' p) = of_nat (length (vtx block)) \<and> have_data (bt_store T') p"
proof -
  let ?n = "of_nat (length (vtx block)) :: u32" and ?S = "bt_store T"
  have n: "?n \<noteq> 0" using assms(4,5) by (simp add: word_of_nat_eq_0_iff nat_dvd_not_less)
  define T1 where "T1 = set_block p (\<lambda>b. b\<lparr>nTx := ?n, nChainTx := 0, nFile := pos_nFile pos,
                 nDataPos := pos_nPos pos, nUndoPos := 0, nStatus := nStatus b OR BLOCK_HAVE_DATA\<rparr>) T"
  obtain b r where rv: "RaiseValidity (bt_store T1 p) BLOCK_VALID_TRANSACTIONS = Some (b, r)"
    by (cases "RaiseValidity (bt_store T1 p) BLOCK_VALID_TRANSACTIONS") (auto simp: RaiseValidity_def valid_levels split: if_splits)
  have b: "\<exists>st. b = (bt_store T1 p)\<lparr>nStatus := st\<rparr> \<and> st AND BLOCK_HAVE_DATA \<noteq> 0"
  proof -
    have m: "bit (w OR BLOCK_HAVE_DATA) 3" "bit ((w OR BLOCK_HAVE_DATA) AND NOT BLOCK_VALID_MASK OR BLOCK_VALID_TRANSACTIONS) 3" for w :: u32
      by (simp_all add: bit_or_iff bit_and_iff bit_not_iff BLOCK_HAVE_DATA_def BLOCK_VALID_MASK_def BLOCK_VALID_HEADER_def
          BLOCK_VALID_TREE_def BLOCK_VALID_TRANSACTIONS_def BLOCK_VALID_CHAIN_def BLOCK_VALID_SCRIPTS_def)
    have "nStatus (bt_store T1 p) = nStatus (?S p) OR BLOCK_HAVE_DATA" by (simp add: T1_def set_block_store)
    then have "\<exists>st. b = (bt_store T1 p)\<lparr>nStatus := st\<rparr> \<and> bit st 3"
      using rv m unfolding RaiseValidity_def valid_levels
      by (auto split: if_splits intro: exI [of _ "nStatus (bt_store T1 p)"])
    then show ?thesis unfolding have_data_bit .
  qed
  define T2 where "T2 = set_dirty p (set_block p (\<lambda>_. b) T1)"
  have s2: "bt_store T2 = ?S(p := b)" and u2: "mapBlocksUnlinked T2 = mapBlocksUnlinked T"
    by (auto simp: T2_def T1_def set_dirty_def set_block_def)
  have bf: "pprev b = pprev (?S p)" "pskip b = pskip (?S p)" "nHeight b = nHeight (?S p)" "nTx b = ?n" "nChainTx b = 0"
    using b by (auto simp: T1_def set_block_store)
  have shape: "same_shape ?S (bt_store T2)" by (simp add: same_shape_def s2 bf)
  have wf2: "wf_store (bt_store T2)" by (rule wf_shape [OF shape wf])
  have st: "same_tx (?S(p := (?S p)\<lparr>nTx := ?n\<rparr>)) (bt_store T2)" by (simp add: same_tx_def same_shape_def s2 bf)
  have bound2: "chain_tx (bt_store T2) q < 2 ^ 32" for q using bound chain_tx_cong [OF st] by simp
  have other: "q \<noteq> p \<Longrightarrow> bt_store T2 q = ?S q" for q by (simp add: s2)
  note start = linking_start [OF wf ok fresh shape _ _ _ bound2]
  have pq: "pprev (bt_store T2 p) = pprev (?S p)" by (simp add: s2 bf)
  have data: "have_data (bt_store T2) p" using b by (auto simp: have_data_def s2)
  have result: "ReceivedBlockTransactions block p pos T = Some T' \<Longrightarrow> linking [] (bt_store T') (mapBlocksUnlinked T') \<Longrightarrow>
      same_tx (bt_store T2) (bt_store T') \<Longrightarrow> have_data (bt_store T') p \<Longrightarrow> ?thesis" for T'
    using linking_link_ok wf_shape [of "bt_store T2" "bt_store T'"] wf2
    by (intro exI [of _ T']) (auto simp: same_tx_def s2 bf)
  have rcv: "ReceivedBlockTransactions block p pos T =
     (case pprev (?S p) of
        None \<Rightarrow> Some (link_loop [p] T2)
      | Some q \<Rightarrow>
          if nChainTx (bt_store T2 q) \<noteq> 0 then Some (link_loop [p] T2)
          else (case IsValid (bt_store T2 q) BLOCK_VALID_TREE of
                  None \<Rightarrow> None
                | Some valid \<Rightarrow> Some (if valid then T2\<lparr>mapBlocksUnlinked := mapBlocksUnlinked T2 @ [(Some q, p)]\<rparr> else T2)))"
    unfolding ReceivedBlockTransactions_def Let_def T1_def [symmetric] rv option.case prod.case T2_def [symmetric] pq ..
  have c: "nChainTx (bt_store T2 q) = nChainTx (?S q)" if "pprev (?S p) = Some q" for q
    using other [of q] wf_pprev [OF wf that] by (cases "q = p") auto
  show ?thesis
  proof (cases "\<forall>q. pprev (?S p) = Some q \<longrightarrow> nChainTx (?S q) \<noteq> 0")
    case True
    then have "linking [p] (bt_store T2) (mapBlocksUnlinked T2)" unfolding u2
      by (intro start) (use other n in \<open>auto simp: s2 bf\<close>)
    from link_loop_ok [OF this wf2 bound2] have l: "linking [] (bt_store (link_loop [p] T2)) (mapBlocksUnlinked (link_loop [p] T2))"
      "same_tx (bt_store T2) (bt_store (link_loop [p] T2))" by auto
    show ?thesis
      by (rule result [OF _ l]) (use True c data link_loop_status in \<open>auto simp: rcv have_data_def split: option.splits\<close>)
  next
    case False
    then obtain q where q: "pprev (?S p) = Some q" "nChainTx (?S q) = 0" by auto
    then have "bt_store T2 q = ?S q" using other [of q] wf_pprev [OF wf q(1)] by (cases "q = p") auto
    then have "ReceivedBlockTransactions block p pos T = Some (T2\<lparr>mapBlocksUnlinked := mapBlocksUnlinked T @ [(Some q, p)]\<rparr>)"
      using q parent [OF q(1)] by (simp add: rcv u2)
    moreover have "linking [] (bt_store T2) (mapBlocksUnlinked T @ [(Some q, p)])"
      by (intro start) (use other n q in \<open>auto simp: s2 bf\<close>)
    ultimately show ?thesis using result data by (simp add: same_tx_def)
  qed
qed

text \<open>Blocks 0 and 2 have one transaction each, block 2 waits for block 1.\<close>

definition waiting_store :: block_store where
  "waiting_store = (\<lambda>p. (sample_store p)\<lparr>nStatus := 3, nTx := (if p = 0 \<or> p = 2 then 1 else 0), nChainTx := (if p = 0 then 1 else 0)\<rparr>)"

definition waiting_tree :: BlockTree where
  "waiting_tree = sample_tree\<lparr>bt_store := waiting_store, mapBlocksUnlinked := [(Some 1, 2)]\<rparr>"

lemma waiting_parts:
  "wf_store waiting_store" "pprev (waiting_store p) = (if p = 0 then None else Some (p - 1))"
  "nTx (waiting_store p) = (if p = 0 \<or> p = 2 then 1 else 0)" "nChainTx (waiting_store p) = (if p = 0 then 1 else 0)"
proof -
  have "same_shape sample_store waiting_store" by (simp add: same_shape_def waiting_store_def)
  then show "wf_store waiting_store" by (rule wf_shape [OF _ wf_sample_store])
qed (simp_all add: waiting_store_def sample_store_def)

lemma waiting_received: "received waiting_store q \<longleftrightarrow> q = 0"
proof -
  have "\<not> received waiting_store 1" "received waiting_store 0" "\<not> received waiting_store 2"
    by (simp_all add: received_step [of _ "Suc 0"] received_step [of _ 0] received_step [of _ 2] received_step [of _ 1] waiting_parts)
  moreover have "\<not> received waiting_store q" if "q \<noteq> 0" "q \<noteq> 2"
    using that by (simp add: received_step [of _ q] waiting_parts)
  ultimately show ?thesis by auto
qed

lemma ReceivedBlockTransactions_links_witness:
  "\<exists>T'. ReceivedBlockTransactions \<lparr>blk_header = CBlockHeader_SetNull, vtx = [sample_coinbase]\<rparr> 1 CDiskBlockPos_SetNull waiting_tree = Some T' \<and>
     link_ok (bt_store T') (mapBlocksUnlinked T')"
proof -
  let ?b = "\<lparr>blk_header = CBlockHeader_SetNull, vtx = [sample_coinbase]\<rparr>"
  have s: "bt_store waiting_tree = waiting_store" "mapBlocksUnlinked waiting_tree = [(Some 1, 2)]" by (simp_all add: waiting_tree_def)
  have ok: "link_ok (bt_store waiting_tree) (mapBlocksUnlinked waiting_tree)"
    unfolding s by (auto simp: link_ok_def waiting_received waiting_parts chain_tx_step [OF waiting_parts(1)])
  define S where "S = waiting_store(1 := (waiting_store 1)\<lparr>nTx := of_nat (length (vtx ?b))\<rparr>)"
  have sh: "same_shape waiting_store S" by (simp add: same_shape_def S_def)
  have tx: "nTx (S q) = (if q < 3 then 1 else 0)" "pprev (S q) = (if q = 0 then None else Some (q - 1))" for q
    by (auto simp: waiting_parts S_def)
  note step = chain_tx_step [OF wf_shape [OF sh waiting_parts(1)], unfolded tx]
  have c: "chain_tx S q \<le> 3 \<and> (q < 3 \<longrightarrow> chain_tx S q = Suc q)" for q
  proof (induction q)
    case (Suc q)
    then show ?case using step [of "Suc q"] by auto
  qed (simp add: step)
  have v: "IsValid (bt_store waiting_tree q) BLOCK_VALID_TREE = Some True" for q
    unfolding IsValid_def valid_levels s by (simp add: waiting_store_def BLOCK_FAILED_MASK_def BLOCK_FAILED_VALID_def
        BLOCK_FAILED_CHILD_def BLOCK_VALID_MASK_def BLOCK_VALID_HEADER_def
        BLOCK_VALID_TREE_def BLOCK_VALID_TRANSACTIONS_def BLOCK_VALID_CHAIN_def BLOCK_VALID_SCRIPTS_def)
  have "\<exists>T'. ReceivedBlockTransactions ?b 1 CDiskBlockPos_SetNull waiting_tree = Some T' \<and> link_ok (bt_store T') (mapBlocksUnlinked T') \<and>
    wf_store (bt_store T') \<and> nTx (bt_store T' 1) = of_nat (length (vtx ?b)) \<and> have_data (bt_store T') 1"
  proof (rule ReceivedBlockTransactions_links [OF _ ok _ _ _ v])
    show "chain_tx ((bt_store waiting_tree)(1 := (bt_store waiting_tree 1)\<lparr>nTx := of_nat (length (vtx ?b))\<rparr>)) q < 2 ^ 32" for q
      unfolding s S_def [symmetric] using c [of q] by simp
  qed (simp_all add: s waiting_parts)
  then show ?thesis by blast
qed

end
