(* ===== verification/BestChain.thy ===== *)
theory BestChain
  imports BlockTree
begin

text \<open>
  The search for the chain of most work (\<open>FindMostWorkChain\<close>, \<open>main.cpp\<close>): the order of the
  candidates, the walk from a candidate to the active chain, and why the search ends with the best
  block that can be used.
\<close>

subsection \<open>The order of the candidates\<close>

definition works_ok :: "block_store \<Rightarrow> bool" where
  "works_ok S \<longleftrightarrow> (\<forall>p. wf_uint (nChainWork (S p)))"

lemma comparator_iff:
  assumes "works_ok S"
  shows "CBlockIndexWorkComparator S a b \<longleftrightarrow>
    uval (nChainWork (S a)) < uval (nChainWork (S b)) \<or> uval (nChainWork (S a)) = uval (nChainWork (S b)) \<and>
      (nSequenceId (S b) < nSequenceId (S a) \<or> nSequenceId (S a) = nSequenceId (S b) \<and> b < a)"
  using assms unfolding CBlockIndexWorkComparator_def Let_def works_ok_def by (auto simp: uint_compare_sign)

lemma comparator_total: "works_ok S \<Longrightarrow> a \<noteq> b \<Longrightarrow> CBlockIndexWorkComparator S a b \<or> CBlockIndexWorkComparator S b a"
  by (auto simp: comparator_iff not_less_iff_gr_or_eq)

lemma comparator_asym: "works_ok S \<Longrightarrow> CBlockIndexWorkComparator S a b \<Longrightarrow> \<not> CBlockIndexWorkComparator S b a"
  by (auto simp: comparator_iff)

lemma comparator_trans:
  "works_ok S \<Longrightarrow> CBlockIndexWorkComparator S a b \<Longrightarrow> CBlockIndexWorkComparator S b c \<Longrightarrow> CBlockIndexWorkComparator S a c"
  by (auto simp: comparator_iff)

lemma candidates_erase_ok:
  assumes "works_ok S" "sorted_wrt (CBlockIndexWorkComparator S) cands"
  shows "set (candidates_erase S p cands) = set cands - {p}"
    and "sorted_wrt (CBlockIndexWorkComparator S) (candidates_erase S p cands)"
proof -
  have "set (candidates_erase S p cands) = set cands - {p} \<and> sorted_wrt (CBlockIndexWorkComparator S) (candidates_erase S p cands)"
    using assms(2)
  proof (induction cands)
    case (Cons q qs)
    have irr: "\<not> CBlockIndexWorkComparator S a a" for a using comparator_asym [OF assms(1), of a a] by blast
    consider "CBlockIndexWorkComparator S p q" | "CBlockIndexWorkComparator S q p" | "p = q"
      using comparator_total [OF assms(1)] by blast
    then show ?case
    proof cases
      case 1
      then have "p \<notin> set (q # qs)" using Cons.prems irr comparator_asym [OF assms(1)] by auto
      then show ?thesis using 1 Cons.prems by simp
    next
      case 2
      then show ?thesis using Cons comparator_asym [OF assms(1) 2] irr by auto
    next
      case 3
      then have "p \<notin> set qs" using Cons.prems irr by auto
      then show ?thesis using 3 Cons.prems irr by auto
    qed
  qed simp
  then show "set (candidates_erase S p cands) = set cands - {p}"
    "sorted_wrt (CBlockIndexWorkComparator S) (candidates_erase S p cands)" by simp_all
qed

text \<open>
  A block is usable when every block between it and the active chain has its data and has not
  failed; \<open>counted\<close> is the assertion of the search.
\<close>

definition usable :: "block_store \<Rightarrow> CChain \<Rightarrow> block_id \<Rightarrow> bool" where
  "usable S v c \<longleftrightarrow> (\<forall>n q. up S n c = Some q \<longrightarrow> Contains S v q \<or> \<not> failed S q \<and> have_data S q)"

definition counted :: "block_store \<Rightarrow> CChain \<Rightarrow> block_id \<Rightarrow> bool" where
  "counted S v c \<longleftrightarrow> (\<forall>n q. up S n c = Some q \<longrightarrow> Contains S v q \<or> nChainTx (S q) \<noteq> 0 \<or> nHeight (S q) = 0)"

lemma all_up_step:
  "(\<forall>n q. up S n c = Some q \<longrightarrow> P q) \<longleftrightarrow> P c \<and> (\<forall>r. pprev (S c) = Some r \<longrightarrow> (\<forall>n q. up S n r = Some q \<longrightarrow> P q))"
proof (intro iffI conjI allI impI)
  fix r n q
  assume a: "\<forall>n q. up S n c = Some q \<longrightarrow> P q" "pprev (S c) = Some r" "up S n r = Some q"
  show "P q" using a(1) [rule_format, of "Suc n" q] a(2,3) by simp
next
  assume a: "\<forall>n q. up S n c = Some q \<longrightarrow> P q"
  show "P c" using a [rule_format, of 0] by simp
next
  fix n q
  assume a: "P c \<and> (\<forall>r. pprev (S c) = Some r \<longrightarrow> (\<forall>n q. up S n r = Some q \<longrightarrow> P q))" "up S n c = Some q"
  then show "P q" by (cases n) (auto split: option.splits)
qed

lemma usable_step:
  "usable S v c \<longleftrightarrow> (Contains S v c \<or> \<not> failed S c \<and> have_data S c) \<and> (\<forall>q. pprev (S c) = Some q \<longrightarrow> usable S v q)"
  unfolding usable_def by (rule all_up_step)

lemma counted_step:
  "counted S v c \<longleftrightarrow> (Contains S v c \<or> nChainTx (S c) \<noteq> 0 \<or> nHeight (S c) = 0) \<and> (\<forall>q. pprev (S c) = Some q \<longrightarrow> counted S v q)"
  unfolding counted_def by (rule all_up_step)

lemma Contains_parent:
  assumes "chain_ok S v" "wf_store S" "Contains S v p" "pprev (S p) = Some q"
  shows "Contains S v q"
proof -
  have h: "nHeight (S p) = nHeight (S q) + 1" "0 \<le> nHeight (S q)" using wf_pprev [OF assms(2,4)] by auto
  then have i: "nat (nHeight (S q) + 1) - Suc 0 = nat (nHeight (S q))" by simp
  have "nat (nHeight (S p)) < length v" "v ! nat (nHeight (S p)) = Some p"
    using assms(3) h by (auto simp: Contains_iff [OF assms(2)])
  from chain_okD(2) [OF assms(1) this] show ?thesis
    using assms(3,4) h by (simp add: i Contains_iff [OF assms(2)])
qed

lemma Contains_usable:
  assumes "chain_ok S v" "wf_store S" "Contains S v p"
  shows "usable S v p"
proof -
  have "up S n p = Some q \<Longrightarrow> Contains S v q" for n q
    using assms(3) by (induction n arbitrary: p) (auto split: option.splits dest: Contains_parent [OF assms(1,2)])
  then show ?thesis by (auto simp: usable_def)
qed

lemma unusable_above:
  assumes "up S n c = Some q" "\<not> Contains S v q" "failed S q \<or> \<not> have_data S q"
  shows "\<not> usable S v c"
  using assms by (auto simp: usable_def)

text \<open>The walk from a candidate ends; it finds the first obstacle or shows the candidate usable.\<close>

lemma test_path_ok:
  assumes "wf_store (bt_store T)" "chain_ok (bt_store T) (chainActive T)" "counted (bt_store T) (chainActive T) c"
  shows "\<exists>r. test_path T (Some c) = Some r \<and>
    (case r of None \<Rightarrow> usable (bt_store T) (chainActive T) c
     | Some (q, b) \<Rightarrow> \<exists>n. up (bt_store T) n c = Some q \<and> \<not> Contains (bt_store T) (chainActive T) q \<and>
         b = failed (bt_store T) q \<and> (failed (bt_store T) q \<or> \<not> have_data (bt_store T) q))"
  using assms(3)
proof (induction "nat (nHeight (bt_store T c))" arbitrary: c rule: less_induct)
  case less
  let ?S = "bt_store T" and ?v = "chainActive T"
  note step = test_path.simps [of T "Some c", simplified Let_def option.case]
  consider "Contains ?S ?v c" | "\<not> Contains ?S ?v c" "failed ?S c \<or> \<not> have_data ?S c"
    | "\<not> Contains ?S ?v c" "\<not> failed ?S c" "have_data ?S c" by blast
  then show ?case
  proof cases
    case 1
    then show ?thesis using Contains_usable [OF assms(2,1)] step by simp
  next
    case 2
    then show ?thesis using less.prems step by (intro exI [of _ "Some (c, failed ?S c)"]) (auto simp: counted_step [of _ _ c] intro: exI [of _ 0])
  next
    case 3
    then have t: "test_path T (Some c) = test_path T (pprev (?S c))" using less.prems step by (auto simp: counted_step [of _ _ c])
    show ?thesis
    proof (cases "pprev (?S c)")
      case None
      then show ?thesis using 3 t by (simp add: test_path.simps [of T None] usable_step [of _ _ c])
    next
      case (Some q)
      have "nat (nHeight (?S q)) < nat (nHeight (?S c))" "counted ?S ?v q"
        using wf_pprev [OF assms(1) Some] less.prems Some by (auto simp: counted_step [of _ _ c])
      from less.hyps [OF this] obtain r where r: "test_path T (Some q) = Some r"
        "case r of None \<Rightarrow> usable ?S ?v q
         | Some (q', b) \<Rightarrow> \<exists>n. up ?S n q = Some q' \<and> \<not> Contains ?S ?v q' \<and> b = failed ?S q' \<and> (failed ?S q' \<or> \<not> have_data ?S q')"
        by blast
      show ?thesis
      proof (cases r)
        case None
        then show ?thesis using r 3 t Some by (simp add: usable_step [of _ _ c])
      next
        case (Some e)
        obtain q' b where e: "e = (q', b)" by (cases e)
        from r(2) obtain n where "up ?S n q = Some q'" "\<not> Contains ?S ?v q'" "b = failed ?S q'" "failed ?S q' \<or> \<not> have_data ?S q'"
          unfolding Some e by auto
        then show ?thesis using r(1) t \<open>pprev (?S c) = Some q\<close> unfolding Some e
          by (intro exI [of _ "Some (q', b)"]) (auto intro!: exI [of _ "Suc n"])
      qed
    qed
  qed
qed

text \<open>A store in which some blocks have got the mark of a failed ancestor.\<close>

definition mark_child :: "block_id set \<Rightarrow> block_store \<Rightarrow> block_store" where
  "mark_child P S = (\<lambda>p. if p \<in> P then (S p)\<lparr>nStatus := nStatus (S p) OR BLOCK_FAILED_CHILD\<rparr> else S p)"

lemma mark_child_parts [simp]:
  "pprev (mark_child P S p) = pprev (S p)" "pskip (mark_child P S p) = pskip (S p)" "nHeight (mark_child P S p) = nHeight (S p)"
  "nChainWork (mark_child P S p) = nChainWork (S p)" "nSequenceId (mark_child P S p) = nSequenceId (S p)"
  "nChainTx (mark_child P S p) = nChainTx (S p)"
  by (simp_all add: mark_child_def)

lemma mark_child_shape: "same_shape S (mark_child P S)"
  by (simp add: same_shape_def)

lemma mark_child_up [simp]: "up (mark_child P S) n p = up S n p"
  by (rule up_shape [OF mark_child_shape])

lemma mark_child_wf [simp]: "wf_store (mark_child P S) = wf_store S"
  using wf_shape [OF mark_child_shape] wf_shape [of "mark_child P S" S] by (auto simp: same_shape_def)

lemma mark_child_keeps [simp]:
  "Contains (mark_child P S) v p = Contains S v p" "chain_ok (mark_child P S) v = chain_ok S v" "works_ok (mark_child P S) = works_ok S"
  by (simp_all add: Contains_def chain_ok_def works_ok_def)

lemma mark_child_comparator [simp]: "CBlockIndexWorkComparator (mark_child P S) = CBlockIndexWorkComparator S"
  by (intro ext) (simp only: CBlockIndexWorkComparator_def mark_child_parts)

lemma mark_child_counted [simp]: "counted (mark_child P S) v d = counted S v d"
  by (simp add: counted_def)

lemma candidates_erase_mark [simp]: "candidates_erase (mark_child P S) p cands = candidates_erase S p cands"
  by (induction cands) simp_all

lemma mark_child_twice: "mark_child P (mark_child Q S) = mark_child (Q \<union> P) S"
  by (rule ext) (simp add: mark_child_def or.assoc)

lemma mark_child_none [simp]: "mark_child {} S = S"
  by (simp add: mark_child_def)

lemma failed_mark_child: "failed (mark_child P S) p \<longleftrightarrow> failed S p \<or> p \<in> P"
proof -
  have "(w OR BLOCK_FAILED_CHILD) AND BLOCK_FAILED_MASK \<noteq> 0" for w :: u32
  proof
    assume "(w OR BLOCK_FAILED_CHILD) AND BLOCK_FAILED_MASK = 0"
    then have "\<not> bit ((w OR BLOCK_FAILED_CHILD) AND BLOCK_FAILED_MASK) 6" by simp
    then show False by (simp add: bit_simps BLOCK_FAILED_CHILD_def BLOCK_FAILED_MASK_def BLOCK_FAILED_VALID_def)
  qed
  then show ?thesis by (auto simp: failed_def mark_child_def)
qed

lemma have_data_mark_child [simp]: "have_data (mark_child P S) p = have_data S p"
  by (simp add: have_data_def mark_child_def have_data_bit bit_simps BLOCK_FAILED_CHILD_def)

lemma mark_child_usable:
  assumes "\<And>p. p \<in> P \<Longrightarrow> \<exists>n q. up S n p = Some q \<and> \<not> Contains S v q \<and> failed S q"
  shows "usable (mark_child P S) v d = usable S v d"
proof
  assume u: "usable S v d"
  have "q \<notin> P" if "up S n d = Some q" for n q
  proof
    assume "q \<in> P"
    from assms [OF this] obtain m r where "up S m q = Some r" "\<not> Contains S v r" "failed S r" by blast
    then show False using u that up_add [of S n m d] by (auto simp: usable_def)
  qed
  then show "usable (mark_child P S) v d" using u by (auto simp: usable_def failed_mark_child)
qed (auto simp: usable_def failed_mark_child)

text \<open>The loop that takes the whole path from a candidate to the obstacle out of the candidates.\<close>

lemma remove_path_ok:
  assumes "wf_store (bt_store T)" "works_ok (bt_store T)" "up (bt_store T) n c = Some q"
    and "sorted_wrt (CBlockIndexWorkComparator (bt_store T)) (setBlockIndexCandidates T)"
  defines "P \<equiv> {p. \<exists>m < n. up (bt_store T) m c = Some p}"
  shows "\<exists>T'. remove_path q b (Some c) T = Some T' \<and> chainActive T' = chainActive T \<and>
    bt_store T' = mark_child (if b then P else {}) (bt_store T) \<and>
    sorted_wrt (CBlockIndexWorkComparator (bt_store T)) (setBlockIndexCandidates T') \<and>
    set (setBlockIndexCandidates T') = set (setBlockIndexCandidates T) - P"
  using assms(1-4) unfolding P_def
proof (induction n arbitrary: c T)
  case 0
  then show ?case using 0 by (simp add: remove_path.simps)
next
  case (Suc n)
  let ?S = "bt_store T"
  obtain r where r: "pprev (?S c) = Some r" "up ?S n r = Some q" using Suc.prems(3) by (auto split: option.splits)
  have "q \<noteq> c" using up_height [OF Suc.prems(1,3)] by auto
  define T1 where "T1 = (if b then set_block c (\<lambda>b. b\<lparr>nStatus := nStatus b OR BLOCK_FAILED_CHILD\<rparr>) T
                   else T\<lparr>mapBlocksUnlinked := mapBlocksUnlinked T @ [(pprev (bt_store T c), c)]\<rparr>)"
  define T2 where "T2 = erase_candidate c T1"
  have s1: "bt_store T1 = mark_child (if b then {c} else {}) ?S" "chainActive T1 = chainActive T"
    "setBlockIndexCandidates T1 = setBlockIndexCandidates T"
    by (auto simp: T1_def set_block_def mark_child_def)
  have s2: "bt_store T2 = mark_child (if b then {c} else {}) ?S" "chainActive T2 = chainActive T"
    "setBlockIndexCandidates T2 = candidates_erase ?S c (setBlockIndexCandidates T)"
    by (simp_all add: T2_def erase_candidate_def s1)
  note er = candidates_erase_ok [OF Suc.prems(2,4), of c]
  have "remove_path q b (Some c) T = remove_path q b (pprev (bt_store T1 c)) (erase_candidate c T1)"
    using \<open>q \<noteq> c\<close> by (simp add: remove_path.simps [of q b "Some c"] T1_def Let_def)
  then have e: "remove_path q b (Some c) T = remove_path q b (Some r) T2" using r(1) by (simp add: s1 T2_def)
  have "up (bt_store T2) n r = Some q" "wf_store (bt_store T2)" "works_ok (bt_store T2)"
    "sorted_wrt (CBlockIndexWorkComparator (bt_store T2)) (setBlockIndexCandidates T2)"
    using r Suc.prems er by (simp_all add: s2)
  from Suc.IH [OF this(2,3,1,4)] obtain T' where t: "remove_path q b (Some r) T2 = Some T'" "chainActive T' = chainActive T"
    "bt_store T' = mark_child (if b then {p. \<exists>m < n. up ?S m r = Some p} else {}) (bt_store T2)"
    "sorted_wrt (CBlockIndexWorkComparator ?S) (setBlockIndexCandidates T')"
    "set (setBlockIndexCandidates T') = set (setBlockIndexCandidates T2) - {p. \<exists>m < n. up ?S m r = Some p}"
    by (auto simp: s2)
  have P: "{p. \<exists>m < Suc n. up ?S m c = Some p} = insert c {p. \<exists>m < n. up ?S m r = Some p}"
    using r(1) by (auto simp: less_Suc_eq_0_disj)
  have "bt_store T' = mark_child (if b then {p. \<exists>m < Suc n. up ?S m c = Some p} else {}) ?S"
    unfolding t(3) s2 P by (cases b) (simp_all add: mark_child_twice)
  moreover have "set (setBlockIndexCandidates T') = set (setBlockIndexCandidates T) - {p. \<exists>m < Suc n. up ?S m c = Some p}"
    unfolding t(5) s2 P er(1) by auto
  moreover have "remove_path q b (Some c) T = Some T'" using e t(1) by (rule trans)
  ultimately show ?case using t(2,4) by - (intro exI [of _ T'] conjI, assumption+)
qed

lemma sorted_below_last:
  assumes "sorted_wrt R xs" "x \<in> set xs" "x \<noteq> last xs"
  shows "R x (last xs)"
  using assms by (induction xs) (auto split: if_splits)

lemma comparator_distinct:
  assumes "works_ok S" "sorted_wrt (CBlockIndexWorkComparator S) cands"
  shows "distinct cands"
  using assms(2) comparator_asym [OF assms(1)] by (induction cands) auto

text \<open>
  One round of the search that meets an obstacle: it goes on with fewer candidates, having taken
  out only blocks that cannot be used, the best candidate among them.
\<close>

lemma FindMostWorkChain_round:
  fixes T
  defines "S \<equiv> bt_store T" and "v \<equiv> chainActive T" and "cs \<equiv> setBlockIndexCandidates T"
  assumes "wf_store S" "works_ok S" "sorted_wrt (CBlockIndexWorkComparator S) cs" "cs \<noteq> []"
    and obstacle: "test_path T (Some (last cs)) = Some (Some (q, b))" "up S n (last cs) = Some q"
      "\<not> Contains S v q" "b = failed S q" "failed S q \<or> \<not> have_data S q"
  shows "\<exists>T2 P. FindMostWorkChain T = FindMostWorkChain T2 \<and> chainActive T2 = v \<and> bt_store T2 = mark_child P S \<and>
    (\<forall>d. usable (bt_store T2) v d = usable S v d) \<and>
    sorted_wrt (CBlockIndexWorkComparator S) (setBlockIndexCandidates T2) \<and>
    length (setBlockIndexCandidates T2) < length cs \<and> set (setBlockIndexCandidates T2) \<subseteq> set cs \<and>
    (\<forall>d \<in> set cs - set (setBlockIndexCandidates T2). \<not> usable S v d)"
proof -
  define c where "c = last cs"
  note obs = obstacle [folded c_def]
  have c: "c \<in> set cs" using assms(7) by (simp add: c_def)
  define T0 where "T0 = (if b \<and> work_above S c (pindexBestInvalid T) then T\<lparr>pindexBestInvalid := Some c\<rparr> else T)"
  have t0: "bt_store T0 = S" "chainActive T0 = v" "setBlockIndexCandidates T0 = cs" by (simp_all add: T0_def S_def v_def cs_def)
  define P where "P = {p. \<exists>m < n. up S m c = Some p}"
  obtain T1 where t1: "remove_path q b (Some c) T0 = Some T1" "chainActive T1 = v" "bt_store T1 = mark_child (if b then P else {}) S"
    "sorted_wrt (CBlockIndexWorkComparator S) (setBlockIndexCandidates T1)" "set (setBlockIndexCandidates T1) = set cs - P"
    using remove_path_ok [of T0 n c q b] assms(4-6) obs(2) unfolding t0 P_def by auto
  define T2 where "T2 = erase_candidate q T1"
  have t2: "chainActive T2 = v" "bt_store T2 = mark_child (if b then P else {}) S"
    "sorted_wrt (CBlockIndexWorkComparator S) (setBlockIndexCandidates T2)"
    "set (setBlockIndexCandidates T2) = set cs - P - {q}"
    using t1 candidates_erase_ok [OF assms(5) t1(4)] by (simp_all add: T2_def erase_candidate_def)
  have f: "FindMostWorkChain T = FindMostWorkChain T2"
    using assms(7) obs(1) t1(1)
    by (simp add: FindMostWorkChain.simps [of T] c_def [unfolded cs_def, symmetric] Let_def T0_def T2_def S_def cs_def)
  have above: "\<exists>k. up S k p = Some q" if "p \<in> P \<or> p = q" for p
  proof -
    have "\<exists>m \<le> n. up S m c = Some p" using that obs(2) by (auto simp: P_def intro: less_imp_le)
    then show ?thesis using obs(2) up_split by fastforce
  qed
  then have unusable: "\<not> usable S v p" if "p \<in> P \<or> p = q" for p
    using that obs(3,5) unusable_above by blast
  have "\<exists>k r. up S k p = Some r \<and> \<not> Contains S v r \<and> failed S r" if "p \<in> (if b then P else {})" for p
    using that above [of p] obs(3,4) by (auto split: if_splits)
  then have same: "usable (bt_store T2) v d = usable S v d" for d unfolding t2(2) by (rule mark_child_usable)
  have "c \<in> P \<or> c = q" using obs(2) by (cases n) (auto simp: P_def intro: exI [of _ 0])
  then have "set (setBlockIndexCandidates T2) \<subset> set cs" using c t2(4) by auto
  then have "card (set (setBlockIndexCandidates T2)) < card (set cs)" by (rule psubset_card_mono [rotated]) simp
  then have "length (setBlockIndexCandidates T2) < length cs"
    using comparator_distinct [OF assms(5)] t2(3) assms(6) by (simp add: distinct_card)
  then show ?thesis using f t2 same unusable by (intro exI [of _ T2] exI [of _ "if b then P else {}"]) auto
qed

lemma FindMostWorkChain_ok:
  assumes "wf_store (bt_store T)" "chain_ok (bt_store T) (chainActive T)" "works_ok (bt_store T)"
    and "sorted_wrt (CBlockIndexWorkComparator (bt_store T)) (setBlockIndexCandidates T)"
    and "\<And>c. c \<in> set (setBlockIndexCandidates T) \<Longrightarrow> counted (bt_store T) (chainActive T) c"
  shows "\<exists>r T'. FindMostWorkChain T = Some (r, T') \<and> chainActive T' = chainActive T \<and>
    (\<forall>d. usable (bt_store T') (chainActive T) d = usable (bt_store T) (chainActive T) d) \<and>
    (case r of None \<Rightarrow> \<forall>c \<in> set (setBlockIndexCandidates T). \<not> usable (bt_store T) (chainActive T) c
     | Some c \<Rightarrow> c \<in> set (setBlockIndexCandidates T) \<and> usable (bt_store T) (chainActive T) c \<and>
         (\<forall>d \<in> set (setBlockIndexCandidates T). usable (bt_store T) (chainActive T) d \<longrightarrow> d \<noteq> c \<longrightarrow>
            CBlockIndexWorkComparator (bt_store T) d c))"
  using assms
proof (induction "length (setBlockIndexCandidates T)" arbitrary: T rule: less_induct)
  case less
  let ?S = "bt_store T" and ?v = "chainActive T" and ?cs = "setBlockIndexCandidates T"
  show ?case
  proof (cases "?cs = []")
    case True
    then show ?thesis by (simp add: FindMostWorkChain.simps)
  next
    case False
    then have c: "last ?cs \<in> set ?cs" by simp
    obtain r where r: "test_path T (Some (last ?cs)) = Some r"
      "case r of None \<Rightarrow> usable ?S ?v (last ?cs)
       | Some (q, b) \<Rightarrow> \<exists>n. up ?S n (last ?cs) = Some q \<and> \<not> Contains ?S ?v q \<and> b = failed ?S q \<and> (failed ?S q \<or> \<not> have_data ?S q)"
      using test_path_ok [OF less.prems(1,2) less.prems(5) [OF c]] by blast
    show ?thesis
    proof (cases r)
      case None
      have "FindMostWorkChain T = Some (Some (last ?cs), T)" using r(1) False None by (simp add: FindMostWorkChain.simps)
      then show ?thesis using r(2) None c sorted_below_last [OF less.prems(4)] by auto
    next
      case (Some e)
      then obtain q b n where e: "r = Some (q, b)" "up ?S n (last ?cs) = Some q" "\<not> Contains ?S ?v q" "b = failed ?S q"
        "failed ?S q \<or> \<not> have_data ?S q" using r(2) by (cases e) auto
      from FindMostWorkChain_round [OF less.prems(1,3,4) False r(1) [unfolded e(1)] e(2-5)] obtain T2 P where
        t2: "FindMostWorkChain T = FindMostWorkChain T2" "chainActive T2 = ?v" "bt_store T2 = mark_child P ?S"
          "\<forall>d. usable (bt_store T2) ?v d = usable ?S ?v d"
          "sorted_wrt (CBlockIndexWorkComparator ?S) (setBlockIndexCandidates T2)"
          "length (setBlockIndexCandidates T2) < length ?cs" "set (setBlockIndexCandidates T2) \<subseteq> set ?cs"
          "\<forall>d \<in> set ?cs - set (setBlockIndexCandidates T2). \<not> usable ?S ?v d" by blast
      note same = t2(4) [rule_format]
      have cmp: "CBlockIndexWorkComparator (bt_store T2) = CBlockIndexWorkComparator ?S" by (simp add: t2(3))
      have "wf_store (bt_store T2)" "chain_ok (bt_store T2) (chainActive T2)" "works_ok (bt_store T2)"
        "sorted_wrt (CBlockIndexWorkComparator (bt_store T2)) (setBlockIndexCandidates T2)"
        "\<And>c. c \<in> set (setBlockIndexCandidates T2) \<Longrightarrow> counted (bt_store T2) (chainActive T2) c"
        using less.prems t2(2,3,5,7) by auto
      from less.hyps [OF t2(6) this, unfolded t2(2) same cmp] obtain r' T' where "FindMostWorkChain T2 = Some (r', T')"
        "chainActive T' = ?v" "\<forall>d. usable (bt_store T') ?v d = usable ?S ?v d"
        "case r' of None \<Rightarrow> \<forall>c \<in> set (setBlockIndexCandidates T2). \<not> usable ?S ?v c
         | Some c \<Rightarrow> c \<in> set (setBlockIndexCandidates T2) \<and> usable ?S ?v c \<and>
             (\<forall>d \<in> set (setBlockIndexCandidates T2). usable ?S ?v d \<longrightarrow> d \<noteq> c \<longrightarrow> CBlockIndexWorkComparator ?S d c)"
        by blast
      then show ?thesis using t2(1,7,8) by (cases r') auto
    qed
  qed
qed

text \<open>
  C3. \<open>FindMostWorkChain\<close> ends whatever marks the block tree carries, and returns the best usable
  candidate: the one of most work, and of those with equal work the one that arrived first, among
  the candidates whose path to the active chain has all its data and no failed block.  It returns
  no block only when no candidate is usable, and its marks make no block usable or unusable.
\<close>

theorem FindMostWorkChain_best:
  assumes "wf_store (bt_store T)" "chain_ok (bt_store T) (chainActive T)" "works_ok (bt_store T)"
    and "sorted_wrt (CBlockIndexWorkComparator (bt_store T)) (setBlockIndexCandidates T)"
    and "\<And>c. c \<in> set (setBlockIndexCandidates T) \<Longrightarrow> counted (bt_store T) (chainActive T) c"
  shows "\<exists>r T'. FindMostWorkChain T = Some (r, T') \<and> chainActive T' = chainActive T \<and>
    (\<forall>d. usable (bt_store T') (chainActive T) d = usable (bt_store T) (chainActive T) d) \<and>
    (case r of None \<Rightarrow> \<forall>c \<in> set (setBlockIndexCandidates T). \<not> usable (bt_store T) (chainActive T) c
     | Some c \<Rightarrow> c \<in> set (setBlockIndexCandidates T) \<and> usable (bt_store T) (chainActive T) c \<and>
         (\<forall>d \<in> set (setBlockIndexCandidates T). usable (bt_store T) (chainActive T) d \<longrightarrow> d \<noteq> c \<longrightarrow>
            CBlockIndexWorkComparator (bt_store T) d c))"
  using assms by (rule FindMostWorkChain_ok)

text \<open>Blocks 0 to 3 in a line, of which block 2 has failed and 0 is active.\<close>

definition fork_store :: block_store where
  "fork_store = (\<lambda>p. (sample_store p)\<lparr>nStatus := (if p = 2 then 42 else 10), nChainTx := 1, nSequenceId := (if p = 1 then 1 else 0)\<rparr>)"

definition fork_tree :: BlockTree where
  "fork_tree = sample_tree\<lparr>bt_store := fork_store, chainActive := [Some 0], setBlockIndexCandidates := [1, 3]\<rparr>"

lemma FindMostWorkChain_best_witness:
  "\<exists>T'. FindMostWorkChain fork_tree = Some (Some 1, T')"
proof -
  have parts: "bt_store fork_tree = fork_store" "chainActive fork_tree = [Some 0]" "setBlockIndexCandidates fork_tree = [1, 3]"
    by (simp_all add: fork_tree_def)
  have store: "pprev (fork_store p) = (if p = 0 then None else Some (p - 1))" "nHeight (fork_store p) = int p"
    "nChainTx (fork_store p) = 1" for p by (simp_all add: fork_store_def sample_store_def)
  have works: "works_ok fork_store" by (simp add: works_ok_def fork_store_def sample_store_def CBlockIndex_default_def wf_zero)
  have wf: "wf_store (bt_store fork_tree)" unfolding parts
    by (rule wf_shape [OF _ wf_sample_store]) (simp add: same_shape_def fork_store_def)
  have chain: "chain_ok (bt_store fork_tree) (chainActive fork_tree)" by (simp add: parts chain_ok_def store)
  have sorted: "sorted_wrt (CBlockIndexWorkComparator (bt_store fork_tree)) (setBlockIndexCandidates fork_tree)"
    by (simp add: parts comparator_iff [OF works]) (simp add: fork_store_def sample_store_def CBlockIndex_default_def)
  have counted: "counted (bt_store fork_tree) (chainActive fork_tree) c" for c by (simp add: counted_def parts store)
  have fails: "failed fork_store p \<longleftrightarrow> p = 2" "have_data fork_store p" for p
    by (simp_all add: failed_def have_data_def fork_store_def BLOCK_FAILED_MASK_def BLOCK_FAILED_VALID_def BLOCK_FAILED_CHILD_def BLOCK_HAVE_DATA_def)
  have active: "Contains fork_store [Some 0] p \<longleftrightarrow> p = 0" for p
    by (cases p) (auto simp: Contains_def chain_at_def store)
  note step = usable_step [of fork_store "[Some 0]"]
  have u: "usable fork_store [Some 0] 1" "\<not> usable fork_store [Some 0] 3"
    by (simp_all add: step [of "Suc 0"] step [of 0] step [of 3] step [of 2] fails active store)
  from FindMostWorkChain_best [OF wf _ _ sorted counted] chain works obtain r T' where r: "FindMostWorkChain fork_tree = Some (r, T')"
    "case r of None \<Rightarrow> \<forall>c \<in> {1, 3}. \<not> usable fork_store [Some 0] c
     | Some c \<Rightarrow> c \<in> {1, 3} \<and> usable fork_store [Some 0] c" unfolding parts by (auto split: option.splits)
  then have "r = Some 1" using u by (auto split: option.splits)
  then show ?thesis using r(1) by blast
qed

end
