(* ===== verification/BlockFiles.thy ===== *)
theory BlockFiles
  imports BlockTree
begin

text \<open>
  The files that hold blocks and undo data (\<open>main.h\<close>, \<open>main.cpp\<close>): the statistics of a file, finding
  room for a block or its undo data, the space in use, and pruning.  Allocating, flushing and
  removing files is left out; whether there is space on the disk is an argument.
\<close>

unbundle bit_operations_syntax

subsection \<open>Statistics of a file\<close>

definition MAX_BLOCKFILE_SIZE :: u32 where "MAX_BLOCKFILE_SIZE = 0x8000000"
definition BLOCKFILE_CHUNK_SIZE :: u32 where "BLOCKFILE_CHUNK_SIZE = 0x1000000"
definition UNDOFILE_CHUNK_SIZE :: u32 where "UNDOFILE_CHUNK_SIZE = 0x100000"
definition MIN_BLOCKS_TO_KEEP :: u32 where "MIN_BLOCKS_TO_KEEP = 288"

record CBlockFileInfo =
  fi_nBlocks :: u32
  fi_nSize :: u32
  fi_nUndoSize :: u32
  fi_nHeightFirst :: u32
  fi_nHeightLast :: u32
  fi_nTimeFirst :: u64
  fi_nTimeLast :: u64

definition CBlockFileInfo_SetNull :: CBlockFileInfo where
  "CBlockFileInfo_SetNull = \<lparr>fi_nBlocks = 0, fi_nSize = 0, fi_nUndoSize = 0, fi_nHeightFirst = 0, fi_nHeightLast = 0,
     fi_nTimeFirst = 0, fi_nTimeLast = 0\<rparr>"

definition AddBlock :: "u32 \<Rightarrow> u64 \<Rightarrow> CBlockFileInfo \<Rightarrow> CBlockFileInfo" where
  "AddBlock nHeightIn nTimeIn i =
     (let i = (if fi_nBlocks i = 0 \<or> fi_nHeightFirst i > nHeightIn then i\<lparr>fi_nHeightFirst := nHeightIn\<rparr> else i);
          i = (if fi_nBlocks i = 0 \<or> fi_nTimeFirst i > nTimeIn then i\<lparr>fi_nTimeFirst := nTimeIn\<rparr> else i);
          i = i\<lparr>fi_nBlocks := fi_nBlocks i + 1\<rparr>;
          i = (if nHeightIn > fi_nHeightLast i then i\<lparr>fi_nHeightLast := nHeightIn\<rparr> else i)
      in if nTimeIn > fi_nTimeLast i then i\<lparr>fi_nTimeLast := nTimeIn\<rparr> else i)"

definition Serialize_CBlockFileInfo :: "CBlockFileInfo \<Rightarrow> bytes" where
  "Serialize_CBlockFileInfo i =
     WriteVarInt (unat (fi_nBlocks i)) @ WriteVarInt (unat (fi_nSize i)) @ WriteVarInt (unat (fi_nUndoSize i)) @
     WriteVarInt (unat (fi_nHeightFirst i)) @ WriteVarInt (unat (fi_nHeightLast i)) @
     WriteVarInt (unat (fi_nTimeFirst i)) @ WriteVarInt (unat (fi_nTimeLast i))"

definition Unserialize_CBlockFileInfo :: "CBlockFileInfo reader" where
  "Unserialize_CBlockFileInfo =
     rd_then (ReadVarInt 32) (\<lambda>blocks. rd_then (ReadVarInt 32) (\<lambda>sz. rd_then (ReadVarInt 32) (\<lambda>undoSize.
     rd_then (ReadVarInt 32) (\<lambda>heightFirst. rd_then (ReadVarInt 32) (\<lambda>heightLast.
     rd_then (ReadVarInt 64) (\<lambda>timeFirst. rd_then (ReadVarInt 64) (\<lambda>timeLast.
     rd_return \<lparr>fi_nBlocks = of_nat blocks, fi_nSize = of_nat sz, fi_nUndoSize = of_nat undoSize,
       fi_nHeightFirst = of_nat heightFirst, fi_nHeightLast = of_nat heightLast,
       fi_nTimeFirst = of_nat timeFirst, fi_nTimeLast = of_nat timeLast\<rparr>)))))))"

subsection \<open>Room for a block\<close>

record BlockFiles =
  vinfoBlockFile :: "CBlockFileInfo list"
  nLastBlockFile :: int
  setDirtyFileInfo :: "int set"
  fCheckForPruning :: bool

definition resize_files :: "nat \<Rightarrow> CBlockFileInfo list \<Rightarrow> CBlockFileInfo list" where
  "resize_files fno vs = (if length vs \<le> fno then vs @ replicate (fno + 1 - length vs) CBlockFileInfo_SetNull else vs)"

definition update_file :: "nat \<Rightarrow> (CBlockFileInfo \<Rightarrow> CBlockFileInfo) \<Rightarrow> BlockFiles \<Rightarrow> BlockFiles" where
  "update_file fno f B = B\<lparr>vinfoBlockFile := (vinfoBlockFile B)[fno := f (vinfoBlockFile B ! fno)]\<rparr>"

definition dirty_file :: "nat \<Rightarrow> BlockFiles \<Rightarrow> BlockFiles" where
  "dirty_file fno B = B\<lparr>setDirtyFileInfo := insert (int fno) (setDirtyFileInfo B)\<rparr>"

text \<open>The loop does not end for a block that is larger than a file.\<close>

partial_function (option) next_file :: "u32 \<Rightarrow> nat \<Rightarrow> CBlockFileInfo list \<Rightarrow> (nat \<times> CBlockFileInfo list) option" where
  "next_file nAddSize fno vs =
     (if fi_nSize (vs ! fno) + nAddSize \<ge> MAX_BLOCKFILE_SIZE
      then next_file nAddSize (fno + 1) (resize_files (fno + 1) vs)
      else Some (fno, vs))"

definition chunks :: "u32 \<Rightarrow> u32 \<Rightarrow> u32" where
  "chunks n chunk = (n + chunk - 1) div chunk"

text \<open>
  A negative number of a known file, which \<open>resize\<close> takes for a size that cannot be allocated, is
  \<open>None\<close>.
\<close>

definition FindBlockPos :: "(u32 \<Rightarrow> bool) \<Rightarrow> bool \<Rightarrow> CDiskBlockPos \<Rightarrow> u32 \<Rightarrow> u32 \<Rightarrow> u64 \<Rightarrow> bool \<Rightarrow> BlockFiles \<Rightarrow>
    (CValidationState \<times> CDiskBlockPos \<times> BlockFiles) option" where
  "FindBlockPos CheckDiskSpace fPruneMode pos nAddSize height time fKnown B =
     (let start = (if fKnown then pos_nFile pos else nLastBlockFile B) in
      if start < 0 then None
      else case (if fKnown then Some (nat start, resize_files (nat start) (vinfoBlockFile B))
                 else next_file nAddSize (nat start) (resize_files (nat start) (vinfoBlockFile B))) of
        None \<Rightarrow> None
      | Some (fno, vs) \<Rightarrow>
          let pos = (if fKnown then pos else \<lparr>pos_nFile = int fno, pos_nPos = fi_nSize (vs ! fno)\<rparr>);
              B = B\<lparr>vinfoBlockFile := vs, nLastBlockFile := int fno\<rparr>;
              B = update_file fno (\<lambda>i. let i = AddBlock height time i in
                    i\<lparr>fi_nSize := (if fKnown then max (pos_nPos pos + nAddSize) (fi_nSize i) else fi_nSize i + nAddSize)\<rparr>) B;
              more = (\<not> fKnown \<and> chunks (fi_nSize (vinfoBlockFile B ! fno)) BLOCKFILE_CHUNK_SIZE >
                        chunks (pos_nPos pos) BLOCKFILE_CHUNK_SIZE);
              B = (if more \<and> fPruneMode then B\<lparr>fCheckForPruning := True\<rparr> else B)
          in if more \<and> \<not> CheckDiskSpace (chunks (fi_nSize (vinfoBlockFile B ! fno)) BLOCKFILE_CHUNK_SIZE * BLOCKFILE_CHUNK_SIZE -
                                pos_nPos pos)
             then Some (state_Error ''out of disk space'' CValidationState_new, pos, B)
             else Some (CValidationState_new, pos, dirty_file fno B))"

subsection \<open>Room for undo data\<close>

definition FindUndoPos :: "(u32 \<Rightarrow> bool) \<Rightarrow> bool \<Rightarrow> CValidationState \<Rightarrow> int \<Rightarrow> u32 \<Rightarrow> BlockFiles \<Rightarrow>
    (CDiskBlockPos option \<times> CValidationState \<times> BlockFiles) option" where
  "FindUndoPos CheckDiskSpace fPruneMode st fno nAddSize B =
     (if fno < 0 \<or> length (vinfoBlockFile B) \<le> nat fno then None
      else let pos = \<lparr>pos_nFile = fno, pos_nPos = fi_nUndoSize (vinfoBlockFile B ! nat fno)\<rparr>;
               nNewSize = fi_nUndoSize (vinfoBlockFile B ! nat fno) + nAddSize;
               B = dirty_file (nat fno) (update_file (nat fno) (\<lambda>i. i\<lparr>fi_nUndoSize := nNewSize\<rparr>) B);
               more = (chunks nNewSize UNDOFILE_CHUNK_SIZE > chunks (pos_nPos pos) UNDOFILE_CHUNK_SIZE);
               B = (if more \<and> fPruneMode then B\<lparr>fCheckForPruning := True\<rparr> else B)
        in if more \<and> \<not> CheckDiskSpace (chunks nNewSize UNDOFILE_CHUNK_SIZE * UNDOFILE_CHUNK_SIZE - pos_nPos pos)
           then Some (None, state_Error ''out of disk space'' st, B)
           else Some (Some pos, st, B))"

subsection \<open>Pruning\<close>

text \<open>The sum of the two sizes of a file is computed with 32 bits before it is added.\<close>

definition CalculateCurrentUsage :: "BlockFiles \<Rightarrow> u64" where
  "CalculateCurrentUsage B = foldl (\<lambda>retval i. retval + ucast (fi_nSize i + fi_nUndoSize i)) 0 (vinfoBlockFile B)"

definition prune_block :: "block_id \<Rightarrow> BlockTree \<Rightarrow> BlockTree" where
  "prune_block p T =
     (let T = set_dirty p (set_block p (\<lambda>b. b\<lparr>nStatus := (nStatus b AND NOT BLOCK_HAVE_DATA) AND NOT BLOCK_HAVE_UNDO,
                nFile := 0, nDataPos := 0, nUndoPos := 0\<rparr>) T)
      in T\<lparr>mapBlocksUnlinked := filter (\<lambda>e. e \<noteq> (pprev (bt_store T p), p)) (mapBlocksUnlinked T)\<rparr>)"

text \<open>\<open>blocks\<close> are the blocks of the index.\<close>

fun prune_blocks :: "int \<Rightarrow> block_id list \<Rightarrow> BlockTree \<Rightarrow> BlockTree" where
  "prune_blocks fileNumber [] T = T"
| "prune_blocks fileNumber (p # ps) T =
     prune_blocks fileNumber ps (if nFile (bt_store T p) = fileNumber then prune_block p T else T)"

definition PruneOneBlockFile :: "block_id list \<Rightarrow> nat \<Rightarrow> BlockTree \<Rightarrow> BlockFiles \<Rightarrow> BlockTree \<times> BlockFiles" where
  "PruneOneBlockFile blocks fileNumber T B =
     (prune_blocks (int fileNumber) blocks T, dirty_file fileNumber (update_file fileNumber (\<lambda>_. CBlockFileInfo_SetNull) B))"

definition prune_buffer :: u64 where
  "prune_buffer = ucast (BLOCKFILE_CHUNK_SIZE + UNDOFILE_CHUNK_SIZE)"

text \<open>The loop over the files below the last one; it reads a file only where there is one.\<close>

fun prune_loop :: "block_id list \<Rightarrow> u64 \<Rightarrow> u32 \<Rightarrow> nat list \<Rightarrow> u64 \<Rightarrow> int set \<Rightarrow> BlockTree \<Rightarrow> BlockFiles \<Rightarrow>
    (int set \<times> BlockTree \<times> BlockFiles) option" where
  "prune_loop blocks nPruneTarget nLastBlockWeCanPrune [] usage setFilesToPrune T B = Some (setFilesToPrune, T, B)"
| "prune_loop blocks nPruneTarget nLastBlockWeCanPrune (f # fs) usage setFilesToPrune T B =
     (if length (vinfoBlockFile B) \<le> f then None
      else let i = vinfoBlockFile B ! f; nBytesToPrune = ucast (fi_nSize i + fi_nUndoSize i) :: u64
        in if fi_nSize i = 0 then prune_loop blocks nPruneTarget nLastBlockWeCanPrune fs usage setFilesToPrune T B
           else if usage + prune_buffer < nPruneTarget then Some (setFilesToPrune, T, B)
           else if fi_nHeightLast i > nLastBlockWeCanPrune
           then prune_loop blocks nPruneTarget nLastBlockWeCanPrune fs usage setFilesToPrune T B
           else let (T, B) = PruneOneBlockFile blocks f T B
             in prune_loop blocks nPruneTarget nLastBlockWeCanPrune fs (usage - nBytesToPrune)
                  (insert (int f) setFilesToPrune) T B)"

definition FindFilesToPrune :: "block_id list \<Rightarrow> u64 \<Rightarrow> int set \<Rightarrow> u64 \<Rightarrow> BlockTree \<Rightarrow> BlockFiles \<Rightarrow>
    (int set \<times> BlockTree \<times> BlockFiles) option" where
  "FindFilesToPrune blocks nPruneTarget setFilesToPrune nPruneAfterHeight T B =
     (case Tip (chainActive T) of
        None \<Rightarrow> Some (setFilesToPrune, T, B)
      | Some tip \<Rightarrow>
          if nPruneTarget = 0 \<or> of_int (nHeight (bt_store T tip)) \<le> nPruneAfterHeight then Some (setFilesToPrune, T, B)
          else let nLastBlockWeCanPrune = of_int (nHeight (bt_store T tip)) - MIN_BLOCKS_TO_KEEP;
                   nCurrentUsage = CalculateCurrentUsage B
            in if nCurrentUsage + prune_buffer \<ge> nPruneTarget
               then prune_loop blocks nPruneTarget nLastBlockWeCanPrune [0 ..< nat (nLastBlockFile B)] nCurrentUsage
                      setFilesToPrune T B
               else Some (setFilesToPrune, T, B))"

subsection \<open>The record of a file is read back\<close>

interpretation file_info_codec: codec Serialize_CBlockFileInfo Unserialize_CBlockFileInfo "\<lambda>_. True"
proof
  fix i rest
  have v: "rd_then (ReadVarInt 64) f (WriteVarInt n @ s) = f n s" if "n < 2 ^ 64" for f :: "nat \<Rightarrow> CBlockFileInfo reader" and n s
    using that by (simp add: rd_then_def ReadVarInt_WriteVarInt)
  have b: "unat (w :: u32) < 2 ^ 32" "unat (w' :: u64) < 2 ^ 64" for w w'
    using unsigned_less [of w] unsigned_less [of w'] by simp_all
  show "Unserialize_CBlockFileInfo (Serialize_CBlockFileInfo i @ rest) = Inr (i, rest)"
    by (simp only: Unserialize_CBlockFileInfo_def Serialize_CBlockFileInfo_def append_assoc varint32 [OF b(1)] v [OF b(2)])
      (simp add: rd_return_def)
qed

subsection \<open>Blocks are stored in places of their own\<close>

text \<open>An area of a file: the number of the file, where it starts and how long it is.\<close>

type_synonym area = "nat \<times> nat \<times> nat"

fun apart :: "area \<Rightarrow> area \<Rightarrow> bool" where
  "apart (f, s, l) (f', s', l') \<longleftrightarrow> f \<noteq> f' \<or> s + l \<le> s' \<or> s' + l' \<le> s"

fun disjoint_areas :: "area list \<Rightarrow> bool" where
  "disjoint_areas [] \<longleftrightarrow> True"
| "disjoint_areas (a # as) \<longleftrightarrow> list_all (apart a) as \<and> disjoint_areas as"

definition areas_ok :: "(CBlockFileInfo \<Rightarrow> u32) \<Rightarrow> CBlockFileInfo list \<Rightarrow> area list \<Rightarrow> bool" where
  "areas_ok used vs A \<longleftrightarrow> list_all (\<lambda>(f, s, l). f < length vs \<and> s + l \<le> unat (used (vs ! f))) A \<and> disjoint_areas A"

definition files_ok :: "BlockFiles \<Rightarrow> bool" where
  "files_ok B \<longleftrightarrow> 0 \<le> nLastBlockFile B \<and> list_all (\<lambda>i. unat (fi_nSize i) < 0x8000000) (vinfoBlockFile B)"

lemma areas_ok_append: "areas_ok used vs A \<Longrightarrow> areas_ok used (vs @ ws) A"
  unfolding areas_ok_def list_all_iff by (auto simp: nth_append)

lemma areas_ok_add:
  assumes "areas_ok used vs A" "f < length vs" "unat (used i) = unat (used (vs ! f)) + l"
  shows "areas_ok used (vs[f := i]) ((f, unat (used (vs ! f)), l) # A)"
proof -
  have old: "f' < length vs" "s + l' \<le> unat (used (vs ! f'))" if "(f', s, l') \<in> set A" for f' s l'
    using assms(1) that by (auto simp: areas_ok_def list_all_iff)
  then have "list_all (apart (f, unat (used (vs ! f)), l)) A" by (auto simp: list_all_iff)
  moreover have "s + l' \<le> unat (used (vs[f := i] ! f'))" if "(f', s, l') \<in> set A" for f' s l'
    using old [OF that] assms(3) by (cases "f' = f") (simp_all add: nth_list_update)
  ultimately show ?thesis using assms old by (auto simp: areas_ok_def list_all_iff)
qed

lemma areas_ok_same: "areas_ok used vs A \<Longrightarrow> used i = used (vs ! f) \<Longrightarrow> areas_ok used (vs[f := i]) A"
proof -
  assume a: "areas_ok used vs A" "used i = used (vs ! f)"
  have "used (vs[f := i] ! f') = used (vs ! f')" if "f' < length vs" for f' using that a(2) by (cases "f' = f") simp_all
  then show ?thesis using a(1) by (fastforce simp: areas_ok_def list_all_iff)
qed

lemma null_size [simp]: "fi_nSize CBlockFileInfo_SetNull = 0"
  by (simp add: CBlockFileInfo_SetNull_def)

lemma resize_files_length: "f < length (resize_files f vs)"
  by (simp add: resize_files_def)

lemma resize_files_append: "\<exists>k. resize_files f vs = vs @ replicate k CBlockFileInfo_SetNull"
  by (cases "length vs \<le> f") (auto simp: resize_files_def intro: exI [of _ 0])

lemma add_size:
  assumes "unat (a :: u32) < 0x8000000" "unat b < 0x8000000"
  shows "unat (a + b) = unat a + unat b"
  using assms by (subst unat_add_lem [THEN iffD1]) simp_all

lemma next_file_ok:
  assumes "list_all (\<lambda>i. unat (fi_nSize i) < 0x8000000) vs" "unat n < 0x8000000" "f < length vs"
  shows "\<exists>f' k. next_file n f vs = Some (f', vs @ replicate k CBlockFileInfo_SetNull) \<and> f' < length vs + k \<and>
    unat (fi_nSize ((vs @ replicate k CBlockFileInfo_SetNull) ! f')) + unat n < 0x8000000"
  using assms(3)
proof (induction "length vs - f" arbitrary: f)
  case (Suc d)
  have size: "unat (fi_nSize (vs ! f)) < 0x8000000" using assms(1) Suc.prems by (simp add: list_all_length)
  have cmp: "fi_nSize (vs ! f) + n \<ge> MAX_BLOCKFILE_SIZE \<longleftrightarrow> \<not> unat (fi_nSize (vs ! f)) + unat n < 0x8000000"
    by (simp add: word_le_nat_alt add_size [OF size assms(2)] MAX_BLOCKFILE_SIZE_def not_less)
  show ?case
  proof (cases "unat (fi_nSize (vs ! f)) + unat n < 0x8000000")
    case True
    then show ?thesis using Suc.prems cmp by (intro exI [of _ f] exI [of _ 0]) (simp add: next_file.simps)
  next
    case False
    then have step: "next_file n f vs = next_file n (f + 1) (resize_files (f + 1) vs)"
      using cmp by (subst next_file.simps) simp
    show ?thesis
    proof (cases "f + 1 < length vs")
      case True
      then have r: "resize_files (f + 1) vs = vs" by (simp add: resize_files_def)
      have "d = length vs - (f + 1)" using Suc.hyps(2) by simp
      from Suc.hyps(1) [OF this True] show ?thesis unfolding step r .
    next
      case False
      then have l: "length vs = f + 1" using Suc.prems by simp
      then have r: "resize_files (f + 1) vs = vs @ replicate 1 CBlockFileInfo_SetNull" "length vs = f + 1"
        by (simp_all add: resize_files_def)
      have "\<not> fi_nSize ((vs @ replicate 1 CBlockFileInfo_SetNull) ! (f + 1)) + n \<ge> MAX_BLOCKFILE_SIZE"
        using assms(2) by (simp add: r(2) nth_append word_le_nat_alt MAX_BLOCKFILE_SIZE_def)
      then have "next_file n (f + 1) (vs @ replicate 1 CBlockFileInfo_SetNull) = Some (f + 1, vs @ replicate 1 CBlockFileInfo_SetNull)"
        by (subst next_file.simps) simp
      then show ?thesis unfolding step r(1) using assms(2) r(2)
        by (intro exI [of _ "f + 1"] exI [of _ 1]) (simp add: nth_append)
    qed
  qed
qed simp

lemma AddBlock_size [simp]:
  "fi_nSize (AddBlock h t i) = fi_nSize i" "fi_nUndoSize (AddBlock h t i) = fi_nUndoSize i"
  by (simp_all add: AddBlock_def Let_def)

text \<open>What a search for room does: a new area at the end of what a file uses.\<close>

lemma FindBlockPos_ok:
  assumes "files_ok B" "areas_ok fi_nSize (vinfoBlockFile B) A" "unat n < 0x8000000"
  shows "\<exists>st pos B' f. FindBlockPos CheckDiskSpace prune pos0 n h t False B = Some (st, pos, B') \<and> files_ok B' \<and>
    pos_nFile pos = int f \<and> areas_ok fi_nSize (vinfoBlockFile B') ((f, unat (pos_nPos pos), unat n) # A) \<and>
    unat (pos_nPos pos) + unat n < 0x8000000"
proof -
  let ?start = "nat (nLastBlockFile B)"
  obtain k where k: "resize_files ?start (vinfoBlockFile B) = vinfoBlockFile B @ replicate k CBlockFileInfo_SetNull"
    using resize_files_append by blast
  have small: "list_all (\<lambda>i. unat (fi_nSize i) < 0x8000000) (resize_files ?start (vinfoBlockFile B))"
    using assms(1) unfolding k by (auto simp: files_ok_def list_all_iff)
  obtain f k' where nf: "next_file n ?start (resize_files ?start (vinfoBlockFile B)) =
        Some (f, resize_files ?start (vinfoBlockFile B) @ replicate k' CBlockFileInfo_SetNull)"
      "f < length (resize_files ?start (vinfoBlockFile B)) + k'"
      "unat (fi_nSize ((resize_files ?start (vinfoBlockFile B) @ replicate k' CBlockFileInfo_SetNull) ! f)) + unat n < 0x8000000"
    using next_file_ok [OF small assms(3) resize_files_length] by blast
  define vs where "vs = resize_files ?start (vinfoBlockFile B) @ replicate k' CBlockFileInfo_SetNull"
  define i where "i = (AddBlock h t (vs ! f))\<lparr>fi_nSize := fi_nSize (vs ! f) + n\<rparr>"
  have vs: "f < length vs" "unat (fi_nSize (vs ! f)) + unat n < 0x8000000"
    "list_all (\<lambda>i. unat (fi_nSize i) < 0x8000000) vs"
    using nf(2,3) small by (auto simp: vs_def list_all_iff)
  have old: "areas_ok fi_nSize vs A"
    using areas_ok_append [OF areas_ok_append [OF assms(2)], of _ "replicate k' CBlockFileInfo_SetNull"] by (simp add: vs_def k)
  have i: "unat (fi_nSize i) = unat (fi_nSize (vs ! f)) + unat n"
    using vs(1-3) assms(3) by (simp add: i_def list_all_length add_size)
  have a: "areas_ok fi_nSize (vs[f := i]) ((f, unat (fi_nSize (vs ! f)), unat n) # A)"
    by (rule areas_ok_add [OF old vs(1) i])
  have l: "list_all (\<lambda>i. unat (fi_nSize i) < 0x8000000) (vs[f := i])"
    using vs i by (auto simp: list_all_length nth_list_update)
  have p: "0 \<le> nLastBlockFile B" using assms(1) by (simp add: files_ok_def)
  have nf': "next_file n ?start (resize_files ?start (vinfoBlockFile B)) = Some (f, vs)" using nf(1) by (simp add: vs_def)
  show ?thesis
    using p a l vs(1,2) unfolding FindBlockPos_def
    by (simp add: nf' Let_def update_file_def dirty_file_def i_def files_ok_def)
qed

text \<open>The areas handed out for a sequence of blocks: their sizes, heights and times.\<close>

fun store_blocks :: "(u32 \<Rightarrow> bool) \<Rightarrow> bool \<Rightarrow> (u32 \<times> u32 \<times> u64) list \<Rightarrow> area list \<Rightarrow> BlockFiles \<Rightarrow> area list option" where
  "store_blocks disk prune [] A B = Some A"
| "store_blocks disk prune ((n, h, t) # requests) A B =
     (case FindBlockPos disk prune CDiskBlockPos_SetNull n h t False B of
        None \<Rightarrow> None
      | Some (st, pos, B) \<Rightarrow>
          store_blocks disk prune requests ((nat (pos_nFile pos), unat (pos_nPos pos), unat n) # A) B)"

lemma store_blocks_ok:
  assumes "files_ok B" "areas_ok fi_nSize (vinfoBlockFile B) A" "list_all (\<lambda>(f, s, l). s + l < 0x8000000) A"
    and "list_all (\<lambda>(n, h, t). unat n < 0x8000000) requests"
  shows "\<exists>A'. store_blocks disk prune requests A B = Some A' \<and> length A' = length A + length requests \<and>
    disjoint_areas A' \<and> list_all (\<lambda>(f, s, l). s + l < 0x8000000) A'"
  using assms
proof (induction requests arbitrary: A B)
  case Nil
  then show ?case by (simp add: areas_ok_def)
next
  case (Cons r requests)
  obtain n h t where r: "r = (n, h, t)" by (cases r)
  have "unat n < 0x8000000" using Cons.prems(4) by (simp add: r)
  from FindBlockPos_ok [OF Cons.prems(1,2) this, of disk prune CDiskBlockPos_SetNull h t] obtain st pos B' f where
    f: "FindBlockPos disk prune CDiskBlockPos_SetNull n h t False B = Some (st, pos, B')" "files_ok B'"
      "pos_nFile pos = int f" "areas_ok fi_nSize (vinfoBlockFile B') ((f, unat (pos_nPos pos), unat n) # A)"
      "unat (pos_nPos pos) + unat n < 0x8000000" by blast
  have "list_all (\<lambda>(f, s, l). s + l < 0x8000000) ((f, unat (pos_nPos pos), unat n) # A)" using Cons.prems(3) f(5) by simp
  from Cons.IH [OF f(2,4) this] Cons.prems(4) show ?case by (auto simp: r f(1,3))
qed

subsection \<open>Pruning keeps what is recent\<close>

definition pruned_index :: "CBlockIndex \<Rightarrow> CBlockIndex" where
  "pruned_index b = b\<lparr>nStatus := (nStatus b AND NOT BLOCK_HAVE_DATA) AND NOT BLOCK_HAVE_UNDO, nFile := 0, nDataPos := 0, nUndoPos := 0\<rparr>"

lemma pruned_index_twice [simp]: "pruned_index (pruned_index b) = pruned_index b"
proof -
  have "(((w AND NOT a) AND NOT b) AND NOT a) AND NOT b = (w AND NOT a) AND NOT b" for w a b :: u32
    by (rule bit_word_eqI) (auto simp: bit_and_iff bit_not_iff)
  then show ?thesis by (simp only: pruned_index_def) simp
qed

lemma prune_block_parts [simp]:
  "bt_store (prune_block p T) = (bt_store T)(p := pruned_index (bt_store T p))"
  "chainActive (prune_block p T) = chainActive T"
  by (simp_all add: prune_block_def Let_def set_dirty_def set_block_def pruned_index_def)

lemma prune_blocks_store:
  "bt_store (prune_blocks f ps T) q =
     (if q \<in> set ps \<and> nFile (bt_store T q) = f then pruned_index (bt_store T q) else bt_store T q)"
  "chainActive (prune_blocks f ps T) = chainActive T"
proof (induction ps arbitrary: T)
  case (Cons p ps)
  have "nFile (pruned_index b) = f \<or> f \<noteq> 0" for b by (simp add: pruned_index_def)
  case 1
  show ?case using Cons(1) [of "if nFile (bt_store T p) = f then prune_block p T else T"] by auto
  case 2
  show ?case using Cons(2) [of "if nFile (bt_store T p) = f then prune_block p T else T"] by auto
qed simp_all

text \<open>
  Every block with data is in a file whose statistics know its height; what pruning the files \<open>R\<close>
  keeps: a block that still has data is unchanged and in no pruned file, and no block above
  \<open>limit\<close> changes.
\<close>

definition heights_ok :: "block_id list \<Rightarrow> block_store \<Rightarrow> CBlockFileInfo list \<Rightarrow> bool" where
  "heights_ok blocks S vs \<longleftrightarrow> (\<forall>p \<in> set blocks. have_data S p \<longrightarrow> 0 \<le> nFile (S p) \<and> nat (nFile (S p)) < length vs \<and>
     nHeight (S p) \<le> uint (fi_nHeightLast (vs ! nat (nFile (S p)))))"

definition prune_keeps :: "block_id list \<Rightarrow> int \<Rightarrow> int set \<Rightarrow> block_store \<Rightarrow> block_store \<Rightarrow> bool" where
  "prune_keeps blocks limit R S S' \<longleftrightarrow> (\<forall>p \<in> set blocks. nHeight (S' p) = nHeight (S p) \<and>
     (have_data S' p \<longrightarrow> S' p = S p \<and> nFile (S p) \<notin> R) \<and> (have_data S p \<longrightarrow> limit < nHeight (S p) \<longrightarrow> S' p = S p))"

lemma have_data_same: "S' p = S p \<Longrightarrow> have_data S' p = have_data S p"
  by (simp add: have_data_def)

lemma prune_keepsD:
  assumes "prune_keeps blocks limit R S S'"
  shows "\<forall>p \<in> set blocks. (have_data S' p \<longrightarrow> S' p = S p \<and> nFile (S p) \<notin> R) \<and>
    (have_data S p \<longrightarrow> limit < nHeight (S p) \<longrightarrow> have_data S' p)"
proof (intro ballI conjI impI)
  fix p assume p: "p \<in> set blocks" "have_data S p" "limit < nHeight (S p)"
  then have "S' p = S p" using assms by (auto simp: prune_keeps_def)
  then show "have_data S' p" using p(2) have_data_same [of S' p S] by blast
qed (use assms in \<open>auto simp: prune_keeps_def\<close>)

lemma prune_keeps_refl: "prune_keeps blocks limit {} S S"
  by (simp add: prune_keeps_def)

lemma prune_keeps_trans:
  assumes "prune_keeps blocks limit R S S1" "prune_keeps blocks limit R1 S1 S2"
  shows "prune_keeps blocks limit (R \<union> R1) S S2"
  unfolding prune_keeps_def
proof (rule ballI)
  fix p assume p: "p \<in> set blocks"
  have 1: "nHeight (S1 p) = nHeight (S p)" "have_data S1 p \<Longrightarrow> S1 p = S p \<and> nFile (S p) \<notin> R"
    "have_data S p \<Longrightarrow> limit < nHeight (S p) \<Longrightarrow> S1 p = S p" using assms(1) p by (auto simp: prune_keeps_def)
  have 2: "nHeight (S2 p) = nHeight (S1 p)" "have_data S2 p \<Longrightarrow> S2 p = S1 p \<and> nFile (S1 p) \<notin> R1"
    "have_data S1 p \<Longrightarrow> limit < nHeight (S1 p) \<Longrightarrow> S2 p = S1 p" using assms(2) p by (auto simp: prune_keeps_def)
  show "nHeight (S2 p) = nHeight (S p) \<and> (have_data S2 p \<longrightarrow> S2 p = S p \<and> nFile (S p) \<notin> R \<union> R1) \<and>
      (have_data S p \<longrightarrow> limit < nHeight (S p) \<longrightarrow> S2 p = S p)"
  proof (intro conjI impI)
    assume d: "have_data S2 p"
    then have s: "S2 p = S1 p" "nFile (S1 p) \<notin> R1" using 2(2) by blast+
    then have "have_data S1 p" using d have_data_same [of S2 p S1] by blast
    then have "S1 p = S p" "nFile (S p) \<notin> R" using 1(2) by blast+
    then show "S2 p = S p" "nFile (S p) \<notin> R \<union> R1" using s by simp_all
  next
    assume d: "have_data S p" "limit < nHeight (S p)"
    then have s: "S1 p = S p" using 1(3) by blast
    then have "have_data S1 p" using d have_data_same [of S1 p S] by blast
    then show "S2 p = S p" using s d 2(3) 1(1) by simp
  qed (simp add: 1(1) 2(1))
qed

lemma PruneOneBlockFile_keeps:
  assumes "heights_ok blocks (bt_store T) (vinfoBlockFile B)" "f < length (vinfoBlockFile B)"
    and "uint (fi_nHeightLast (vinfoBlockFile B ! f)) \<le> limit" "PruneOneBlockFile blocks f T B = (T', B')"
  shows "prune_keeps blocks limit {int f} (bt_store T) (bt_store T') \<and> heights_ok blocks (bt_store T') (vinfoBlockFile B') \<and>
    chainActive T' = chainActive T \<and> length (vinfoBlockFile B') = length (vinfoBlockFile B) \<and> nLastBlockFile B' = nLastBlockFile B"
proof -
  have t: "T' = prune_blocks (int f) blocks T" "vinfoBlockFile B' = (vinfoBlockFile B)[f := CBlockFileInfo_SetNull]"
    "nLastBlockFile B' = nLastBlockFile B"
    using assms(4) by (auto simp: PruneOneBlockFile_def dirty_file_def update_file_def)
  have gone: "\<not> have_data S p" if "S p = pruned_index b" for S p b
    using that by (auto simp: have_data_def pruned_index_def bit_eq_iff bit_simps)
  note store = prune_blocks_store(1) [of "int f" blocks T, folded t(1)]
  have keep: "nHeight (bt_store T' p) = nHeight (bt_store T p) \<and>
      (have_data (bt_store T') p \<longrightarrow> bt_store T' p = bt_store T p \<and> nFile (bt_store T p) \<noteq> int f) \<and>
      (have_data (bt_store T) p \<longrightarrow> limit < nHeight (bt_store T p) \<longrightarrow> bt_store T' p = bt_store T p)" if "p \<in> set blocks" for p
  proof (cases "nFile (bt_store T p) = int f")
    case True
    then have e: "bt_store T' p = pruned_index (bt_store T p)" using store [of p] that by simp
    have "\<not> limit < nHeight (bt_store T p)" if "have_data (bt_store T) p"
      using assms(1,3) that \<open>p \<in> set blocks\<close> True by (auto simp: heights_ok_def)
    then show ?thesis using gone [of "bt_store T'", OF e] e by (auto simp: pruned_index_def)
  next
    case False
    then show ?thesis using store [of p] by simp
  qed
  have "heights_ok blocks (bt_store T') (vinfoBlockFile B')"
    unfolding heights_ok_def
  proof (intro ballI impI)
    fix p assume p: "p \<in> set blocks" "have_data (bt_store T') p"
    then have "bt_store T' p = bt_store T p" "nFile (bt_store T p) \<noteq> int f" using keep by auto
    then show "0 \<le> nFile (bt_store T' p) \<and> nat (nFile (bt_store T' p)) < length (vinfoBlockFile B') \<and>
        nHeight (bt_store T' p) \<le> uint (fi_nHeightLast (vinfoBlockFile B' ! nat (nFile (bt_store T' p))))"
      using assms(1) p have_data_same [of "bt_store T'" p "bt_store T"] unfolding t(2) heights_ok_def
      by (cases "nat (nFile (bt_store T p)) = f") auto
  qed
  then show ?thesis using keep t prune_blocks_store(2) by (simp add: prune_keeps_def)
qed

lemma prune_loop_keeps:
  assumes "heights_ok blocks (bt_store T) (vinfoBlockFile B)" "list_all (\<lambda>f. f < length (vinfoBlockFile B)) fs"
  shows "\<exists>R T' B'. prune_loop blocks target limit fs usage R0 T B = Some (R0 \<union> R, T', B') \<and>
    prune_keeps blocks (uint limit) R (bt_store T) (bt_store T') \<and> chainActive T' = chainActive T"
  using assms
proof (induction fs arbitrary: usage R0 T B)
  case Nil
  then show ?case using prune_keeps_refl by (auto intro: exI [of _ "{}"])
next
  case (Cons f fs)
  let ?i = "vinfoBlockFile B ! f"
  have rest: "\<exists>R T' B'. prune_loop blocks target limit fs u R0 T B = Some (R0 \<union> R, T', B') \<and>
    prune_keeps blocks (uint limit) R (bt_store T) (bt_store T') \<and> chainActive T' = chainActive T" for u
    using Cons by simp
  have f: "f < length (vinfoBlockFile B)" using Cons.prems(2) by simp
  consider "fi_nSize ?i = 0 \<or> \<not> usage + prune_buffer < target \<and> fi_nHeightLast ?i > limit" | "fi_nSize ?i \<noteq> 0" "usage + prune_buffer < target"
    | "fi_nSize ?i \<noteq> 0" "\<not> usage + prune_buffer < target" "fi_nHeightLast ?i \<le> limit" by force
  then show ?case
  proof cases
    case 1
    then show ?thesis using rest [of usage] f by (auto simp: Let_def)
  next
    case 2
    then show ?thesis using prune_keeps_refl f by (auto intro: exI [of _ "{}"])
  next
    case 3
    obtain T1 B1 where p: "PruneOneBlockFile blocks f T B = (T1, B1)" by force
    have low: "uint (fi_nHeightLast ?i) \<le> uint limit" using 3(3) by (simp add: word_le_def)
    have nl: "\<not> fi_nHeightLast ?i > limit" using 3(3) by (rule leD)
    note k = PruneOneBlockFile_keeps [OF Cons.prems(1) f low p]
    have l: "list_all (\<lambda>f. f < length (vinfoBlockFile B1)) fs" using k Cons.prems(2) by simp
    from k Cons.IH [OF _ l, of T1 "usage - ucast (fi_nSize ?i + fi_nUndoSize ?i)" "insert (int f) R0"] obtain R T' B' where
      r: "prune_loop blocks target limit fs (usage - ucast (fi_nSize ?i + fi_nUndoSize ?i)) (insert (int f) R0) T1 B1 =
          Some (insert (int f) R0 \<union> R, T', B')"
        "prune_keeps blocks (uint limit) R (bt_store T1) (bt_store T')" "chainActive T' = chainActive T1" by blast
    have e: "insert (int f) R0 \<union> R = R0 \<union> ({int f} \<union> R)" by auto
    have "prune_keeps blocks (uint limit) ({int f} \<union> R) (bt_store T) (bt_store T')"
      using prune_keeps_trans k r(2) by blast
    moreover have "prune_loop blocks target limit (f # fs) usage R0 T B = Some (R0 \<union> ({int f} \<union> R), T', B')"
      unfolding e [symmetric] using f 3(1,2) nl p r(1) by (simp add: Let_def)
    ultimately show ?thesis using r(3) k by auto
  qed
qed

text \<open>
  C15. Blocks are stored in places of their own: the positions that \<open>FindBlockPos\<close> gives to any
  sequence of blocks smaller than a file are pairwise disjoint areas, all inside the size of a
  file, whatever the disk says, and the search for a file ends.
\<close>

theorem FindBlockPos_areas_disjoint:
  assumes "list_all (\<lambda>(n, h, t). unat n < 0x8000000) requests"
  shows "\<exists>A. store_blocks disk prune requests [] \<lparr>vinfoBlockFile = [], nLastBlockFile = 0, setDirtyFileInfo = {}, fCheckForPruning = False\<rparr> = Some A \<and>
    length A = length requests \<and> disjoint_areas A \<and> list_all (\<lambda>(f, s, l). s + l < 0x8000000) A"
proof -
  let ?B = "\<lparr>vinfoBlockFile = [], nLastBlockFile = 0, setDirtyFileInfo = {}, fCheckForPruning = False\<rparr>"
  have "files_ok ?B" "areas_ok fi_nSize (vinfoBlockFile ?B) []" by (simp_all add: files_ok_def areas_ok_def)
  from store_blocks_ok [OF this _ assms] show ?thesis by simp
qed

lemma FindBlockPos_areas_disjoint_witness:
  "\<exists>A. store_blocks (\<lambda>_. True) False [(100, 0, 7), (200, 1, 9)] [] \<lparr>vinfoBlockFile = [], nLastBlockFile = 0, setDirtyFileInfo = {}, fCheckForPruning = False\<rparr> = Some A \<and>
     length A = 2 \<and> disjoint_areas A"
  using FindBlockPos_areas_disjoint [of "[(100, 0, 7), (200, 1, 9)]" "\<lambda>_. True" False] by auto

text \<open>
  C14. Pruning is safe where the network asks for at least 288 blocks before it starts: it returns,
  none of the last 288 blocks up to the tip loses its data, and every block that still
  has data is unchanged and in none of the files that will be removed.
\<close>

theorem FindFilesToPrune_keeps_recent:
  assumes "heights_ok blocks (bt_store T) (vinfoBlockFile B)" "nLastBlockFile B \<le> int (length (vinfoBlockFile B))"
    and "Tip (chainActive T) = Some tip" "0 \<le> nHeight (bt_store T tip)" "nHeight (bt_store T tip) < 2 ^ 31" "288 \<le> nPruneAfterHeight"
  shows "\<exists>R T' B'. FindFilesToPrune blocks nPruneTarget {} nPruneAfterHeight T B = Some (R, T', B') \<and> chainActive T' = chainActive T \<and>
    (\<forall>p \<in> set blocks. (have_data (bt_store T') p \<longrightarrow> bt_store T' p = bt_store T p \<and> nFile (bt_store T p) \<notin> R) \<and>
       (have_data (bt_store T) p \<longrightarrow> nHeight (bt_store T tip) - 288 < nHeight (bt_store T p) \<longrightarrow> have_data (bt_store T') p))"
proof -
  let ?h = "nHeight (bt_store T tip)" and ?limit = "of_int (nHeight (bt_store T tip)) - MIN_BLOCKS_TO_KEEP :: u32"
  have same: "\<exists>R T' B'. Some ({}, T, B) = Some (R, T', B') \<and> chainActive T' = chainActive T \<and>
      prune_keeps blocks (?h - 288) R (bt_store T) (bt_store T')" using prune_keeps_refl by blast
  have "\<exists>R T' B'. FindFilesToPrune blocks nPruneTarget {} nPruneAfterHeight T B = Some (R, T', B') \<and> chainActive T' = chainActive T \<and>
      prune_keeps blocks (?h - 288) R (bt_store T) (bt_store T')"
  proof (cases "nPruneTarget = 0 \<or> of_int ?h \<le> nPruneAfterHeight \<or> \<not> CalculateCurrentUsage B + prune_buffer \<ge> nPruneTarget")
    case True
    then show ?thesis using same assms(3) by (auto simp: FindFilesToPrune_def Let_def)
  next
    case False
    have "uint (288 :: u64) \<le> uint nPruneAfterHeight" "uint nPruneAfterHeight < uint (of_int ?h :: u64)"
      using assms(6) False by (simp_all add: word_le_def word_less_def not_le)
    moreover have "uint (of_int ?h :: u64) = ?h" "uint (of_int ?h :: u32) = ?h"
      using assms(4,5) by (simp_all add: uint_word_of_int_eq take_bit_eq_mod)
    ultimately have "uint ?limit = ?h - 288"
      by (subst uint_sub_lem [THEN iffD1]) (simp_all add: MIN_BLOCKS_TO_KEEP_def)
    moreover have "list_all (\<lambda>f. f < length (vinfoBlockFile B)) [0 ..< nat (nLastBlockFile B)]"
      using assms(2) by (auto simp: list_all_iff)
    from prune_loop_keeps [OF assms(1) this, of nPruneTarget ?limit "CalculateCurrentUsage B" "{}"]
    obtain R T' B' where "prune_loop blocks nPruneTarget ?limit [0 ..< nat (nLastBlockFile B)] (CalculateCurrentUsage B) {} T B = Some (R, T', B')"
      "prune_keeps blocks (uint ?limit) R (bt_store T) (bt_store T')" "chainActive T' = chainActive T" by auto
    ultimately show ?thesis using False assms(3) by (auto simp: FindFilesToPrune_def Let_def)
  qed
  then show ?thesis using prune_keepsD by blast
qed

text \<open>Block 10 is in file 0, the tip, block 1001, in file 1.\<close>

definition stored_tree :: BlockTree where
  "stored_tree = sample_tree\<lparr>bt_store := (\<lambda>p. (sample_store p)\<lparr>nStatus := 11, nFile := (if p = 10 then 0 else 1)\<rparr>),
     chainActive := [Some 1001]\<rparr>"

definition stored_files :: BlockFiles where
  "stored_files = \<lparr>vinfoBlockFile = [CBlockFileInfo_SetNull\<lparr>fi_nSize := 1000, fi_nHeightLast := 10\<rparr>,
       CBlockFileInfo_SetNull\<lparr>fi_nSize := 1000, fi_nHeightLast := 1001\<rparr>],
     nLastBlockFile = 1, setDirtyFileInfo = {}, fCheckForPruning = False\<rparr>"

lemma FindFilesToPrune_keeps_recent_witness:
  "\<exists>R T' B'. FindFilesToPrune [10, 1001] 1 {} 1000 stored_tree stored_files = Some (R, T', B') \<and> have_data (bt_store T') 1001"
proof -
  have p: "have_data (bt_store stored_tree) q" "nHeight (bt_store stored_tree q) = int q"
    "nFile (bt_store stored_tree q) = (if q = 10 then 0 else 1)" for q
    by (simp_all add: stored_tree_def have_data_def BLOCK_HAVE_DATA_def sample_store_def)
  have h: "heights_ok [10, 1001] (bt_store stored_tree) (vinfoBlockFile stored_files)"
    by (simp add: heights_ok_def p) (simp add: stored_files_def)
  have t: "Tip (chainActive stored_tree) = Some 1001" by (simp add: stored_tree_def Tip_def)
  from FindFilesToPrune_keeps_recent [OF h _ t, of 1000 1] show ?thesis
    by (auto simp: p stored_files_def)
qed

end
