(* ===== verification/ConnectBlock.thy ===== *)
theory ConnectBlock
  imports BlockFiles Connect Rewards ClaimMerkle
begin

text \<open>
  \<open>ConnectBlock\<close> (\<open>main.cpp\<close>): a block is checked against the coins and the chain it is connected to,
  its coins and claims move, its coinbase is held to the reward, and its undo data is written.  The
  indexes by address, spending and time are off, as by default; timing and notifications are left
  out.  \<open>None\<close> is a failed assertion, an exception or a null pointer that is followed.
\<close>

unbundle bit_operations_syntax

subsection \<open>Parameters\<close>

text \<open>The constants of a network.\<close>

record CChainParams =
  cp_consensus :: Params
  cp_majority :: MajorityParams
  cp_deployments :: DeploymentParams
  cp_rewards :: RewardParams
  cp_hashGenesisBlock :: uint256
  cp_BIP34Height :: int
  cp_BIP34Hash :: uint256
  cp_checkpoints :: MapCheckpoints
  cp_prefixes :: "Base58Type \<Rightarrow> bytes"

text \<open>
  What the check of a block asks of the rest of the node: the hash of a header, the clock, the lock
  of outputs by instant transactions, the scripts and their worker threads, the votes on
  superblocks, the check of the payee, the disk, and whether the index of transactions was written.
\<close>

record NodeContext =
  nc_GetHash :: "CBlockHeader \<Rightarrow> uint256"
  nc_adjusted_time :: int
  nc_block_filtering :: bool
  nc_locked :: "COutPoint \<Rightarrow> uint256 option"
  nc_checker :: "CTransaction \<Rightarrow> nat \<Rightarrow> bool \<Rightarrow> SignatureChecker"
  nc_threads :: bool
  nc_checkpoints :: bool
  nc_rewards :: block_context
  nc_IsBlockPayeeValid :: "CTransaction \<Rightarrow> int \<Rightarrow> CAmount \<Rightarrow> bool"
  nc_fully_valid :: "bytes \<Rightarrow> bool"
  nc_CheckDiskSpace :: "u32 \<Rightarrow> bool"
  nc_fPruneMode :: bool
  nc_UndoWriteToDisk :: "CBlockUndo \<Rightarrow> CDiskBlockPos \<Rightarrow> CDiskBlockPos option"
  nc_WriteTxIndex :: bool

subsection \<open>What is enforced\<close>

definition early_duplicates :: "(int \<times> uint256) list" where
  "early_duplicates =
     [(91842, uint256S ''0x00000000000a4d0a398161ffc163c503763b1f4360639393e0e4c8e300e0caec''),
      (91880, uint256S ''0x00000000000743f190a18c5577a3c2d2a1f610ae9601ac046a38084ccb7cd721'')]"

text \<open>\<open>hashed\<close> says that the block has its hash, which a block that is being made has not.\<close>

definition EnforceBIP30 :: "CChainParams \<Rightarrow> block_store \<Rightarrow> block_id \<Rightarrow> bool \<Rightarrow> bool option" where
  "EnforceBIP30 cp S p hashed =
     (let enforce = (\<not> hashed \<or> (nHeight (S p), phashBlock (S p)) \<notin> set early_duplicates) in
      case pprev (S p) of
        None \<Rightarrow> None
      | Some prev \<Rightarrow>
          map_option (\<lambda>a. enforce \<and> (case a of None \<Rightarrow> True | Some q \<Rightarrow> phashBlock (S q) \<noteq> cp_BIP34Hash cp))
            (GetAncestor S prev (cp_BIP34Height cp)))"

text \<open>Whether a transaction of the block would overwrite coins.\<close>

fun overwrites :: "CTransaction list \<Rightarrow> CCoinsViewCache \<Rightarrow> CCoinsView \<Rightarrow> bool \<times> CCoinsViewCache \<times> CCoinsView" where
  "overwrites [] c below = (False, c, below)"
| "overwrites (tx # txs) c below =
     (case AccessCoins (CTransaction_GetHash tx) c below of
        (None, c, below) \<Rightarrow> overwrites txs c below
      | (Some coins, c, below) \<Rightarrow> if \<not> IsPruned coins then (True, c, below) else overwrites txs c below)"

definition BIP16SwitchTime :: int where "BIP16SwitchTime = 1333238400"

definition strict_p2sh :: "block_store \<Rightarrow> block_id \<Rightarrow> bool" where
  "strict_p2sh S p \<longleftrightarrow> uint (nTime (S p)) \<ge> BIP16SwitchTime"

text \<open>The flags of the scripts and of the lock times.\<close>

definition block_flags :: "CChainParams \<Rightarrow> block_store \<Rightarrow> block_id \<Rightarrow> CBlock \<Rightarrow> VersionBitsCache \<Rightarrow>
    (u32 \<times> int \<times> VersionBitsCache) option" where
  "block_flags cp S p block cch =
     (let M = cp_majority cp;
          version = sint (hdr_nVersion (blk_header block));
          flags = (if strict_p2sh S p then flag_word [SCRIPT_VERIFY_P2SH] else 0);
          flags = (if version \<ge> 3 \<and> IsSuperMajority S M 3 (pprev (S p)) (nMajorityEnforceBlockUpgrade M)
                   then flags OR flag_word [SCRIPT_VERIFY_DERSIG] else flags);
          flags = (if version \<ge> 4 \<and> IsSuperMajority S M 4 (pprev (S p)) (nMajorityEnforceBlockUpgrade M)
                   then flags OR flag_word [SCRIPT_VERIFY_CHECKLOCKTIMEVERIFY] else flags)
      in map_option (\<lambda>(state, cch).
           if state = THRESHOLD_ACTIVE
           then (flags OR flag_word [SCRIPT_VERIFY_CHECKSEQUENCEVERIFY], push_bit LOCKTIME_VERIFY_SEQUENCE 1, cch)
           else (flags, 0, cch))
         (VersionBitsState S (pprev (S p)) (cp_deployments cp) DEPLOYMENT_CSV cch))"

text \<open>Script checks are skipped for an ancestor of the last checkpoint.\<close>

definition script_checks_needed :: "CChainParams \<Rightarrow> NodeContext \<Rightarrow> block_store \<Rightarrow> (uint256 \<Rightarrow> block_id option) \<Rightarrow> block_id \<Rightarrow> bool option" where
  "script_checks_needed cp N S mapBlockIndex p =
     (if \<not> nc_checkpoints N then Some True
      else case GetLastCheckpoint mapBlockIndex (cp_checkpoints cp) of
        None \<Rightarrow> Some True
      | Some q \<Rightarrow> map_option (\<lambda>a. a \<noteq> Some p) (GetAncestor S q (nHeight (S p))))"

subsection \<open>One transaction\<close>

text \<open>The heights of the coins that a transaction spends.\<close>

fun prev_heights :: "CTxIn list \<Rightarrow> CCoinsViewCache \<Rightarrow> CCoinsView \<Rightarrow> (int list \<times> CCoinsViewCache \<times> CCoinsView) option" where
  "prev_heights [] c below = Some ([], c, below)"
| "prev_heights (i # is) c below =
     (case AccessCoins (op_hash (prevout i)) c below of
        (None, c, below) \<Rightarrow> None
      | (Some coins, c, below) \<Rightarrow>
          map_option (\<lambda>(hs, c, below). (coins_nHeight coins # hs, c, below)) (prev_heights is c below))"

text \<open>
  The checks of a transaction that is not a coinbase, in the order of the code.  The result is the
  reason for a rejection or the new sums of fees and signature operations, the script checks that
  are left to the workers, and the view.
\<close>

definition check_spending :: "NodeContext \<Rightarrow> block_store \<Rightarrow> (uint256 \<Rightarrow> block_id option) \<Rightarrow> block_id \<Rightarrow> bool \<Rightarrow> bool \<Rightarrow> u32 \<Rightarrow> int \<Rightarrow>
    CTransaction \<Rightarrow> CAmount \<Rightarrow> nat \<Rightarrow> CCoinsViewCache \<Rightarrow> CCoinsView \<Rightarrow>
    (CValidationState + CAmount \<times> nat \<times> CScriptCheck list \<times> CCoinsViewCache \<times> CCoinsView) option" where
  "check_spending N S mapBlockIndex p fScriptChecks fJustCheck flags nLockTimeFlags tx nFees nSigOps c below =
     (case HaveInputs tx c below of
        (False, c, below) \<Rightarrow> Some (Inl (reject 100 REJECT_INVALID ''bad-txns-inputs-missingorspent''))
      | (True, c, below) \<Rightarrow>
     (case prev_heights (vin tx) c below of None \<Rightarrow> None
      | Some (prevheights, c, below) \<Rightarrow>
     (case SequenceLocks S tx nLockTimeFlags prevheights p of None \<Rightarrow> None
      | Some (False, _) \<Rightarrow> Some (Inl (reject 100 REJECT_INVALID ''bad-txns-nonfinal''))
      | Some (True, _) \<Rightarrow>
     (case (if strict_p2sh S p
            then map_option (\<lambda>(n, c, below). (nSigOps + n, c, below)) (GetP2SHSigOpCount tx c below)
            else Some (nSigOps, c, below)) of None \<Rightarrow> None
      | Some (nSigOps, c, below) \<Rightarrow>
          if strict_p2sh S p \<and> nSigOps > MAX_BLOCK_SIGOPS then Some (Inl (reject 100 REJECT_INVALID ''bad-blk-sigops''))
          else
     (case GetValueIn tx c below of None \<Rightarrow> None
      | Some (valueIn, c, below) \<Rightarrow>
     (case GetValueOut tx of None \<Rightarrow> None
      | Some valueOut \<Rightarrow>
     (case CheckInputs (nc_checker N) S mapBlockIndex tx fScriptChecks flags fJustCheck
             (if nc_threads N then Some [] else None) c below of None \<Rightarrow> None
      | Some (st, pvChecks, c, below) \<Rightarrow>
          if \<not> state_IsValid st then Some (Inl st)
          else Some (Inr (nFees + (valueIn - valueOut), nSigOps, case pvChecks of Some checks \<Rightarrow> checks | None \<Rightarrow> [], c, below)))))))))"

text \<open>The loop over the transactions: fees, signature operations, script checks, and what has been connected.\<close>

type_synonym BlockRun = "CAmount \<times> nat \<times> CScriptCheck list \<times> ConnectState"

fun connect_loop :: "NodeContext \<Rightarrow> block_store \<Rightarrow> (uint256 \<Rightarrow> block_id option) \<Rightarrow> block_id \<Rightarrow> bool \<Rightarrow> bool \<Rightarrow> u32 \<Rightarrow> int \<Rightarrow>
    nat \<Rightarrow> CTransaction list \<Rightarrow> BlockRun \<Rightarrow> (CValidationState + BlockRun) option" where
  "connect_loop N S mapBlockIndex p fScriptChecks fJustCheck flags nLockTimeFlags i [] run = Some (Inr run)"
| "connect_loop N S mapBlockIndex p fScriptChecks fJustCheck flags nLockTimeFlags i (tx # txs) run =
     (case run of (nFees, nSigOps, control, vtxu, c, below, trie) \<Rightarrow>
      let nSigOps = nSigOps + GetLegacySigOpCount tx in
      if nSigOps > MAX_BLOCK_SIGOPS then Some (Inl (reject 100 REJECT_INVALID ''bad-blk-sigops''))
      else case (if IsCoinBase tx then Some (Inr (nFees, nSigOps, [], c, below))
                 else check_spending N S mapBlockIndex p fScriptChecks fJustCheck flags nLockTimeFlags tx nFees nSigOps c below) of
        None \<Rightarrow> None
      | Some (Inl st) \<Rightarrow> Some (Inl st)
      | Some (Inr (nFees, nSigOps, vChecks, c, below)) \<Rightarrow>
     (case connect_tx i tx (nHeight (S p)) (vtxu, c, below, trie) of
        None \<Rightarrow> None
      | Some cs \<Rightarrow> connect_loop N S mapBlockIndex p fScriptChecks fJustCheck flags nLockTimeFlags (i + 1) txs
          (nFees, nSigOps, control @ vChecks, cs)))"

subsection \<open>The end of a block\<close>

text \<open>
  The script checks that were queued: all are run, and every one has to succeed.  Without workers,
  or when script checks are skipped, there is no queue.
\<close>

definition control_Wait :: "NodeContext \<Rightarrow> bool \<Rightarrow> CScriptCheck list \<Rightarrow> bool option" where
  "control_Wait N fScriptChecks control =
     (if \<not> (fScriptChecks \<and> nc_threads N) then Some True
      else if list_ex (\<lambda>check. CScriptCheck_Verify (nc_checker N) check = None) control then None
      else Some (list_all (\<lambda>check. CScriptCheck_Verify (nc_checker N) check = Some SCRIPT_ERR_OK) control))"

definition check_payments :: "CChainParams \<Rightarrow> NodeContext \<Rightarrow> CBlock \<Rightarrow> int \<Rightarrow> CAmount \<Rightarrow> CValidationState option" where
  "check_payments cp N block height nFees =
     (let blockReward = nFees + GetBlockSubsidy height (cp_rewards cp) in
      case IsBlockValueValid (cp_prefixes cp) (cp_rewards cp) (nc_rewards N) block height blockReward of
        None \<Rightarrow> None
      | Some False \<Rightarrow> Some (reject 0 REJECT_INVALID ''bad-cb-amount'')
      | Some True \<Rightarrow>
          if \<not> nc_IsBlockPayeeValid N (vtx block ! 0) height blockReward
          then Some (reject 0 REJECT_INVALID ''bad-cb-payee'') else Some CValidationState_new)"

text \<open>
  Writing the undo data and marking the block; a failure is an error, not an invalid block.
\<close>

definition write_undo :: "NodeContext \<Rightarrow> block_id \<Rightarrow> CBlockUndo \<Rightarrow> BlockTree \<Rightarrow> BlockFiles \<Rightarrow>
    (CValidationState \<times> BlockTree \<times> BlockFiles) option" where
  "write_undo N p blockundo T B =
     (let st = CValidationState_new;
          finish = (\<lambda>T B. map_option (\<lambda>(b, _). (st, set_dirty p (set_block p (\<lambda>_. b) T), B))
                      (RaiseValidity (bt_store T p) BLOCK_VALID_SCRIPTS)) in
      case IsValid (bt_store T p) BLOCK_VALID_SCRIPTS of None \<Rightarrow> None
      | Some valid \<Rightarrow>
      if \<not> CDiskBlockPos_IsNull (GetUndoPos (bt_store T p)) \<and> valid then Some (st, T, B)
      else if \<not> CDiskBlockPos_IsNull (GetUndoPos (bt_store T p)) then finish T B
      else case Serialize_CBlockUndo (nc_fully_valid N) blockundo of None \<Rightarrow> None
      | Some bytes \<Rightarrow>
     (case FindUndoPos (nc_CheckDiskSpace N) (nc_fPruneMode N) st (nFile (bt_store T p)) (of_nat (length bytes) + 40) B of
        None \<Rightarrow> None
      | Some (None, st, B) \<Rightarrow> Some (st, T, B)
      | Some (Some pos, st, B) \<Rightarrow>
     (case nc_UndoWriteToDisk N blockundo pos of
        None \<Rightarrow> Some (state_Error ''Failed to write undo data'' st, T, B)
      | Some pos \<Rightarrow> finish (set_block p (\<lambda>b. b\<lparr>nUndoPos := pos_nPos pos, nStatus := nStatus b OR BLOCK_HAVE_UNDO\<rparr>) T) B)))"

subsection \<open>Connecting a block\<close>

text \<open>
  The last part of the result is the view, the trie and the undo data after the block; it is missing
  when the block is not connected, for then every caller drops its caches.
\<close>

type_synonym ConnectResult = "CValidationState \<times> VersionBitsCache \<times> BlockTree \<times> BlockFiles \<times>
  (CCoinsViewCache \<times> CCoinsView \<times> CClaimTrieCache \<times> CBlockUndo) option"

definition connect_transactions :: "CChainParams \<Rightarrow> NodeContext \<Rightarrow> block_store \<Rightarrow> (uint256 \<Rightarrow> block_id option) \<Rightarrow> CBlock \<Rightarrow> block_id \<Rightarrow> bool \<Rightarrow> bool \<Rightarrow>
    VersionBitsCache \<Rightarrow> CCoinsViewCache \<Rightarrow> CCoinsView \<Rightarrow> CClaimTrieCache \<Rightarrow>
    (CValidationState \<times> VersionBitsCache \<times> (CCoinsViewCache \<times> CCoinsView \<times> CClaimTrieCache \<times> CBlockUndo) option) option" where
  "connect_transactions cp N S mapBlockIndex block p hashed fJustCheck cch c below trie =
     (case script_checks_needed cp N S mapBlockIndex p of None \<Rightarrow> None
      | Some fScriptChecks \<Rightarrow>
     (case EnforceBIP30 cp S p hashed of None \<Rightarrow> None
      | Some fEnforceBIP30 \<Rightarrow>
     (case (if fEnforceBIP30 then overwrites (vtx block) c below else (False, c, below)) of
        (True, c, below) \<Rightarrow> Some (reject 100 REJECT_INVALID ''bad-txns-BIP30'', cch, None)
      | (False, c, below) \<Rightarrow>
     (case block_flags cp S p block cch of None \<Rightarrow> None
      | Some (flags, nLockTimeFlags, cch) \<Rightarrow>
     (case connect_loop N S mapBlockIndex p fScriptChecks fJustCheck flags nLockTimeFlags 0 (vtx block) (0, 0, [], [], c, below, trie) of
        None \<Rightarrow> None
      | Some (Inl st) \<Rightarrow> Some (st, cch, None)
      | Some (Inr (nFees, nSigOps, control, vtxu, c, below, trie)) \<Rightarrow>
     (case incrementBlock trie no_undo of
        (trie, undo, False) \<Rightarrow> None
      | (trie, undo, True) \<Rightarrow>
     (case check_payments cp N block (nHeight (S p)) nFees of None \<Rightarrow> None
      | Some st \<Rightarrow>
          if \<not> state_IsValid st then Some (st, cch, None)
          else case control_Wait N fScriptChecks control of None \<Rightarrow> None
          | Some False \<Rightarrow> Some (reject 100 0 [], cch, None)
          | Some True \<Rightarrow> Some (st, cch, Some (c, below, trie, \<lparr>vtxundo = vtxu, claim_undo = undo\<rparr>)))))))))"

definition ConnectBlock :: "CChainParams \<Rightarrow> NodeContext \<Rightarrow> CBlock \<Rightarrow> bool \<Rightarrow> block_id \<Rightarrow> bool \<Rightarrow> bool \<Rightarrow>
    VersionBitsCache \<Rightarrow> CCoinsViewCache \<Rightarrow> CCoinsView \<Rightarrow> CClaimTrieCache \<Rightarrow> BlockTree \<Rightarrow> BlockFiles \<Rightarrow> ConnectResult option" where
  "ConnectBlock cp N block fChecked p hashed fJustCheck cch c below trie T B =
     (let S = bt_store T;
          (st, fc, lk) = CheckBlock (nc_GetHash N) (cp_consensus cp) (nc_adjusted_time N) (nc_block_filtering N) (nc_locked N)
            block fChecked (\<not> fJustCheck) (\<not> fJustCheck) in
      if \<not> state_IsValid st then Some (st, cch, T, B, None)
      else case GetBestBlock (CoinsCache c below) of
        (best, CoinsCache c below) \<Rightarrow>
      if (case pprev (S p) of None \<Rightarrow> blob_SetNull 256 | Some q \<Rightarrow> phashBlock (S q)) \<noteq> best then None
      else if nc_GetHash N (blk_header block) = cp_hashGenesisBlock cp
      then Some (st, cch, T, B, Some (if fJustCheck then c else SetBestBlock (phashBlock (S p)) c, below, trie,
             \<lparr>vtxundo = [], claim_undo = no_undo\<rparr>))
      else (case connect_transactions cp N S (bt_index T) block p hashed fJustCheck cch c below trie of
        None \<Rightarrow> None
      | Some (st, cch, None) \<Rightarrow> Some (st, cch, T, B, None)
      | Some (st, cch, Some (c, below, trie, undo)) \<Rightarrow>
          if fJustCheck then Some (st, cch, T, B, Some (c, below, trie, undo))
          else (case write_undo N p undo T B of None \<Rightarrow> None
          | Some (st, T, B) \<Rightarrow>
              if \<not> state_IsValid st then Some (st, cch, T, B, None)
              else if \<not> nc_WriteTxIndex N then Some (state_Error ''Failed to write transaction index'' st, cch, T, B, None)
              else Some (st, cch, T, B, Some (SetBestBlock (phashBlock (S p)) c, below, setBestBlock (phashBlock (S p)) trie, undo))))
      | _ \<Rightarrow> None)"

subsection \<open>The checks do not change what the view shows\<close>

lemma same_viewI:
  "view_ok (CoinsCache c' below') \<Longrightarrow> unspent (CoinsCache c' below') = unspent (CoinsCache c below) \<Longrightarrow>
   unspent below' = unspent below \<Longrightarrow> hasModifier c' = hasModifier c \<Longrightarrow> same_view c below c' below'"
  by (simp add: same_view_def)

lemma same_view_parts:
  assumes "same_view c below c' below'"
  shows "view_ok (CoinsCache c' below')" "unspent (CoinsCache c' below') = unspent (CoinsCache c below)"
    "unspent below' = unspent below" "hasModifier c' = hasModifier c"
  using assms by (simp_all add: same_view_def)

lemma prev_heights_same:
  "view_ok (CoinsCache c below) \<Longrightarrow> prev_heights is c below = Some (hts, c', below') \<Longrightarrow> same_view c below c' below'"
proof (induction "is" arbitrary: c below hts)
  case (Cons i "is")
  obtain it c1 b1 where a: "AccessCoins (op_hash (prevout i)) c below = (it, c1, b1)" by (rule prod_cases3)
  note sv = AccessCoins_shows(1) [OF Cons.prems(1) a]
  obtain hts' where "prev_heights is c1 b1 = Some (hts', c', below')"
    using Cons.prems(2) a by (auto split: option.splits)
  from Cons.IH [OF same_view_parts(1) [OF sv] this] show ?case using same_view_trans sv by blast
qed (simp add: same_view_refl)

lemma GetOutputFor_shows:
  assumes "view_ok (CoinsCache c below)" "GetOutputFor i c below = Some (out, c', below')"
  shows "same_view c below c' below'" "spent_coins (unspent (CoinsCache c below)) i \<noteq> None"
    "nValue out = spent_value (unspent (CoinsCache c below)) i"
proof -
  obtain it c1 b1 where a: "AccessCoins (op_hash (prevout i)) c below = (it, c1, b1)" by (rule prod_cases3)
  note sv = AccessCoins_shows [OF assms(1) a]
  from assms(2) a obtain x where x: "it = Some x" "IsAvailable x (unat (op_n (prevout i)))" "c' = c1" "below' = b1"
    "out = coins_vout x ! unat (op_n (prevout i))"
    by (auto simp: GetOutputFor_def split: option.splits if_splits)
  then have "spent_coins (unspent (CoinsCache c below)) i = Some x" using sv(2) by (simp add: spent_coins_visible)
  then show "same_view c below c' below'" "spent_coins (unspent (CoinsCache c below)) i \<noteq> None"
    "nValue out = spent_value (unspent (CoinsCache c below)) i"
    using sv(1) x by (simp_all add: spent_value_def)
qed

lemma p2sh_sigops_same:
  "view_ok (CoinsCache c below) \<Longrightarrow> p2sh_sigops_loop is n c below = Some (m, c', below') \<Longrightarrow> same_view c below c' below'"
proof (induction "is" arbitrary: n c below)
  case (Cons i "is")
  then obtain out c1 b1 where a: "GetOutputFor i c below = Some (out, c1, b1)" by (auto split: option.splits)
  note sv = GetOutputFor_shows(1) [OF Cons.prems(1) a]
  obtain n' where "p2sh_sigops_loop is n' c1 b1 = Some (m, c', below')" using Cons.prems(2) a by (auto split: if_splits)
  from Cons.IH [OF same_view_parts(1) [OF sv] this] show ?case using same_view_trans sv by blast
qed (simp add: same_view_refl)

lemma value_in_loop_shows:
  "view_ok (CoinsCache c below) \<Longrightarrow> value_in_loop is n c below = Some (v, c', below') \<Longrightarrow>
   same_view c below c' below' \<and> v = n + sum_list (map (spent_value (unspent (CoinsCache c below))) is)"
proof (induction "is" arbitrary: n c below)
  case (Cons i "is")
  then obtain out c1 b1 where a: "GetOutputFor i c below = Some (out, c1, b1)" by (auto split: option.splits)
  note sv = GetOutputFor_shows [OF Cons.prems(1) a]
  have "value_in_loop is (n + nValue out) c1 b1 = Some (v, c', below')" using Cons.prems(2) a by simp
  from Cons.IH [OF same_view_parts(1) [OF sv(1)] this] show ?case
    using same_view_trans sv same_view_parts(2) [OF sv(1)] by auto
qed (simp add: same_view_refl)

lemma HaveInputs_same:
  assumes "view_ok (CoinsCache c below)" "HaveInputs tx c below = (r, c', below')"
  shows "same_view c below c' below'"
  using assms have_inputs_loop_ok [OF assms(1)] same_view_refl by (auto simp: HaveInputs_def split: if_splits)

lemma script_checks_same:
  "view_ok (CoinsCache c below) \<Longrightarrow>
   script_checks_loop checker tx flags store is st pv c below = Some (st', pv', c', below') \<Longrightarrow> same_view c below c' below'"
proof (induction "is" arbitrary: pv c below)
  case (Cons i "is")
  obtain it c1 b1 where a: "AccessCoins (op_hash (prevout (vin tx ! i))) c below = (it, c1, b1)" by (rule prod_cases3)
  note sv = AccessCoins_shows(1) [OF Cons.prems(1) a]
  from Cons.prems(2) a consider "c' = c1" "below' = b1" | pv1 where
    "script_checks_loop checker tx flags store is st pv1 c1 b1 = Some (st', pv', c', below')"
    by (fastforce split: option.splits if_splits)
  then show ?case
  proof cases
    case 1
    then show ?thesis using sv by simp
  next
    case (2 pv1)
    from Cons.IH [OF same_view_parts(1) [OF sv] 2] show ?thesis using same_view_trans sv by blast
  qed
qed (simp add: same_view_refl)

lemma CheckInputs_accepts:
  assumes "view_ok (CoinsCache c below)" "\<not> IsCoinBase tx" "GetValueOut tx = Some out" "0 \<le> out"
    and "CheckInputs checker S idx tx scripts flags store pv c below = Some (st, pv', c', below')" "state_IsValid st"
  shows "same_view c below c' below'" "inputs_available (unspent (CoinsCache c below)) tx" "out \<le> value_in (unspent (CoinsCache c below)) tx"
proof -
  from assms(2,5) obtain h c1 b1 where g: "GetSpendHeight S idx c below = Some (h, c1, b1)"
    by (auto simp: CheckInputs_def split: option.splits)
  note s1 = GetSpendHeight_shows [OF assms(1) g]
  from CheckTxInputs_ok [OF same_view_parts(1) [OF s1] assms(2-4), of CValidationState_new h] obtain ok st1 c2 b2 where
    t: "CheckTxInputs tx CValidationState_new h c1 b1 = Some (ok, st1, c2, b2)" "same_view c1 b1 c2 b2"
      "ok \<longleftrightarrow> inputs_available (unspent (CoinsCache c1 b1)) tx \<and> inputs_fine (unspent (CoinsCache c1 b1)) h 0 (vin tx) \<and>
         out \<le> value_in (unspent (CoinsCache c1 b1)) tx" "if ok then st1 = CValidationState_new else \<not> state_IsValid st1"
    by blast
  have ok: "ok" using assms(2,5,6) g t(1,4) by (auto simp: CheckInputs_def split: if_splits)
  then show "inputs_available (unspent (CoinsCache c below)) tx" "out \<le> value_in (unspent (CoinsCache c below)) tx"
    using t(3) same_view_parts(2) [OF s1] by simp_all
  have "same_view c2 b2 c' below'"
    using assms(2,5) g t(1) ok script_checks_same [OF same_view_parts(1) [OF t(2)]] same_view_refl [OF same_view_parts(1) [OF t(2)]]
    by (auto simp: CheckInputs_def split: if_splits)
  then show "same_view c below c' below'" using s1 t(2) same_view_trans by blast
qed

lemma overwrites_shows:
  "view_ok (CoinsCache c below) \<Longrightarrow> overwrites txs c below = (r, c', below') \<Longrightarrow>
   same_view c below c' below' \<and> (\<not> r \<longrightarrow> (\<forall>tx \<in> set txs. unspent (CoinsCache c below) (CTransaction_GetHash tx) = None))"
proof (induction txs arbitrary: c below)
  case (Cons tx txs)
  obtain it c1 b1 where a: "AccessCoins (CTransaction_GetHash tx) c below = (it, c1, b1)" by (rule prod_cases3)
  note sv = AccessCoins_shows [OF Cons.prems(1) a]
  show ?case
  proof (cases "\<exists>x. it = Some x \<and> \<not> IsPruned x")
    case True
    then show ?thesis using Cons.prems(2) a sv(1) by auto
  next
    case False
    then have n: "unspent (CoinsCache c below) (CTransaction_GetHash tx) = None"
      by (cases it) (auto simp: unspent_def live_def sv(2) [symmetric])
    have "overwrites txs c1 b1 = (r, c', below')" using Cons.prems(2) a False by (auto split: option.splits)
    from Cons.IH [OF same_view_parts(1) [OF sv(1)] this] show ?thesis
      using n same_view_trans [OF sv(1)] same_view_parts(2) [OF sv(1)] by auto
  qed
qed (simp add: same_view_refl)

lemma check_spending_accepts:
  assumes "view_ok (CoinsCache c below)" "\<not> IsCoinBase tx" "tx_well_formed tx"
    and "check_spending N S idx p scripts just flags lockflags tx nFees nSigOps c below = Some (Inr (fees, sigops, checks, c', below'))"
  defines "u \<equiv> unspent (CoinsCache c below)"
  shows "same_view c below c' below'" "inputs_available u tx" "value_out tx \<le> value_in u tx" "fees = nFees + (value_in u tx - value_out tx)"
proof -
  have out: "GetValueOut tx = Some (value_out tx)" "0 \<le> value_out tx"
    using assms(3) by (auto simp: GetValueOut_iff value_out_def tx_well_formed_def list_all_iff MoneyRange_def intro!: sum_list_nonneg)
  obtain r c1 b1 where h1: "HaveInputs tx c below = (r, c1, b1)" by (rule prod_cases3)
  note s1 = HaveInputs_same [OF assms(1) h1]
  from assms(4) h1 have r: "r" by (auto simp: check_spending_def split: bool.splits)
  from assms(4) h1 r obtain hts c2 b2 where h2: "prev_heights (vin tx) c1 b1 = Some (hts, c2, b2)"
    by (auto simp: check_spending_def split: option.splits)
  note s2 = prev_heights_same [OF same_view_parts(1) [OF s1] h2]
  from assms(4) h1 r h2 obtain ks where h3: "SequenceLocks S tx lockflags hts p = Some (True, ks)"
    by (auto simp: check_spending_def split: option.splits bool.splits prod.splits)
  from assms(4) h1 r h2 h3 obtain n c3 b3 where h4: "(if strict_p2sh S p
            then map_option (\<lambda>(n, c, below). (nSigOps + n, c, below)) (GetP2SHSigOpCount tx c2 b2)
            else Some (nSigOps, c2, b2)) = Some (n, c3, b3)"
    by (fastforce simp: check_spending_def split: option.splits)
  then have s3: "same_view c2 b2 c3 b3"
    using p2sh_sigops_same [OF same_view_parts(1) [OF s2]] same_view_refl [OF same_view_parts(1) [OF s2]] assms(2)
    by (auto simp: GetP2SHSigOpCount_def split: if_splits)
  from assms(4) h1 r h2 h3 h4 obtain v c4 b4 where h5: "GetValueIn tx c3 b3 = Some (v, c4, b4)"
    by (fastforce simp: check_spending_def split: option.splits if_splits)
  then have s4: "same_view c3 b3 c4 b4 \<and> v = value_in (unspent (CoinsCache c3 b3)) tx"
    using value_in_loop_shows [OF same_view_parts(1) [OF s3], of "vin tx" 0] assms(2) by (simp add: GetValueIn_def value_in_def)
  from assms(4) h1 r h2 h3 h4 h5 out obtain st pv where
    h6: "CheckInputs (nc_checker N) S idx tx scripts flags just (if nc_threads N then Some [] else None) c4 b4 = Some (st, pv, c', below')"
      "state_IsValid st" and fees: "fees = nFees + (v - value_out tx)"
    by (fastforce simp: check_spending_def split: option.splits if_splits)
  have v4: "view_ok (CoinsCache c4 b4)" using same_view_parts(1) s4 by blast
  note ci = CheckInputs_accepts [OF v4 assms(2) out h6]
  have u: "unspent (CoinsCache c3 b3) = u" "unspent (CoinsCache c4 b4) = u"
    using same_view_parts(2) [OF s1] same_view_parts(2) [OF s2] same_view_parts(2) [OF s3] s4 same_view_parts(2) by (auto simp: u_def)
  show "same_view c below c' below'" using s1 s2 s3 s4 ci(1) same_view_trans by blast
  show "inputs_available u tx" "value_out tx \<le> value_in u tx" using ci(2,3) u by simp_all
  show "fees = nFees + (value_in u tx - value_out tx)" using fees s4 u by simp
qed

subsection \<open>Money in a block\<close>

lemma burned_nonneg: "tx_well_formed tx \<Longrightarrow> 0 \<le> burned tx"
  by (auto simp: burned_def tx_well_formed_def list_all_iff MoneyRange_def intro!: sum_list_nonneg)

lemma connect_tx_parts:
  assumes "connect_tx i tx h (vs, c, below, trie) = Some (vs', c', below', trie')" "\<not> IsCoinBase tx" "view_ok (CoinsCache c below)"
  obtains us c1 b1 where "same_view c below c1 b1" "UpdateCoins tx [] h c1 b1 = Some (us, c', below')"
proof -
  from assms(1,2) obtain hts sp c1 b1 t1 us where
    sc: "spend_claims 0 (vin tx) [] [] (c, below, trie) = Some (hts, sp, c1, b1, t1)" and
    uc: "UpdateCoins tx [] h c1 b1 = Some (us, c', below')"
    by (auto simp: connect_tx_def split: option.splits prod.splits)
  show thesis using that [OF _ uc] spend_claims_ok [OF sc assms(3)] by (simp add: same_view_def)
qed

lemma connect_loop_money:
  assumes "connect_loop N S idx p scripts just flags lockflags i txs (f, sig, ctl, vs, c, below, trie) =
      Some (Inr (f', sig', ctl', vs', c', below', trie'))"
    and "view_ok (CoinsCache c below)" "\<not> hasModifier c" "finite (dom (unspent (CoinsCache c below)))"
    and "list_all (\<lambda>tx. \<not> IsCoinBase tx \<and> tx_well_formed tx) txs" "distinct (map CTransaction_GetHash txs)"
    and "\<forall>tx \<in> set txs. unspent (CoinsCache c below) (CTransaction_GetHash tx) = None \<and> unspent below (CTransaction_GetHash tx) = None"
  shows "money (unspent (CoinsCache c' below')) \<le> money (unspent (CoinsCache c below)) - (f' - f)"
  using assms
proof (induction txs arbitrary: i f sig ctl vs c below trie)
  case (Cons tx txs)
  let ?u = "unspent (CoinsCache c below)" and ?t = "CTransaction_GetHash tx"
  have tx: "\<not> IsCoinBase tx" "tx_well_formed tx" "?u ?t = None" "unspent below ?t = None" using Cons.prems(5,7) by simp_all
  from Cons.prems(1) tx(1) obtain f1 sig1 chk c1 b1 where
    ch: "check_spending N S idx p scripts just flags lockflags tx f (sig + GetLegacySigOpCount tx) c below = Some (Inr (f1, sig1, chk, c1, b1))"
    by (auto simp: Let_def split: if_splits option.splits sum.splits)
  from Cons.prems(1) tx(1) ch obtain vs2 c2 b2 t2 where
    ct: "connect_tx i tx (nHeight (S p)) (vs, c1, b1, trie) = Some (vs2, c2, b2, t2)" and
    rest: "connect_loop N S idx p scripts just flags lockflags (i + 1) txs (f1, sig1, ctl @ chk, vs2, c2, b2, t2) =
      Some (Inr (f', sig', ctl', vs', c', below', trie'))"
    by (auto simp: Let_def split: if_splits option.splits)
  note a = check_spending_accepts [OF Cons.prems(2) tx(1,2) ch]
  note s1 = same_view_parts [OF a(1)]
  from connect_tx_parts [OF ct tx(1) s1(1)] obtain us c3 b3 where
    c3: "same_view c1 b1 c3 b3" "UpdateCoins tx [] (nHeight (S p)) c3 b3 = Some (us, c2, b2)" by blast
  note s3 = same_view_parts [OF c3(1)]
  have e: "unspent (CoinsCache c3 b3) = ?u" "unspent b3 = unspent below" "hasModifier c3 = hasModifier c" using s1 s3 by simp_all
  from UpdateCoins_money [of c3 b3 tx "[]" "nHeight (S p)"] s3(1) e Cons.prems(3,4) tx a(2) c3(2)
  have m: "view_ok (CoinsCache c2 b2)" "\<not> hasModifier c2" "finite (dom (unspent (CoinsCache c2 b2)))"
    "money (unspent (CoinsCache c2 b2)) = money ?u - value_in ?u tx + (value_out tx - burned tx)" "unspent b2 = unspent below"
    "\<And>t. t \<noteq> ?t \<Longrightarrow> ?u t = None \<Longrightarrow> unspent (CoinsCache c2 b2) t = None" by auto
  have "\<forall>tx \<in> set txs. unspent (CoinsCache c2 b2) (CTransaction_GetHash tx) = None \<and> unspent b2 (CTransaction_GetHash tx) = None"
  proof
    fix tx' assume t: "tx' \<in> set txs"
    then have "CTransaction_GetHash tx' \<noteq> ?t" using Cons.prems(6) by (metis distinct.simps(2) image_eqI list.set_map list.simps(9))
    then show "unspent (CoinsCache c2 b2) (CTransaction_GetHash tx') = None \<and> unspent b2 (CTransaction_GetHash tx') = None"
      using t m(5,6) Cons.prems(7) by simp
  qed
  then have "money (unspent (CoinsCache c' below')) \<le> money (unspent (CoinsCache c2 b2)) - (f' - f1)"
    using Cons.IH [OF rest m(1-3)] Cons.prems(5,6) by simp
  then show ?case using m(4) a(4) burned_nonneg [OF tx(2)] by simp
qed simp

text \<open>The coinbase adds what it pays.\<close>

lemma connect_coinbase_money:
  assumes "connect_tx i tx h (vs, c, below, trie) = Some (vs', c', below', trie')" "IsCoinBase tx" "tx_well_formed tx"
    and "view_ok (CoinsCache c below)" "\<not> hasModifier c" "finite (dom (unspent (CoinsCache c below)))"
    and "unspent (CoinsCache c below) (CTransaction_GetHash tx) = None"
  shows "view_ok (CoinsCache c' below')" "\<not> hasModifier c'" "finite (dom (unspent (CoinsCache c' below')))" "unspent below' = unspent below"
    "money (unspent (CoinsCache c' below')) \<le> money (unspent (CoinsCache c below)) + value_out tx"
    "\<And>t. t \<noteq> CTransaction_GetHash tx \<Longrightarrow> unspent (CoinsCache c' below') t = unspent (CoinsCache c below) t"
proof -
  let ?u = "unspent (CoinsCache c below)" and ?t = "CTransaction_GetHash tx"
  have m: "modify_coins (\<lambda>_. FromTx tx h) ?t c below = Some (c', below')"
    using assms(1,2) by (auto simp: connect_tx_def UpdateCoins_def split: option.splits)
  from modify_coins_ok [OF assms(4,5), of "\<lambda>_. FromTx tx h" ?t] m
  have v: "view_ok (CoinsCache c' below')" "\<not> hasModifier c'" "unspent below' = unspent below"
    and u: "unspent (CoinsCache c' below') = ?u(?t := live (FromTx tx h))" by (auto simp: FromTx_parts)
  show "view_ok (CoinsCache c' below')" "\<not> hasModifier c'" "unspent below' = unspent below" by (rule v)+
  show "finite (dom (unspent (CoinsCache c' below')))" unfolding u by (rule money_update(2) [OF assms(6)])
  have "list_all (\<lambda>out. MoneyRange (nValue out)) (vout tx)" using assms(3) by (simp add: tx_well_formed_def)
  then show "money (unspent (CoinsCache c' below')) \<le> money ?u + value_out tx"
    unfolding u money_update(1) [OF assms(6)] using assms(7) burned_nonneg [OF assms(3)] by (simp add: FromTx_value coins_at_def)
  show "unspent (CoinsCache c' below') t = ?u t" if "t \<noteq> ?t" for t unfolding u using that by simp
qed

subsection \<open>Properties\<close>

lemma GetBestBlock_cache:
  obtains best c1 b1 where "GetBestBlock (CoinsCache c below) = (best, CoinsCache c1 b1)"
  by (cases "blob_IsNull (CCoinsViewCache.cache_hashBlock c)"; cases "GetBestBlock below") auto

lemma GetBestBlock_same:
  assumes "view_ok (CoinsCache c below)" "GetBestBlock (CoinsCache c below) = (best, CoinsCache c1 b1)"
  shows "same_view c below c1 b1"
proof -
  obtain h v' where g: "GetBestBlock below = (h, v')" by fastforce
  then have "view_ok v'" "unspent v' = unspent below" using GetBestBlock_shows [of below] assms(1) by (auto simp: view_ok.simps)
  then show ?thesis using assms g by (auto simp: same_view_def view_ok.simps unspent_cache split: if_splits)
qed

lemma check_transactions_valid:
  "state_IsValid (check_transactions txs st) \<Longrightarrow> list_all (\<lambda>tx. state_IsValid (CheckTransaction tx)) txs"
  by (induction txs arbitrary: st) (auto simp: Let_def split: if_splits)

lemma CheckBlock_accepts:
  assumes "CheckBlock H P t b locked block False pow root = (st, fc, lk)" "state_IsValid st"
  obtains cb txs where "vtx block = cb # txs" "IsCoinBase cb" "list_all (\<lambda>tx. \<not> IsCoinBase tx \<and> tx_well_formed tx) txs" "tx_well_formed cb"
proof -
  have v: "state_IsValid (check_transactions (vtx block) (CheckBlockHeader H P t (blk_header block) pow))"
    and shape: "vtx block \<noteq> []" "IsCoinBase (vtx block ! 0)" "\<not> list_ex IsCoinBase (tl (vtx block))"
    using assms by (auto simp: CheckBlock_def Let_def state_DoS_invalid split: if_splits option.splits prod.splits)
  have "list_all tx_well_formed (vtx block)" using check_transactions_valid [OF v] by (simp add: CheckTransaction_ok)
  with shape that show thesis by (cases "vtx block") (auto simp: list_all_iff list_ex_iff)
qed

text \<open>A regular block: not one in which a superblock is due or voted for.\<close>

definition regular_block :: "RewardParams \<Rightarrow> block_context \<Rightarrow> int \<Rightarrow> bool" where
  "regular_block cp ctx h \<longleftrightarrow> nSuperblockStartBlock cp \<le> h \<and> \<not> IsValidBlockHeight h cp \<and> \<not> ctx_triggered ctx h"

lemma regular_block_value:
  assumes "regular_block cp ctx h" "GetValueOut (vtx block ! 0) = Some v" "IsBlockValueValid pfx cp ctx block h r = Some True"
  shows "v \<le> r"
  using assms by (auto simp: regular_block_def IsBlockValueValid_def Let_def split: if_splits)

lemma connect_transactions_money:
  assumes "connect_transactions cp N S idx block p hashed just cch c below trie = Some (st, cch', Some (c', below', trie', undo))"
    and block: "vtx block = cb # txs" "IsCoinBase cb" "list_all (\<lambda>tx. \<not> IsCoinBase tx \<and> tx_well_formed tx) txs" "tx_well_formed cb"
      "distinct (map CTransaction_GetHash (vtx block))" "EnforceBIP30 cp S p hashed = Some True"
    and view: "view_ok (CoinsCache c below)" "\<not> hasModifier c" "finite (dom (unspent below))" "unspent (CoinsCache c below) = unspent below"
    and regular: "regular_block (cp_rewards cp) (nc_rewards N) (nHeight (S p))"
  shows "money (unspent (CoinsCache c' below')) \<le> money (unspent below) + GetBlockSubsidy (nHeight (S p)) (cp_rewards cp)"
proof -
  obtain r c0 b0 where ow: "overwrites (vtx block) c below = (r, c0, b0)" by (rule prod_cases3)
  from assms(1) block(6) ow have nr: "\<not> r" by (auto simp: connect_transactions_def split: option.splits bool.splits)
  from overwrites_shows [OF view(1) ow] nr view(4) have s0: "same_view c below c0 b0"
    and new: "\<forall>tx \<in> set (vtx block). unspent below (CTransaction_GetHash tx) = None" by auto
  note v0 = same_view_parts [OF s0]
  from assms(1) block(6) ow nr obtain scripts flags lockflags cch1 where
    pre: "script_checks_needed cp N S idx p = Some scripts" "block_flags cp S p block cch = Some (flags, lockflags, cch1)"
    by (auto simp: connect_transactions_def split: option.splits)
  from assms(1) block(6) ow nr pre obtain f sig ctl vs c2 b2 t2 where
    loop: "connect_loop N S idx p scripts just flags lockflags 0 (vtx block) (0, 0, [], [], c0, b0, trie) = Some (Inr (f, sig, ctl, vs, c2, b2, t2))"
    by (auto simp: connect_transactions_def split: option.splits sum.splits)
  from assms(1) block(6) ow nr pre loop have pay: "check_payments cp N block (nHeight (S p)) f = Some st" "state_IsValid st" "c' = c2" "below' = b2"
    by (auto simp: connect_transactions_def split: option.splits prod.splits bool.splits if_splits)
  from loop block(1,2) obtain vs1 c1 b1 t1 sig1 where
    cbt: "connect_tx 0 cb (nHeight (S p)) ([], c0, b0, trie) = Some (vs1, c1, b1, t1)" and
    rest: "connect_loop N S idx p scripts just flags lockflags 1 txs (0, sig1, [], vs1, c1, b1, t1) = Some (Inr (f, sig, ctl, vs, c2, b2, t2))"
    by (auto simp: Let_def split: if_splits option.splits)
  have u0: "unspent (CoinsCache c0 b0) = unspent below" "unspent b0 = unspent below" using v0(2,3) view(4) by simp_all
  have "unspent (CoinsCache c0 b0) (CTransaction_GetHash cb) = None" using new block(1) u0 by simp
  note cbm = connect_coinbase_money [OF cbt block(2,4) v0(1) _ _ this, unfolded v0(4) u0, OF view(2,3)]
  have "\<forall>tx \<in> set txs. unspent (CoinsCache c1 b1) (CTransaction_GetHash tx) = None \<and> unspent b1 (CTransaction_GetHash tx) = None"
  proof
    fix tx assume t: "tx \<in> set txs"
    have "CTransaction_GetHash cb \<notin> CTransaction_GetHash ` set txs" using block(1,5) by simp
    then have "CTransaction_GetHash tx \<noteq> CTransaction_GetHash cb" using t by (metis imageI)
    moreover have "unspent below (CTransaction_GetHash tx) = None" using t block(1) new by simp
    ultimately show "unspent (CoinsCache c1 b1) (CTransaction_GetHash tx) = None \<and> unspent b1 (CTransaction_GetHash tx) = None"
      using cbm(4,6) by simp
  qed
  from connect_loop_money [OF rest cbm(1-3) block(3) _ this] block(1,5)
  have m: "money (unspent (CoinsCache c2 b2)) \<le> money (unspent below) + value_out cb - f" using cbm(5) by simp
  have "GetValueOut (vtx block ! 0) = Some (value_out cb)"
    using block(1,4) by (auto simp: GetValueOut_iff value_out_def tx_well_formed_def list_all_iff MoneyRange_def intro!: sum_list_nonneg)
  from regular_block_value [OF regular this] pay(1,2)
  have "value_out cb \<le> f + GetBlockSubsidy (nHeight (S p)) (cp_rewards cp)"
    by (auto simp: check_payments_def Let_def reject_invalid split: option.splits bool.splits if_splits)
  then show ?thesis using m pay(3,4) by simp
qed

text \<open>
  C1. No block creates more money than its reward: when \<open>ConnectBlock\<close> connects a regular block to
  a fresh view, with the ban on overwriting transactions in force, the value of all unspent coins
  grows by at most the subsidy of its height.  The block is not the genesis block and its transactions
  have distinct ids; what they spend, pay and claim is open.
\<close>

theorem ConnectBlock_creates_at_most_reward:
  assumes "ConnectBlock cp N block False p hashed just cch c below trie T B = Some (st, cch', T', B', Some (c', below', trie', undo))"
    and "nc_GetHash N (blk_header block) \<noteq> cp_hashGenesisBlock cp" "distinct (map CTransaction_GetHash (vtx block))"
    and "EnforceBIP30 cp (bt_store T) p hashed = Some True"
    and view: "view_ok (CoinsCache c below)" "\<not> hasModifier c" "finite (dom (unspent below))" "unspent (CoinsCache c below) = unspent below"
    and "regular_block (cp_rewards cp) (nc_rewards N) (nHeight (bt_store T p))"
  shows "money (unspent (CoinsCache c' below')) \<le> money (unspent below) + GetBlockSubsidy (nHeight (bt_store T p)) (cp_rewards cp)"
proof -
  obtain stb fc lk where cb: "CheckBlock (nc_GetHash N) (cp_consensus cp) (nc_adjusted_time N) (nc_block_filtering N) (nc_locked N)
      block False (\<not> just) (\<not> just) = (stb, fc, lk)" by (rule prod_cases3)
  from assms(1) cb have "state_IsValid stb" by (auto simp: ConnectBlock_def Let_def split: if_splits)
  from CheckBlock_accepts [OF cb this] obtain coinbase txs where block: "vtx block = coinbase # txs" "IsCoinBase coinbase"
    "list_all (\<lambda>tx. \<not> IsCoinBase tx \<and> tx_well_formed tx) txs" "tx_well_formed coinbase" .
  obtain best c1 b1 where gb: "GetBestBlock (CoinsCache c below) = (best, CoinsCache c1 b1)" by (rule GetBestBlock_cache)
  note same = same_view_parts [OF GetBestBlock_same [OF view(1) gb]]
  from assms(1,2) cb gb \<open>state_IsValid stb\<close> obtain st2 cch2 c2 trie2 where
    ct: "connect_transactions cp N (bt_store T) (bt_index T) block p hashed just cch c1 b1 trie = Some (st2, cch2, Some (c2, below', trie2, undo))"
      "c' = c2 \<or> c' = SetBestBlock (phashBlock (bt_store T p)) c2"
    by (auto simp: ConnectBlock_def Let_def split: if_splits option.splits prod.splits)
  have "unspent (CoinsCache c1 b1) = unspent b1" "finite (dom (unspent b1))" "\<not> hasModifier c1"
    using same view by simp_all
  from connect_transactions_money [OF ct(1) block assms(3,4) same(1) this(3,2,1) assms(9)]
  have "money (unspent (CoinsCache c2 below')) \<le> money (unspent below) + GetBlockSubsidy (nHeight (bt_store T p)) (cp_rewards cp)"
    using same(3) by simp
  then show ?thesis using ct(2) by auto
qed

text \<open>The block at height 200 of a chain, with the coinbase above as its only transaction, just checked.\<close>

definition sample_params_chain :: CChainParams where
  "sample_params_chain = \<lparr>cp_consensus = sample_params, cp_majority = small_majority, cp_deployments = main_deployments,
     cp_rewards = main_rewards, cp_hashGenesisBlock = [1], cp_BIP34Height = 0, cp_BIP34Hash = [1], cp_checkpoints = [],
     cp_prefixes = (\<lambda>_. [])\<rparr>"

definition sample_node :: NodeContext where
  "sample_node = \<lparr>nc_GetHash = (\<lambda>_. [2]), nc_adjusted_time = 0, nc_block_filtering = False, nc_locked = (\<lambda>_. None),
     nc_checker = (\<lambda>_ _ _. BaseSignatureChecker), nc_threads = False, nc_checkpoints = False,
     nc_rewards = \<lparr>ctx_synced = False, ctx_SPORK_13 = False, ctx_SPORK_9 = False, ctx_triggered = (\<lambda>_. False), ctx_best = (\<lambda>_. None)\<rparr>,
     nc_IsBlockPayeeValid = (\<lambda>_ _ _. True), nc_fully_valid = (\<lambda>_. True), nc_CheckDiskSpace = (\<lambda>_. True), nc_fPruneMode = False,
     nc_UndoWriteToDisk = (\<lambda>_ pos. Some pos), nc_WriteTxIndex = True\<rparr>"

definition coinbase_block :: CBlock where
  "coinbase_block = \<lparr>blk_header = CBlockHeader_SetNull, vtx = [sample_coinbase]\<rparr>"

lemma sample_coinbase_parts:
  "IsCoinBase sample_coinbase" "tx_well_formed sample_coinbase" "GetLegacySigOpCount sample_coinbase = 0"
  "GetValueOut sample_coinbase = Some 50"
proof -
  show cb: "IsCoinBase sample_coinbase"
    by (simp add: sample_coinbase_def IsCoinBase_def COutPoint_IsNull_def COutPoint_SetNull_def mk_CTxIn_def
        blob_IsNull_def blob_SetNull_def list_all_iff)
  show "tx_well_formed sample_coinbase" using cb
    by (simp add: tx_well_formed_def sample_coinbase_def mk_CTxIn_def mk_CTxOut_def MoneyRange_def MAX_MONEY_def COIN_def
        COutPoint_SetNull_def Serialize_CTransaction_def Serialize_vector_def Serialize_CTxIn_def Serialize_CTxOut_def
        Serialize_COutPoint_def Serialize_bytes_def MAX_BLOCK_SIZE_def WriteCompactSize_def blob_SetNull_def
        Serialize_u32_def ser_writedata8_def ser_writedata32_def Serialize_int64_def Serialize_u64_def ser_writedata64_def Serialize_blob_def)
  show "GetValueOut sample_coinbase = Some 50"
    by (simp add: GetValueOut_iff sample_coinbase_def mk_CTxOut_def MoneyRange_def MAX_MONEY_def COIN_def)
  show "GetLegacySigOpCount sample_coinbase = 0"
    by (simp add: GetLegacySigOpCount_def sample_coinbase_def mk_CTxIn_def mk_CTxOut_def) code_simp
qed

lemma up_sample: "up sample_store n p = (if n \<le> p then Some (p - n) else None)"
  by (induction n arbitrary: p) (auto simp: sample_store_def CBlockIndex_default_def)

lemma sample_chain: "GetAncestor sample_store 199 0 = Some (Some 0)" "GetAncestor sample_store 199 (- 1) = Some None"
  by (simp_all add: GetAncestor_up [OF wf_sample_store] up_sample) (simp add: sample_store_def)

definition new_trie :: CClaimTrieCache where
  "new_trie = CClaimTrieCache_init (CClaimTrie_init \<lparr>db_hashBlock = None, db_nCurrentHeight = None, db_nodes = Map.empty,
     db_claimById = Map.empty, db_queueRows = Map.empty, db_queueNameRows = Map.empty, db_expirationRows = Map.empty,
     db_supports = Map.empty,
     db_supportQueueRows = Map.empty, db_supportQueueNameRows = Map.empty, db_supportExpirationRows = Map.empty, db_junk = 0\<rparr> 32) True"

lemma new_trie_increment: "\<exists>trie. incrementBlock new_trie no_undo = (trie, no_undo, True)"
  by (simp add: incrementBlock_def getQueueCacheRow_def getSupportQueueCacheRow_def getExpirationQueueCacheRow_def getSupportExpirationQueueCacheRow_def new_trie_def CClaimTrieCache_init_def CClaimTrie_init_def getQueueRow_def getSupportQueueRow_def getExpirationQueueRow_def getSupportExpirationQueueRow_def)

lemma no_coins: "unspent CoinsNone = Map.empty"
  by (rule ext) (simp add: unspent_def visible.simps)

definition no_coins_cache :: CCoinsViewCache where
  "no_coins_cache = \<lparr>hasModifier = False, cache_hashBlock = blob_SetNull 256, cacheCoins = []\<rparr>"

lemma no_coins_view: "view_ok (CoinsCache no_coins_cache CoinsNone)" "\<not> hasModifier no_coins_cache"
    "unspent (CoinsCache no_coins_cache CoinsNone) = Map.empty"
  by (simp_all add: no_coins_cache_def no_coins cache_ok_def view_ok.simps) (rule ext, simp add: unspent_def visible.simps)

lemma CheckTransaction_valid: "state_IsValid (CheckTransaction tx) \<Longrightarrow> CheckTransaction tx = CValidationState_new"
  by (auto simp: CheckTransaction_def Let_def split: if_splits option.splits)

lemma coinbase_block_checked:
  "CheckBlock GetHash P 0 False locked coinbase_block False False False = (CValidationState_new, False, None)"
proof -
  have "length (Serialize_CBlock coinbase_block) \<le> MAX_BLOCK_SIZE"
    by (simp add: coinbase_block_def sample_coinbase_def mk_CTxIn_def mk_CTxOut_def Serialize_CBlock_def
        COutPoint_SetNull_def Serialize_CTransaction_def Serialize_vector_def Serialize_CTxIn_def Serialize_CTxOut_def
        Serialize_COutPoint_def Serialize_bytes_def MAX_BLOCK_SIZE_def WriteCompactSize_def blob_SetNull_def
        Serialize_CBlockHeader_def CBlockHeader_SetNull_def
        Serialize_u32_def ser_writedata8_def ser_writedata32_def Serialize_int64_def Serialize_u64_def ser_writedata64_def Serialize_blob_def)
  moreover have "CheckTransaction sample_coinbase = CValidationState_new"
    using sample_coinbase_parts(2) by (simp add: CheckTransaction_valid CheckTransaction_ok)
  ultimately show ?thesis
    using sample_coinbase_parts(1,3)
    by (simp add: CheckBlock_def CheckBlockHeader_def coinbase_block_def CBlockHeader_SetNull_def MAX_BLOCK_SIZE_def split: prod.splits)
qed


definition sample_index :: BlockTree where
  "sample_index = sample_tree\<lparr>bt_store := sample_store\<rparr>"

lemma coinbase_block_connected:
  "\<exists>cch c below trie undo. ConnectBlock sample_params_chain sample_node coinbase_block False 200 False True VersionBitsCache_Clear
     no_coins_cache CoinsNone new_trie sample_index stored_files =
     Some (CValidationState_new, cch, sample_index, stored_files, Some (c, below, trie, undo))"
proof -
  let ?cp = sample_params_chain and ?N = sample_node and ?t = "CTransaction_GetHash sample_coinbase"
  have prev: "pprev (sample_store 200) = Some 199" "nHeight (sample_store 200) = 200" "nHeight (sample_store 199) = 199" "phashBlock (sample_store p) = blob_SetNull 256"
    "nTime (sample_store 200) = 300" for p
    by (simp_all add: sample_store_def CBlockIndex_default_def)
  have ne: "blob_SetNull 256 \<noteq> [1]" by (auto simp: blob_SetNull_def dest: arg_cong [of _ _ length])
  then have "EnforceBIP30 ?cp sample_store 200 False = Some True"
    by (simp add: EnforceBIP30_def prev sample_params_chain_def sample_chain)
  moreover obtain it c0 b0 where a: "AccessCoins ?t no_coins_cache CoinsNone = (it, c0, b0)" by (rule prod_cases3)
  moreover from AccessCoins_shows [OF no_coins_view(1) a] have v0: "it = None" "view_ok (CoinsCache c0 b0)" "\<not> hasModifier c0"
    using no_coins_view(2) by (simp_all add: visible.simps no_coins_cache_def same_view_def)
  moreover obtain cch where "block_flags ?cp sample_store 200 coinbase_block VersionBitsCache_Clear = Some (0, 0, cch)"
    by (simp add: block_flags_def strict_p2sh_def prev BIP16SwitchTime_def coinbase_block_def CBlockHeader_SetNull_def
        VersionBitsState_def GetStateFor_def VersionBitsConditionChecker_def sample_params_chain_def main_deployments_def sample_chain
        VersionBitsCache_Clear_def find_known.simps)
  moreover obtain c1 b1 where "modify_coins (\<lambda>_. FromTx sample_coinbase 200) ?t c0 b0 = Some (c1, b1)"
    using modify_coins_ok [OF v0(2,3)] by blast
  then have "connect_tx 0 sample_coinbase 200 ([], c0, b0, new_trie) = Some ([], c1, b1, new_trie)"
    by (simp add: connect_tx_def sample_coinbase_parts UpdateCoins_def)
  moreover obtain trie where "incrementBlock new_trie no_undo = (trie, no_undo, True)" using new_trie_increment by blast
  moreover have "50 \<le> GetBlockSubsidy 200 main_rewards"
    by (simp add: GetBlockSubsidy_def GetBudget_def GetMasternodePayment_def GetMinerSubsidy_def GetFoundersReward_def
       Let_def) (simp add: main_rewards_def)
  then have "check_payments ?cp ?N coinbase_block 200 0 = Some CValidationState_new"
    by (simp add: check_payments_def IsBlockValueValid_def coinbase_block_def sample_coinbase_parts sample_params_chain_def
       sample_node_def IsValidBlockHeight_def Let_def) (simp add: main_rewards_def)
  ultimately have "connect_transactions ?cp ?N sample_store Map.empty coinbase_block 200 False True VersionBitsCache_Clear no_coins_cache CoinsNone new_trie =
      Some (CValidationState_new, cch, Some (c1, b1, trie, \<lparr>vtxundo = [], claim_undo = no_undo\<rparr>))"
    using sample_coinbase_parts prev
    by (simp add: connect_transactions_def script_checks_needed_def sample_node_def coinbase_block_def MAX_BLOCK_SIGOPS_def control_Wait_def)
  moreover have "GetBestBlock (CoinsCache no_coins_cache CoinsNone) = (blob_SetNull 256, CoinsCache no_coins_cache CoinsNone)"
    by (simp add: no_coins_cache_def)
  ultimately show ?thesis
    using coinbase_block_checked prev by (simp add: ConnectBlock_def sample_index_def sample_tree_def sample_node_def sample_params_chain_def)
qed

lemma ConnectBlock_creates_at_most_reward_witness:
  "\<exists>cch c below trie undo. ConnectBlock sample_params_chain sample_node coinbase_block False 200 False True VersionBitsCache_Clear
     no_coins_cache CoinsNone new_trie sample_index stored_files =
       Some (CValidationState_new, cch, sample_index, stored_files, Some (c, below, trie, undo)) \<and>
     money (unspent (CoinsCache c below)) \<le> GetBlockSubsidy 200 main_rewards"
proof -
  obtain cch c below trie undo where con: "ConnectBlock sample_params_chain sample_node coinbase_block False 200 False True
     VersionBitsCache_Clear no_coins_cache CoinsNone new_trie sample_index stored_files =
     Some (CValidationState_new, cch, sample_index, stored_files, Some (c, below, trie, undo))"
    using coinbase_block_connected by blast
  have ne: "blob_SetNull 256 \<noteq> [1]" by (auto simp: blob_SetNull_def dest: arg_cong [of _ _ length])
  have h: "nHeight (bt_store sample_index 200) = 200" "pprev (sample_store 200) = Some 199" "phashBlock (sample_store 0) = blob_SetNull 256"
    by (simp_all add: sample_index_def sample_store_def CBlockIndex_default_def)
  have "money (unspent (CoinsCache c below)) \<le> money (unspent CoinsNone) + GetBlockSubsidy 200 main_rewards"
    using ConnectBlock_creates_at_most_reward [OF con _ _ _ no_coins_view(1,2)] h ne no_coins no_coins_view(3)
    by (simp add: EnforceBIP30_def sample_index_def sample_params_chain_def sample_node_def coinbase_block_def sample_chain
        regular_block_def IsValidBlockHeight_def) (simp add: main_rewards_def)
  then show ?thesis using con by (auto simp: no_coins money_def)
qed

end
