(* ===== verification/Spec2Isabelle.thy ===== *)
theory Spec2Isabelle
  imports ClaimHash Base58 Bloom BestChain ConnectBlock
begin

text \<open>
  A verification library for the consensus core of a claim-trie blockchain node: a Bitcoin-style
  full node (\<open>src/Blockchain\<close>) that also keeps a trie of names, each owned by the claim with
  the largest stake behind it, whose root hash goes into every block header.

  \<^bold>\<open>The parts of the program and their theories.\<close>

  \<^item> 256-bit arithmetic (\<open>arith_uint256.h\<close>, \<open>arith_uint256.cpp\<close>): \<open>ArithUint256\<close> models the
    eight 32-bit digits and the loops over them, \<open>Compact\<close> the compact form of targets.  Every
    operation is shown to compute the number it denotes modulo \<open>2 ^ 256\<close>.
  \<^item> Opaque blobs (\<open>uint256.h\<close>, \<open>uint256.cpp\<close>): \<open>Uint256\<close>, byte lists and their hexadecimal text.
  \<^item> Block index (\<open>chain.h\<close>, \<open>chain.cpp\<close>): \<open>Chain\<close>.  A \<open>CBlockIndex*\<close> is an identifier into a
    store of records; the walk over the skip list is shown equal to following the parents.
  \<^item> Proof of work (\<open>pow.cpp\<close>): \<open>Pow\<close>, the retarget and the check of a hash.
  \<^item> Hash functions (\<open>crypto/\<close>, \<open>hash.h\<close>): \<open>Hashing\<close>.  The buffered classes share one contract,
    \<open>block_stream\<close>; they return the digest of what was written however it was split.
  \<^item> Standard containers: \<open>Containers\<close>, ordered maps and heaps with the laws of their comparison.
  \<^item> Claim trie (\<open>claimtrie.h\<close>, \<open>claimtrie.cpp\<close>): \<open>ClaimTypes\<close> has claims, supports and nodes;
    \<open>ClaimTrie\<close> the base trie over its database; \<open>ClaimCache\<close> the working copy with its node
    cache and queues; \<open>ClaimBlocks\<close> the operations of transactions and blocks;
    \<open>ClaimMerkle\<close> the root hash, proofs and flushing.
  \<^item> Claim trie, proofs: \<open>ClaimLookup\<close> says what a cache holds for a name and what insertion,
    removal and pruning do to it; \<open>ClaimQueues\<close> what the six cached queues hold (the contract
    \<open>row_cache\<close>) and that the rows by height and by name agree; \<open>ClaimSteps\<close> follows them
    through a block; \<open>ClaimRows\<close> shows that no operation on the way back takes an expiration row
    away; \<open>ClaimHash\<close> shows that the root hash computed over the marked names is the hash of the
    whole trie.

  \<^item> Text, numbers and streams: \<open>StrEncodings\<close> (\<open>utilstrencodings.cpp\<close>: hexadecimal, base 32 and
    64, integers), \<open>Amounts\<close> (\<open>amount.cpp\<close>, \<open>utilmoneystr.cpp\<close>), \<open>Serialize\<close> (\<open>serialize.h\<close>,
    \<open>streams.h\<close>: compact sizes, variable integers, vectors, \<open>CDataStream\<close>), \<open>Base58\<close>
    (\<open>base58.cpp\<close>: addresses).  What is written is read back, and the encodings that are accepted
    are the canonical ones.
  \<^item> Transactions and scripts: \<open>Transactions\<close> (\<open>primitives/\<close>), \<open>Script\<close> (\<open>script/script.h\<close>:
    numbers, parsing, signature counts), \<open>Standard\<close> (\<open>nameclaim.cpp\<close>, \<open>script/standard.cpp\<close>,
    \<open>compressor.cpp\<close>), \<open>Interpreter\<close> (\<open>script/interpreter.cpp\<close>: the stack machine, the signed
    hash, \<open>VerifyScript\<close>).
  \<^item> Merkle trees and filters: \<open>Merkle\<close> (\<open>consensus/merkle.cpp\<close>, \<open>merkleblock.cpp\<close>) shows the
    computation in constant space equal to the tree; \<open>Bloom\<close> (\<open>bloom.cpp\<close>) adds the filters.
  \<^item> Coins: \<open>Coins\<close> (\<open>coins.h\<close>, \<open>coins.cpp\<close>, \<open>txdb.cpp\<close>) has the outputs of a transaction, views,
    caches over views and flushing; a cache of any depth refines a map of unspent coins.
  \<^item> Rewards and undo: \<open>Rewards\<close> (\<open>main.cpp\<close>, \<open>governance-classes.cpp\<close>), \<open>Undo\<close> (\<open>undo.h\<close>) and
    \<open>Connect\<close> (\<open>main.cpp\<close>): spending the coins and claims of a block and taking it back,
    which restores the coins unless an assertion about the claim trie fails.
  \<^item> Version bits: \<open>VersionBits\<close> (\<open>versionbits.cpp\<close>), the cached automaton of a deployment.
  \<^item> Validation (\<open>main.cpp\<close>, \<open>consensus/validation.h\<close>, \<open>script/sigcache.cpp\<close>, \<open>checkpoints.cpp\<close>):
    \<open>Validation\<close> has the verdict state and the checks of a transaction, alone, against the coins it
    spends and against its scripts; \<open>BlockChecks\<close> the checks of headers and blocks, alone and in
    their chain; \<open>BlockTree\<close> the tree of blocks around the active chain, with the candidates for
    its tip, the search for the chain of most work and the marks of failed blocks; \<open>BestChain\<close>
    shows that this search ends with the best usable block; \<open>BlockFiles\<close> has where blocks are
    stored and which files are pruned; \<open>ConnectBlock\<close> puts the checks, coins, claims, rewards and
    undo data of a block together and bounds the money that a block creates.

  \<^bold>\<open>How the parts interact.\<close>  A block arrives as a header: \<open>AcceptBlockHeader\<close> checks it
  (\<open>BlockChecks\<close>, which calls \<open>Pow\<close>, \<open>Chain\<close> and \<open>VersionBits\<close>) and adds it to the tree.  Its
  transactions are checked by \<open>CheckBlock\<close> (\<open>Merkle\<close>, \<open>Validation\<close>), stored (\<open>BlockFiles\<close>) and
  linked by \<open>ReceivedBlockTransactions\<close>.  \<open>FindMostWorkChain\<close> chooses a tip; \<open>ConnectBlock\<close> spends coins
  (\<open>Coins\<close>, \<open>Validation\<close>, \<open>Interpreter\<close>) and claims (\<open>Standard\<close> finds them in the outputs,
  \<open>ClaimBlocks\<close> adds them), pays rewards (\<open>Rewards\<close>), and leaves the data that \<open>DisconnectBlock\<close>
  takes it back with (\<open>Undo\<close>, \<open>Connect\<close>).

  \<^bold>\<open>How state and operations correspond.\<close>  A C++ object is a record, a member function takes
  the record and returns the new one, and a result through a reference argument is returned
  beside it.  A definition has the name of the function it models; where that name is a constant
  of the library or two classes share it, a prefix says the class (\<open>trie_\<close>, \<open>node_\<close>,
  \<open>cache_\<close>).  An ordered \<open>std::map\<close> is an association list in the order of its comparison, or
  a function to \<open>option\<close> where the order is not used.  Nodes of the trie own their children, so
  a node is a tree; a node copied into the cache shares its children, and every walk of the code
  looks a position up in the cache before it follows a child, which makes sharing and copying
  the same.  A result read through an iterator that points nowhere, a division by zero and an
  assertion are \<open>None\<close> or an error value.

  \<^bold>\<open>Bounds and fuel.\<close>  Digits of numbers, hash words, nonces and compact targets are words of
  their width.  Heights, times and amounts are integers (the code keeps them far below its
  \<open>int\<close> and \<open>int64_t\<close>), with the wrap-around written out where a caller can reach it: amounts,
  variable integers, script numbers.  \<open>recursiveComputeMerkleHash\<close> takes fuel: two more than the
  longest dirty name, shown to be enough.  The walks over the block index, the skip list and the
  candidates, the traversal of partial Merkle trees and the loops of the script machine that
  depend on data are \<open>partial_function (option)\<close> or structural, and shown to end where the code
  relies on it: on a well-formed index, for every script.

  \<^bold>\<open>Parameters.\<close>  Signature verification (OpenSSL, secp256k1), the proof-of-work hash, random
  numbers, the clock, the database and its cursor, the spork and the map of transaction locks enter
  as arguments of the definitions that use them.

  \<^bold>\<open>Not modelled.\<close>  Sockets and threads, the wallet, RPC, the message handlers, masternodes,
  governance and mixing: input and output, wall-clock time and signed messages around a consensus
  core that is modelled here.  The memory pool and fee estimation keep indexes over
  multi-index containers and floating point; they do not decide what is valid.  The vendored hash
  primitives of \<open>hello/\<close> are a parameter.  Of connecting a block, the optional indexes by address,
  spending and time are left out, and the script checks of the worker threads are run in order.
  Log lines are left out throughout.
\<close>

end
